(* ===== verification/Prelude.thy ===== *)
theory Prelude
  imports Main "HOL-Library.Word" "HOL-Library.AList"
begin

text \<open>
  Shared vocabulary of the development: Python errors as values, the loops every reader and
  writer of the archive format is built from, byte buffers with explicit offsets, and the
  interface (\<open>codec\<close>) that each binary member's encoder and decoder satisfy.

  Python's \<open>int\<close> is \<open>int\<close>, or \<open>nat\<close> where the code can only produce a non-negative value
  (a length, an \<open>enumerate\<close> index, a decoded varint). A \<open>bytes\<close> object is a list of 8-bit
  words. A \<open>dict\<close> is an association list with distinct keys in insertion order, updated by
  the library's \<open>AList.update\<close>, which replaces in place or appends exactly as Python does.
\<close>

unbundle bit_operations_syntax

declare Let_def [simp]

named_theorems res_simps \<open>evaluation of the error-passing combinators\<close>
named_theorems at_simps \<open>splitting a buffer position along an encoder's output\<close>

section \<open>Errors as values\<close>

datatype pyerr =
    ValueError
  | IndexError
  | KeyError
  | TypeError
  | StructError
  | OverflowError
  | UnicodeError
  | FileExistsError
  | AttributeError
  | PlainException
  | RunTableError
  | SignatureFormatError

type_synonym 'a res = "pyerr + 'a"

definition bindE :: "'a res \<Rightarrow> ('a \<Rightarrow> 'b res) \<Rightarrow> 'b res" where
  "bindE m f = (case m of Inl e \<Rightarrow> Inl e | Inr x \<Rightarrow> f x)"

definition is_ok :: "'a res \<Rightarrow> bool" where
  "is_ok m = (case m of Inl _ \<Rightarrow> False | Inr _ \<Rightarrow> True)"

lemma bindE_Inl [simp, res_simps]: "bindE (Inl e) f = Inl e"
  by (simp add: bindE_def)

lemma bindE_Inr [simp, res_simps]: "bindE (Inr x) f = f x"
  by (simp add: bindE_def)

lemma is_ok_simps [simp, res_simps]: "\<not> is_ok (Inl e)" "is_ok (Inr x)"
  by (simp_all add: is_ok_def)

lemma is_okE: "is_ok m \<Longrightarrow> (\<And>x. m = Inr x \<Longrightarrow> P) \<Longrightarrow> P"
  by (cases m) simp_all

lemma is_ok_iff: "is_ok m \<longleftrightarrow> (\<exists>x. m = Inr x)"
  by (cases m) simp_all

lemma bindE_eq_Inr: "bindE m f = Inr y \<longleftrightarrow> (\<exists>x. m = Inr x \<and> f x = Inr y)"
  by (cases m) simp_all

lemma bindE_InrE: "bindE m f = Inr y \<Longrightarrow> (\<And>x. m = Inr x \<Longrightarrow> f x = Inr y \<Longrightarrow> P) \<Longrightarrow> P"
  by (cases m) simp_all

lemma bindE_eq_Inl: "bindE m f = Inl e \<longleftrightarrow> m = Inl e \<or> (\<exists>x. m = Inr x \<and> f x = Inl e)"
  by (cases m) simp_all

lemma bindE_assoc: "bindE (bindE m f) g = bindE m (\<lambda>x. bindE (f x) g)"
  by (cases m) simp_all

lemma bindE_cong [fundef_cong]:
  "m = n \<Longrightarrow> (\<And>x. n = Inr x \<Longrightarrow> f x = g x) \<Longrightarrow> bindE m f = bindE n g"
  by (cases n) simp_all

lemma InrE: "Inr x = Inr y \<Longrightarrow> (x = y \<Longrightarrow> P) \<Longrightarrow> P"
  by simp

text \<open>A comprehension or loop whose body may raise: the first error stops it.\<close>

fun mapE :: "('a \<Rightarrow> 'b res) \<Rightarrow> 'a list \<Rightarrow> 'b list res" where
  "mapE f [] = Inr []"
| "mapE f (x # xs) = bindE (f x) (\<lambda>y. bindE (mapE f xs) (\<lambda>ys. Inr (y # ys)))"

fun foldE :: "('s \<Rightarrow> 'a \<Rightarrow> 's res) \<Rightarrow> 's \<Rightarrow> 'a list \<Rightarrow> 's res" where
  "foldE f s [] = Inr s"
| "foldE f s (x # xs) = bindE (f s x) (\<lambda>s'. foldE f s' xs)"

definition concatE :: "('a \<Rightarrow> 'b list res) \<Rightarrow> 'a list \<Rightarrow> 'b list res" where
  "concatE f xs = bindE (mapE f xs) (\<lambda>ys. Inr (concat ys))"

lemma mapE_cong [fundef_cong]:
  "xs = ys \<Longrightarrow> (\<And>x. x \<in> set ys \<Longrightarrow> f x = g x) \<Longrightarrow> mapE f xs = mapE g ys"
  by (induction ys arbitrary: xs) auto

lemma concatE_cong [fundef_cong]:
  "xs = ys \<Longrightarrow> (\<And>x. x \<in> set ys \<Longrightarrow> f x = g x) \<Longrightarrow> concatE f xs = concatE g ys"
  unfolding concatE_def by (simp cong: mapE_cong)

lemma foldE_cong [fundef_cong]:
  "s = t \<Longrightarrow> xs = ys \<Longrightarrow> (\<And>s x. x \<in> set ys \<Longrightarrow> f s x = g s x) \<Longrightarrow> foldE f s xs = foldE g t ys"
  by (induction ys arbitrary: s t xs) (auto intro!: bindE_cong)

lemma mapE_ok: "is_ok (mapE f xs) \<longleftrightarrow> (\<forall>x\<in>set xs. is_ok (f x))"
  by (induction xs) (auto simp: is_ok_iff bindE_eq_Inr)

lemma mapE_Inr: "(\<And>x. x \<in> set xs \<Longrightarrow> f x = Inr (g x)) \<Longrightarrow> mapE f xs = Inr (map g xs)"
  by (induction xs) simp_all

lemma mapE_eq_Inr: "mapE f xs = Inr ys \<longleftrightarrow> list_all2 (\<lambda>x y. f x = Inr y) xs ys"
  by (induction xs arbitrary: ys) (auto simp: bindE_eq_Inr list_all2_Cons1)

lemma list_all2_source: "list_all2 P xs ys \<Longrightarrow> y \<in> set ys \<Longrightarrow> \<exists>x\<in>set xs. P x y"
  by (induction rule: list_all2_induct) auto

lemma mapE_length: "mapE f xs = Inr ys \<Longrightarrow> length ys = length xs"
  by (auto simp: mapE_eq_Inr dest: list_all2_lengthD)

lemma concatE_Nil [simp, res_simps]: "concatE f [] = Inr []"
  by (simp add: concatE_def)

lemma concatE_Cons [simp, res_simps]:
  "concatE f (x # xs) = bindE (f x) (\<lambda>b. bindE (concatE f xs) (\<lambda>bs. Inr (b @ bs)))"
  by (cases "f x"; cases "mapE f xs") (simp_all add: concatE_def)

lemma concatE_append:
  "concatE f (xs @ ys) = bindE (concatE f xs) (\<lambda>b. bindE (concatE f ys) (\<lambda>c. Inr (b @ c)))"
proof (induction xs)
  case Nil
  show ?case by (cases "concatE f ys") simp_all
next
  case (Cons x xs)
  then show ?case
    by (cases "f x"; cases "concatE f xs"; cases "concatE f ys") simp_all
qed

lemma concatE_ok: "is_ok (concatE f xs) \<longleftrightarrow> (\<forall>x\<in>set xs. is_ok (f x))"
  by (simp add: concatE_def is_ok_iff bindE_eq_Inr flip: mapE_ok[unfolded is_ok_iff])

lemma concatE_Inr:
  "(\<And>x. x \<in> set xs \<Longrightarrow> f x = Inr (g x)) \<Longrightarrow> concatE f xs = Inr (concat (map g xs))"
  by (simp add: concatE_def mapE_Inr)

lemma foldE_append: "foldE f s (xs @ ys) = bindE (foldE f s xs) (\<lambda>s'. foldE f s' ys)"
  by (induction xs arbitrary: s) (simp_all add: bindE_assoc)

lemma foldE_Inr: "(\<And>s x. x \<in> set xs \<Longrightarrow> f s x = Inr (g s x)) \<Longrightarrow> foldE f s xs = Inr (foldl g s xs)"
  by (induction xs arbitrary: s) simp_all

lemma foldE_invariant:
  assumes run: "foldE f s xs = Inr t" and init: "P s"
    and step: "\<And>s x s'. P s \<Longrightarrow> x \<in> set xs \<Longrightarrow> f s x = Inr s' \<Longrightarrow> P s'"
  shows "P t"
proof -
  have "set ys \<subseteq> set xs \<Longrightarrow> foldE f s ys = Inr t \<Longrightarrow> P s \<Longrightarrow> P t" for ys s
  proof (induction ys arbitrary: s)
    case Nil
    then show ?case by simp
  next
    case (Cons y ys)
    from Cons.prems(2) obtain s' where s': "f s y = Inr s'" "foldE f s' ys = Inr t"
      unfolding foldE.simps bindE_eq_Inr by blast
    have "P s'" by (rule step[OF Cons.prems(3) _ s'(1)]) (use Cons.prems(1) in simp)
    with Cons.IH[of s'] Cons.prems(1) s'(2) show ?case by simp
  qed
  from this[of xs s] run init show ?thesis by simp
qed

section \<open>Byte buffers\<close>

type_synonym byte = "8 word"
type_synonym bytes = "byte list"

text \<open>\<open>data[i]\<close> for a non-negative \<open>i\<close>, and the slice \<open>data[i:j]\<close> (which clips).\<close>

definition byte_at :: "bytes \<Rightarrow> nat \<Rightarrow> nat res" where
  "byte_at data i = (if i < length data then Inr (unat (data ! i)) else Inl IndexError)"

definition slice :: "'a list \<Rightarrow> nat \<Rightarrow> nat \<Rightarrow> 'a list" where
  "slice xs i j = take (j - i) (drop i xs)"

text \<open>\<open>xs[i]\<close>: a negative index counts from the end.\<close>

definition py_nth :: "'a list \<Rightarrow> int \<Rightarrow> 'a res" where
  "py_nth xs i =
     (if 0 \<le> i \<and> i < int (length xs) then Inr (xs ! nat i)
      else if - int (length xs) \<le> i \<and> i < 0 then Inr (xs ! nat (int (length xs) + i))
      else Inl IndexError)"

text \<open>\<open>at data off bs\<close>: the bytes \<open>bs\<close> stand in \<open>data\<close> at offset \<open>off\<close>.\<close>

definition at :: "'a list \<Rightarrow> nat \<Rightarrow> 'a list \<Rightarrow> bool" where
  "at data off bs \<longleftrightarrow> off + length bs \<le> length data \<and> take (length bs) (drop off data) = bs"

lemma at_intro: "at (pre @ bs @ post) (length pre) bs"
  by (simp add: at_def)

lemma at_whole [simp]: "at bs 0 bs"
  by (simp add: at_def)

lemma at_iff: "at data off bs \<longleftrightarrow> (\<exists>pre post. data = pre @ bs @ post \<and> length pre = off)"
proof
  assume a: "at data off bs"
  then have "data = take off data @ bs @ drop (off + length bs) data"
    unfolding at_def by (metis append_take_drop_id drop_drop add.commute)
  moreover have "length (take off data) = off"
    using a by (simp add: at_def)
  ultimately show "\<exists>pre post. data = pre @ bs @ post \<and> length pre = off" by blast
next
  assume "\<exists>pre post. data = pre @ bs @ post \<and> length pre = off"
  then show "at data off bs" using at_intro by blast
qed

lemma at_append [at_simps]:
  "at data off (xs @ ys) \<longleftrightarrow> at data off xs \<and> at data (off + length xs) ys"
proof
  assume "at data off (xs @ ys)"
  then obtain pre post where d: "data = pre @ (xs @ ys) @ post" "length pre = off"
    by (auto simp: at_iff)
  then have "at data off xs" using at_intro[of pre xs "ys @ post"] by simp
  moreover have "at data (off + length xs) ys"
    using d at_intro[of "pre @ xs" ys post] by simp
  ultimately show "at data off xs \<and> at data (off + length xs) ys" ..
next
  assume a: "at data off xs \<and> at data (off + length xs) ys"
  then obtain pre post where d: "data = pre @ xs @ post" "length pre = off"
    by (auto simp: at_iff)
  have "take (length ys) post = ys" "length ys \<le> length post"
    using a d by (simp_all add: at_def)
  then obtain post' where "post = ys @ post'" by (metis append_take_drop_id)
  then show "at data off (xs @ ys)" using d at_intro[of pre "xs @ ys" post'] by simp
qed

lemma at_Nil [simp]: "at data off [] \<longleftrightarrow> off \<le> length data"
  by (simp add: at_def)

lemma at_Cons [at_simps]:
  "at data off (x # xs) \<longleftrightarrow> off < length data \<and> data ! off = x \<and> at data (Suc off) xs"
proof -
  have "at data off [x] \<longleftrightarrow> off < length data \<and> data ! off = x"
    by (auto simp: at_def Suc_le_eq take_Suc_conv_app_nth hd_drop_conv_nth take_Suc drop_Suc
        split: if_splits)
  then show ?thesis using at_append[of data off "[x]" xs] by simp
qed

lemma at_le: "at data off bs \<Longrightarrow> off + length bs \<le> length data"
  by (simp add: at_def)

lemma at_slice: "at data off bs \<Longrightarrow> n = off + length bs \<Longrightarrow> slice data off n = bs"
  by (simp add: at_def slice_def)

lemma at_byte_at: "at data off (b # bs) \<Longrightarrow> byte_at data off = Inr (unat b)"
  by (simp add: byte_at_def at_Cons)

lemma at_drop: "off \<le> length data \<Longrightarrow> at (drop off data) 0 bs \<longleftrightarrow> at data off bs"
  by (auto simp: at_def)

section \<open>Counted decoding loops\<close>

text \<open>
  \<open>for _ in range(n): x, offset = dec(data, offset); out.append(x)\<close>.
\<close>

fun repeat_dec :: "(bytes \<Rightarrow> nat \<Rightarrow> ('a \<times> nat) res) \<Rightarrow> nat \<Rightarrow> bytes \<Rightarrow> nat \<Rightarrow> ('a list \<times> nat) res" where
  "repeat_dec dec 0 data off = Inr ([], off)"
| "repeat_dec dec (Suc n) data off =
     bindE (dec data off) (\<lambda>(x, off').
     bindE (repeat_dec dec n data off') (\<lambda>(xs, off''). Inr (x # xs, off'')))"

lemma repeat_dec_length: "repeat_dec dec n data off = Inr (xs, off') \<Longrightarrow> length xs = n"
  by (induction n arbitrary: off xs off') (auto simp: bindE_eq_Inr)

section \<open>The codec interface\<close>

text \<open>
  What every encoder/decoder pair of the format promises: whenever encoding succeeds, decoding
  at the place where the bytes stand returns the value and the offset just behind them.
\<close>

locale codec =
  fixes enc :: "'a \<Rightarrow> bytes res"
    and dec :: "bytes \<Rightarrow> nat \<Rightarrow> ('a \<times> nat) res"
  assumes dec_enc: "enc v = Inr bs \<Longrightarrow> at data off bs \<Longrightarrow> dec data off = Inr (v, off + length bs)"
begin

lemma enc_inj: "enc v = Inr bs \<Longrightarrow> enc w = Inr bs \<Longrightarrow> v = w"
  using dec_enc[of v bs bs 0] dec_enc[of w bs bs 0] by simp

lemma enc_prefix_free:
  "enc v = Inr bs \<Longrightarrow> enc w = Inr (bs @ cs) \<Longrightarrow> v = w \<and> cs = []"
  using dec_enc[of v bs "bs @ cs" 0] dec_enc[of w "bs @ cs" "bs @ cs" 0]
    at_intro[of "[]" bs cs] by auto

lemma repeat_dec_enc:
  "concatE enc vs = Inr bs \<Longrightarrow> at data off bs \<Longrightarrow>
   repeat_dec dec (length vs) data off = Inr (vs, off + length bs)"
proof (induction vs arbitrary: bs off)
  case Nil
  then show ?case by simp
next
  case (Cons v vs)
  then obtain b c where b: "enc v = Inr b" "concatE enc vs = Inr c" "bs = b @ c"
    by (auto simp: bindE_eq_Inr)
  with Cons.prems have a: "at data off b" "at data (off + length b) c"
    by (simp_all add: at_append)
  from Cons.IH[OF b(2) a(2)] dec_enc[OF b(1) a(1)] b(3) show ?case
    by (simp add: add.assoc)
qed

end

text \<open>A codec whose records all have the same width, as the \<open>struct\<close> tables have.\<close>

locale fixed_codec = codec +
  fixes width :: nat
  assumes enc_width: "enc v = Inr bs \<Longrightarrow> length bs = width"
begin

lemma concatE_width: "concatE enc vs = Inr bs \<Longrightarrow> length bs = length vs * width"
  by (induction vs arbitrary: bs) (auto simp: bindE_eq_Inr dest: enc_width)

end

section \<open>Lists, sorting and association lists\<close>

abbreviation dict_get :: "('k \<times> 'v) list \<Rightarrow> 'k \<Rightarrow> 'v option" where
  "dict_get \<equiv> map_of"

abbreviation dict_set :: "'k \<Rightarrow> 'v \<Rightarrow> ('k \<times> 'v) list \<Rightarrow> ('k \<times> 'v) list" where
  "dict_set \<equiv> AList.update"

abbreviation dict_pop :: "'k \<Rightarrow> ('k \<times> 'v) list \<Rightarrow> ('k \<times> 'v) list" where
  "dict_pop \<equiv> AList.delete"

abbreviation dict_keys :: "('k \<times> 'v) list \<Rightarrow> 'k list" where
  "dict_keys \<equiv> map fst"

text \<open>\<open>dict.update\<close>: the entries of the second dictionary, in order, set in the first.\<close>

definition dict_update :: "('k \<times> 'v) list \<Rightarrow> ('k \<times> 'v) list \<Rightarrow> ('k \<times> 'v) list" where
  "dict_update d e = foldl (\<lambda>acc kv. AList.update (fst kv) (snd kv) acc) d e"

lemma dict_get_set: "dict_get (dict_set k v d) = (dict_get d)(k \<mapsto> v)"
  by (rule update_conv')

lemma dict_get_pop: "dict_get (dict_pop k d) = (dict_get d)(k := None)"
  by (rule delete_conv')

lemma dict_keys_set:
  "dict_keys (dict_set k v d) = (if k \<in> set (dict_keys d) then dict_keys d else dict_keys d @ [k])"
  by (induction d) auto

lemma dict_get_update_notin:
  "k \<notin> set (dict_keys e) \<Longrightarrow> dict_get (dict_update d e) k = dict_get d k"
  unfolding dict_update_def
  by (induction e arbitrary: d) (auto simp: dict_get_set)

lemma dict_get_update:
  "distinct (dict_keys e) \<Longrightarrow>
   dict_get (dict_update d e) k = (case dict_get e k of None \<Rightarrow> dict_get d k | Some v \<Rightarrow> Some v)"
proof (induction e arbitrary: d)
  case Nil
  then show ?case by (simp add: dict_update_def)
next
  case (Cons p e)
  obtain a b where p: "p = (a, b)" by (cases p)
  have step: "dict_update d (p # e) = dict_update (AList.update a b d) e"
    by (simp add: dict_update_def p)
  note step' = step [unfolded p]
  show ?case
  proof (cases "k = a")
    case True
    with Cons.prems p have "k \<notin> set (dict_keys e)" by simp
    then show ?thesis
      using True by (simp add: step' p dict_get_update_notin dict_get_set)
  next
    case False
    with Cons p show ?thesis by (simp add: step' dict_get_set split: option.split)
  qed
qed

lemma map_of_zip_upt_Some:
  assumes "distinct xs"
  shows "map_of (zip xs [0..<length xs]) x = Some i \<longleftrightarrow> i < length xs \<and> xs ! i = x"
proof -
  from assms have "map_of (zip xs [0..<length xs]) x = Some i \<longleftrightarrow> (x, i) \<in> set (zip xs [0..<length xs])"
    by (intro map_of_eq_Some_iff) simp
  also have "\<dots> \<longleftrightarrow> i < length xs \<and> xs ! i = x"
    by (auto simp: set_zip)
  finally show ?thesis .
qed

lemma map_of_zip_upt_None: "map_of (zip xs [0..<length xs]) x = None \<longleftrightarrow> x \<notin> set xs"
  by (simp add: map_of_zip_is_None)

lemma update_notin: "k \<notin> set (map fst al) \<Longrightarrow> AList.update k v al = al @ [(k, v)]"
  by (induction al) auto

end
