(* ===== verification/PyStruct.thy ===== *)
theory PyStruct
  imports Prelude
begin

text \<open>
  The standard library's \<open>struct\<close> module as the archive tables use it: little-endian formats
  (\<open>"<..."\<close>, no alignment) of unsigned fields, one signed field and padding. \<open>pack\<close> raises
  \<open>struct.error\<close> when a value does not fit its field or the number of values is wrong;
  \<open>unpack_from\<close> raises it when the buffer ends before the last field.
\<close>

section \<open>Little-endian integers\<close>

fun le_bytes :: "nat \<Rightarrow> nat \<Rightarrow> bytes" where
  "le_bytes 0 v = []"
| "le_bytes (Suc n) v = of_nat (v mod 256) # le_bytes n (v div 256)"

fun le_val :: "bytes \<Rightarrow> nat" where
  "le_val [] = 0"
| "le_val (b # bs) = unat b + 256 * le_val bs"

lemma unat_byte_less: "unat (b :: byte) < 256"
proof -
  have "unat b < 2 ^ LENGTH(8)" by (rule unsigned_less)
  then show ?thesis by simp
qed

lemma le_bytes_numeral [simp]:
  "le_bytes (numeral k) v = of_nat (v mod 256) # le_bytes (pred_numeral k) (v div 256)"
proof -
  have "(numeral k :: nat) = Suc (pred_numeral k)" by (rule numeral_eq_Suc)
  then show ?thesis by (simp only: le_bytes.simps)
qed

lemma length_le_bytes [simp]: "length (le_bytes n v) = n"
  by (induction n arbitrary: v) simp_all

lemma unat_of_nat_byte: "unat (of_nat (v mod 256) :: byte) = v mod 256"
  by (simp add: unat_of_nat)

lemma le_val_le_bytes: "le_val (le_bytes n v) = v mod 256 ^ n"
proof (induction n arbitrary: v)
  case 0
  then show ?case by simp
next
  case (Suc n)
  have "v mod 256 ^ Suc n = v mod 256 + 256 * (v div 256 mod 256 ^ n)"
    by (simp add: mod_mult2_eq mult.commute)
  with Suc show ?case by (simp add: unat_of_nat_byte)
qed

lemma le_val_less: "le_val bs < 256 ^ length bs"
proof (induction bs)
  case Nil
  then show ?case by simp
next
  case (Cons b bs)
  have "unat b < 256" by (rule unat_byte_less)
  with Cons show ?case by simp
qed

lemma le_bytes_le_val: "length bs = n \<Longrightarrow> le_bytes n (le_val bs) = bs"
proof (induction n arbitrary: bs)
  case 0
  then show ?case by simp
next
  case (Suc n)
  then obtain b cs where bs: "bs = b # cs" "length cs = n" by (cases bs) auto
  have "unat b < 256" by (rule unat_byte_less)
  with Suc.IH[OF bs(2)] bs show ?case by simp
qed

text \<open>\<open>int.to_bytes(n, "little")\<close> raises \<open>OverflowError\<close>, unlike \<open>struct.pack\<close>.\<close>

definition to_bytes_le :: "nat \<Rightarrow> int \<Rightarrow> bytes res" where
  "to_bytes_le n v = (if 0 \<le> v \<and> v < 256 ^ n then Inr (le_bytes n (nat v)) else Inl OverflowError)"

lemma to_bytes_le_val: "to_bytes_le n v = Inr bs \<Longrightarrow> int (le_val bs) = v"
  by (auto simp: to_bytes_le_def le_val_le_bytes zmod_int split: if_splits)

lemma to_bytes_le_length: "to_bytes_le n v = Inr bs \<Longrightarrow> length bs = n"
  by (auto simp: to_bytes_le_def split: if_splits)

section \<open>Formats\<close>

datatype fld = U nat | S nat | X nat

fun fld_size :: "fld \<Rightarrow> nat" where
  "fld_size (U n) = n"
| "fld_size (S n) = n"
| "fld_size (X n) = n"

definition calcsize :: "fld list \<Rightarrow> nat" where
  "calcsize fs = sum_list (map fld_size fs)"

fun pack :: "fld list \<Rightarrow> int list \<Rightarrow> bytes res" where
  "pack [] [] = Inr []"
| "pack (X n # fs) vs = bindE (pack fs vs) (\<lambda>bs. Inr (replicate n 0 @ bs))"
| "pack (U n # fs) (v # vs) =
     (if 0 \<le> v \<and> v < 256 ^ n
      then bindE (pack fs vs) (\<lambda>bs. Inr (le_bytes n (nat v) @ bs))
      else Inl StructError)"
| "pack (S n # fs) (v # vs) =
     (if - (256 ^ n div 2) \<le> v \<and> v < 256 ^ n div 2
      then bindE (pack fs vs) (\<lambda>bs. Inr (le_bytes n (nat (v mod 256 ^ n)) @ bs))
      else Inl StructError)"
| "pack _ _ = Inl StructError"

definition signed :: "nat \<Rightarrow> nat \<Rightarrow> int" where
  "signed n v = (if int v < 256 ^ n div 2 then int v else int v - 256 ^ n)"

fun unpack :: "fld list \<Rightarrow> bytes \<Rightarrow> int list" where
  "unpack [] bs = []"
| "unpack (X n # fs) bs = unpack fs (drop n bs)"
| "unpack (U n # fs) bs = int (le_val (take n bs)) # unpack fs (drop n bs)"
| "unpack (S n # fs) bs = signed n (le_val (take n bs)) # unpack fs (drop n bs)"

definition unpack_from :: "fld list \<Rightarrow> bytes \<Rightarrow> nat \<Rightarrow> int list res" where
  "unpack_from fs data off =
     (if off + calcsize fs \<le> length data
      then Inr (unpack fs (take (calcsize fs) (drop off data)))
      else Inl StructError)"

lemma calcsize_simps [simp]: "calcsize [] = 0" "calcsize (f # fs) = fld_size f + calcsize fs"
  by (simp_all add: calcsize_def)

lemma calcsize_replicate [simp]: "calcsize (replicate n f) = n * fld_size f"
  by (induction n) simp_all

lemma pack_length: "pack fs vs = Inr bs \<Longrightarrow> length bs = calcsize fs"
  by (induction fs vs arbitrary: bs rule: pack.induct)
    (auto simp: bindE_eq_Inr split: if_splits)

lemma signed_mod:
  assumes "- (256 ^ n div 2) \<le> v" "v < (256 ^ n div 2 :: int)" "0 < n"
  shows "signed n (nat (v mod 256 ^ n)) = v"
proof -
  let ?m = "256 ^ n :: int"
  from \<open>0 < n\<close> have "even ?m" by simp
  then have half: "?m = 2 * (?m div 2)" by simp
  show ?thesis
  proof (cases "0 \<le> v")
    case True
    with assms half have "v mod ?m = v" by (intro mod_pos_pos_trivial) linarith+
    with True assms show ?thesis by (simp add: signed_def)
  next
    case False
    with assms half have "(v + ?m) mod ?m = v + ?m" by (intro mod_pos_pos_trivial) linarith+
    then have v: "v mod ?m = v + ?m" by simp
    from False assms(1) half have "\<not> v + ?m < ?m div 2" "0 \<le> v + ?m" by linarith+
    then show ?thesis by (simp add: signed_def v)
  qed
qed

lemma unpack_pack: "pack fs vs = Inr bs \<Longrightarrow> unpack fs bs = vs"
proof (induction fs vs arbitrary: bs rule: pack.induct)
  case (3 n fs v vs)
  then show ?case
    by (auto simp: bindE_eq_Inr le_val_le_bytes nat_mod_distrib nat_power_eq split: if_splits)
next
  case (4 n fs v vs)
  then obtain cs where c: "pack fs vs = Inr cs" "bs = le_bytes n (nat (v mod 256 ^ n)) @ cs"
    and r: "- (256 ^ n div 2) \<le> v" "v < 256 ^ n div 2"
    by (auto simp: bindE_eq_Inr split: if_splits)
  have n: "0 < n" using r by (cases n) auto
  have "nat (v mod 256 ^ n) mod 256 ^ n = nat (v mod 256 ^ n)"
    by (simp add: nat_mod_distrib nat_power_eq flip: of_nat_eq_iff [where 'a = int])
  with 4(1)[OF _ c(1)] r c(2) signed_mod[OF r n] show ?case
    by (simp add: le_val_le_bytes)
qed (auto simp: bindE_eq_Inr)

lemma unpack_from_pack:
  assumes "pack fs vs = Inr bs" "at data off bs"
  shows "unpack_from fs data off = Inr vs"
proof -
  from assms have "length bs = calcsize fs" by (simp add: pack_length)
  with assms(2) have "off + calcsize fs \<le> length data" "take (calcsize fs) (drop off data) = bs"
    by (auto simp: at_def)
  with unpack_pack[OF assms(1)] show ?thesis by (simp add: unpack_from_def)
qed

lemma unpack_length: "length (unpack fs bs) = length (filter (\<lambda>f. case f of X _ \<Rightarrow> False | _ \<Rightarrow> True) fs)"
  by (induction fs bs rule: unpack.induct) simp_all

lemma unpack_from_ok: "is_ok (unpack_from fs data off) \<longleftrightarrow> off + calcsize fs \<le> length data"
  by (simp add: unpack_from_def)

text \<open>Which value lists a format of unsigned fields accepts.\<close>

lemma pack_U_ok [simp]:
  "is_ok (pack (U n # fs) (v # vs)) \<longleftrightarrow> 0 \<le> v \<and> v < 256 ^ n \<and> is_ok (pack fs vs)"
  by (auto simp: is_ok_iff bindE_eq_Inr)

lemma pack_X_ok [simp]: "is_ok (pack (X n # fs) vs) \<longleftrightarrow> is_ok (pack fs vs)"
  by (auto simp: is_ok_iff bindE_eq_Inr)

lemma pack_Nil_ok [simp]: "is_ok (pack [] vs) \<longleftrightarrow> vs = []"
  by (cases vs) (simp_all add: is_ok_iff)

section \<open>Tables\<close>

text \<open>A header followed by rows of one codec, as every table member of the archive is laid out.\<close>

context codec begin

lemma table_read:
  assumes h: "pack hdr vs = Inr h" and r: "concatE enc xs = Inr r"
  shows "unpack_from hdr (h @ r @ rest) 0 = Inr vs"
    and "repeat_dec dec (length xs) (h @ r @ rest) (calcsize hdr) = Inr (xs, calcsize hdr + length r)"
proof -
  have a: "at (h @ r @ rest) 0 h" "at (h @ r @ rest) (calcsize hdr) r"
    using at_intro[of "[]" h "r @ rest"] at_intro[of h r rest] pack_length[OF h] by simp_all
  show "unpack_from hdr (h @ r @ rest) 0 = Inr vs" by (rule unpack_from_pack[OF h a(1)])
  show "repeat_dec dec (length xs) (h @ r @ rest) (calcsize hdr) = Inr (xs, calcsize hdr + length r)"
    by (rule repeat_dec_enc[OF r a(2)])
qed

end

end
