(* ===== verification/Varint.thy ===== *)
theory Varint
  imports PyStruct
begin

text \<open>
  \<open>ncdb/varint.py\<close>: unsigned LEB128 integers, the encoding under every binary member. A value
  is written seven bits at a time, least significant group first, with the top bit of a byte
  set when another byte follows. \<open>encode_varint\<close> and \<open>decode_varint\<close> are the single-value
  functions, \<open>encode_varints\<close> and \<open>decode_varints\<close> the bulk ones (pure Python).
\<close>

section \<open>Encoding\<close>

text \<open>The \<open>while True\<close> loop of \<open>encode_varint\<close>, on the non-negative value it runs with.\<close>

function varint_loop :: "nat \<Rightarrow> bytes" where
  "varint_loop value =
     (let byte = value AND 127; value' = drop_bit 7 value
      in if value' \<noteq> 0 then of_nat (byte OR 128) # varint_loop value' else [of_nat byte])"
  by pat_completeness auto
termination
  by (relation "measure id") (auto simp: drop_bit_eq_div)

declare varint_loop.simps [simp del]

definition encode_varint :: "int \<Rightarrow> bytes res" where
  "encode_varint value = (if value < 0 then Inl ValueError else Inr (varint_loop (nat value)))"

definition encode_varints :: "int list \<Rightarrow> bytes res" where
  "encode_varints values = concatE encode_varint values"

section \<open>Decoding\<close>

function decode_varint_loop :: "bytes \<Rightarrow> nat \<Rightarrow> nat \<Rightarrow> nat \<Rightarrow> (nat \<times> nat) res" where
  "decode_varint_loop buf result shift offset =
     (if length buf \<le> offset then Inl ValueError
      else let byte = unat (buf ! offset);
               result' = result OR push_bit shift (byte AND 127)
           in if byte AND 128 = 0 then Inr (result', Suc offset)
              else decode_varint_loop buf result' (shift + 7) (Suc offset))"
  by pat_completeness auto
termination
  by (relation "measure (\<lambda>(buf, _, _, offset). length buf - offset)") auto

declare decode_varint_loop.simps [simp del]

definition decode_varint :: "bytes \<Rightarrow> nat \<Rightarrow> (nat \<times> nat) res" where
  "decode_varint buf offset = decode_varint_loop buf 0 0 offset"

definition decode_varints :: "bytes \<Rightarrow> nat \<Rightarrow> nat \<Rightarrow> (nat list \<times> nat) res" where
  "decode_varints buf count offset = repeat_dec decode_varint count buf offset"

section \<open>Arithmetic reading of the bit operations\<close>

lemma and_127: "(v::nat) AND 127 = v mod 128"
  using take_bit_eq_mask[of 7 v] by (simp add: take_bit_eq_mod mask_eq_exp_minus_1)

lemma drop_bit_7: "drop_bit 7 (v::nat) = v div 128"
  by (simp add: drop_bit_eq_div)

lemma nat_less_bit: "(r::nat) < 2 ^ k \<Longrightarrow> k \<le> i \<Longrightarrow> \<not> bit r i"
  by (metis bit_take_bit_iff take_bit_nat_eq_self_iff not_le)

lemma or_push_bit: "(r::nat) < 2 ^ k \<Longrightarrow> r OR push_bit k x = r + x * 2 ^ k"
proof -
  assume r: "r < 2 ^ k"
  have "r AND push_bit k x = 0"
    by (rule bit_eqI) (use nat_less_bit[OF r] in \<open>auto simp: bit_simps\<close>)
  then show ?thesis by (simp add: disjunctive_add_eq_or flip: push_bit_eq_mult)
qed

lemma or_128: "(v::nat) < 128 \<Longrightarrow> v OR 128 = v + 128"
  using or_push_bit[of v 7 1] by simp

lemma and_128_eq_0: "(b::nat) < 256 \<Longrightarrow> b AND 128 = 0 \<longleftrightarrow> b < 128"
proof -
  assume b: "b < 256"
  have "b AND 128 = 0 \<longleftrightarrow> \<not> bit b 7"
  proof -
    have e: "(128::nat) = 2 ^ 7" by simp
    show ?thesis unfolding e by (rule and_exp_eq_0_iff_not_bit)
  qed
  also have "\<dots> \<longleftrightarrow> b < 128"
  proof -
    have bit7: "bit b 7 \<longleftrightarrow> odd (b div 128)" by (simp add: bit_iff_odd)
    have "b div 128 = (if b < 128 then 0 else 1)"
      using b by (auto intro: div_nat_eqI)
    then show ?thesis unfolding bit7 by (simp split: if_splits)
  qed
  finally show ?thesis .
qed

text \<open>The encoder as arithmetic, without bit operations.\<close>

lemma varint_loop_arith:
  "varint_loop v =
     (if v < 128 then [of_nat v] else of_nat (v mod 128 + 128) # varint_loop (v div 128))"
  by (subst varint_loop.simps)
    (simp add: Let_def and_127 drop_bit_7 or_128 div_eq_0_iff)

lemma varint_loop_small: "v < 128 \<Longrightarrow> varint_loop v = [of_nat v]"
  by (subst varint_loop_arith) simp

lemma decode_step:
  "decode_varint_loop buf r k off =
     (if length buf \<le> off then Inl ValueError
      else if unat (buf ! off) < 128 then Inr (r OR push_bit k (unat (buf ! off) mod 128), Suc off)
      else decode_varint_loop buf (r OR push_bit k (unat (buf ! off) mod 128)) (k + 7) (Suc off))"
  by (subst decode_varint_loop.simps)
    (simp add: Let_def and_127 and_128_eq_0 unat_byte_less)

lemma decode_varint_loop_enc:
  "at buf off (varint_loop v) \<Longrightarrow> r < 2 ^ k \<Longrightarrow>
   decode_varint_loop buf r k off = Inr (r + v * 2 ^ k, off + length (varint_loop v))"
proof (induction v arbitrary: r k off rule: less_induct)
  case (less v)
  show ?case
  proof (cases "v < 128")
    case True
    with less.prems(1) have b: "off < length buf" "buf ! off = of_nat v"
      by (simp_all add: varint_loop_small at_Cons)
    have u: "unat (of_nat v :: byte) = v"
      using True by (simp add: unat_of_nat)
    show ?thesis
      using True b less.prems(2)
      by (subst decode_step) (simp add: u or_push_bit varint_loop_small)
  next
    case False
    let ?b = "v mod 128"
    from False have loop: "varint_loop v = of_nat (?b + 128) # varint_loop (v div 128)"
      by (subst varint_loop_arith) simp
    with less.prems(1) have b: "off < length buf" "buf ! off = of_nat (?b + 128)"
      "at buf (Suc off) (varint_loop (v div 128))"
      by (simp_all add: at_Cons)
    have u: "unat (of_nat (?b + 128) :: byte) = ?b + 128"
      by (subst unat_of_nat) simp
    have r': "r OR push_bit k ?b = r + ?b * 2 ^ k"
      by (rule or_push_bit[OF less.prems(2)])
    have "r + ?b * 2 ^ k < 2 ^ k * 128"
    proof -
      have "?b * 2 ^ k \<le> 127 * 2 ^ k" by (intro mult_right_mono) simp_all
      with less.prems(2) show ?thesis by linarith
    qed
    then have bound: "r + ?b * 2 ^ k < 2 ^ (k + 7)" by (simp add: power_add)
    have "decode_varint_loop buf r k off =
        decode_varint_loop buf (r + ?b * 2 ^ k) (k + 7) (Suc off)"
      using b(1,2) by (subst decode_step) (simp add: u r' del: of_nat_add)
    also have "\<dots> = Inr (r + ?b * 2 ^ k + v div 128 * 2 ^ (k + 7),
        Suc off + length (varint_loop (v div 128)))"
      using False by (intro less.IH b(3) bound) simp
    also have "r + ?b * 2 ^ k + v div 128 * 2 ^ (k + 7) = r + (?b + v div 128 * 128) * 2 ^ k"
      by (subst add_mult_distrib) (simp add: power_add mult.commute mult.left_commute)
    also have "?b + v div 128 * 128 = v" by simp
    finally show ?thesis by (simp add: loop)
  qed
qed

lemma decode_varint_at:
  "at buf off (varint_loop v) \<Longrightarrow> decode_varint buf off = Inr (v, off + length (varint_loop v))"
  using decode_varint_loop_enc[of buf off v 0 0] by (simp add: decode_varint_def)

lemma encode_varint_nat [simp]: "encode_varint (int v) = Inr (varint_loop v)"
  by (simp add: encode_varint_def)

lemma encode_varint_eq_Inr: "encode_varint v = Inr bs \<longleftrightarrow> 0 \<le> v \<and> bs = varint_loop (nat v)"
  by (auto simp: encode_varint_def)

lemma encode_varint_ok: "is_ok (encode_varint v) \<longleftrightarrow> 0 \<le> v"
  by (simp add: encode_varint_def)

section \<open>The codec interface on varints\<close>

definition enc_nat :: "nat \<Rightarrow> bytes res" where
  "enc_nat n = encode_varint (int n)"

interpretation vi: codec enc_nat decode_varint
  by unfold_locales (auto simp: enc_nat_def intro: decode_varint_at)

lemma encode_varints_nat: "encode_varints (map int vs) = Inr (concat (map varint_loop vs))"
  unfolding encode_varints_def by (subst concatE_Inr [where g = "varint_loop \<circ> nat"]) (auto simp: comp_def)

lemma encode_varints_eq_Inr:
  "encode_varints vs = Inr bs \<Longrightarrow>
   (\<forall>v\<in>set vs. 0 \<le> v) \<and> bs = concat (map (varint_loop \<circ> nat) vs)"
  unfolding encode_varints_def
  by (induction vs arbitrary: bs) (auto simp: bindE_eq_Inr encode_varint_eq_Inr)

lemma decode_varints_at:
  assumes "at buf off (concat (map varint_loop vs))"
  shows "decode_varints buf (length vs) off = Inr (vs, off + length (concat (map varint_loop vs)))"
  unfolding decode_varints_def
  by (rule vi.repeat_dec_enc[OF _ assms]) (simp add: enc_nat_def concatE_Inr)

lemma varint_loop_length: "1 \<le> length (varint_loop v)"
  by (subst varint_loop_arith) simp

lemma varint_loop_not_Nil [simp]: "varint_loop v \<noteq> []"
  using varint_loop_length[of v] by auto

text \<open>A varint of \<open>n\<close> bytes holds exactly the values below \<open>2 ^ (7 * n)\<close>.\<close>

lemma varint_loop_length_bound: "0 < n \<Longrightarrow> length (varint_loop v) \<le> n \<longleftrightarrow> v < 128 ^ n"
proof (induction n arbitrary: v)
  case 0
  then show ?case by simp
next
  case (Suc n)
  show ?case
  proof (cases "v < 128")
    case True
    have "v < 128 ^ Suc n" by (rule less_le_trans[OF True]) simp
    with True show ?thesis by (simp add: varint_loop_small)
  next
    case False
    then have l: "length (varint_loop v) = Suc (length (varint_loop (v div 128)))"
      by (subst varint_loop_arith) simp
    show ?thesis
    proof (cases n)
      case 0
      with False l varint_loop_length[of "v div 128"] show ?thesis by simp
    next
      case (Suc m)
      then have "length (varint_loop (v div 128)) \<le> n \<longleftrightarrow> v div 128 < 128 ^ n"
        using Suc.IH by simp
      with l show ?thesis by (simp add: div_less_iff_less_mult mult.commute)
    qed
  qed
qed

text \<open>Every encoding ends in the first byte without its top bit, so encodings never nest.\<close>

lemma varint_loop_terminated:
  "\<exists>bs b. varint_loop v = bs @ [b] \<and> unat b < 128 \<and> (\<forall>x\<in>set bs. 128 \<le> unat x)"
proof (induction v rule: less_induct)
  case (less v)
  show ?case
  proof (cases "v < 128")
    case True
    then show ?thesis by (simp add: varint_loop_small unat_of_nat)
  next
    case False
    then obtain bs b where "varint_loop (v div 128) = bs @ [b]" "unat b < 128" "\<forall>x\<in>set bs. 128 \<le> unat x"
      using less.IH[of "v div 128"] by auto
    moreover have "unat (of_nat (v mod 128 + 128) :: byte) = v mod 128 + 128"
      by (subst unat_of_nat) simp
    ultimately show ?thesis
      using False by (subst varint_loop_arith)
        (auto intro!: exI[of _ "of_nat (v mod 128 + 128) # bs"] simp del: of_nat_add)
  qed
qed

end
