(* ===== verification/Utf8.thy ===== *)
theory Utf8
  imports PyStruct
begin

text \<open>
  Python's \<open>str.encode()\<close> and \<open>bytes.decode()\<close> with the UTF-8 codec in strict mode. A \<open>str\<close> is
  the list of its code points; encoding raises \<open>UnicodeEncodeError\<close> on a surrogate, decoding
  raises \<open>UnicodeDecodeError\<close> on a malformed, overlong, surrogate or out-of-range sequence. Both
  are the error \<open>UnicodeError\<close> here.
\<close>

type_synonym pystr = "nat list"

text \<open>A string literal of the source.\<close>

definition lit :: "string \<Rightarrow> pystr" where
  "lit s = map of_char s"

definition utf8_char :: "nat \<Rightarrow> bytes res" where
  "utf8_char c =
     (if c < 128 then Inr [of_nat c]
      else if c < 2048 then Inr [of_nat (192 + c div 64), of_nat (128 + c mod 64)]
      else if c < 65536 then
        if 55296 \<le> c \<and> c \<le> 57343 then Inl UnicodeError
        else Inr [of_nat (224 + c div 4096), of_nat (128 + c div 64 mod 64), of_nat (128 + c mod 64)]
      else if c < 1114112 then
        Inr [of_nat (240 + c div 262144), of_nat (128 + c div 4096 mod 64),
             of_nat (128 + c div 64 mod 64), of_nat (128 + c mod 64)]
      else Inl UnicodeError)"

definition utf8_encode :: "pystr \<Rightarrow> bytes res" where
  "utf8_encode s = concatE utf8_char s"

definition cont :: "byte \<Rightarrow> bool" where
  "cont b = (128 \<le> unat b \<and> unat b < 192)"

definition cbits :: "byte \<Rightarrow> nat" where
  "cbits b = unat b mod 64"

fun utf8_decode :: "bytes \<Rightarrow> pystr res" where
  "utf8_decode [] = Inr []"
| "utf8_decode (b # bs) =
     (let x = unat b in
      if x < 128 then bindE (utf8_decode bs) (\<lambda>s. Inr (x # s))
      else if 192 \<le> x \<and> x < 224 then
        (case bs of
           c1 # r \<Rightarrow>
             let c = (x - 192) * 64 + cbits c1 in
             if cont c1 \<and> 128 \<le> c then bindE (utf8_decode r) (\<lambda>s. Inr (c # s)) else Inl UnicodeError
         | _ \<Rightarrow> Inl UnicodeError)
      else if 224 \<le> x \<and> x < 240 then
        (case bs of
           c1 # c2 # r \<Rightarrow>
             let c = (x - 224) * 4096 + cbits c1 * 64 + cbits c2 in
             if cont c1 \<and> cont c2 \<and> 2048 \<le> c \<and> \<not> (55296 \<le> c \<and> c \<le> 57343)
             then bindE (utf8_decode r) (\<lambda>s. Inr (c # s)) else Inl UnicodeError
         | _ \<Rightarrow> Inl UnicodeError)
      else if 240 \<le> x \<and> x < 248 then
        (case bs of
           c1 # c2 # c3 # r \<Rightarrow>
             let c = (x - 240) * 262144 + cbits c1 * 4096 + cbits c2 * 64 + cbits c3 in
             if cont c1 \<and> cont c2 \<and> cont c3 \<and> 65536 \<le> c \<and> c < 1114112
             then bindE (utf8_decode r) (\<lambda>s. Inr (c # s)) else Inl UnicodeError
         | _ \<Rightarrow> Inl UnicodeError)
      else Inl UnicodeError)"

lemma unat_of_nat_small: "n < 256 \<Longrightarrow> unat (of_nat n :: byte) = n"
  by (simp add: unat_of_nat)

lemma cont_of_nat: "n < 64 \<Longrightarrow> cont (of_nat (128 + n)) \<and> cbits (of_nat (128 + n)) = n"
proof -
  assume n: "n < 64"
  then have "unat (of_nat (128 + n) :: byte) = 128 + n" by (intro unat_of_nat_small) simp
  moreover have "(128 + n) mod 64 = n"
    using n by (subst mod_add_left_eq[symmetric]) simp
  ultimately show ?thesis using n by (simp add: cont_def cbits_def del: of_nat_add)
qed

lemma split64: "(c::nat) = c div 64 * 64 + c mod 64"
  by simp

lemma split64_2: "(c::nat) = c div 4096 * 4096 + c div 64 mod 64 * 64 + c mod 64"
proof -
  have "c div 4096 = c div 64 div 64" using div_mult2_eq[of c 64 64] by simp
  then show ?thesis using split64[of c] split64[of "c div 64"] by linarith
qed

lemma split64_3:
  "(c::nat) = c div 262144 * 262144 + c div 4096 mod 64 * 4096 + c div 64 mod 64 * 64 + c mod 64"
proof -
  have "c div 262144 = c div 4096 div 64" using div_mult2_eq[of c 4096 64] by simp
  then show ?thesis using split64_2[of c] split64[of "c div 4096"] by linarith
qed

lemma utf8_decode_char:
  assumes "utf8_char c = Inr bs"
  shows "utf8_decode (bs @ rest) = bindE (utf8_decode rest) (\<lambda>s. Inr (c # s))"
proof -
  consider "c < 128" | "128 \<le> c" "c < 2048" | "2048 \<le> c" "c < 65536" "\<not> (55296 \<le> c \<and> c \<le> 57343)"
    | "65536 \<le> c" "c < 1114112"
    using assms by (auto simp: utf8_char_def split: if_splits)
  then show ?thesis
  proof cases
    case 1
    with assms show ?thesis by (auto simp: utf8_char_def unat_of_nat_small)
  next
    case 2
    define a b where ab: "a = c div 64" "b = c mod 64"
    have d: "a < 32" "b < 64" "c = a * 64 + b"
      using 2 by (simp_all add: ab div_less_iff_less_mult)
    have u: "unat (of_nat (192 + a) :: byte) = 192 + a"
      using d by (intro unat_of_nat_small) simp
    have "bs = [of_nat (192 + a), of_nat (128 + b)]"
      using assms 2 by (simp add: utf8_char_def ab)
    then show ?thesis
      using 2 d cont_of_nat[of b] u by (simp add: Let_def del: of_nat_add)
  next
    case 3
    define a b e where abe: "a = c div 4096" "b = c div 64 mod 64" "e = c mod 64"
    have c: "c = a * 4096 + b * 64 + e" using split64_2[of c] by (simp add: abe)
    have d: "a < 16" "b < 64" "e < 64" using 3 by (simp_all add: abe div_less_iff_less_mult)
    have u: "unat (of_nat (224 + a) :: byte) = 224 + a"
      using d by (intro unat_of_nat_small) simp
    have "bs = [of_nat (224 + a), of_nat (128 + b), of_nat (128 + e)]"
      using assms 3 by (simp add: utf8_char_def abe)
    then show ?thesis
      using 3 d cont_of_nat[of b] cont_of_nat[of e] u
      by (simp add: Let_def c[symmetric] del: of_nat_add)
  next
    case 4
    define a b e f where abe: "a = c div 262144" "b = c div 4096 mod 64" "e = c div 64 mod 64" "f = c mod 64"
    have c: "c = a * 262144 + b * 4096 + e * 64 + f" using split64_3[of c] by (simp add: abe)
    have d: "a < 8" "b < 64" "e < 64" "f < 64" using 4 by (simp_all add: abe div_less_iff_less_mult)
    have u: "unat (of_nat (240 + a) :: byte) = 240 + a"
      using d by (intro unat_of_nat_small) simp
    have "bs = [of_nat (240 + a), of_nat (128 + b), of_nat (128 + e), of_nat (128 + f)]"
      using assms 4 by (simp add: utf8_char_def abe)
    then show ?thesis
      using 4 d cont_of_nat[of b] cont_of_nat[of e] cont_of_nat[of f] u
      by (simp add: Let_def c[symmetric] del: of_nat_add)
  qed
qed

lemma utf8_roundtrip: "utf8_encode s = Inr bs \<Longrightarrow> utf8_decode bs = Inr s"
proof (induction s arbitrary: bs)
  case Nil
  then show ?case by (simp add: utf8_encode_def)
next
  case (Cons c s)
  then obtain b cs where b: "utf8_char c = Inr b" "utf8_encode s = Inr cs" "bs = b @ cs"
    by (auto simp: utf8_encode_def bindE_eq_Inr)
  with Cons.IH[OF b(2)] utf8_decode_char[OF b(1), of cs] show ?case by simp
qed

text \<open>The code points Python can encode, and the strings it accepts.\<close>

definition scalar :: "nat \<Rightarrow> bool" where
  "scalar c = (c < 1114112 \<and> \<not> (55296 \<le> c \<and> c \<le> 57343))"

lemma utf8_char_ok: "is_ok (utf8_char c) \<longleftrightarrow> scalar c"
  by (auto simp: utf8_char_def scalar_def)

lemma utf8_encode_ok: "is_ok (utf8_encode s) \<longleftrightarrow> list_all scalar s"
  by (simp add: utf8_encode_def concatE_ok utf8_char_ok list_all_iff)

lemma utf8_char_ascii: "c < 128 \<Longrightarrow> utf8_char c = Inr [of_nat c]"
  by (simp add: utf8_char_def)

lemma utf8_encode_ascii: "\<forall>c\<in>set s. c < 128 \<Longrightarrow> utf8_encode s = Inr (map of_nat s)"
  by (induction s) (simp_all add: utf8_encode_def utf8_char_ascii)

text \<open>No encoded character contains a zero byte unless it is the character NUL.\<close>

lemma utf8_char_nonzero: "utf8_char c = Inr bs \<Longrightarrow> 0 < c \<Longrightarrow> 0 \<notin> set bs"
proof -
  have nz: "0 < n \<Longrightarrow> n < 256 \<Longrightarrow> (of_nat n :: byte) \<noteq> 0" for n
    using unat_of_nat_small[of n] by (metis neq0_conv unat_0)
  assume "utf8_char c = Inr bs" "0 < c"
  then show ?thesis
    by (auto simp: utf8_char_def simp del: of_nat_add split: if_splits
        dest!: sym[of "0::byte"] elim!: notE[OF nz, rotated 2])
qed

end
