(* ===== verification/Interning.thy ===== *)
theory Interning
  imports Prelude
begin

text \<open>
  The interface of the tables that hand out stable integer ids in insertion order: the string
  table, the name and seed registries and the signature dictionary. A client relies on ids never
  moving once handed out, on equal values sharing an id, and on the id leading back to the value.
\<close>

locale interning =
  fixes add :: "'t \<Rightarrow> 'a \<Rightarrow> 't \<times> nat"
    and tab :: "'t \<Rightarrow> 'a list"
    and inv :: "'t \<Rightarrow> bool"
  assumes inv_add: "inv t \<Longrightarrow> inv (fst (add t x))"
    and tab_add: "inv t \<Longrightarrow> tab (fst (add t x)) = (if x \<in> set (tab t) then tab t else tab t @ [x])"
    and idx_add: "inv t \<Longrightarrow> snd (add t x) < length (tab (fst (add t x)))
                    \<and> tab (fst (add t x)) ! snd (add t x) = x"
    and tab_distinct: "inv t \<Longrightarrow> distinct (tab t)"
begin

lemma add_stable: "inv t \<Longrightarrow> i < length (tab t) \<Longrightarrow> tab (fst (add t x)) ! i = tab t ! i"
  by (simp add: tab_add nth_append)

lemma add_grows: "inv t \<Longrightarrow> length (tab t) \<le> length (tab (fst (add t x)))"
  by (simp add: tab_add)

lemma add_prefix: "inv t \<Longrightarrow> \<exists>ys. tab (fst (add t x)) = tab t @ ys"
  by (simp add: tab_add)

lemma add_known: "inv t \<Longrightarrow> i < length (tab t) \<Longrightarrow> tab t ! i = x \<Longrightarrow> snd (add t x) = i"
  using idx_add[of t x] tab_distinct[of t] tab_add[of t x]
  by (auto simp: nth_eq_iff_index_eq)

lemma add_new: "inv t \<Longrightarrow> x \<notin> set (tab t) \<Longrightarrow> snd (add t x) = length (tab t)"
proof -
  assume a: "inv t" "x \<notin> set (tab t)"
  then have i: "snd (add t x) < Suc (length (tab t))" "(tab t @ [x]) ! snd (add t x) = x"
    using idx_add[of t x] by (simp_all add: tab_add)
  show ?thesis
  proof (rule ccontr)
    assume "snd (add t x) \<noteq> length (tab t)"
    with i have "snd (add t x) < length (tab t)" by simp
    with i(2) have "tab t ! snd (add t x) = x" by (simp add: nth_append)
    with \<open>snd (add t x) < length (tab t)\<close> have "x \<in> set (tab t)" by (metis nth_mem)
    with a(2) show False ..
  qed
qed

lemma add_again: "inv t \<Longrightarrow> snd (add (fst (add t x)) x) = snd (add t x)"
  using idx_add[of t x] by (intro add_known) (auto simp: inv_add)

lemma add_inj: "inv t \<Longrightarrow> snd (add (fst (add t x)) y) = snd (add t x) \<longleftrightarrow> x = y"
proof -
  assume t: "inv t"
  let ?u = "fst (add t x)"
  have u: "inv ?u" using t by (rule inv_add)
  have "tab (fst (add ?u y)) ! snd (add t x) = x"
    using add_stable[OF u, of "snd (add t x)" y] idx_add[OF t, of x] by simp
  moreover have "tab (fst (add ?u y)) ! snd (add ?u y) = y"
    using idx_add[OF u] by simp
  ultimately show ?thesis using add_again[OF t, of x] by auto
qed

text \<open>Interning a whole list, as the readers and the merger do.\<close>

definition add_all :: "'t \<Rightarrow> 'a list \<Rightarrow> 't" where
  "add_all t xs = foldl (\<lambda>u x. fst (add u x)) t xs"

lemma add_all_simps [simp]:
  "add_all t [] = t" "add_all t (x # xs) = add_all (fst (add t x)) xs"
  by (simp_all add: add_all_def)

lemma inv_add_all: "inv t \<Longrightarrow> inv (add_all t xs)"
  by (induction xs arbitrary: t) (simp_all add: inv_add)

lemma set_tab_add_all: "inv t \<Longrightarrow> set (tab (add_all t xs)) = set (tab t) \<union> set xs"
  by (induction xs arbitrary: t) (auto simp: inv_add tab_add)

lemma add_all_prefix: "inv t \<Longrightarrow> \<exists>ys. tab (add_all t xs) = tab t @ ys"
proof (induction xs arbitrary: t)
  case Nil
  then show ?case by simp
next
  case (Cons x xs)
  obtain ys where "tab (fst (add t x)) = tab t @ ys" using add_prefix[OF Cons.prems, of x] by auto
  with Cons.IH[OF inv_add[OF Cons.prems], of x] show ?case by auto
qed

lemma add_all_stable: "inv t \<Longrightarrow> i < length (tab t) \<Longrightarrow> tab (add_all t xs) ! i = tab t ! i"
  using add_all_prefix[of t xs] by (auto simp: nth_append)

lemma add_all_fresh:
  "inv t \<Longrightarrow> distinct xs \<Longrightarrow> set xs \<inter> set (tab t) = {} \<Longrightarrow> tab (add_all t xs) = tab t @ xs"
  by (induction xs arbitrary: t) (auto simp: inv_add tab_add)

end

end
