(* ===== verification/StringTable.thy ===== *)
theory StringTable
  imports Varint Utf8 Interning
begin

text \<open>
  \<open>ncdb/string_table.py\<close>: the deduplicated string table behind \<open>strings.bin\<close>. The class keeps a
  list of strings and a dictionary from string to index; every other member refers to strings by
  index.
\<close>

record strtab =
  st_strings :: "pystr list"
  st_index :: "(pystr \<times> nat) list"

definition st_empty :: strtab where
  "st_empty = \<lparr>st_strings = [], st_index = []\<rparr>"

definition st_add :: "strtab \<Rightarrow> pystr option \<Rightarrow> strtab \<times> nat" where
  "st_add t s0 =
     (let s = (case s0 of None \<Rightarrow> [] | Some s \<Rightarrow> s) in
      case dict_get (st_index t) s of
        None \<Rightarrow>
          let idx = length (st_strings t)
          in (t\<lparr>st_strings := st_strings t @ [s], st_index := dict_set s idx (st_index t)\<rparr>, idx)
      | Some i \<Rightarrow> (t, i))"

definition st_get :: "strtab \<Rightarrow> nat \<Rightarrow> pystr res" where
  "st_get t idx = (if idx < length (st_strings t) then Inr (st_strings t ! idx) else Inl IndexError)"

definition st_len :: "strtab \<Rightarrow> nat" where
  "st_len t = length (st_strings t)"

definition st_write_entry :: "pystr \<Rightarrow> bytes res" where
  "st_write_entry s =
     bindE (utf8_encode s) (\<lambda>encoded.
     bindE (encode_varint (int (length encoded))) (\<lambda>n. Inr (n @ encoded)))"

definition st_serialize :: "strtab \<Rightarrow> bytes res" where
  "st_serialize t =
     bindE (encode_varint (int (length (st_strings t)))) (\<lambda>n.
     bindE (concatE st_write_entry (st_strings t)) (\<lambda>body. Inr (n @ body)))"

definition st_read_entry :: "bytes \<Rightarrow> nat \<Rightarrow> (pystr \<times> nat) res" where
  "st_read_entry data offset =
     bindE (decode_varint data offset) (\<lambda>(len, offset).
     bindE (utf8_decode (slice data offset (offset + len))) (\<lambda>s. Inr (s, offset + len)))"

definition st_from_bytes :: "bytes \<Rightarrow> strtab res" where
  "st_from_bytes data =
     bindE (decode_varint data 0) (\<lambda>(count, offset).
     bindE (repeat_dec st_read_entry count data offset) (\<lambda>(ss, _).
       Inr (foldl (\<lambda>t s. fst (st_add t (Some s))) st_empty ss)))"

section \<open>Invariant and interning laws\<close>

definition st_inv :: "strtab \<Rightarrow> bool" where
  "st_inv t = (st_index t = zip (st_strings t) [0..<length (st_strings t)] \<and> distinct (st_strings t))"

lemma st_inv_empty [simp]: "st_inv st_empty"
  by (simp add: st_inv_def st_empty_def)

lemma st_lookup:
  "st_inv t \<Longrightarrow> dict_get (st_index t) s = Some i \<longleftrightarrow> i < length (st_strings t) \<and> st_strings t ! i = s"
  "st_inv t \<Longrightarrow> dict_get (st_index t) s = None \<longleftrightarrow> s \<notin> set (st_strings t)"
  using map_of_zip_upt_Some[of "st_strings t" s i] map_of_zip_upt_None[of "st_strings t" s]
  by (simp_all add: st_inv_def)

lemma st_add_new:
  "st_inv t \<Longrightarrow> s \<notin> set (st_strings t) \<Longrightarrow>
   st_add t (Some s) =
     (t\<lparr>st_strings := st_strings t @ [s],
        st_index := st_index t @ [(s, length (st_strings t))]\<rparr>, length (st_strings t))"
  by (simp add: st_add_def st_lookup(2)[THEN iffD2] update_notin) (simp add: st_inv_def update_notin)

lemma st_add_old:
  "st_inv t \<Longrightarrow> i < length (st_strings t) \<Longrightarrow> st_strings t ! i = s \<Longrightarrow> st_add t (Some s) = (t, i)"
  by (simp add: st_add_def st_lookup(1)[THEN iffD2])

lemma st_add_None: "st_add t None = st_add t (Some [])"
  by (simp add: st_add_def)

interpretation st: interning "\<lambda>t s. st_add t (Some s)" st_strings st_inv
proof
  fix t s assume t: "st_inv t"
  consider "s \<notin> set (st_strings t)" | i where "i < length (st_strings t)" "st_strings t ! i = s"
    by (auto simp: in_set_conv_nth)
  then have "st_inv (fst (st_add t (Some s))) \<and>
      st_strings (fst (st_add t (Some s))) = (if s \<in> set (st_strings t) then st_strings t else st_strings t @ [s]) \<and>
      snd (st_add t (Some s)) < length (st_strings (fst (st_add t (Some s)))) \<and>
      st_strings (fst (st_add t (Some s))) ! snd (st_add t (Some s)) = s"
  proof cases
    case 1
    with t show ?thesis by (simp add: st_add_new) (simp add: st_inv_def)
  next
    case 2
    with t show ?thesis by (auto simp: st_add_old)
  qed
  then show "st_inv (fst (st_add t (Some s)))"
    and "st_strings (fst (st_add t (Some s))) = (if s \<in> set (st_strings t) then st_strings t else st_strings t @ [s])"
    and "snd (st_add t (Some s)) < length (st_strings (fst (st_add t (Some s)))) \<and>
      st_strings (fst (st_add t (Some s))) ! snd (st_add t (Some s)) = s"
    by blast+
qed (simp add: st_inv_def)

lemma st_inv_strings_eq: "st_inv t \<Longrightarrow> st_inv u \<Longrightarrow> st_strings t = st_strings u \<Longrightarrow> t = u"
  by (simp add: st_inv_def)

section \<open>Serialization\<close>

interpretation ss: codec st_write_entry st_read_entry
proof
  fix s bs data off
  assume "st_write_entry s = Inr bs" and a: "at data off bs"
  then obtain e where e: "utf8_encode s = Inr e" "bs = varint_loop (length e) @ e"
    by (auto simp: st_write_entry_def bindE_eq_Inr)
  with a have "at data off (varint_loop (length e))" "at data (off + length (varint_loop (length e))) e"
    by (simp_all add: at_append)
  with e show "st_read_entry data off = Inr (s, off + length bs)"
    by (simp add: st_read_entry_def decode_varint_at at_slice utf8_roundtrip)
qed

lemma st_serialize_ok: "is_ok (st_serialize t) \<longleftrightarrow> (\<forall>s\<in>set (st_strings t). list_all scalar s)"
proof -
  have "is_ok (st_write_entry s) \<longleftrightarrow> is_ok (utf8_encode s)" for s
    by (cases "utf8_encode s") (simp_all add: st_write_entry_def)
  then have "is_ok (concatE st_write_entry (st_strings t)) \<longleftrightarrow> (\<forall>s\<in>set (st_strings t). list_all scalar s)"
    by (simp add: concatE_ok utf8_encode_ok)
  moreover have "is_ok (st_serialize t) \<longleftrightarrow> is_ok (concatE st_write_entry (st_strings t))"
    by (cases "concatE st_write_entry (st_strings t)") (simp_all add: st_serialize_def)
  ultimately show ?thesis by simp
qed

text \<open>What a reader finds at the place where a serialized table stands.\<close>

lemma st_read_at:
  assumes "st_serialize t = Inr bs" "at data off bs"
  shows "\<exists>off'. decode_varint data off = Inr (length (st_strings t), off') \<and>
    repeat_dec st_read_entry (length (st_strings t)) data off' = Inr (st_strings t, off + length bs)"
proof -
  from assms(1) obtain body where b: "concatE st_write_entry (st_strings t) = Inr body"
      "bs = varint_loop (length (st_strings t)) @ body"
    by (auto simp: st_serialize_def bindE_eq_Inr)
  with assms(2) have a: "at data off (varint_loop (length (st_strings t)))"
      "at data (off + length (varint_loop (length (st_strings t)))) body"
    by (simp_all add: at_append)
  from decode_varint_at[OF a(1)] ss.repeat_dec_enc[OF b(1) a(2)] b(2) show ?thesis
    by (auto simp: add.assoc)
qed

lemma st_from_bytes_serialized:
  assumes "st_inv t" "st_serialize t = Inr bs"
  shows "st_from_bytes (bs @ rest) = Inr t"
proof -
  have "at (bs @ rest) 0 bs" using at_intro[of "[]" bs rest] by simp
  from st_read_at[OF assms(2) this]
  have "st_from_bytes (bs @ rest) = Inr (st.add_all st_empty (st_strings t))"
    by (auto simp: st_from_bytes_def st.add_all_def)
  also have "st.add_all st_empty (st_strings t) = t"
  proof (rule st_inv_strings_eq)
    show "st_inv (st.add_all st_empty (st_strings t))" by (rule st.inv_add_all) simp
    show "st_strings (st.add_all st_empty (st_strings t)) = st_strings t"
      using assms(1) by (subst st.add_all_fresh) (simp_all add: st_inv_def st_empty_def)
  qed (rule assms(1))
  finally show ?thesis .
qed

text \<open>
  A string table whose strings Python can encode is rebuilt exactly, list and
  dictionary, by \<open>from_bytes\<close> from what \<open>serialize\<close> wrote, whatever bytes follow it.
\<close>

theorem string_table_roundtrip:
  assumes "st_inv t" "\<forall>s\<in>set (st_strings t). list_all scalar s"
  shows "\<exists>bs. st_serialize t = Inr bs \<and> (\<forall>rest. st_from_bytes (bs @ rest) = Inr t)"
  using st_from_bytes_serialized[OF assms(1)] st_serialize_ok[of t] assms(2) by (auto elim!: is_okE)

lemma string_table_roundtrip_witness:
  "\<exists>bs. st_serialize (fst (st_add st_empty (Some [104, 233]))) = Inr bs \<and>
    (\<forall>rest. st_from_bytes (bs @ rest) = Inr (fst (st_add st_empty (Some [104, 233]))))"
  by (rule string_table_roundtrip)
    (simp_all add: st_inv_def st_add_def st_empty_def scalar_def)

end
