(* ===== verification/Counts.thy ===== *)
theory Counts
  imports Varint
begin

text \<open>
  \<open>ncdb/counts.py\<close>: the packed hit-count array of \<open>counts.bin\<close>. A mode byte selects fixed
  32-bit or LEB128 encoding; the writer takes the smaller one, and must take LEB128 when a count
  does not fit 32 bits. The reader has a fast path for arrays whose LEB128 bytes are all below 128.
\<close>

definition COUNTS_MODE_UINT32 :: nat where "COUNTS_MODE_UINT32 = 0"
definition COUNTS_MODE_VARINT :: nat where "COUNTS_MODE_VARINT = 1"

definition counts_serialize :: "int list \<Rightarrow> bytes res" where
  "counts_serialize counts =
     (let n = length counts in
      bindE (encode_varints counts) (\<lambda>varint_bytes.
      let fixed_bytes = n * 4;
          has_large = (\<exists>c\<in>set counts. c > 4294967295);
          mode = (if has_large \<or> length varint_bytes < fixed_bytes
                  then COUNTS_MODE_VARINT else COUNTS_MODE_UINT32)
      in bindE (encode_varint (int n)) (\<lambda>nb.
         if mode = COUNTS_MODE_VARINT then Inr ([of_nat mode] @ nb @ varint_bytes)
         else bindE (concatE (to_bytes_le 4) counts) (\<lambda>arr. Inr ([of_nat mode] @ nb @ arr)))))"

definition counts_deserialize :: "bytes \<Rightarrow> int list res" where
  "counts_deserialize data =
     (if data = [] then Inr []
      else bindE (byte_at data 0) (\<lambda>mode.
           bindE (decode_varint data 1) (\<lambda>(count, offset).
           if mode = COUNTS_MODE_VARINT then
             let payload = slice data offset (offset + count) in
             if length payload = count \<and> (\<forall>b\<in>set payload. unat b < 128)
             then Inr (map (int \<circ> unat) payload)
             else bindE (decode_varints data count offset) (\<lambda>(values, _). Inr (map int values))
           else unpack_from (replicate count (U 4)) data offset)))"

section \<open>The fast path\<close>

lemma varint_loop_single: "unat b < 128 \<Longrightarrow> varint_loop (unat b) = [b]"
  by (simp add: varint_loop_small)

lemma fast_path_general:
  assumes "\<forall>b\<in>set payload. unat b < 128" "at data off payload"
  shows "decode_varints data (length payload) off = Inr (map unat payload, off + length payload)"
proof -
  have c: "concat (map varint_loop (map unat payload)) = payload"
    using assms(1) by (induction payload) (simp_all add: varint_loop_single)
  from decode_varints_at[of data off "map unat payload"] assms(2) show ?thesis
    unfolding c by simp
qed

lemma fast_path_slice:
  assumes "length (slice data off (off + n)) = n" "\<forall>b\<in>set (slice data off (off + n)). unat b < 128"
    and "off \<le> length data"
  shows "decode_varints data n off = Inr (map unat (slice data off (off + n)), off + n)"
proof -
  have "at data off (slice data off (off + n))"
    using assms(1,3) by (auto simp: at_def slice_def min_def split: if_splits)
  from fast_path_general[OF assms(2) this] show ?thesis by (simp only: assms(1))
qed

section \<open>The fixed-width path\<close>

lemma pack_U4_counts:
  "\<forall>c\<in>set cs. 0 \<le> c \<and> c < 256 ^ 4 \<Longrightarrow> \<exists>bs. concatE (to_bytes_le 4) cs = Inr bs \<and>
     pack (replicate (length cs) (U 4)) cs = Inr bs"
  by (induction cs) (auto simp: to_bytes_le_def)

lemma calcsize_counts: "calcsize (replicate n (U w)) = n * w"
  by (induction n) simp_all

section \<open>Round trip\<close>

lemma counts_serialize_ok: "is_ok (counts_serialize cs) \<longleftrightarrow> (\<forall>c\<in>set cs. 0 \<le> c)"
proof -
  have "is_ok (encode_varints cs) \<longleftrightarrow> (\<forall>c\<in>set cs. 0 \<le> c)"
    by (simp add: encode_varints_def concatE_ok encode_varint_ok)
  moreover have "is_ok (concatE (to_bytes_le 4) cs)" if "\<forall>c\<in>set cs. 0 \<le> c" "\<forall>c\<in>set cs. \<not> c > 4294967295"
    using that by (auto simp: concatE_ok to_bytes_le_def)
  ultimately show ?thesis
    by (cases "encode_varints cs"; cases "concatE (to_bytes_le 4) cs")
      (auto simp: counts_serialize_def)
qed

lemma map_int_nat: "\<forall>c\<in>set cs. 0 \<le> c \<Longrightarrow> map int (map nat cs) = cs"
  by (induction cs) simp_all

lemma counts_roundtrip_aux:
  assumes "counts_serialize cs = Inr bs"
  shows "counts_deserialize (bs @ rest) = Inr cs"
proof -
  let ?n = "length cs" and ?vs = "map nat cs"
  let ?vb = "concat (map varint_loop ?vs)"
  have pos: "\<forall>c\<in>set cs. 0 \<le> c" using assms counts_serialize_ok[of cs] by simp
  have vb: "encode_varints cs = Inr ?vb"
    using encode_varints_nat[of ?vs] map_int_nat[OF pos] by simp
  consider (var) "bs = 1 # varint_loop ?n @ ?vb"
    | (fix32) arr where "bs = 0 # varint_loop ?n @ arr" "concatE (to_bytes_le 4) cs = Inr arr"
        "\<forall>c\<in>set cs. c \<le> 4294967295"
    using assms vb
    by (auto simp: counts_serialize_def COUNTS_MODE_VARINT_def COUNTS_MODE_UINT32_def
        bindE_eq_Inr not_less split: if_splits)
  then show ?thesis
  proof cases
    case var
    let ?off = "1 + length (varint_loop ?n)"
    have a: "at (bs @ rest) 0 bs" using at_intro[of "[]" bs rest] by simp
    then have a1: "at (bs @ rest) 1 (varint_loop ?n)" and a2: "at (bs @ rest) ?off ?vb"
      unfolding var by (simp_all add: at_Cons at_append)
    note gen = decode_varints_at[OF a2]
    have o: "?off \<le> length (bs @ rest)" using at_le[OF a2] by simp
    show ?thesis
    proof (cases "length (slice (bs @ rest) ?off (?off + ?n)) = ?n \<and>
        (\<forall>b\<in>set (slice (bs @ rest) ?off (?off + ?n)). unat b < 128)")
      case True
      with fast_path_slice[of "bs @ rest" ?off ?n] o gen
      have "map unat (slice (bs @ rest) ?off (?off + ?n)) = ?vs" by simp
      then have "map (int \<circ> unat) (slice (bs @ rest) ?off (?off + ?n)) = cs"
        using map_int_nat[OF pos] by (simp flip: map_map)
      with True decode_varint_at[OF a1] show ?thesis
        by (simp add: counts_deserialize_def byte_at_def var COUNTS_MODE_VARINT_def)
    next
      case False
      then show ?thesis
        using decode_varint_at[OF a1] gen map_int_nat[OF pos]
        by (auto simp: counts_deserialize_def byte_at_def var COUNTS_MODE_VARINT_def)
    qed
  next
    case fix32
    have r: "\<forall>c\<in>set cs. 0 \<le> c \<and> c < 256 ^ 4" using pos fix32(3) by auto
    from pack_U4_counts[OF r] fix32(2) have p: "pack (replicate ?n (U 4)) cs = Inr arr" by auto
    let ?off = "1 + length (varint_loop ?n)"
    have a: "at (bs @ rest) 0 bs" using at_intro[of "[]" bs rest] by simp
    then have a1: "at (bs @ rest) 1 (varint_loop ?n)" and a2: "at (bs @ rest) ?off arr"
      unfolding fix32(1) by (simp_all add: at_Cons at_append)
    show ?thesis
      using decode_varint_at[OF a1] unpack_from_pack[OF p a2]
      by (simp add: counts_deserialize_def byte_at_def fix32(1) COUNTS_MODE_VARINT_def)
  qed
qed

text \<open>
  Writing any array of non-negative counts succeeds and reading it back gives the
  same array, in both encodings, through the reader's fast path and its general path, and whatever
  follows in the buffer.
\<close>

theorem counts_roundtrip:
  assumes "\<forall>c\<in>set cs. 0 \<le> c"
  shows "\<exists>bs. counts_serialize cs = Inr bs \<and> (\<forall>rest. counts_deserialize (bs @ rest) = Inr cs)"
  using counts_serialize_ok[of cs] assms counts_roundtrip_aux by (auto elim!: is_okE)

lemma counts_roundtrip_witness:
  "\<exists>bs. counts_serialize [0, 300, 5000000000] = Inr bs \<and>
    (\<forall>rest. counts_deserialize (bs @ rest) = Inr [0, 300, 5000000000])"
  by (rule counts_roundtrip) simp

text \<open>
  The mode choice is the smaller encoding: unless a count needs more than 32 bits the
  member is at most the mode byte, the length and four bytes per count, and it is never larger than
  the LEB128 form.
\<close>

theorem counts_size:
  assumes "counts_serialize cs = Inr bs"
  shows "length bs \<le> 1 + length (varint_loop (length cs)) + length (concat (map (varint_loop \<circ> nat) cs))
    \<and> ((\<forall>c\<in>set cs. c \<le> 4294967295) \<longrightarrow>
         length bs \<le> 1 + length (varint_loop (length cs)) + 4 * length cs)"
proof -
  have len: "length arr = 4 * length cs" if "concatE (to_bytes_le 4) cs = Inr arr" for arr
    using that by (induction cs arbitrary: arr) (auto simp: bindE_eq_Inr to_bytes_le_def split: if_splits)
  from assms obtain vb where vb: "encode_varints cs = Inr vb" "vb = concat (map (varint_loop \<circ> nat) cs)"
    by (auto simp: counts_serialize_def bindE_eq_Inr dest: encode_varints_eq_Inr)
  then show ?thesis
    using assms by (auto simp: counts_serialize_def bindE_eq_Inr not_less COUNTS_MODE_VARINT_def
        COUNTS_MODE_UINT32_def dest!: len split: if_splits)
qed

lemma counts_size_witness:
  "length (0 # varint_loop 1 @ [255, 255, 255, 255] :: bytes)
     \<le> 1 + length (varint_loop (length [4294967295 :: int])) + 4 * length [4294967295 :: int]"
proof -
  have "counts_serialize [4294967295] = Inr (0 # varint_loop 1 @ [255, 255, 255, 255])"
    by (simp add: counts_serialize_def encode_varints_def encode_varint_def varint_loop_arith
        to_bytes_le_def COUNTS_MODE_VARINT_def COUNTS_MODE_UINT32_def)
  from counts_size[OF this] show ?thesis by simp
qed

end
