(* ===== verification/CoverModel.thy ===== *)
theory CoverModel
  imports StringTable
begin

text \<open>
  The in-memory coverage database as the serializers see it (\<open>mem/mem_scope.py\<close>,
  \<open>mem/mem_cover_index.py\<close>, \<open>api/cover_data.py\<close>, \<open>api/source_info.py\<close>), and \<open>ncdb/dfs_util.py\<close>, which
  fixes the order in which scopes and bins are numbered. A scope is its attributes, its own cover
  items and its children; object identity is the position in the traversal.
\<close>

section \<open>Type codes\<close>

definition ST_TOGGLE :: int where "ST_TOGGLE = 1"
definition ST_BRANCH :: int where "ST_BRANCH = 2"
definition ST_INSTANCE :: int where "ST_INSTANCE = 16"
definition ST_BLOCK :: int where "ST_BLOCK = 64"
definition ST_COVERGROUP :: int where "ST_COVERGROUP = 4096"
definition ST_COVERINSTANCE :: int where "ST_COVERINSTANCE = 8192"
definition ST_COVERPOINT :: int where "ST_COVERPOINT = 16384"
definition ST_CROSS :: int where "ST_CROSS = 32768"
definition ST_FSM :: int where "ST_FSM = 4194304"
definition ST_DU_MODULE :: int where "ST_DU_MODULE = 16777216"
definition ST_FSM_STATES :: int where "ST_FSM_STATES = 536870912"
definition ST_FSM_TRANS :: int where "ST_FSM_TRANS = 1073741824"
definition ST_ALL :: int where "ST_ALL = 281474976710655"

definition DU_ANY :: "int \<Rightarrow> bool" where
  "DU_ANY t = (t AND 520093696 \<noteq> 0)"

definition CT_CVGBIN :: int where "CT_CVGBIN = 1"
definition CT_TOGGLEBIN :: int where "CT_TOGGLEBIN = 512"
definition CT_FSMBIN :: int where "CT_FSMBIN = 2048"
definition CT_PEAKACTIVEBIN :: int where "CT_PEAKACTIVEBIN = 4194304"
definition CT_ALL :: int where "CT_ALL = 18446744073709551615"
definition CT_ALL32 :: int where "CT_ALL32 = 4294967295"

lemmas type_codes = ST_TOGGLE_def ST_BRANCH_def ST_INSTANCE_def ST_BLOCK_def ST_COVERGROUP_def
  ST_COVERINSTANCE_def ST_COVERPOINT_def ST_CROSS_def ST_FSM_def ST_DU_MODULE_def
  ST_FSM_STATES_def ST_FSM_TRANS_def ST_ALL_def CT_CVGBIN_def CT_TOGGLEBIN_def CT_FSMBIN_def
  CT_PEAKACTIVEBIN_def CT_ALL_def CT_ALL32_def

definition SOURCE_NONE :: int where "SOURCE_NONE = 10"

definition TOGGLE_BIN_0_TO_1 :: pystr where "TOGGLE_BIN_0_TO_1 = lit ''0 -> 1''"
definition TOGGLE_BIN_1_TO_0 :: pystr where "TOGGLE_BIN_1_TO_0 = lit ''1 -> 0''"

text \<open>\<open>COVER_TYPE_DEFAULTS\<close>: cover type to (flags, at_least, weight).\<close>

definition COVER_TYPE_DEFAULTS :: "(int \<times> (int \<times> int \<times> int)) list" where
  "COVER_TYPE_DEFAULTS =
     [(512, (1, 0, 1)), (32, (1, 0, 1)), (64, (1, 0, 1)), (256, (1, 0, 1)), (128, (1, 0, 1)),
      (2048, (1, 0, 1)), (1, (25, 1, 1)), (2097152, (1, 0, 1)), (524288, (1, 0, 1)),
      (1048576, (1, 0, 1)), (16777216, (1, 0, 1)), (2, (1, 0, 1)), (4, (1, 0, 1)),
      (1024, (1, 0, 1)), (16384, (1, 0, 1))]"

definition cover_type_defaults :: "int \<Rightarrow> int \<times> int \<times> int" where
  "cover_type_defaults ct =
     (case dict_get COVER_TYPE_DEFAULTS ct of None \<Rightarrow> (0, 0, 1) | Some d \<Rightarrow> d)"

section \<open>Cover items and scopes\<close>

record coverdata =
  cd_type :: int
  cd_flags :: int
  cd_data :: int
  cd_goal :: int
  cd_weight :: int
  cd_limit :: int
  cd_bitlen :: int
  cd_at_least :: int

definition CoverData :: "int \<Rightarrow> int \<Rightarrow> coverdata" where
  "CoverData ty flags =
     \<lparr>cd_type = ty, cd_flags = flags, cd_data = 0, cd_goal = 0, cd_weight = 0, cd_limit = 0,
      cd_bitlen = 0, cd_at_least = 1\<rparr>"

record srcinfo =
  si_file :: "pystr option"
  si_line :: int
  si_token :: int

record coveritem =
  ci_name :: pystr
  ci_data :: coverdata
  ci_src :: "srcinfo option"

record scope_attrs =
  m_type :: int
  m_name :: pystr
  m_srcinfo :: srcinfo
  m_weight :: int
  m_source :: int
  m_flags :: int
  m_goal :: int

datatype scope = Scope (attrs: scope_attrs) (items: "coveritem list") (children: "scope list")

definition sc_type :: "scope \<Rightarrow> int" where "sc_type s = m_type (attrs s)"
definition sc_name :: "scope \<Rightarrow> pystr" where "sc_name s = m_name (attrs s)"

text \<open>\<open>MemCoverIndexIterator\<close> and \<open>MemScopeIterator\<close>: items and children selected by a type mask.\<close>

definition coverItems :: "int \<Rightarrow> scope \<Rightarrow> coveritem list" where
  "coverItems msk s = filter (\<lambda>ci. cd_type (ci_data ci) AND msk \<noteq> 0) (items s)"

definition scopes :: "int \<Rightarrow> scope list \<Rightarrow> scope list" where
  "scopes msk ss = filter (\<lambda>s. sc_type s AND msk \<noteq> 0) ss"

lemma set_scopes: "set (scopes msk ss) \<subseteq> set ss"
  by (auto simp: scopes_def)

lemma scope_size: "s \<in> set (scopes msk cs) \<Longrightarrow> size s < Suc (size_list size cs)"
  using set_scopes[of msk cs] by (force simp: less_Suc_eq_le intro!: size_list_estimation')

section \<open>Traversal order\<close>

definition is_toggle_pair :: "scope \<Rightarrow> bool" where
  "is_toggle_pair s =
     (if sc_type s \<noteq> ST_BRANCH then False
      else let cover_items = coverItems CT_ALL s in
        if length cover_items \<noteq> 2 then False
        else if scopes ST_ALL (children s) \<noteq> [] then False
        else ci_name ` set cover_items = {TOGGLE_BIN_0_TO_1, TOGGLE_BIN_1_TO_0})"

text \<open>The nested \<open>_visit\<close> of \<open>dfs_scope_list\<close>.\<close>

function dfs_visit :: "scope \<Rightarrow> scope list" where
  "dfs_visit (Scope a is cs) =
     Scope a is cs #
       (if is_toggle_pair (Scope a is cs) then [] else concat (map dfs_visit (scopes ST_ALL cs)))"
  by pat_completeness auto
termination
  by (relation "measure size") (auto intro: scope_size)

definition dfs_forest :: "scope list \<Rightarrow> scope list" where
  "dfs_forest ss = concat (map dfs_visit (scopes ST_ALL ss))"

text \<open>
  The database root. \<open>dfs_scope_list\<close> and \<open>scope_bin_bases\<close> memoize their result on the database
  object; nothing clears the two caches, so a caller sees a stale result after a later mutation.
\<close>

record ucis =
  u_scopes :: "scope list"
  u_dfs_cache :: "scope list option"
  u_base_cache :: "nat list option"

definition new_ucis :: "scope list \<Rightarrow> ucis" where
  "new_ucis ss = \<lparr>u_scopes = ss, u_dfs_cache = None, u_base_cache = None\<rparr>"

definition dfs_scope_list :: "ucis \<Rightarrow> scope list \<times> ucis" where
  "dfs_scope_list db =
     (case u_dfs_cache db of
        Some cached \<Rightarrow> (cached, db)
      | None \<Rightarrow>
          let result = dfs_forest (u_scopes db)
          in (result, db\<lparr>u_dfs_cache := Some result\<rparr>))"

definition scope_bin_names :: "scope \<Rightarrow> pystr list" where
  "scope_bin_names s =
     (if is_toggle_pair s then [TOGGLE_BIN_0_TO_1, TOGGLE_BIN_1_TO_0]
      else map ci_name (coverItems CT_ALL s))"

definition scope_bin_count :: "scope \<Rightarrow> nat" where
  "scope_bin_count s = (if is_toggle_pair s then 2 else length (coverItems CT_ALL s))"

text \<open>\<open>scope_bin_bases\<close>: the running sum of the bin counts, one base per scope of the traversal.\<close>

fun bases_from :: "nat \<Rightarrow> scope list \<Rightarrow> nat list" where
  "bases_from next_index [] = []"
| "bases_from next_index (s # ss) = next_index # bases_from (next_index + scope_bin_count s) ss"

definition scope_bin_bases :: "ucis \<Rightarrow> nat list \<times> ucis" where
  "scope_bin_bases db =
     (case u_base_cache db of
        Some cached \<Rightarrow> (cached, db)
      | None \<Rightarrow>
          let (ss, db') = dfs_scope_list db; bases = bases_from 0 ss
          in (bases, db'\<lparr>u_base_cache := Some bases\<rparr>))"

text \<open>A scope that is not part of the traversal raises \<open>KeyError\<close>.\<close>

definition scope_bin_base :: "ucis \<Rightarrow> nat \<Rightarrow> nat res" where
  "scope_bin_base db k =
     (let (bases, _) = scope_bin_bases db
      in if k < length bases then Inr (bases ! k) else Inl KeyError)"

definition flat_bin_index :: "ucis \<Rightarrow> nat \<Rightarrow> scope \<Rightarrow> int \<Rightarrow> int res" where
  "flat_bin_index db k s local_index =
     (let n = scope_bin_count s in
      if \<not> (0 \<le> local_index \<and> local_index < int n) then Inl IndexError
      else bindE (scope_bin_base db k) (\<lambda>b. Inr (int b + local_index)))"

fun flat_bins_from :: "nat \<Rightarrow> nat \<Rightarrow> scope list \<Rightarrow> (nat \<times> nat \<times> nat \<times> pystr) list" where
  "flat_bins_from flat k [] = []"
| "flat_bins_from flat k (s # ss) =
     map (\<lambda>(i, name). (flat + i, k, i, name)) (enumerate 0 (scope_bin_names s))
       @ flat_bins_from (flat + length (scope_bin_names s)) (Suc k) ss"

text \<open>\<open>iter_flat_bins\<close>: (flat index, scope, local index, name), the scope as its traversal position.\<close>

definition iter_flat_bins :: "ucis \<Rightarrow> (nat \<times> nat \<times> nat \<times> pystr) list" where
  "iter_flat_bins db = flat_bins_from 0 0 (fst (dfs_scope_list db))"

definition total_bin_count :: "ucis \<Rightarrow> nat" where
  "total_bin_count db = sum_list (map scope_bin_count (fst (dfs_scope_list db)))"

section \<open>Flat bin addressing\<close>

definition cache_ok :: "ucis \<Rightarrow> bool" where
  "cache_ok db \<longleftrightarrow>
     (\<forall>c. u_dfs_cache db = Some c \<longrightarrow> c = dfs_forest (u_scopes db)) \<and>
     (\<forall>b. u_base_cache db = Some b \<longrightarrow> b = bases_from 0 (dfs_forest (u_scopes db)))"

lemma cache_ok_new [simp]: "cache_ok (new_ucis ss)"
  by (simp add: cache_ok_def new_ucis_def)

lemma dfs_scope_list_ok:
  "cache_ok db \<Longrightarrow> fst (dfs_scope_list db) = dfs_forest (u_scopes db) \<and> cache_ok (snd (dfs_scope_list db))
     \<and> u_scopes (snd (dfs_scope_list db)) = u_scopes db"
  by (auto simp: dfs_scope_list_def cache_ok_def split: option.splits)

lemma scope_bin_bases_ok:
  "cache_ok db \<Longrightarrow> fst (scope_bin_bases db) = bases_from 0 (dfs_forest (u_scopes db))
     \<and> cache_ok (snd (scope_bin_bases db))"
  using dfs_scope_list_ok[of db]
  by (auto simp: scope_bin_bases_def cache_ok_def split: option.splits prod.splits)

lemma length_bases_from [simp]: "length (bases_from b ss) = length ss"
  by (induction ss arbitrary: b) simp_all

lemma nth_bases_from:
  "k < length ss \<Longrightarrow> bases_from b ss ! k = b + sum_list (map scope_bin_count (take k ss))"
proof (induction ss arbitrary: b k)
  case Nil
  then show ?case by simp
next
  case (Cons s ss)
  then show ?case by (cases k) simp_all
qed

lemma length_scope_bin_names [simp]: "length (scope_bin_names s) = scope_bin_count s"
  by (simp add: scope_bin_names_def scope_bin_count_def)

lemma flat_bins_indices: "map fst (flat_bins_from b k ss) = [b..<b + sum_list (map scope_bin_count ss)]"
proof (induction ss arbitrary: b k)
  case Nil
  then show ?case by simp
next
  case (Cons s ss)
  let ?c = "scope_bin_count s" and ?r = "sum_list (map scope_bin_count ss)"
  have "map fst (map (\<lambda>(i, name). (b + i, k, i, name)) (enumerate 0 xs)) = [b..<b + length xs]" for xs :: "pystr list"
    by (rule nth_equalityI) (simp_all add: nth_enumerate_eq)
  from this[of "scope_bin_names s"] Cons[of "b + ?c" "Suc k"]
  have "map fst (flat_bins_from b k (s # ss)) = [b..<b + ?c] @ [b + ?c..<b + ?c + ?r]"
    by simp
  also have "\<dots> = [b..<b + ?c + ?r]" by (rule upt_add_eq_append[symmetric]) simp
  finally show ?case by (simp add: add.assoc)
qed

lemma flat_bins_mem:
  "(flat, j, i, name) \<in> set (flat_bins_from b k ss) \<longleftrightarrow>
     (\<exists>m < length ss. j = k + m \<and> i < scope_bin_count (ss ! m) \<and>
        flat = bases_from b ss ! m + i \<and> name = scope_bin_names (ss ! m) ! i)"
proof (induction ss arbitrary: b k)
  case Nil
  then show ?case by simp
next
  case (Cons s ss)
  have e: "(flat, j, i, name) \<in> (\<lambda>(i, name). (b + i, k, i, name)) ` set (enumerate 0 (scope_bin_names s)) \<longleftrightarrow>
      j = k \<and> i < scope_bin_count s \<and> flat = b + i \<and> name = scope_bin_names s ! i"
    by (auto simp: in_set_enumerate_eq intro!: image_eqI[where x = "(i, name)"])
  show ?case
    unfolding flat_bins_from.simps set_append Un_iff set_map e Cons.IH
    by (simp add: Ex_less_Suc2 conj_commute)
qed

lemma flat_bin_index_eq:
  assumes "cache_ok db" "k < length (dfs_forest (u_scopes db))" "s = dfs_forest (u_scopes db) ! k"
  shows "flat_bin_index db k s i =
    (if 0 \<le> i \<and> i < int (scope_bin_count s)
     then Inr (int (bases_from 0 (dfs_forest (u_scopes db)) ! k) + i) else Inl IndexError)"
  using scope_bin_bases_ok[OF assms(1)] assms(2,3)
  by (auto simp: flat_bin_index_def scope_bin_base_def split: prod.splits)

text \<open>
  C21 (functional). The two ways of addressing a bin agree and are a bijection: \<open>iter_flat_bins\<close>
  yields the flat indices \<open>0, 1, ..., total_bin_count - 1\<close> in order, each once, and
  \<open>flat_bin_index\<close> maps a scope of the traversal and a local index to the flat index under which
  \<open>iter_flat_bins\<close> reports that scope, local index and canonical bin name; any other local index
  is an \<open>IndexError\<close>.
\<close>

theorem flat_bin_addressing:
  assumes "cache_ok db"
  shows "map fst (iter_flat_bins db) = [0..<total_bin_count db]
    \<and> (\<forall>k < length (dfs_forest (u_scopes db)). \<forall>i. let s = dfs_forest (u_scopes db) ! k in
        case flat_bin_index db k s i of
          Inl e \<Rightarrow> e = IndexError \<and> \<not> (0 \<le> i \<and> i < int (scope_bin_count s))
        | Inr f \<Rightarrow> (nat f, k, nat i, scope_bin_names s ! nat i) \<in> set (iter_flat_bins db) \<and> f = int (nat f))"
  using dfs_scope_list_ok[OF assms] flat_bins_indices[of 0 0 "dfs_forest (u_scopes db)"]
  by (auto simp: iter_flat_bins_def total_bin_count_def flat_bin_index_eq[OF assms] flat_bins_mem
      nat_add_distrib)

definition example_toggle :: scope where
  "example_toggle =
     Scope \<lparr>m_type = ST_BRANCH, m_name = lit ''sig'', m_srcinfo = \<lparr>si_file = None, si_line = -1, si_token = -1\<rparr>,
            m_weight = 1, m_source = SOURCE_NONE, m_flags = 0, m_goal = -1\<rparr>
       [\<lparr>ci_name = lit ''1 -> 0'', ci_data = (CoverData 512 1)\<lparr>cd_data := 7\<rparr>, ci_src = None\<rparr>,
        \<lparr>ci_name = lit ''0 -> 1'', ci_data = (CoverData 512 1)\<lparr>cd_data := 3\<rparr>, ci_src = None\<rparr>] []"

lemma flat_bin_addressing_witness:
  "map fst (iter_flat_bins (new_ucis [example_toggle])) = [0, 1]
    \<and> (1, 0, 1, TOGGLE_BIN_1_TO_0) \<in> set (iter_flat_bins (new_ucis [example_toggle]))"
proof -
  have d: "dfs_forest (u_scopes (new_ucis [example_toggle])) = [example_toggle]"
    by (simp add: dfs_forest_def new_ucis_def scopes_def sc_type_def example_toggle_def type_codes)
  have tp: "is_toggle_pair example_toggle"
    by (auto simp: is_toggle_pair_def example_toggle_def sc_type_def scopes_def coverItems_def type_codes
        CoverData_def TOGGLE_BIN_0_TO_1_def TOGGLE_BIN_1_TO_0_def)
  have f: "flat_bin_index (new_ucis [example_toggle]) 0 example_toggle 1 = Inr 1"
    using flat_bin_index_eq[of "new_ucis [example_toggle]" 0 example_toggle 1] d tp by (simp add: scope_bin_count_def)
  have n: "total_bin_count (new_ucis [example_toggle]) = 2"
    using dfs_scope_list_ok[of "new_ucis [example_toggle]"] d tp by (simp add: total_bin_count_def scope_bin_count_def)
  from flat_bin_addressing[of "new_ucis [example_toggle]"] have
    "map fst (iter_flat_bins (new_ucis [example_toggle])) = [0..<2]"
    "case flat_bin_index (new_ucis [example_toggle]) 0 example_toggle 1 of
       Inl e \<Rightarrow> e = IndexError \<and> \<not> (0 \<le> (1::int) \<and> 1 < int (scope_bin_count example_toggle))
     | Inr f \<Rightarrow> (nat f, 0, nat 1, scope_bin_names example_toggle ! nat 1) \<in> set (iter_flat_bins (new_ucis [example_toggle])) \<and> f = int (nat f)"
    unfolding d n by auto
  then show ?thesis unfolding f by (simp add: scope_bin_names_def tp upt_rec)
qed

end
