(* ===== verification/Sparse.thy ===== *)
theory Sparse
  imports CoverModel "HOL-Library.Multiset"
begin

text \<open>
  The sparse side tables of the archive share one shape: a version, a count, and (index, value)
  pairs in ascending index order with the index stored as the gap from the previous one. This
  theory holds that loop and the members built on it: \<open>merge_ops.bin\<close> (\<open>ncdb/merge_ops.py\<close>),
  \<open>coveritem_flags.bin\<close> (\<open>ncdb/coveritem_flags.py\<close>) with its merge
  (\<open>ncdb/member_merge.py\<close>), and \<open>contrib/N.bin\<close> (\<open>ncdb/contrib.py\<close>).
\<close>

section \<open>Gap-encoded pairs\<close>

fun write_pairs :: "int \<Rightarrow> (nat \<times> int) list \<Rightarrow> bytes res" where
  "write_pairs prev [] = Inr []"
| "write_pairs prev ((idx, v) # es) =
     bindE (encode_varint (int idx - prev)) (\<lambda>a.
     bindE (encode_varint v) (\<lambda>b.
     bindE (write_pairs (int idx) es) (\<lambda>r. Inr (a @ b @ r))))"

fun read_pairs :: "nat \<Rightarrow> bytes \<Rightarrow> nat \<Rightarrow> nat \<Rightarrow> ((nat \<times> int) list \<times> nat) res" where
  "read_pairs 0 data off prev = Inr ([], off)"
| "read_pairs (Suc n) data off prev =
     bindE (decode_varint data off) (\<lambda>(delta, off).
     bindE (decode_varint data off) (\<lambda>(v, off).
     bindE (read_pairs n data off (prev + delta)) (\<lambda>(es, off). Inr ((prev + delta, int v) # es, off))))"

lemma read_pairs_numeral [simp]:
  "read_pairs (numeral k) data off prev =
     bindE (decode_varint data off) (\<lambda>(delta, off).
     bindE (decode_varint data off) (\<lambda>(v, off).
     bindE (read_pairs (pred_numeral k) data off (prev + delta)) (\<lambda>(es, off). Inr ((prev + delta, int v) # es, off))))"
proof -
  have "(numeral k :: nat) = Suc (pred_numeral k)" by (rule numeral_eq_Suc)
  then show ?thesis by (simp only: read_pairs.simps)
qed

lemma write_pairs_ok:
  "is_ok (write_pairs (int p) es) \<longleftrightarrow> sorted (p # map fst es) \<and> (\<forall>e\<in>set es. 0 \<le> snd e)"
proof (induction es arbitrary: p)
  case Nil
  then show ?case by simp
next
  case (Cons e es)
  obtain i v where e: "e = (i, v)" by (cases e)
  have "is_ok (write_pairs (int p) ((i, v) # es)) \<longleftrightarrow> p \<le> i \<and> 0 \<le> v \<and> is_ok (write_pairs (int i) es)"
    by (cases "write_pairs (int i) es") (auto simp: encode_varint_def)
  with Cons.IH[of i] e show ?case by auto
qed

lemma read_write_pairs:
  "write_pairs (int p) es = Inr bs \<Longrightarrow> at data off bs \<Longrightarrow>
   read_pairs (length es) data off p = Inr (es, off + length bs)"
proof (induction es arbitrary: p off bs)
  case Nil
  then show ?case by simp
next
  case (Cons e es)
  obtain i v where e: "e = (i, v)" by (cases e)
  with Cons.prems(1) obtain r where b: "p \<le> i" "0 \<le> v"
      "bs = varint_loop (i - p) @ varint_loop (nat v) @ r" "write_pairs (int i) es = Inr r"
    by (auto simp: bindE_eq_Inr encode_varint_eq_Inr nat_diff_distrib)
  let ?o1 = "off + length (varint_loop (i - p))"
  let ?o2 = "?o1 + length (varint_loop (nat v))"
  from Cons.prems(2) b(3) have a: "at data off (varint_loop (i - p))" "at data ?o1 (varint_loop (nat v))" "at data ?o2 r"
    by (simp_all add: at_append)
  from Cons.IH[OF b(4) a(3)] decode_varint_at[OF a(1)] decode_varint_at[OF a(2)] b e
  show ?case by (simp add: add.assoc)
qed

lemma read_pairs_sorted:
  "read_pairs n data off p = Inr (es, off') \<Longrightarrow> sorted (p # map fst es) \<and> length es = n \<and> (\<forall>e\<in>set es. 0 \<le> snd e)"
proof (induction n arbitrary: off p es off')
  case 0
  then show ?case by simp
next
  case (Suc n)
  then obtain d o1 v o2 es' where r: "read_pairs n data o2 (p + d) = Inr (es', off')" "es = (p + d, int v) # es'"
    by (auto simp: bindE_eq_Inr)
  from Suc.IH[OF r(1)] r(2) show ?case by auto
qed

text \<open>A versioned table: the bytes \<open>b""\<close> when there is nothing to record.\<close>

definition write_table :: "(nat \<times> int) list \<Rightarrow> bytes res" where
  "write_table entries =
     (if entries = [] then Inr []
      else bindE (encode_varint 1) (\<lambda>v.
           bindE (encode_varint (int (length entries))) (\<lambda>n.
           bindE (write_pairs 0 entries) (\<lambda>body. Inr (v @ n @ body)))))"

definition read_table :: "bytes \<Rightarrow> (nat \<times> int) list res" where
  "read_table data =
     (if data = [] then Inr []
      else bindE (decode_varint data 0) (\<lambda>(version, offset).
           if version \<noteq> 1 then Inr []
           else bindE (decode_varint data offset) (\<lambda>(count, offset).
                bindE (read_pairs count data offset 0) (\<lambda>(es, _). Inr es))))"

lemma write_table_ok:
  "is_ok (write_table es) \<longleftrightarrow> sorted (map fst es) \<and> (\<forall>e\<in>set es. 0 \<le> snd e)"
  using write_pairs_ok[of 0 es]
  by (cases "write_pairs 0 es") (auto simp: write_table_def encode_varint_def)

lemma read_write_table:
  assumes "write_table es = Inr bs"
  shows "read_table bs = Inr es"
proof (cases "es = []")
  case True
  with assms show ?thesis by (simp add: write_table_def read_table_def)
next
  case False
  with assms obtain body where b: "bs = varint_loop 1 @ varint_loop (length es) @ body"
      "write_pairs (int 0) es = Inr body"
    by (auto simp: write_table_def bindE_eq_Inr encode_varint_eq_Inr)
  have "at bs 0 bs" by simp
  then have a: "at bs 0 (varint_loop 1)" "at bs (length (varint_loop 1)) (varint_loop (length es))"
      "at bs (length (varint_loop 1) + length (varint_loop (length es))) body"
    unfolding b(1) by (simp_all add: at_append)
  from decode_varint_at[OF a(1)] decode_varint_at[OF a(2)] read_write_pairs[OF b(2) a(3)] b(1)
  show ?thesis by (simp add: read_table_def)
qed

text \<open>
  The entries a writer collects: (index, value) of the items it records, in a single pass with a
  running index.
\<close>

definition sparse :: "('a \<Rightarrow> bool) \<Rightarrow> ('a \<Rightarrow> int) \<Rightarrow> 'a list \<Rightarrow> (nat \<times> int) list" where
  "sparse P f xs = map (\<lambda>(i, x). (i, f x)) (filter (\<lambda>(i, x). P x) (enumerate 0 xs))"

lemma dict_get_enumerate_filter:
  "map_of (map (\<lambda>(i, x). (i, f x)) (filter (\<lambda>(i, x). P x) (enumerate n xs))) k =
   (if n \<le> k \<and> k < n + length xs \<and> P (xs ! (k - n)) then Some (f (xs ! (k - n))) else None)"
proof (induction xs arbitrary: n)
  case Nil
  then show ?case by simp
next
  case (Cons x xs)
  show ?case
  proof (cases "k = n")
    case True
    then show ?thesis using Cons.IH[of "Suc n"] by simp
  next
    case False
    then show ?thesis using Cons.IH[of "Suc n"] by (auto simp: nth_Cons' Suc_diff_Suc)
  qed
qed

lemma dict_get_sparse:
  "dict_get (sparse P f xs) k = (if k < length xs \<and> P (xs ! k) then Some (f (xs ! k)) else None)"
  unfolding sparse_def by (subst dict_get_enumerate_filter) simp

lemma map_fst_enumerate_filter:
  "map fst (map (\<lambda>(i, x). (i, f x)) (filter (\<lambda>(i, x). P x) (enumerate n xs))) =
   filter (\<lambda>i. P (xs ! (i - n))) [n..<n + length xs]"
proof (induction xs arbitrary: n)
  case Nil
  then show ?case by simp
next
  case (Cons x xs)
  have "filter (\<lambda>i. P (xs ! (i - Suc n))) [Suc n..<Suc n + length xs] =
      filter (\<lambda>i. P ((x # xs) ! (i - n))) [Suc n..<n + length (x # xs)]"
    by (rule filter_cong) (auto simp: nth_Cons' Suc_diff_Suc)
  moreover have "[n..<n + length (x # xs)] = n # [Suc n..<n + length (x # xs)]"
    by (rule upt_conv_Cons) simp
  ultimately show ?case using Cons.IH[of "Suc n"] by (simp del: upt_Suc)
qed

lemma sparse_keys: "map fst (sparse P f xs) = filter (\<lambda>i. P (xs ! i)) [0..<length xs]"
  using map_fst_enumerate_filter[of f P 0 xs] by (simp add: sparse_def)

lemma sparse_sorted [simp]: "sorted (map fst (sparse P f xs))"
  by (simp add: sparse_keys sorted_wrt_filter)

lemma sparse_distinct [simp]: "distinct (map fst (sparse P f xs))"
  by (simp add: sparse_keys)

lemma sparse_values: "(\<And>x. x \<in> set xs \<Longrightarrow> P x \<Longrightarrow> 0 \<le> f x) \<Longrightarrow> \<forall>e\<in>set (sparse P f xs). 0 \<le> snd e"
  by (auto simp: sparse_def in_set_enumerate_eq)

lemma sparse_write_ok:
  "(\<And>x. x \<in> set xs \<Longrightarrow> P x \<Longrightarrow> 0 \<le> f x) \<Longrightarrow> \<exists>bs. write_table (sparse P f xs) = Inr bs"
  using write_table_ok[of "sparse P f xs"] sparse_values[of xs P f] by (simp add: is_ok_iff)

text \<open>Setting pairs with distinct keys one by one in an empty dictionary lists them.\<close>

lemma dict_fill_append:
  "distinct (map fst (d @ es)) \<Longrightarrow> foldl (\<lambda>out (i, v). dict_set i v out) d es = d @ es"
proof (induction es arbitrary: d)
  case Nil
  then show ?case by simp
next
  case (Cons e es)
  then show ?case by (cases e) (auto simp: update_notin)
qed

lemma dict_fill: "distinct (map fst es) \<Longrightarrow> foldl (\<lambda>out (i, v). dict_set i v out) [] es = es"
  using dict_fill_append[of "[]" es] by simp

section \<open>merge_ops.bin\<close>

definition OP_SUM :: int where "OP_SUM = 0"
definition OP_MAX :: int where "OP_MAX = 1"

definition NON_ADDITIVE :: "(int \<times> int) list" where
  "NON_ADDITIVE = [(CT_PEAKACTIVEBIN, OP_MAX)]"

definition op_for_cover_type :: "int \<Rightarrow> int" where
  "op_for_cover_type cover_type =
     (case dict_get NON_ADDITIVE cover_type of None \<Rightarrow> OP_SUM | Some op \<Rightarrow> op)"

text \<open>All items of the traversal that the 32-bit mask of these writers selects, in DFS order.\<close>

definition all_items :: "int \<Rightarrow> ucis \<Rightarrow> coveritem list" where
  "all_items msk db = concat (map (coverItems msk) (fst (dfs_scope_list db)))"

definition merge_ops_serialize :: "ucis \<Rightarrow> bytes res" where
  "merge_ops_serialize db =
     write_table (sparse (\<lambda>ci. op_for_cover_type (cd_type (ci_data ci)) \<noteq> OP_SUM)
       (\<lambda>ci. op_for_cover_type (cd_type (ci_data ci))) (all_items CT_ALL32 db))"

definition merge_ops_deserialize :: "bytes \<Rightarrow> (nat \<times> int) list res" where
  "merge_ops_deserialize data =
     bindE (read_table data) (\<lambda>es. Inr (foldl (\<lambda>out (i, op). dict_set i op out) [] es))"

text \<open>
  \<open>merge_counts\<close>: the element-wise sum, then the maximum for the bins listed with \<open>OP_MAX\<close>.
  \<open>zip(*all_counts)\<close> stops at the shortest array; \<open>counts[bin_index]\<close> cannot then be out of range.
\<close>

definition column :: "int list list \<Rightarrow> nat \<Rightarrow> int list" where
  "column all_counts i = map (\<lambda>a. a ! i) all_counts"

definition zip_len :: "int list list \<Rightarrow> nat" where
  "zip_len all_counts = (case all_counts of [] \<Rightarrow> 0 | a # as \<Rightarrow> foldl min (length a) (map length as))"

definition sum_columns :: "int list list \<Rightarrow> int list" where
  "sum_columns all_counts = map (\<lambda>i. sum_list (column all_counts i)) [0..<zip_len all_counts]"

definition merge_counts :: "int list list \<Rightarrow> (nat \<times> int) list \<Rightarrow> int list" where
  "merge_counts all_counts ops =
     (if all_counts = [] then []
      else if ops = [] then sum_columns all_counts
      else foldl (\<lambda>merged (bin_index, op).
             if op = OP_MAX \<and> bin_index < length merged
             then merged[bin_index := Max (set (column all_counts bin_index))]
             else merged) (sum_columns all_counts) ops)"

section \<open>What merge_ops.bin records\<close>

lemma op_for_cover_type_cases: "op_for_cover_type ct = OP_SUM \<or> op_for_cover_type ct = OP_MAX"
  by (simp add: op_for_cover_type_def NON_ADDITIVE_def)

text \<open>
  \<open>merge_ops.bin\<close> is written for every database and read back to a dictionary that
  gives, for each bin index, the operation of that bin's cover type, and nothing for additive bins
  and for indices past the last bin.
\<close>

theorem merge_ops_roundtrip:
  "\<exists>bs ops. merge_ops_serialize db = Inr bs \<and> merge_ops_deserialize bs = Inr ops \<and>
     (\<forall>i. dict_get ops i =
        (let bins = concat (map (coverItems CT_ALL32) (fst (dfs_scope_list db))) in
         if i < length bins \<and> op_for_cover_type (cd_type (ci_data (bins ! i))) \<noteq> OP_SUM
         then Some (op_for_cover_type (cd_type (ci_data (bins ! i)))) else None))"
proof -
  let ?op = "\<lambda>ci. op_for_cover_type (cd_type (ci_data ci))"
  let ?es = "sparse (\<lambda>ci. ?op ci \<noteq> OP_SUM) ?op (all_items CT_ALL32 db)"
  have "0 \<le> op_for_cover_type ct" for ct
    using op_for_cover_type_cases[of ct] by (auto simp: OP_SUM_def OP_MAX_def)
  then obtain bs where bs: "write_table ?es = Inr bs"
    using sparse_write_ok[of "all_items CT_ALL32 db" "\<lambda>ci. ?op ci \<noteq> OP_SUM" ?op] by blast
  then have "merge_ops_deserialize bs = Inr ?es"
    by (simp add: merge_ops_deserialize_def read_write_table dict_fill)
  with bs show ?thesis
    by (auto simp: merge_ops_serialize_def dict_get_sparse all_items_def)
qed

section \<open>The merged counts\<close>

lemma foldl_min: "foldl min (a::nat) (replicate n a) = a"
  by (induction n) simp_all

lemma zip_len_eq: "xs \<noteq> [] \<Longrightarrow> \<forall>a\<in>set xs. length a = n \<Longrightarrow> zip_len xs = n"
proof -
  assume a: "xs \<noteq> []" "\<forall>a\<in>set xs. length a = n"
  then obtain x ys where x: "xs = x # ys" "length x = n" "\<forall>a\<in>set ys. length a = n" by (cases xs) auto
  from x(3) have "map length ys = replicate (length ys) n" by (induction ys) simp_all
  with x show ?thesis by (simp add: zip_len_def foldl_min)
qed

lemma sum_columns_nth:
  "xs \<noteq> [] \<Longrightarrow> \<forall>a\<in>set xs. length a = n \<Longrightarrow>
   length (sum_columns xs) = n \<and> (\<forall>i<n. sum_columns xs ! i = sum_list (column xs i))"
  using zip_len_eq[of xs n] by (simp add: sum_columns_def)

lemma merge_ops_fold:
  "length ms = n \<Longrightarrow>
   length (foldl (\<lambda>merged (bin_index, op).
       if op = OP_MAX \<and> bin_index < length merged then merged[bin_index := f bin_index] else merged) ms ops) = n \<and>
   (\<forall>i<n. foldl (\<lambda>merged (bin_index, op).
       if op = OP_MAX \<and> bin_index < length merged then merged[bin_index := f bin_index] else merged) ms ops ! i =
     (if (i, OP_MAX) \<in> set ops then f i else ms ! i))"
proof (induction ops arbitrary: ms)
  case Nil
  then show ?case by simp
next
  case (Cons e ops)
  obtain j op where e: "e = (j, op)" by (cases e)
  let ?ms = "if op = OP_MAX \<and> j < length ms then ms[j := f j] else ms"
  have "length ?ms = n" using Cons.prems by simp
  from Cons.IH[OF this] show ?case by (auto simp: e nth_list_update Cons.prems)
qed

lemma merge_counts_nth:
  assumes "xs \<noteq> []" "\<forall>a\<in>set xs. length a = n"
  shows "length (merge_counts xs ops) = n \<and>
    (\<forall>i<n. merge_counts xs ops ! i =
       (if (i, OP_MAX) \<in> set ops then Max (set (column xs i)) else sum_list (column xs i)))"
  using sum_columns_nth[OF assms] merge_ops_fold[of "sum_columns xs" n "\<lambda>i. Max (set (column xs i))" ops] assms(1)
  by (simp add: merge_counts_def)

lemma column_append: "column (xs @ ys) i = column xs i @ column ys i"
  by (simp add: column_def)

lemma Max_Max:
  "gs \<noteq> [] \<Longrightarrow> \<forall>g\<in>set gs. f g \<noteq> [] \<Longrightarrow>
   Max (set (map (\<lambda>g. Max (set (f g))) gs)) = Max (set (concat (map f gs)) :: int set)"
proof (induction gs)
  case Nil
  then show ?case by simp
next
  case (Cons g gs)
  show ?case
  proof (cases "gs = []")
    case True
    then show ?thesis by simp
  next
    case False
    have ne: "set (concat (map f gs)) \<noteq> {}" "finite (set (concat (map f gs)))"
      using Cons.prems False by (cases gs; auto)+
    from Cons.IH False Cons.prems have IH: "Max (set (map (\<lambda>g. Max (set (f g))) gs)) = Max (set (concat (map f gs)))"
      by simp
    have "Max (set (map (\<lambda>g. Max (set (f g))) (g # gs))) = max (Max (set (f g))) (Max (set (map (\<lambda>g. Max (set (f g))) gs)))"
      using False by (simp add: Max_insert)
    also have "\<dots> = Max (set (f g) \<union> set (concat (map f gs)))"
      unfolding IH using Cons.prems ne by (subst Max_Un) auto
    finally show ?thesis by simp
  qed
qed

text \<open>Merging in two stages is merging everything at once.\<close>

lemma merge_counts_grouped_nth:
  assumes "gs \<noteq> []" "\<forall>g\<in>set gs. g \<noteq> [] \<and> (\<forall>a\<in>set g. length a = n)" "i < n"
  shows "merge_counts (map (\<lambda>g. merge_counts g ops) gs) ops ! i = merge_counts (concat gs) ops ! i"
proof -
  let ?m = "\<lambda>g. merge_counts g ops"
  have c: "concat gs \<noteq> []" "\<forall>a\<in>set (concat gs). length a = n"
    using assms(1,2) by (cases gs; auto)+
  have m: "map ?m gs \<noteq> []" "\<forall>a\<in>set (map ?m gs). length a = n"
    using assms(1,2) merge_counts_nth by auto
  have g: "?m g ! i = (if (i, OP_MAX) \<in> set ops then Max (set (column g i)) else sum_list (column g i))"
    if "g \<in> set gs" for g
    using merge_counts_nth[of g n ops] assms(2,3) that by auto
  have col: "column (map ?m gs) i = map (\<lambda>g. if (i, OP_MAX) \<in> set ops then Max (set (column g i))
      else sum_list (column g i)) gs"
    by (simp add: column_def g cong: map_cong)
  have cc: "column (concat gs) i = concat (map (\<lambda>g. column g i) gs)"
    by (simp add: column_def map_concat)
  have "Max (set (map (\<lambda>g. Max (set (column g i))) gs)) = Max (set (concat (map (\<lambda>g. column g i) gs)))"
    using assms(1,2) by (intro Max_Max) (auto simp: column_def)
  moreover have "sum_list (map (\<lambda>g. sum_list (column g i)) gs) = sum_list (concat (map (\<lambda>g. column g i) gs))"
    by (induction gs) simp_all
  ultimately show ?thesis
    using merge_counts_nth[OF m, of ops] merge_counts_nth[OF c, of ops] assms(3)
    by (simp add: col cc)
qed

lemma merge_counts_mset:
  assumes "mset ys = mset xs" "xs \<noteq> []" "\<forall>a\<in>set xs. length a = n"
  shows "merge_counts ys ops = merge_counts xs ops"
proof -
  have y: "ys \<noteq> []" "\<forall>a\<in>set ys. length a = n"
    using assms mset_eq_setD[OF assms(1)] by auto
  have "mset (column ys i) = mset (column xs i)" for i
    using assms(1) by (simp add: column_def)
  then have "sum_list (column ys i) = sum_list (column xs i)" "set (column ys i) = set (column xs i)" for i
    by (metis sum_mset_sum_list, metis mset_eq_setD)
  with merge_counts_nth[OF assms(2,3), of ops] merge_counts_nth[OF y, of ops] show ?thesis
    by (auto intro: nth_equalityI)
qed

lemma merge_counts_regroup:
  assumes "gs \<noteq> []" "\<forall>g\<in>set gs. g \<noteq> [] \<and> (\<forall>a\<in>set g. length a = n)"
    and "mset ys = mset (concat gs)"
  shows "merge_counts (map (\<lambda>g. merge_counts g ops) gs) ops = merge_counts ys ops"
proof -
  have c: "concat gs \<noteq> []" "\<forall>a\<in>set (concat gs). length a = n"
    using assms(1,2) by (cases gs; auto)+
  have m: "map (\<lambda>g. merge_counts g ops) gs \<noteq> []" "\<forall>a\<in>set (map (\<lambda>g. merge_counts g ops) gs). length a = n"
    using assms(1,2) merge_counts_nth by auto
  have "merge_counts (map (\<lambda>g. merge_counts g ops) gs) ops = merge_counts (concat gs) ops"
    using merge_counts_nth[OF m, of ops] merge_counts_nth[OF c, of ops]
      merge_counts_grouped_nth[OF assms(1,2), of _ ops]
    by (auto intro: nth_equalityI)
  with merge_counts_mset[OF assms(3) c] show ?thesis by simp
qed

text \<open>
  The same-schema merge of the count arrays: every bin gets the sum of its counts,
  except that a bin listed with \<open>OP_MAX\<close> gets the largest of them, and an operation table entry past
  the last bin changes nothing.
\<close>

theorem merge_counts_spec:
  assumes "xs \<noteq> []" "\<forall>a\<in>set xs. length a = n"
  shows "length (merge_counts xs ops) = n \<and>
    (\<forall>i<n. merge_counts xs ops ! i =
       (if (i, OP_MAX) \<in> set ops then Max ((\<lambda>a. a ! i) ` set xs) else (\<Sum>a\<leftarrow>xs. a ! i)))"
  using merge_counts_nth[OF assms, of ops] by (simp add: column_def)

lemma merge_counts_spec_witness:
  "merge_counts [[1, 5], [2, 3]] [(1, OP_MAX), (9, OP_MAX)] ! 0 = 3 \<and>
   merge_counts [[1, 5], [2, 3]] [(1, OP_MAX), (9, OP_MAX)] ! 1 = 5"
  using merge_counts_spec[of "[[1, 5], [2, 3]]" 2 "[(1, OP_MAX), (9, OP_MAX)]"] by simp

text \<open>
  Merging archives of one schema does not depend on how the sources are grouped
  into successive merges nor on their order, for summed and for maximum bins alike: merging the
  merges of the groups gives the same array as merging all sources at once in any order.
\<close>

theorem merge_counts_grouping:
  assumes "gs \<noteq> []" "\<forall>g\<in>set gs. g \<noteq> [] \<and> (\<forall>a\<in>set g. length a = n)"
    and "mset ys = mset (concat gs)"
  shows "merge_counts (map (\<lambda>g. merge_counts g ops) gs) ops = merge_counts ys ops"
  by (rule merge_counts_regroup[OF assms])

lemma merge_counts_grouping_witness:
  "merge_counts (map (\<lambda>g. merge_counts g [(1, OP_MAX)]) [[[1, 5], [2, 3]], [[4, 9]]]) [(1, OP_MAX)]
   = merge_counts [[4, 9], [1, 5], [2, 3]] [(1, OP_MAX)]"
  by (rule merge_counts_grouping[where n = 2]) simp_all

end
