(* ===== verification/CoverFlags.thy ===== *)
theory CoverFlags
  imports Sparse
begin

text \<open>
  \<open>coveritem_flags.bin\<close> (\<open>ncdb/coveritem_flags.py\<close>) and its merge on serialized payloads
  (\<open>merge_coveritem_flags\<close> in \<open>ncdb/member_merge.py\<close>). The member lists the items whose flags
  differ from the default of their cover type. A reader that updates the items it iterates over is
  the function from the items, in traversal order, to the items as it leaves them.
\<close>

definition getCoverFlags :: "coveritem \<Rightarrow> int" where
  "getCoverFlags ci = cd_flags (ci_data ci)"

definition setCoverFlags :: "int \<Rightarrow> coveritem \<Rightarrow> coveritem" where
  "setCoverFlags flags ci = ci\<lparr>ci_data := (ci_data ci)\<lparr>cd_flags := flags\<rparr>\<rparr>"

definition default_flags :: "coveritem \<Rightarrow> int" where
  "default_flags ci = fst (cover_type_defaults (cd_type (ci_data ci)))"

definition flags_serialize :: "ucis \<Rightarrow> bytes res" where
  "flags_serialize db =
     write_table (sparse (\<lambda>ci. getCoverFlags ci \<noteq> default_flags ci) getCoverFlags (all_items CT_ALL32 db))"

text \<open>The loop of \<open>deserialize\<close>; the entries not consumed yet stand for \<open>entry_pos\<close>.\<close>

fun flags_apply :: "(nat \<times> int) list \<Rightarrow> nat \<Rightarrow> coveritem list \<Rightarrow> coveritem list" where
  "flags_apply entries global_ci_idx [] = []"
| "flags_apply entries global_ci_idx (ci # cis) =
     (if entries \<noteq> [] \<and> fst (hd entries) = global_ci_idx
      then setCoverFlags (snd (hd entries)) ci # flags_apply (tl entries) (Suc global_ci_idx) cis
      else setCoverFlags (default_flags ci) ci # flags_apply entries (Suc global_ci_idx) cis)"

definition flags_deserialize :: "bytes \<Rightarrow> ucis \<Rightarrow> coveritem list res" where
  "flags_deserialize data db =
     bindE (read_table data) (\<lambda>entries.
       let cis = all_items CT_ALL32 db
       in Inr (if entries = [] then cis else flags_apply entries 0 cis))"

section \<open>Round trip\<close>

lemma getCoverFlags_set [simp]: "getCoverFlags (setCoverFlags f ci) = f"
  by (simp add: getCoverFlags_def setCoverFlags_def)

lemma flags_apply_lookup:
  "sorted (map fst es) \<Longrightarrow> distinct (map fst es) \<Longrightarrow> \<forall>e\<in>set es. n \<le> fst e \<Longrightarrow>
   flags_apply es n cis =
     map (\<lambda>(i, ci). setCoverFlags (case dict_get es i of None \<Rightarrow> default_flags ci | Some f \<Rightarrow> f) ci)
       (enumerate n cis)"
proof (induction cis arbitrary: es n)
  case Nil
  then show ?case by simp
next
  case (Cons ci cis)
  show ?case
  proof (cases "es \<noteq> [] \<and> fst (hd es) = n")
    case True
    then obtain f es' where es: "es = (n, f) # es'" by (cases es) auto
    with Cons.prems have "\<forall>e\<in>set es'. Suc n \<le> fst e"
      by (force simp: Suc_le_eq order.strict_iff_order)
    with Cons.IH[of es' "Suc n"] Cons.prems es
    have "flags_apply es' (Suc n) cis =
        map (\<lambda>(i, ci). setCoverFlags (case dict_get es' i of None \<Rightarrow> default_flags ci | Some f \<Rightarrow> f) ci)
          (enumerate (Suc n) cis)" by simp
    also have "\<dots> = map (\<lambda>(i, ci). setCoverFlags (case dict_get es i of None \<Rightarrow> default_flags ci | Some f \<Rightarrow> f) ci)
          (enumerate (Suc n) cis)"
      by (rule map_cong[OF refl]) (auto simp: es in_set_enumerate_eq)
    finally show ?thesis by (simp add: es)
  next
    case False
    then have n: "\<forall>e\<in>set es. Suc n \<le> fst e"
      using Cons.prems by (cases es) (force simp: Suc_le_eq order.strict_iff_order)+
    then have "dict_get es n = None" by (force simp: map_of_eq_None_iff)
    with Cons.IH[OF Cons.prems(1,2) n] False show ?thesis by auto
  qed
qed

lemma flags_serialize_ok:
  assumes "\<forall>ci\<in>set (all_items CT_ALL32 db). 0 \<le> getCoverFlags ci"
  shows "\<exists>bs. flags_serialize db = Inr bs"
  using assms sparse_write_ok[of "all_items CT_ALL32 db" "\<lambda>ci. getCoverFlags ci \<noteq> default_flags ci" getCoverFlags]
  by (simp add: flags_serialize_def)

text \<open>
  Flags survive the archive: read into a database with items of the same cover
  types that carry their default flags (as the scope-tree reader leaves them), the member written
  from a database gives every item the flags it had there, listed or default, and changes nothing
  else of the item.
\<close>

theorem coveritem_flags_roundtrip:
  assumes "\<forall>ci\<in>set (all_items CT_ALL32 db). 0 \<le> getCoverFlags ci"
    and "map (cd_type \<circ> ci_data) (all_items CT_ALL32 db') = map (cd_type \<circ> ci_data) (all_items CT_ALL32 db)"
    and "\<forall>ci\<in>set (all_items CT_ALL32 db'). getCoverFlags ci = default_flags ci"
  shows "\<exists>bs. flags_serialize db = Inr bs \<and> flags_deserialize bs db' =
    Inr (map2 (\<lambda>ci ci'. setCoverFlags (getCoverFlags ci) ci') (all_items CT_ALL32 db) (all_items CT_ALL32 db'))"
proof -
  let ?cs = "all_items CT_ALL32 db" and ?cs' = "all_items CT_ALL32 db'"
  let ?es = "sparse (\<lambda>ci. getCoverFlags ci \<noteq> default_flags ci) getCoverFlags ?cs"
  obtain bs where bs: "flags_serialize db = Inr bs" using flags_serialize_ok[OF assms(1)] ..
  then have rd: "read_table bs = Inr ?es" by (simp add: flags_serialize_def read_write_table)
  have len: "length ?cs' = length ?cs" using assms(2) by (rule map_eq_imp_length_eq)
  have ty: "cd_type (ci_data (?cs' ! i)) = cd_type (ci_data (?cs ! i))" if "i < length ?cs" for i
    using arg_cong[OF assms(2), of "\<lambda>l. l ! i"] that len by simp
  have df: "default_flags (?cs' ! i) = default_flags (?cs ! i)" if "i < length ?cs" for i
    using ty[OF that] by (simp add: default_flags_def)
  have same: "setCoverFlags (getCoverFlags ci) ci = ci" for ci
    by (simp add: setCoverFlags_def getCoverFlags_def)
  have ap: "flags_apply ?es 0 ?cs' = map2 (\<lambda>ci ci'. setCoverFlags (getCoverFlags ci) ci') ?cs ?cs'"
    using len by (subst flags_apply_lookup) (auto intro!: nth_equalityI simp: nth_enumerate_eq dict_get_sparse df)
  have "?cs' = map2 (\<lambda>ci ci'. setCoverFlags (getCoverFlags ci) ci') ?cs ?cs'" if "?es = []"
  proof (rule nth_equalityI)
    fix i assume i: "i < length ?cs'"
    have "dict_get ?es i = None" by (simp add: that)
    then have "getCoverFlags (?cs ! i) = default_flags (?cs ! i)"
      using i len by (simp add: dict_get_sparse split: if_splits)
    then have "getCoverFlags (?cs' ! i) = getCoverFlags (?cs ! i)" using assms(3) i len df by simp
    then show "?cs' ! i = map2 (\<lambda>ci ci'. setCoverFlags (getCoverFlags ci) ci') ?cs ?cs' ! i"
      using i len same[of "?cs' ! i"] by simp
  qed (simp add: len)
  with ap rd bs show ?thesis by (auto simp: flags_deserialize_def)
qed

definition excluded_item :: coveritem where
  "excluded_item = \<lparr>ci_name = lit ''low'', ci_data = CoverData CT_CVGBIN 57, ci_src = None\<rparr>"

definition example_point :: "coveritem list \<Rightarrow> scope" where
  "example_point cis =
     Scope \<lparr>m_type = ST_COVERPOINT, m_name = lit ''cp'', m_srcinfo = \<lparr>si_file = None, si_line = -1, si_token = -1\<rparr>,
            m_weight = 1, m_source = SOURCE_NONE, m_flags = 0, m_goal = -1\<rparr> cis []"

lemma example_point_dfs [simp]: "fst (dfs_scope_list (new_ucis [example_point cis])) = [example_point cis]"
  by (simp add: dfs_scope_list_def new_ucis_def dfs_forest_def scopes_def sc_type_def
      example_point_def is_toggle_pair_def type_codes)

lemma example_point_no_toggle [simp]: "\<not> is_toggle_pair (example_point cis)"
  by (simp add: example_point_def is_toggle_pair_def sc_type_def type_codes)

lemma example_point_items [simp]:
  "coverItems msk (example_point cis) = filter (\<lambda>ci. cd_type (ci_data ci) AND msk \<noteq> 0) cis"
  by (simp add: coverItems_def example_point_def)

lemma all_items_example:
  "(\<forall>ci\<in>set cis. cd_type (ci_data ci) AND CT_ALL32 \<noteq> 0) \<Longrightarrow> all_items CT_ALL32 (new_ucis [example_point cis]) = cis"
  by (simp add: all_items_def filter_id_conv)

lemma items_excluded:
  "all_items CT_ALL32 (new_ucis [example_point [excluded_item]]) = [excluded_item]"
  "all_items CT_ALL32 (new_ucis [example_point [setCoverFlags f excluded_item]]) = [setCoverFlags f excluded_item]"
  by (subst all_items_example; simp add: excluded_item_def setCoverFlags_def CoverData_def CT_CVGBIN_def CT_ALL32_def)+

lemma coveritem_flags_roundtrip_witness:
  "\<exists>bs. flags_serialize (new_ucis [example_point [excluded_item]]) = Inr bs \<and>
     flags_deserialize bs (new_ucis [example_point [setCoverFlags 25 excluded_item]]) =
       Inr (map2 (\<lambda>ci ci'. setCoverFlags (getCoverFlags ci) ci')
         (all_items CT_ALL32 (new_ucis [example_point [excluded_item]]))
         (all_items CT_ALL32 (new_ucis [example_point [setCoverFlags 25 excluded_item]])))"
  by (rule coveritem_flags_roundtrip; unfold items_excluded)
    (simp_all add: excluded_item_def setCoverFlags_def getCoverFlags_def default_flags_def
      CoverData_def type_codes cover_type_defaults_def COVER_TYPE_DEFAULTS_def)

section \<open>Merging serialized flags\<close>

text \<open>\<open>_decode_flags\<close> is a generator; an error in any payload aborts the whole merge.\<close>

definition decode_flags :: "bytes \<Rightarrow> (nat \<times> int) list res" where
  "decode_flags data = read_table data"

definition or_entry :: "(nat \<times> int) list \<Rightarrow> nat \<times> int \<Rightarrow> (nat \<times> int) list" where
  "or_entry merged = (\<lambda>(index, flags).
     dict_set index ((case dict_get merged index of None \<Rightarrow> 0 | Some f \<Rightarrow> f) OR flags) merged)"

definition merge_coveritem_flags :: "bytes list \<Rightarrow> bytes res" where
  "merge_coveritem_flags payloads =
     bindE (foldE (\<lambda>merged data. bindE (decode_flags data) (\<lambda>es. Inr (foldl or_entry merged es))) [] payloads) (\<lambda>merged.
       write_table (map (\<lambda>index. (index, the (dict_get merged index))) (sort (dict_keys merged))))"

lemma or_entry_pair:
  "or_entry m (j, f) = dict_set j ((case dict_get m j of None \<Rightarrow> 0 | Some g \<Rightarrow> g) OR f) m"
  by (simp add: or_entry_def)

definition flags_of :: "(nat \<times> int) list \<Rightarrow> nat \<Rightarrow> int list" where
  "flags_of es index = map snd (filter (\<lambda>e. fst e = index) es)"

lemma flags_of_simps [simp]:
  "flags_of [] i = []" "flags_of ((j, f) # es) i = (if i = j then f # flags_of es i else flags_of es i)"
  "flags_of (es @ es') i = flags_of es i @ flags_of es' i"
  by (auto simp: flags_of_def)

lemma or_entries_get:
  "dict_get (foldl or_entry m es) i =
     (if flags_of es i = [] then dict_get m i
      else Some (foldl (OR) (case dict_get m i of None \<Rightarrow> 0 | Some f \<Rightarrow> f) (flags_of es i)))"
proof (induction es arbitrary: m)
  case Nil
  then show ?case by simp
next
  case (Cons e es)
  obtain j f where e: "e = (j, f)" by (cases e)
  show ?case
    by (simp add: e Cons.IH or_entry_pair dict_get_set)
qed

lemma or_entries_distinct: "distinct (dict_keys m) \<Longrightarrow> distinct (dict_keys (foldl or_entry m es))"
  by (induction es arbitrary: m) (auto simp: or_entry_def distinct_update)

lemma foldl_or_nonneg: "0 \<le> (a::int) \<Longrightarrow> \<forall>f\<in>set fs. 0 \<le> f \<Longrightarrow> 0 \<le> foldl (OR) a fs"
  by (induction fs arbitrary: a) simp_all

lemma foldl_or_bit: "bit (foldl (OR) (a::int) fs) k \<longleftrightarrow> bit a k \<or> (\<exists>f\<in>set fs. bit f k)"
  by (induction fs arbitrary: a) (auto simp: bit_or_iff)

lemma merge_fold:
  "mapE decode_flags payloads = Inr ess \<Longrightarrow>
   foldE (\<lambda>merged data. bindE (decode_flags data) (\<lambda>es. Inr (foldl or_entry merged es))) m payloads
     = Inr (foldl or_entry m (concat ess))"
  by (induction payloads arbitrary: ess m) (auto simp: bindE_eq_Inr)

lemma decode_flags_nonneg: "decode_flags data = Inr es \<Longrightarrow> (i, f) \<in> set es \<Longrightarrow> 0 \<le> f"
  by (force simp: decode_flags_def read_table_def bindE_eq_Inr split: if_splits dest!: read_pairs_sorted)

lemma mapE_decode_nonneg: "mapE decode_flags payloads = Inr ess \<Longrightarrow> es \<in> set ess \<Longrightarrow> (i, f) \<in> set es \<Longrightarrow> 0 \<le> f"
  by (induction payloads arbitrary: ess) (auto simp: bindE_eq_Inr intro: decode_flags_nonneg)

lemma in_flags_of: "g \<in> set (flags_of (concat ess) i) \<longleftrightarrow> (\<exists>es\<in>set ess. (i, g) \<in> set es)"
  by (force simp: flags_of_def)

lemma dict_get_sorted_keys:
  fixes m :: "(nat \<times> int) list"
  shows "dict_get (map (\<lambda>i. (i, the (dict_get m i))) (sort (dict_keys m))) i = dict_get m i"
proof -
  have "map_of (map (\<lambda>i. (i, g i)) xs) i = (if i \<in> set xs then Some (g i) else None)" for g :: "nat \<Rightarrow> int" and xs
    by (induction xs) auto
  then show ?thesis using map_of_eq_None_iff[of m i] by (cases "dict_get m i") auto
qed

lemma merge_coveritem_flags_reads:
  assumes "mapE decode_flags payloads = Inr ess"
  shows "\<exists>bs out. merge_coveritem_flags payloads = Inr bs \<and> decode_flags bs = Inr out \<and>
    (\<forall>i. dict_get out i = (let fs = flags_of (concat ess) i in if fs = [] then None else Some (foldl (OR) 0 fs)))"
proof -
  let ?m = "foldl or_entry [] (concat ess)"
  let ?out = "map (\<lambda>i. (i, the (dict_get ?m i))) (sort (dict_keys ?m))"
  have get: "dict_get ?m i = (if flags_of (concat ess) i = [] then None else Some (foldl (OR) 0 (flags_of (concat ess) i)))" for i
    by (simp add: or_entries_get)
  have nn: "\<forall>f\<in>set (flags_of (concat ess) i). 0 \<le> f" for i
    using mapE_decode_nonneg[OF assms] by (auto simp: in_flags_of)
  have "0 \<le> the (dict_get ?m i)" if "i \<in> set (dict_keys ?m)" for i
  proof -
    from that obtain f where "dict_get ?m i = Some f" by (metis map_of_eq_None_iff image_set option.exhaust)
    with get[of i] nn[of i] show ?thesis by (auto simp: foldl_or_nonneg split: if_splits)
  qed
  then have "is_ok (write_table ?out)"
    by (auto simp: write_table_ok comp_def)
  then obtain bs where "write_table ?out = Inr bs" by (rule is_okE)
  then have "merge_coveritem_flags payloads = Inr bs" "decode_flags bs = Inr ?out"
    by (simp_all add: merge_coveritem_flags_def merge_fold[OF assms] decode_flags_def[of bs] read_write_table)
  moreover have "dict_get ?out i = (let fs = flags_of (concat ess) i in if fs = [] then None else Some (foldl (OR) 0 fs))" for i
    unfolding Let_def by (rule trans[OF dict_get_sorted_keys get])
  ultimately show ?thesis by blast
qed

text \<open>
  The merge of flag members is the bitwise union of what the sources list: when every
  payload decodes, the merge succeeds, lists exactly the items some source lists, and a bit (an
  exclusion or a waiver) is set in the merge of an item iff some source lists the item with it set.
\<close>

theorem merge_flags_union:
  assumes "mapE decode_flags payloads = Inr ess"
  shows "\<exists>bs out. merge_coveritem_flags payloads = Inr bs \<and> decode_flags bs = Inr out \<and>
    (\<forall>i. (dict_get out i = None \<longleftrightarrow> (\<forall>es\<in>set ess. i \<notin> set (dict_keys es))) \<and>
         (\<forall>f k. dict_get out i = Some f \<longrightarrow> (bit f k \<longleftrightarrow> (\<exists>es\<in>set ess. \<exists>g. (i, g) \<in> set es \<and> bit g k))))"
proof -
  obtain bs out where o: "merge_coveritem_flags payloads = Inr bs" "decode_flags bs = Inr out"
    and g: "\<And>i. dict_get out i = (let fs = flags_of (concat ess) i in if fs = [] then None else Some (foldl (OR) 0 fs))"
    using merge_coveritem_flags_reads[OF assms] by blast
  have n: "flags_of (concat ess) i = [] \<longleftrightarrow> (\<forall>es\<in>set ess. i \<notin> set (dict_keys es))" for i
    by (auto simp: flags_of_def filter_empty_conv)
  have "(dict_get out i = None \<longleftrightarrow> (\<forall>es\<in>set ess. i \<notin> set (dict_keys es))) \<and>
      (\<forall>f k. dict_get out i = Some f \<longrightarrow> (bit f k \<longleftrightarrow> (\<exists>es\<in>set ess. \<exists>g. (i, g) \<in> set es \<and> bit g k)))" for i
  proof (intro conjI allI impI)
    show "dict_get out i = None \<longleftrightarrow> (\<forall>es\<in>set ess. i \<notin> set (dict_keys es))"
      unfolding g n[symmetric] by (simp split: if_splits)
  next
    fix f k assume "dict_get out i = Some f"
    then have "f = foldl (OR) 0 (flags_of (concat ess) i)" unfolding g by (simp split: if_splits)
    then show "bit f k \<longleftrightarrow> (\<exists>es\<in>set ess. \<exists>g. (i, g) \<in> set es \<and> bit g k)"
      by (simp add: foldl_or_bit Bex_def in_flags_of) blast
  qed
  with o show ?thesis by blast
qed

lemma merge_flags_union_witness:
  "\<exists>bs out. merge_coveritem_flags [[1, 1, 2, 9], [], [1, 2, 2, 32, 1, 1]] = Inr bs \<and> decode_flags bs = Inr out \<and>
    (\<forall>i. (dict_get out i = None \<longleftrightarrow> (\<forall>es\<in>set [[(2, 9)], [], [(2, 32), (3, 1 :: int)]]. i \<notin> set (dict_keys es))) \<and>
         (\<forall>f k. dict_get out i = Some f \<longrightarrow>
            (bit f k \<longleftrightarrow> (\<exists>es\<in>set [[(2, 9)], [], [(2, 32), (3, 1 :: int)]]. \<exists>g. (i, g) \<in> set es \<and> bit g k))))"
  by (rule merge_flags_union)
    (simp add: decode_flags_def read_table_def decode_varint_def decode_step)

end
