(* ===== verification/ItemTables.thy ===== *)
theory ItemTables
  imports CoverFlags
begin

text \<open>
  The two per-item members a scope tree needs beside it: \<open>coveritem_types.bin\<close>
  (\<open>ncdb/coveritem_types.py\<close>: cover type, at_least and goal, run-length encoded) and
  \<open>coveritem_sources.bin\<close> (\<open>ncdb/coveritem_sources.py\<close>: source locations). Both number the items
  in traversal order and skip the two slots of a folded toggle pair.
\<close>

section \<open>Slots\<close>

text \<open>
  The item slots of a traversal: the items of every scope that is not a toggle pair, and two empty
  slots for each toggle pair. The position of a slot is its DFS index.
\<close>

definition scope_slots :: "scope \<Rightarrow> coveritem option list" where
  "scope_slots s = (if is_toggle_pair s then [None, None] else map Some (coverItems CT_ALL s))"

definition item_slots :: "ucis \<Rightarrow> coveritem option list" where
  "item_slots db = concat (map scope_slots (fst (dfs_scope_list db)))"

section \<open>coveritem_types.bin\<close>

type_synonym item_vals = "int \<times> int \<times> int"
type_synonym run = "nat \<times> nat \<times> item_vals"

definition item_values :: "coverdata \<Rightarrow> item_vals" where
  "item_values cd = (cd_type cd, max 0 (cd_at_least cd), max 0 (cd_goal cd))"

text \<open>What the scope tree alone rebuilds for every item of a scope, from its first item.\<close>

definition rebuilt_values :: "coveritem list \<Rightarrow> item_vals" where
  "rebuilt_values cis =
     (let cd0 = ci_data (hd cis) in (cd_type cd0, max 0 (cd_at_least cd0), 0))"

fun push_run :: "run list \<Rightarrow> nat \<times> item_vals \<Rightarrow> run list" where
  "push_run [] (idx, vals) = [(idx, 1, vals)]"
| "push_run [(start, len, v)] (idx, vals) =
     (if start + len = idx \<and> v = vals then [(start, Suc len, v)] else [(start, len, v), (idx, 1, vals)])"
| "push_run (r # r' # rs) e = r # push_run (r' # rs) e"

text \<open>The items of one scope that the writer records, \<open>first\<close> being the index of its first item.\<close>

definition scope_diffs :: "nat \<Rightarrow> scope \<Rightarrow> (nat \<times> item_vals) list" where
  "scope_diffs first s =
     (if is_toggle_pair s then []
      else let cis = coverItems CT_ALL s in
        concat (map (\<lambda>(i, ci). let vals = item_values (ci_data ci)
                               in if vals = rebuilt_values cis then [] else [(first + i, vals)])
          (enumerate 0 cis)))"

fun tree_diffs :: "nat \<Rightarrow> scope list \<Rightarrow> (nat \<times> item_vals) list" where
  "tree_diffs idx [] = []"
| "tree_diffs idx (s # ss) = scope_diffs idx s @ tree_diffs (idx + length (scope_slots s)) ss"

fun write_runs :: "int \<Rightarrow> run list \<Rightarrow> bytes res" where
  "write_runs end [] = Inr []"
| "write_runs end ((start, len, ct, at_least, goal) # rs) =
     bindE (encode_varint (int start - end)) (\<lambda>a.
     bindE (encode_varint (int len)) (\<lambda>b.
     bindE (encode_varint ct) (\<lambda>c.
     bindE (encode_varint at_least) (\<lambda>d.
     bindE (encode_varint goal) (\<lambda>e.
     bindE (write_runs (int (start + len)) rs) (\<lambda>r. Inr (a @ b @ c @ d @ e @ r)))))))"

definition types_serialize :: "ucis \<Rightarrow> bytes res" where
  "types_serialize db =
     (let runs = foldl push_run [] (tree_diffs 0 (fst (dfs_scope_list db))) in
      if runs = [] then Inr []
      else bindE (encode_varint 1) (\<lambda>v.
           bindE (encode_varint (int (length runs))) (\<lambda>n.
           bindE (write_runs 0 runs) (\<lambda>body. Inr (v @ n @ body)))))"

fun read_runs :: "nat \<Rightarrow> bytes \<Rightarrow> nat \<Rightarrow> nat \<Rightarrow> (run list \<times> nat) res" where
  "read_runs 0 data off end = Inr ([], off)"
| "read_runs (Suc n) data off end =
     bindE (decode_varint data off) (\<lambda>(delta, off).
     bindE (decode_varint data off) (\<lambda>(len, off).
     bindE (decode_varint data off) (\<lambda>(ct, off).
     bindE (decode_varint data off) (\<lambda>(at_least, off).
     bindE (decode_varint data off) (\<lambda>(goal, off).
     bindE (read_runs n data off (end + delta + len)) (\<lambda>(rs, off).
       Inr ((end + delta, len, int ct, int at_least, int goal) # rs, off)))))))"

text \<open>The assignments to a recorded item.\<close>

definition set_values :: "item_vals \<Rightarrow> coveritem \<Rightarrow> coveritem" where
  "set_values = (\<lambda>(ct, at_least, goal) ci.
     let cd = ci_data ci;
         cd = (if cd_type cd \<noteq> ct then cd\<lparr>cd_flags := fst (cover_type_defaults ct)\<rparr> else cd)
     in ci\<lparr>ci_data := cd\<lparr>cd_type := ct, cd_at_least := at_least, cd_goal := goal\<rparr>\<rparr>)"

text \<open>The reader's walk: runs that end at or before the current index are passed over.\<close>

fun types_apply_slots :: "run list \<Rightarrow> nat \<Rightarrow> coveritem option list \<Rightarrow> coveritem option list" where
  "types_apply_slots runs idx [] = []"
| "types_apply_slots runs idx (None # slots) = None # types_apply_slots runs (Suc idx) slots"
| "types_apply_slots runs idx (Some ci # slots) =
     (case dropWhile (\<lambda>(start, len, _). start + len \<le> idx) runs of
        [] \<Rightarrow> Some ci # slots
      | (start, len, vals) # rs \<Rightarrow>
          Some (if start \<le> idx \<and> idx < start + len then set_values vals ci else ci)
            # types_apply_slots ((start, len, vals) # rs) (Suc idx) slots)"

definition types_apply :: "ucis \<Rightarrow> bytes \<Rightarrow> coveritem option list res" where
  "types_apply db data =
     (if data = [] then Inr (item_slots db)
      else bindE (decode_varint data 0) (\<lambda>(version, off).
           if version \<noteq> 1 then Inr (item_slots db)
           else bindE (decode_varint data off) (\<lambda>(n, off).
                bindE (read_runs n data off 0) (\<lambda>(runs, _).
                  Inr (if runs = [] then item_slots db else types_apply_slots runs 0 (item_slots db))))))"

section \<open>Runs and the items they cover\<close>

definition run_items :: "run list \<Rightarrow> (nat \<times> item_vals) list" where
  "run_items runs = concat (map (\<lambda>(start, len, v). map (\<lambda>i. (i, v)) [start..<start + len]) runs)"

lemma run_items_simps [simp]:
  "run_items [] = []"
  "run_items ((start, len, v) # rs) = map (\<lambda>i. (i, v)) [start..<start + len] @ run_items rs"
  by (simp_all add: run_items_def)

lemma run_items_push: "run_items (push_run runs e) = run_items runs @ [e]"
  by (induction runs e rule: push_run.induct) auto

lemma run_items_fold: "run_items (foldl push_run runs ds) = run_items runs @ ds"
  by (induction ds arbitrary: runs) (simp_all add: run_items_push)

text \<open>Runs in ascending order without overlap and none empty.\<close>

fun runs_ok :: "nat \<Rightarrow> run list \<Rightarrow> bool" where
  "runs_ok end [] \<longleftrightarrow> True"
| "runs_ok end ((start, len, v) # rs) \<longleftrightarrow> end \<le> start \<and> 1 \<le> len \<and> runs_ok (start + len) rs"

lemma runs_ok_push:
  "runs_ok end runs \<Longrightarrow> \<forall>e\<in>set (run_items runs). fst e < idx \<Longrightarrow> end \<le> idx \<Longrightarrow> runs_ok end (push_run runs (idx, v))"
proof (induction runs "(idx, v)" arbitrary: "end" rule: push_run.induct)
  case (2 start len w)
  then have "start + len - 1 \<in> {start..<start + len}" by auto
  with 2 have "start + len - 1 < idx" by auto
  with 2 show ?case by auto
next
  case (3 r r' rs)
  obtain start len w where r: "r = (start, len, w)" by (cases r)
  with 3 have "(start + len - 1, w) \<in> set (run_items (r # r' # rs))" by (auto simp del: run_items_simps(2) simp: run_items_simps(2)[of start len w])
  with 3(3) have "start + len - 1 < idx" by fastforce
  with 3 r show ?case by auto
qed simp_all

lemma runs_ok_fold:
  "runs_ok 0 runs \<Longrightarrow> sorted_wrt (<) (map fst (run_items runs @ ds)) \<Longrightarrow> runs_ok 0 (foldl push_run runs ds)"
proof (induction ds arbitrary: runs)
  case Nil
  then show ?case by simp
next
  case (Cons d ds)
  obtain i v where d: "d = (i, v)" by (cases d)
  have "runs_ok 0 (push_run runs (i, v))"
    using Cons.prems by (intro runs_ok_push) (auto simp: d sorted_wrt_append)
  with Cons.IH[of "push_run runs d"] Cons.prems(2) show ?case by (simp add: d run_items_push)
qed

lemma runs_ok_items: "runs_ok e runs \<Longrightarrow> (i, v) \<in> set (run_items runs) \<Longrightarrow> e \<le> i"
proof (induction runs arbitrary: e)
  case Nil
  then show ?case by simp
next
  case (Cons r rs)
  obtain start len w where r: "r = (start, len, w)" by (cases r)
  with Cons show ?case by (auto dest!: Cons.IH)
qed

lemma runs_ok_sorted: "runs_ok e runs \<Longrightarrow> sorted_wrt (<) (map fst (run_items runs))"
proof (induction runs arbitrary: e)
  case Nil
  then show ?case by simp
next
  case (Cons r rs)
  obtain start len w where r: "r = (start, len, w)" by (cases r)
  with Cons have "sorted_wrt (<) (map fst (run_items rs))" "runs_ok (start + len) rs" by auto
  with r runs_ok_items[of "start + len" rs] show ?case
    by (auto simp: sorted_wrt_append comp_def) fastforce
qed

lemma run_items_below: "runs_ok e runs \<Longrightarrow> i < e \<Longrightarrow> dict_get (run_items runs) i = None"
  using runs_ok_items[of e runs i] by (cases "dict_get (run_items runs) i") (auto dest: map_of_SomeD)

lemma dict_get_interval: "dict_get (map (\<lambda>i. (i, v)) xs) i = (if i \<in> set xs then Some v else None)"
  by (induction xs) auto

lemma run_items_get:
  "dict_get (run_items ((start, len, v) # rs)) i =
     (if start \<le> i \<and> i < start + len then Some v else dict_get (run_items rs) i)"
  by (auto simp: dict_get_interval map_add_def split: option.splits)

lemma dropWhile_runs:
  "runs_ok e runs \<Longrightarrow> \<exists>e'. runs_ok e' (dropWhile (\<lambda>(start, len, _). start + len \<le> idx) runs) \<and>
     (\<forall>i\<ge>idx. dict_get (run_items (dropWhile (\<lambda>(start, len, _). start + len \<le> idx) runs)) i = dict_get (run_items runs) i)"
proof (induction runs arbitrary: e)
  case Nil
  then show ?case by auto
next
  case (Cons r rs)
  obtain start len v where r: "r = (start, len, v)" by (cases r)
  with Cons.prems have ok: "runs_ok (start + len) rs" by simp
  show ?case
  proof (cases "start + len \<le> idx")
    case True
    with Cons.IH[OF ok] show ?thesis by (auto simp: r run_items_get simp del: run_items_simps)
  next
    case False
    with Cons.prems show ?thesis by (auto simp: r simp del: run_items_simps)
  qed
qed

lemma types_apply_slots_get:
  "runs_ok e runs \<Longrightarrow>
   types_apply_slots runs idx slots =
     map (\<lambda>(i, slot). map_option (\<lambda>ci. case dict_get (run_items runs) i of None \<Rightarrow> ci | Some v \<Rightarrow> set_values v ci) slot)
       (enumerate idx slots)"
proof (induction slots arbitrary: runs idx e)
  case Nil
  then show ?case by simp
next
  case (Cons slot slots)
  show ?case
  proof (cases slot)
    case None
    with Cons.IH[OF Cons.prems, of "Suc idx"] show ?thesis by simp
  next
    case (Some ci)
    let ?d = "dropWhile (\<lambda>(start, len, _). start + len \<le> idx) runs"
    obtain e' where ok: "runs_ok e' ?d" and get: "\<forall>i\<ge>idx. dict_get (run_items ?d) i = dict_get (run_items runs) i"
      using dropWhile_runs[OF Cons.prems] by blast
    have rest: "map (\<lambda>(i, slot). map_option (\<lambda>ci. case dict_get (run_items ?d) i of None \<Rightarrow> ci | Some v \<Rightarrow> set_values v ci) slot)
         (enumerate (Suc idx) slots) =
       map (\<lambda>(i, slot). map_option (\<lambda>ci. case dict_get (run_items runs) i of None \<Rightarrow> ci | Some v \<Rightarrow> set_values v ci) slot)
         (enumerate (Suc idx) slots)"
      by (rule map_cong[OF refl]) (auto simp: in_set_enumerate_eq get)
    show ?thesis
    proof (cases ?d)
      case Nil
      with get have none: "dict_get (run_items runs) i = None" if "idx \<le> i" for i using that by auto
      have "map (\<lambda>(i, slot). map_option (\<lambda>ci. case dict_get (run_items runs) i of None \<Rightarrow> ci | Some v \<Rightarrow> set_values v ci) slot)
         (enumerate (Suc idx) slots) = map snd (enumerate (Suc idx) slots)"
        by (rule map_cong[OF refl]) (auto simp: in_set_enumerate_eq none option.map_ident)
      moreover have "types_apply_slots runs idx (Some ci # slots) = Some ci # slots"
        unfolding types_apply_slots.simps Nil by simp
      ultimately show ?thesis using none by (simp add: Some)
    next
      case (Cons r rs)
      obtain start len v where r: "r = (start, len, v)" by (cases r)
      with Cons ok have ok': "runs_ok (start + len) rs" by simp
      have "dict_get (run_items runs) idx = (if start \<le> idx \<and> idx < start + len then Some v else None)"
      proof -
        have "\<not> start + len \<le> idx" using Cons r by (metis (mono_tags, lifting) dropWhile_eq_Cons_conv split_conv)
        then have "dict_get (run_items rs) idx = None" using run_items_below[OF ok'] by simp
        with get[rule_format, of idx] Cons r show ?thesis
          by (simp add: run_items_get del: run_items_simps split: if_splits)
      qed
      with Cons.IH[OF ok, of "Suc idx"] rest Some Cons r show ?thesis
        by (simp del: run_items_simps split: option.splits)
    qed
  qed
qed

section \<open>Round trip of the types member\<close>

lemma read_write_runs:
  "write_runs (int e) runs = Inr bs \<Longrightarrow> at data off bs \<Longrightarrow>
   read_runs (length runs) data off e = Inr (runs, off + length bs)"
proof (induction runs arbitrary: e bs off)
  case Nil
  then show ?case by simp
next
  case (Cons r rs)
  obtain start len ct al g where r: "r = (start, len, ct, al, g)" by (cases r)
  from Cons.prems(1) obtain body where b: "e \<le> start" "0 \<le> ct" "0 \<le> al" "0 \<le> g"
      "bs = varint_loop (start - e) @ varint_loop len @ varint_loop (nat ct) @ varint_loop (nat al) @ varint_loop (nat g) @ body"
      "write_runs (int (start + len)) rs = Inr body"
    unfolding r by (auto simp: bindE_eq_Inr encode_varint_eq_Inr nat_diff_distrib)
  note at = Cons.prems(2)[unfolded b(5) at_append]
  from at have a: "at data off (varint_loop (start - e))"
    "at data (off + length (varint_loop (start - e))) (varint_loop len)" by auto
  note d = a[THEN decode_varint_at] at[THEN conjunct2, THEN conjunct2, THEN conjunct1, THEN decode_varint_at]
    at[THEN conjunct2, THEN conjunct2, THEN conjunct2, THEN conjunct1, THEN decode_varint_at]
    at[THEN conjunct2, THEN conjunct2, THEN conjunct2, THEN conjunct2, THEN conjunct1, THEN decode_varint_at]
  from Cons.IH[OF b(6) at[THEN conjunct2, THEN conjunct2, THEN conjunct2, THEN conjunct2, THEN conjunct2]] d b
  show ?case by (simp add: r add.assoc)
qed

lemma write_runs_ok:
  "runs_ok e runs \<Longrightarrow> \<forall>(start, len, ct, al, g)\<in>set runs. 0 \<le> ct \<and> 0 \<le> al \<and> 0 \<le> g \<Longrightarrow>
   \<exists>bs. write_runs (int e) runs = Inr bs"
proof (induction runs arbitrary: e)
  case Nil
  then show ?case by simp
next
  case (Cons r rs)
  obtain start len ct al g where r: "r = (start, len, ct, al, g)" by (cases r)
  with Cons.prems Cons.IH[of "start + len"] obtain body where "write_runs (int (start + len)) rs = Inr body"
    by auto
  with Cons.prems r show ?case by (auto simp: encode_varint_def)
qed

lemma push_run_values: "set (map (snd \<circ> snd) (push_run runs (idx, v))) = insert v (set (map (snd \<circ> snd) runs))"
  by (induction runs "(idx, v)" rule: push_run.induct) auto

lemma fold_push_values: "set (map (snd \<circ> snd) (foldl push_run runs ds)) = set (map snd ds) \<union> set (map (snd \<circ> snd) runs)"
proof (induction ds arbitrary: runs)
  case Nil
  then show ?case by simp
next
  case (Cons d ds)
  then show ?case using push_run_values[of runs "fst d" "snd d"] by (simp add: Cons.IH)
qed

text \<open>Each slot with the values of its item and those its scope's first item stands for.\<close>

definition scope_vals :: "scope \<Rightarrow> (item_vals \<times> item_vals) option list" where
  "scope_vals s =
     (if is_toggle_pair s then [None, None]
      else let cis = coverItems CT_ALL s
           in map (\<lambda>ci. Some (item_values (ci_data ci), rebuilt_values cis)) cis)"

definition slot_diff :: "(item_vals \<times> item_vals) option \<Rightarrow> item_vals option" where
  "slot_diff sv = (case sv of None \<Rightarrow> None | Some (v, r) \<Rightarrow> if v = r then None else Some v)"

definition listed :: "nat \<Rightarrow> (item_vals \<times> item_vals) option list \<Rightarrow> (nat \<times> item_vals) list" where
  "listed n svs = concat (map (\<lambda>(i, sv). case slot_diff sv of None \<Rightarrow> [] | Some v \<Rightarrow> [(i, v)]) (enumerate n svs))"

lemma listed_simps [simp]:
  "listed n [] = []"
  "listed n (sv # svs) = (case slot_diff sv of None \<Rightarrow> [] | Some v \<Rightarrow> [(n, v)]) @ listed (Suc n) svs"
  by (simp_all add: listed_def)

lemma listed_append: "listed n (xs @ ys) = listed n xs @ listed (n + length xs) ys"
  by (induction xs arbitrary: n) simp_all

lemma listed_items:
  "listed (first + k) (map (\<lambda>ci. Some (f ci, r)) cis) =
   concat (map (\<lambda>(i, ci). if f ci = r then [] else [(first + i, f ci)]) (enumerate k cis))"
  using listed_def slot_diff_def by (induction cis arbitrary: k) (simp_all add: slot_diff_def flip: add_Suc_right)

lemma tree_diffs_listed: "tree_diffs n ss = listed n (concat (map scope_vals ss))"
proof (induction ss arbitrary: n)
  case Nil
  then show ?case by simp
next
  case (Cons s ss)
  have "scope_diffs n s = listed n (scope_vals s)"
    using listed_items[of n 0 "\<lambda>ci. item_values (ci_data ci)" "rebuilt_values (coverItems CT_ALL s)" "coverItems CT_ALL s"]
    by (simp add: scope_diffs_def scope_vals_def slot_diff_def)
  moreover have "length (scope_slots s) = length (scope_vals s)"
    by (simp add: scope_slots_def scope_vals_def)
  ultimately show ?case by (simp add: Cons.IH listed_append)
qed

lemma listed_keys: "\<forall>e\<in>set (listed n svs). n \<le> fst e"
  by (induction svs arbitrary: n) (auto split: option.splits dest: Suc_leD)

lemma listed_sorted: "sorted_wrt (<) (map fst (listed n svs))"
proof (induction svs arbitrary: n)
  case Nil
  then show ?case by simp
next
  case (Cons sv svs)
  then show ?case using listed_keys[of "Suc n" svs] by (auto split: option.splits simp: Suc_le_eq)
qed

lemma listed_get: "i < length svs \<Longrightarrow> dict_get (listed n svs) (n + i) = slot_diff (svs ! i)"
proof (induction svs arbitrary: n i)
  case Nil
  then show ?case by simp
next
  case (Cons sv svs)
  have past: "dict_get (listed (Suc n) svs) n = None"
    using listed_keys[of "Suc n" svs] by (auto simp: map_of_eq_None_iff)
  show ?case
  proof (cases i)
    case 0
    with past show ?thesis by (auto split: option.splits)
  next
    case (Suc j)
    with Cons.IH[of j "Suc n"] Cons.prems show ?thesis by (auto split: option.splits)
  qed
qed

lemma slot_diff_eq: "slot_diff sv = Some v \<Longrightarrow> \<exists>r. sv = Some (v, r)"
  by (auto simp: slot_diff_def split: option.splits if_splits)

lemma listed_values: "v \<in> snd ` set (listed n svs) \<Longrightarrow> \<exists>sv\<in>set svs. slot_diff sv = Some v"
  by (induction svs arbitrary: n) (auto split: option.splits)

definition vals_ok :: "item_vals \<Rightarrow> bool" where
  "vals_ok = (\<lambda>(ct, al, g). 0 \<le> ct \<and> 0 \<le> al \<and> 0 \<le> g)"

lemma item_values_set: "vals_ok v \<Longrightarrow> item_values (ci_data (set_values v ci)) = v"
  by (cases v) (simp add: vals_ok_def set_values_def item_values_def)

text \<open>
  The scope \<open>s'\<close> is what the scope tree alone rebuilds of \<open>s\<close>: as many items, all with the cover type
  and at_least of the first item of \<open>s\<close> and goal 0.
\<close>

definition rebuilt_from :: "scope \<Rightarrow> scope \<Rightarrow> bool" where
  "rebuilt_from s s' \<longleftrightarrow> is_toggle_pair s' = is_toggle_pair s \<and>
     (\<not> is_toggle_pair s \<longrightarrow>
        map (item_values \<circ> ci_data) (coverItems CT_ALL s') =
        map (\<lambda>_. rebuilt_values (coverItems CT_ALL s)) (coverItems CT_ALL s))"

lemma rebuilt_slots:
  assumes "list_all2 rebuilt_from ss ss'"
  shows "map (map_option (item_values \<circ> ci_data)) (concat (map scope_slots ss')) =
    map (map_option snd) (concat (map scope_vals ss))"
  using assms
proof (induction ss ss' rule: list_all2_induct)
  case Nil
  then show ?case by simp
next
  case (Cons s ss s' ss')
  have "map (map_option (item_values \<circ> ci_data)) (scope_slots s') = map (map_option snd) (scope_vals s)"
  proof (cases "is_toggle_pair s")
    case True
    with Cons.hyps show ?thesis by (simp add: rebuilt_from_def scope_slots_def scope_vals_def)
  next
    case False
    let ?r = "rebuilt_values (coverItems CT_ALL s)"
    from Cons.hyps False have t: "\<not> is_toggle_pair s'"
      and m: "map (item_values \<circ> ci_data) (coverItems CT_ALL s') = map (\<lambda>_. ?r) (coverItems CT_ALL s)"
      by (simp_all only: rebuilt_from_def simp_thms)
    have "map (map_option (item_values \<circ> ci_data)) (scope_slots s') = map Some (map (item_values \<circ> ci_data) (coverItems CT_ALL s'))"
      using t by (simp add: scope_slots_def)
    also have "\<dots> = map (map_option snd) (scope_vals s)"
      unfolding m using False by (simp add: scope_vals_def)
    finally show ?thesis .
  qed
  with Cons.IH show ?case by (simp only: list.map concat.simps map_append)
qed

lemma slots_values:
  "map (map_option (item_values \<circ> ci_data)) (concat (map scope_slots ss)) = map (map_option fst) (concat (map scope_vals ss))"
  by (induction ss) (simp_all add: scope_slots_def scope_vals_def comp_def)

lemma slot_diff_apply:
  assumes "map_option (item_values \<circ> ci_data) slot = map_option snd sv" "\<And>v r. sv = Some (v, r) \<Longrightarrow> vals_ok v"
  shows "map_option (item_values \<circ> ci_data)
      (map_option (\<lambda>ci. case slot_diff sv of None \<Rightarrow> ci | Some v \<Rightarrow> set_values v ci) slot) = map_option fst sv"
  using assms by (cases sv; cases slot) (auto simp: slot_diff_def item_values_set)

lemma types_apply_vals:
  assumes "runs_ok 0 runs" "run_items runs = listed 0 svs"
    and "map (map_option (item_values \<circ> ci_data)) slots = map (map_option snd) svs"
    and "\<And>v r. Some (v, r) \<in> set svs \<Longrightarrow> vals_ok v"
  shows "map (map_option (item_values \<circ> ci_data)) (types_apply_slots runs 0 slots) = map (map_option fst) svs"
proof (rule nth_equalityI)
  have len: "length slots = length svs" using assms(3) by (rule map_eq_imp_length_eq)
  then show "length (map (map_option (item_values \<circ> ci_data)) (types_apply_slots runs 0 slots)) = length (map (map_option fst) svs)"
    by (simp add: types_apply_slots_get[OF assms(1)])
  fix i assume "i < length (map (map_option (item_values \<circ> ci_data)) (types_apply_slots runs 0 slots))"
  then have i: "i < length svs" using len by (simp add: types_apply_slots_get[OF assms(1)])
  have 1: "map_option (item_values \<circ> ci_data) (slots ! i) = map_option snd (svs ! i)"
    using arg_cong[OF assms(3), of "\<lambda>l. l ! i"] i len by simp
  have 2: "vals_ok v" if "svs ! i = Some (v, r)" for v r
    using assms(4)[of v r] nth_mem[OF i] that by simp
  have "types_apply_slots runs 0 slots ! i =
      map_option (\<lambda>ci. case slot_diff (svs ! i) of None \<Rightarrow> ci | Some v \<Rightarrow> set_values v ci) (slots ! i)"
    using listed_get[OF i, of 0] i len
    by (simp add: types_apply_slots_get[OF assms(1)] assms(2) nth_enumerate_eq)
  with slot_diff_apply[OF 1 2] i len
  show "map (map_option (item_values \<circ> ci_data)) (types_apply_slots runs 0 slots) ! i = map (map_option fst) svs ! i"
    by (simp add: types_apply_slots_get[OF assms(1)])
qed

lemma types_member:
  assumes "write_runs (int 0) runs = Inr body" "runs \<noteq> []"
  defines "bs \<equiv> varint_loop 1 @ varint_loop (length runs) @ body"
  shows "types_apply db' bs = Inr (types_apply_slots runs 0 (item_slots db'))"
proof -
  have "at bs 0 bs" by simp
  then have a: "at bs 0 (varint_loop 1)" "at bs (length (varint_loop 1)) (varint_loop (length runs))"
    "at bs (length (varint_loop 1) + length (varint_loop (length runs))) body"
    unfolding bs_def at_append by simp_all
  have "bs \<noteq> []" by (simp add: bs_def)
  with assms(2) decode_varint_at[OF a(1)] decode_varint_at[OF a(2)] read_write_runs[OF assms(1) a(3)]
  show ?thesis by (simp add: types_apply_def)
qed

text \<open>
  The types member restores what the scope tree loses: applied to the scopes the
  scope tree alone rebuilds, where every item has the first item's cover type and at_least and no
  goal, it gives each item of every scope the cover type, at_least and goal it was written with;
  the slots of folded toggle pairs are left alone.
\<close>

theorem coveritem_types_roundtrip:
  assumes "list_all2 rebuilt_from (fst (dfs_scope_list db)) (fst (dfs_scope_list db'))"
    and "\<forall>s\<in>set (fst (dfs_scope_list db)). \<forall>ci\<in>set (coverItems CT_ALL s). 0 \<le> cd_type (ci_data ci)"
  shows "\<exists>bs slots. types_serialize db = Inr bs \<and> types_apply db' bs = Inr slots \<and>
    map (map_option (item_values \<circ> ci_data)) slots = map (map_option (item_values \<circ> ci_data)) (item_slots db)"
proof -
  let ?ss = "fst (dfs_scope_list db)" and ?slots = "item_slots db'"
  let ?svs = "concat (map scope_vals ?ss)" and ?runs = "foldl push_run [] (tree_diffs 0 (fst (dfs_scope_list db)))"
  have ri: "run_items ?runs = listed 0 ?svs" by (simp add: run_items_fold tree_diffs_listed)
  have ok: "runs_ok 0 ?runs"
    by (rule runs_ok_fold) (simp_all add: tree_diffs_listed listed_sorted)
  have vok: "\<And>v r. Some (v, r) \<in> set ?svs \<Longrightarrow> vals_ok v"
    using assms(2) by (auto simp: scope_vals_def item_values_def vals_ok_def split: if_splits)
  have "\<forall>(start, len, ct, al, g)\<in>set ?runs. 0 \<le> ct \<and> 0 \<le> al \<and> 0 \<le> g"
  proof -
    have "set (map (snd \<circ> snd) ?runs) = snd ` set (listed 0 ?svs)"
      using fold_push_values[of "[]" "tree_diffs 0 ?ss"] by (simp add: tree_diffs_listed)
    then have "v \<in> set (map (snd \<circ> snd) ?runs) \<Longrightarrow> vals_ok v" for v
      using listed_values[of v 0 ?svs] vok slot_diff_eq by metis
    then show ?thesis by (fastforce simp: vals_ok_def)
  qed
  from write_runs_ok[OF ok this] obtain body where body: "write_runs (int 0) ?runs = Inr body" ..
  have vals: "map (map_option (item_values \<circ> ci_data)) ?slots = map (map_option snd) ?svs"
    unfolding item_slots_def by (rule rebuilt_slots[OF assms(1)])
  have "map (map_option (item_values \<circ> ci_data)) (types_apply_slots ?runs 0 ?slots) = map (map_option fst) ?svs"
    by (rule types_apply_vals[OF ok ri vals]) (rule vok)
  then have applied: "map (map_option (item_values \<circ> ci_data)) (types_apply_slots ?runs 0 ?slots) =
      map (map_option (item_values \<circ> ci_data)) (item_slots db)"
    by (simp only: item_slots_def slots_values)
  show ?thesis
  proof (cases "?runs = []")
    case True
    then have "types_apply_slots ?runs 0 ?slots = ?slots"
      using types_apply_slots_get[OF ok, of 0 ?slots] by (simp add: option.map_ident case_prod_unfold)
    with True applied show ?thesis by (simp add: types_serialize_def types_apply_def)
  next
    case False
    let ?bs = "varint_loop 1 @ varint_loop (length ?runs) @ body"
    have "types_serialize db = Inr ?bs"
      using False body by (simp add: types_serialize_def encode_varint_def)
    moreover have "types_apply db' ?bs = Inr (types_apply_slots ?runs 0 ?slots)"
      by (rule types_member[OF body False])
    ultimately show ?thesis using applied by blast
  qed
qed

definition plain_item :: "int \<Rightarrow> int \<Rightarrow> coveritem" where
  "plain_item ct goal = \<lparr>ci_name = lit ''b'', ci_data = (CoverData ct 1)\<lparr>cd_goal := goal\<rparr>, ci_src = None\<rparr>"

lemma coveritem_types_roundtrip_witness:
  "\<exists>bs slots. types_serialize (new_ucis [example_point [plain_item 1 5, plain_item 524288 0]]) = Inr bs \<and>
    types_apply (new_ucis [example_point [plain_item 1 0, plain_item 1 0]]) bs = Inr slots \<and>
    map (map_option (item_values \<circ> ci_data)) slots =
    map (map_option (item_values \<circ> ci_data)) (item_slots (new_ucis [example_point [plain_item 1 5, plain_item 524288 0]]))"
  by (rule coveritem_types_roundtrip)
    (simp_all add: rebuilt_from_def rebuilt_values_def item_values_def plain_item_def CoverData_def CT_ALL_def)

end
