(* ===== verification/PyText.thy ===== *)
theory PyText
  imports Utf8
begin

text \<open>
  The \<open>str\<close> operations the archive code uses to build and take apart member names: decimal
  formatting, \<open>int()\<close>, \<open>startswith\<close>, \<open>endswith\<close>, \<open>rstrip\<close> with a character set and
  \<open>split\<close>. \<open>int()\<close> is written out for ASCII input: surrounding white space, a sign, and digits
  with single underscores between them; a digit outside ASCII is a \<open>ValueError\<close> here.
\<close>

section \<open>Decimal numbers\<close>

fun dec_digits :: "nat \<Rightarrow> pystr \<Rightarrow> pystr" where
  "dec_digits n acc =
     (if n < 10 then (48 + n) # acc else dec_digits (n div 10) ((48 + n mod 10) # acc))"

declare dec_digits.simps [simp del]

definition str_nat :: "nat \<Rightarrow> pystr" where
  "str_nat n = dec_digits n []"

definition str_int :: "int \<Rightarrow> pystr" where
  "str_int i = (if i < 0 then 45 # str_nat (nat (- i)) else str_nat (nat i))"

definition is_digit :: "nat \<Rightarrow> bool" where
  "is_digit c = (48 \<le> c \<and> c \<le> 57)"

definition is_space :: "nat \<Rightarrow> bool" where
  "is_space c = ((9 \<le> c \<and> c \<le> 13) \<or> (28 \<le> c \<and> c \<le> 32))"

definition str_strip :: "pystr \<Rightarrow> pystr" where
  "str_strip s = rev (dropWhile is_space (rev (dropWhile is_space s)))"

fun int_digits :: "nat \<Rightarrow> pystr \<Rightarrow> nat option" where
  "int_digits acc [] = Some acc"
| "int_digits acc (c # cs) =
     (if is_digit c then int_digits (acc * 10 + (c - 48)) cs
      else if c = 95 \<and> cs \<noteq> [] \<and> is_digit (hd cs) then int_digits acc cs
      else None)"

definition int_unsigned :: "pystr \<Rightarrow> nat res" where
  "int_unsigned s =
     (case s of [] \<Rightarrow> Inl ValueError
      | c # _ \<Rightarrow> if is_digit c
                then (case int_digits 0 s of None \<Rightarrow> Inl ValueError | Some n \<Rightarrow> Inr n)
                else Inl ValueError)"

definition py_int :: "pystr \<Rightarrow> int res" where
  "py_int s =
     (let t = str_strip s in
      if t \<noteq> [] \<and> hd t = 45 then bindE (int_unsigned (tl t)) (\<lambda>n. Inr (- int n))
      else if t \<noteq> [] \<and> hd t = 43 then bindE (int_unsigned (tl t)) (\<lambda>n. Inr (int n))
      else bindE (int_unsigned t) (\<lambda>n. Inr (int n)))"

lemma dec_digits_append: "dec_digits n acc = dec_digits n [] @ acc"
proof (induction n arbitrary: acc rule: less_induct)
  case (less n)
  show ?case
  proof (cases "n < 10")
    case True
    then show ?thesis by (simp add: dec_digits.simps[of n])
  next
    case False
    then have "n div 10 < n" by simp
    from less.IH[OF this, of "(48 + n mod 10) # acc"] less.IH[OF this, of "[48 + n mod 10]"] False
    show ?thesis by (simp add: dec_digits.simps[of n])
  qed
qed

lemma str_nat_rec: "str_nat n = (if n < 10 then [48 + n] else str_nat (n div 10) @ [48 + n mod 10])"
  unfolding str_nat_def by (subst dec_digits.simps) (simp add: dec_digits_append[of _ "[_]"])

lemma str_nat_small: "n < 10 \<Longrightarrow> str_nat n = [48 + n]"
  by (subst str_nat_rec) simp

lemma str_nat_induct [case_names small step]:
  assumes "\<And>n. n < 10 \<Longrightarrow> P n" "\<And>n. 10 \<le> n \<Longrightarrow> P (n div 10) \<Longrightarrow> P n"
  shows "P (n::nat)"
proof (induction n rule: less_induct)
  case (less n)
  then show ?case by (cases "n < 10") (auto intro: assms)
qed

lemma str_nat_is_digit: "c \<in> set (str_nat n) \<Longrightarrow> is_digit c"
proof (induction n rule: str_nat_induct)
  case (small n)
  then show ?case by (auto simp: str_nat_small is_digit_def)
next
  case (step n)
  then show ?case by (subst (asm) (2) str_nat_rec) (auto simp: is_digit_def)
qed

lemma str_nat_not_Nil [simp]: "str_nat n \<noteq> []"
  by (subst str_nat_rec) simp

lemma int_digits_append: "\<forall>c\<in>set ds. is_digit c \<Longrightarrow>
  int_digits acc (ds @ cs) = int_digits (foldl (\<lambda>a c. a * 10 + (c - 48)) acc ds) cs"
  by (induction ds arbitrary: acc) simp_all

lemma str_nat_value: "foldl (\<lambda>a c. a * 10 + (c - 48)) 0 (str_nat n) = n"
proof (induction n rule: str_nat_induct)
  case (small n)
  then show ?case by (simp add: str_nat_small)
next
  case (step n)
  then show ?case by (subst str_nat_rec) simp
qed

lemma int_digits_str_nat: "int_digits 0 (str_nat n) = Some n"
  using int_digits_append[of "str_nat n" 0 "[]"] by (simp add: str_nat_is_digit str_nat_value)

lemma str_nat_inj [simp]: "str_nat m = str_nat n \<longleftrightarrow> m = n"
proof
  assume "str_nat m = str_nat n"
  then have "Some m = Some n" using int_digits_str_nat[of m] int_digits_str_nat[of n] by (simp only:)
  then show "m = n" by simp
qed simp

lemma digit_not_space: "is_digit c \<Longrightarrow> \<not> is_space c"
  by (auto simp: is_digit_def is_space_def)

lemma dropWhile_none: "(\<And>x. x \<in> set xs \<Longrightarrow> \<not> P x) \<Longrightarrow> dropWhile P xs = xs"
  by (cases xs) auto

lemma str_strip_digits: "\<forall>c\<in>set s. is_digit c \<Longrightarrow> str_strip s = s"
  using dropWhile_none[of s is_space] dropWhile_none[of "rev s" is_space]
  by (simp add: str_strip_def digit_not_space)

lemma py_int_str_nat [simp]: "py_int (str_nat n) = Inr (int n)"
proof -
  obtain c cs where s: "str_nat n = c # cs" by (cases "str_nat n") auto
  have d: "is_digit c" using str_nat_is_digit[of c n] s by simp
  then have "c \<noteq> 45" "c \<noteq> 43" by (auto simp: is_digit_def)
  moreover have "int_unsigned (c # cs) = Inr n"
    using int_digits_str_nat[of n] d by (simp add: int_unsigned_def s del: int_digits.simps)
  moreover have "str_strip (c # cs) = c # cs"
    using str_strip_digits[of "c # cs"] str_nat_is_digit[of _ n] by (simp add: s)
  ultimately show ?thesis
    by (simp add: py_int_def s)
qed

section \<open>Prefixes, suffixes and separators\<close>

definition startswith :: "pystr \<Rightarrow> pystr \<Rightarrow> bool" where
  "startswith s p = (take (length p) s = p)"

definition endswith :: "pystr \<Rightarrow> pystr \<Rightarrow> bool" where
  "endswith s p = (length p \<le> length s \<and> drop (length s - length p) s = p)"

text \<open>\<open>s[len(p):]\<close> and \<open>s[:-n]\<close> for a positive \<open>n\<close>.\<close>

definition str_from :: "nat \<Rightarrow> pystr \<Rightarrow> pystr" where
  "str_from n s = drop n s"

definition str_but :: "nat \<Rightarrow> pystr \<Rightarrow> pystr" where
  "str_but n s = take (length s - n) s"

definition rstrip_chars :: "pystr \<Rightarrow> pystr \<Rightarrow> pystr" where
  "rstrip_chars cs s = rev (dropWhile (\<lambda>c. c \<in> set cs) (rev s))"

text \<open>\<open>s.split(c)[0]\<close>.\<close>

definition split_head :: "nat \<Rightarrow> pystr \<Rightarrow> pystr" where
  "split_head c s = takeWhile (\<lambda>x. x \<noteq> c) s"

fun str_split :: "nat \<Rightarrow> pystr \<Rightarrow> pystr list" where
  "str_split c [] = [[]]"
| "str_split c (x # xs) =
     (if x = c then [] # str_split c xs
      else case str_split c xs of [] \<Rightarrow> [[x]] | p # ps \<Rightarrow> (x # p) # ps)"

definition str_join :: "pystr \<Rightarrow> pystr list \<Rightarrow> pystr" where
  "str_join sep ps = (case ps of [] \<Rightarrow> [] | p # qs \<Rightarrow> p @ concat (map (\<lambda>q. sep @ q) qs))"

lemma startswith_append [simp]: "startswith (p @ s) p"
  by (simp add: startswith_def)

lemma endswith_append [simp]: "endswith (s @ p) p"
  by (simp add: endswith_def)

lemma str_from_append [simp]: "length p = n \<Longrightarrow> str_from n (p @ s) = s"
  by (simp add: str_from_def)

lemma str_but_append [simp]: "length p = n \<Longrightarrow> str_but n (s @ p) = s"
  by (auto simp: str_but_def)

lemma length_lit [simp]: "length (lit s) = length s"
  by (simp add: lit_def)

lemma split_head_stop: "c \<notin> set s \<Longrightarrow> split_head c s = s"
  by (simp add: split_head_def takeWhile_eq_all_conv) metis

lemma str_split_not_Nil [simp]: "str_split c s \<noteq> []"
  by (cases s) (auto split: list.splits)

lemma str_split_plain: "c \<notin> set s \<Longrightarrow> str_split c s = [s]"
  by (induction s) auto

lemma str_split_append: "c \<notin> set s \<Longrightarrow> str_split c (s @ c # t) = s # str_split c t"
  by (induction s) auto

lemma str_split_join:
  "ps \<noteq> [] \<Longrightarrow> \<forall>p\<in>set ps. c \<notin> set p \<Longrightarrow> str_split c (str_join [c] ps) = ps"
proof (induction ps)
  case Nil
  then show ?case by simp
next
  case (Cons p ps)
  show ?case
  proof (cases ps)
    case Nil
    with Cons.prems show ?thesis by (simp add: str_join_def str_split_plain)
  next
    case (Cons q qs)
    with Cons.IH Cons.prems have "str_split c (str_join [c] ps) = ps" by simp
    with Cons Cons.prems show ?thesis by (simp add: str_join_def str_split_append)
  qed
qed

end
