(* ===== verification/Contrib.thy ===== *)
theory Contrib
  imports Sparse PyText
begin

text \<open>
  Per-test contributions: the map \<open>_per_test_data\<close> from history index to bin counts
  (\<open>mem/mem_ucis.py\<close>), its queries (\<open>mem/mem_test_coverage.py\<close>), the members
  \<open>contrib/{history_idx}.bin\<close> (\<open>ncdb/contrib.py\<close>), and their renumbering when archives are
  merged (\<open>renumber_contrib\<close> in \<open>ncdb/member_merge.py\<close>).
\<close>

type_synonym bin_counts = "(nat \<times> int) list"
type_synonym per_test = "(int \<times> bin_counts) list"

definition MEMBER_CONTRIB_DIR :: pystr where
  "MEMBER_CONTRIB_DIR = lit ''contrib/''"

section \<open>Recording and querying\<close>

definition record_test_association :: "per_test \<Rightarrow> int \<Rightarrow> nat \<Rightarrow> int \<Rightarrow> per_test" where
  "record_test_association pt history_idx bin_index amount =
     (let node_data = (case dict_get pt history_idx of None \<Rightarrow> [] | Some d \<Rightarrow> d);
          old = (case dict_get node_data bin_index of None \<Rightarrow> 0 | Some c \<Rightarrow> c)
      in dict_set history_idx (dict_set bin_index (old + amount) node_data) pt)"

definition test_bins :: "per_test \<Rightarrow> int \<Rightarrow> bin_counts" where
  "test_bins pt history_idx = (case dict_get pt history_idx of None \<Rightarrow> [] | Some d \<Rightarrow> d)"

text \<open>\<open>get_tests_for_coveritem\<close>: (history index, count) of the tests that hit the bin, most hits
  first, and the total; the display name of a test is left to the history list.\<close>

definition get_tests_for_coveritem :: "per_test \<Rightarrow> nat \<Rightarrow> int \<times> (int \<times> int) list" where
  "get_tests_for_coveritem pt bin_index =
     (let tests = concat (map (\<lambda>(hist_idx, bins).
            let count = (case dict_get bins bin_index of None \<Rightarrow> 0 | Some c \<Rightarrow> c)
            in if count \<noteq> 0 then [(hist_idx, count)] else []) pt)
      in (sum_list (map snd tests), sort_key (\<lambda>t. - snd t) tests))"

definition get_coveritems_for_test :: "per_test \<Rightarrow> int \<Rightarrow> nat list" where
  "get_coveritems_for_test pt history_idx = sort (dict_keys (test_bins pt history_idx))"

definition get_unique_coveritems :: "per_test \<Rightarrow> int \<Rightarrow> nat list" where
  "get_unique_coveritems pt history_idx =
     (let my_bins = dict_keys (test_bins pt history_idx);
          other_bins = concat (map (\<lambda>(idx, bins). if idx \<noteq> history_idx then dict_keys bins else []) pt)
      in sort (filter (\<lambda>b. b \<notin> set other_bins) my_bins))"

definition total_bins :: "ucis \<Rightarrow> nat" where
  "total_bins db = sum_list (map (\<lambda>s. length (coverItems CT_ALL s)) (fst (dfs_scope_list db)))"

section \<open>The members\<close>

definition contrib_name :: "int \<Rightarrow> pystr" where
  "contrib_name hist_idx = MEMBER_CONTRIB_DIR @ str_int hist_idx @ lit ''.bin''"

definition contrib_encode :: "bin_counts \<Rightarrow> bytes res" where
  "contrib_encode bins =
     (let sorted_entries = sort_key fst bins in
      bindE (encode_varint (int (length sorted_entries))) (\<lambda>n.
      bindE (write_pairs 0 sorted_entries) (\<lambda>body. Inr (n @ body))))"

definition contrib_serialize :: "per_test \<Rightarrow> (pystr \<times> bytes) list res" where
  "contrib_serialize per_test =
     foldE (\<lambda>members (hist_idx, bins).
         if bins = [] then Inr members
         else bindE (contrib_encode bins) (\<lambda>b. Inr (dict_set (contrib_name hist_idx) b members)))
       [] per_test"

definition contrib_decode :: "bytes \<Rightarrow> (nat \<times> int) list res" where
  "contrib_decode data =
     bindE (decode_varint data 0) (\<lambda>(num_entries, offset).
     bindE (read_pairs num_entries data offset 0) (\<lambda>(es, _). Inr es))"

definition contrib_read_member :: "per_test \<Rightarrow> pystr \<times> bytes \<Rightarrow> per_test res" where
  "contrib_read_member pt = (\<lambda>(member_name, data).
     if \<not> startswith member_name MEMBER_CONTRIB_DIR then Inr pt
     else case py_int (split_head 46 (rstrip_chars (lit ''.bin'') (str_from (length MEMBER_CONTRIB_DIR) member_name))) of
            Inl _ \<Rightarrow> Inr pt
          | Inr hist_idx \<Rightarrow>
              bindE (contrib_decode data) (\<lambda>es.
                Inr (foldl (\<lambda>pt (bin_idx, count). record_test_association pt hist_idx bin_idx count) pt es)))"

definition contrib_apply :: "per_test \<Rightarrow> (pystr \<times> bytes) list \<Rightarrow> per_test res" where
  "contrib_apply pt members = foldE contrib_read_member pt members"

section \<open>Renumbering\<close>

definition contrib_index :: "pystr \<Rightarrow> int option" where
  "contrib_index member_name =
     (if \<not> startswith member_name MEMBER_CONTRIB_DIR then None
      else let basename = str_from (length MEMBER_CONTRIB_DIR) member_name;
               basename = (if endswith basename (lit ''.bin'') then str_but (length (lit ''.bin'')) basename else basename)
           in case py_int basename of Inl _ \<Rightarrow> None | Inr i \<Rightarrow> Some i)"

definition renumber_contrib :: "(pystr \<times> bytes) list list \<Rightarrow> int list \<Rightarrow> (pystr \<times> bytes) list" where
  "renumber_contrib per_source_members history_offsets =
     foldl (\<lambda>out (members, offset).
         foldl (\<lambda>out (name, data).
             case contrib_index name of None \<Rightarrow> out
             | Some index \<Rightarrow> dict_set (contrib_name (index + offset)) data out) out members)
       [] (zip per_source_members history_offsets)"

section \<open>Member names\<close>

lemma str_int_nonneg: "0 \<le> i \<Longrightarrow> str_int i = str_nat (nat i)"
  by (simp add: str_int_def)

lemma str_int_inj [simp]: "str_int i = str_int j \<longleftrightarrow> i = j"
proof -
  have "\<not> is_digit 45" by (simp add: is_digit_def)
  then have "45 # s \<noteq> str_nat n" for s n
    using str_nat_is_digit[of 45 n] by (metis list.set_intros(1))
  then show ?thesis unfolding str_int_def by (auto dest: sym split: if_splits)
qed

lemma contrib_name_inj [simp]: "contrib_name i = contrib_name j \<longleftrightarrow> i = j"
  by (simp add: contrib_name_def)

lemma contrib_index_name: "0 \<le> i \<Longrightarrow> contrib_index (contrib_name i) = Some i"
  by (simp add: contrib_index_def contrib_name_def str_int_nonneg)

lemma rstrip_digits:
  assumes "\<forall>c\<in>set s. is_digit c" "s \<noteq> []"
  shows "rstrip_chars (lit ''.bin'') (s @ lit ''.bin'') = s"
proof -
  have "last s \<in> set s" using assms(2) by simp
  with assms(1) have "is_digit (last s)" by blast
  then have l: "last s \<notin> set (lit ''.bin'')" by (auto simp: lit_def is_digit_def of_char_def)
  have "dropWhile (\<lambda>c. c \<in> set (lit ''.bin'')) (rev (lit ''.bin'') @ rev s) = dropWhile (\<lambda>c. c \<in> set (lit ''.bin'')) (rev s)"
    by (rule dropWhile_append2) simp
  also have "\<dots> = rev s"
    using assms(2) l by (cases s rule: rev_cases) auto
  finally show ?thesis by (simp add: rstrip_chars_def)
qed

lemma contrib_reader_index:
  assumes "0 \<le> i"
  shows "py_int (split_head 46 (rstrip_chars (lit ''.bin'') (str_from (length MEMBER_CONTRIB_DIR) (contrib_name i)))) = Inr i"
proof -
  have d: "\<forall>c\<in>set (str_nat (nat i)). is_digit c" using str_nat_is_digit by blast
  then have "46 \<notin> set (str_nat (nat i))" by (auto simp: is_digit_def)
  with d assms show ?thesis
    by (simp add: contrib_name_def str_int_nonneg rstrip_digits split_head_stop)
qed

section \<open>Contributions as maps\<close>

definition record_all :: "int \<Rightarrow> per_test \<Rightarrow> (nat \<times> int) list \<Rightarrow> per_test" where
  "record_all h pt es = foldl (\<lambda>pt (bin_idx, count). record_test_association pt h bin_idx count) pt es"

lemma test_bins_record:
  "dict_get (test_bins (record_test_association pt h b n) h') =
     (if h' = h then (dict_get (test_bins pt h))(b \<mapsto> (case dict_get (test_bins pt h) b of None \<Rightarrow> 0 | Some c \<Rightarrow> c) + n)
      else dict_get (test_bins pt h'))"
  by (simp add: record_test_association_def test_bins_def dict_get_set)

lemma test_bins_record_all:
  "distinct (dict_keys es) \<Longrightarrow> \<forall>b\<in>set (dict_keys es). dict_get (test_bins pt h) b = None \<Longrightarrow>
   dict_get (test_bins (record_all h pt es) h') =
     (if h' = h then dict_get (test_bins pt h) ++ map_of es else dict_get (test_bins pt h'))"
proof (induction es arbitrary: pt)
  case Nil
  then show ?case by (simp add: record_all_def)
next
  case (Cons e es)
  obtain b n where e: "e = (b, n)" by (cases e)
  let ?pt = "record_test_association pt h b n"
  have "\<forall>b'\<in>set (dict_keys es). dict_get (test_bins ?pt h) b' = None"
    using Cons.prems by (auto simp: e test_bins_record)
  with Cons.IH[of ?pt] Cons.prems
  have IH: "dict_get (test_bins (record_all h ?pt es) h') =
     (if h' = h then dict_get (test_bins ?pt h) ++ map_of es else dict_get (test_bins ?pt h'))"
    by (simp add: e)
  have new: "dict_get (test_bins pt h) b = None" using Cons.prems(2) by (simp add: e)
  have "map_of es b = None" using Cons.prems(1) by (simp add: e map_of_eq_None_iff)
  then have "(dict_get (test_bins pt h))(b \<mapsto> n) ++ map_of es = dict_get (test_bins pt h) ++ map_of (e # es)"
    by (intro ext) (auto simp: e map_add_def split: option.splits)
  with IH new have "h' = h \<Longrightarrow> dict_get (test_bins (record_all h ?pt es) h') = dict_get (test_bins pt h) ++ map_of (e # es)"
    by (simp add: test_bins_record del: map_of.simps)
  moreover have "h' \<noteq> h \<Longrightarrow> dict_get (test_bins (record_all h ?pt es) h') = dict_get (test_bins pt h')"
    using IH by (simp add: test_bins_record)
  moreover have "record_all h pt (e # es) = record_all h ?pt es" by (simp add: record_all_def e)
  ultimately show ?case by (simp del: map_of.simps)
qed

definition contrib_ok :: "per_test \<Rightarrow> bool" where
  "contrib_ok pt \<longleftrightarrow> distinct (dict_keys pt) \<and>
     (\<forall>(h, bins)\<in>set pt. 0 \<le> h \<and> distinct (dict_keys bins) \<and> (\<forall>(b, n)\<in>set bins. 0 \<le> n))"

lemma contrib_decode_encode:
  assumes "\<forall>(b, n)\<in>set bins. 0 \<le> n"
  shows "\<exists>bs. contrib_encode bins = Inr bs \<and> contrib_decode bs = Inr (sort_key fst bins)"
proof -
  let ?es = "sort_key fst bins"
  have "is_ok (write_pairs (int 0) ?es)" using assms unfolding write_pairs_ok by auto
  then obtain body where body: "write_pairs (int 0) ?es = Inr body" by (rule is_okE)
  let ?bs = "varint_loop (length bins) @ body"
  have "at ?bs 0 ?bs" by simp
  then have a: "at ?bs 0 (varint_loop (length bins))" "at ?bs (length (varint_loop (length bins))) body"
    unfolding at_append by simp_all
  from decode_varint_at[OF a(1)] read_write_pairs[OF body a(2)] body show ?thesis
    by (simp add: contrib_encode_def contrib_decode_def)
qed

definition encoded :: "per_test \<Rightarrow> (pystr \<times> bytes) list" where
  "encoded pt = map (\<lambda>(h, bins). (contrib_name h, projr (contrib_encode bins))) (filter (\<lambda>(h, bins). bins \<noteq> []) pt)"

lemma contrib_serialize_from:
  "contrib_ok pt \<Longrightarrow> \<forall>(h, bins)\<in>set pt. contrib_name h \<notin> set (dict_keys m) \<Longrightarrow>
   foldE (\<lambda>members (hist_idx, bins).
         if bins = [] then Inr members
         else bindE (contrib_encode bins) (\<lambda>b. Inr (dict_set (contrib_name hist_idx) b members))) m pt
     = Inr (m @ encoded pt)"
proof (induction pt arbitrary: m)
  case Nil
  then show ?case by (simp add: encoded_def)
next
  case (Cons e pt)
  obtain h bins where e: "e = (h, bins)" by (cases e)
  from Cons.prems(1) have ok: "contrib_ok pt" "\<forall>(b, n)\<in>set bins. 0 \<le> n" "h \<notin> set (dict_keys pt)"
    by (auto simp: contrib_ok_def e)
  obtain bs where bs: "contrib_encode bins = Inr bs" using contrib_decode_encode[OF ok(2)] by blast
  have fresh: "contrib_name h \<notin> set (dict_keys m)" using Cons.prems(2) by (simp add: e)
  have "\<forall>(h', bins)\<in>set pt. contrib_name h' \<notin> set (dict_keys (m @ [(contrib_name h, bs)]))"
    using Cons.prems(2) ok(3) by (force simp: e)
  with Cons.IH[OF ok(1)] Cons.prems(2) bs fresh show ?case
    by (auto simp: e encoded_def update_notin)
qed

lemma contrib_read_encoded:
  "contrib_ok pt \<Longrightarrow>
   contrib_apply acc (encoded pt) =
     Inr (foldl (\<lambda>acc (h, bins). record_all h acc (sort_key fst bins)) acc (filter (\<lambda>(h, bins). bins \<noteq> []) pt))"
proof (induction pt arbitrary: acc)
  case Nil
  then show ?case by (simp add: encoded_def contrib_apply_def)
next
  case (Cons e pt)
  obtain h bins where e: "e = (h, bins)" by (cases e)
  from Cons.prems(1) have ok: "contrib_ok pt" "\<forall>(b, n)\<in>set bins. 0 \<le> n" "0 \<le> h"
    by (auto simp: contrib_ok_def e)
  obtain bs where bs: "contrib_encode bins = Inr bs" "contrib_decode bs = Inr (sort_key fst bins)"
    using contrib_decode_encode[OF ok(2)] by blast
  have "contrib_read_member acc (contrib_name h, bs) = Inr (record_all h acc (sort_key fst bins))" for acc
    using contrib_reader_index[OF ok(3)] bs(2)
    by (simp add: contrib_read_member_def record_all_def) (simp add: contrib_name_def)
  with Cons.IH[OF ok(1)] bs(1) show ?case
    by (simp add: e encoded_def contrib_apply_def)
qed

lemma record_all_other: "h' \<noteq> h \<Longrightarrow> dict_get (test_bins (record_all h pt es) h') = dict_get (test_bins pt h')"
  unfolding record_all_def by (induction es arbitrary: pt) (auto simp: test_bins_record)

lemma map_of_sort_key_fst: "distinct (map fst xs) \<Longrightarrow> map_of (sort_key fst xs) = map_of xs"
proof -
  assume d: "distinct (map fst xs)"
  then have "distinct (map fst (sort_key fst xs))" by (metis distinct_map distinct_sort set_sort)
  with d show ?thesis by (subst map_of_inject_set) simp_all
qed

lemma record_tests:
  "contrib_ok pt \<Longrightarrow> \<forall>h\<in>set (dict_keys pt). dict_get (test_bins acc h) = Map.empty \<Longrightarrow>
   dict_get (test_bins (foldl (\<lambda>acc (h, bins). record_all h acc (sort_key fst bins)) acc pt) h) =
     (case dict_get pt h of None \<Rightarrow> dict_get (test_bins acc h) | Some bins \<Rightarrow> map_of bins)"
proof (induction pt arbitrary: acc)
  case Nil
  then show ?case by simp
next
  case (Cons e pt)
  obtain h' bins where e: "e = (h', bins)" by (cases e)
  from Cons.prems(1) have ok: "contrib_ok pt" "distinct (map fst bins)" "h' \<notin> set (dict_keys pt)"
    by (auto simp: contrib_ok_def e)
  let ?acc = "record_all h' acc (sort_key fst bins)"
  have d: "distinct (map fst (sort_key fst bins))"
    using ok(2) by (metis distinct_map distinct_sort set_sort)
  have acc: "dict_get (test_bins ?acc k) = (if k = h' then map_of bins else dict_get (test_bins acc k))" for k
    using Cons.prems(2) d ok(2) by (subst test_bins_record_all) (auto simp: e map_of_sort_key_fst)
  have "\<forall>h\<in>set (dict_keys pt). dict_get (test_bins ?acc h) = Map.empty"
    using Cons.prems(2) ok(3) by (auto simp: acc e)
  note IH = Cons.IH[OF ok(1) this]
  have "dict_get pt h' = None" using ok(3) by (simp only: map_of_eq_None_iff not_False_eq_True set_map[symmetric])
  with IH show ?case
    by (cases "h = h'") (simp_all add: e acc split: option.split)
qed

text \<open>
  Per-test contributions survive the archive: written and read back into an empty
  database, every history node has exactly the bins and counts it had, and no node has any other.
\<close>

theorem contrib_roundtrip:
  assumes "contrib_ok pt"
  shows "\<exists>members pt'. contrib_serialize pt = Inr members \<and> contrib_apply [] members = Inr pt' \<and>
    (\<forall>h. dict_get (test_bins pt' h) = dict_get (test_bins pt h))"
proof -
  let ?ne = "filter (\<lambda>(h, bins). bins \<noteq> []) pt"
  let ?pt' = "foldl (\<lambda>acc (h, bins). record_all h acc (sort_key fst bins)) [] ?ne"
  have "contrib_serialize pt = Inr (encoded pt)"
    using contrib_serialize_from[OF assms, of "[]"] by (simp add: contrib_serialize_def case_prod_beta)
  moreover have "contrib_apply [] (encoded pt) = Inr ?pt'" by (rule contrib_read_encoded[OF assms])
  moreover have "dict_get (test_bins ?pt' h) = dict_get (test_bins pt h)" for h
  proof -
    have ne: "contrib_ok ?ne" using assms by (auto simp: contrib_ok_def intro: distinct_map_filter)
    have e: "dict_get (test_bins [] h) = Map.empty" for h by (simp add: test_bins_def)
    have "dict_get ?ne h = (case dict_get pt h of None \<Rightarrow> None | Some bins \<Rightarrow> if bins = [] then None else Some bins)"
      using assms unfolding contrib_ok_def
      by (induction pt) (auto split: option.splits simp: map_of_eq_None_iff dest: map_of_SomeD)
    then show ?thesis
      using record_tests[OF ne, of "[]" h] e by (simp add: test_bins_def split: option.splits)
  qed
  ultimately show ?thesis by blast
qed

lemma contrib_roundtrip_witness:
  "\<exists>members pt'. contrib_serialize [(3, [(9, 2), (4, 1)]), (0, [])] = Inr members \<and>
    contrib_apply [] members = Inr pt' \<and>
    (\<forall>h. dict_get (test_bins pt' h) = dict_get (test_bins [(3, [(9, 2), (4, 1)]), (0, [])] h))"
  by (rule contrib_roundtrip) (simp add: contrib_ok_def)

section \<open>Renumbering without collisions\<close>

text \<open>The members of one source, by history index.\<close>

definition source_members :: "(nat \<times> bytes) list \<Rightarrow> (pystr \<times> bytes) list" where
  "source_members part = map (\<lambda>(i, d). (contrib_name (int i), d)) part"

lemma renumber_source:
  "foldl (\<lambda>out (name, data).
       case contrib_index name of None \<Rightarrow> out
       | Some index \<Rightarrow> dict_set (contrib_name (index + off)) data out) out (source_members part) =
   dict_update out (map (\<lambda>(i, d). (contrib_name (int i + off), d)) part)"
  by (induction part arbitrary: out)
    (auto simp: source_members_def dict_update_def contrib_index_name)

text \<open>Where each source's history starts in the merged list.\<close>

fun offsets_from :: "nat \<Rightarrow> nat list \<Rightarrow> int list" where
  "offsets_from base [] = []"
| "offsets_from base (n # ns) = int base # offsets_from (base + n) ns"

lemma shifted_get:
  "distinct (dict_keys part) \<Longrightarrow>
   dict_get (map (\<lambda>(i, d). (contrib_name (int i + int base), d)) part) (contrib_name (int j)) =
     (if base \<le> j then dict_get part (j - base) else None)"
  by (induction part) auto

fun locate :: "(nat \<times> bytes) list list \<Rightarrow> nat list \<Rightarrow> nat \<Rightarrow> bytes option" where
  "locate (p # ps) (n # ns) j = (if j < n then dict_get p j else locate ps ns (j - n))"
| "locate _ _ j = None"

abbreviation renumber_step :: "(pystr \<times> bytes) list \<Rightarrow> (pystr \<times> bytes) list \<times> int \<Rightarrow> (pystr \<times> bytes) list" where
  "renumber_step \<equiv> \<lambda>out (members, offset).
     foldl (\<lambda>out (name, data).
         case contrib_index name of None \<Rightarrow> out
         | Some index \<Rightarrow> dict_set (contrib_name (index + offset)) data out) out members"

lemma renumber_step_get:
  assumes "distinct (dict_keys p)"
  shows "dict_get (renumber_step out (source_members p, int base)) (contrib_name (int j)) =
    (case (if base \<le> j then dict_get p (j - base) else None) of
       None \<Rightarrow> dict_get out (contrib_name (int j)) | Some d \<Rightarrow> Some d)"
proof -
  have "distinct (dict_keys (map (\<lambda>(i, d). (contrib_name (int i + int base), d)) p))"
  proof -
    have "dict_keys (map (\<lambda>(i, d). (contrib_name (int i + int base), d)) p) =
        map (\<lambda>i. contrib_name (int i + int base)) (dict_keys p)" by (induction p) auto
    with assms show ?thesis by (simp add: distinct_map inj_on_def)
  qed
  then show ?thesis by (simp add: renumber_source dict_get_update shifted_get[OF assms])
qed

lemma renumber_from:
  assumes "list_all2 (\<lambda>p n. distinct (dict_keys p) \<and> (\<forall>i\<in>set (dict_keys p). i < n)) parts ns"
  shows "dict_get (foldl renumber_step out (zip (map source_members parts) (offsets_from base ns))) (contrib_name (int j)) =
     (case (if base \<le> j then locate parts ns (j - base) else None) of
        None \<Rightarrow> dict_get out (contrib_name (int j)) | Some d \<Rightarrow> Some d)"
  using assms
proof (induction parts ns arbitrary: base out rule: list_all2_induct)
  case Nil
  then show ?case by simp
next
  case (Cons p parts n ns)
  have "dict_get p i = None" if "n \<le> i" for i
    using Cons.hyps(1) that by (auto simp: map_of_eq_None_iff)
  then show ?case
    using Cons.IH[of "renumber_step out (source_members p, int base)" "base + n"]
      renumber_step_get[of p out base j] Cons.hyps(1)
    by (auto simp: diff_diff_left split: option.splits)
qed

lemma locate_in:
  "length parts = length ns \<Longrightarrow> k < length ns \<Longrightarrow> i < ns ! k \<Longrightarrow>
   locate parts ns (sum_list (take k ns) + i) = dict_get (parts ! k) i"
  by (induction parts ns arbitrary: k rule: list_induct2) (auto simp: nth_Cons' take_Cons' split: if_splits)

lemma locate_past: "length parts = length ns \<Longrightarrow> sum_list ns \<le> j \<Longrightarrow> locate parts ns j = None"
  by (induction parts ns arbitrary: j rule: list_induct2) auto

text \<open>
  Renumbering contributions for a merge never collides and never reattributes: with
  the sources' history lists concatenated, the contributions of history node \<open>i\<close> of source \<open>k\<close>
  are found at node \<open>i\<close> plus the number of history nodes of the sources before \<open>k\<close>, for every
  source and node, and there are none past the merged history.
\<close>

theorem renumber_contrib_exact:
  assumes "list_all2 (\<lambda>part n. distinct (dict_keys part) \<and> (\<forall>i\<in>set (dict_keys part). i < n)) parts ns"
  shows "(\<forall>k < length parts. \<forall>i < ns ! k.
      dict_get (renumber_contrib (map source_members parts) (offsets_from 0 ns))
        (contrib_name (int (sum_list (take k ns) + i))) = dict_get (parts ! k) i)
    \<and> (\<forall>j \<ge> sum_list ns.
      dict_get (renumber_contrib (map source_members parts) (offsets_from 0 ns)) (contrib_name (int j)) = None)"
proof -
  have len: "length parts = length ns" using assms by (rule list_all2_lengthD)
  have "dict_get (renumber_contrib (map source_members parts) (offsets_from 0 ns)) (contrib_name (int j)) = locate parts ns j" for j
    using renumber_from[OF assms, of "[]" 0 j] by (simp add: renumber_contrib_def split: option.splits)
  then show ?thesis using locate_in[OF len] locate_past[OF len] len by (simp del: of_nat_add)
qed

definition example_contribs :: "(nat \<times> bytes) list list" where
  "example_contribs = [[(0, [7])], [(0, [8]), (2, [9])]]"

lemma renumber_contrib_exact_witness:
  "dict_get (renumber_contrib (map source_members example_contribs) (offsets_from 0 [1, 3])) (contrib_name 3) = Some [9]
    \<and> dict_get (renumber_contrib (map source_members example_contribs) (offsets_from 0 [1, 3])) (contrib_name 4) = None"
proof -
  have ok: "list_all2 (\<lambda>part n. distinct (dict_keys part) \<and> (\<forall>i\<in>set (dict_keys part). i < n)) example_contribs [1, 3]"
    by (simp add: example_contribs_def)
  show ?thesis
    using renumber_contrib_exact[OF ok, THEN conjunct1, rule_format, of 1 2]
      renumber_contrib_exact[OF ok, THEN conjunct2, rule_format, of 4]
    by (simp add: example_contribs_def)
qed

end
