(* ===== verification/ScopeTree.thy ===== *)
theory ScopeTree
  imports CoverModel "HOL-Library.Sublist"
begin

text \<open>
  \<open>ncdb/scope_tree.py\<close>: the writer that turns the scope hierarchy into \<open>scope_tree.bin\<close> while it
  fills the string table, the file table and the count array, and the reader that rebuilds the
  hierarchy from the bytes, the tables and an iterator over the counts. Scope creation on the
  reader's side is that of \<open>mem/mem_scope.py\<close>, \<open>mem/mem_instance_scope.py\<close> and
  \<open>mem/mem_fsm_scope.py\<close>, which differ in what they keep of the arguments.
\<close>

section \<open>Writer\<close>

record stw =
  w_st :: strtab
  w_files :: "pystr list"
  w_fh :: "(pystr \<times> nat) list"
  w_counts :: "int list"

definition new_stw :: stw where
  "new_stw = \<lparr>w_st = st_empty, w_files = [], w_fh = [], w_counts = []\<rparr>"

definition w_name :: "pystr \<Rightarrow> stw \<Rightarrow> nat \<times> stw" where
  "w_name s w = (let (t, i) = st_add (w_st w) (Some s) in (i, w\<lparr>w_st := t\<rparr>))"

definition get_file_id :: "pystr \<Rightarrow> stw \<Rightarrow> nat \<times> stw" where
  "get_file_id fname w =
     (case dict_get (w_fh w) fname of
        Some fid \<Rightarrow> (fid, w)
      | None \<Rightarrow>
          let fid = length (w_files w)
          in (fid, w\<lparr>w_files := w_files w @ [fname], w_fh := dict_set fname fid (w_fh w)\<rparr>))"

definition w_count :: "int list \<Rightarrow> stw \<Rightarrow> stw" where
  "w_count cs w = w\<lparr>w_counts := w_counts w @ cs\<rparr>"

definition SCOPE_MARKER_REGULAR :: nat where "SCOPE_MARKER_REGULAR = 0"
definition SCOPE_MARKER_TOGGLE_PAIR :: nat where "SCOPE_MARKER_TOGGLE_PAIR = 1"

definition PRESENCE_FLAGS :: nat where "PRESENCE_FLAGS = 1"
definition PRESENCE_SOURCE :: nat where "PRESENCE_SOURCE = 2"
definition PRESENCE_WEIGHT :: nat where "PRESENCE_WEIGHT = 4"
definition PRESENCE_AT_LEAST :: nat where "PRESENCE_AT_LEAST = 8"
definition PRESENCE_GOAL :: nat where "PRESENCE_GOAL = 32"
definition PRESENCE_SOURCE_TYPE :: nat where "PRESENCE_SOURCE_TYPE = 64"

lemmas presence_bits = PRESENCE_FLAGS_def PRESENCE_SOURCE_def PRESENCE_WEIGHT_def
  PRESENCE_AT_LEAST_def PRESENCE_GOAL_def PRESENCE_SOURCE_TYPE_def

definition toggle_counts :: "scope \<Rightarrow> int list" where
  "toggle_counts s =
     (let cover_items = foldl (\<lambda>d ci. dict_set (ci_name ci) ci d) [] (coverItems CT_ALL s)
      in map (\<lambda>name. case dict_get cover_items name of None \<Rightarrow> 0 | Some ci \<Rightarrow> cd_data (ci_data ci))
           [TOGGLE_BIN_0_TO_1, TOGGLE_BIN_1_TO_0])"

definition write_toggle_pair :: "scope \<Rightarrow> stw \<Rightarrow> (bytes \<times> stw) res" where
  "write_toggle_pair s w =
     (let (name_ref, w) = w_name (sc_name s) w in
      bindE (encode_varint (int name_ref)) (\<lambda>n.
        Inr (of_nat SCOPE_MARKER_TOGGLE_PAIR # n, w_count (toggle_counts s) w)))"

definition has_src :: "scope_attrs \<Rightarrow> bool" where
  "has_src a = (si_file (m_srcinfo a) \<noteq> None \<and> 0 \<le> si_line (m_srcinfo a))"

definition at_least_override :: "coveritem list \<Rightarrow> int option" where
  "at_least_override cover_items =
     (case cover_items of [] \<Rightarrow> None
      | ci # _ \<Rightarrow>
          let first_cd = ci_data ci; default_at_least = fst (snd (cover_type_defaults (cd_type first_cd)))
          in if cd_at_least first_cd \<noteq> default_at_least then Some (cd_at_least first_cd) else None)"

definition presence_of :: "bool \<Rightarrow> bool \<Rightarrow> bool \<Rightarrow> bool \<Rightarrow> bool \<Rightarrow> bool \<Rightarrow> nat" where
  "presence_of hflags hsrc hweight hat_least hgoal hsource_type =
     (if hflags then PRESENCE_FLAGS else 0) OR (if hsrc then PRESENCE_SOURCE else 0)
     OR (if hweight then PRESENCE_WEIGHT else 0) OR (if hat_least then PRESENCE_AT_LEAST else 0)
     OR (if hgoal then PRESENCE_GOAL else 0) OR (if hsource_type then PRESENCE_SOURCE_TYPE else 0)"

definition when_varint :: "bool \<Rightarrow> int \<Rightarrow> bytes res" where
  "when_varint b v = (if b then encode_varint v else Inr [])"

text \<open>The names of the cover items, each interned before the next is written.\<close>

fun write_names :: "coveritem list \<Rightarrow> stw \<Rightarrow> (bytes \<times> stw) res" where
  "write_names [] w = Inr ([], w)"
| "write_names (ci # cis) w =
     (let (name_ref, w) = w_name (ci_name ci) w in
      bindE (encode_varint (int name_ref)) (\<lambda>n.
      bindE (write_names cis (w_count [cd_data (ci_data ci)] w)) (\<lambda>(bs, w). Inr (n @ bs, w))))"

definition write_srcinfo :: "scope_attrs \<Rightarrow> stw \<Rightarrow> (bytes \<times> stw) res" where
  "write_srcinfo a w =
     (if has_src a then
        let (file_id, w) = get_file_id (the (si_file (m_srcinfo a))) w in
        bindE (encode_varint (int file_id)) (\<lambda>f.
        bindE (encode_varint (max 0 (si_line (m_srcinfo a)))) (\<lambda>l.
        bindE (encode_varint (max 0 (si_token (m_srcinfo a)))) (\<lambda>t. Inr (f @ l @ t, w))))
      else Inr ([], w))"

text \<open>Everything \<open>_write_regular_scope\<close> writes before it recurses into the child scopes.\<close>

definition write_regular_head :: "scope \<Rightarrow> stw \<Rightarrow> (bytes \<times> stw) res" where
  "write_regular_head s w =
     (let a = attrs s;
          (name_ref, w) = w_name (sc_name s) w;
          hflags = m_flags a \<noteq> 0; hweight = m_weight a \<noteq> 1; hgoal = m_goal a \<noteq> -1;
          hsource_type = m_source a \<noteq> SOURCE_NONE;
          cover_items = coverItems CT_ALL s;
          override = at_least_override cover_items;
          child_scopes = scopes ST_ALL (children s);
          presence = presence_of hflags (has_src a) hweight (override \<noteq> None) hgoal hsource_type
      in bindE (encode_varint (m_type a)) (\<lambda>ty.
         bindE (encode_varint (int name_ref)) (\<lambda>nm.
         bindE (encode_varint (int presence)) (\<lambda>pr.
         bindE (when_varint hflags (m_flags a)) (\<lambda>fl.
         bindE (write_srcinfo a w) (\<lambda>(sr, w).
         bindE (when_varint hweight (m_weight a)) (\<lambda>we.
         bindE (when_varint (override \<noteq> None) (the override)) (\<lambda>al.
         bindE (when_varint hgoal (m_goal a)) (\<lambda>go.
         bindE (when_varint hsource_type (m_source a)) (\<lambda>so.
         bindE (encode_varint (int (length child_scopes))) (\<lambda>nc.
         bindE (encode_varint (int (length cover_items))) (\<lambda>ni.
         bindE (when_varint (cover_items \<noteq> []) (cd_type (ci_data (hd cover_items)))) (\<lambda>ct.
         bindE (write_names cover_items w) (\<lambda>(names, w).
           Inr (of_nat SCOPE_MARKER_REGULAR # ty @ nm @ pr @ fl @ sr @ we @ al @ go @ so @ nc @ ni @ ct @ names, w)))))))))))))))"

lemma size_scopes: "size_list size (scopes msk ss) \<le> size_list size ss"
  by (induction ss) (simp_all add: scopes_def)

function write_scope :: "scope \<Rightarrow> stw \<Rightarrow> (bytes \<times> stw) res"
  and write_scopes :: "scope list \<Rightarrow> stw \<Rightarrow> (bytes \<times> stw) res" where
  "write_scope (Scope a is cs) w =
     (if is_toggle_pair (Scope a is cs) then write_toggle_pair (Scope a is cs) w
      else bindE (write_regular_head (Scope a is cs) w) (\<lambda>(h, w).
           bindE (write_scopes (scopes ST_ALL cs) w) (\<lambda>(b, w). Inr (h @ b, w))))"
| "write_scopes [] w = Inr ([], w)"
| "write_scopes (s # ss) w =
     bindE (write_scope s w) (\<lambda>(b, w). bindE (write_scopes ss w) (\<lambda>(c, w). Inr (b @ c, w)))"
  by pat_completeness auto
termination
  by (relation "measure (\<lambda>x. case x of Inl (s, _) \<Rightarrow> size s | Inr (ss, _) \<Rightarrow> size_list size ss)")
    (auto simp: less_Suc_eq_le size_scopes le_SucI)

definition write_tree :: "scope list \<Rightarrow> stw \<Rightarrow> (bytes \<times> stw) res" where
  "write_tree db_scopes w = write_scopes (scopes ST_ALL db_scopes) w"

section \<open>Scope creation\<close>

definition no_srcinfo :: srcinfo where
  "no_srcinfo = \<lparr>si_file = None, si_line = -1, si_token = -1\<rparr>"

text \<open>The \<open>MemScope\<close> constructor.\<close>

definition new_scope :: "pystr \<Rightarrow> srcinfo option \<Rightarrow> int \<Rightarrow> int \<Rightarrow> int \<Rightarrow> int \<Rightarrow> scope" where
  "new_scope name srcinfo weight source ty flags =
     Scope \<lparr>m_type = ty, m_name = name,
            m_srcinfo = (case srcinfo of None \<Rightarrow> no_srcinfo | Some si \<Rightarrow> si),
            m_weight = weight, m_source = source, m_flags = flags, m_goal = -1\<rparr> [] []"

definition new_fsm_scope :: "pystr \<Rightarrow> srcinfo option \<Rightarrow> int \<Rightarrow> int \<Rightarrow> int \<Rightarrow> scope" where
  "new_fsm_scope name srcinfo weight source flags =
     Scope (attrs (new_scope name srcinfo weight source ST_FSM flags)) []
       [new_scope (lit ''UCIS:STATE'') srcinfo weight source ST_FSM_STATES flags,
        new_scope (lit ''UCIS:TRANSITION'') srcinfo weight source ST_FSM_TRANS flags]"

text \<open>\<open>MemScope.createScope\<close>: covergroup-like scopes are made by classes that take no flags.\<close>

definition mem_createScope :: "pystr \<Rightarrow> srcinfo option \<Rightarrow> int \<Rightarrow> int \<Rightarrow> int \<Rightarrow> int \<Rightarrow> scope" where
  "mem_createScope name srcinfo weight source ty flags =
     (if DU_ANY ty then new_scope name srcinfo weight source ty flags
      else if ty = ST_COVERGROUP then new_scope name srcinfo weight source ST_COVERGROUP 0
      else if ty = ST_COVERINSTANCE then new_scope name srcinfo weight source ST_COVERINSTANCE 0
      else if ty = ST_COVERPOINT then new_scope name srcinfo weight source ST_COVERPOINT 0
      else if ty = ST_CROSS then new_scope name srcinfo weight source ST_CROSS 0
      else if ty = ST_TOGGLE then new_scope name srcinfo weight source ST_TOGGLE flags
      else if ty = ST_FSM then new_fsm_scope name srcinfo weight source flags
      else new_scope name srcinfo weight source ty flags)"

text \<open>\<open>MemInstanceScope.createScope\<close> tests bits instead of values.\<close>

definition inst_createScope :: "pystr \<Rightarrow> srcinfo option \<Rightarrow> int \<Rightarrow> int \<Rightarrow> int \<Rightarrow> int \<Rightarrow> scope" where
  "inst_createScope name srcinfo weight source ty flags =
     (if ty AND ST_COVERGROUP \<noteq> 0 then new_scope name srcinfo weight source ST_COVERGROUP 0
      else if ty AND ST_BLOCK \<noteq> 0 then new_scope name srcinfo weight source ST_BLOCK flags
      else if ty AND ST_BRANCH \<noteq> 0 then new_scope name srcinfo weight source ST_BRANCH flags
      else if ty AND ST_TOGGLE \<noteq> 0 then new_scope name srcinfo weight source ST_TOGGLE flags
      else if ty AND ST_FSM \<noteq> 0 then new_fsm_scope name srcinfo weight source flags
      else new_scope name srcinfo weight source ty flags)"

text \<open>
  A parent of type \<open>INSTANCE\<close> is a \<open>MemInstanceScope\<close>, one of type \<open>FSM\<close> a \<open>MemFSMScope\<close>, any
  other a plain \<open>MemScope\<close>. The result is the index of the new scope among the children and the
  parent with it in place; an FSM hands out its two fixed sub-scopes instead of new ones.
\<close>

definition rename :: "pystr \<Rightarrow> scope \<Rightarrow> scope" where
  "rename name s = Scope ((attrs s)\<lparr>m_name := name\<rparr>) (items s) (children s)"

definition create_in :: "scope \<Rightarrow> pystr \<Rightarrow> srcinfo option \<Rightarrow> int \<Rightarrow> int \<Rightarrow> int \<Rightarrow> int \<Rightarrow> nat \<times> scope" where
  "create_in p name srcinfo weight source ty flags =
     (if sc_type p = ST_FSM \<and> ty = ST_FSM_STATES then
        (0, Scope (attrs p) (items p) ((children p)[0 := rename name (children p ! 0)]))
      else if sc_type p = ST_FSM \<and> ty = ST_FSM_TRANS then
        (1, Scope (attrs p) (items p) ((children p)[1 := rename name (children p ! 1)]))
      else
        let child = (if sc_type p = ST_INSTANCE then inst_createScope name srcinfo weight source ty flags
                     else mem_createScope name srcinfo weight source ty flags)
        in (length (children p), Scope (attrs p) (items p) (children p @ [child])))"

text \<open>\<open>createInstance\<close>; the design-unit link is not part of the tree.\<close>

definition create_instance_in :: "scope \<Rightarrow> pystr \<Rightarrow> srcinfo option \<Rightarrow> int \<Rightarrow> int \<Rightarrow> int \<Rightarrow> int \<Rightarrow> nat \<times> scope" where
  "create_instance_in p name srcinfo weight source ty flags =
     (length (children p),
      Scope (attrs p) (items p) (children p @ [new_scope name srcinfo weight source ty flags]))"

definition contains_arrow :: "pystr \<Rightarrow> bool" where
  "contains_arrow name = sublist (lit ''->'') name"

definition add_item :: "coveritem \<Rightarrow> scope \<Rightarrow> scope" where
  "add_item ci s = Scope (attrs s) (items s @ [ci]) (children s)"

text \<open>\<open>createNextCover\<close>: an FSM routes the item to its transition or state sub-scope.\<close>

definition createNextCover :: "scope \<Rightarrow> pystr \<Rightarrow> coverdata \<Rightarrow> srcinfo option \<Rightarrow> scope" where
  "createNextCover s name cd srcinfo =
     (let ci = \<lparr>ci_name = name, ci_data = cd, ci_src = srcinfo\<rparr> in
      if sc_type s = ST_FSM then
        let k = (if contains_arrow name then 1 else 0)
        in Scope (attrs s) (items s) ((children s)[k := add_item ci (children s ! k)])
      else add_item ci s)"

section \<open>Reader\<close>

definition next_count :: "int list \<Rightarrow> int \<times> int list" where
  "next_count it = (case it of [] \<Rightarrow> (0, []) | c # cs \<Rightarrow> (c, cs))"

text \<open>What the loops thread: the scope being filled, the offset and the rest of the counts.\<close>

type_synonym rstate = "scope \<times> nat \<times> int list"

definition toggle_item :: "pystr \<Rightarrow> int \<Rightarrow> coverdata" where
  "toggle_item name cnt =
     (CoverData CT_TOGGLEBIN (fst (cover_type_defaults CT_TOGGLEBIN)))
       \<lparr>cd_data := cnt, cd_at_least := fst (snd (cover_type_defaults CT_TOGGLEBIN))\<rparr>"

definition put_child :: "nat \<Rightarrow> scope \<Rightarrow> scope \<Rightarrow> scope" where
  "put_child k c p = Scope (attrs p) (items p) ((children p)[k := c])"

definition read_toggle_pair :: "strtab \<Rightarrow> bytes \<Rightarrow> rstate \<Rightarrow> rstate res" where
  "read_toggle_pair st data = (\<lambda>(parent, offset, it).
     bindE (decode_varint data offset) (\<lambda>(name_ref, offset).
     bindE (st_get st name_ref) (\<lambda>name.
       let (count_0to1, it) = next_count it;
           (count_1to0, it) = next_count it;
           (k, parent) = create_in parent name None 1 SOURCE_NONE ST_BRANCH 0;
           scope = createNextCover (children parent ! k) TOGGLE_BIN_0_TO_1 (toggle_item TOGGLE_BIN_0_TO_1 count_0to1) None;
           scope = createNextCover scope TOGGLE_BIN_1_TO_0 (toggle_item TOGGLE_BIN_1_TO_0 count_1to0) None
       in Inr (put_child k scope parent, offset, it))))"

definition read_when :: "nat \<Rightarrow> nat \<Rightarrow> int \<Rightarrow> bytes \<Rightarrow> nat \<Rightarrow> (int \<times> nat) res" where
  "read_when presence mb dflt data offset =
     (if presence AND mb \<noteq> 0 then bindE (decode_varint data offset) (\<lambda>(v, offset). Inr (int v, offset))
      else Inr (dflt, offset))"

definition read_srcinfo :: "pystr list \<Rightarrow> nat \<Rightarrow> bytes \<Rightarrow> nat \<Rightarrow> (srcinfo option \<times> nat) res" where
  "read_srcinfo fh presence data offset =
     (if presence AND PRESENCE_SOURCE \<noteq> 0 then
        bindE (decode_varint data offset) (\<lambda>(file_id, offset).
        bindE (decode_varint data offset) (\<lambda>(line, offset).
        bindE (decode_varint data offset) (\<lambda>(token, offset).
          Inr (Some \<lparr>si_file = (if file_id < length fh then Some (fh ! file_id) else None),
                     si_line = int line, si_token = int token\<rparr>, offset))))
      else Inr (None, offset))"

text \<open>\<open>SourceT(v)\<close> raises \<open>ValueError\<close> outside the enumeration.\<close>

definition SourceT :: "int \<Rightarrow> int res" where
  "SourceT v = (if 0 \<le> v \<and> v \<le> 12 then Inr v else Inl ValueError)"

definition set_goal_source :: "int \<Rightarrow> int \<Rightarrow> scope \<Rightarrow> scope res" where
  "set_goal_source goal source_type s =
     (let a = (if goal \<noteq> -1 then (attrs s)\<lparr>m_goal := goal\<rparr> else attrs s) in
      if source_type \<noteq> SOURCE_NONE
      then bindE (SourceT source_type) (\<lambda>v. Inr (Scope (a\<lparr>m_source := v\<rparr>) (items s) (children s)))
      else Inr (Scope a (items s) (children s)))"

definition read_item :: "strtab \<Rightarrow> int \<Rightarrow> int \<Rightarrow> bytes \<Rightarrow> rstate \<Rightarrow> rstate res" where
  "read_item st child_cover_type at_least data = (\<lambda>(scope, offset, it).
     bindE (decode_varint data offset) (\<lambda>(ci_name_ref, offset).
     bindE (st_get st ci_name_ref) (\<lambda>ci_name.
       let (cnt, it) = next_count it;
           cd = (CoverData child_cover_type (fst (cover_type_defaults child_cover_type)))
                  \<lparr>cd_data := cnt, cd_at_least := at_least\<rparr>
       in Inr (createNextCover scope ci_name cd None, offset, it))))"

fun iterE :: "nat \<Rightarrow> ('s \<Rightarrow> 's res) \<Rightarrow> 's \<Rightarrow> 's res" where
  "iterE 0 f s = Inr s"
| "iterE (Suc n) f s = bindE (f s) (iterE n f)"

definition read_regular_scope :: "(rstate \<Rightarrow> rstate res) \<Rightarrow> strtab \<Rightarrow> pystr list \<Rightarrow> bytes \<Rightarrow> rstate \<Rightarrow> rstate res" where
  "read_regular_scope read_child st fh data = (\<lambda>(parent, offset, it).
     bindE (decode_varint data offset) (\<lambda>(scope_type, offset).
     bindE (decode_varint data offset) (\<lambda>(name_ref, offset).
     bindE (decode_varint data offset) (\<lambda>(presence, offset).
     bindE (st_get st name_ref) (\<lambda>name.
     bindE (read_when presence PRESENCE_FLAGS 0 data offset) (\<lambda>(flags, offset).
     bindE (read_srcinfo fh presence data offset) (\<lambda>(srcinfo, offset).
     bindE (read_when presence PRESENCE_WEIGHT 1 data offset) (\<lambda>(weight, offset).
     bindE (read_when presence PRESENCE_AT_LEAST 0 data offset) (\<lambda>(override, offset).
     bindE (read_when presence PRESENCE_GOAL (-1) data offset) (\<lambda>(goal, offset).
     bindE (read_when presence PRESENCE_SOURCE_TYPE SOURCE_NONE data offset) (\<lambda>(source_type, offset).
     bindE (decode_varint data offset) (\<lambda>(num_children, offset).
     bindE (decode_varint data offset) (\<lambda>(num_coveritems, offset).
     bindE (if num_coveritems > 0 then decode_varint data offset else Inr (0, offset)) (\<lambda>(ctv, offset).
       let at_least = (if presence AND PRESENCE_AT_LEAST \<noteq> 0 then override
                       else fst (snd (cover_type_defaults (int ctv))));
           (k, parent) = (if int scope_type = ST_INSTANCE
                          then create_instance_in parent name srcinfo weight SOURCE_NONE (int scope_type) flags
                          else create_in parent name srcinfo weight SOURCE_NONE (int scope_type) flags)
       in bindE (set_goal_source goal source_type (children parent ! k)) (\<lambda>scope.
          bindE (iterE num_coveritems (read_item st (int ctv) at_least data) (scope, offset, it)) (\<lambda>s.
          bindE (iterE num_children read_child s) (\<lambda>(scope, offset, it).
            Inr (put_child k scope parent, offset, it))))))))))))))))))"

text \<open>
  \<open>_read_scope\<close>. A record takes at least its marker byte, so a nesting deeper than the bytes left
  runs into the end of the data: the fuel stands for that depth, and running out of it is the
  \<open>IndexError\<close> of reading a marker past the end.
\<close>

fun read_scope :: "nat \<Rightarrow> strtab \<Rightarrow> pystr list \<Rightarrow> bytes \<Rightarrow> rstate \<Rightarrow> rstate res" where
  "read_scope 0 st fh data s = Inl IndexError"
| "read_scope (Suc fuel) st fh data (parent, offset, it) =
     bindE (byte_at data offset) (\<lambda>marker.
       if marker = SCOPE_MARKER_TOGGLE_PAIR then read_toggle_pair st data (parent, Suc offset, it)
       else read_regular_scope (read_scope fuel st fh data) st fh data (parent, Suc offset, it))"

fun read_all :: "nat \<Rightarrow> strtab \<Rightarrow> pystr list \<Rightarrow> bytes \<Rightarrow> rstate \<Rightarrow> rstate res" where
  "read_all 0 st fh data s = Inr s"
| "read_all (Suc fuel) st fh data (parent, offset, it) =
     (if offset < length data
      then bindE (read_scope (Suc (length data)) st fh data (parent, offset, it)) (read_all fuel st fh data)
      else Inr (parent, offset, it))"

definition ucis_root :: scope where
  "ucis_root = new_scope [] None 1 SOURCE_NONE 18374686479671623680 0"

definition read_tree :: "strtab \<Rightarrow> pystr list \<Rightarrow> bytes \<Rightarrow> int list \<Rightarrow> scope list res" where
  "read_tree st fh data counts =
     bindE (read_all (Suc (length data)) st fh data (ucis_root, 0, counts)) (\<lambda>(root, _, _). Inr (children root))"

section \<open>The tables the writer fills\<close>

definition file_inv :: "stw \<Rightarrow> bool" where
  "file_inv w = (w_fh w = zip (w_files w) [0..<length (w_files w)] \<and> distinct (w_files w))"

lemma file_lookup:
  "file_inv w \<Longrightarrow> dict_get (w_fh w) f = Some i \<longleftrightarrow> i < length (w_files w) \<and> w_files w ! i = f"
  "file_inv w \<Longrightarrow> dict_get (w_fh w) f = None \<longleftrightarrow> f \<notin> set (w_files w)"
  using map_of_zip_upt_Some[of "w_files w" f i] map_of_zip_upt_None[of "w_files w" f]
  by (simp_all add: file_inv_def)

interpretation ft: interning "\<lambda>w f. (snd (get_file_id f w), fst (get_file_id f w))" w_files file_inv
proof
  fix w f assume w: "file_inv w"
  consider "f \<notin> set (w_files w)" | i where "i < length (w_files w)" "w_files w ! i = f"
    by (auto simp: in_set_conv_nth)
  then have "file_inv (snd (get_file_id f w)) \<and>
      w_files (snd (get_file_id f w)) = (if f \<in> set (w_files w) then w_files w else w_files w @ [f]) \<and>
      fst (get_file_id f w) < length (w_files (snd (get_file_id f w))) \<and>
      w_files (snd (get_file_id f w)) ! fst (get_file_id f w) = f"
  proof cases
    case 1
    then have g: "get_file_id f w = (length (w_files w),
        w\<lparr>w_files := w_files w @ [f], w_fh := dict_set f (length (w_files w)) (w_fh w)\<rparr>)"
      by (simp add: get_file_id_def file_lookup(2)[OF w, THEN iffD2])
    from 1 w show ?thesis by (simp add: g) (simp add: file_inv_def update_notin)
  next
    case (2 i)
    then have "get_file_id f w = (i, w)" by (simp add: get_file_id_def file_lookup(1)[OF w, THEN iffD2])
    with 2 w show ?thesis by auto
  qed
  then show "file_inv (fst (snd (get_file_id f w), fst (get_file_id f w)))"
    "w_files (fst (snd (get_file_id f w), fst (get_file_id f w))) = (if f \<in> set (w_files w) then w_files w else w_files w @ [f])"
    "snd (snd (get_file_id f w), fst (get_file_id f w)) < length (w_files (fst (snd (get_file_id f w), fst (get_file_id f w)))) \<and>
     w_files (fst (snd (get_file_id f w), fst (get_file_id f w))) ! snd (snd (get_file_id f w), fst (get_file_id f w)) = f"
    unfolding fst_conv snd_conv by blast+
qed (simp add: file_inv_def)

definition stw_inv :: "stw \<Rightarrow> bool" where
  "stw_inv w = (st_inv (w_st w) \<and> file_inv w)"

definition stw_le :: "stw \<Rightarrow> stw \<Rightarrow> bool" where
  "stw_le w w' = (prefix (st_strings (w_st w)) (st_strings (w_st w')) \<and> prefix (w_files w) (w_files w'))"

lemma stw_inv_new [simp]: "stw_inv new_stw"
  by (simp add: stw_inv_def new_stw_def file_inv_def)

lemma stw_le_refl [simp]: "stw_le w w"
  by (simp add: stw_le_def)

lemma stw_le_trans: "stw_le w w' \<Longrightarrow> stw_le w' w'' \<Longrightarrow> stw_le w w''"
  by (auto simp: stw_le_def intro: prefix_order.trans)

text \<open>What a writer step does to the tables: it keeps them well formed, only extends them, and
  appends the given counts.\<close>

definition step :: "stw \<Rightarrow> int list \<Rightarrow> stw \<Rightarrow> bool" where
  "step w cs w' = (stw_inv w' \<and> stw_le w w' \<and> w_counts w' = w_counts w @ cs)"

lemma step_trans: "step w cs w' \<Longrightarrow> step w' ds w'' \<Longrightarrow> step w (cs @ ds) w''"
  by (auto simp: step_def intro: stw_le_trans)

lemma step_le: "step w cs w' \<Longrightarrow> stw_le w' W \<Longrightarrow> stw_le w W"
  by (auto simp: step_def intro: stw_le_trans)

lemma step_count: "stw_inv w \<Longrightarrow> step w cs (w_count cs w)"
  by (simp add: step_def w_count_def stw_inv_def stw_le_def file_inv_def)

lemma step_name:
  assumes "stw_inv w" "w_name s w = (i, w')"
  shows "step w [] w' \<and> i < length (st_strings (w_st w')) \<and> st_strings (w_st w') ! i = s"
proof -
  have w: "st_inv (w_st w)" "file_inv w" using assms(1) by (simp_all add: stw_inv_def)
  from assms(2) have w': "w' = w\<lparr>w_st := fst (st_add (w_st w) (Some s))\<rparr>" "i = snd (st_add (w_st w) (Some s))"
    by (auto simp: w_name_def split: prod.splits)
  obtain ys where "st_strings (fst (st_add (w_st w) (Some s))) = st_strings (w_st w) @ ys"
    using st.add_prefix[OF w(1)] by blast
  with w st.inv_add[OF w(1), of s] st.idx_add[OF w(1), of s] show ?thesis
    by (simp add: w' step_def stw_inv_def stw_le_def file_inv_def)
qed

lemma step_file:
  assumes "stw_inv w" "get_file_id f w = (i, w')"
  shows "step w [] w' \<and> i < length (w_files w') \<and> w_files w' ! i = f"
proof -
  have w: "st_inv (w_st w)" "file_inv w" using assms(1) by (simp_all add: stw_inv_def)
  have same: "w_st w' = w_st w" "w_counts w' = w_counts w"
    using assms(2) by (auto simp: get_file_id_def split: option.splits)
  obtain ys where "w_files w' = w_files w @ ys" using ft.add_prefix[OF w(2), of f] assms(2) by auto
  with w ft.inv_add[OF w(2), of f] ft.idx_add[OF w(2), of f] same assms(2) show ?thesis
    by (simp add: step_def stw_inv_def stw_le_def)
qed

lemma name_at: "stw_le w W \<Longrightarrow> i < length (st_strings (w_st w)) \<Longrightarrow> st_get (w_st W) i = Inr (st_strings (w_st w) ! i)"
  by (auto simp: stw_le_def prefix_def st_get_def nth_append)

lemma file_at: "stw_le w W \<Longrightarrow> i < length (w_files w) \<Longrightarrow> i < length (w_files W) \<and> w_files W ! i = w_files w ! i"
  by (auto simp: stw_le_def prefix_def nth_append)

section \<open>Reading back what was written\<close>

lemma read_when_at:
  "when_varint b v = Inr bs \<Longrightarrow> at data off bs \<Longrightarrow> (presence AND mb \<noteq> 0) = b \<Longrightarrow>
   read_when presence mb d data off = Inr (if b then v else d, off + length bs)"
  by (auto simp: when_varint_def read_when_def encode_varint_eq_Inr decode_varint_at split: if_splits)

lemma presence_bits_of:
  "(presence_of f s w a g t AND PRESENCE_FLAGS \<noteq> 0) = f"
  "(presence_of f s w a g t AND PRESENCE_SOURCE \<noteq> 0) = s"
  "(presence_of f s w a g t AND PRESENCE_WEIGHT \<noteq> 0) = w"
  "(presence_of f s w a g t AND PRESENCE_AT_LEAST \<noteq> 0) = a"
  "(presence_of f s w a g t AND PRESENCE_GOAL \<noteq> 0) = g"
  "(presence_of f s w a g t AND PRESENCE_SOURCE_TYPE \<noteq> 0) = t"
  by (cases f; cases s; cases w; cases a; cases g; cases t; simp add: presence_of_def presence_bits)+

definition canon_src :: "scope_attrs \<Rightarrow> srcinfo option" where
  "canon_src a =
     (if has_src a then Some \<lparr>si_file = si_file (m_srcinfo a), si_line = si_line (m_srcinfo a),
                              si_token = max 0 (si_token (m_srcinfo a))\<rparr>
      else None)"

lemma read_srcinfo_at:
  assumes "stw_inv w" "write_srcinfo a w = Inr (bs, w')"
  shows "step w [] w' \<and> (stw_le w' W \<longrightarrow> at data off bs \<longrightarrow> (presence AND PRESENCE_SOURCE \<noteq> 0) = has_src a \<longrightarrow>
    read_srcinfo (w_files W) presence data off = Inr (canon_src a, off + length bs))"
proof (cases "has_src a")
  case False
  with assms show ?thesis by (auto simp: write_srcinfo_def read_srcinfo_def canon_src_def step_def)
next
  case True
  then obtain f where f: "si_file (m_srcinfo a) = Some f" "0 \<le> si_line (m_srcinfo a)" by (auto simp: has_src_def)
  obtain i u where g: "get_file_id f w = (i, u)" by force
  from True assms(2) f g have bs: "bs = varint_loop i @ varint_loop (nat (si_line (m_srcinfo a))) @ varint_loop (nat (max 0 (si_token (m_srcinfo a))))" "w' = u"
    by (auto simp: write_srcinfo_def bindE_eq_Inr encode_varint_eq_Inr max_def split: if_splits)
  note st = step_file[OF assms(1) g]
  have "read_srcinfo (w_files W) presence data off = Inr (canon_src a, off + length bs)"
    if "stw_le w' W" "at data off bs" "(presence AND PRESENCE_SOURCE \<noteq> 0) = has_src a"
  proof -
    from that(2) have a: "at data off (varint_loop i)"
      "at data (off + length (varint_loop i)) (varint_loop (nat (si_line (m_srcinfo a))))"
      "at data (off + length (varint_loop i) + length (varint_loop (nat (si_line (m_srcinfo a))))) (varint_loop (nat (max 0 (si_token (m_srcinfo a)))))"
      unfolding bs(1) by (simp_all add: at_append)
    from file_at[OF that(1), of i] st bs(2) have "i < length (w_files W)" "w_files W ! i = f" by auto
    with that(3) True f decode_varint_at[OF a(1)] decode_varint_at[OF a(2)] decode_varint_at[OF a(3)]
    show ?thesis by (simp add: read_srcinfo_def canon_src_def bs(1))
  qed
  with st bs(2) show ?thesis by blast
qed

definition canon_item :: "int \<Rightarrow> int \<Rightarrow> coveritem \<Rightarrow> coveritem" where
  "canon_item ct at_least ci =
     \<lparr>ci_name = ci_name ci,
      ci_data = (CoverData ct (fst (cover_type_defaults ct)))\<lparr>cd_data := cd_data (ci_data ci), cd_at_least := at_least\<rparr>,
      ci_src = None\<rparr>"

lemma write_names_step:
  "stw_inv w \<Longrightarrow> write_names cis w = Inr (bs, w') \<Longrightarrow> step w (map (cd_data \<circ> ci_data) cis) w'"
proof (induction cis arbitrary: w bs)
  case Nil
  then show ?case by (simp add: step_def)
next
  case (Cons ci cis)
  obtain i u where n: "w_name (ci_name ci) w = (i, u)" by force
  with Cons.prems(2) obtain c where c: "write_names cis (w_count [cd_data (ci_data ci)] u) = Inr (c, w')"
    by (auto simp: bindE_eq_Inr)
  have u: "step w [] u" using step_name[OF Cons.prems(1) n] by simp
  then have "stw_inv u" by (simp add: step_def)
  note s = step_count[OF this, of "[cd_data (ci_data ci)]"]
  then have "stw_inv (w_count [cd_data (ci_data ci)] u)" by (simp add: step_def)
  from step_trans[OF u step_trans[OF s Cons.IH[OF this c]]] show ?case by simp
qed

lemma read_items_at:
  "stw_inv w \<Longrightarrow> write_names cis w = Inr (bs, w') \<Longrightarrow> stw_le w' W \<Longrightarrow> at data off bs \<Longrightarrow> m_type a \<noteq> ST_FSM \<Longrightarrow>
   iterE (length cis) (read_item (w_st W) ct al data) (Scope a is cs, off, map (cd_data \<circ> ci_data) cis @ rest) =
     Inr (Scope a (is @ map (canon_item ct al) cis) cs, off + length bs, rest)"
proof (induction cis arbitrary: w bs off "is")
  case Nil
  then show ?case by simp
next
  case (Cons ci cis)
  obtain i u where n: "w_name (ci_name ci) w = (i, u)" by force
  with Cons.prems(2) obtain c where c: "write_names cis (w_count [cd_data (ci_data ci)] u) = Inr (c, w')"
      "bs = varint_loop i @ c"
    by (auto simp: bindE_eq_Inr)
  note u = step_name[OF Cons.prems(1) n]
  then have inv: "stw_inv u" by (simp add: step_def)
  note s = step_count[OF this, of "[cd_data (ci_data ci)]"]
  then have inv': "stw_inv (w_count [cd_data (ci_data ci)] u)" by (simp add: step_def)
  have le: "stw_le u W" using step_le[OF s step_le[OF write_names_step[OF inv' c(1)] Cons.prems(3)]] .
  from Cons.prems(4) c(2) have a: "at data off (varint_loop i)" "at data (off + length (varint_loop i)) c"
    by (simp_all add: at_append)
  from name_at[OF le] u have "st_get (w_st W) i = Inr (ci_name ci)" by simp
  with decode_varint_at[OF a(1)] Cons.IH[OF inv' c(1) Cons.prems(3) a(2) Cons.prems(5)] Cons.prems(5) c(2)
  show ?case
    by (simp add: read_item_def next_count_def createNextCover_def sc_type_def add_item_def canon_item_def add.assoc)
qed

section \<open>The tree a reader rebuilds\<close>

text \<open>
  Scopes of the covergroup family lose their flags; inside an instance only covergroups do, since
  \<open>MemInstanceScope\<close> makes the others generic scopes.
\<close>

definition drops_flags :: "int \<Rightarrow> int \<Rightarrow> bool" where
  "drops_flags pty ty =
     (if pty = ST_INSTANCE then ty = ST_COVERGROUP
      else ty = ST_COVERGROUP \<or> ty = ST_COVERINSTANCE \<or> ty = ST_COVERPOINT \<or> ty = ST_CROSS)"

definition canon_attrs :: "int \<Rightarrow> scope_attrs \<Rightarrow> scope_attrs" where
  "canon_attrs pty a =
     a\<lparr>m_srcinfo := (case canon_src a of None \<Rightarrow> no_srcinfo | Some si \<Rightarrow> si),
       m_flags := (if drops_flags pty (m_type a) then 0 else m_flags a)\<rparr>"

definition canon_items :: "coveritem list \<Rightarrow> coveritem list" where
  "canon_items cis =
     (case cis of [] \<Rightarrow> [] | ci # _ \<Rightarrow> map (canon_item (cd_type (ci_data ci)) (cd_at_least (ci_data ci))) cis)"

definition canon_toggle :: "scope \<Rightarrow> scope" where
  "canon_toggle s =
     Scope (attrs (new_scope (sc_name s) None 1 SOURCE_NONE ST_BRANCH 0))
       (map2 (\<lambda>name cnt. \<lparr>ci_name = name, ci_data = toggle_item name cnt, ci_src = None\<rparr>)
          [TOGGLE_BIN_0_TO_1, TOGGLE_BIN_1_TO_0] (toggle_counts s)) []"

function canon :: "int \<Rightarrow> scope \<Rightarrow> scope" where
  "canon pty (Scope a is cs) =
     (if is_toggle_pair (Scope a is cs) then canon_toggle (Scope a is cs)
      else Scope (canon_attrs pty a) (canon_items (coverItems CT_ALL (Scope a is cs)))
             (map (canon (m_type a)) (scopes ST_ALL cs)))"
  by pat_completeness auto
termination
  by (relation "measure (size \<circ> snd)") (auto intro: scope_size)

text \<open>
  What the format can represent: every scope type is one of the single-bit codes and not an FSM
  (whose two sub-scopes have a member of their own), no attribute is negative, the language is one
  of the enumeration, and the first item of each scope has no negative at_least.
\<close>

definition attrs_ok :: "scope_attrs \<Rightarrow> bool" where
  "attrs_ok a = ((\<exists>k<40. m_type a = 2 ^ k) \<and> m_type a \<noteq> ST_FSM \<and> 0 \<le> m_flags a \<and> 0 \<le> m_weight a \<and> -1 \<le> m_goal a
     \<and> 0 \<le> m_source a \<and> m_source a \<le> 12)"

definition first_ok :: "coveritem list \<Rightarrow> bool" where
  "first_ok cis = (case cis of [] \<Rightarrow> True | ci # _ \<Rightarrow> 0 \<le> cd_type (ci_data ci) \<and> 0 \<le> cd_at_least (ci_data ci))"

primrec tree_ok :: "scope \<Rightarrow> bool" where
  "tree_ok (Scope a is cs) = (attrs_ok a \<and> first_ok (coverItems CT_ALL (Scope a is []))
     \<and> list_all tree_ok cs)"

lemma coverItems_children: "coverItems msk (Scope a is cs) = coverItems msk (Scope a is [])"
  by (simp add: coverItems_def)

lemma two_power_bit: "(2 ^ k AND 2 ^ n \<noteq> (0::int)) = (k = n)"
  by (auto simp: and_exp_eq_0_iff_not_bit bit_exp_iff possible_bit_def)

lemma type_bits:
  "ST_COVERGROUP = 2 ^ 12" "ST_BLOCK = 2 ^ 6" "ST_BRANCH = 2 ^ 1" "ST_TOGGLE = 2 ^ 0" "ST_FSM = 2 ^ 22"
  "ST_INSTANCE = 2 ^ 4" "ST_COVERINSTANCE = 2 ^ 13" "ST_COVERPOINT = 2 ^ 14" "ST_CROSS = 2 ^ 15"
  by (simp_all add: type_codes)

lemma type_and:
  assumes "attrs_ok a"
  shows "(m_type a AND ST_COVERGROUP \<noteq> 0) = (m_type a = ST_COVERGROUP)" "(m_type a AND ST_BLOCK \<noteq> 0) = (m_type a = ST_BLOCK)"
    "(m_type a AND ST_BRANCH \<noteq> 0) = (m_type a = ST_BRANCH)" "(m_type a AND ST_TOGGLE \<noteq> 0) = (m_type a = ST_TOGGLE)"
    "(m_type a AND ST_FSM \<noteq> 0) = (m_type a = ST_FSM)"
proof -
  obtain k where k: "m_type a = 2 ^ k" using assms by (auto simp: attrs_ok_def)
  have "(m_type a AND 2 ^ n \<noteq> 0) = (m_type a = 2 ^ n)" for n
    unfolding k two_power_bit by simp
  then show "(m_type a AND ST_COVERGROUP \<noteq> 0) = (m_type a = ST_COVERGROUP)" "(m_type a AND ST_BLOCK \<noteq> 0) = (m_type a = ST_BLOCK)"
    "(m_type a AND ST_BRANCH \<noteq> 0) = (m_type a = ST_BRANCH)" "(m_type a AND ST_TOGGLE \<noteq> 0) = (m_type a = ST_TOGGLE)"
    "(m_type a AND ST_FSM \<noteq> 0) = (m_type a = ST_FSM)"
    unfolding type_bits by blast+
qed

lemma inst_create:
  "attrs_ok a \<Longrightarrow> inst_createScope (m_name a) si (m_weight a) SOURCE_NONE (m_type a) (m_flags a) =
     new_scope (m_name a) si (m_weight a) SOURCE_NONE (m_type a) (if drops_flags ST_INSTANCE (m_type a) then 0 else m_flags a)"
  unfolding inst_createScope_def drops_flags_def type_and by (auto simp: attrs_ok_def)

lemma mem_create:
  "attrs_ok a \<Longrightarrow> pty \<noteq> ST_INSTANCE \<Longrightarrow>
   mem_createScope (m_name a) si (m_weight a) SOURCE_NONE (m_type a) (m_flags a) =
     new_scope (m_name a) si (m_weight a) SOURCE_NONE (m_type a) (if drops_flags pty (m_type a) then 0 else m_flags a)"
  by (auto simp: attrs_ok_def mem_createScope_def drops_flags_def type_codes DU_ANY_def)

lemma drops_flags_instance: "\<not> drops_flags pty ST_INSTANCE"
  by (simp add: drops_flags_def type_codes)

text \<open>Both ways of creating a scope under a parent that is no FSM append it to the children.\<close>

lemma create_at:
  assumes "attrs_ok a" "sc_type p \<noteq> ST_FSM"
  shows "(if m_type a = ST_INSTANCE
          then create_instance_in p (m_name a) si (m_weight a) SOURCE_NONE (m_type a) (m_flags a)
          else create_in p (m_name a) si (m_weight a) SOURCE_NONE (m_type a) (m_flags a)) =
    (length (children p), Scope (attrs p) (items p) (children p @
      [new_scope (m_name a) si (m_weight a) SOURCE_NONE (m_type a) (if drops_flags (sc_type p) (m_type a) then 0 else m_flags a)]))"
  using assms drops_flags_instance[of "sc_type p"] inst_create[OF assms(1), of si] mem_create[OF assms(1), of "sc_type p" si]
  by (simp add: create_instance_in_def create_in_def)

lemma set_goal_source_new:
  assumes "attrs_ok a"
  shows "set_goal_source (m_goal a) (m_source a)
      (new_scope (m_name a) (canon_src a) (m_weight a) SOURCE_NONE (m_type a) (if drops_flags pty (m_type a) then 0 else m_flags a)) =
    Inr (Scope (canon_attrs pty a) [] [])"
  using assms by (auto simp: set_goal_source_def new_scope_def canon_attrs_def SourceT_def attrs_ok_def SOURCE_NONE_def)

lemma canon_items_eq:
  "canon_items cis = map (canon_item (cd_type (ci_data (hd cis))) (cd_at_least (ci_data (hd cis)))) cis"
  by (cases cis) (simp_all add: canon_items_def)

lemma when_at_least:
  "(if override \<noteq> None then the override else 0) = the override \<or> override = None" for override :: "int option"
  by simp

lemma override_value:
  "cis \<noteq> [] \<Longrightarrow> (case at_least_override cis of None \<Rightarrow> fst (snd (cover_type_defaults (cd_type (ci_data (hd cis))))) | Some v \<Rightarrow> v)
     = cd_at_least (ci_data (hd cis))"
  by (cases cis) (auto simp: at_least_override_def)

lemma read_ct_at:
  "when_varint (cis \<noteq> []) ct = Inr bs \<Longrightarrow> at data off bs \<Longrightarrow>
   (if length cis > 0 then decode_varint data off else Inr (0, off)) =
   Inr (if cis \<noteq> [] then nat ct else 0, off + length bs) \<and> (cis \<noteq> [] \<longrightarrow> 0 \<le> ct)"
  by (auto simp: when_varint_def encode_varint_eq_Inr decode_varint_at)

lemma write_head_parts:
  assumes "write_regular_head (Scope a is cs) w = Inr (h, w')"
  obtains i u v ty pr fl sr we al go so nc ni ct names where
    "w_name (m_name a) w = (i, u)" "write_srcinfo a u = Inr (sr, v)"
    "write_names (coverItems CT_ALL (Scope a is cs)) v = Inr (names, w')"
    "encode_varint (m_type a) = Inr ty"
    "pr = presence_of (m_flags a \<noteq> 0) (has_src a) (m_weight a \<noteq> 1)
      (at_least_override (coverItems CT_ALL (Scope a is cs)) \<noteq> None) (m_goal a \<noteq> -1) (m_source a \<noteq> SOURCE_NONE)"
    "when_varint (m_flags a \<noteq> 0) (m_flags a) = Inr fl" "when_varint (m_weight a \<noteq> 1) (m_weight a) = Inr we"
    "when_varint (at_least_override (coverItems CT_ALL (Scope a is cs)) \<noteq> None)
      (the (at_least_override (coverItems CT_ALL (Scope a is cs)))) = Inr al"
    "when_varint (m_goal a \<noteq> -1) (m_goal a) = Inr go" "when_varint (m_source a \<noteq> SOURCE_NONE) (m_source a) = Inr so"
    "nc = varint_loop (length (scopes ST_ALL cs))" "ni = varint_loop (length (coverItems CT_ALL (Scope a is cs)))"
    "when_varint (coverItems CT_ALL (Scope a is cs) \<noteq> []) (cd_type (ci_data (hd (coverItems CT_ALL (Scope a is cs))))) = Inr ct"
    "h = 0 # ty @ varint_loop i @ varint_loop pr @ fl @ sr @ we @ al @ go @ so @ nc @ ni @ ct @ names"
  using assms unfolding write_regular_head_def
  by (auto simp: bindE_eq_Inr sc_name_def SCOPE_MARKER_REGULAR_def split: prod.splits)

lemma read_head:
  assumes h: "write_regular_head (Scope a is cs) w = Inr (h, w')" and inv: "stw_inv w" and ok: "attrs_ok a"
  shows "step w (map (cd_data \<circ> ci_data) (coverItems CT_ALL (Scope a is cs))) w' \<and>
    (stw_le w' W \<longrightarrow> at data off h \<longrightarrow> sc_type p \<noteq> ST_FSM \<longrightarrow>
     byte_at data off = Inr 0 \<and>
     read_regular_scope rc (w_st W) (w_files W) data
       (p, Suc off, map (cd_data \<circ> ci_data) (coverItems CT_ALL (Scope a is cs)) @ rest) =
     bindE (iterE (length (scopes ST_ALL cs)) rc
         (Scope (canon_attrs (sc_type p) a) (canon_items (coverItems CT_ALL (Scope a is cs))) [], off + length h, rest))
       (\<lambda>(scope, offset, it). Inr (Scope (attrs p) (items p) (children p @ [scope]), offset, it)))"
proof -
  let ?cis = "coverItems CT_ALL (Scope a is cs)"
  let ?ov = "at_least_override ?cis"
  obtain i u v ty pr fl sr we al go so nc ni ct names where
    nm: "w_name (m_name a) w = (i, u)" and sr: "write_srcinfo a u = Inr (sr, v)"
    and names: "write_names ?cis v = Inr (names, w')" and ty: "encode_varint (m_type a) = Inr ty"
    and pr: "pr = presence_of (m_flags a \<noteq> 0) (has_src a) (m_weight a \<noteq> 1) (?ov \<noteq> None) (m_goal a \<noteq> -1) (m_source a \<noteq> SOURCE_NONE)"
    and fl: "when_varint (m_flags a \<noteq> 0) (m_flags a) = Inr fl" and we: "when_varint (m_weight a \<noteq> 1) (m_weight a) = Inr we"
    and al: "when_varint (?ov \<noteq> None) (the ?ov) = Inr al"
    and go: "when_varint (m_goal a \<noteq> -1) (m_goal a) = Inr go" and so: "when_varint (m_source a \<noteq> SOURCE_NONE) (m_source a) = Inr so"
    and nc: "nc = varint_loop (length (scopes ST_ALL cs))" and ni: "ni = varint_loop (length ?cis)"
    and ct: "when_varint (?cis \<noteq> []) (cd_type (ci_data (hd ?cis))) = Inr ct"
    and hb: "h = 0 # ty @ varint_loop i @ varint_loop pr @ fl @ sr @ we @ al @ go @ so @ nc @ ni @ ct @ names"
    by (rule write_head_parts[OF h]) (rule that; assumption)
  note n = step_name[OF inv nm]
  then have u: "stw_inv u" by (simp add: step_def)
  note rs = read_srcinfo_at[OF u sr]
  then have v: "stw_inv v" by (simp add: step_def)
  note wn = write_names_step[OF v names]
  have st: "step w (map (cd_data \<circ> ci_data) ?cis) w'"
    using step_trans[OF conjunct1[OF n] step_trans[OF conjunct1[OF rs] wn]] by simp
  show ?thesis
  proof (intro conjI impI st)
    assume W: "stw_le w' W" and at: "at data off h" and p: "sc_type p \<noteq> ST_FSM"
    have vW: "stw_le v W" by (rule step_le[OF wn W])
    have uW: "stw_le u W" using step_le[OF _ vW] rs by blast
    from at show "byte_at data off = Inr 0" by (simp add: hb at_byte_at)
    from at have a: "at data (Suc off) (ty @ varint_loop i @ varint_loop pr @ fl @ sr @ we @ al @ go @ so @ nc @ ni @ ct @ names)"
      by (simp add: hb at_Cons)
    note A = a[unfolded at_append]
    have tyv: "ty = varint_loop (nat (m_type a))" "0 \<le> m_type a" using ty by (auto simp: encode_varint_eq_Inr)
    let ?o1 = "Suc off + length ty" let ?o2 = "?o1 + length (varint_loop i)"
    let ?o3 = "?o2 + length (varint_loop pr)" let ?o4 = "?o3 + length fl" let ?o5 = "?o4 + length sr"
    let ?o6 = "?o5 + length we" let ?o7 = "?o6 + length al" let ?o8 = "?o7 + length go" let ?o9 = "?o8 + length so"
    let ?o10 = "?o9 + length nc" let ?o11 = "?o10 + length ni" let ?o12 = "?o11 + length ct"
    from A have a1: "at data (Suc off) ty" and a2: "at data ?o1 (varint_loop i)" and a3: "at data ?o2 (varint_loop pr)"
      and a4: "at data ?o3 fl" and a5: "at data ?o4 sr" and a6: "at data ?o5 we" and a7: "at data ?o6 al"
      and a8: "at data ?o7 go" and a9: "at data ?o8 so" and a10: "at data ?o9 nc" and a11: "at data ?o10 ni"
      and a12: "at data ?o11 ct" and a13: "at data ?o12 names" by blast+
    have d1: "decode_varint data (Suc off) = Inr (nat (m_type a), ?o1)" using decode_varint_at a1 tyv(1) by simp
    have d2: "decode_varint data ?o1 = Inr (i, ?o2)" by (rule decode_varint_at[OF a2])
    have d3: "decode_varint data ?o2 = Inr (pr, ?o3)" by (rule decode_varint_at[OF a3])
    have dn: "st_get (w_st W) i = Inr (m_name a)" using name_at[OF uW, of i] n by simp
    have d4: "read_when pr PRESENCE_FLAGS 0 data ?o3 = Inr (m_flags a, ?o4)"
      using read_when_at[OF fl a4, of pr PRESENCE_FLAGS 0] pr presence_bits_of by simp
    have d5: "read_srcinfo (w_files W) pr data ?o4 = Inr (canon_src a, ?o5)"
      using rs vW a5 pr presence_bits_of by blast
    have d6: "read_when pr PRESENCE_WEIGHT 1 data ?o5 = Inr (m_weight a, ?o6)"
      using read_when_at[OF we a6, of pr PRESENCE_WEIGHT 1] pr presence_bits_of by simp
    have d7: "read_when pr PRESENCE_AT_LEAST 0 data ?o6 = Inr (if ?ov \<noteq> None then the ?ov else 0, ?o7)"
      using read_when_at[OF al a7, of pr PRESENCE_AT_LEAST 0] pr presence_bits_of by simp
    have d8: "read_when pr PRESENCE_GOAL (-1) data ?o7 = Inr (m_goal a, ?o8)"
      using read_when_at[OF go a8, of pr PRESENCE_GOAL "-1"] pr presence_bits_of by simp
    have d9: "read_when pr PRESENCE_SOURCE_TYPE SOURCE_NONE data ?o8 = Inr (m_source a, ?o9)"
      using read_when_at[OF so a9, of pr PRESENCE_SOURCE_TYPE SOURCE_NONE] pr presence_bits_of by simp
    have d10: "decode_varint data ?o9 = Inr (length (scopes ST_ALL cs), ?o10)" using decode_varint_at a10 nc by simp
    have d11: "decode_varint data ?o10 = Inr (length ?cis, ?o11)" using decode_varint_at a11 ni by simp
    let ?ct = "cd_type (ci_data (hd ?cis))"
    have d12: "(if length ?cis > 0 then decode_varint data ?o11 else Inr (0, ?o11)) = Inr (if ?cis \<noteq> [] then nat ?ct else 0, ?o12)"
      and ctv: "?cis \<noteq> [] \<longrightarrow> 0 \<le> ?ct"
      using read_ct_at[OF ct a12] by blast+
    have pa: "(pr AND PRESENCE_AT_LEAST \<noteq> 0) = (?ov \<noteq> None)" unfolding pr by (rule presence_bits_of)
    let ?c = "if ?cis \<noteq> [] then nat ?ct else 0"
    let ?al = "if pr AND PRESENCE_AT_LEAST \<noteq> 0 then (if ?ov \<noteq> None then the ?ov else 0) else fst (snd (cover_type_defaults (int ?c)))"
    let ?A = "canon_attrs (sc_type p) a"
    have "m_type ?A \<noteq> ST_FSM" using ok by (simp add: canon_attrs_def attrs_ok_def)
    note ri = read_items_at[OF v names W a13 this]
    have it: "iterE (length ?cis) (read_item (w_st W) c al data) (Scope ?A [] [], ?o12, map (cd_data \<circ> ci_data) ?cis @ rest)
        = Inr (Scope ?A (map (canon_item c al) ?cis) [], ?o12 + length names, rest)" for c al
      by (subst ri) simp
    have items: "iterE (length ?cis) (read_item (w_st W) (int ?c) ?al data) (Scope ?A [] [], ?o12, map (cd_data \<circ> ci_data) ?cis @ rest)
        = Inr (Scope ?A (canon_items ?cis) [], ?o12 + length names, rest)"
    proof (cases "?cis = []")
      case True
      then show ?thesis using it[of 0 0] by (simp add: canon_items_def)
    next
      case False
      then have "?al = cd_at_least (ci_data (hd ?cis))"
        using override_value[OF False] pa ctv by (auto split: option.splits)
      with False ctv it[of ?ct ?al] show ?thesis by (simp add: canon_items_eq)
    qed
    have end_: "?o12 + length names = off + length h" by (simp add: hb)
    have ti: "int (nat (m_type a)) = m_type a" using tyv(2) by simp
    show "read_regular_scope rc (w_st W) (w_files W) data (p, Suc off, map (cd_data \<circ> ci_data) ?cis @ rest) =
       bindE (iterE (length (scopes ST_ALL cs)) rc
         (Scope (canon_attrs (sc_type p) a) (canon_items ?cis) [], off + length h, rest))
       (\<lambda>(scope, offset, it). Inr (Scope (attrs p) (items p) (children p @ [scope]), offset, it))"
      by (simp only: read_regular_scope_def prod.case d1 d2 d3 dn d4 d5 d6 d7 d8 d9 d10 d11 d12 bindE_Inr Let_def ti
          create_at[OF ok p] scope.sel nth_append_length set_goal_source_new[OF ok] items end_ put_child_def list_update_length)
  qed
qed

lemma toggle_counts_pair: "\<exists>x y. toggle_counts s = [x, y]"
  by (simp add: toggle_counts_def)

lemma create_branch:
  "sc_type p \<noteq> ST_FSM \<Longrightarrow>
   create_in p name None 1 SOURCE_NONE ST_BRANCH 0 =
     (length (children p), Scope (attrs p) (items p) (children p @ [new_scope name None 1 SOURCE_NONE ST_BRANCH 0]))"
  by (simp add: create_in_def inst_createScope_def mem_createScope_def type_codes DU_ANY_def)

lemma read_toggle_at:
  assumes "write_toggle_pair s w = Inr (bs, w')" "stw_inv w"
  shows "step w (toggle_counts s) w' \<and> (stw_le w' W \<longrightarrow> at data off bs \<longrightarrow> sc_type p \<noteq> ST_FSM \<longrightarrow>
    byte_at data off = Inr 1 \<and>
    read_toggle_pair (w_st W) data (p, Suc off, toggle_counts s @ rest) =
      Inr (Scope (attrs p) (items p) (children p @ [canon_toggle s]), off + length bs, rest))"
proof -
  obtain i u where n: "w_name (sc_name s) w = (i, u)" by force
  from assms(1) n have b: "bs = 1 # varint_loop i" "w' = w_count (toggle_counts s) u"
    by (auto simp: write_toggle_pair_def SCOPE_MARKER_TOGGLE_PAIR_def)
  note ns = step_name[OF assms(2) n]
  then have u: "stw_inv u" by (simp add: step_def)
  have st: "step w (toggle_counts s) w'"
    using step_trans[OF conjunct1[OF ns] step_count[OF u, of "toggle_counts s"]] by (simp add: b)
  obtain x y where t: "toggle_counts s = [x, y]" using toggle_counts_pair by blast
  show ?thesis
  proof (intro conjI impI st)
    assume W: "stw_le w' W" and at: "at data off bs" and p: "sc_type p \<noteq> ST_FSM"
    from at show "byte_at data off = Inr 1" by (simp add: b at_byte_at)
    from at have a: "at data (Suc off) (varint_loop i)" by (simp add: b at_Cons)
    have "stw_le u W" using step_le[OF step_count[OF u] W[unfolded b(2)]] .
    with name_at[of u W i] ns have "st_get (w_st W) i = Inr (sc_name s)" by simp
    with decode_varint_at[OF a] create_branch[OF p, of "sc_name s"] b(1)
    show "read_toggle_pair (w_st W) data (p, Suc off, toggle_counts s @ rest) =
      Inr (Scope (attrs p) (items p) (children p @ [canon_toggle s]), off + length bs, rest)"
      by (simp add: read_toggle_pair_def next_count_def t createNextCover_def add_item_def canon_toggle_def
          put_child_def new_scope_def sc_type_def type_codes)
  qed
qed

lemma varint_head_length: "write_regular_head s w = Inr (h, w') \<Longrightarrow> 0 < length h"
  unfolding write_regular_head_def by (auto simp: bindE_eq_Inr split: prod.splits)

lemma tree_ok_scopes: "list_all tree_ok cs \<Longrightarrow> list_all tree_ok (scopes msk cs)"
  using set_scopes[of msk cs] by (auto simp: list_all_iff)

lemma sc_type_canon_attrs [simp]: "sc_type (Scope (canon_attrs pty a) is cs) = m_type a"
  by (simp add: sc_type_def canon_attrs_def)

lemma read_write_scope:
  "write_scope s w = Inr (bs, w') \<Longrightarrow> stw_inv w \<Longrightarrow> tree_ok s \<Longrightarrow>
   \<exists>cs. step w cs w' \<and> bs \<noteq> [] \<and> (\<forall>W data off p fuel rest. stw_le w' W \<longrightarrow> at data off bs \<longrightarrow> sc_type p \<noteq> ST_FSM \<longrightarrow>
      length bs \<le> fuel \<longrightarrow>
      read_scope fuel (w_st W) (w_files W) data (p, off, cs @ rest) =
        Inr (Scope (attrs p) (items p) (children p @ [canon (sc_type p) s]), off + length bs, rest))"
  "write_scopes ss w = Inr (bs, w') \<Longrightarrow> stw_inv w \<Longrightarrow> list_all tree_ok ss \<Longrightarrow>
   \<exists>cs. step w cs w' \<and> (\<forall>W data off p fuel rest. stw_le w' W \<longrightarrow> at data off bs \<longrightarrow> sc_type p \<noteq> ST_FSM \<longrightarrow>
      length bs \<le> fuel \<longrightarrow>
      iterE (length ss) (read_scope fuel (w_st W) (w_files W) data) (p, off, cs @ rest) =
        Inr (Scope (attrs p) (items p) (children p @ map (canon (sc_type p)) ss), off + length bs, rest))"
proof (induction s w and ss w arbitrary: bs w' and bs w' rule: write_scope_write_scopes.induct)
  case (1 a "is" cs w)
  show ?case
  proof (cases "is_toggle_pair (Scope a is cs)")
    case True
    with 1(2) have wt: "write_toggle_pair (Scope a is cs) w = Inr (bs, w')" by simp
    then have b1: "0 < length bs" by (auto simp: write_toggle_pair_def bindE_eq_Inr split: prod.splits)
    note r = read_toggle_at[OF wt 1(3)]
    show ?thesis
    proof (intro exI[of _ "toggle_counts (Scope a is cs)"] conjI allI impI)
      show "step w (toggle_counts (Scope a is cs)) w'" using r by blast
      show "bs \<noteq> []" using b1 by simp
      fix W data off p fuel rest
      assume c: "stw_le w' W" "at data off bs" "sc_type p \<noteq> ST_FSM" "length bs \<le> fuel"
      with b1 obtain f where "fuel = Suc f" by (cases fuel) auto
      with r c True show "read_scope fuel (w_st W) (w_files W) data (p, off, toggle_counts (Scope a is cs) @ rest) =
        Inr (Scope (attrs p) (items p) (children p @ [canon (sc_type p) (Scope a is cs)]), off + length bs, rest)"
        by (simp add: SCOPE_MARKER_TOGGLE_PAIR_def)
    qed
  next
    case False
    with 1(2) obtain h u b where h: "write_regular_head (Scope a is cs) w = Inr (h, u)"
        and b: "write_scopes (scopes ST_ALL cs) u = Inr (b, w')" and bs: "bs = h @ b"
      by (auto simp: bindE_eq_Inr)
    have ok: "attrs_ok a" "list_all tree_ok (scopes ST_ALL cs)"
      using 1(4) tree_ok_scopes by simp_all
    note rh = read_head[OF h 1(3) ok(1)]
    then have u: "stw_inv u" by (simp add: step_def)
    from 1(1)[OF False h refl b u ok(2)]
    obtain ds where ds: "step u ds w'" and rd: "\<And>W data off p fuel rest. stw_le w' W \<Longrightarrow> at data off b \<Longrightarrow> sc_type p \<noteq> ST_FSM \<Longrightarrow>
      length b \<le> fuel \<Longrightarrow> iterE (length (scopes ST_ALL cs)) (read_scope fuel (w_st W) (w_files W) data) (p, off, ds @ rest) =
        Inr (Scope (attrs p) (items p) (children p @ map (canon (sc_type p)) (scopes ST_ALL cs)), off + length b, rest)"
      by blast
    let ?cnt = "map (cd_data \<circ> ci_data) (coverItems CT_ALL (Scope a is cs))"
    show ?thesis
    proof (intro exI[of _ "?cnt @ ds"] conjI allI impI)
      show "step w (?cnt @ ds) w'" using rh ds step_trans by blast
      show "bs \<noteq> []" using varint_head_length[OF h] bs by auto
      fix W data off p fuel rest
      assume c: "stw_le w' W" "at data off bs" "sc_type p \<noteq> ST_FSM" "length bs \<le> fuel"
      have hl: "0 < length h" by (rule varint_head_length[OF h])
      obtain f where f1: "fuel = Suc f" using hl c(4) bs by (cases fuel) auto
      have f2: "length b \<le> f" using hl c(4) bs f1 by (simp del: length_greater_0_conv)
      note f = f1 f2
      have at: "at data off h" "at data (off + length h) b" using c(2) by (simp_all add: bs at_append)
      have uW: "stw_le u W" by (rule step_le[OF ds c(1)])
      let ?P = "Scope (canon_attrs (sc_type p) a) (canon_items (coverItems CT_ALL (Scope a is cs))) []"
      have P: "sc_type ?P = m_type a" "m_type a \<noteq> ST_FSM" using ok(1) by (simp_all add: attrs_ok_def)
      then have P': "sc_type ?P \<noteq> ST_FSM" by simp
      have "read_scope fuel (w_st W) (w_files W) data (p, off, ?cnt @ ds @ rest) =
         read_regular_scope (read_scope f (w_st W) (w_files W) data) (w_st W) (w_files W) data (p, Suc off, ?cnt @ ds @ rest)"
        using rh uW at(1) c(3) by (simp add: f(1) SCOPE_MARKER_TOGGLE_PAIR_def)
      also have "\<dots> = bindE (iterE (length (scopes ST_ALL cs)) (read_scope f (w_st W) (w_files W) data) (?P, off + length h, ds @ rest))
          (\<lambda>(scope, offset, it). Inr (Scope (attrs p) (items p) (children p @ [scope]), offset, it))"
        using rh uW at(1) c(3) by blast
      also have "iterE (length (scopes ST_ALL cs)) (read_scope f (w_st W) (w_files W) data) (?P, off + length h, ds @ rest) =
          Inr (Scope (attrs ?P) (items ?P) (children ?P @ map (canon (sc_type ?P)) (scopes ST_ALL cs)), off + length h + length b, rest)"
        by (rule rd[OF c(1) at(2) P' f(2)])
      finally show "read_scope fuel (w_st W) (w_files W) data (p, off, (?cnt @ ds) @ rest) =
        Inr (Scope (attrs p) (items p) (children p @ [canon (sc_type p) (Scope a is cs)]), off + length bs, rest)"
        using False P(1) by (simp add: bs add.assoc comp_def)
    qed
  qed
next
  case (2 w)
  then show ?case by (auto simp: step_def)
next
  case (3 s ss w)
  from 3(3) obtain b u c where b: "write_scope s w = Inr (b, u)" and c: "write_scopes ss u = Inr (c, w')" and bs: "bs = b @ c"
    by (auto simp: bindE_eq_Inr)
  have ok: "tree_ok s" "list_all tree_ok ss" using 3(5) by simp_all
  from 3(1)[OF b 3(4) ok(1)] obtain ds where ds: "step w ds u"
    and rd: "\<And>W data off p fuel rest. stw_le u W \<Longrightarrow> at data off b \<Longrightarrow> sc_type p \<noteq> ST_FSM \<Longrightarrow> length b \<le> fuel \<Longrightarrow>
      read_scope fuel (w_st W) (w_files W) data (p, off, ds @ rest) =
        Inr (Scope (attrs p) (items p) (children p @ [canon (sc_type p) s]), off + length b, rest)"
    by blast
  then have u: "stw_inv u" by (simp add: step_def)
  from 3(2)[OF b refl c u ok(2)] obtain es where es: "step u es w'"
    and re: "\<And>W data off p fuel rest. stw_le w' W \<Longrightarrow> at data off c \<Longrightarrow> sc_type p \<noteq> ST_FSM \<Longrightarrow> length c \<le> fuel \<Longrightarrow>
      iterE (length ss) (read_scope fuel (w_st W) (w_files W) data) (p, off, es @ rest) =
        Inr (Scope (attrs p) (items p) (children p @ map (canon (sc_type p)) ss), off + length c, rest)"
    by blast
  show ?case
  proof (intro exI[of _ "ds @ es"] conjI allI impI)
    show "step w (ds @ es) w'" by (rule step_trans[OF ds es])
    fix W data off p fuel rest
    assume c: "stw_le w' W" "at data off bs" "sc_type p \<noteq> ST_FSM" "length bs \<le> fuel"
    have at: "at data off b" "at data (off + length b) c" using c(2) by (simp_all add: bs at_append)
    let ?p = "Scope (attrs p) (items p) (children p @ [canon (sc_type p) s])"
    have p': "sc_type ?p = sc_type p" by (simp add: sc_type_def)
    have l: "length b \<le> fuel" "length c \<le> fuel" using c(4) bs by simp_all
    from rd[OF step_le[OF es c(1)] at(1) c(3) l(1), of "es @ rest"] re[OF c(1) at(2) _ l(2), of ?p rest] p' c(3)
    show "iterE (length (s # ss)) (read_scope fuel (w_st W) (w_files W) data) (p, off, (ds @ es) @ rest) =
        Inr (Scope (attrs p) (items p) (children p @ map (canon (sc_type p)) (s # ss)), off + length bs, rest)"
      by (simp add: bs add.assoc)
  qed
qed

lemma read_all_scopes:
  "write_scopes ss w = Inr (bs, w') \<Longrightarrow> stw_inv w \<Longrightarrow> list_all tree_ok ss \<Longrightarrow>
   \<exists>cs. step w cs w' \<and> (\<forall>W data off p fuel rest. stw_le w' W \<longrightarrow> at data off bs \<longrightarrow> off + length bs = length data \<longrightarrow>
      sc_type p \<noteq> ST_FSM \<longrightarrow> length bs \<le> fuel \<longrightarrow>
      read_all (Suc fuel) (w_st W) (w_files W) data (p, off, cs @ rest) =
        Inr (Scope (attrs p) (items p) (children p @ map (canon (sc_type p)) ss), off + length bs, rest))"
proof (induction ss arbitrary: w bs)
  case Nil
  then show ?case by (auto simp: step_def)
next
  case (Cons s ss)
  from Cons.prems(1) obtain b u c where b: "write_scope s w = Inr (b, u)" and c: "write_scopes ss u = Inr (c, w')" and bs: "bs = b @ c"
    by (auto simp: bindE_eq_Inr)
  have ok: "tree_ok s" "list_all tree_ok ss" using Cons.prems(3) by simp_all
  from read_write_scope(1)[OF b Cons.prems(2) ok(1)] obtain ds where ds: "step w ds u" and ne: "b \<noteq> []"
    and rd: "\<And>W data off p fuel rest. stw_le u W \<Longrightarrow> at data off b \<Longrightarrow> sc_type p \<noteq> ST_FSM \<Longrightarrow> length b \<le> fuel \<Longrightarrow>
      read_scope fuel (w_st W) (w_files W) data (p, off, ds @ rest) =
        Inr (Scope (attrs p) (items p) (children p @ [canon (sc_type p) s]), off + length b, rest)"
    by blast
  then have u: "stw_inv u" by (simp add: step_def)
  from Cons.IH[OF c u ok(2)] obtain es where es: "step u es w'"
    and re: "\<And>W data off p fuel rest. stw_le w' W \<Longrightarrow> at data off c \<Longrightarrow> off + length c = length data \<Longrightarrow>
      sc_type p \<noteq> ST_FSM \<Longrightarrow> length c \<le> fuel \<Longrightarrow>
      read_all (Suc fuel) (w_st W) (w_files W) data (p, off, es @ rest) =
        Inr (Scope (attrs p) (items p) (children p @ map (canon (sc_type p)) ss), off + length c, rest)"
    by blast
  show ?case
  proof (intro exI[of _ "ds @ es"] conjI allI impI)
    show "step w (ds @ es) w'" by (rule step_trans[OF ds es])
    fix W data off p fuel rest
    assume c: "stw_le w' W" "at data off bs" "off + length bs = length data" "sc_type p \<noteq> ST_FSM" "length bs \<le> fuel"
    have at: "at data off b" "at data (off + length b) c" using c(2) by (simp_all add: bs at_append)
    let ?p = "Scope (attrs p) (items p) (children p @ [canon (sc_type p) s])"
    have p': "sc_type ?p = sc_type p" by (simp add: sc_type_def)
    have l0: "0 < length b" using ne by simp
    have l1: "off + length b + length c = length data" "length b + length c \<le> fuel" using c(3,5) bs by simp_all
    have lb: "0 < length b" "length b \<le> Suc (length data)" "off < length data" "off + length b + length c = length data"
      using l0 l1 by linarith+
    obtain f where f1: "fuel = Suc f" using l0 l1 by (cases fuel) simp_all
    have f2: "length c \<le> f" using l0 l1(2) f1 by linarith
    note f = f1 f2
    from rd[OF step_le[OF es c(1)] at(1) c(4) lb(2), of "es @ rest"] re[OF c(1) at(2) lb(4) _ f(2), of ?p rest] p' c(4) lb(3)
    show "read_all (Suc fuel) (w_st W) (w_files W) data (p, off, (ds @ es) @ rest) =
        Inr (Scope (attrs p) (items p) (children p @ map (canon (sc_type p)) (s # ss)), off + length bs, rest)"
      by (simp add: bs add.assoc f(1) del: read_scope.simps read_all.simps) (simp add: add.assoc del: read_scope.simps)
  qed
qed

section \<open>Writing succeeds\<close>

lemma when_varint_ok: "is_ok (when_varint b v) \<longleftrightarrow> (b \<longrightarrow> 0 \<le> v)"
  by (simp add: when_varint_def encode_varint_ok)

lemma bindE_is_ok: "is_ok (bindE m f) \<longleftrightarrow> (\<exists>x. m = Inr x \<and> is_ok (f x))"
  by (cases m) simp_all

lemma write_names_ok: "\<exists>r. write_names cis w = Inr r"
proof (induction cis arbitrary: w)
  case Nil
  then show ?case by simp
next
  case (Cons ci cis)
  obtain i u where n: "w_name (ci_name ci) w = (i, u)" by force
  from Cons.IH[of "w_count [cd_data (ci_data ci)] u"] n show ?case by auto
qed

lemma write_srcinfo_ok: "\<exists>r. write_srcinfo a w = Inr r"
  by (auto simp: write_srcinfo_def encode_varint_def split: prod.splits)

lemma write_head_ok:
  assumes "attrs_ok a" "first_ok (coverItems CT_ALL (Scope a is cs))"
  shows "\<exists>r. write_regular_head (Scope a is cs) w = Inr r"
proof -
  let ?cis = "coverItems CT_ALL (Scope a is cs)"
  have o: "\<exists>r. when_varint (at_least_override ?cis \<noteq> None) (the (at_least_override ?cis)) = Inr r"
    using assms(2) by (auto simp: when_varint_def encode_varint_def at_least_override_def first_ok_def split: list.splits)
  have c: "\<exists>r. when_varint (?cis \<noteq> []) (cd_type (ci_data (hd ?cis))) = Inr r"
    using assms(2) by (auto simp: when_varint_def encode_varint_def first_ok_def split: list.splits)
  have v: "\<exists>r. when_varint b x = Inr r" if "b \<longrightarrow> 0 \<le> x" for b x
    using that by (cases b) (auto simp: when_varint_def encode_varint_def)
  have w: "\<exists>r. when_varint (m_flags a \<noteq> 0) (m_flags a) = Inr r" "\<exists>r. when_varint (m_weight a \<noteq> 1) (m_weight a) = Inr r"
    "\<exists>r. when_varint (m_goal a \<noteq> -1) (m_goal a) = Inr r" "\<exists>r. when_varint (m_source a \<noteq> SOURCE_NONE) (m_source a) = Inr r"
    "\<exists>r. encode_varint (m_type a) = Inr r"
    using assms(1) by (auto simp: attrs_ok_def encode_varint_def intro!: v)
  obtain i u where n: "w_name (m_name a) w = (i, u)" by force
  obtain sr v where s: "write_srcinfo a u = Inr (sr, v)" using write_srcinfo_ok[of a u] by auto
  obtain nm w' where nm: "write_names ?cis v = Inr (nm, w')" using write_names_ok[of ?cis v] by auto
  from o c w n s nm show ?thesis
    by (auto simp: write_regular_head_def sc_name_def)
qed

lemma write_scope_ok:
  "tree_ok s \<Longrightarrow> \<exists>r. write_scope s w = Inr r"
  "list_all tree_ok ss \<Longrightarrow> \<exists>r. write_scopes ss w = Inr r"
proof (induction s w and ss w rule: write_scope_write_scopes.induct)
  case (1 a "is" cs w)
  show ?case
  proof (cases "is_toggle_pair (Scope a is cs)")
    case True
    then show ?thesis by (auto simp: write_toggle_pair_def split: prod.splits)
  next
    case False
    obtain h u where h: "write_regular_head (Scope a is cs) w = Inr (h, u)"
      using write_head_ok[of a "is" cs w] 1(2) by (auto simp: coverItems_children[of _ a "is" cs])
    have "list_all tree_ok (scopes ST_ALL cs)" using 1(2) by (simp add: tree_ok_scopes)
    from 1(1)[OF False h refl this] False h show ?thesis by auto
  qed
next
  case (3 s ss w)
  then obtain b u where b: "write_scope s w = Inr (b, u)" by auto
  from 3(2)[OF b refl] 3(3) b show ?case by auto
qed simp

lemma scope_tree_reads:
  assumes "list_all tree_ok (scopes ST_ALL ss)"
  shows "\<exists>bs w. write_tree ss new_stw = Inr (bs, w) \<and>
    read_tree (w_st w) (w_files w) bs (w_counts w) = Inr (map (canon (sc_type ucis_root)) (scopes ST_ALL ss))"
proof -
  obtain bs w where w: "write_scopes (scopes ST_ALL ss) new_stw = Inr (bs, w)"
    using write_scope_ok(2)[OF assms, of new_stw] by auto
  have root: "sc_type ucis_root \<noteq> ST_FSM" "children ucis_root = []"
    by (simp_all add: ucis_root_def new_scope_def sc_type_def type_codes)
  from read_all_scopes[OF w _ assms] obtain cs where cs: "step new_stw cs w"
    and rd: "\<And>W data off p fuel rest. stw_le w W \<Longrightarrow> at data off bs \<Longrightarrow> off + length bs = length data \<Longrightarrow>
      sc_type p \<noteq> ST_FSM \<Longrightarrow> length bs \<le> fuel \<Longrightarrow>
      read_all (Suc fuel) (w_st W) (w_files W) data (p, off, cs @ rest) =
        Inr (Scope (attrs p) (items p) (children p @ map (canon (sc_type p)) (scopes ST_ALL ss)), off + length bs, rest)"
    by auto
  have "w_counts w = cs" using cs by (simp add: step_def new_stw_def)
  with rd[of w bs 0 ucis_root "length bs" "[]"] root w show ?thesis
    by (simp add: write_tree_def read_tree_def del: read_all.simps)
qed

definition example_tree :: scope where
  "example_tree =
     Scope \<lparr>m_type = ST_INSTANCE, m_name = lit ''top'', m_srcinfo = \<lparr>si_file = Some (lit ''top.sv''), si_line = 3, si_token = 0\<rparr>,
            m_weight = 2, m_source = 2, m_flags = 1, m_goal = 90\<rparr>
       [\<lparr>ci_name = lit ''s1'', ci_data = (CoverData 32 1)\<lparr>cd_data := 4\<rparr>, ci_src = None\<rparr>] [example_toggle]"

lemma example_ok: "list_all tree_ok (scopes ST_ALL [example_tree])"
proof -
  have a: "attrs_ok (attrs example_tree)" "attrs_ok (attrs example_toggle)"
    unfolding attrs_ok_def
    by (simp_all add: example_tree_def example_toggle_def type_codes SOURCE_NONE_def)
      (rule exI[of _ 4], simp, rule exI[of _ 1], simp)
  show ?thesis
    using a by (simp add: scopes_def example_tree_def example_toggle_def first_ok_def coverItems_def CoverData_def
        type_codes split: list.split)
qed

text \<open>
  C17 (roundtrip). The scope tree survives \<open>scope_tree.bin\<close>: writing any hierarchy the format can
  represent succeeds, and reading the bytes with the string table, file table and counts the writer
  produced rebuilds exactly the canonical form of every scope in order: its type, name, weight, goal,
  language, location, flags (but for the covergroup family) and children, its items with their names
  and counts and the first item's type and at_least, and a folded toggle pair with its two bins in
  canonical order.
\<close>

theorem scope_tree_roundtrip:
  assumes "list_all tree_ok (scopes ST_ALL ss)"
  shows "\<exists>bs w. write_tree ss new_stw = Inr (bs, w) \<and>
    read_tree (w_st w) (w_files w) bs (w_counts w) = Inr (map (canon (sc_type ucis_root)) (scopes ST_ALL ss))"
  by (rule scope_tree_reads[OF assms])

lemma scope_tree_roundtrip_witness:
  "\<exists>bs w. write_tree [example_tree] new_stw = Inr (bs, w) \<and>
    read_tree (w_st w) (w_files w) bs (w_counts w) =
      Inr (map (canon (sc_type ucis_root)) (scopes ST_ALL [example_tree]))"
  by (rule scope_tree_roundtrip) (rule example_ok)

section \<open>The canonical form is stable\<close>

lemma canon_attrs_idem [simp]: "canon_attrs pty (canon_attrs pty a) = canon_attrs pty a"
  by (cases "m_srcinfo a") (auto simp: canon_attrs_def canon_src_def has_src_def no_srcinfo_def)

lemma sc_type_canon: "sc_type (canon pty s) = sc_type s"
proof (cases s)
  case (Scope a "is" cs)
  show ?thesis
  proof (cases "is_toggle_pair s")
    case True
    then have "sc_type s = ST_BRANCH" by (auto simp: is_toggle_pair_def split: if_splits)
    with True Scope show ?thesis by (simp add: canon_toggle_def new_scope_def) (simp add: sc_type_def)
  next
    case False
    with Scope show ?thesis by (simp add: sc_type_def canon_attrs_def)
  qed
qed

lemma scopes_map_canon: "scopes msk (map (canon pty) ss) = map (canon pty) (scopes msk ss)"
  by (simp add: scopes_def filter_map comp_def sc_type_canon)

lemma coverItems_canon:
  "coverItems CT_ALL (Scope a' (canon_items (coverItems CT_ALL (Scope a is cs))) cs') = canon_items (coverItems CT_ALL (Scope a is cs))"
proof -
  let ?cis = "coverItems CT_ALL (Scope a is cs)"
  have "cd_type (ci_data ci) AND CT_ALL \<noteq> 0" if "ci \<in> set (canon_items ?cis)" for ci
  proof -
    from that have ne: "?cis \<noteq> []" by (auto simp: canon_items_eq)
    with that have "cd_type (ci_data ci) = cd_type (ci_data (hd ?cis))"
      by (auto simp: canon_items_eq canon_item_def CoverData_def)
    moreover have "hd ?cis \<in> set ?cis" using ne by simp
    ultimately show ?thesis by (auto simp: coverItems_def)
  qed
  then show ?thesis by (simp add: coverItems_def[of _ "Scope a' _ _"] filter_id_conv)
qed

lemma canon_items_names [simp]:
  "map ci_name (canon_items cis) = map ci_name cis" "length (canon_items cis) = length cis"
  by (cases cis; simp add: canon_items_def canon_item_def comp_def)+

lemma canon_items_idem [simp]: "canon_items (canon_items cis) = canon_items cis"
  by (cases cis) (simp_all add: canon_items_def canon_item_def CoverData_def comp_def)

lemma toggle_pair_names:
  "is_toggle_pair s \<longleftrightarrow> sc_type s = ST_BRANCH \<and> length (coverItems CT_ALL s) = 2 \<and> scopes ST_ALL (children s) = [] \<and>
     set (map ci_name (coverItems CT_ALL s)) = {TOGGLE_BIN_0_TO_1, TOGGLE_BIN_1_TO_0}"
  by (auto simp: is_toggle_pair_def)

lemma regular_canon_not_toggle:
  assumes "\<not> is_toggle_pair (Scope a is cs)"
  shows "\<not> is_toggle_pair (Scope (canon_attrs pty a) (canon_items (coverItems CT_ALL (Scope a is cs))) (map (canon (m_type a)) (scopes ST_ALL cs)))"
  using assms unfolding toggle_pair_names coverItems_canon canon_items_names scope.sel sc_type_canon_attrs
  by (simp add: scopes_map_canon sc_type_def) (simp add: scopes_def)

lemma toggle_bins_distinct: "TOGGLE_BIN_0_TO_1 \<noteq> TOGGLE_BIN_1_TO_0"
  by (simp add: TOGGLE_BIN_0_TO_1_def TOGGLE_BIN_1_TO_0_def lit_def of_char_def)

lemma canon_toggle_items:
  assumes "toggle_counts s = [x, y]"
  shows "items (canon_toggle s) = [\<lparr>ci_name = TOGGLE_BIN_0_TO_1, ci_data = toggle_item TOGGLE_BIN_0_TO_1 x, ci_src = None\<rparr>,
      \<lparr>ci_name = TOGGLE_BIN_1_TO_0, ci_data = toggle_item TOGGLE_BIN_1_TO_0 y, ci_src = None\<rparr>]"
    and "coverItems CT_ALL (canon_toggle s) = items (canon_toggle s)"
  using assms by (simp_all add: canon_toggle_def coverItems_def toggle_item_def CoverData_def type_codes)

lemma canon_toggle_pair: "is_toggle_pair (canon_toggle s)"
proof -
  obtain x y where t: "toggle_counts s = [x, y]" using toggle_counts_pair by blast
  show ?thesis
    unfolding toggle_pair_names canon_toggle_items(2)[OF t] canon_toggle_items(1)[OF t]
    by (simp add: canon_toggle_def new_scope_def sc_type_def scopes_def)
qed

lemma canon_toggle_idem: "canon_toggle (canon_toggle s) = canon_toggle s"
proof -
  obtain x y where t: "toggle_counts s = [x, y]" using toggle_counts_pair by blast
  have "toggle_counts (canon_toggle s) = [x, y]"
    using toggle_bins_distinct
    by (simp add: toggle_counts_def canon_toggle_items(2)[OF t] canon_toggle_items(1)[OF t] toggle_item_def)
  then show ?thesis
    by (simp add: canon_toggle_def[of "canon_toggle s"] t) (simp add: canon_toggle_def t sc_name_def new_scope_def)
qed

lemma canon_toggle_case: "is_toggle_pair s \<Longrightarrow> canon pty s = canon_toggle s"
  by (cases s) simp

lemma canon_idem: "canon pty (canon pty s) = canon pty s"
proof (induction pty s rule: canon.induct)
  case (1 pty a "is" cs)
  show ?case
  proof (cases "is_toggle_pair (Scope a is cs)")
    case True
    then show ?thesis
      using canon_toggle_case[OF canon_toggle_pair, of pty "Scope a is cs"] by (simp add: canon_toggle_idem)
  next
    case False
    have "map (canon (m_type a)) (scopes ST_ALL (map (canon (m_type a)) (scopes ST_ALL cs))) = map (canon (m_type a)) (scopes ST_ALL cs)"
      using 1[OF False] by (simp add: scopes_map_canon) (simp add: scopes_def)
    moreover have "m_type (canon_attrs pty a) = m_type a" by (simp add: canon_attrs_def)
    ultimately show ?thesis
      using False regular_canon_not_toggle[OF False, of pty] coverItems_canon[of _ a "is" cs] by simp
  qed
qed

lemma scope_bin_names_canon: "scope_bin_names (canon pty s) = scope_bin_names s"
proof (cases s)
  case (Scope a "is" cs)
  show ?thesis
  proof (cases "is_toggle_pair s")
    case True
    then show ?thesis by (simp add: canon_toggle_case scope_bin_names_def canon_toggle_pair)
  next
    case False
    with Scope regular_canon_not_toggle[of a "is" cs pty] coverItems_canon[of _ a "is" cs] show ?thesis
      by (simp add: scope_bin_names_def)
  qed
qed

lemma dfs_visit_canon: "map scope_bin_names (dfs_visit (canon pty s)) = map scope_bin_names (dfs_visit s)"
proof (induction pty s rule: canon.induct)
  case (1 pty a "is" cs)
  show ?case
  proof (cases "is_toggle_pair (Scope a is cs)")
    case True
    obtain a' is' cs' where c: "canon_toggle (Scope a is cs) = Scope a' is' cs'" by (cases "canon_toggle (Scope a is cs)")
    with canon_toggle_pair[of "Scope a is cs"] have "is_toggle_pair (Scope a' is' cs')" by simp
    moreover have "scope_bin_names (canon pty (Scope a is cs)) = scope_bin_names (Scope a is cs)"
      by (rule scope_bin_names_canon)
    ultimately show ?thesis using True c by simp
  next
    case False
    have "scope_bin_names (canon pty (Scope a is cs)) = scope_bin_names (Scope a is cs)"
      by (rule scope_bin_names_canon)
    moreover have "scopes ST_ALL (scopes ST_ALL cs) = scopes ST_ALL cs" by (simp add: scopes_def)
    ultimately show ?thesis
      using False regular_canon_not_toggle[OF False, of pty] 1[OF False]
      by (simp add: scopes_map_canon map_concat comp_def cong: map_cong)
  qed
qed

lemma dfs_forest_canon:
  "map scope_bin_names (dfs_forest (map (canon pty) (scopes ST_ALL ss))) = map scope_bin_names (dfs_forest ss)"
proof -
  have "scopes ST_ALL (scopes ST_ALL ss) = scopes ST_ALL ss" by (simp add: scopes_def)
  then show ?thesis by (simp add: dfs_forest_def scopes_map_canon map_concat comp_def dfs_visit_canon)
qed

lemma flat_bins_names: "map scope_bin_names ss = map scope_bin_names ss' \<Longrightarrow> flat_bins_from b k ss = flat_bins_from b k ss'"
proof (induction ss arbitrary: b k ss')
  case Nil
  then show ?case by simp
next
  case (Cons s ss)
  then obtain t ts where "ss' = t # ts" "scope_bin_names s = scope_bin_names t" "map scope_bin_names ss = map scope_bin_names ts"
    by (cases ss') auto
  with Cons.IH[of ts] show ?case by simp
qed

lemma iter_flat_bins_new: "iter_flat_bins (new_ucis ss) = flat_bins_from 0 0 (dfs_forest ss)"
  by (simp add: iter_flat_bins_def dfs_scope_list_def new_ucis_def)

lemma attrs_ok_canon: "attrs_ok a \<Longrightarrow> attrs_ok (canon_attrs pty a)"
  by (simp add: attrs_ok_def canon_attrs_def)

lemma attrs_ok_branch: "attrs_ok (attrs (new_scope name None 1 SOURCE_NONE ST_BRANCH 0))"
  unfolding attrs_ok_def by (simp add: new_scope_def type_codes SOURCE_NONE_def) (rule exI[of _ 1], simp)

lemma tree_ok_canon: "tree_ok s \<Longrightarrow> tree_ok (canon pty s)"
proof (induction pty s rule: canon.induct)
  case (1 pty a "is" cs)
  show ?case
  proof (cases "is_toggle_pair (Scope a is cs)")
    case True
    obtain x y where t: "toggle_counts (Scope a is cs) = [x, y]" using toggle_counts_pair by blast
    have "coverItems msk (Scope a' (items c) []) = coverItems msk c" for a' c msk by (simp add: coverItems_def)
    from this[of _ _ "canon_toggle (Scope a is cs)"] canon_toggle_items[OF t] attrs_ok_branch True show ?thesis
      by (simp add: canon_toggle_def first_ok_def toggle_item_def CoverData_def cover_type_defaults_def
          COVER_TYPE_DEFAULTS_def type_codes coverItems_def t)
  next
    case False
    have "list_all tree_ok (map (canon (m_type a)) (scopes ST_ALL cs))"
      using 1 False tree_ok_scopes[of cs ST_ALL] by (simp add: list_all_iff)
    moreover have "first_ok (coverItems CT_ALL (Scope (canon_attrs pty a) (canon_items (coverItems CT_ALL (Scope a is cs))) []))"
      using 1(2) unfolding coverItems_canon
      by (cases "coverItems CT_ALL (Scope a is cs)")
        (simp_all add: coverItems_children[of _ a "is" cs] first_ok_def canon_items_def canon_item_def CoverData_def)
    ultimately show ?thesis using False 1(2) attrs_ok_canon by simp
  qed
qed

definition scope_counts :: "scope \<Rightarrow> int list" where
  "scope_counts s = (if is_toggle_pair s then toggle_counts s else map (cd_data \<circ> ci_data) (coverItems CT_ALL s))"

lemma write_scope_counts:
  "write_scope s w = Inr (bs, w') \<Longrightarrow> stw_inv w \<Longrightarrow> tree_ok s \<Longrightarrow>
   stw_inv w' \<and> w_counts w' = w_counts w @ concat (map scope_counts (dfs_visit s))"
  "write_scopes ss w = Inr (bs, w') \<Longrightarrow> stw_inv w \<Longrightarrow> list_all tree_ok ss \<Longrightarrow>
   stw_inv w' \<and> w_counts w' = w_counts w @ concat (map scope_counts (concat (map dfs_visit ss)))"
proof (induction s w and ss w arbitrary: bs w' and bs w' rule: write_scope_write_scopes.induct)
  case (1 a "is" cs w)
  show ?case
  proof (cases "is_toggle_pair (Scope a is cs)")
    case True
    with 1(2) have "write_toggle_pair (Scope a is cs) w = Inr (bs, w')" by simp
    from conjunct1[OF read_toggle_at[OF this 1(3)]] True show ?thesis by (simp add: step_def scope_counts_def)
  next
    case False
    with 1(2) obtain h u b where h: "write_regular_head (Scope a is cs) w = Inr (h, u)"
        and b: "write_scopes (scopes ST_ALL cs) u = Inr (b, w')"
      by (auto simp: bindE_eq_Inr)
    have ok: "attrs_ok a" "list_all tree_ok (scopes ST_ALL cs)" using 1(4) tree_ok_scopes by simp_all
    note st = conjunct1[OF read_head[OF h 1(3) ok(1)]]
    then have u: "stw_inv u" by (simp add: step_def)
    from 1(1)[OF False h refl b u ok(2)] st False show ?thesis by (simp add: step_def scope_counts_def)
  qed
next
  case (3 s ss w)
  from 3(3) obtain b u c where b: "write_scope s w = Inr (b, u)" and c: "write_scopes ss u = Inr (c, w')"
    by (auto simp: bindE_eq_Inr)
  from 3(1)[OF b 3(4)] 3(2)[OF b refl c] 3(5) show ?case by auto
qed simp

text \<open>
  Storing and loading a database does not move any bin: the rebuilt hierarchy has
  the same flat bin indices with the same scope positions, local indices and names as the original,
  the count array that was written lists the hit counts in exactly that flat order, and storing and
  loading the rebuilt hierarchy once more gives it back unchanged.
\<close>

theorem scope_tree_stable:
  assumes "list_all tree_ok (scopes ST_ALL ss)"
  shows "\<exists>bs w ss'. write_tree ss new_stw = Inr (bs, w) \<and> read_tree (w_st w) (w_files w) bs (w_counts w) = Inr ss' \<and>
    iter_flat_bins (new_ucis ss') = iter_flat_bins (new_ucis ss) \<and>
    w_counts w = concat (map scope_counts (dfs_forest ss)) \<and>
    (\<exists>bs' w'. write_tree ss' new_stw = Inr (bs', w') \<and> read_tree (w_st w') (w_files w') bs' (w_counts w') = Inr ss')"
proof -
  let ?c = "canon (sc_type ucis_root)" and ?sel = "scopes ST_ALL ss"
  obtain bs w where w: "write_tree ss new_stw = Inr (bs, w)" "read_tree (w_st w) (w_files w) bs (w_counts w) = Inr (map ?c ?sel)"
    using scope_tree_reads[OF assms] by blast
  have sel: "scopes ST_ALL (map ?c ?sel) = map ?c ?sel"
    by (simp add: scopes_map_canon) (simp add: scopes_def)
  have "list_all tree_ok (scopes ST_ALL (map ?c ?sel))"
    unfolding sel using assms by (simp add: list_all_iff tree_ok_canon)
  from scope_tree_reads[OF this] have again: "\<exists>bs' w'. write_tree (map ?c ?sel) new_stw = Inr (bs', w') \<and>
      read_tree (w_st w') (w_files w') bs' (w_counts w') = Inr (map ?c ?sel)"
    unfolding sel by (simp add: comp_def canon_idem)
  have "iter_flat_bins (new_ucis (map ?c ?sel)) = iter_flat_bins (new_ucis ss)"
    unfolding iter_flat_bins_new by (rule flat_bins_names) (rule dfs_forest_canon)
  moreover have "w_counts w = concat (map scope_counts (dfs_forest ss))"
    using write_scope_counts(2)[of ?sel new_stw bs w] w(1) assms stw_inv_new
    by (simp add: write_tree_def dfs_forest_def) (simp add: new_stw_def)
  ultimately show ?thesis using w again by blast
qed

lemma scope_tree_stable_witness:
  "\<exists>bs w ss'. write_tree [example_tree] new_stw = Inr (bs, w) \<and>
    read_tree (w_st w) (w_files w) bs (w_counts w) = Inr ss' \<and>
    iter_flat_bins (new_ucis ss') = iter_flat_bins (new_ucis [example_tree]) \<and>
    w_counts w = concat (map scope_counts (dfs_forest [example_tree])) \<and>
    (\<exists>bs' w'. write_tree ss' new_stw = Inr (bs', w') \<and> read_tree (w_st w') (w_files w') bs' (w_counts w') = Inr ss')"
  by (rule scope_tree_stable) (rule example_ok)

end
