(* ===== verification/ItemSources.thy ===== *)
theory ItemSources
  imports ItemTables ScopeTree
begin

text \<open>
  \<open>coveritem_sources.bin\<close> (\<open>ncdb/coveritem_sources.py\<close>): the source location of every item that has
  a source file, as gap-encoded rows. File ids come from the scope-tree writer's \<open>_get_file_id\<close>, so
  both members share one file table; the slots of folded toggle pairs are never recorded.
\<close>

section \<open>Rows\<close>

type_synonym row = "nat \<times> int list"

fun write_rows :: "int \<Rightarrow> row list \<Rightarrow> bytes res" where
  "write_rows prev [] = Inr []"
| "write_rows prev ((idx, vs) # rows) =
     bindE (encode_varint (int idx - prev)) (\<lambda>a.
     bindE (encode_varints vs) (\<lambda>b.
     bindE (write_rows (int idx) rows) (\<lambda>r. Inr (a @ b @ r))))"

fun read_rows :: "nat \<Rightarrow> nat \<Rightarrow> bytes \<Rightarrow> nat \<Rightarrow> nat \<Rightarrow> (row list \<times> nat) res" where
  "read_rows m 0 data off idx = Inr ([], off)"
| "read_rows m (Suc n) data off idx =
     bindE (decode_varint data off) (\<lambda>(delta, off).
     bindE (decode_varints data m off) (\<lambda>(vs, off).
     bindE (read_rows m n data off (idx + delta)) (\<lambda>(rows, off). Inr ((idx + delta, map int vs) # rows, off))))"

lemma read_write_rows:
  "write_rows (int p) rows = Inr bs \<Longrightarrow> \<forall>r\<in>set rows. length (snd r) = m \<Longrightarrow> at data off bs \<Longrightarrow>
   read_rows m (length rows) data off p = Inr (rows, off + length bs)"
proof (induction rows arbitrary: p off bs)
  case Nil
  then show ?case by simp
next
  case (Cons r rows)
  obtain i vs where r: "r = (i, vs)" by (cases r)
  with Cons.prems(1) obtain b c where b: "p \<le> i" "encode_varints vs = Inr b" "write_rows (int i) rows = Inr c"
      "bs = varint_loop (i - p) @ b @ c"
    by (auto simp: bindE_eq_Inr encode_varint_eq_Inr nat_diff_distrib)
  have v: "\<forall>v\<in>set vs. 0 \<le> v" "b = concat (map varint_loop (map nat vs))"
    using encode_varints_eq_Inr[OF b(2)] by (simp_all add: comp_def)
  have mi: "map int (map nat vs) = vs" using v(1) by (simp add: map_idI)
  from Cons.prems(3) b(4) have a: "at data off (varint_loop (i - p))" "at data (off + length (varint_loop (i - p))) b"
    "at data (off + length (varint_loop (i - p)) + length b) c"
    by (simp_all add: at_append)
  have m: "m = length (map nat vs)" using Cons.prems(2) r by simp
  from decode_varints_at[OF a(2)[unfolded v(2)]] have "decode_varints data m (off + length (varint_loop (i - p))) =
      Inr (map nat vs, off + length (varint_loop (i - p)) + length b)"
    unfolding m v(2) .
  with decode_varint_at[OF a(1)] Cons.IH[OF b(3) _ a(3)] Cons.prems(2) b(1,4) mi r show ?case
    by (simp add: add.assoc)
qed

lemma write_rows_ok:
  "sorted (p # map fst rows) \<Longrightarrow> \<forall>r\<in>set rows. \<forall>v\<in>set (snd r). 0 \<le> v \<Longrightarrow> \<exists>bs. write_rows (int p) rows = Inr bs"
proof (induction rows arbitrary: p)
  case Nil
  then show ?case by simp
next
  case (Cons r rows)
  obtain i vs where r: "r = (i, vs)" by (cases r)
  with Cons obtain c where "write_rows (int i) rows = Inr c" by fastforce
  moreover have "\<exists>b. encode_varints vs = Inr b"
    using Cons.prems(2) r by (simp add: encode_varints_def flip: is_ok_iff) (simp add: concatE_ok encode_varint_ok)
  ultimately show ?case using Cons.prems(1) r by (auto simp: encode_varint_def)
qed

section \<open>Writer and reader\<close>

text \<open>The file, line and token of an item the writer records.\<close>

definition item_file :: "coveritem option \<Rightarrow> (pystr \<times> int \<times> int) option" where
  "item_file slot =
     (case slot of None \<Rightarrow> None
      | Some ci \<Rightarrow> (case ci_src ci of None \<Rightarrow> None
                  | Some si \<Rightarrow> (case si_file si of None \<Rightarrow> None | Some f \<Rightarrow> Some (f, si_line si, si_token si))))"

text \<open>The entries, collected in one pass that also fills the file table.\<close>

fun source_entries :: "nat \<Rightarrow> coveritem option list \<Rightarrow> stw \<Rightarrow> row list \<times> stw" where
  "source_entries idx [] w = ([], w)"
| "source_entries idx (slot # slots) w =
     (case item_file slot of
        None \<Rightarrow> source_entries (Suc idx) slots w
      | Some (f, line, token) \<Rightarrow>
          let (fid, w) = get_file_id f w; (es, w) = source_entries (Suc idx) slots w
          in ((idx, [int fid, max 0 line, max 0 token]) # es, w))"

definition sources_serialize :: "ucis \<Rightarrow> stw \<Rightarrow> (bytes \<times> stw) res" where
  "sources_serialize db w =
     (let (entries, w) = source_entries 0 (item_slots db) w in
      if entries = [] then Inr ([], w)
      else bindE (encode_varint 1) (\<lambda>v.
           bindE (encode_varint (int (length entries))) (\<lambda>n.
           bindE (write_rows 0 entries) (\<lambda>body. Inr (v @ n @ body, w)))))"

definition set_source :: "pystr list \<Rightarrow> int list \<Rightarrow> coveritem \<Rightarrow> coveritem" where
  "set_source file_handles ent ci =
     (let fid = nat (ent ! 0) in
      if fid < length file_handles
      then ci\<lparr>ci_src := Some \<lparr>si_file = Some (file_handles ! fid), si_line = ent ! 1, si_token = ent ! 2\<rparr>\<rparr>
      else ci)"

definition sources_apply :: "ucis \<Rightarrow> bytes \<Rightarrow> pystr list \<Rightarrow> coveritem option list res" where
  "sources_apply db data file_handles =
     (if data = [] then Inr (item_slots db)
      else bindE (decode_varint data 0) (\<lambda>(version, off).
           if version \<noteq> 1 then Inr (item_slots db)
           else bindE (decode_varint data off) (\<lambda>(n, off).
                bindE (read_rows 3 n data off 0) (\<lambda>(rows, _).
                  let want = foldl (\<lambda>d (idx, ent). dict_set idx ent d) [] rows
                  in Inr (map (\<lambda>(idx, slot). map_option (\<lambda>ci. case dict_get want idx of None \<Rightarrow> ci
                                 | Some ent \<Rightarrow> set_source file_handles ent ci) slot)
                           (enumerate 0 (item_slots db)))))))"

section \<open>Round trip\<close>

lemma file_step:
  assumes "file_inv w" "get_file_id f w = (i, w')"
  shows "file_inv w' \<and> prefix (w_files w) (w_files w') \<and> i < length (w_files w') \<and> w_files w' ! i = f"
  using ft.inv_add[OF assms(1), of f] ft.idx_add[OF assms(1), of f] ft.add_prefix[OF assms(1), of f] assms(2)
  by (auto simp: prefix_def)

definition entry_ok :: "row list \<Rightarrow> pystr list \<Rightarrow> nat \<Rightarrow> coveritem option \<Rightarrow> bool" where
  "entry_ok es files k slot =
     (case item_file slot of
        None \<Rightarrow> dict_get es k = None
      | Some (f, l, t) \<Rightarrow> \<exists>fid < length files. files ! fid = f \<and> dict_get es k = Some [int fid, max 0 l, max 0 t])"

lemma entry_ok_Cons: "k \<noteq> n \<Longrightarrow> entry_ok ((n, v) # es) files k slot = entry_ok es files k slot"
  by (cases "item_file slot") (auto simp: entry_ok_def)

definition rows_ok :: "nat \<Rightarrow> row list \<Rightarrow> bool" where
  "rows_ok n es = (sorted_wrt (<) (map fst es) \<and> (\<forall>e\<in>set es. n \<le> fst e \<and> length (snd e) = 3 \<and> (\<forall>v\<in>set (snd e). 0 \<le> v)))"

lemma rows_ok_less: "rows_ok (Suc n) es \<Longrightarrow> rows_ok n es \<and> dict_get es n = None"
  by (force simp: rows_ok_def map_of_eq_None_iff)

lemma rows_ok_Cons:
  "rows_ok (Suc n) es \<Longrightarrow> length v = 3 \<Longrightarrow> \<forall>x\<in>set v. 0 \<le> x \<Longrightarrow> rows_ok n ((n, v) # es)"
  by (auto simp: rows_ok_def Suc_le_eq)

lemma source_entries_spec:
  "source_entries n slots w = (es, w') \<Longrightarrow> file_inv w \<Longrightarrow>
   file_inv w' \<and> prefix (w_files w) (w_files w') \<and> rows_ok n es \<and>
   (\<forall>i<length slots. entry_ok es (w_files w') (n + i) (slots ! i))"
proof (induction slots arbitrary: n w es)
  case Nil
  then show ?case by (simp add: rows_ok_def)
next
  case (Cons slot slots)
  show ?case
  proof (cases "item_file slot")
    case None
    with Cons.prems have e: "source_entries (Suc n) slots w = (es, w')" by simp
    note IH = Cons.IH[OF e Cons.prems(2)]
    have "entry_ok es (w_files w') (n + i) ((slot # slots) ! i)" if "i < Suc (length slots)" for i
      using that IH rows_ok_less[of n es] None by (cases i) (auto simp: entry_ok_def[of _ _ _ slot])
    with IH rows_ok_less[of n es] show ?thesis by simp
  next
    case (Some x)
    obtain f l t where x: "x = (f, l, t)" by (cases x)
    obtain fid u where g: "get_file_id f w = (fid, u)" by force
    with Cons.prems(1) Some x obtain es' where e: "source_entries (Suc n) slots u = (es', w')"
        "es = (n, [int fid, max 0 l, max 0 t]) # es'"
      by (auto split: prod.splits)
    note fs = file_step[OF Cons.prems(2) g]
    note IH = Cons.IH[OF e(1) conjunct1[OF fs]]
    from fs IH have fid: "fid < length (w_files w')" "w_files w' ! fid = f"
      by (auto simp: prefix_def nth_append)
    have "entry_ok es (w_files w') (n + i) ((slot # slots) ! i)" if "i < Suc (length slots)" for i
      using that IH fid Some by (cases i) (auto simp: entry_ok_Cons e(2) x entry_ok_def[of _ _ _ slot])
    moreover have "rows_ok n es" unfolding e(2) using IH by (intro rows_ok_Cons) auto
    moreover have "prefix (w_files w) (w_files w')" using fs IH prefix_order.trans by blast
    ultimately show ?thesis using IH by simp
  qed
qed

text \<open>What the reader leaves on an item: the location it was written with, if it had a file.\<close>

definition located :: "coveritem option \<Rightarrow> coveritem \<Rightarrow> coveritem" where
  "located slot ci =
     (case item_file slot of None \<Rightarrow> ci
      | Some (f, l, t) \<Rightarrow> ci\<lparr>ci_src := Some \<lparr>si_file = Some f, si_line = max 0 l, si_token = max 0 t\<rparr>\<rparr>)"

lemma rows_distinct: "rows_ok n es \<Longrightarrow> distinct (map fst es)"
  by (auto simp: rows_ok_def strict_sorted_iff)

lemma dict_fill_rows: "distinct (map fst rows) \<Longrightarrow> foldl (\<lambda>d (idx, ent). dict_set idx ent d) [] rows = (rows :: row list)"
proof -
  have "distinct (map fst (d @ rows)) \<Longrightarrow> foldl (\<lambda>d (idx, ent). dict_set idx ent d) d rows = d @ rows" for d rows :: "row list"
    by (induction rows arbitrary: d) (auto simp: update_notin)
  from this[of "[]" rows] show "distinct (map fst rows) \<Longrightarrow> ?thesis" by simp
qed

lemma apply_entry:
  "entry_ok es files k slot \<Longrightarrow>
   (case dict_get es k of None \<Rightarrow> ci | Some ent \<Rightarrow> set_source files ent ci) = located slot ci"
  by (auto simp: entry_ok_def located_def set_source_def split: option.splits)

text \<open>
  The source locations of items survive the archive: with the file table the writers
  filled, reading the member gives every item of a database of the same shape the file, line and
  token (not below 0) its counterpart was written with, and leaves items without a file alone.
\<close>

theorem coveritem_sources_roundtrip:
  assumes "file_inv w" "length (item_slots db') = length (item_slots db)"
  shows "\<exists>bs w'. sources_serialize db w = Inr (bs, w') \<and> prefix (w_files w) (w_files w') \<and>
    sources_apply db' bs (w_files w') =
      Inr (map2 (\<lambda>slot slot'. map_option (located slot) slot') (item_slots db) (item_slots db'))"
proof -
  obtain es w' where e: "source_entries 0 (item_slots db) w = (es, w')" by force
  note sp = source_entries_spec[OF e assms(1)]
  then have ok: "rows_ok 0 es" and ent: "\<And>i. i < length (item_slots db) \<Longrightarrow> entry_ok es (w_files w') i (item_slots db ! i)"
    by auto
  have fill: "foldl (\<lambda>d (idx, ent). dict_set idx ent d) [] es = es"
    by (rule dict_fill_rows[OF rows_distinct[OF ok]])
  have ap: "map (\<lambda>(idx, slot). map_option (\<lambda>ci. case dict_get es idx of None \<Rightarrow> ci
        | Some ent \<Rightarrow> set_source (w_files w') ent ci) slot) (enumerate 0 (item_slots db')) =
      map2 (\<lambda>slot slot'. map_option (located slot) slot') (item_slots db) (item_slots db')"
  proof -
    have "(\<lambda>ci. case dict_get es i of None \<Rightarrow> ci | Some ent \<Rightarrow> set_source (w_files w') ent ci) = located (item_slots db ! i)"
      if "i < length (item_slots db)" for i
      by (rule ext) (rule apply_entry[OF ent[OF that]])
    then show ?thesis using assms(2) by (auto intro!: nth_equalityI simp: nth_enumerate_eq)
  qed
  show ?thesis
  proof (cases "es = []")
    case True
    have "item_slots db' = map2 (\<lambda>slot slot'. map_option (located slot) slot') (item_slots db) (item_slots db')"
      using ap by (simp add: True option.map_ident case_prod_unfold)
    with True e sp show ?thesis by (simp add: sources_serialize_def sources_apply_def)
  next
    case False
    have srt: "sorted (0 # map fst es)" using ok by (simp add: rows_ok_def strict_sorted_iff)
    from ok have "\<forall>r\<in>set es. \<forall>v\<in>set (snd r). 0 \<le> v" "\<forall>r\<in>set es. length (snd r) = 3" by (auto simp: rows_ok_def)
    with write_rows_ok[OF srt] obtain body where body: "write_rows (int 0) es = Inr body" by auto
    let ?bs = "varint_loop 1 @ varint_loop (length es) @ body"
    have "at ?bs 0 ?bs" by simp
    then have a: "at ?bs 0 (varint_loop 1)" "at ?bs (length (varint_loop 1)) (varint_loop (length es))"
      "at ?bs (length (varint_loop 1) + length (varint_loop (length es))) body"
      unfolding at_append by simp_all
    have "sources_serialize db w = Inr (?bs, w')"
      using False e body by (simp add: sources_serialize_def encode_varint_def)
    moreover have "sources_apply db' ?bs (w_files w') = Inr (map2 (\<lambda>slot slot'. map_option (located slot) slot') (item_slots db) (item_slots db'))"
      using decode_varint_at[OF a(1)] decode_varint_at[OF a(2)] read_write_rows[OF body \<open>\<forall>r\<in>set es. length (snd r) = 3\<close> a(3)]
      by (simp add: sources_apply_def fill ap)
    ultimately show ?thesis using sp by blast
  qed
qed

definition located_item :: coveritem where
  "located_item = (plain_item 32 0)\<lparr>ci_src := Some \<lparr>si_file = Some (lit ''a.sv''), si_line = 7, si_token = -1\<rparr>\<rparr>"

lemma coveritem_sources_roundtrip_witness:
  "\<exists>bs w'. sources_serialize (new_ucis [example_point [plain_item 32 0, located_item]]) new_stw = Inr (bs, w') \<and>
    prefix (w_files new_stw) (w_files w') \<and>
    sources_apply (new_ucis [example_point [plain_item 32 0, plain_item 32 0]]) bs (w_files w') =
      Inr (map2 (\<lambda>slot slot'. map_option (located slot) slot')
        (item_slots (new_ucis [example_point [plain_item 32 0, located_item]]))
        (item_slots (new_ucis [example_point [plain_item 32 0, plain_item 32 0]])))"
  by (rule coveritem_sources_roundtrip)
    (simp_all add: file_inv_def new_stw_def item_slots_def scope_slots_def located_item_def plain_item_def CoverData_def CT_ALL_def)

end
