(* ===== verification/Formal.thy ===== *)
theory Formal
  imports Prelude "HOL-Library.Multiset" Utf8
begin

text \<open>
  Formal verification results: the status enumeration and its merge rules
  (\<open>api/enums/formal_status.py\<close>), the per-bin store of \<open>mem/mem_ucis.py\<close>, the sparse member
  \<open>formal.bin\<close> (\<open>ncdb/formal.py\<close>) and its merge (\<open>merge_formal\<close> in \<open>ncdb/member_merge.py\<close>).
  The member is a JSON document; its entries are modelled as the objects \<open>json.loads\<close> returns,
  with a key that is absent as \<open>None\<close>.
\<close>

section \<open>Statuses\<close>

datatype FormalStatusT =
  FS_NONE | FS_FAILURE | FS_PROOF | FS_VACUOUS | FS_INCONCLUSIVE | FS_ASSUMPTION | FS_CONFLICT

fun fs_int :: "FormalStatusT \<Rightarrow> int" where
  "fs_int FS_NONE = 0"
| "fs_int FS_FAILURE = 1"
| "fs_int FS_PROOF = 2"
| "fs_int FS_VACUOUS = 3"
| "fs_int FS_INCONCLUSIVE = 4"
| "fs_int FS_ASSUMPTION = 5"
| "fs_int FS_CONFLICT = 6"

text \<open>\<open>FormalStatusT(v)\<close>; any other value is a \<open>ValueError\<close>.\<close>

definition fs_of_int :: "int \<Rightarrow> FormalStatusT res" where
  "fs_of_int v =
     (if v = 0 then Inr FS_NONE else if v = 1 then Inr FS_FAILURE else if v = 2 then Inr FS_PROOF
      else if v = 3 then Inr FS_VACUOUS else if v = 4 then Inr FS_INCONCLUSIVE
      else if v = 5 then Inr FS_ASSUMPTION else if v = 6 then Inr FS_CONFLICT else Inl ValueError)"

fun informativeness :: "FormalStatusT \<Rightarrow> int" where
  "informativeness FS_NONE = 0"
| "informativeness FS_ASSUMPTION = 1"
| "informativeness FS_VACUOUS = 2"
| "informativeness FS_INCONCLUSIVE = 3"
| "informativeness FS_PROOF = 4"
| "informativeness FS_FAILURE = 5"
| "informativeness FS_CONFLICT = 6"

definition known_statuses :: "int option list \<Rightarrow> FormalStatusT list" where
  "known_statuses statuses =
     concat (map (\<lambda>status. case status of None \<Rightarrow> []
        | Some v \<Rightarrow> (case fs_of_int v of Inl _ \<Rightarrow> [] | Inr value \<Rightarrow> if value \<noteq> FS_NONE then [value] else [])) statuses)"

text \<open>\<open>max(known, key=...)\<close> keeps the first of several maximal elements.\<close>

definition most_informative :: "FormalStatusT \<Rightarrow> FormalStatusT list \<Rightarrow> FormalStatusT" where
  "most_informative s ss = foldl (\<lambda>best t. if informativeness t > informativeness best then t else best) s ss"

definition merge_formal_statuses :: "int option list \<Rightarrow> int" where
  "merge_formal_statuses statuses =
     (case known_statuses statuses of
        [] \<Rightarrow> fs_int FS_NONE
      | s # ss \<Rightarrow>
          if card (set (s # ss) \<inter> {FS_PROOF, FS_FAILURE}) > 1 then fs_int FS_CONFLICT
          else fs_int (most_informative s ss))"

definition formal_status_rank :: "int \<Rightarrow> int" where
  "formal_status_rank status = (case fs_of_int status of Inl _ \<Rightarrow> 0 | Inr s \<Rightarrow> informativeness s)"

lemma fs_of_int_int [simp]: "fs_of_int (fs_int s) = Inr s"
  by (cases s) (simp_all add: fs_of_int_def)

section \<open>The merge as a semilattice\<close>

text \<open>
  The order behind the rules: by informativeness, except that the two definitive claims \<open>PROOF\<close>
  and \<open>FAILURE\<close> are incomparable, so that their join is \<open>CONFLICT\<close>.
\<close>

lemma informativeness_inj: "informativeness s = informativeness t \<Longrightarrow> s = t"
  by (cases s; cases t) simp_all

instantiation FormalStatusT :: bounded_semilattice_sup_bot
begin

definition less_eq_FormalStatusT :: "FormalStatusT \<Rightarrow> FormalStatusT \<Rightarrow> bool" where
  "less_eq_FormalStatusT s t \<longleftrightarrow> informativeness s \<le> informativeness t \<and> \<not> (s = FS_PROOF \<and> t = FS_FAILURE)"

definition less_FormalStatusT :: "FormalStatusT \<Rightarrow> FormalStatusT \<Rightarrow> bool" where
  "less_FormalStatusT s t \<longleftrightarrow> s \<le> t \<and> \<not> t \<le> (s :: FormalStatusT)"

definition sup_FormalStatusT :: "FormalStatusT \<Rightarrow> FormalStatusT \<Rightarrow> FormalStatusT" where
  "sup_FormalStatusT s t =
     (if {s, t} = {FS_PROOF, FS_FAILURE} then FS_CONFLICT
      else if informativeness s \<le> informativeness t then t else s)"

definition bot_FormalStatusT :: FormalStatusT where
  "bot_FormalStatusT = FS_NONE"

instance
proof
  fix x y z :: FormalStatusT
  show "x < y \<longleftrightarrow> x \<le> y \<and> \<not> y \<le> x" by (simp add: less_FormalStatusT_def)
  show "x \<le> x" by (simp add: less_eq_FormalStatusT_def)
  show "x \<le> y \<Longrightarrow> y \<le> z \<Longrightarrow> x \<le> z"
    by (cases x; cases y; cases z) (simp_all add: less_eq_FormalStatusT_def)
  show "x \<le> y \<Longrightarrow> y \<le> x \<Longrightarrow> x = y"
    by (auto simp: less_eq_FormalStatusT_def intro: informativeness_inj)
  show "x \<le> sup x y" "y \<le> sup x y"
    by (cases x; cases y; simp add: less_eq_FormalStatusT_def sup_FormalStatusT_def insert_commute)+
  show "y \<le> x \<Longrightarrow> z \<le> x \<Longrightarrow> sup y z \<le> x"
    by (cases x; cases y; cases z) (simp_all add: less_eq_FormalStatusT_def sup_FormalStatusT_def doubleton_eq_iff)
  show "bot \<le> x"
    by (cases x) (simp_all add: less_eq_FormalStatusT_def bot_FormalStatusT_def)
qed

end

definition joined :: "FormalStatusT list \<Rightarrow> FormalStatusT" where
  "joined ss = foldl sup bot ss"

lemma foldl_sup: "foldl sup (a :: FormalStatusT) ss = sup a (joined ss)"
  unfolding joined_def
proof (induction ss arbitrary: a)
  case Nil
  then show ?case by simp
next
  case (Cons s ss)
  from Cons.IH[of "sup a s"] Cons.IH[of "sup bot s"] show ?case by (simp add: sup_assoc)
qed

lemma joined_simps [simp]: "joined [] = bot" "joined (s # ss) = sup s (joined ss)" "joined (ss @ ts) = sup (joined ss) (joined ts)"
proof -
  show c: "joined (s # ss) = sup s (joined ss)" for s ss
    using foldl_sup[of s ss] by (simp add: joined_def)
  show "joined [] = bot" by (simp add: joined_def)
  then show "joined (ss @ ts) = sup (joined ss) (joined ts)"
    by (induction ss) (simp_all add: c sup_assoc)
qed

lemma joined_mset: "mset ss = mset ts \<Longrightarrow> joined ss = joined ts"
proof (induction ss arbitrary: ts)
  case Nil
  then show ?case by simp
next
  case (Cons s ss)
  then have "s \<in> set ts" by (metis list.set_intros(1) set_mset_mset)
  then obtain us vs where ts: "ts = us @ s # vs" by (meson split_list)
  with Cons.prems have "mset ss = mset (us @ vs)" by simp
  then have "joined ss = joined (us @ vs)" by (rule Cons.IH)
  then show ?case by (simp add: ts sup_left_commute)
qed

lemma joined_conflict: "FS_CONFLICT \<in> set ss \<Longrightarrow> joined ss = FS_CONFLICT"
proof (induction ss)
  case Nil
  then show ?case by simp
next
  case (Cons s ss)
  have "sup FS_CONFLICT t = FS_CONFLICT" "sup t FS_CONFLICT = FS_CONFLICT" for t
    by (cases t; simp add: sup_FormalStatusT_def doubleton_eq_iff)+
  with Cons show ?case by auto
qed

lemma joined_upper: "s \<in> set ss \<Longrightarrow> s \<le> joined ss"
  by (induction ss) (auto intro: le_supI2)

lemma joined_definitive: "FS_PROOF \<in> set ss \<Longrightarrow> FS_FAILURE \<in> set ss \<Longrightarrow> joined ss = FS_CONFLICT"
  using joined_upper[of FS_PROOF ss] joined_upper[of FS_FAILURE ss]
  by (cases "joined ss") (simp_all add: less_eq_FormalStatusT_def)

lemma joined_failure:
  assumes "FS_FAILURE \<in> set ss"
  shows "joined ss = (if FS_PROOF \<in> set ss \<or> FS_CONFLICT \<in> set ss then FS_CONFLICT else FS_FAILURE)"
proof (cases "FS_PROOF \<in> set ss \<or> FS_CONFLICT \<in> set ss")
  case True
  then show ?thesis using joined_conflict joined_definitive[OF _ assms] by auto
next
  case False
  have "joined ss \<le> FS_FAILURE" if "set ss \<inter> {FS_PROOF, FS_CONFLICT} = {}" for ss
    using that
  proof (induction ss)
    case (Cons s ss)
    have "s \<le> FS_FAILURE" using Cons.prems by (cases s) (simp_all add: less_eq_FormalStatusT_def)
    with Cons show ?case by simp
  qed simp
  with False have "joined ss = FS_FAILURE"
    using joined_upper[OF assms] by (intro antisym) auto
  with False show ?thesis by simp
qed

lemma fs_of_int_Inr: "fs_of_int v = Inr s \<longleftrightarrow> v = fs_int s"
  by (cases s) (auto simp: fs_of_int_def split: if_splits)

lemma most_informative_joined:
  "\<not> (FS_PROOF \<in> set (s # ss) \<and> FS_FAILURE \<in> set (s # ss)) \<Longrightarrow> most_informative s ss = joined (s # ss)"
proof (induction ss arbitrary: s)
  case Nil
  then show ?case by (simp add: most_informative_def)
next
  case (Cons t ss)
  let ?b = "if informativeness t > informativeness s then t else s"
  have b: "?b = sup s t"
    using Cons.prems informativeness_inj[of s t] by (auto simp: sup_FormalStatusT_def doubleton_eq_iff)
  have "most_informative s (t # ss) = most_informative ?b ss" by (simp add: most_informative_def)
  also have "\<dots> = joined (?b # ss)" using Cons.prems by (intro Cons.IH) auto
  also have "\<dots> = joined (s # t # ss)" by (simp only: b joined_simps sup_assoc)
  finally show ?case .
qed

lemma merge_is_join: "merge_formal_statuses sts = fs_int (joined (known_statuses sts))"
proof (cases "known_statuses sts")
  case Nil
  then show ?thesis by (simp add: merge_formal_statuses_def bot_FormalStatusT_def)
next
  case (Cons s ss)
  have "card (set (s # ss) \<inter> {FS_PROOF, FS_FAILURE}) > 1 \<longleftrightarrow> FS_PROOF \<in> set (s # ss) \<and> FS_FAILURE \<in> set (s # ss)"
    by (cases "FS_PROOF \<in> set (s # ss)"; cases "FS_FAILURE \<in> set (s # ss)") (simp_all add: Int_insert_right)
  then show ?thesis
    using Cons joined_definitive[of "s # ss"] most_informative_joined[of s ss]
    by (auto simp: merge_formal_statuses_def)
qed

section \<open>The store and its member\<close>

text \<open>The dictionary kept for one bin; a key that was never set is \<open>None\<close>.\<close>

record formal_data =
  fd_status :: "int option"
  fd_radius :: "int option"
  fd_witness :: "string option"

definition no_data :: formal_data where
  "no_data = \<lparr>fd_status = None, fd_radius = None, fd_witness = None\<rparr>"

definition or_keep :: "'a option \<Rightarrow> 'a option \<Rightarrow> 'a option" where
  "or_keep new old = (case new of None \<Rightarrow> old | Some v \<Rightarrow> Some v)"

definition set_formal_data ::
  "(int \<times> formal_data) list \<Rightarrow> int \<Rightarrow> int option \<Rightarrow> int option \<Rightarrow> string option \<Rightarrow> (int \<times> formal_data) list" where
  "set_formal_data db bin_index status radius witness =
     (let entry = (case dict_get db bin_index of None \<Rightarrow> no_data | Some e \<Rightarrow> e)
      in dict_set bin_index
           \<lparr>fd_status = or_keep status (fd_status entry), fd_radius = or_keep radius (fd_radius entry),
            fd_witness = or_keep witness (fd_witness entry)\<rparr> db)"

definition get_formal_data :: "(int \<times> formal_data) list \<Rightarrow> int \<Rightarrow> formal_data option" where
  "get_formal_data db bin_index = dict_get db bin_index"

text \<open>
  One object of the \<open>entries\<close> array, and the member: empty bytes, bytes \<open>json.loads\<close> rejects, or
  the object with its \<open>version\<close> and \<open>entries\<close>.
\<close>

record formal_entry =
  fe_idx :: int
  fe_status :: "int option"
  fe_radius :: "int option"
  fe_witness :: "string option"

datatype formal_member =
    FM_empty
  | FM_unreadable
  | FM_json "int option" "formal_entry list"

text \<open>\<open>entry[key] = value\<close> only when the value is not the default.\<close>

definition unless_default :: "int \<Rightarrow> int option" where
  "unless_default v = (if v \<noteq> 0 then Some v else None)"

definition formal_entry_of :: "int \<Rightarrow> formal_data \<Rightarrow> formal_entry list" where
  "formal_entry_of bin_index fd =
     (let status = (case fd_status fd of None \<Rightarrow> 0 | Some v \<Rightarrow> v);
          radius = (case fd_radius fd of None \<Rightarrow> 0 | Some v \<Rightarrow> v);
          witness = fd_witness fd
      in if status = 0 \<and> radius = 0 \<and> witness = None then []
         else [\<lparr>fe_idx = bin_index, fe_status = unless_default status,
                fe_radius = unless_default radius, fe_witness = witness\<rparr>])"

definition formal_serialize :: "(int \<times> formal_data) list \<Rightarrow> formal_member" where
  "formal_serialize db =
     (let entries = concat (map (\<lambda>(i, fd). formal_entry_of i fd) (sort_key fst db))
      in if entries = [] then FM_empty else FM_json (Some 1) entries)"

definition formal_apply :: "(int \<times> formal_data) list \<Rightarrow> formal_member \<Rightarrow> (int \<times> formal_data) list res" where
  "formal_apply db m =
     (case m of
        FM_empty \<Rightarrow> Inr db
      | FM_unreadable \<Rightarrow> Inl ValueError
      | FM_json version entries \<Rightarrow>
          if version \<noteq> Some 1 then Inr db
          else Inr (foldl (\<lambda>d e. set_formal_data d (fe_idx e) (fe_status e) (fe_radius e) (fe_witness e)) db entries))"

text \<open>What a reader of the store sees of a bin, the documented defaults filled in.\<close>

definition formal_view :: "(int \<times> formal_data) list \<Rightarrow> int \<Rightarrow> int \<times> int \<times> string option" where
  "formal_view db i =
     (case get_formal_data db i of
        None \<Rightarrow> (0, 0, None)
      | Some fd \<Rightarrow> (case fd_status fd of None \<Rightarrow> 0 | Some v \<Rightarrow> v, case fd_radius fd of None \<Rightarrow> 0 | Some v \<Rightarrow> v, fd_witness fd))"

lemma apply_notin:
  "i \<notin> set (map fe_idx es) \<Longrightarrow>
   dict_get (foldl (\<lambda>d e. set_formal_data d (fe_idx e) (fe_status e) (fe_radius e) (fe_witness e)) d es) i = dict_get d i"
  by (induction es arbitrary: d) (auto simp: set_formal_data_def dict_get_set)

lemma apply_view:
  assumes "distinct (map fst ps)" "\<forall>p\<in>set ps. dict_get d (fst p) = None"
  shows "formal_view (foldl (\<lambda>d e. set_formal_data d (fe_idx e) (fe_status e) (fe_radius e) (fe_witness e)) d
            (concat (map (\<lambda>(i, fd). formal_entry_of i fd) ps))) i =
         (if i \<in> set (map fst ps) then formal_view ps i else formal_view d i)"
  using assms
proof (induction ps arbitrary: d)
  case Nil
  then show ?case by simp
next
  case (Cons p ps)
  obtain j fd where p: "p = (j, fd)" by (cases p)
  let ?set = "\<lambda>d e. set_formal_data d (fe_idx e) (fe_status e) (fe_radius e) (fe_witness e)"
  let ?rest = "concat (map (\<lambda>(i, fd). formal_entry_of i fd) ps)"
  let ?d = "foldl ?set d (formal_entry_of j fd)"
  have rest_idx: "set (map fe_idx ?rest) \<subseteq> set (map fst ps)"
    by (force simp: formal_entry_of_def split: if_splits)
  have other: "dict_get ?d k = dict_get d k" if "k \<noteq> j" for k
    using that by (auto simp: formal_entry_of_def set_formal_data_def dict_get_set)
  have here: "formal_view ?d j = formal_view (p # ps) j"
    using Cons.prems(2) p
    by (cases "fd_status fd"; cases "fd_radius fd"; cases "fd_witness fd")
      (auto simp: formal_entry_of_def set_formal_data_def formal_view_def get_formal_data_def
        dict_get_set no_data_def or_keep_def unless_default_def)
  have j: "j \<notin> set (map fst ps)" using Cons.prems(1) p by simp
  have ih: "formal_view (foldl ?set ?d ?rest) i = (if i \<in> set (map fst ps) then formal_view ps i else formal_view ?d i)"
  proof (intro Cons.IH ballI)
    show "distinct (map fst ps)" using Cons.prems(1) by simp
    fix q assume q: "q \<in> set ps"
    then have "fst q \<noteq> j" using j by auto
    with Cons.prems(2) q show "dict_get ?d (fst q) = None" by (simp add: other)
  qed
  show ?case
  proof (cases "i = j")
    case True
    with ih j here show ?thesis by (simp add: p)
  next
    case False
    then have "formal_view ?d i = formal_view d i" "formal_view (p # ps) i = formal_view ps i"
      using other[OF False] by (simp_all add: formal_view_def get_formal_data_def p)
    with ih False show ?thesis by (simp add: p)
  qed
qed

lemma map_of_sort: "distinct (dict_keys db) \<Longrightarrow> map_of (sort_key fst db) = map_of db"
  by (rule map_of_inject_set[THEN iffD2]) (simp_all add: distinct_map distinct_sort)

lemma formal_view_sort: "distinct (dict_keys db) \<Longrightarrow> formal_view (sort_key fst db) i = formal_view db i"
  by (simp add: formal_view_def get_formal_data_def map_of_sort)

lemma formal_reload:
  assumes "distinct (dict_keys db)"
  shows "\<exists>db'. formal_apply [] (formal_serialize db) = Inr db' \<and> (\<forall>i. formal_view db' i = formal_view db i)"
proof -
  let ?es = "concat (map (\<lambda>(i, fd). formal_entry_of i fd) (sort_key fst db))"
  let ?db = "foldl (\<lambda>d e. set_formal_data d (fe_idx e) (fe_status e) (fe_radius e) (fe_witness e)) [] ?es"
  have d: "distinct (map fst (sort_key fst db))"
    using assms by (simp add: distinct_map distinct_sort)
  have "formal_apply [] (formal_serialize db) = Inr ?db"
  proof (cases "?es = []")
    case True
    then show ?thesis by (simp only: formal_serialize_def formal_apply_def Let_def formal_member.case if_True foldl_Nil simp_thms)
  next
    case False
    then show ?thesis by (simp only: formal_serialize_def formal_apply_def Let_def formal_member.case if_False) simp
  qed
  moreover have "formal_view ?db i = formal_view db i" for i
  proof (cases "i \<in> set (dict_keys db)")
    case True
    then show ?thesis using apply_view[OF d, of "[]" i] by (simp add: formal_view_sort assms)
  next
    case False
    then have "dict_get db i = None" by (simp add: map_of_eq_None_iff)
    then show ?thesis
      using apply_view[OF d, of "[]" i] False by (simp add: formal_view_def get_formal_data_def)
  qed
  ultimately show ?thesis by blast
qed

text \<open>
  Formal results survive the archive: reading the member written for a store into a
  fresh database gives, for every bin, the status, radius and witness of the store, with the
  documented defaults where nothing was recorded (fully default bins are not written at all).
\<close>

theorem formal_roundtrip:
  assumes "distinct (dict_keys db)"
  shows "\<exists>db'. formal_apply [] (formal_serialize db) = Inr db' \<and> (\<forall>i. formal_view db' i = formal_view db i)"
  by (rule formal_reload[OF assms])

lemma formal_roundtrip_witness:
  "\<exists>db'. formal_apply [] (formal_serialize
      (set_formal_data (set_formal_data [] 7 (Some 2) (Some 20) None) 3 (Some 0) None (Some ''w.vcd''))) = Inr db' \<and>
     (\<forall>i. formal_view db' i =
       formal_view (set_formal_data (set_formal_data [] 7 (Some 2) (Some 20) None) 3 (Some 0) None (Some ''w.vcd'')) i)"
  using formal_roundtrip[of "set_formal_data (set_formal_data [] 7 (Some 2) (Some 20) None) 3 (Some 0) None (Some ''w.vcd'')"]
  by (simp add: set_formal_data_def no_data_def or_keep_def)

section \<open>Merging serialized members\<close>

definition entries_of :: "formal_member \<Rightarrow> formal_entry list" where
  "entries_of m = (case m of FM_json v es \<Rightarrow> if v = Some 1 then es else [] | _ \<Rightarrow> [])"

text \<open>\<open>collected.setdefault(entry["idx"], []).append(entry)\<close>\<close>

definition collect :: "(int \<times> formal_entry list) list \<Rightarrow> formal_entry \<Rightarrow> (int \<times> formal_entry list) list" where
  "collect acc entry =
     dict_set (fe_idx entry) ((case dict_get acc (fe_idx entry) of None \<Rightarrow> [] | Some es \<Rightarrow> es) @ [entry]) acc"

definition or_zero :: "int option \<Rightarrow> int" where
  "or_zero v = (case v of None \<Rightarrow> 0 | Some n \<Rightarrow> n)"

definition merged_witness :: "int \<Rightarrow> formal_entry list \<Rightarrow> string option" where
  "merged_witness status found =
     (if status = fs_int FS_CONFLICT
      then (case List.find (\<lambda>e. fe_witness e \<noteq> None \<and> fe_witness e \<noteq> Some []) found of
              None \<Rightarrow> None | Some e \<Rightarrow> fe_witness e)
      else (case foldl (\<lambda>best entry.
                    if or_zero (fe_status entry) \<noteq> status then best
                    else (case best of
                        None \<Rightarrow> Some entry
                      | Some b \<Rightarrow> if formal_status_rank (or_zero (fe_status entry)) > formal_status_rank (or_zero (fe_status b))
                                  then Some entry else best)) None found of
              None \<Rightarrow> None | Some best \<Rightarrow> fe_witness best))"

definition merged_entry :: "int \<Rightarrow> formal_entry list \<Rightarrow> formal_entry list" where
  "merged_entry index found =
     (let status = merge_formal_statuses (map (\<lambda>e. Some (or_zero (fe_status e))) found);
          radius = Max (set (map (\<lambda>e. or_zero (fe_radius e)) found));
          witness = merged_witness status found
      in if status = 0 \<and> radius = 0 \<and> witness = None then []
         else [\<lparr>fe_idx = index, fe_status = unless_default status,
                fe_radius = unless_default radius, fe_witness = witness\<rparr>])"

definition merge_formal :: "formal_member list \<Rightarrow> formal_member" where
  "merge_formal payloads =
     (let collected = foldl collect [] (concat (map entries_of payloads));
          entries = concat (map (\<lambda>(i, found). merged_entry i found) (sort_key fst collected))
      in if entries = [] then FM_empty else FM_json (Some 1) entries)"

lemma collect_get:
  "dict_get (foldl collect acc es) i =
     (case filter (\<lambda>e. fe_idx e = i) es of
        [] \<Rightarrow> dict_get acc i
      | f # fs \<Rightarrow> Some ((case dict_get acc i of None \<Rightarrow> [] | Some old \<Rightarrow> old) @ f # fs))"
  by (induction es arbitrary: acc) (auto simp: collect_def dict_get_set split: list.split option.split)

lemma collect_distinct: "distinct (dict_keys acc) \<Longrightarrow> distinct (dict_keys (foldl collect acc es))"
  by (induction es arbitrary: acc) (simp_all add: collect_def distinct_update)

lemma filter_merged:
  "distinct (map fst ps) \<Longrightarrow>
   filter (\<lambda>e. fe_idx e = i) (concat (map (\<lambda>(i, found). merged_entry i found) ps)) =
     (case map_of ps i of None \<Rightarrow> [] | Some found \<Rightarrow> merged_entry i found)"
proof (induction ps)
  case Nil
  then show ?case by simp
next
  case (Cons p ps)
  obtain j found where p: "p = (j, found)" by (cases p)
  have own: "filter (\<lambda>e. fe_idx e = i) (merged_entry j found) = (if i = j then merged_entry j found else [])"
    by (auto simp: merged_entry_def Let_def)
  show ?case
  proof (cases "i = j")
    case True
    with Cons.prems p have "map_of ps i = None" by (simp add: map_of_eq_None_iff)
    with Cons True own show ?thesis by (simp add: p)
  next
    case False
    with Cons own show ?thesis by (simp add: p)
  qed
qed

lemma or_zero_unless [simp]: "or_zero (unless_default v) = v"
  by (simp add: or_zero_def unless_default_def)

lemma merged_entry_cases:
  "merged_entry i found = [] \<and> merge_formal_statuses (map (\<lambda>e. Some (or_zero (fe_status e))) found) = 0 \<and>
     Max (set (map (\<lambda>e. or_zero (fe_radius e)) found)) = 0 \<or>
   (\<exists>e. merged_entry i found = [e] \<and>
     or_zero (fe_status e) = merge_formal_statuses (map (\<lambda>e. Some (or_zero (fe_status e))) found) \<and>
     or_zero (fe_radius e) = Max (set (map (\<lambda>e. or_zero (fe_radius e)) found)))"
  unfolding merged_entry_def Let_def
  by (cases "merge_formal_statuses (map (\<lambda>e. Some (or_zero (fe_status e))) found) = 0 \<and>
     Max (set (map (\<lambda>e. or_zero (fe_radius e)) found)) = 0 \<and>
     merged_witness (merge_formal_statuses (map (\<lambda>e. Some (or_zero (fe_status e))) found)) found = None")
    (simp_all del: list.map set_map)

text \<open>All the entries for bin \<open>i\<close> in a list of members, and what they say.\<close>

definition found_at :: "formal_member list \<Rightarrow> int \<Rightarrow> formal_entry list" where
  "found_at payloads i = filter (\<lambda>e. fe_idx e = i) (concat (map entries_of payloads))"

definition status_at :: "formal_member list \<Rightarrow> int \<Rightarrow> FormalStatusT" where
  "status_at payloads i = joined (known_statuses (map (\<lambda>e. Some (or_zero (fe_status e))) (found_at payloads i)))"

definition radius_at :: "formal_member list \<Rightarrow> int \<Rightarrow> int" where
  "radius_at payloads i = Max (insert 0 (set (map (\<lambda>e. or_zero (fe_radius e)) (found_at payloads i))))"

lemma found_merge:
  "found_at [merge_formal payloads] i =
     (case found_at payloads i of [] \<Rightarrow> [] | f # fs \<Rightarrow> merged_entry i (f # fs))"
proof -
  let ?c = "foldl collect [] (concat (map entries_of payloads))"
  have d: "distinct (dict_keys ?c)" by (rule collect_distinct) simp
  have "found_at [merge_formal payloads] i =
      filter (\<lambda>e. fe_idx e = i) (concat (map (\<lambda>(i, found). merged_entry i found) (sort_key fst ?c)))"
    unfolding found_at_def merge_formal_def Let_def by (simp add: entries_of_def)
  also have "\<dots> = (case map_of ?c i of None \<Rightarrow> [] | Some found \<Rightarrow> merged_entry i found)"
    using d by (subst filter_merged) (simp_all add: distinct_map distinct_sort map_of_sort)
  also have "\<dots> = (case found_at payloads i of [] \<Rightarrow> [] | f # fs \<Rightarrow> merged_entry i (f # fs))"
    by (simp only: collect_get found_at_def) (simp split: list.split)
  finally show ?thesis .
qed

lemma known_statuses_simps:
  "known_statuses [] = []" "known_statuses (xs @ ys) = known_statuses xs @ known_statuses ys"
  "known_statuses [Some (fs_int s)] = (if s = FS_NONE then [] else [s])"
  by (simp_all add: known_statuses_def)

lemma sup_none: "sup s FS_NONE = s" "sup s bot = s" "bot = FS_NONE"
  using sup_bot_right[of s] by (simp_all add: bot_FormalStatusT_def)

lemma status_at_merge: "status_at [merge_formal payloads] i = status_at payloads i"
proof (cases "found_at payloads i")
  case Nil
  then show ?thesis by (simp add: status_at_def found_merge)
next
  case (Cons f fs)
  let ?s = "status_at payloads i"
  have st: "merge_formal_statuses (map (\<lambda>e. Some (or_zero (fe_status e))) (f # fs)) = fs_int ?s"
    by (simp only: merge_is_join status_at_def Cons)
  have k: "known_statuses [Some (fs_int ?s)] = (if ?s = FS_NONE then [] else [?s])"
    by (rule known_statuses_simps(3))
  from merged_entry_cases[of i "f # fs"] show ?thesis
  proof
    assume a: "merged_entry i (f # fs) = [] \<and> merge_formal_statuses (map (\<lambda>e. Some (or_zero (fe_status e))) (f # fs)) = 0 \<and>
        Max (set (map (\<lambda>e. or_zero (fe_radius e)) (f # fs))) = 0"
    then have "?s = FS_NONE" unfolding st by (cases ?s) simp_all
    with a show ?thesis
      by (subst status_at_def) (simp add: found_merge Cons bot_FormalStatusT_def known_statuses_simps(1))
  next
    assume "\<exists>e. merged_entry i (f # fs) = [e] \<and>
        or_zero (fe_status e) = merge_formal_statuses (map (\<lambda>e. Some (or_zero (fe_status e))) (f # fs)) \<and>
        or_zero (fe_radius e) = Max (set (map (\<lambda>e. or_zero (fe_radius e)) (f # fs)))"
    then obtain e where "merged_entry i (f # fs) = [e]" "or_zero (fe_status e) = fs_int ?s"
      unfolding st by blast
    then show ?thesis
      by (subst status_at_def) (simp add: found_merge Cons k sup_none)
  qed
qed

lemma radius_at_merge: "\<forall>e\<in>set (found_at payloads i). 0 \<le> or_zero (fe_radius e) \<Longrightarrow>
  radius_at [merge_formal payloads] i = radius_at payloads i"
proof (cases "found_at payloads i")
  case Nil
  then show ?thesis by (simp add: radius_at_def found_merge)
next
  case (Cons f fs)
  assume pos: "\<forall>e\<in>set (found_at payloads i). 0 \<le> or_zero (fe_radius e)"
  let ?R = "set (map (\<lambda>e. or_zero (fe_radius e)) (f # fs))"
  have "radius_at payloads i = Max (insert 0 ?R)" by (simp only: radius_at_def Cons)
  also have "\<dots> = max 0 (Max ?R)" by (rule Max_insert) simp_all
  also have mx: "\<dots> = Max ?R"
  proof -
    have "or_zero (fe_radius f) \<le> Max ?R" by (rule Max_ge) simp_all
    moreover have "0 \<le> or_zero (fe_radius f)" using pos Cons by simp
    ultimately show ?thesis by linarith
  qed
  finally have r: "radius_at payloads i = Max ?R" .
  from merged_entry_cases[of i "f # fs"] show ?thesis
  proof
    assume a: "merged_entry i (f # fs) = [] \<and> merge_formal_statuses (map (\<lambda>e. Some (or_zero (fe_status e))) (f # fs)) = 0 \<and>
        Max ?R = 0"
    then show ?thesis unfolding r by (subst radius_at_def) (simp add: found_merge Cons)
  next
    assume "\<exists>e. merged_entry i (f # fs) = [e] \<and>
        or_zero (fe_status e) = merge_formal_statuses (map (\<lambda>e. Some (or_zero (fe_status e))) (f # fs)) \<and>
        or_zero (fe_radius e) = Max ?R"
    then obtain e where e: "merged_entry i (f # fs) = [e]" "or_zero (fe_radius e) = Max ?R" by blast
    from e(1) have "radius_at [merge_formal payloads] i = max 0 (or_zero (fe_radius e))"
      by (simp add: radius_at_def found_merge Cons)
    then show ?thesis unfolding r e(2) mx .
  qed
qed

lemma found_at_append: "found_at (ps @ qs) i = found_at ps i @ found_at qs i"
  by (simp add: found_at_def)

lemma status_at_groups: "status_at (map merge_formal groups) i = status_at (concat groups) i"
proof (induction groups)
  case Nil
  then show ?case by simp
next
  case (Cons g groups)
  have app: "status_at (ps @ qs) i = sup (status_at ps i) (status_at qs i)" for ps qs
    by (simp add: status_at_def found_at_append known_statuses_simps(2))
  show ?case using Cons app[of "[merge_formal g]" "map merge_formal groups"] app[of g "concat groups"]
    by (simp add: status_at_merge)
qed

lemma found_merge_nonneg:
  assumes "\<forall>e\<in>set (found_at payloads i). 0 \<le> or_zero (fe_radius e)"
    and "e \<in> set (found_at [merge_formal payloads] i)"
  shows "0 \<le> or_zero (fe_radius e)"
proof (cases "found_at payloads i")
  case Nil
  with assms(2) show ?thesis by (simp add: found_merge)
next
  case (Cons f fs)
  have e: "e \<in> set (merged_entry i (f # fs))" using assms(2) by (simp add: found_merge Cons)
  have "or_zero (fe_radius f) \<le> Max (set (map (\<lambda>e. or_zero (fe_radius e)) (f # fs)))"
    by (rule Max_ge) simp_all
  moreover have "0 \<le> or_zero (fe_radius f)" using assms(1) Cons by simp
  ultimately have "0 \<le> Max (set (map (\<lambda>e. or_zero (fe_radius e)) (f # fs)))" by linarith
  with e merged_entry_cases[of i "f # fs"] show ?thesis by auto
qed

lemma radius_at_groups:
  "\<forall>e\<in>set (found_at (concat groups) i). 0 \<le> or_zero (fe_radius e) \<Longrightarrow>
   radius_at (map merge_formal groups) i = radius_at (concat groups) i \<and>
   (\<forall>e\<in>set (found_at (map merge_formal groups) i). 0 \<le> or_zero (fe_radius e))"
proof (induction groups)
  case Nil
  then show ?case by simp
next
  case (Cons g groups)
  have app: "radius_at (ps @ qs) i = max (radius_at ps i) (radius_at qs i)" for ps qs
  proof -
    have "Max (insert 0 (A \<union> B)) = max (Max (insert 0 A)) (Max (insert 0 B))" if "finite A" "finite B" for A B :: "int set"
      using Max_Un[of "insert 0 A" "insert 0 B"] that by simp
    then show ?thesis by (simp add: radius_at_def found_at_append)
  qed
  have g: "\<forall>e\<in>set (found_at g i). 0 \<le> or_zero (fe_radius e)"
    and gs: "\<forall>e\<in>set (found_at (concat groups) i). 0 \<le> or_zero (fe_radius e)"
    using Cons.prems by (simp_all add: found_at_append)
  have "found_at (map merge_formal (g # groups)) i = found_at [merge_formal g] i @ found_at (map merge_formal groups) i"
    using found_at_append[of "[merge_formal g]" "map merge_formal groups"] by simp
  then show ?case
    using Cons.IH[OF gs] app[of "[merge_formal g]" "map merge_formal groups"] app[of g "concat groups"]
      radius_at_merge[OF g] found_merge_nonneg[OF g] by auto
qed

lemma mset_concat_map: "mset xs = mset ys \<Longrightarrow> mset (concat (map f xs)) = mset (concat (map f ys))"
proof -
  have "mset (concat (map f zs)) = \<Sum>\<^sub># (image_mset (\<lambda>z. mset (f z)) (mset zs))" for zs
    by (induction zs) simp_all
  then show "mset xs = mset ys \<Longrightarrow> mset (concat (map f xs)) = mset (concat (map f ys))" by simp
qed

lemma found_at_mset: "mset ps = mset qs \<Longrightarrow> mset (found_at ps i) = mset (found_at qs i)"
  unfolding found_at_def mset_filter by (simp only: mset_concat_map[of ps qs])

lemma status_at_mset: "mset ps = mset qs \<Longrightarrow> status_at ps i = status_at qs i"
proof -
  assume m: "mset ps = mset qs"
  then have "mset (found_at ps i) = mset (found_at qs i)" by (rule found_at_mset)
  then have "mset (map (\<lambda>e. Some (or_zero (fe_status e))) (found_at ps i)) = mset (map (\<lambda>e. Some (or_zero (fe_status e))) (found_at qs i))"
    by simp
  then have "mset (known_statuses (map (\<lambda>e. Some (or_zero (fe_status e))) (found_at ps i))) =
        mset (known_statuses (map (\<lambda>e. Some (or_zero (fe_status e))) (found_at qs i)))"
    unfolding known_statuses_def by (rule mset_concat_map)
  then show ?thesis unfolding status_at_def by (rule joined_mset)
qed

text \<open>
  The merged formal member does not depend on how the sources were grouped or
  ordered: merging groups first and the results afterwards gives every bin the same status as
  merging all the sources at once, in any order, and the same radius when no source reports a
  negative one.
\<close>

theorem merge_formal_grouping:
  assumes "mset (concat groups) = mset payloads"
  shows "status_at [merge_formal (map merge_formal groups)] i = status_at [merge_formal payloads] i \<and>
    ((\<forall>e\<in>set (found_at payloads i). 0 \<le> or_zero (fe_radius e)) \<longrightarrow>
     radius_at [merge_formal (map merge_formal groups)] i = radius_at [merge_formal payloads] i)"
proof (intro conjI impI)
  have "status_at [merge_formal (map merge_formal groups)] i = status_at (concat groups) i"
    by (simp only: status_at_merge status_at_groups)
  also have "\<dots> = status_at payloads i" by (rule status_at_mset[OF assms])
  finally show "status_at [merge_formal (map merge_formal groups)] i = status_at [merge_formal payloads] i"
    by (simp only: status_at_merge)
next
  assume pos: "\<forall>e\<in>set (found_at payloads i). 0 \<le> or_zero (fe_radius e)"
  have same: "set (found_at (concat groups) i) = set (found_at payloads i)"
    using mset_eq_setD[OF found_at_mset[OF assms]] .
  have g: "radius_at (map merge_formal groups) i = radius_at (concat groups) i"
    and n: "\<forall>e\<in>set (found_at (map merge_formal groups) i). 0 \<le> or_zero (fe_radius e)"
    using radius_at_groups[of groups i] pos by (simp_all add: same)
  have "radius_at (concat groups) i = radius_at payloads i" by (simp add: radius_at_def same)
  then show "radius_at [merge_formal (map merge_formal groups)] i = radius_at [merge_formal payloads] i"
    by (simp only: radius_at_merge[OF n] radius_at_merge[OF pos] g)
qed

definition proved_7 :: formal_member where
  "proved_7 = FM_json (Some 1) [\<lparr>fe_idx = 7, fe_status = Some 2, fe_radius = Some 20, fe_witness = None\<rparr>]"

definition failed_7 :: formal_member where
  "failed_7 = FM_json (Some 1) [\<lparr>fe_idx = 7, fe_status = Some 1, fe_radius = None, fe_witness = Some ''cex.vcd''\<rparr>]"

lemma merge_formal_grouping_witness:
  "status_at [merge_formal (map merge_formal [[proved_7, FM_empty], [failed_7]])] 7 =
   status_at [merge_formal [failed_7, proved_7, FM_empty]] 7 \<and>
   radius_at [merge_formal (map merge_formal [[proved_7, FM_empty], [failed_7]])] 7 =
   radius_at [merge_formal [failed_7, proved_7, FM_empty]] 7"
  using merge_formal_grouping[of "[[proved_7, FM_empty], [failed_7]]" "[failed_7, proved_7, FM_empty]" 7]
  by (simp add: found_at_def entries_of_def proved_7_def failed_7_def or_zero_def)

text \<open>
  A failure is never masked: when some source reports \<open>FAILURE\<close> for a bin, the merged
  status is \<open>FAILURE\<close> or \<open>CONFLICT\<close>, and it is \<open>CONFLICT\<close> exactly when another source reports
  \<open>PROOF\<close> or \<open>CONFLICT\<close> for it.
\<close>

theorem merge_formal_failure:
  assumes "\<lparr>fe_idx = i, fe_status = Some 1, fe_radius = r, fe_witness = w\<rparr> \<in> set (found_at payloads i)"
  shows "status_at [merge_formal payloads] i =
     (if \<exists>e\<in>set (found_at payloads i). or_zero (fe_status e) = 2 \<or> or_zero (fe_status e) = 6
      then FS_CONFLICT else FS_FAILURE)"
proof -
  let ?ss = "known_statuses (map (\<lambda>e. Some (or_zero (fe_status e))) (found_at payloads i))"
  have mem: "s \<in> set ?ss \<longleftrightarrow> (\<exists>e\<in>set (found_at payloads i). or_zero (fe_status e) = fs_int s)" if "s \<noteq> FS_NONE" for s
    using that fs_of_int_Inr by (auto simp: known_statuses_def split: sum.splits if_splits) force+
  have fail: "FS_FAILURE \<in> set ?ss" using assms by (subst mem) (auto simp: or_zero_def intro!: bexI[OF _ assms])
  have none: "FS_NONE \<notin> set ?ss" by (auto simp: known_statuses_def split: sum.splits if_splits option.splits)
  have "joined ?ss = (if FS_PROOF \<in> set ?ss \<or> FS_CONFLICT \<in> set ?ss then FS_CONFLICT else FS_FAILURE)"
    by (rule joined_failure[OF fail])
  then show ?thesis unfolding status_at_merge unfolding status_at_def by (simp add: mem bex_disj_distrib)
qed

lemma merge_formal_failure_witness:
  "status_at [merge_formal [proved_7, failed_7]] 7 = FS_CONFLICT"
  using merge_formal_failure[of 7 None "Some ''cex.vcd''" "[proved_7, failed_7]"]
  by (simp add: found_at_def entries_of_def proved_7_def failed_7_def or_zero_def)

end
