(* ===== verification/HistoryTables.thy ===== *)
theory HistoryTables
  imports PyStruct "HOL-Library.Multiset"
begin

text \<open>
  The fixed-width tables of the run history: the bucket index (\<open>ncdb/bucket_index.py\<close>), the
  contribution index with its merge policies (\<open>ncdb/contrib_index.py\<close>) and the squash log
  (\<open>ncdb/squash_log.py\<close>). Their rows are \<open>struct\<close> records; each row format is an instance of
  the fixed-width codec interface. The floating-point \<open>pass_rate\<close> of a bucket is not modelled.
\<close>

section \<open>Bucket index\<close>

record BucketIndexEntry =
  bucket_seq :: int
  ts_start :: int
  ts_end :: int
  num_records :: int
  fail_count :: int
  min_name_id :: int
  max_name_id :: int

definition BIDX_MAGIC :: int where "BIDX_MAGIC = 0x42494458"
definition BIDX_HDR :: "fld list" where "BIDX_HDR = [U 4, U 1, U 4]"
definition BIDX_ENTRY :: "fld list" where "BIDX_ENTRY = replicate 7 (U 4)"

text \<open>\<open>add_bucket\<close>: replace the entry of the same sequence number or insert in order.\<close>

fun add_bucket :: "BucketIndexEntry \<Rightarrow> BucketIndexEntry list \<Rightarrow> BucketIndexEntry list" where
  "add_bucket entry [] = [entry]"
| "add_bucket entry (e # es) =
     (if bucket_seq e = bucket_seq entry then entry # es
      else if bucket_seq e > bucket_seq entry then entry # e # es
      else e # add_bucket entry es)"

definition buckets_in_range :: "int \<Rightarrow> int \<Rightarrow> BucketIndexEntry list \<Rightarrow> BucketIndexEntry list" where
  "buckets_in_range ts_from ts_to es = filter (\<lambda>e. ts_end e \<ge> ts_from \<and> ts_start e \<le> ts_to) es"

definition buckets_for_name :: "int \<Rightarrow> int option \<Rightarrow> int option \<Rightarrow> BucketIndexEntry list \<Rightarrow> BucketIndexEntry list" where
  "buckets_for_name name_id ts_from ts_to es =
     filter (\<lambda>e. \<not> (min_name_id e > name_id \<or> max_name_id e < name_id)
               \<and> \<not> (case ts_from of None \<Rightarrow> False | Some t \<Rightarrow> ts_end e < t)
               \<and> \<not> (case ts_to of None \<Rightarrow> False | Some t \<Rightarrow> ts_start e > t)) es"

definition next_seq :: "BucketIndexEntry list \<Rightarrow> int" where
  "next_seq es = (if es = [] then 0 else bucket_seq (last es) + 1)"

definition bidx_write_entry :: "BucketIndexEntry \<Rightarrow> bytes res" where
  "bidx_write_entry e = pack BIDX_ENTRY
     [bucket_seq e, ts_start e, ts_end e, num_records e, fail_count e, min_name_id e, max_name_id e]"

definition bidx_read_entry :: "bytes \<Rightarrow> nat \<Rightarrow> (BucketIndexEntry \<times> nat) res" where
  "bidx_read_entry data offset =
     bindE (unpack_from BIDX_ENTRY data offset) (\<lambda>fields.
       Inr (\<lparr>bucket_seq = fields ! 0, ts_start = fields ! 1, ts_end = fields ! 2,
             num_records = fields ! 3, fail_count = fields ! 4,
             min_name_id = fields ! 5, max_name_id = fields ! 6\<rparr>, offset + calcsize BIDX_ENTRY))"

definition bidx_serialize :: "BucketIndexEntry list \<Rightarrow> bytes res" where
  "bidx_serialize es =
     bindE (pack BIDX_HDR [BIDX_MAGIC, 1, int (length es)]) (\<lambda>header.
     bindE (concatE bidx_write_entry es) (\<lambda>rows. Inr (header @ rows)))"

definition bidx_deserialize :: "bytes \<Rightarrow> BucketIndexEntry list res" where
  "bidx_deserialize data =
     bindE (unpack_from BIDX_HDR data 0) (\<lambda>h.
       if h ! 0 \<noteq> BIDX_MAGIC then Inl ValueError
       else if h ! 1 \<noteq> 1 then Inl ValueError
       else bindE (repeat_dec bidx_read_entry (nat (h ! 2)) data (calcsize BIDX_HDR)) (\<lambda>(es, _). Inr es))"

text \<open>Each row format is a fixed-width codec.\<close>

interpretation bidx: fixed_codec bidx_write_entry bidx_read_entry "calcsize BIDX_ENTRY"
  by unfold_locales
    (auto simp: bidx_write_entry_def bidx_read_entry_def unpack_from_pack pack_length)

text \<open>
  The index as the partial map it stands for, from sequence number to entry, on the lists the
  operations produce: strictly increasing sequence numbers.
\<close>

definition bidx_inv :: "BucketIndexEntry list \<Rightarrow> bool" where
  "bidx_inv es = sorted_wrt (<) (map bucket_seq es)"

definition bidx_map :: "BucketIndexEntry list \<Rightarrow> int \<rightharpoonup> BucketIndexEntry" where
  "bidx_map es = map_of (map (\<lambda>e. (bucket_seq e, e)) es)"

lemma add_bucket_seqs: "set (map bucket_seq (add_bucket e es)) = insert (bucket_seq e) (set (map bucket_seq es))"
  by (induction e es rule: add_bucket.induct) auto

lemma add_bucket_inv: "bidx_inv es \<Longrightarrow> bidx_inv (add_bucket e es)"
proof (induction e es rule: add_bucket.induct)
  case (1 entry)
  then show ?case by (simp add: bidx_inv_def)
next
  case (2 entry e es)
  have "\<forall>x\<in>set (map bucket_seq (add_bucket entry es)). bucket_seq e < x"
    if "\<not> bucket_seq e = bucket_seq entry" "\<not> bucket_seq e > bucket_seq entry"
    using that 2(2) unfolding add_bucket_seqs by (auto simp: bidx_inv_def)
  with 2 show ?case by (auto simp: bidx_inv_def)
qed

lemma add_bucket_map: "bidx_inv es \<Longrightarrow> bidx_map (add_bucket e es) = (bidx_map es)(bucket_seq e \<mapsto> e)"
proof (induction e es rule: add_bucket.induct)
  case (1 entry)
  then show ?case by (simp add: bidx_map_def)
next
  case (2 entry e es)
  then have "bidx_inv es" by (simp add: bidx_inv_def)
  with 2 show ?case by (auto simp: bidx_map_def fun_upd_twist)
qed

lemma next_seq_above:
  assumes "bidx_inv es" "e \<in> set es"
  shows "bucket_seq e < next_seq es"
proof -
  obtain ys y where es: "es = ys @ [y]" using assms(2) by (cases es rule: rev_cases) auto
  with assms show ?thesis by (auto simp: next_seq_def bidx_inv_def sorted_wrt_append)
qed

lemma bidx_reload:
  assumes s: "bidx_serialize es = Inr bs"
  shows "bidx_deserialize (bs @ rest) = Inr es"
proof -
  obtain h r where h: "pack BIDX_HDR [BIDX_MAGIC, 1, int (length es)] = Inr h"
    and r: "concatE bidx_write_entry es = Inr r" and bs: "bs = h @ r"
    using s by (auto simp: bidx_serialize_def bindE_eq_Inr)
  show ?thesis by (simp add: bs bidx_deserialize_def bidx.table_read[OF h r] nth_Cons')
qed

text \<open>
  The sorted list kept by \<open>BucketIndex\<close> implements a map from sequence number to
  entry: \<open>add_bucket\<close> is map update and keeps the list strictly sorted, \<open>next_seq\<close> is above every
  sequence number in use (so a new bucket never replaces one), and the member written for the index
  is read back as the same list.
\<close>

theorem bucket_index_refines_map:
  assumes "bidx_inv es"
  shows "bidx_inv (add_bucket e es) \<and> bidx_map (add_bucket e es) = (bidx_map es)(bucket_seq e \<mapsto> e)
    \<and> next_seq es \<notin> dom (bidx_map es) \<and> (\<forall>k\<in>dom (bidx_map es). k < next_seq es)
    \<and> (\<forall>bs rest. bidx_serialize es = Inr bs \<longrightarrow> bidx_deserialize (bs @ rest) = Inr es)"
proof (intro conjI)
  have below: "\<forall>k\<in>dom (bidx_map es). k < next_seq es"
    using next_seq_above[OF assms] by (auto simp: bidx_map_def dest!: map_of_SomeD)
  then show "\<forall>k\<in>dom (bidx_map es). k < next_seq es" .
  from below show "next_seq es \<notin> dom (bidx_map es)" by blast
qed (simp_all add: assms add_bucket_inv add_bucket_map bidx_reload)

definition example_bucket :: "int \<Rightarrow> BucketIndexEntry" where
  "example_bucket n = \<lparr>bucket_seq = n, ts_start = 100, ts_end = 200, num_records = 5, fail_count = 1,
     min_name_id = 0, max_name_id = 9\<rparr>"

lemma bucket_index_refines_map_witness:
  "bidx_map (add_bucket (example_bucket 1) [example_bucket 0, example_bucket 2]) =
     (bidx_map [example_bucket 0, example_bucket 2])(1 \<mapsto> example_bucket 1)"
  using bucket_index_refines_map[of "[example_bucket 0, example_bucket 2]" "example_bucket 1"]
  by (simp add: bidx_inv_def example_bucket_def)

section \<open>Contribution index\<close>

record ContribIndexEntry =
  ce_run_id :: int
  ce_name_id :: int
  ce_status :: int
  ce_flags :: int

record ContribIndex =
  merge_policy :: int
  squash_watermark :: int
  ci_entries :: "ContribIndexEntry list"

definition CIDX_MAGIC :: int where "CIDX_MAGIC = 0x43494458"
definition CIDX_HDR :: "fld list" where "CIDX_HDR = [U 4, U 1, U 1, U 4, U 4]"
definition CIDX_ENTRY :: "fld list" where "CIDX_ENTRY = [U 4, U 2, U 1, U 1]"

definition POLICY_ALL :: int where "POLICY_ALL = 0"
definition POLICY_PASS_ONLY :: int where "POLICY_PASS_ONLY = 1"
definition POLICY_EXCLUDE_ERROR_RERUN :: int where "POLICY_EXCLUDE_ERROR_RERUN = 2"
definition POLICY_STRICT :: int where "POLICY_STRICT = 3"
definition HIST_STATUS_OK :: int where "HIST_STATUS_OK = 0"

lemmas policy_defs = POLICY_ALL_def POLICY_PASS_ONLY_def POLICY_EXCLUDE_ERROR_RERUN_def POLICY_STRICT_def

definition is_rerun :: "ContribIndexEntry \<Rightarrow> bool" where
  "is_rerun e \<longleftrightarrow> ce_flags e AND 1 \<noteq> 0"

definition first_attempt_passed :: "ContribIndexEntry \<Rightarrow> bool" where
  "first_attempt_passed e \<longleftrightarrow> ce_flags e AND 2 \<noteq> 0"

definition new_contrib_index :: "int \<Rightarrow> int \<Rightarrow> ContribIndex" where
  "new_contrib_index policy watermark = \<lparr>merge_policy = policy, squash_watermark = watermark, ci_entries = []\<rparr>"

text \<open>The loop that looks for the first entry with a larger run id; without one it appends.\<close>

fun insert_before :: "ContribIndexEntry \<Rightarrow> ContribIndexEntry list \<Rightarrow> ContribIndexEntry list" where
  "insert_before entry [] = [entry]"
| "insert_before entry (e # es) =
     (if ce_run_id e > ce_run_id entry then entry # e # es else e # insert_before entry es)"

definition ci_add_entry :: "ContribIndexEntry \<Rightarrow> ContribIndex \<Rightarrow> ContribIndex" where
  "ci_add_entry entry ci =
     ci\<lparr>ci_entries :=
       (if ci_entries ci \<noteq> [] \<and> ce_run_id (last (ci_entries ci)) \<ge> ce_run_id entry
        then insert_before entry (ci_entries ci) else ci_entries ci @ [entry])\<rparr>"

definition admits :: "int \<Rightarrow> ContribIndexEntry \<Rightarrow> bool" where
  "admits policy e \<longleftrightarrow>
     (if policy = POLICY_ALL then True
      else if policy = POLICY_PASS_ONLY then ce_status e = HIST_STATUS_OK
      else if policy = POLICY_EXCLUDE_ERROR_RERUN then ce_status e = HIST_STATUS_OK
      else if policy = POLICY_STRICT
           then ce_status e = HIST_STATUS_OK \<and> \<not> (is_rerun e \<and> \<not> first_attempt_passed e)
      else False)"

definition passing_run_ids :: "int \<Rightarrow> ContribIndex \<Rightarrow> int list" where
  "passing_run_ids policy ci = map ce_run_id (filter (admits policy) (ci_entries ci))"

definition set_squash_watermark :: "int \<Rightarrow> ContribIndex \<Rightarrow> ContribIndex" where
  "set_squash_watermark run_id ci = ci\<lparr>squash_watermark := run_id\<rparr>"

definition remove_entries_up_to :: "int \<Rightarrow> ContribIndex \<Rightarrow> ContribIndex" where
  "remove_entries_up_to run_id ci = ci\<lparr>ci_entries := filter (\<lambda>e. ce_run_id e > run_id) (ci_entries ci)\<rparr>"

definition max_run_id :: "ContribIndex \<Rightarrow> int" where
  "max_run_id ci =
     (if ci_entries ci \<noteq> [] then Max (set (map ce_run_id (ci_entries ci))) else squash_watermark ci)"

definition cidx_write_entry :: "ContribIndexEntry \<Rightarrow> bytes res" where
  "cidx_write_entry e = pack CIDX_ENTRY [ce_run_id e, ce_name_id e, ce_status e, ce_flags e]"

definition cidx_read_entry :: "bytes \<Rightarrow> nat \<Rightarrow> (ContribIndexEntry \<times> nat) res" where
  "cidx_read_entry data offset =
     bindE (unpack_from CIDX_ENTRY data offset) (\<lambda>v.
       Inr (\<lparr>ce_run_id = v ! 0, ce_name_id = v ! 1, ce_status = v ! 2, ce_flags = v ! 3\<rparr>,
            offset + calcsize CIDX_ENTRY))"

definition cidx_serialize :: "ContribIndex \<Rightarrow> bytes res" where
  "cidx_serialize ci =
     bindE (pack CIDX_HDR [CIDX_MAGIC, 1, merge_policy ci, squash_watermark ci, int (length (ci_entries ci))]) (\<lambda>header.
     bindE (concatE cidx_write_entry (ci_entries ci)) (\<lambda>rows. Inr (header @ rows)))"

definition cidx_deserialize :: "bytes \<Rightarrow> ContribIndex res" where
  "cidx_deserialize data =
     bindE (unpack_from CIDX_HDR data 0) (\<lambda>h.
       if h ! 0 \<noteq> CIDX_MAGIC then Inl ValueError
       else if h ! 1 \<noteq> 1 then Inl ValueError
       else bindE (repeat_dec cidx_read_entry (nat (h ! 4)) data (calcsize CIDX_HDR)) (\<lambda>(es, _).
         Inr \<lparr>merge_policy = h ! 2, squash_watermark = h ! 3, ci_entries = es\<rparr>))"

interpretation cidx: fixed_codec cidx_write_entry cidx_read_entry "calcsize CIDX_ENTRY"
  by unfold_locales
    (auto simp: cidx_write_entry_def cidx_read_entry_def unpack_from_pack pack_length)

lemma cidx_reload:
  assumes s: "cidx_serialize ci = Inr bs"
  shows "cidx_deserialize (bs @ rest) = Inr ci"
proof -
  obtain h r where h: "pack CIDX_HDR [CIDX_MAGIC, 1, merge_policy ci, squash_watermark ci, int (length (ci_entries ci))] = Inr h"
    and r: "concatE cidx_write_entry (ci_entries ci) = Inr r" and bs: "bs = h @ r"
    using s by (auto simp: cidx_serialize_def bindE_eq_Inr)
  show ?thesis by (simp add: bs cidx_deserialize_def cidx.table_read[OF h r] nth_Cons')
qed

definition ci_sorted :: "ContribIndex \<Rightarrow> bool" where
  "ci_sorted ci = sorted (map ce_run_id (ci_entries ci))"

lemma insert_before_sorted:
  "sorted (map ce_run_id es) \<Longrightarrow>
   insert_before e es = filter (\<lambda>x. ce_run_id x \<le> ce_run_id e) es @ e # filter (\<lambda>x. ce_run_id x > ce_run_id e) es"
proof (induction e es rule: insert_before.induct)
  case (2 entry e es)
  show ?case
  proof (cases "ce_run_id e > ce_run_id entry")
    case True
    then have "\<forall>x\<in>set es. ce_run_id x > ce_run_id entry" using 2(2) by auto
    then have "filter (\<lambda>x. ce_run_id x \<le> ce_run_id entry) es = []" "filter (\<lambda>x. ce_run_id x > ce_run_id entry) es = es"
      by (auto simp: filter_empty_conv filter_id_conv not_le)
    with True show ?thesis by simp
  next
    case False
    with 2 show ?thesis by simp
  qed
qed simp

text \<open>In a sorted index a new entry goes behind all entries of a smaller or equal run id.\<close>

lemma ci_add_entries:
  assumes "ci_sorted ci"
  shows "ci_entries (ci_add_entry e ci) =
    filter (\<lambda>x. ce_run_id x \<le> ce_run_id e) (ci_entries ci) @ e # filter (\<lambda>x. ce_run_id x > ce_run_id e) (ci_entries ci)"
proof (cases "ci_entries ci \<noteq> [] \<and> ce_run_id (last (ci_entries ci)) \<ge> ce_run_id e")
  case True
  with assms show ?thesis by (simp add: ci_add_entry_def ci_sorted_def insert_before_sorted)
next
  case False
  have "\<forall>x\<in>set (ci_entries ci). ce_run_id x < ce_run_id e"
  proof (cases "ci_entries ci" rule: rev_cases)
    case (snoc ys y)
    with assms False show ?thesis by (auto simp: ci_sorted_def sorted_append)
  qed simp
  then have "filter (\<lambda>x. ce_run_id x \<le> ce_run_id e) (ci_entries ci) = ci_entries ci"
    "filter (\<lambda>x. ce_run_id x > ce_run_id e) (ci_entries ci) = []"
    by (auto simp: filter_empty_conv filter_id_conv)
  with False show ?thesis by (auto simp: ci_add_entry_def)
qed

lemma ci_add_sorted: "ci_sorted ci \<Longrightarrow> ci_sorted (ci_add_entry e ci)"
  using ci_add_entries[of ci e]
  by (auto simp: ci_sorted_def sorted_append sorted_filter)

lemma ci_add_mset: "ci_sorted ci \<Longrightarrow> mset (ci_entries (ci_add_entry e ci)) = add_mset e (mset (ci_entries ci))"
proof -
  assume "ci_sorted ci"
  then have "mset (ci_entries (ci_add_entry e ci)) =
      add_mset e (mset (filter (\<lambda>x. ce_run_id x \<le> ce_run_id e) (ci_entries ci)) + mset (filter (\<lambda>x. \<not> ce_run_id x \<le> ce_run_id e) (ci_entries ci)))"
    by (simp add: ci_add_entries not_le)
  then show ?thesis by (simp only: mset_filter multiset_partition[symmetric])
qed

lemma remove_sorted: "ci_sorted ci \<Longrightarrow> ci_sorted (remove_entries_up_to r ci)"
  by (simp add: ci_sorted_def remove_entries_up_to_def sorted_filter)

lemma max_run_id_bound: "e \<in> set (ci_entries ci) \<Longrightarrow> ce_run_id e \<le> max_run_id ci"
  by (auto simp: max_run_id_def)

lemma passing_add:
  assumes "ci_sorted ci"
  shows "passing_run_ids policy (ci_add_entry e ci) =
    filter (\<lambda>r. r \<le> ce_run_id e) (passing_run_ids policy ci)
    @ (if admits policy e then [ce_run_id e] else [])
    @ filter (\<lambda>r. r > ce_run_id e) (passing_run_ids policy ci)"
  by (simp add: passing_run_ids_def ci_add_entries[OF assms] filter_map o_def conj_commute)

text \<open>
  The contribution index stays sorted by run id under every operation: a new entry is
  added and no other is lost, the run ids a policy selects stay sorted and gain exactly the new id
  when the policy admits its status and flags, removing everything up to the maximal run id empties
  the index, and the member written for it is read back with policy, watermark and entries.
\<close>

theorem contrib_index_sorted:
  assumes "ci_sorted ci"
  shows "ci_sorted (ci_add_entry e ci) \<and> ci_sorted (remove_entries_up_to r ci)
    \<and> mset (ci_entries (ci_add_entry e ci)) = add_mset e (mset (ci_entries ci))
    \<and> sorted (passing_run_ids policy ci)
    \<and> passing_run_ids policy (ci_add_entry e ci) =
        filter (\<lambda>r. r \<le> ce_run_id e) (passing_run_ids policy ci)
        @ (if admits policy e then [ce_run_id e] else [])
        @ filter (\<lambda>r. r > ce_run_id e) (passing_run_ids policy ci)
    \<and> ci_entries (remove_entries_up_to (max_run_id ci) ci) = []
    \<and> (\<forall>bs rest. cidx_serialize ci = Inr bs \<longrightarrow> cidx_deserialize (bs @ rest) = Inr ci)"
proof -
  have "ci_entries (remove_entries_up_to (max_run_id ci) ci) = []"
    using max_run_id_bound[of _ ci] by (auto simp: remove_entries_up_to_def filter_empty_conv not_less)
  moreover have "sorted (passing_run_ids policy ci)"
    using assms by (simp add: passing_run_ids_def ci_sorted_def sorted_filter)
  ultimately show ?thesis
    by (simp add: assms ci_add_sorted remove_sorted ci_add_mset passing_add cidx_reload)
qed

definition example_contrib_index :: ContribIndex where
  "example_contrib_index = \<lparr>merge_policy = POLICY_PASS_ONLY, squash_watermark = 2,
     ci_entries = [\<lparr>ce_run_id = 3, ce_name_id = 0, ce_status = 0, ce_flags = 0\<rparr>,
                   \<lparr>ce_run_id = 7, ce_name_id = 1, ce_status = 1, ce_flags = 1\<rparr>]\<rparr>"

lemma contrib_index_sorted_witness:
  "passing_run_ids POLICY_STRICT (ci_add_entry \<lparr>ce_run_id = 5, ce_name_id = 0, ce_status = 0, ce_flags = 3\<rparr> example_contrib_index) = [3, 5]"
  using contrib_index_sorted[of example_contrib_index "\<lparr>ce_run_id = 5, ce_name_id = 0, ce_status = 0, ce_flags = 3\<rparr>" 0 POLICY_STRICT]
  by (simp add: ci_sorted_def example_contrib_index_def passing_run_ids_def admits_def policy_defs
      HIST_STATUS_OK_def is_rerun_def first_attempt_passed_def)

section \<open>Squash log\<close>

record SquashLogEntry =
  sq_ts :: int
  sq_policy :: int
  sq_from_run :: int
  sq_to_run :: int
  sq_num_runs :: int
  sq_pass_runs :: int

definition SQLG_MAGIC :: int where "SQLG_MAGIC = 0x53514C47"
definition SQLG_HDR :: "fld list" where "SQLG_HDR = [U 4, U 1, U 4]"
definition SQLG_ENTRY :: "fld list" where "SQLG_ENTRY = [U 4, U 1, X 3, U 4, U 4, U 4, U 4]"

definition squash_append :: "SquashLogEntry \<Rightarrow> SquashLogEntry list \<Rightarrow> SquashLogEntry list" where
  "squash_append e log = log @ [e]"

definition sqlg_write_entry :: "SquashLogEntry \<Rightarrow> bytes res" where
  "sqlg_write_entry e =
     pack SQLG_ENTRY [sq_ts e, sq_policy e, sq_from_run e, sq_to_run e, sq_num_runs e, sq_pass_runs e]"

definition sqlg_read_entry :: "bytes \<Rightarrow> nat \<Rightarrow> (SquashLogEntry \<times> nat) res" where
  "sqlg_read_entry data offset =
     bindE (unpack_from SQLG_ENTRY data offset) (\<lambda>v.
       Inr (\<lparr>sq_ts = v ! 0, sq_policy = v ! 1, sq_from_run = v ! 2, sq_to_run = v ! 3,
             sq_num_runs = v ! 4, sq_pass_runs = v ! 5\<rparr>, offset + calcsize SQLG_ENTRY))"

definition sqlg_serialize :: "SquashLogEntry list \<Rightarrow> bytes res" where
  "sqlg_serialize log =
     bindE (pack SQLG_HDR [SQLG_MAGIC, 1, int (length log)]) (\<lambda>header.
     bindE (concatE sqlg_write_entry log) (\<lambda>rows. Inr (header @ rows)))"

definition sqlg_deserialize :: "bytes \<Rightarrow> SquashLogEntry list res" where
  "sqlg_deserialize data =
     bindE (unpack_from SQLG_HDR data 0) (\<lambda>h.
       if h ! 0 \<noteq> SQLG_MAGIC then Inl ValueError
       else if h ! 1 \<noteq> 1 then Inl ValueError
       else bindE (repeat_dec sqlg_read_entry (nat (h ! 2)) data (calcsize SQLG_HDR)) (\<lambda>(log, _). Inr log))"

interpretation sqlg: fixed_codec sqlg_write_entry sqlg_read_entry "calcsize SQLG_ENTRY"
  by unfold_locales
    (auto simp: sqlg_write_entry_def sqlg_read_entry_def unpack_from_pack pack_length)

lemma sqlg_reload:
  assumes s: "sqlg_serialize log = Inr bs"
  shows "sqlg_deserialize (bs @ rest) = Inr log \<and> length bs = 9 + 24 * length log"
proof -
  obtain h r where h: "pack SQLG_HDR [SQLG_MAGIC, 1, int (length log)] = Inr h"
    and r: "concatE sqlg_write_entry log = Inr r" and bs: "bs = h @ r"
    using s by (auto simp: sqlg_serialize_def bindE_eq_Inr)
  show ?thesis
    by (simp add: bs sqlg_deserialize_def sqlg.table_read[OF h r] nth_Cons' pack_length[OF h] sqlg.concatE_width[OF r])
      (simp add: SQLG_HDR_def SQLG_ENTRY_def)
qed

text \<open>
  The squash log is read back exactly, each entry takes 24 bytes, and appending
  an entry only appends its 24 bytes: the rows of the earlier squash operations are never rewritten.
\<close>

theorem squash_log_append_only:
  assumes "sqlg_serialize log = Inr bs" and "sqlg_serialize (squash_append e log) = Inr cs"
  shows "sqlg_deserialize (bs @ rest) = Inr log \<and> sqlg_deserialize cs = Inr (log @ [e])
    \<and> (\<exists>row. length row = 24 \<and> drop 9 cs = drop 9 bs @ row)"
proof (intro conjI)
  show "sqlg_deserialize (bs @ rest) = Inr log" using sqlg_reload[OF assms(1)] by simp
  show "sqlg_deserialize cs = Inr (log @ [e])" using sqlg_reload[OF assms(2), of "[]"] by (simp add: squash_append_def)
  obtain h r where h: "pack SQLG_HDR [SQLG_MAGIC, 1, int (length log)] = Inr h"
    and r: "concatE sqlg_write_entry log = Inr r" and bs: "bs = h @ r"
    using assms(1) by (auto simp: sqlg_serialize_def bindE_eq_Inr)
  obtain h' r' row where h': "pack SQLG_HDR [SQLG_MAGIC, 1, int (Suc (length log))] = Inr h'"
    and row: "sqlg_write_entry e = Inr row" and cs: "cs = h' @ r' @ row" and "concatE sqlg_write_entry log = Inr r'"
    using assms(2) by (auto simp: sqlg_serialize_def bindE_eq_Inr squash_append_def concatE_append)
  moreover have "length row = 24" using sqlg.enc_width[OF row] by (simp add: SQLG_ENTRY_def)
  moreover have "length h = 9" "length h' = 9" using pack_length[OF h] pack_length[OF h'] by (simp_all add: SQLG_HDR_def)
  ultimately show "\<exists>row. length row = 24 \<and> drop 9 cs = drop 9 bs @ row" using r bs by auto
qed

definition example_squash :: SquashLogEntry where
  "example_squash = \<lparr>sq_ts = 1700000000, sq_policy = 1, sq_from_run = 0, sq_to_run = 99, sq_num_runs = 100, sq_pass_runs = 95\<rparr>"

lemma squash_log_append_only_witness:
  "\<exists>bs cs row. sqlg_serialize [] = Inr bs \<and> sqlg_serialize (squash_append example_squash []) = Inr cs \<and>
     sqlg_deserialize cs = Inr [example_squash] \<and> length row = 24 \<and> drop 9 cs = drop 9 bs @ row"
proof -
  have "is_ok (sqlg_serialize [])" "is_ok (sqlg_serialize (squash_append example_squash []))"
    by (simp_all add: sqlg_serialize_def SQLG_HDR_def SQLG_MAGIC_def squash_append_def sqlg_write_entry_def
        SQLG_ENTRY_def example_squash_def)
  then obtain bs cs where s: "sqlg_serialize [] = Inr bs" "sqlg_serialize (squash_append example_squash []) = Inr cs"
    by (auto elim!: is_okE)
  from squash_log_append_only[OF s, of "[]"] s show ?thesis by auto
qed

end
