(* ===== verification/TestRegistry.thy ===== *)
theory TestRegistry
  imports PyStruct Utf8 Interning
begin

text \<open>
  \<open>ncdb/test_registry.py\<close>: the registry of test names and seeds with stable ids and the run-id
  counter, and its member \<open>test_registry.bin\<close> (offset tables over two heaps of NUL-terminated
  UTF-8). Both tables are instances of the interning interface.
\<close>

record TestRegistry =
  reg_next_run_id :: int
  reg_names :: "pystr list"
  reg_seeds :: "pystr list"
  reg_name_to_id :: "(pystr \<times> nat) list"
  reg_seed_to_id :: "(pystr \<times> nat) list"

definition new_registry :: "int \<Rightarrow> TestRegistry" where
  "new_registry next_run_id =
     \<lparr>reg_next_run_id = next_run_id, reg_names = [], reg_seeds = [], reg_name_to_id = [], reg_seed_to_id = []\<rparr>"

definition assign_run_id :: "TestRegistry \<Rightarrow> int \<times> TestRegistry" where
  "assign_run_id reg = (reg_next_run_id reg, reg\<lparr>reg_next_run_id := reg_next_run_id reg + 1\<rparr>)"

definition lookup_name_id :: "pystr \<Rightarrow> TestRegistry \<Rightarrow> nat \<times> TestRegistry" where
  "lookup_name_id name reg =
     (case dict_get (reg_name_to_id reg) name of
        Some nid \<Rightarrow> (nid, reg)
      | None \<Rightarrow>
          let nid = length (reg_names reg)
          in (nid, reg\<lparr>reg_names := reg_names reg @ [name], reg_name_to_id := dict_set name nid (reg_name_to_id reg)\<rparr>))"

definition lookup_seed_id :: "pystr \<Rightarrow> TestRegistry \<Rightarrow> nat \<times> TestRegistry" where
  "lookup_seed_id seed reg =
     (case dict_get (reg_seed_to_id reg) seed of
        Some sid \<Rightarrow> (sid, reg)
      | None \<Rightarrow>
          let sid = length (reg_seeds reg)
          in (sid, reg\<lparr>reg_seeds := reg_seeds reg @ [seed], reg_seed_to_id := dict_set seed sid (reg_seed_to_id reg)\<rparr>))"

definition name_for_id :: "TestRegistry \<Rightarrow> int \<Rightarrow> pystr res" where
  "name_for_id reg name_id = py_nth (reg_names reg) name_id"

definition seed_for_id :: "TestRegistry \<Rightarrow> int \<Rightarrow> pystr res" where
  "seed_for_id reg seed_id = py_nth (reg_seeds reg) seed_id"

section \<open>Serialization\<close>

definition TSTR_MAGIC :: int where "TSTR_MAGIC = 0x54535452"
definition TSTR_HDR :: "fld list" where "TSTR_HDR = [U 4, U 1, U 4, U 4, U 4]"

definition string_heap :: "pystr list \<Rightarrow> bytes res" where
  "string_heap ss = concatE (\<lambda>s. bindE (utf8_encode s) (\<lambda>e. Inr (e @ [0]))) ss"

fun heap_offsets :: "nat \<Rightarrow> pystr list \<Rightarrow> nat list res" where
  "heap_offsets off [] = Inr []"
| "heap_offsets off (s # ss) =
     bindE (utf8_encode s) (\<lambda>e.
     bindE (heap_offsets (off + length e + 1) ss) (\<lambda>os. Inr (off # os)))"

definition reg_serialize :: "TestRegistry \<Rightarrow> bytes res" where
  "reg_serialize reg =
     bindE (string_heap (reg_names reg)) (\<lambda>name_heap.
     bindE (string_heap (reg_seeds reg)) (\<lambda>seed_heap.
     bindE (heap_offsets 0 (reg_names reg)) (\<lambda>name_offsets.
     bindE (heap_offsets 0 (reg_seeds reg)) (\<lambda>seed_offsets.
     bindE (pack TSTR_HDR [TSTR_MAGIC, 1, reg_next_run_id reg, int (length (reg_names reg)), int (length (reg_seeds reg))]) (\<lambda>header.
     bindE (pack (replicate (length name_offsets) (U 4)) (map int name_offsets)) (\<lambda>no.
     bindE (pack (replicate (length seed_offsets) (U 4)) (map int seed_offsets)) (\<lambda>so.
       Inr (header @ no @ so @ name_heap @ seed_heap))))))))"

text \<open>\<open>data.index(b"\x00", start)\<close>\<close>

definition index_nul :: "bytes \<Rightarrow> nat \<Rightarrow> nat res" where
  "index_nul data start =
     (let n = start + length (takeWhile (\<lambda>b. b \<noteq> 0) (drop start data))
      in if n < length data then Inr n else Inl ValueError)"

definition read_string :: "bytes \<Rightarrow> nat \<Rightarrow> int \<Rightarrow> pystr res" where
  "read_string data heap_base str_offset =
     (let start = heap_base + nat str_offset
      in bindE (index_nul data start) (\<lambda>end'. utf8_decode (slice data start end')))"

definition heap_size :: "pystr list \<Rightarrow> nat res" where
  "heap_size ss = foldE (\<lambda>n s. bindE (utf8_encode s) (\<lambda>e. Inr (n + length e + 1))) 0 ss"

definition reg_deserialize :: "bytes \<Rightarrow> TestRegistry res" where
  "reg_deserialize data =
     bindE (unpack_from TSTR_HDR data 0) (\<lambda>h.
       if h ! 0 \<noteq> TSTR_MAGIC then Inl ValueError
       else if h ! 1 \<noteq> 1 then Inl ValueError
       else
         let num_names = nat (h ! 3); num_seeds = nat (h ! 4); offset = calcsize TSTR_HDR in
         bindE (unpack_from (replicate num_names (U 4)) data offset) (\<lambda>name_offsets.
         let offset = offset + 4 * num_names in
         bindE (unpack_from (replicate num_seeds (U 4)) data offset) (\<lambda>seed_offsets.
         let heap_start = offset + 4 * num_seeds in
         bindE (mapE (read_string data heap_start) name_offsets) (\<lambda>names.
         bindE (heap_size names) (\<lambda>name_heap_size.
         let seed_heap_base = heap_start + name_heap_size in
         bindE (mapE (read_string data seed_heap_base) seed_offsets) (\<lambda>seeds.
           Inr \<lparr>reg_next_run_id = h ! 2, reg_names = names, reg_seeds = seeds,
                reg_name_to_id = dict_update [] (zip names [0..<length names]),
                reg_seed_to_id = dict_update [] (zip seeds [0..<length seeds])\<rparr>))))))"

section \<open>Interning laws\<close>

definition reg_inv :: "TestRegistry \<Rightarrow> bool" where
  "reg_inv reg \<longleftrightarrow>
     reg_name_to_id reg = zip (reg_names reg) [0..<length (reg_names reg)] \<and> distinct (reg_names reg) \<and>
     reg_seed_to_id reg = zip (reg_seeds reg) [0..<length (reg_seeds reg)] \<and> distinct (reg_seeds reg)"

lemma reg_inv_new [simp]: "reg_inv (new_registry n)"
  by (simp add: reg_inv_def new_registry_def)

lemma intern_step:
  assumes inv: "d = zip xs [0..<length xs]" "distinct xs"
  shows "dict_get d x = Some i \<longleftrightarrow> i < length xs \<and> xs ! i = x"
    and "x \<notin> set xs \<Longrightarrow> dict_get d x = None"
    and "x \<notin> set xs \<Longrightarrow> dict_set x (length xs) d = zip (xs @ [x]) [0..<Suc (length xs)]"
  using map_of_zip_upt_Some[OF inv(2), of x i] map_of_zip_upt_None[of xs x]
  by (simp_all add: inv(1) update_notin)

interpretation names: interning "\<lambda>reg s. (snd (lookup_name_id s reg), fst (lookup_name_id s reg))" reg_names reg_inv
proof
  fix reg s assume inv: "reg_inv reg"
  then have i: "reg_name_to_id reg = zip (reg_names reg) [0..<length (reg_names reg)]" "distinct (reg_names reg)"
    by (simp_all add: reg_inv_def)
  have "reg_inv (snd (lookup_name_id s reg)) \<and>
      reg_names (snd (lookup_name_id s reg)) = (if s \<in> set (reg_names reg) then reg_names reg else reg_names reg @ [s]) \<and>
      fst (lookup_name_id s reg) < length (reg_names (snd (lookup_name_id s reg))) \<and>
      reg_names (snd (lookup_name_id s reg)) ! fst (lookup_name_id s reg) = s"
  proof (cases "s \<in> set (reg_names reg)")
    case True
    then obtain k where "k < length (reg_names reg)" "reg_names reg ! k = s" by (auto simp: in_set_conv_nth)
    then show ?thesis using inv True by (simp add: lookup_name_id_def intern_step(1)[OF i, THEN iffD2])
  next
    case False
    then have "lookup_name_id s reg = (length (reg_names reg),
        reg\<lparr>reg_names := reg_names reg @ [s], reg_name_to_id := zip (reg_names reg @ [s]) [0..<Suc (length (reg_names reg))]\<rparr>)"
      by (simp only: lookup_name_id_def intern_step(2)[OF i False] intern_step(3)[OF i False] option.case Let_def)
    then show ?thesis using inv False by (simp del: upt_Suc) (simp add: reg_inv_def)
  qed
  then show "reg_inv (fst (snd (lookup_name_id s reg), fst (lookup_name_id s reg)))"
    "reg_names (fst (snd (lookup_name_id s reg), fst (lookup_name_id s reg))) =
      (if s \<in> set (reg_names reg) then reg_names reg else reg_names reg @ [s])"
    "snd (snd (lookup_name_id s reg), fst (lookup_name_id s reg)) < length (reg_names (fst (snd (lookup_name_id s reg), fst (lookup_name_id s reg))))
      \<and> reg_names (fst (snd (lookup_name_id s reg), fst (lookup_name_id s reg))) ! snd (snd (lookup_name_id s reg), fst (lookup_name_id s reg)) = s"
    unfolding fst_conv snd_conv by blast+
qed (simp add: reg_inv_def)

interpretation seeds: interning "\<lambda>reg s. (snd (lookup_seed_id s reg), fst (lookup_seed_id s reg))" reg_seeds reg_inv
proof
  fix reg s assume inv: "reg_inv reg"
  then have i: "reg_seed_to_id reg = zip (reg_seeds reg) [0..<length (reg_seeds reg)]" "distinct (reg_seeds reg)"
    by (simp_all add: reg_inv_def)
  have "reg_inv (snd (lookup_seed_id s reg)) \<and>
      reg_seeds (snd (lookup_seed_id s reg)) = (if s \<in> set (reg_seeds reg) then reg_seeds reg else reg_seeds reg @ [s]) \<and>
      fst (lookup_seed_id s reg) < length (reg_seeds (snd (lookup_seed_id s reg))) \<and>
      reg_seeds (snd (lookup_seed_id s reg)) ! fst (lookup_seed_id s reg) = s"
  proof (cases "s \<in> set (reg_seeds reg)")
    case True
    then obtain k where "k < length (reg_seeds reg)" "reg_seeds reg ! k = s" by (auto simp: in_set_conv_nth)
    then show ?thesis using inv True by (simp add: lookup_seed_id_def intern_step(1)[OF i, THEN iffD2])
  next
    case False
    then have "lookup_seed_id s reg = (length (reg_seeds reg),
        reg\<lparr>reg_seeds := reg_seeds reg @ [s], reg_seed_to_id := zip (reg_seeds reg @ [s]) [0..<Suc (length (reg_seeds reg))]\<rparr>)"
      by (simp only: lookup_seed_id_def intern_step(2)[OF i False] intern_step(3)[OF i False] option.case Let_def)
    then show ?thesis using inv False by (simp del: upt_Suc) (simp add: reg_inv_def)
  qed
  then show "reg_inv (fst (snd (lookup_seed_id s reg), fst (lookup_seed_id s reg)))"
    "reg_seeds (fst (snd (lookup_seed_id s reg), fst (lookup_seed_id s reg))) =
      (if s \<in> set (reg_seeds reg) then reg_seeds reg else reg_seeds reg @ [s])"
    "snd (snd (lookup_seed_id s reg), fst (lookup_seed_id s reg)) < length (reg_seeds (fst (snd (lookup_seed_id s reg), fst (lookup_seed_id s reg))))
      \<and> reg_seeds (fst (snd (lookup_seed_id s reg), fst (lookup_seed_id s reg))) ! snd (snd (lookup_seed_id s reg), fst (lookup_seed_id s reg)) = s"
    unfolding fst_conv snd_conv by blast+
qed (simp add: reg_inv_def)

lemma lookup_other [simp]:
  "reg_seeds (snd (lookup_name_id s reg)) = reg_seeds reg" "reg_names (snd (lookup_seed_id s reg)) = reg_names reg"
  "reg_next_run_id (snd (lookup_name_id s reg)) = reg_next_run_id reg"
  "reg_next_run_id (snd (lookup_seed_id s reg)) = reg_next_run_id reg"
  by (simp_all add: lookup_name_id_def lookup_seed_id_def split: option.split)

section \<open>Round trip\<close>

definition nul_free :: "pystr \<Rightarrow> bool" where
  "nul_free s = list_all (\<lambda>c. 0 < c) s"

lemma utf8_encode_nonzero: "utf8_encode s = Inr bs \<Longrightarrow> nul_free s \<Longrightarrow> 0 \<notin> set bs"
  unfolding utf8_encode_def nul_free_def
proof (induction s arbitrary: bs)
  case Nil
  then show ?case by simp
next
  case (Cons c s)
  then obtain b cs where "utf8_char c = Inr b" "concatE utf8_char s = Inr cs" "bs = b @ cs"
    by (auto simp: bindE_eq_Inr)
  with Cons utf8_char_nonzero[of c b] show ?case by auto
qed

lemma read_string_at:
  assumes e: "utf8_encode s = Inr e" and s: "nul_free s" and a: "at data (base + off) (e @ [0])"
  shows "read_string data base (int off) = Inr s"
proof -
  obtain pre post where d: "data = pre @ (e @ [0]) @ post" "length pre = base + off"
    using a unfolding at_iff by blast
  have "takeWhile (\<lambda>b. b \<noteq> 0) (e @ 0 # post) = e"
    using utf8_encode_nonzero[OF e s] by (induction e) auto
  then have "index_nul data (base + off) = Inr (base + off + length e)"
    using d by (simp add: index_nul_def)
  moreover have "slice data (base + off) (base + off + length e) = e" using d by (simp add: slice_def)
  ultimately show ?thesis using utf8_roundtrip[OF e] by (simp add: read_string_def)
qed

lemma heap_read:
  assumes "string_heap ss = Inr hp" "heap_offsets off ss = Inr os" "list_all nul_free ss"
    and "at data (base + off) hp"
  shows "mapE (read_string data base) (map int os) = Inr ss \<and> length os = length ss \<and> heap_size ss = Inr (length hp)"
proof -
  have "mapE (read_string data base) (map int os) = Inr ss \<and> length os = length ss \<and>
      (\<forall>n. foldE (\<lambda>n s. bindE (utf8_encode s) (\<lambda>e. Inr (n + length e + 1))) n ss = Inr (n + length hp))"
    using assms
  proof (induction ss arbitrary: off os hp)
    case Nil
    then show ?case by (auto simp: string_heap_def)
  next
    case (Cons s ss)
    obtain e hp' os' where e: "utf8_encode s = Inr e" "string_heap ss = Inr hp'" "hp = (e @ [0]) @ hp'"
      "heap_offsets (off + length e + 1) ss = Inr os'" "os = off # os'"
      using Cons.prems(1,2) by (auto simp: bindE_eq_Inr string_heap_def)
    have a: "at data (base + off) (e @ [0])" "at data (base + (off + length e + 1)) hp'"
      using Cons.prems(4) unfolding e(3) at_append[of data "base + off" "e @ [0]" hp'] by (simp_all add: add.assoc)
    have ih: "mapE (read_string data base) (map int os') = Inr ss \<and> length os' = length ss \<and>
      (\<forall>n. foldE (\<lambda>n s. bindE (utf8_encode s) (\<lambda>e. Inr (n + length e + 1))) n ss = Inr (n + length hp'))"
      using Cons.prems(3) by (intro Cons.IH[OF e(2) e(4) _ a(2)]) simp
    have "read_string data base (int off) = Inr s" using Cons.prems(3) by (intro read_string_at[OF e(1) _ a(1)]) simp
    with ih e show ?case by simp
  qed
  then show ?thesis by (simp add: heap_size_def)
qed

lemma dict_update_zip:
  "distinct xs \<Longrightarrow> dict_update [] (zip xs [0..<length xs]) = zip xs [0..<length xs]"
proof -
  have "distinct (map fst kvs) \<Longrightarrow> set (map fst d) \<inter> set (map fst kvs) = {} \<Longrightarrow> dict_update d kvs = d @ kvs"
    for d kvs :: "('a \<times> nat) list"
    unfolding dict_update_def
    by (induction kvs arbitrary: d) (auto simp: update_notin)
  from this[of "zip xs [0..<length xs]" "[]"] show "distinct xs \<Longrightarrow> dict_update [] (zip xs [0..<length xs]) = zip xs [0..<length xs]"
    by simp
qed

lemma registry_reload:
  assumes inv: "reg_inv reg" and nul: "list_all nul_free (reg_names reg)" "list_all nul_free (reg_seeds reg)"
    and ser: "reg_serialize reg = Inr bs"
  shows "reg_deserialize (bs @ rest) = Inr reg"
proof -
  let ?ns = "reg_names reg" and ?ss = "reg_seeds reg" and ?data = "bs @ rest"
  obtain nh sh no so h nb sb where p: "string_heap ?ns = Inr nh" "string_heap ?ss = Inr sh"
    "heap_offsets 0 ?ns = Inr no" "heap_offsets 0 ?ss = Inr so"
    "pack TSTR_HDR [TSTR_MAGIC, 1, reg_next_run_id reg, int (length ?ns), int (length ?ss)] = Inr h"
    "pack (replicate (length no) (U 4)) (map int no) = Inr nb"
    "pack (replicate (length so) (U 4)) (map int so) = Inr sb"
    and bs: "bs = h @ nb @ sb @ nh @ sh"
    using ser by (auto simp: reg_serialize_def bindE_eq_Inr)
  let ?o = "calcsize TSTR_HDR"
  have l: "length h = ?o" "length nb = 4 * length no" "length sb = 4 * length so"
    using pack_length[OF p(5)] pack_length[OF p(6)] pack_length[OF p(7)] by simp_all
  have "at ?data 0 (h @ nb @ sb @ nh @ sh)"
    using at_intro[of "[]" "h @ nb @ sb @ nh @ sh" rest] by (simp add: bs)
  then have a: "at ?data 0 h" "at ?data ?o nb" "at ?data (?o + 4 * length no) sb"
    "at ?data (?o + 4 * length no + 4 * length so + 0) nh"
    "at ?data (?o + 4 * length no + 4 * length so + length nh + 0) sh"
    by (simp_all add: at_append l)
  have n: "mapE (read_string ?data (?o + 4 * length no + 4 * length so)) (map int no) = Inr ?ns" "length no = length ?ns"
      "heap_size ?ns = Inr (length nh)"
    using heap_read[OF p(1) p(3) nul(1) a(4)] by blast+
  have s: "mapE (read_string ?data (?o + 4 * length no + 4 * length so + length nh)) (map int so) = Inr ?ss" "length so = length ?ss"
    using heap_read[OF p(2) p(4) nul(2) a(5)] by blast+
  note u = unpack_from_pack[OF p(5) a(1)] unpack_from_pack[OF p(6) a(2)] unpack_from_pack[OF p(7) a(3)]
  have "dict_update [] (zip ?ns [0..<length ?ns]) = reg_name_to_id reg" "dict_update [] (zip ?ss [0..<length ?ss]) = reg_seed_to_id reg"
    using inv dict_update_zip by (auto simp: reg_inv_def)
  with n s u show ?thesis
    by (simp add: reg_deserialize_def nth_Cons' del: append_assoc)
qed

text \<open>
  A registry whose names and seeds contain no NUL character is rebuilt exactly, tables
  and dictionaries, by \<open>deserialize\<close> from what \<open>serialize\<close> wrote, whatever bytes follow it.
\<close>

theorem test_registry_roundtrip:
  assumes "reg_inv reg" "list_all nul_free (reg_names reg)" "list_all nul_free (reg_seeds reg)"
    and "reg_serialize reg = Inr bs"
  shows "reg_deserialize (bs @ rest) = Inr reg"
  by (rule registry_reload[OF assms])

definition example_registry :: TestRegistry where
  "example_registry =
     snd (assign_run_id (snd (lookup_name_id (lit ''dma'') (snd (lookup_seed_id (lit ''42'')
       (snd (lookup_name_id (lit ''uart'') (new_registry 0))))))))"

lemma example_registry_eq:
  "example_registry = \<lparr>reg_next_run_id = 1, reg_names = [lit ''uart'', lit ''dma''], reg_seeds = [lit ''42''],
     reg_name_to_id = [(lit ''uart'', 0), (lit ''dma'', 1)], reg_seed_to_id = [(lit ''42'', 0)]\<rparr>"
  by (simp add: example_registry_def new_registry_def lookup_name_id_def lookup_seed_id_def assign_run_id_def lit_def)

lemma test_registry_roundtrip_witness:
  "\<exists>bs. reg_serialize example_registry = Inr bs \<and> reg_deserialize (bs @ [1, 2]) = Inr example_registry"
proof -
  have "is_ok (reg_serialize example_registry)"
    by (simp add: example_registry_eq reg_serialize_def string_heap_def lit_def utf8_encode_ascii TSTR_HDR_def TSTR_MAGIC_def)
  then obtain bs where bs: "reg_serialize example_registry = Inr bs" by (rule is_okE)
  have "reg_inv example_registry" "list_all nul_free (reg_names example_registry)" "list_all nul_free (reg_seeds example_registry)"
    by (simp_all add: example_registry_eq reg_inv_def nul_free_def lit_def)
  from test_registry_roundtrip[OF this bs, of "[1, 2]"] bs show ?thesis by blast
qed

section \<open>Sequences of registrations\<close>

datatype reg_op = RegisterName pystr | RegisterSeed pystr | AssignRun

text \<open>One call, with the run id it hands out when it is \<open>assign_run_id\<close>.\<close>

fun reg_step :: "reg_op \<Rightarrow> TestRegistry \<Rightarrow> int list \<times> TestRegistry" where
  "reg_step (RegisterName s) reg = ([], snd (lookup_name_id s reg))"
| "reg_step (RegisterSeed s) reg = ([], snd (lookup_seed_id s reg))"
| "reg_step AssignRun reg = (case assign_run_id reg of (r, reg') \<Rightarrow> ([r], reg'))"

fun reg_run :: "reg_op list \<Rightarrow> TestRegistry \<Rightarrow> int list \<times> TestRegistry" where
  "reg_run [] reg = ([], reg)"
| "reg_run (op # ops) reg =
     (let (rs, reg) = reg_step op reg; (rs', reg) = reg_run ops reg in (rs @ rs', reg))"

lemma py_nth_nat [simp]: "py_nth xs (int i) = (if i < length xs then Inr (xs ! i) else Inl IndexError)"
  by (simp add: py_nth_def)

lemma reg_step_facts:
  assumes "reg_inv reg"
  shows "reg_inv (snd (reg_step op reg)) \<and>
    (\<exists>ns. reg_names (snd (reg_step op reg)) = reg_names reg @ ns) \<and>
    (\<exists>ss. reg_seeds (snd (reg_step op reg)) = reg_seeds reg @ ss) \<and>
    fst (reg_step op reg) = [reg_next_run_id reg..reg_next_run_id (snd (reg_step op reg)) - 1]
    \<and> reg_next_run_id reg \<le> reg_next_run_id (snd (reg_step op reg))"
proof (cases op)
  case (RegisterName s)
  then show ?thesis using names.inv_add[OF assms, of s] names.add_prefix[OF assms, of s] by simp
next
  case (RegisterSeed s)
  then show ?thesis using seeds.inv_add[OF assms, of s] seeds.add_prefix[OF assms, of s] by simp
next
  case AssignRun
  then show ?thesis using assms by (simp add: assign_run_id_def reg_inv_def upto.simps)
qed

lemma reg_run_facts:
  "reg_inv reg \<Longrightarrow> reg_inv (snd (reg_run ops reg)) \<and>
    (\<exists>ns. reg_names (snd (reg_run ops reg)) = reg_names reg @ ns) \<and>
    (\<exists>ss. reg_seeds (snd (reg_run ops reg)) = reg_seeds reg @ ss) \<and>
    fst (reg_run ops reg) = [reg_next_run_id reg..reg_next_run_id (snd (reg_run ops reg)) - 1]
    \<and> reg_next_run_id reg \<le> reg_next_run_id (snd (reg_run ops reg))"
proof (induction ops arbitrary: reg)
  case Nil
  then show ?case by simp
next
  case (Cons op ops)
  obtain rs reg1 where s: "reg_step op reg = (rs, reg1)" by fastforce
  obtain rs' reg2 where r: "reg_run ops reg1 = (rs', reg2)" by fastforce
  note f = reg_step_facts[OF Cons.prems, of op, unfolded s fst_conv snd_conv]
  note g = Cons.IH[of reg1, unfolded r fst_conv snd_conv]
  have "rs @ rs' = [reg_next_run_id reg..reg_next_run_id reg2 - 1]"
    using f g upto_split1[of "reg_next_run_id reg" "reg_next_run_id reg1" "reg_next_run_id reg2 - 1"]
    by (cases "reg_next_run_id reg1 = reg_next_run_id reg2") simp_all
  with f g show ?case by (auto simp: s r)
qed

text \<open>
  Ids are stable under any sequence of registrations: every id handed out before still
  leads to the same name and the same seed, registering a known name again gives its old id, two names
  share an id only when they are equal, and the run ids handed out are consecutive, hence never reused.
\<close>

theorem registry_ids_stable:
  assumes "reg_inv reg" and "reg_run ops reg = (rs, reg')"
  shows "reg_inv reg'
    \<and> (\<forall>i < length (reg_names reg). name_for_id reg' (int i) = name_for_id reg (int i)
         \<and> (\<forall>s. name_for_id reg (int i) = Inr s \<longrightarrow> fst (lookup_name_id s reg') = i))
    \<and> (\<forall>i < length (reg_seeds reg). seed_for_id reg' (int i) = seed_for_id reg (int i))
    \<and> (\<forall>s t. fst (lookup_name_id t (snd (lookup_name_id s reg'))) = fst (lookup_name_id s reg') \<longleftrightarrow> s = t)
    \<and> rs = [reg_next_run_id reg..reg_next_run_id reg' - 1]"
proof -
  obtain ns ss where f: "reg_inv reg'" "reg_names reg' = reg_names reg @ ns" "reg_seeds reg' = reg_seeds reg @ ss"
    "rs = [reg_next_run_id reg..reg_next_run_id reg' - 1]"
    using reg_run_facts[OF assms(1), of ops] assms(2) by auto
  have "fst (lookup_name_id (reg_names reg ! i) reg') = i" if "i < length (reg_names reg)" for i
    using names.add_known[OF f(1), of i] f(2) that by (simp add: nth_append)
  with f names.add_inj[OF f(1)] show ?thesis
    by (simp add: name_for_id_def seed_for_id_def nth_append)
qed

lemma registry_ids_stable_witness:
  "fst (reg_run [AssignRun, RegisterName (lit ''spi''), AssignRun] example_registry) = [1, 2] \<and>
   name_for_id (snd (reg_run [AssignRun, RegisterName (lit ''spi''), AssignRun] example_registry)) 1 = Inr (lit ''dma'')"
  using registry_ids_stable[of example_registry "[AssignRun, RegisterName (lit ''spi''), AssignRun]"]
  by (simp add: example_registry_eq reg_inv_def lookup_name_id_def assign_run_id_def lit_def name_for_id_def py_nth_def)

end
