(* ===== verification/HistoryBuckets.thy ===== *)
theory HistoryBuckets
  imports PyStruct Varint "HOL-Library.Multiset" "HOL-Library.Product_Lexorder"
begin

text \<open>
  \<open>ncdb/history_buckets.py\<close>: the columnar bucket files of the run history. \<open>BucketWriter\<close> collects
  records and a local seed dictionary and encodes them sorted by name and time; \<open>BucketReader\<close> parses
  the columns back and finds the records of a name by binary search in the name index. The model is
  of \<open>_encode\<close> and \<open>_parse\<close>; the compression around them is the standard library's.
\<close>

section \<open>Writer\<close>

record BucketRecord =
  br_name_id :: int
  br_seed_id :: int
  br_ts :: int
  br_status :: int
  br_flags :: int

record BucketWriter =
  bw_records :: "BucketRecord list"
  bw_seed_local :: "(int \<times> nat) list"
  bw_seed_ids :: "int list"

definition HDYB_MAGIC :: int where "HDYB_MAGIC = 0x48445942"
definition BUCKET_HDR :: "fld list" where "BUCKET_HDR = [U 4, U 1, U 4, U 2, X 1, U 4]"
definition BUCKET_NAME :: "fld list" where "BUCKET_NAME = [U 4, U 4, U 2, X 2]"
definition HISTORY_BUCKET_MAX_RECORDS :: nat where "HISTORY_BUCKET_MAX_RECORDS = 10000"

definition new_bucket :: BucketWriter where
  "new_bucket = \<lparr>bw_records = [], bw_seed_local = [], bw_seed_ids = []\<rparr>"

definition bucket_add :: "BucketRecord \<Rightarrow> BucketWriter \<Rightarrow> BucketWriter res" where
  "bucket_add r w =
     bindE (case dict_get (bw_seed_local w) (br_seed_id r) of
              Some _ \<Rightarrow> Inr w
            | None \<Rightarrow>
                let idx = length (bw_seed_ids w)
                in if idx \<ge> 255 then Inl OverflowError
                   else Inr (w\<lparr>bw_seed_local := dict_set (br_seed_id r) idx (bw_seed_local w),
                               bw_seed_ids := bw_seed_ids w @ [br_seed_id r]\<rparr>)) (\<lambda>w.
     Inr (w\<lparr>bw_records := bw_records w @ [r]\<rparr>))"

definition is_full :: "BucketWriter \<Rightarrow> bool" where
  "is_full w = (length (bw_records w) \<ge> HISTORY_BUCKET_MAX_RECORDS)"

text \<open>\<open>sorted(records, key=lambda r: (r.name_id, r.ts))\<close>\<close>

definition sorted_records :: "BucketRecord list \<Rightarrow> BucketRecord list" where
  "sorted_records rs = sort_key (\<lambda>r. (br_name_id r, br_ts r)) rs"

definition name_groups :: "BucketRecord list \<Rightarrow> (int \<times> nat list) list" where
  "name_groups records =
     foldl (\<lambda>d (i, r). dict_set (br_name_id r)
              ((case dict_get d (br_name_id r) of None \<Rightarrow> [] | Some rows \<Rightarrow> rows) @ [i]) d)
       [] (enumerate 0 records)"

fun name_index_entries :: "nat \<Rightarrow> (int \<times> nat) list \<Rightarrow> (int \<times> nat \<times> nat) list" where
  "name_index_entries start_row [] = []"
| "name_index_entries start_row ((nid, cnt) # gs) = (nid, start_row, cnt) # name_index_entries (start_row + cnt) gs"

definition bucket_name_index :: "BucketRecord list \<Rightarrow> (int \<times> nat \<times> nat) list" where
  "bucket_name_index records =
     (let name_groups = name_groups records; sorted_names = sort (dict_keys name_groups)
      in name_index_entries 0 (map (\<lambda>nid. (nid, length (the (dict_get name_groups nid)))) sorted_names))"

definition status_flags :: "int \<Rightarrow> int \<Rightarrow> int" where
  "status_flags status flags = push_bit 4 (status AND 15) OR (flags AND 15)"

text \<open>The three columns, in one pass over the sorted records.\<close>

fun bucket_columns ::
  "(int \<times> nat) list \<Rightarrow> int \<Rightarrow> (int \<times> int) list \<Rightarrow> BucketRecord list \<Rightarrow> (bytes \<times> int list \<times> bytes) res" where
  "bucket_columns seed_local ts_base prev [] = Inr ([], [], [])"
| "bucket_columns seed_local ts_base prev (r # rs) =
     (case dict_get seed_local (br_seed_id r) of
        None \<Rightarrow> Inl KeyError
      | Some local_seed \<Rightarrow>
          let prev_ts = (case dict_get prev (br_name_id r) of None \<Rightarrow> ts_base | Some t \<Rightarrow> t)
          in bindE (bucket_columns seed_local ts_base (dict_set (br_name_id r) (br_ts r) prev) rs)
               (\<lambda>(seeds, deltas, sfs).
                 Inr (of_nat local_seed # seeds, (br_ts r - prev_ts) # deltas,
                      of_int (status_flags (br_status r) (br_flags r)) # sfs)))"

definition write_name :: "int \<times> nat \<times> nat \<Rightarrow> bytes res" where
  "write_name = (\<lambda>(nid, sr, cnt). pack BUCKET_NAME [nid, int sr, int cnt])"

definition bucket_encode :: "BucketWriter \<Rightarrow> bytes res" where
  "bucket_encode w =
     (let records = sorted_records (bw_records w);
          ts_base = (case records of [] \<Rightarrow> 0 | r # _ \<Rightarrow> br_ts r);
          name_index = bucket_name_index records
      in bindE (bucket_columns (bw_seed_local w) ts_base [] records) (\<lambda>(seed_col, ts_delta_values, status_flags_col).
         bindE (encode_varints ts_delta_values) (\<lambda>ts_delta_col.
         bindE (pack BUCKET_HDR [HDYB_MAGIC, 1, int (length records), int (length name_index), ts_base]) (\<lambda>header.
         bindE (concatE write_name name_index) (\<lambda>name_idx_bytes.
         bindE (pack [U 2] [int (length (bw_seed_ids w))]) (\<lambda>num_seeds.
         bindE (pack (replicate (length (bw_seed_ids w)) (U 4)) (bw_seed_ids w)) (\<lambda>seed_dict.
           Inr (header @ name_idx_bytes @ num_seeds @ seed_dict @ seed_col @ ts_delta_col @ status_flags_col))))))))"

section \<open>Reader\<close>

record BucketReader =
  rd_num_records :: nat
  rd_name_index :: "(int \<times> nat \<times> nat) list"
  rd_seed_ids :: "int list"
  rd_records :: "BucketRecord list"

definition read_name :: "bytes \<Rightarrow> nat \<Rightarrow> ((int \<times> nat \<times> nat) \<times> nat) res" where
  "read_name raw offset =
     bindE (unpack_from BUCKET_NAME raw offset) (\<lambda>v.
       Inr ((v ! 0, nat (v ! 1), nat (v ! 2)), offset + calcsize BUCKET_NAME))"

text \<open>\<open>for i in range(cnt): row_name[sr + i] = nid\<close>\<close>

definition name_rows :: "int list \<Rightarrow> int \<times> nat \<times> nat \<Rightarrow> int list res" where
  "name_rows row_name = (\<lambda>(nid, sr, cnt).
     foldE (\<lambda>rn i. if sr + i < length rn then Inr (rn[sr + i := nid]) else Inl IndexError) row_name [0..<cnt])"

fun bucket_rows ::
  "int list \<Rightarrow> int \<Rightarrow> (int \<times> int) list \<Rightarrow> int list \<Rightarrow> bytes \<Rightarrow> nat list \<Rightarrow> bytes \<Rightarrow> BucketRecord list res" where
  "bucket_rows seed_ids ts_base prev [] seed_col deltas sfs = Inr []"
| "bucket_rows seed_ids ts_base prev (nid # names) (sd # seed_col) (delta # deltas) (sf # sfs) =
     (let prev_ts = (case dict_get prev nid of None \<Rightarrow> ts_base | Some t \<Rightarrow> t);
          ts = prev_ts + int delta;
          local_seed = unat sd;
          seed_id = (if local_seed < length seed_ids then seed_ids ! local_seed else 0);
          status = drop_bit 4 (int (unat sf)) AND 15;
          flags = int (unat sf) AND 15
      in bindE (bucket_rows seed_ids ts_base (dict_set nid ts prev) names seed_col deltas sfs) (\<lambda>rs.
           Inr (\<lparr>br_name_id = nid, br_seed_id = seed_id, br_ts = ts, br_status = status, br_flags = flags\<rparr> # rs)))"
| "bucket_rows seed_ids ts_base prev (nid # names) _ _ _ = Inl IndexError"

definition bucket_parse :: "bytes \<Rightarrow> BucketReader res" where
  "bucket_parse raw =
     bindE (unpack_from BUCKET_HDR raw 0) (\<lambda>h.
       if h ! 0 \<noteq> HDYB_MAGIC then Inl ValueError
       else if h ! 1 \<noteq> 1 then Inl ValueError
       else
         let num_records = nat (h ! 2); num_names = nat (h ! 3); ts_base = h ! 4 in
         bindE (repeat_dec read_name num_names raw (calcsize BUCKET_HDR)) (\<lambda>(name_index, offset).
         bindE (unpack_from [U 2] raw offset) (\<lambda>n.
         let num_seeds = nat (n ! 0); offset = offset + 2 in
         bindE (unpack_from (replicate num_seeds (U 4)) raw offset) (\<lambda>seed_ids.
         let offset = offset + 4 * num_seeds;
             seed_col = slice raw offset (offset + num_records);
             offset = offset + num_records in
         bindE (decode_varints raw num_records offset) (\<lambda>(deltas, offset).
         let sfs = slice raw offset (offset + num_records) in
         bindE (foldE name_rows (replicate num_records 0) name_index) (\<lambda>row_name.
         bindE (bucket_rows seed_ids ts_base [] row_name seed_col deltas sfs) (\<lambda>records.
           Inr \<lparr>rd_num_records = num_records, rd_name_index = name_index, rd_seed_ids = seed_ids,
                rd_records = records\<rparr>)))))))"

text \<open>The binary search of \<open>records_for_name\<close>: the least index whose name is not below the key.\<close>

function bisect_names :: "(int \<times> nat \<times> nat) list \<Rightarrow> int \<Rightarrow> nat \<Rightarrow> nat \<Rightarrow> nat" where
  "bisect_names idx name_id lo hi =
     (if lo < hi then
        let mid = (lo + hi) div 2
        in if fst (idx ! mid) < name_id then bisect_names idx name_id (mid + 1) hi
           else bisect_names idx name_id lo mid
      else lo)"
  by pat_completeness auto
termination
  by (relation "measure (\<lambda>(_, _, lo, hi). hi - lo)") auto

declare bisect_names.simps [simp del]

definition records_for_name :: "BucketReader \<Rightarrow> int \<Rightarrow> BucketRecord list" where
  "records_for_name rd name_id =
     (let idx = rd_name_index rd; lo = bisect_names idx name_id 0 (length idx)
      in if lo \<ge> length idx \<or> fst (idx ! lo) \<noteq> name_id then []
         else case idx ! lo of (_, start_row, n) \<Rightarrow> slice (rd_records rd) start_row (start_row + n))"

section \<open>The name index\<close>

definition group_len :: "(int \<times> nat list) list \<Rightarrow> int \<Rightarrow> nat" where
  "group_len d n = (case dict_get d n of None \<Rightarrow> 0 | Some rows \<Rightarrow> length rows)"

lemma name_groups_gen:
  fixes d :: "(int \<times> nat list) list"
  defines "step \<equiv> \<lambda>d (i, r). dict_set (br_name_id r)
              ((case dict_get d (br_name_id r) of None \<Rightarrow> [] | Some rows \<Rightarrow> rows) @ [i]) d"
  assumes "distinct (dict_keys d)"
  shows "distinct (dict_keys (foldl step d (enumerate k rs))) \<and>
    set (dict_keys (foldl step d (enumerate k rs))) = set (dict_keys d) \<union> set (map br_name_id rs) \<and>
    group_len (foldl step d (enumerate k rs)) n = group_len d n + count_list (map br_name_id rs) n"
  using assms(2)
proof (induction rs arbitrary: d k)
  case Nil
  then show ?case by simp
next
  case (Cons r rs)
  have 1: "distinct (dict_keys (step d (k, r)))" using Cons.prems by (simp add: step_def distinct_update)
  have 2: "set (dict_keys (step d (k, r))) = insert (br_name_id r) (set (dict_keys d))"
    by (auto simp: step_def dict_keys_set)
  have 3: "group_len (step d (k, r)) n = group_len d n + (if n = br_name_id r then 1 else 0)"
    by (auto simp: step_def group_len_def dict_get_set split: option.split)
  from Cons.IH[OF 1, of "Suc k"] show ?case
    unfolding 2 3 by (auto simp: step_def)
qed

lemma name_groups_spec:
  "distinct (dict_keys (name_groups rs))" "set (dict_keys (name_groups rs)) = set (map br_name_id rs)"
  "n \<in> set (map br_name_id rs) \<Longrightarrow> length (the (dict_get (name_groups rs) n)) = count_list (map br_name_id rs) n"
proof -
  have g: "distinct (dict_keys (name_groups rs)) \<and> set (dict_keys (name_groups rs)) = set (map br_name_id rs) \<and>
      group_len (name_groups rs) n = count_list (map br_name_id rs) n" for n
    using name_groups_gen[of "[]" 0 rs n] by (simp add: name_groups_def group_len_def)
  then show "distinct (dict_keys (name_groups rs))" "set (dict_keys (name_groups rs)) = set (map br_name_id rs)" by blast+
  show "length (the (dict_get (name_groups rs) n)) = count_list (map br_name_id rs) n" if n: "n \<in> set (map br_name_id rs)"
  proof -
    have "dict_get (name_groups rs) n \<noteq> None" using g n by (simp add: map_of_eq_None_iff)
    then show ?thesis using g[of n] by (auto simp: group_len_def)
  qed
qed

text \<open>The names with their numbers of records, in increasing order.\<close>

definition name_counts :: "int list \<Rightarrow> (int \<times> nat) list" where
  "name_counts ns = map (\<lambda>n. (n, count_list ns n)) (sorted_list_of_set (set ns))"

definition expand :: "(int \<times> nat) list \<Rightarrow> int list" where
  "expand gs = concat (map (\<lambda>(n, c). replicate c n) gs)"

lemma expand_simps [simp]: "expand [] = []" "expand ((n, c) # gs) = replicate c n @ expand gs"
  by (simp_all add: expand_def)

lemma bucket_name_index_eq:
  "bucket_name_index rs = name_index_entries 0 (name_counts (map br_name_id rs))"
proof -
  have "sort (dict_keys (name_groups rs)) = sorted_list_of_set (set (map br_name_id rs))"
    using name_groups_spec(1,2)[of rs]
    by (metis sorted_list_of_set_sort_remdups distinct_remdups_id)
  then have "map (\<lambda>nid. (nid, length (the (dict_get (name_groups rs) nid)))) (sort (dict_keys (name_groups rs))) =
      name_counts (map br_name_id rs)"
    unfolding name_counts_def using name_groups_spec(3)[of _ rs] by (intro map_cong) auto
  then show ?thesis by (simp only: bucket_name_index_def Let_def)
qed

lemma name_counts_strict: "sorted_wrt (<) (map fst (name_counts ns))"
  by (simp add: name_counts_def comp_def)

lemma expand_counts:
  assumes "sorted ns"
  shows "expand (name_counts ns) = ns"
proof -
  have so: "sorted (concat (map (\<lambda>n. replicate (f n) n) ks))" if "sorted_wrt (<) ks" for f :: "int \<Rightarrow> nat" and ks
    using that by (induction ks) (auto simp: sorted_append less_imp_le)
  have ct: "count_list (concat (map (\<lambda>n. replicate (f n) n) ks)) m = (if m \<in> set ks then f m else 0)"
    if "distinct ks" for f :: "int \<Rightarrow> nat" and ks m
  proof -
    have r: "count_list (replicate c n) m = (if m = n then c else 0)" for c and n :: int by (induction c) auto
    show ?thesis using that by (induction ks) (auto simp: r)
  qed
  have e: "expand (name_counts ns) = concat (map (\<lambda>n. replicate (count_list ns n) n) (sorted_list_of_set (set ns)))"
    by (simp add: expand_def name_counts_def comp_def)
  have "sorted (expand (name_counts ns))" unfolding e by (rule so) simp
  moreover have "mset (expand (name_counts ns)) = mset ns"
    unfolding e by (rule multiset_eqI) (simp add: ct count_mset)
  ultimately have "sort ns = expand (name_counts ns)" by (rule properties_for_sort[rotated])
  with assms show ?thesis by (simp add: sorted_sort_id)
qed

lemma name_rows_at:
  assumes "cnt \<le> length rest"
  shows "name_rows (pre @ rest) (nid, length pre, cnt) = Inr (pre @ replicate cnt nid @ drop cnt rest)"
proof -
  have "foldE (\<lambda>rn i. if length pre + i < length rn then Inr (rn[length pre + i := nid]) else Inl IndexError) (pre @ rest) [0..<k] =
      Inr (pre @ replicate k nid @ drop k rest)" if "k \<le> length rest" for k
    using that
  proof (induction k)
    case 0
    then show ?case by simp
  next
    case (Suc k)
    then obtain y ys where d: "drop k rest = y # ys" by (cases "drop k rest") auto
    then have "drop (Suc k) rest = ys" by (simp add: drop_Suc drop_tl)
    with Suc d show ?case by (simp add: foldE_append list_update_append replicate_append_same)
  qed
  with assms show ?thesis by (simp add: name_rows_def)
qed

lemma name_index_expand:
  "length rest = length (expand gs) \<Longrightarrow>
   foldE name_rows (pre @ rest) (name_index_entries (length pre) gs) = Inr (pre @ expand gs)"
proof (induction gs arbitrary: pre rest)
  case Nil
  then show ?case by simp
next
  case (Cons g gs)
  obtain n c where g: "g = (n, c)" by (cases g)
  have "foldE name_rows ((pre @ replicate c n) @ drop c rest) (name_index_entries (length (pre @ replicate c n)) gs) =
      Inr ((pre @ replicate c n) @ expand gs)"
    using Cons.prems g by (intro Cons.IH) simp
  then show ?case using Cons.prems by (simp add: g name_rows_at)
qed

section \<open>Columns\<close>

definition seeds_inv :: "BucketWriter \<Rightarrow> bool" where
  "seeds_inv w \<longleftrightarrow>
     bw_seed_local w = zip (bw_seed_ids w) [0..<length (bw_seed_ids w)] \<and> distinct (bw_seed_ids w) \<and>
     length (bw_seed_ids w) \<le> 255 \<and> (\<forall>r\<in>set (bw_records w). br_seed_id r \<in> set (bw_seed_ids w))"

lemma seeds_inv_new [simp]: "seeds_inv new_bucket"
  by (simp add: seeds_inv_def new_bucket_def)

lemma seeds_inv_add:
  assumes "seeds_inv w" "bucket_add r w = Inr w'"
  shows "seeds_inv w' \<and> bw_records w' = bw_records w @ [r]"
proof -
  let ?ids = "bw_seed_ids w"
  have inv: "bw_seed_local w = zip ?ids [0..<length ?ids]" "distinct ?ids" "length ?ids \<le> 255"
    "\<forall>r\<in>set (bw_records w). br_seed_id r \<in> set ?ids"
    using assms(1) by (simp_all add: seeds_inv_def)
  show ?thesis
  proof (cases "br_seed_id r \<in> set ?ids")
    case True
    then have "dict_get (bw_seed_local w) (br_seed_id r) \<noteq> None" using inv by (simp add: map_of_zip_upt_None)
    with assms(2) have "w' = w\<lparr>bw_records := bw_records w @ [r]\<rparr>" by (auto simp: bucket_add_def)
    with True inv show ?thesis by (simp add: seeds_inv_def)
  next
    case False
    then have n: "dict_get (bw_seed_local w) (br_seed_id r) = None" using inv by (simp add: map_of_zip_upt_None)
    with assms(2) have "\<not> length ?ids \<ge> 255" by (auto simp: bucket_add_def split: if_splits)
    moreover from n assms(2) calculation have "w' = w\<lparr>bw_seed_local := dict_set (br_seed_id r) (length ?ids) (bw_seed_local w),
        bw_seed_ids := ?ids @ [br_seed_id r], bw_records := bw_records w @ [r]\<rparr>"
      by (simp add: bucket_add_def)
    ultimately show ?thesis using False inv by (auto simp: seeds_inv_def update_notin)
  qed
qed

lemma status_flags_nibbles:
  assumes "0 \<le> s" "s < 16" "0 \<le> f" "f < 16"
  shows "drop_bit 4 (int (unat (of_int (status_flags s f) :: byte))) AND 15 = s \<and>
    int (unat (of_int (status_flags s f) :: byte)) AND 15 = f"
proof -
  have a15: "x AND 15 = x mod 16" for x :: int
    using take_bit_eq_mask[of 4 x] by (simp add: take_bit_eq_mod mask_eq_exp_minus_1)
  have "push_bit 4 s OR f = 16 * s + f"
  proof -
    have "push_bit 4 s AND f = 0"
    proof (rule bit_eqI)
      fix n
      have "take_bit 4 f = f" using assms by (simp add: take_bit_int_eq_self_iff)
      then have "bit f n \<Longrightarrow> n < 4" by (metis bit_take_bit_iff)
      then show "bit (push_bit 4 s AND f) n = bit 0 n" by (auto simp: bit_simps)
    qed
    then show ?thesis using disjunctive_add_eq_or[of "push_bit 4 s" f] by (simp add: push_bit_eq_mult)
  qed
  then have v: "status_flags s f = 16 * s + f" using assms by (simp add: status_flags_def a15)
  have "int (unat (of_int x :: byte)) = x mod 256" for x
    by (simp add: unsigned_of_int take_bit_eq_mod)
  then have "int (unat (of_int (16 * s + f) :: byte)) = (16 * s + f) mod 256" .
  also have "\<dots> = 16 * s + f" using assms by (intro mod_pos_pos_trivial) simp_all
  finally show ?thesis using assms by (simp add: v a15 drop_bit_eq_div)
qed

definition nibbles_ok :: "BucketRecord \<Rightarrow> bool" where
  "nibbles_ok r \<longleftrightarrow> 0 \<le> br_status r \<and> br_status r < 16 \<and> 0 \<le> br_flags r \<and> br_flags r < 16"

lemma columns_length:
  "bucket_columns sl b prev rs = Inr (sc, ds, sf) \<Longrightarrow> length sc = length rs \<and> length ds = length rs \<and> length sf = length rs"
  by (induction sl b prev rs arbitrary: sc ds sf rule: bucket_columns.induct)
    (auto simp: bindE_eq_Inr split: option.splits)

text \<open>Reading the columns back along the names gives the records, when no delta is negative.\<close>

lemma columns_read:
  assumes "distinct ids" "length ids \<le> 255"
    and "bucket_columns (zip ids [0..<length ids]) ts_base prev rs = Inr (sc, ds, sf)"
    and "\<forall>r\<in>set rs. nibbles_ok r" "\<forall>d\<in>set ds. 0 \<le> d"
  shows "bucket_rows ids ts_base prev (map br_name_id rs) sc (map nat ds) sf = Inr rs"
  using assms(3-)
proof (induction rs arbitrary: prev sc ds sf)
  case Nil
  then show ?case by simp
next
  case (Cons r rs)
  let ?sl = "zip ids [0..<length ids]"
  obtain k where k: "dict_get ?sl (br_seed_id r) = Some k"
    using Cons.prems(1) by (auto split: option.splits)
  let ?prev_ts = "case dict_get prev (br_name_id r) of None \<Rightarrow> ts_base | Some t \<Rightarrow> t"
  obtain sc' ds' sf' where c: "bucket_columns ?sl ts_base (dict_set (br_name_id r) (br_ts r) prev) rs = Inr (sc', ds', sf')"
    "sc = of_nat k # sc'" "ds = (br_ts r - ?prev_ts) # ds'" "sf = of_int (status_flags (br_status r) (br_flags r)) # sf'"
    using Cons.prems(1) k by (auto simp: bindE_eq_Inr)
  have kn: "k < length ids" "ids ! k = br_seed_id r"
    using k map_of_zip_upt_Some[OF assms(1), of "br_seed_id r" k] by simp_all
  have "unat (of_nat k :: byte) = k" using kn assms(2) by (simp add: unat_of_nat)
  moreover have "?prev_ts + int (nat (br_ts r - ?prev_ts)) = br_ts r" using Cons.prems(3) c(3) by simp
  moreover have "bucket_rows ids ts_base (dict_set (br_name_id r) (br_ts r) prev) (map br_name_id rs) sc' (map nat ds') sf' = Inr rs"
    using Cons.prems(2,3) c by (intro Cons.IH[OF c(1)]) simp_all
  moreover have "drop_bit 4 (int (unat (of_int (status_flags (br_status r) (br_flags r)) :: byte))) AND 15 = br_status r"
      "int (unat (of_int (status_flags (br_status r) (br_flags r)) :: byte)) AND 15 = br_flags r"
    using status_flags_nibbles[of "br_status r" "br_flags r"] Cons.prems(2) by (auto simp: nibbles_ok_def)
  ultimately show ?case using kn by (simp only: c list.map bucket_rows.simps Let_def bindE_Inr if_True) simp
qed

section \<open>Round trip\<close>

interpretation names_idx: fixed_codec write_name read_name "calcsize BUCKET_NAME"
  by unfold_locales
    (auto simp: write_name_def read_name_def unpack_from_pack pack_length split: prod.splits)

lemma sorted_names: "sorted (map br_name_id (sorted_records rs))"
proof -
  have "sorted (map (\<lambda>r. (br_name_id r, br_ts r)) (sorted_records rs))"
    by (simp add: sorted_records_def)
  then show ?thesis by (auto simp: sorted_wrt_map less_eq_prod_def elim!: sorted_wrt_mono_rel[rotated])
qed

lemma bucket_parts:
  assumes "bucket_encode w = Inr raw"
  obtains sc ds sf dc h nb ns sd where
    "bucket_columns (bw_seed_local w) (case sorted_records (bw_records w) of [] \<Rightarrow> 0 | r # _ \<Rightarrow> br_ts r) [] (sorted_records (bw_records w)) = Inr (sc, ds, sf)"
    "encode_varints ds = Inr dc"
    "pack BUCKET_HDR [HDYB_MAGIC, 1, int (length (bw_records w)), int (length (bucket_name_index (sorted_records (bw_records w)))),
       case sorted_records (bw_records w) of [] \<Rightarrow> 0 | r # _ \<Rightarrow> br_ts r] = Inr h"
    "concatE write_name (bucket_name_index (sorted_records (bw_records w))) = Inr nb"
    "pack [U 2] [int (length (bw_seed_ids w))] = Inr ns"
    "pack (replicate (length (bw_seed_ids w)) (U 4)) (bw_seed_ids w) = Inr sd"
    "raw = h @ nb @ ns @ sd @ sc @ dc @ sf"
  using assms by (auto simp: bucket_encode_def bindE_eq_Inr sorted_records_def simp del: pack.simps)

lemma bucket_reload:
  assumes inv: "seeds_inv w" and nib: "\<forall>r\<in>set (bw_records w). nibbles_ok r" and enc: "bucket_encode w = Inr raw"
  shows "bucket_parse (raw @ rest) = Inr
    \<lparr>rd_num_records = length (bw_records w),
     rd_name_index = name_index_entries 0 (name_counts (map br_name_id (sorted_records (bw_records w)))),
     rd_seed_ids = bw_seed_ids w, rd_records = sorted_records (bw_records w)\<rparr>"
proof -
  let ?rs = "sorted_records (bw_records w)"
  let ?b = "case ?rs of [] \<Rightarrow> 0 | r # _ \<Rightarrow> br_ts r"
  let ?idx = "name_index_entries 0 (name_counts (map br_name_id ?rs))"
  let ?data = "raw @ rest"
  obtain sc ds sf dc h nb ns sd where
    c: "bucket_columns (bw_seed_local w) ?b [] ?rs = Inr (sc, ds, sf)"
    and dc: "encode_varints ds = Inr dc"
    and h: "pack BUCKET_HDR [HDYB_MAGIC, 1, int (length (bw_records w)), int (length ?idx), ?b] = Inr h"
    and nb: "concatE write_name ?idx = Inr nb"
    and ns: "pack [U 2] [int (length (bw_seed_ids w))] = Inr ns"
    and sd: "pack (replicate (length (bw_seed_ids w)) (U 4)) (bw_seed_ids w) = Inr sd"
    and raw: "raw = h @ nb @ ns @ sd @ sc @ dc @ sf"
    using bucket_parts[OF enc] unfolding bucket_name_index_eq by blast
  have len: "length sc = length (bw_records w)" "length ds = length (bw_records w)" "length sf = length (bw_records w)"
    using columns_length[OF c] by (simp_all add: sorted_records_def)
  have pos: "\<forall>d\<in>set ds. 0 \<le> d" and dcb: "dc = concat (map varint_loop (map nat ds))"
    using encode_varints_eq_Inr[OF dc] by (simp_all add: comp_def)
  have l: "length h = calcsize BUCKET_HDR" "length ns = 2" "length sd = 4 * length (bw_seed_ids w)"
    using pack_length[OF h] pack_length[OF ns] pack_length[OF sd] by simp_all
  let ?o1 = "calcsize BUCKET_HDR" and ?n = "length (bw_records w)"
  let ?o2 = "?o1 + length nb" let ?o3 = "?o2 + 2" let ?o4 = "?o3 + 4 * length (bw_seed_ids w)" let ?o5 = "?o4 + ?n"
  have "at ?data 0 (h @ nb @ ns @ sd @ sc @ dc @ sf)"
    using at_intro[of "[]" "h @ nb @ ns @ sd @ sc @ dc @ sf" rest] by (simp add: raw)
  then have a: "at ?data 0 h" "at ?data ?o1 nb" "at ?data ?o2 ns" "at ?data ?o3 sd" "at ?data ?o4 sc" "at ?data ?o5 dc"
    "at ?data (?o5 + length dc) sf"
    by (simp_all add: at_append l len add.assoc)
  have d: "decode_varints ?data ?n ?o5 = Inr (map nat ds, ?o5 + length dc)"
    using decode_varints_at[of ?data ?o5 "map nat ds"] a(6) len(2) unfolding dcb by simp
  have ex: "foldE name_rows (replicate ?n 0) ?idx = Inr (map br_name_id ?rs)"
    using name_index_expand[of "replicate ?n 0" "name_counts (map br_name_id ?rs)" "[]"]
    by (simp add: expand_counts sorted_names) (simp add: sorted_records_def)
  have ids: "distinct (bw_seed_ids w)" "length (bw_seed_ids w) \<le> 255" "bw_seed_local w = zip (bw_seed_ids w) [0..<length (bw_seed_ids w)]"
    using inv by (simp_all add: seeds_inv_def)
  have rows: "bucket_rows (bw_seed_ids w) ?b [] (map br_name_id ?rs) sc (map nat ds) sf = Inr ?rs"
    by (rule columns_read[OF ids(1,2) c[unfolded ids(3)]]) (use nib pos in \<open>auto simp: sorted_records_def\<close>)
  note u = unpack_from_pack[OF h a(1)] unpack_from_pack[OF ns a(3)] unpack_from_pack[OF sd a(4)]
  have i: "repeat_dec read_name (length ?idx) ?data ?o1 = Inr (?idx, ?o2)"
    by (rule names_idx.repeat_dec_enc[OF nb a(2)])
  have s: "slice ?data ?o4 ?o5 = sc" "k = ?o5 + length dc + ?n \<Longrightarrow> slice ?data (?o5 + length dc) k = sf" for k
    using at_slice[OF a(5)] at_slice[OF a(7)] len by simp_all
  show ?thesis
    unfolding bucket_parse_def u bindE_Inr Let_def
    by (simp add: i u d s ex rows del: append_assoc unpack.simps add_2_eq_Suc')
qed

section \<open>Lookup by name\<close>

lemma bisect_least:
  assumes "sorted_wrt (<) (map fst idx)" "lo \<le> hi" "hi \<le> length idx"
    "\<forall>i<lo. fst (idx ! i) < k" "\<forall>i. hi \<le> i \<and> i < length idx \<longrightarrow> \<not> fst (idx ! i) < k"
  shows "(\<forall>i<bisect_names idx k lo hi. fst (idx ! i) < k) \<and> bisect_names idx k lo hi \<le> length idx \<and>
    (\<forall>i. bisect_names idx k lo hi \<le> i \<and> i < length idx \<longrightarrow> \<not> fst (idx ! i) < k)"
  using assms
proof (induction idx k lo hi rule: bisect_names.induct)
  case (1 idx k lo hi)
  have mono: "fst (idx ! i) < fst (idx ! j)" if "i < j" "j < length idx" for i j
    using 1(3) that by (simp add: sorted_wrt_iff_nth_less)
  show ?case
  proof (cases "lo < hi")
    case False
    with 1(4-) show ?thesis by (subst (1 2 3) bisect_names.simps) simp
  next
    case True
    let ?mid = "(lo + hi) div 2"
    have mid: "lo \<le> ?mid" "?mid < hi" using True by simp_all
    show ?thesis
    proof (cases "fst (idx ! ?mid) < k")
      case below: True
      have "fst (idx ! i) < k" if "i < ?mid + 1" for i
        using that below mono[of i ?mid] mid 1(5) by (cases "i = ?mid") auto
      with 1(1)[OF True refl below 1(3)] mid 1(5,7) below True show ?thesis
        by (subst (1 2 3) bisect_names.simps) simp
    next
      case above: False
      have "\<not> fst (idx ! i) < k" if "?mid \<le> i" "i < length idx" for i
        using that above mono[of ?mid i] by (cases "i = ?mid") auto
      with 1(2)[OF True refl above 1(3)] mid 1(5,6) above True show ?thesis
        by (subst (1 2 3) bisect_names.simps) simp
    qed
  qed
qed

lemma name_index_fst: "map fst (name_index_entries s gs) = map fst gs"
  by (induction s gs rule: name_index_entries.induct) simp_all

lemma group_slice:
  "map br_name_id rs = expand gs \<Longrightarrow> distinct (map fst gs) \<Longrightarrow> (k, st, n) \<in> set (name_index_entries s gs) \<Longrightarrow>
   s \<le> st \<and> slice rs (st - s) (st - s + n) = filter (\<lambda>r. br_name_id r = k) rs"
proof (induction gs arbitrary: rs s)
  case Nil
  then show ?case by simp
next
  case (Cons g gs)
  obtain m c where g: "g = (m, c)" by (cases g)
  define xs ys where "xs = take c rs" and "ys = drop c rs"
  have rs: "rs = xs @ ys" by (simp add: xs_def ys_def)
  have "map br_name_id rs = replicate c m @ expand gs" using Cons.prems(1) by (simp add: g)
  then have xy: "map br_name_id xs = replicate c m" "map br_name_id ys = expand gs"
    unfolding xs_def ys_def by (metis append_eq_conv_conj length_replicate take_map, metis append_eq_conv_conj drop_map length_replicate)
  have lx: "length xs = c" using arg_cong[OF xy(1), of length] by simp
  have xn: "\<forall>r\<in>set xs. br_name_id r = m" using arg_cong[OF xy(1), of set] by (auto split: if_splits)
  have yn: "\<forall>r\<in>set ys. br_name_id r \<in> set (map fst gs)"
    using arg_cong[OF xy(2), of set] by (force simp: expand_def)
  have m: "m \<notin> set (map fst gs)" using Cons.prems(2) by (simp add: g)
  show ?case
  proof (cases "(k, st, n) = (m, s, c)")
    case True
    have "filter (\<lambda>r. br_name_id r = k) xs = xs" "filter (\<lambda>r. br_name_id r = k) ys = []"
      using True xn yn m by (auto simp: filter_id_conv filter_empty_conv)
    with True show ?thesis by (simp add: rs slice_def lx)
  next
    case False
    then have e: "(k, st, n) \<in> set (name_index_entries (s + c) gs)" using Cons.prems(3) by (auto simp: g)
    have "k \<in> set (map fst gs)" using arg_cong[OF name_index_fst[of "s + c" gs], of set] e by force
    then have "k \<noteq> m" using m by blast
    then have "filter (\<lambda>r. br_name_id r = k) xs = []" using xn by (auto simp: filter_empty_conv)
    moreover have "s + c \<le> st \<and> slice ys (st - (s + c)) (st - (s + c) + n) = filter (\<lambda>r. br_name_id r = k) ys"
      using Cons.prems(2) g by (intro Cons.IH[OF xy(2) _ e]) simp
    moreover have "c \<le> st - s" using calculation(2) by linarith
    ultimately show ?thesis by (simp add: rs slice_def lx)
  qed
qed

lemma lookup_correct:
  assumes idx: "rd_name_index rd = name_index_entries 0 (name_counts (map br_name_id (rd_records rd)))"
    and sorted: "sorted (map br_name_id (rd_records rd))"
  shows "records_for_name rd k = filter (\<lambda>r. br_name_id r = k) (rd_records rd)"
proof -
  let ?ns = "map br_name_id (rd_records rd)"
  let ?idx = "rd_name_index rd"
  let ?lo = "bisect_names ?idx k 0 (length ?idx)"
  have fst_idx: "map fst ?idx = map fst (name_counts ?ns)" by (simp add: idx name_index_fst)
  have strict: "sorted_wrt (<) (map fst ?idx)" unfolding fst_idx by (rule name_counts_strict)
  have names: "set (map fst ?idx) = set ?ns" unfolding fst_idx by (simp add: name_counts_def comp_def)
  have b: "\<forall>i<?lo. fst (?idx ! i) < k" "?lo \<le> length ?idx"
    "\<forall>i. ?lo \<le> i \<and> i < length ?idx \<longrightarrow> \<not> fst (?idx ! i) < k"
    using bisect_least[OF strict, of 0 "length ?idx" k] by simp_all
  show ?thesis
  proof (cases "?lo \<ge> length ?idx \<or> fst (?idx ! ?lo) \<noteq> k")
    case True
    have "k \<notin> set (map fst ?idx)"
    proof
      assume "k \<in> set (map fst ?idx)"
      then obtain i where i: "i < length ?idx" "fst (?idx ! i) = k" by (auto simp: in_set_conv_nth)
      with b have "?lo \<le> i" by (metis linorder_not_less order_less_irrefl)
      moreover have "\<not> ?lo < i"
      proof
        assume "?lo < i"
        then have "fst (?idx ! ?lo) < k" using strict i by (auto simp: sorted_wrt_iff_nth_less)
        with b(3) \<open>?lo < i\<close> i show False by simp
      qed
      ultimately show False using True i by simp
    qed
    then have "filter (\<lambda>r. br_name_id r = k) (rd_records rd) = []" unfolding names by (auto simp: filter_empty_conv)
    with True show ?thesis by (auto simp: records_for_name_def)
  next
    case False
    obtain st n where e: "?idx ! ?lo = (k, st, n)" using False by (cases "?idx ! ?lo") auto
    have "(k, st, n) \<in> set ?idx" using False e by (metis linorder_not_less nth_mem)
    then have "slice (rd_records rd) (st - 0) (st - 0 + n) = filter (\<lambda>r. br_name_id r = k) (rd_records rd)"
      using expand_counts[OF sorted] name_counts_strict[of ?ns] unfolding idx
      by (intro conjunct2[OF group_slice]) (auto simp: strict_sorted_iff)
    with False e show ?thesis by (simp add: records_for_name_def)
  qed
qed

text \<open>A writer that received the given records through \<open>add\<close>, in order.\<close>

definition filled :: "BucketRecord list \<Rightarrow> BucketWriter res" where
  "filled rs = foldE (\<lambda>w r. bucket_add r w) new_bucket rs"

lemma filled_inv: "filled rs = Inr w \<Longrightarrow> seeds_inv w \<and> bw_records w = rs"
proof -
  have "foldE (\<lambda>w r. bucket_add r w) v rs = Inr w \<Longrightarrow> seeds_inv v \<Longrightarrow> seeds_inv w \<and> bw_records w = bw_records v @ rs" for v
  proof (induction rs arbitrary: v)
    case Nil
    then show ?case by simp
  next
    case (Cons r rs)
    then obtain u where u: "bucket_add r v = Inr u" "foldE (\<lambda>w r. bucket_add r w) u rs = Inr w"
      by (auto simp: bindE_eq_Inr)
    from seeds_inv_add[OF Cons.prems(2) u(1)] Cons.IH[OF u(2)] show ?case by simp
  qed
  then show "filled rs = Inr w \<Longrightarrow> seeds_inv w \<and> bw_records w = rs"
    by (fastforce simp: filled_def new_bucket_def seeds_inv_def)
qed

lemma bucket_reread:
  assumes "filled rs = Inr w" "\<forall>r\<in>set rs. nibbles_ok r" "bucket_encode w = Inr raw"
  shows "\<exists>rd. bucket_parse (raw @ rest) = Inr rd \<and> rd_num_records rd = length rs \<and>
    rd_records rd = sorted_records rs \<and>
    (\<forall>k. records_for_name rd k = filter (\<lambda>r. br_name_id r = k) (sorted_records rs))"
proof -
  have w: "seeds_inv w" "bw_records w = rs" using filled_inv[OF assms(1)] by blast+
  let ?rd = "\<lparr>rd_num_records = length rs, rd_name_index = name_index_entries 0 (name_counts (map br_name_id (sorted_records rs))),
     rd_seed_ids = bw_seed_ids w, rd_records = sorted_records rs\<rparr>"
  have "bucket_parse (raw @ rest) = Inr ?rd"
    using bucket_reload[OF w(1) _ assms(3)] assms(2) unfolding w(2) by blast
  moreover have "records_for_name ?rd k = filter (\<lambda>r. br_name_id r = k) (sorted_records rs)" for k
    using lookup_correct[of ?rd k] sorted_names[of rs] by simp
  ultimately show ?thesis by auto
qed

text \<open>
  A bucket filled with \<open>add\<close> and encoded is parsed back to exactly its records in name
  and time order (statuses and flags being the nibbles the format stores), and \<open>records_for_name\<close>, a
  binary search in the name index, returns precisely the records of the name.
\<close>

theorem bucket_roundtrip:
  assumes "filled rs = Inr w" "\<forall>r\<in>set rs. nibbles_ok r" "bucket_encode w = Inr raw"
  shows "\<exists>rd. bucket_parse (raw @ rest) = Inr rd \<and> rd_num_records rd = length rs \<and>
    rd_records rd = sorted_records rs \<and>
    (\<forall>k. records_for_name rd k = filter (\<lambda>r. br_name_id r = k) (sorted_records rs))"
  by (rule bucket_reread[OF assms])

definition bucket_record :: "int \<Rightarrow> int \<Rightarrow> int \<Rightarrow> BucketRecord" where
  "bucket_record name seed ts = \<lparr>br_name_id = name, br_seed_id = seed, br_ts = ts, br_status = 1, br_flags = 2\<rparr>"

lemma bucket_roundtrip_witness:
  "\<exists>w raw rd. filled [bucket_record 1 7 200, bucket_record 0 9 100] = Inr w \<and> bucket_encode w = Inr raw \<and>
     bucket_parse (raw @ []) = Inr rd \<and> records_for_name rd 1 = [bucket_record 1 7 200]"
proof -
  have "is_ok (filled [bucket_record 1 7 200, bucket_record 0 9 100])"
    by (simp add: filled_def bucket_add_def new_bucket_def bucket_record_def)
  then obtain w where w: "filled [bucket_record 1 7 200, bucket_record 0 9 100] = Inr w" by (rule is_okE)
  have "is_ok (bindE (filled [bucket_record 1 7 200, bucket_record 0 9 100]) bucket_encode)"
    by (simp add: filled_def bucket_add_def new_bucket_def bucket_record_def bucket_encode_def sorted_records_def
        bucket_name_index_def name_groups_def BUCKET_HDR_def HDYB_MAGIC_def write_name_def BUCKET_NAME_def
        encode_varints_def encode_varint_def less_eq_prod_def)
  with w obtain raw where raw: "bucket_encode w = Inr raw" by (auto elim: is_okE)
  have n: "\<forall>r\<in>set [bucket_record 1 7 200, bucket_record 0 9 100]. nibbles_ok r"
    by (simp add: nibbles_ok_def bucket_record_def)
  from bucket_roundtrip[OF w n raw, of "[]"] obtain rd where
    "bucket_parse (raw @ []) = Inr rd"
    "records_for_name rd 1 = filter (\<lambda>r. br_name_id r = 1) (sorted_records [bucket_record 1 7 200, bucket_record 0 9 100])"
    by blast
  with w raw show ?thesis by (auto simp: sorted_records_def bucket_record_def less_eq_prod_def)
qed

section \<open>When a bucket can be sealed\<close>

lemma columns_ok:
  "\<forall>r\<in>set rs. br_seed_id r \<in> set (dict_keys sl) \<Longrightarrow> is_ok (bucket_columns sl b prev rs)"
proof (induction sl b prev rs rule: bucket_columns.induct)
  case (1 sl b prev)
  then show ?case by simp
next
  case (2 sl b prev r rs)
  then obtain k where k: "dict_get sl (br_seed_id r) = Some k"
    by (metis list.set_intros(1) map_of_eq_None_iff option.exhaust set_map)
  from 2(1)[OF k refl] 2(2) show ?case by (auto simp: k is_ok_iff bindE_eq_Inr)
qed

lemma columns_deltas:
  assumes "bucket_columns sl b prev rs = Inr (sc, ds, sf)"
    and "sorted (map (\<lambda>r. (br_name_id r, br_ts r)) rs)"
    and "\<forall>r\<in>set rs. \<forall>t. dict_get prev (br_name_id r) = Some t \<longrightarrow> t \<le> br_ts r"
  shows "(\<forall>d\<in>set ds. 0 \<le> d) \<longleftrightarrow> (\<forall>r\<in>set rs. dict_get prev (br_name_id r) = None \<longrightarrow> b \<le> br_ts r)"
  using assms
proof (induction rs arbitrary: prev sc ds sf)
  case Nil
  then show ?case by simp
next
  case (Cons r rs)
  let ?p = "dict_set (br_name_id r) (br_ts r) prev"
  let ?prev_ts = "case dict_get prev (br_name_id r) of None \<Rightarrow> b | Some t \<Rightarrow> t"
  obtain sc' ds' sf' where c: "bucket_columns sl b ?p rs = Inr (sc', ds', sf')" "ds = (br_ts r - ?prev_ts) # ds'"
    using Cons.prems(1) by (auto simp: bindE_eq_Inr split: option.splits)
  have later: "br_ts r \<le> br_ts r'" if "r' \<in> set rs" "br_name_id r' = br_name_id r" for r'
    using Cons.prems(2) that by (auto simp: less_eq_prod_def)
  have "(\<forall>d\<in>set ds'. 0 \<le> d) \<longleftrightarrow> (\<forall>r'\<in>set rs. dict_get ?p (br_name_id r') = None \<longrightarrow> b \<le> br_ts r')"
  proof (rule Cons.IH[OF c(1)])
    show "sorted (map (\<lambda>r. (br_name_id r, br_ts r)) rs)" using Cons.prems(2) by simp
    show "\<forall>r'\<in>set rs. \<forall>t. dict_get ?p (br_name_id r') = Some t \<longrightarrow> t \<le> br_ts r'"
      using Cons.prems(3) later by (auto simp: dict_get_set)
  qed
  moreover have "0 \<le> br_ts r - ?prev_ts \<longleftrightarrow> (dict_get prev (br_name_id r) = None \<longrightarrow> b \<le> br_ts r)"
    using Cons.prems(3) by (auto split: option.split)
  moreover have "(\<forall>r'\<in>set rs. dict_get ?p (br_name_id r') = None \<longrightarrow> b \<le> br_ts r') \<longleftrightarrow>
      (\<forall>r'\<in>set rs. dict_get prev (br_name_id r') = None \<longrightarrow> b \<le> br_ts r')"
    if p0: "dict_get prev (br_name_id r) = None \<longrightarrow> b \<le> br_ts r"
  proof (intro ball_cong refl)
    fix r' assume r': "r' \<in> set rs"
    show "(dict_get ?p (br_name_id r') = None \<longrightarrow> b \<le> br_ts r') = (dict_get prev (br_name_id r') = None \<longrightarrow> b \<le> br_ts r')"
    proof (cases "br_name_id r' = br_name_id r")
      case True
      with p0 later[OF r' True] show ?thesis by (auto simp: dict_get_set)
    next
      case False
      then show ?thesis by (simp add: dict_get_set)
    qed
  qed
  ultimately show ?case unfolding c(2) by (metis list.set_intros(1) list.set_intros(2) set_ConsD)
qed

lemma name_index_bound:
  "(k, st, n) \<in> set (name_index_entries s gs) \<Longrightarrow> st + n \<le> s + length (expand gs) \<and> k \<in> set (map fst gs)"
  by (induction s gs rule: name_index_entries.induct) auto

lemma encode_varints_ok: "is_ok (encode_varints vs) \<longleftrightarrow> (\<forall>v\<in>set vs. 0 \<le> v)"
  by (simp add: encode_varints_def concatE_ok encode_varint_ok)

lemma pack_u32s_ok: "is_ok (pack (replicate (length vs) (U 4)) vs) \<longleftrightarrow> (\<forall>v\<in>set vs. 0 \<le> v \<and> v < 2 ^ 32)"
  by (induction vs) (simp_all del: pack.simps)

definition in_range :: "BucketRecord \<Rightarrow> bool" where
  "in_range r \<longleftrightarrow> 0 \<le> br_name_id r \<and> br_name_id r < 2 ^ 32 \<and> 0 \<le> br_seed_id r \<and> br_seed_id r < 2 ^ 32
     \<and> 0 \<le> br_ts r \<and> br_ts r < 2 ^ 32"

lemma encode_ok:
  assumes w: "seeds_inv w" and rng: "\<forall>r\<in>set (bw_records w). in_range r" "\<forall>x\<in>set (bw_seed_ids w). 0 \<le> x \<and> x < 2 ^ 32"
    and len: "length (bw_records w) \<le> HISTORY_BUCKET_MAX_RECORDS" and ne: "bw_records w \<noteq> []"
  shows "(if \<forall>r\<in>set (bw_records w). br_ts (hd (sorted_records (bw_records w))) \<le> br_ts r
          then is_ok (bucket_encode w) else bucket_encode w = Inl ValueError)"
proof -
  let ?rs = "sorted_records (bw_records w)"
  let ?b = "case ?rs of [] \<Rightarrow> 0 | r # _ \<Rightarrow> br_ts r"
  let ?idx = "bucket_name_index ?rs"
  have set_rs: "set ?rs = set (bw_records w)" and len_rs: "length ?rs = length (bw_records w)"
    by (simp_all add: sorted_records_def)
  have rs_ne: "?rs \<noteq> []" using ne len_rs by auto
  have b: "?b = br_ts (hd ?rs)" using rs_ne by (cases ?rs) simp_all
  have keys: "set (dict_keys (bw_seed_local w)) = set (bw_seed_ids w)"
    using w by (simp add: seeds_inv_def)
  have "is_ok (bucket_columns (bw_seed_local w) ?b [] ?rs)"
    using w by (intro columns_ok) (simp add: keys set_rs seeds_inv_def del: set_map)
  then obtain sc ds sf where c: "bucket_columns (bw_seed_local w) ?b [] ?rs = Inr (sc, ds, sf)"
    by (auto elim!: is_okE)
  have ds: "(\<forall>d\<in>set ds. 0 \<le> d) \<longleftrightarrow> (\<forall>r\<in>set (bw_records w). br_ts (hd ?rs) \<le> br_ts r)"
    using columns_deltas[OF c] by (simp add: set_rs b) (simp add: sorted_records_def)
  have L: "length (bw_records w) \<le> 10000" using len by (simp add: HISTORY_BUCKET_MAX_RECORDS_def)
  have entry: "st + n \<le> length (bw_records w) \<and> 0 \<le> k \<and> k < 2 ^ 32" if "(k, st, n) \<in> set ?idx" for k st n
  proof -
    have e: "(k, st, n) \<in> set (name_index_entries 0 (name_counts (map br_name_id ?rs)))"
      using that by (simp only: bucket_name_index_eq)
    have "length (expand (name_counts (map br_name_id ?rs))) = length (bw_records w)"
      by (simp add: expand_counts sorted_names len_rs)
    moreover have "k \<in> br_name_id ` set ?rs" using name_index_bound[OF e] by (simp add: name_counts_def comp_def)
    then obtain r where "r \<in> set (bw_records w)" "k = br_name_id r" unfolding set_rs by blast
    ultimately show ?thesis using name_index_bound[OF e] rng(1) by (auto simp: in_range_def)
  qed
  have nb: "is_ok (concatE write_name ?idx)"
    unfolding concatE_ok
  proof
    fix e assume e: "e \<in> set ?idx"
    obtain k st n where e': "e = (k, st, n)" by (cases e) auto
    show "is_ok (write_name e)" using entry[of k st n] e L by (simp add: e' write_name_def BUCKET_NAME_def del: pack.simps)
  qed
  have li: "length ?idx \<le> length (bw_records w)"
  proof -
    have "length ?idx = length (sorted_list_of_set (set (map br_name_id ?rs)))"
      unfolding bucket_name_index_eq using arg_cong[OF name_index_fst, of length 0 "name_counts (map br_name_id ?rs)"]
      by (simp add: name_counts_def)
    also have "\<dots> = card (set (map br_name_id ?rs))" by simp
    also have "\<dots> \<le> length ?rs" by (metis card_length length_map)
    finally show ?thesis by (simp add: len_rs)
  qed
  have "in_range (hd ?rs)" using rng(1) rs_ne by (metis hd_in_set set_rs)
  then have h: "is_ok (pack BUCKET_HDR [HDYB_MAGIC, 1, int (length ?rs), int (length ?idx), ?b])"
    using L li unfolding b by (simp add: BUCKET_HDR_def HDYB_MAGIC_def len_rs in_range_def del: pack.simps)
  have ns: "is_ok (pack [U 2] [int (length (bw_seed_ids w))])"
    using w by (simp add: seeds_inv_def del: pack.simps)
  have sd: "is_ok (pack (replicate (length (bw_seed_ids w)) (U 4)) (bw_seed_ids w))"
    using rng(2) by (simp add: pack_u32s_ok del: pack.simps)
  show ?thesis
  proof (cases "\<forall>d\<in>set ds. 0 \<le> d")
    case True
    then have "is_ok (encode_varints ds)" by (simp add: encode_varints_ok)
    then obtain a1 a2 a3 a4 a5 where "encode_varints ds = Inr a1" "concatE write_name ?idx = Inr a2"
      "pack [U 2] [int (length (bw_seed_ids w))] = Inr a3" "pack (replicate (length (bw_seed_ids w)) (U 4)) (bw_seed_ids w) = Inr a4"
      "pack BUCKET_HDR [HDYB_MAGIC, 1, int (length ?rs), int (length ?idx), ?b] = Inr a5"
      using h nb ns sd by (metis is_ok_iff)
    then have "is_ok (bucket_encode w)"
      by (simp only: bucket_encode_def c Let_def bindE_Inr prod.case is_ok_simps)
    with True ds show ?thesis by simp
  next
    case False
    have "\<exists>v\<in>set vs. v < 0 \<Longrightarrow> encode_varints vs = Inl ValueError" for vs
      unfolding encode_varints_def
    proof (induction vs)
      case (Cons v vs)
      show ?case
      proof (cases "v < 0")
        case False
        with Cons have "concatE encode_varint vs = Inl ValueError" by auto
        moreover have "encode_varint v = Inr (varint_loop (nat v))" using False by (simp add: encode_varint_def)
        ultimately show ?thesis by simp
      qed (simp add: encode_varint_def)
    qed simp
    with False have "encode_varints ds = Inl ValueError" by (simp add: not_le)
    then have "bucket_encode w = Inl ValueError" by (simp add: bucket_encode_def c)
    with False ds show ?thesis by auto
  qed
qed

text \<open>
  A bucket within the format's limits can be sealed exactly when no record is older than
  the record that comes first in name order: the header's \<open>ts_base\<close> is that record's time, not the
  earliest one, so any older record of a later name has a negative delta and encoding raises
  \<open>ValueError\<close>.
\<close>

theorem bucket_seal_condition:
  assumes "filled rs = Inr w" and "rs \<noteq> []" and "length rs \<le> HISTORY_BUCKET_MAX_RECORDS"
    and "\<forall>r\<in>set rs. in_range r"
  shows "(if \<forall>r\<in>set rs. br_ts (hd (sorted_records rs)) \<le> br_ts r
          then is_ok (bucket_encode w) else bucket_encode w = Inl ValueError)"
proof -
  have w: "seeds_inv w" "bw_records w = rs" using filled_inv[OF assms(1)] by blast+
  have "foldE (\<lambda>w r. bucket_add r w) v xs = Inr w' \<Longrightarrow> set (bw_seed_ids w') \<subseteq> set (bw_seed_ids v) \<union> br_seed_id ` set xs" for v w' xs
    by (induction xs arbitrary: v) (force simp: bindE_eq_Inr bucket_add_def split: option.splits if_splits)+
  from this[of new_bucket rs w] have "set (bw_seed_ids w) \<subseteq> br_seed_id ` set rs"
    using assms(1) by (simp add: filled_def new_bucket_def)
  then have "\<forall>x\<in>set (bw_seed_ids w). 0 \<le> x \<and> x < 2 ^ 32" using assms(4) by (force simp: in_range_def)
  from encode_ok[OF w(1) _ this, unfolded w(2), OF assms(4,3,2)] show ?thesis .
qed

lemma bucket_seal_condition_witness:
  "\<exists>w. filled [bucket_record 0 7 200, bucket_record 1 7 100] = Inr w \<and> bucket_encode w = Inl ValueError"
proof -
  have "is_ok (filled [bucket_record 0 7 200, bucket_record 1 7 100])"
    by (simp add: filled_def bucket_add_def new_bucket_def bucket_record_def)
  then obtain w where w: "filled [bucket_record 0 7 200, bucket_record 1 7 100] = Inr w" by (rule is_okE)
  have "hd (sorted_records [bucket_record 0 7 200, bucket_record 1 7 100]) = bucket_record 0 7 200"
    by (simp add: sorted_records_def bucket_record_def less_eq_prod_def)
  then have "bucket_encode w = Inl ValueError"
    using bucket_seal_condition[OF w] by (simp add: HISTORY_BUCKET_MAX_RECORDS_def in_range_def bucket_record_def)
  with w show ?thesis by blast
qed

end
