(* ===== verification/Multirun.thy ===== *)
theory Multirun
  imports Sparse Counts PyText "HOL-Library.List_Lexorder"
begin

text \<open>
  \<open>ncdb/multirun.py\<close>: one schema, many count arrays. An archive is its members by name; the run
  table \<open>runs.json\<close> is kept beside them as the value \<open>json.loads\<close> returns for it, and the rewriting
  of the ZIP file on disk is the function from members to the new archive. The abstract view of an
  archive is the list of its runs with their counts, and appending, replacing and dropping runs are
  shown to be the corresponding updates of that list.
\<close>

section \<open>Run table\<close>

text \<open>The extra fields a caller records with a run; \<open>squash\<close> reads \<open>status\<close> and \<open>rerun\<close>.\<close>

record run_fields =
  rf_status :: "pystr option"
  rf_rerun :: bool
  rf_more :: "(pystr \<times> pystr) list"

record run_entry =
  re_run_id :: pystr
  re_member :: pystr
  re_nonzero :: "nat option"
  re_fields :: run_fields

datatype runs_json =
    RJ_empty
  | RJ_unreadable
  | RJ "int option" "run_entry list"

record archive =
  ar_members :: "(pystr \<times> bytes) list"
  ar_runs :: "runs_json option"

definition MEMBER_COUNTS :: pystr where "MEMBER_COUNTS = lit ''counts.bin''"
definition MEMBER_MANIFEST :: pystr where "MEMBER_MANIFEST = lit ''manifest.json''"
definition MEMBER_MERGE_OPS :: pystr where "MEMBER_MERGE_OPS = lit ''merge_ops.bin''"
definition MEMBER_SQUASH_LOG :: pystr where "MEMBER_SQUASH_LOG = lit ''squash_log.bin''"
definition RUN_COUNTS_DIR :: pystr where "RUN_COUNTS_DIR = lit ''counts/''"
definition BASELINE_RUN_ID :: pystr where "BASELINE_RUN_ID = lit ''squashed''"

definition no_fields :: run_fields where
  "no_fields = \<lparr>rf_status = None, rf_rerun = False, rf_more = []\<rparr>"

text \<open>\<open>"%05d"\<close> and \<open>"%04d"\<close> of a non-negative number.\<close>

definition zpad :: "nat \<Rightarrow> nat \<Rightarrow> pystr" where
  "zpad w n = replicate (w - length (str_nat n)) 48 @ str_nat n"

definition run_member_name :: "nat \<Rightarrow> pystr" where
  "run_member_name index = RUN_COUNTS_DIR @ lit ''run-'' @ zpad 5 index @ lit ''.bin''"

text \<open>
  \<open>int(match.group(1))\<close> for \<open>^counts/run-(\d+)\.bin$\<close> on ASCII names; \<open>$\<close> also matches before a
  final newline.
\<close>

definition member_index :: "pystr \<Rightarrow> nat option" where
  "member_index name =
     (let pre = RUN_COUNTS_DIR @ lit ''run-''; suf = lit ''.bin'';
          name = (if endswith name [10] then str_but 1 name else name)
      in if startswith name pre \<and> endswith name suf \<and> length pre + length suf < length name then
           let ds = str_but (length suf) (str_from (length pre) name)
           in if list_all is_digit ds then int_digits 0 ds else None
         else None)"

definition deserialize_runs :: "runs_json \<Rightarrow> run_entry list res" where
  "deserialize_runs j =
     (case j of
        RJ_empty \<Rightarrow> Inr []
      | RJ_unreadable \<Rightarrow> Inl RunTableError
      | RJ version runs \<Rightarrow> if version \<noteq> Some 1 then Inl RunTableError else Inr runs)"

definition serialize_runs :: "run_entry list \<Rightarrow> runs_json" where
  "serialize_runs entries = RJ (Some 1) entries"

definition table_run_ids :: "run_entry list \<Rightarrow> pystr list" where
  "table_run_ids t = map re_run_id t"

definition table_get :: "pystr \<Rightarrow> run_entry list \<Rightarrow> run_entry option" where
  "table_get run_id t = List.find (\<lambda>e. re_run_id e = run_id) t"

fun upsert :: "run_entry \<Rightarrow> run_entry list \<Rightarrow> run_entry list" where
  "upsert entry [] = [entry]"
| "upsert entry (e # es) = (if re_run_id e = re_run_id entry then entry # es else e # upsert entry es)"

fun table_remove :: "pystr \<Rightarrow> run_entry list \<Rightarrow> run_entry list" where
  "table_remove run_id [] = []"
| "table_remove run_id (e # es) = (if re_run_id e = run_id then es else e # table_remove run_id es)"

definition baseline_entry :: run_entry where
  "baseline_entry = \<lparr>re_run_id = BASELINE_RUN_ID, re_member = MEMBER_COUNTS, re_nonzero = None, re_fields = no_fields\<rparr>"

definition read_run_table :: "archive \<Rightarrow> run_entry list res" where
  "read_run_table zf =
     (case ar_runs zf of
        Some j \<Rightarrow> deserialize_runs j
      | None \<Rightarrow> Inr (if MEMBER_COUNTS \<in> set (dict_keys (ar_members zf)) then upsert baseline_entry [] else []))"

definition is_multirun :: "archive \<Rightarrow> bool res" where
  "is_multirun zf = bindE (read_run_table zf) (\<lambda>t. Inr (length t > 1))"

text \<open>\<open>while index in used: index += 1\<close>\<close>

lemma used_above_less:
  "index \<in> set used \<Longrightarrow> card (set used \<inter> {Suc index..}) < card (set used \<inter> {index..})"
proof -
  assume "index \<in> set used"
  then have "index \<in> set used \<inter> {index..}" "index \<notin> set used \<inter> {Suc index..}" by simp_all
  moreover have "set used \<inter> {Suc index..} \<subseteq> set used \<inter> {index..}" by (auto intro: Suc_leD)
  ultimately have "set used \<inter> {Suc index..} \<subset> set used \<inter> {index..}" by blast
  then show ?thesis by (intro psubset_card_mono) simp_all
qed

function lowest_free :: "nat list \<Rightarrow> nat \<Rightarrow> nat" where
  "lowest_free used index = (if index \<in> set used then lowest_free used (Suc index) else index)"
  by pat_completeness auto
termination
  by (relation "measure (\<lambda>(used, index). card (set used \<inter> {index..}))") (simp_all add: used_above_less)

declare lowest_free.simps [simp del]

definition next_member_index :: "run_entry list \<Rightarrow> nat list \<Rightarrow> nat" where
  "next_member_index t taken =
     lowest_free (taken @ concat (map (\<lambda>e. case member_index (re_member e) of None \<Rightarrow> [] | Some i \<Rightarrow> [i]) t)) 0"

section \<open>Reading\<close>

definition pad_to :: "nat \<Rightarrow> int list \<Rightarrow> int list" where
  "pad_to width a = (if length a = width then a else a @ replicate (width - length a) 0)"

definition max_width :: "int list list \<Rightarrow> nat" where
  "max_width arrays = foldl (\<lambda>m a. max m (length a)) 0 arrays"

text \<open>The arrays of the selected runs whose member is in the archive.\<close>

definition selected_arrays :: "archive \<Rightarrow> run_entry list \<Rightarrow> pystr list \<Rightarrow> int list list res" where
  "selected_arrays zf t selected =
     concatE (\<lambda>run_id.
       case table_get run_id t of
         None \<Rightarrow> Inl TypeError
       | Some e \<Rightarrow>
           (case dict_get (ar_members zf) (re_member e) of
              None \<Rightarrow> Inr []
            | Some data \<Rightarrow> bindE (counts_deserialize data) (\<lambda>a. Inr [a]))) selected"

definition read_ops :: "archive \<Rightarrow> (nat \<times> int) list res" where
  "read_ops zf =
     (case dict_get (ar_members zf) MEMBER_MERGE_OPS of
        None \<Rightarrow> Inr [] | Some data \<Rightarrow> merge_ops_deserialize data)"

definition resolve_counts :: "archive \<Rightarrow> pystr list option \<Rightarrow> int list res" where
  "resolve_counts zf runs =
     bindE (read_run_table zf) (\<lambda>t.
       if t = [] then
         (case dict_get (ar_members zf) MEMBER_COUNTS of None \<Rightarrow> Inl KeyError | Some data \<Rightarrow> counts_deserialize data)
       else
         let selected = (case runs of None \<Rightarrow> table_run_ids t | Some rs \<Rightarrow> rs);
             missing = filter (\<lambda>r. table_get r t = None) selected
         in if missing \<noteq> [] then Inl RunTableError
            else bindE (selected_arrays zf t selected) (\<lambda>arrays.
              case arrays of
                [] \<Rightarrow> Inr []
              | [a] \<Rightarrow> Inr a
              | _ \<Rightarrow> bindE (read_ops zf) (\<lambda>ops.
                      Inr (merge_counts (map (pad_to (max_width arrays)) arrays) ops))))"

section \<open>Writing\<close>

text \<open>\<open>_rewrite\<close>: the manifest first, the other members by name, and the run table.\<close>

definition rewrite :: "(pystr \<times> bytes) list \<Rightarrow> (pystr \<times> bytes) list \<Rightarrow> run_entry list \<Rightarrow> archive" where
  "rewrite existing_members new_members t =
     (let members = dict_update existing_members new_members;
          head = (case dict_get members MEMBER_MANIFEST of None \<Rightarrow> [] | Some data \<Rightarrow> [(MEMBER_MANIFEST, data)]);
          rest = dict_pop MEMBER_MANIFEST members
      in \<lparr>ar_members = head @ sort_key fst rest, ar_runs = Some (serialize_runs t)\<rparr>)"

definition counts_of :: "ucis \<Rightarrow> int list" where
  "counts_of db = concat (map (\<lambda>s. map (\<lambda>ci. cd_data (ci_data ci)) (coverItems CT_ALL s)) (fst (dfs_scope_list db)))"

record new_run =
  nr_run_id :: "pystr option"
  nr_db :: "ucis option"
  nr_counts :: "int list option"
  nr_fields :: run_fields

record appending =
  ap_table :: "run_entry list"
  ap_claimed :: "nat list"
  ap_new :: "(pystr \<times> bytes) list"
  ap_written :: "pystr list"

definition auto_run_id :: "run_entry list \<Rightarrow> pystr" where
  "auto_run_id t = lit ''run-'' @ zpad 4 (length (filter (\<lambda>r. r \<noteq> BASELINE_RUN_ID) (table_run_ids t)))"

definition run_counts :: "new_run \<Rightarrow> int list res" where
  "run_counts nr =
     (case nr_counts nr of
        Some cs \<Rightarrow> Inr cs
      | None \<Rightarrow> (case nr_db nr of None \<Rightarrow> Inl ValueError | Some db \<Rightarrow> Inr (counts_of db)))"

text \<open>One turn of the loop of \<open>append_runs\<close>.\<close>

definition append_step :: "nat \<Rightarrow> bool \<Rightarrow> appending \<Rightarrow> new_run \<Rightarrow> appending res" where
  "append_step baseline_width replace ap nr =
     bindE (run_counts nr) (\<lambda>counts.
       if baseline_width \<noteq> 0 \<and> length counts \<noteq> baseline_width then Inl ValueError
       else
         let run_id = (case nr_run_id nr of None \<Rightarrow> auto_run_id (ap_table ap) | Some r \<Rightarrow> r);
             existing = table_get run_id (ap_table ap)
         in if existing \<noteq> None \<and> \<not> replace then Inl FileExistsError
            else
              let reuse = (existing \<noteq> None \<and> re_member (the existing) \<noteq> MEMBER_COUNTS);
                  index = next_member_index (ap_table ap) (ap_claimed ap);
                  member = (if reuse then re_member (the existing) else run_member_name index);
                  claimed = (if reuse then ap_claimed ap else ap_claimed ap @ [index])
              in bindE (counts_serialize counts) (\<lambda>data.
                   Inr (ap\<lparr>ap_new := dict_set member data (ap_new ap),
                           ap_claimed := claimed,
                           ap_table := upsert \<lparr>re_run_id = run_id, re_member = member,
                                               re_nonzero = Some (length (filter (\<lambda>c. c \<noteq> 0) counts)),
                                               re_fields = nr_fields nr\<rparr> (ap_table ap),
                           ap_written := ap_written ap @ [run_id]\<rparr>)))"

definition append_runs :: "archive \<Rightarrow> new_run list \<Rightarrow> bool \<Rightarrow> (pystr list \<times> archive) res" where
  "append_runs zf runs replace =
     bindE (read_run_table zf) (\<lambda>t.
     bindE (counts_deserialize (case dict_get (ar_members zf) MEMBER_COUNTS of None \<Rightarrow> [] | Some data \<Rightarrow> data)) (\<lambda>base.
     bindE (foldE (append_step (length base) replace)
              \<lparr>ap_table = t, ap_claimed = [], ap_new = [], ap_written = []\<rparr> runs) (\<lambda>ap.
       Inr (ap_written ap, rewrite (ar_members zf) (ap_new ap) (ap_table ap)))))"

definition append_run :: "archive \<Rightarrow> new_run \<Rightarrow> bool \<Rightarrow> (pystr \<times> archive) res" where
  "append_run zf nr replace =
     bindE (append_runs zf [nr] replace) (\<lambda>(written, zf'). Inr (written ! 0, zf'))"

definition drop_runs :: "archive \<Rightarrow> pystr list \<Rightarrow> (pystr list \<times> archive) res" where
  "drop_runs zf to_drop =
     bindE (read_run_table zf) (\<lambda>t.
       let remaining = filter (\<lambda>e. re_run_id e \<notin> set to_drop) t
       in if remaining = [] then Inl RunTableError
          else
            let members = foldl (\<lambda>m e. if re_run_id e \<in> set to_drop \<and> re_member e \<noteq> MEMBER_COUNTS
                                       then dict_pop (re_member e) m else m) (ar_members zf) t
            in Inr (table_run_ids remaining, rewrite members [] remaining))"

section \<open>Member names\<close>

text \<open>The members of other kinds, which no run may use for its counts.\<close>

definition reserved :: "pystr list" where
  "reserved = [MEMBER_MANIFEST, MEMBER_MERGE_OPS, MEMBER_SQUASH_LOG]"

lemma zpad_digits: "list_all is_digit (zpad w n)"
  by (auto simp: zpad_def list_all_iff is_digit_def dest: str_nat_is_digit)

lemma zpad_not_Nil [simp]: "zpad w n \<noteq> []"
  by (simp add: zpad_def)

lemma zpad_value: "int_digits 0 (zpad w n) = Some n"
proof -
  have "foldl (\<lambda>a c. a * 10 + (c - 48)) 0 (replicate k 48 @ ds) = foldl (\<lambda>a c. a * 10 + (c - 48)) (0::nat) ds" for k ds
    by (induction k) simp_all
  then have "foldl (\<lambda>a c. a * 10 + (c - 48)) 0 (zpad w n) = n" by (simp add: zpad_def str_nat_value)
  moreover have "\<forall>c\<in>set (zpad w n). is_digit c" using zpad_digits[of w n] by (simp add: list_all_iff)
  ultimately show ?thesis using int_digits_append[of "zpad w n" 0 "[]"] by simp
qed

lemma zpad_inj [simp]: "zpad w m = zpad w n \<longleftrightarrow> m = n"
proof
  assume eq: "zpad w m = zpad w n"
  have "Some m = int_digits 0 (zpad w m)" by (simp only: zpad_value)
  also have "\<dots> = Some n" by (simp only: eq zpad_value)
  finally show "m = n" by simp
qed simp

lemma endswith_single: "endswith s [c] \<longleftrightarrow> s \<noteq> [] \<and> last s = c"
  by (cases s rule: rev_cases) (auto simp: endswith_def)

lemma member_index_name [simp]: "member_index (run_member_name i) = Some i"
proof -
  let ?pre = "RUN_COUNTS_DIR @ lit ''run-''" and ?suf = "lit ''.bin''"
  have n: "run_member_name i = ?pre @ zpad 5 i @ ?suf" by (simp add: run_member_name_def)
  have "last (run_member_name i) = 110" by (simp add: n lit_def)
  then have "\<not> endswith (run_member_name i) [10]" by (simp only: endswith_single) simp
  moreover have "startswith (?pre @ zpad 5 i @ ?suf) ?pre" by (rule startswith_append)
  moreover have "endswith (?pre @ zpad 5 i @ ?suf) ?suf" using endswith_append[of "?pre @ zpad 5 i" ?suf] by simp
  moreover have "str_but (length ?suf) (str_from (length ?pre) (?pre @ zpad 5 i @ ?suf)) = zpad 5 i"
    by (simp only: str_from_append str_but_append)
  ultimately show ?thesis
    using zpad_digits[of 5 i] zpad_value[of 5 i]
    unfolding member_index_def Let_def n by (simp del: append_assoc length_lit)
qed

lemma run_member_name_inj: "run_member_name i = run_member_name j \<Longrightarrow> i = j"
  using member_index_name[of i] by simp

lemma run_member_not_counts [simp]: "run_member_name i \<noteq> MEMBER_COUNTS" "run_member_name i \<noteq> MEMBER_MERGE_OPS"
    "run_member_name i \<noteq> MEMBER_MANIFEST"
  by (simp_all add: run_member_name_def RUN_COUNTS_DIR_def MEMBER_COUNTS_def MEMBER_MERGE_OPS_def MEMBER_MANIFEST_def lit_def)

lemma run_member_not_reserved [simp]: "run_member_name i \<notin> set reserved"
  by (simp add: reserved_def run_member_name_def RUN_COUNTS_DIR_def MEMBER_SQUASH_LOG_def MEMBER_MERGE_OPS_def MEMBER_MANIFEST_def lit_def)

lemma lowest_free_unused: "lowest_free used i \<notin> set used"
  by (induction used i rule: lowest_free.induct) (subst lowest_free.simps, simp)

lemma next_member_fresh:
  "next_member_index t taken \<notin> set taken"
  "run_member_name (next_member_index t taken) \<notin> set (map re_member t)"
proof -
  let ?i = "next_member_index t taken"
  have u: "?i \<notin> set (taken @ concat (map (\<lambda>e. case member_index (re_member e) of None \<Rightarrow> [] | Some i \<Rightarrow> [i]) t))"
    unfolding next_member_index_def by (rule lowest_free_unused)
  then show "?i \<notin> set taken" by simp
  show "run_member_name ?i \<notin> set (map re_member t)"
  proof
    assume "run_member_name ?i \<in> set (map re_member t)"
    then obtain e where "e \<in> set t" "re_member e = run_member_name ?i" by auto
    then have "?i \<in> set (concat (map (\<lambda>e. case member_index (re_member e) of None \<Rightarrow> [] | Some i \<Rightarrow> [i]) t))"
      by (auto intro!: bexI[of _ e])
    with u show False by simp
  qed
qed

section \<open>The runs of an archive\<close>

text \<open>What the table and the members say together: the counts of every run, in table order.\<close>

definition run_data :: "(pystr \<rightharpoonup> bytes) \<Rightarrow> run_entry \<Rightarrow> int list option" where
  "run_data m e = (case m (re_member e) of None \<Rightarrow> None
     | Some data \<Rightarrow> (case counts_deserialize data of Inl _ \<Rightarrow> None | Inr cs \<Rightarrow> Some cs))"

definition run_view :: "(pystr \<rightharpoonup> bytes) \<Rightarrow> run_entry list \<Rightarrow> (pystr \<times> int list) list" where
  "run_view m t = map (\<lambda>e. (re_run_id e, the (run_data m e))) t"

definition table_ok :: "(pystr \<rightharpoonup> bytes) \<Rightarrow> run_entry list \<Rightarrow> bool" where
  "table_ok m t \<longleftrightarrow> distinct (map re_run_id t) \<and> distinct (map re_member t)
     \<and> (\<forall>e\<in>set t. run_data m e \<noteq> None \<and> re_member e \<notin> set reserved)"

definition archive_ok :: "archive \<Rightarrow> bool" where
  "archive_ok zf \<longleftrightarrow> distinct (dict_keys (ar_members zf)) \<and>
     (\<exists>t. read_run_table zf = Inr t \<and> table_ok (dict_get (ar_members zf)) t)"

definition archive_view :: "archive \<Rightarrow> (pystr \<times> int list) list" where
  "archive_view zf = run_view (dict_get (ar_members zf)) (case read_run_table zf of Inl _ \<Rightarrow> [] | Inr t \<Rightarrow> t)"

lemma run_view_ids [simp]: "map fst (run_view m t) = map re_run_id t"
  by (simp add: run_view_def comp_def)

lemma table_get_Some: "table_get r t = Some e \<Longrightarrow> e \<in> set t \<and> re_run_id e = r"
  by (auto simp: table_get_def find_Some_iff)

lemma table_get_None: "table_get r t = None \<longleftrightarrow> r \<notin> set (map re_run_id t)"
  by (auto simp: table_get_def find_None_iff)

lemma table_get_view:
  "dict_get (run_view m t) r = (case table_get r t of None \<Rightarrow> None | Some e \<Rightarrow> Some (the (run_data m e)))"
  by (induction t) (auto simp: run_view_def table_get_def)

lemma upsert_view: "run_view m (upsert e t) = dict_set (re_run_id e) (the (run_data m e)) (run_view m t)"
  by (induction e t rule: upsert.induct) (auto simp: run_view_def)

lemma upsert_set: "distinct (map re_run_id t) \<Longrightarrow> set (upsert e t) = insert e {x \<in> set t. re_run_id x \<noteq> re_run_id e}"
  by (induction e t rule: upsert.induct) (auto simp: image_iff)

lemma upsert_ids: "map re_run_id (upsert e t) = (if re_run_id e \<in> set (map re_run_id t) then map re_run_id t else map re_run_id t @ [re_run_id e])"
  by (induction e t rule: upsert.induct) auto

lemma upsert_members_distinct:
  assumes "distinct (map re_run_id t)" "distinct (map re_member t)"
    and "\<forall>x\<in>set t. re_run_id x \<noteq> re_run_id e \<longrightarrow> re_member x \<noteq> re_member e"
  shows "distinct (map re_member (upsert e t))"
  using assms
proof (induction e t rule: upsert.induct)
  case (2 entry e es)
  show ?case
  proof (cases "re_run_id e = re_run_id entry")
    case True
    have "re_run_id x \<noteq> re_run_id entry" if "x \<in> set es" for x using that True 2(2) by (auto simp: image_iff)
    then have "re_member entry \<notin> set (map re_member es)" using 2(4) by auto
    with True 2(3) show ?thesis by simp
  next
    case False
    have "re_member e \<notin> re_member ` set (upsert entry es)" using 2(2-4) False by (auto simp: upsert_set)
    with False 2 show ?thesis by simp
  qed
qed simp

lemma run_view_cong: "(\<And>e. e \<in> set t \<Longrightarrow> m (re_member e) = m' (re_member e)) \<Longrightarrow> run_view m t = run_view m' t"
  by (simp add: run_view_def run_data_def)

section \<open>Rewriting\<close>

lemma dict_update_distinct: "distinct (dict_keys d) \<Longrightarrow> distinct (dict_keys (dict_update d e))"
  unfolding dict_update_def by (induction e arbitrary: d) (simp_all add: distinct_update)

lemma rewrite_table [simp]: "read_run_table (rewrite e n t) = Inr t"
  by (simp add: rewrite_def read_run_table_def serialize_runs_def deserialize_runs_def)

lemma map_of_sorted: "distinct (map fst d) \<Longrightarrow> map_of (sort_key fst d) = map_of (d :: (pystr \<times> 'a) list)"
  by (rule map_of_inject_set[THEN iffD2]) (simp_all add: distinct_map distinct_sort)

lemma rewrite_members:
  assumes "distinct (dict_keys e)"
  shows "dict_get (ar_members (rewrite e n t)) = dict_get (dict_update e n)"
    and "distinct (dict_keys (ar_members (rewrite e n t)))"
proof -
  let ?m = "dict_update e n"
  have d: "distinct (map fst ?m)" using assms by (rule dict_update_distinct)
  have p: "distinct (map fst (dict_pop MEMBER_MANIFEST ?m))" using d by (simp add: distinct_delete)
  have "map_of (sort_key fst (dict_pop MEMBER_MANIFEST ?m)) k = (if k = MEMBER_MANIFEST then None else map_of ?m k)" for k
    using map_of_sorted[OF p] by (simp add: dict_get_pop)
  then show "dict_get (ar_members (rewrite e n t)) = dict_get ?m"
    by (auto simp: rewrite_def fun_eq_iff map_add_def split: option.split)
  have "distinct (map fst (sort_key fst (dict_pop MEMBER_MANIFEST ?m)))"
    using p by (simp add: distinct_map distinct_sort)
  moreover have "MEMBER_MANIFEST \<notin> set (map fst (sort_key fst (dict_pop MEMBER_MANIFEST ?m)))"
    by (simp add: delete_notin_dom)
  ultimately show "distinct (dict_keys (ar_members (rewrite e n t)))"
    by (auto simp: rewrite_def split: option.split)
qed

lemma archive_ok_rewrite:
  assumes "distinct (dict_keys e)" "table_ok (dict_get (dict_update e n)) t"
  shows "archive_ok (rewrite e n t) \<and> archive_view (rewrite e n t) = run_view (dict_get (dict_update e n)) t"
  using assms rewrite_members[OF assms(1), of n t] by (simp add: archive_ok_def archive_view_def)

section \<open>Appending\<close>

text \<open>The archive in the middle of \<open>append_runs\<close>: the new members over the existing ones.\<close>

definition ap_inv :: "(pystr \<rightharpoonup> bytes) \<Rightarrow> appending \<Rightarrow> bool" where
  "ap_inv m ap \<longleftrightarrow> table_ok (m ++ dict_get (ap_new ap)) (ap_table ap) \<and> distinct (dict_keys (ap_new ap))
     \<and> MEMBER_MERGE_OPS \<notin> set (dict_keys (ap_new ap)) \<and> MEMBER_COUNTS \<notin> set (dict_keys (ap_new ap))"

text \<open>A turn that returns: the run's entry and its member, which the table may already have.\<close>

lemma append_stepE:
  assumes step: "append_step bw replace ap nr = Inr ap'"
  obtains cs r ex index reuse mem data where "run_counts nr = Inr cs" "ex = table_get r (ap_table ap)"
    "index = next_member_index (ap_table ap) (ap_claimed ap)" "reuse \<longleftrightarrow> ex \<noteq> None \<and> re_member (the ex) \<noteq> MEMBER_COUNTS"
    "mem = (if reuse then re_member (the ex) else run_member_name index)"
    "bw = 0 \<or> length cs = bw" "\<not> (ex \<noteq> None \<and> \<not> replace)" "counts_serialize cs = Inr data"
    "ap' = ap\<lparr>ap_new := dict_set mem data (ap_new ap), ap_claimed := (if reuse then ap_claimed ap else ap_claimed ap @ [index]),
       ap_table := upsert \<lparr>re_run_id = r, re_member = mem, re_nonzero = Some (length (filter (\<lambda>c. c \<noteq> 0) cs)), re_fields = nr_fields nr\<rparr> (ap_table ap), ap_written := ap_written ap @ [r]\<rparr>"
proof -
  obtain cs where cs: "run_counts nr = Inr cs" using step by (auto simp: append_step_def bindE_eq_Inr)
  define r where "r = (case nr_run_id nr of None \<Rightarrow> auto_run_id (ap_table ap) | Some r \<Rightarrow> r)"
  define ex where "ex = table_get r (ap_table ap)"
  define index where "index = next_member_index (ap_table ap) (ap_claimed ap)"
  define reuse where "reuse \<longleftrightarrow> ex \<noteq> None \<and> re_member (the ex) \<noteq> MEMBER_COUNTS"
  define mem where "mem = (if reuse then re_member (the ex) else run_member_name index)"
  let ?ap = "\<lambda>data. ap\<lparr>ap_new := dict_set mem data (ap_new ap), ap_claimed := (if reuse then ap_claimed ap else ap_claimed ap @ [index]),
       ap_table := upsert \<lparr>re_run_id = r, re_member = mem, re_nonzero = Some (length (filter (\<lambda>c. c \<noteq> 0) cs)), re_fields = nr_fields nr\<rparr> (ap_table ap), ap_written := ap_written ap @ [r]\<rparr>"
  note defs = mem_def reuse_def index_def ex_def r_def
  have eq: "append_step bw replace ap nr =
    (if bw \<noteq> 0 \<and> length cs \<noteq> bw then Inl ValueError
     else if ex \<noteq> None \<and> \<not> replace then Inl FileExistsError else bindE (counts_serialize cs) (\<lambda>data. Inr (?ap data)))"
    unfolding defs append_step_def cs bindE_Inr Let_def by (rule refl)
  have "bw = 0 \<or> length cs = bw" "\<not> (ex \<noteq> None \<and> \<not> replace)" "\<exists>data. counts_serialize cs = Inr data \<and> ap' = ?ap data"
    using step unfolding eq by (auto simp: bindE_eq_Inr split: if_splits)
  then show ?thesis using that[OF cs ex_def index_def reuse_def mem_def] by blast
qed

lemma append_step_refines:
  assumes inv: "ap_inv m ap" and step: "append_step bw replace ap nr = Inr ap'"
  shows "\<exists>r cs. run_counts nr = Inr cs \<and> ap_inv m ap' \<and> ap_written ap' = ap_written ap @ [r] \<and>
    run_view (m ++ dict_get (ap_new ap')) (ap_table ap') = dict_set r cs (run_view (m ++ dict_get (ap_new ap)) (ap_table ap)) \<and>
    (\<not> replace \<longrightarrow> r \<notin> set (map re_run_id (ap_table ap))) \<and> (bw = 0 \<or> length cs = bw) \<and>
    map re_run_id (ap_table ap') = (if r \<in> set (map re_run_id (ap_table ap)) then map re_run_id (ap_table ap) else map re_run_id (ap_table ap) @ [r])"
proof -
  let ?t = "ap_table ap" and ?M = "m ++ dict_get (ap_new ap)"
  have t: "distinct (map re_run_id ?t)" "distinct (map re_member ?t)"
    "\<forall>e\<in>set ?t. run_data ?M e \<noteq> None \<and> re_member e \<notin> set reserved"
    using inv by (simp_all add: ap_inv_def table_ok_def)
  obtain cs r ex index reuse mem data where cs: "run_counts nr = Inr cs" and ex_def: "ex = table_get r ?t"
    and index_def: "index = next_member_index ?t (ap_claimed ap)" and reuse_def: "reuse \<longleftrightarrow> ex \<noteq> None \<and> re_member (the ex) \<noteq> MEMBER_COUNTS"
    and mem_def: "mem = (if reuse then re_member (the ex) else run_member_name index)"
    and w: "bw = 0 \<or> length cs = bw" and rep: "\<not> (ex \<noteq> None \<and> \<not> replace)" and data: "counts_serialize cs = Inr data"
    and ap': "ap' = ap\<lparr>ap_new := dict_set mem data (ap_new ap), ap_claimed := (if reuse then ap_claimed ap else ap_claimed ap @ [index]),
       ap_table := upsert \<lparr>re_run_id = r, re_member = mem, re_nonzero = Some (length (filter (\<lambda>c. c \<noteq> 0) cs)), re_fields = nr_fields nr\<rparr> ?t, ap_written := ap_written ap @ [r]\<rparr>"
    by (rule append_stepE[OF step])
  let ?e = "\<lparr>re_run_id = r, re_member = mem, re_nonzero = Some (length (filter (\<lambda>c. c \<noteq> 0) cs)), re_fields = nr_fields nr\<rparr>"
  let ?M' = "m ++ dict_get (ap_new ap')"
  have M': "?M' = ?M(mem \<mapsto> data)" by (simp add: ap' dict_get_set)
  have other: "re_member x \<noteq> mem" if "x \<in> set ?t" "re_run_id x \<noteq> r" for x
  proof (cases reuse)
    case True
    then obtain y where y: "ex = Some y" by (auto simp: reuse_def)
    then have "y \<in> set ?t" "re_run_id y = r" using table_get_Some[of r ?t y] by (simp_all add: ex_def)
    then show ?thesis using that True y t(2) by (auto simp: mem_def distinct_map inj_on_def)
  next
    case False
    have "re_member x \<in> set (map re_member ?t)" using that(1) by simp
    then have "re_member x \<noteq> run_member_name index"
      using next_member_fresh(2)[of ?t "ap_claimed ap"] unfolding index_def by metis
    with False show ?thesis by (simp add: mem_def)
  qed
  have special: "mem \<notin> set reserved" "mem \<noteq> MEMBER_COUNTS"
  proof -
    have "ex = Some y \<Longrightarrow> y \<in> set ?t" for y using table_get_Some[of r ?t y] by (simp add: ex_def)
    then show "mem \<notin> set reserved" "mem \<noteq> MEMBER_COUNTS"
      using t(3) by (auto simp: mem_def reuse_def)
  qed
  have new: "run_data ?M' ?e = Some cs"
    using counts_roundtrip_aux[OF data, of "[]"] by (simp add: run_data_def M')
  have old: "run_data ?M' x = run_data ?M x" if "x \<in> set ?t" "re_run_id x \<noteq> r" for x
    using other[OF that] by (simp add: run_data_def M')
  have "table_ok ?M' (upsert ?e ?t)"
    unfolding table_ok_def
  proof (intro conjI)
    show "distinct (map re_run_id (upsert ?e ?t))" using t(1) by (simp only: upsert_ids) simp
    show "distinct (map re_member (upsert ?e ?t))" using t other by (intro upsert_members_distinct) auto
    show "\<forall>e\<in>set (upsert ?e ?t). run_data ?M' e \<noteq> None \<and> re_member e \<notin> set reserved"
      using t special new old by (auto simp: upsert_set)
  qed
  then have inv': "ap_inv m ap'"
    using inv special by (auto simp: ap_inv_def ap' M'[unfolded ap'] distinct_update dict_keys_set reserved_def)
  have "run_view ?M' (upsert ?e ?t) = dict_set r cs (run_view ?M ?t)"
  proof -
    have "run_view ?M' (upsert ?e ?t) = dict_set r cs (run_view ?M' ?t)" using upsert_view[of ?M' ?e ?t] new by simp
    also have "\<dots> = dict_set r cs (run_view ?M ?t)"
    proof -
      have "dict_set r cs (map (\<lambda>e. (re_run_id e, f e)) es) = dict_set r cs (map (\<lambda>e. (re_run_id e, g e)) es)"
        if "\<forall>e\<in>set es. re_run_id e \<noteq> r \<longrightarrow> f e = g e" "distinct (map re_run_id es)" for f g :: "run_entry \<Rightarrow> int list" and es
        using that by (induction es) (auto simp: image_iff)
      then show ?thesis using old t(1) by (simp add: run_view_def)
    qed
    finally show ?thesis .
  qed
  then have view: "run_view ?M' (ap_table ap') = dict_set r cs (run_view ?M ?t)" by (simp add: ap')
  have norep: "\<not> replace \<longrightarrow> r \<notin> set (map re_run_id ?t)"
    using rep table_get_None[of r ?t] by (auto simp: ex_def)
  have "map re_run_id (ap_table ap') = (if r \<in> set (map re_run_id ?t) then map re_run_id ?t else map re_run_id ?t @ [r])"
    using upsert_ids[of ?e ?t] by (simp add: ap')
  with cs inv' view norep w show ?thesis by (intro exI[of _ r] exI[of _ cs]) (simp add: ap')
qed

lemma append_fold_refines:
  assumes "ap_inv m ap" "foldE (append_step bw replace) ap nrs = Inr ap'"
  shows "\<exists>rs css. mapE run_counts nrs = Inr css \<and> length rs = length css \<and> ap_inv m ap' \<and> ap_written ap' = ap_written ap @ rs \<and>
    run_view (m ++ dict_get (ap_new ap')) (ap_table ap') = dict_update (run_view (m ++ dict_get (ap_new ap)) (ap_table ap)) (zip rs css) \<and>
    (\<not> replace \<longrightarrow> distinct rs \<and> set rs \<inter> set (map re_run_id (ap_table ap)) = {}) \<and> (bw = 0 \<or> (\<forall>cs\<in>set css. length cs = bw))"
  using assms
proof (induction nrs arbitrary: ap)
  case Nil
  then show ?case by (simp add: dict_update_def)
next
  case (Cons nr nrs)
  obtain ap1 where s: "append_step bw replace ap nr = Inr ap1" "foldE (append_step bw replace) ap1 nrs = Inr ap'"
    using Cons.prems(2) by (auto simp: bindE_eq_Inr)
  obtain r cs where f: "run_counts nr = Inr cs" "ap_inv m ap1" "ap_written ap1 = ap_written ap @ [r]"
    "run_view (m ++ dict_get (ap_new ap1)) (ap_table ap1) = dict_set r cs (run_view (m ++ dict_get (ap_new ap)) (ap_table ap))"
    "\<not> replace \<longrightarrow> r \<notin> set (map re_run_id (ap_table ap))" "bw = 0 \<or> length cs = bw"
    "map re_run_id (ap_table ap1) = (if r \<in> set (map re_run_id (ap_table ap)) then map re_run_id (ap_table ap) else map re_run_id (ap_table ap) @ [r])"
    using append_step_refines[OF Cons.prems(1) s(1)] by blast
  obtain rs css where g: "mapE run_counts nrs = Inr css" "length rs = length css" "ap_inv m ap'" "ap_written ap' = ap_written ap1 @ rs"
    "run_view (m ++ dict_get (ap_new ap')) (ap_table ap') = dict_update (run_view (m ++ dict_get (ap_new ap1)) (ap_table ap1)) (zip rs css)"
    "\<not> replace \<longrightarrow> distinct rs \<and> set rs \<inter> set (map re_run_id (ap_table ap1)) = {}" "bw = 0 \<or> (\<forall>cs\<in>set css. length cs = bw)"
    using Cons.IH[OF f(2) s(2)] by blast
  have ids: "set (map re_run_id (ap_table ap1)) = insert r (set (map re_run_id (ap_table ap)))"
    unfolding f(7) by auto
  show ?case
  proof (intro exI conjI)
    show "mapE run_counts (nr # nrs) = Inr (cs # css)" using f(1) g(1) by simp
    show "length (r # rs) = length (cs # css)" using g(2) by simp
    show "ap_inv m ap'" by (rule g(3))
    show "ap_written ap' = ap_written ap @ r # rs" using f(3) g(4) by simp
    show "run_view (m ++ dict_get (ap_new ap')) (ap_table ap') =
        dict_update (run_view (m ++ dict_get (ap_new ap)) (ap_table ap)) (zip (r # rs) (cs # css))"
      unfolding g(5) f(4) by (simp add: dict_update_def)
    show "\<not> replace \<longrightarrow> distinct (r # rs) \<and> set (r # rs) \<inter> set (map re_run_id (ap_table ap)) = {}"
      using f(5) g(6) unfolding ids by auto
    show "bw = 0 \<or> (\<forall>cs\<in>set (cs # css). length cs = bw)" using f(6) g(7) by auto
  qed
qed

text \<open>The members the table gives to the runs \<open>ids\<close>, and the entries of the other runs.\<close>

definition table_members :: "pystr list \<Rightarrow> run_entry list \<Rightarrow> pystr list" where
  "table_members ids t = map re_member (filter (\<lambda>e. re_run_id e \<in> set ids) t)"

definition other_entries :: "pystr list \<Rightarrow> run_entry list \<Rightarrow> run_entry list" where
  "other_entries ids t = filter (\<lambda>e. re_run_id e \<notin> set ids) t"

definition archive_table :: "archive \<Rightarrow> run_entry list" where
  "archive_table zf = (case read_run_table zf of Inl _ \<Rightarrow> [] | Inr t \<Rightarrow> t)"

lemma append_step_entry:
  assumes inv: "ap_inv m ap" and step: "append_step bw replace ap nr = Inr ap'"
  shows "\<exists>e. ap_written ap' = ap_written ap @ [re_run_id e] \<and> ap_table ap' = upsert e (ap_table ap) \<and>
    set (dict_keys (ap_new ap')) = insert (re_member e) (set (dict_keys (ap_new ap))) \<and>
    ((\<exists>i. re_member e = run_member_name i) \<or> replace \<and> (\<exists>x\<in>set (ap_table ap). re_run_id x = re_run_id e \<and> re_member x = re_member e)) \<and>
    (\<forall>x\<in>set (ap_table ap). re_run_id x = re_run_id e \<and> re_member x \<noteq> MEMBER_COUNTS \<longrightarrow> re_member x = re_member e)"
proof -
  let ?t = "ap_table ap"
  have d: "distinct (map re_run_id ?t)" using inv by (simp add: ap_inv_def table_ok_def)
  obtain cs r ex index reuse mem data where "run_counts nr = Inr cs" and ex_def: "ex = table_get r ?t"
    and "index = next_member_index ?t (ap_claimed ap)" and reuse_def: "reuse \<longleftrightarrow> ex \<noteq> None \<and> re_member (the ex) \<noteq> MEMBER_COUNTS"
    and mem: "mem = (if reuse then re_member (the ex) else run_member_name index)" and "bw = 0 \<or> length cs = bw"
    and rep: "\<not> (ex \<noteq> None \<and> \<not> replace)" and "counts_serialize cs = Inr data"
    and ap': "ap' = ap\<lparr>ap_new := dict_set mem data (ap_new ap), ap_claimed := (if reuse then ap_claimed ap else ap_claimed ap @ [index]),
       ap_table := upsert \<lparr>re_run_id = r, re_member = mem, re_nonzero = Some (length (filter (\<lambda>c. c \<noteq> 0) cs)), re_fields = nr_fields nr\<rparr> ?t, ap_written := ap_written ap @ [r]\<rparr>"
    by (rule append_stepE[OF step])
  let ?e = "\<lparr>re_run_id = r, re_member = mem, re_nonzero = Some (length (filter (\<lambda>c. c \<noteq> 0) cs)), re_fields = nr_fields nr\<rparr>"
  note mem_def = mem[unfolded reuse_def]
  have ex: "ex = Some x \<longleftrightarrow> x \<in> set ?t \<and> re_run_id x = r" for x
  proof
    assume "x \<in> set ?t \<and> re_run_id x = r"
    moreover from this obtain y where "ex = Some y" using table_get_None[of r ?t] by (auto simp: ex_def)
    ultimately show "ex = Some x" using table_get_Some[of r ?t y] d by (auto simp: ex_def distinct_map inj_on_def)
  qed (simp add: ex_def table_get_Some)
  have "(\<exists>i. mem = run_member_name i) \<or> replace \<and> (\<exists>x\<in>set ?t. re_run_id x = r \<and> re_member x = mem)"
  proof (cases ex)
    case (Some x)
    then show ?thesis using rep ex[of x] by (auto simp: mem_def)
  qed (auto simp: mem_def)
  moreover have "\<forall>x\<in>set ?t. re_run_id x = r \<and> re_member x \<noteq> MEMBER_COUNTS \<longrightarrow> re_member x = mem"
  proof (intro ballI impI, elim conjE)
    fix x assume x: "x \<in> set ?t" "re_run_id x = r" "re_member x \<noteq> MEMBER_COUNTS"
    then have "ex = Some x" using ex by blast
    with x(3) show "re_member x = mem" by (simp add: mem_def)
  qed
  moreover have "set (dict_keys (ap_new ap')) = insert mem (set (dict_keys (ap_new ap)))"
    by (auto simp: ap' dict_keys_set)
  ultimately show ?thesis by (intro exI[of _ ?e]) (simp add: ap')
qed

lemma upsert_other: "re_run_id e \<in> set ids \<Longrightarrow> other_entries ids (upsert e t) = other_entries ids t"
  unfolding other_entries_def by (induction e t rule: upsert.induct) auto

text \<open>What a member the loop has written is: a fresh one, or the old one of a run that is replaced.\<close>

definition ap_frame :: "run_entry list \<Rightarrow> bool \<Rightarrow> appending \<Rightarrow> bool" where
  "ap_frame t0 replace ap \<longleftrightarrow>
     set (dict_keys (ap_new ap)) \<subseteq> set (table_members (ap_written ap) (ap_table ap)) \<and>
     (\<forall>k\<in>set (table_members (ap_written ap) (ap_table ap)).
        (\<exists>i. k = run_member_name i) \<or> replace \<and> k \<in> set (table_members (ap_written ap) t0)) \<and>
     other_entries (ap_written ap) (ap_table ap) = other_entries (ap_written ap) t0"

lemma append_step_frame:
  assumes inv: "ap_inv m ap" and step: "append_step bw replace ap nr = Inr ap'" and fr: "ap_frame t0 replace ap"
  shows "ap_frame t0 replace ap'"
proof -
  obtain e where e: "ap_written ap' = ap_written ap @ [re_run_id e]" "ap_table ap' = upsert e (ap_table ap)"
    "set (dict_keys (ap_new ap')) = insert (re_member e) (set (dict_keys (ap_new ap)))"
    "(\<exists>i. re_member e = run_member_name i) \<or> replace \<and> (\<exists>x\<in>set (ap_table ap). re_run_id x = re_run_id e \<and> re_member x = re_member e)"
    "\<forall>x\<in>set (ap_table ap). re_run_id x = re_run_id e \<and> re_member x \<noteq> MEMBER_COUNTS \<longrightarrow> re_member x = re_member e"
    using append_step_entry[OF inv step] by blast
  have d: "distinct (map re_run_id (ap_table ap))" and nc: "MEMBER_COUNTS \<notin> set (dict_keys (ap_new ap))"
    using inv by (simp_all add: ap_inv_def table_ok_def)
  have up: "set (upsert e (ap_table ap)) = insert e {x \<in> set (ap_table ap). re_run_id x \<noteq> re_run_id e}" by (rule upsert_set[OF d])
  have oth: "x \<in> set t0" if "x \<in> set (ap_table ap)" "re_run_id x \<notin> set (ap_written ap)" for x
  proof -
    have "x \<in> set (other_entries (ap_written ap) (ap_table ap))" using that by (simp add: other_entries_def)
    then have "x \<in> set (other_entries (ap_written ap) t0)" using fr by (simp add: ap_frame_def)
    then show ?thesis by (simp add: other_entries_def)
  qed
  have old: "(\<exists>i. re_member x = run_member_name i) \<or> replace \<and> re_member x \<in> set (table_members (ap_written ap) t0)"
    if "x \<in> set (ap_table ap)" "re_run_id x \<in> set (ap_written ap)" for x
    using fr that by (auto simp: ap_frame_def table_members_def)
  have more: "set (table_members (ap_written ap) t0) \<subseteq> set (table_members (ap_written ap') t0)" by (auto simp: table_members_def e(1))
  have form: "(\<exists>i. re_member e = run_member_name i) \<or> replace \<and> re_member e \<in> set (table_members (ap_written ap') t0)"
    using e(4)
  proof (elim disjE conjE bexE)
    fix x assume x: "replace" "x \<in> set (ap_table ap)" "re_run_id x = re_run_id e" "re_member x = re_member e"
    show ?thesis
    proof (cases "re_run_id x \<in> set (ap_written ap)")
      case True
      with old[OF x(2)] more x(4) show ?thesis by auto
    next
      case False
      with oth[OF x(2)] x have "re_member e \<in> set (table_members (ap_written ap') t0)"
        by (auto simp: table_members_def e(1) image_iff intro!: bexI[of _ x])
      with x(1) show ?thesis by simp
    qed
  qed simp
  have keys: "k \<in> set (table_members (ap_written ap') (ap_table ap'))" if "k \<in> set (dict_keys (ap_new ap))" for k
  proof -
    have "k \<in> set (table_members (ap_written ap) (ap_table ap))" using fr that by (auto simp only: ap_frame_def)
    then obtain x where x: "x \<in> set (ap_table ap)" "re_run_id x \<in> set (ap_written ap)" "re_member x = k"
      by (auto simp: table_members_def)
    moreover have "k \<noteq> MEMBER_COUNTS" using nc that by metis
    ultimately show ?thesis
      using e(5) by (cases "re_run_id x = re_run_id e") (auto simp: table_members_def e(1,2) up image_iff)
  qed
  show ?thesis
    unfolding ap_frame_def
  proof (intro conjI ballI)
    show "set (dict_keys (ap_new ap')) \<subseteq> set (table_members (ap_written ap') (ap_table ap'))"
    proof
      fix k assume "k \<in> set (dict_keys (ap_new ap'))"
      then have "k = re_member e \<or> k \<in> set (dict_keys (ap_new ap))" unfolding e(3) by blast
      moreover have "re_member e \<in> set (table_members (ap_written ap') (ap_table ap'))" by (simp add: table_members_def e(1,2) up)
      ultimately show "k \<in> set (table_members (ap_written ap') (ap_table ap'))" using keys by metis
    qed
    show "(\<exists>i. k = run_member_name i) \<or> replace \<and> k \<in> set (table_members (ap_written ap') t0)"
      if "k \<in> set (table_members (ap_written ap') (ap_table ap'))" for k
    proof -
      from that obtain x where x: "x \<in> set (upsert e (ap_table ap))" "re_run_id x \<in> set (ap_written ap')" "k = re_member x"
        by (auto simp: table_members_def e(2))
      show ?thesis using x form old more by (auto simp: up e(1))
    qed
    have "other_entries (ap_written ap @ [re_run_id e]) t = other_entries [re_run_id e] (other_entries (ap_written ap) t)" for t
      by (auto simp: other_entries_def intro: filter_cong)
    then show "other_entries (ap_written ap') (ap_table ap') = other_entries (ap_written ap') t0"
      using fr upsert_other[of e "ap_written ap @ [re_run_id e]" "ap_table ap"] by (simp add: e(1,2) ap_frame_def)
  qed
qed

lemma append_fold_frame:
  assumes "ap_inv m ap" "foldE (append_step bw replace) ap nrs = Inr ap'" "ap_frame t0 replace ap"
  shows "ap_frame t0 replace ap'"
  using assms
proof (induction nrs arbitrary: ap)
  case (Cons nr nrs)
  then obtain ap1 where s: "append_step bw replace ap nr = Inr ap1" "foldE (append_step bw replace) ap1 nrs = Inr ap'"
    by (auto simp: bindE_eq_Inr)
  have "ap_inv m ap1" using append_step_refines[OF Cons.prems(1) s(1)] by blast
  then show ?case using Cons.IH s(2) append_step_frame[OF Cons.prems(1) s(1) Cons.prems(3)] by blast
qed simp

lemma dict_update_get: "distinct (dict_keys e) \<Longrightarrow> dict_get (dict_update d e) = dict_get d ++ dict_get e"
  by (simp add: fun_eq_iff dict_get_update map_add_def)

lemma dict_update_fresh:
  "distinct (map fst e) \<Longrightarrow> set (map fst d) \<inter> set (map fst e) = {} \<Longrightarrow> dict_update d e = d @ e"
  unfolding dict_update_def by (induction e arbitrary: d) (auto simp: update_notin)

lemma append_runs_view:
  assumes ok: "archive_ok zf" and app: "append_runs zf nrs replace = Inr (written, zf')"
  shows "archive_ok zf' \<and> (\<exists>css. mapE run_counts nrs = Inr css \<and> length written = length css \<and>
      archive_view zf' = dict_update (archive_view zf) (zip written css) \<and>
      (\<not> replace \<longrightarrow> archive_view zf' = archive_view zf @ zip written css)) \<and>
    read_ops zf' = read_ops zf \<and> dict_get (ar_members zf') MEMBER_COUNTS = dict_get (ar_members zf) MEMBER_COUNTS \<and>
    (\<forall>name. dict_get (ar_members zf') name \<noteq> dict_get (ar_members zf) name \<longrightarrow>
       name \<in> set (table_members written (archive_table zf')) \<and>
       ((\<exists>i. name = run_member_name i) \<or> replace \<and> name \<in> set (table_members written (archive_table zf)))) \<and>
    other_entries written (archive_table zf') = other_entries written (archive_table zf)"
proof -
  let ?e = "ar_members zf"
  obtain t where t: "read_run_table zf = Inr t" "table_ok (dict_get ?e) t" and d: "distinct (dict_keys ?e)"
    using ok by (auto simp: archive_ok_def)
  obtain base where b: "counts_deserialize (case dict_get ?e MEMBER_COUNTS of None \<Rightarrow> [] | Some data \<Rightarrow> data) = Inr base"
    using app t(1) by (auto simp: append_runs_def bindE_eq_Inr)
  obtain ap where ap: "foldE (append_step (length base) replace)
      \<lparr>ap_table = t, ap_claimed = [], ap_new = [], ap_written = []\<rparr> nrs = Inr ap"
    and w: "written = ap_written ap" and zf': "zf' = rewrite ?e (ap_new ap) (ap_table ap)"
    using app unfolding append_runs_def t(1) b bindE_Inr bindE_eq_Inr by blast
  let ?ap0 = "\<lparr>ap_table = t, ap_claimed = [], ap_new = [], ap_written = []\<rparr>"
  have i0: "ap_inv (dict_get ?e) ?ap0" using t(2) by (simp add: ap_inv_def)
  obtain rs css where f: "mapE run_counts nrs = Inr css" "length rs = length css" "ap_inv (dict_get ?e) ap" "ap_written ap = [] @ rs"
    "run_view (dict_get ?e ++ dict_get (ap_new ap)) (ap_table ap) = dict_update (run_view (dict_get ?e) t) (zip rs css)"
    "\<not> replace \<longrightarrow> distinct rs \<and> set rs \<inter> set (map re_run_id t) = {}"
    using append_fold_refines[OF i0 ap] by auto
  have n: "distinct (dict_keys (ap_new ap))" "MEMBER_MERGE_OPS \<notin> set (dict_keys (ap_new ap))" "MEMBER_COUNTS \<notin> set (dict_keys (ap_new ap))"
    and tok: "table_ok (dict_get ?e ++ dict_get (ap_new ap)) (ap_table ap)"
    using f(3) by (simp_all add: ap_inv_def)
  have m: "dict_get (dict_update ?e (ap_new ap)) = dict_get ?e ++ dict_get (ap_new ap)"
    by (rule dict_update_get[OF n(1)])
  have a: "archive_ok zf'" "archive_view zf' = dict_update (archive_view zf) (zip rs css)"
    using archive_ok_rewrite[OF d, of "ap_new ap" "ap_table ap"] tok t(1) f(5) by (simp_all add: zf' m archive_view_def)
  have k: "dict_get (ar_members zf') x = dict_get ?e x" if "x \<notin> set (dict_keys (ap_new ap))" for x
  proof -
    have "dict_get (ap_new ap) x = None" using that by (simp add: map_of_eq_None_iff)
    then show ?thesis using rewrite_members(1)[OF d, of "ap_new ap" "ap_table ap"] by (simp add: zf' m map_add_def)
  qed
  have "archive_view zf' = archive_view zf @ zip rs css" if "\<not> replace"
  proof -
    have "set (map fst (archive_view zf)) = set (map re_run_id t)" unfolding archive_view_def t(1) by (simp del: set_map)
    then show ?thesis unfolding a(2) using f(2,6) that by (intro dict_update_fresh) auto
  qed
  moreover have fr: "ap_frame t replace ap"
    by (rule append_fold_frame[OF i0 ap]) (simp add: ap_frame_def table_members_def other_entries_def)
  have tb: "archive_table zf = t" "archive_table zf' = ap_table ap" using t(1) by (simp_all add: archive_table_def zf')
  have "name \<in> set (table_members written (ap_table ap)) \<and>
      ((\<exists>i. name = run_member_name i) \<or> replace \<and> name \<in> set (table_members written t))"
    if "dict_get (ar_members zf') name \<noteq> dict_get ?e name" for name
  proof -
    have "name \<in> set (dict_keys (ap_new ap))" using k[of name] that by metis
    then show ?thesis using fr unfolding ap_frame_def w by blast
  qed
  moreover have "other_entries written (ap_table ap) = other_entries written t" using fr by (simp add: ap_frame_def w)
  ultimately show ?thesis using a f(1,2,4) k[OF n(2)] k[OF n(3)] unfolding tb by (simp add: w read_ops_def)
qed

text \<open>
  C22 (refinement). \<open>append_runs\<close> on a well-formed archive is the update of its list of runs: each new
  run is added at the end with its counts, or replaces the run of the same id in place; without
  \<open>replace\<close> the archive's runs are exactly the old ones followed by the new ones. Every member the call
  changes is the counts member of a run it wrote, and it is a \<open>counts/run-N.bin\<close> member or, with
  \<open>replace\<close>, the member the run had before; so the strings, the scope tree, the merge operations, the
  baseline array and everything else are neither changed nor dropped. The table keeps the entries of the
  other runs, in their order, and the result is well formed again.
\<close>

theorem append_runs_refines:
  assumes "archive_ok zf" "append_runs zf nrs replace = Inr (written, zf')"
  shows "archive_ok zf' \<and> (\<exists>css. mapE run_counts nrs = Inr css \<and> length written = length css \<and>
      archive_view zf' = dict_update (archive_view zf) (zip written css) \<and>
      (\<not> replace \<longrightarrow> archive_view zf' = archive_view zf @ zip written css)) \<and>
    read_ops zf' = read_ops zf \<and> dict_get (ar_members zf') MEMBER_COUNTS = dict_get (ar_members zf) MEMBER_COUNTS \<and>
    (\<forall>name. dict_get (ar_members zf') name \<noteq> dict_get (ar_members zf) name \<longrightarrow>
       name \<in> set (table_members written (archive_table zf')) \<and>
       ((\<exists>i. name = run_member_name i) \<or> replace \<and> name \<in> set (table_members written (archive_table zf)))) \<and>
    other_entries written (archive_table zf') = other_entries written (archive_table zf)"
  by (rule append_runs_view[OF assms])

definition example_archive :: archive where
  "example_archive = \<lparr>ar_members = [(MEMBER_COUNTS, [1, 2, 5, 1])], ar_runs = None\<rparr>"

lemma example_archive_data: "counts_deserialize [1, 2, 5, 1] = Inr [5, 1]"
proof -
  have "counts_serialize [5, 1] = Inr [1, 2, 5, 1]"
    by (simp add: counts_serialize_def encode_varints_def encode_varint_def varint_loop_small COUNTS_MODE_VARINT_def)
  from counts_roundtrip_aux[OF this, of "[]"] show ?thesis by simp
qed

definition named_run :: "pystr \<Rightarrow> int list \<Rightarrow> new_run" where
  "named_run r cs = \<lparr>nr_run_id = Some r, nr_db = None, nr_counts = Some cs, nr_fields = no_fields\<rparr>"

lemma example_archive_ok: "archive_ok example_archive" "archive_view example_archive = [(BASELINE_RUN_ID, [5, 1])]"
  by (simp_all add: archive_ok_def archive_view_def example_archive_def read_run_table_def baseline_entry_def table_ok_def
      run_data_def run_view_def example_archive_data reserved_def MEMBER_SQUASH_LOG_def MEMBER_COUNTS_def MEMBER_MERGE_OPS_def MEMBER_MANIFEST_def lit_def)

lemma append_runs_refines_witness:
  "\<exists>zf' written. append_runs example_archive [named_run (lit ''a'') [1, 0], named_run (lit ''b'') [0, 7]] False = Inr (written, zf') \<and>
     archive_view zf' = archive_view example_archive @ zip written [[1, 0], [0, 7]]"
proof -
  let ?nrs = "[named_run (lit ''a'') [1, 0], named_run (lit ''b'') [0, 7]]"
  have "is_ok (counts_serialize [1, 0])" "is_ok (counts_serialize [0, 7])" by (simp_all add: counts_serialize_ok)
  then obtain b c where "counts_serialize [1, 0] = Inr b" "counts_serialize [0, 7] = Inr c" by (auto elim!: is_okE)
  then have "is_ok (append_runs example_archive ?nrs False)"
    by (simp add: append_runs_def example_archive_def read_run_table_def example_archive_data append_step_def run_counts_def
        named_run_def table_get_def baseline_entry_def BASELINE_RUN_ID_def lit_def)
  then obtain written zf' where a: "append_runs example_archive ?nrs False = Inr (written, zf')" by (auto elim!: is_okE)
  from append_runs_refines[OF example_archive_ok(1) a] a show ?thesis by (auto simp: run_counts_def named_run_def)
qed

section \<open>Dropping and resolving\<close>

lemma drop_members_get:
  "dict_get (foldl (\<lambda>m e. if P e then dict_pop (re_member e) m else m) d t) k =
     (if \<exists>e\<in>set t. P e \<and> re_member e = k then None else dict_get d k)"
  by (induction t arbitrary: d) (auto simp: dict_get_pop)

lemma drop_members_distinct:
  "distinct (dict_keys d) \<Longrightarrow> distinct (dict_keys (foldl (\<lambda>m e. if P e then dict_pop (re_member e) m else m) d t))"
  by (induction t arbitrary: d) (simp_all add: distinct_delete)

lemma table_ok_filter: "table_ok m t \<Longrightarrow> table_ok m (filter P t)"
  by (auto simp: table_ok_def distinct_map_filter)

lemma drop_runs_view:
  assumes ok: "archive_ok zf" and drop: "drop_runs zf ds = Inr (ids, zf')"
  shows "archive_ok zf' \<and> archive_view zf' = filter (\<lambda>(r, _). r \<notin> set ds) (archive_view zf) \<and>
    ids = map fst (archive_view zf') \<and> ids \<noteq> [] \<and> read_ops zf' = read_ops zf \<and>
    dict_get (ar_members zf') MEMBER_COUNTS = dict_get (ar_members zf) MEMBER_COUNTS"
proof -
  let ?e = "ar_members zf"
  obtain t where t: "read_run_table zf = Inr t" "table_ok (dict_get ?e) t" and d: "distinct (dict_keys ?e)"
    using ok by (auto simp: archive_ok_def)
  let ?P = "\<lambda>e. re_run_id e \<in> set ds \<and> re_member e \<noteq> MEMBER_COUNTS"
  let ?rem = "filter (\<lambda>e. re_run_id e \<notin> set ds) t"
  define ms where "ms = foldl (\<lambda>m e. if ?P e then dict_pop (re_member e) m else m) ?e t"
  have ne: "?rem \<noteq> []" and ids: "ids = table_run_ids ?rem" and zf': "zf' = rewrite ms [] ?rem"
    using drop t(1) by (auto simp: drop_runs_def ms_def split: if_splits)
  have dm: "distinct (dict_keys ms)" unfolding ms_def by (rule drop_members_distinct[OF d])
  have u: "dict_update ms [] = ms" by (simp add: dict_update_def)
  have get: "dict_get ms k = (if \<exists>e\<in>set t. ?P e \<and> re_member e = k then None else dict_get ?e k)" for k
    unfolding ms_def by (rule drop_members_get)
  have keep: "dict_get ms (re_member e) = dict_get ?e (re_member e)" if "e \<in> set ?rem" for e
  proof -
    have "\<not> (\<exists>x\<in>set t. ?P x \<and> re_member x = re_member e)"
      using t(2) that by (auto simp: table_ok_def distinct_map inj_on_def)
    then show ?thesis unfolding get by (rule if_not_P)
  qed
  have tok: "table_ok (dict_get ms) ?rem"
    using table_ok_filter[OF t(2), of "\<lambda>e. re_run_id e \<notin> set ds"] keep by (auto simp: table_ok_def run_data_def)
  have v: "run_view (dict_get ms) ?rem = filter (\<lambda>(r, _). r \<notin> set ds) (run_view (dict_get ?e) t)"
    using run_view_cong[of ?rem "dict_get ms" "dict_get ?e"] keep
    by (simp add: run_view_def filter_map comp_def)
  have special: "dict_get ms MEMBER_MERGE_OPS = dict_get ?e MEMBER_MERGE_OPS" "dict_get ms MEMBER_COUNTS = dict_get ?e MEMBER_COUNTS"
    using t(2) unfolding get by (auto simp: table_ok_def reserved_def)
  show ?thesis
    using archive_ok_rewrite[OF dm, of "[]" ?rem] tok v t(1) ne special rewrite_members(1)[OF dm, of "[]" ?rem]
    by (simp add: zf' u archive_view_def ids table_run_ids_def read_ops_def run_view_def comp_def filter_map split_def)
qed

lemma selected_arrays_view:
  assumes "table_ok (dict_get (ar_members zf)) t" "set rs \<subseteq> set (map re_run_id t)"
  shows "selected_arrays zf t rs = Inr (map (\<lambda>r. the (dict_get (run_view (dict_get (ar_members zf)) t) r)) rs)"
proof -
  let ?m = "dict_get (ar_members zf)"
  have one: "(case table_get r t of None \<Rightarrow> Inl TypeError
       | Some e \<Rightarrow> (case ?m (re_member e) of None \<Rightarrow> Inr []
            | Some data \<Rightarrow> bindE (counts_deserialize data) (\<lambda>a. Inr [a])))
      = Inr [the (dict_get (run_view ?m t) r)]" if "r \<in> set rs" for r
  proof -
    have "r \<in> set (map re_run_id t)" using assms(2) that by blast
    then obtain e where e: "table_get r t = Some e" using table_get_None[of r t] by (cases "table_get r t") auto
    then have "run_data ?m e \<noteq> None" using assms(1) table_get_Some[OF e] by (simp add: table_ok_def)
    then obtain data cs where "?m (re_member e) = Some data" "counts_deserialize data = Inr cs"
      by (auto simp: run_data_def split: option.splits sum.splits)
    with e show ?thesis by (simp add: table_get_view run_data_def)
  qed
  then have "selected_arrays zf t rs = Inr (concat (map (\<lambda>r. [the (dict_get (run_view ?m t) r)]) rs))"
    unfolding selected_arrays_def by (intro concatE_Inr)
  moreover have "concat (map (\<lambda>r. [f r]) rs) = map f rs" for f :: "pystr \<Rightarrow> int list" by (induction rs) simp_all
  ultimately show ?thesis by simp
qed

lemma foldl_max: "foldl (\<lambda>m a. max m (length a)) k as = max k (foldl (\<lambda>m a. max m (length a)) 0 as)"
proof (induction as arbitrary: k)
  case (Cons a as)
  from Cons[of "max k (length a)"] Cons[of "length a"] show ?case by (simp add: max.assoc)
qed simp

lemma max_width_eq: "as \<noteq> [] \<Longrightarrow> \<forall>a\<in>set as. length a = n \<Longrightarrow> max_width as = n"
proof -
  have f: "\<forall>a\<in>set as. length a = n \<Longrightarrow> foldl (\<lambda>m a. max m (length a)) n as = n" for as :: "int list list"
    by (induction as) simp_all
  assume "as \<noteq> []" "\<forall>a\<in>set as. length a = n"
  then obtain a as' where "as = a # as'" "length a = n" "\<forall>a\<in>set as'. length a = n" by (cases as) auto
  with f[of as'] show ?thesis by (simp add: max_width_def)
qed

lemma pad_same: "as \<noteq> [] \<Longrightarrow> \<forall>a\<in>set as. length a = n \<Longrightarrow> map (pad_to (max_width as)) as = as"
  using max_width_eq[of as n] by (auto simp: pad_to_def intro: map_idI)

lemma merge_counts_single: "merge_counts [a] ops = a"
proof (rule nth_equalityI)
  show "length (merge_counts [a] ops) = length a" using merge_counts_nth[of "[a]" "length a" ops] by simp
  fix i assume "i < length (merge_counts [a] ops)"
  then show "merge_counts [a] ops ! i = a ! i"
    using merge_counts_nth[of "[a]" "length a" ops] by (auto simp: column_def)
qed

lemma resolve_case:
  assumes "\<forall>a\<in>set as. length a = n"
  shows "(case as of [] \<Rightarrow> Inr [] | [a] \<Rightarrow> Inr a | _ \<Rightarrow> Inr (merge_counts (map (pad_to (max_width as)) as) ops)) =
    Inr (merge_counts as ops)"
proof (cases "as = []")
  case True
  then show ?thesis by (simp add: merge_counts_def)
next
  case False
  show ?thesis unfolding pad_same[OF False assms]
    using False by (auto simp: merge_counts_single split: list.split)
qed

lemma resolve_view:
  assumes ok: "archive_ok zf" and ne: "archive_view zf \<noteq> []" and ops: "read_ops zf = Inr ops"
    and sel: "rs = (case runs of None \<Rightarrow> map fst (archive_view zf) | Some rs \<Rightarrow> rs)"
    and wid: "\<forall>(r, cs)\<in>set (archive_view zf). length cs = n"
  shows "resolve_counts zf runs =
    (if set rs \<subseteq> set (map fst (archive_view zf))
     then Inr (merge_counts (map (\<lambda>r. the (dict_get (archive_view zf) r)) rs) ops) else Inl RunTableError)"
proof -
  let ?m = "dict_get (ar_members zf)"
  obtain t where t: "read_run_table zf = Inr t" "table_ok ?m t" using ok by (auto simp: archive_ok_def)
  have v: "archive_view zf = run_view ?m t" by (simp add: archive_view_def t(1))
  have tne: "t \<noteq> []" using ne by (auto simp: v run_view_def)
  have sel': "(case runs of None \<Rightarrow> table_run_ids t | Some rs \<Rightarrow> rs) = rs"
    by (simp only: sel v run_view_ids table_run_ids_def)
  have miss: "filter (\<lambda>r. table_get r t = None) rs = [] \<longleftrightarrow> set rs \<subseteq> set (map re_run_id t)"
    by (auto simp: filter_empty_conv table_get_None)
  show ?thesis
  proof (cases "set rs \<subseteq> set (map re_run_id t)")
    case False
    then show ?thesis
      using miss tne by (simp add: resolve_counts_def t(1) sel' v del: set_map)
  next
    case True
    let ?as = "map (\<lambda>r. the (dict_get (run_view ?m t) r)) rs"
    have "length a = n" if a: "a \<in> set ?as" for a
    proof -
      obtain r where r: "r \<in> set rs" "a = the (dict_get (run_view ?m t) r)" using a by auto
      have "r \<in> set (map fst (run_view ?m t))" using r(1) True by (simp only: run_view_ids) blast
      then have "dict_get (run_view ?m t) r \<noteq> None" by (simp add: map_of_eq_None_iff del: run_view_ids)
      then have "(r, a) \<in> set (run_view ?m t)" using r by (auto dest: map_of_SomeD)
      then show ?thesis using wid by (auto simp: v)
    qed
    then have w: "\<forall>a\<in>set ?as. length a = n" by blast
    have ids: "set (map fst (archive_view zf)) = set (map re_run_id t)" unfolding v by (simp del: set_map)
    have "resolve_counts zf runs = (case ?as of [] \<Rightarrow> Inr [] | [a] \<Rightarrow> Inr a | _ \<Rightarrow> Inr (merge_counts (map (pad_to (max_width ?as)) ?as) ops))"
      using True miss tne ops
      by (simp add: resolve_counts_def t(1) sel' selected_arrays_view[OF t(2) True] del: set_map list.map split del: if_split cong: list.case_cong)
    also have "\<dots> = Inr (merge_counts ?as ops)" by (rule resolve_case[OF w])
    finally show ?thesis using True unfolding ids v by simp
  qed
qed

text \<open>
  \<open>drop_runs\<close> removes exactly the named runs from the archive's list of runs and keeps
  the others with their counts in order; the baseline array and the merge operations stay, the ids it
  returns are those of the result, and the result is a well-formed archive with at least one run.
\<close>

theorem drop_runs_refines:
  assumes "archive_ok zf" "drop_runs zf ds = Inr (ids, zf')"
  shows "archive_ok zf' \<and> archive_view zf' = filter (\<lambda>(r, _). r \<notin> set ds) (archive_view zf) \<and>
    ids = map fst (archive_view zf') \<and> ids \<noteq> [] \<and> read_ops zf' = read_ops zf \<and>
    dict_get (ar_members zf') MEMBER_COUNTS = dict_get (ar_members zf) MEMBER_COUNTS"
  by (rule drop_runs_view[OF assms])

definition two_run_archive :: archive where
  "two_run_archive = \<lparr>ar_members = [(MEMBER_COUNTS, [1, 2, 5, 1]), (run_member_name 0, [1, 2, 5, 1])],
     ar_runs = Some (RJ (Some 1) [baseline_entry,
       \<lparr>re_run_id = lit ''a'', re_member = run_member_name 0, re_nonzero = Some 2, re_fields = no_fields\<rparr>])\<rparr>"

lemma run_member_ne [simp]: "MEMBER_COUNTS \<noteq> run_member_name i" "MEMBER_MERGE_OPS \<noteq> run_member_name i"
    "MEMBER_MANIFEST \<noteq> run_member_name i"
  using run_member_not_counts[of i] by metis+

lemma two_run_archive_ok:
  "archive_ok two_run_archive" "archive_view two_run_archive = [(BASELINE_RUN_ID, [5, 1]), (lit ''a'', [5, 1])]"
  "read_ops two_run_archive = Inr []"
proof -
  have "BASELINE_RUN_ID \<noteq> lit ''a''" "MEMBER_COUNTS \<noteq> MEMBER_MERGE_OPS" "MEMBER_COUNTS \<noteq> MEMBER_MANIFEST"
    "MEMBER_MERGE_OPS \<noteq> MEMBER_COUNTS" "MEMBER_COUNTS \<notin> set reserved"
    by (simp_all add: reserved_def MEMBER_SQUASH_LOG_def BASELINE_RUN_ID_def MEMBER_COUNTS_def MEMBER_MERGE_OPS_def MEMBER_MANIFEST_def lit_def)
  then show "archive_ok two_run_archive" "archive_view two_run_archive = [(BASELINE_RUN_ID, [5, 1]), (lit ''a'', [5, 1])]"
    "read_ops two_run_archive = Inr []"
    by (simp_all add: archive_ok_def archive_view_def two_run_archive_def read_run_table_def deserialize_runs_def baseline_entry_def
        table_ok_def run_data_def run_view_def example_archive_data read_ops_def)
qed

lemma drop_runs_refines_witness:
  "\<exists>zf'. drop_runs two_run_archive [BASELINE_RUN_ID] = Inr ([lit ''a''], zf') \<and> archive_view zf' = [(lit ''a'', [5, 1])]"
proof -
  have "lit ''a'' \<noteq> BASELINE_RUN_ID" by (simp add: BASELINE_RUN_ID_def lit_def)
  then have "is_ok (drop_runs two_run_archive [BASELINE_RUN_ID])"
    by (simp add: drop_runs_def two_run_archive_def read_run_table_def deserialize_runs_def baseline_entry_def)
  then obtain ids zf' where d: "drop_runs two_run_archive [BASELINE_RUN_ID] = Inr (ids, zf')" by (auto elim!: is_okE)
  from drop_runs_refines[OF two_run_archive_ok(1) d] d \<open>lit ''a'' \<noteq> BASELINE_RUN_ID\<close> show ?thesis
    by (auto simp: two_run_archive_ok(2))
qed

text \<open>
  Reading an archive whose runs all have the same width: the resolved counts are the
  type-aware merge of the selected runs' arrays (all of them by default), and naming a run that is not
  in the archive raises \<open>RunTableError\<close>.
\<close>

theorem resolve_counts_spec:
  assumes "archive_ok zf" "archive_view zf \<noteq> []" "read_ops zf = Inr ops"
    and "rs = (case runs of None \<Rightarrow> map fst (archive_view zf) | Some rs \<Rightarrow> rs)"
    and "\<forall>(r, cs)\<in>set (archive_view zf). length cs = n"
  shows "resolve_counts zf runs =
    (if set rs \<subseteq> set (map fst (archive_view zf))
     then Inr (merge_counts (map (\<lambda>r. the (dict_get (archive_view zf) r)) rs) ops) else Inl RunTableError)"
  by (rule resolve_view[OF assms])

lemma resolve_counts_spec_witness:
  "resolve_counts two_run_archive None = Inr [10, 2] \<and> resolve_counts two_run_archive (Some [lit ''a'']) = Inr [5, 1] \<and>
   resolve_counts two_run_archive (Some [lit ''zz'']) = Inl RunTableError"
proof -
  have ne: "lit ''a'' \<noteq> BASELINE_RUN_ID" "lit ''zz'' \<noteq> BASELINE_RUN_ID" "lit ''zz'' \<noteq> lit ''a''"
    by (simp_all add: BASELINE_RUN_ID_def lit_def)
  note spec = resolve_counts_spec[OF two_run_archive_ok(1) _ two_run_archive_ok(3) _, where n = 2, unfolded two_run_archive_ok(2)]
  have "merge_counts [[5, 1], [5, 1]] [] = [10, 2]" "merge_counts [[5, 1]] [] = [5, 1]"
    by (simp_all add: merge_counts_def sum_columns_def zip_len_def column_def upt_rec)
  with ne spec[of _ None] spec[of _ "Some [lit ''a'']"] spec[of _ "Some [lit ''zz'']"] show ?thesis by simp
qed

end
