(* ===== verification/Squash.thy ===== *)
theory Squash
  imports Multirun HistoryTables
begin

text \<open>
  \<open>ncdb/squash.py\<close>: folding runs into the baseline array of a multi-run archive. The retention plan,
  the merge policies, the fold itself with its two modes, and the audit entry it appends. Squashing is
  shown to be invisible to a reader of the whole archive, and its \<open>keep_runs\<close> mode to be visible: there
  the folded runs are counted twice.
\<close>

section \<open>Plan and policy\<close>

record SquashResult =
  sr_squashed :: "pystr list"
  sr_remaining :: "pystr list"
  sr_policy :: int
  sr_num_bins :: nat

definition squash_plan :: "archive \<Rightarrow> int \<Rightarrow> pystr list option \<Rightarrow> (pystr list \<times> pystr list) res" where
  "squash_plan zf keep_recent runs =
     bindE (read_run_table zf) (\<lambda>t.
       let candidates = filter (\<lambda>r. r \<noteq> BASELINE_RUN_ID) (table_run_ids t);
           candidates = (case runs of None \<Rightarrow> candidates | Some wanted \<Rightarrow> filter (\<lambda>r. r \<in> set wanted) candidates)
       in if keep_recent \<le> 0 then Inr (candidates, [])
          else if keep_recent \<ge> int (length candidates) then Inr ([], candidates)
          else let k = length candidates - nat keep_recent in Inr (take k candidates, drop k candidates))"

definition policy_admits :: "run_entry option \<Rightarrow> int \<Rightarrow> bool" where
  "policy_admits entry policy =
     (if policy = POLICY_ALL then True
      else case entry of
        None \<Rightarrow> True
      | Some e \<Rightarrow>
          (case rf_status (re_fields e) of
             None \<Rightarrow> True
           | Some status \<Rightarrow>
               if policy = POLICY_PASS_ONLY \<or> policy = POLICY_EXCLUDE_ERROR_RERUN then status = lit ''pass''
               else if policy = POLICY_STRICT then status = lit ''pass'' \<and> \<not> rf_rerun (re_fields e)
               else True))"

section \<open>The squash\<close>

definition append_log :: "bytes \<Rightarrow> pystr list \<Rightarrow> int \<Rightarrow> int \<Rightarrow> bytes res" where
  "append_log existing squashed policy timestamp =
     bindE (if existing \<noteq> [] then sqlg_deserialize existing else Inr []) (\<lambda>log.
       sqlg_serialize (squash_append
         \<lparr>sq_ts = timestamp, sq_policy = policy, sq_from_run = 0, sq_to_run = int (length squashed),
          sq_num_runs = int (length squashed), sq_pass_runs = int (length squashed)\<rparr> log))"

definition squash_arrays :: "archive \<Rightarrow> run_entry list \<Rightarrow> pystr list \<Rightarrow> int list list res" where
  "squash_arrays zf t to_squash =
     (let baseline = (case dict_get (ar_members zf) MEMBER_COUNTS of None \<Rightarrow> [] | Some data \<Rightarrow> data) in
      bindE (if baseline \<noteq> [] then bindE (counts_deserialize baseline) (\<lambda>a. Inr [a]) else Inr []) (\<lambda>base.
      bindE (concatE (\<lambda>run_id.
        case table_get run_id t of
          None \<Rightarrow> Inl TypeError
        | Some e \<Rightarrow>
            if re_member e = MEMBER_COUNTS then Inr []
            else (case dict_get (ar_members zf) (re_member e) of
                    None \<Rightarrow> Inr []
                  | Some data \<Rightarrow> bindE (counts_deserialize data) (\<lambda>a. Inr [a]))) to_squash) (\<lambda>arrays.
        Inr (base @ arrays))))"

text \<open>Dropping the folded runs from members and table.\<close>

definition remove_run :: "(pystr \<times> bytes) list \<times> run_entry list \<Rightarrow> pystr \<Rightarrow> ((pystr \<times> bytes) list \<times> run_entry list) res" where
  "remove_run = (\<lambda>(members, t) run_id.
     case table_get run_id t of
       None \<Rightarrow> Inl TypeError
     | Some e \<Rightarrow> Inr (if re_member e \<noteq> MEMBER_COUNTS then dict_pop (re_member e) members else members,
                      table_remove run_id t))"

definition squash :: "archive \<Rightarrow> pystr list option \<Rightarrow> int \<Rightarrow> int \<Rightarrow> bool \<Rightarrow> int \<Rightarrow> (SquashResult \<times> archive) res" where
  "squash zf runs keep_recent policy keep_runs timestamp =
     bindE (squash_plan zf keep_recent runs) (\<lambda>(planned, _).
     bindE (read_run_table zf) (\<lambda>t.
       let missing = (case runs of None \<Rightarrow> [] | Some rs \<Rightarrow> filter (\<lambda>r. table_get r t = None) rs) in
       if missing \<noteq> [] then Inl RunTableError
       else
         let to_squash = filter (\<lambda>r. policy_admits (table_get r t) policy) planned in
         if to_squash = [] then Inl RunTableError
         else
           bindE (squash_arrays zf t to_squash) (\<lambda>arrays.
           bindE (read_ops zf) (\<lambda>ops.
           let merged = merge_counts (map (pad_to (max_width arrays)) arrays) ops in
           bindE (counts_serialize merged) (\<lambda>data.
           let members = dict_set MEMBER_COUNTS data (ar_members zf) in
           bindE (if keep_runs then Inr (members, t) else foldE remove_run (members, t) to_squash) (\<lambda>(members, t).
           let t = (if table_get BASELINE_RUN_ID t = None then baseline_entry # t else t) in
           bindE (append_log (case dict_get members MEMBER_SQUASH_LOG of None \<Rightarrow> [] | Some b \<Rightarrow> b) to_squash policy timestamp) (\<lambda>log.
             Inr (\<lparr>sr_squashed = to_squash, sr_remaining = table_run_ids t, sr_policy = policy,
                   sr_num_bins = length merged\<rparr>,
                  rewrite (dict_set MEMBER_SQUASH_LOG log members) [] t))))))))"

definition read_squash_log :: "archive \<Rightarrow> SquashLogEntry list res" where
  "read_squash_log zf =
     (case dict_get (ar_members zf) MEMBER_SQUASH_LOG of None \<Rightarrow> Inr [] | Some data \<Rightarrow> sqlg_deserialize data)"

section \<open>What the plan selects\<close>

lemma plan_partition:
  assumes "squash_plan zf keep runs = Inr (q, k)" "read_run_table zf = Inr t"
  shows "q @ k = (let c = filter (\<lambda>r. r \<noteq> BASELINE_RUN_ID) (table_run_ids t)
      in case runs of None \<Rightarrow> c | Some wanted \<Rightarrow> filter (\<lambda>r. r \<in> set wanted) c)"
  using assms by (auto simp: squash_plan_def split: if_splits option.splits)

lemma plan_subset:
  assumes "squash_plan zf keep runs = Inr (q, k)" "read_run_table zf = Inr t" "distinct (map re_run_id t)"
  shows "distinct q \<and> set q \<subseteq> set (map re_run_id t) \<and> BASELINE_RUN_ID \<notin> set q"
proof -
  have e: "q @ k = filter (\<lambda>r. r \<noteq> BASELINE_RUN_ID \<and> (case runs of None \<Rightarrow> True | Some w \<Rightarrow> r \<in> set w)) (map re_run_id t)"
    using plan_partition[OF assms(1,2)] by (auto simp: table_run_ids_def conj_commute split: option.split)
  have "distinct (q @ k)" unfolding e using assms(3) by simp
  then have "distinct q" by simp
  moreover have "x \<in> set (map re_run_id t) \<and> x \<noteq> BASELINE_RUN_ID" if "x \<in> set q" for x
  proof -
    from that have "x \<in> set (q @ k)" by simp
    then show ?thesis unfolding e by simp
  qed
  ultimately show ?thesis by blast
qed

lemma table_remove_filter:
  "distinct (map re_run_id t) \<Longrightarrow> table_remove r t = filter (\<lambda>e. re_run_id e \<noteq> r) t"
proof (induction t)
  case (Cons e t)
  show ?case
  proof (cases "re_run_id e = r")
    case True
    then have "\<forall>x\<in>set t. re_run_id x \<noteq> r" using Cons.prems by (auto simp: image_iff)
    with True show ?thesis by (simp add: filter_id_conv)
  next
    case False
    with Cons show ?thesis by simp
  qed
qed simp

text \<open>The members a sequence of removals takes out: the non-baseline members of the removed runs.\<close>

definition removes :: "run_entry list \<Rightarrow> pystr list \<Rightarrow> pystr \<Rightarrow> bool" where
  "removes t q k \<longleftrightarrow> k \<noteq> MEMBER_COUNTS \<and> k \<in> re_member ` {e \<in> set t. re_run_id e \<in> set q}"

lemma removes_Nil [simp]: "\<not> removes t [] k"
  by (simp add: removes_def)

lemma removes_Cons:
  assumes "distinct (map re_run_id t)" "r \<notin> set q" "e \<in> set t" "re_run_id e = r"
  shows "removes t (r # q) k \<longleftrightarrow> removes (filter (\<lambda>e. re_run_id e \<noteq> r) t) q k \<or> k \<noteq> MEMBER_COUNTS \<and> re_member e = k"
proof -
  have inj: "inj_on re_run_id (set t)" using assms(1) by (simp add: distinct_map)
  have u: "x = e" if "x \<in> set t" "re_run_id x = r" for x
    by (rule inj_onD[OF inj]) (use that assms(3,4) in simp_all)
  have "{x \<in> set t. re_run_id x \<in> set (r # q)} = insert e {x \<in> set t. re_run_id x \<noteq> r \<and> re_run_id x \<in> set q}"
    (is "?A = ?B")
  proof (rule set_eqI)
    fix x show "x \<in> ?A \<longleftrightarrow> x \<in> ?B" using u[of x] assms(2-4) by (cases "re_run_id x = r") auto
  qed
  then have "re_member ` ?A = insert (re_member e) (re_member ` ?B)" by blast
  moreover have "{x \<in> set (filter (\<lambda>e. re_run_id e \<noteq> r) t). re_run_id x \<in> set q} = {x \<in> set t. re_run_id x \<noteq> r \<and> re_run_id x \<in> set q}"
    by auto
  ultimately show ?thesis unfolding removes_def by auto
qed

lemma remove_runs:
  assumes "distinct (map re_run_id t)" "distinct q" "set q \<subseteq> set (map re_run_id t)"
  shows "\<exists>m'. foldE remove_run (m, t) q = Inr (m', filter (\<lambda>e. re_run_id e \<notin> set q) t) \<and>
    (distinct (dict_keys m) \<longrightarrow> distinct (dict_keys m')) \<and>
    (\<forall>k. dict_get m' k = (if removes t q k then None else dict_get m k))"
  using assms
proof (induction q arbitrary: m t)
  case Nil
  then show ?case by simp
next
  case (Cons r q)
  have "r \<in> set (map re_run_id t)" using Cons.prems(3) by simp
  then obtain e where e: "table_get r t = Some e" using table_get_None[of r t] by (cases "table_get r t") auto
  have e': "e \<in> set t" "re_run_id e = r" using table_get_Some[OF e] by simp_all
  let ?t = "filter (\<lambda>e. re_run_id e \<noteq> r) t"
  define m1 where "m1 = (if re_member e \<noteq> MEMBER_COUNTS then dict_pop (re_member e) m else m)"
  have s: "remove_run (m, t) r = Inr (m1, ?t)"
    using Cons.prems(1) by (simp add: remove_run_def e table_remove_filter m1_def)
  have "x \<in> set (map re_run_id ?t)" if x: "x \<in> set q" for x
  proof -
    have "x \<noteq> r" "x \<in> set (map re_run_id t)" using x Cons.prems(2,3) by auto
    then show ?thesis by auto
  qed
  then have sub: "set q \<subseteq> set (map re_run_id ?t)" by blast
  have d: "distinct (map re_run_id ?t)" "distinct q" using Cons.prems(1,2) by (simp_all add: distinct_map_filter)
  obtain m' where m': "foldE remove_run (m1, ?t) q = Inr (m', filter (\<lambda>e. re_run_id e \<notin> set q) ?t)"
    "distinct (dict_keys m1) \<longrightarrow> distinct (dict_keys m')"
    "\<forall>k. dict_get m' k = (if removes ?t q k then None else dict_get m1 k)"
    using Cons.IH[OF d sub, of m1] by blast
  have f: "filter (\<lambda>e. re_run_id e \<notin> set q) ?t = filter (\<lambda>e. re_run_id e \<notin> set (r # q)) t"
    by (simp only: filter_filter) (rule filter_cong, auto)
  have dm: "distinct (dict_keys m) \<longrightarrow> distinct (dict_keys m1)" by (simp add: distinct_delete m1_def)
  have g: "dict_get m1 k = (if k \<noteq> MEMBER_COUNTS \<and> re_member e = k then None else dict_get m k)" for k
    by (simp add: m1_def dict_get_pop)
  have r: "removes t (r # q) k \<longleftrightarrow> removes ?t q k \<or> k \<noteq> MEMBER_COUNTS \<and> re_member e = k" for k
    using removes_Cons[OF Cons.prems(1) _ e'] Cons.prems(2) by simp
  have "foldE remove_run (m, t) (r # q) = Inr (m', filter (\<lambda>e. re_run_id e \<notin> set (r # q)) t)"
    using s m'(1) unfolding f by simp
  moreover have "\<forall>k. dict_get m' k = (if removes t (r # q) k then None else dict_get m k)"
    using m'(3) by (simp add: g r)
  ultimately show ?case using dm m'(2) by blast
qed

section \<open>The fold\<close>

definition has_baseline :: "archive \<Rightarrow> bool" where
  "has_baseline zf \<longleftrightarrow> (case read_run_table zf of
     Inl _ \<Rightarrow> False
   | Inr t \<Rightarrow> (case table_get BASELINE_RUN_ID t of None \<Rightarrow> False | Some e \<Rightarrow> re_member e = MEMBER_COUNTS))"

lemma squash_steps:
  assumes "squash zf runs keep_recent policy keep_runs ts = Inr (res, zf')" "read_run_table zf = Inr t" "read_ops zf = Inr ops"
  shows "\<exists>planned kept q arrays data m1 t1 log. squash_plan zf keep_recent runs = Inr (planned, kept) \<and>
    q = filter (\<lambda>r. policy_admits (table_get r t) policy) planned \<and> q \<noteq> [] \<and>
    squash_arrays zf t q = Inr arrays \<and>
    counts_serialize (merge_counts (map (pad_to (max_width arrays)) arrays) ops) = Inr data \<and>
    (if keep_runs then Inr (dict_set MEMBER_COUNTS data (ar_members zf), t)
     else foldE remove_run (dict_set MEMBER_COUNTS data (ar_members zf), t) q) = Inr (m1, t1) \<and>
    append_log (case dict_get m1 MEMBER_SQUASH_LOG of None \<Rightarrow> [] | Some b \<Rightarrow> b) q policy ts = Inr log \<and>
    sr_squashed res = q \<and> sr_policy res = policy \<and>
    sr_remaining res = table_run_ids (if table_get BASELINE_RUN_ID t1 = None then baseline_entry # t1 else t1) \<and>
    sr_num_bins res = length (merge_counts (map (pad_to (max_width arrays)) arrays) ops) \<and>
    zf' = rewrite (dict_set MEMBER_SQUASH_LOG log m1) [] (if table_get BASELINE_RUN_ID t1 = None then baseline_entry # t1 else t1)"
proof -
  obtain planned kept where plan: "squash_plan zf keep_recent runs = Inr (planned, kept)"
    using assms(1) by (auto simp: squash_def bindE_eq_Inr)
  define q where "q = filter (\<lambda>r. policy_admits (table_get r t) policy) planned"
  define fin where "fin t1 = (if table_get BASELINE_RUN_ID t1 = None then baseline_entry # t1 else t1)" for t1
  define mg where "mg arrays = merge_counts (map (pad_to (max_width arrays)) arrays) ops" for arrays
  define drp where "drp data = (if keep_runs then Inr (dict_set MEMBER_COUNTS data (ar_members zf), t)
     else foldE remove_run (dict_set MEMBER_COUNTS data (ar_members zf), t) q)" for data
  define lg where "lg m1 = append_log (case dict_get m1 MEMBER_SQUASH_LOG of None \<Rightarrow> [] | Some b \<Rightarrow> b) q policy ts" for m1
  have "(if (case runs of None \<Rightarrow> [] | Some rs \<Rightarrow> filter (\<lambda>r. table_get r t = None) rs) \<noteq> [] then Inl RunTableError
     else if q = [] then Inl RunTableError
     else bindE (squash_arrays zf t q) (\<lambda>arrays. bindE (counts_serialize (mg arrays)) (\<lambda>data. bindE (drp data) (\<lambda>(m1, t1).
       bindE (lg m1) (\<lambda>log. Inr (\<lparr>sr_squashed = q, sr_remaining = table_run_ids (fin t1), sr_policy = policy,
           sr_num_bins = length (mg arrays)\<rparr>, rewrite (dict_set MEMBER_SQUASH_LOG log m1) [] (fin t1)))))))
     = squash zf runs keep_recent policy keep_runs ts"
    unfolding squash_def plan assms(2,3) bindE_Inr Let_def split_conv q_def[symmetric] mg_def drp_def lg_def fin_def by (rule refl)
  then have qne: "q \<noteq> []" and run: "bindE (squash_arrays zf t q) (\<lambda>arrays. bindE (counts_serialize (mg arrays)) (\<lambda>data. bindE (drp data) (\<lambda>(m1, t1).
       bindE (lg m1) (\<lambda>log. Inr (\<lparr>sr_squashed = q, sr_remaining = table_run_ids (fin t1), sr_policy = policy,
           sr_num_bins = length (mg arrays)\<rparr>, rewrite (dict_set MEMBER_SQUASH_LOG log m1) [] (fin t1)))))) = Inr (res, zf')"
    unfolding assms(1) by (simp_all split: if_split_asm)
  from run obtain arrays where arr: "squash_arrays zf t q = Inr arrays"
    and run1: "bindE (counts_serialize (mg arrays)) (\<lambda>data. bindE (drp data) (\<lambda>(m1, t1).
       bindE (lg m1) (\<lambda>log. Inr (\<lparr>sr_squashed = q, sr_remaining = table_run_ids (fin t1), sr_policy = policy,
           sr_num_bins = length (mg arrays)\<rparr>, rewrite (dict_set MEMBER_SQUASH_LOG log m1) [] (fin t1))))) = Inr (res, zf')"
    unfolding bindE_eq_Inr[of "squash_arrays zf t q"] by blast
  from run1 obtain data m1 t1 log where f: "counts_serialize (mg arrays) = Inr data" "drp data = Inr (m1, t1)" "lg m1 = Inr log"
      "res = \<lparr>sr_squashed = q, sr_remaining = table_run_ids (fin t1), sr_policy = policy, sr_num_bins = length (mg arrays)\<rparr>"
      "zf' = rewrite (dict_set MEMBER_SQUASH_LOG log m1) [] (fin t1)"
    by (auto simp: bindE_eq_Inr)
  show ?thesis
    by (intro exI conjI, rule plan, rule q_def, rule qne, rule arr, rule f[unfolded mg_def], rule f[unfolded drp_def], rule f[unfolded lg_def])
      (simp_all add: f(4,5) mg_def fin_def)
qed

lemma squash_arrays_view:
  assumes tok: "table_ok (dict_get (ar_members zf)) t" and b: "table_get BASELINE_RUN_ID t = Some b" "re_member b = MEMBER_COUNTS"
    and q: "set q \<subseteq> set (map re_run_id t)" "BASELINE_RUN_ID \<notin> set q"
  shows "squash_arrays zf t q =
    (let v = run_view (dict_get (ar_members zf)) t in
     Inr ((if dict_get (ar_members zf) MEMBER_COUNTS = Some [] then [] else [the (dict_get v BASELINE_RUN_ID)])
          @ map (\<lambda>r. the (dict_get v r)) q))"
proof -
  let ?m = "dict_get (ar_members zf)"
  have bt: "b \<in> set t" "re_run_id b = BASELINE_RUN_ID" using table_get_Some[OF b(1)] by simp_all
  have rd: "run_data ?m b \<noteq> None" using tok bt(1) by (simp add: table_ok_def)
  then obtain data cs where d: "?m MEMBER_COUNTS = Some data" "counts_deserialize data = Inr cs"
    by (auto simp: run_data_def b(2) split: option.splits sum.splits)
  have bv: "the (dict_get (run_view ?m t) BASELINE_RUN_ID) = cs"
    by (simp add: table_get_view b run_data_def d)
  have one: "(case table_get r t of None \<Rightarrow> Inl TypeError
       | Some e \<Rightarrow> if re_member e = MEMBER_COUNTS then Inr [] else (case ?m (re_member e) of None \<Rightarrow> Inr []
            | Some data \<Rightarrow> bindE (counts_deserialize data) (\<lambda>a. Inr [a])))
      = Inr [the (dict_get (run_view ?m t) r)]" if r: "r \<in> set q" for r
  proof -
    have "r \<in> set (map re_run_id t)" using q(1) r by blast
    then obtain e where e: "table_get r t = Some e" using table_get_None[of r t] by (cases "table_get r t") auto
    have et: "e \<in> set t" "re_run_id e = r" using table_get_Some[OF e] by simp_all
    have "e \<noteq> b" using r q(2) et(2) bt(2) by auto
    have inj: "inj_on re_member (set t)" using tok by (simp add: table_ok_def distinct_map)
    have "re_member e \<noteq> MEMBER_COUNTS"
    proof
      assume "re_member e = MEMBER_COUNTS"
      then have "e = b" by (intro inj_onD[OF inj]) (simp_all add: b(2) et bt)
      with \<open>e \<noteq> b\<close> show False by simp
    qed
    moreover have "run_data ?m e \<noteq> None" using tok et by (simp add: table_ok_def)
    then obtain data cs where "?m (re_member e) = Some data" "counts_deserialize data = Inr cs"
      by (auto simp: run_data_def split: option.splits sum.splits)
    ultimately show ?thesis using e by (simp add: table_get_view run_data_def)
  qed
  have c: "concat (map (\<lambda>r. [f r]) rs) = map f rs" for f :: "pystr \<Rightarrow> int list" and rs by (induction rs) simp_all
  have "concatE (\<lambda>r. case table_get r t of None \<Rightarrow> Inl TypeError
       | Some e \<Rightarrow> if re_member e = MEMBER_COUNTS then Inr [] else (case ?m (re_member e) of None \<Rightarrow> Inr []
            | Some data \<Rightarrow> bindE (counts_deserialize data) (\<lambda>a. Inr [a]))) q
     = Inr (concat (map (\<lambda>r. [the (dict_get (run_view ?m t) r)]) q))"
    by (rule concatE_Inr) (rule one)
  then show ?thesis by (simp add: squash_arrays_def d bv c Let_def)
qed

lemma merge_counts_width0: "\<forall>a\<in>set as. length a = 0 \<Longrightarrow> merge_counts as ops = []"
  using merge_counts_nth[of as 0 ops] by (cases "as = []") (simp_all add: merge_counts_def)

lemma squash_merged:
  assumes "\<forall>a\<in>set (base # as). length a = n" "as \<noteq> []" "skip \<Longrightarrow> n = 0"
    and "arrays = (if skip then [] else [base]) @ as"
  shows "merge_counts (map (pad_to (max_width arrays)) arrays) ops = merge_counts (base # as) ops"
proof -
  have ne: "arrays \<noteq> []" and w: "\<forall>a\<in>set arrays. length a = n" using assms by (auto split: if_splits)
  show ?thesis
  proof (cases skip)
    case True
    with assms(1,3) w show ?thesis
      unfolding pad_same[OF ne w] by (simp only: merge_counts_width0)
  next
    case False
    then show ?thesis unfolding pad_same[OF ne w] by (simp add: assms(4))
  qed
qed

text \<open>The members after the fold, and the archive they make with the table.\<close>

lemma squash_members:
  assumes tok: "table_ok (dict_get m) t" and d: "distinct (dict_keys m)"
    and b: "table_get BASELINE_RUN_ID t = Some b" "re_member b = MEMBER_COUNTS"
    and q: "distinct q" "set q \<subseteq> set (map re_run_id t)" "BASELINE_RUN_ID \<notin> set q"
    and data: "counts_serialize merged = Inr data"
    and fold: "(if keep_runs then Inr (dict_set MEMBER_COUNTS data m, t)
                else foldE remove_run (dict_set MEMBER_COUNTS data m, t) q) = Inr (m1, t1)"
  shows "distinct (dict_keys m1) \<and> t1 = filter (\<lambda>e. keep_runs \<or> re_run_id e \<notin> set q) t \<and>
    dict_get m1 MEMBER_COUNTS = Some data \<and>
    (\<forall>k\<in>set reserved. k \<noteq> MEMBER_COUNTS \<longrightarrow> dict_get m1 k = dict_get m k) \<and>
    (\<forall>e\<in>set t1. e \<noteq> b \<longrightarrow> dict_get m1 (re_member e) = dict_get m (re_member e))"
proof -
  have bt: "b \<in> set t" "re_run_id b = BASELINE_RUN_ID" using table_get_Some[OF b(1)] by simp_all
  have ids: "distinct (map re_run_id t)" using tok by (simp add: table_ok_def)
  have inj: "inj_on re_member (set t)" using tok by (simp add: table_ok_def distinct_map)
  have nb: "re_member e \<noteq> MEMBER_COUNTS" if "e \<in> set t" "e \<noteq> b" for e
    using inj_onD[OF inj, of e b] that bt b(2) by auto
  let ?c = "dict_set MEMBER_COUNTS data m"
  have dc: "distinct (dict_keys ?c)" using d by (simp add: distinct_update)
  have gc: "dict_get ?c k = (if k = MEMBER_COUNTS then Some data else dict_get m k)" for k
    by (simp add: dict_get_set)
  have res: "\<not> removes t q k" if "k \<in> set reserved" for k
    using tok that by (auto simp: removes_def table_ok_def)
  obtain m' where m': "foldE remove_run (?c, t) q = Inr (m', filter (\<lambda>e. re_run_id e \<notin> set q) t)"
    "distinct (dict_keys ?c) \<longrightarrow> distinct (dict_keys m')" "\<forall>k. dict_get m' k = (if removes t q k then None else dict_get ?c k)"
    using remove_runs[OF ids q(1,2)] by blast
  have kept: "\<not> removes t q (re_member e)" if e: "e \<in> set t" "re_run_id e \<notin> set q" for e
  proof
    assume "removes t q (re_member e)"
    then obtain x where "x \<in> set t" "re_run_id x \<in> set q" "re_member x = re_member e" by (auto simp: removes_def)
    then have "x = e" using e(1) by (intro inj_onD[OF inj]) simp_all
    with e(2) \<open>re_run_id x \<in> set q\<close> show False by simp
  qed
  show ?thesis
  proof (cases keep_runs)
    case True
    then have "m1 = ?c" "t1 = t" using fold by auto
    then show ?thesis using dc nb True by (simp add: gc)
  next
    case False
    then have e: "m1 = m'" "t1 = filter (\<lambda>e. re_run_id e \<notin> set q) t" using fold m'(1) by auto
    have "\<not> removes t q MEMBER_COUNTS" by (simp add: removes_def)
    then show ?thesis using m'(2,3) dc False nb kept res by (simp add: e gc)
  qed
qed

lemma baseline_not_reserved: "MEMBER_COUNTS \<notin> set reserved" "MEMBER_SQUASH_LOG \<noteq> MEMBER_COUNTS" "MEMBER_SQUASH_LOG \<noteq> MEMBER_MERGE_OPS"
  by (simp_all add: reserved_def MEMBER_COUNTS_def MEMBER_MANIFEST_def MEMBER_MERGE_OPS_def MEMBER_SQUASH_LOG_def lit_def)

lemma squash_view:
  assumes ok: "archive_ok zf" and hb: "has_baseline zf" and ops: "read_ops zf = Inr ops"
    and wid: "\<forall>(r, cs)\<in>set (archive_view zf). length cs = n"
    and sq: "squash zf runs keep_recent policy keep_runs ts = Inr (res, zf')"
  shows "archive_ok zf' \<and>
    archive_view zf' = map (\<lambda>(r, cs). (r, if r = BASELINE_RUN_ID
        then merge_counts (map (\<lambda>r. the (dict_get (archive_view zf) r)) (BASELINE_RUN_ID # sr_squashed res)) ops else cs))
      (filter (\<lambda>(r, _). keep_runs \<or> r \<notin> set (sr_squashed res)) (archive_view zf)) \<and>
    read_ops zf' = Inr ops \<and> sr_squashed res \<noteq> [] \<and> distinct (sr_squashed res) \<and>
    set (sr_squashed res) \<subseteq> set (map fst (archive_view zf)) \<and> BASELINE_RUN_ID \<notin> set (sr_squashed res) \<and>
    sr_remaining res = map fst (archive_view zf') \<and> sr_num_bins res = n"
proof -
  let ?m = "dict_get (ar_members zf)"
  obtain t where t: "read_run_table zf = Inr t" and tok: "table_ok ?m t" and d: "distinct (dict_keys (ar_members zf))"
    using ok by (auto simp: archive_ok_def)
  obtain b where b: "table_get BASELINE_RUN_ID t = Some b" "re_member b = MEMBER_COUNTS"
    using hb by (auto simp: has_baseline_def t split: option.splits)
  have v: "archive_view zf = run_view ?m t" by (simp add: archive_view_def t)
  have ids: "distinct (map re_run_id t)" using tok by (simp add: table_ok_def)
  obtain planned kept q arrays data m1 t1 log where
      plan: "squash_plan zf keep_recent runs = Inr (planned, kept)" and qd: "q = filter (\<lambda>r. policy_admits (table_get r t) policy) planned"
      and qne: "q \<noteq> []" and arr: "squash_arrays zf t q = Inr arrays"
      and data: "counts_serialize (merge_counts (map (pad_to (max_width arrays)) arrays) ops) = Inr data"
      and fold: "(if keep_runs then Inr (dict_set MEMBER_COUNTS data (ar_members zf), t)
     else foldE remove_run (dict_set MEMBER_COUNTS data (ar_members zf), t) q) = Inr (m1, t1)"
      and rq: "sr_squashed res = q" and rr: "sr_remaining res = table_run_ids (if table_get BASELINE_RUN_ID t1 = None then baseline_entry # t1 else t1)"
      and rb: "sr_num_bins res = length (merge_counts (map (pad_to (max_width arrays)) arrays) ops)"
      and zf': "zf' = rewrite (dict_set MEMBER_SQUASH_LOG log m1) [] (if table_get BASELINE_RUN_ID t1 = None then baseline_entry # t1 else t1)"
    using squash_steps[OF sq t ops] by blast
  have q: "distinct q" "set q \<subseteq> set (map re_run_id t)" "BASELINE_RUN_ID \<notin> set q"
    using plan_subset[OF plan t ids] by (auto simp: qd)
  let ?g = "\<lambda>r. the (dict_get (run_view ?m t) r)"
  have len: "length (?g r) = n" if r: "r \<in> set (map re_run_id t)" for r
  proof -
    have "r \<in> set (map fst (run_view ?m t))" using r by (simp only: run_view_ids)
    then have "dict_get (run_view ?m t) r \<noteq> None" by (simp add: map_of_eq_None_iff del: run_view_ids)
    then have "(r, ?g r) \<in> set (run_view ?m t)" by (auto dest: map_of_SomeD)
    then show ?thesis using wid by (auto simp: v)
  qed
  have bid: "BASELINE_RUN_ID \<in> set (map re_run_id t)" using b(1) table_get_None[of BASELINE_RUN_ID t] by (metis option.distinct(1))
  have l: "\<forall>a\<in>set (?g BASELINE_RUN_ID # map ?g q). length a = n"
  proof
    fix a assume "a \<in> set (?g BASELINE_RUN_ID # map ?g q)"
    then obtain r where "r \<in> set (map re_run_id t)" "a = ?g r" using bid q(2) by auto
    with len show "length a = n" by metis
  qed
  have mg: "merge_counts (map (pad_to (max_width arrays)) arrays) ops = merge_counts (map ?g (BASELINE_RUN_ID # q)) ops" (is "?mm = ?mg")
  proof -
    have n: "n = 0" if "?m MEMBER_COUNTS = Some []"
      using len[OF bid] that by (simp add: table_get_view b run_data_def counts_deserialize_def)
    have a: "arrays = (if ?m MEMBER_COUNTS = Some [] then [] else [?g BASELINE_RUN_ID]) @ map ?g q"
      using arr squash_arrays_view[OF tok b q(2,3)] by (simp add: Let_def)
    show ?thesis using squash_merged[OF l _ n a, of ops] qne by simp
  qed
  have lm: "length ?mg = n"
    using merge_counts_nth[of "map ?g (BASELINE_RUN_ID # q)" n ops] l by simp
  note sm = squash_members[OF tok d b q data fold]
  have dm: "distinct (dict_keys m1)" and t1: "t1 = filter (\<lambda>e. keep_runs \<or> re_run_id e \<notin> set q) t"
    and mc: "dict_get m1 MEMBER_COUNTS = Some data"
    and mr: "\<And>k. k \<in> set reserved \<Longrightarrow> dict_get m1 k = ?m k"
    and mo: "\<And>e. e \<in> set t1 \<Longrightarrow> e \<noteq> b \<Longrightarrow> dict_get m1 (re_member e) = ?m (re_member e)"
    using sm baseline_not_reserved(1) by metis+
  let ?l = "dict_set MEMBER_SQUASH_LOG log m1"
  have bt: "b \<in> set t" "re_run_id b = BASELINE_RUN_ID" using table_get_Some[OF b(1)] by simp_all
  have bt1: "b \<in> set t1" using bt q(3) by (simp add: t1)
  then have "BASELINE_RUN_ID \<in> set (map re_run_id t1)" using bt(2) by (metis image_eqI list.set_map)
  then have "table_get BASELINE_RUN_ID t1 \<noteq> None" by (simp only: table_get_None not_not)
  then have zf'': "zf' = rewrite ?l [] t1" and rr': "sr_remaining res = table_run_ids t1"
    using zf' rr by (auto split: if_split_asm)
  have dl: "distinct (dict_keys ?l)" using dm by (simp add: distinct_update)
  have u: "dict_update ?l [] = ?l" by (simp add: dict_update_def)
  have sub: "set t1 \<subseteq> set t" by (auto simp: t1)
  have nl: "re_member e \<noteq> MEMBER_SQUASH_LOG" if "e \<in> set t" for e
    using tok that by (auto simp: table_ok_def reserved_def)
  have rdb: "run_data (dict_get ?l) b = Some ?mg"
    using counts_roundtrip_aux[OF data, of "[]"] baseline_not_reserved(2) mg
    by (simp add: run_data_def b(2) dict_get_set mc)
  have rdo: "run_data (dict_get ?l) e = run_data ?m e" if "e \<in> set t1" "e \<noteq> b" for e
    using mo[OF that] nl that(1) sub by (auto simp: run_data_def dict_get_set)
  have tok1: "table_ok (dict_get ?l) t1"
    unfolding table_ok_def
  proof (intro conjI ballI)
    show "distinct (map re_run_id t1)" "distinct (map re_member t1)" using tok by (simp_all add: t1 table_ok_def distinct_map_filter)
    fix e assume e: "e \<in> set t1"
    then show "re_member e \<notin> set reserved" using tok sub by (auto simp: table_ok_def)
    show "run_data (dict_get ?l) e \<noteq> None"
      using rdb rdo[OF e] e tok sub by (cases "e = b") (auto simp: table_ok_def)
  qed
  have eb: "e = b \<longleftrightarrow> re_run_id e = BASELINE_RUN_ID" if "e \<in> set t" for e
    using ids that bt by (auto simp: distinct_map intro: inj_onD)
  have "run_view (dict_get ?l) t1 = map (\<lambda>e. (re_run_id e, if re_run_id e = BASELINE_RUN_ID then ?mg else the (run_data ?m e))) t1"
    unfolding run_view_def[of "dict_get ?l" t1]
  proof (rule map_cong[OF refl])
    fix e assume e: "e \<in> set t1"
    then show "(re_run_id e, the (run_data (dict_get ?l) e)) = (re_run_id e, if re_run_id e = BASELINE_RUN_ID then ?mg else the (run_data ?m e))"
      using rdb rdo[OF e] eb sub by (cases "e = b") auto
  qed
  then have view: "run_view (dict_get ?l) t1 = map (\<lambda>(r, cs). (r, if r = BASELINE_RUN_ID then ?mg else cs))
      (filter (\<lambda>(r, _). keep_runs \<or> r \<notin> set q) (run_view ?m t))"
    by (simp add: t1 run_view_def filter_map comp_def)
  have ids1: "map re_run_id t1 = map fst (map (\<lambda>(r, cs). (r, if r = BASELINE_RUN_ID then ?mg else cs))
      (filter (\<lambda>(r, _). keep_runs \<or> r \<notin> set q) (run_view ?m t)))"
    unfolding view[symmetric] by (simp only: run_view_ids)
  have ro: "read_ops zf' = read_ops zf"
    using mr[of MEMBER_MERGE_OPS] baseline_not_reserved(3)
    by (simp add: read_ops_def zf'' rewrite_members(1)[OF dl] u dict_get_set reserved_def)
  show ?thesis
    using archive_ok_rewrite[OF dl, of "[]" t1] tok1 view ro ops q qne rb mg lm
    by (simp add: zf'' u v rq rr' table_run_ids_def ids1 del: map_map set_map)
qed

section \<open>Invisible to a reader\<close>

lemma dict_get_map_of_if:
  "distinct (map fst v) \<Longrightarrow> (r, cs) \<in> set v \<Longrightarrow> the (dict_get v r) = cs"
  by simp

text \<open>Every run once, in table order: all the arrays.\<close>

lemma all_arrays: "distinct (map fst v) \<Longrightarrow> map (\<lambda>r. the (dict_get v r)) (map fst v) = map snd v"
  by (auto intro: map_cong)

lemma folded_lengths:
  assumes d: "distinct (map fst v)" and w: "\<forall>(r, cs)\<in>set v. length cs = n"
    and b: "b \<in> set (map fst v)" and q: "set q \<subseteq> set (map fst v)"
  shows "\<forall>a\<in>set (map (\<lambda>r. the (dict_get v r)) (b # q)). length a = n"
proof -
  have "length (the (dict_get v r)) = n" if "r \<in> set (map fst v)" for r using d w that by auto
  with b q show ?thesis by auto
qed

lemma folded_length:
  assumes "distinct (map fst v)" "\<forall>(r, cs)\<in>set v. length cs = n" "b \<in> set (map fst v)" "set q \<subseteq> set (map fst v)"
  shows "length (merge_counts (map (\<lambda>r. the (dict_get v r)) (b # q)) ops) = n"
  using merge_counts_nth[OF _ folded_lengths[OF assms]] by blast

lemma folded_view_merge:
  fixes v :: "(pystr \<times> int list) list"
  assumes d: "distinct (map fst v)" and w: "\<forall>(r, cs)\<in>set v. length cs = n"
    and b: "b \<in> set (map fst v)" "b \<notin> set q" and q: "distinct q" "set q \<subseteq> set (map fst v)"
    and v': "v' = map (\<lambda>(r, cs). (r, if r = b then merge_counts (map (\<lambda>r. the (dict_get v r)) (b # q)) ops else cs))
      (filter (\<lambda>(r, _). r \<notin> set q) v)"
  shows "merge_counts (map snd v') ops = merge_counts (map snd v) ops"
proof -
  let ?g = "\<lambda>r. the (dict_get v r)"
  let ?rest = "filter (\<lambda>r. r \<notin> set q) (map fst v)"
  let ?grp = "\<lambda>r. if r = b then map ?g (b # q) else [?g r]"
  have len: "length (?g r) = n" if "r \<in> set (map fst v)" for r using d w that by auto
  have sm: "merge_counts (?grp r) ops = (if r = b then merge_counts (map ?g (b # q)) ops else ?g r)" for r
    by (simp add: merge_counts_single)
  have "map snd v' = map (\<lambda>(r, cs). if r = b then merge_counts (map ?g (b # q)) ops else cs) (filter (\<lambda>(r, _). r \<notin> set q) v)"
    by (simp add: v' comp_def split_def)
  also have "\<dots> = map (\<lambda>x. if fst x = b then merge_counts (map ?g (b # q)) ops else ?g (fst x)) (filter (\<lambda>(r, _). r \<notin> set q) v)"
    using d by (intro map_cong[OF refl]) auto
  also have "\<dots> = map (\<lambda>g. merge_counts g ops) (map ?grp ?rest)"
    by (simp add: filter_map comp_def sm split_def)
  finally have e: "map snd v' = map (\<lambda>g. merge_counts g ops) (map ?grp ?rest)" .
  have br: "b \<in> set ?rest" using b by simp
  have ms: "mset (map snd v) = mset (concat (map ?grp ?rest))"
  proof -
    have "mset (concat (map ?grp rs)) = image_mset ?g (mset rs) + (if b \<in> set rs then image_mset ?g (mset q) else {#})"
      if "distinct rs" for rs
      using that by (induction rs) auto
    moreover have "distinct ?rest" using d by simp
    ultimately have "mset (concat (map ?grp ?rest)) = image_mset ?g (mset ?rest + mset q)" using br by simp
    also have "mset ?rest + mset q = mset (map fst v)"
    proof (rule multiset_eqI)
      have dd: "count (mset xs) x = (if x \<in> set xs then 1 else 0)" if "distinct xs" for xs :: "pystr list" and x
        using that by (simp add: distinct_count_atmost_1)
      fix x show "count (mset ?rest + mset q) x = count (mset (map fst v)) x"
        unfolding count_union dd[OF \<open>distinct ?rest\<close>] dd[OF q(1)] dd[OF d] using q(2) by auto
    qed
    also have "image_mset ?g (mset (map fst v)) = mset (map ?g (map fst v))" by (simp only: mset_map)
    also have "\<dots> = mset (map snd v)" by (simp only: all_arrays[OF d])
    finally show ?thesis by simp
  qed
  have ne: "map ?grp ?rest \<noteq> []"
  proof
    assume "map ?grp ?rest = []"
    then have "set ?rest = {}" by (simp only: list.map_disc_iff list.set)
    with br show False by (simp only: empty_iff)
  qed
  have gl: "\<forall>g\<in>set (map ?grp ?rest). g \<noteq> [] \<and> (\<forall>a\<in>set g. length a = n)"
  proof -
    have gr: "\<forall>a\<in>set (?grp r). length a = n" if "r \<in> set (map fst v)" for r
    proof
      fix a assume "a \<in> set (?grp r)"
      then obtain x where "x = r \<or> x = b \<or> x \<in> set q" "a = ?g x" by (auto split: if_splits)
      then show "length a = n" using len[of x] that b(1) q(2) by blast
    qed
    show ?thesis
    proof
      fix g assume "g \<in> set (map ?grp ?rest)"
      then obtain r where r: "r \<in> set ?rest" "g = ?grp r" by (simp only: set_map image_iff) blast
      then have "r \<in> set (map fst v)" by (simp only: set_filter mem_Collect_eq)
      with gr[OF this] r(2) show "g \<noteq> [] \<and> (\<forall>a\<in>set g. length a = n)" by (cases "r = b") simp_all
    qed
  qed
  show ?thesis unfolding e by (rule merge_counts_regroup[OF ne gl ms])
qed

lemma view_distinct: "archive_ok zf \<Longrightarrow> distinct (map fst (archive_view zf))"
  by (auto simp: archive_ok_def archive_view_def table_ok_def)

lemma baseline_in_view: "archive_ok zf \<Longrightarrow> has_baseline zf \<Longrightarrow> BASELINE_RUN_ID \<in> set (map fst (archive_view zf))"
  using table_get_None[of BASELINE_RUN_ID]
  by (auto simp: archive_ok_def has_baseline_def archive_view_def simp del: set_map split: option.splits)

lemma resolve_all:
  assumes "archive_ok zf" "archive_view zf \<noteq> []" "read_ops zf = Inr ops" "\<forall>(r, cs)\<in>set (archive_view zf). length cs = n"
  shows "resolve_counts zf None = Inr (merge_counts (map snd (archive_view zf)) ops)"
  using resolve_view[OF assms(1-3) _ assms(4), of "map fst (archive_view zf)" None]
  by (simp only: all_arrays[OF view_distinct[OF assms(1)]]) simp

text \<open>
  C23 (equivalence). Squashing is invisible to a reader of the whole archive: on a well-formed archive
  whose baseline run holds \<open>counts.bin\<close> and whose runs have one width, the resolved counts after
  \<open>squash\<close> (without \<open>keep_runs\<close>) are the resolved counts before it, whatever runs were selected and
  under whatever policy, sums and maxima alike.
\<close>

theorem squash_preserves_counts:
  assumes "archive_ok zf" "has_baseline zf" "read_ops zf = Inr ops"
    and "\<forall>(r, cs)\<in>set (archive_view zf). length cs = n"
    and "squash zf runs keep_recent policy False ts = Inr (res, zf')"
  shows "resolve_counts zf' None = resolve_counts zf None"
proof -
  let ?v = "archive_view zf" and ?v' = "archive_view zf'"
  note sv = squash_view[OF assms(1-5)]
  have ok': "archive_ok zf'" and ops': "read_ops zf' = Inr ops" using sv by blast+
  have b: "BASELINE_RUN_ID \<in> set (map fst ?v)" by (rule baseline_in_view[OF assms(1,2)])
  have v': "?v' = map (\<lambda>(r, cs). (r, if r = BASELINE_RUN_ID
        then merge_counts (map (\<lambda>r. the (dict_get ?v r)) (BASELINE_RUN_ID # sr_squashed res)) ops else cs))
      (filter (\<lambda>(r, _). r \<notin> set (sr_squashed res)) ?v)" using sv by simp
  have q: "BASELINE_RUN_ID \<notin> set (sr_squashed res)" "distinct (sr_squashed res)" "set (sr_squashed res) \<subseteq> set (map fst ?v)"
    using sv by blast+
  have ne: "?v \<noteq> []" using b by auto
  have ne': "?v' \<noteq> []" using b q(1) by (auto simp: v' filter_empty_conv)
  have m: "merge_counts (map snd ?v') ops = merge_counts (map snd ?v) ops"
    by (rule folded_view_merge[OF view_distinct[OF assms(1)] assms(4) b q v'])
  have nl: "length (merge_counts (map (\<lambda>r. the (dict_get ?v r)) (BASELINE_RUN_ID # sr_squashed res)) ops) = n"
    by (rule folded_length[OF view_distinct[OF assms(1)] assms(4) b q(3)])
  then have w': "\<forall>(r, cs)\<in>set ?v'. length cs = n" using assms(4) unfolding v' by auto
  show ?thesis
    unfolding resolve_all[OF ok' ne' ops' w'] resolve_all[OF assms(1) ne assms(3,4)] m by (rule refl)
qed

text \<open>The baseline and one run of the example, squashed either way.\<close>

lemma squash_example_inputs:
  "has_baseline two_run_archive"
  "\<forall>(r, cs)\<in>set (archive_view two_run_archive). length cs = 2"
  "read_squash_log two_run_archive = Inr []"
  by (simp_all add: has_baseline_def two_run_archive_def read_run_table_def deserialize_runs_def table_get_def baseline_entry_def
      two_run_archive_ok(2)[unfolded two_run_archive_def baseline_entry_def] read_squash_log_def)
    (simp_all add: MEMBER_SQUASH_LOG_def MEMBER_COUNTS_def run_member_name_def RUN_COUNTS_DIR_def lit_def)

lemma squash_example: "\<exists>res zf'. squash two_run_archive None 0 POLICY_ALL keep 7 = Inr (res, zf') \<and> sr_squashed res = [lit ''a'']"
proof -
  let ?zf = two_run_archive and ?a = "[lit ''a'']"
  let ?ra = "\<lparr>re_run_id = lit ''a'', re_member = run_member_name 0, re_nonzero = Some 2, re_fields = no_fields\<rparr>"
  have ne: "lit ''a'' \<noteq> BASELINE_RUN_ID" by (simp add: BASELINE_RUN_ID_def lit_def)
  have t: "read_run_table ?zf = Inr [baseline_entry, ?ra]"
    by (simp add: two_run_archive_def read_run_table_def deserialize_runs_def)
  have g: "table_get (lit ''a'') [baseline_entry, ?ra] = Some ?ra" using ne by (simp add: table_get_def baseline_entry_def)
  have plan: "squash_plan ?zf 0 None = Inr (?a, [])" using ne by (simp add: squash_plan_def t table_run_ids_def baseline_entry_def)
  have arr: "squash_arrays ?zf [baseline_entry, ?ra] ?a = Inr [[5, 1], [5, 1]]"
    by (simp add: squash_arrays_def g example_archive_data) (simp add: two_run_archive_def example_archive_data)
  have mc: "pad_to (max_width [[5, 1], [5, 1]]) [5, 1] = [5, 1]" "merge_counts [[5, 1], [5, 1]] [] = [10, 2]"
    by (simp_all add: merge_counts_def sum_columns_def zip_len_def column_def upt_rec pad_to_def max_width_def)
  have "is_ok (counts_serialize [10, 2])" by (simp add: counts_serialize_ok)
  then obtain data where data: "counts_serialize [10, 2] = Inr data" by (auto elim!: is_okE)
  define m1 where "m1 = (if keep then dict_set MEMBER_COUNTS data (ar_members ?zf)
     else dict_pop (run_member_name 0) (dict_set MEMBER_COUNTS data (ar_members ?zf)))"
  define t1 where "t1 = (if keep then [baseline_entry, ?ra] else [baseline_entry])"
  have drp: "(if keep then Inr (dict_set MEMBER_COUNTS data (ar_members ?zf), [baseline_entry, ?ra])
     else foldE remove_run (dict_set MEMBER_COUNTS data (ar_members ?zf), [baseline_entry, ?ra]) ?a) = Inr (m1, t1)"
    using ne by (simp add: m1_def t1_def remove_run_def g) (simp add: baseline_entry_def)
  have "dict_get m1 MEMBER_SQUASH_LOG = None"
    using squash_example_inputs(3)
    by (auto simp: m1_def dict_get_pop dict_get_set two_run_archive_def MEMBER_SQUASH_LOG_def MEMBER_COUNTS_def run_member_name_def RUN_COUNTS_DIR_def lit_def)
  moreover have "is_ok (append_log [] ?a POLICY_ALL 7)" (is "is_ok ?l")
    by (simp add: append_log_def squash_append_def sqlg_serialize_def sqlg_write_entry_def SQLG_HDR_def SQLG_MAGIC_def SQLG_ENTRY_def POLICY_ALL_def)
  then obtain bs where "?l = Inr bs" by (auto elim!: is_okE)
  ultimately have "is_ok (squash ?zf None 0 POLICY_ALL keep 7)"
    by (simp add: squash_def plan t policy_admits_def arr two_run_archive_ok(3) mc data drp del: foldE.simps)
  then obtain res zf' where r: "squash ?zf None 0 POLICY_ALL keep 7 = Inr (res, zf')" by (auto elim!: is_okE)
  from squash_steps[OF r t two_run_archive_ok(3)] plan r show ?thesis by (auto simp: policy_admits_def)
qed

lemma squash_preserves_counts_witness:
  "\<exists>res zf'. squash two_run_archive None 0 POLICY_ALL False 7 = Inr (res, zf') \<and>
     resolve_counts zf' None = resolve_counts two_run_archive None"
  using squash_example[of False] squash_preserves_counts[OF two_run_archive_ok(1) squash_example_inputs(1) two_run_archive_ok(3) squash_example_inputs(2)]
  by blast

text \<open>
  C24 (refinement). What \<open>squash\<close> (without \<open>keep_runs\<close>) does to the archive's list of runs: the
  baseline's counts become the merge of its own and the folded runs', the folded runs disappear, every
  other run keeps its counts and place, the archive stays well-formed, and the result it reports names
  the folded runs, the remaining ones and the number of bins; the baseline is never folded.
\<close>

theorem squash_refines:
  assumes "archive_ok zf" "has_baseline zf" "read_ops zf = Inr ops"
    and "\<forall>(r, cs)\<in>set (archive_view zf). length cs = n"
    and "squash zf runs keep_recent policy False ts = Inr (res, zf')"
  shows "archive_ok zf' \<and>
    archive_view zf' = map (\<lambda>(r, cs). (r, if r = BASELINE_RUN_ID
        then merge_counts (map (\<lambda>r. the (dict_get (archive_view zf) r)) (BASELINE_RUN_ID # sr_squashed res)) ops else cs))
      (filter (\<lambda>(r, _). r \<notin> set (sr_squashed res)) (archive_view zf)) \<and>
    sr_squashed res \<noteq> [] \<and> BASELINE_RUN_ID \<notin> set (sr_squashed res) \<and>
    sr_remaining res = map fst (archive_view zf') \<and> sr_num_bins res = n"
  using squash_view[OF assms] by (simp only: simp_thms)

lemma squash_refines_witness:
  "\<exists>res zf'. squash two_run_archive None 0 POLICY_ALL False 7 = Inr (res, zf') \<and>
     archive_view zf' = [(BASELINE_RUN_ID, [10, 2])] \<and> sr_num_bins res = 2"
proof -
  have ne: "lit ''a'' \<noteq> BASELINE_RUN_ID" by (simp add: BASELINE_RUN_ID_def lit_def)
  have m: "merge_counts [[5, 1], [5, 1]] [] = [10, 2]"
    by (simp add: merge_counts_def sum_columns_def zip_len_def column_def upt_rec)
  obtain res zf' where s: "squash two_run_archive None 0 POLICY_ALL False 7 = Inr (res, zf')" "sr_squashed res = [lit ''a'']"
    using squash_example[of False] by blast
  from squash_refines[OF two_run_archive_ok(1) squash_example_inputs(1) two_run_archive_ok(3) squash_example_inputs(2) s(1)] ne m
  have "archive_view zf' = [(BASELINE_RUN_ID, [10, 2])]" "sr_num_bins res = 2"
    by (simp_all add: s(2) two_run_archive_ok(2))
  with s(1) show ?thesis by blast
qed

section \<open>Folding without dropping\<close>

lemma sum_list_override:
  "distinct rs \<Longrightarrow> b \<in> set rs \<Longrightarrow>
   sum_list (map (\<lambda>r. if r = b then x else f r) rs) = sum_list (map f rs) - f b + (x :: int)"
proof (induction rs)
  case (Cons r rs)
  show ?case
  proof (cases "r = b")
    case True
    with Cons.prems have "sum_list (map (\<lambda>r. if r = b then x else f r) rs) = sum_list (map f rs)"
      by (intro arg_cong[where f = sum_list] map_cong) auto
    with True show ?thesis by simp
  next
    case False
    with Cons show ?thesis by simp
  qed
qed simp

lemma merge_counts_sum_nth:
  assumes "xs \<noteq> []" "\<forall>a\<in>set xs. length a = n" "i < n" "(i, OP_MAX) \<notin> set ops"
  shows "merge_counts xs ops ! i = sum_list (map (\<lambda>a. a ! i) xs)"
  using merge_counts_nth[OF assms(1,2), of ops] assms(3,4) by (simp add: column_def)

lemma snd_column:
  assumes "v \<noteq> []" "\<forall>(r, cs)\<in>set v. length cs = n" "i < n" "(i, OP_MAX) \<notin> set ops"
  shows "merge_counts (map snd v) ops ! i = sum_list (map (\<lambda>a. a ! i) (map snd v))"
  using assms by (intro merge_counts_sum_nth) auto

text \<open>
  \<open>squash(keep_runs=True)\<close> is visible to a reader: the folded runs stay in the archive
  beside the baseline they were added to, so every summed bin of the resolved counts grows by what the
  folded runs counted in it.
\<close>

theorem squash_keep_runs_recounts:
  assumes "archive_ok zf" "has_baseline zf" "read_ops zf = Inr ops"
    and "\<forall>(r, cs)\<in>set (archive_view zf). length cs = n"
    and "squash zf runs keep_recent policy True ts = Inr (res, zf')"
    and "i < n" "(i, OP_MAX) \<notin> set ops"
  shows "\<exists>before after. resolve_counts zf None = Inr before \<and> resolve_counts zf' None = Inr after \<and>
    after ! i = before ! i + sum_list (map (\<lambda>r. the (dict_get (archive_view zf) r) ! i) (sr_squashed res))"
proof -
  let ?v = "archive_view zf" and ?v' = "archive_view zf'" and ?b = BASELINE_RUN_ID
  let ?g = "\<lambda>r. the (dict_get ?v r)" and ?q = "sr_squashed res"
  let ?M = "merge_counts (map ?g (?b # ?q)) ops"
  note sv = squash_view[OF assms(1-5)]
  note d = view_distinct[OF assms(1)]
  have ok': "archive_ok zf'" and ops': "read_ops zf' = Inr ops" using sv by blast+
  have b: "?b \<in> set (map fst ?v)" by (rule baseline_in_view[OF assms(1,2)])
  have v': "?v' = map (\<lambda>(r, cs). (r, if r = ?b then ?M else cs)) ?v" using sv by (simp add: split_def)
  have q: "set ?q \<subseteq> set (map fst ?v)" using sv by blast
  have ne: "?v \<noteq> []" using b by auto
  then have ne': "?v' \<noteq> []" by (simp add: v')
  have nl: "length ?M = n" by (rule folded_length[OF d assms(4) b q])
  then have w': "\<forall>(r, cs)\<in>set ?v'. length cs = n" using assms(4) unfolding v' by auto
  have Mi: "?M ! i = ?g ?b ! i + sum_list (map (\<lambda>r. ?g r ! i) ?q)"
  proof -
    from merge_counts_sum_nth[OF _ folded_lengths[OF d assms(4) b q] assms(6,7)] show ?thesis by (simp add: comp_def)
  qed
  have before: "merge_counts (map snd ?v) ops ! i = sum_list (map (\<lambda>r. ?g r ! i) (map fst ?v))"
  proof -
    have "merge_counts (map snd ?v) ops ! i = sum_list (map (\<lambda>a. a ! i) (map snd ?v))"
      by (rule snd_column[OF ne assms(4,6,7)])
    also have "map (\<lambda>a. a ! i) (map snd ?v) = map (\<lambda>r. ?g r ! i) (map fst ?v)"
      unfolding all_arrays[OF d, symmetric] by simp
    finally show ?thesis .
  qed
  have after: "merge_counts (map snd ?v') ops ! i = sum_list (map (\<lambda>r. if r = ?b then ?M ! i else ?g r ! i) (map fst ?v))"
  proof -
    have "merge_counts (map snd ?v') ops ! i = sum_list (map (\<lambda>a. a ! i) (map snd ?v'))"
      by (rule snd_column[OF ne' w' assms(6,7)])
    also have "map (\<lambda>a. a ! i) (map snd ?v') = map (\<lambda>x. if fst x = ?b then ?M ! i else snd x ! i) ?v"
      unfolding v' by auto
    also have "\<dots> = map (\<lambda>x. if fst x = ?b then ?M ! i else ?g (fst x) ! i) ?v"
      using d by (intro map_cong[OF refl]) auto
    finally show ?thesis by (simp add: comp_def)
  qed
  have "merge_counts (map snd ?v') ops ! i = merge_counts (map snd ?v) ops ! i + sum_list (map (\<lambda>r. ?g r ! i) ?q)"
    unfolding after before sum_list_override[OF d b] Mi by simp
  with resolve_all[OF ok' ne' ops' w'] resolve_all[OF assms(1) ne assms(3,4)] show ?thesis by blast
qed

lemma squash_keep_runs_recounts_witness:
  "\<exists>res zf' before after. squash two_run_archive None 0 POLICY_ALL True 7 = Inr (res, zf') \<and>
     resolve_counts two_run_archive None = Inr before \<and> resolve_counts zf' None = Inr after \<and> after ! 0 = before ! 0 + 5"
proof -
  have ne: "lit ''a'' \<noteq> BASELINE_RUN_ID" by (simp add: BASELINE_RUN_ID_def lit_def)
  obtain res zf' where s: "squash two_run_archive None 0 POLICY_ALL True 7 = Inr (res, zf')" "sr_squashed res = [lit ''a'']"
    using squash_example[of True] by blast
  from squash_keep_runs_recounts[OF two_run_archive_ok(1) squash_example_inputs(1) two_run_archive_ok(3) squash_example_inputs(2) s(1), of 0] ne s
  show ?thesis by (simp add: two_run_archive_ok(2))
qed

section \<open>The audit trail\<close>

text \<open>
  The squash log is append-only: a successful \<open>squash\<close> leaves every earlier entry as it was
  and adds exactly one, with the policy and time of the call, whose \<open>to_run\<close>, \<open>num_runs\<close> and
  \<open>pass_runs\<close> are all the number of runs folded.
\<close>

theorem squash_log_grows:
  assumes "archive_ok zf" "has_baseline zf" "read_ops zf = Inr ops" "read_squash_log zf = Inr log"
    and "squash zf runs keep_recent policy keep_runs ts = Inr (res, zf')"
  shows "\<exists>e. read_squash_log zf' = Inr (log @ [e]) \<and> sq_ts e = ts \<and> sq_policy e = policy \<and> sq_from_run e = 0 \<and>
    sq_to_run e = int (length (sr_squashed res)) \<and> sq_num_runs e = sq_to_run e \<and> sq_pass_runs e = sq_to_run e"
proof -
  obtain t where t: "read_run_table zf = Inr t" and tok: "table_ok (dict_get (ar_members zf)) t" and d: "distinct (dict_keys (ar_members zf))"
    using assms(1) by (auto simp: archive_ok_def)
  obtain b where b: "table_get BASELINE_RUN_ID t = Some b" "re_member b = MEMBER_COUNTS"
    using assms(2) by (auto simp: has_baseline_def t split: option.splits)
  have ids: "distinct (map re_run_id t)" using tok by (simp add: table_ok_def)
  obtain planned kept q arrays data m1 t1 bs where
      plan: "squash_plan zf keep_recent runs = Inr (planned, kept)" and qd: "q = filter (\<lambda>r. policy_admits (table_get r t) policy) planned"
      and data: "counts_serialize (merge_counts (map (pad_to (max_width arrays)) arrays) ops) = Inr data"
      and fold: "(if keep_runs then Inr (dict_set MEMBER_COUNTS data (ar_members zf), t)
     else foldE remove_run (dict_set MEMBER_COUNTS data (ar_members zf), t) q) = Inr (m1, t1)"
      and lg: "append_log (case dict_get m1 MEMBER_SQUASH_LOG of None \<Rightarrow> [] | Some b \<Rightarrow> b) q policy ts = Inr bs"
      and rq: "sr_squashed res = q"
      and zf': "zf' = rewrite (dict_set MEMBER_SQUASH_LOG bs m1) [] (if table_get BASELINE_RUN_ID t1 = None then baseline_entry # t1 else t1)"
    using squash_steps[OF assms(5) t assms(3)] by blast
  have q: "distinct q" "set q \<subseteq> set (map re_run_id t)" "BASELINE_RUN_ID \<notin> set q"
    using plan_subset[OF plan t ids] by (auto simp: qd)
  have dm: "distinct (dict_keys m1)" and ml: "dict_get m1 MEMBER_SQUASH_LOG = dict_get (ar_members zf) MEMBER_SQUASH_LOG"
    using squash_members[OF tok d b q data fold] baseline_not_reserved by (auto simp: reserved_def)
  let ?e = "\<lparr>sq_ts = ts, sq_policy = policy, sq_from_run = 0, sq_to_run = int (length q),
          sq_num_runs = int (length q), sq_pass_runs = int (length q)\<rparr>"
  have nil: "sqlg_deserialize [] \<noteq> Inr l" for l by (simp add: sqlg_deserialize_def SQLG_HDR_def unpack_from_def)
  have "sqlg_serialize (squash_append ?e log) = Inr bs"
    using lg assms(4) nil by (auto simp: append_log_def ml read_squash_log_def split: option.splits if_splits)
  then have "sqlg_deserialize bs = Inr (log @ [?e])" using sqlg_reload[of _ bs "[]"] by (simp add: squash_append_def)
  moreover have "read_squash_log zf' = sqlg_deserialize bs"
  proof -
    have "distinct (dict_keys (dict_set MEMBER_SQUASH_LOG bs m1))" using dm by (simp add: distinct_update)
    then show ?thesis by (simp add: read_squash_log_def zf' rewrite_members(1) dict_update_def dict_get_set)
  qed
  ultimately show ?thesis by (intro exI[of _ ?e]) (simp add: rq)
qed

lemma squash_log_grows_witness:
  "\<exists>res zf' e. squash two_run_archive None 0 POLICY_ALL False 7 = Inr (res, zf') \<and>
     read_squash_log zf' = Inr [e] \<and> sq_ts e = 7 \<and> sq_num_runs e = 1"
proof -
  obtain res zf' where s: "squash two_run_archive None 0 POLICY_ALL False 7 = Inr (res, zf')" "sr_squashed res = [lit ''a'']"
    using squash_example[of False] by blast
  from squash_log_grows[OF two_run_archive_ok(1) squash_example_inputs(1) two_run_archive_ok(3) squash_example_inputs(3) s(1)] s
  show ?thesis by auto
qed

end
