(* ===== verification/Signature.thy ===== *)
theory Signature
  imports Sparse Interning "HOL-Library.FSet" "HOL-Library.Product_Lexorder"
begin

text \<open>
  \<open>ncdb/signature.py\<close>: run-set signatures. A signature is the finite set of bit positions of the
  runs that hit a bin; the dictionary member \<open>ASIG\<close> stores the distinct ones, each in the smallest of
  four encodings, the last of which is a difference to an earlier signature, and the index member
  \<open>ABSG\<close> stores one signature id per bin, plain or run-length encoded. Python's \<open>frozenset\<close> of
  positions is \<open>nat fset\<close>.
\<close>

section \<open>Positions and bitmaps\<close>

definition MAGIC_SIGNATURES :: int where "MAGIC_SIGNATURES = 0x41534947"
definition MAGIC_BIN_SIG :: int where "MAGIC_BIN_SIG = 0x41425347"
definition ENC_EMPTY :: nat where "ENC_EMPTY = 0"
definition ENC_FULL :: nat where "ENC_FULL = 1"
definition ENC_ARRAY :: nat where "ENC_ARRAY = 2"
definition ENC_BITMAP :: nat where "ENC_BITMAP = 3"
definition ENC_DELTA :: nat where "ENC_DELTA = 4"
definition IDX_VARINT :: nat where "IDX_VARINT = 0"
definition IDX_RLE :: nat where "IDX_RLE = 1"
definition MAX_DELTA_CHAIN_DEPTH :: nat where "MAX_DELTA_CHAIN_DEPTH = 8"

lemmas sig_defs = ENC_EMPTY_def ENC_FULL_def ENC_ARRAY_def ENC_BITMAP_def ENC_DELTA_def

fun encode_positions :: "nat \<Rightarrow> nat list \<Rightarrow> bytes res" where
  "encode_positions previous [] = Inr []"
| "encode_positions previous (position # ps) =
     bindE (encode_varint (int position - int previous)) (\<lambda>a.
     bindE (encode_positions position ps) (\<lambda>b. Inr (a @ b)))"

fun decode_positions :: "bytes \<Rightarrow> nat \<Rightarrow> nat \<Rightarrow> nat \<Rightarrow> (nat list \<times> nat) res" where
  "decode_positions data offset 0 previous = Inr ([], offset)"
| "decode_positions data offset (Suc num) previous =
     bindE (decode_varint data offset) (\<lambda>(gap, offset).
     bindE (decode_positions data offset num (previous + gap)) (\<lambda>(ps, offset).
       Inr ((previous + gap) # ps, offset)))"

definition bitmap_bytes :: "nat \<Rightarrow> nat" where
  "bitmap_bytes run_space = (run_space + 7) div 8"

text \<open>\<open>bitmap[position >> 3] |= 1 << (position & 7)\<close>\<close>

definition set_position :: "bytes \<Rightarrow> nat \<Rightarrow> bytes res" where
  "set_position bitmap position =
     (let i = drop_bit 3 position in
      if i < length bitmap then Inr (bitmap[i := (bitmap ! i) OR push_bit (position AND 7) 1]) else Inl IndexError)"

definition has_position :: "bytes \<Rightarrow> nat \<Rightarrow> bool" where
  "has_position chunk index \<longleftrightarrow> (chunk ! drop_bit 3 index) AND push_bit (index AND 7) 1 \<noteq> 0"

definition range_set :: "nat \<Rightarrow> nat fset" where
  "range_set run_space = fset_of_list [0..<run_space]"

text \<open>\<open>a ^ b\<close> on sets\<close>

definition flip_set :: "nat fset \<Rightarrow> nat fset \<Rightarrow> nat fset" where
  "flip_set a b = (a |-| b) |\<union>| (b |-| a)"

section \<open>One record\<close>

text \<open>\<open>min(candidates, key=lambda c: (c[0], c[1]))\<close>: the first of the smallest.\<close>

definition smallest :: "nat \<times> nat \<times> bytes \<Rightarrow> (nat \<times> nat \<times> bytes) list \<Rightarrow> nat \<times> nat \<times> bytes" where
  "smallest c cs = foldl (\<lambda>m c. if (fst c, fst (snd c)) < (fst m, fst (snd m)) then c else m) c cs"

definition array_payload :: "nat fset \<Rightarrow> bytes res" where
  "array_payload bits =
     bindE (encode_varint (int (fcard bits))) (\<lambda>n.
     bindE (encode_positions 0 (sorted_list_of_fset bits)) (\<lambda>ps. Inr (n @ ps)))"

definition bitmap_payload :: "nat fset \<Rightarrow> nat \<Rightarrow> bytes res" where
  "bitmap_payload bits run_space =
     foldE set_position (replicate (bitmap_bytes run_space) 0) (sorted_list_of_fset bits)"

definition delta_payload :: "nat fset \<Rightarrow> nat fset \<Rightarrow> nat \<Rightarrow> bytes res" where
  "delta_payload bits base base_id =
     (let flipped = flip_set bits base in
      bindE (encode_varint (int base_id)) (\<lambda>b.
      bindE (encode_varint (int (fcard flipped))) (\<lambda>n.
      bindE (encode_positions 0 (sorted_list_of_fset flipped)) (\<lambda>ps. Inr (b @ n @ ps)))))"

definition encode_signature :: "nat fset \<Rightarrow> nat \<Rightarrow> (nat fset \<times> nat) option \<Rightarrow> bytes res" where
  "encode_signature bits run_space base =
     (if bits = {||} then Inr [of_nat ENC_EMPTY]
      else if fcard bits = run_space then Inr [of_nat ENC_FULL]
      else
        bindE (array_payload bits) (\<lambda>array.
        bindE (bitmap_payload bits run_space) (\<lambda>bitmap.
        bindE (case base of None \<Rightarrow> Inr []
               | Some (b, base_id) \<Rightarrow> bindE (delta_payload bits b base_id) (\<lambda>d. Inr [(length d + 1, ENC_DELTA, d)])) (\<lambda>deltas.
        let (_, encoding, payload) =
              smallest (length array + 1, ENC_ARRAY, array) ((length bitmap + 1, ENC_BITMAP, bitmap) # deltas)
        in Inr (of_nat encoding # payload)))))"

definition decode_signature :: "bytes \<Rightarrow> nat \<Rightarrow> nat \<Rightarrow> nat fset list \<Rightarrow> (nat fset \<times> nat) res" where
  "decode_signature data offset run_space resolved =
     (if length data \<le> offset then Inl SignatureFormatError
      else
        let encoding = unat (data ! offset); offset = Suc offset in
        if encoding = ENC_EMPTY then Inr ({||}, offset)
        else if encoding = ENC_FULL then Inr (range_set run_space, offset)
        else if encoding = ENC_ARRAY then
          bindE (decode_varint data offset) (\<lambda>(cardinality, offset).
          bindE (decode_positions data offset cardinality 0) (\<lambda>(positions, offset).
            Inr (fset_of_list positions, offset)))
        else if encoding = ENC_BITMAP then
          let width = bitmap_bytes run_space; chunk = slice data offset (offset + width) in
          if length chunk \<noteq> width then Inl SignatureFormatError
          else Inr (fset_of_list (filter (has_position chunk) [0..<run_space]), offset + width)
        else if encoding = ENC_DELTA then
          bindE (decode_varint data offset) (\<lambda>(base_id, offset).
          bindE (decode_varint data offset) (\<lambda>(cardinality, offset).
          bindE (decode_positions data offset cardinality 0) (\<lambda>(flipped, offset).
            if length resolved \<le> base_id then Inl SignatureFormatError
            else Inr (flip_set (resolved ! base_id) (fset_of_list flipped), offset))))
        else Inl SignatureFormatError)"

lemma encode_positions_ok: "sorted (p # ps) \<Longrightarrow> is_ok (encode_positions p ps)"
proof (induction ps arbitrary: p)
  case (Cons q ps)
  then have "is_ok (encode_positions q ps)" by simp
  then obtain b where "encode_positions q ps = Inr b" by (auto elim!: is_okE)
  with Cons.prems show ?case by (simp add: encode_varint_def)
qed simp

lemma decode_encode_positions:
  "encode_positions p ps = Inr bs \<Longrightarrow> at data off bs \<Longrightarrow>
   decode_positions data off (length ps) p = Inr (ps, off + length bs)"
proof (induction ps arbitrary: p off bs)
  case Nil
  then show ?case by simp
next
  case (Cons q ps)
  from Cons.prems(1) obtain r where b: "p \<le> q" "bs = varint_loop (q - p) @ r" "encode_positions q ps = Inr r"
    by (auto simp: bindE_eq_Inr encode_varint_eq_Inr nat_diff_distrib)
  from Cons.prems(2) b(2) have a: "at data off (varint_loop (q - p))" "at data (off + length (varint_loop (q - p))) r"
    by (simp_all add: at_append)
  from Cons.IH[OF b(3) a(2)] decode_varint_at[OF a(1)] b show ?case by (simp add: add.assoc)
qed

lemma has_position_bit: "has_position chunk i \<longleftrightarrow> bit (chunk ! (i div 8)) (i mod 8)"
proof -
  have "i AND 7 = i mod 8" using take_bit_eq_mask[of 3 i] by (simp add: take_bit_eq_mod mask_eq_exp_minus_1)
  then show ?thesis by (simp add: has_position_def drop_bit_eq_div push_bit_eq_mult and_exp_eq_0_iff_not_bit)
qed

lemma set_position_at:
  assumes "p < 8 * length bm"
  shows "\<exists>bm'. set_position bm p = Inr bm' \<and> length bm' = length bm \<and>
    (\<forall>i. i < 8 * length bm \<longrightarrow> has_position bm' i = (has_position bm i \<or> i = p))"
proof -
  let ?i = "p div 8"
  have m: "p AND 7 = p mod 8" using take_bit_eq_mask[of 3 p] by (simp add: take_bit_eq_mod mask_eq_exp_minus_1)
  have lt: "?i < length bm" using assms by (simp add: div_less_iff_less_mult mult.commute)
  let ?bm = "bm[?i := (bm ! ?i) OR push_bit (p mod 8) 1]"
  have "set_position bm p = Inr ?bm" using lt by (simp add: set_position_def drop_bit_eq_div m)
  moreover have "has_position ?bm i = (has_position bm i \<or> i = p)" if "i < 8 * length bm" for i
  proof (cases "i div 8 = ?i")
    case True
    have "bit (push_bit (p mod 8) (1 :: byte)) (i mod 8) \<longleftrightarrow> i mod 8 = p mod 8"
      by (auto simp: push_bit_eq_mult bit_exp_iff possible_bit_word)
    moreover have "i = p \<longleftrightarrow> i mod 8 = p mod 8" using True by (metis div_mult_mod_eq)
    ultimately show ?thesis using True lt by (simp add: has_position_bit bit_or_iff)
  next
    case False
    then show ?thesis by (auto simp: has_position_bit)
  qed
  ultimately show ?thesis by auto
qed

lemma set_positions:
  "\<forall>p\<in>set ps. p < 8 * length bm \<Longrightarrow>
   \<exists>bm'. foldE set_position bm ps = Inr bm' \<and> length bm' = length bm \<and>
    (\<forall>i < 8 * length bm. has_position bm' i = (has_position bm i \<or> i \<in> set ps))"
proof (induction ps arbitrary: bm)
  case Nil
  then show ?case by simp
next
  case (Cons p ps)
  obtain b where b: "set_position bm p = Inr b" "length b = length bm"
      "\<And>i. i < 8 * length bm \<Longrightarrow> has_position b i = (has_position bm i \<or> i = p)"
    using set_position_at[of p bm] Cons.prems by auto
  obtain c where c: "foldE set_position b ps = Inr c" "length c = length b"
      "\<And>i. i < 8 * length b \<Longrightarrow> has_position c i = (has_position b i \<or> i \<in> set ps)"
    using Cons.IH[of b] Cons.prems b(2) by auto
  then show ?case using b by auto
qed

lemma bitmap_bytes_bound: "p < n \<Longrightarrow> p < 8 * bitmap_bytes n"
  by (simp add: bitmap_bytes_def)

lemma bitmap_payload_props:
  assumes "fset bits \<subseteq> {..<n}"
  shows "\<exists>bm. bitmap_payload bits n = Inr bm \<and> length bm = bitmap_bytes n \<and>
    fset_of_list (filter (has_position bm) [0..<n]) = bits"
proof -
  let ?z = "replicate (bitmap_bytes n) 0 :: bytes"
  have "\<forall>p\<in>set (sorted_list_of_fset bits). p < 8 * length ?z"
    using assms by (auto intro: bitmap_bytes_bound)
  then obtain bm where bm: "bitmap_payload bits n = Inr bm" "length bm = bitmap_bytes n"
      "\<And>i. i < 8 * bitmap_bytes n \<Longrightarrow> has_position bm i = (has_position ?z i \<or> i \<in> fset bits)"
    unfolding bitmap_payload_def using set_positions[of "sorted_list_of_fset bits" ?z] by auto
  have "\<not> has_position ?z i" if "i < n" for i
  proof -
    have "i div 8 < bitmap_bytes n" using bitmap_bytes_bound[OF that] by (simp add: div_less_iff_less_mult mult.commute)
    then show ?thesis by (simp add: has_position_bit)
  qed
  then have "has_position bm i \<longleftrightarrow> i \<in> fset bits" if "i < n" for i
    using bm(3)[OF bitmap_bytes_bound[OF that]] that by simp
  then have "fset (fset_of_list (filter (has_position bm) [0..<n])) = fset bits"
    using assms by (simp only: fset_of_list.rep_eq set_filter set_upt) auto
  then have "fset_of_list (filter (has_position bm) [0..<n]) = bits" by (simp only: fset_inject)
  with bm(1,2) show ?thesis by blast
qed

lemma length_sorted_fset [simp]: "length (sorted_list_of_fset b) = fcard b"
  by (simp add: sorted_list_of_fset.rep_eq fcard.rep_eq)

lemma sorted_fset [simp]: "sorted (sorted_list_of_fset b)"
  by (simp add: sorted_list_of_fset.rep_eq)

lemma flip_flip: "flip_set b (flip_set a b) = a"
  unfolding flip_set_def by (auto simp: fset_eq_iff)

lemma foldl_pick_in: "foldl (\<lambda>m c. if f c m then c else m) c cs \<in> set (c # cs)"
proof (induction cs arbitrary: c)
  case (Cons d cs)
  from Cons[of d] Cons[of c] show ?case by auto
qed simp

lemma foldl_pick_le:
  fixes key :: "'a \<Rightarrow> 'b :: linorder"
  shows "x \<in> set (c # cs) \<Longrightarrow> key (foldl (\<lambda>m c. if key c < key m then c else m) c cs) \<le> key x"
proof (induction cs arbitrary: c x)
  case (Cons d cs)
  let ?m = "if key d < key c then d else c"
  have m: "key ?m \<le> key c" "key ?m \<le> key d" by auto
  have "key (foldl (\<lambda>m c. if key c < key m then c else m) ?m cs) \<le> key ?m" by (rule Cons.IH) simp
  with m Cons.IH[of x ?m] Cons.prems show ?case by (auto simp del: foldl.simps(1) intro: order_trans)
qed simp

lemma smallest_in: "smallest c cs \<in> set (c # cs)"
  unfolding smallest_def by (rule foldl_pick_in)

lemma smallest_le: "x \<in> set (c # cs) \<Longrightarrow> fst (smallest c cs) \<le> fst x"
  using foldl_pick_le[of x c cs "\<lambda>c. (fst c, fst (snd c))"] unfolding smallest_def by (simp add: less_eq_prod_def) linarith

lemma decode_encode_array:
  assumes "array_payload bits = Inr bs" "at data off bs"
  shows "\<exists>o1. decode_varint data off = Inr (fcard bits, o1) \<and>
    decode_positions data o1 (fcard bits) 0 = Inr (sorted_list_of_fset bits, off + length bs)"
proof -
  obtain ps where b: "bs = varint_loop (fcard bits) @ ps" "encode_positions 0 (sorted_list_of_fset bits) = Inr ps"
    using assms(1) by (auto simp: array_payload_def bindE_eq_Inr)
  with assms(2) have a: "at data off (varint_loop (fcard bits))" "at data (off + length (varint_loop (fcard bits))) ps"
    by (simp_all add: at_append)
  from decode_varint_at[OF a(1)] decode_encode_positions[OF b(2) a(2)] show ?thesis by (simp add: b(1) add.assoc)
qed

lemma encode_fset: "\<exists>ps. encode_positions 0 (sorted_list_of_fset b) = Inr ps"
proof -
  have "is_ok (encode_positions 0 (sorted_list_of_fset b))" by (rule encode_positions_ok) simp
  then show ?thesis unfolding is_ok_iff .
qed

lemma payloads_ok: "is_ok (array_payload bits)" "is_ok (delta_payload bits base i)"
proof -
  obtain p where "encode_positions 0 (sorted_list_of_fset bits) = Inr p" using encode_fset by blast
  then show "is_ok (array_payload bits)" by (simp add: array_payload_def)
  obtain p where "encode_positions 0 (sorted_list_of_fset (flip_set bits base)) = Inr p" using encode_fset by blast
  then show "is_ok (delta_payload bits base i)" by (simp add: delta_payload_def)
qed

text \<open>The candidate that was written, with its size the smallest.\<close>

lemma fset_range_set: "fset (range_set n) = {..<n}"
  by (simp add: range_set_def fset_of_list.rep_eq atLeast0LessThan)

lemma encode_signature_cases:
  assumes "encode_signature bits n base = Inr bs" "fset bits \<subseteq> {..<n}"
  obtains "bits = {||}" "bs = [of_nat ENC_EMPTY]"
  | "bits = range_set n" "bs = [of_nat ENC_FULL]"
  | p where "array_payload bits = Inr p" "bs = of_nat ENC_ARRAY # p"
  | p where "bitmap_payload bits n = Inr p" "bs = of_nat ENC_BITMAP # p"
  | b i p where "base = Some (b, i)" "delta_payload bits b i = Inr p" "bs = of_nat ENC_DELTA # p"
proof (cases "bits = {||} \<or> fcard bits = n")
  case True
  have "bits = range_set n" if "fcard bits = n"
  proof -
    have "card (fset bits) = card {..<n}" using that by (simp only: fcard.rep_eq card_lessThan)
    then have "fset bits = {..<n}" by (rule card_subset_eq[OF finite_lessThan assms(2)])
    then have "fset bits = fset (range_set n)" by (simp only: fset_range_set)
    then show ?thesis by (simp only: fset_inject)
  qed
  then show ?thesis using True assms(1) that(1,2) by (auto simp: encode_signature_def split: if_splits)
next
  case False
  have nb: "(bits = {||}) = False" "(fcard bits = n) = False" using False by blast+
  define dl where "dl = (case base of None \<Rightarrow> Inr [] | Some (b, base_id) \<Rightarrow> bindE (delta_payload bits b base_id) (\<lambda>d. Inr [(length d + 1, ENC_DELTA, d)]))"
  have "bindE (array_payload bits) (\<lambda>ar. bindE (bitmap_payload bits n) (\<lambda>bm. bindE dl (\<lambda>ds.
      case smallest (length ar + 1, ENC_ARRAY, ar) ((length bm + 1, ENC_BITMAP, bm) # ds) of (_, e, pl) \<Rightarrow> Inr (of_nat e # pl)))) = Inr bs"
    using assms(1) unfolding encode_signature_def dl_def Let_def nb if_False .
  then obtain ar where p1: "array_payload bits = Inr ar" and
      r1: "bindE (bitmap_payload bits n) (\<lambda>bm. bindE dl (\<lambda>ds.
      case smallest (length ar + 1, ENC_ARRAY, ar) ((length bm + 1, ENC_BITMAP, bm) # ds) of (_, e, pl) \<Rightarrow> Inr (of_nat e # pl))) = Inr bs"
    by (rule bindE_InrE)
  from r1 obtain bm where p2: "bitmap_payload bits n = Inr bm" and
      r2: "bindE dl (\<lambda>ds. case smallest (length ar + 1, ENC_ARRAY, ar) ((length bm + 1, ENC_BITMAP, bm) # ds) of (_, e, pl) \<Rightarrow> Inr (of_nat e # pl)) = Inr bs"
    by (rule bindE_InrE)
  from r2 obtain ds where p3: "dl = Inr ds" and
      bs: "(case smallest (length ar + 1, ENC_ARRAY, ar) ((length bm + 1, ENC_BITMAP, bm) # ds) of (_, e, pl) \<Rightarrow> Inr (of_nat e # pl)) = (Inr bs :: bytes res)"
    by (rule bindE_InrE)
  note p = p1 p2 p3
  have "smallest (length ar + 1, ENC_ARRAY, ar) ((length bm + 1, ENC_BITMAP, bm) # ds)
      \<in> set ((length ar + 1, ENC_ARRAY, ar) # (length bm + 1, ENC_BITMAP, bm) # ds)" by (rule smallest_in)
  then consider "bs = of_nat ENC_ARRAY # ar" | "bs = of_nat ENC_BITMAP # bm" | k e pl where "(k, e, pl) \<in> set ds" "bs = of_nat e # pl"
    using bs by (auto split: prod.splits)
  then show ?thesis
  proof cases
    case 1
    with p(1) show ?thesis using that(3) by blast
  next
    case 2
    with p(2) show ?thesis using that(4) by blast
  next
    case 3
    then obtain b i where "base = Some (b, i)" "delta_payload bits b i = Inr pl" "e = ENC_DELTA"
      using p(3) by (auto simp: dl_def bindE_eq_Inr split: option.splits)
    with 3(2) show ?thesis using that(5) by blast
  qed
qed

lemma signature_decode:
  assumes enc: "encode_signature bits n base = Inr bs" and sub: "fset bits \<subseteq> {..<n}"
    and base: "\<And>b i. base = Some (b, i) \<Longrightarrow> i < length resolved \<and> resolved ! i = b" and at: "at data off bs"
  shows "decode_signature data off n resolved = Inr (bits, off + length bs)"
  using enc sub
proof (cases rule: encode_signature_cases)
  case 1
  with at show ?thesis by (auto simp: decode_signature_def at_Cons sig_defs)
next
  case 2
  with at show ?thesis by (auto simp: decode_signature_def at_Cons sig_defs)
next
  case (3 p)
  with at have a: "off < length data" "data ! off = of_nat ENC_ARRAY" "at data (Suc off) p" by (simp_all add: at_Cons)
  from decode_encode_array[OF 3(1) a(3)] a(1,2) 3(2) show ?thesis
    by (auto simp: decode_signature_def sig_defs)
next
  case (4 p)
  with at have a: "off < length data" "data ! off = of_nat ENC_BITMAP" "at data (Suc off) p" by (simp_all add: at_Cons)
  obtain bm where "bitmap_payload bits n = Inr bm" "length bm = bitmap_bytes n"
      "fset_of_list (filter (has_position bm) [0..<n]) = bits" using bitmap_payload_props[OF sub] by blast
  moreover have "slice data (Suc off) (Suc off + length p) = p" by (rule at_slice[OF a(3) refl])
  ultimately show ?thesis using 4 a(1,2) by (auto simp: decode_signature_def sig_defs)
next
  case (5 b i p)
  with at have a: "off < length data" "data ! off = of_nat ENC_DELTA" "at data (Suc off) p" by (simp_all add: at_Cons)
  obtain q where q: "p = varint_loop i @ q" "array_payload (flip_set bits b) = Inr q"
    using 5(2) by (auto simp: delta_payload_def array_payload_def bindE_eq_Inr)
  have a2: "at data (Suc off) (varint_loop i)" "at data (Suc off + length (varint_loop i)) q"
    using a(3) by (simp_all add: q(1) at_append)
  obtain o1 where "decode_varint data (Suc off + length (varint_loop i)) = Inr (fcard (flip_set bits b), o1)"
      "decode_positions data o1 (fcard (flip_set bits b)) 0 = Inr (sorted_list_of_fset (flip_set bits b), Suc off + length (varint_loop i) + length q)"
    using decode_encode_array[OF q(2) a2(2)] by blast
  then show ?thesis
    using a(1,2) base[OF 5(1)] decode_varint_at[OF a2(1)] 5(3)
    by (simp add: decode_signature_def sig_defs q(1) flip_flip)
qed

lemma encode_signature_size:
  assumes "encode_signature bits n base = Inr bs" "fset bits \<subseteq> {..<n}"
  shows "length bs \<le> 1 + bitmap_bytes n \<and> (\<exists>ar. array_payload bits = Inr ar \<and> length bs \<le> 1 + length ar)"
proof (cases "bits = {||} \<or> fcard bits = n")
  case True
  then have "length bs = 1" using assms(1) by (auto simp: encode_signature_def split: if_splits)
  then show ?thesis using payloads_ok(1)[of bits] by (auto elim!: is_okE)
next
  case False
  then have nb: "(bits = {||}) = False" "(fcard bits = n) = False" by blast+
  obtain ar where ar: "array_payload bits = Inr ar" using payloads_ok(1)[of bits] by (auto elim!: is_okE)
  obtain bm where bm: "bitmap_payload bits n = Inr bm" "length bm = bitmap_bytes n" using bitmap_payload_props[OF assms(2)] by blast
  define dl where "dl = (case base of None \<Rightarrow> Inr [] | Some (b, base_id) \<Rightarrow> bindE (delta_payload bits b base_id) (\<lambda>d. Inr [(length d + 1, ENC_DELTA, d)]))"
  have "bindE dl (\<lambda>ds.
      case smallest (length ar + 1, ENC_ARRAY, ar) ((length bm + 1, ENC_BITMAP, bm) # ds) of (_, e, pl) \<Rightarrow> Inr (of_nat e # pl)) = Inr bs"
    using assms(1) unfolding encode_signature_def dl_def Let_def nb if_False ar bm(1) bindE_Inr .
  then obtain ds where ds: "dl = Inr ds" and
      bs: "(case smallest (length ar + 1, ENC_ARRAY, ar) ((length bm + 1, ENC_BITMAP, bm) # ds) of (_, e, pl) \<Rightarrow> Inr (of_nat e # pl)) = (Inr bs :: bytes res)"
    by (rule bindE_InrE)
  let ?m = "smallest (length ar + 1, ENC_ARRAY, ar) ((length bm + 1, ENC_BITMAP, bm) # ds)"
  have "length bs = fst ?m"
  proof -
    have "\<forall>c\<in>set ds. fst c = length (snd (snd c)) + 1" using ds by (auto simp: dl_def bindE_eq_Inr split: option.splits)
    then have "fst ?m = length (snd (snd ?m)) + 1"
      using smallest_in[of "(length ar + 1, ENC_ARRAY, ar)" "(length bm + 1, ENC_BITMAP, bm) # ds"] by auto
    then show ?thesis using bs by (auto split: prod.splits)
  qed
  moreover have "fst ?m \<le> length ar + 1" "fst ?m \<le> length bm + 1"
    using smallest_le[of _ "(length ar + 1, ENC_ARRAY, ar)" "(length bm + 1, ENC_BITMAP, bm) # ds"] by fastforce+
  ultimately show ?thesis using ar bm(2) by simp
qed

lemma encode_signature_ok: "fset bits \<subseteq> {..<n} \<Longrightarrow> \<exists>bs. encode_signature bits n base = Inr bs"
proof -
  assume sub: "fset bits \<subseteq> {..<n}"
  obtain ar where ar: "array_payload bits = Inr ar" using payloads_ok(1)[of bits] by (auto elim!: is_okE)
  obtain bm where bm: "bitmap_payload bits n = Inr bm" using bitmap_payload_props[OF sub] by blast
  have "\<exists>ds. (case base of None \<Rightarrow> Inr [] | Some (b, base_id) \<Rightarrow> bindE (delta_payload bits b base_id) (\<lambda>d. Inr [(length d + 1, ENC_DELTA, d)])) = Inr ds"
    using payloads_ok(2)[of bits] by (auto simp: is_ok_iff bindE_eq_Inr split: option.split)
  then obtain ds where ds: "(case base of None \<Rightarrow> Inr [] | Some (b, base_id) \<Rightarrow> bindE (delta_payload bits b base_id) (\<lambda>d. Inr [(length d + 1, ENC_DELTA, d)])) = Inr ds" ..
  obtain k e pl where "smallest (length ar + 1, ENC_ARRAY, ar) ((length bm + 1, ENC_BITMAP, bm) # ds) = (k, e, pl)"
    by (rule prod_cases3)
  then show ?thesis by (simp add: encode_signature_def ar bm ds)
qed

section \<open>The dictionary\<close>

record SignatureTable =
  sg_run_ids :: "int list"
  sg_assoc_type :: int
  sg_signatures :: "nat fset list"
  sg_by_key :: "(nat fset \<times> nat) list"
  sg_depth :: "nat list"

definition dict_setdefault :: "'k \<Rightarrow> 'v \<Rightarrow> ('k \<times> 'v) list \<Rightarrow> ('k \<times> 'v) list" where
  "dict_setdefault k v d = (if dict_get d k = None then dict_set k v d else d)"

text \<open>\<open>for sig_id, bits in enumerate(signatures): by_key.setdefault(bits, sig_id)\<close>\<close>

definition key_index :: "nat fset list \<Rightarrow> (nat fset \<times> nat) list" where
  "key_index signatures = foldl (\<lambda>d (sig_id, bits). dict_setdefault bits sig_id d) [] (enumerate 0 signatures)"

definition new_table :: "int list \<Rightarrow> int \<Rightarrow> SignatureTable" where
  "new_table run_ids assoc_type =
     (let signatures = [{||}, range_set (length run_ids)] in
      \<lparr>sg_run_ids = run_ids, sg_assoc_type = assoc_type, sg_signatures = signatures,
       sg_by_key = key_index signatures, sg_depth = [0, 0]\<rparr>)"

definition position_of :: "SignatureTable \<Rightarrow> (int \<times> nat) list" where
  "position_of t = foldl (\<lambda>d (position, run_id). dict_set run_id position d) [] (enumerate 0 (sg_run_ids t))"

definition run_space :: "SignatureTable \<Rightarrow> nat" where
  "run_space t = length (sg_run_ids t)"

definition intern :: "SignatureTable \<Rightarrow> nat fset \<Rightarrow> SignatureTable \<times> nat" where
  "intern t key =
     (case dict_get (sg_by_key t) key of
        Some existing \<Rightarrow> (t, existing)
      | None \<Rightarrow>
          let sig_id = length (sg_signatures t) in
          (t\<lparr>sg_signatures := sg_signatures t @ [key], sg_by_key := dict_set key sig_id (sg_by_key t),
             sg_depth := sg_depth t @ [0]\<rparr>, sig_id))"

definition cardinality :: "SignatureTable \<Rightarrow> int \<Rightarrow> nat res" where
  "cardinality t sig_id = bindE (py_nth (sg_signatures t) sig_id) (\<lambda>s. Inr (fcard s))"

definition contains_run :: "SignatureTable \<Rightarrow> int \<Rightarrow> int \<Rightarrow> bool res" where
  "contains_run t sig_id run_id =
     (case dict_get (position_of t) run_id of
        None \<Rightarrow> Inr False
      | Some position \<Rightarrow> bindE (py_nth (sg_signatures t) sig_id) (\<lambda>s. Inr (position |\<in>| s)))"

definition runs_of :: "SignatureTable \<Rightarrow> int \<Rightarrow> int list res" where
  "runs_of t sig_id =
     bindE (py_nth (sg_signatures t) sig_id) (\<lambda>s. mapE (\<lambda>position. py_nth (sg_run_ids t) (int position)) (sorted_list_of_fset s))"

definition choose_base :: "nat fset list \<Rightarrow> nat list \<Rightarrow> nat \<Rightarrow> (nat fset \<times> nat) option" where
  "choose_base signatures depth sig_id =
     (if sig_id \<le> 1 then None
      else let candidate = sig_id - 1 in
           if MAX_DELTA_CHAIN_DEPTH - 1 \<le> depth ! candidate then None
           else Some (signatures ! candidate, candidate))"

definition write_record :: "nat fset list \<Rightarrow> nat \<Rightarrow> nat list \<times> bytes \<Rightarrow> nat \<times> nat fset \<Rightarrow> (nat list \<times> bytes) res" where
  "write_record signatures space = (\<lambda>(depth, out) (sig_id, bits).
     let base = choose_base signatures depth sig_id in
     bindE (encode_signature bits space base) (\<lambda>record.
       let d = (if unat (record ! 0) = ENC_DELTA then depth ! snd (the base) + 1 else 0)
       in Inr (depth[sig_id := d], out @ record)))"

definition sig_serialize :: "SignatureTable \<Rightarrow> (SignatureTable \<times> bytes) res" where
  "sig_serialize t =
     (let n = length (sg_signatures t) in
      bindE (to_bytes_le 4 MAGIC_SIGNATURES) (\<lambda>magic.
      bindE (to_bytes_le 2 (sg_assoc_type t)) (\<lambda>at.
      bindE (to_bytes_le 4 (int (run_space t))) (\<lambda>rs.
      bindE (encode_varint (int n)) (\<lambda>num.
      bindE (concatE encode_varint (sg_run_ids t)) (\<lambda>runs.
      bindE (foldE (write_record (sg_signatures t) (run_space t)) (replicate n 0, []) (enumerate 0 (sg_signatures t)))
        (\<lambda>(depth, records).
          Inr (t\<lparr>sg_depth := depth\<rparr>, magic @ [1] @ at @ rs @ num @ runs @ records))))))))"

record sig_reading =
  rd_signatures :: "nat fset list"
  rd_by_key :: "(nat fset \<times> nat) list"
  rd_depth :: "nat list"

definition read_record :: "bytes \<Rightarrow> nat \<Rightarrow> sig_reading \<times> nat \<Rightarrow> nat \<Rightarrow> (sig_reading \<times> nat) res" where
  "read_record data space = (\<lambda>(r, offset) sig_id.
     let record_start = offset in
     bindE (decode_signature data offset space (rd_signatures r)) (\<lambda>(bits, offset).
     bindE (byte_at data record_start) (\<lambda>enc.
     bindE (if enc = ENC_DELTA then
              bindE (decode_varint data (record_start + 1)) (\<lambda>(base_id, _).
                if sig_id \<le> base_id then Inl SignatureFormatError
                else bindE (py_nth (rd_depth r) (int base_id)) (\<lambda>d.
                  let chain = d + 1 in
                  if MAX_DELTA_CHAIN_DEPTH \<le> chain then Inl SignatureFormatError else Inr chain))
            else Inr 0) (\<lambda>d.
       Inr (\<lparr>rd_signatures = rd_signatures r @ [bits], rd_by_key = dict_setdefault bits sig_id (rd_by_key r),
             rd_depth = rd_depth r @ [d]\<rparr>, offset)))))"

definition sig_deserialize :: "bytes \<Rightarrow> SignatureTable res" where
  "sig_deserialize data =
     (if length data < 11 then Inl SignatureFormatError
      else if int (le_val (slice data 0 4)) \<noteq> MAGIC_SIGNATURES then Inl SignatureFormatError
      else if unat (data ! 4) \<noteq> 1 then Inl SignatureFormatError
      else
        let assoc_type = int (le_val (slice data 5 7)); space = le_val (slice data 7 11) in
        bindE (decode_varint data 11) (\<lambda>(num_sigs, offset).
        bindE (repeat_dec decode_varint space data offset) (\<lambda>(run_ids, offset).
        let table = new_table (map int run_ids) assoc_type in
        bindE (foldE (read_record data space) (\<lparr>rd_signatures = [], rd_by_key = [], rd_depth = []\<rparr>, offset) [0..<num_sigs])
          (\<lambda>(r, _). Inr (table\<lparr>sg_signatures := rd_signatures r, sg_by_key := rd_by_key r, sg_depth := rd_depth r\<rparr>)))))"

section \<open>Writer and reader in step\<close>

lemma key_index_snoc: "key_index (sigs @ [s]) = dict_setdefault s (length sigs) (key_index sigs)"
  by (simp add: key_index_def enumerate_append_eq)

lemma encode_signature_delta:
  assumes "encode_signature bits n base = Inr bs" "fset bits \<subseteq> {..<n}"
  shows "\<exists>e p. bs = e # p \<and> (unat e = ENC_DELTA \<longrightarrow> (\<exists>b i q. base = Some (b, i) \<and> p = varint_loop i @ q))"
  using assms
proof (cases rule: encode_signature_cases)
  case (5 b i p)
  then show ?thesis by (auto simp: delta_payload_def bindE_eq_Inr)
qed (auto simp: sig_defs)

text \<open>The depth the writer records for one signature, and that the reader accepts it.\<close>

lemma record_step:
  assumes w: "write_record sigs n (depth, out) (k, s) = Inr (depth', out')"
    and sigs: "sigs = resolved @ s # later" "k = length resolved" "fset s \<subseteq> {..<n}"
    and depth: "length depth = length sigs" "\<forall>d\<in>set (take k depth). d < MAX_DELTA_CHAIN_DEPTH"
    and key: "key = key_index resolved"
  shows "\<exists>bs d. out' = out @ bs \<and> depth' = depth[k := d] \<and> d < MAX_DELTA_CHAIN_DEPTH \<and>
    (\<forall>data off. at data off bs \<longrightarrow>
      read_record data n (\<lparr>rd_signatures = resolved, rd_by_key = key, rd_depth = take k depth\<rparr>, off) k =
      Inr (\<lparr>rd_signatures = resolved @ [s], rd_by_key = key_index (resolved @ [s]), rd_depth = take k depth @ [d]\<rparr>, off + length bs))"
proof -
  let ?base = "choose_base sigs depth k"
  obtain bs where enc: "encode_signature s n ?base = Inr bs"
    and out: "out' = out @ bs" "depth' = depth[k := if unat (bs ! 0) = ENC_DELTA then depth ! snd (the ?base) + 1 else 0]"
    using w by (auto simp: write_record_def bindE_eq_Inr)
  define d where "d = (if unat (bs ! 0) = ENC_DELTA then depth ! snd (the ?base) + 1 else 0)"
  have base: "i < length resolved \<and> resolved ! i = b \<and> i = k - 1 \<and> depth ! i < MAX_DELTA_CHAIN_DEPTH - 1" if "?base = Some (b, i)" for b i
    using that sigs(2) by (auto simp: choose_base_def sigs(1) nth_append split: if_splits)
  obtain e p where ep: "bs = e # p" "unat e = ENC_DELTA \<Longrightarrow> \<exists>b i q. ?base = Some (b, i) \<and> p = varint_loop i @ q"
    using encode_signature_delta[OF enc sigs(3)] by blast
  have dlt: "d < MAX_DELTA_CHAIN_DEPTH"
  proof (cases "unat e = ENC_DELTA")
    case True
    then obtain b i q where "?base = Some (b, i)" using ep(2) by blast
    with base[OF this] True ep(1) show ?thesis by (auto simp: d_def MAX_DELTA_CHAIN_DEPTH_def)
  qed (simp add: d_def ep(1) MAX_DELTA_CHAIN_DEPTH_def)
  have "read_record data n (\<lparr>rd_signatures = resolved, rd_by_key = key, rd_depth = take k depth\<rparr>, off) k =
      Inr (\<lparr>rd_signatures = resolved @ [s], rd_by_key = key_index (resolved @ [s]), rd_depth = take k depth @ [d]\<rparr>, off + length bs)"
    if a: "at data off bs" for data off
  proof -
    have dec: "decode_signature data off n resolved = Inr (s, off + length bs)"
      using base by (intro signature_decode[OF enc sigs(3) _ a]) blast
    have b0: "byte_at data off = Inr (unat e)" using a unfolding ep(1) by (rule at_byte_at)
    have chk: "(if unat e = ENC_DELTA then
              bindE (decode_varint data (off + 1)) (\<lambda>(base_id, _).
                if k \<le> base_id then Inl SignatureFormatError
                else bindE (py_nth (take k depth) (int base_id)) (\<lambda>d.
                  let chain = d + 1 in
                  if MAX_DELTA_CHAIN_DEPTH \<le> chain then Inl SignatureFormatError else Inr chain))
            else Inr 0) = Inr d"
    proof (cases "unat e = ENC_DELTA")
      case True
      then obtain b i q where q: "?base = Some (b, i)" "p = varint_loop i @ q" using ep(2) by blast
      have v: "decode_varint data (off + 1) = Inr (i, off + 1 + length (varint_loop i))"
        using a by (intro decode_varint_at) (simp add: ep(1) q(2) at_Cons at_append)
      have i: "i < k" "depth ! i < MAX_DELTA_CHAIN_DEPTH - 1" using base[OF q(1)] sigs(2) by auto
      have "py_nth (take k depth) (int i) = Inr (depth ! i)"
        using i(1) depth(1) sigs(2) by (simp add: py_nth_def sigs(1))
      with True v i show ?thesis by (simp add: d_def ep(1) q(1))
    qed (simp add: d_def ep(1))
    show ?thesis
      unfolding read_record_def split_conv Let_def sig_reading.simps dec b0 bindE_Inr chk[unfolded Let_def]
      by (simp add: key key_index_snoc sigs(2))
  qed
  with out dlt show ?thesis unfolding d_def by blast
qed

lemma records_roundtrip:
  assumes "foldE (write_record sigs n) (depth, out) (enumerate (length resolved) later) = Inr (depth', out')"
    and "sigs = resolved @ later" "\<forall>s\<in>set later. fset s \<subseteq> {..<n}"
    and "length depth = length sigs" "\<forall>d\<in>set (take (length resolved) depth). d < MAX_DELTA_CHAIN_DEPTH"
  shows "\<exists>bs. out' = out @ bs \<and> length depth' = length sigs \<and> (\<forall>d\<in>set depth'. d < MAX_DELTA_CHAIN_DEPTH) \<and>
    (\<forall>data off. at data off bs \<longrightarrow>
      foldE (read_record data n) (\<lparr>rd_signatures = resolved, rd_by_key = key_index resolved, rd_depth = take (length resolved) depth\<rparr>, off)
        [length resolved..<length sigs] =
      Inr (\<lparr>rd_signatures = sigs, rd_by_key = key_index sigs, rd_depth = depth'\<rparr>, off + length bs))"
  using assms
proof (induction later arbitrary: resolved depth out)
  case Nil
  then show ?case by simp
next
  case (Cons s later)
  let ?k = "length resolved"
  have e: "enumerate ?k (s # later) = (?k, s) # enumerate (Suc ?k) later" by simp
  obtain depth1 out1 where w: "write_record sigs n (depth, out) (?k, s) = Inr (depth1, out1)"
    and r: "foldE (write_record sigs n) (depth1, out1) (enumerate (Suc ?k) later) = Inr (depth', out')"
    using Cons.prems(1) unfolding e foldE.simps(2) by (auto elim: bindE_InrE)
  have s: "fset s \<subseteq> {..<n}" using Cons.prems(3) by simp
  from record_step[OF w Cons.prems(2) refl s Cons.prems(4,5) refl] obtain bs d where
      step: "out1 = out @ bs" "depth1 = depth[?k := d]" "d < MAX_DELTA_CHAIN_DEPTH"
      "\<And>data off. at data off bs \<Longrightarrow>
      read_record data n (\<lparr>rd_signatures = resolved, rd_by_key = key_index resolved, rd_depth = take ?k depth\<rparr>, off) ?k =
      Inr (\<lparr>rd_signatures = resolved @ [s], rd_by_key = key_index (resolved @ [s]), rd_depth = take ?k depth @ [d]\<rparr>, off + length bs)"
    by blast
  have lt: "?k < length depth" using Cons.prems(2,4) by simp
  have tk: "take (Suc ?k) depth1 = take ?k depth @ [d]"
    using lt by (simp add: step(2) take_Suc_conv_app_nth)
  have "\<exists>bs'. out' = out1 @ bs' \<and> length depth' = length sigs \<and> (\<forall>d\<in>set depth'. d < MAX_DELTA_CHAIN_DEPTH) \<and>
    (\<forall>data off. at data off bs' \<longrightarrow>
      foldE (read_record data n) (\<lparr>rd_signatures = resolved @ [s], rd_by_key = key_index (resolved @ [s]), rd_depth = take (length (resolved @ [s])) depth1\<rparr>, off)
        [length (resolved @ [s])..<length sigs] =
      Inr (\<lparr>rd_signatures = sigs, rd_by_key = key_index sigs, rd_depth = depth'\<rparr>, off + length bs'))"
  proof (rule Cons.IH)
    show "foldE (write_record sigs n) (depth1, out1) (enumerate (length (resolved @ [s])) later) = Inr (depth', out')" using r by simp
    show "sigs = (resolved @ [s]) @ later" "\<forall>s\<in>set later. fset s \<subseteq> {..<n}" using Cons.prems(2,3) by simp_all
    show "length depth1 = length sigs" using step(2) Cons.prems(4) by simp
    show "\<forall>d\<in>set (take (length (resolved @ [s])) depth1). d < MAX_DELTA_CHAIN_DEPTH"
      using tk step(3) Cons.prems(5) by simp
  qed
  then obtain bs' where bs': "out' = out1 @ bs'" "length depth' = length sigs" "\<forall>d\<in>set depth'. d < MAX_DELTA_CHAIN_DEPTH"
      "\<And>data off. at data off bs' \<Longrightarrow>
      foldE (read_record data n) (\<lparr>rd_signatures = resolved @ [s], rd_by_key = key_index (resolved @ [s]), rd_depth = take ?k depth @ [d]\<rparr>, off)
        [Suc ?k..<length sigs] = Inr (\<lparr>rd_signatures = sigs, rd_by_key = key_index sigs, rd_depth = depth'\<rparr>, off + length bs')"
    using tk by auto
  have up: "[?k..<length sigs] = ?k # [Suc ?k..<length sigs]"
    using Cons.prems(2) by (intro upt_conv_Cons) simp
  have "foldE (read_record data n) (\<lparr>rd_signatures = resolved, rd_by_key = key_index resolved, rd_depth = take ?k depth\<rparr>, off)
        [?k..<length sigs] = Inr (\<lparr>rd_signatures = sigs, rd_by_key = key_index sigs, rd_depth = depth'\<rparr>, off + length (bs @ bs'))"
    if a: "at data off (bs @ bs')" for data off
  proof -
    have a1: "at data off bs" and a2: "at data (off + length bs) bs'" using a by (simp_all add: at_append)
    show ?thesis unfolding up foldE.simps(2) step(4)[OF a1] bindE_Inr bs'(4)[OF a2] by (simp add: add.assoc)
  qed
  then show ?case using bs'(1-3) step(1) by (intro exI[of _ "bs @ bs'"]) simp
qed

lemma write_records_ok:
  assumes "\<forall>(i, b)\<in>set es. fset b \<subseteq> {..<n}"
  shows "is_ok (foldE (write_record sigs n) st es)"
  using assms
proof (induction es arbitrary: st)
  case (Cons e es)
  obtain i b where e: "e = (i, b)" by (cases e)
  obtain depth out where st: "st = (depth, out)" by (cases st)
  have "fset b \<subseteq> {..<n}" using Cons.prems by (simp add: e)
  then obtain bs where "encode_signature b n (choose_base sigs depth i) = Inr bs"
    using encode_signature_ok by blast
  then obtain st' where "write_record sigs n st e = Inr st'" by (simp add: write_record_def st e)
  with Cons show ?case by simp
qed simp

text \<open>What the reader has established after some records, whatever the bytes.\<close>

definition read_ok :: "nat \<Rightarrow> sig_reading \<times> nat \<Rightarrow> bool" where
  "read_ok k = (\<lambda>(r, off). length (rd_signatures r) = k \<and> length (rd_depth r) = k \<and>
     (\<forall>d\<in>set (rd_depth r). d < MAX_DELTA_CHAIN_DEPTH) \<and> rd_by_key r = key_index (rd_signatures r))"

lemma read_record_ok:
  assumes "read_ok k st" "read_record data n st k = Inr st'"
  shows "read_ok (Suc k) st'"
proof -
  obtain r off where st: "st = (r, off)" by (cases st)
  obtain bits o1 enc d where "(if enc = ENC_DELTA then
              bindE (decode_varint data (off + 1)) (\<lambda>(base_id, _).
                if k \<le> base_id then Inl SignatureFormatError
                else bindE (py_nth (rd_depth r) (int base_id)) (\<lambda>d.
                  if MAX_DELTA_CHAIN_DEPTH \<le> d + 1 then Inl SignatureFormatError else Inr (d + 1)))
            else Inr 0) = Inr d"
      and st': "st' = (\<lparr>rd_signatures = rd_signatures r @ [bits], rd_by_key = dict_setdefault bits k (rd_by_key r), rd_depth = rd_depth r @ [d]\<rparr>, o1)"
    using assms(2) unfolding read_record_def st split_conv Let_def by (auto elim!: bindE_InrE split: prod.splits)
  then have "d < MAX_DELTA_CHAIN_DEPTH"
    by (auto elim!: bindE_InrE simp: MAX_DELTA_CHAIN_DEPTH_def split: if_splits prod.splits)
  then show ?thesis using assms(1) by (simp add: read_ok_def st st' key_index_snoc)
qed

lemma read_records_ok:
  "foldE (read_record data n) (\<lparr>rd_signatures = [], rd_by_key = [], rd_depth = []\<rparr>, off) [0..<k] = Inr st \<Longrightarrow> read_ok k st"
proof (induction k arbitrary: st)
  case 0
  then show ?case by (auto simp: read_ok_def key_index_def)
next
  case (Suc k)
  obtain st1 where "foldE (read_record data n) (\<lparr>rd_signatures = [], rd_by_key = [], rd_depth = []\<rparr>, off) [0..<k] = Inr st1"
      "read_record data n st1 k = Inr st"
    using Suc.prems by (simp add: foldE_append) (auto elim!: bindE_InrE)
  with Suc.IH read_record_ok show ?case by blast
qed

text \<open>The tables the writer may be given: built by \<open>intern\<close> from a new one, over the table's runs.\<close>

definition sig_ok :: "SignatureTable \<Rightarrow> bool" where
  "sig_ok t \<longleftrightarrow> sg_by_key t = key_index (sg_signatures t) \<and> (\<forall>s\<in>set (sg_signatures t). fset s \<subseteq> {..<run_space t})"

lemma sig_reload:
  assumes ok: "sig_ok t" and ser: "sig_serialize t = Inr (t', bs)"
  shows "t' = t\<lparr>sg_depth := sg_depth t'\<rparr> \<and> sig_deserialize (bs @ rest) = Inr t' \<and>
    (\<forall>d\<in>set (sg_depth t'). d < MAX_DELTA_CHAIN_DEPTH)"
proof -
  let ?sigs = "sg_signatures t" and ?n = "run_space t"
  obtain m a r num runs depth recs where m: "to_bytes_le 4 MAGIC_SIGNATURES = Inr m" and a: "to_bytes_le 2 (sg_assoc_type t) = Inr a"
    and r: "to_bytes_le 4 (int ?n) = Inr r" and num: "num = varint_loop (length ?sigs)"
    and runs: "concatE encode_varint (sg_run_ids t) = Inr runs"
    and recs: "foldE (write_record ?sigs ?n) (replicate (length ?sigs) 0, []) (enumerate 0 ?sigs) = Inr (depth, recs)"
    and t': "t' = t\<lparr>sg_depth := depth\<rparr>" and bs: "bs = m @ [1] @ a @ r @ num @ runs @ recs"
    using ser unfolding sig_serialize_def Let_def encode_varint_nat
    by (auto elim!: bindE_InrE split: prod.splits)
  have w: "foldE (write_record ?sigs ?n) (replicate (length ?sigs) 0, []) (enumerate (length ([] :: nat fset list)) ?sigs) = Inr (depth, recs)"
    using recs by simp
  obtain rb where rb: "recs = rb" "\<forall>d\<in>set depth. d < MAX_DELTA_CHAIN_DEPTH"
      "\<And>data off. at data off rb \<Longrightarrow> foldE (read_record data ?n) (\<lparr>rd_signatures = [], rd_by_key = key_index [], rd_depth = []\<rparr>, off)
        [0..<length ?sigs] = Inr (\<lparr>rd_signatures = ?sigs, rd_by_key = key_index ?sigs, rd_depth = depth\<rparr>, off + length rb)"
    using records_roundtrip[OF w] ok by (auto simp: sig_ok_def)
  define D where "D = bs @ rest"
  have len: "length m = 4" "length a = 2" "length r = 4" using m a r by (auto simp: to_bytes_le_def split: if_splits)
  have "at D 0 bs" using at_intro[of "[]" bs rest] by (simp add: D_def)
  then have "at D 0 m \<and> at D 4 [1] \<and> at D 5 a \<and> at D 7 r \<and> at D 11 num \<and>
      at D (11 + length num) runs \<and> at D (11 + length num + length runs) rb"
    unfolding bs rb(1)[symmetric] by (simp add: at_append at_Cons len add.assoc)
  then have at: "at D 0 m" "at D 4 [1]" "at D 5 a" "at D 7 r" "at D 11 num"
      "at D (11 + length num) runs" "at D (11 + length num + length runs) rb" by blast+
  have runs': "runs = concat (map (varint_loop \<circ> nat) (sg_run_ids t))" and pos: "\<forall>i\<in>set (sg_run_ids t). 0 \<le> i"
    using encode_varints_eq_Inr[of "sg_run_ids t" runs] runs by (simp_all add: encode_varints_def)
  have ids: "repeat_dec decode_varint ?n D (11 + length num) = Inr (map nat (sg_run_ids t), 11 + length num + length runs)"
    using decode_varints_at[of D "11 + length num" "map nat (sg_run_ids t)"] at(6)
    by (simp add: decode_varints_def run_space_def runs' comp_def)
  have idsback: "map int (map nat (sg_run_ids t)) = sg_run_ids t" using pos by (simp add: map_idI)
  have v: "int (le_val m) = MAGIC_SIGNATURES" "int (le_val a) = sg_assoc_type t" "le_val r = ?n"
    using to_bytes_le_val[OF m] to_bytes_le_val[OF a] to_bytes_le_val[OF r] by simp_all
  have sl: "slice D 0 4 = m" "slice D 5 7 = a" "slice D 7 11 = r"
    using at_slice[OF at(1), of 4] at_slice[OF at(3), of 7] at_slice[OF at(4), of 11] len by simp_all
  have d4: "unat (D ! 4) = 1" using at(2) by (simp add: at_Cons)
  have l: "\<not> length D < 11" using at_le[OF at(5)] by simp
  have n: "decode_varint D 11 = Inr (length ?sigs, 11 + length num)"
    using decode_varint_at at(5) unfolding num by blast
  have ki: "key_index [] = []" by (simp add: key_index_def)
  have "sig_deserialize D = Inr (new_table (map int (map nat (sg_run_ids t))) (sg_assoc_type t)
      \<lparr>sg_signatures := ?sigs, sg_by_key := key_index ?sigs, sg_depth := depth\<rparr>)"
    unfolding sig_deserialize_def Let_def
    using l by (simp only: sl v d4 n ids if_False if_True bindE_Inr split_conv rb(3)[OF at(7), unfolded ki] simp_thms sig_reading.simps)
  then show ?thesis using rb(2) ok idsback unfolding t' D_def[symmetric] new_table_def sig_ok_def by (cases t) simp
qed

section \<open>Interning\<close>

lemma key_index_get_None: "dict_get (key_index sigs) b = None \<longleftrightarrow> b \<notin> set sigs"
  by (induction sigs rule: rev_induct) (auto simp: key_index_snoc dict_setdefault_def dict_get_set, auto simp: key_index_def)

lemma key_index_get:
  "distinct sigs \<Longrightarrow> dict_get (key_index sigs) b = Some i \<longleftrightarrow> i < length sigs \<and> sigs ! i = b"
proof (induction sigs arbitrary: b i rule: rev_induct)
  case Nil
  then show ?case by (simp add: key_index_def)
next
  case (snoc s sigs)
  have IH: "dict_get (key_index sigs) c = Some j \<longleftrightarrow> j < length sigs \<and> sigs ! j = c" for c j
    using snoc.IH[of c j] snoc.prems by simp
  have "s \<notin> set sigs" using snoc.prems by simp
  then have "dict_get (key_index sigs) s = None"
    by (simp add: key_index_get_None)
  then have ki: "key_index (sigs @ [s]) = dict_set s (length sigs) (key_index sigs)"
    by (simp add: key_index_snoc dict_setdefault_def)
  show ?case
  proof (cases "b = s")
    case True
    have "i < length sigs \<Longrightarrow> sigs ! i \<noteq> s" using \<open>s \<notin> set sigs\<close> nth_mem by blast
    then have "i < length (sigs @ [s]) \<and> (sigs @ [s]) ! i = s \<longleftrightarrow> i = length sigs"
      by (auto simp: nth_append)
    with True show ?thesis by (auto simp: ki dict_get_set)
  next
    case False
    have "i < length (sigs @ [s]) \<and> (sigs @ [s]) ! i = b \<longleftrightarrow> i < length sigs \<and> sigs ! i = b"
      using False by (auto simp: nth_append)
    with False IH[of b i] show ?thesis by (simp add: ki dict_get_set)
  qed
qed

definition sig_inv :: "SignatureTable \<Rightarrow> bool" where
  "sig_inv t \<longleftrightarrow> distinct (sg_signatures t) \<and> sg_by_key t = key_index (sg_signatures t) \<and>
     length (sg_depth t) = length (sg_signatures t)"

lemma intern_inv:
  assumes "sig_inv t"
  shows "sig_inv (fst (intern t b))"
    and "sg_signatures (fst (intern t b)) = (if b \<in> set (sg_signatures t) then sg_signatures t else sg_signatures t @ [b])"
    and "snd (intern t b) < length (sg_signatures (fst (intern t b)))
      \<and> sg_signatures (fst (intern t b)) ! snd (intern t b) = b"
proof -
  have d: "distinct (sg_signatures t)" and k: "sg_by_key t = key_index (sg_signatures t)" using assms by (simp_all add: sig_inv_def)
  note g = key_index_get[OF d, of b] key_index_get_None[of "sg_signatures t" b]
  have "sig_inv (fst (intern t b)) \<and>
    sg_signatures (fst (intern t b)) = (if b \<in> set (sg_signatures t) then sg_signatures t else sg_signatures t @ [b]) \<and>
    snd (intern t b) < length (sg_signatures (fst (intern t b))) \<and> sg_signatures (fst (intern t b)) ! snd (intern t b) = b"
  proof (cases "dict_get (sg_by_key t) b")
    case None
    then have "b \<notin> set (sg_signatures t)" using g(2) k by simp
    then show ?thesis using assms None by (simp add: intern_def sig_inv_def key_index_snoc dict_setdefault_def k)
  next
    case (Some i)
    then have i: "i < length (sg_signatures t)" "sg_signatures t ! i = b" using key_index_get[OF d] k by simp_all
    then have "b \<in> set (sg_signatures t)" using nth_mem by blast
    then show ?thesis using assms Some i by (simp add: intern_def)
  qed
  then show "sig_inv (fst (intern t b))" "sg_signatures (fst (intern t b)) = (if b \<in> set (sg_signatures t) then sg_signatures t else sg_signatures t @ [b])"
      "snd (intern t b) < length (sg_signatures (fst (intern t b))) \<and> sg_signatures (fst (intern t b)) ! snd (intern t b) = b"
    by blast+
qed

lemma sig_inv_distinct: "sig_inv t \<Longrightarrow> distinct (sg_signatures t)"
  by (simp add: sig_inv_def)

interpretation sigs: interning intern sg_signatures sig_inv
  by unfold_locales (fact intern_inv(1) intern_inv(2) intern_inv(3) sig_inv_distinct)+

text \<open>Which runs a signature names, asked either way.\<close>

lemma position_of_zip: "distinct (sg_run_ids t) \<Longrightarrow> position_of t = zip (sg_run_ids t) [0..<length (sg_run_ids t)]"
proof -
  have "distinct ids \<Longrightarrow> foldl (\<lambda>d (position, run_id). dict_set run_id position d) [] (enumerate 0 ids) = zip ids [0..<length ids]"
    for ids :: "int list"
  proof (induction ids rule: rev_induct)
    case (snoc i ids)
    have "map fst (zip ids [0..<length ids]) = ids" by simp
    then have "i \<notin> set (map fst (zip ids [0..<length ids]))" using snoc.prems by simp
    then have "dict_set i (length ids) (zip ids [0..<length ids]) = zip ids [0..<length ids] @ [(i, length ids)]"
      by (rule update_notin)
    with snoc show ?case by (simp add: enumerate_append_eq)
  qed simp
  then show "distinct (sg_run_ids t) \<Longrightarrow> position_of t = zip (sg_run_ids t) [0..<length (sg_run_ids t)]"
    by (simp add: position_of_def)
qed

lemma contains_run_iff:
  assumes "sig_ok t" "distinct (sg_run_ids t)" "i < length (sg_signatures t)"
  shows "\<exists>rs. runs_of t (int i) = Inr rs \<and> contains_run t (int i) r = Inr (r \<in> set rs) \<and> cardinality t (int i) = Inr (length rs)"
proof -
  let ?s = "sg_signatures t ! i" and ?ids = "sg_run_ids t"
  have g: "py_nth (sg_signatures t) (int i) = Inr ?s" using assms(3) by (simp add: py_nth_def)
  have sub: "fset ?s \<subseteq> {..<length ?ids}" using assms(1,3) by (simp add: sig_ok_def run_space_def)
  have "mapE (\<lambda>p. py_nth ?ids (int p)) (sorted_list_of_fset ?s) = Inr (map (\<lambda>p. ?ids ! p) (sorted_list_of_fset ?s))"
    using sub by (intro mapE_Inr) (auto simp: py_nth_def)
  then have rs: "runs_of t (int i) = Inr (map (\<lambda>p. ?ids ! p) (sorted_list_of_fset ?s))" by (simp add: runs_of_def g)
  have "contains_run t (int i) r = Inr (r \<in> (\<lambda>p. ?ids ! p) ` fset ?s)"
  proof (cases "dict_get (position_of t) r")
    case None
    then have "r \<notin> set ?ids" using map_of_zip_upt_None[of ?ids r] position_of_zip[OF assms(2)] by simp
    moreover have "(\<lambda>p. ?ids ! p) ` fset ?s \<subseteq> set ?ids" using sub by auto
    ultimately show ?thesis using None by (auto simp: contains_run_def)
  next
    case (Some p)
    then have p: "p < length ?ids" "?ids ! p = r" using map_of_zip_upt_Some[OF assms(2), of r p] position_of_zip[OF assms(2)] by simp_all
    have "p \<in> fset ?s \<longleftrightarrow> r \<in> (\<lambda>p. ?ids ! p) ` fset ?s"
    proof
      assume "r \<in> (\<lambda>p. ?ids ! p) ` fset ?s"
      then obtain q where q: "q \<in> fset ?s" "r = ?ids ! q" by blast
      then have "q = p" using sub p nth_eq_iff_index_eq[OF assms(2), of q p] by auto
      with q show "p \<in> fset ?s" by simp
    qed (use p in blast)
    then show ?thesis using Some by (simp add: contains_run_def g)
  qed
  then show ?thesis using rs by (simp add: cardinality_def g)
qed

section \<open>The bin index\<close>

fun rle_from :: "nat option \<Rightarrow> nat \<Rightarrow> nat list \<Rightarrow> (nat \<times> nat) list" where
  "rle_from run_value run_length [] = (case run_value of None \<Rightarrow> [] | Some v \<Rightarrow> [(v, run_length)])"
| "rle_from run_value run_length (sig_id # ids) =
     (if run_value = Some sig_id then rle_from run_value (run_length + 1) ids
      else (case run_value of None \<Rightarrow> [] | Some v \<Rightarrow> [(v, run_length)]) @ rle_from (Some sig_id) 1 ids)"

definition rle_pairs :: "nat list \<Rightarrow> (nat \<times> nat) list" where
  "rle_pairs sig_ids = rle_from None 0 sig_ids"

definition encode_bin_signatures :: "nat list \<Rightarrow> int \<Rightarrow> bytes res" where
  "encode_bin_signatures sig_ids schema_fingerprint =
     bindE (encode_varints (map int sig_ids)) (\<lambda>flat.
     bindE (concatE (\<lambda>(value, len). bindE (encode_varint (int value)) (\<lambda>a. bindE (encode_varint (int len)) (\<lambda>b. Inr (a @ b))))
              (rle_pairs sig_ids)) (\<lambda>rle.
     let (encoding, payload) = (if length rle < length flat then (IDX_RLE, rle) else (IDX_VARINT, flat)) in
     bindE (to_bytes_le 4 MAGIC_BIN_SIG) (\<lambda>magic.
     bindE (to_bytes_le 8 schema_fingerprint) (\<lambda>fp.
     bindE (encode_varint (int (length sig_ids))) (\<lambda>n.
       Inr (magic @ [1] @ fp @ n @ [of_nat encoding] @ payload))))))"

lemma decode_varint_progress: "decode_varint data off = Inr (v, off') \<Longrightarrow> off < off' \<and> off' \<le> length data"
proof -
  have "decode_varint_loop data r k off = Inr (v, off') \<Longrightarrow> off < off' \<and> off' \<le> length data" for r k
  proof (induction data r k off rule: decode_varint_loop.induct)
    case (1 buf r k off)
    from 1(2) show ?case
      by (subst (asm) decode_varint_loop.simps) (use 1(1) in \<open>auto split: if_splits dest: Suc_lessD\<close>)
  qed
  then show "decode_varint data off = Inr (v, off') \<Longrightarrow> off < off' \<and> off' \<le> length data"
    unfolding decode_varint_def .
qed

text \<open>\<open>while len(sig_ids) < num_bins\<close>: every turn consumes at least two bytes, so it ends.\<close>

function read_rle :: "bytes \<Rightarrow> nat \<Rightarrow> nat \<Rightarrow> nat list \<Rightarrow> (nat list \<times> nat) res" where
  "read_rle data num_bins offset sig_ids =
     (if num_bins \<le> length sig_ids then Inr (sig_ids, offset)
      else bindE (decode_varint data offset) (\<lambda>(value, offset1).
           bindE (decode_varint data offset1) (\<lambda>(len, offset2).
             read_rle data num_bins offset2 (sig_ids @ replicate len value))))"
  by pat_completeness auto
termination
  by (relation "measure (\<lambda>(data, _, offset, _). length data - offset)") (auto dest!: decode_varint_progress)

declare read_rle.simps [simp del]

definition decode_bin_signatures :: "bytes \<Rightarrow> int option \<Rightarrow> (nat list \<times> int) res" where
  "decode_bin_signatures data expected_fingerprint =
     (if length data < 14 then Inl SignatureFormatError
      else if int (le_val (slice data 0 4)) \<noteq> MAGIC_BIN_SIG then Inl SignatureFormatError
      else if unat (data ! 4) \<noteq> 1 then Inl SignatureFormatError
      else
        let fingerprint = int (le_val (slice data 5 13)) in
        if (case expected_fingerprint of None \<Rightarrow> False
            | Some expected \<Rightarrow> fingerprint = 0 \<or> expected = 0 \<or> fingerprint \<noteq> expected)
        then Inl SignatureFormatError
        else
          bindE (decode_varint data 13) (\<lambda>(num_bins, offset).
          bindE (byte_at data offset) (\<lambda>encoding.
          bindE (if encoding = IDX_VARINT then decode_varints data num_bins (offset + 1)
                 else if encoding = IDX_RLE then read_rle data num_bins (offset + 1) []
                 else Inl SignatureFormatError) (\<lambda>(sig_ids, _).
            if length sig_ids \<noteq> num_bins then Inl SignatureFormatError else Inr (sig_ids, fingerprint)))))"

lemma rle_from_expand:
  "concat (map (\<lambda>(v, l). replicate l v) (rle_from rv n ids)) = (case rv of None \<Rightarrow> [] | Some v \<Rightarrow> replicate n v) @ ids"
proof (induction rv n ids rule: rle_from.induct)
  case (2 rv n x ids)
  show ?case
  proof (cases "rv = Some x")
    case True
    with 2(1) show ?thesis by (simp add: replicate_append_same flip: replicate_Suc)
  next
    case False
    with 2(2) show ?thesis by (cases rv) simp_all
  qed
qed (simp split: option.split)

lemma rle_from_pos: "(rv \<noteq> None \<Longrightarrow> 0 < n) \<Longrightarrow> \<forall>(v, l)\<in>set (rle_from rv n ids). 0 < l"
  by (induction rv n ids rule: rle_from.induct) (auto split: option.splits)

lemma read_rle_pairs:
  assumes "\<forall>(v, l)\<in>set ps. 0 < l"
    and "concatE (\<lambda>(value, len). bindE (encode_varint (int value)) (\<lambda>a. bindE (encode_varint (int len)) (\<lambda>b. Inr (a @ b)))) ps = Inr bs"
    and "at data off bs"
  shows "read_rle data (length acc + length (concat (map (\<lambda>(v, l). replicate l v) ps))) off acc =
    Inr (acc @ concat (map (\<lambda>(v, l). replicate l v) ps), off + length bs)"
  using assms
proof (induction ps arbitrary: acc off bs)
  case Nil
  then show ?case by (simp add: read_rle.simps)
next
  case (Cons p ps)
  obtain v l where p: "p = (v, l)" by (cases p)
  obtain r where r: "concatE (\<lambda>(value, len). bindE (encode_varint (int value)) (\<lambda>a. bindE (encode_varint (int len)) (\<lambda>b. Inr (a @ b)))) ps = Inr r"
      and bs: "bs = varint_loop v @ varint_loop l @ r"
    using Cons.prems(2) by (auto simp: p bindE_eq_Inr)
  let ?o1 = "off + length (varint_loop v)"
  let ?o2 = "?o1 + length (varint_loop l)"
  have a: "at data off (varint_loop v)" "at data ?o1 (varint_loop l)" "at data ?o2 r"
    using Cons.prems(3) by (simp_all add: bs at_append)
  have l: "0 < l" using Cons.prems(1) by (simp add: p)
  have pos: "\<forall>(v, l)\<in>set ps. 0 < l" using Cons.prems(1) by simp
  let ?rest = "concat (map (\<lambda>(v, l). replicate l v) ps)"
  from Cons.IH[OF pos r a(3), of "acc @ replicate l v"]
  have "read_rle data (length acc + l + length ?rest) ?o2 (acc @ replicate l v) = Inr (acc @ replicate l v @ ?rest, ?o2 + length r)"
    by simp
  then show ?case
    using l decode_varint_at[OF a(1)] decode_varint_at[OF a(2)]
    by (subst read_rle.simps) (simp add: p bs add.assoc)
qed

lemma sig_ok_intern: "sig_ok t \<Longrightarrow> fset b \<subseteq> {..<run_space t} \<Longrightarrow> sig_ok (fst (intern t b)) \<and> sg_run_ids (fst (intern t b)) = sg_run_ids t"
  using key_index_get_None[of "sg_signatures t" b]
  by (cases "dict_get (sg_by_key t) b")
    (auto simp: intern_def sig_ok_def key_index_snoc dict_setdefault_def run_space_def simp del: map_of_eq_None_iff)

lemma sig_ok_interns:
  "sig_ok t \<Longrightarrow> \<forall>b\<in>set bs. fset b \<subseteq> {..<run_space t} \<Longrightarrow>
   sig_ok (foldl (\<lambda>t b. fst (intern t b)) t bs) \<and> sg_run_ids (foldl (\<lambda>t b. fst (intern t b)) t bs) = sg_run_ids t"
proof (induction bs arbitrary: t)
  case (Cons b bs)
  then show ?case using sig_ok_intern[of t b] by (auto simp: run_space_def)
qed simp

lemma sig_ok_new: "sig_ok (new_table ids a)"
  by (simp add: sig_ok_def new_table_def run_space_def fset_range_set)

section \<open>Properties\<close>

text \<open>
  C26 (roundtrip). A signature over the run space is read back exactly whichever of the encodings was
  chosen, a difference record against the base it was written with; and what is written is never longer
  than the bitmap, nor than the list of positions, with the encoding byte.
\<close>

theorem signature_roundtrip:
  assumes "encode_signature bits n base = Inr bs" "fset bits \<subseteq> {..<n}" "at data off bs"
    and "case base of None \<Rightarrow> True | Some (b, i) \<Rightarrow> i < length resolved \<and> resolved ! i = b"
  shows "decode_signature data off n resolved = Inr (bits, off + length bs) \<and>
    length bs \<le> 1 + bitmap_bytes n \<and> (\<exists>ar. array_payload bits = Inr ar \<and> length bs \<le> 1 + length ar)"
  using signature_decode[OF assms(1,2) _ assms(3), of resolved] assms(4) encode_signature_size[OF assms(1,2)]
  by (auto split: option.splits)

lemma signature_roundtrip_witness:
  "\<exists>bs. encode_signature {|1, 9|} 12 (Some ({|1|}, 5)) = Inr bs \<and>
     decode_signature (bs @ [7]) 0 12 [{||}, {||}, {||}, {||}, {||}, {|1|}] = Inr ({|1, 9|}, length bs)"
proof -
  have "fset {|1, 9|} \<subseteq> {..<12 :: nat}" by simp
  moreover from this obtain bs where bs: "encode_signature {|1, 9|} 12 (Some ({|1|}, 5)) = Inr bs"
    using encode_signature_ok by blast
  ultimately show ?thesis
    using signature_roundtrip[OF bs, of "bs @ [7]" 0 "[{||}, {||}, {||}, {||}, {||}, {|1|}]"] at_intro[of "[]" bs "[7]"] bs by auto
qed

lemma sig_serialize_ok:
  assumes "sig_ok t" "\<forall>i\<in>set (sg_run_ids t). 0 \<le> i" "0 \<le> sg_assoc_type t" "sg_assoc_type t < 256 ^ 2" "run_space t < 256 ^ 4"
  shows "\<exists>t' bs. sig_serialize t = Inr (t', bs)"
proof -
  let ?n = "length (sg_signatures t)"
  have "is_ok (foldE (write_record (sg_signatures t) (run_space t)) (replicate ?n 0, []) (enumerate 0 (sg_signatures t)))"
  proof (rule write_records_ok, rule ballI)
    fix e assume "e \<in> set (enumerate 0 (sg_signatures t))"
    then have "snd e \<in> set (map snd (enumerate 0 (sg_signatures t)))" by (simp only: set_map) (rule imageI)
    then have "snd e \<in> set (sg_signatures t)" by (simp only: map_snd_enumerate)
    then show "case e of (i, b) \<Rightarrow> fset b \<subseteq> {..<run_space t}" using assms(1) by (auto simp: sig_ok_def split: prod.split)
  qed
  then obtain depth out where r: "foldE (write_record (sg_signatures t) (run_space t)) (replicate ?n 0, []) (enumerate 0 (sg_signatures t)) = Inr (depth, out)"
    by (auto elim!: is_okE)
  have "is_ok (concatE encode_varint (sg_run_ids t))" using assms(2) by (simp add: concatE_ok encode_varint_ok)
  then obtain runs where "concatE encode_varint (sg_run_ids t) = Inr runs" by (auto elim!: is_okE)
  moreover have "\<exists>m. to_bytes_le 4 MAGIC_SIGNATURES = Inr m" by (simp add: to_bytes_le_def MAGIC_SIGNATURES_def)
  moreover have "\<exists>m. to_bytes_le 2 (sg_assoc_type t) = Inr m" using assms(3,4) by (simp add: to_bytes_le_def)
  moreover have "\<exists>m. to_bytes_le 4 (int (run_space t)) = Inr m" using assms(5) by (simp add: to_bytes_le_def)
  ultimately show ?thesis using r by (auto simp: sig_serialize_def)
qed

text \<open>
  The dictionary member can be written for every table built by interning sets of its
  runs into a new one whose header fields fit, and is read back as the table it was written from: the
  same run space, signatures under the same ids and the same lookup; and no chain of difference records
  the writer makes reaches the cap the reader enforces.
\<close>

theorem signature_table_roundtrip:
  assumes "\<forall>b\<in>set bits. fset b \<subseteq> {..<length run_ids}"
    and "\<forall>i\<in>set run_ids. 0 \<le> i" "0 \<le> assoc_type" "assoc_type < 256 ^ 2" "length run_ids < 256 ^ 4"
    and "t = foldl (\<lambda>t b. fst (intern t b)) (new_table run_ids assoc_type) bits"
  shows "\<exists>t' bs. sig_serialize t = Inr (t', bs) \<and> sig_deserialize (bs @ rest) = Inr t' \<and>
    t' = t\<lparr>sg_depth := sg_depth t'\<rparr> \<and> (\<forall>d\<in>set (sg_depth t'). d < MAX_DELTA_CHAIN_DEPTH)"
proof -
  let ?new = "new_table run_ids assoc_type"
  have new: "run_space ?new = length run_ids" "sg_run_ids ?new = run_ids" "sg_assoc_type ?new = assoc_type"
    by (simp_all add: new_table_def run_space_def)
  have ok: "sig_ok t" "sg_run_ids t = run_ids"
    using sig_ok_interns[OF sig_ok_new, of bits run_ids assoc_type] assms(1,6) new by simp_all
  have "sg_assoc_type t = assoc_type" unfolding assms(6)
    using new(3) by (induction bits rule: rev_induct) (auto simp: intern_def split: option.split)
  then obtain t' bs where "sig_serialize t = Inr (t', bs)"
    using sig_serialize_ok[OF ok(1)] assms(2-5) ok(2) by (auto simp: run_space_def)
  with sig_reload[OF ok(1) this, of rest] show ?thesis by blast
qed

lemma signature_table_roundtrip_witness:
  "\<exists>t' bs. sig_serialize (foldl (\<lambda>t b. fst (intern t b)) (new_table [7, 8, 12] 1) [{|0|}, {|0, 1|}]) = Inr (t', bs) \<and>
     sig_deserialize bs = Inr t' \<and> sg_run_ids t' = [7, 8, 12]"
proof -
  define t where "t = foldl (\<lambda>t b. fst (intern t b)) (new_table [7, 8, 12] 1) [{|0|}, {|0, 1|}]"
  have sub: "\<forall>b\<in>set [{|0|}, {|0, 1|}]. fset b \<subseteq> {..<length [7, 8, 12 :: int]}" by auto
  have ids: "sg_run_ids t = [7, 8, 12]" by (simp add: t_def new_table_def intern_def split: option.split)
  from signature_table_roundtrip[OF sub _ _ _ _ t_def, of "[]"] obtain t' bs where
      "sig_serialize t = Inr (t', bs)" "sig_deserialize bs = Inr t'" "t' = t\<lparr>sg_depth := sg_depth t'\<rparr>" by auto
  then show ?thesis using ids unfolding t_def[symmetric]
    by (metis SignatureTable.select_convs(1) SignatureTable.surjective SignatureTable.update_convs(5))
qed

text \<open>
  Whatever bytes it is given, a dictionary the reader accepts has no chain of difference
  records at or past the cap, one depth per signature, and the lookup that finds the first signature of
  each value: a hostile member can be refused but cannot make a reader follow a long chain.
\<close>

theorem signature_reader_bounded:
  assumes "sig_deserialize data = Inr t"
  shows "(\<forall>d\<in>set (sg_depth t). d < MAX_DELTA_CHAIN_DEPTH) \<and> length (sg_depth t) = length (sg_signatures t) \<and>
    sg_by_key t = key_index (sg_signatures t)"
proof -
  obtain num space off r off' where run: "foldE (read_record data space) (\<lparr>rd_signatures = [], rd_by_key = [], rd_depth = []\<rparr>, off) [0..<num] = Inr (r, off')"
      and t: "sg_signatures t = rd_signatures r" "sg_by_key t = rd_by_key r" "sg_depth t = rd_depth r"
    using assms unfolding sig_deserialize_def Let_def
    by (auto elim!: bindE_InrE split: if_splits prod.splits)
  have "read_ok num (r, off')" using read_records_ok[OF run] by simp
  then show ?thesis by (simp add: read_ok_def t)
qed

lemma signature_reader_bounded_witness:
  "\<exists>data t. sig_deserialize data = Inr t \<and> sg_signatures t = [{||}, range_set 1] \<and> length (sg_depth t) = 2"
proof -
  obtain t' bs where ser: "sig_serialize (new_table [3] 1) = Inr (t', bs)"
    using sig_serialize_ok[OF sig_ok_new, of "[3]" 1] by (auto simp: new_table_def run_space_def)
  from sig_reload[OF sig_ok_new this, of "[]"] have r: "sig_deserialize bs = Inr t'" "t' = (new_table [3] 1)\<lparr>sg_depth := sg_depth t'\<rparr>" by simp_all
  have "sg_signatures ((new_table [3] 1)\<lparr>sg_depth := d\<rparr>) = [{||}, range_set 1]" for d by (simp add: new_table_def)
  then have "sg_signatures t' = [{||}, range_set 1]" using r(2) by metis
  then show ?thesis using r(1) signature_reader_bounded[OF r(1)] by (intro exI[of _ bs] exI[of _ t']) simp
qed

text \<open>
  In the dictionary over a non-empty run space, after any sequence of \<open>intern\<close> calls:
  an id once handed out always leads to the same set, equal sets share an id and different sets do not,
  and 0 and 1 are the ids of the empty and the full set.
\<close>

theorem signature_ids_stable:
  assumes "run_ids \<noteq> []"
    and "t = foldl (\<lambda>t b. fst (intern t b)) (new_table run_ids assoc_type) before"
    and "u = foldl (\<lambda>t b. fst (intern t b)) (fst (intern t a)) after"
  shows "sg_signatures u ! snd (intern t a) = a \<and> snd (intern u a) = snd (intern t a) \<and>
    (snd (intern u b) = snd (intern t a) \<longleftrightarrow> b = a) \<and>
    snd (intern u {||}) = 0 \<and> snd (intern u (range_set (length run_ids))) = 1"
proof -
  let ?n = "new_table run_ids assoc_type"
  have ne: "{||} \<noteq> range_set (length run_ids)"
    using assms(1) by (auto simp: fset_inject[symmetric] fset_range_set)
  have n: "sig_inv ?n" using ne by (simp add: sig_inv_def new_table_def)
  have sn: "sg_signatures ?n = [{||}, range_set (length run_ids)]" by (simp add: new_table_def)
  have t: "t = sigs.add_all ?n before" and u: "u = sigs.add_all (fst (intern t a)) after"
    by (simp_all add: assms(2,3) sigs.add_all_def)
  have it: "sig_inv t" unfolding t by (rule sigs.inv_add_all[OF n])
  have ia: "sig_inv (fst (intern t a))" by (rule sigs.inv_add[OF it])
  have iu: "sig_inv u" unfolding u by (rule sigs.inv_add_all[OF ia])
  have ida: "snd (intern t a) < length (sg_signatures (fst (intern t a)))" "sg_signatures (fst (intern t a)) ! snd (intern t a) = a"
    using sigs.idx_add[OF it, of a] by simp_all
  obtain ys where ys: "sg_signatures u = sg_signatures (fst (intern t a)) @ ys" using sigs.add_all_prefix[OF ia] u by blast
  have back_a: "sg_signatures u ! snd (intern t a) = a" "snd (intern t a) < length (sg_signatures u)"
    using ida by (simp_all add: ys nth_append)
  have idu: "snd (intern u a) = snd (intern t a)" by (rule sigs.add_known[OF iu back_a(2,1)])
  have inj: "snd (intern u b) = snd (intern t a) \<longleftrightarrow> b = a"
    using sigs.idx_add[OF iu, of b] sigs.add_stable[OF iu back_a(2), of b] back_a(1) idu by metis
  obtain zs where zs: "sg_signatures t = sg_signatures ?n @ zs" using sigs.add_all_prefix[OF n] t by blast
  obtain ws where ws: "sg_signatures (fst (intern t a)) = sg_signatures t @ ws" using sigs.add_prefix[OF it] by blast
  have "sg_signatures u = [{||}, range_set (length run_ids)] @ zs @ ws @ ys" by (simp add: ys ws zs sn)
  then have "snd (intern u {||}) = 0" "snd (intern u (range_set (length run_ids))) = 1"
    by (intro sigs.add_known[OF iu]; simp)+
  with back_a(1) idu inj show ?thesis by blast
qed

lemma signature_ids_stable_witness:
  "snd (intern (foldl (\<lambda>t b. fst (intern t b)) (fst (intern (foldl (\<lambda>t b. fst (intern t b)) (new_table [7, 8] 1) [{|0|}]) {|1|})) [{|0|}]) {||}) = 0"
  using signature_ids_stable[of "[7, 8]" _ 1 "[{|0|}]" _ "{|1|}" "[{|0|}]", OF _ refl refl] by blast

text \<open>
  The bin index is read back exactly, plain or run-length encoded, whenever the caller
  does not ask for a fingerprint or asks for the one it was written with; it is refused when the
  fingerprints differ or either is the unknown fingerprint 0.
\<close>

theorem bin_signatures_roundtrip:
  assumes "encode_bin_signatures ids fp = Inr bs"
  shows "decode_bin_signatures (bs @ rest) expected =
    (case expected of
       None \<Rightarrow> Inr (ids, fp)
     | Some f \<Rightarrow> if f = fp \<and> fp \<noteq> 0 then Inr (ids, fp) else Inl SignatureFormatError)"
proof -
  let ?w = "\<lambda>(value, len). bindE (encode_varint (int value)) (\<lambda>a. bindE (encode_varint (int len)) (\<lambda>b. Inr (a @ b)))"
  obtain flat rle m f enc p where flat: "encode_varints (map int ids) = Inr flat" and rle: "concatE ?w (rle_pairs ids) = Inr rle"
    and ep: "(enc, p) = (if length rle < length flat then (IDX_RLE, rle) else (IDX_VARINT, flat))"
    and m: "to_bytes_le 4 MAGIC_BIN_SIG = Inr m" and f: "to_bytes_le 8 fp = Inr f"
    and bs: "bs = m @ [1] @ f @ varint_loop (length ids) @ [of_nat enc] @ p"
    using assms unfolding encode_bin_signatures_def Let_def encode_varint_nat
    by (auto elim!: bindE_InrE split: prod.splits)
  define D where "D = bs @ rest"
  let ?o = "13 + length (varint_loop (length ids))"
  have len: "length m = 4" "length f = 8" using m f by (auto simp: to_bytes_le_def split: if_splits)
  have "at D 0 bs" using at_intro[of "[]" bs rest] by (simp add: D_def)
  then have "at D 0 m \<and> at D 4 [1] \<and> at D 5 f \<and> at D 13 (varint_loop (length ids)) \<and> at D ?o [of_nat enc] \<and> at D (?o + 1) p"
    unfolding bs by (simp add: at_append at_Cons len add.assoc)
  then have a: "at D 0 m" "at D 4 [1]" "at D 5 f" "at D 13 (varint_loop (length ids))" "at D ?o [of_nat enc]" "at D (?o + 1) p" by blast+
  have sl: "slice D 0 4 = m" "slice D 5 13 = f" using at_slice[OF a(1), of 4] at_slice[OF a(3), of 13] len by simp_all
  have v: "int (le_val m) = MAGIC_BIN_SIG" "int (le_val f) = fp" using to_bytes_le_val[OF m] to_bytes_le_val[OF f] by simp_all
  have d4: "unat (D ! 4) = 1" using a(2) by (simp add: at_Cons)
  have l: "(length D < 14) = False" using at_le[OF a(5)] varint_loop_length[of "length ids"] by simp
  have n: "decode_varint D 13 = Inr (length ids, ?o)" using decode_varint_at[OF a(4)] by simp
  have en: "enc = IDX_RLE \<or> enc = IDX_VARINT" using ep by (auto split: if_splits)
  have e: "byte_at D ?o = Inr enc"
    using at_byte_at[OF a(5)] en by (auto simp: IDX_RLE_def IDX_VARINT_def)
  have body: "\<exists>o2. (if enc = IDX_VARINT then decode_varints D (length ids) (?o + 1)
                 else if enc = IDX_RLE then read_rle D (length ids) (?o + 1) [] else Inl SignatureFormatError) = Inr (ids, o2)"
  proof (cases "length rle < length flat")
    case True
    have pos: "\<forall>(v, l)\<in>set (rle_pairs ids). 0 < l" unfolding rle_pairs_def by (rule rle_from_pos) simp
    have ex: "concat (map (\<lambda>(v, l). replicate l v) (rle_pairs ids)) = ids" by (simp add: rle_pairs_def rle_from_expand)
    have "p = rle" "enc = IDX_RLE" using ep True by simp_all
    with read_rle_pairs[OF pos rle, of D "?o + 1" "[]"] a(6) show ?thesis by (simp add: ex IDX_RLE_def IDX_VARINT_def)
  next
    case False
    then have "p = concat (map varint_loop ids)" "enc = IDX_VARINT" using ep flat by (simp_all add: encode_varints_nat)
    with decode_varints_at[of D "?o + 1" ids] a(6) show ?thesis by simp
  qed
  then obtain o2 where b: "(if enc = IDX_VARINT then decode_varints D (length ids) (?o + 1)
                 else if enc = IDX_RLE then read_rle D (length ids) (?o + 1) [] else Inl SignatureFormatError) = Inr (ids, o2)" ..
  have "decode_bin_signatures D expected =
    (if (case expected of None \<Rightarrow> False | Some e \<Rightarrow> fp = 0 \<or> e = 0 \<or> fp \<noteq> e) then Inl SignatureFormatError else Inr (ids, fp))"
    unfolding decode_bin_signatures_def Let_def l sl v d4 n bindE_Inr split_conv e b by simp
  then show ?thesis unfolding D_def by (auto split: option.splits)
qed

lemma bin_signatures_roundtrip_witness:
  "\<exists>bs. encode_bin_signatures [2, 2, 2, 300] 99 = Inr bs \<and> decode_bin_signatures (bs @ [1]) (Some 99) = Inr ([2, 2, 2, 300], 99) \<and>
     decode_bin_signatures (bs @ [1]) (Some 98) = Inl SignatureFormatError"
proof -
  have "is_ok (encode_bin_signatures [2, 2, 2, 300] 99)"
    by (simp add: encode_bin_signatures_def encode_varints_def rle_pairs_def to_bytes_le_def MAGIC_BIN_SIG_def encode_varint_def split: prod.split)
  then obtain bs where "encode_bin_signatures [2, 2, 2, 300] 99 = Inr bs" by (auto elim!: is_okE)
  with bin_signatures_roundtrip[OF this, of "[1]"] show ?thesis by (intro exI[of _ bs]) simp
qed

end
