(* ===== verification/HistoryMerge.thy ===== *)
theory HistoryMerge
  imports TestRegistry HistoryTables HistoryBuckets Multirun
begin

text \<open>
  \<open>_merge_v2_history\<close> of \<open>ncdb/ncdb_merger.py\<close>: the binary run histories of several archives merged
  into one. Test names and seeds are unioned in one registry and every id of a source is remapped to
  the id its string has there; run ids are shifted into disjoint ranges; bucket files are decoded,
  remapped and sealed again; the contribution indices and squash logs are combined. Compression is
  \<open>zlib\<close>'s and \<open>lzma\<close>'s: the functions take it as a pair of parameters. The statistics table, whose
  scores are floating point, is not modelled.
\<close>

section \<open>Source states\<close>

record v2_state =
  vs_registry :: TestRegistry
  vs_bucket_index :: "BucketIndexEntry list"
  vs_buckets :: "(int \<times> bytes) list"
  vs_contrib_index :: ContribIndex
  vs_squash_log :: "SquashLogEntry list"

definition MEMBER_TEST_REGISTRY :: pystr where "MEMBER_TEST_REGISTRY = lit ''test_registry.bin''"
definition MEMBER_BUCKET_INDEX :: pystr where "MEMBER_BUCKET_INDEX = lit ''history/bucket_index.bin''"
definition MEMBER_CONTRIB_INDEX :: pystr where "MEMBER_CONTRIB_INDEX = lit ''contrib_index.bin''"
definition HISTORY_BUCKET_DIR :: pystr where "HISTORY_BUCKET_DIR = lit ''history/''"

definition empty_v2_state :: v2_state where
  "empty_v2_state = \<lparr>vs_registry = new_registry 0, vs_bucket_index = [], vs_buckets = [],
     vs_contrib_index = new_contrib_index POLICY_PASS_ONLY 0, vs_squash_log = []\<rparr>"

definition read_or :: "(pystr \<times> bytes) list \<Rightarrow> pystr \<Rightarrow> (bytes \<Rightarrow> 'a res) \<Rightarrow> 'a \<Rightarrow> 'a res" where
  "read_or members name parse fallback =
     (case dict_get members name of None \<Rightarrow> Inr fallback | Some data \<Rightarrow> if data = [] then Inr fallback else parse data)"

definition bucket_member_seq :: "pystr \<Rightarrow> int option" where
  "bucket_member_seq n =
     (if startswith n HISTORY_BUCKET_DIR \<and> endswith n (lit ''.bin'') \<and> n \<noteq> MEMBER_BUCKET_INDEX
      then (case py_int (split_head 46 (str_from (length HISTORY_BUCKET_DIR) n)) of Inl _ \<Rightarrow> None | Inr seq \<Rightarrow> Some seq)
      else None)"

definition read_v2_state :: "(pystr \<times> bytes) list \<Rightarrow> v2_state res" where
  "read_v2_state members =
     bindE (read_or members MEMBER_TEST_REGISTRY reg_deserialize (new_registry 0)) (\<lambda>reg.
     bindE (read_or members MEMBER_BUCKET_INDEX bidx_deserialize []) (\<lambda>bidx.
     bindE (read_or members MEMBER_CONTRIB_INDEX cidx_deserialize (new_contrib_index POLICY_PASS_ONLY 0)) (\<lambda>cidx.
     bindE (read_or members MEMBER_SQUASH_LOG sqlg_deserialize []) (\<lambda>slog.
       Inr \<lparr>vs_registry = reg, vs_bucket_index = bidx,
            vs_buckets = foldl (\<lambda>d (n, data). case bucket_member_seq n of None \<Rightarrow> d | Some seq \<Rightarrow> dict_set seq data d) [] members,
            vs_contrib_index = cidx, vs_squash_log = slog\<rparr>))))"

section \<open>Registry\<close>

definition intern_state :: "TestRegistry \<Rightarrow> v2_state \<Rightarrow> TestRegistry" where
  "intern_state reg st =
     foldl (\<lambda>reg seed. snd (lookup_seed_id seed reg))
       (foldl (\<lambda>reg name. snd (lookup_name_id name reg)) reg (reg_names (vs_registry st)))
       (reg_seeds (vs_registry st))"

definition union_registry :: "v2_state list \<Rightarrow> TestRegistry" where
  "union_registry states = foldl intern_state (new_registry 0) states"

text \<open>\<open>{old_id: merged._name_to_id[name] for old_id, name in enumerate(reg._names)}\<close>, its keys being \<open>0, 1, ...\<close>\<close>

definition id_remap :: "(pystr \<times> nat) list \<Rightarrow> pystr list \<Rightarrow> nat list res" where
  "id_remap to_id strings = mapE (\<lambda>s. case dict_get to_id s of None \<Rightarrow> Inl KeyError | Some i \<Rightarrow> Inr i) strings"

definition remap_get :: "nat list \<Rightarrow> int \<Rightarrow> int" where
  "remap_get remap i = (if 0 \<le> i \<and> i < int (length remap) then int (remap ! nat i) else i)"

definition run_id_offsets :: "v2_state list \<Rightarrow> int list" where
  "run_id_offsets states = map (\<lambda>i. sum_list (map (reg_next_run_id \<circ> vs_registry) (take i states))) [0..<length states]"

definition advance :: "int \<Rightarrow> TestRegistry \<Rightarrow> TestRegistry" where
  "advance offset reg = ((\<lambda>r. snd (assign_run_id r)) ^^ nat offset) reg"

section \<open>Buckets\<close>

definition remap_record :: "nat list \<Rightarrow> nat list \<Rightarrow> BucketRecord \<Rightarrow> BucketRecord" where
  "remap_record n_remap s_remap r =
     r\<lparr>br_name_id := remap_get n_remap (br_name_id r), br_seed_id := remap_get s_remap (br_seed_id r)\<rparr>"

definition remap_bucket ::
  "(bytes \<Rightarrow> bytes) \<Rightarrow> (bytes \<Rightarrow> bytes res) \<Rightarrow> bytes \<Rightarrow> nat list \<Rightarrow> nat list \<Rightarrow> bytes res" where
  "remap_bucket compress decompress compressed n_remap s_remap =
     bindE (decompress compressed) (\<lambda>raw.
     bindE (bucket_parse raw) (\<lambda>reader.
       let all_recs = rd_records reader in
       if \<not> list_ex (\<lambda>r. remap_get n_remap (br_name_id r) \<noteq> br_name_id r \<or> remap_get s_remap (br_seed_id r) \<noteq> br_seed_id r) all_recs
       then Inr compressed
       else
         bindE (foldE (\<lambda>w r. bucket_add (remap_record n_remap s_remap r) w) new_bucket
                  (sort_key (\<lambda>r. (remap_get n_remap (br_name_id r), br_ts r)) all_recs)) (\<lambda>writer.
         bindE (bucket_encode writer) (\<lambda>raw'. Inr (compress raw')))))"

record merged_buckets =
  mb_buckets :: "(int \<times> bytes) list"
  mb_index :: "BucketIndexEntry list"
  mb_new_seq :: int

definition merge_bucket ::
  "(bytes \<Rightarrow> bytes) \<Rightarrow> (bytes \<Rightarrow> bytes res) \<Rightarrow> v2_state \<Rightarrow> nat list \<Rightarrow> nat list \<Rightarrow> merged_buckets \<Rightarrow> BucketIndexEntry \<Rightarrow> merged_buckets res" where
  "merge_bucket compress decompress st n_remap s_remap mb e =
     (case dict_get (vs_buckets st) (bucket_seq e) of
        None \<Rightarrow> Inr mb
      | Some compressed \<Rightarrow>
          bindE (if n_remap \<noteq> [] \<or> s_remap \<noteq> [] then remap_bucket compress decompress compressed n_remap s_remap
                 else Inr compressed) (\<lambda>compressed.
          let min_nid = remap_get n_remap (min_name_id e); max_nid = remap_get n_remap (max_name_id e)
          in Inr \<lparr>mb_buckets = dict_set (mb_new_seq mb) compressed (mb_buckets mb),
                  mb_index = add_bucket \<lparr>bucket_seq = mb_new_seq mb, ts_start = ts_start e, ts_end = ts_end e,
                    num_records = num_records e, fail_count = fail_count e,
                    min_name_id = min min_nid max_nid, max_name_id = max min_nid max_nid\<rparr> (mb_index mb),
                  mb_new_seq = mb_new_seq mb + 1\<rparr>))"

section \<open>Contribution index and squash log\<close>

definition remap_contrib :: "nat list \<Rightarrow> int \<Rightarrow> ContribIndexEntry \<Rightarrow> ContribIndexEntry" where
  "remap_contrib n_remap rid_offset e =
     \<lparr>ce_run_id = ce_run_id e + rid_offset, ce_name_id = remap_get n_remap (ce_name_id e),
      ce_status = ce_status e, ce_flags = ce_flags e\<rparr>"

definition merge_contrib_index :: "ContribIndex \<Rightarrow> ContribIndex \<times> nat list \<times> int \<Rightarrow> ContribIndex" where
  "merge_contrib_index merged = (\<lambda>(ci, n_remap, rid_offset).
     let merged = foldl (\<lambda>m e. ci_add_entry (remap_contrib n_remap rid_offset e) m) merged (ci_entries ci)
     in if squash_watermark ci > 0
        then set_squash_watermark (max (squash_watermark merged) (squash_watermark ci + rid_offset)) merged
        else merged)"

definition merge_squash_logs :: "v2_state list \<Rightarrow> SquashLogEntry list" where
  "merge_squash_logs states = foldl (\<lambda>log st. foldl (\<lambda>log e. squash_append e log) log (vs_squash_log st)) [] states"

section \<open>The merge\<close>

definition merge_v2_states ::
  "(bytes \<Rightarrow> bytes) \<Rightarrow> (bytes \<Rightarrow> bytes res) \<Rightarrow> v2_state list \<Rightarrow> v2_state res" where
  "merge_v2_states compress decompress states =
     (let union = union_registry states in
      bindE (mapE (\<lambda>st. id_remap (reg_name_to_id union) (reg_names (vs_registry st))) states) (\<lambda>name_remaps.
      bindE (mapE (\<lambda>st. id_remap (reg_seed_to_id union) (reg_seeds (vs_registry st))) states) (\<lambda>seed_remaps.
      let offsets = run_id_offsets states;
          merged_reg = advance (sum_list (map (reg_next_run_id \<circ> vs_registry) states)) union in
      bindE (foldE (\<lambda>mb (st, n_remap, s_remap).
                foldE (merge_bucket compress decompress st n_remap s_remap) mb (vs_bucket_index st))
              \<lparr>mb_buckets = [], mb_index = [], mb_new_seq = 0\<rparr> (zip states (zip name_remaps seed_remaps))) (\<lambda>mb.
        Inr \<lparr>vs_registry = merged_reg, vs_bucket_index = mb_index mb, vs_buckets = mb_buckets mb,
             vs_contrib_index = foldl merge_contrib_index (new_contrib_index POLICY_PASS_ONLY 0)
               (zip (map vs_contrib_index states) (zip name_remaps offsets)),
             vs_squash_log = merge_squash_logs states\<rparr>))))"

definition bucket_member_name :: "int \<Rightarrow> pystr" where
  "bucket_member_name seq = HISTORY_BUCKET_DIR @ zpad 6 (nat seq) @ lit ''.bin''"

definition write_v2_state :: "v2_state \<Rightarrow> (pystr \<times> bytes) list res" where
  "write_v2_state st =
     bindE (reg_serialize (vs_registry st)) (\<lambda>reg.
     bindE (bidx_serialize (vs_bucket_index st)) (\<lambda>bidx.
     bindE (cidx_serialize (vs_contrib_index st)) (\<lambda>cidx.
     bindE (sqlg_serialize (vs_squash_log st)) (\<lambda>slog.
       Inr (dict_update [(MEMBER_TEST_REGISTRY, reg), (MEMBER_BUCKET_INDEX, bidx), (MEMBER_CONTRIB_INDEX, cidx), (MEMBER_SQUASH_LOG, slog)]
              (map (\<lambda>(seq, data). (bucket_member_name seq, data)) (vs_buckets st)))))))"

text \<open>The step on archives: a source whose manifest does not say \<open>v2\<close> counts as an empty history.\<close>

definition merge_v2_history ::
  "(bytes \<Rightarrow> bytes) \<Rightarrow> (bytes \<Rightarrow> bytes res) \<Rightarrow> (bool \<times> (pystr \<times> bytes) list) list \<Rightarrow> (pystr \<times> bytes) list res" where
  "merge_v2_history compress decompress sources =
     bindE (mapE (\<lambda>(is_v2, members). if is_v2 then read_v2_state members else Inr empty_v2_state) sources) (\<lambda>states.
     bindE (merge_v2_states compress decompress states) write_v2_state)"

section \<open>Names and seeds keep their meaning\<close>

lemma intern_names:
  "reg_inv reg \<Longrightarrow> reg_inv (foldl (\<lambda>reg n. snd (lookup_name_id n reg)) reg ns) \<and>
   set (reg_names (foldl (\<lambda>reg n. snd (lookup_name_id n reg)) reg ns)) = set (reg_names reg) \<union> set ns \<and>
   reg_seeds (foldl (\<lambda>reg n. snd (lookup_name_id n reg)) reg ns) = reg_seeds reg \<and>
   reg_next_run_id (foldl (\<lambda>reg n. snd (lookup_name_id n reg)) reg ns) = reg_next_run_id reg"
proof -
  assume inv: "reg_inv reg"
  have e: "foldl (\<lambda>reg n. snd (lookup_name_id n reg)) reg ns = names.add_all reg ns" by (simp add: names.add_all_def)
  have "reg_seeds (foldl (\<lambda>reg n. snd (lookup_name_id n reg)) reg ns) = reg_seeds reg \<and>
     reg_next_run_id (foldl (\<lambda>reg n. snd (lookup_name_id n reg)) reg ns) = reg_next_run_id reg"
    by (induction ns rule: rev_induct) (auto simp: lookup_name_id_def split: option.split)
  then show ?thesis using names.inv_add_all[OF inv, of ns] names.set_tab_add_all[OF inv, of ns] unfolding e by simp
qed

lemma intern_seeds:
  "reg_inv reg \<Longrightarrow> reg_inv (foldl (\<lambda>reg n. snd (lookup_seed_id n reg)) reg ns) \<and>
   set (reg_seeds (foldl (\<lambda>reg n. snd (lookup_seed_id n reg)) reg ns)) = set (reg_seeds reg) \<union> set ns \<and>
   reg_names (foldl (\<lambda>reg n. snd (lookup_seed_id n reg)) reg ns) = reg_names reg \<and>
   reg_next_run_id (foldl (\<lambda>reg n. snd (lookup_seed_id n reg)) reg ns) = reg_next_run_id reg"
proof -
  assume inv: "reg_inv reg"
  have e: "foldl (\<lambda>reg n. snd (lookup_seed_id n reg)) reg ns = seeds.add_all reg ns" by (simp add: seeds.add_all_def)
  have "reg_names (foldl (\<lambda>reg n. snd (lookup_seed_id n reg)) reg ns) = reg_names reg \<and>
     reg_next_run_id (foldl (\<lambda>reg n. snd (lookup_seed_id n reg)) reg ns) = reg_next_run_id reg"
    by (induction ns rule: rev_induct) (auto simp: lookup_seed_id_def split: option.split)
  then show ?thesis using seeds.inv_add_all[OF inv, of ns] seeds.set_tab_add_all[OF inv, of ns] unfolding e by simp
qed

lemma union_registry_props:
  "reg_inv (union_registry states) \<and> reg_next_run_id (union_registry states) = 0 \<and>
   (\<forall>st\<in>set states. set (reg_names (vs_registry st)) \<subseteq> set (reg_names (union_registry states)) \<and>
      set (reg_seeds (vs_registry st)) \<subseteq> set (reg_seeds (union_registry states)))"
proof (induction states rule: rev_induct)
  case Nil
  then show ?case by (simp add: union_registry_def) (simp add: new_registry_def)
next
  case (snoc st states)
  let ?u = "union_registry states"
  have "union_registry (states @ [st]) = intern_state ?u st" by (simp add: union_registry_def)
  moreover have "reg_inv (foldl (\<lambda>reg name. snd (lookup_name_id name reg)) ?u (reg_names (vs_registry st)))"
    using intern_names snoc by blast
  ultimately show ?case
    using intern_names[of ?u "reg_names (vs_registry st)"] intern_seeds[of _ "reg_seeds (vs_registry st)"] snoc
    by (auto simp: intern_state_def)
qed

text \<open>A remap from a source's ids: every id leads to the same string in the merged table.\<close>

definition remap_ok :: "pystr list \<Rightarrow> pystr list \<Rightarrow> nat list \<Rightarrow> bool" where
  "remap_ok merged strings remap \<longleftrightarrow> length remap = length strings \<and>
     (\<forall>j<length strings. remap ! j < length merged \<and> merged ! (remap ! j) = strings ! j)"

lemma id_remap_ok:
  assumes "d = zip merged [0..<length merged]" "distinct merged" "id_remap d strings = Inr remap"
  shows "remap_ok merged strings remap"
proof -
  have a: "list_all2 (\<lambda>s i. (case dict_get d s of None \<Rightarrow> Inl KeyError | Some i \<Rightarrow> Inr i) = Inr i) strings remap"
    using assms(3) by (simp add: id_remap_def mapE_eq_Inr)
  then have "length remap = length strings" by (simp add: list_all2_lengthD)
  moreover have "remap ! j < length merged \<and> merged ! (remap ! j) = strings ! j" if "j < length strings" for j
  proof -
    have "dict_get d (strings ! j) = Some (remap ! j)"
      using list_all2_nthD[OF a that] by (simp split: option.splits)
    then show ?thesis using intern_step(1)[OF assms(1,2)] by simp
  qed
  ultimately show ?thesis by (simp add: remap_ok_def)
qed

lemma id_remap_total:
  assumes "d = zip merged [0..<length merged]" "distinct merged" "set strings \<subseteq> set merged"
  shows "is_ok (id_remap d strings)"
proof -
  have "dict_get d s \<noteq> None" if "s \<in> set strings" for s
    using map_of_zip_upt_None[of merged s] that assms(1,3) by auto
  then show ?thesis by (auto simp: id_remap_def mapE_ok split: option.split)
qed

lemma remap_get_name:
  assumes "remap_ok merged strings remap" "0 \<le> i" "i < int (length strings)"
  shows "py_nth merged (remap_get remap i) = py_nth strings i"
proof -
  obtain j where j: "i = int j" "j < length strings" using assms(2,3) by (metis nat_0_le nat_less_iff)
  then show ?thesis using assms(1) by (simp add: remap_ok_def remap_get_def)
qed

section \<open>What a history says\<close>

text \<open>
  Ids are meaningful only in their registry, so two histories are compared by the strings: the runs of
  a contribution index with the names of their tests, and the records of all bucket files the index
  lists with the names and seeds.
\<close>

definition contrib_view :: "TestRegistry \<Rightarrow> ContribIndex \<Rightarrow> (int \<times> pystr res \<times> int \<times> int) multiset" where
  "contrib_view reg ci =
     image_mset (\<lambda>e. (ce_run_id e, name_for_id reg (ce_name_id e), ce_status e, ce_flags e)) (mset (ci_entries ci))"

definition record_view :: "TestRegistry \<Rightarrow> BucketRecord \<Rightarrow> pystr res \<times> pystr res \<times> int \<times> int \<times> int" where
  "record_view reg r =
     (name_for_id reg (br_name_id r), seed_for_id reg (br_seed_id r), br_ts r, br_status r, br_flags r)"

definition bucket_records :: "(bytes \<Rightarrow> bytes res) \<Rightarrow> bytes \<Rightarrow> BucketRecord list" where
  "bucket_records decompress c = (case bindE (decompress c) bucket_parse of Inl _ \<Rightarrow> [] | Inr rd \<Rightarrow> rd_records rd)"

definition entry_records :: "(bytes \<Rightarrow> bytes res) \<Rightarrow> (int \<times> bytes) list \<Rightarrow> BucketIndexEntry \<Rightarrow> BucketRecord list" where
  "entry_records decompress buckets e =
     (case dict_get buckets (bucket_seq e) of None \<Rightarrow> [] | Some c \<Rightarrow> bucket_records decompress c)"

definition history_view :: "(bytes \<Rightarrow> bytes res) \<Rightarrow> TestRegistry \<Rightarrow> (int \<times> bytes) list \<Rightarrow> BucketIndexEntry list
    \<Rightarrow> (pystr res \<times> pystr res \<times> int \<times> int \<times> int) multiset" where
  "history_view decompress reg buckets index =
     image_mset (record_view reg) (mset (concat (map (entry_records decompress buckets) index)))"

definition state_ok :: "(bytes \<Rightarrow> bytes res) \<Rightarrow> v2_state \<Rightarrow> bool" where
  "state_ok decompress st \<longleftrightarrow>
     (\<forall>e\<in>set (ci_entries (vs_contrib_index st)). 0 \<le> ce_name_id e \<and> ce_name_id e < int (length (reg_names (vs_registry st)))) \<and>
     (\<forall>e\<in>set (vs_bucket_index st). \<forall>r\<in>set (entry_records decompress (vs_buckets st) e).
        0 \<le> br_name_id r \<and> br_name_id r < int (length (reg_names (vs_registry st))) \<and>
        0 \<le> br_seed_id r \<and> br_seed_id r < int (length (reg_seeds (vs_registry st))))"

section \<open>One bucket\<close>

lemma bucket_rows_nibbles: "bucket_rows ids b prev ns sc ds sfs = Inr rs \<Longrightarrow> \<forall>r\<in>set rs. nibbles_ok r"
proof (induction ids b prev ns sc ds sfs arbitrary: rs rule: bucket_rows.induct)
  case (2 seed_ids ts_base prev nid names sd seed_col delta deltas sf sfs)
  have n15: "0 \<le> x AND 15 \<and> x AND 15 < 16" for x :: int
    using take_bit_eq_mask[of 4 x] take_bit_nonnegative[of 4 x] take_bit_int_less_exp[of 4 x]
    by (simp add: mask_eq_exp_minus_1)
  show ?case using 2 n15 by (auto simp: bindE_eq_Inr nibbles_ok_def)
qed auto

lemma bucket_parse_nibbles: "bucket_parse raw = Inr rd \<Longrightarrow> \<forall>r\<in>set (rd_records rd). nibbles_ok r"
  unfolding bucket_parse_def Let_def
  by (auto simp: bindE_eq_Inr split: if_splits prod.splits dest: bucket_rows_nibbles)

lemma foldE_map: "foldE f s (map g xs) = foldE (\<lambda>s x. f s (g x)) s xs"
  by (induction xs arbitrary: s) simp_all

lemma remap_bucket_records:
  assumes dc: "\<forall>raw. decompress (compress raw) = Inr raw"
    and rb: "remap_bucket compress decompress c nr sr = Inr c'"
  shows "mset (bucket_records decompress c') = image_mset (remap_record nr sr) (mset (bucket_records decompress c))"
proof -
  obtain raw rd where raw: "decompress c = Inr raw" "bucket_parse raw = Inr rd"
    using rb unfolding remap_bucket_def by (auto elim!: bindE_InrE)
  let ?rs = "rd_records rd"
  have rc: "bucket_records decompress c = ?rs" by (simp add: bucket_records_def raw)
  show ?thesis
  proof (cases "list_ex (\<lambda>r. remap_get nr (br_name_id r) \<noteq> br_name_id r \<or> remap_get sr (br_seed_id r) \<noteq> br_seed_id r) ?rs")
    case False
    then have "c' = c" using rb by (simp add: remap_bucket_def raw)
    have m: "map (remap_record nr sr) ?rs = ?rs"
      using False by (intro map_idI) (auto simp: remap_record_def list_ex_iff)
    show ?thesis unfolding \<open>c' = c\<close> rc mset_map[symmetric] m by (rule refl)
  next
    case True
    let ?s = "map (remap_record nr sr) (sort_key (\<lambda>r. (remap_get nr (br_name_id r), br_ts r)) ?rs)"
    obtain w raw' where w: "filled ?s = Inr w" "bucket_encode w = Inr raw'" "c' = compress raw'"
    proof -
      have "bindE (filled ?s) (\<lambda>w. bindE (bucket_encode w) (\<lambda>raw'. Inr (compress raw'))) = Inr c'"
        using rb True unfolding remap_bucket_def raw bindE_Inr Let_def filled_def foldE_map by (simp only: not_True_eq_False if_False)
      then show ?thesis by (elim bindE_InrE) (rule that, assumption+, simp)
    qed
    have "\<forall>r\<in>set ?s. nibbles_ok r"
      using bucket_parse_nibbles[OF raw(2)] by (auto simp: nibbles_ok_def remap_record_def)
    from bucket_reread[OF w(1) this w(2), of "[]"] obtain rd' where "bucket_parse raw' = Inr rd'" "rd_records rd' = sorted_records ?s" by auto
    then have "bucket_records decompress c' = sorted_records ?s" by (simp add: bucket_records_def w(3) dc)
    then show ?thesis unfolding rc by (simp add: sorted_records_def)
  qed
qed

section \<open>All buckets\<close>

lemma add_bucket_last: "\<forall>x\<in>set es. bucket_seq x < bucket_seq e \<Longrightarrow> add_bucket e es = es @ [e]"
  by (induction e es rule: add_bucket.induct) auto

definition mb_inv :: "merged_buckets \<Rightarrow> bool" where
  "mb_inv mb \<longleftrightarrow> (\<forall>e\<in>set (mb_index mb). bucket_seq e < mb_new_seq mb) \<and> (\<forall>k\<in>set (dict_keys (mb_buckets mb)). k < mb_new_seq mb)"

lemma entry_records_later:
  "\<forall>x\<in>set es. bucket_seq x \<noteq> k \<Longrightarrow> map (entry_records dec (dict_set k c d)) es = map (entry_records dec d) es"
  by (auto simp: entry_records_def dict_get_set)

lemma record_view_remap:
  assumes "remap_ok (reg_names merged) (reg_names reg) nr" "remap_ok (reg_seeds merged) (reg_seeds reg) sr"
    and "0 \<le> br_name_id r \<and> br_name_id r < int (length (reg_names reg))" "0 \<le> br_seed_id r \<and> br_seed_id r < int (length (reg_seeds reg))"
  shows "record_view merged (remap_record nr sr r) = record_view reg r"
  using remap_get_name[OF assms(1)] remap_get_name[OF assms(2)] assms(3,4)
  by (simp add: record_view_def remap_record_def name_for_id_def seed_for_id_def)

text \<open>What a turn adds for a bucket that is there: an index entry and the records it leads to.\<close>

definition entry_from :: "(bytes \<Rightarrow> bytes res) \<Rightarrow> v2_state \<Rightarrow> nat list \<Rightarrow> nat list \<Rightarrow> (int \<times> bytes) list \<Rightarrow> BucketIndexEntry \<Rightarrow> BucketIndexEntry \<Rightarrow> bool" where
  "entry_from decompress st nr sr buckets x e \<longleftrightarrow>
     mset (entry_records decompress buckets x) = image_mset (remap_record nr sr) (mset (entry_records decompress (vs_buckets st) e)) \<and>
     ts_start x = ts_start e \<and> ts_end x = ts_end e \<and> num_records x = num_records e \<and> fail_count x = fail_count e \<and>
     min_name_id x = min (remap_get nr (min_name_id e)) (remap_get nr (max_name_id e)) \<and>
     max_name_id x = max (remap_get nr (min_name_id e)) (remap_get nr (max_name_id e))"

lemma merge_bucket_step:
  assumes dc: "\<forall>raw. decompress (compress raw) = Inr raw"
    and inv: "mb_inv mb" and step: "merge_bucket compress decompress st nr sr mb e = Inr mb'"
    and there: "dict_get (vs_buckets st) (bucket_seq e) = Some c"
  shows "\<exists>x c'. mb_index mb' = mb_index mb @ [x] \<and> mb_buckets mb' = dict_set (mb_new_seq mb) c' (mb_buckets mb) \<and>
    mb_new_seq mb' = mb_new_seq mb + 1 \<and> bucket_seq x = mb_new_seq mb \<and> entry_from decompress st nr sr (mb_buckets mb') x e"
proof -
  let ?rs = "bucket_records decompress c" and ?seq = "mb_new_seq mb"
  define x where "x = \<lparr>bucket_seq = ?seq, ts_start = ts_start e, ts_end = ts_end e, num_records = num_records e, fail_count = fail_count e,
      min_name_id = min (remap_get nr (min_name_id e)) (remap_get nr (max_name_id e)),
      max_name_id = max (remap_get nr (min_name_id e)) (remap_get nr (max_name_id e))\<rparr>"
  obtain c' where c': "(if nr \<noteq> [] \<or> sr \<noteq> [] then remap_bucket compress decompress c nr sr else Inr c) = Inr c'"
    and mb': "mb_buckets mb' = dict_set ?seq c' (mb_buckets mb)" "mb_new_seq mb' = ?seq + 1"
      "mb_index mb' = add_bucket x (mb_index mb)"
    using step unfolding merge_bucket_def there option.case Let_def x_def[symmetric] by (elim bindE_InrE) auto
  have "mset (bucket_records decompress c') = image_mset (remap_record nr sr) (mset ?rs)"
  proof (cases "nr \<noteq> [] \<or> sr \<noteq> []")
    case True
    then show ?thesis using c' remap_bucket_records[where compress = compress and decompress = decompress, OF dc] by simp
  next
    case False
    then have "map (remap_record nr sr) ?rs = ?rs" by (intro map_idI) (simp add: remap_record_def remap_get_def)
    then show ?thesis using c' False by (metis Inr_inject mset_map)
  qed
  then have "entry_from decompress st nr sr (mb_buckets mb') x e"
    by (simp add: entry_from_def entry_records_def mb'(1) there dict_get_set x_def)
  moreover have "mb_index mb' = mb_index mb @ [x]"
    using mb'(3) add_bucket_last[of "mb_index mb" x] inv by (auto simp: mb_inv_def x_def)
  ultimately show ?thesis using mb' by (intro exI[of _ x] exI[of _ c']) (simp add: x_def)
qed

lemma merge_bucket_view:
  assumes dc: "\<forall>raw. decompress (compress raw) = Inr raw"
    and ok: "remap_ok (reg_names merged) (reg_names (vs_registry st)) nr" "remap_ok (reg_seeds merged) (reg_seeds (vs_registry st)) sr"
    and ids: "\<forall>r\<in>set (entry_records decompress (vs_buckets st) e).
        0 \<le> br_name_id r \<and> br_name_id r < int (length (reg_names (vs_registry st))) \<and>
        0 \<le> br_seed_id r \<and> br_seed_id r < int (length (reg_seeds (vs_registry st)))"
    and inv: "mb_inv mb" and step: "merge_bucket compress decompress st nr sr mb e = Inr mb'"
  shows "mb_inv mb' \<and> history_view decompress merged (mb_buckets mb') (mb_index mb') =
    history_view decompress merged (mb_buckets mb) (mb_index mb) +
    image_mset (record_view (vs_registry st)) (mset (entry_records decompress (vs_buckets st) e))"
proof (cases "dict_get (vs_buckets st) (bucket_seq e)")
  case None
  then show ?thesis using step inv by (simp add: merge_bucket_def entry_records_def)
next
  case (Some c)
  let ?seq = "mb_new_seq mb"
  obtain x c' where x: "mb_index mb' = mb_index mb @ [x]" "mb_buckets mb' = dict_set ?seq c' (mb_buckets mb)" "mb_new_seq mb' = ?seq + 1"
    "bucket_seq x = ?seq" "entry_from decompress st nr sr (mb_buckets mb') x e"
    using merge_bucket_step[where compress = compress, OF dc inv step Some] by blast
  have view: "image_mset (record_view merged) (mset (entry_records decompress (mb_buckets mb') x)) =
      image_mset (record_view (vs_registry st)) (mset (entry_records decompress (vs_buckets st) e))"
    using x(5) record_view_remap[OF ok] ids unfolding entry_from_def
    by (auto simp: image_mset.compositionality comp_def intro!: image_mset_cong)
  have "\<forall>y\<in>set (mb_index mb). bucket_seq y \<noteq> ?seq" using inv by (auto simp: mb_inv_def)
  then have eqm: "map (entry_records decompress (mb_buckets mb')) (mb_index mb) = map (entry_records decompress (mb_buckets mb)) (mb_index mb)"
    unfolding x(2) by (rule entry_records_later)
  have "history_view decompress merged (mb_buckets mb') (mb_index mb') =
    history_view decompress merged (mb_buckets mb) (mb_index mb) + image_mset (record_view merged) (mset (entry_records decompress (mb_buckets mb') x))"
    unfolding history_view_def x(1) map_append concat_append eqm mset_append image_mset_union by simp
  moreover have "mb_inv mb'" using inv x(4) by (auto simp: mb_inv_def x(1-3) dict_keys_set)
  ultimately show ?thesis unfolding view by blast
qed

text \<open>The index the loops build: an entry for each bucket that is there, in the order of the sources.\<close>

definition stored :: "v2_state \<Rightarrow> BucketIndexEntry \<Rightarrow> bool" where
  "stored st e \<longleftrightarrow> dict_get (vs_buckets st) (bucket_seq e) \<noteq> None"

lemma entry_from_later:
  assumes "entry_from decompress st nr sr bs x e" "dict_get bs' (bucket_seq x) = dict_get bs (bucket_seq x)"
  shows "entry_from decompress st nr sr bs' x e"
  using assms by (simp add: entry_from_def entry_records_def)

definition mb_grows :: "merged_buckets \<Rightarrow> merged_buckets \<Rightarrow> BucketIndexEntry list \<Rightarrow> bool" where
  "mb_grows mb mb' xs \<longleftrightarrow> mb_inv mb' \<and> mb_index mb' = mb_index mb @ xs \<and> mb_new_seq mb' = mb_new_seq mb + int (length xs) \<and>
     map bucket_seq xs = map (\<lambda>k. mb_new_seq mb + int k) [0..<length xs] \<and>
     (\<forall>k<mb_new_seq mb. dict_get (mb_buckets mb') k = dict_get (mb_buckets mb) k)"

lemma mb_grows_trans: "mb_grows mb mb1 xs \<Longrightarrow> mb_grows mb1 mb2 ys \<Longrightarrow> mb_grows mb mb2 (xs @ ys)"
proof -
  assume g: "mb_grows mb mb1 xs" "mb_grows mb1 mb2 ys"
  have u: "[0..<length xs + length ys] = [0..<length xs] @ map (\<lambda>k. k + length xs) [0..<length ys]"
    using upt_add_eq_append[of 0 "length xs" "length ys"] by (simp add: map_add_upt add.commute[of "length ys"])
  have a: "map bucket_seq xs = map (\<lambda>k. mb_new_seq mb + int k) [0..<length xs]"
    and b: "map bucket_seq ys = map (\<lambda>k. mb_new_seq mb1 + int k) [0..<length ys]"
    and c: "mb_new_seq mb1 = mb_new_seq mb + int (length xs)" using g unfolding mb_grows_def by blast+
  have s: "map bucket_seq (xs @ ys) = map (\<lambda>k. mb_new_seq mb + int k) [0..<length (xs @ ys)]"
    unfolding map_append length_append u a b c map_map comp_def by (simp add: add.assoc add.commute)
  have "\<forall>k<mb_new_seq mb. dict_get (mb_buckets mb2) k = dict_get (mb_buckets mb) k"
  proof (intro allI impI)
    fix k assume "k < mb_new_seq mb"
    moreover from this c have "k < mb_new_seq mb1" by simp
    ultimately show "dict_get (mb_buckets mb2) k = dict_get (mb_buckets mb) k" using g unfolding mb_grows_def by metis
  qed
  moreover have "mb_inv mb2" "mb_index mb2 = mb_index mb @ (xs @ ys)" "mb_new_seq mb2 = mb_new_seq mb + int (length (xs @ ys))"
    using g by (simp_all add: mb_grows_def)
  ultimately show ?thesis using s unfolding mb_grows_def by blast
qed

lemma mb_grows_seq: "mb_grows mb mb' xs \<Longrightarrow> x \<in> set xs \<Longrightarrow> bucket_seq x < mb_new_seq mb'"
  by (auto simp: mb_grows_def mb_inv_def)

lemma merge_source_entries:
  assumes dc: "\<forall>raw. decompress (compress raw) = Inr raw"
    and inv: "mb_inv mb" and run: "foldE (merge_bucket compress decompress st nr sr) mb es = Inr mb'"
  shows "\<exists>xs. mb_grows mb mb' xs \<and> list_all2 (entry_from decompress st nr sr (mb_buckets mb')) xs (filter (stored st) es)"
  using inv run
proof (induction es arbitrary: mb)
  case Nil
  then show ?case by (intro exI[of _ "[]"]) (simp add: mb_grows_def)
next
  case (Cons e es)
  obtain mb1 where 1: "merge_bucket compress decompress st nr sr mb e = Inr mb1"
      "foldE (merge_bucket compress decompress st nr sr) mb1 es = Inr mb'"
    using Cons.prems(2) by (auto elim: bindE_InrE)
  show ?case
  proof (cases "dict_get (vs_buckets st) (bucket_seq e)")
    case None
    then have "mb1 = mb" using 1(1) by (simp add: merge_bucket_def)
    moreover have "\<not> stored st e" using None by (simp add: stored_def)
    ultimately show ?thesis using Cons.IH[OF Cons.prems(1)] 1(2) by simp
  next
    case (Some c)
    obtain x c' where x: "mb_index mb1 = mb_index mb @ [x]" "mb_buckets mb1 = dict_set (mb_new_seq mb) c' (mb_buckets mb)"
      "mb_new_seq mb1 = mb_new_seq mb + 1" "bucket_seq x = mb_new_seq mb" "entry_from decompress st nr sr (mb_buckets mb1) x e"
      using merge_bucket_step[where compress = compress, OF dc Cons.prems(1) 1(1) Some] by blast
    have g: "mb_grows mb mb1 [x]"
      using Cons.prems(1) x by (auto simp: mb_grows_def mb_inv_def dict_keys_set dict_get_set)
    then have "mb_inv mb1" by (simp add: mb_grows_def)
    from Cons.IH[OF this 1(2)] obtain xs where xs: "mb_grows mb1 mb' xs"
      "list_all2 (entry_from decompress st nr sr (mb_buckets mb')) xs (filter (stored st) es)" by blast
    have "entry_from decompress st nr sr (mb_buckets mb') x e"
      using xs(1) mb_grows_seq[OF g, of x] by (intro entry_from_later[OF x(5)]) (simp add: mb_grows_def)
    moreover have "stored st e" using Some by (simp add: stored_def)
    ultimately show ?thesis using mb_grows_trans[OF g xs(1)] xs(2) by (intro exI[of _ "x # xs"]) simp
  qed
qed

lemma merge_sources_entries:
  assumes dc: "\<forall>raw. decompress (compress raw) = Inr raw" and inv: "mb_inv mb"
    and run: "foldE (\<lambda>mb (st, nr, sr). foldE (merge_bucket compress decompress st nr sr) mb (vs_bucket_index st)) mb zs = Inr mb'"
  shows "\<exists>xs. mb_grows mb mb' xs \<and> list_all2 (\<lambda>x ((st, nr, sr), e). entry_from decompress st nr sr (mb_buckets mb') x e) xs
    (concat (map (\<lambda>z. map (Pair z) (filter (stored (fst z)) (vs_bucket_index (fst z)))) zs))"
  using inv run
proof (induction zs arbitrary: mb)
  case Nil
  then show ?case by (intro exI[of _ "[]"]) (simp add: mb_grows_def)
next
  case (Cons z zs)
  obtain st nr sr where z: "z = (st, nr, sr)" by (cases z)
  obtain mb1 where 1: "foldE (merge_bucket compress decompress st nr sr) mb (vs_bucket_index st) = Inr mb1"
      "foldE (\<lambda>mb (st, nr, sr). foldE (merge_bucket compress decompress st nr sr) mb (vs_bucket_index st)) mb1 zs = Inr mb'"
    using Cons.prems(2) unfolding z foldE.simps split_conv by (elim bindE_InrE)
  obtain xs where xs: "mb_grows mb mb1 xs"
    "list_all2 (entry_from decompress st nr sr (mb_buckets mb1)) xs (filter (stored st) (vs_bucket_index st))"
    using merge_source_entries[where compress = compress, OF dc Cons.prems(1) 1(1)] by blast
  have "mb_inv mb1" using xs(1) by (simp add: mb_grows_def)
  from Cons.IH[OF this 1(2)] obtain ys where ys: "mb_grows mb1 mb' ys"
    "list_all2 (\<lambda>x ((st, nr, sr), e). entry_from decompress st nr sr (mb_buckets mb') x e) ys
      (concat (map (\<lambda>z. map (Pair z) (filter (stored (fst z)) (vs_bucket_index (fst z)))) zs))" by blast
  have "list_all2 (entry_from decompress st nr sr (mb_buckets mb')) xs (filter (stored st) (vs_bucket_index st))"
    using ys(1) mb_grows_seq[OF xs(1)]
    by (intro list.rel_mono_strong[OF xs(2)]) (auto elim!: entry_from_later simp: mb_grows_def)
  then have "list_all2 (\<lambda>x ((st, nr, sr), e). entry_from decompress st nr sr (mb_buckets mb') x e) xs
      (map (Pair z) (filter (stored st) (vs_bucket_index st)))" by (simp add: list_all2_map2 z)
  then show ?case using mb_grows_trans[OF xs(1) ys(1)] ys(2) by (intro exI[of _ "xs @ ys"]) (simp add: z list_all2_appendI)
qed

lemma merge_source_view:
  assumes dc: "\<forall>raw. decompress (compress raw) = Inr raw"
    and ok: "remap_ok (reg_names merged) (reg_names (vs_registry st)) nr" "remap_ok (reg_seeds merged) (reg_seeds (vs_registry st)) sr"
    and ids: "\<forall>e\<in>set es. \<forall>r\<in>set (entry_records decompress (vs_buckets st) e).
        0 \<le> br_name_id r \<and> br_name_id r < int (length (reg_names (vs_registry st))) \<and>
        0 \<le> br_seed_id r \<and> br_seed_id r < int (length (reg_seeds (vs_registry st)))"
    and inv: "mb_inv mb" and run: "foldE (merge_bucket compress decompress st nr sr) mb es = Inr mb'"
  shows "mb_inv mb' \<and> history_view decompress merged (mb_buckets mb') (mb_index mb') =
    history_view decompress merged (mb_buckets mb) (mb_index mb) + history_view decompress (vs_registry st) (vs_buckets st) es"
  using ids inv run
proof (induction es arbitrary: mb)
  case Nil
  then show ?case by (simp add: history_view_def)
next
  case (Cons e es)
  obtain mb1 where 1: "merge_bucket compress decompress st nr sr mb e = Inr mb1"
      "foldE (merge_bucket compress decompress st nr sr) mb1 es = Inr mb'"
    using Cons.prems(3) by (auto elim: bindE_InrE)
  have "\<forall>r\<in>set (entry_records decompress (vs_buckets st) e).
        0 \<le> br_name_id r \<and> br_name_id r < int (length (reg_names (vs_registry st))) \<and>
        0 \<le> br_seed_id r \<and> br_seed_id r < int (length (reg_seeds (vs_registry st)))" using Cons.prems(1) by simp
  note m = merge_bucket_view[where compress = compress and decompress = decompress, OF dc ok this Cons.prems(2) 1(1)]
  from m Cons.IH[OF _ _ 1(2)] Cons.prems(1) show ?case by (simp add: history_view_def)
qed

lemma merge_sources_view:
  assumes dc: "\<forall>raw. decompress (compress raw) = Inr raw"
    and ok: "\<forall>(st, nr, sr)\<in>set zs. state_ok decompress st \<and> remap_ok (reg_names merged) (reg_names (vs_registry st)) nr
      \<and> remap_ok (reg_seeds merged) (reg_seeds (vs_registry st)) sr"
    and inv: "mb_inv mb"
    and run: "foldE (\<lambda>mb (st, nr, sr). foldE (merge_bucket compress decompress st nr sr) mb (vs_bucket_index st)) mb zs = Inr mb'"
  shows "history_view decompress merged (mb_buckets mb') (mb_index mb') =
    history_view decompress merged (mb_buckets mb) (mb_index mb) +
    sum_list (map (\<lambda>(st, _). history_view decompress (vs_registry st) (vs_buckets st) (vs_bucket_index st)) zs)"
  using ok inv run
proof (induction zs arbitrary: mb)
  case (Cons z zs)
  obtain st nr sr where z: "z = (st, nr, sr)" by (cases z)
  obtain mb1 where 1: "foldE (merge_bucket compress decompress st nr sr) mb (vs_bucket_index st) = Inr mb1"
      "foldE (\<lambda>mb (st, nr, sr). foldE (merge_bucket compress decompress st nr sr) mb (vs_bucket_index st)) mb1 zs = Inr mb'"
    using Cons.prems(3) unfolding z foldE.simps split_conv by (elim bindE_InrE)
  have "mb_inv mb1 \<and> history_view decompress merged (mb_buckets mb1) (mb_index mb1) =
    history_view decompress merged (mb_buckets mb) (mb_index mb) + history_view decompress (vs_registry st) (vs_buckets st) (vs_bucket_index st)"
    using Cons.prems(1) unfolding z by (intro merge_source_view[where compress = compress and decompress = decompress, OF dc _ _ _ Cons.prems(2) 1(1)]) (auto simp: state_ok_def)
  with Cons.IH[OF _ _ 1(2)] Cons.prems(1) show ?case by (simp add: z add.assoc)
qed simp

section \<open>All runs\<close>

lemma add_entries:
  "ci_sorted m \<Longrightarrow> ci_sorted (foldl (\<lambda>m e. ci_add_entry (f e) m) m es) \<and>
   mset (ci_entries (foldl (\<lambda>m e. ci_add_entry (f e) m) m es)) = mset (ci_entries m) + image_mset f (mset es)"
  by (induction es arbitrary: m) (simp_all add: ci_add_sorted ci_add_mset)

lemma merge_contrib_entries:
  assumes "ci_sorted m"
  shows "ci_sorted (merge_contrib_index m (ci, nr, off)) \<and>
    mset (ci_entries (merge_contrib_index m (ci, nr, off))) = mset (ci_entries m) + image_mset (remap_contrib nr off) (mset (ci_entries ci))"
  using add_entries[OF assms, of "remap_contrib nr off" "ci_entries ci"]
  by (simp add: merge_contrib_index_def set_squash_watermark_def ci_sorted_def)

lemma merge_contribs_entries:
  "ci_sorted m \<Longrightarrow> ci_sorted (foldl merge_contrib_index m zs) \<and>
   mset (ci_entries (foldl merge_contrib_index m zs)) =
     mset (ci_entries m) + sum_list (map (\<lambda>(ci, nr, off). image_mset (remap_contrib nr off) (mset (ci_entries ci))) zs)"
proof (induction zs arbitrary: m)
  case (Cons z zs)
  obtain ci nr off where z: "z = (ci, nr, off)" by (cases z)
  note h = merge_contrib_entries[OF Cons.prems, of ci nr off]
  from h Cons.IH[of "merge_contrib_index m z"] show ?case by (simp add: z add.assoc)
qed simp

lemma remap_contrib_view:
  assumes "remap_ok (reg_names merged) (reg_names reg) nr"
    and "\<forall>e\<in>set (ci_entries ci). 0 \<le> ce_name_id e \<and> ce_name_id e < int (length (reg_names reg))"
  shows "image_mset (\<lambda>e. (ce_run_id e, name_for_id merged (ce_name_id e), ce_status e, ce_flags e)) (image_mset (remap_contrib nr off) (mset (ci_entries ci)))
    = image_mset (\<lambda>(r, x). (r + off, x)) (contrib_view reg ci)"
  unfolding contrib_view_def image_mset.compositionality comp_def
  using remap_get_name[OF assms(1)] assms(2) by (intro image_mset_cong) (simp add: remap_contrib_def name_for_id_def)

lemma remap_contribs_view:
  assumes "length nrs = length states" "length offs = length states"
    and "\<forall>i<length states. state_ok decompress (states ! i) \<and> remap_ok (reg_names merged) (reg_names (vs_registry (states ! i))) (nrs ! i)"
  shows "image_mset (\<lambda>e. (ce_run_id e, name_for_id merged (ce_name_id e), ce_status e, ce_flags e))
      (sum_list (map (\<lambda>(ci, nr, off). image_mset (remap_contrib nr off) (mset (ci_entries ci))) (zip (map vs_contrib_index states) (zip nrs offs))))
    = sum_list (map (\<lambda>(st, off). image_mset (\<lambda>(r, x). (r + off, x)) (contrib_view (vs_registry st) (vs_contrib_index st))) (zip states offs))"
  using assms
proof (induction states arbitrary: nrs offs)
  case Nil
  then show ?case by simp
next
  case (Cons st states)
  obtain nr nrs' off offs' where n: "nrs = nr # nrs'" "offs = off # offs'" using Cons.prems(1,2) by (cases nrs; cases offs) auto
  have ok: "state_ok decompress st" "remap_ok (reg_names merged) (reg_names (vs_registry st)) nr" using Cons.prems(3) n by auto
  have "\<forall>i<length states. state_ok decompress (states ! i) \<and> remap_ok (reg_names merged) (reg_names (vs_registry (states ! i))) (nrs' ! i)"
    using Cons.prems(3) by (auto simp: n dest: spec[of _ "Suc _"])
  with Cons.IH[of nrs' offs'] Cons.prems(1,2) remap_contrib_view[OF ok(2), of "vs_contrib_index st" off] ok(1)
  show ?case by (simp add: n state_ok_def)
qed

lemma mapE_nth: "mapE f xs = Inr ys \<Longrightarrow> i < length xs \<Longrightarrow> f (xs ! i) = Inr (ys ! i)"
  by (auto simp: mapE_eq_Inr dest: list_all2_nthD)

lemma advance_props [simp]:
  "reg_names (advance k r) = reg_names r" "reg_seeds (advance k r) = reg_seeds r"
  "reg_next_run_id (advance k r) = reg_next_run_id r + int (nat k)"
proof -
  have "reg_names (((\<lambda>r. snd (assign_run_id r)) ^^ n) r) = reg_names r \<and> reg_seeds (((\<lambda>r. snd (assign_run_id r)) ^^ n) r) = reg_seeds r
    \<and> reg_next_run_id (((\<lambda>r. snd (assign_run_id r)) ^^ n) r) = reg_next_run_id r + int n" for n
    by (induction n) (simp_all add: assign_run_id_def)
  then show "reg_names (advance k r) = reg_names r" "reg_seeds (advance k r) = reg_seeds r"
      "reg_next_run_id (advance k r) = reg_next_run_id r + int (nat k)"
    unfolding advance_def by blast+
qed

text \<open>The pieces of a successful merge.\<close>

lemma merge_v2_pieces:
  assumes "merge_v2_states compress decompress states = Inr m"
  shows "\<exists>nrs srs mb. length nrs = length states \<and> length srs = length states \<and>
    (\<forall>i<length states. remap_ok (reg_names (vs_registry m)) (reg_names (vs_registry (states ! i))) (nrs ! i) \<and>
      remap_ok (reg_seeds (vs_registry m)) (reg_seeds (vs_registry (states ! i))) (srs ! i)) \<and>
    foldE (\<lambda>mb (st, n_remap, s_remap). foldE (merge_bucket compress decompress st n_remap s_remap) mb (vs_bucket_index st))
              \<lparr>mb_buckets = [], mb_index = [], mb_new_seq = 0\<rparr> (zip states (zip nrs srs)) = Inr mb \<and>
    vs_buckets m = mb_buckets mb \<and> vs_bucket_index m = mb_index mb \<and>
    vs_contrib_index m = foldl merge_contrib_index (new_contrib_index POLICY_PASS_ONLY 0)
               (zip (map vs_contrib_index states) (zip nrs (run_id_offsets states))) \<and>
    vs_squash_log m = merge_squash_logs states \<and>
    vs_registry m = advance (sum_list (map (reg_next_run_id \<circ> vs_registry) states)) (union_registry states)"
proof -
  let ?u = "union_registry states"
  obtain nrs srs mb where
      n: "mapE (\<lambda>st. id_remap (reg_name_to_id ?u) (reg_names (vs_registry st))) states = Inr nrs"
    and s: "mapE (\<lambda>st. id_remap (reg_seed_to_id ?u) (reg_seeds (vs_registry st))) states = Inr srs"
    and mb: "foldE (\<lambda>mb (st, n_remap, s_remap). foldE (merge_bucket compress decompress st n_remap s_remap) mb (vs_bucket_index st))
              \<lparr>mb_buckets = [], mb_index = [], mb_new_seq = 0\<rparr> (zip states (zip nrs srs)) = Inr mb"
    and m: "m = \<lparr>vs_registry = advance (sum_list (map (reg_next_run_id \<circ> vs_registry) states)) ?u, vs_bucket_index = mb_index mb, vs_buckets = mb_buckets mb,
             vs_contrib_index = foldl merge_contrib_index (new_contrib_index POLICY_PASS_ONLY 0)
               (zip (map vs_contrib_index states) (zip nrs (run_id_offsets states))), vs_squash_log = merge_squash_logs states\<rparr>"
    using assms unfolding merge_v2_states_def Let_def by (elim bindE_InrE) simp
  have inv: "reg_name_to_id ?u = zip (reg_names ?u) [0..<length (reg_names ?u)]" "distinct (reg_names ?u)"
      "reg_seed_to_id ?u = zip (reg_seeds ?u) [0..<length (reg_seeds ?u)]" "distinct (reg_seeds ?u)"
    using union_registry_props[of states] by (simp_all add: reg_inv_def)
  have "remap_ok (reg_names (vs_registry m)) (reg_names (vs_registry (states ! i))) (nrs ! i) \<and>
      remap_ok (reg_seeds (vs_registry m)) (reg_seeds (vs_registry (states ! i))) (srs ! i)" if "i < length states" for i
    using id_remap_ok[OF inv(1,2)] id_remap_ok[OF inv(3,4)] mapE_nth[OF n that] mapE_nth[OF s that] by (simp add: m advance_props)
  then show ?thesis using n s mb m mapE_length[OF n] mapE_length[OF s] by (intro exI[of _ nrs] exI[of _ srs] exI[of _ mb]) simp
qed

section \<open>Properties\<close>

text \<open>
  The specification's view of a state, which no code computes: the records of all buckets its index lists,
  whatever the name ranges of the entries. What a lookup by name finds is \<open>index_finds\<close> below.
\<close>

definition state_view :: "(bytes \<Rightarrow> bytes res) \<Rightarrow> v2_state \<Rightarrow> (pystr res \<times> pystr res \<times> int \<times> int \<times> int) multiset" where
  "state_view decompress st = history_view decompress (vs_registry st) (vs_buckets st) (vs_bucket_index st)"

lemma sum_zip_fst: "length ys = length xs \<Longrightarrow> sum_list (map (\<lambda>(x, _). f x) (zip xs ys)) = sum_list (map f xs)"
  by (induction xs ys rule: list_induct2') simp_all

lemma merge_records_aux:
  assumes dc: "\<forall>raw. decompress (compress raw) = Inr raw"
    and ok: "\<forall>st\<in>set states. state_ok decompress st"
    and mg: "merge_v2_states compress decompress states = Inr m"
  shows "state_view decompress m = sum_list (map (state_view decompress) states)"
proof -
  obtain nrs srs mb where p: "length nrs = length states" "length srs = length states"
    and ro: "\<forall>i<length states. remap_ok (reg_names (vs_registry m)) (reg_names (vs_registry (states ! i))) (nrs ! i) \<and>
      remap_ok (reg_seeds (vs_registry m)) (reg_seeds (vs_registry (states ! i))) (srs ! i)"
    and run: "foldE (\<lambda>mb (st, n_remap, s_remap). foldE (merge_bucket compress decompress st n_remap s_remap) mb (vs_bucket_index st))
              \<lparr>mb_buckets = [], mb_index = [], mb_new_seq = 0\<rparr> (zip states (zip nrs srs)) = Inr mb"
    and m: "vs_buckets m = mb_buckets mb" "vs_bucket_index m = mb_index mb"
    using merge_v2_pieces[OF mg] by blast
  have zok: "\<forall>(st, nr, sr)\<in>set (zip states (zip nrs srs)). state_ok decompress st \<and>
      remap_ok (reg_names (vs_registry m)) (reg_names (vs_registry st)) nr \<and>
      remap_ok (reg_seeds (vs_registry m)) (reg_seeds (vs_registry st)) sr"
    using ok ro p by (auto simp: set_zip)
  have "mb_inv \<lparr>mb_buckets = [], mb_index = [], mb_new_seq = 0\<rparr>" by (simp add: mb_inv_def)
  note v = merge_sources_view[where compress = compress and decompress = decompress, OF dc zok this run]
  have "length (zip nrs srs) = length states" using p by simp
  note z = sum_zip_fst[OF this, of "state_view decompress"]
  show ?thesis using v z by (simp add: state_view_def[abs_def] m history_view_def)
qed

text \<open>What an entry says in the strings of its registry, and when a source's entry is found in the merged index.\<close>

definition entry_view :: "(bytes \<Rightarrow> bytes res) \<Rightarrow> v2_state \<Rightarrow> BucketIndexEntry \<Rightarrow> (pystr res \<times> pystr res \<times> int \<times> int \<times> int) multiset" where
  "entry_view decompress st e =
     image_mset (record_view (vs_registry st)) (mset (entry_records decompress (vs_buckets st) e))"

definition range_ok :: "v2_state \<Rightarrow> BucketIndexEntry \<Rightarrow> bool" where
  "range_ok st e \<longleftrightarrow> 0 \<le> min_name_id e \<and> min_name_id e < int (length (reg_names (vs_registry st))) \<and>
     0 \<le> max_name_id e \<and> max_name_id e < int (length (reg_names (vs_registry st)))"

definition range_names :: "v2_state \<Rightarrow> BucketIndexEntry \<Rightarrow> pystr res set" where
  "range_names st e = {name_for_id (vs_registry st) (min_name_id e), name_for_id (vs_registry st) (max_name_id e)}"

definition entry_merged :: "(bytes \<Rightarrow> bytes res) \<Rightarrow> v2_state \<Rightarrow> BucketIndexEntry \<Rightarrow> v2_state \<times> BucketIndexEntry \<Rightarrow> bool" where
  "entry_merged decompress m x = (\<lambda>(st, e).
     entry_view decompress m x = entry_view decompress st e \<and>
     ts_start x = ts_start e \<and> ts_end x = ts_end e \<and> num_records x = num_records e \<and> fail_count x = fail_count e \<and>
     min_name_id x \<le> max_name_id x \<and> (range_ok st e \<longrightarrow> range_names m x = range_names st e))"

definition stored_entries :: "v2_state list \<Rightarrow> (v2_state \<times> BucketIndexEntry) list" where
  "stored_entries states = concat (map (\<lambda>st. map (Pair st) (filter (stored st) (vs_bucket_index st))) states)"

text \<open>Every record is found by looking up its test and its time.\<close>

definition index_finds :: "(bytes \<Rightarrow> bytes res) \<Rightarrow> v2_state \<Rightarrow> bool" where
  "index_finds decompress st \<longleftrightarrow>
     (\<forall>e\<in>set (vs_bucket_index st). \<forall>r\<in>set (entry_records decompress (vs_buckets st) e).
        e \<in> set (buckets_for_name (br_name_id r) (Some (br_ts r)) (Some (br_ts r)) (vs_bucket_index st)))"

text \<open>The names of one registry stand in the same order in another.\<close>

definition names_in_order :: "pystr list \<Rightarrow> pystr list \<Rightarrow> bool" where
  "names_in_order merged names \<longleftrightarrow>
     (\<forall>i<length names. \<forall>j<length names. \<forall>p<length merged. \<forall>q<length merged.
        i \<le> j \<and> merged ! p = names ! i \<and> merged ! q = names ! j \<longrightarrow> p \<le> q)"

definition order_kept :: "v2_state \<Rightarrow> v2_state \<Rightarrow> bool" where
  "order_kept m st \<longleftrightarrow> names_in_order (reg_names (vs_registry m)) (reg_names (vs_registry st)) \<and>
     list_all (range_ok st) (vs_bucket_index st)"

lemma entry_from_merged:
  assumes ok: "state_ok decompress st" "e \<in> set (vs_bucket_index st)"
    and ro: "remap_ok (reg_names (vs_registry m)) (reg_names (vs_registry st)) nr"
      "remap_ok (reg_seeds (vs_registry m)) (reg_seeds (vs_registry st)) sr"
    and fr: "entry_from decompress st nr sr (vs_buckets m) x e"
  shows "entry_merged decompress m x (st, e)"
proof -
  have "entry_view decompress m x = entry_view decompress st e"
    using fr record_view_remap[OF ro] ok unfolding entry_view_def entry_from_def state_ok_def
    by (auto simp: image_mset.compositionality comp_def intro!: image_mset_cong)
  moreover have "range_names m x = range_names st e" if "range_ok st e"
  proof -
    have n: "name_for_id (vs_registry m) (remap_get nr i) = name_for_id (vs_registry st) i"
      if "0 \<le> i" "i < int (length (reg_names (vs_registry st)))" for i
      using remap_get_name[OF ro(1) that] by (simp add: name_for_id_def)
    have "range_names m x = {name_for_id (vs_registry m) (remap_get nr (min_name_id e)), name_for_id (vs_registry m) (remap_get nr (max_name_id e))}"
      using fr by (auto simp: range_names_def entry_from_def min_def max_def)
    then show ?thesis using that by (simp add: n range_ok_def range_names_def)
  qed
  ultimately show ?thesis using fr by (simp add: entry_merged_def entry_from_def)
qed

lemma remap_mono:
  assumes "names_in_order merged names" "remap_ok merged names nr" "0 \<le> i" "i \<le> j" "j < int (length names)"
  shows "remap_get nr i \<le> remap_get nr j"
proof -
  obtain a b where ab: "i = int a" "j = int b" using assms(3,4) by (metis nat_0_le order_trans)
  then have "a \<le> b" "b < length names" using assms(4,5) by simp_all
  then have "nr ! a \<le> nr ! b" using assms(1,2) unfolding names_in_order_def remap_ok_def by (meson le_less_trans)
  then show ?thesis using assms(2) ab \<open>a \<le> b\<close> \<open>b < length names\<close> by (simp add: remap_get_def remap_ok_def)
qed

lemma entry_from_finds:
  assumes ix: "index_finds decompress st" "order_kept m st" "e \<in> set (vs_bucket_index st)"
    and ro: "remap_ok (reg_names (vs_registry m)) (reg_names (vs_registry st)) nr"
    and fr: "entry_from decompress st nr sr (vs_buckets m) x e" and x: "x \<in> set (vs_bucket_index m)"
    and r: "r \<in> set (entry_records decompress (vs_buckets m) x)"
  shows "x \<in> set (buckets_for_name (br_name_id r) (Some (br_ts r)) (Some (br_ts r)) (vs_bucket_index m))"
proof -
  have "r \<in># image_mset (remap_record nr sr) (mset (entry_records decompress (vs_buckets st) e))"
    using fr r unfolding entry_from_def by (metis set_mset_mset)
  then obtain r0 where r0: "r0 \<in> set (entry_records decompress (vs_buckets st) e)" "r = remap_record nr sr r0" by auto
  then have b: "min_name_id e \<le> br_name_id r0" "br_name_id r0 \<le> max_name_id e" "ts_start e \<le> br_ts r0" "br_ts r0 \<le> ts_end e"
    using ix(1,3) by (auto simp: index_finds_def buckets_for_name_def not_less)
  have g: "names_in_order (reg_names (vs_registry m)) (reg_names (vs_registry st))" "range_ok st e"
    using ix(2,3) by (auto simp: order_kept_def list_all_iff)
  have "remap_get nr (min_name_id e) \<le> remap_get nr (br_name_id r0)" "remap_get nr (br_name_id r0) \<le> remap_get nr (max_name_id e)"
    using remap_mono[OF g(1) ro] b g(2) by (simp_all add: range_ok_def)
  then show ?thesis using x fr b by (simp add: buckets_for_name_def entry_from_def r0(2) remap_record_def min_def max_def)
qed

lemma merge_index_aux:
  assumes dc: "\<forall>raw. decompress (compress raw) = Inr raw"
    and ok: "\<forall>st\<in>set states. state_ok decompress st"
    and mg: "merge_v2_states compress decompress states = Inr m"
  shows "list_all2 (entry_merged decompress m) (vs_bucket_index m) (stored_entries states) \<and>
    map bucket_seq (vs_bucket_index m) = map int [0..<length (stored_entries states)] \<and>
    ((\<forall>st\<in>set states. index_finds decompress st \<and> order_kept m st) \<longrightarrow> index_finds decompress m)"
proof -
  obtain nrs srs mb where p: "length nrs = length states" "length srs = length states"
    and ro: "\<forall>i<length states. remap_ok (reg_names (vs_registry m)) (reg_names (vs_registry (states ! i))) (nrs ! i) \<and>
      remap_ok (reg_seeds (vs_registry m)) (reg_seeds (vs_registry (states ! i))) (srs ! i)"
    and run: "foldE (\<lambda>mb (st, n_remap, s_remap). foldE (merge_bucket compress decompress st n_remap s_remap) mb (vs_bucket_index st))
              \<lparr>mb_buckets = [], mb_index = [], mb_new_seq = 0\<rparr> (zip states (zip nrs srs)) = Inr mb"
    and m: "vs_buckets m = mb_buckets mb" "vs_bucket_index m = mb_index mb"
    using merge_v2_pieces[OF mg] by blast
  let ?zs = "zip states (zip nrs srs)"
  let ?big = "concat (map (\<lambda>z. map (Pair z) (filter (stored (fst z)) (vs_bucket_index (fst z)))) ?zs)"
  have zok: "st \<in> set states \<and> remap_ok (reg_names (vs_registry m)) (reg_names (vs_registry st)) nr \<and>
      remap_ok (reg_seeds (vs_registry m)) (reg_seeds (vs_registry st)) sr" if "(st, nr, sr) \<in> set ?zs" for st nr sr
    using ro p that by (auto simp: set_zip)
  have "mb_inv \<lparr>mb_buckets = [], mb_index = [], mb_new_seq = 0\<rparr>" by (simp add: mb_inv_def)
  from merge_sources_entries[where compress = compress, OF dc this run] obtain xs where
    g: "mb_grows \<lparr>mb_buckets = [], mb_index = [], mb_new_seq = 0\<rparr> mb xs"
    and xs: "list_all2 (\<lambda>x ((st, nr, sr), e). entry_from decompress st nr sr (vs_buckets m) x e) xs ?big" unfolding m(1) by blast
  have ix: "vs_bucket_index m = xs" using g by (simp add: mb_grows_def m(2))
  have "map (\<lambda>(z, e). (fst z, e)) ?big = concat (map ((\<lambda>st. map (Pair st) (filter (stored st) (vs_bucket_index st))) \<circ> fst) ?zs)"
    by (simp add: map_concat comp_def)
  also have "\<dots> = stored_entries states"
    unfolding stored_entries_def map_map[symmetric] using p by simp
  finally have proj: "stored_entries states = map (\<lambda>(z, e). (fst z, e)) ?big" by simp
  have inb: "(st, nr, sr) \<in> set ?zs \<and> e \<in> set (vs_bucket_index st)" if "((st, nr, sr), e) \<in> set ?big" for st nr sr e
    using that by auto
  have "list_all2 (\<lambda>x (z, e). entry_merged decompress m x (fst z, e)) xs ?big"
  proof (rule list.rel_mono_strong[OF xs])
    fix x y assume y: "y \<in> set ?big" and fr: "(\<lambda>((st, nr, sr), e). entry_from decompress st nr sr (vs_buckets m) x e) y"
    obtain st nr sr e where yy: "y = ((st, nr, sr), e)" by (metis surj_pair)
    note i = inb[OF y[unfolded yy]]
    have "entry_merged decompress m x (st, e)"
      using zok[of st nr sr] i ok fr by (intro entry_from_merged[of _ _ _ _ nr sr]) (auto simp: yy)
    then show "(\<lambda>(z, e). entry_merged decompress m x (fst z, e)) y" by (simp add: yy)
  qed
  then have "list_all2 (entry_merged decompress m) (vs_bucket_index m) (stored_entries states)"
    unfolding proj ix by (simp add: list_all2_map2 split_def)
  moreover have "map bucket_seq (vs_bucket_index m) = map int [0..<length (stored_entries states)]"
    using g list_all2_lengthD[OF xs] by (simp add: ix mb_grows_def proj)
  moreover have "index_finds decompress m" if a: "\<forall>st\<in>set states. index_finds decompress st \<and> order_kept m st"
    unfolding index_finds_def
  proof (intro ballI)
    fix x r assume x: "x \<in> set (vs_bucket_index m)" and r: "r \<in> set (entry_records decompress (vs_buckets m) x)"
    then have "x \<in> set xs" by (simp only: ix)
    then obtain k where k: "k < length xs" "x = xs ! k" by (metis in_set_conv_nth)
    obtain st nr sr e where yy: "?big ! k = ((st, nr, sr), e)"
    proof (cases "?big ! k")
      case (Pair z e)
      then show thesis using that by (cases z) auto
    qed
    have "length xs = length ?big" by (rule list_all2_lengthD[OF xs])
    with k(1) have "k < length ?big" by (simp only:)
    then have "?big ! k \<in> set ?big" by (rule nth_mem)
    note i = inb[OF this[unfolded yy]]
    have fr: "entry_from decompress st nr sr (vs_buckets m) x e" using list_all2_nthD[OF xs k(1)] by (simp only: yy k(2) split_conv)
    note z = zok[OF i[THEN conjunct1]]
    have "index_finds decompress st" "order_kept m st" using a z by blast+
    then show "x \<in> set (buckets_for_name (br_name_id r) (Some (br_ts r)) (Some (br_ts r)) (vs_bucket_index m))"
      using i z by (intro entry_from_finds[OF _ _ _ _ fr x r]) blast+
  qed
  ultimately show ?thesis by blast
qed

text \<open>
  C25 (equivalence). Merging binary histories neither loses, duplicates nor reattributes a test run: the
  records in the buckets the merged index lists, read with the names and seeds of the merged registry,
  are together exactly the records of the sources read with theirs - although every id may have changed
  and the buckets were decoded and sealed again. Bucket by bucket: the merged index has an entry for
  every source entry whose bucket is in its archive, in the order of the sources and numbered from 0, with the
  same records, times and counts, and a name range between the same two tests. Looking a record up by
  its test and time finds its bucket if that is so in each source and the merged registry keeps the order of
  each source's names; where it does not, \<open>merged_index_misses_test\<close> below shows a lookup that misses.
  (\<open>decompress\<close> undoing \<open>compress\<close> is the documented contract of the standard library; the sources'
  ids must be ids of their own registries.)
\<close>

theorem history_merge_records:
  assumes "\<forall>raw. decompress (compress raw) = Inr raw"
    and "\<forall>st\<in>set states. state_ok decompress st"
    and "merge_v2_states compress decompress states = Inr m"
  shows "state_view decompress m = sum_list (map (state_view decompress) states) \<and>
    list_all2 (entry_merged decompress m) (vs_bucket_index m) (stored_entries states) \<and>
    map bucket_seq (vs_bucket_index m) = map int [0..<length (stored_entries states)] \<and>
    ((\<forall>st\<in>set states. index_finds decompress st \<and> order_kept m st) \<longrightarrow> index_finds decompress m)"
  using merge_records_aux[OF assms] merge_index_aux[OF assms] by blast

lemma offsets_nth: "i < length states \<Longrightarrow>
   run_id_offsets states ! i = sum_list (map (reg_next_run_id \<circ> vs_registry) (take i states))"
  by (simp add: run_id_offsets_def)

lemma offsets_disjoint:
  assumes "\<forall>st\<in>set states. 0 \<le> reg_next_run_id (vs_registry st)" "i < j" "j < length states"
  shows "run_id_offsets states ! i + reg_next_run_id (vs_registry (states ! i)) \<le> run_id_offsets states ! j"
proof -
  have e: "take j states = take i states @ states ! i # drop (Suc i) (take j states)"
    using id_take_nth_drop[of i "take j states"] assms(2,3) by (simp add: min_def)
  have n: "0 \<le> sum_list (map (reg_next_run_id \<circ> vs_registry) (drop (Suc i) (take j states)))"
    using assms(1) by (intro sum_list_nonneg) (auto dest!: in_set_dropD in_set_takeD)
  have "sum_list (map (reg_next_run_id \<circ> vs_registry) (take j states)) =
      sum_list (map (reg_next_run_id \<circ> vs_registry) (take i states)) + (reg_next_run_id (vs_registry (states ! i)) +
      sum_list (map (reg_next_run_id \<circ> vs_registry) (drop (Suc i) (take j states))))"
    by (subst e) simp
  then show ?thesis using assms(2,3) n by (simp add: offsets_nth)
qed

lemma merge_squash_logs_concat: "merge_squash_logs states = concat (map vs_squash_log states)"
proof -
  have a: "foldl (\<lambda>log e. squash_append e log) log es = log @ es" for log es
    by (induction es arbitrary: log) (simp_all add: squash_append_def)
  have "foldl (\<lambda>log st. foldl (\<lambda>log e. squash_append e log) log (vs_squash_log st)) l states = l @ concat (map vs_squash_log states)" for l
    by (induction states arbitrary: l) (simp_all add: a)
  then show ?thesis by (simp add: merge_squash_logs_def)
qed

lemma merge_runs_aux:
  assumes ok: "\<forall>st\<in>set states. state_ok decompress st \<and> 0 \<le> reg_next_run_id (vs_registry st)"
    and mg: "merge_v2_states compress decompress states = Inr m"
  shows "contrib_view (vs_registry m) (vs_contrib_index m) =
      sum_list (map (\<lambda>(st, off). image_mset (\<lambda>(r, x). (r + off, x)) (contrib_view (vs_registry st) (vs_contrib_index st)))
        (zip states (run_id_offsets states))) \<and>
    ci_sorted (vs_contrib_index m) \<and>
    reg_next_run_id (vs_registry m) = sum_list (map (reg_next_run_id \<circ> vs_registry) states) \<and>
    vs_squash_log m = concat (map vs_squash_log states)"
proof -
  obtain nrs srs mb where p: "length nrs = length states"
    and ro: "\<forall>i<length states. remap_ok (reg_names (vs_registry m)) (reg_names (vs_registry (states ! i))) (nrs ! i)"
    and ci: "vs_contrib_index m = foldl merge_contrib_index (new_contrib_index POLICY_PASS_ONLY 0)
               (zip (map vs_contrib_index states) (zip nrs (run_id_offsets states)))"
    and sl: "vs_squash_log m = merge_squash_logs states"
    and reg: "vs_registry m = advance (sum_list (map (reg_next_run_id \<circ> vs_registry) states)) (union_registry states)"
    using merge_v2_pieces[OF mg] by blast
  have lo: "length (run_id_offsets states) = length states" by (simp add: run_id_offsets_def)
  have s0: "ci_sorted (new_contrib_index POLICY_PASS_ONLY 0)" and e0: "ci_entries (new_contrib_index POLICY_PASS_ONLY 0) = []"
    by (simp_all add: new_contrib_index_def ci_sorted_def)
  have "\<forall>i<length states. state_ok decompress (states ! i) \<and>
      remap_ok (reg_names (vs_registry m)) (reg_names (vs_registry (states ! i))) (nrs ! i)" using ok ro by simp
  note v = remap_contribs_view[OF p lo this]
  note me = merge_contribs_entries[OF s0, of "zip (map vs_contrib_index states) (zip nrs (run_id_offsets states))"]
  have "contrib_view (vs_registry m) (vs_contrib_index m) =
      image_mset (\<lambda>e. (ce_run_id e, name_for_id (vs_registry m) (ce_name_id e), ce_status e, ce_flags e))
      (sum_list (map (\<lambda>(ci, nr, off). image_mset (remap_contrib nr off) (mset (ci_entries ci))) (zip (map vs_contrib_index states) (zip nrs (run_id_offsets states)))))"
    unfolding contrib_view_def ci using me by (simp add: e0)
  moreover have "ci_sorted (vs_contrib_index m)" unfolding ci using me by blast
  moreover have "0 \<le> sum_list (map (reg_next_run_id \<circ> vs_registry) states)" using ok by (intro sum_list_nonneg) auto
  then have "reg_next_run_id (vs_registry m) = sum_list (map (reg_next_run_id \<circ> vs_registry) states)"
    unfolding reg using union_registry_props[of states] by simp
  ultimately show ?thesis using v merge_squash_logs_concat sl by simp
qed

text \<open>
  The runs of the merged contribution index are those of the sources, each keeping its
  test's name, status and flags, with run ids shifted into ranges that do not overlap, so that no two
  sources' runs are ever confused; the index stays sorted, the next run id lies past every range, and
  the audit entries of all sources are kept in order.
\<close>

theorem history_merge_runs:
  assumes "\<forall>st\<in>set states. state_ok decompress st \<and> 0 \<le> reg_next_run_id (vs_registry st)"
    and "merge_v2_states compress decompress states = Inr m"
  shows "contrib_view (vs_registry m) (vs_contrib_index m) =
      sum_list (map (\<lambda>(st, off). image_mset (\<lambda>(r, x). (r + off, x)) (contrib_view (vs_registry st) (vs_contrib_index st)))
        (zip states (run_id_offsets states))) \<and>
    ci_sorted (vs_contrib_index m) \<and>
    reg_next_run_id (vs_registry m) = sum_list (map (reg_next_run_id \<circ> vs_registry) states) \<and>
    vs_squash_log m = concat (map vs_squash_log states) \<and>
    (\<forall>j<length states. \<forall>i<j. run_id_offsets states ! i + reg_next_run_id (vs_registry (states ! i)) \<le> run_id_offsets states ! j)"
  using merge_runs_aux[OF assms] offsets_disjoint[of states] assms(1) by blast

section \<open>An example\<close>

text \<open>
  A source whose only test is \<open>y\<close>, and one whose bucket holds a record of each of \<open>x\<close>, \<open>y\<close> and \<open>z\<close>. In the
  merged registry \<open>y\<close> is 0, \<open>x\<close> is 1 and \<open>z\<close> is 2.
\<close>

definition example_names :: "char list list \<Rightarrow> TestRegistry" where
  "example_names ns = snd (assign_run_id (snd (lookup_seed_id (lit ''1'') (foldl (\<lambda>reg n. snd (lookup_name_id (lit n) reg)) (new_registry 0) ns))))"

definition example_first :: v2_state where
  "example_first = empty_v2_state\<lparr>vs_registry := example_names [''y'']\<rparr>"

definition example_records :: "BucketRecord list" where
  "example_records = [bucket_record 0 0 100, bucket_record 1 0 100, bucket_record 2 0 100]"

definition example_second :: "bytes \<Rightarrow> v2_state" where
  "example_second raw = empty_v2_state\<lparr>vs_registry := example_names [''x'', ''y'', ''z''],
     vs_bucket_index := [\<lparr>bucket_seq = 0, ts_start = 100, ts_end = 100, num_records = 3, fail_count = 3, min_name_id = 0, max_name_id = 2\<rparr>],
     vs_buckets := [(0, raw)],
     vs_contrib_index := ci_add_entry \<lparr>ce_run_id = 0, ce_name_id = 2, ce_status = 0, ce_flags = 0\<rparr> (new_contrib_index POLICY_PASS_ONLY 0)\<rparr>"

lemma encodes:
  "is_ok (bindE (filled [bucket_record 0 0 100, bucket_record 1 0 100, bucket_record 2 0 100]) bucket_encode)"
  by (simp add: filled_def bucket_add_def new_bucket_def bucket_record_def bucket_encode_def sorted_records_def
        bucket_name_index_def name_groups_def BUCKET_HDR_def HDYB_MAGIC_def write_name_def BUCKET_NAME_def
        encode_varints_def encode_varint_def less_eq_prod_def)

lemma example_registries:
  "reg_names (example_names [''y'']) = [lit ''y'']" "reg_names (example_names [''x'', ''y'', ''z'']) = [lit ''x'', lit ''y'', lit ''z'']"
  "reg_seeds (example_names [''y'']) = [lit ''1'']" "reg_seeds (example_names [''x'', ''y'', ''z'']) = [lit ''1'']"
  "reg_next_run_id (example_names ns) = 1"
proof -
  have "reg_next_run_id (foldl (\<lambda>reg n. snd (lookup_name_id (lit n) reg)) reg ns) = reg_next_run_id reg" for reg
    by (induction ns arbitrary: reg) (auto simp: lookup_name_id_def Let_def split: option.split)
  then show "reg_next_run_id (example_names ns) = 1"
    by (simp add: example_names_def assign_run_id_def lookup_seed_id_def new_registry_def Let_def split: option.split)
qed (simp_all add: example_names_def assign_run_id_def lookup_seed_id_def lookup_name_id_def new_registry_def Let_def lit_def)

lemma example_union:
  "reg_names (union_registry [example_first, example_second raw]) = [lit ''y'', lit ''x'', lit ''z'']"
  "reg_name_to_id (union_registry [example_first, example_second raw]) = [(lit ''y'', 0), (lit ''x'', 1), (lit ''z'', 2)]"
  "reg_seeds (union_registry [example_first, example_second raw]) = [lit ''1'']"
  "reg_seed_to_id (union_registry [example_first, example_second raw]) = [(lit ''1'', 0)]"
  by (simp_all add: union_registry_def intern_state_def example_first_def example_second_def example_registries
      lookup_seed_id_def lookup_name_id_def new_registry_def Let_def lit_def)

lemma example_raw:
  "\<exists>raw rd. bucket_parse raw = Inr rd \<and> rd_records rd = example_records"
proof -
  have f: "is_ok (filled example_records)"
    by (simp add: example_records_def filled_def bucket_add_def new_bucket_def bucket_record_def)
  then obtain w where w: "filled example_records = Inr w" by (rule is_okE)
  then obtain raw where raw: "bucket_encode w = Inr raw" using encodes unfolding example_records_def[symmetric] by (auto elim: is_okE)
  have "\<forall>r\<in>set example_records. nibbles_ok r" by (simp add: nibbles_ok_def example_records_def bucket_record_def)
  from bucket_reread[OF w this raw, of "[]"] obtain rd where "bucket_parse raw = Inr rd" "rd_records rd = sorted_records example_records"
    by auto
  moreover have "sorted_records example_records = example_records"
    by (simp add: sorted_records_def example_records_def bucket_record_def less_eq_prod_def)
  ultimately show ?thesis by auto
qed

lemma example_remap:
  assumes "bucket_parse raw = Inr rd" "rd_records rd = example_records"
  shows "\<exists>c rd'. remap_bucket (\<lambda>b. b) Inr raw [1, 0, 2] [0] = Inr c \<and> bucket_parse c = Inr rd' \<and> rd_records rd' = example_records"
proof -
  let ?s = "map (remap_record [1, 0, 2] [0]) (sort_key (\<lambda>r. (remap_get [1, 0, 2] (br_name_id r), br_ts r)) example_records)"
  have s: "?s = example_records"
    by (simp add: example_records_def remap_record_def remap_get_def bucket_record_def less_eq_prod_def)
  have "is_ok (bindE (filled example_records) bucket_encode)" using encodes by (simp add: example_records_def)
  then obtain w c where w: "filled example_records = Inr w" "bucket_encode w = Inr c" by (auto elim!: is_okE bindE_InrE)
  have "list_ex (\<lambda>r. remap_get [1, 0, 2] (br_name_id r) \<noteq> br_name_id r \<or> remap_get [0] (br_seed_id r) \<noteq> br_seed_id r) example_records"
    by (simp add: example_records_def remap_get_def bucket_record_def)
  then have rb: "remap_bucket (\<lambda>b. b) Inr raw [1, 0, 2] [0] = bindE (filled ?s) (\<lambda>w. bindE (bucket_encode w) Inr)"
    unfolding remap_bucket_def bindE_Inr assms Let_def filled_def foldE_map by (simp only: not_True_eq_False if_False)
  have "\<forall>r\<in>set example_records. nibbles_ok r" by (simp add: nibbles_ok_def example_records_def bucket_record_def)
  from bucket_reread[OF w(1) this w(2), of "[]"] obtain rd' where "bucket_parse c = Inr rd'" "rd_records rd' = sorted_records example_records"
    by auto
  moreover have "sorted_records example_records = example_records"
    by (simp add: sorted_records_def example_records_def bucket_record_def less_eq_prod_def)
  ultimately show ?thesis using rb unfolding s by (simp add: w)
qed

lemma example_merge:
  "\<exists>raw m. (\<forall>st\<in>set [example_first, example_second raw]. state_ok Inr st \<and> 0 \<le> reg_next_run_id (vs_registry st)) \<and>
     merge_v2_states (\<lambda>b. b) Inr [example_first, example_second raw] = Inr m \<and> bucket_records Inr raw = example_records \<and>
     vs_bucket_index m = [\<lparr>bucket_seq = 0, ts_start = 100, ts_end = 100, num_records = 3, fail_count = 3, min_name_id = 1, max_name_id = 2\<rparr>] \<and>
     concat (map (entry_records Inr (vs_buckets m)) (vs_bucket_index m)) = example_records"
proof -
  obtain raw rd where raw: "bucket_parse raw = Inr rd" "rd_records rd = example_records" using example_raw by blast
  have br: "bucket_records Inr raw = example_records" by (simp add: bucket_records_def raw)
  obtain c rd' where c: "remap_bucket (\<lambda>b. b) Inr raw [1, 0, 2] [0] = Inr c" "bucket_parse c = Inr rd'" "rd_records rd' = example_records"
    using example_remap[OF raw] by blast
  have ok: "\<forall>st\<in>set [example_first, example_second raw]. state_ok Inr st \<and> 0 \<le> reg_next_run_id (vs_registry st)"
    by (simp add: state_ok_def example_first_def example_second_def empty_v2_state_def new_contrib_index_def ci_add_entry_def
        entry_records_def br example_registries) (simp add: example_records_def bucket_record_def)
  have ex: "vs_registry example_first = example_names [''y'']" "vs_registry (example_second raw) = example_names [''x'', ''y'', ''z'']"
    "vs_bucket_index example_first = []" "vs_buckets (example_second raw) = [(0, raw)]"
    by (simp_all add: example_first_def example_second_def empty_v2_state_def)
  have ix: "vs_bucket_index (example_second raw) =
      [\<lparr>bucket_seq = 0, ts_start = 100, ts_end = 100, num_records = 3, fail_count = 3, min_name_id = 0, max_name_id = 2\<rparr>]"
    by (simp add: example_second_def)
  obtain m where "merge_v2_states (\<lambda>b. b) Inr [example_first, example_second raw] = Inr m"
      "vs_bucket_index m = [\<lparr>bucket_seq = 0, ts_start = 100, ts_end = 100, num_records = 3, fail_count = 3, min_name_id = 1, max_name_id = 2\<rparr>]"
      "vs_buckets m = [(0, c)]"
    by (simp add: merge_v2_states_def Let_def example_union example_registries ex id_remap_def lit_def ix merge_bucket_def c(1)[simplified] remap_get_def)
  moreover have "bucket_records Inr c = example_records" by (simp add: bucket_records_def c)
  ultimately show ?thesis using ok br by (intro exI[of _ raw] exI[of _ m]) (simp add: entry_records_def)
qed

text \<open>A merge of the second source alone keeps every id, and its index finds every record.\<close>

lemma example_alone:
  "\<exists>raw m. (\<forall>st\<in>set [example_second raw]. state_ok Inr st \<and> index_finds Inr st \<and> order_kept m st) \<and>
     merge_v2_states (\<lambda>b. b) Inr [example_second raw] = Inr m \<and> bucket_records Inr raw = example_records"
proof -
  obtain raw rd where raw: "bucket_parse raw = Inr rd" "rd_records rd = example_records" using example_raw by blast
  have br: "bucket_records Inr raw = example_records" by (simp add: bucket_records_def raw)
  have ix: "vs_bucket_index (example_second raw) =
      [\<lparr>bucket_seq = 0, ts_start = 100, ts_end = 100, num_records = 3, fail_count = 3, min_name_id = 0, max_name_id = 2\<rparr>]"
    and ex: "vs_registry (example_second raw) = example_names [''x'', ''y'', ''z'']" "vs_buckets (example_second raw) = [(0, raw)]"
    by (simp_all add: example_second_def)
  have u: "reg_names (union_registry [example_second raw]) = [lit ''x'', lit ''y'', lit ''z'']"
    "reg_name_to_id (union_registry [example_second raw]) = [(lit ''x'', 0), (lit ''y'', 1), (lit ''z'', 2)]"
    "reg_seed_to_id (union_registry [example_second raw]) = [(lit ''1'', 0)]"
    by (simp_all add: union_registry_def intern_state_def ex example_registries lookup_seed_id_def lookup_name_id_def new_registry_def Let_def lit_def)
  have same: "remap_bucket (\<lambda>b. b) Inr raw [0, 1, 2] [0] = Inr raw"
    by (simp add: remap_bucket_def raw Let_def example_records_def remap_get_def bucket_record_def)
  obtain m where m: "merge_v2_states (\<lambda>b. b) Inr [example_second raw] = Inr m"
    by (simp add: merge_v2_states_def Let_def u example_registries ex id_remap_def lit_def ix merge_bucket_def same[simplified] remap_get_def)
  from merge_v2_pieces[OF m] have "reg_names (vs_registry m) = [lit ''x'', lit ''y'', lit ''z'']"
    using u(1) by (metis advance_props(1))
  then have "order_kept m (example_second raw)"
    by (auto simp: order_kept_def names_in_order_def range_ok_def ix ex example_registries lit_def less_Suc_eq numeral_3_eq_3)
  moreover have "state_ok Inr (example_second raw)" "index_finds Inr (example_second raw)"
    by (simp_all add: state_ok_def index_finds_def buckets_for_name_def ix ex entry_records_def br example_registries)
      (simp_all add: example_second_def empty_v2_state_def new_contrib_index_def ci_add_entry_def example_records_def bucket_record_def)
  ultimately show ?thesis using m br by (intro exI[of _ raw] exI[of _ m]) simp
qed

lemma history_merge_records_witness:
  "\<exists>raw m. merge_v2_states (\<lambda>b. b) Inr [example_second raw] = Inr m \<and> index_finds Inr m \<and>
     state_view Inr m = state_view Inr (example_second raw) \<and> bucket_records Inr raw = example_records"
proof -
  obtain raw m where e: "\<forall>st\<in>set [example_second raw]. state_ok Inr st \<and> index_finds Inr st \<and> order_kept m st"
    "merge_v2_states (\<lambda>b. b) Inr [example_second raw] = Inr m" "bucket_records Inr raw = example_records"
    using example_alone by blast
  have ok: "\<forall>st\<in>set [example_second raw]. state_ok Inr st" and f: "\<forall>st\<in>set [example_second raw]. index_finds Inr st \<and> order_kept m st"
    using e(1) by blast+
  from history_merge_records[of Inr "\<lambda>b. b", OF _ ok e(2)] f
  have "index_finds Inr m" "state_view Inr m = sum_list (map (state_view Inr) [example_second raw])" by blast+
  then show ?thesis using e(2,3) by (intro exI[of _ raw] exI[of _ m]) simp
qed

lemma history_merge_runs_witness:
  "\<exists>raw m. merge_v2_states (\<lambda>b. b) Inr [example_first, example_second raw] = Inr m \<and>
     contrib_view (vs_registry m) (vs_contrib_index m) = {#(1, Inr (lit ''z''), 0, 0)#} \<and> reg_next_run_id (vs_registry m) = 2"
proof -
  obtain raw m where e: "\<forall>st\<in>set [example_first, example_second raw]. state_ok Inr st \<and> 0 \<le> reg_next_run_id (vs_registry st)"
    "merge_v2_states (\<lambda>b. b) Inr [example_first, example_second raw] = Inr m"
    using example_merge by blast
  have v: "contrib_view (vs_registry (example_second raw)) (vs_contrib_index (example_second raw)) = {#(0, Inr (lit ''z''), 0, 0)#}"
    "contrib_view (vs_registry example_first) (vs_contrib_index example_first) = {#}"
    by (simp_all add: contrib_view_def example_first_def example_second_def empty_v2_state_def new_contrib_index_def ci_add_entry_def
        name_for_id_def example_registries py_nth_def)
  have o: "run_id_offsets [example_first, example_second raw] = [0, 1]"
    by (simp add: run_id_offsets_def example_first_def example_registries)
  have n: "reg_next_run_id (vs_registry example_first) = 1" "reg_next_run_id (vs_registry (example_second raw)) = 1"
    by (simp_all add: example_first_def example_second_def example_registries)
  from history_merge_runs[OF e] show ?thesis using e(2) by (intro exI[of _ raw] exI[of _ m]) (simp add: v o n)
qed

text \<open>
  The name range of a merged bucket-index entry is the image of the source's range end
  points, but a remap need not be monotone: there is a merge after which the bucket holds a record of a
  test that \<open>buckets_for_name\<close> does not find it under, although the source's index did find it.
\<close>

theorem merged_index_misses_test:
  "\<exists>raw m r. merge_v2_states (\<lambda>b. b) Inr [example_first, example_second raw] = Inr m \<and>
     r \<in> set (concat (map (entry_records Inr (vs_buckets m)) (vs_bucket_index m))) \<and>
     name_for_id (vs_registry m) (br_name_id r) = Inr (lit ''y'') \<and>
     buckets_for_name (br_name_id r) None None (vs_bucket_index m) = [] \<and>
     buckets_for_name 1 None None (vs_bucket_index (example_second raw)) = vs_bucket_index (example_second raw) \<and>
     name_for_id (vs_registry (example_second raw)) 1 = Inr (lit ''y'')"
proof -
  obtain raw m where e: "merge_v2_states (\<lambda>b. b) Inr [example_first, example_second raw] = Inr m"
    "vs_bucket_index m = [\<lparr>bucket_seq = 0, ts_start = 100, ts_end = 100, num_records = 3, fail_count = 3, min_name_id = 1, max_name_id = 2\<rparr>]"
    "concat (map (entry_records Inr (vs_buckets m)) (vs_bucket_index m)) = example_records" using example_merge by blast
  from merge_v2_pieces[OF e(1)] have "vs_registry m =
      advance (sum_list (map (reg_next_run_id \<circ> vs_registry) [example_first, example_second raw])) (union_registry [example_first, example_second raw])"
    by blast
  then have "name_for_id (vs_registry m) 0 = Inr (lit ''y'')"
    unfolding name_for_id_def by (simp only: advance_props example_union) (simp add: py_nth_def)
  moreover have "name_for_id (vs_registry (example_second raw)) 1 = Inr (lit ''y'')"
    by (simp add: name_for_id_def example_second_def example_registries py_nth_def)
  moreover have "bucket_record 0 0 100 \<in> set example_records" by (simp add: example_records_def)
  ultimately show ?thesis using e
    by (intro exI[of _ raw] exI[of _ m] exI[of _ "bucket_record 0 0 100"])
      (simp add: buckets_for_name_def bucket_record_def example_second_def)
qed

end
