(* ===== verification/Manifest.thy ===== *)
theory Manifest
  imports Varint PyText
begin

text \<open>
  \<open>ncdb/manifest.py\<close>: the identity record of an archive, its binary form and the schema hash by which
  a merge decides that two archives have the same bins. The file has a LEB128 encoder of its own, whose
  loop does not end on a negative number: a definition that writes one has the value \<open>None\<close> then.
  \<open>hashlib.sha256(...).hexdigest()\<close> is a parameter, and so is the reader of the JSON form of old
  manifests.
\<close>

section \<open>The file's own LEB128\<close>

partial_function (option) m_enc_varint :: "int \<Rightarrow> bytes option" where
  "m_enc_varint v =
     (let b = v AND 127; v' = drop_bit 7 v
      in if v' \<noteq> 0 then Option.bind (m_enc_varint v') (\<lambda>rest. Some (of_int (b OR 128) # rest)) else Some [of_int b])"

function m_dec_loop :: "bytes \<Rightarrow> nat \<Rightarrow> nat \<Rightarrow> nat \<Rightarrow> (nat \<times> nat) res" where
  "m_dec_loop data r shift off =
     (if length data \<le> off then Inl IndexError
      else let b = unat (data ! off); r' = r OR push_bit shift (b AND 127)
           in if b AND 128 = 0 then Inr (r', Suc off) else m_dec_loop data r' (shift + 7) (Suc off))"
  by pat_completeness auto
termination
  by (relation "measure (\<lambda>(data, _, _, off). length data - off)") auto

declare m_dec_loop.simps [simp del]

definition m_dec_varint :: "bytes \<Rightarrow> nat \<Rightarrow> (nat \<times> nat) res" where
  "m_dec_varint data off = m_dec_loop data 0 0 off"

section \<open>The record and its binary form\<close>

record Manifest =
  mf_format :: pystr
  mf_version :: pystr
  mf_ucis_version :: pystr
  mf_created :: pystr
  mf_path_separator :: pystr
  mf_scope_count :: int
  mf_coveritem_count :: int
  mf_test_count :: int
  mf_total_hits :: int
  mf_covered_bins :: int
  mf_schema_hash :: pystr
  mf_generator :: pystr
  mf_history_format :: pystr
  mf_vendor_id :: pystr
  mf_vendor_tool :: pystr
  mf_vendor_tool_version :: pystr
  mf_ucis_standard :: pystr
  mf_schema_version_major :: int
  mf_schema_version_minor :: int
  mf_feature_flags :: int
  mf_n_history_nodes :: int
  mf_n_associations :: int

definition HISTORY_FORMAT_V1 :: pystr where "HISTORY_FORMAT_V1 = lit ''v1''"
definition HISTORY_FORMAT_V2 :: pystr where "HISTORY_FORMAT_V2 = lit ''v2''"
definition NCDB_FORMAT :: pystr where "NCDB_FORMAT = lit ''NCDB''"
definition NCDB_VERSION :: pystr where "NCDB_VERSION = lit ''2.0''"
definition NCDB_GENERATOR :: pystr where "NCDB_GENERATOR = lit ''pyucis-ncdb''"

definition new_manifest :: Manifest where
  "new_manifest = \<lparr>mf_format = NCDB_FORMAT, mf_version = NCDB_VERSION, mf_ucis_version = lit ''1.0'', mf_created = [],
     mf_path_separator = lit ''/'', mf_scope_count = 0, mf_coveritem_count = 0, mf_test_count = 0, mf_total_hits = 0,
     mf_covered_bins = 0, mf_schema_hash = [], mf_generator = NCDB_GENERATOR, mf_history_format = HISTORY_FORMAT_V1,
     mf_vendor_id = [], mf_vendor_tool = [], mf_vendor_tool_version = [], mf_ucis_standard = [],
     mf_schema_version_major = 3, mf_schema_version_minor = 0, mf_feature_flags = 0, mf_n_history_nodes = 0, mf_n_associations = 0\<rparr>"

definition MANIFEST_MAGIC :: bytes where "MANIFEST_MAGIC = [0x4E, 0x4D, 0x41, 0x4E]"

definition bin_strings :: "Manifest \<Rightarrow> pystr list" where
  "bin_strings m = [mf_format m, mf_version m, mf_ucis_version m, mf_created m, mf_path_separator m,
     mf_schema_hash m, mf_generator m, mf_history_format m,
     mf_vendor_id m, mf_vendor_tool m, mf_vendor_tool_version m, mf_ucis_standard m]"

definition bin_numbers :: "Manifest \<Rightarrow> int list" where
  "bin_numbers m = [mf_scope_count m, mf_coveritem_count m, mf_test_count m, mf_total_hits m, mf_covered_bins m]"

text \<open>
  Serializing may raise (\<open>Some (Inl _)\<close>) or not return (\<open>None\<close>); the steps run in order and the first
  that does not deliver bytes decides.
\<close>

fun then_write :: "bytes res option \<Rightarrow> bytes res option \<Rightarrow> bytes res option" where
  "then_write None _ = None"
| "then_write (Some (Inl e)) _ = Some (Inl e)"
| "then_write (Some (Inr a)) k = (case k of None \<Rightarrow> None | Some (Inl e) \<Rightarrow> Some (Inl e) | Some (Inr b) \<Rightarrow> Some (Inr (a @ b)))"

definition write_number :: "int \<Rightarrow> bytes res option" where
  "write_number v = map_option Inr (m_enc_varint v)"

definition write_string :: "pystr \<Rightarrow> bytes res option" where
  "write_string s =
     (case utf8_encode s of
        Inl e \<Rightarrow> Some (Inl e)
      | Inr b \<Rightarrow> then_write (write_number (int (length b))) (Some (Inr b)))"

definition write_all :: "bytes res option list \<Rightarrow> bytes res option" where
  "write_all ws = foldr then_write ws (Some (Inr []))"

definition manifest_serialize :: "Manifest \<Rightarrow> bytes res option" where
  "manifest_serialize m =
     write_all
       ([Some (Inr (MANIFEST_MAGIC @ [2]))] @ map write_string (bin_strings m) @ map write_number (bin_numbers m) @
        [Some (to_bytes_le 4 (mf_schema_version_major m)), Some (to_bytes_le 4 (mf_schema_version_minor m)),
         Some (to_bytes_le 8 (mf_feature_flags m)), write_number (mf_n_history_nodes m), write_number (mf_n_associations m)])"

definition m_read_string :: "bytes \<Rightarrow> nat \<Rightarrow> (pystr \<times> nat) res" where
  "m_read_string data off =
     bindE (m_dec_varint data off) (\<lambda>(n, off).
     bindE (utf8_decode (slice data off (off + n))) (\<lambda>s. Inr (s, off + n)))"

definition manifest_from_binary :: "bytes \<Rightarrow> Manifest res" where
  "manifest_from_binary data =
     bindE (byte_at data 4) (\<lambda>version.
       if version \<noteq> 2 \<and> version \<noteq> 1 then Inl ValueError
       else
         bindE (repeat_dec m_read_string 12 data 5) (\<lambda>(ss, off).
         bindE (repeat_dec m_dec_varint 5 data off) (\<lambda>(ns, off).
         let m = new_manifest
               \<lparr>mf_format := ss ! 0, mf_version := ss ! 1, mf_ucis_version := ss ! 2, mf_created := ss ! 3,
                mf_path_separator := ss ! 4, mf_schema_hash := ss ! 5, mf_generator := ss ! 6, mf_history_format := ss ! 7,
                mf_vendor_id := ss ! 8, mf_vendor_tool := ss ! 9, mf_vendor_tool_version := ss ! 10, mf_ucis_standard := ss ! 11,
                mf_scope_count := int (ns ! 0), mf_coveritem_count := int (ns ! 1), mf_test_count := int (ns ! 2),
                mf_total_hits := int (ns ! 3), mf_covered_bins := int (ns ! 4)\<rparr>
         in if version \<ge> 2 then
              bindE (m_dec_varint data (off + 16)) (\<lambda>(hn, off').
              bindE (m_dec_varint data off') (\<lambda>(na, _).
                Inr (m\<lparr>mf_schema_version_major := int (le_val (slice data off (off + 4))),
                       mf_schema_version_minor := int (le_val (slice data (off + 4) (off + 8))),
                       mf_feature_flags := int (le_val (slice data (off + 8) (off + 16))),
                       mf_n_history_nodes := int hn, mf_n_associations := int na\<rparr>)))
            else Inr (m\<lparr>mf_schema_version_major := 3, mf_schema_version_minor := 0, mf_feature_flags := 0,
                        mf_n_history_nodes := mf_test_count m, mf_n_associations := 0\<rparr>))))"

definition manifest_from_bytes :: "(bytes \<Rightarrow> Manifest res) \<Rightarrow> bytes \<Rightarrow> Manifest res" where
  "manifest_from_bytes from_json data =
     (if slice data 0 4 = MANIFEST_MAGIC then manifest_from_binary data else from_json data)"

section \<open>Schema hash\<close>

definition SCHEMA_HASH_V2_TAG :: bytes where
  "SCHEMA_HASH_V2_TAG = map of_nat (lit ''ncdb-schema-v2'') @ [0]"

definition schema_v2_input :: "bytes \<Rightarrow> bytes \<Rightarrow> bytes" where
  "schema_v2_input scope_tree_bytes strings_bytes =
     SCHEMA_HASH_V2_TAG @ varint_loop (length scope_tree_bytes) @ scope_tree_bytes @
     varint_loop (length strings_bytes) @ strings_bytes"

definition compute_schema_hash :: "(bytes \<Rightarrow> pystr) \<Rightarrow> bytes \<Rightarrow> bytes option \<Rightarrow> pystr" where
  "compute_schema_hash sha scope_tree_bytes strings_bytes =
     (case strings_bytes of
        None \<Rightarrow> lit ''sha256:'' @ sha scope_tree_bytes
      | Some strings \<Rightarrow> lit ''sha256v2:'' @ sha (schema_v2_input scope_tree_bytes strings))"

text \<open>\<open>int(s, 16)\<close> of ASCII input: white space around, a sign, \<open>0x\<close>, and single underscores between digits.\<close>

definition hex_digit :: "nat \<Rightarrow> nat option" where
  "hex_digit c =
     (if 48 \<le> c \<and> c \<le> 57 then Some (c - 48) else if 97 \<le> c \<and> c \<le> 102 then Some (c - 87)
      else if 65 \<le> c \<and> c \<le> 70 then Some (c - 55) else None)"

fun hex_digits :: "nat \<Rightarrow> pystr \<Rightarrow> nat option" where
  "hex_digits acc [] = Some acc"
| "hex_digits acc (c # cs) =
     (case hex_digit c of
        Some d \<Rightarrow> hex_digits (acc * 16 + d) cs
      | None \<Rightarrow> if c = 95 \<and> cs \<noteq> [] \<and> hex_digit (hd cs) \<noteq> None then hex_digits acc cs else None)"

definition hex_unsigned :: "pystr \<Rightarrow> nat option" where
  "hex_unsigned s =
     (let t = (if startswith s (lit ''0x'') \<or> startswith s (lit ''0X'')
               then (let u = str_from 2 s in if u \<noteq> [] \<and> hd u = 95 then tl u else u) else s)
      in if t \<noteq> [] \<and> hex_digit (hd t) \<noteq> None then hex_digits 0 t else None)"

definition py_int16 :: "pystr \<Rightarrow> int option" where
  "py_int16 s =
     (let t = str_strip s in
      if t \<noteq> [] \<and> hd t = 45 then map_option (\<lambda>n. - int n) (hex_unsigned (tl t))
      else if t \<noteq> [] \<and> hd t = 43 then map_option int (hex_unsigned (tl t))
      else map_option int (hex_unsigned t))"

definition schema_fingerprint :: "pystr \<Rightarrow> int" where
  "schema_fingerprint schema_hash =
     (let from_hex = (\<lambda>hex_digest. if length hex_digest < 16 then 0
            else case py_int16 (take 16 hex_digest) of None \<Rightarrow> 0 | Some v \<Rightarrow> v)
      in if schema_hash = [] then 0
         else if startswith schema_hash (lit ''sha256v2:'') then from_hex (str_from 9 schema_hash)
         else if startswith schema_hash (lit ''sha256:'') then from_hex (str_from 7 schema_hash)
         else 0)"

section \<open>The encoder loop\<close>

lemma m_enc_varint_nat: "m_enc_varint (int n) = Some (varint_loop n)"
proof (induction n rule: less_induct)
  case (less n)
  have a: "int n AND 127 = int (n AND 127)" "drop_bit 7 (int n) = int (drop_bit 7 n)"
    using of_nat_and_eq[of n 127, where 'a = int] by (simp_all add: drop_bit_of_nat)
  have b: "of_int (int m OR 128) = (of_nat (m OR 128) :: byte)" for m
    using of_nat_or_eq[of m 128, where 'a = int] by (metis of_int_of_nat_eq of_nat_numeral)
  show ?case
  proof (cases "drop_bit 7 n = 0")
    case True
    then show ?thesis by (subst m_enc_varint.simps, subst varint_loop.simps) (simp add: a)
  next
    case False
    then have "drop_bit 7 n < n" by (auto simp: drop_bit_7)
    from less.IH[OF this] False show ?thesis
      by (subst m_enc_varint.simps, subst varint_loop.simps) (simp add: a b)
  qed
qed

lemma m_enc_varint_terminates: "m_enc_varint v = Some bs \<Longrightarrow> 0 \<le> v"
proof (rule m_enc_varint.raw_induct[of "\<lambda>v _. 0 \<le> v"])
  fix f :: "int \<Rightarrow> bytes option" and v y
  assume ih: "\<And>v bs. f v = Some bs \<Longrightarrow> 0 \<le> v"
    and run: "(let b = v AND 127; v' = drop_bit 7 v
       in if v' \<noteq> 0 then Option.bind (f v') (\<lambda>rest. Some (of_int (b OR 128) # rest)) else Some [of_int b]) = Some y"
  show "0 \<le> v"
  proof (cases "drop_bit 7 v = 0")
    case True
    then show ?thesis by (metis drop_bit_negative_int_iff less_irrefl linorder_not_le)
  next
    case False
    then obtain r where "f (drop_bit 7 v) = Some r" using run by (auto simp: bind_eq_Some_conv)
    from ih[OF this] show ?thesis by simp
  qed
qed

lemma m_enc_varint_eq: "m_enc_varint v = (if 0 \<le> v then Some (varint_loop (nat v)) else None)"
  using m_enc_varint_nat[of "nat v"] m_enc_varint_terminates[of v] by (cases "m_enc_varint v") auto

lemma m_dec_loop_eq:
  "m_dec_loop data r shift off =
     (case decode_varint_loop data r shift off of Inl _ \<Rightarrow> Inl IndexError | Inr x \<Rightarrow> Inr x)"
proof (induction data r shift off rule: m_dec_loop.induct)
  case (1 data r shift off)
  then show ?case
    by (subst m_dec_loop.simps, subst decode_varint_loop.simps) (simp split: if_splits)
qed

lemma m_dec_varint_at: "at data off (varint_loop v) \<Longrightarrow> m_dec_varint data off = Inr (v, off + length (varint_loop v))"
  using decode_varint_at[of data off v] by (simp add: m_dec_varint_def m_dec_loop_eq decode_varint_def)

section \<open>Round trip\<close>

definition enc_str :: "pystr \<Rightarrow> bytes res" where
  "enc_str s = bindE (utf8_encode s) (\<lambda>b. Inr (varint_loop (length b) @ b))"

lemma write_string_eq: "write_string s = Some (enc_str s)"
  by (cases "utf8_encode s") (simp_all add: write_string_def enc_str_def write_number_def m_enc_varint_nat)

interpretation mstr: codec enc_str m_read_string
proof
  fix s bs data off
  assume "enc_str s = Inr bs" and a: "at data off bs"
  then obtain b where b: "utf8_encode s = Inr b" "bs = varint_loop (length b) @ b"
    by (auto simp: enc_str_def elim: bindE_InrE)
  then have "at data off (varint_loop (length b))" "at data (off + length (varint_loop (length b))) b"
    using a by (simp_all add: at_append)
  then show "m_read_string data off = Inr (s, off + length bs)"
    using b utf8_roundtrip[OF b(1)] by (simp add: m_read_string_def m_dec_varint_at at_slice add.assoc)
qed

interpretation mnum: codec enc_nat m_dec_varint
  by unfold_locales (auto simp: enc_nat_def intro: m_dec_varint_at)

lemma then_write_assoc: "then_write (then_write a b) c = then_write a (then_write b c)"
  by (induction a b rule: then_write.induct) (auto split: option.split sum.split)

lemma write_all_append: "write_all (xs @ ys) = then_write (write_all xs) (write_all ys)"
  by (induction xs) (auto simp: write_all_def then_write_assoc split: option.split sum.split)

lemma write_all_sum: "write_all (map (\<lambda>x. Some (f x)) xs) = Some (concatE f xs)"
proof (induction xs)
  case (Cons x xs)
  then show ?case by (cases "f x"; cases "concatE f xs") (simp_all add: write_all_def)
qed (simp add: write_all_def)

lemma write_all_numbers:
  "write_all (map write_number vs) = (if \<forall>v\<in>set vs. 0 \<le> v then Some (Inr (concat (map (varint_loop \<circ> nat) vs))) else None)"
proof (induction vs)
  case (Cons v vs)
  then show ?case by (auto simp: write_all_def write_number_def m_enc_varint_eq comp_def)
qed (simp add: write_all_def)

definition manifest_words :: "Manifest \<Rightarrow> bytes res" where
  "manifest_words m = concatE (\<lambda>(n, v). to_bytes_le n v)
     [(4, mf_schema_version_major m), (4, mf_schema_version_minor m), (8, mf_feature_flags m)]"

lemma manifest_serialize_parts:
  "manifest_serialize m =
     then_write (Some (Inr (MANIFEST_MAGIC @ [2]))) (then_write (Some (concatE enc_str (bin_strings m)))
       (then_write (write_all (map write_number (bin_numbers m))) (then_write (Some (manifest_words m))
         (write_all (map write_number [mf_n_history_nodes m, mf_n_associations m])))))"
proof -
  have a: "write_all [w] = then_write w (Some (Inr []))" for w by (simp add: write_all_def)
  have nil: "then_write w (Some (Inr [])) = w" for w
  proof (cases w)
    case (Some y)
    then show ?thesis by (cases y) simp_all
  qed simp
  have w: "write_all (map (\<lambda>(n, v). Some (to_bytes_le n v)) [(4, mf_schema_version_major m), (4, mf_schema_version_minor m), (8, mf_feature_flags m)])
      = Some (manifest_words m)"
    unfolding manifest_words_def case_prod_unfold by (rule write_all_sum)
  have str: "map write_string (bin_strings m) = map (\<lambda>s. Some (enc_str s)) (bin_strings m)" by (simp add: write_string_eq)
  have split: "[Some (to_bytes_le 4 (mf_schema_version_major m)), Some (to_bytes_le 4 (mf_schema_version_minor m)),
         Some (to_bytes_le 8 (mf_feature_flags m)), write_number (mf_n_history_nodes m), write_number (mf_n_associations m)] =
       map (\<lambda>(n, v). Some (to_bytes_le n v)) [(4, mf_schema_version_major m), (4, mf_schema_version_minor m), (8, mf_feature_flags m)] @
       map write_number [mf_n_history_nodes m, mf_n_associations m]" by simp
  show ?thesis
    unfolding manifest_serialize_def split str
    unfolding write_all_append write_all_sum w a nil by (rule refl)
qed

lemma bin_lengths: "length (bin_strings m) = 12" "length (bin_numbers m) = 5"
  by (simp_all add: bin_strings_def bin_numbers_def)

text \<open>What a completed write consists of.\<close>

lemma manifest_serialize_SomeE:
  assumes "manifest_serialize m = Some (Inr data)"
  obtains ss w4 w5 w8 where "concatE enc_str (bin_strings m) = Inr ss" "\<forall>v\<in>set (bin_numbers m). 0 \<le> v"
    "to_bytes_le 4 (mf_schema_version_major m) = Inr w4" "to_bytes_le 4 (mf_schema_version_minor m) = Inr w5"
    "to_bytes_le 8 (mf_feature_flags m) = Inr w8" "0 \<le> mf_n_history_nodes m" "0 \<le> mf_n_associations m"
    "data = (MANIFEST_MAGIC @ [2]) @ ss @ concat (map (varint_loop \<circ> nat) (bin_numbers m)) @ (w4 @ w5 @ w8) @
       varint_loop (nat (mf_n_history_nodes m)) @ varint_loop (nat (mf_n_associations m))"
proof -
  obtain ss where ss: "concatE enc_str (bin_strings m) = Inr ss"
    using assms unfolding manifest_serialize_parts by (cases "concatE enc_str (bin_strings m)") simp_all
  have n: "\<forall>v\<in>set (bin_numbers m). 0 \<le> v"
    using assms unfolding manifest_serialize_parts write_all_numbers by (auto simp: ss split: if_splits)
  obtain ws where ws: "manifest_words m = Inr ws"
    using assms unfolding manifest_serialize_parts write_all_numbers by (cases "manifest_words m") (simp_all add: ss n)
  have h: "0 \<le> mf_n_history_nodes m" "0 \<le> mf_n_associations m"
    using assms unfolding manifest_serialize_parts write_all_numbers by (auto simp: ss n ws split: if_splits)
  obtain w4 w5 w8 where w: "to_bytes_le 4 (mf_schema_version_major m) = Inr w4" "to_bytes_le 4 (mf_schema_version_minor m) = Inr w5"
    "to_bytes_le 8 (mf_feature_flags m) = Inr w8" "ws = w4 @ w5 @ w8"
    using ws unfolding manifest_words_def by (auto elim!: bindE_InrE)
  show ?thesis
    using assms ss n h w that unfolding manifest_serialize_parts write_all_numbers by (simp add: ws)
qed

lemma manifest_reread:
  assumes "manifest_serialize m = Some (Inr data)"
  shows "manifest_from_binary (data @ rest) = Inr m"
proof -
  obtain ss w4 w5 w8 where p: "concatE enc_str (bin_strings m) = Inr ss" "\<forall>v\<in>set (bin_numbers m). 0 \<le> v"
    "to_bytes_le 4 (mf_schema_version_major m) = Inr w4" "to_bytes_le 4 (mf_schema_version_minor m) = Inr w5"
    "to_bytes_le 8 (mf_feature_flags m) = Inr w8" "0 \<le> mf_n_history_nodes m" "0 \<le> mf_n_associations m"
    and d: "data = (MANIFEST_MAGIC @ [2]) @ ss @ concat (map (varint_loop \<circ> nat) (bin_numbers m)) @ (w4 @ w5 @ w8) @
       varint_loop (nat (mf_n_history_nodes m)) @ varint_loop (nat (mf_n_associations m))"
    using manifest_serialize_SomeE[OF assms] by blast
  let ?nb = "concat (map (varint_loop \<circ> nat) (bin_numbers m))"
  have len: "length MANIFEST_MAGIC = 4" by (simp add: MANIFEST_MAGIC_def)
  have wl: "length w4 = 4" "length w5 = 4" "length w8 = 8" and wv: "int (le_val w4) = mf_schema_version_major m"
    "int (le_val w5) = mf_schema_version_minor m" "int (le_val w8) = mf_feature_flags m"
    using to_bytes_le_val[OF p(3)] to_bytes_le_val[OF p(4)] to_bytes_le_val[OF p(5)]
      to_bytes_le_length[OF p(3)] to_bytes_le_length[OF p(4)] to_bytes_le_length[OF p(5)] by simp_all
  define D where "D = data @ rest"
  have "at D 0 data" unfolding D_def using at_intro[of "[]" data rest] by simp
  moreover define p2 where "p2 = 5 + length ss + length ?nb"
  ultimately have a: "4 < length D \<and> D ! 4 = 2" "at D 5 ss" "at D (5 + length ss) ?nb" "at D p2 w4"
    "at D (p2 + 4) w5" "at D (p2 + 8) w8"
    "at D (p2 + 16) (varint_loop (nat (mf_n_history_nodes m)))"
    "at D (p2 + 16 + length (varint_loop (nat (mf_n_history_nodes m)))) (varint_loop (nat (mf_n_associations m)))"
    unfolding d by (simp_all add: at_append at_Cons len wl p2_def add.assoc)
  have v: "byte_at D 4 = Inr 2" using a(1) by (simp add: byte_at_def)
  have s: "repeat_dec m_read_string 12 D 5 = Inr (bin_strings m, 5 + length ss)"
    using mstr.repeat_dec_enc[OF p(1) a(2)] by (simp add: bin_lengths)
  have ns: "map int (map nat (bin_numbers m)) = bin_numbers m" using p(2) by (simp add: map_idI)
  have "concatE enc_nat (map nat (bin_numbers m)) = Inr (concat (map varint_loop (map nat (bin_numbers m))))"
    by (rule concatE_Inr) (simp add: enc_nat_def)
  then have "concatE enc_nat (map nat (bin_numbers m)) = Inr ?nb" by simp
  from mnum.repeat_dec_enc[OF this a(3)] have n: "repeat_dec m_dec_varint 5 D (5 + length ss) = Inr (map nat (bin_numbers m), p2)"
    by (simp add: bin_lengths p2_def)
  have w: "slice D p2 (p2 + 4) = w4"
    "slice D (p2 + 4) (p2 + 8) = w5"
    "slice D (p2 + 8) (p2 + 16) = w8"
    using a(4-6) by (auto intro!: at_slice simp: wl)
  show ?thesis
    unfolding D_def[symmetric] manifest_from_binary_def v bindE_Inr
    using p(2,6,7) by (simp add: s n m_dec_varint_at[OF a(7)] m_dec_varint_at[OF a(8)] w wv) (simp add: bin_strings_def bin_numbers_def)
qed

section \<open>Properties\<close>

definition manifest_ok :: "Manifest \<Rightarrow> bool" where
  "manifest_ok m \<longleftrightarrow> (\<forall>s\<in>set (bin_strings m). list_all scalar s) \<and> (\<forall>v\<in>set (bin_numbers m). 0 \<le> v) \<and>
     0 \<le> mf_schema_version_major m \<and> mf_schema_version_major m < 2 ^ 32 \<and>
     0 \<le> mf_schema_version_minor m \<and> mf_schema_version_minor m < 2 ^ 32 \<and>
     0 \<le> mf_feature_flags m \<and> mf_feature_flags m < 2 ^ 64 \<and> 0 \<le> mf_n_history_nodes m \<and> 0 \<le> mf_n_associations m"

lemma enc_str_ok: "is_ok (enc_str s) \<longleftrightarrow> list_all scalar s"
  by (simp add: enc_str_def utf8_encode_ok[symmetric] is_ok_iff bindE_eq_Inr)

lemma strings_ok: "is_ok (concatE enc_str (bin_strings m)) \<longleftrightarrow> (\<forall>s\<in>set (bin_strings m). list_all scalar s)"
  by (simp add: concatE_ok enc_str_ok)

lemma manifest_serialize_total: "manifest_ok m \<Longrightarrow> \<exists>data. manifest_serialize m = Some (Inr data)"
proof -
  assume ok: "manifest_ok m"
  then obtain ss where "concatE enc_str (bin_strings m) = Inr ss" using strings_ok[of m] by (auto simp: manifest_ok_def elim: is_okE)
  moreover have "is_ok (manifest_words m)"
    using ok by (simp add: manifest_words_def to_bytes_le_def manifest_ok_def)
  then obtain ws where "manifest_words m = Inr ws" by (rule is_okE)
  ultimately show ?thesis
    using ok unfolding manifest_serialize_parts write_all_numbers by (auto simp: manifest_ok_def)
qed

text \<open>
  A manifest with encodable strings and counts in range is written, and reading the
  archive gives back every field, whatever bytes follow.
\<close>

theorem manifest_roundtrip:
  assumes "manifest_ok m"
  shows "\<exists>data. manifest_serialize m = Some (Inr data) \<and> manifest_from_bytes from_json (data @ rest) = Inr m"
proof -
  obtain data where data: "manifest_serialize m = Some (Inr data)" using manifest_serialize_total[OF assms] by blast
  then obtain tail where "data = MANIFEST_MAGIC @ tail" by (elim manifest_serialize_SomeE) (metis append_assoc)
  then have "slice (data @ rest) 0 4 = MANIFEST_MAGIC" by (simp add: slice_def MANIFEST_MAGIC_def)
  with manifest_reread[OF data, of rest] data show ?thesis by (auto simp: manifest_from_bytes_def)
qed

definition example_manifest :: Manifest where
  "example_manifest = new_manifest\<lparr>mf_coveritem_count := 300, mf_total_hits := 70000, mf_schema_hash := lit ''sha256v2:00'', mf_feature_flags := 5\<rparr>"

lemma manifest_roundtrip_witness:
  "\<exists>data. manifest_serialize example_manifest = Some (Inr data) \<and> manifest_from_bytes (\<lambda>_. Inl ValueError) (data @ [7]) = Inr example_manifest"
proof -
  have "manifest_ok example_manifest"
    by (simp add: manifest_ok_def example_manifest_def new_manifest_def bin_strings_def bin_numbers_def lit_def scalar_def
        NCDB_FORMAT_def NCDB_VERSION_def NCDB_GENERATOR_def HISTORY_FORMAT_V1_def)
  from manifest_roundtrip[OF this] show ?thesis .
qed

text \<open>
  C28 (termination). Writing a manifest always ends, in bytes or an exception, unless a count is
  negative: the file's own LEB128 loop shifts a negative number for ever. Exactly then, when no string
  before it is rejected (and, for the two counts of the extension, no version field overflows), does the
  write not return.
\<close>

theorem manifest_write_diverges:
  "manifest_serialize m = None \<longleftrightarrow>
     (\<forall>s\<in>set (bin_strings m). list_all scalar s) \<and>
     ((\<exists>v\<in>set (bin_numbers m). v < 0) \<or>
      (0 \<le> mf_schema_version_major m \<and> mf_schema_version_major m < 2 ^ 32 \<and>
       0 \<le> mf_schema_version_minor m \<and> mf_schema_version_minor m < 2 ^ 32 \<and>
       0 \<le> mf_feature_flags m \<and> mf_feature_flags m < 2 ^ 64 \<and> (mf_n_history_nodes m < 0 \<or> mf_n_associations m < 0)))"
proof (cases "concatE enc_str (bin_strings m)")
  case (Inl e)
  then have "\<not> (\<forall>s\<in>set (bin_strings m). list_all scalar s)" using strings_ok[of m] by (metis is_ok_simps(1))
  then show ?thesis unfolding manifest_serialize_parts Inl then_write.simps by simp
next
  case (Inr ss)
  then have s: "\<forall>s\<in>set (bin_strings m). list_all scalar s" using strings_ok[of m] by (metis is_ok_simps(2))
  have w: "is_ok (manifest_words m) \<longleftrightarrow> 0 \<le> mf_schema_version_major m \<and> mf_schema_version_major m < 2 ^ 32 \<and>
       0 \<le> mf_schema_version_minor m \<and> mf_schema_version_minor m < 2 ^ 32 \<and>
       0 \<le> mf_feature_flags m \<and> mf_feature_flags m < 2 ^ 64"
    by (auto simp: manifest_words_def to_bytes_le_def is_ok_iff bindE_eq_Inr)
  show ?thesis
  proof (cases "manifest_words m")
    case ws: (Inl e)
    then have "\<not> is_ok (manifest_words m)" by simp
    note n = this[unfolded w]
    from n s show ?thesis
      unfolding manifest_serialize_parts write_all_numbers Inr ws by (auto simp: not_le)
  next
    case ws: (Inr b)
    then have "is_ok (manifest_words m)" by simp
    note n = this[unfolded w]
    from n s show ?thesis
      unfolding manifest_serialize_parts write_all_numbers Inr ws by (auto simp: not_le)
  qed
qed

lemma manifest_write_diverges_witness: "manifest_serialize (example_manifest\<lparr>mf_covered_bins := - 1\<rparr>) = None"
  unfolding manifest_write_diverges
  by (simp add: example_manifest_def new_manifest_def bin_strings_def bin_numbers_def lit_def scalar_def
      NCDB_FORMAT_def NCDB_VERSION_def NCDB_GENERATOR_def HISTORY_FORMAT_V1_def)

lemma schema_v2_input_inj: "schema_v2_input t s = schema_v2_input t' s' \<longleftrightarrow> t = t' \<and> s = s'"
proof
  have prefix: "b = b' \<and> r = r'" if e: "varint_loop (length b) @ b @ r = varint_loop (length b') @ b' @ r'" for b b' r r'
  proof -
    let ?D = "varint_loop (length b) @ b @ r"
    have "at ?D 0 (varint_loop (length b))" "at ?D 0 (varint_loop (length b'))"
      using at_intro[of "[]" "varint_loop (length b)" "b @ r"] at_intro[of "[]" "varint_loop (length b')" "b' @ r'"] e by simp_all
    from decode_varint_at[OF this(1)] decode_varint_at[OF this(2)] have "length b = length b'" by simp
    with e show ?thesis by simp
  qed
  assume "schema_v2_input t s = schema_v2_input t' s'"
  then have e: "varint_loop (length t) @ t @ (varint_loop (length s) @ s @ []) = varint_loop (length t') @ t' @ (varint_loop (length s') @ s' @ [])"
    by (simp add: schema_v2_input_def)
  from prefix[OF this] have "t = t'" "varint_loop (length s) @ s @ [] = varint_loop (length s') @ s' @ []" by blast+
  with prefix[OF this(2)] show "t = t' \<and> s = s'" by blast
qed simp

text \<open>
  Equal schema hashes of the current construction mean equal hierarchies and equal names:
  unless SHA-256 gives the same digest for two different inputs, both members agree, so bins that share
  a hash are the same bins. A hash of the older construction, which covers the shape alone, never equals
  one of the current.
\<close>

theorem schema_hash_identifies:
  assumes "sha (schema_v2_input t s) = sha (schema_v2_input t' s') \<Longrightarrow> schema_v2_input t s = schema_v2_input t' s'"
  shows "(compute_schema_hash sha t (Some s) = compute_schema_hash sha t' (Some s') \<longleftrightarrow> t = t' \<and> s = s') \<and>
    compute_schema_hash sha t (Some s) \<noteq> compute_schema_hash sha t'' None"
  using assms by (auto simp: compute_schema_hash_def lit_def schema_v2_input_inj)

text \<open>A digest for the witnesses: 64 hexadecimal digits of the length and the sum of the input.\<close>

definition example_digest :: "bytes \<Rightarrow> pystr" where
  "example_digest b = replicate (64 - length b) 48 @ map (\<lambda>x. 97 + unat x mod 6) b"

lemma schema_hash_identifies_witness:
  "compute_schema_hash example_digest [1, 2] (Some [3]) \<noteq> compute_schema_hash example_digest [1] (Some [2, 3]) \<and>
   compute_schema_hash example_digest [1, 2] (Some [3]) \<noteq> compute_schema_hash example_digest [1, 2] None"
proof -
  have "schema_v2_input [1, 2] [3] \<noteq> schema_v2_input [1] [2, 3]" by (simp only: schema_v2_input_inj) simp
  moreover have "example_digest (schema_v2_input [1, 2] [3]) \<noteq> example_digest (schema_v2_input [1] [2, 3])"
    by (simp add: example_digest_def schema_v2_input_def varint_loop_small SCHEMA_HASH_V2_TAG_def lit_def)
  ultimately have "example_digest (schema_v2_input [1, 2] [3]) = example_digest (schema_v2_input [1] [2, 3]) \<Longrightarrow>
     schema_v2_input [1, 2] [3] = schema_v2_input [1] [2, 3]" by blast
  from schema_hash_identifies[where sha = example_digest, OF this, of "[1, 2]"] show ?thesis by simp
qed

section \<open>Fingerprint\<close>

definition hex_value :: "nat list \<Rightarrow> nat" where
  "hex_value = foldl (\<lambda>a c. a * 16 + the (hex_digit c)) 0"

lemma hex_digits_value:
  "\<forall>c\<in>set s. hex_digit c \<noteq> None \<Longrightarrow> hex_digits acc s = Some (foldl (\<lambda>a c. a * 16 + the (hex_digit c)) acc s)"
  by (induction s arbitrary: acc) auto

lemma hex_digit_bounds: "hex_digit c = Some d \<Longrightarrow> d < 16 \<and> \<not> is_space c \<and> c \<noteq> 45 \<and> c \<noteq> 43 \<and> c \<noteq> 120 \<and> c \<noteq> 88"
  by (auto simp: hex_digit_def is_space_def split: if_splits)

lemma hex_value_less:
  "\<forall>c\<in>set s. hex_digit c \<noteq> None \<Longrightarrow> foldl (\<lambda>a c. a * 16 + the (hex_digit c)) acc s < (acc + 1) * 16 ^ length s"
proof (induction s arbitrary: acc)
  case (Cons c s)
  obtain d where d: "hex_digit c = Some d" using Cons.prems by auto
  then have "d < 16" using hex_digit_bounds by blast
  then have "(acc * 16 + d + 1) * 16 ^ length s \<le> (acc + 1) * 16 ^ length (c # s)"
    by (simp add: algebra_simps)
  with Cons.IH[of "acc * 16 + d"] Cons.prems d show ?case by (simp add: mult.commute)
qed simp

lemma fingerprint_hex:
  assumes "length s = 16" "\<forall>c\<in>set s. hex_digit c \<noteq> None"
  shows "py_int16 s = Some (int (hex_value s))"
proof -
  obtain a t where t: "s = a # t" "length t = 15" using assms(1) by (cases s) auto
  then obtain b r where s: "s = a # b # r" by (cases t) auto
  have a: "hex_digit a \<noteq> None" "\<not> is_space a" "a \<noteq> 45" "a \<noteq> 43" and b: "b \<noteq> 120" "b \<noteq> 88"
    using assms(2) hex_digit_bounds[of a] hex_digit_bounds[of b] by (auto simp: s)
  have sp: "\<forall>c\<in>set s. \<not> is_space c" using assms(2) hex_digit_bounds by blast
  have strip: "str_strip s = s"
  proof -
    have "dropWhile is_space t = t" if "\<forall>c\<in>set t. \<not> is_space c" for t using that by (cases t) auto
    from this[OF sp] this[of "rev s"] sp show ?thesis by (simp add: str_strip_def)
  qed
  have "hex_unsigned s = Some (hex_value s)"
    using a b hex_digits_value[OF assms(2), of 0] by (simp add: hex_unsigned_def startswith_def lit_def hex_value_def s)
  then show ?thesis using a by (simp add: py_int16_def strip) (simp add: s)
qed

text \<open>
  The 64-bit fingerprint of a well-formed hash of either construction is the value of its
  first 16 hexadecimal digits, so it fits the field of the association members; of an unknown prefix or
  a digest that is too short it is 0.
\<close>

theorem fingerprint_bounds:
  assumes "16 \<le> length digest" "\<forall>c\<in>set (take 16 digest). hex_digit c \<noteq> None"
  shows "schema_fingerprint (lit ''sha256v2:'' @ digest) = int (hex_value (take 16 digest)) \<and>
    schema_fingerprint (lit ''sha256:'' @ digest) = int (hex_value (take 16 digest)) \<and>
    hex_value (take 16 digest) < 2 ^ 64 \<and>
    (\<forall>h. \<not> startswith h (lit ''sha256v2:'') \<and> \<not> startswith h (lit ''sha256:'') \<longrightarrow> schema_fingerprint h = 0)"
proof -
  have l: "length (take 16 digest) = 16" using assms(1) by simp
  note f = fingerprint_hex[OF l assms(2)]
  have "hex_value (take 16 digest) < 2 ^ 64"
    using hex_value_less[OF assms(2), of 0] unfolding l by (simp add: hex_value_def)
  moreover have "schema_fingerprint (lit ''sha256v2:'' @ digest) = int (hex_value (take 16 digest))"
    using assms(1) f by (simp add: schema_fingerprint_def lit_def startswith_def str_from_def)
  moreover have "schema_fingerprint (lit ''sha256:'' @ digest) = int (hex_value (take 16 digest))"
    using assms(1) f by (simp add: schema_fingerprint_def lit_def startswith_def str_from_def)
  ultimately show ?thesis by (simp add: schema_fingerprint_def)
qed

lemma fingerprint_bounds_witness:
  "schema_fingerprint (lit ''sha256v2:'' @ lit ''00000000000000ff00'') = 255 \<and> hex_value (lit ''00000000000000ff'') = 255"
proof -
  have "\<forall>c\<in>set (take 16 (lit ''00000000000000ff00'')). hex_digit c \<noteq> None" by (simp add: lit_def hex_digit_def)
  moreover have "hex_value (take 16 (lit ''00000000000000ff00'')) = 255" "hex_value (lit ''00000000000000ff'') = 255"
    by (simp_all add: lit_def hex_value_def hex_digit_def)
  ultimately show ?thesis using fingerprint_bounds[of "lit ''00000000000000ff00''"] by simp
qed

end
