(* ===== verification/Json.thy ===== *)
theory Json
  imports Utf8 Complex_Main "HOL-Library.List_Lexorder"
begin

text \<open>
  The values \<open>json.loads\<close> returns and \<open>json.dumps\<close> takes, for the members kept as JSON text: \<open>None\<close>,
  booleans, integers, floats (rational numbers here: the code stores them and never computes with
  them), strings, lists, and dictionaries in insertion order.
\<close>

datatype json =
    JNull
  | JBool bool
  | JInt int
  | JFloat rat
  | JStr pystr
  | JList "json list"
  | JObj "(pystr \<times> json) list"

text \<open>\<open>d.get(key)\<close>: the value \<open>None\<close> and an absent key are not told apart.\<close>

definition jget :: "(pystr \<times> json) list \<Rightarrow> char list \<Rightarrow> json" where
  "jget d key = (case dict_get d (lit key) of None \<Rightarrow> JNull | Some v \<Rightarrow> v)"

definition jget_or :: "(pystr \<times> json) list \<Rightarrow> char list \<Rightarrow> json \<Rightarrow> json" where
  "jget_or d key dflt = (case dict_get d (lit key) of None \<Rightarrow> dflt | Some v \<Rightarrow> v)"

lemma lit_inject [simp]: "lit s = lit t \<longleftrightarrow> s = t"
proof
  assume "lit s = lit t"
  moreover have "inj (of_char :: char \<Rightarrow> nat)" by (rule inj_of_char)
  ultimately show "s = t" by (simp add: lit_def inj_map_eq_map)
qed simp

end
