(* ===== verification/HistoryNodes.thy ===== *)
theory HistoryNodes
  imports Json
begin

text \<open>
  \<open>ncdb/history.py\<close> and \<open>mem/mem_history_node.py\<close>: the test and merge records of a database and their
  JSON form. A field that may hold anything is a JSON value, \<open>None\<close> being \<open>JNull\<close>. The current time, the
  default of a node's date, is a parameter.
\<close>

section \<open>Nodes\<close>

datatype HistoryNodeKind = HNK_NONE | HNK_ALL | HNK_TEST | HNK_MERGE

fun hnk_int :: "HistoryNodeKind \<Rightarrow> int" where
  "hnk_int HNK_NONE = - 1" | "hnk_int HNK_ALL = 0" | "hnk_int HNK_TEST = 1" | "hnk_int HNK_MERGE = 2"

fun hnk_name :: "HistoryNodeKind \<Rightarrow> pystr" where
  "hnk_name HNK_NONE = lit ''NONE''" | "hnk_name HNK_ALL = lit ''ALL''"
| "hnk_name HNK_TEST = lit ''TEST''" | "hnk_name HNK_MERGE = lit ''MERGE''"

definition hnk_all :: "HistoryNodeKind list" where
  "hnk_all = [HNK_NONE, HNK_ALL, HNK_TEST, HNK_MERGE]"

text \<open>\<open>getKind()\<close> may also be \<open>None\<close> or a bare integer.\<close>

datatype node_kind = NK_None | NK HistoryNodeKind | NK_int int

datatype TestStatusT = TS_OK | TS_WARNING | TS_ERROR | TS_FATAL | TS_MISSING | TS_MERGE_ERROR

fun ts_int :: "TestStatusT \<Rightarrow> int" where
  "ts_int TS_OK = 1" | "ts_int TS_WARNING = 2" | "ts_int TS_ERROR = 3" | "ts_int TS_FATAL = 4" | "ts_int TS_MISSING = 5"
| "ts_int TS_MERGE_ERROR = 6"

definition ts_of_int :: "int \<Rightarrow> TestStatusT option" where
  "ts_of_int v = List.find (\<lambda>s. ts_int s = v) [TS_OK, TS_WARNING, TS_ERROR, TS_FATAL, TS_MISSING, TS_MERGE_ERROR]"

text \<open>The test status: an enumeration member, or the boolean that \<open>setIntProperty\<close> stores.\<close>

datatype status_value = SV_None | SV TestStatusT | SV_bool bool

text \<open>A node's parent (\<open>m_parent\<close>) is another node of the same history; the model names it by its position there.\<close>

record MemHistoryNode =
  hn_parent :: "nat option"
  hn_logical_name :: json
  hn_physical_name :: json
  hn_kind :: node_kind
  hn_test_status :: status_value
  hn_sim_time :: json
  hn_time_unit :: json
  hn_run_cwd :: json
  hn_cpu_time :: json
  hn_seed :: json
  hn_cmd :: json
  hn_args :: json
  hn_compulsory :: json
  hn_date :: json
  hn_user_name :: json
  hn_cost :: json
  hn_tool_category :: json
  hn_ucis_version :: json
  hn_vendor_id :: json
  hn_vendor_tool :: json
  hn_vendor_tool_version :: json
  hn_same_tests :: json
  hn_comment :: json
  hn_attributes :: "(pystr \<times> pystr) list"

definition new_history_node :: "int \<Rightarrow> nat option \<Rightarrow> json \<Rightarrow> json \<Rightarrow> node_kind \<Rightarrow> MemHistoryNode" where
  "new_history_node now parent logicalname physicalname kind =
     \<lparr>hn_parent = parent, hn_logical_name = logicalname, hn_physical_name = physicalname, hn_kind = kind, hn_test_status = SV TS_OK,
      hn_sim_time = JFloat (- 1), hn_time_unit = JNull, hn_run_cwd = JNull, hn_cpu_time = JFloat (- 1), hn_seed = JNull,
      hn_cmd = JNull, hn_args = JNull, hn_compulsory = JNull, hn_date = JInt now, hn_user_name = JNull, hn_cost = JInt (- 1),
      hn_tool_category = JStr (lit ''unknown''), hn_ucis_version = JStr (lit ''1.0''), hn_vendor_id = JStr (lit ''unknown''),
      hn_vendor_tool = JStr (lit ''unknown''), hn_vendor_tool_version = JStr (lit ''unknown''), hn_same_tests = JInt (- 1),
      hn_comment = JNull, hn_attributes = []\<rparr>"

text \<open>\<open>getIntProperty\<close> and \<open>setIntProperty\<close> with \<open>IntProperty.TEST_STATUS\<close>; every enumeration member is true.\<close>

definition get_status_property :: "MemHistoryNode \<Rightarrow> int" where
  "get_status_property n = (case hn_test_status n of SV_None \<Rightarrow> 0 | SV _ \<Rightarrow> 1 | SV_bool b \<Rightarrow> of_bool b)"

definition set_status_property :: "int \<Rightarrow> MemHistoryNode \<Rightarrow> MemHistoryNode" where
  "set_status_property value n = n\<lparr>hn_test_status := SV_bool (value = 1)\<rparr>"

definition hn_set_attribute :: "pystr \<Rightarrow> pystr \<Rightarrow> MemHistoryNode \<Rightarrow> MemHistoryNode" where
  "hn_set_attribute key value n = n\<lparr>hn_attributes := dict_set key value (hn_attributes n)\<rparr>"

definition hn_get_attribute :: "pystr \<Rightarrow> MemHistoryNode \<Rightarrow> pystr option" where
  "hn_get_attribute key n = dict_get (hn_attributes n) key"

section \<open>Writer\<close>

definition kind_to_str :: "node_kind \<Rightarrow> pystr" where
  "kind_to_str k =
     (case k of
        NK_None \<Rightarrow> lit ''TEST''
      | NK k \<Rightarrow> hnk_name k
      | NK_int i \<Rightarrow> (case List.find (\<lambda>k. hnk_int k = i) hnk_all of None \<Rightarrow> lit ''TEST'' | Some k \<Rightarrow> hnk_name k))"

definition kind_from_str :: "json \<Rightarrow> HistoryNodeKind res" where
  "kind_from_str j =
     (case j of
        JStr s \<Rightarrow> Inr (case List.find (\<lambda>k. hnk_name k = s) hnk_all of None \<Rightarrow> HNK_TEST | Some k \<Rightarrow> k)
      | JList _ \<Rightarrow> Inl TypeError
      | JObj _ \<Rightarrow> Inl TypeError
      | _ \<Rightarrow> Inr HNK_TEST)"

definition status_to_int :: "status_value \<Rightarrow> int" where
  "status_to_int s = (case s of SV_None \<Rightarrow> ts_int TS_OK | SV t \<Rightarrow> ts_int t | SV_bool b \<Rightarrow> of_bool b)"

text \<open>\<open>TestStatusT(v)\<close> finds a member by value, so \<open>True\<close> and \<open>1.0\<close> are \<open>OK\<close> too.\<close>

definition status_from_int :: "json \<Rightarrow> TestStatusT" where
  "status_from_int j =
     (let member = (\<lambda>v. case ts_of_int v of None \<Rightarrow> TS_OK | Some t \<Rightarrow> t)
      in case j of
           JInt v \<Rightarrow> member v
         | JBool b \<Rightarrow> member (of_bool b)
         | JFloat q \<Rightarrow> if q = of_int \<lfloor>q\<rfloor> then member \<lfloor>q\<rfloor> else TS_OK
         | _ \<Rightarrow> TS_OK)"

definition history_record :: "MemHistoryNode \<Rightarrow> (pystr \<times> json) list" where
  "history_record node =
     [(lit ''logical_name'', hn_logical_name node),
      (lit ''physical_name'', hn_physical_name node),
      (lit ''kind'', JStr (kind_to_str (hn_kind node))),
      (lit ''test_status'', JInt (status_to_int (hn_test_status node))),
      (lit ''sim_time'', hn_sim_time node),
      (lit ''time_unit'', hn_time_unit node),
      (lit ''run_cwd'', hn_run_cwd node),
      (lit ''cpu_time'', hn_cpu_time node),
      (lit ''seed'', hn_seed node),
      (lit ''cmd'', hn_cmd node),
      (lit ''args'', hn_args node),
      (lit ''compulsory'', hn_compulsory node),
      (lit ''date'', hn_date node),
      (lit ''user_name'', hn_user_name node),
      (lit ''cost'', hn_cost node),
      (lit ''tool_category'', hn_tool_category node),
      (lit ''ucis_version'', hn_ucis_version node),
      (lit ''vendor_id'', hn_vendor_id node),
      (lit ''vendor_tool'', hn_vendor_tool node),
      (lit ''vendor_tool_version'', hn_vendor_tool_version node),
      (lit ''same_tests'', hn_same_tests node),
      (lit ''comment'', hn_comment node)]"

definition history_serialize :: "MemHistoryNode list \<Rightarrow> (pystr \<times> json) list list" where
  "history_serialize nodes = map history_record nodes"

section \<open>Reader\<close>

definition history_setters :: "(char list \<times> (json \<Rightarrow> MemHistoryNode \<Rightarrow> MemHistoryNode)) list" where
  "history_setters =
     [(''sim_time'', \<lambda>v n. n\<lparr>hn_sim_time := v\<rparr>), (''time_unit'', \<lambda>v n. n\<lparr>hn_time_unit := v\<rparr>),
      (''run_cwd'', \<lambda>v n. n\<lparr>hn_run_cwd := v\<rparr>), (''cpu_time'', \<lambda>v n. n\<lparr>hn_cpu_time := v\<rparr>),
      (''seed'', \<lambda>v n. n\<lparr>hn_seed := v\<rparr>), (''cmd'', \<lambda>v n. n\<lparr>hn_cmd := v\<rparr>), (''args'', \<lambda>v n. n\<lparr>hn_args := v\<rparr>),
      (''compulsory'', \<lambda>v n. n\<lparr>hn_compulsory := v\<rparr>), (''date'', \<lambda>v n. n\<lparr>hn_date := v\<rparr>),
      (''user_name'', \<lambda>v n. n\<lparr>hn_user_name := v\<rparr>), (''cost'', \<lambda>v n. n\<lparr>hn_cost := v\<rparr>),
      (''tool_category'', \<lambda>v n. n\<lparr>hn_tool_category := v\<rparr>), (''vendor_id'', \<lambda>v n. n\<lparr>hn_vendor_id := v\<rparr>),
      (''vendor_tool'', \<lambda>v n. n\<lparr>hn_vendor_tool := v\<rparr>), (''vendor_tool_version'', \<lambda>v n. n\<lparr>hn_vendor_tool_version := v\<rparr>),
      (''same_tests'', \<lambda>v n. n\<lparr>hn_same_tests := v\<rparr>), (''comment'', \<lambda>v n. n\<lparr>hn_comment := v\<rparr>)]"

text \<open>\<open>if rec.get(key) is not None: node.set...(rec[key])\<close>\<close>

definition set_when :: "(pystr \<times> json) list \<Rightarrow> MemHistoryNode \<Rightarrow> char list \<times> (json \<Rightarrow> MemHistoryNode \<Rightarrow> MemHistoryNode) \<Rightarrow> MemHistoryNode" where
  "set_when rec node = (\<lambda>(key, setter). if jget rec key = JNull then node else setter (jget rec key) node)"

definition history_node_of :: "int \<Rightarrow> (pystr \<times> json) list \<Rightarrow> MemHistoryNode res" where
  "history_node_of now rec =
     bindE (kind_from_str (jget_or rec ''kind'' (JStr (lit ''TEST'')))) (\<lambda>kind.
       let node = new_history_node now None (jget_or rec ''logical_name'' (JStr [])) (jget rec ''physical_name'') (NK kind);
           node = node\<lparr>hn_test_status := SV (status_from_int (jget_or rec ''test_status'' (JInt 0)))\<rparr>
       in Inr (foldl (set_when rec) node history_setters))"

definition history_deserialize :: "int \<Rightarrow> (pystr \<times> json) list list \<Rightarrow> MemHistoryNode list res" where
  "history_deserialize now records = mapE (history_node_of now) records"

section \<open>Round trip\<close>

lemma kind_str_cases: "\<exists>k. kind_to_str nk = hnk_name k"
  by (cases nk) (auto simp: kind_to_str_def split: option.split intro: exI[of _ HNK_TEST])

lemma hnk_name_inj: "hnk_name k = hnk_name k' \<longleftrightarrow> k = k'"
  by (cases k; cases k') simp_all

lemma kind_from_name [simp]: "kind_from_str (JStr (hnk_name k)) = Inr k"
  by (cases k) (simp_all add: kind_from_str_def hnk_all_def)

definition kind_read :: "node_kind \<Rightarrow> HistoryNodeKind" where
  "kind_read nk = (case nk of NK_None \<Rightarrow> HNK_TEST | NK k \<Rightarrow> k
     | NK_int i \<Rightarrow> (case List.find (\<lambda>k. hnk_int k = i) hnk_all of None \<Rightarrow> HNK_TEST | Some k \<Rightarrow> k))"

lemma kind_to_str_read: "kind_to_str nk = hnk_name (kind_read nk)"
  by (cases nk) (simp_all add: kind_to_str_def kind_read_def split: option.split)

definition status_read :: "status_value \<Rightarrow> TestStatusT" where
  "status_read s = (case s of SV t \<Rightarrow> t | _ \<Rightarrow> TS_OK)"

lemma status_from_to: "status_from_int (JInt (status_to_int s)) = status_read s"
proof (cases s)
  case (SV t)
  then show ?thesis by (cases t) (simp_all add: status_from_int_def status_to_int_def status_read_def ts_of_int_def)
next
  case (SV_bool b)
  then show ?thesis by (cases b) (simp_all add: status_from_int_def status_to_int_def status_read_def ts_of_int_def)
qed (simp add: status_from_int_def status_to_int_def status_read_def ts_of_int_def)

definition or_default :: "json \<Rightarrow> json \<Rightarrow> json" where
  "or_default v d = (if v = JNull then d else v)"

text \<open>What a node is after a write and a read: \<open>None\<close> fields have their defaults, and what the record does not hold is lost.\<close>

definition canon_node :: "int \<Rightarrow> MemHistoryNode \<Rightarrow> MemHistoryNode" where
  "canon_node now n =
     \<lparr>hn_parent = None, hn_logical_name = hn_logical_name n, hn_physical_name = hn_physical_name n, hn_kind = NK (kind_read (hn_kind n)),
      hn_test_status = SV (status_read (hn_test_status n)),
      hn_sim_time = or_default (hn_sim_time n) (JFloat (- 1)), hn_time_unit = hn_time_unit n, hn_run_cwd = hn_run_cwd n,
      hn_cpu_time = or_default (hn_cpu_time n) (JFloat (- 1)), hn_seed = hn_seed n, hn_cmd = hn_cmd n, hn_args = hn_args n,
      hn_compulsory = hn_compulsory n, hn_date = or_default (hn_date n) (JInt now), hn_user_name = hn_user_name n,
      hn_cost = or_default (hn_cost n) (JInt (- 1)), hn_tool_category = or_default (hn_tool_category n) (JStr (lit ''unknown'')),
      hn_ucis_version = JStr (lit ''1.0''), hn_vendor_id = or_default (hn_vendor_id n) (JStr (lit ''unknown'')),
      hn_vendor_tool = or_default (hn_vendor_tool n) (JStr (lit ''unknown'')),
      hn_vendor_tool_version = or_default (hn_vendor_tool_version n) (JStr (lit ''unknown'')),
      hn_same_tests = or_default (hn_same_tests n) (JInt (- 1)), hn_comment = hn_comment n, hn_attributes = []\<rparr>"

lemma record_fields [simp]:
  "dict_get (history_record n) (lit ''logical_name'') = Some (hn_logical_name n)"
  "dict_get (history_record n) (lit ''physical_name'') = Some (hn_physical_name n)"
  "dict_get (history_record n) (lit ''sim_time'') = Some (hn_sim_time n)"
  "dict_get (history_record n) (lit ''time_unit'') = Some (hn_time_unit n)"
  "dict_get (history_record n) (lit ''run_cwd'') = Some (hn_run_cwd n)"
  "dict_get (history_record n) (lit ''cpu_time'') = Some (hn_cpu_time n)"
  "dict_get (history_record n) (lit ''seed'') = Some (hn_seed n)"
  "dict_get (history_record n) (lit ''cmd'') = Some (hn_cmd n)"
  "dict_get (history_record n) (lit ''args'') = Some (hn_args n)"
  "dict_get (history_record n) (lit ''compulsory'') = Some (hn_compulsory n)"
  "dict_get (history_record n) (lit ''date'') = Some (hn_date n)"
  "dict_get (history_record n) (lit ''user_name'') = Some (hn_user_name n)"
  "dict_get (history_record n) (lit ''cost'') = Some (hn_cost n)"
  "dict_get (history_record n) (lit ''tool_category'') = Some (hn_tool_category n)"
  "dict_get (history_record n) (lit ''ucis_version'') = Some (hn_ucis_version n)"
  "dict_get (history_record n) (lit ''vendor_id'') = Some (hn_vendor_id n)"
  "dict_get (history_record n) (lit ''vendor_tool'') = Some (hn_vendor_tool n)"
  "dict_get (history_record n) (lit ''vendor_tool_version'') = Some (hn_vendor_tool_version n)"
  "dict_get (history_record n) (lit ''same_tests'') = Some (hn_same_tests n)"
  "dict_get (history_record n) (lit ''comment'') = Some (hn_comment n)"
  "dict_get (history_record n) (lit ''kind'') = Some (JStr (kind_to_str (hn_kind n)))"
  "dict_get (history_record n) (lit ''test_status'') = Some (JInt (status_to_int (hn_test_status n)))"
  by (simp_all add: history_record_def)

lemma set_when_fields:
  "set_when rec n (''sim_time'', \<lambda>v n. n\<lparr>hn_sim_time := v\<rparr>) = n\<lparr>hn_sim_time := or_default (jget rec ''sim_time'') (hn_sim_time n)\<rparr>"
  "set_when rec n (''time_unit'', \<lambda>v n. n\<lparr>hn_time_unit := v\<rparr>) = n\<lparr>hn_time_unit := or_default (jget rec ''time_unit'') (hn_time_unit n)\<rparr>"
  "set_when rec n (''run_cwd'', \<lambda>v n. n\<lparr>hn_run_cwd := v\<rparr>) = n\<lparr>hn_run_cwd := or_default (jget rec ''run_cwd'') (hn_run_cwd n)\<rparr>"
  "set_when rec n (''cpu_time'', \<lambda>v n. n\<lparr>hn_cpu_time := v\<rparr>) = n\<lparr>hn_cpu_time := or_default (jget rec ''cpu_time'') (hn_cpu_time n)\<rparr>"
  "set_when rec n (''seed'', \<lambda>v n. n\<lparr>hn_seed := v\<rparr>) = n\<lparr>hn_seed := or_default (jget rec ''seed'') (hn_seed n)\<rparr>"
  "set_when rec n (''cmd'', \<lambda>v n. n\<lparr>hn_cmd := v\<rparr>) = n\<lparr>hn_cmd := or_default (jget rec ''cmd'') (hn_cmd n)\<rparr>"
  "set_when rec n (''args'', \<lambda>v n. n\<lparr>hn_args := v\<rparr>) = n\<lparr>hn_args := or_default (jget rec ''args'') (hn_args n)\<rparr>"
  "set_when rec n (''compulsory'', \<lambda>v n. n\<lparr>hn_compulsory := v\<rparr>) = n\<lparr>hn_compulsory := or_default (jget rec ''compulsory'') (hn_compulsory n)\<rparr>"
  "set_when rec n (''date'', \<lambda>v n. n\<lparr>hn_date := v\<rparr>) = n\<lparr>hn_date := or_default (jget rec ''date'') (hn_date n)\<rparr>"
  "set_when rec n (''user_name'', \<lambda>v n. n\<lparr>hn_user_name := v\<rparr>) = n\<lparr>hn_user_name := or_default (jget rec ''user_name'') (hn_user_name n)\<rparr>"
  "set_when rec n (''cost'', \<lambda>v n. n\<lparr>hn_cost := v\<rparr>) = n\<lparr>hn_cost := or_default (jget rec ''cost'') (hn_cost n)\<rparr>"
  "set_when rec n (''tool_category'', \<lambda>v n. n\<lparr>hn_tool_category := v\<rparr>) = n\<lparr>hn_tool_category := or_default (jget rec ''tool_category'') (hn_tool_category n)\<rparr>"
  "set_when rec n (''vendor_id'', \<lambda>v n. n\<lparr>hn_vendor_id := v\<rparr>) = n\<lparr>hn_vendor_id := or_default (jget rec ''vendor_id'') (hn_vendor_id n)\<rparr>"
  "set_when rec n (''vendor_tool'', \<lambda>v n. n\<lparr>hn_vendor_tool := v\<rparr>) = n\<lparr>hn_vendor_tool := or_default (jget rec ''vendor_tool'') (hn_vendor_tool n)\<rparr>"
  "set_when rec n (''vendor_tool_version'', \<lambda>v n. n\<lparr>hn_vendor_tool_version := v\<rparr>) = n\<lparr>hn_vendor_tool_version := or_default (jget rec ''vendor_tool_version'') (hn_vendor_tool_version n)\<rparr>"
  "set_when rec n (''same_tests'', \<lambda>v n. n\<lparr>hn_same_tests := v\<rparr>) = n\<lparr>hn_same_tests := or_default (jget rec ''same_tests'') (hn_same_tests n)\<rparr>"
  "set_when rec n (''comment'', \<lambda>v n. n\<lparr>hn_comment := v\<rparr>) = n\<lparr>hn_comment := or_default (jget rec ''comment'') (hn_comment n)\<rparr>"
  by (simp_all add: set_when_def or_default_def)

lemma jget_record:
  "jget (history_record n) ''logical_name'' = hn_logical_name n"
  "jget (history_record n) ''physical_name'' = hn_physical_name n"
  "jget (history_record n) ''sim_time'' = hn_sim_time n"
  "jget (history_record n) ''time_unit'' = hn_time_unit n"
  "jget (history_record n) ''run_cwd'' = hn_run_cwd n"
  "jget (history_record n) ''cpu_time'' = hn_cpu_time n"
  "jget (history_record n) ''seed'' = hn_seed n"
  "jget (history_record n) ''cmd'' = hn_cmd n"
  "jget (history_record n) ''args'' = hn_args n"
  "jget (history_record n) ''compulsory'' = hn_compulsory n"
  "jget (history_record n) ''date'' = hn_date n"
  "jget (history_record n) ''user_name'' = hn_user_name n"
  "jget (history_record n) ''cost'' = hn_cost n"
  "jget (history_record n) ''tool_category'' = hn_tool_category n"
  "jget (history_record n) ''vendor_id'' = hn_vendor_id n"
  "jget (history_record n) ''vendor_tool'' = hn_vendor_tool n"
  "jget (history_record n) ''vendor_tool_version'' = hn_vendor_tool_version n"
  "jget (history_record n) ''same_tests'' = hn_same_tests n"
  "jget (history_record n) ''comment'' = hn_comment n"
  by (simp_all add: jget_def)

lemma or_default_JNull [simp]: "or_default v JNull = v"
  by (simp add: or_default_def)

lemma history_node_reread: "history_node_of now (history_record n) = Inr (canon_node now n)"
proof -
  have k: "kind_from_str (jget_or (history_record n) ''kind'' (JStr (lit ''TEST''))) = Inr (kind_read (hn_kind n))"
    by (simp add: jget_or_def kind_to_str_read)
  have s: "status_from_int (jget_or (history_record n) ''test_status'' (JInt 0)) = status_read (hn_test_status n)"
    by (simp add: jget_or_def status_from_to)
  have l: "jget_or (history_record n) ''logical_name'' (JStr []) = hn_logical_name n" by (simp add: jget_or_def)
  show ?thesis
    unfolding history_node_of_def k bindE_Inr Let_def s l
    by (simp add: new_history_node_def history_setters_def set_when_fields jget_record canon_node_def)
qed

lemma history_reread: "history_deserialize now (history_serialize nodes) = Inr (map (canon_node now) nodes)"
proof -
  have "mapE (history_node_of now) (map history_record ns) = Inr (map (canon_node now) ns)" for ns
    by (induction ns) (simp_all add: history_node_reread)
  then show ?thesis by (simp add: history_deserialize_def history_serialize_def)
qed

lemma or_default_twice [simp]: "or_default (or_default v d) d = or_default v d"
  by (simp add: or_default_def)

lemma canon_node_canon [simp]: "canon_node now (canon_node now n) = canon_node now n"
  by (simp add: canon_node_def kind_read_def status_read_def)

text \<open>
  C29 (roundtrip). Every list of history nodes is written and read back in the same order, and reading
  loses only what \<open>canon_node\<close> names: the parent is never written, so every node is read without one; fields
  that were \<open>None\<close> take the defaults of a new node; a kind or status the enumerations do not have becomes
  \<open>TEST\<close> or \<open>OK\<close>; attributes and the version field are dropped. A second round trip changes nothing, and a
  node with an enumerated kind and status (each of the six) keeps them, whatever its parent, which is lost.
\<close>

theorem history_nodes_roundtrip:
  "history_deserialize now (history_serialize nodes) = Inr (map (canon_node now) nodes) \<and>
   history_deserialize now (history_serialize (map (canon_node now) nodes)) = Inr (map (canon_node now) nodes) \<and>
   (\<forall>n. hn_kind (canon_node now (n\<lparr>hn_kind := NK k, hn_test_status := SV t\<rparr>)) = NK k \<and>
        hn_test_status (canon_node now (n\<lparr>hn_kind := NK k, hn_test_status := SV t\<rparr>)) = SV t \<and>
        hn_parent (canon_node now n) = None)"
  by (simp add: history_reread comp_def) (simp add: canon_node_def kind_read_def status_read_def)

text \<open>
  C30 (safety). A failure recorded through the \<open>TEST_STATUS\<close> property is lost when the history is written:
  the property stores a boolean, a false one is written as 0, and the reader takes the unknown status 0
  for \<open>OK\<close>. The property then says passed, and it also says passed of every node whose status is a
  member of the enumeration, the failures among them.
\<close>

theorem failed_status_lost:
  "value \<noteq> 1 \<longrightarrow>
     get_status_property (set_status_property value n) = 0 \<and>
     (\<exists>n'. history_deserialize now (history_serialize [set_status_property value n]) = Inr [n'] \<and>
        hn_test_status n' = SV TS_OK \<and> get_status_property n' = 1) \<and>
     (\<forall>t. get_status_property (n\<lparr>hn_test_status := SV t\<rparr>) = 1)"
  by (simp add: history_reread) (simp add: set_status_property_def get_status_property_def canon_node_def status_read_def)

lemma failed_status_lost_witness:
  "get_status_property (set_status_property 0 (new_history_node 0 None JNull JNull (NK HNK_TEST))) = 0 \<and>
   (\<exists>n'. history_deserialize 0 (history_serialize [set_status_property 0 (new_history_node 0 None JNull JNull (NK HNK_TEST))]) = Inr [n'] \<and>
      get_status_property n' = 1) \<and>
   get_status_property ((new_history_node 0 None JNull JNull (NK HNK_TEST))\<lparr>hn_test_status := SV TS_MERGE_ERROR\<rparr>) = 1"
  using failed_status_lost[of 0 "new_history_node 0 None JNull JNull (NK HNK_TEST)" 0] by auto

text \<open>A node that was read has nothing left to lose.\<close>

definition node_read :: "MemHistoryNode \<Rightarrow> bool" where
  "node_read n \<longleftrightarrow> (\<exists>k. hn_kind n = NK k) \<and> (\<exists>t. hn_test_status n = SV t) \<and> hn_sim_time n \<noteq> JNull \<and> hn_cpu_time n \<noteq> JNull \<and>
     hn_date n \<noteq> JNull \<and> hn_cost n \<noteq> JNull \<and> hn_tool_category n \<noteq> JNull \<and> hn_ucis_version n = JStr (lit ''1.0'') \<and>
     hn_vendor_id n \<noteq> JNull \<and> hn_vendor_tool n \<noteq> JNull \<and> hn_vendor_tool_version n \<noteq> JNull \<and> hn_same_tests n \<noteq> JNull \<and>
     hn_attributes n = [] \<and> hn_parent n = None"

lemma canon_node_read: "node_read n \<Longrightarrow> canon_node now n = n"
  by (cases n) (auto simp: canon_node_def node_read_def or_default_def kind_read_def status_read_def)

lemma setters_keep: "(key, setter) \<in> set history_setters \<Longrightarrow> node_read n \<Longrightarrow> v \<noteq> JNull \<Longrightarrow> node_read (setter v n)"
  by (auto simp: history_setters_def node_read_def)

lemma node_of_read: "history_node_of now rec = Inr n \<Longrightarrow> node_read n"
proof -
  assume run: "history_node_of now rec = Inr n"
  then obtain kind where n: "n = foldl (set_when rec) ((new_history_node now None (jget_or rec ''logical_name'' (JStr [])) (jget rec ''physical_name'') (NK kind))
      \<lparr>hn_test_status := SV (status_from_int (jget_or rec ''test_status'' (JInt 0)))\<rparr>) history_setters"
    unfolding history_node_of_def Let_def by (elim bindE_InrE) (auto simp: eq_commute)
  have fold: "node_read (foldl (set_when rec) n0 ss)" if "node_read n0" "set ss \<subseteq> set history_setters" for n0 ss
    using that
  proof (induction ss arbitrary: n0)
    case (Cons s ss)
    obtain key setter where s: "s = (key, setter)" by (cases s)
    have "node_read (set_when rec n0 s)"
      using Cons.prems setters_keep[of key setter n0 "jget rec key"] by (simp add: s set_when_def)
    with Cons show ?case by simp
  qed simp
  show ?thesis unfolding n by (rule fold) (simp_all add: node_read_def new_history_node_def)
qed

end
