(* ===== verification/MemberMerge.thy ===== *)
theory MemberMerge
  imports Prelude Json "HOL-Library.Product_Lexorder"
begin

text \<open>
  \<open>merge_tags\<close> and \<open>merge_attrs\<close> of \<open>ncdb/member_merge.py\<close>: the tags and user attributes of several
  archives combined. A payload is the value \<open>json.loads\<close> returns for the member, with the shape its
  writer gives it; an empty or unreadable one is skipped. A \<open>set\<close> of tags is a list without repetition.
\<close>

section \<open>Tags\<close>

datatype tags_member =
    TM_empty
  | TM_unreadable
  | TM_json "int option" "(int \<times> pystr list) list"

definition tags_entries :: "tags_member \<Rightarrow> (int \<times> pystr list) list" where
  "tags_entries m = (case m of TM_json v es \<Rightarrow> if v = Some 1 then es else [] | _ \<Rightarrow> [])"

definition set_update :: "'a list \<Rightarrow> 'a list \<Rightarrow> 'a list" where
  "set_update = foldl (\<lambda>s x. if x \<in> set s then s else s @ [x])"

definition add_tags :: "(int \<times> pystr list) list \<Rightarrow> int \<times> pystr list \<Rightarrow> (int \<times> pystr list) list" where
  "add_tags merged = (\<lambda>(idx, tags).
     dict_set idx (set_update (case dict_get merged idx of None \<Rightarrow> [] | Some s \<Rightarrow> s) tags) merged)"

definition merge_tags :: "tags_member list \<Rightarrow> tags_member" where
  "merge_tags payloads =
     (let merged = foldl add_tags [] (concat (map tags_entries payloads));
          entries = filter (\<lambda>(i, tags). tags \<noteq> []) (map (\<lambda>i. (i, sort (the (dict_get merged i)))) (sort (dict_keys merged)))
      in if entries = [] then TM_empty else TM_json (Some 1) entries)"

section \<open>Attributes\<close>

type_synonym attrs_dict = "(pystr \<times> json) list"

record attrs_payload =
  ap_entries :: "(int \<times> attrs_dict) list"
  ap_scopes :: "(int \<times> attrs_dict) list option"
  ap_coveritems :: "((int \<times> int) \<times> attrs_dict) list option"
  ap_history :: "(int \<times> attrs_dict) list option"
  ap_global :: "attrs_dict option"

datatype attrs_member =
    AM_empty
  | AM_unreadable
  | AM_json attrs_payload

definition merge_into :: "attrs_dict \<Rightarrow> attrs_dict \<Rightarrow> attrs_dict" where
  "merge_into = foldl (\<lambda>d (k, v). if dict_get d k = None then dict_set k v d else d)"

definition merge_at :: "('k \<times> attrs_dict) list \<Rightarrow> 'k \<times> attrs_dict \<Rightarrow> ('k \<times> attrs_dict) list" where
  "merge_at d = (\<lambda>(k, attrs). dict_set k (merge_into (case dict_get d k of None \<Rightarrow> [] | Some a \<Rightarrow> a) attrs) d)"

definition or_empty :: "'a list option \<Rightarrow> 'a list" where
  "or_empty x = (case x of None \<Rightarrow> [] | Some xs \<Rightarrow> xs)"

record attrs_acc =
  aa_scopes :: "(int \<times> attrs_dict) list"
  aa_coveritems :: "((int \<times> int) \<times> attrs_dict) list"
  aa_history :: "(int \<times> attrs_dict) list"
  aa_global :: attrs_dict

definition add_attrs :: "attrs_acc \<Rightarrow> attrs_member \<Rightarrow> attrs_acc" where
  "add_attrs acc data =
     (case data of
        AM_json p \<Rightarrow>
          \<lparr>aa_scopes = foldl merge_at (aa_scopes acc) (ap_entries p @ or_empty (ap_scopes p)),
           aa_coveritems = foldl merge_at (aa_coveritems acc) (or_empty (ap_coveritems p)),
           aa_history = foldl merge_at (aa_history acc) (or_empty (ap_history p)),
           aa_global = merge_into (aa_global acc) (or_empty (ap_global p))\<rparr>
      | _ \<Rightarrow> acc)"

definition attrs_section :: "('k::linorder \<times> attrs_dict) list \<Rightarrow> ('k \<times> attrs_dict) list option" where
  "attrs_section d =
     (if d = [] then None
      else Some (filter (\<lambda>(k, a). a \<noteq> []) (map (\<lambda>k. (k, the (dict_get d k))) (sort (dict_keys d)))))"

definition merge_attrs :: "attrs_member list \<Rightarrow> attrs_member" where
  "merge_attrs payloads =
     (let acc = foldl add_attrs \<lparr>aa_scopes = [], aa_coveritems = [], aa_history = [], aa_global = []\<rparr> payloads
      in if aa_scopes acc = [] \<and> aa_coveritems acc = [] \<and> aa_history acc = [] \<and> aa_global acc = [] then AM_empty
         else AM_json \<lparr>ap_entries = [], ap_scopes = attrs_section (aa_scopes acc), ap_coveritems = attrs_section (aa_coveritems acc),
                       ap_history = attrs_section (aa_history acc),
                       ap_global = (if aa_global acc = [] then None else Some (aa_global acc))\<rparr>)"

section \<open>Tags are a union\<close>

definition tags_at :: "tags_member list \<Rightarrow> int \<Rightarrow> pystr set" where
  "tags_at payloads i = {x. \<exists>e\<in>set (concat (map tags_entries payloads)). fst e = i \<and> x \<in> set (snd e)}"

lemma set_update_props:
  "set (set_update s xs) = set s \<union> set xs" "distinct s \<Longrightarrow> distinct (set_update s xs)"
proof -
  have "set (foldl (\<lambda>s x. if x \<in> set s then s else s @ [x]) s xs) = set s \<union> set xs \<and>
    (distinct s \<longrightarrow> distinct (foldl (\<lambda>s x. if x \<in> set s then s else s @ [x]) s xs))"
    by (induction xs arbitrary: s) auto
  then show "set (set_update s xs) = set s \<union> set xs" "distinct s \<Longrightarrow> distinct (set_update s xs)"
    by (simp_all add: set_update_def)
qed

definition tag_set :: "(int \<times> pystr list) list \<Rightarrow> int \<Rightarrow> pystr set" where
  "tag_set d i = (case dict_get d i of None \<Rightarrow> {} | Some s \<Rightarrow> set s)"

definition tags_inv :: "(int \<times> pystr list) list \<Rightarrow> bool" where
  "tags_inv d \<longleftrightarrow> distinct (dict_keys d) \<and> (\<forall>i s. dict_get d i = Some s \<longrightarrow> distinct s)"

lemma add_tags_props:
  assumes "tags_inv d"
  shows "tags_inv (add_tags d (idx, ts)) \<and> tag_set (add_tags d (idx, ts)) i = tag_set d i \<union> (if idx = i then set ts else {})"
proof (rule conjI)
  have "distinct (dict_keys (dict_set k v d))" for k v
    using assms by (simp add: tags_inv_def dict_keys_set)
  moreover have "distinct (set_update s ts)" if "dict_get d idx = Some s" for s
    using assms that by (auto simp: tags_inv_def intro: set_update_props)
  moreover have "distinct (set_update [] ts)" by (simp add: set_update_props)
  ultimately show "tags_inv (add_tags d (idx, ts))"
    using assms unfolding add_tags_def tags_inv_def by (auto simp del: map_of_eq_Some_iff simp: dict_get_set split: option.split if_splits)
  show "tag_set (add_tags d (idx, ts)) i = tag_set d i \<union> (if idx = i then set ts else {})"
    by (cases "dict_get d idx") (auto simp: add_tags_def tag_set_def dict_get_set set_update_props)
qed

lemma add_tags_all:
  "tags_inv d \<Longrightarrow> tags_inv (foldl add_tags d es) \<and>
   tag_set (foldl add_tags d es) i = tag_set d i \<union> {x. \<exists>e\<in>set es. fst e = i \<and> x \<in> set (snd e)}"
proof (induction es arbitrary: d)
  case (Cons e es)
  obtain idx ts where e: "e = (idx, ts)" by (cases e)
  note h = add_tags_props[OF Cons.prems, of idx ts]
  then have "tags_inv (add_tags d e)" by (simp add: e)
  from Cons.IH[OF this] h[of i] show ?case by (auto simp: e)
qed simp

text \<open>The merged member is a function of the tag sets alone.\<close>

lemma merge_tags_spec:
  "\<exists>es. tags_entries (merge_tags ps) = es \<and> sorted_wrt (<) (map fst es) \<and>
     (\<forall>(i, ts) \<in> set es. ts \<noteq> [] \<and> sorted_wrt (<) ts \<and> set ts = tags_at ps i) \<and>
     (\<forall>i. i \<in> set (map fst es) \<longleftrightarrow> tags_at ps i \<noteq> {})"
proof -
  let ?d = "foldl add_tags [] (concat (map tags_entries ps))"
  let ?es = "filter (\<lambda>(i, tags). tags \<noteq> []) (map (\<lambda>i. (i, sort (the (dict_get ?d i)))) (sort (dict_keys ?d)))"
  have "tags_inv []" by (simp add: tags_inv_def)
  from add_tags_all[OF this] have inv: "tags_inv ?d" and ts: "tag_set ?d i = tags_at ps i" for i
    by (simp_all add: tags_at_def tag_set_def)
  have e: "tags_entries (merge_tags ps) = ?es" by (simp add: merge_tags_def tags_entries_def)
  have get: "\<exists>s. dict_get ?d i = Some s \<and> distinct s \<and> set s = tags_at ps i" if mem: "i \<in> set (dict_keys ?d)" for i
  proof -
    obtain s where s: "dict_get ?d i = Some s" using mem by (cases "dict_get ?d i") (simp_all add: map_of_eq_None_iff)
    moreover have "distinct s" using inv s unfolding tags_inv_def by blast
    moreover have "set s = tags_at ps i" using ts[of i] s by (simp add: tag_set_def)
    ultimately show ?thesis by blast
  qed
  have srt: "sorted_wrt (<) (sort xs)" if "distinct xs" for xs :: "'x::linorder list"
    using that by (simp add: strict_sorted_iff)
  have keys: "map fst ?es = filter (\<lambda>i. tags_at ps i \<noteq> {}) (sort (dict_keys ?d))"
  proof -
    have "map fst ?es = filter (\<lambda>i. sort (the (dict_get ?d i)) \<noteq> []) (sort (dict_keys ?d))"
      by (simp add: filter_map comp_def case_prod_beta)
    also have "\<dots> = filter (\<lambda>i. tags_at ps i \<noteq> {}) (sort (dict_keys ?d))"
    proof (rule filter_cong[OF refl])
      fix i assume "i \<in> set (sort (dict_keys ?d))"
      then obtain s where "dict_get ?d i = Some s" "set s = tags_at ps i" using get[of i] by auto
      then show "(sort (the (dict_get ?d i)) \<noteq> []) = (tags_at ps i \<noteq> {})" by (metis option.sel set_empty set_sort)
    qed
    finally show ?thesis .
  qed
  have "distinct (dict_keys ?d)" using inv by (simp add: tags_inv_def)
  then have "sorted_wrt (<) (map fst ?es)" unfolding keys by (intro sorted_wrt_filter srt)
  moreover have "i \<in> set (map fst ?es) \<longleftrightarrow> tags_at ps i \<noteq> {}" for i
  proof -
    have "i \<in> set (dict_keys ?d)" if "tags_at ps i \<noteq> {}"
    proof (rule ccontr)
      assume "i \<notin> set (dict_keys ?d)"
      then have "dict_get ?d i = None" by (simp only: map_of_eq_None_iff set_map not_False_eq_True)
      with ts[of i] that show False by (simp add: tag_set_def)
    qed
    then show ?thesis unfolding keys by auto
  qed
  moreover have "ts \<noteq> [] \<and> sorted_wrt (<) ts \<and> set ts = tags_at ps i" if m: "(i, ts) \<in> set ?es" for i ts
  proof -
    have i: "i \<in> set (dict_keys ?d)" and t: "ts = sort (the (dict_get ?d i))" "ts \<noteq> []" using m by auto
    from get[OF i] obtain s where s: "dict_get ?d i = Some s" "distinct s" "set s = tags_at ps i" by blast
    then show ?thesis using t srt[OF s(2)] by simp
  qed
  ultimately show ?thesis unfolding e by blast
qed

lemma sorted_alist_eq:
  assumes "sorted_wrt (<) (map fst es)" "sorted_wrt (<) (map fst fs)" "set es = set fs"
  shows "(es :: ('k::linorder \<times> 'v) list) = fs"
proof -
  have k: "map fst es = map fst fs"
    using assms by (intro strict_sorted_equal) (simp_all add: strict_sorted_iff)
  have "inj_on fst (set es)" using assms(1) by (simp add: strict_sorted_iff distinct_map)
  then show ?thesis using map_inj_on[OF k] assms(3) by simp
qed

lemma tags_at_iff: "x \<in> tags_at ps i \<longleftrightarrow> (\<exists>p\<in>set ps. \<exists>ts. (i, ts) \<in> set (tags_entries p) \<and> x \<in> set ts)"
proof
  assume "x \<in> tags_at ps i"
  then obtain p e where "p \<in> set ps" "e \<in> set (tags_entries p)" "fst e = i" "x \<in> set (snd e)" by (auto simp: tags_at_def)
  then show "\<exists>p\<in>set ps. \<exists>ts. (i, ts) \<in> set (tags_entries p) \<and> x \<in> set ts" by (cases e) auto
next
  assume "\<exists>p\<in>set ps. \<exists>ts. (i, ts) \<in> set (tags_entries p) \<and> x \<in> set ts"
  then obtain ts where "(i, ts) \<in> set (concat (map tags_entries ps))" "x \<in> set ts" by auto
  then show "x \<in> tags_at ps i" unfolding tags_at_def mem_Collect_eq by (intro bexI[of _ "(i, ts)"]) simp_all
qed

lemma merge_tags_eqI:
  assumes "\<And>i. tags_at ps i = tags_at qs i"
  shows "merge_tags ps = merge_tags qs"
proof -
  have shape: "merge_tags rs = (if tags_entries (merge_tags rs) = [] then TM_empty else TM_json (Some 1) (tags_entries (merge_tags rs)))" for rs
    by (simp add: merge_tags_def tags_entries_def)
  obtain es where es: "tags_entries (merge_tags ps) = es" "sorted_wrt (<) (map fst es)"
     "\<forall>(i, ts) \<in> set es. ts \<noteq> [] \<and> sorted_wrt (<) ts \<and> set ts = tags_at ps i" "\<forall>i. i \<in> set (map fst es) \<longleftrightarrow> tags_at ps i \<noteq> {}"
    using merge_tags_spec[of ps] by blast
  obtain fs where fs: "tags_entries (merge_tags qs) = fs" "sorted_wrt (<) (map fst fs)"
     "\<forall>(i, ts) \<in> set fs. ts \<noteq> [] \<and> sorted_wrt (<) ts \<and> set ts = tags_at qs i" "\<forall>i. i \<in> set (map fst fs) \<longleftrightarrow> tags_at qs i \<noteq> {}"
    using merge_tags_spec[of qs] by blast
  have char: "set gs = {(i, sorted_list_of_set (tags_at ps i)) |i. tags_at ps i \<noteq> {}}"
    if g: "\<forall>(i, ts) \<in> set gs. ts \<noteq> [] \<and> sorted_wrt (<) ts \<and> set ts = tags_at ps i" "\<forall>i. i \<in> set (map fst gs) \<longleftrightarrow> tags_at ps i \<noteq> {}" for gs
  proof -
    have "ts = sorted_list_of_set (tags_at ps i)" if "(i, ts) \<in> set gs" for i ts
    proof -
      have "sorted_wrt (<) ts" "set ts = tags_at ps i" using that g(1) by auto
      then show ?thesis by (metis strict_sorted_iff sorted_list_of_set.idem_if_sorted_distinct)
    qed
    moreover have "\<exists>ts. (i, ts) \<in> set gs" if ne: "tags_at ps i \<noteq> {}" for i
    proof -
      have "i \<in> set (map fst gs)" using g(2) ne by blast
      then show ?thesis by auto
    qed
    moreover have "tags_at ps i \<noteq> {}" if "(i, ts) \<in> set gs" for i ts using that g(1) by auto
    ultimately have "e \<in> set gs \<longleftrightarrow> (\<exists>i. e = (i, sorted_list_of_set (tags_at ps i)) \<and> tags_at ps i \<noteq> {})" for e
      by (metis surj_pair)
    then show ?thesis by blast
  qed
  have "set es = set fs" using char[OF es(3,4)] char[of fs] fs(3,4) assms by simp
  then have "es = fs" by (rule sorted_alist_eq[OF es(2) fs(2)])
  have "merge_tags ps = (if es = [] then TM_empty else TM_json (Some 1) es)" using shape[of ps] unfolding es(1) .
  moreover have "merge_tags qs = (if fs = [] then TM_empty else TM_json (Some 1) fs)" using shape[of qs] unfolding fs(1) .
  ultimately show ?thesis using \<open>es = fs\<close> by simp
qed

lemma tags_at_merged: "tags_at [merge_tags ps] i = tags_at ps i"
proof -
  obtain es where es: "tags_entries (merge_tags ps) = es"
     "\<forall>(i, ts) \<in> set es. ts \<noteq> [] \<and> sorted_wrt (<) ts \<and> set ts = tags_at ps i" "\<forall>i. i \<in> set (map fst es) \<longleftrightarrow> tags_at ps i \<noteq> {}"
    using merge_tags_spec[of ps] by blast
  have "x \<in> tags_at [merge_tags ps] i \<longleftrightarrow> (\<exists>ts. (i, ts) \<in> set es \<and> x \<in> set ts)" for x
    by (simp add: tags_at_iff es(1))
  moreover have "(\<exists>ts. (i, ts) \<in> set es \<and> x \<in> set ts) \<longleftrightarrow> x \<in> tags_at ps i" for x
  proof
    assume "\<exists>ts. (i, ts) \<in> set es \<and> x \<in> set ts"
    then show "x \<in> tags_at ps i" using es(2) by blast
  next
    assume x: "x \<in> tags_at ps i"
    then have "i \<in> set (map fst es)" using es(3) by blast
    then obtain ts where ts: "(i, ts) \<in> set es" by auto
    then have "set ts = tags_at ps i" using es(2) by blast
    with ts x show "\<exists>ts. (i, ts) \<in> set es \<and> x \<in> set ts" by blast
  qed
  ultimately show ?thesis by blast
qed

lemma tags_at_append: "tags_at (ps @ qs) i = tags_at ps i \<union> tags_at qs i"
  by (intro set_eqI) (simp only: tags_at_iff Un_iff set_append bex_Un)

text \<open>
  Merged tags are the union: a scope carries a tag exactly when some readable source
  gives it, in sorted order without repetition, and neither the order of the sources nor merging them in
  groups changes the member.
\<close>

theorem merge_tags_union:
  "(\<forall>i x. x \<in> tags_at [merge_tags ps] i \<longleftrightarrow> (\<exists>p\<in>set ps. \<exists>ts. (i, ts) \<in> set (tags_entries p) \<and> x \<in> set ts)) \<and>
   sorted_wrt (<) (map fst (tags_entries (merge_tags ps))) \<and>
   (\<forall>i ts. (i, ts) \<in> set (tags_entries (merge_tags ps)) \<longrightarrow> ts \<noteq> [] \<and> sorted_wrt (<) ts) \<and>
   (set qs = set ps \<longrightarrow> merge_tags qs = merge_tags ps) \<and>
   merge_tags [merge_tags ps, merge_tags rs] = merge_tags (ps @ rs)"
proof -
  have "merge_tags qs = merge_tags ps" if "set qs = set ps"
    using that by (intro merge_tags_eqI set_eqI) (simp add: tags_at_iff)
  moreover have "merge_tags [merge_tags ps, merge_tags rs] = merge_tags (ps @ rs)"
    using tags_at_append[of "[merge_tags ps]" "[merge_tags rs]"] by (intro merge_tags_eqI) (simp add: tags_at_append tags_at_merged)
  ultimately show ?thesis using merge_tags_spec[of ps] tags_at_merged[of ps] by (auto simp: tags_at_iff[of _ ps])
qed

definition example_tags :: "tags_member list" where
  "example_tags = [TM_json (Some 1) [(2, [lit ''b'', lit ''a''])], TM_json (Some 1) [(2, [lit ''b'']), (0, [])]]"

lemma merge_tags_union_witness:
  "merge_tags (rev example_tags) = merge_tags example_tags \<and>
   tags_entries (merge_tags example_tags) = [(2, [lit ''a'', lit ''b''])]"
  using merge_tags_union[of example_tags "rev example_tags" "[]"]
  by (simp add: example_tags_def merge_tags_def tags_entries_def add_tags_def set_update_def lit_def)

section \<open>The first source wins\<close>

text \<open>
  What the sources say, in order, of one kind of object: triples of object, key and value. The answer of
  a member to a question is its first triple.
\<close>

definition triples :: "('k \<times> attrs_dict) list \<Rightarrow> (('k \<times> pystr) \<times> json) list" where
  "triples es = concat (map (\<lambda>(i, attrs). map (\<lambda>(k, v). ((i, k), v)) attrs) es)"

definition payload_of :: "attrs_member \<Rightarrow> attrs_payload" where
  "payload_of m = (case m of AM_json p \<Rightarrow> p
     | _ \<Rightarrow> \<lparr>ap_entries = [], ap_scopes = None, ap_coveritems = None, ap_history = None, ap_global = None\<rparr>)"

definition scope_attrs_of :: "attrs_member \<Rightarrow> (int \<times> attrs_dict) list" where
  "scope_attrs_of m = ap_entries (payload_of m) @ or_empty (ap_scopes (payload_of m))"

definition item_attrs_of :: "attrs_member \<Rightarrow> ((int \<times> int) \<times> attrs_dict) list" where
  "item_attrs_of m = or_empty (ap_coveritems (payload_of m))"

definition history_attrs_of :: "attrs_member \<Rightarrow> (int \<times> attrs_dict) list" where
  "history_attrs_of m = or_empty (ap_history (payload_of m))"

definition global_attrs_of :: "attrs_member \<Rightarrow> attrs_dict" where
  "global_attrs_of m = or_empty (ap_global (payload_of m))"

lemma triples_simps [simp]:
  "triples [] = []" "triples ((i, a) # es) = map (\<lambda>(k, v). ((i, k), v)) a @ triples es"
  "triples (es @ fs) = triples es @ triples fs"
  by (simp_all add: triples_def)

lemma get_tagged: "dict_get (map (\<lambda>(k, v). ((i, k), v)) a) (j, key) = (if i = j then dict_get a key else None)"
  by (induction a) auto

lemma merge_into_get: "dict_get (merge_into d a) k = (case dict_get d k of None \<Rightarrow> dict_get a k | Some v \<Rightarrow> Some v)"
proof -
  let ?step = "\<lambda>d (k, v). if dict_get d k = None then dict_set k v d else d"
  have "dict_get (foldl ?step d a) k = (case dict_get d k of None \<Rightarrow> dict_get a k | Some v \<Rightarrow> Some v)"
  proof (induction a arbitrary: d)
    case (Cons e a)
    have "dict_get (?step d e) k = (case dict_get d k of None \<Rightarrow> if fst e = k then Some (snd e) else None | Some v \<Rightarrow> Some v)"
      by (auto simp: dict_get_set split: option.split prod.split)
    with Cons.IH[of "?step d e"] show ?case by (simp split: option.split)
  qed (simp split: option.split)
  then show ?thesis by (simp add: merge_into_def)
qed

definition attr_get :: "('k \<times> attrs_dict) list \<Rightarrow> 'k \<Rightarrow> pystr \<Rightarrow> json option" where
  "attr_get d i k = (case dict_get d i of None \<Rightarrow> None | Some a \<Rightarrow> dict_get a k)"

lemma merge_at_all:
  "attr_get (foldl merge_at d es) i k = (case attr_get d i k of None \<Rightarrow> dict_get (triples es) (i, k) | Some v \<Rightarrow> Some v)"
proof (induction es arbitrary: d)
  case (Cons e es)
  obtain j a where e: "e = (j, a)" by (cases e)
  have "attr_get (merge_at d e) i k =
      (case attr_get d i k of None \<Rightarrow> if j = i then dict_get a k else None | Some v \<Rightarrow> Some v)"
    by (simp add: e attr_get_def merge_at_def dict_get_set merge_into_get split: option.split)
  with Cons.IH[of "merge_at d e"] show ?case
    by (auto simp: e get_tagged map_add_def split: option.split)
qed (simp split: option.split)

lemma section_get:
  assumes "distinct (dict_keys d)"
  shows "dict_get (triples (or_empty (attrs_section d))) (i, k) = attr_get d i k"
proof -
  have part: "dict_get (triples (filter (\<lambda>(k, a). a \<noteq> []) (map (\<lambda>k. (k, the (dict_get d k))) ks))) (i, k) =
      (if i \<in> set ks then attr_get d i k else None)" if "set ks \<subseteq> set (dict_keys d)" for ks
    using that
  proof (induction ks)
    case (Cons j ks)
    then obtain a where a: "dict_get d j = Some a" by (cases "dict_get d j") (auto simp: map_of_eq_None_iff)
    with Cons show ?case by (auto simp: get_tagged map_add_def attr_get_def split: option.split)
  qed simp
  show ?thesis
  proof (cases "d = []")
    case True
    then show ?thesis by (simp add: attrs_section_def or_empty_def attr_get_def)
  next
    case False
    have "attr_get d i k = None" if "i \<notin> set (dict_keys d)"
    proof -
      have "dict_get d i = None" using that by (simp only: map_of_eq_None_iff set_map not_False_eq_True)
      then show ?thesis by (simp add: attr_get_def)
    qed
    moreover have "set (sort (dict_keys d)) \<subseteq> set (dict_keys d)" by simp
    ultimately show ?thesis using part[of "sort (dict_keys d)"] False by (simp add: attrs_section_def or_empty_def)
  qed
qed

lemma merge_at_keys: "distinct (dict_keys d) \<Longrightarrow> distinct (dict_keys (foldl merge_at d es))"
proof (induction es arbitrary: d)
  case (Cons e es)
  have "distinct (dict_keys (merge_at d e))"
    using Cons.prems by (cases e) (simp add: merge_at_def dict_keys_set)
  then show ?case by (simp add: Cons.IH)
qed simp

lemma add_attrs_fold:
  "foldl add_attrs \<lparr>aa_scopes = s, aa_coveritems = c, aa_history = h, aa_global = g\<rparr> ps =
     \<lparr>aa_scopes = foldl merge_at s (concat (map scope_attrs_of ps)), aa_coveritems = foldl merge_at c (concat (map item_attrs_of ps)),
      aa_history = foldl merge_at h (concat (map history_attrs_of ps)), aa_global = foldl merge_into g (map global_attrs_of ps)\<rparr>"
proof (induction ps arbitrary: s c h g)
  case (Cons p ps)
  have "add_attrs \<lparr>aa_scopes = s, aa_coveritems = c, aa_history = h, aa_global = g\<rparr> p =
     \<lparr>aa_scopes = foldl merge_at s (scope_attrs_of p), aa_coveritems = foldl merge_at c (item_attrs_of p),
      aa_history = foldl merge_at h (history_attrs_of p), aa_global = merge_into g (global_attrs_of p)\<rparr>"
    by (cases p) (simp_all add: add_attrs_def scope_attrs_of_def item_attrs_of_def history_attrs_of_def global_attrs_of_def payload_of_def
        or_empty_def merge_into_def)
  then show ?case by (simp add: Cons.IH)
qed simp

lemma merge_into_fold_get:
  "dict_get (foldl merge_into d as) k = (case dict_get d k of None \<Rightarrow> dict_get (concat as) k | Some v \<Rightarrow> Some v)"
  by (induction as arbitrary: d) (simp_all add: merge_into_get map_add_def split: option.split)

datatype attr_question =
    QScope int pystr
  | QItem int int pystr
  | QHistory int pystr
  | QGlobal pystr

fun attr_answer :: "attrs_member \<Rightarrow> attr_question \<Rightarrow> json option" where
  "attr_answer m (QScope i k) = dict_get (triples (scope_attrs_of m)) (i, k)"
| "attr_answer m (QItem s c k) = dict_get (triples (item_attrs_of m)) ((s, c), k)"
| "attr_answer m (QHistory i k) = dict_get (triples (history_attrs_of m)) (i, k)"
| "attr_answer m (QGlobal k) = dict_get (global_attrs_of m) k"

fun first_answer :: "attrs_member list \<Rightarrow> attr_question \<Rightarrow> json option" where
  "first_answer [] q = None"
| "first_answer (p # ps) q = (case attr_answer p q of None \<Rightarrow> first_answer ps q | Some v \<Rightarrow> Some v)"

lemma first_answer_append:
  "first_answer (ps @ qs) q = (case first_answer ps q of None \<Rightarrow> first_answer qs q | Some v \<Rightarrow> Some v)"
  by (induction ps) (simp_all split: option.split)

lemma first_answer_concat:
  "first_answer ps (QScope i k) = dict_get (triples (concat (map scope_attrs_of ps))) (i, k)"
  "first_answer ps (QItem s c k) = dict_get (triples (concat (map item_attrs_of ps))) ((s, c), k)"
  "first_answer ps (QHistory i k) = dict_get (triples (concat (map history_attrs_of ps))) (i, k)"
  "first_answer ps (QGlobal k) = dict_get (concat (map global_attrs_of ps)) k"
  by (induction ps) (simp_all add: map_add_def split: option.split)

lemma merge_attrs_answer: "attr_answer (merge_attrs ps) q = first_answer ps q"
proof -
  let ?s = "foldl merge_at [] (concat (map scope_attrs_of ps))" and ?c = "foldl merge_at [] (concat (map item_attrs_of ps))"
    and ?h = "foldl merge_at [] (concat (map history_attrs_of ps))" and ?g = "foldl merge_into [] (map global_attrs_of ps)"
  have m: "merge_attrs ps = (if ?s = [] \<and> ?c = [] \<and> ?h = [] \<and> ?g = [] then AM_empty
     else AM_json \<lparr>ap_entries = [], ap_scopes = attrs_section ?s, ap_coveritems = attrs_section ?c, ap_history = attrs_section ?h,
                    ap_global = (if ?g = [] then None else Some ?g)\<rparr>)"
    by (simp add: merge_attrs_def add_attrs_fold)
  have of: "scope_attrs_of (merge_attrs ps) = or_empty (attrs_section ?s)" "item_attrs_of (merge_attrs ps) = or_empty (attrs_section ?c)"
    "history_attrs_of (merge_attrs ps) = or_empty (attrs_section ?h)" "global_attrs_of (merge_attrs ps) = ?g"
    unfolding m by (simp_all add: scope_attrs_of_def item_attrs_of_def history_attrs_of_def global_attrs_of_def payload_of_def
        or_empty_def attrs_section_def)
  have nil: "attr_get [] i k = None" for i :: 'z and k by (simp add: attr_get_def)
  show ?thesis
    by (cases q)
      (simp_all add: of section_get merge_at_keys merge_at_all nil first_answer_concat merge_into_fold_get)
qed

text \<open>
  Whatever is asked of the merged attributes - of a scope, a cover item, a history node
  or the database - the answer is that of the first source which has one; in particular merging in groups
  answers as merging all at once.
\<close>

theorem merge_attrs_first_wins:
  "attr_answer (merge_attrs ps) q = first_answer ps q \<and>
   attr_answer (merge_attrs [merge_attrs ps, merge_attrs rs]) q = attr_answer (merge_attrs (ps @ rs)) q"
  by (simp add: merge_attrs_answer first_answer_append split: option.split)

end
