(* ===== verification/Waivers.thy ===== *)
theory Waivers
  imports Prelude PyText "HOL-Library.List_Lexorder"
begin

text \<open>
  \<open>ncdb/waivers.py\<close> and \<open>_merge_waivers\<close> of \<open>ncdb/ncdb_merger.py\<close>: waivers, the glob patterns they match
  scopes and bins with, their JSON form (a dictionary of strings each) and the merge by id. Timestamps are
  ISO-8601 strings, compared as strings.
\<close>

section \<open>Glob patterns\<close>

text \<open>The regular expressions \<open>_glob_to_regex\<close> emits: \<open>(?:.+/)?\<close>, \<open>.*\<close>, \<open>[^/]*\<close> and an escaped character.\<close>

datatype piece = Dirs | Any | Seg | Chr nat

function glob_to_regex :: "pystr \<Rightarrow> piece list" where
  "glob_to_regex p =
     (if p = [] then []
      else if take 3 p = [42, 42, 47] then Dirs # glob_to_regex (drop 3 p)
      else if take 2 p = [42, 42] then Any # glob_to_regex (drop 2 p)
      else if hd p = 42 then Seg # glob_to_regex (tl p)
      else Chr (hd p) # glob_to_regex (tl p))"
  by pat_completeness auto
termination by (relation "measure length") auto

declare glob_to_regex.simps [simp del]

text \<open>\<open>re.fullmatch\<close>: a dot matches anything but a newline, \<open>[^/]\<close> anything but a slash.\<close>

fun fullmatch :: "piece list \<Rightarrow> pystr \<Rightarrow> bool" where
  "fullmatch [] s = (s = [])"
| "fullmatch (Chr c # r) s = (case s of [] \<Rightarrow> False | x # t \<Rightarrow> x = c \<and> fullmatch r t)"
| "fullmatch (Seg # r) s = list_ex (\<lambda>k. 47 \<notin> set (take k s) \<and> fullmatch r (drop k s)) [0..<Suc (length s)]"
| "fullmatch (Any # r) s = list_ex (\<lambda>k. 10 \<notin> set (take k s) \<and> fullmatch r (drop k s)) [0..<Suc (length s)]"
| "fullmatch (Dirs # r) s =
     (fullmatch r s \<or>
      list_ex (\<lambda>k. 10 \<notin> set (take (Suc k) s) \<and> s ! Suc k = 47 \<and> fullmatch r (drop (Suc (Suc k)) s)) [0..<length s - 1])"

definition glob_match :: "pystr \<Rightarrow> pystr \<Rightarrow> bool" where
  "glob_match pattern s = fullmatch (glob_to_regex pattern) s"

section \<open>Waivers\<close>

record Waiver =
  wv_id :: pystr
  wv_scope_pattern :: pystr
  wv_bin_pattern :: pystr
  wv_rationale :: pystr
  wv_approver :: pystr
  wv_approved_at :: pystr
  wv_expires_at :: pystr
  wv_status :: pystr

type_synonym WaiverSet = "Waiver list"
type_synonym waiver_dict = "(pystr \<times> pystr) list"

definition wv_matches :: "Waiver \<Rightarrow> pystr \<Rightarrow> pystr \<Rightarrow> bool" where
  "wv_matches w scope_path bin_name =
     (if \<not> glob_match (wv_scope_pattern w) scope_path then False
      else if bin_name \<noteq> [] \<and> wv_bin_pattern w \<noteq> lit ''*'' then glob_match (wv_bin_pattern w) bin_name
      else True)"

definition ws_add :: "Waiver \<Rightarrow> WaiverSet \<Rightarrow> WaiverSet" where
  "ws_add w ws = ws @ [w]"

definition matches_scope :: "WaiverSet \<Rightarrow> pystr \<Rightarrow> pystr \<Rightarrow> bool" where
  "matches_scope ws scope_path bin_name = list_ex (\<lambda>w. wv_matches w scope_path bin_name) ws"

definition active_at :: "WaiverSet \<Rightarrow> pystr \<Rightarrow> WaiverSet" where
  "active_at ws timestamp =
     filter (\<lambda>w. wv_status w = lit ''active'' \<and> (wv_expires_at w = [] \<or> wv_expires_at w > timestamp)) ws"

definition ws_get :: "WaiverSet \<Rightarrow> pystr \<Rightarrow> Waiver option" where
  "ws_get ws waiver_id = List.find (\<lambda>w. wv_id w = waiver_id) ws"

definition waiver_to_dict :: "Waiver \<Rightarrow> waiver_dict" where
  "waiver_to_dict w =
     [(lit ''id'', wv_id w), (lit ''scope_pattern'', wv_scope_pattern w), (lit ''bin_pattern'', wv_bin_pattern w),
      (lit ''rationale'', wv_rationale w), (lit ''approver'', wv_approver w), (lit ''approved_at'', wv_approved_at w),
      (lit ''expires_at'', wv_expires_at w), (lit ''status'', wv_status w)]"

definition ws_to_dict :: "WaiverSet \<Rightarrow> waiver_dict list" where
  "ws_to_dict ws = map waiver_to_dict ws"

definition sget :: "waiver_dict \<Rightarrow> char list \<Rightarrow> char list \<Rightarrow> pystr" where
  "sget d key dflt = (case dict_get d (lit key) of None \<Rightarrow> lit dflt | Some v \<Rightarrow> v)"

definition waiver_from_dict :: "waiver_dict \<Rightarrow> Waiver res" where
  "waiver_from_dict rec =
     (case dict_get rec (lit ''id'') of
        None \<Rightarrow> Inl KeyError
      | Some i \<Rightarrow> Inr \<lparr>wv_id = i, wv_scope_pattern = sget rec ''scope_pattern'' ''**'', wv_bin_pattern = sget rec ''bin_pattern'' ''*'',
            wv_rationale = sget rec ''rationale'' '''', wv_approver = sget rec ''approver'' '''',
            wv_approved_at = sget rec ''approved_at'' '''', wv_expires_at = sget rec ''expires_at'' '''',
            wv_status = sget rec ''status'' ''active''\<rparr>)"

definition ws_from_dict :: "waiver_dict list \<Rightarrow> WaiverSet res" where
  "ws_from_dict recs = foldE (\<lambda>ws rec. bindE (waiver_from_dict rec) (\<lambda>w. Inr (ws_add w ws))) [] recs"

section \<open>Merging archives\<close>

definition merge_waiver :: "(pystr \<times> waiver_dict) list \<Rightarrow> waiver_dict \<Rightarrow> (pystr \<times> waiver_dict) list" where
  "merge_waiver merged w =
     (let wid = sget w ''id'' '''' in
      case dict_get merged wid of
        None \<Rightarrow> dict_set wid w merged
      | Some existing \<Rightarrow> if sget w ''approved_at'' '''' > sget existing ''approved_at'' '''' then dict_set wid w merged else merged)"

text \<open>One entry per source, \<open>None\<close> where it has no \<open>waivers.json\<close>.\<close>

definition merge_waivers :: "waiver_dict list option list \<Rightarrow> waiver_dict list option" where
  "merge_waivers sources =
     (if list_all (\<lambda>s. s = None) sources then None
      else Some (map snd (foldl merge_waiver [] (concat (map (\<lambda>s. case s of None \<Rightarrow> [] | Some ws \<Rightarrow> ws) sources)))))"

section \<open>What the patterns match\<close>

lemma fullmatch_chars: "fullmatch (map Chr p @ r) s \<longleftrightarrow> (\<exists>t. s = p @ t \<and> fullmatch r t)"
  by (induction p arbitrary: s) (auto split: list.split)

lemma glob_plain: "42 \<notin> set p \<Longrightarrow> glob_to_regex (p @ q) = map Chr p @ glob_to_regex q"
proof (induction p)
  case (Cons c p)
  then have "c \<noteq> 42" by auto
  with Cons show ?case by (subst glob_to_regex.simps) (auto simp: take_Cons numeral_eq_Suc)
qed simp

lemma glob_nil [simp]: "glob_to_regex [] = []"
  by (subst glob_to_regex.simps) simp

lemma glob_star: "q \<noteq> [] \<longrightarrow> hd q \<noteq> 42 \<Longrightarrow> glob_to_regex (42 # q) = Seg # glob_to_regex q"
  by (subst glob_to_regex.simps) (cases q; auto simp: numeral_eq_Suc)

lemma glob_any: "q \<noteq> [] \<longrightarrow> hd q \<noteq> 47 \<Longrightarrow> glob_to_regex (42 # 42 # q) = Any # glob_to_regex q"
  by (subst glob_to_regex.simps) (cases q; auto simp: numeral_eq_Suc)

lemma glob_dirs: "glob_to_regex (42 # 42 # 47 # q) = Dirs # glob_to_regex q"
  by (subst glob_to_regex.simps) simp

lemma splits: "(\<exists>k\<in>set [0..<Suc (length s)]. P (take k s) (drop k s)) \<longleftrightarrow> (\<exists>x t. s = x @ t \<and> P x t)"
proof
  assume "\<exists>x t. s = x @ t \<and> P x t"
  then obtain x t where "s = x @ t" "P x t" by blast
  then show "\<exists>k\<in>set [0..<Suc (length s)]. P (take k s) (drop k s)" by (intro bexI[of _ "length x"]) auto
qed (metis append_take_drop_id)

lemma fullmatch_seg: "fullmatch (Seg # r) s \<longleftrightarrow> (\<exists>x t. s = x @ t \<and> 47 \<notin> set x \<and> fullmatch r t)"
  using splits[of s "\<lambda>x t. 47 \<notin> set x \<and> fullmatch r t"] by (simp add: list_ex_iff)

lemma fullmatch_any: "fullmatch (Any # r) s \<longleftrightarrow> (\<exists>x t. s = x @ t \<and> 10 \<notin> set x \<and> fullmatch r t)"
  using splits[of s "\<lambda>x t. 10 \<notin> set x \<and> fullmatch r t"] by (simp add: list_ex_iff)

lemma fullmatch_dirs:
  "fullmatch (Dirs # r) s \<longleftrightarrow> fullmatch r s \<or> (\<exists>x t. s = x @ 47 # t \<and> x \<noteq> [] \<and> 10 \<notin> set x \<and> fullmatch r t)"
proof -
  have "(\<exists>k\<in>set [0..<length s - 1]. 10 \<notin> set (take (Suc k) s) \<and> s ! Suc k = 47 \<and> fullmatch r (drop (Suc (Suc k)) s)) \<longleftrightarrow>
      (\<exists>x t. s = x @ 47 # t \<and> x \<noteq> [] \<and> 10 \<notin> set x \<and> fullmatch r t)" (is "?L \<longleftrightarrow> ?R")
  proof
    assume ?L
    then obtain k where k: "k < length s - 1" "10 \<notin> set (take (Suc k) s)" "s ! Suc k = 47" "fullmatch r (drop (Suc (Suc k)) s)" by auto
    have "s = take (Suc k) s @ 47 # drop (Suc (Suc k)) s" using k(1,3) id_take_nth_drop[of "Suc k" s] by simp
    moreover have "take (Suc k) s \<noteq> []" using k(1) by auto
    ultimately show ?R using k(2,4) by blast
  next
    assume ?R
    then obtain x t where x: "s = x @ 47 # t" "x \<noteq> []" "10 \<notin> set x" "fullmatch r t" by blast
    then obtain k where "length x = Suc k" by (cases x) auto
    with x show ?L by (intro bexI[of _ k]) (auto simp: nth_append)
  qed
  then show ?thesis by (simp add: list_ex_iff)
qed

lemmas fullmatch_pieces = fullmatch_chars fullmatch_seg fullmatch_any fullmatch_dirs

declare fullmatch.simps(3-5) [simp del]

text \<open>
  What the globs of waivers match: a pattern without a star only itself; \<open>*\<close> any text
  without a slash, so never across path segments; a final \<open>**\<close> any rest of a line; and \<open>**/\<close> nothing or
  whole leading segments. Matching goes through the regular expression the code builds.
\<close>

theorem glob_semantics:
  assumes "42 \<notin> set p" "42 \<notin> set q"
  shows "(glob_match p s \<longleftrightarrow> s = p) \<and>
    (glob_match (p @ 42 # q) s \<longleftrightarrow> (\<exists>x. s = p @ x @ q \<and> 47 \<notin> set x)) \<and>
    (glob_match (p @ [42, 42]) s \<longleftrightarrow> (\<exists>x. s = p @ x \<and> 10 \<notin> set x)) \<and>
    (glob_match (p @ 42 # 42 # 47 # q) s \<longleftrightarrow> s = p @ q \<or> (\<exists>x. s = p @ x @ 47 # q \<and> x \<noteq> [] \<and> 10 \<notin> set x))"
proof -
  have q: "q \<noteq> [] \<longrightarrow> hd q \<noteq> 42" using assms(2) by (cases q) auto
  have only: "fullmatch (glob_to_regex w) s \<longleftrightarrow> s = w" if "42 \<notin> set w" for w s
    using glob_plain[OF that, of "[]"] fullmatch_chars[of w "[]" s] by auto
  have "glob_match p s \<longleftrightarrow> s = p" using only[OF assms(1)] by (simp add: glob_match_def)
  moreover have "glob_match (p @ 42 # q) s \<longleftrightarrow> (\<exists>x. s = p @ x @ q \<and> 47 \<notin> set x)"
    unfolding glob_match_def glob_plain[OF assms(1)] glob_star[OF q] fullmatch_pieces only[OF assms(2)] by auto
  moreover have "glob_match (p @ [42, 42]) s \<longleftrightarrow> (\<exists>x. s = p @ x \<and> 10 \<notin> set x)"
    using glob_any[of "[]"] unfolding glob_match_def glob_plain[OF assms(1)] by (auto simp: fullmatch_pieces)
  moreover have "glob_match (p @ 42 # 42 # 47 # q) s \<longleftrightarrow> s = p @ q \<or> (\<exists>x. s = p @ x @ 47 # q \<and> x \<noteq> [] \<and> 10 \<notin> set x)"
    unfolding glob_match_def glob_plain[OF assms(1)] glob_dirs fullmatch_pieces only[OF assms(2)] by auto
  ultimately show ?thesis by blast
qed

lemma glob_semantics_witness:
  "glob_match (lit ''top/*/bin'') (lit ''top/a/bin'') \<and> \<not> glob_match (lit ''top/*/bin'') (lit ''top/a/b/bin'') \<and>
   \<not> glob_match (lit ''top/**'') (lit ''top'')"
proof -
  have p: "42 \<notin> set (lit ''top/'')" "42 \<notin> set (lit ''/bin'')" by (simp_all add: lit_def)
  have e: "lit ''top/*/bin'' = lit ''top/'' @ 42 # lit ''/bin''" "lit ''top/**'' = lit ''top/'' @ [42, 42]"
    "lit ''top/a/bin'' = lit ''top/'' @ lit ''a'' @ lit ''/bin''" by (simp_all add: lit_def)
  have g: "glob_match (lit ''top/*/bin'') s \<longleftrightarrow> (\<exists>x. s = lit ''top/'' @ x @ lit ''/bin'' \<and> 47 \<notin> set x)"
    "glob_match (lit ''top/**'') s \<longleftrightarrow> (\<exists>x. s = lit ''top/'' @ x \<and> 10 \<notin> set x)" for s
    using glob_semantics[OF p, of s] unfolding e(1,2) by blast+
  have "glob_match (lit ''top/*/bin'') (lit ''top/a/bin'')" unfolding g(1) e(3) by (intro exI[of _ "lit ''a''"]) (simp add: lit_def)
  moreover have "x = lit ''a/b''" if "lit ''top/a/b/bin'' = lit ''top/'' @ x @ lit ''/bin''" for x
  proof -
    have "lit ''top/a/b/bin'' = lit ''top/'' @ lit ''a/b'' @ lit ''/bin''" by (simp add: lit_def)
    with that show ?thesis by simp
  qed
  then have "\<not> glob_match (lit ''top/*/bin'') (lit ''top/a/b/bin'')" unfolding g(1) by (auto simp: lit_def)
  moreover have "\<not> glob_match (lit ''top/**'') (lit ''top'')" unfolding g(2) by (auto simp: lit_def)
  ultimately show ?thesis by blast
qed

section \<open>Round trip and merge\<close>

lemma waivers_reread: "ws_from_dict (ws_to_dict ws) = Inr ws"
proof -
  have one: "waiver_from_dict (waiver_to_dict w) = Inr w" for w
    by (simp add: waiver_from_dict_def waiver_to_dict_def sget_def lit_def)
  have "foldE (\<lambda>ws rec. bindE (waiver_from_dict rec) (\<lambda>w. Inr (ws_add w ws))) us (map waiver_to_dict vs) = Inr (us @ vs)" for us vs
    by (induction vs arbitrary: us) (simp_all add: one ws_add_def)
  from this[of "[]" ws] show ?thesis by (simp add: ws_from_dict_def ws_to_dict_def)
qed

definition waiver_id :: "waiver_dict \<Rightarrow> pystr" where
  "waiver_id w = sget w ''id'' ''''"

definition approved :: "waiver_dict \<Rightarrow> pystr" where
  "approved w = sget w ''approved_at'' ''''"

definition newest_inv :: "waiver_dict list \<Rightarrow> (pystr \<times> waiver_dict) list \<Rightarrow> bool" where
  "newest_inv seen m \<longleftrightarrow> distinct (dict_keys m) \<and>
     (\<forall>i w. dict_get m i = Some w \<longrightarrow> waiver_id w = i \<and> w \<in> set seen) \<and>
     (\<forall>v\<in>set seen. \<exists>w. dict_get m (waiver_id v) = Some w \<and> approved v \<le> approved w)"

lemma merge_waiver_step:
  assumes "newest_inv seen m"
  shows "newest_inv (seen @ [w]) (merge_waiver m w)"
proof -
  have d: "distinct (dict_keys (dict_set (waiver_id w) w m))" using assms by (simp add: newest_inv_def dict_keys_set)
  consider (new) "dict_get m (waiver_id w) = None" | (newer) e where "dict_get m (waiver_id w) = Some e" "approved w > approved e"
    | (older) e where "dict_get m (waiver_id w) = Some e" "\<not> approved w > approved e"
    by (cases "dict_get m (waiver_id w)") auto
  then show ?thesis
  proof cases
    case new
    then have e: "merge_waiver m w = dict_set (waiver_id w) w m" by (simp add: merge_waiver_def waiver_id_def)
    from new d assms show ?thesis unfolding e newest_inv_def by (auto simp: dict_get_set simp del: map_of_eq_Some_iff split: if_splits)
  next
    case newer
    then have e: "merge_waiver m w = dict_set (waiver_id w) w m" by (simp add: merge_waiver_def waiver_id_def approved_def)
    have "\<exists>u. dict_get (dict_set (waiver_id w) w m) (waiver_id v) = Some u \<and> approved v \<le> approved u" if "v \<in> set seen" for v
    proof (cases "waiver_id v = waiver_id w")
      case True
      then have "approved v \<le> approved e" using assms newer(1) that unfolding newest_inv_def by (metis option.inject)
      with newer(2) True show ?thesis by (simp add: dict_get_set)
    next
      case False
      then show ?thesis using assms that unfolding newest_inv_def by (auto simp: dict_get_set simp del: map_of_eq_Some_iff)
    qed
    with d assms show ?thesis unfolding e newest_inv_def by (auto simp: dict_get_set simp del: map_of_eq_Some_iff split: if_splits)
  next
    case older
    then have e: "merge_waiver m w = m" by (simp add: merge_waiver_def waiver_id_def approved_def)
    with older assms show ?thesis unfolding newest_inv_def by (auto simp del: map_of_eq_Some_iff)
  qed
qed

lemma merge_waivers_inv: "newest_inv ws (foldl merge_waiver [] ws)"
proof (induction ws rule: rev_induct)
  case Nil
  then show ?case by (simp add: newest_inv_def)
qed (simp add: merge_waiver_step)

text \<open>
  C27 (safety). Merging archives loses no waiver: for every waiver of a source the result has exactly one
  with its id, taken unchanged from some source and approved no earlier than any other with that id. The
  member is left out exactly when no source has one.
\<close>

theorem merge_waivers_newest:
  "(merge_waivers sources = None \<longleftrightarrow> (\<forall>s\<in>set sources. s = None)) \<and>
   (\<forall>ms. merge_waivers sources = Some ms \<longrightarrow>
      distinct (map waiver_id ms) \<and> (\<forall>m\<in>set ms. \<exists>ws. Some ws \<in> set sources \<and> m \<in> set ws) \<and>
      (\<forall>ws w. Some ws \<in> set sources \<and> w \<in> set ws \<longrightarrow> (\<exists>m\<in>set ms. waiver_id m = waiver_id w \<and> approved w \<le> approved m)))"
proof -
  let ?all = "concat (map (\<lambda>s. case s of None \<Rightarrow> [] | Some ws \<Rightarrow> ws) sources)"
  let ?m = "foldl merge_waiver [] ?all"
  have inv: "newest_inv ?all ?m" by (rule merge_waivers_inv)
  have mem: "w \<in> set ?all \<longleftrightarrow> (\<exists>ws. Some ws \<in> set sources \<and> w \<in> set ws)" for w
    by (auto split: option.splits)
  have keys: "map waiver_id (map snd ?m) = dict_keys ?m"
  proof -
    have "waiver_id v = k" if "(k, v) \<in> set ?m" for k v
    proof -
      have "dict_get ?m k = Some v" using inv that by (simp add: newest_inv_def)
      then show ?thesis using inv unfolding newest_inv_def by blast
    qed
    then show ?thesis by auto
  qed
  have "distinct (map waiver_id (map snd ?m))" unfolding keys using inv by (simp add: newest_inv_def)
  moreover have "m \<in> set ?all" if "m \<in> set (map snd ?m)" for m
  proof -
    from that obtain k where "(k, m) \<in> set ?m" by auto
    then have "dict_get ?m k = Some m" using inv by (simp add: newest_inv_def)
    then show ?thesis using inv unfolding newest_inv_def by blast
  qed
  moreover have "\<exists>m\<in>set (map snd ?m). waiver_id m = waiver_id w \<and> approved w \<le> approved m" if w: "w \<in> set ?all" for w
  proof -
    obtain m where m: "dict_get ?m (waiver_id w) = Some m" "approved w \<le> approved m"
      using inv w unfolding newest_inv_def by blast
    moreover have "waiver_id m = waiver_id w" using inv m(1) unfolding newest_inv_def by blast
    moreover have "m \<in> set (map snd ?m)" using map_of_SomeD[OF m(1)] by force
    ultimately show ?thesis by blast
  qed
  ultimately have "distinct (map waiver_id (map snd ?m)) \<and>
      (\<forall>m\<in>set (map snd ?m). \<exists>ws. Some ws \<in> set sources \<and> m \<in> set ws) \<and>
      (\<forall>ws w. Some ws \<in> set sources \<and> w \<in> set ws \<longrightarrow> (\<exists>m\<in>set (map snd ?m). waiver_id m = waiver_id w \<and> approved w \<le> approved m))"
    unfolding mem by blast
  note new = this
  have e: "merge_waivers sources = (if list_all (\<lambda>s. s = None) sources then None else Some (map snd ?m))"
    by (simp add: merge_waivers_def)
  show ?thesis
  proof (cases "list_all (\<lambda>s. s = None) sources")
    case True
    then show ?thesis using e by (simp add: list_all_iff)
  next
    case False
    then have "merge_waivers sources = Some (map snd ?m)" "\<not> (\<forall>s\<in>set sources. s = None)" using e by (simp_all add: list_all_iff)
    with new show ?thesis by (metis option.distinct(1) option.inject)
  qed
qed

definition example_waiver :: "char list \<Rightarrow> char list \<Rightarrow> waiver_dict" where
  "example_waiver i t = [(lit ''id'', lit i), (lit ''approved_at'', lit t)]"

lemma merge_waivers_newest_witness:
  "\<exists>ms. merge_waivers [Some [example_waiver ''W1'' ''2024''], None, Some [example_waiver ''W1'' ''2025'', example_waiver ''W2'' '''']] = Some ms \<and>
     distinct (map waiver_id ms) \<and> ms = [example_waiver ''W1'' ''2025'', example_waiver ''W2'' '''']"
proof -
  have e: "merge_waivers [Some [example_waiver ''W1'' ''2024''], None, Some [example_waiver ''W1'' ''2025'', example_waiver ''W2'' '''']]
      = Some [example_waiver ''W1'' ''2025'', example_waiver ''W2'' '''']"
    by (simp add: merge_waivers_def merge_waiver_def example_waiver_def sget_def lit_def)
  with merge_waivers_newest[of "[Some [example_waiver ''W1'' ''2024''], None, Some [example_waiver ''W1'' ''2025'', example_waiver ''W2'' '''']]"]
  show ?thesis by blast
qed

end
