(* ===== verification/Merger.thy ===== *)
theory Merger
  imports HistoryMerge Manifest HistoryNodes MemberMerge Waivers Formal CoverFlags Contrib
begin

text \<open>
  \<open>ncdb/ncdb_merger.py\<close>: merging archives. An archive is its manifest, its binary members by name and its
  JSON members as values; a JSON member that is merged keeps its text too, because identical texts are
  not merged but copied. Wall-clock time, the slow path through \<open>DbMerger\<close>, compression and SHA-256 are
  parameters; warnings are not modelled.
\<close>

section \<open>Archives\<close>

record 'v json_doc =
  jd_text :: bytes
  jd_value :: 'v

record testplan_doc =
  tp_source_file :: pystr
  tp_import_timestamp :: pystr
  tp_raw :: bytes

record ncdb_file =
  nf_manifest :: Manifest
  nf_members :: "(pystr \<times> bytes) list"
  nf_history :: "(pystr \<times> json) list list"
  nf_attrs :: "attrs_member json_doc option"
  nf_tags :: "tags_member json_doc option"
  nf_formal :: "formal_member json_doc option"
  nf_testplan :: "testplan_doc option"
  nf_waivers :: "waiver_dict list option"

record merged_file =
  mg_manifest :: Manifest
  mg_members :: "(pystr \<times> bytes) list"
  mg_history :: "(pystr \<times> json) list list"
  mg_attrs :: "attrs_member option"
  mg_tags :: "tags_member option"
  mg_formal :: "formal_member option"
  mg_testplan :: "bytes option"
  mg_waivers :: "waiver_dict list option"

definition MEMBER_STRINGS :: pystr where "MEMBER_STRINGS = lit ''strings.bin''"
definition MEMBER_SCOPE_TREE :: pystr where "MEMBER_SCOPE_TREE = lit ''scope_tree.bin''"
definition MEMBER_SOURCES :: pystr where "MEMBER_SOURCES = lit ''sources.json''"
definition MEMBER_COVERITEM_FLAGS :: pystr where "MEMBER_COVERITEM_FLAGS = lit ''coveritem_flags.bin''"

definition STRUCTURAL_MEMBERS :: "pystr list" where
  "STRUCTURAL_MEMBERS =
     [lit ''toggle.bin'', lit ''fsm.bin'', lit ''cross.bin'', lit ''design_units.json'', lit ''properties.json'',
      MEMBER_MERGE_OPS, lit ''coveritem_sources.bin'', lit ''coveritem_types.bin'',
      lit ''issues.bin'', lit ''issues_meta.json'', lit ''issues_history.bin'']"

text \<open>\<open>zf.read(name)\<close>\<close>

definition zf_read :: "ncdb_file \<Rightarrow> pystr \<Rightarrow> bytes res" where
  "zf_read f name = (case dict_get (nf_members f) name of None \<Rightarrow> Inl KeyError | Some d \<Rightarrow> Inr d)"

section \<open>Which path\<close>

datatype merge_path = SameSchema | CrossSchema

definition names_agree :: "ncdb_file list \<Rightarrow> pystr list \<Rightarrow> bool res" where
  "names_agree sources hashes =
     (if hashes \<noteq> [] \<and> startswith (hd hashes) (lit ''sha256v2:'') then Inr True
      else bindE (mapE (\<lambda>f. zf_read f MEMBER_STRINGS) sources) (\<lambda>strings.
        Inr (list_all (\<lambda>s. s = hd strings) strings)))"

definition choose_path :: "ncdb_file list \<Rightarrow> bool \<Rightarrow> merge_path res" where
  "choose_path sources allow_cross_schema =
     (if sources = [] then Inl ValueError
      else
        let hashes = map (mf_schema_hash \<circ> nf_manifest) sources in
        bindE (if list_all (\<lambda>h. h = hd hashes) hashes then names_agree sources hashes else Inr False) (\<lambda>all_same.
          if all_same then Inr SameSchema
          else if \<not> allow_cross_schema then Inl ValueError
          else Inr CrossSchema))"

section \<open>Annotations\<close>

definition merge_annotational :: "(bytes list \<Rightarrow> bytes res) \<Rightarrow> bytes list \<Rightarrow> bytes res" where
  "merge_annotational mrg payloads =
     (let first = hd payloads
      in if list_all (\<lambda>payload. payload = first) (tl payloads) then Inr first else mrg payloads)"

text \<open>The same for a JSON member; \<open>none\<close> is the empty payload, which is not written.\<close>

definition merge_json_member :: "('v list \<Rightarrow> 'v) \<Rightarrow> 'v \<Rightarrow> 'v json_doc list \<Rightarrow> 'v option" where
  "merge_json_member mrg none payloads =
     (if payloads = [] then None
      else
        let first = hd payloads;
            merged = (if list_all (\<lambda>payload. jd_text payload = jd_text first) (tl payloads) then jd_value first
                      else mrg (map jd_value payloads))
        in if merged = none then None else Some merged)"

definition present :: "'a option list \<Rightarrow> 'a list" where
  "present xs = concat (map (\<lambda>x. case x of None \<Rightarrow> [] | Some y \<Rightarrow> [y]) xs)"

definition merge_flags_member :: "ncdb_file list \<Rightarrow> bytes res" where
  "merge_flags_member sources =
     (let payloads = present (map (\<lambda>f. dict_get (nf_members f) MEMBER_COVERITEM_FLAGS) sources)
      in if payloads = [] then Inr [] else merge_annotational merge_coveritem_flags payloads)"

section \<open>Test plans\<close>

definition add_testplan :: "(pystr \<times> pystr \<times> bytes) list \<Rightarrow> testplan_doc \<Rightarrow> (pystr \<times> pystr \<times> bytes) list" where
  "add_testplan candidates d =
     (let sf = tp_source_file d; ts = tp_import_timestamp d
      in case dict_get candidates sf of
           None \<Rightarrow> dict_set sf (ts, tp_raw d) candidates
         | Some (ts0, _) \<Rightarrow> if ts > ts0 then dict_set sf (ts, tp_raw d) candidates else candidates)"

definition merge_testplans :: "ncdb_file list \<Rightarrow> bytes option" where
  "merge_testplans sources =
     (case foldl add_testplan [] (present (map nf_testplan sources)) of
        [(_, _, raw)] \<Rightarrow> Some raw
      | _ \<Rightarrow> None)"

section \<open>The same-schema merge\<close>

definition read_counts :: "ncdb_file \<Rightarrow> int list res" where
  "read_counts f = bindE (zf_read f MEMBER_COUNTS) counts_deserialize"

definition make_merge_node :: "int \<Rightarrow> pystr \<Rightarrow> pystr list \<Rightarrow> MemHistoryNode" where
  "make_merge_node now target paths =
     (new_history_node now None (JStr target) (JStr target) (NK HNK_MERGE))
       \<lparr>hn_date := JInt now, hn_tool_category := JStr (lit ''ncdb-merger''),
        hn_comment := JStr (lit ''Merged from: '' @ str_join (lit '', '') paths)\<rparr>"

definition contrib_members :: "ncdb_file \<Rightarrow> (pystr \<times> bytes) list" where
  "contrib_members f = filter (\<lambda>(n, _). startswith n (lit ''contrib/'')) (nf_members f)"

definition merged_manifest :: "Manifest \<Rightarrow> pystr \<Rightarrow> pystr \<Rightarrow> int list \<Rightarrow> MemHistoryNode list \<Rightarrow> Manifest" where
  "merged_manifest m0 history_format created merged_counts all_history =
     new_manifest\<lparr>mf_format := mf_format m0, mf_version := mf_version m0, mf_ucis_version := mf_ucis_version m0,
       mf_created := created, mf_path_separator := mf_path_separator m0, mf_scope_count := mf_scope_count m0,
       mf_coveritem_count := int (length merged_counts),
       mf_test_count := int (length (filter (\<lambda>h. hn_kind h = NK HNK_TEST) all_history)),
       mf_total_hits := sum_list merged_counts, mf_covered_bins := int (length (filter (\<lambda>c. c > 0) merged_counts)),
       mf_schema_hash := mf_schema_hash m0, mf_generator := mf_generator m0, mf_history_format := history_format\<rparr>"

definition structural_members :: "ncdb_file \<Rightarrow> (pystr \<times> bytes) list" where
  "structural_members f = filter (\<lambda>(n, _). n \<in> set STRUCTURAL_MEMBERS) (nf_members f)"

text \<open>
  \<open>add_uint32_arrays\<close> of \<open>ncdb/_accel\<close>: with the compiled extension the counts go through arrays of
  \<open>uint32_t\<close>, which \<open>cffi\<close> refuses to fill with larger numbers and whose sums wrap.
\<close>

definition to_uint32 :: "int \<Rightarrow> 32 word res" where
  "to_uint32 c = (if 0 \<le> c \<and> c < 2 ^ 32 then Inr (of_int c) else Inl OverflowError)"

definition add_uint32_arrays :: "bool \<Rightarrow> int list \<Rightarrow> int list \<Rightarrow> int list res" where
  "add_uint32_arrays has_accel a b =
     (if has_accel
      then bindE (mapE to_uint32 a) (\<lambda>ca. bindE (mapE to_uint32 b) (\<lambda>cb. Inr (map uint (map2 (+) ca cb))))
      else Inr (map2 (+) a b))"

definition merge_all_counts :: "bool \<Rightarrow> int list list \<Rightarrow> (nat \<times> int) list list \<Rightarrow> int list res" where
  "merge_all_counts has_accel all_counts opss =
     (let ops = foldl dict_update [] opss
      in if ops \<noteq> [] then Inr (merge_counts all_counts ops)
         else if has_accel \<and> length all_counts = 2 then add_uint32_arrays has_accel (all_counts ! 0) (all_counts ! 1)
         else Inr (sum_columns all_counts))"

definition merge_same_schema ::
  "bool \<Rightarrow> (bytes \<Rightarrow> bytes) \<Rightarrow> (bytes \<Rightarrow> bytes res) \<Rightarrow> int \<Rightarrow> pystr \<Rightarrow> pystr \<Rightarrow> (pystr \<times> ncdb_file) list \<Rightarrow> merged_file res" where
  "merge_same_schema has_accel compress decompress now created target named =
     (let sources = map snd named; first = hd sources in
      bindE (mapE read_counts sources) (\<lambda>all_counts.
      if list_ex (\<lambda>counts. length counts \<noteq> length (hd all_counts)) all_counts then Inl ValueError
      else
      bindE (mapE merge_ops_deserialize (present (map (\<lambda>f. dict_get (nf_members f) MEMBER_MERGE_OPS) sources))) (\<lambda>opss.
      bindE (merge_all_counts has_accel all_counts opss) (\<lambda>merged_counts.
      bindE (mapE (\<lambda>f. history_deserialize now (nf_history f)) sources) (\<lambda>histories.
      let all_history = concat histories @ [make_merge_node now target (map fst named)];
          any_v2 = list_ex (\<lambda>f. mf_history_format (nf_manifest f) = HISTORY_FORMAT_V2) sources;
          history_format = (if any_v2 then HISTORY_FORMAT_V2 else mf_history_format (nf_manifest first)) in
      bindE (zf_read first MEMBER_STRINGS) (\<lambda>strings.
      bindE (zf_read first MEMBER_SCOPE_TREE) (\<lambda>scope_tree.
      bindE (zf_read first MEMBER_SOURCES) (\<lambda>srcs.
      bindE (merge_flags_member sources) (\<lambda>flags.
      let merged_members = (if flags = [] then structural_members first
                            else dict_set MEMBER_COVERITEM_FLAGS flags (structural_members first)) in
      bindE (counts_serialize merged_counts) (\<lambda>counts.
      bindE (if any_v2 then merge_v2_history compress decompress
                 (map (\<lambda>f. (mf_history_format (nf_manifest f) = HISTORY_FORMAT_V2, nf_members f)) sources)
             else Inr []) (\<lambda>v2.
        Inr \<lparr>mg_manifest = merged_manifest (nf_manifest first) history_format created merged_counts all_history,
             mg_members =
               [(MEMBER_STRINGS, strings), (MEMBER_SCOPE_TREE, scope_tree), (MEMBER_COUNTS, counts), (MEMBER_SOURCES, srcs)] @
               map (\<lambda>n. (n, the (dict_get merged_members n))) (sort (dict_keys merged_members)) @
               renumber_contrib (map contrib_members sources) (offsets_from 0 (map length histories)) @ v2,
             mg_history = history_serialize all_history,
             mg_attrs = merge_json_member merge_attrs AM_empty (present (map nf_attrs sources)),
             mg_tags = merge_json_member merge_tags TM_empty (present (map nf_tags sources)),
             mg_formal = merge_json_member merge_formal FM_empty (present (map nf_formal sources)),
             mg_testplan = merge_testplans sources,
             mg_waivers = merge_waivers (map nf_waivers sources)\<rparr>)))))))))))"

definition ncdb_merge ::
  "((pystr \<times> ncdb_file) list \<Rightarrow> merged_file res) \<Rightarrow> bool \<Rightarrow> (bytes \<Rightarrow> bytes) \<Rightarrow> (bytes \<Rightarrow> bytes res) \<Rightarrow> int \<Rightarrow> pystr \<Rightarrow> pystr \<Rightarrow>
   (pystr \<times> ncdb_file) list \<Rightarrow> bool \<Rightarrow> merged_file res" where
  "ncdb_merge merge_cross_schema has_accel compress decompress now created target named allow_cross_schema =
     bindE (choose_path (map snd named) allow_cross_schema) (\<lambda>path.
       case path of
         SameSchema \<Rightarrow> merge_same_schema has_accel compress decompress now created target named
       | CrossSchema \<Rightarrow> merge_cross_schema named)"

section \<open>The accelerated addition\<close>

lemma mapE_to_uint32:
  "mapE to_uint32 a = (if \<forall>c\<in>set a. 0 \<le> c \<and> c < 2 ^ 32 then Inr (map of_int a) else Inl OverflowError)"
  by (induction a) (auto simp: to_uint32_def)

lemma sum_columns_two: "length a = length b \<Longrightarrow> sum_columns [a, b] = map2 (+) a b"
  by (intro nth_equalityI) (simp_all add: sum_columns_def zip_len_def column_def)

lemma add_uint32_accel:
  assumes "\<forall>c\<in>set a \<union> set b. 0 \<le> c \<and> c < 2 ^ 32"
  shows "add_uint32_arrays True a b = Inr (map (\<lambda>c. c mod 2 ^ 32) (map2 (+) a b))"
proof -
  have u: "uint (of_int x + of_int y :: 32 word) = (x + y) mod 2 ^ 32" for x y
    by (simp flip: of_int_add add: uint_word_of_int)
  have "map uint (map2 (+) (map of_int a) (map of_int b :: 32 word list)) = map (\<lambda>c. c mod 2 ^ 32) (map2 (+) a b)"
    by (simp add: zip_map_map comp_def case_prod_beta u)
  then show ?thesis using assms by (simp add: add_uint32_arrays_def mapE_to_uint32)
qed

text \<open>
  The accelerated two-source merge agrees with the addition it replaces exactly when every
  count and every sum fits in 32 bits: a larger count raises \<open>OverflowError\<close>, a sum that does not fit is
  stored modulo \<open>2 ^ 32\<close>, although \<open>counts.bin\<close> holds larger numbers.
\<close>

theorem accel_merge_bounds:
  assumes "length a = length b" "\<forall>c\<in>set a \<union> set b. 0 \<le> c"
  shows "(merge_all_counts True [a, b] [] = merge_all_counts False [a, b] [] \<longleftrightarrow>
      (\<forall>c\<in>set a \<union> set b. c < 2 ^ 32) \<and> (\<forall>i<length a. a ! i + b ! i < 2 ^ 32)) \<and>
    ((\<exists>c\<in>set a \<union> set b. 2 ^ 32 \<le> c) \<longrightarrow> merge_all_counts True [a, b] [] = Inl OverflowError) \<and>
    ((\<forall>c\<in>set a \<union> set b. c < 2 ^ 32) \<longrightarrow>
       merge_all_counts True [a, b] [] = Inr (map (\<lambda>i. (a ! i + b ! i) mod 2 ^ 32) [0..<length a]))"
proof (cases "\<forall>c\<in>set a \<union> set b. c < 2 ^ 32")
  case True
  have pos: "0 \<le> a ! i + b ! i" if "i < length a" for i
  proof -
    have "a ! i \<in> set a" "b ! i \<in> set b" using assms(1) that by simp_all
    then show ?thesis using assms(2) by simp
  qed
  have "add_uint32_arrays True a b = Inr (map (\<lambda>c. c mod 2 ^ 32) (map2 (+) a b))"
    using True assms(2) by (intro add_uint32_accel) auto
  also have "map (\<lambda>c. c mod 2 ^ 32) (map2 (+) a b) = map (\<lambda>i. (a ! i + b ! i) mod 2 ^ 32) [0..<length a]"
    using assms(1) by (intro nth_equalityI) simp_all
  finally have t: "merge_all_counts True [a, b] [] = Inr (map (\<lambda>i. (a ! i + b ! i) mod 2 ^ 32) [0..<length a])"
    by (simp add: merge_all_counts_def)
  have f: "merge_all_counts False [a, b] [] = Inr (map (\<lambda>i. a ! i + b ! i) [0..<length a])"
    using assms(1) by (simp add: merge_all_counts_def sum_columns_two) (intro nth_equalityI, simp_all)
  have "(a ! i + b ! i) mod 2 ^ 32 = a ! i + b ! i \<longleftrightarrow> a ! i + b ! i < 2 ^ 32" if "i < length a" for i
    using pos[OF that] by (metis mod_pos_pos_trivial pos_mod_bound zero_less_numeral zero_less_power)
  then have "merge_all_counts True [a, b] [] = merge_all_counts False [a, b] [] \<longleftrightarrow> (\<forall>i<length a. a ! i + b ! i < 2 ^ 32)"
    unfolding t f by auto
  moreover have "\<not> (\<exists>c\<in>set a \<union> set b. 2 ^ 32 \<le> c)" using True by (meson not_le)
  ultimately show ?thesis using True t by blast
next
  case False
  then have "add_uint32_arrays True a b = Inl OverflowError"
    by (auto simp: add_uint32_arrays_def mapE_to_uint32 not_less)
  then have "merge_all_counts True [a, b] [] = Inl OverflowError" by (simp add: merge_all_counts_def)
  moreover have "merge_all_counts False [a, b] [] = Inr (sum_columns [a, b])" by (simp add: merge_all_counts_def)
  ultimately show ?thesis using False by auto
qed

lemma accel_merge_bounds_witness:
  "merge_all_counts True [[4294967295, 1], [1, 1]] [] = Inr [0, 2] \<and> merge_all_counts False [[4294967295, 1], [1, 1]] [] = Inr [4294967296, 2]"
  using accel_merge_bounds[of "[4294967295, 1]" "[1, 1]"]
  by (simp add: upt_rec merge_all_counts_def sum_columns_two)

section \<open>Identical annotations\<close>

lemma or_entry_same: "dict_get m i = Some f \<Longrightarrow> 0 \<le> f \<Longrightarrow> or_entry m (i, f) = m"
  by (simp add: or_entry_def) (induction m, auto)

lemma or_entry_known:
  "\<forall>e\<in>set fs. dict_get m (fst e) = Some (snd e) \<and> 0 \<le> snd e \<Longrightarrow> foldl or_entry m fs = m"
  by (induction fs) (auto simp: or_entry_same)

lemma or_entry_fill:
  "distinct (map fst (m @ es)) \<Longrightarrow> foldl or_entry m es = m @ es"
proof (induction es arbitrary: m)
  case (Cons e es)
  obtain i f where e: "e = (i, f)" by (cases e)
  have "dict_get m i = None" using Cons.prems by (auto simp: e map_of_eq_None_iff)
  moreover have "i \<notin> set (dict_keys m)" using Cons.prems by (auto simp: e)
  ultimately have "or_entry m e = m @ [e]" by (simp add: e or_entry_def update_notin)
  with Cons.IH[of "m @ [e]"] Cons.prems show ?case by simp
qed simp

lemma merge_flags_same:
  assumes "write_table es = Inr p" "sorted (map fst es)" "distinct (map fst es)"
  shows "merge_coveritem_flags (replicate (Suc n) p) = Inr p"
proof -
  have d: "decode_flags p = Inr es"
    using read_write_table[OF assms(1)] by (simp add: decode_flags_def)
  have pos: "0 \<le> f" if "(i, f) \<in> set es" for i f using decode_flags_nonneg[OF d that] .
  have get: "dict_get es (fst e) = Some (snd e) \<and> 0 \<le> snd e" if "e \<in> set es" for e
    using that assms(3) pos[of "fst e" "snd e"] by simp
  have known: "foldE (\<lambda>merged data. bindE (decode_flags data) (\<lambda>es. Inr (foldl or_entry merged es))) es (replicate k p) = Inr es" for k
    using or_entry_known[of es es] get by (induction k) (simp_all add: d)
  have "foldl or_entry [] es = es" using or_entry_fill[of "[]" es] assms(3) by simp
  then have "foldE (\<lambda>merged data. bindE (decode_flags data) (\<lambda>es. Inr (foldl or_entry merged es))) [] (replicate (Suc n) p) = Inr es"
    using known[of n] by (simp add: d)
  moreover have "map (\<lambda>index. (index, the (dict_get es index))) (sort (dict_keys es)) = es"
    using assms(2,3) by (simp add: sorted_sort_id comp_def) (intro map_idI, auto)
  ultimately show ?thesis using assms(1) unfolding merge_coveritem_flags_def by simp
qed

text \<open>
  The shortcut that copies identical annotations is sound: merging any number of copies
  of a flags member as its writer produces it gives that member, which is what the shortcut returns.
\<close>

theorem annotational_shortcut:
  assumes "flags_serialize db = Inr p"
  shows "merge_annotational merge_coveritem_flags (replicate (Suc n) p) = merge_coveritem_flags (replicate (Suc n) p)"
proof -
  have "merge_coveritem_flags (replicate (Suc n) p) = Inr p"
    by (rule merge_flags_same[OF assms[unfolded flags_serialize_def] sparse_sorted sparse_distinct])
  then show ?thesis by (simp add: merge_annotational_def list_all_iff)
qed

lemma annotational_shortcut_witness:
  "\<exists>p. flags_serialize (new_ucis [example_point [excluded_item]]) = Inr p \<and>
     merge_annotational merge_coveritem_flags (replicate 3 p) = merge_coveritem_flags (replicate 3 p)"
proof -
  have "\<forall>ci\<in>set (all_items CT_ALL32 (new_ucis [example_point [excluded_item]])). 0 \<le> getCoverFlags ci"
    unfolding items_excluded by (simp add: excluded_item_def getCoverFlags_def CoverData_def)
  then obtain p where "flags_serialize (new_ucis [example_point [excluded_item]]) = Inr p" using flags_serialize_ok by blast
  with annotational_shortcut[OF this, of 2] show ?thesis by (simp add: numeral_3_eq_3)
qed

section \<open>The fast path is taken only for the same bins\<close>

definition hash_inputs :: "ncdb_file \<Rightarrow> bytes set" where
  "hash_inputs f = {x. \<exists>tree strings. zf_read f MEMBER_SCOPE_TREE = Inr tree \<and> zf_read f MEMBER_STRINGS = Inr strings \<and>
     (x = tree \<or> x = schema_v2_input tree strings)}"

text \<open>The manifest's hash was computed from the archive's members, by either construction.\<close>

definition hash_consistent :: "(bytes \<Rightarrow> pystr) \<Rightarrow> ncdb_file \<Rightarrow> bool" where
  "hash_consistent sha f \<longleftrightarrow> (\<exists>tree strings. zf_read f MEMBER_SCOPE_TREE = Inr tree \<and> zf_read f MEMBER_STRINGS = Inr strings \<and>
     mf_schema_hash (nf_manifest f) \<in> {compute_schema_hash sha tree None, compute_schema_hash sha tree (Some strings)})"

definition same_bins :: "ncdb_file \<Rightarrow> ncdb_file \<Rightarrow> bool" where
  "same_bins f g \<longleftrightarrow> mf_schema_hash (nf_manifest f) = mf_schema_hash (nf_manifest g) \<and>
     zf_read f MEMBER_SCOPE_TREE = zf_read g MEMBER_SCOPE_TREE \<and> zf_read f MEMBER_STRINGS = zf_read g MEMBER_STRINGS"

lemma same_bins_trans: "same_bins f h \<Longrightarrow> same_bins g h \<Longrightarrow> same_bins f g"
  by (simp add: same_bins_def)

lemma hash_prefix:
  "startswith (compute_schema_hash sha tree (Some strings)) (lit ''sha256v2:'')"
  "\<not> startswith (compute_schema_hash sha tree None) (lit ''sha256v2:'')"
  by (simp_all add: compute_schema_hash_def startswith_def lit_def)

lemma equal_hashes:
  assumes "hash_consistent sha f" "hash_consistent sha g" "inj_on sha (hash_inputs f \<union> hash_inputs g)"
    and "mf_schema_hash (nf_manifest f) = mf_schema_hash (nf_manifest g)"
  shows "zf_read f MEMBER_SCOPE_TREE = zf_read g MEMBER_SCOPE_TREE \<and>
    (startswith (mf_schema_hash (nf_manifest f)) (lit ''sha256v2:'') \<longrightarrow> zf_read f MEMBER_STRINGS = zf_read g MEMBER_STRINGS)"
proof -
  let ?h = "mf_schema_hash (nf_manifest f)"
  obtain t s where f: "zf_read f MEMBER_SCOPE_TREE = Inr t" "zf_read f MEMBER_STRINGS = Inr s"
    "?h = compute_schema_hash sha t None \<or> ?h = compute_schema_hash sha t (Some s)"
    using assms(1) by (auto simp: hash_consistent_def)
  obtain t' s' where g: "zf_read g MEMBER_SCOPE_TREE = Inr t'" "zf_read g MEMBER_STRINGS = Inr s'"
    "?h = compute_schema_hash sha t' None \<or> ?h = compute_schema_hash sha t' (Some s')"
    using assms(2,4) by (auto simp: hash_consistent_def)
  have inp: "t \<in> hash_inputs f" "schema_v2_input t s \<in> hash_inputs f" "t' \<in> hash_inputs g" "schema_v2_input t' s' \<in> hash_inputs g"
    using f(1,2) g(1,2) by (auto simp: hash_inputs_def)
  show ?thesis
  proof (cases "startswith ?h (lit ''sha256v2:'')")
    case True
    then have "?h = compute_schema_hash sha t (Some s)" "?h = compute_schema_hash sha t' (Some s')"
      using f(3) g(3) hash_prefix(2)[of sha t] hash_prefix(2)[of sha t'] by auto
    then have "sha (schema_v2_input t s) = sha (schema_v2_input t' s')" by (simp add: compute_schema_hash_def)
    then have "schema_v2_input t s = schema_v2_input t' s'" using inj_onD[OF assms(3)] inp by blast
    then show ?thesis using f g by (simp add: schema_v2_input_inj)
  next
    case False
    then have "?h = compute_schema_hash sha t None" "?h = compute_schema_hash sha t' None"
      using f(3) g(3) hash_prefix(1)[of sha t s] hash_prefix(1)[of sha t' s'] by auto
    then have "sha t = sha t'" by (simp add: compute_schema_hash_def)
    then have "t = t'" using inj_onD[OF assms(3)] inp by blast
    then show ?thesis using False f g by simp
  qed
qed

lemma names_agree_v1:
  assumes "\<forall>f\<in>set sources. \<exists>s. zf_read f MEMBER_STRINGS = Inr s" "\<not> (hashes \<noteq> [] \<and> startswith (hd hashes) (lit ''sha256v2:''))" "sources \<noteq> []"
  shows "names_agree sources hashes = Inr (\<forall>f\<in>set sources. zf_read f MEMBER_STRINGS = zf_read (hd sources) MEMBER_STRINGS)"
proof -
  obtain ss where ss: "mapE (\<lambda>f. zf_read f MEMBER_STRINGS) sources = Inr ss"
    using assms(1) mapE_ok[of "\<lambda>f. zf_read f MEMBER_STRINGS" sources] by (auto simp: is_ok_iff)
  then have l: "list_all2 (\<lambda>f s. zf_read f MEMBER_STRINGS = Inr s) sources ss" by (simp add: mapE_eq_Inr)
  then have hd: "zf_read (hd sources) MEMBER_STRINGS = Inr (hd ss)" using assms(3) by (cases sources; cases ss) auto
  have "list_all (\<lambda>s. s = hd ss) ss \<longleftrightarrow> (\<forall>f\<in>set sources. zf_read f MEMBER_STRINGS = Inr (hd ss))"
  proof -
    have "list_all (\<lambda>s. s = x) ss \<longleftrightarrow> (\<forall>f\<in>set sources. zf_read f MEMBER_STRINGS = Inr x)" for x
      using l by (induction rule: list_all2_induct) auto
    then show ?thesis .
  qed
  moreover have "names_agree sources hashes = bindE (mapE (\<lambda>f. zf_read f MEMBER_STRINGS) sources) (\<lambda>strings. Inr (list_all (\<lambda>s. s = hd strings) strings))"
    unfolding names_agree_def using assms(2) by (rule if_not_P)
  ultimately show ?thesis by (simp add: ss hd)
qed

text \<open>
  C4 (safety). Counts are added bin by bin only between archives of the same design. For archives whose
  hashes were computed from their members - by the current construction or the older one that leaves the
  names out - and digests without a collision among these, the fast path is taken exactly when hash,
  hierarchy and names all agree; no source at all, or different designs when the slow path is not
  allowed, is an error.
\<close>

theorem fast_path_sound:
  assumes "\<forall>f\<in>set sources. hash_consistent sha f" "inj_on sha (\<Union>f\<in>set sources. hash_inputs f)"
  shows "(choose_path sources allow = Inr SameSchema \<longleftrightarrow> sources \<noteq> [] \<and> (\<forall>f\<in>set sources. \<forall>g\<in>set sources. same_bins f g)) \<and>
    (choose_path sources allow = Inr CrossSchema \<longleftrightarrow> allow \<and> (\<exists>f\<in>set sources. \<exists>g\<in>set sources. \<not> same_bins f g)) \<and>
    (choose_path sources allow = Inl ValueError \<longleftrightarrow> sources = [] \<or> \<not> allow \<and> (\<exists>f\<in>set sources. \<exists>g\<in>set sources. \<not> same_bins f g))"
proof (cases "sources = []")
  case True
  then show ?thesis by (simp add: choose_path_def)
next
  case False
  let ?hs = "map (mf_schema_hash \<circ> nf_manifest) sources" and ?f0 = "hd sources"
  have f0: "?f0 \<in> set sources" and hd: "hd ?hs = mf_schema_hash (nf_manifest ?f0)" using False by (simp_all add: hd_map)
  have all_same: "list_all (\<lambda>h. h = hd ?hs) ?hs \<longleftrightarrow> (\<forall>f\<in>set sources. mf_schema_hash (nf_manifest f) = mf_schema_hash (nf_manifest ?f0))"
    unfolding hd by (simp add: list_all_iff)
  have strs: "\<forall>f\<in>set sources. \<exists>s. zf_read f MEMBER_STRINGS = Inr s" using assms(1) by (auto simp: hash_consistent_def)
  have eq: "zf_read f MEMBER_SCOPE_TREE = zf_read ?f0 MEMBER_SCOPE_TREE \<and>
     (startswith (hd ?hs) (lit ''sha256v2:'') \<longrightarrow> zf_read f MEMBER_STRINGS = zf_read ?f0 MEMBER_STRINGS)"
    if "f \<in> set sources" "mf_schema_hash (nf_manifest f) = mf_schema_hash (nf_manifest ?f0)" for f
  proof -
    have "hash_inputs f \<union> hash_inputs ?f0 \<subseteq> (\<Union>f\<in>set sources. hash_inputs f)" using that(1) f0 by blast
    from equal_hashes[of sha f ?f0] inj_on_subset[OF assms(2) this] assms(1) f0 that show ?thesis unfolding hd by simp
  qed
  have "bindE (if list_all (\<lambda>h. h = hd ?hs) ?hs then names_agree sources ?hs else Inr False) k = k (\<forall>f\<in>set sources. same_bins f ?f0)"
    for k :: "bool \<Rightarrow> merge_path res"
  proof (cases "list_all (\<lambda>h. h = hd ?hs) ?hs")
    case h: True
    show ?thesis
    proof (cases "startswith (hd ?hs) (lit ''sha256v2:'')")
      case True
      then have "names_agree sources ?hs = Inr True" using False by (simp add: names_agree_def)
      moreover have "\<forall>f\<in>set sources. same_bins f ?f0" using h True eq unfolding all_same by (simp add: same_bins_def)
      ultimately show ?thesis using h by simp
    next
      case v1: False
      have "(\<forall>f\<in>set sources. zf_read f MEMBER_STRINGS = zf_read ?f0 MEMBER_STRINGS) \<longleftrightarrow> (\<forall>f\<in>set sources. same_bins f ?f0)"
        using h eq unfolding all_same by (auto simp: same_bins_def)
      with names_agree_v1[OF strs _ False, of ?hs] v1 h show ?thesis by simp
    qed
  next
    case h: False
    then have n: "(\<forall>f\<in>set sources. same_bins f ?f0) = False" unfolding all_same by (auto simp: same_bins_def)
    show ?thesis unfolding n using h by simp
  qed
  then have "choose_path sources allow = (if \<forall>f\<in>set sources. same_bins f ?f0 then Inr SameSchema
      else if \<not> allow then Inl ValueError else Inr CrossSchema)"
    using False unfolding choose_path_def Let_def by simp
  moreover have "(\<forall>f\<in>set sources. same_bins f ?f0) \<longleftrightarrow> (\<forall>f\<in>set sources. \<forall>g\<in>set sources. same_bins f g)"
    using f0 same_bins_trans by blast
  ultimately show ?thesis using False by (cases "\<forall>f\<in>set sources. \<forall>g\<in>set sources. same_bins f g"; cases allow) simp_all
qed

definition example_file :: "bytes \<Rightarrow> bytes \<Rightarrow> pystr \<Rightarrow> ncdb_file" where
  "example_file tree strings hash =
     \<lparr>nf_manifest = new_manifest\<lparr>mf_schema_hash := hash\<rparr>,
      nf_members = [(MEMBER_STRINGS, strings), (MEMBER_SCOPE_TREE, tree), (MEMBER_COUNTS, [1, 2, 5, 3]), (MEMBER_SOURCES, []),
        (lit ''contrib/0.bin'', [1, 0, 5])],
      nf_history = history_serialize [new_history_node 0 None (JStr hash) JNull (NK HNK_TEST)],
      nf_attrs = None, nf_tags = None, nf_formal = None, nf_testplan = None, nf_waivers = None\<rparr>"

lemma fast_path_sound_witness:
  "choose_path [example_file [7] [8] (compute_schema_hash (map unat) [7] None), example_file [7] [9] (compute_schema_hash (map unat) [7] None)] False
     = Inl ValueError \<and>
   choose_path [example_file [7] [8] (compute_schema_hash (map unat) [7] None), example_file [7] [8] (compute_schema_hash (map unat) [7] None)] False
     = Inr SameSchema"
proof -
  let ?sha = "map unat :: bytes \<Rightarrow> pystr"
  let ?f = "\<lambda>s. example_file [7] [s] (compute_schema_hash ?sha [7] None)"
  have r: "zf_read (?f s) MEMBER_SCOPE_TREE = Inr [7]" "zf_read (?f s) MEMBER_STRINGS = Inr [s]" for s
    by (simp_all add: example_file_def zf_read_def MEMBER_STRINGS_def MEMBER_SCOPE_TREE_def)
  have c: "\<forall>f\<in>set [?f 8, ?f s]. hash_consistent ?sha f" for s
    by (simp add: hash_consistent_def r) (simp add: example_file_def)
  have i: "inj_on ?sha (\<Union>f\<in>set [?f 8, ?f s]. hash_inputs f)" for s
  proof -
    have "inj (unat :: byte \<Rightarrow> nat)" by (rule injI) (simp add: unsigned_word_eqI)
    then show ?thesis by (intro inj_on_subset[OF inj_mapI subset_UNIV])
  qed
  have same: "same_bins (?f s) (?f t) \<longleftrightarrow> s = t" for s t
  proof -
    have "mf_schema_hash (nf_manifest (?f s)) = mf_schema_hash (nf_manifest (?f t))" by (simp add: example_file_def)
    then show ?thesis by (simp add: same_bins_def r)
  qed
  show ?thesis using fast_path_sound[OF c i, of 9 False] fast_path_sound[OF c i, of 8 False] by (simp add: same)
qed

section \<open>What the fast path produces\<close>

lemma dict_update_keys: "set (dict_keys (dict_update d e)) \<subseteq> set (dict_keys d) \<union> set (dict_keys e)"
proof (induction e arbitrary: d)
  case (Cons p e)
  have "set (dict_keys (dict_set (fst p) (snd p) d)) \<subseteq> insert (fst p) (set (dict_keys d))" unfolding dict_keys_set by auto
  with Cons.IH[of "dict_set (fst p) (snd p) d"] show ?case by (auto simp: dict_update_def)
qed (simp add: dict_update_def)

lemma merge_v2_names:
  assumes "merge_v2_history compress decompress sources = Inr v2" "n \<in> set (dict_keys v2)"
  shows "\<not> startswith n (lit ''contrib/'')"
proof -
  obtain st where "write_v2_state st = Inr v2"
    using assms(1) unfolding merge_v2_history_def by (elim bindE_InrE)
  note w = this[unfolded write_v2_state_def]
  obtain reg bidx cidx slog where "v2 = dict_update [(MEMBER_TEST_REGISTRY, reg), (MEMBER_BUCKET_INDEX, bidx), (MEMBER_CONTRIB_INDEX, cidx), (MEMBER_SQUASH_LOG, slog)]
              (map (\<lambda>(seq, data). (bucket_member_name seq, data)) (vs_buckets st))" (is "_ = dict_update ?d ?e")
    using w by (elim bindE_InrE) (auto simp: eq_commute)
  then have "n \<in> set (dict_keys ?d) \<union> set (dict_keys ?e)" using assms(2) dict_update_keys[of ?d ?e] by blast
  then have "n \<in> {MEMBER_TEST_REGISTRY, MEMBER_BUCKET_INDEX, MEMBER_CONTRIB_INDEX, MEMBER_SQUASH_LOG} \<or> (\<exists>i. n = bucket_member_name i)"
    by (auto simp: case_prod_beta)
  then show ?thesis
  proof
    assume "\<exists>i. n = bucket_member_name i"
    then obtain i where "n = bucket_member_name i" ..
    then show ?thesis by (simp add: startswith_def bucket_member_name_def HISTORY_BUCKET_DIR_def lit_def)
  qed (auto simp: startswith_def MEMBER_TEST_REGISTRY_def MEMBER_BUCKET_INDEX_def MEMBER_CONTRIB_INDEX_def MEMBER_SQUASH_LOG_def lit_def)
qed

lemma merge_same_schema_pieces:
  assumes "merge_same_schema has_accel compress decompress now created target named = Inr m"
  shows "\<exists>all_counts opss merged histories v2.
    mapE read_counts (map snd named) = Inr all_counts \<and> (\<forall>c\<in>set all_counts. length c = length (hd all_counts)) \<and>
    mapE merge_ops_deserialize (present (map (\<lambda>f. dict_get (nf_members f) MEMBER_MERGE_OPS) (map snd named))) = Inr opss \<and>
    merge_all_counts has_accel all_counts opss = Inr merged \<and>
    mapE (\<lambda>f. history_deserialize now (nf_history f)) (map snd named) = Inr histories \<and>
    mg_history m = history_serialize (concat histories @ [make_merge_node now target (map fst named)]) \<and>
    (\<exists>fmt. mg_manifest m = merged_manifest (nf_manifest (hd (map snd named))) fmt created merged
       (concat histories @ [make_merge_node now target (map fst named)])) \<and>
    (\<exists>strings tree counts srcs mm. counts_serialize merged = Inr counts \<and>
       set (dict_keys mm) \<subseteq> set STRUCTURAL_MEMBERS \<union> {MEMBER_COVERITEM_FLAGS} \<and>
       mg_members m = [(MEMBER_STRINGS, strings), (MEMBER_SCOPE_TREE, tree), (MEMBER_COUNTS, counts), (MEMBER_SOURCES, srcs)] @
         map (\<lambda>n. (n, the (dict_get mm n))) (sort (dict_keys mm)) @
         renumber_contrib (map contrib_members (map snd named)) (offsets_from 0 (map length histories)) @ v2) \<and>
    (\<forall>n\<in>set (dict_keys v2). \<not> startswith n (lit ''contrib/''))"
proof -
  let ?sources = "map snd named"
  obtain all_counts where a: "mapE read_counts ?sources = Inr all_counts"
    using assms unfolding merge_same_schema_def Let_def by (elim bindE_InrE)
  have same: "\<not> list_ex (\<lambda>counts. length counts \<noteq> length (hd all_counts)) all_counts"
    using assms unfolding merge_same_schema_def Let_def a bindE_Inr by (auto split: if_splits)
  note r1 = assms[unfolded merge_same_schema_def Let_def a bindE_Inr if_not_P[OF same]]
  obtain opss merged histories where b: "mapE merge_ops_deserialize (present (map (\<lambda>f. dict_get (nf_members f) MEMBER_MERGE_OPS) ?sources)) = Inr opss"
    "merge_all_counts has_accel all_counts opss = Inr merged" "mapE (\<lambda>f. history_deserialize now (nf_history f)) ?sources = Inr histories"
    using r1 by (elim bindE_InrE)
  obtain strings tree srcs flags counts v2 where c: "zf_read (hd ?sources) MEMBER_STRINGS = Inr strings"
    "zf_read (hd ?sources) MEMBER_SCOPE_TREE = Inr tree" "zf_read (hd ?sources) MEMBER_SOURCES = Inr srcs"
    "merge_flags_member ?sources = Inr flags" "counts_serialize merged = Inr counts"
    "(if list_ex (\<lambda>f. mf_history_format (nf_manifest f) = HISTORY_FORMAT_V2) ?sources then merge_v2_history compress decompress
                 (map (\<lambda>f. (mf_history_format (nf_manifest f) = HISTORY_FORMAT_V2, nf_members f)) ?sources)
             else Inr []) = Inr v2"
    using r1[unfolded b bindE_Inr] by (elim bindE_InrE)
  let ?mm = "if flags = [] then structural_members (hd ?sources)
             else dict_set MEMBER_COVERITEM_FLAGS flags (structural_members (hd ?sources))"
  let ?fmt = "if list_ex (\<lambda>f. mf_history_format (nf_manifest f) = HISTORY_FORMAT_V2) ?sources then HISTORY_FORMAT_V2
    else mf_history_format (nf_manifest (hd ?sources))"
  have m: "mg_history m = history_serialize (concat histories @ [make_merge_node now target (map fst named)])"
    "mg_manifest m = merged_manifest (nf_manifest (hd (map snd named))) ?fmt created merged
       (concat histories @ [make_merge_node now target (map fst named)])"
    "mg_members m = [(MEMBER_STRINGS, strings), (MEMBER_SCOPE_TREE, tree), (MEMBER_COUNTS, counts), (MEMBER_SOURCES, srcs)] @
         map (\<lambda>n. (n, the (dict_get ?mm n))) (sort (dict_keys ?mm)) @
         renumber_contrib (map contrib_members ?sources) (offsets_from 0 (map length histories)) @ v2"
    using r1[unfolded b c bindE_Inr] by (auto elim!: InrE)
  have keys: "set (dict_keys ?mm) \<subseteq> set STRUCTURAL_MEMBERS \<union> {MEMBER_COVERITEM_FLAGS}"
  proof -
    have "set (dict_keys (structural_members (hd ?sources))) \<subseteq> set STRUCTURAL_MEMBERS" by (auto simp: structural_members_def)
    moreover have "set (dict_keys (dict_set k d e)) \<subseteq> insert k (set (dict_keys e))" for k :: pystr and d :: bytes and e
      unfolding dict_keys_set by auto
    note h = this[of MEMBER_COVERITEM_FLAGS flags "structural_members (hd ?sources)"] calculation
    show ?thesis
    proof (cases "flags = []")
      case True
      then show ?thesis using h(2) unfolding if_P[OF True] by blast
    next
      case False
      then show ?thesis using h unfolding if_not_P[OF False] by blast
    qed
  qed
  have v2: "\<forall>n\<in>set (dict_keys v2). \<not> startswith n (lit ''contrib/'')"
    using c(6) merge_v2_names by (auto split: if_splits)
  have len: "\<forall>c\<in>set all_counts. length c = length (hd all_counts)" using same by (auto simp: list_ex_iff)
  show ?thesis using a len b m c(5) keys v2 by blast
qed

end
