(* ===== verification/MergedArchive.thy ===== *)
theory MergedArchive
  imports Merger
begin

text \<open>
  What the fast path of the merger leaves in the merged archive (\<open>NcdbMerger._merge_same_schema\<close>): the
  counts member against the specification of merged counts, the manifest's figures against the counts
  and the history, and the attribution of the per-test contributions to the concatenated history.
\<close>

section \<open>Looking members up\<close>

lemma get_append_past: "k \<notin> set (dict_keys xs) \<Longrightarrow> dict_get (xs @ ys) k = dict_get ys k"
  by (simp add: map_add_def map_of_eq_None_iff[THEN iffD2] split: option.split)

lemma get_append_first: "k \<notin> set (dict_keys ys) \<Longrightarrow> dict_get (xs @ ys) k = dict_get xs k"
  by (simp add: map_add_def map_of_eq_None_iff[THEN iffD2] split: option.split)

lemma get_contrib_members:
  "startswith n (lit ''contrib/'') \<Longrightarrow> dict_get (contrib_members f) n = dict_get (nf_members f) n"
proof -
  assume n: "startswith n (lit ''contrib/'')"
  have "dict_get (filter (\<lambda>(n, _). startswith n (lit ''contrib/'')) ms) n = dict_get ms n" for ms :: "(pystr \<times> bytes) list"
    by (induction ms) (use n in auto)
  then show ?thesis by (simp add: contrib_members_def)
qed

lemma contrib_name_startswith: "startswith (contrib_name i) (lit ''contrib/'')"
  by (simp add: startswith_def contrib_name_def MEMBER_CONTRIB_DIR_def lit_def)

lemmas member_names = MEMBER_STRINGS_def MEMBER_SCOPE_TREE_def MEMBER_COUNTS_def MEMBER_SOURCES_def STRUCTURAL_MEMBERS_def
  MEMBER_MERGE_OPS_def MEMBER_COVERITEM_FLAGS_def

lemma member_not_contrib:
  "n \<in> {MEMBER_STRINGS, MEMBER_SCOPE_TREE, MEMBER_COUNTS, MEMBER_SOURCES, MEMBER_COVERITEM_FLAGS} \<union> set STRUCTURAL_MEMBERS \<Longrightarrow>
   \<not> startswith n (lit ''contrib/'')"
  by (auto simp: member_names startswith_def lit_def)

lemma merged_contrib_get:
  assumes "set (dict_keys mm) \<subseteq> set STRUCTURAL_MEMBERS \<union> {MEMBER_COVERITEM_FLAGS}"
    and "\<forall>n\<in>set (dict_keys v2). \<not> startswith n (lit ''contrib/'')" and n: "startswith n (lit ''contrib/'')"
  shows "dict_get ([(MEMBER_STRINGS, a), (MEMBER_SCOPE_TREE, b), (MEMBER_COUNTS, c), (MEMBER_SOURCES, d)] @
      map (\<lambda>n. (n, the (dict_get mm n))) (sort (dict_keys mm)) @ contribs @ v2) n = dict_get contribs n"
proof -
  let ?head = "[(MEMBER_STRINGS, a), (MEMBER_SCOPE_TREE, b), (MEMBER_COUNTS, c), (MEMBER_SOURCES, d)]"
  let ?mid = "map (\<lambda>n. (n, the (dict_get mm n))) (sort (dict_keys mm))"
  have "n \<notin> set (dict_keys ?head)" using n member_not_contrib[of n] by auto
  moreover have "set (dict_keys ?mid) = set (dict_keys mm)" by (simp add: comp_def)
  then have "n \<notin> set (dict_keys ?mid)" using assms(1) n member_not_contrib[of n] by blast
  moreover have "n \<notin> set (dict_keys v2)" using assms(2) n by blast
  ultimately show ?thesis by (simp only: get_append_past get_append_first not_False_eq_True)
qed

lemma merged_counts_get:
  "dict_get ([(MEMBER_STRINGS, a), (MEMBER_SCOPE_TREE, b), (MEMBER_COUNTS, c), (MEMBER_SOURCES, d)] @ ms) MEMBER_COUNTS = Some c"
  by (simp add: member_names lit_def)

section \<open>Counts and figures\<close>

lemma merge_all_counts_plain: "xs \<noteq> [] \<Longrightarrow> merge_all_counts False xs opss = Inr (merge_counts xs (foldl dict_update [] opss))"
  by (simp add: merge_all_counts_def merge_counts_def)

text \<open>
  C3 (functional). The merged archive of the fast path holds one count per bin: the sum of the sources'
  counts, or the largest of them where an operation table of any source says so, and the manifest's
  bin count, hit total and number of covered bins are those of the counts that are stored. Stated for
  the addition in Python.
\<close>

theorem same_schema_counts:
  assumes "merge_same_schema False compress decompress now created target named = Inr m" "named \<noteq> []"
  shows "\<exists>all_counts opss merged.
    mapE read_counts (map snd named) = Inr all_counts \<and>
    mapE merge_ops_deserialize (present (map (\<lambda>f. dict_get (nf_members f) MEMBER_MERGE_OPS) (map snd named))) = Inr opss \<and>
    (\<exists>bs. dict_get (mg_members m) MEMBER_COUNTS = Some bs \<and> counts_deserialize bs = Inr merged) \<and>
    (\<forall>c\<in>set all_counts. length c = length merged) \<and>
    (\<forall>i<length merged. merged ! i =
       (if (i, OP_MAX) \<in> set (foldl dict_update [] opss) then Max ((\<lambda>a. a ! i) ` set all_counts) else (\<Sum>a\<leftarrow>all_counts. a ! i))) \<and>
    mf_coveritem_count (mg_manifest m) = int (length merged) \<and> mf_total_hits (mg_manifest m) = sum_list merged \<and>
    mf_covered_bins (mg_manifest m) = int (length (filter (\<lambda>c. c > 0) merged))"
proof -
  obtain all_counts opss merged histories v2 fmt strings tree counts srcs mm where
    r: "mapE read_counts (map snd named) = Inr all_counts"
      "\<forall>c\<in>set all_counts. length c = length (hd all_counts)"
      "mapE merge_ops_deserialize (present (map (\<lambda>f. dict_get (nf_members f) MEMBER_MERGE_OPS) (map snd named))) = Inr opss"
      "merge_all_counts False all_counts opss = Inr merged"
      "mg_manifest m = merged_manifest (nf_manifest (hd (map snd named))) fmt created merged
         (concat histories @ [make_merge_node now target (map fst named)])"
      "counts_serialize merged = Inr counts"
    and mem: "mg_members m = [(MEMBER_STRINGS, strings), (MEMBER_SCOPE_TREE, tree), (MEMBER_COUNTS, counts), (MEMBER_SOURCES, srcs)] @
         map (\<lambda>n. (n, the (dict_get mm n))) (sort (dict_keys mm)) @
         renumber_contrib (map contrib_members (map snd named)) (offsets_from 0 (map length histories)) @ v2"
    using merge_same_schema_pieces[OF assms(1)] by blast
  have ne: "all_counts \<noteq> []" using r(1) assms(2) by (auto simp: mapE_eq_Inr)
  have merged: "merged = merge_counts all_counts (foldl dict_update [] opss)"
    using r(4) by (simp add: merge_all_counts_plain[OF ne])
  note spec = merge_counts_nth[OF ne r(2), of "foldl dict_update [] opss", folded merged]
  have get: "dict_get (mg_members m) MEMBER_COUNTS = Some counts" unfolding mem by (rule merged_counts_get)
  have rd: "counts_deserialize counts = Inr merged" using counts_roundtrip_aux[OF r(6), of "[]"] by simp
  have fig: "mf_coveritem_count (mg_manifest m) = int (length merged) \<and> mf_total_hits (mg_manifest m) = sum_list merged \<and>
    mf_covered_bins (mg_manifest m) = int (length (filter (\<lambda>c. c > 0) merged))"
    unfolding r(5) by (simp add: merged_manifest_def)
  have len: "\<forall>c\<in>set all_counts. length c = length merged" using r(2) spec by simp
  have nth: "\<forall>i<length merged. merged ! i =
       (if (i, OP_MAX) \<in> set (foldl dict_update [] opss) then Max ((\<lambda>a. a ! i) ` set all_counts) else (\<Sum>a\<leftarrow>all_counts. a ! i))"
    using spec by (simp add: column_def)
  show ?thesis using r(1,3) get rd len nth fig by blast
qed

lemma example_counts: "counts_serialize [5, 3] = Inr [1, 2, 5, 3]" "counts_deserialize [1, 2, 5, 3] = Inr [5, 3]"
proof -
  show s: "counts_serialize [5, 3] = Inr [1, 2, 5, 3]"
    by (simp add: counts_serialize_def encode_varints_def encode_varint_def varint_loop_small COUNTS_MODE_VARINT_def)
  show "counts_deserialize [1, 2, 5, 3] = Inr [5, 3]" using counts_roundtrip_aux[OF s, of "[]"] by simp
qed

definition example_sources :: "(pystr \<times> ncdb_file) list" where
  "example_sources = [(lit ''a.cdb'', example_file [7] [8] (lit ''h'')), (lit ''b.cdb'', example_file [7] [8] (lit ''h''))]"

lemma example_members:
  "zf_read (example_file t s h) MEMBER_STRINGS = Inr s" "zf_read (example_file t s h) MEMBER_SCOPE_TREE = Inr t"
  "zf_read (example_file t s h) MEMBER_SOURCES = Inr []" "read_counts (example_file t s h) = Inr [5, 3]"
  "dict_get (nf_members (example_file t s h)) MEMBER_MERGE_OPS = None"
  "dict_get (nf_members (example_file t s h)) MEMBER_COVERITEM_FLAGS = None"
  "mf_history_format (nf_manifest (example_file t s h)) = HISTORY_FORMAT_V1"
  "structural_members (example_file t s h) = []"
  by (simp_all add: example_file_def zf_read_def member_names lit_def example_counts(2) read_counts_def new_manifest_def structural_members_def)

lemma example_fast_merge: "\<exists>m. merge_same_schema False id Inr 0 [] (lit ''m.cdb'') example_sources = Inr m"
proof -
  have h: "nf_history (example_file t s h) = history_serialize [new_history_node 0 None (JStr h) JNull (NK HNK_TEST)]" for t s h
    by (simp add: example_file_def)
  have c: "\<exists>bs. counts_serialize [10, 6] = Inr bs"
    using counts_serialize_ok[of "[10, 6]"] by (simp add: is_ok_iff)
  then show ?thesis
    unfolding merge_same_schema_def Let_def example_sources_def
    by (auto simp: example_members present_def merge_all_counts_plain merge_counts_def sum_columns_def zip_len_def column_def h
        history_reread merge_flags_member_def HISTORY_FORMAT_V1_def HISTORY_FORMAT_V2_def lit_def)
qed

lemma same_schema_counts_witness:
  "\<exists>m. merge_same_schema False id Inr 0 [] (lit ''m.cdb'') example_sources = Inr m \<and>
     (\<exists>bs. dict_get (mg_members m) MEMBER_COUNTS = Some bs \<and> counts_deserialize bs = Inr [10, 6]) \<and>
     mf_total_hits (mg_manifest m) = 16"
proof -
  obtain m where m: "merge_same_schema False id Inr 0 [] (lit ''m.cdb'') example_sources = Inr m" using example_fast_merge ..
  have ne: "example_sources \<noteq> []" by (simp add: example_sources_def)
  have rc: "mapE read_counts (map snd example_sources) = Inr [[5, 3], [5, 3]]"
    "mapE merge_ops_deserialize (present (map (\<lambda>f. dict_get (nf_members f) MEMBER_MERGE_OPS) (map snd example_sources))) = Inr []"
    by (simp_all add: example_sources_def example_members present_def)
  obtain merged bs where r: "dict_get (mg_members m) MEMBER_COUNTS = Some bs" "counts_deserialize bs = Inr merged"
    "length merged = 2" "\<forall>i<length merged. merged ! i = (\<Sum>a\<leftarrow>[[5, 3], [5, 3]]. a ! i)" "mf_total_hits (mg_manifest m) = sum_list merged"
    using same_schema_counts[OF m ne] unfolding rc by auto
  have "merged = [10, 6]" using r(3,4) by (intro nth_equalityI) (auto simp: less_2_cases_iff)
  with m r show ?thesis by simp
qed

section \<open>History and attribution\<close>

lemma merge_node_canon: "canon_node now (make_merge_node now target paths) = make_merge_node now target paths"
  by (rule canon_node_read) (simp add: node_read_def make_merge_node_def new_history_node_def)

lemma merged_history_read:
  assumes "mapE (\<lambda>f. history_deserialize now (nf_history f)) fs = Inr histories"
  shows "history_deserialize now (history_serialize (concat histories @ [make_merge_node now target paths])) =
    Inr (concat histories @ [make_merge_node now target paths])"
proof -
  have "\<forall>h\<in>set histories. \<forall>n\<in>set h. node_read n"
  proof (intro ballI)
    fix h n assume h: "h \<in> set histories" "n \<in> set h"
    have "list_all2 (\<lambda>f h. history_deserialize now (nf_history f) = Inr h) fs histories" using assms by (simp add: mapE_eq_Inr)
    from list_all2_source[OF this h(1)] obtain f where "f \<in> set fs" "history_deserialize now (nf_history f) = Inr h" by blast
    from this(2) have "list_all2 (\<lambda>r n. history_node_of now r = Inr n) (nf_history f) h" by (simp add: history_deserialize_def mapE_eq_Inr)
    from list_all2_source[OF this h(2)] obtain r where "history_node_of now r = Inr n" by blast
    then show "node_read n" by (rule node_of_read)
  qed
  then have "map (canon_node now) (concat histories) = concat histories"
    by (intro map_idI) (auto intro: canon_node_read)
  then show ?thesis by (simp add: history_reread merge_node_canon)
qed

lemma histories_lengths:
  assumes "mapE (\<lambda>f. history_deserialize now (nf_history f)) fs = Inr histories"
  shows "map length histories = map (length \<circ> nf_history) fs"
proof -
  have l: "length h = length (nf_history f)" if "history_deserialize now (nf_history f) = Inr h" for f h
    using that by (auto simp: history_deserialize_def mapE_eq_Inr dest: list_all2_lengthD)
  have "list_all2 (\<lambda>f h. length h = length (nf_history f)) fs histories"
    using assms unfolding mapE_eq_Inr by (rule list_all2_mono) (rule l)
  then show ?thesis by (induction rule: list_all2_induct) simp_all
qed

lemma concat_nth_offset:
  "k < length xss \<Longrightarrow> i < length (xss ! k) \<Longrightarrow>
   concat xss ! (sum_list (take k (map length xss)) + i) = xss ! k ! i"
  by (induction xss arbitrary: k) (auto simp: nth_append nth_Cons' take_Cons')

text \<open>
  The archives the writer makes: their contributions are stored under the indices of their own history.
\<close>

definition contribs_attributed :: "ncdb_file \<Rightarrow> (nat \<times> bytes) list \<Rightarrow> bool" where
  "contribs_attributed f part \<longleftrightarrow> contrib_members f = source_members part \<and> distinct (dict_keys part) \<and>
     (\<forall>i\<in>set (dict_keys part). i < length (nf_history f))"

lemma attributed_get:
  assumes "contribs_attributed f part"
  shows "dict_get part i = dict_get (nf_members f) (contrib_name (int i))"
proof -
  have "dict_get (source_members part) (contrib_name (int i)) = dict_get part i" for part
    by (induction part) (auto simp: source_members_def)
  then show ?thesis using assms get_contrib_members[OF contrib_name_startswith, of f "int i"]
    by (simp add: contribs_attributed_def)
qed

lemma renumber_contrib_get:
  assumes "list_all2 (\<lambda>p n. distinct (dict_keys p) \<and> (\<forall>i\<in>set (dict_keys p). i < n)) parts ns"
  shows "dict_get (renumber_contrib (map source_members parts) (offsets_from 0 ns)) (contrib_name (int j)) = locate parts ns j"
  using renumber_from[OF assms, of "[]" 0 j] by (simp add: renumber_contrib_def split: option.splits)

text \<open>
  C2 (safety). The merge of archives of one design attributes every contribution to the test it came
  from: the merged history is the concatenation of the sources' histories and the merge node, in the
  order of the sources and surviving its own round trip; the contribution stored for node \<open>i\<close> of source
  \<open>k\<close> is stored for that node's place in the merged history, byte for byte, present or absent; and
  nothing is stored for the merge node or past it.
\<close>

theorem same_schema_attribution:
  assumes run: "merge_same_schema has_accel compress decompress now created target named = Inr m"
    and parts: "list_all2 contribs_attributed (map snd named) parts"
  shows "\<exists>histories. mapE (\<lambda>f. history_deserialize now (nf_history f)) (map snd named) = Inr histories \<and>
    history_deserialize now (mg_history m) = Inr (concat histories @ [make_merge_node now target (map fst named)]) \<and>
    (\<forall>k<length histories. \<forall>i<length (histories ! k).
       concat histories ! (sum_list (take k (map length histories)) + i) = histories ! k ! i \<and>
       dict_get (mg_members m) (contrib_name (int (sum_list (take k (map length histories)) + i))) =
         dict_get (nf_members (snd (named ! k))) (contrib_name (int i))) \<and>
    (\<forall>j\<ge>length (concat histories). dict_get (mg_members m) (contrib_name (int j)) = None)"
proof -
  obtain all_counts opss merged histories v2 strings tree counts srcs mm where
    h: "mapE (\<lambda>f. history_deserialize now (nf_history f)) (map snd named) = Inr histories"
    and hist: "mg_history m = history_serialize (concat histories @ [make_merge_node now target (map fst named)])"
    and mem: "mg_members m = [(MEMBER_STRINGS, strings), (MEMBER_SCOPE_TREE, tree), (MEMBER_COUNTS, counts), (MEMBER_SOURCES, srcs)] @
         map (\<lambda>n. (n, the (dict_get mm n))) (sort (dict_keys mm)) @
         renumber_contrib (map contrib_members (map snd named)) (offsets_from 0 (map length histories)) @ v2"
    and fresh: "set (dict_keys mm) \<subseteq> set STRUCTURAL_MEMBERS \<union> {MEMBER_COVERITEM_FLAGS}"
      "\<forall>n\<in>set (dict_keys v2). \<not> startswith n (lit ''contrib/'')"
    using merge_same_schema_pieces[OF run] by blast
  let ?ns = "map length histories"
  have src: "map contrib_members (map snd named) = map source_members parts"
    using parts by (induction named arbitrary: parts) (auto simp: list_all2_Cons1 contribs_attributed_def)
  have ns: "?ns = map (length \<circ> nf_history) (map snd named)" by (rule histories_lengths[OF h])
  have ok: "list_all2 (\<lambda>p n. distinct (dict_keys p) \<and> (\<forall>i\<in>set (dict_keys p). i < n)) parts ?ns"
    unfolding ns using parts by (auto simp: list_all2_conv_all_nth contribs_attributed_def)
  have len: "length parts = length ?ns" "length named = length histories"
    using list_all2_lengthD[OF ok] list_all2_lengthD[OF parts] by simp_all
  have get: "dict_get (mg_members m) (contrib_name (int j)) = locate parts ?ns j" for j
    unfolding mem merged_contrib_get[OF fresh contrib_name_startswith] src by (rule renumber_contrib_get[OF ok])
  have at_node: "locate parts ?ns (sum_list (take k ?ns) + i) = dict_get (nf_members (snd (named ! k))) (contrib_name (int i))"
    if "k < length histories" "i < length (histories ! k)" for k i
  proof -
    have "contribs_attributed (snd (named ! k)) (parts ! k)"
      using list_all2_nthD[OF parts, of k] that(1) len(2) by simp
    then show ?thesis using locate_in[OF len(1), of k i] that attributed_get by simp
  qed
  have past: "dict_get (mg_members m) (contrib_name (int j)) = None" if "length (concat histories) \<le> j" for j
    unfolding get using locate_past[OF len(1), of j] that by (simp add: length_concat)
  show ?thesis
  proof (intro exI conjI allI impI)
    show "history_deserialize now (mg_history m) = Inr (concat histories @ [make_merge_node now target (map fst named)])"
      unfolding hist by (rule merged_history_read[OF h])
  qed (use h get at_node past concat_nth_offset in \<open>simp_all del: of_nat_add\<close>)
qed

lemma same_schema_attribution_witness:
  "\<exists>m. merge_same_schema False id Inr 0 [] (lit ''m.cdb'') example_sources = Inr m \<and>
     dict_get (mg_members m) (contrib_name 1) = Some [1, 0, 5] \<and> dict_get (mg_members m) (contrib_name 2) = None"
proof -
  obtain m where m: "merge_same_schema False id Inr 0 [] (lit ''m.cdb'') example_sources = Inr m" using example_fast_merge ..
  have c: "contribs_attributed (example_file t s h) [(0, [1, 0, 5])]" for t s h
    by (simp add: contribs_attributed_def contrib_members_def source_members_def example_file_def history_serialize_def)
      (simp add: member_names lit_def startswith_def contrib_name_def MEMBER_CONTRIB_DIR_def str_int_nonneg str_nat_small)
  then have a: "list_all2 contribs_attributed (map snd example_sources) [[(0, [1, 0, 5])], [(0, [1, 0, 5])]]"
    by (simp add: example_sources_def)
  let ?h = "[new_history_node 0 None (JStr (lit ''h'')) JNull (NK HNK_TEST)]"
  have h: "mapE (\<lambda>f. history_deserialize 0 (nf_history f)) (map snd example_sources) = Inr [map (canon_node 0) ?h, map (canon_node 0) ?h]"
    by (simp add: example_sources_def example_file_def history_reread)
  have n: "dict_get (nf_members (snd (example_sources ! 1))) (contrib_name 0) = Some [1, 0, 5]"
    using attributed_get[OF c[of "[7]" "[8]" "lit ''h''"], of 0] by (simp add: example_sources_def)
  let ?hs = "[map (canon_node 0) ?h, map (canon_node 0) ?h]"
  have moved: "\<forall>k<length ?hs. \<forall>i<length (?hs ! k).
      dict_get (mg_members m) (contrib_name (int (sum_list (take k (map length ?hs)) + i))) =
        dict_get (nf_members (snd (example_sources ! k))) (contrib_name (int i))"
    and past: "\<forall>j\<ge>length (concat ?hs). dict_get (mg_members m) (contrib_name (int j)) = None"
    using same_schema_attribution[OF m a] unfolding h by (auto simp del: of_nat_add)
  show ?thesis using m moved[rule_format, of 1 0] past[rule_format, of 2] n by simp
qed

end
