(* ===== verification/Grouping.thy ===== *)
theory Grouping
  imports Prelude
begin

text \<open>
  \<open>DbMerger._group\<close> (\<open>merge/db_merger.py\<close>): the objects of several sources are grouped by a key, the n-th
  repeat of a key within one source with the n-th repeats in the others. \<open>pick\<close> is what a group is meant
  to hold: the n-th object of a source that has the key.
\<close>

section \<open>The code\<close>

type_synonym ('k, 'a) groups = "(('k \<times> nat) \<times> 'a option list) list"

definition group_obj ::
  "('a \<Rightarrow> 'k) \<Rightarrow> nat \<Rightarrow> nat \<Rightarrow> ('k \<times> nat) list \<times> ('k, 'a) groups \<Rightarrow> 'a \<Rightarrow> ('k \<times> nat) list \<times> ('k, 'a) groups" where
  "group_obj key width i = (\<lambda>(seen, groups) obj.
     let k = key obj;
         n = (case dict_get seen k of None \<Rightarrow> 0 | Some n \<Rightarrow> n);
         row = (case dict_get groups (k, n) of None \<Rightarrow> replicate width None | Some row \<Rightarrow> row)
     in (dict_set k (Suc n) seen, dict_set (k, n) (row[i := Some obj]) groups))"

definition group :: "('a \<Rightarrow> 'k) \<Rightarrow> 'a list list \<Rightarrow> ('k, 'a) groups" where
  "group key items =
     foldl (\<lambda>groups (i, objs). snd (foldl (group_obj key (length items) i) ([], groups) objs)) [] (enumerate 0 items)"

section \<open>What it means\<close>

fun pick :: "('a \<Rightarrow> 'k) \<Rightarrow> 'k \<times> nat \<Rightarrow> 'a list \<Rightarrow> 'a option" where
  "pick key (k, n) xs = (let ys = filter (\<lambda>x. key x = k) xs in if n < length ys then Some (ys ! n) else None)"

definition occurrences :: "('a \<Rightarrow> 'k) \<Rightarrow> 'k \<Rightarrow> 'a list \<Rightarrow> nat" where
  "occurrences key k xs = length (filter (\<lambda>x. key x = k) xs)"

definition none_row :: "'a option list \<Rightarrow> bool" where
  "none_row row \<longleftrightarrow> (\<forall>x\<in>set row. x = None)"

lemma not_none_row: "i < length row \<Longrightarrow> row ! i \<noteq> None \<Longrightarrow> \<not> none_row row"
  using nth_mem[of i row] unfolding none_row_def by metis

definition picks :: "('a \<Rightarrow> 'k) \<Rightarrow> 'a list list \<Rightarrow> 'k \<times> nat \<Rightarrow> 'a option list" where
  "picks key items kn = map (pick key kn) items"

lemma pick_Nil: "pick key kn [] = None"
  by (cases kn) simp

lemma pick_None: "pick key (k, n) xs = None \<longleftrightarrow> occurrences key k xs \<le> n"
  by (simp add: occurrences_def)

lemma pick_in: "pick key kn xs = Some x \<Longrightarrow> x \<in> set xs \<and> key x = fst kn"
  by (cases kn) (auto split: if_splits dest: nth_mem)

lemma pick_snoc:
  "pick key (k, n) (xs @ [x]) = (if key x = k \<and> n = occurrences key k xs then Some x else pick key (k, n) xs)"
  by (auto simp: occurrences_def nth_append)

lemma occurrences_snoc [simp]: "occurrences key k (xs @ [x]) = occurrences key k xs + of_bool (key x = k)"
  by (simp add: occurrences_def)

lemma occurrences_Nil [simp]: "occurrences key k [] = 0"
  by (simp add: occurrences_def)

section \<open>The rows\<close>

text \<open>
  After the first \<open>i\<close> sources and the objects \<open>done\<close> of source \<open>i\<close>: the row of a group holds what the
  finished sources have there, then the object of the running source, then nothing; a group is listed
  when its row holds something.
\<close>

definition partial_row :: "('a \<Rightarrow> 'k) \<Rightarrow> 'a list list \<Rightarrow> nat \<Rightarrow> 'a list \<Rightarrow> 'k \<times> nat \<Rightarrow> 'a option list" where
  "partial_row key items i don kn =
     map (\<lambda>j. if j < i then pick key kn (items ! j) else if j = i then pick key kn don else None) [0..<length items]"

definition rows_inv :: "('a \<Rightarrow> 'k) \<Rightarrow> 'a list list \<Rightarrow> nat \<Rightarrow> 'a list \<Rightarrow> ('k, 'a) groups \<Rightarrow> bool" where
  "rows_inv key items i don groups \<longleftrightarrow> distinct (dict_keys groups) \<and>
     (\<forall>kn. dict_get groups kn =
        (let row = partial_row key items i don kn in if none_row row then None else Some row))"

lemma partial_row_none: "none_row (partial_row key items i don kn) \<Longrightarrow> partial_row key items i don kn = replicate (length items) None"
  by (rule nth_equalityI) (auto simp: none_row_def partial_row_def)

lemma partial_row_snoc:
  assumes "i < length items"
  shows "partial_row key items i (don @ [x]) kn =
    (if kn = (key x, occurrences key (key x) don) then (partial_row key items i don kn)[i := Some x]
     else partial_row key items i don kn)"
  by (cases kn; rule nth_equalityI) (auto simp: partial_row_def pick_snoc nth_list_update simp del: pick.simps)

definition seen_inv :: "('a \<Rightarrow> 'k) \<Rightarrow> 'a list \<Rightarrow> ('k \<times> nat) list \<Rightarrow> bool" where
  "seen_inv key don seen \<longleftrightarrow> (\<forall>k. (case dict_get seen k of None \<Rightarrow> 0 | Some n \<Rightarrow> n) = occurrences key k don)"

text \<open>The repeats of a key are listed in order, without gaps.\<close>

definition order_inv :: "('k \<times> nat) list \<Rightarrow> bool" where
  "order_inv kns \<longleftrightarrow> (\<forall>k. \<exists>m. map snd (filter (\<lambda>kn. fst kn = k) kns) = [0..<m])"

lemma order_inv_add:
  assumes "order_inv kns" "(k, n) \<notin> set kns" "\<forall>j<n. (k, j) \<in> set kns"
  shows "order_inv (kns @ [(k, n)])"
  unfolding order_inv_def
proof
  fix k'
  obtain m where m: "map snd (filter (\<lambda>kn. fst kn = k') kns) = [0..<m]" using assms(1) by (auto simp: order_inv_def)
  have mem: "(k', j) \<in> set kns \<longleftrightarrow> j < m" for j
  proof -
    have "j \<in> set (map snd (filter (\<lambda>kn. fst kn = k') kns)) \<longleftrightarrow> (k', j) \<in> set kns" by force
    then show ?thesis unfolding m by auto
  qed
  show "\<exists>m. map snd (filter (\<lambda>kn. fst kn = k') (kns @ [(k, n)])) = [0..<m]"
  proof (cases "k = k'")
    case True
    then have "\<not> n < m" using assms(2) mem by simp
    moreover have "\<not> m < n" using True assms(3) mem[of m] by auto
    ultimately have "n = m" by simp
    then have "map snd (filter (\<lambda>kn. fst kn = k') (kns @ [(k, n)])) = [0..<Suc m]" using True m by simp
    then show ?thesis ..
  next
    case False
    then show ?thesis using m by auto
  qed
qed

lemma rows_inv_get: "rows_inv key items i don groups \<Longrightarrow>
  (case dict_get groups kn of None \<Rightarrow> replicate (length items) None | Some row \<Rightarrow> row) = partial_row key items i don kn"
  using partial_row_none[of key items i don kn] unfolding rows_inv_def Let_def by (cases kn) auto

lemma group_obj_step:
  assumes i: "i < length items" and inv: "rows_inv key items i don groups" "seen_inv key don seen" "order_inv (dict_keys groups)"
    and step: "group_obj key (length items) i (seen, groups) x = (seen', groups')"
  shows "rows_inv key items i (don @ [x]) groups' \<and> seen_inv key (don @ [x]) seen' \<and> order_inv (dict_keys groups')"
proof -
  let ?k = "key x" and ?n = "occurrences key (key x) don"
  have n: "(case dict_get seen ?k of None \<Rightarrow> 0 | Some n \<Rightarrow> n) = ?n" using inv(2) by (simp add: seen_inv_def)
  have g': "groups' = dict_set (?k, ?n) ((partial_row key items i don (?k, ?n))[i := Some x]) groups"
    and s': "seen' = dict_set ?k (Suc ?n) seen"
    using step by (simp_all add: group_obj_def n rows_inv_get[OF inv(1)])
  have new: "\<not> none_row ((partial_row key items i don (?k, ?n))[i := Some x])"
    using i set_update_memI[of i "partial_row key items i don (?k, ?n)" "Some x"]
    by (auto simp: none_row_def partial_row_def simp del: pick.simps)
  have "rows_inv key items i (don @ [x]) groups'"
    unfolding rows_inv_def
  proof
    show "distinct (dict_keys groups')" using inv(1) by (simp add: g' rows_inv_def dict_keys_set)
    show "\<forall>kn. dict_get groups' kn =
        (let row = partial_row key items i (don @ [x]) kn in if none_row row then None else Some row)"
    proof
      fix kn
      have old: "dict_get groups kn = (let row = partial_row key items i don kn in if none_row row then None else Some row)"
        using inv(1) unfolding rows_inv_def by blast
      show "dict_get groups' kn = (let row = partial_row key items i (don @ [x]) kn in if none_row row then None else Some row)"
        using new old unfolding g' dict_get_set partial_row_snoc[OF i] by (cases "kn = (?k, ?n)") (simp_all del: map_of_eq_Some_iff)
    qed
  qed
  moreover have "seen_inv key (don @ [x]) seen'"
    using inv(2) by (auto simp: seen_inv_def s' dict_get_set)
  moreover have "order_inv (dict_keys groups')"
  proof (cases "(?k, ?n) \<in> set (dict_keys groups)")
    case False
    have "(?k, j) \<in> set (dict_keys groups)" if "j < ?n" for j
    proof -
      have "\<not> none_row (partial_row key items i don (?k, j))"
      proof -
        let ?row = "partial_row key items i don (?k, j)"
        have "?row ! i = pick key (?k, j) don" using i by (simp add: partial_row_def del: pick.simps)
        moreover have "pick key (?k, j) don \<noteq> None" using that by (simp only: pick_None not_le)
        ultimately have "?row ! i \<noteq> None" by simp
        then show ?thesis using i by (intro not_none_row[of i]) (simp_all add: partial_row_def del: pick.simps)
      qed
      moreover have "dict_get groups (?k, j) = (let row = partial_row key items i don (?k, j) in if none_row row then None else Some row)"
        using inv(1) unfolding rows_inv_def by blast
      ultimately have "dict_get groups (?k, j) \<noteq> None" by (simp del: map_of_eq_Some_iff)
      then show ?thesis by (simp add: map_of_eq_None_iff)
    qed
    with False show ?thesis using order_inv_add[OF inv(3) False] by (simp add: g' dict_keys_set)
  qed (use inv(3) in \<open>simp add: g' dict_keys_set insert_absorb\<close>)
  ultimately show ?thesis by blast
qed

lemma group_source:
  assumes i: "i < length items" and inv: "rows_inv key items i don groups" "seen_inv key don seen" "order_inv (dict_keys groups)"
  shows "rows_inv key items i (don @ xs) (snd (foldl (group_obj key (length items) i) (seen, groups) xs)) \<and>
    order_inv (dict_keys (snd (foldl (group_obj key (length items) i) (seen, groups) xs)))"
  using inv
proof (induction xs arbitrary: don seen groups)
  case (Cons x xs)
  obtain seen' groups' where s: "group_obj key (length items) i (seen, groups) x = (seen', groups')" by fastforce
  from Cons.IH[of "don @ [x]" groups' seen'] group_obj_step[OF i Cons.prems s] show ?case by (simp add: s)
qed simp

lemma rows_inv_next:
  assumes "rows_inv key items i (items ! i) groups"
  shows "rows_inv key items (Suc i) [] groups"
proof -
  have "pick key kn [] = None" for kn by (cases kn) simp
  then have "partial_row key items i (items ! i) kn = partial_row key items (Suc i) [] kn" for kn
    by (auto simp: partial_row_def less_Suc_eq)
  with assms show ?thesis by (simp add: rows_inv_def)
qed

lemma group_upto:
  assumes "n \<le> length items"
  shows "rows_inv key items n [] (foldl (\<lambda>groups (i, objs). snd (foldl (group_obj key (length items) i) ([], groups) objs)) []
      (enumerate 0 (take n items))) \<and>
    order_inv (dict_keys (foldl (\<lambda>groups (i, objs). snd (foldl (group_obj key (length items) i) ([], groups) objs)) []
      (enumerate 0 (take n items))))" (is "rows_inv _ _ _ _ (?g n) \<and> _")
  using assms
proof (induction n)
  case 0
  have "pick key kn [] = None" for kn by (cases kn) simp
  then have "none_row (partial_row key items 0 [] kn)" for kn by (auto simp: none_row_def partial_row_def)
  moreover have "order_inv []" by (auto simp: order_inv_def intro: exI[of _ 0])
  ultimately show ?case by (simp add: rows_inv_def)
next
  case (Suc n)
  then have n: "n < length items" by simp
  have e: "enumerate 0 (take (Suc n) items) = enumerate 0 (take n items) @ [(n, items ! n)]"
    using n by (simp add: take_Suc_conv_app_nth enumerate_append_eq)
  have "seen_inv key [] []" by (simp add: seen_inv_def)
  with Suc group_source[OF n, of key "[]" "?g n" "[]" "items ! n"] show ?case
    unfolding e by (auto intro: rows_inv_next)
qed

lemma group_spec:
  "distinct (dict_keys (group key items))"
  "order_inv (dict_keys (group key items))"
  "dict_get (group key items) kn = (if none_row (picks key items kn) then None else Some (picks key items kn))"
proof -
  have p: "partial_row key items (length items) [] kn = picks key items kn" for kn
    by (rule nth_equalityI) (simp_all add: partial_row_def picks_def)
  have inv: "rows_inv key items (length items) [] (group key items) \<and> order_inv (dict_keys (group key items))"
    using group_upto[of "length items" items key] by (simp add: group_def)
  then show "distinct (dict_keys (group key items))" "order_inv (dict_keys (group key items))"
    by (simp_all add: rows_inv_def)
  show "dict_get (group key items) kn = (if none_row (picks key items kn) then None else Some (picks key items kn))"
    using inv unfolding rows_inv_def p Let_def by blast
qed

lemma group_row:
  assumes "(kn, row) \<in> set (group key items)"
  shows "row = picks key items kn \<and> \<not> none_row row"
proof -
  have "dict_get (group key items) kn = Some row" using assms group_spec(1)[of key items] by simp
  then show ?thesis using group_spec(3)[of key items kn] by (auto split: if_splits)
qed

lemma group_keys: "kn \<in> set (dict_keys (group key items)) \<longleftrightarrow> \<not> none_row (picks key items kn)"
  using group_spec(3)[of key items kn] map_of_eq_None_iff[of "group key items" kn] by (auto split: if_splits)

section \<open>Lists in the order of the groups\<close>

lemma order_inv_snoc:
  "order_inv (kns @ [(k, n)]) \<Longrightarrow> order_inv kns \<and> n = length (filter (\<lambda>kn. fst kn = k) kns)"
proof -
  assume o: "order_inv (kns @ [(k, n)])"
  have "\<exists>m. map snd (filter (\<lambda>kn. fst kn = k') kns) = [0..<m] \<and> (k' = k \<longrightarrow> n = m)" for k'
  proof -
    obtain m where m: "map snd (filter (\<lambda>kn. fst kn = k') (kns @ [(k, n)])) = [0..<m]" using o unfolding order_inv_def by blast
    show ?thesis
    proof (cases "k' = k")
      case True
      with m have "map snd (filter (\<lambda>kn. fst kn = k') kns) @ [n] = [0..<m]" by simp
      then have "map snd (filter (\<lambda>kn. fst kn = k') kns) = [0..<m - 1] \<and> n = m - 1"
        by (cases m) auto
      then show ?thesis by blast
    next
      case False
      with m show ?thesis by auto
    qed
  qed
  note h = this
  from h[of k] obtain m where "map snd (filter (\<lambda>kn. fst kn = k) kns) = [0..<m]" "n = m" by blast
  then have "n = length (filter (\<lambda>kn. fst kn = k) kns)" using length_map[of snd "filter (\<lambda>kn. fst kn = k) kns"] by simp
  with h show ?thesis unfolding order_inv_def by blast
qed

lemma pick_slots:
  assumes "list_all2 (\<lambda>kn m. key m = fst kn) kns ms" "order_inv kns" "distinct kns"
  shows "pick key kn ms = (if kn \<in> set kns then dict_get (zip kns ms) kn else None)"
  using assms
proof (induction kns arbitrary: ms kn rule: rev_induct)
  case Nil
  then show ?case by (cases kn) simp
next
  case (snoc kn' kns)
  then obtain ms' m where ms: "ms = ms' @ [m]" and l: "list_all2 (\<lambda>kn m. key m = fst kn) kns ms'" "key m = fst kn'"
    by (auto simp: list_all2_append1 list_all2_Cons1)
  obtain k' n' where kn': "kn' = (k', n')" by (cases kn')
  obtain k n where kn: "kn = (k, n)" by (cases kn)
  note o = order_inv_snoc[of kns k' n', folded kn', OF snoc.prems(2)]
  have occ: "occurrences key k ms' = length (filter (\<lambda>kn. fst kn = k) kns)"
    using l(1) by (induction rule: list_all2_induct) (auto simp: occurrences_def)
  have len: "length kns = length ms'" using l(1) by (rule list_all2_lengthD)
  have d: "distinct kns" "kn' \<notin> set kns" using snoc.prems(3) by simp_all
  have none: "dict_get (zip kns ms') x = None" if "x \<notin> set kns" for x
    using that by (auto simp: map_of_eq_None_iff dest: set_zip_leftD)
  have z: "dict_get (zip (kns @ [kn']) (ms' @ [m])) kn = (if kn = kn' then Some m else dict_get (zip kns ms') kn)"
  proof (cases "kn = kn'")
    case True
    then show ?thesis using len by (simp add: map_add_def none[OF d(2)])
  next
    case False
    then show ?thesis
    proof (cases "kn \<in> set kns")
      case True
      then show ?thesis using False len by (simp add: map_add_def split: option.split)
    next
      case notin: False
      show ?thesis using False len by (simp add: map_add_def none[OF notin])
    qed
  qed
  show ?case
  proof (cases "kn = kn'")
    case True
    then show ?thesis unfolding ms kn pick_snoc occ z[unfolded kn] using o l(2) by (simp add: kn kn' del: pick.simps)
  next
    case False
    then have "\<not> (key m = k \<and> n = length (filter (\<lambda>kn. fst kn = k) kns))" using o l(2) by (auto simp: kn kn')
    moreover note snoc.IH[OF l(1) _ d(1), of kn, unfolded kn]
    ultimately show ?thesis unfolding ms kn pick_snoc occ z[unfolded kn] using o False
      by (auto simp: kn kn' simp del: pick.simps)
  qed
qed

section \<open>The order of the groups\<close>

text \<open>The groups are listed in the order their keys are first met; a key is met with its repeat number.\<close>

fun numbered :: "('a \<Rightarrow> 'k) \<Rightarrow> 'a list \<Rightarrow> 'a list \<Rightarrow> ('k \<times> nat) list" where
  "numbered key don [] = []"
| "numbered key don (x # xs) = (key x, occurrences key (key x) don) # numbered key (don @ [x]) xs"

definition add_key :: "'k list \<Rightarrow> 'k \<Rightarrow> 'k list" where
  "add_key ks k = (if k \<in> set ks then ks else ks @ [k])"

lemma numbered_append: "numbered key don (xs @ ys) = numbered key don xs @ numbered key (don @ xs) ys"
  by (induction xs arbitrary: don) simp_all

lemma numbered_mem: "(k, n) \<in> set (numbered key [] xs) \<longleftrightarrow> n < occurrences key k xs"
  by (induction xs rule: rev_induct) (auto simp: numbered_append less_Suc_eq)

lemma numbered_pick: "kn \<in> set (numbered key [] xs) \<longleftrightarrow> pick key kn xs \<noteq> None"
  using pick_None[of key "fst kn" "snd kn" xs] numbered_mem[of "fst kn" "snd kn" key xs] by (simp del: pick.simps add: not_le)

lemma numbered_keys: "fst ` set (numbered key don xs) = key ` set xs"
  by (induction xs arbitrary: don) auto

lemma pick_split: "pick key (k, n) xs = Some x \<Longrightarrow> \<exists>ys zs. xs = ys @ x # zs \<and> key x = k \<and> occurrences key k ys = n"
proof (induction xs rule: rev_induct)
  case (snoc y xs)
  show ?case
  proof (cases "key y = k \<and> n = occurrences key k xs")
    case True
    then show ?thesis using snoc.prems unfolding pick_snoc by auto
  next
    case False
    then obtain ys zs where "xs = ys @ x # zs" "key x = k" "occurrences key k ys = n"
      using snoc unfolding pick_snoc by auto
    then show ?thesis by (intro exI[of _ ys] exI[of _ "zs @ [y]"]) simp
  qed
qed simp

lemma add_keys_source:
  assumes "seen_inv key don seen"
  shows "dict_keys (snd (foldl (group_obj key width i) (seen, groups) xs)) = foldl add_key (dict_keys groups) (numbered key don xs)"
  using assms
proof (induction xs arbitrary: don seen groups)
  case (Cons x xs)
  have n: "(case dict_get seen (key x) of None \<Rightarrow> 0 | Some n \<Rightarrow> n) = occurrences key (key x) don" using Cons.prems by (simp add: seen_inv_def)
  have "seen_inv key (don @ [x]) (dict_set (key x) (Suc (occurrences key (key x) don)) seen)"
    using Cons.prems by (auto simp: seen_inv_def dict_get_set)
  from Cons.IH[OF this] show ?case by (simp add: group_obj_def n dict_keys_set add_key_def Let_def)
qed simp

lemma group_dict_keys: "dict_keys (group key items) = foldl add_key [] (concat (map (numbered key []) items))"
proof -
  have "dict_keys (foldl (\<lambda>groups (i, objs). snd (foldl (group_obj key w i) ([], groups) objs)) gs (enumerate j xs)) =
      foldl add_key (dict_keys gs) (concat (map (numbered key []) xs))" for w gs j xs
    by (induction xs arbitrary: j gs) (simp_all add: add_keys_source[where don = "[]"] seen_inv_def)
  from this[of "length items" "[]" 0 items] show ?thesis by (simp add: group_def)
qed

lemma set_add_keys: "set (foldl add_key ks xs) = set ks \<union> set xs"
  by (induction xs arbitrary: ks) (auto simp: add_key_def)

lemma add_keys_grow: "\<exists>post. foldl add_key ks xs = ks @ post"
proof (induction xs arbitrary: ks)
  case (Cons x xs)
  obtain post where "foldl add_key (add_key ks x) xs = add_key ks x @ post" using Cons by blast
  then show ?case by (cases "x \<in> set ks") (simp_all add: add_key_def[of ks x])
qed simp

lemma add_keys_split:
  assumes "kn \<notin> set P"
  shows "\<exists>pre post. foldl add_key [] (P @ kn # Q) = pre @ kn # post \<and> set pre = set P"
proof -
  have s: "set (foldl add_key [] P) = set P" by (simp add: set_add_keys)
  then have "foldl add_key [] (P @ kn # Q) = foldl add_key (foldl add_key [] P @ [kn]) Q" using assms by (simp add: add_key_def)
  then show ?thesis using s add_keys_grow[of "foldl add_key [] P @ [kn]" Q] by auto
qed

text \<open>What the first source that has a group lists before the object has groups before it.\<close>

lemma group_earlier:
  assumes keys: "dict_keys (group key items) = pre @ kn # post"
    and items: "items = A @ xs # B" "\<forall>ys\<in>set A. pick key kn ys = None" "pick key kn xs = Some x"
  shows "\<exists>ys zs. xs = ys @ x # zs \<and> key ` set ys \<subseteq> fst ` set pre"
proof -
  obtain ys zs where xs: "xs = ys @ x # zs" "key x = fst kn" "occurrences key (fst kn) ys = snd kn"
    using items(3) pick_split[of key "fst kn" "snd kn" xs x] by (simp del: pick.simps) blast
  let ?P = "concat (map (numbered key []) A) @ numbered key [] ys"
  have "kn \<notin> set (numbered key [] ys)" using xs(3) numbered_mem[of "fst kn" "snd kn" key ys] by simp
  moreover have "kn \<notin> set (numbered key [] zs)" if "zs \<in> set A" for zs using items(2) that numbered_pick[of kn key zs] by simp
  ultimately have new: "kn \<notin> set ?P" by simp
  have "concat (map (numbered key []) items) = ?P @ kn # (numbered key (ys @ [x]) zs @ concat (map (numbered key []) B))"
    using xs by (simp add: items(1) numbered_append)
  then obtain pre' post' where s: "dict_keys (group key items) = pre' @ kn # post'" "set pre' = set ?P"
    using add_keys_split[OF new] unfolding group_dict_keys by metis
  have "distinct (pre @ kn # post)" "distinct (pre' @ kn # post')" using group_spec(1)[of key items] keys s(1) by simp_all
  then have "pre = pre'" using keys s(1) append_Cons_eq_iff[of kn pre post pre' post'] by simp
  then have "key ` set ys \<subseteq> fst ` set pre" using s(2) numbered_keys[of key "[]" ys] by auto
  then show ?thesis using xs(1) by blast
qed

end
