(* ===== verification/DbMerge.thy ===== *)
theory DbMerge
  imports ScopeTree Grouping HistoryNodes
begin

text \<open>
  \<open>merge/db_merger.py\<close>: the structural merge of databases. Here a scope has, besides its tree attributes,
  the Python class that decides which operations it offers and the data those classes hold: covergroup
  options or toggle metadata under the names of their accessors, user attributes, tags, the names of
  crossed coverpoints and the design unit an instance is linked to. References between objects are
  names; the state objects an FSM scope keeps beside its items are not modelled.
\<close>

section \<open>Scopes with their classes\<close>

text \<open>The scope classes of \<open>mem/mem_code_scope.py\<close> add nothing to \<open>MemScope\<close> and are that constructor here.\<close>

datatype mem_class =
    MemUCIS | MemScope | MemInstanceScope | MemCovergroup | MemCoverpoint | MemCross
  | MemToggleScope | MemToggleInstanceScope | MemFSMScope

record ditem = coveritem +
  it_attributes :: "(pystr \<times> pystr) list"

record scope_extra =
  sx_class :: mem_class
  sx_options :: "(char list \<times> json) list"
  sx_attributes :: "(pystr \<times> pystr) list"
  sx_tags :: "pystr list"
  sx_points :: "pystr option list"
  sx_du :: "scope_attrs option"

datatype dscope = DScope (d_attrs: scope_attrs) (d_extra: scope_extra) (d_items: "ditem list") (d_children: "dscope list")

abbreviation d_class :: "dscope \<Rightarrow> mem_class" where "d_class s \<equiv> sx_class (d_extra s)"
abbreviation d_type :: "dscope \<Rightarrow> int" where "d_type s \<equiv> m_type (d_attrs s)"

definition d_coverItems :: "int \<Rightarrow> dscope \<Rightarrow> ditem list" where
  "d_coverItems msk s = filter (\<lambda>ci. cd_type (ci_data ci) AND msk \<noteq> 0) (d_items s)"

definition d_scopes :: "int \<Rightarrow> dscope \<Rightarrow> dscope list" where
  "d_scopes msk s = filter (\<lambda>c. d_type c AND msk \<noteq> 0) (d_children s)"

definition set_children :: "dscope list \<Rightarrow> dscope \<Rightarrow> dscope" where
  "set_children cs s = DScope (d_attrs s) (d_extra s) (d_items s) cs"

definition add_child :: "dscope \<Rightarrow> dscope \<Rightarrow> nat \<times> dscope" where
  "add_child c p = (length (d_children p), set_children (d_children p @ [c]) p)"

text \<open>What the accessors that the merger copies return on a new object of each class.\<close>

definition class_options :: "mem_class \<Rightarrow> pystr \<Rightarrow> (char list \<times> json) list" where
  "class_options cls name =
     (case cls of
        MemCovergroup \<Rightarrow> [(''AtLeast'', JInt 0), (''AutoBinMax'', JInt 0), (''PerInstance'', JBool True), (''MergeInstances'', JBool True),
          (''DetectOverlap'', JBool False), (''Strobe'', JBool False), (''Comment'', JStr [])]
      | MemCoverpoint \<Rightarrow> [(''AtLeast'', JInt 1), (''AutoBinMax'', JInt 64), (''DetectOverlap'', JBool False), (''Strobe'', JBool False), (''Comment'', JStr [])]
      | MemCross \<Rightarrow> [(''AtLeast'', JInt 1), (''AutoBinMax'', JInt 64), (''DetectOverlap'', JBool False), (''Strobe'', JBool False), (''Comment'', JStr [])]
      | MemToggleScope \<Rightarrow> [(''CanonicalName'', JStr name), (''ToggleMetric'', JInt 4), (''ToggleType'', JInt 1), (''ToggleDir'', JInt 1), (''NumBits'', JInt 1)]
      | MemToggleInstanceScope \<Rightarrow> [(''CanonicalName'', JStr name), (''ToggleMetric'', JInt 4), (''ToggleType'', JInt 1), (''ToggleDir'', JInt 1), (''NumBits'', JInt 1)]
      | _ \<Rightarrow> [])"

definition new_d :: "mem_class \<Rightarrow> pystr \<Rightarrow> srcinfo \<Rightarrow> int \<Rightarrow> int \<Rightarrow> int \<Rightarrow> int \<Rightarrow> dscope" where
  "new_d cls name srcinfo weight source ty flags =
     DScope (attrs (new_scope name (Some srcinfo) weight source ty flags))
       \<lparr>sx_class = cls, sx_options = class_options cls name, sx_attributes = [], sx_tags = [], sx_points = [], sx_du = None\<rparr> [] []"

definition new_d_fsm :: "pystr \<Rightarrow> srcinfo \<Rightarrow> int \<Rightarrow> int \<Rightarrow> int \<Rightarrow> dscope" where
  "new_d_fsm name srcinfo weight source flags =
     set_children [new_d MemScope (lit ''UCIS:STATE'') srcinfo weight source ST_FSM_STATES flags,
                   new_d MemScope (lit ''UCIS:TRANSITION'') srcinfo weight source ST_FSM_TRANS flags]
       (new_d MemFSMScope name srcinfo weight source ST_FSM flags)"

section \<open>Creating scopes\<close>

definition d_mem_createScope :: "pystr \<Rightarrow> srcinfo \<Rightarrow> int \<Rightarrow> int \<Rightarrow> int \<Rightarrow> int \<Rightarrow> dscope" where
  "d_mem_createScope name srcinfo weight source ty flags =
     (if DU_ANY ty then new_d MemScope name srcinfo weight source ty flags
      else if ty = ST_COVERGROUP then new_d MemCovergroup name srcinfo weight source ST_COVERGROUP 0
      else if ty = ST_COVERINSTANCE then new_d MemCovergroup name srcinfo weight source ST_COVERINSTANCE 0
      else if ty = ST_COVERPOINT then new_d MemCoverpoint name srcinfo weight source ST_COVERPOINT 0
      else if ty = ST_CROSS then new_d MemCross name srcinfo weight source ST_CROSS 0
      else if ty = ST_TOGGLE then new_d MemToggleScope name srcinfo weight source ST_TOGGLE flags
      else if ty = ST_FSM then new_d_fsm name srcinfo weight source flags
      else new_d MemScope name srcinfo weight source ty flags)"

definition d_inst_createScope :: "pystr \<Rightarrow> srcinfo \<Rightarrow> int \<Rightarrow> int \<Rightarrow> int \<Rightarrow> int \<Rightarrow> dscope" where
  "d_inst_createScope name srcinfo weight source ty flags =
     (if ty AND ST_COVERGROUP \<noteq> 0 then new_d MemCovergroup name srcinfo weight source ST_COVERGROUP 0
      else if ty AND ST_BLOCK \<noteq> 0 then new_d MemScope name srcinfo weight source ST_BLOCK flags
      else if ty AND ST_BRANCH \<noteq> 0 then new_d MemScope name srcinfo weight source ST_BRANCH flags
      else if ty AND ST_TOGGLE \<noteq> 0 then new_d MemScope name srcinfo weight source ST_TOGGLE flags
      else if ty AND ST_FSM \<noteq> 0 then new_d_fsm name srcinfo weight source flags
      else new_d MemScope name srcinfo weight source ty flags)"

definition d_rename :: "pystr \<Rightarrow> dscope \<Rightarrow> dscope" where
  "d_rename name s = DScope ((d_attrs s)\<lparr>m_name := name\<rparr>) (d_extra s) (d_items s) (d_children s)"

definition d_createScope :: "dscope \<Rightarrow> pystr \<Rightarrow> srcinfo \<Rightarrow> int \<Rightarrow> int \<Rightarrow> int \<Rightarrow> int \<Rightarrow> nat \<times> dscope" where
  "d_createScope p name srcinfo weight source ty flags =
     (if d_class p = MemFSMScope \<and> ty = ST_FSM_STATES then (0, set_children ((d_children p)[0 := d_rename name (d_children p ! 0)]) p)
      else if d_class p = MemFSMScope \<and> ty = ST_FSM_TRANS then (1, set_children ((d_children p)[1 := d_rename name (d_children p ! 1)]) p)
      else add_child (if d_class p \<in> {MemInstanceScope, MemToggleInstanceScope} then d_inst_createScope name srcinfo weight source ty flags
                      else d_mem_createScope name srcinfo weight source ty flags) p)"

definition d_createInstance :: "dscope \<Rightarrow> pystr \<Rightarrow> srcinfo \<Rightarrow> int \<Rightarrow> int \<Rightarrow> int \<Rightarrow> scope_attrs option \<Rightarrow> int \<Rightarrow> nat \<times> dscope" where
  "d_createInstance p name srcinfo weight source ty du flags =
     (let c = new_d MemInstanceScope name srcinfo weight source ty flags
      in add_child (DScope (d_attrs c) ((d_extra c)\<lparr>sx_du := du\<rparr>) [] []) p)"

definition d_createCross :: "dscope \<Rightarrow> pystr \<Rightarrow> srcinfo \<Rightarrow> int \<Rightarrow> int \<Rightarrow> pystr list \<Rightarrow> nat \<times> dscope" where
  "d_createCross p name srcinfo weight source points =
     (let c = new_d MemCross name srcinfo weight source ST_CROSS 0
      in add_child (DScope (d_attrs c) ((d_extra c)\<lparr>sx_points := map Some points\<rparr>) [] []) p)"

definition add_ditem :: "ditem \<Rightarrow> dscope \<Rightarrow> dscope" where
  "add_ditem ci s = DScope (d_attrs s) (d_extra s) (d_items s @ [ci]) (d_children s)"

definition d_createNextCover :: "dscope \<Rightarrow> pystr \<Rightarrow> coverdata \<Rightarrow> srcinfo option \<Rightarrow> dscope" where
  "d_createNextCover s name cd srcinfo =
     (let ci = \<lparr>ci_name = name, ci_data = cd, ci_src = srcinfo, it_attributes = []\<rparr> in
      if d_class s = MemFSMScope then
        let k = (if contains_arrow name then 1 else 0)
        in set_children ((d_children s)[k := add_ditem ci (d_children s ! k)]) s
      else add_ditem ci s)"

section \<open>The merger\<close>

text \<open>
  What the merger keeps while it runs: the design units merged so far by type and name, with their
  attributes (the map by object identity adds nothing, since its keys are entered together with these),
  the scopes waiting to be appended to the root because a nested scope needed them, and the file handles
  of the destination.
\<close>

record merge_state =
  ms_dus :: "((int \<times> pystr) \<times> scope_attrs) list"
  ms_pending :: "dscope list"
  ms_files :: "pystr list"

definition somes :: "'a option list \<Rightarrow> 'a list" where
  "somes xs = concat (map (\<lambda>x. case x of None \<Rightarrow> [] | Some y \<Rightarrow> [y]) xs)"

definition move_srcinfo :: "srcinfo \<Rightarrow> merge_state \<Rightarrow> srcinfo \<times> merge_state" where
  "move_srcinfo si st =
     (case si_file si of
        None \<Rightarrow> (si, st)
      | Some f \<Rightarrow> (\<lparr>si_file = Some f, si_line = si_line si, si_token = si_token si\<rparr>,
                   st\<lparr>ms_files := (if f \<in> set (ms_files st) then ms_files st else ms_files st @ [f])\<rparr>))"

text \<open>The design unit itself is appended to the root, wherever the instance that needs it is.\<close>

definition dst_du :: "scope_attrs option \<Rightarrow> merge_state \<Rightarrow> scope_attrs option \<times> merge_state" where
  "dst_du src_du st =
     (case src_du of
        None \<Rightarrow> (None, st)
      | Some a \<Rightarrow>
          (case dict_get (ms_dus st) (m_type a, m_name a) of
             Some d \<Rightarrow> (Some d, st)
           | None \<Rightarrow>
               let (srcinfo, st) = move_srcinfo (m_srcinfo a) st;
                   dst = d_mem_createScope (m_name a) srcinfo (m_weight a) (m_source a) (m_type a) (m_flags a)
               in (Some (d_attrs dst), st\<lparr>ms_dus := dict_set (m_type a, m_name a) (d_attrs dst) (ms_dus st),
                                         ms_pending := ms_pending st @ [dst]\<rparr>)))"

definition flush_pending :: "dscope \<Rightarrow> merge_state \<Rightarrow> dscope \<times> merge_state" where
  "flush_pending p st =
     (if d_class p = MemUCIS then (set_children (d_children p @ ms_pending st) p, st\<lparr>ms_pending := []\<rparr>) else (p, st))"

definition merge_create :: "dscope \<Rightarrow> dscope \<Rightarrow> pystr list \<Rightarrow> merge_state \<Rightarrow> ((nat \<times> dscope) \<times> merge_state) res" where
  "merge_create dst_parent src coverpoints st =
     (let a = d_attrs src; stype = m_type a; name = m_name a; weight = m_weight a; source = m_source a; flags = m_flags a;
          (srcinfo, st) = move_srcinfo (m_srcinfo a) st in
      if stype = ST_INSTANCE then
        if d_class src \<notin> {MemInstanceScope, MemToggleInstanceScope} then Inl AttributeError
        else
          let (du, st) = dst_du (sx_du (d_extra src)) st;
              (dst_parent, st) = flush_pending dst_parent st
          in Inr (d_createInstance dst_parent name srcinfo weight source stype du flags, st)
      else if stype = ST_CROSS then
        if d_class src \<noteq> MemCross then Inl AttributeError
        else
          bindE (mapE (\<lambda>cp. case cp of None \<Rightarrow> Inl AttributeError
                     | Some cp_name \<Rightarrow> if cp_name \<in> set coverpoints then Inr cp_name else Inl PlainException)
                  (sx_points (d_extra src))) (\<lambda>points.
          if d_class dst_parent = MemCovergroup then Inr (d_createCross dst_parent name srcinfo weight source points, st)
          else Inl AttributeError)
      else if stype = ST_COVERGROUP then Inr (add_child (new_d MemCovergroup name srcinfo weight source ST_COVERGROUP 0) dst_parent, st)
      else if stype = ST_COVERPOINT \<and> d_class dst_parent = MemCovergroup then
        Inr (add_child (new_d MemCoverpoint name srcinfo weight source ST_COVERPOINT 0) dst_parent, st)
      else if stype = ST_COVERINSTANCE \<and> d_class dst_parent = MemCovergroup then
        Inr (d_createScope dst_parent name srcinfo weight source ST_COVERINSTANCE 0, st)
      else if stype = ST_COVERINSTANCE \<and> d_class dst_parent = MemUCIS then Inl TypeError
      else Inr (d_createScope dst_parent name srcinfo weight source stype flags, st))"

definition copy_option :: "dscope \<Rightarrow> (char list \<times> json) list \<Rightarrow> char list \<Rightarrow> (char list \<times> json) list" where
  "copy_option src opts key =
     (case dict_get (sx_options (d_extra src)) key of
        None \<Rightarrow> opts
      | Some value \<Rightarrow> if dict_get opts key \<noteq> None \<and> value \<noteq> JNull then dict_set key value opts else opts)"

definition CVG_OPTIONS :: "char list list" where
  "CVG_OPTIONS = [''AtLeast'', ''AutoBinMax'', ''PerInstance'', ''MergeInstances'', ''DetectOverlap'', ''Strobe'', ''Comment'']"

definition TOGGLE_META :: "char list list" where
  "TOGGLE_META = [''CanonicalName'', ''ToggleMetric'', ''ToggleType'', ''ToggleDir'', ''NumBits'']"

definition copy_attributes :: "(pystr \<times> pystr) list list \<Rightarrow> (pystr \<times> pystr) list \<Rightarrow> (pystr \<times> pystr) list" where
  "copy_attributes present dst = foldl dict_update dst (rev present)"

definition copy_scope_data :: "dscope \<Rightarrow> dscope option list \<Rightarrow> dscope" where
  "copy_scope_data dst srcs =
     (let present = somes srcs; src0 = hd present; goal = m_goal (d_attrs src0); x = d_extra dst in
      DScope (if goal \<noteq> -1 then (d_attrs dst)\<lparr>m_goal := goal\<rparr> else d_attrs dst)
        (x\<lparr>sx_options := foldl (copy_option src0) (sx_options x) (CVG_OPTIONS @ TOGGLE_META),
           sx_attributes := copy_attributes (map (sx_attributes \<circ> d_extra) present) (sx_attributes x),
           sx_tags := foldl (\<lambda>ts t. if t \<in> set ts then ts else ts @ [t]) (sx_tags x) (concat (map (sx_tags \<circ> d_extra) present))\<rparr>)
        (d_items dst) (d_children dst))"

definition item_key :: "ditem \<Rightarrow> pystr \<times> int" where
  "item_key ci = (ci_name ci, cd_type (ci_data ci))"

definition scope_key :: "dscope \<Rightarrow> int \<times> pystr" where
  "scope_key s = (d_type s, m_name (d_attrs s))"

definition merged_item :: "ditem list \<Rightarrow> coverdata" where
  "merged_item present = (ci_data (hd present))\<lparr>cd_data := \<Sum>ci\<leftarrow>present. cd_data (ci_data ci)\<rparr>"

definition add_merged :: "dscope \<times> merge_state \<Rightarrow> pystr \<times> ditem list \<Rightarrow> dscope \<times> merge_state" where
  "add_merged = (\<lambda>(dst, st) (name, present).
     case List.find (\<lambda>ci. ci_src ci \<noteq> None) present of
       Some ci \<Rightarrow> (let (si, st) = move_srcinfo (the (ci_src ci)) st in (d_createNextCover dst name (merged_item present) (Some si), st))
     | None \<Rightarrow> (d_createNextCover dst name (merged_item present) None, st))"

text \<open>The new items are found by position, the last ones of the destination.\<close>

definition copy_item_attributes :: "(pystr \<times> ditem list) list \<Rightarrow> dscope \<Rightarrow> dscope" where
  "copy_item_attributes merged dst =
     (let is = d_items dst; vis = filter (\<lambda>i. cd_type (ci_data (is ! i)) AND CT_ALL \<noteq> 0) [0..<length is];
          created = drop (length vis - length merged) vis
      in DScope (d_attrs dst) (d_extra dst)
           (foldl (\<lambda>is (i, _, present). is[i := (is ! i)\<lparr>it_attributes := copy_attributes (map it_attributes present) (it_attributes (is ! i))\<rparr>])
              is (zip created merged))
           (d_children dst))"

definition merge_items :: "dscope \<Rightarrow> dscope option list \<Rightarrow> merge_state \<Rightarrow> dscope \<times> merge_state" where
  "merge_items dst srcs st =
     (let items = map (\<lambda>s. case s of None \<Rightarrow> [] | Some s \<Rightarrow> d_coverItems CT_ALL s) srcs in
      if list_all (\<lambda>is. is = []) items then (dst, st)
      else
        let merged = map (\<lambda>(((name, _), _), row). (name, somes row)) (group item_key items);
            (dst, st) = foldl add_merged (dst, st) merged
        in (copy_item_attributes merged dst, st))"

definition child_groups :: "dscope option list \<Rightarrow> (int \<times> pystr, dscope) groups" where
  "child_groups src_parents =
     (let groups = group scope_key (map (\<lambda>p. case p of None \<Rightarrow> [] | Some p \<Rightarrow> d_scopes ST_ALL p) src_parents)
      in filter (\<lambda>(((stype, _), _), _). DU_ANY stype) groups @ filter (\<lambda>(((stype, _), _), _). \<not> DU_ANY stype) groups)"

definition d_size :: "dscope option list \<Rightarrow> nat" where
  "d_size srcs = (\<Sum>s\<leftarrow>srcs. case s of None \<Rightarrow> 0 | Some s \<Rightarrow> size s)"

definition register_du :: "int \<times> pystr \<Rightarrow> dscope \<Rightarrow> merge_state \<Rightarrow> merge_state" where
  "register_du key dst st = (if DU_ANY (fst key) then st\<lparr>ms_dus := dict_set key (d_attrs dst) (ms_dus st)\<rparr> else st)"

lemma child_size: "c \<in> set (d_scopes msk s) \<Longrightarrow> size c < size s"
  by (cases s) (force simp: d_scopes_def less_Suc_eq_le intro!: size_list_estimation')

text \<open>The row of a group: in every source, the scope with that key and number, if there is one.\<close>

definition o_pick :: "(int \<times> pystr) \<times> nat \<Rightarrow> dscope option \<Rightarrow> dscope option" where
  "o_pick kn p = (case p of None \<Rightarrow> None | Some p \<Rightarrow> pick scope_key kn (d_scopes ST_ALL p))"

lemma o_pick_picks: "picks scope_key (map (\<lambda>p. case p of None \<Rightarrow> [] | Some p \<Rightarrow> d_scopes ST_ALL p) srcs) kn = map (o_pick kn) srcs"
proof -
  have "pick scope_key kn [] = None" by (cases kn) simp
  then show ?thesis by (auto simp: picks_def o_pick_def simp del: pick.simps split: option.split)
qed

lemma child_groups_set: "set (child_groups srcs) = set (group scope_key (map (\<lambda>p. case p of None \<Rightarrow> [] | Some p \<Rightarrow> d_scopes ST_ALL p) srcs))"
  by (auto simp: child_groups_def)

lemma child_groups_rows: "(kn, row) \<in> set (child_groups srcs) \<Longrightarrow> row = map (o_pick kn) srcs \<and> \<not> none_row row"
  using group_row unfolding child_groups_set o_pick_picks[symmetric] by blast

definition o_size :: "dscope option \<Rightarrow> nat" where
  "o_size s = (case s of None \<Rightarrow> 0 | Some s \<Rightarrow> size s)"

lemma o_pick_Some: "o_pick kn p = Some c \<Longrightarrow> \<exists>q. p = Some q \<and> c \<in> set (d_scopes ST_ALL q) \<and> scope_key c = fst kn"
proof -
  assume c: "o_pick kn p = Some c"
  then obtain q where q: "p = Some q" by (cases p) (simp_all add: o_pick_def)
  with c have "pick scope_key kn (d_scopes ST_ALL q) = Some c" by (simp add: o_pick_def del: pick.simps)
  from pick_in[OF this] q show ?thesis by blast
qed

lemma o_pick_size: "o_size (o_pick kn p) \<le> o_size p \<and> (o_pick kn p \<noteq> None \<longrightarrow> o_size (o_pick kn p) < o_size p)"
proof (cases "o_pick kn p")
  case (Some c)
  from o_pick_Some[OF this] child_size have "o_size (Some c) < o_size p" by (auto simp: o_size_def)
  then show ?thesis unfolding Some by simp
qed (simp add: o_size_def)

lemma d_size_picks: "d_size (map (o_pick kn) srcs) \<le> d_size srcs \<and>
  (\<not> none_row (map (o_pick kn) srcs) \<longrightarrow> d_size (map (o_pick kn) srcs) < d_size srcs)"
proof (induction srcs)
  case (Cons p srcs)
  have "d_size (x # xs) = o_size x + d_size xs" for x xs by (simp add: d_size_def o_size_def)
  moreover have "none_row (x # xs) \<longleftrightarrow> x = None \<and> none_row xs" for x :: "dscope option" and xs by (simp add: none_row_def)
  ultimately show ?case using Cons.IH o_pick_size[of kn p] by auto
qed (simp add: none_row_def)

lemma row_size: "(kn, row) \<in> set (child_groups srcs) \<Longrightarrow> d_size row < d_size srcs"
  using child_groups_rows d_size_picks by blast

function merge_children :: "dscope \<Rightarrow> dscope option list \<Rightarrow> merge_state \<Rightarrow> (dscope \<times> merge_state) res" where
  "merge_children dst_parent src_parents st =
     bindE (foldE (\<lambda>s g. case g of (kn, srcs) \<Rightarrow> case s of (dst_parent, coverpoints, st) \<Rightarrow>
              let (stype, name) = fst kn in
              bindE (merge_create dst_parent (hd (somes srcs)) coverpoints st) (\<lambda>((k, dst_parent), st).
                let dst = d_children dst_parent ! k;
                    coverpoints = (if stype = ST_COVERPOINT then coverpoints @ [name] else coverpoints);
                    st = register_du (stype, name) dst st;
                    (dst, st) = merge_items (copy_scope_data dst srcs) srcs st
                in bindE (merge_children dst srcs st) (\<lambda>(dst, st).
                     let (dst_parent, st) = flush_pending (set_children ((d_children dst_parent)[k := dst]) dst_parent) st
                     in Inr (dst_parent, coverpoints, st))))
             (dst_parent, [], st) (child_groups src_parents))
       (\<lambda>(dst_parent, _, st). Inr (dst_parent, st))"
  by pat_completeness auto
termination
  by (relation "measure (\<lambda>(_, srcs, _). d_size srcs)") (auto intro: row_size)

declare merge_children.simps [simp del]

definition new_db :: dscope where
  "new_db = new_d MemUCIS [] no_srcinfo 1 SOURCE_NONE 18374686479671623680 0"

definition db_merge_scopes :: "dscope \<Rightarrow> dscope list \<Rightarrow> dscope res" where
  "db_merge_scopes dst_db srcs =
     bindE (merge_children dst_db (map Some srcs) \<lparr>ms_dus = [], ms_pending = [], ms_files = []\<rparr>) (\<lambda>(dst, _). Inr dst)"

section \<open>History nodes\<close>

text \<open>A history: the nodes in the order they were created. A parent is the position of a node created before.\<close>

type_synonym hist = "MemHistoryNode list"

function hist_depth :: "hist \<Rightarrow> nat \<Rightarrow> nat" where
  "hist_depth h i = (case hn_parent (h ! i) of None \<Rightarrow> 0 | Some p \<Rightarrow> if p < i then Suc (hist_depth h p) else 0)"
  by pat_completeness auto
termination by (relation "measure snd") auto

declare hist_depth.simps [simp del]

definition copied_fields :: "((MemHistoryNode \<Rightarrow> json) \<times> (json \<Rightarrow> MemHistoryNode \<Rightarrow> MemHistoryNode)) list" where
  "copied_fields =
     [(hn_sim_time, \<lambda>v n. n\<lparr>hn_sim_time := v\<rparr>), (hn_time_unit, \<lambda>v n. n\<lparr>hn_time_unit := v\<rparr>), (hn_run_cwd, \<lambda>v n. n\<lparr>hn_run_cwd := v\<rparr>),
      (hn_cpu_time, \<lambda>v n. n\<lparr>hn_cpu_time := v\<rparr>), (hn_seed, \<lambda>v n. n\<lparr>hn_seed := v\<rparr>), (hn_cmd, \<lambda>v n. n\<lparr>hn_cmd := v\<rparr>),
      (hn_date, \<lambda>v n. n\<lparr>hn_date := v\<rparr>), (hn_user_name, \<lambda>v n. n\<lparr>hn_user_name := v\<rparr>), (hn_tool_category, \<lambda>v n. n\<lparr>hn_tool_category := v\<rparr>),
      (hn_vendor_id, \<lambda>v n. n\<lparr>hn_vendor_id := v\<rparr>), (hn_vendor_tool, \<lambda>v n. n\<lparr>hn_vendor_tool := v\<rparr>),
      (hn_vendor_tool_version, \<lambda>v n. n\<lparr>hn_vendor_tool_version := v\<rparr>), (hn_comment, \<lambda>v n. n\<lparr>hn_comment := v\<rparr>)]"

definition copy_history_node :: "int \<Rightarrow> nat option \<Rightarrow> MemHistoryNode \<Rightarrow> MemHistoryNode" where
  "copy_history_node now dst_parent src =
     foldl (\<lambda>n (getter, setter). if getter src \<noteq> JNull then setter (getter src) n else n)
       ((new_history_node now dst_parent (hn_logical_name src) (hn_physical_name src) (hn_kind src))\<lparr>hn_test_status := hn_test_status src\<rparr>)
       copied_fields"

definition copy_hist_at :: "int \<Rightarrow> hist \<Rightarrow> hist \<times> (nat \<times> nat) list \<Rightarrow> nat \<Rightarrow> hist \<times> (nat \<times> nat) list" where
  "copy_hist_at now src = (\<lambda>(dst, src_to_dst) i.
     let dst_parent = (case hn_parent (src ! i) of None \<Rightarrow> None | Some p \<Rightarrow> dict_get src_to_dst p)
     in (dst @ [copy_history_node now dst_parent (src ! i)], dict_set i (length dst) src_to_dst))"

definition merge_history :: "int \<Rightarrow> hist \<Rightarrow> hist \<Rightarrow> hist" where
  "merge_history now dst src = fst (foldl (copy_hist_at now src) (dst, []) (sort_key (hist_depth src) [0..<length src]))"

definition merge_history_nodes :: "int \<Rightarrow> hist \<Rightarrow> hist list \<Rightarrow> hist" where
  "merge_history_nodes now dst srcs = foldl (merge_history now) dst srcs"

definition db_merge :: "int \<Rightarrow> dscope \<times> hist \<Rightarrow> (dscope \<times> hist) list \<Rightarrow> (dscope \<times> hist) res" where
  "db_merge now dst_db src_dbs =
     bindE (db_merge_scopes (fst dst_db) (map fst src_dbs)) (\<lambda>dst. Inr (dst, merge_history_nodes now (snd dst_db) (map snd src_dbs)))"

section \<open>The cross-schema path of the archive merger\<close>

text \<open>\<open>NcdbMerger._merge_cross_schema\<close>, on the databases its reader returns and before its writer runs.\<close>

definition historyNodes :: "HistoryNodeKind \<Rightarrow> hist \<Rightarrow> hist" where
  "historyNodes kind h = filter (\<lambda>n. kind = HNK_ALL \<or> hn_kind n = NK kind) h"

definition readd_node :: "int \<Rightarrow> MemHistoryNode \<Rightarrow> MemHistoryNode" where
  "readd_node now n =
     (new_history_node now None (hn_logical_name n) (hn_physical_name n) (hn_kind n))\<lparr>hn_test_status := hn_test_status n\<rparr>"

definition merge_cross_schema :: "int \<Rightarrow> pystr \<Rightarrow> (dscope \<times> hist) list \<Rightarrow> (dscope \<times> hist) res" where
  "merge_cross_schema now target dbs =
     (let all_history_nodes = concat (map (\<lambda>(_, h). historyNodes HNK_TEST h @ historyNodes HNK_MERGE h) dbs) in
      bindE (db_merge now (new_db, []) dbs) (\<lambda>(out, h).
        Inr (out, h @ map (readd_node now) all_history_nodes @
                  [new_history_node now None (JStr target) (JStr target) (NK HNK_MERGE)])))"

end
