(* ===== verification/DbMergeHits.thy ===== *)
theory DbMergeHits
  imports DbMerge
begin

text \<open>
  What the structural merge promises, and that it keeps it: at every path of scopes, given by type, name
  and repeat number, the merged database has exactly the cover items that some source has there, and
  counts for each the sum of the sources' counts.
\<close>

section \<open>Counts by path\<close>

type_synonym scope_path = "((int \<times> pystr) \<times> nat) list"

fun count_at :: "scope_path \<Rightarrow> (pystr \<times> int) \<times> nat \<Rightarrow> dscope \<Rightarrow> int option" where
  "count_at [] ik s = map_option (\<lambda>ci. cd_data (ci_data ci)) (pick item_key ik (d_coverItems CT_ALL s))"
| "count_at (kn # p) ik s = (case pick scope_key kn (d_scopes ST_ALL s) of None \<Rightarrow> None | Some c \<Rightarrow> count_at p ik c)"

definition o_count :: "scope_path \<Rightarrow> (pystr \<times> int) \<times> nat \<Rightarrow> dscope option \<Rightarrow> int option" where
  "o_count p ik s = (case s of None \<Rightarrow> None | Some s \<Rightarrow> count_at p ik s)"

definition total :: "int option list \<Rightarrow> int option" where
  "total cs = (if somes cs = [] then None else Some (sum_list (somes cs)))"

definition merged_count :: "scope_path \<Rightarrow> (pystr \<times> int) \<times> nat \<Rightarrow> dscope option list \<Rightarrow> int option" where
  "merged_count p ik srcs = total (map (o_count p ik) srcs)"

lemma somes_simps [simp]: "somes [] = []" "somes (None # xs) = somes xs" "somes (Some x # xs) = x # somes xs"
  by (simp_all add: somes_def)

lemma somes_in: "x \<in> set (somes xs) \<longleftrightarrow> Some x \<in> set xs"
  by (induction xs) (auto simp: somes_def split: option.split)

lemma somes_none: "somes xs = [] \<longleftrightarrow> none_row xs"
  by (induction xs) (auto simp: somes_def none_row_def split: option.splits)

lemma merged_count_step: "merged_count (kn # p) ik srcs = merged_count p ik (map (o_pick kn) srcs)"
proof -
  have "o_count (kn # p) ik s = o_count p ik (o_pick kn s)" for s
    by (cases s) (simp_all add: o_count_def o_pick_def del: pick.simps)
  then have "map (o_count (kn # p) ik) srcs = map (o_count p ik) (map (o_pick kn) srcs)" by simp
  then show ?thesis by (simp only: merged_count_def)
qed

lemma merged_count_none: "none_row row \<Longrightarrow> merged_count p ik row = None"
proof -
  assume "none_row row"
  then have "none_row (map (o_count p ik) row)" by (auto simp: none_row_def o_count_def)
  then show ?thesis by (simp add: merged_count_def total_def somes_none)
qed

section \<open>Sources the promise is about\<close>

definition FSM_KEYS :: "(int \<times> pystr) list" where
  "FSM_KEYS = [(ST_FSM_STATES, lit ''UCIS:STATE''), (ST_FSM_TRANS, lit ''UCIS:TRANSITION'')]"

text \<open>
  An FSM scope has its two fixed sub-scopes at most once, under their standard names, and no items of its
  own; a scope type is a single bit; an instance is linked to no design unit or to one of \<open>dus\<close>.
\<close>

definition fsm_tidy :: "dscope \<Rightarrow> bool" where
  "fsm_tidy s \<longleftrightarrow> d_coverItems CT_ALL s = [] \<and>
     (\<forall>c\<in>set (d_scopes ST_ALL s). fst (scope_key c) \<in> {ST_FSM_STATES, ST_FSM_TRANS} \<longrightarrow> scope_key c \<in> set FSM_KEYS) \<and>
     (\<forall>k\<in>set FSM_KEYS. occurrences scope_key k (d_scopes ST_ALL s) \<le> 1)"

definition one_bit :: "int \<Rightarrow> bool" where
  "one_bit t \<longleftrightarrow> t \<in> set (map (\<lambda>k. 2 ^ k) [0..<48])"

definition linked_to :: "(int \<times> pystr) list \<Rightarrow> scope_attrs option \<Rightarrow> bool" where
  "linked_to dus du \<longleftrightarrow> (case du of None \<Rightarrow> True | Some d \<Rightarrow> (m_type d, m_name d) \<in> set dus)"

fun tidy :: "(int \<times> pystr) list \<Rightarrow> dscope \<Rightarrow> bool" where
  "tidy dus (DScope a x is cs) \<longleftrightarrow>
     one_bit (m_type a) \<and> (m_type a = ST_FSM \<longrightarrow> fsm_tidy (DScope a x is cs)) \<and>
     (m_type a = ST_INSTANCE \<longrightarrow> linked_to dus (sx_du x)) \<and> (\<forall>c\<in>set cs. tidy dus c)"

lemma tidyD:
  assumes "tidy dus s"
  shows "one_bit (d_type s)" "d_type s = ST_FSM \<Longrightarrow> fsm_tidy s" "d_type s = ST_INSTANCE \<Longrightarrow> linked_to dus (sx_du (d_extra s))"
    "c \<in> set (d_scopes msk s) \<Longrightarrow> tidy dus c"
  using assms by (cases s; auto simp: d_scopes_def)+

lemma one_bit_and: "one_bit t \<Longrightarrow> n < 48 \<Longrightarrow> t AND 2 ^ n \<noteq> 0 \<longleftrightarrow> t = 2 ^ n"
  by (auto simp: one_bit_def two_power_bit)

lemma one_bit_visible: "one_bit t \<Longrightarrow> t AND ST_ALL \<noteq> 0"
proof -
  assume "one_bit t"
  then obtain k where k: "t = 2 ^ k" "k < 48" by (auto simp: one_bit_def)
  have "bit (ST_ALL :: int) k"
  proof -
    have m: "ST_ALL = mask 48" by (simp add: ST_ALL_def mask_eq_exp_minus_1)
    show ?thesis unfolding m bit_mask_iff using k(2) by (simp add: possible_bit_def)
  qed
  then show ?thesis by (simp add: k and_exp_eq_0_iff_not_bit and.commute)
qed

section \<open>Creating a scope\<close>

text \<open>A scope that was just created holds nothing, except that an FSM holds its two fixed sub-scopes.\<close>

definition blank :: "dscope \<Rightarrow> bool" where
  "blank s \<longleftrightarrow> d_items s = [] \<and> d_class s \<noteq> MemUCIS \<and>
     (if d_class s = MemFSMScope then map scope_key (d_children s) = FSM_KEYS \<and>
        (\<forall>c\<in>set (d_children s). d_items c = [] \<and> d_children c = [] \<and> d_class c = MemScope)
      else d_children s = [])"

lemma new_d_sel:
  "d_items (new_d cls n si w so ty fl) = []" "d_children (new_d cls n si w so ty fl) = []"
  "d_class (new_d cls n si w so ty fl) = cls" "scope_key (new_d cls n si w so ty fl) = (ty, n)"
  "m_type (d_attrs (new_d cls n si w so ty fl)) = ty"
  by (simp_all add: new_d_def scope_key_def new_scope_def)

lemma set_children_sel [simp]:
  "d_attrs (set_children cs s) = d_attrs s" "d_extra (set_children cs s) = d_extra s" "d_items (set_children cs s) = d_items s"
  "d_children (set_children cs s) = cs" "scope_key (set_children cs s) = scope_key s"
  by (simp_all add: set_children_def scope_key_def)

text \<open>What a creation makes for a wanted key.\<close>

definition fresh_for :: "int \<times> pystr \<Rightarrow> dscope \<Rightarrow> bool" where
  "fresh_for key c \<longleftrightarrow> blank c \<and> scope_key c = key \<and> (d_class c = MemFSMScope \<longleftrightarrow> fst key = ST_FSM)"

lemma fresh_new_d: "cls \<notin> {MemUCIS, MemFSMScope} \<Longrightarrow> ty \<noteq> ST_FSM \<Longrightarrow> fresh_for (ty, n) (new_d cls n si w so ty fl)"
  by (simp add: fresh_for_def blank_def new_d_sel)

lemma fresh_fsm: "fresh_for (ST_FSM, n) (new_d_fsm n si w so fl)"
  by (simp add: fresh_for_def blank_def new_d_fsm_def new_d_sel FSM_KEYS_def)

lemma not_fsm: "ST_COVERGROUP \<noteq> ST_FSM" "ST_COVERINSTANCE \<noteq> ST_FSM" "ST_COVERPOINT \<noteq> ST_FSM" "ST_CROSS \<noteq> ST_FSM"
  "ST_TOGGLE \<noteq> ST_FSM" "ST_BLOCK \<noteq> ST_FSM" "ST_BRANCH \<noteq> ST_FSM" "ST_INSTANCE \<noteq> ST_FSM" "DU_ANY ty \<Longrightarrow> ty \<noteq> ST_FSM"
  by (auto simp: type_codes DU_ANY_def)

lemma fresh_mem: "fresh_for (ty, n) (d_mem_createScope n si w so ty fl)"
  unfolding d_mem_createScope_def by (simp add: fresh_new_d fresh_fsm not_fsm)

lemma one_bit_codes:
  assumes "one_bit ty"
  shows "ty AND ST_COVERGROUP \<noteq> 0 \<longleftrightarrow> ty = ST_COVERGROUP" "ty AND ST_BLOCK \<noteq> 0 \<longleftrightarrow> ty = ST_BLOCK"
    "ty AND ST_BRANCH \<noteq> 0 \<longleftrightarrow> ty = ST_BRANCH" "ty AND ST_TOGGLE \<noteq> 0 \<longleftrightarrow> ty = ST_TOGGLE" "ty AND ST_FSM \<noteq> 0 \<longleftrightarrow> ty = ST_FSM"
  unfolding type_bits by (rule one_bit_and[OF assms], simp)+

lemma fresh_inst:
  assumes "one_bit ty"
  shows "fresh_for (ty, n) (d_inst_createScope n si w so ty fl)"
  unfolding d_inst_createScope_def one_bit_codes[OF assms] by (simp add: fresh_new_d fresh_fsm not_fsm)

lemma move_srcinfo_state [simp]:
  "ms_dus (snd (move_srcinfo si st)) = ms_dus st" "ms_pending (snd (move_srcinfo si st)) = ms_pending st"
  by (simp_all add: move_srcinfo_def split: option.split)

lemma flush_nothing: "ms_pending st = [] \<Longrightarrow> flush_pending p st = (p, st)"
  by (cases p; cases st) (simp add: flush_pending_def set_children_def)

lemma dst_du_known: "linked_to (dict_keys (ms_dus st)) du \<Longrightarrow> snd (dst_du du st) = st"
proof (cases du)
  case (Some a)
  assume "linked_to (dict_keys (ms_dus st)) du"
  then have "dict_get (ms_dus st) (m_type a, m_name a) \<noteq> None" using Some by (simp add: linked_to_def map_of_eq_None_iff)
  then show ?thesis using Some by (auto simp: dst_du_def)
qed (simp add: dst_du_def)

definition created :: "dscope \<Rightarrow> dscope \<Rightarrow> nat \<Rightarrow> dscope \<Rightarrow> bool" where
  "created p src k p1 \<longleftrightarrow> d_attrs p1 = d_attrs p \<and> d_extra p1 = d_extra p \<and> d_items p1 = d_items p \<and>
     (if d_class p = MemFSMScope \<and> d_type src \<in> {ST_FSM_STATES, ST_FSM_TRANS}
      then k = (if d_type src = ST_FSM_STATES then 0 else 1) \<and>
        d_children p1 = (d_children p)[k := d_rename (m_name (d_attrs src)) (d_children p ! k)]
      else k = length (d_children p) \<and> (\<exists>c. d_children p1 = d_children p @ [c] \<and> fresh_for (scope_key src) c))"

lemma created_add_child:
  assumes "fresh_for (scope_key src) c" "\<not> (d_class p = MemFSMScope \<and> d_type src \<in> {ST_FSM_STATES, ST_FSM_TRANS})"
    "add_child c p = (k, p1)"
  shows "created p src k p1"
  using assms unfolding created_def if_not_P[OF assms(2)] by (auto simp: add_child_def)

lemma created_createScope:
  assumes "d_createScope p (m_name (d_attrs src)) si w so (d_type src) fl = (k, p1)" "one_bit (d_type src)"
  shows "created p src k p1"
proof -
  have key: "scope_key src = (d_type src, m_name (d_attrs src))" by (simp add: scope_key_def)
  have ne: "ST_FSM_STATES \<noteq> ST_FSM_TRANS" by (simp add: type_codes)
  show ?thesis
  proof (cases "d_class p = MemFSMScope \<and> d_type src \<in> {ST_FSM_STATES, ST_FSM_TRANS}")
    case True
    then show ?thesis using assms(1) ne unfolding created_def if_P[OF True] by (auto simp: d_createScope_def)
  next
    case False
    have "fresh_for (scope_key src) (if d_class p \<in> {MemInstanceScope, MemToggleInstanceScope}
        then d_inst_createScope (m_name (d_attrs src)) si w so (d_type src) fl
        else d_mem_createScope (m_name (d_attrs src)) si w so (d_type src) fl)"
      unfolding key using fresh_mem fresh_inst[OF assms(2)] by simp
    then show ?thesis using False assms(1) by (intro created_add_child) (auto simp: d_createScope_def)
  qed
qed

lemma not_fsm_part: "ST_COVERGROUP \<notin> {ST_FSM_STATES, ST_FSM_TRANS}" "ST_COVERINSTANCE \<notin> {ST_FSM_STATES, ST_FSM_TRANS}"
  "ST_COVERPOINT \<notin> {ST_FSM_STATES, ST_FSM_TRANS}" "ST_CROSS \<notin> {ST_FSM_STATES, ST_FSM_TRANS}" "ST_INSTANCE \<notin> {ST_FSM_STATES, ST_FSM_TRANS}"
  by (simp_all add: type_codes)

lemma fresh_extra:
  "fresh_for key c \<Longrightarrow> sx_class x = d_class c \<Longrightarrow> d_class c \<noteq> MemFSMScope \<Longrightarrow> fresh_for key (DScope (d_attrs c) x [] [])"
  by (simp add: fresh_for_def blank_def scope_key_def)

lemma merge_create_ok:
  assumes run: "merge_create p src cps st = Inr ((k, p1), st1)"
    and src: "tidy dus src" and st: "ms_pending st = []" "set dus \<subseteq> set (dict_keys (ms_dus st))"
  shows "created p src k p1 \<and> ms_pending st1 = [] \<and> ms_dus st1 = ms_dus st"
proof -
  obtain si st0 where m: "move_srcinfo (m_srcinfo (d_attrs src)) st = (si, st0)" by fastforce
  have st0: "ms_pending st0 = []" "ms_dus st0 = ms_dus st" using move_srcinfo_state[of "m_srcinfo (d_attrs src)" st] st m by simp_all
  note r = run[unfolded merge_create_def Let_def m prod.case]
  have ob: "one_bit (d_type src)" using tidyD(1)[OF src] .
  have key: "scope_key src = (d_type src, m_name (d_attrs src))" by (simp add: scope_key_def)
  consider (inst) "d_type src = ST_INSTANCE" | (cross) "d_type src = ST_CROSS" | (cg) "d_type src = ST_COVERGROUP"
    | (cp) "d_type src = ST_COVERPOINT" "d_class p = MemCovergroup" | (ci) "d_type src = ST_COVERINSTANCE" "d_class p = MemCovergroup"
    | (other) "d_type src \<noteq> ST_INSTANCE" "d_type src \<noteq> ST_CROSS" "d_type src \<noteq> ST_COVERGROUP"
        "\<not> (d_type src = ST_COVERPOINT \<and> d_class p = MemCovergroup)" "\<not> (d_type src = ST_COVERINSTANCE \<and> d_class p = MemCovergroup)"
    by blast
  then show ?thesis
  proof cases
    case inst
    have "linked_to (dict_keys (ms_dus st0)) (sx_du (d_extra src))"
      using tidyD(3)[OF src inst] st(2) st0(2) by (auto simp: linked_to_def split: option.splits)
    then obtain du where du: "dst_du (sx_du (d_extra src)) st0 = (du, st0)"
      using dst_du_known by (metis prod.collapse)
    have e: "d_createInstance p (m_name (d_attrs src)) si (m_weight (d_attrs src)) (m_source (d_attrs src)) ST_INSTANCE du (m_flags (d_attrs src)) = (k, p1)"
      "st1 = st0"
      using r inst by (auto simp: du flush_nothing[OF st0(1)] split: if_splits)
    have "created p src k p1"
      using e(1) inst not_fsm not_fsm_part
      by (intro created_add_child) (auto simp: d_createInstance_def key new_d_sel intro!: fresh_extra fresh_new_d)
    then show ?thesis using st0 e(2) by simp
  next
    case cross
    have ni: "ST_CROSS \<noteq> ST_INSTANCE" by (simp add: type_codes)
    obtain pts where e: "d_createCross p (m_name (d_attrs src)) si (m_weight (d_attrs src)) (m_source (d_attrs src)) pts = (k, p1)" "st1 = st0"
      using r ni by (auto simp: cross bindE_eq_Inr split: if_splits)
    have "created p src k p1"
      using e(1) cross not_fsm not_fsm_part
      by (intro created_add_child) (auto simp: d_createCross_def key new_d_sel intro!: fresh_extra fresh_new_d)
    then show ?thesis using st0 e(2) by simp
  next
    case cg
    have ni: "ST_COVERGROUP \<noteq> ST_INSTANCE" "ST_COVERGROUP \<noteq> ST_CROSS" by (simp_all add: type_codes)
    then have e: "add_child (new_d MemCovergroup (m_name (d_attrs src)) si (m_weight (d_attrs src)) (m_source (d_attrs src)) ST_COVERGROUP 0) p = (k, p1)" "st1 = st0"
      using r by (auto simp: cg)
    have "created p src k p1"
      by (rule created_add_child[OF _ _ e(1)]) (use cg not_fsm not_fsm_part in \<open>simp_all add: key fresh_new_d\<close>)
    then show ?thesis using st0 e(2) by simp
  next
    case cp
    have ni: "ST_COVERPOINT \<noteq> ST_INSTANCE" "ST_COVERPOINT \<noteq> ST_CROSS" "ST_COVERPOINT \<noteq> ST_COVERGROUP" by (simp_all add: type_codes)
    then have e: "add_child (new_d MemCoverpoint (m_name (d_attrs src)) si (m_weight (d_attrs src)) (m_source (d_attrs src)) ST_COVERPOINT 0) p = (k, p1)" "st1 = st0"
      using r by (auto simp: cp)
    have "created p src k p1"
      by (rule created_add_child[OF _ _ e(1)]) (use cp not_fsm not_fsm_part in \<open>simp_all add: key fresh_new_d\<close>)
    then show ?thesis using st0 e(2) by simp
  next
    case ci
    have ni: "ST_COVERINSTANCE \<noteq> ST_INSTANCE" "ST_COVERINSTANCE \<noteq> ST_CROSS" "ST_COVERINSTANCE \<noteq> ST_COVERGROUP" "ST_COVERINSTANCE \<noteq> ST_COVERPOINT"
      by (simp_all add: type_codes)
    then have "d_createScope p (m_name (d_attrs src)) si (m_weight (d_attrs src)) (m_source (d_attrs src)) (d_type src) 0 = (k, p1)" "st1 = st0"
      using r by (auto simp: ci)
    then show ?thesis using created_createScope ob st0 by blast
  next
    case other
    then have "d_createScope p (m_name (d_attrs src)) si (m_weight (d_attrs src)) (m_source (d_attrs src)) (d_type src) (m_flags (d_attrs src)) = (k, p1)" "st1 = st0"
      using r by (auto split: if_splits)
    then show ?thesis using created_createScope ob st0 by blast
  qed
qed

section \<open>Cover items\<close>

lemma copy_scope_keeps [simp]:
  "scope_key (copy_scope_data dst srcs) = scope_key dst" "d_class (copy_scope_data dst srcs) = d_class dst"
  "d_items (copy_scope_data dst srcs) = d_items dst" "d_children (copy_scope_data dst srcs) = d_children dst"
  by (simp_all add: copy_scope_data_def scope_key_def)

text \<open>The part of an item that keys and counts depend on.\<close>

definition named :: "ditem \<Rightarrow> pystr \<times> coverdata" where
  "named ci = (ci_name ci, ci_data ci)"

lemma pick_map: "pick key kn (map f xs) = map_option f (pick (key \<circ> f) kn xs)"
  by (cases kn) (simp add: filter_map comp_def)

lemma count_named:
  "count_at [] ik s = map_option (cd_data \<circ> snd) (pick (\<lambda>(n, d). (n, cd_type d)) ik
     (filter (\<lambda>(n, d). cd_type d AND CT_ALL \<noteq> 0) (map named (d_items s))))"
proof -
  have k: "(\<lambda>(n, d). (n, cd_type d)) \<circ> named = item_key" and v: "(\<lambda>(n, d). cd_type d AND CT_ALL \<noteq> 0) \<circ> named = (\<lambda>ci. cd_type (ci_data ci) AND CT_ALL \<noteq> 0)"
    by (auto simp: named_def item_key_def)
  show ?thesis unfolding filter_map v pick_map k
    by (simp add: d_coverItems_def named_def option.map_comp comp_def del: pick.simps)
qed

lemma add_merged_one:
  assumes "d_class dst \<noteq> MemFSMScope" "add_merged (dst, st) (name, present) = (dst', st')"
  shows "\<exists>src. dst' = add_ditem \<lparr>ci_name = name, ci_data = merged_item present, ci_src = src, it_attributes = []\<rparr> dst \<and>
    ms_dus st' = ms_dus st \<and> ms_pending st' = ms_pending st"
proof (cases "List.find (\<lambda>ci. ci_src ci \<noteq> None) present")
  case None
  then show ?thesis using assms by (auto simp: add_merged_def d_createNextCover_def)
next
  case (Some ci)
  obtain si st0 where m: "move_srcinfo (the (ci_src ci)) st = (si, st0)" by fastforce
  then have "ms_dus st0 = ms_dus st" "ms_pending st0 = ms_pending st" using move_srcinfo_state[of "the (ci_src ci)" st] by simp_all
  then show ?thesis using assms Some m by (auto simp: add_merged_def d_createNextCover_def)
qed

lemma add_merged_all:
  assumes "d_class dst \<noteq> MemFSMScope" "foldl add_merged (dst, st) merged = (dst', st')"
  shows "map named (d_items dst') = map named (d_items dst) @ map (\<lambda>(name, present). (name, merged_item present)) merged \<and>
    d_attrs dst' = d_attrs dst \<and> d_extra dst' = d_extra dst \<and> d_children dst' = d_children dst \<and>
    ms_dus st' = ms_dus st \<and> ms_pending st' = ms_pending st"
  using assms
proof (induction merged arbitrary: dst st)
  case (Cons m merged)
  obtain name present where m: "m = (name, present)" by (cases m)
  obtain d1 st1 where s: "add_merged (dst, st) m = (d1, st1)" by fastforce
  obtain src where d1: "d1 = add_ditem \<lparr>ci_name = name, ci_data = merged_item present, ci_src = src, it_attributes = []\<rparr> dst"
    "ms_dus st1 = ms_dus st" "ms_pending st1 = ms_pending st"
    using add_merged_one[OF Cons.prems(1) s[unfolded m]] by blast
  have "d_class d1 \<noteq> MemFSMScope" using Cons.prems(1) by (simp add: d1 add_ditem_def)
  from Cons.IH[OF this] Cons.prems(2) s d1 show ?case by (simp add: m add_ditem_def named_def)
qed simp

lemma update_attributes_named:
  "map named (foldl (\<lambda>is (i, _, present). is[i := (is ! i)\<lparr>it_attributes := g present (it_attributes (is ! i))\<rparr>]) is ups) = map named is"
proof (induction ups arbitrary: "is")
  case (Cons u ups)
  obtain i n present where u: "u = (i, n, present)" by (cases u)
  have "map named (is[i := (is ! i)\<lparr>it_attributes := g present (it_attributes (is ! i))\<rparr>]) = map named is"
    by (cases "i < length is") (auto simp: map_update named_def intro!: nth_equalityI simp: nth_list_update)
  then show ?case using Cons.IH by (simp add: u)
qed simp

lemma copy_item_attributes_keeps:
  "map named (d_items (copy_item_attributes merged dst)) = map named (d_items dst)"
  "d_attrs (copy_item_attributes merged dst) = d_attrs dst" "d_extra (copy_item_attributes merged dst) = d_extra dst"
  "d_children (copy_item_attributes merged dst) = d_children dst"
  unfolding copy_item_attributes_def Let_def
  by (simp_all add: update_attributes_named[where g = "\<lambda>present. copy_attributes (map it_attributes present)"])

lemma somes_map: "somes (map (map_option f) xs) = map f (somes xs)"
  by (induction xs) (auto simp: somes_def split: option.split)

lemma total_map: "total (map (map_option f) xs) = (if none_row xs then None else Some (\<Sum>x\<leftarrow>somes xs. f x))"
  unfolding total_def somes_map by (simp add: somes_none)

definition source_items :: "dscope option list \<Rightarrow> ditem list list" where
  "source_items srcs = map (\<lambda>s. case s of None \<Rightarrow> [] | Some s \<Rightarrow> d_coverItems CT_ALL s) srcs"

lemma merged_count_items:
  "merged_count [] ik srcs = (let row = picks item_key (source_items srcs) ik in
     if none_row row then None else Some (cd_data (merged_item (somes row))))"
proof -
  have nil: "pick item_key ik [] = None" by (cases ik) simp
  have "map (o_count [] ik) srcs = map (map_option (\<lambda>ci. cd_data (ci_data ci))) (picks item_key (source_items srcs) ik)"
    by (simp add: picks_def source_items_def o_count_def nil del: pick.simps split: option.split)
  then show ?thesis unfolding merged_count_def by (simp only: total_map Let_def) (simp add: merged_item_def)
qed

lemma picks_member:
  "x \<in> set (somes (picks key xss kn)) \<Longrightarrow> \<exists>xs\<in>set xss. x \<in> set xs \<and> key x = fst kn"
proof -
  assume "x \<in> set (somes (picks key xss kn))"
  then have "Some x \<in> set (picks key xss kn)" by (simp only: somes_in)
  then obtain xs where "xs \<in> set xss" "pick key kn xs = Some x" by (auto simp: picks_def simp del: pick.simps)
  with pick_in[OF this(2)] show ?thesis by blast
qed

lemma source_items_visible: "is \<in> set (source_items srcs) \<Longrightarrow> ci \<in> set is \<Longrightarrow> cd_type (ci_data ci) AND CT_ALL \<noteq> 0"
  by (auto simp: source_items_def d_coverItems_def split: option.splits)

lemma merge_items_ok:
  assumes run: "merge_items dst srcs st = (dst', st')" and dst: "d_class dst \<noteq> MemFSMScope" "d_items dst = []"
  shows "d_attrs dst' = d_attrs dst \<and> d_extra dst' = d_extra dst \<and> d_children dst' = d_children dst \<and>
    ms_dus st' = ms_dus st \<and> ms_pending st' = ms_pending st \<and> (\<forall>ik. count_at [] ik dst' = merged_count [] ik srcs)"
proof -
  let ?items = "source_items srcs" and ?gs = "group item_key (source_items srcs)"
  let ?merged = "map (\<lambda>(((name, _), _), row). (name, somes row)) ?gs"
  have nil: "pick item_key ik [] = None" for ik by (cases ik) simp
  show ?thesis
  proof (cases "list_all (\<lambda>is. is = []) ?items")
    case True
    then have r: "dst' = dst" "st' = st" using run by (simp_all add: merge_items_def source_items_def)
    have "pick item_key ik xs = None" if "xs \<in> set ?items" for ik xs
    proof -
      have "xs = []" using True that unfolding list_all_iff by blast
      then show ?thesis by (simp only: nil)
    qed
    then have "none_row (picks item_key ?items ik)" for ik by (auto simp: none_row_def picks_def simp del: pick.simps)
    moreover have "count_at [] ik dst = None" for ik using dst(2) by (simp add: d_coverItems_def nil del: pick.simps)
    ultimately show ?thesis by (simp add: r merged_count_items)
  next
    case False
    obtain d1 st1 where f: "foldl add_merged (dst, st) ?merged = (d1, st1)" by fastforce
    have r: "dst' = copy_item_attributes ?merged d1" "st' = st1"
      using run False f by (simp_all add: merge_items_def source_items_def)
    note a = add_merged_all[OF dst(1) f]
    let ?g = "\<lambda>(kn, row). (fst (fst kn), merged_item (somes row))"
    have names: "map named (d_items dst') = map ?g ?gs"
      using a dst(2) by (simp add: r(1) copy_item_attributes_keeps comp_def case_prod_beta)
    have row: "cd_type (merged_item (somes row)) = snd (fst kn) \<and> cd_type (merged_item (somes row)) AND CT_ALL \<noteq> 0"
      if "(kn, row) \<in> set ?gs" for kn row
    proof -
      have w: "row = picks item_key ?items kn" "somes row \<noteq> []" using group_row[OF that] somes_none by blast+
      then have "hd (somes row) \<in> set (somes (picks item_key ?items kn))" by simp
      from picks_member[OF this] obtain xs where xs: "xs \<in> set ?items" "hd (somes row) \<in> set xs" "item_key (hd (somes row)) = fst kn" by blast
      have "cd_type (ci_data (hd (somes row))) AND CT_ALL \<noteq> 0" by (rule source_items_visible[OF xs(1,2)])
      moreover have "cd_type (ci_data (hd (somes row))) = snd (fst kn)" using xs(3) by (simp add: item_key_def prod_eq_iff)
      ultimately show ?thesis by (simp add: merged_item_def)
    qed
    have "filter (\<lambda>(n, d). cd_type d AND CT_ALL \<noteq> 0) (map ?g ?gs) = map ?g ?gs"
      using row by (intro filter_True) auto
    moreover have l2: "list_all2 (\<lambda>kn m. (\<lambda>(n, d). (n, cd_type d)) m = fst kn) (dict_keys ?gs) (map ?g ?gs)"
      using row by (auto simp: list_all2_conv_all_nth prod_eq_iff split: prod.splits dest: nth_mem)
    ultimately have c: "count_at [] ik dst' = map_option (cd_data \<circ> snd)
        (if ik \<in> set (dict_keys ?gs) then dict_get (zip (dict_keys ?gs) (map ?g ?gs)) ik else None)" for ik
      unfolding count_named names using pick_slots[OF l2 group_spec(2,1), of ik] by (simp only:)
    have z: "dict_get (zip (dict_keys ?gs) (map ?g ?gs)) ik = map_option (\<lambda>row. ?g (ik, row)) (dict_get ?gs ik)" for ik
    proof -
      have "dict_get (zip (dict_keys xs) (map ?g xs)) ik = map_option (\<lambda>row. ?g (ik, row)) (dict_get xs ik)" for xs :: "(((pystr \<times> int) \<times> nat) \<times> ditem option list) list"
        by (induction xs) auto
      then show ?thesis .
    qed
    have "count_at [] ik dst' = merged_count [] ik srcs" for ik
      unfolding c z merged_count_items Let_def group_keys group_spec(3) by simp
    then show ?thesis using a by (simp add: r copy_item_attributes_keeps)
  qed
qed

lemma merge_items_nothing:
  assumes "\<forall>s\<in>set (somes srcs). d_coverItems CT_ALL s = []"
  shows "merge_items dst srcs st = (dst, st)" "merged_count [] ik srcs = None"
proof -
  have e: "xs = []" if "xs \<in> set (source_items srcs)" for xs
    using that assms by (auto simp: source_items_def somes_in split: option.splits)
  then show "merge_items dst srcs st = (dst, st)" by (simp add: merge_items_def source_items_def list_all_iff)
  have "pick item_key ik [] = None" by (cases ik) simp
  then have "pick item_key ik xs = None" if "xs \<in> set (source_items srcs)" for xs using e[OF that] by (simp only:)
  then have "none_row (picks item_key (source_items srcs) ik)" by (auto simp: none_row_def picks_def simp del: pick.simps)
  then show "merged_count [] ik srcs = None" by (simp add: merged_count_items)
qed

section \<open>One group of scopes\<close>

definition merge_step ::
  "dscope \<times> pystr list \<times> merge_state \<Rightarrow> ((int \<times> pystr) \<times> nat) \<times> dscope option list \<Rightarrow> (dscope \<times> pystr list \<times> merge_state) res" where
  "merge_step s g = (case g of (kn, srcs) \<Rightarrow> case s of (dst_parent, coverpoints, st) \<Rightarrow>
              let (stype, name) = fst kn in
              bindE (merge_create dst_parent (hd (somes srcs)) coverpoints st) (\<lambda>((k, dst_parent), st).
                let dst = d_children dst_parent ! k;
                    coverpoints = (if stype = ST_COVERPOINT then coverpoints @ [name] else coverpoints);
                    st = register_du (stype, name) dst st;
                    (dst, st) = merge_items (copy_scope_data dst srcs) srcs st
                in bindE (merge_children dst srcs st) (\<lambda>(dst, st).
                     let (dst_parent, st) = flush_pending (set_children ((d_children dst_parent)[k := dst]) dst_parent) st
                     in Inr (dst_parent, coverpoints, st))))"

lemma merge_children_eq:
  "merge_children p srcs st = bindE (foldE merge_step (p, [], st) (child_groups srcs)) (\<lambda>(p, _, st). Inr (p, st))"
  unfolding merge_step_def[abs_def] by (subst merge_children.simps) (rule refl)

lemma merge_step_parts:
  assumes "merge_step (p, cps, st) (kn, row) = Inr (p', cps', st')"
  shows "\<exists>k p1 st1 d2 st2 d3 st3. merge_create p (hd (somes row)) cps st = Inr ((k, p1), st1) \<and>
    merge_items (copy_scope_data (d_children p1 ! k) row) row (register_du (fst kn) (d_children p1 ! k) st1) = (d2, st2) \<and>
    merge_children d2 row st2 = Inr (d3, st3) \<and> flush_pending (set_children ((d_children p1)[k := d3]) p1) st3 = (p', st')"
proof -
  obtain stype name where key: "fst kn = (stype, name)" by (cases "fst kn")
  note r = assms[unfolded merge_step_def prod.case key Let_def]
  from r obtain x where c: "merge_create p (hd (somes row)) cps st = Inr x" by (elim bindE_InrE)
  obtain k p1 st1 where x: "x = ((k, p1), st1)" by (metis prod.collapse)
  obtain d2 st2 where i: "merge_items (copy_scope_data (d_children p1 ! k) row) row (register_du (stype, name) (d_children p1 ! k) st1) = (d2, st2)"
    by fastforce
  note r2 = r[unfolded c x bindE_Inr prod.case i]
  from r2 obtain y where m: "merge_children d2 row st2 = Inr y" by (elim bindE_InrE)
  obtain d3 st3 where y: "y = (d3, st3)" by (cases y)
  obtain p2 st4 where f: "flush_pending (set_children ((d_children p1)[k := d3]) p1) st3 = (p2, st4)" by fastforce
  have "(p2, st4) = (p', st')" using r2[unfolded m y bindE_Inr prod.case f] by simp
  then show ?thesis using c[unfolded x] i[folded key] m[unfolded y] f by blast
qed

text \<open>The destination's children as slots, one per group merged so far; an FSM has its two from the start.\<close>

definition slots :: "mem_class \<Rightarrow> ((int \<times> pystr) \<times> nat) list \<Rightarrow> ((int \<times> pystr) \<times> nat) list" where
  "slots cls kns = (if cls = MemFSMScope then map (\<lambda>k. (k, 0)) FSM_KEYS @ filter (\<lambda>kn. fst kn \<notin> set FSM_KEYS) kns else kns)"

definition slot_ok :: "(int \<times> pystr, dscope) groups \<Rightarrow> (int \<times> pystr) \<times> nat \<Rightarrow> dscope \<Rightarrow> bool" where
  "slot_ok don kn m \<longleftrightarrow> scope_key m = fst kn \<and>
     (case dict_get don kn of
        None \<Rightarrow> d_items m = [] \<and> d_children m = [] \<and> d_class m = MemScope
      | Some row \<Rightarrow> \<forall>p ik. count_at p ik m = merged_count p ik row)"

definition slots_inv :: "dscope \<Rightarrow> (int \<times> pystr, dscope) groups \<Rightarrow> bool" where
  "slots_inv p don \<longleftrightarrow> list_all2 (slot_ok don) (slots (d_class p) (dict_keys don)) (d_children p)"

definition ready :: "(int \<times> pystr) list \<Rightarrow> dscope \<Rightarrow> dscope option list \<Rightarrow> merge_state \<Rightarrow> bool" where
  "ready dus dst srcs st \<longleftrightarrow> slots_inv dst [] \<and> ms_pending st = [] \<and> set dus \<subseteq> set (dict_keys (ms_dus st)) \<and>
     (\<forall>s\<in>set (somes srcs). (\<forall>c\<in>set (d_scopes ST_ALL s). tidy dus c) \<and> (d_class dst = MemFSMScope \<longrightarrow> fsm_tidy s))"

definition merged_into :: "dscope \<Rightarrow> dscope option list \<Rightarrow> merge_state \<Rightarrow> dscope \<Rightarrow> merge_state \<Rightarrow> bool" where
  "merged_into dst srcs st dst' st' \<longleftrightarrow> d_attrs dst' = d_attrs dst \<and> d_extra dst' = d_extra dst \<and> d_items dst' = d_items dst \<and>
     ms_pending st' = [] \<and> set (dict_keys (ms_dus st)) \<subseteq> set (dict_keys (ms_dus st')) \<and>
     (\<forall>kn p ik. count_at (kn # p) ik dst' = merged_count (kn # p) ik srcs)"

definition sound_at :: "(int \<times> pystr) list \<Rightarrow> dscope option list \<Rightarrow> bool" where
  "sound_at dus srcs \<longleftrightarrow> (\<forall>dst st dst' st'. merge_children dst srcs st = Inr (dst', st') \<longrightarrow> ready dus dst srcs st \<longrightarrow>
     merged_into dst srcs st dst' st')"

lemma register_du_state:
  "ms_pending (register_du key c st) = ms_pending st"
  "set (dict_keys (ms_dus (register_du key c st))) = set (dict_keys (ms_dus st)) \<union> (if DU_ANY (fst key) then {key} else {})"
  by (auto simp: register_du_def dict_keys_set simp del: set_map)

lemma FSM_KEYS_types: "k \<in> set FSM_KEYS \<Longrightarrow> fst k \<in> {ST_FSM_STATES, ST_FSM_TRANS}"
  by (auto simp: FSM_KEYS_def)

lemma slots_inv_blank: "blank c \<Longrightarrow> slots_inv c []"
  by (auto simp: slots_inv_def slots_def slot_ok_def blank_def FSM_KEYS_def list_all2_Cons1 split: if_splits)

text \<open>The scope a group is merged into, right after it was created.\<close>

lemma created_child:
  assumes c: "created p src k p1" and key: "scope_key src = fst kn" and inv: "slots_inv p don" and new: "kn \<notin> set (dict_keys don)"
    and fsm: "d_class p = MemFSMScope \<longrightarrow> fst (fst kn) \<in> {ST_FSM_STATES, ST_FSM_TRANS} \<longrightarrow> fst kn \<in> set FSM_KEYS \<and> snd kn = 0"
  shows "k < length (d_children p1) \<and> scope_key (d_children p1 ! k) = fst kn \<and> d_items (d_children p1 ! k) = [] \<and>
    slots_inv (d_children p1 ! k) [] \<and> (d_class (d_children p1 ! k) = MemFSMScope \<longrightarrow> fst (fst kn) = ST_FSM) \<and>
    length (slots (d_class p) (dict_keys don)) = length (d_children p) \<and>
    (if d_class p = MemFSMScope \<and> fst kn \<in> set FSM_KEYS
     then k < length FSM_KEYS \<and> fst kn = FSM_KEYS ! k \<and> length (d_children p1) = length (d_children p) \<and>
       (\<forall>i<length (d_children p). i \<noteq> k \<longrightarrow> d_children p1 ! i = d_children p ! i)
     else k = length (d_children p) \<and> (\<exists>x. d_children p1 = d_children p @ [x]))"
proof -
  have ty: "d_type src = fst (fst kn)" using key by (simp add: scope_key_def prod_eq_iff)
  have len: "length (slots (d_class p) (dict_keys don)) = length (d_children p)"
    using inv unfolding slots_inv_def by (rule list_all2_lengthD)
  show ?thesis
  proof (cases "d_class p = MemFSMScope \<and> fst kn \<in> set FSM_KEYS")
    case True
    then have t: "d_class p = MemFSMScope \<and> d_type src \<in> {ST_FSM_STATES, ST_FSM_TRANS}" using FSM_KEYS_types ty by auto
    have k: "k = (if d_type src = ST_FSM_STATES then 0 else 1)"
      "d_children p1 = (d_children p)[k := d_rename (m_name (d_attrs src)) (d_children p ! k)]"
      using c unfolding created_def if_P[OF t] by simp_all
    have sl: "slots (d_class p) (dict_keys don) = map (\<lambda>k. (k, 0)) FSM_KEYS @ filter (\<lambda>kn. fst kn \<notin> set FSM_KEYS) (dict_keys don)"
      using True by (simp add: slots_def)
    have kk: "k < length FSM_KEYS" "fst kn = FSM_KEYS ! k"
      using True ty k(1) by (auto simp: FSM_KEYS_def type_codes)
    then have kl: "k < length (d_children p)" using len unfolding sl by simp
    have "slots (d_class p) (dict_keys don) ! k = kn"
      using kk True fsm t ty unfolding sl by (auto simp: nth_append prod_eq_iff)
    moreover have "slot_ok don (slots (d_class p) (dict_keys don) ! k) (d_children p ! k)"
      using inv kl len unfolding slots_inv_def by (simp add: list_all2_conv_all_nth)
    moreover have "dict_get don kn = None" using new by (simp add: map_of_eq_None_iff)
    ultimately have s: "scope_key (d_children p ! k) = fst kn" "d_items (d_children p ! k) = []" "d_children (d_children p ! k) = []"
      "d_class (d_children p ! k) = MemScope"
      by (auto simp: slot_ok_def)
    have n: "m_name (d_attrs src) = snd (fst kn)" using key by (simp add: scope_key_def prod_eq_iff)
    have "blank (d_rename (m_name (d_attrs src)) (d_children p ! k))" using s by (simp add: blank_def d_rename_def)
    moreover have "scope_key (d_rename (m_name (d_attrs src)) (d_children p ! k)) = fst kn" using s(1) n by (simp add: d_rename_def scope_key_def prod_eq_iff)
    ultimately have b: "scope_key (d_children p1 ! k) = fst kn \<and> d_items (d_children p1 ! k) = [] \<and> slots_inv (d_children p1 ! k) []"
      using s(2) kl slots_inv_blank unfolding k(2) nth_list_update_eq[OF kl] by (simp add: d_rename_def)
    moreover have "d_class (d_children p1 ! k) \<noteq> MemFSMScope" using s(4) kl unfolding k(2) nth_list_update_eq[OF kl] by (simp add: d_rename_def)
    moreover have "length (d_children p1) = length (d_children p)" "\<forall>i<length (d_children p). i \<noteq> k \<longrightarrow> d_children p1 ! i = d_children p ! i"
      unfolding k(2) by simp_all
    ultimately show ?thesis using kk kl len unfolding if_P[OF True] by presburger
  next
    case False
    then have t: "\<not> (d_class p = MemFSMScope \<and> d_type src \<in> {ST_FSM_STATES, ST_FSM_TRANS})" using fsm ty by auto
    obtain x where x: "k = length (d_children p)" "d_children p1 = d_children p @ [x]" "fresh_for (scope_key src) x"
      using c unfolding created_def if_not_P[OF t] by blast
    then have b: "blank x" "scope_key x = fst kn" "d_class x = MemFSMScope \<longrightarrow> fst (fst kn) = ST_FSM"
      using key by (simp_all add: fresh_for_def)
    then have "d_items x = []" "slots_inv x []" using slots_inv_blank by (simp_all add: blank_def)
    note this b
    then show ?thesis using x(1,2) len unfolding if_not_P[OF False] by simp
  qed
qed

lemma slot_ok_more: "slot_ok don kn' m \<Longrightarrow> kn' \<noteq> kn \<Longrightarrow> slot_ok (don @ [(kn, row)]) kn' m"
  by (auto simp: slot_ok_def map_add_def split: option.splits)

lemma slots_inv_step:
  assumes inv: "slots_inv p don" and new: "kn \<notin> set (dict_keys don)"
    and fsm: "d_class p = MemFSMScope \<longrightarrow> fst (fst kn) \<in> {ST_FSM_STATES, ST_FSM_TRANS} \<longrightarrow> fst kn \<in> set FSM_KEYS \<and> snd kn = 0"
    and k: "if d_class p = MemFSMScope \<and> fst kn \<in> set FSM_KEYS
     then k < length FSM_KEYS \<and> fst kn = FSM_KEYS ! k \<and> length (d_children p1) = length (d_children p) \<and>
       (\<forall>i<length (d_children p). i \<noteq> k \<longrightarrow> d_children p1 ! i = d_children p ! i)
     else k = length (d_children p) \<and> (\<exists>x. d_children p1 = d_children p @ [x])"
    and m: "slot_ok (don @ [(kn, row)]) kn m"
  shows "slots_inv (set_children ((d_children p1)[k := m]) p) (don @ [(kn, row)])"
proof -
  have old: "list_all2 (slot_ok don) (slots (d_class p) (dict_keys don)) (d_children p)" using inv by (simp add: slots_inv_def)
  show ?thesis
  proof (cases "d_class p = MemFSMScope \<and> fst kn \<in> set FSM_KEYS")
    case True
    have kk: "k < length FSM_KEYS" "fst kn = FSM_KEYS ! k" "length (d_children p1) = length (d_children p)"
      "\<forall>i<length (d_children p). i \<noteq> k \<longrightarrow> d_children p1 ! i = d_children p ! i"
      using k unfolding if_P[OF True] by blast+
    let ?s = "slots (d_class p) (dict_keys don)"
    have s: "slots (d_class p) (dict_keys (don @ [(kn, row)])) = ?s"
      "?s = map (\<lambda>k. (k, 0)) FSM_KEYS @ filter (\<lambda>kn. fst kn \<notin> set FSM_KEYS) (dict_keys don)"
      using True by (simp_all add: slots_def)
    have kn0: "snd kn = 0" using fsm True FSM_KEYS_types by blast
    have d: "distinct FSM_KEYS" by (simp add: FSM_KEYS_def type_codes)
    have here: "?s ! k = kn" unfolding s(2) using kk(1,2) kn0 by (simp add: nth_append prod_eq_iff)
    have other: "?s ! i \<noteq> kn" if "i < length ?s" "i \<noteq> k" for i
    proof (cases "i < length FSM_KEYS")
      case True
      then have "FSM_KEYS ! i \<noteq> FSM_KEYS ! k" using that(2) kk(1) d by (simp add: nth_eq_iff_index_eq)
      then show ?thesis using True kk(2) unfolding s(2) by (auto simp: nth_append)
    next
      case False
      then have "?s ! i \<in> set (filter (\<lambda>kn. fst kn \<notin> set FSM_KEYS) (dict_keys don))"
        using that(1) nth_mem[of "i - length FSM_KEYS" "filter (\<lambda>kn. fst kn \<notin> set FSM_KEYS) (dict_keys don)"]
        unfolding s(2) by (simp add: nth_append)
      then show ?thesis using \<open>d_class p = MemFSMScope \<and> fst kn \<in> set FSM_KEYS\<close> by auto
    qed
    show ?thesis unfolding slots_inv_def set_children_sel s(1)
    proof (rule list_all2_all_nthI)
      show "length ?s = length ((d_children p1)[k := m])" using list_all2_lengthD[OF old] kk(3) by simp
      fix i assume i: "i < length ?s"
      then have il: "i < length (d_children p)" using list_all2_lengthD[OF old] by simp
      show "slot_ok (don @ [(kn, row)]) (?s ! i) ((d_children p1)[k := m] ! i)"
      proof (cases "i = k")
        case True
        then show ?thesis using here m il kk(3) by simp
      next
        case False
        then show ?thesis using slot_ok_more[OF list_all2_nthD[OF old i] other[OF i False]] kk(4) il by simp
      qed
    qed
  next
    case False
    obtain x where x: "k = length (d_children p)" "d_children p1 = d_children p @ [x]"
      using k unfolding if_not_P[OF False] by blast
    have s: "slots (d_class p) (dict_keys (don @ [(kn, row)])) = slots (d_class p) (dict_keys don) @ [kn]"
      using False by (auto simp: slots_def)
    have notin: "kn' \<noteq> kn" if "kn' \<in> set (slots (d_class p) (dict_keys don))" for kn'
      using that False new by (auto simp: slots_def split: if_splits)
    have "list_all2 (slot_ok (don @ [(kn, row)])) (slots (d_class p) (dict_keys don)) (d_children p)"
      using old by (rule list.rel_mono_strong) (use slot_ok_more notin in blast)
    then show ?thesis unfolding slots_inv_def set_children_sel s using m by (simp add: x list_all2_appendI)
  qed
qed

lemma merge_step_ok:
  assumes run: "merge_step (p, cps, st) (kn, row) = Inr (p', cps', st')" and sound: "sound_at dus row"
    and row: "somes row \<noteq> []" "\<forall>s\<in>set (somes row). tidy dus s \<and> scope_key s = fst kn"
    and inv: "slots_inv p don" and new: "kn \<notin> set (dict_keys don)"
    and fsm: "d_class p = MemFSMScope \<longrightarrow> fst (fst kn) \<in> {ST_FSM_STATES, ST_FSM_TRANS} \<longrightarrow> fst kn \<in> set FSM_KEYS \<and> snd kn = 0"
    and st: "ms_pending st = []" "set dus \<subseteq> set (dict_keys (ms_dus st))"
  shows "d_attrs p' = d_attrs p \<and> d_extra p' = d_extra p \<and> d_items p' = d_items p \<and> slots_inv p' (don @ [(kn, row)]) \<and>
    ms_pending st' = [] \<and> set (dict_keys (ms_dus st)) \<subseteq> set (dict_keys (ms_dus st')) \<and>
    (DU_ANY (fst (fst kn)) \<longrightarrow> fst kn \<in> set (dict_keys (ms_dus st')))"
proof -
  obtain k p1 st1 d2 st2 d3 st3 where c: "merge_create p (hd (somes row)) cps st = Inr ((k, p1), st1)"
    and i: "merge_items (copy_scope_data (d_children p1 ! k) row) row (register_du (fst kn) (d_children p1 ! k) st1) = (d2, st2)"
    and m: "merge_children d2 row st2 = Inr (d3, st3)"
    and f: "flush_pending (set_children ((d_children p1)[k := d3]) p1) st3 = (p', st')"
    using merge_step_parts[OF run] by blast
  let ?c = "d_children p1 ! k" and ?st = "register_du (fst kn) (d_children p1 ! k) st1"
  have src: "hd (somes row) \<in> set (somes row)" using row(1) by simp
  then have key: "scope_key (hd (somes row)) = fst kn" using row(2) by blast
  have cr: "created p (hd (somes row)) k p1" "ms_pending st1 = []" "ms_dus st1 = ms_dus st"
    using merge_create_ok[OF c _ st] row(2) src by blast+
  note ch = created_child[OF cr(1) key inv new fsm]
  have st1: "ms_pending ?st = []" "set (dict_keys (ms_dus st)) \<subseteq> set (dict_keys (ms_dus ?st))"
    "DU_ANY (fst (fst kn)) \<longrightarrow> fst kn \<in> set (dict_keys (ms_dus ?st))"
    using cr(2,3) by (simp_all add: register_du_state del: set_map)
  have fsm_row: "\<forall>s\<in>set (somes row). fsm_tidy s" if "d_class ?c = MemFSMScope"
  proof
    fix s assume s: "s \<in> set (somes row)"
    then have "d_type s = ST_FSM" using ch that row(2) by (metis scope_key_def fst_conv)
    then show "fsm_tidy s" using tidyD(2) row(2) s by blast
  qed
  have d2: "d_class d2 = d_class ?c \<and> d_children d2 = d_children ?c \<and> scope_key d2 = fst kn \<and>
      ms_pending st2 = ms_pending ?st \<and> ms_dus st2 = ms_dus ?st \<and> (\<forall>ik. count_at [] ik d2 = merged_count [] ik row)"
  proof (cases "d_class ?c = MemFSMScope")
    case True
    then have none: "\<forall>s\<in>set (somes row). d_coverItems CT_ALL s = []" using fsm_row by (simp add: fsm_tidy_def)
    have e: "d2 = copy_scope_data ?c row" "st2 = ?st" using i merge_items_nothing(1)[OF none] by simp_all
    have "pick item_key ik [] = None" for ik by (cases ik) simp
    then have "count_at [] ik d2 = None" for ik using ch by (simp add: e d_coverItems_def del: pick.simps)
    then show ?thesis using ch merge_items_nothing(2)[OF none] by (simp add: e)
  next
    case False
    then have ok: "d_class (copy_scope_data ?c row) \<noteq> MemFSMScope" "d_items (copy_scope_data ?c row) = []" using ch by simp_all
    note mi = merge_items_ok[OF i ok]
    then have "scope_key d2 = scope_key (copy_scope_data ?c row)" by (simp add: scope_key_def)
    then show ?thesis using mi ch by simp
  qed
  have "ready dus d2 row st2"
    unfolding ready_def
  proof (intro conjI ballI impI)
    show "slots_inv d2 []" using ch d2 by (simp add: slots_inv_def)
    show "ms_pending st2 = []" "set dus \<subseteq> set (dict_keys (ms_dus st2))" using d2 st1 st(2) by (auto simp del: set_map)
    show "tidy dus c" if "s \<in> set (somes row)" "c \<in> set (d_scopes ST_ALL s)" for s c using tidyD(4) row(2) that by blast
    show "fsm_tidy s" if "s \<in> set (somes row)" "d_class d2 = MemFSMScope" for s using fsm_row d2 that by simp
  qed
  with sound m have md: "merged_into d2 row st2 d3 st3" unfolding sound_at_def by blast
  have d3: "count_at q ik d3 = merged_count q ik row" for q ik
  proof (cases q)
    case Nil
    have "d_items d3 = d_items d2" using md by (simp only: merged_into_def)
    then have "count_at [] ik d3 = count_at [] ik d2" by (simp add: d_coverItems_def)
    then show ?thesis using d2 Nil by metis
  next
    case (Cons kn' q')
    then show ?thesis using md unfolding merged_into_def by metis
  qed
  have "slot_ok (don @ [(kn, row)]) kn d3"
  proof -
    have "dict_get (don @ [(kn, row)]) kn = Some row" using new by (simp add: map_add_def map_of_eq_None_iff[THEN iffD2])
    moreover have "scope_key d3 = fst kn" using md d2 by (simp add: merged_into_def scope_key_def)
    ultimately show ?thesis using d3 by (simp add: slot_ok_def)
  qed
  from slots_inv_step[OF inv new fsm _ this] ch have si: "slots_inv (set_children ((d_children p1)[k := d3]) p) (don @ [(kn, row)])" by blast
  have e: "p' = set_children ((d_children p1)[k := d3]) p1" "st' = st3" using f flush_nothing[of st3] md by (simp_all add: merged_into_def)
  have "slots_inv p' (don @ [(kn, row)])" using si cr(1) unfolding e slots_inv_def created_def by simp
  then show ?thesis using cr(1) md d2 st1 unfolding e by (auto simp: created_def merged_into_def simp del: set_map)
qed

lemma merge_loop_ok:
  assumes "foldE merge_step (p, cps, st) gs = Inr (p', cps', st')" and "distinct (dict_keys (don @ gs))"
    and "\<forall>(kn, row)\<in>set gs. sound_at dus row \<and> somes row \<noteq> [] \<and> (\<forall>s\<in>set (somes row). tidy dus s \<and> scope_key s = fst kn) \<and>
      (d_class p = MemFSMScope \<longrightarrow> fst (fst kn) \<in> {ST_FSM_STATES, ST_FSM_TRANS} \<longrightarrow> fst kn \<in> set FSM_KEYS \<and> snd kn = 0)"
    and "slots_inv p don" "ms_pending st = []" "set dus \<subseteq> set (dict_keys (ms_dus st))"
  shows "d_attrs p' = d_attrs p \<and> d_extra p' = d_extra p \<and> d_items p' = d_items p \<and> slots_inv p' (don @ gs) \<and>
    ms_pending st' = [] \<and> set (dict_keys (ms_dus st)) \<subseteq> set (dict_keys (ms_dus st')) \<and>
    (\<forall>kn\<in>set (dict_keys gs). DU_ANY (fst (fst kn)) \<longrightarrow> fst kn \<in> set (dict_keys (ms_dus st')))"
  using assms
proof (induction gs arbitrary: p cps st don)
  case (Cons g gs)
  obtain kn row where g: "g = (kn, row)" by (cases g)
  obtain s1 where s1: "merge_step (p, cps, st) (kn, row) = Inr s1" "foldE merge_step s1 gs = Inr (p', cps', st')"
    using Cons.prems(1) unfolding g foldE.simps by (elim bindE_InrE)
  obtain p1 cps1 st1 where s: "s1 = (p1, cps1, st1)" by (cases s1)
  have new: "kn \<notin> set (dict_keys don)" using Cons.prems(2) by (auto simp: g)
  have st: "sound_at dus row" "somes row \<noteq> []" "\<forall>s\<in>set (somes row). tidy dus s \<and> scope_key s = fst kn"
    "d_class p = MemFSMScope \<longrightarrow> fst (fst kn) \<in> {ST_FSM_STATES, ST_FSM_TRANS} \<longrightarrow> fst kn \<in> set FSM_KEYS \<and> snd kn = 0"
    using Cons.prems(3) by (auto simp: g)
  note ok = merge_step_ok[OF s1(1)[unfolded s] st(1-3) Cons.prems(4) new st(4) Cons.prems(5,6)]
  have "distinct (dict_keys ((don @ [(kn, row)]) @ gs))" using Cons.prems(2) by (simp add: g)
  moreover have "d_class p1 = d_class p" using ok by simp
  then have "\<forall>(kn, row)\<in>set gs. sound_at dus row \<and> somes row \<noteq> [] \<and> (\<forall>s\<in>set (somes row). tidy dus s \<and> scope_key s = fst kn) \<and>
      (d_class p1 = MemFSMScope \<longrightarrow> fst (fst kn) \<in> {ST_FSM_STATES, ST_FSM_TRANS} \<longrightarrow> fst kn \<in> set FSM_KEYS \<and> snd kn = 0)"
    using Cons.prems(3) by simp
  moreover have "set dus \<subseteq> set (dict_keys (ms_dus st1))" using ok Cons.prems(6) by blast
  ultimately have "d_attrs p' = d_attrs p1 \<and> d_extra p' = d_extra p1 \<and> d_items p' = d_items p1 \<and> slots_inv p' ((don @ [(kn, row)]) @ gs) \<and>
    ms_pending st' = [] \<and> set (dict_keys (ms_dus st1)) \<subseteq> set (dict_keys (ms_dus st')) \<and>
    (\<forall>kn\<in>set (dict_keys gs). DU_ANY (fst (fst kn)) \<longrightarrow> fst kn \<in> set (dict_keys (ms_dus st')))"
    using Cons.IH[OF s1(2)[unfolded s]] ok by blast
  then show ?case using ok by (auto simp: g simp del: set_map)
qed auto

section \<open>All groups\<close>

lemma group_order: "order_inv (dict_keys (child_groups srcs))" "distinct (dict_keys (child_groups srcs))"
proof -
  let ?gs = "group scope_key (map (\<lambda>p. case p of None \<Rightarrow> [] | Some p \<Rightarrow> d_scopes ST_ALL p) srcs)"
  let ?D = "\<lambda>kn :: (int \<times> pystr) \<times> nat. DU_ANY (fst (fst kn))"
  have k: "dict_keys (child_groups srcs) = filter ?D (dict_keys ?gs) @ filter (\<lambda>kn. \<not> ?D kn) (dict_keys ?gs)"
    by (simp add: child_groups_def filter_map comp_def split_def)
  have "map snd (filter (\<lambda>kn. fst kn = key) (dict_keys (child_groups srcs))) = map snd (filter (\<lambda>kn. fst kn = key) (dict_keys ?gs))" for key
  proof -
    have "filter (\<lambda>kn. fst kn = key) (filter ?D xs) = (if DU_ANY (fst key) then filter (\<lambda>kn. fst kn = key) xs else [])"
      "filter (\<lambda>kn. fst kn = key) (filter (\<lambda>kn. \<not> ?D kn) xs) = (if DU_ANY (fst key) then [] else filter (\<lambda>kn. fst kn = key) xs)"
      for xs by (induction xs) auto
    then have "filter (\<lambda>kn. fst kn = key) (filter ?D xs @ filter (\<lambda>kn. \<not> ?D kn) xs) = filter (\<lambda>kn. fst kn = key) xs" for xs
      by simp
    then show ?thesis unfolding k by simp
  qed
  then show "order_inv (dict_keys (child_groups srcs))" using group_spec(2) unfolding order_inv_def by metis
  show "distinct (dict_keys (child_groups srcs))" unfolding k using distinct_filter[OF group_spec(1)] by (auto simp del: set_map)
qed

lemma slots_order:
  assumes "order_inv kns" "distinct kns"
    and "cls = MemFSMScope \<longrightarrow> (\<forall>kn\<in>set kns. fst kn \<in> set FSM_KEYS \<longrightarrow> snd kn = 0)"
  shows "order_inv (slots cls kns)" "distinct (slots cls kns)"
proof -
  have d: "distinct FSM_KEYS" by (simp add: FSM_KEYS_def type_codes)
  have "\<exists>m. map snd (filter (\<lambda>kn. fst kn = k) (slots cls kns)) = [0..<m]" for k
  proof (cases "cls = MemFSMScope")
    case True
    show ?thesis
    proof (cases "k \<in> set FSM_KEYS")
      case k: True
      have "filter (\<lambda>kn. fst kn = k) (filter (\<lambda>kn. fst kn \<notin> set FSM_KEYS) kns) = []" using k by (auto simp: filter_empty_conv)
      moreover have "filter (\<lambda>kn. fst kn = k) (map (\<lambda>k. (k, 0::nat)) FSM_KEYS) = [(k, 0)]" using k by (auto simp: FSM_KEYS_def type_codes)
      ultimately have "map snd (filter (\<lambda>kn. fst kn = k) (slots cls kns)) = [0..<1]" using True by (simp add: slots_def)
      then show ?thesis by blast
    next
      case k: False
      have "filter (\<lambda>kn. fst kn = k) (filter (\<lambda>kn. fst kn \<notin> set FSM_KEYS) kns) = filter (\<lambda>kn. fst kn = k) kns"
        using k by (auto simp: filter_filter intro: filter_cong)
      moreover have "filter (\<lambda>kn. fst kn = k) (map (\<lambda>k. (k, 0::nat)) FSM_KEYS) = []" using k by (auto simp: filter_empty_conv)
      ultimately have "filter (\<lambda>kn. fst kn = k) (slots cls kns) = filter (\<lambda>kn. fst kn = k) kns" using True by (simp add: slots_def)
      then show ?thesis using assms(1) unfolding order_inv_def by metis
    qed
  next
    case False
    then have "slots cls kns = kns" by (simp add: slots_def)
    then show ?thesis using assms(1) unfolding order_inv_def by metis
  qed
  then show "order_inv (slots cls kns)" by (simp add: order_inv_def)
  show "distinct (slots cls kns)" using assms(2) d by (auto simp: slots_def distinct_map inj_on_def)
qed

lemma count_blank: "d_items m = [] \<Longrightarrow> d_children m = [] \<Longrightarrow> count_at p ik m = None"
  by (cases p) (simp_all add: d_coverItems_def d_scopes_def pick_Nil del: pick.simps)

lemma final_counts:
  assumes inv: "slots_inv p (child_groups srcs)"
    and tidy: "\<forall>s\<in>set (somes srcs). \<forall>c\<in>set (d_scopes ST_ALL s). tidy dus c"
    and fsm: "d_class p = MemFSMScope \<longrightarrow> (\<forall>kn\<in>set (dict_keys (child_groups srcs)). fst kn \<in> set FSM_KEYS \<longrightarrow> snd kn = 0)"
  shows "count_at (kn # q) ik p = merged_count (kn # q) ik srcs"
proof -
  let ?gs = "child_groups srcs" and ?s = "slots (d_class p) (dict_keys (child_groups srcs))"
  have l: "list_all2 (slot_ok ?gs) ?s (d_children p)" using inv by (simp add: slots_inv_def)
  then have keys: "list_all2 (\<lambda>kn m. scope_key m = fst kn) ?s (d_children p)" by (rule list_all2_mono) (simp add: slot_ok_def)
  note so = slots_order[OF group_order fsm]
  have row: "dict_get ?gs kn = Some row \<longleftrightarrow> (kn, row) \<in> set ?gs" for kn row using group_order(2)[of srcs] by simp
  have "one_bit (fst (fst kn))" if "kn \<in> set ?s" for kn
  proof (cases "kn \<in> set (dict_keys ?gs)")
    case True
    then obtain row where "(kn, row) \<in> set ?gs" by auto
    then have "\<not> none_row row" "row = map (o_pick kn) srcs" using child_groups_rows by blast+
    then obtain s c where "s \<in> set srcs" "o_pick kn s = Some c" by (auto simp: none_row_def)
    from o_pick_Some[OF this(2)] this(1) obtain s' where "s' \<in> set (somes srcs)" "c \<in> set (d_scopes ST_ALL s')" "scope_key c = fst kn"
      by (auto simp: somes_in)
    then show ?thesis using tidy tidyD(1) by (metis scope_key_def fst_conv)
  next
    case False
    then have "fst kn \<in> set FSM_KEYS" using that by (auto simp: slots_def split: if_splits)
    then have "fst (fst kn) = 2 ^ 29 \<or> fst (fst kn) = 2 ^ 30" by (auto simp: FSM_KEYS_def type_codes)
    moreover have "29 \<in> {0..<48::nat}" "30 \<in> {0..<48::nat}" by simp_all
    ultimately show ?thesis unfolding one_bit_def set_map set_upt by blast
  qed
  then have vis: "d_scopes ST_ALL p = d_children p"
    unfolding d_scopes_def
  proof (intro filter_True ballI)
    fix c assume "c \<in> set (d_children p)"
    from list_all2_source[OF keys this] obtain kn where "kn \<in> set ?s" "scope_key c = fst kn" by blast
    moreover from this \<open>\<And>kn. kn \<in> set ?s \<Longrightarrow> one_bit (fst (fst kn))\<close> have "one_bit (fst (fst kn))" by blast
    ultimately show "d_type c AND ST_ALL \<noteq> 0" using one_bit_visible by (simp add: scope_key_def prod_eq_iff)
  qed
  have c: "count_at (kn # q) ik p = (if kn \<in> set ?s then count_at q ik (the (dict_get (zip ?s (d_children p)) kn)) else None)"
  proof (cases "kn \<in> set ?s")
    case True
    then obtain m where "dict_get (zip ?s (d_children p)) kn = Some m"
      using list_all2_lengthD[OF l] by (metis map_of_zip_is_Some)
    then show ?thesis using True unfolding count_at.simps vis pick_slots[OF keys so] by simp
  next
    case False
    then show ?thesis unfolding count_at.simps vis pick_slots[OF keys so] by simp
  qed
  show ?thesis
  proof (cases "kn \<in> set ?s")
    case True
    then obtain i where i: "i < length ?s" "?s ! i = kn" by (auto simp: in_set_conv_nth)
    then have z: "dict_get (zip ?s (d_children p)) kn = Some (d_children p ! i)"
      using so(2) list_all2_lengthD[OF l] by (metis map_of_zip_nth)
    have ok: "slot_ok ?gs kn (d_children p ! i)" using list_all2_nthD[OF l i(1)] i(2) by simp
    show ?thesis
    proof (cases "dict_get ?gs kn")
      case None
      then have "none_row (map (o_pick kn) srcs)"
        using group_keys[of kn scope_key "map (\<lambda>p. case p of None \<Rightarrow> [] | Some p \<Rightarrow> d_scopes ST_ALL p) srcs"]
        unfolding o_pick_picks map_of_eq_None_iff set_map child_groups_set by simp
      then have "merged_count (kn # q) ik srcs = None" unfolding merged_count_step by (rule merged_count_none)
      moreover have "count_at q ik (d_children p ! i) = None" using ok None by (intro count_blank) (simp_all add: slot_ok_def)
      ultimately show ?thesis unfolding c using True by (simp add: z)
    next
      case (Some row)
      then have "row = map (o_pick kn) srcs" using row child_groups_rows by blast
      moreover have "\<forall>q ik. count_at q ik (d_children p ! i) = merged_count q ik row"
        using ok by (simp only: slot_ok_def Some option.case simp_thms)
      ultimately have "count_at q ik (d_children p ! i) = merged_count (kn # q) ik srcs"
        unfolding merged_count_step by blast
      then show ?thesis unfolding c using True by (simp add: z)
    qed
  next
    case False
    have "kn \<in> set ?s" if kn: "kn \<in> set (dict_keys ?gs)"
    proof (cases "d_class p = MemFSMScope \<and> fst kn \<in> set FSM_KEYS")
      case True
      then have "kn = (fst kn, 0)" using fsm kn by (simp add: prod_eq_iff del: set_map)
      then have "kn \<in> set (map (\<lambda>k. (k, 0)) FSM_KEYS)" using True by auto
      then show ?thesis using True by (simp add: slots_def)
    next
      case False
      then show ?thesis using kn by (simp add: slots_def del: set_map)
    qed
    with False have "kn \<notin> set (dict_keys ?gs)" by blast
    then have "none_row (map (o_pick kn) srcs)"
      using group_keys[of kn scope_key "map (\<lambda>p. case p of None \<Rightarrow> [] | Some p \<Rightarrow> d_scopes ST_ALL p) srcs"]
      unfolding o_pick_picks set_map child_groups_set by simp
    then have "merged_count (kn # q) ik srcs = None" unfolding merged_count_step by (rule merged_count_none)
    then show ?thesis unfolding c using False by simp
  qed
qed

text \<open>An FSM in the sources has each of its two sub-scopes at most once, so their groups have number 0.\<close>

lemma fsm_group_keys:
  assumes tidy: "\<forall>s\<in>set (somes srcs). fsm_tidy s" and kn: "kn \<in> set (dict_keys (child_groups srcs))"
  shows "fst (fst kn) \<in> {ST_FSM_STATES, ST_FSM_TRANS} \<Longrightarrow> fst kn \<in> set FSM_KEYS"
    "fst kn \<in> set FSM_KEYS \<Longrightarrow> snd kn = 0"
proof -
  obtain row where "(kn, row) \<in> set (child_groups srcs)" using kn by auto
  then have "\<not> none_row row" "row = map (o_pick kn) srcs" using child_groups_rows by blast+
  then obtain s c where s: "s \<in> set srcs" "o_pick kn s = Some c" by (auto simp: none_row_def)
  from o_pick_Some[OF s(2)] obtain s' where s': "s = Some s'" "c \<in> set (d_scopes ST_ALL s')" "scope_key c = fst kn" by blast
  have t: "fsm_tidy s'" using tidy s(1) s'(1) by (simp add: somes_in)
  show "fst (fst kn) \<in> {ST_FSM_STATES, ST_FSM_TRANS} \<Longrightarrow> fst kn \<in> set FSM_KEYS"
    using t s' by (auto simp: fsm_tidy_def)
  assume k: "fst kn \<in> set FSM_KEYS"
  have "pick scope_key (fst kn, snd kn) (d_scopes ST_ALL s') \<noteq> None" using s(2) s'(1) by (simp add: o_pick_def del: pick.simps)
  then have "snd kn < occurrences scope_key (fst kn) (d_scopes ST_ALL s')" using pick_None not_le by metis
  moreover have "occurrences scope_key (fst kn) (d_scopes ST_ALL s') \<le> 1" using t k by (simp add: fsm_tidy_def)
  ultimately show "snd kn = 0" by simp
qed

lemma group_member:
  assumes "(kn, row) \<in> set (child_groups srcs)" "s \<in> set (somes row)"
  shows "\<exists>p\<in>set (somes srcs). s \<in> set (d_scopes ST_ALL p) \<and> scope_key s = fst kn"
proof -
  have "Some s \<in> set (map (o_pick kn) srcs)" using assms child_groups_rows by (metis somes_in)
  then obtain p where p: "p \<in> set srcs" "o_pick kn p = Some s" by auto
  from o_pick_Some[OF p(2)] p(1) show ?thesis by (auto simp: somes_in)
qed

lemma merge_children_ok: "sound_at dus srcs"
proof (induction "d_size srcs" arbitrary: srcs rule: less_induct)
  case less
  show ?case
    unfolding sound_at_def
  proof (intro allI impI)
    fix dst st dst' st'
    assume run: "merge_children dst srcs st = Inr (dst', st')" and ready: "ready dus dst srcs st"
    obtain cps where f: "foldE merge_step (dst, [], st) (child_groups srcs) = Inr (dst', cps, st')"
      using run unfolding merge_children_eq by (elim bindE_InrE) auto
    have fsm: "d_class dst = MemFSMScope \<Longrightarrow> \<forall>s\<in>set (somes srcs). fsm_tidy s" and tidy: "\<forall>s\<in>set (somes srcs). \<forall>c\<in>set (d_scopes ST_ALL s). tidy dus c"
      using ready by (auto simp: ready_def)
    have gs: "\<forall>(kn, row)\<in>set (child_groups srcs). sound_at dus row \<and> somes row \<noteq> [] \<and> (\<forall>s\<in>set (somes row). tidy dus s \<and> scope_key s = fst kn) \<and>
      (d_class dst = MemFSMScope \<longrightarrow> fst (fst kn) \<in> {ST_FSM_STATES, ST_FSM_TRANS} \<longrightarrow> fst kn \<in> set FSM_KEYS \<and> snd kn = 0)"
    proof (intro ballI)
      fix g assume g: "g \<in> set (child_groups srcs)"
      obtain kn row where e: "g = (kn, row)" by (cases g)
      note g = g[unfolded e]
      have "sound_at dus row" using less row_size[OF g] by blast
      moreover have "somes row \<noteq> []" using child_groups_rows[OF g] somes_none by blast
      moreover have "\<forall>s\<in>set (somes row). tidy dus s \<and> scope_key s = fst kn" using group_member[OF g] tidy by blast
      moreover have "kn \<in> set (dict_keys (child_groups srcs))" using g by force
      then have "d_class dst = MemFSMScope \<longrightarrow> fst (fst kn) \<in> {ST_FSM_STATES, ST_FSM_TRANS} \<longrightarrow> fst kn \<in> set FSM_KEYS \<and> snd kn = 0"
        using fsm_group_keys[OF fsm] by blast
      ultimately show "case g of (kn, row) \<Rightarrow> sound_at dus row \<and> somes row \<noteq> [] \<and> (\<forall>s\<in>set (somes row). tidy dus s \<and> scope_key s = fst kn) \<and>
        (d_class dst = MemFSMScope \<longrightarrow> fst (fst kn) \<in> {ST_FSM_STATES, ST_FSM_TRANS} \<longrightarrow> fst kn \<in> set FSM_KEYS \<and> snd kn = 0)"
        unfolding e prod.case by blast
    qed
    have d: "distinct (dict_keys ([] @ child_groups srcs))" using group_order(2) by simp
    have r: "slots_inv dst []" "ms_pending st = []" "set dus \<subseteq> set (dict_keys (ms_dus st))" using ready unfolding ready_def by blast+
    have l: "d_attrs dst' = d_attrs dst \<and> d_extra dst' = d_extra dst \<and> d_items dst' = d_items dst \<and> slots_inv dst' (child_groups srcs) \<and>
      ms_pending st' = [] \<and> set (dict_keys (ms_dus st)) \<subseteq> set (dict_keys (ms_dus st'))"
      using merge_loop_ok[OF f d gs r] unfolding append_Nil by blast
    have "d_class dst' = MemFSMScope \<longrightarrow> (\<forall>kn\<in>set (dict_keys (child_groups srcs)). fst kn \<in> set FSM_KEYS \<longrightarrow> snd kn = 0)"
      using l fsm fsm_group_keys(2)[of srcs] by metis
    from final_counts[OF _ tidy this] l show "merged_into dst srcs st dst' st'" unfolding merged_into_def by blast
  qed
qed

section \<open>The whole database\<close>

definition du_keys :: "dscope list \<Rightarrow> (int \<times> pystr) list" where
  "du_keys dbs = map scope_key (filter (\<lambda>c. DU_ANY (d_type c)) (concat (map (d_scopes ST_ALL) dbs)))"

text \<open>The instances of the sources are linked to design units that some source has at its top level.\<close>

definition tidy_dbs :: "dscope list \<Rightarrow> bool" where
  "tidy_dbs dbs \<longleftrightarrow> (\<forall>db\<in>set dbs. \<forall>c\<in>set (d_scopes ST_ALL db). tidy (if DU_ANY (d_type c) then [] else du_keys dbs) c)"

lemma tidy_mono: "tidy [] c \<Longrightarrow> tidy dus c"
  by (induction c) (auto simp: linked_to_def split: option.splits)

lemma somes_Some [simp]: "somes (map Some xs) = xs"
  by (induction xs) simp_all

lemma child_groups_split:
  "child_groups srcs = filter (\<lambda>g. DU_ANY (fst (fst (fst g)))) (child_groups srcs) @ filter (\<lambda>g. \<not> DU_ANY (fst (fst (fst g)))) (child_groups srcs)"
  by (simp add: child_groups_def filter_filter split_def conj_commute)

lemma du_keys_grouped:
  assumes "key \<in> set (du_keys dbs)"
  shows "(key, 0) \<in> set (dict_keys (child_groups (map Some dbs))) \<and> DU_ANY (fst key)"
proof -
  obtain db c where c: "db \<in> set dbs" "c \<in> set (d_scopes ST_ALL db)" "DU_ANY (d_type c)" "key = scope_key c"
    using assms by (auto simp: du_keys_def)
  then have "c \<in> set (filter (\<lambda>x. scope_key x = key) (d_scopes ST_ALL db))" by simp
  then have "\<not> occurrences scope_key key (d_scopes ST_ALL db) \<le> 0"
    unfolding occurrences_def by (metis le_zero_eq length_0_conv empty_iff list.set(1))
  then have "pick scope_key (key, 0) (d_scopes ST_ALL db) \<noteq> None" using pick_None by metis
  then have "o_pick (key, 0) (Some db) \<noteq> None" by (simp add: o_pick_def del: pick.simps)
  then have "\<not> none_row (map (o_pick (key, 0)) (map Some dbs))" using c(1) by (auto simp: none_row_def simp del: not_None_eq)
  then have "(key, 0) \<in> set (dict_keys (child_groups (map Some dbs)))"
    using group_keys[of "(key, 0)" scope_key "map (\<lambda>p. case p of None \<Rightarrow> [] | Some p \<Rightarrow> d_scopes ST_ALL p) (map Some dbs)"]
    unfolding o_pick_picks set_map[of fst] child_groups_set by blast
  then show ?thesis using c by (simp add: scope_key_def)
qed

lemma merge_phase_ok:
  assumes "foldE merge_step (p, cps, st) gs = Inr (p', cps', st')" "distinct (dict_keys (don @ gs))"
    and "set gs \<subseteq> set (child_groups srcs)" "\<forall>(kn, row)\<in>set gs. \<forall>s\<in>set (somes row). tidy dus s"
    and "d_class p = MemUCIS" "slots_inv p don" "ms_pending st = []" "set dus \<subseteq> set (dict_keys (ms_dus st))"
  shows "d_extra p' = d_extra p \<and> slots_inv p' (don @ gs) \<and> ms_pending st' = [] \<and>
    (\<forall>kn\<in>set (dict_keys gs). DU_ANY (fst (fst kn)) \<longrightarrow> fst kn \<in> set (dict_keys (ms_dus st')))"
proof -
  have "\<forall>(kn, row)\<in>set gs. sound_at dus row \<and> somes row \<noteq> [] \<and> (\<forall>s\<in>set (somes row). tidy dus s \<and> scope_key s = fst kn) \<and>
      (d_class p = MemFSMScope \<longrightarrow> fst (fst kn) \<in> {ST_FSM_STATES, ST_FSM_TRANS} \<longrightarrow> fst kn \<in> set FSM_KEYS \<and> snd kn = 0)"
  proof (intro ballI)
    fix g assume g: "g \<in> set gs"
    obtain kn row where e: "g = (kn, row)" by (cases g)
    have m: "(kn, row) \<in> set (child_groups srcs)" using g assms(3) e by blast
    have "somes row \<noteq> []" using child_groups_rows[OF m] somes_none by blast
    moreover have "\<forall>s\<in>set (somes row). scope_key s = fst kn" using group_member[OF m] by blast
    moreover have "\<forall>s\<in>set (somes row). tidy dus s" using assms(4) g e by blast
    ultimately show "case g of (kn, row) \<Rightarrow> sound_at dus row \<and> somes row \<noteq> [] \<and> (\<forall>s\<in>set (somes row). tidy dus s \<and> scope_key s = fst kn) \<and>
      (d_class p = MemFSMScope \<longrightarrow> fst (fst kn) \<in> {ST_FSM_STATES, ST_FSM_TRANS} \<longrightarrow> fst kn \<in> set FSM_KEYS \<and> snd kn = 0)"
      unfolding e prod.case using merge_children_ok assms(5) by simp
  qed
  from merge_loop_ok[OF assms(1,2) this assms(6-8)] show ?thesis by blast
qed

lemma db_merge_counts:
  assumes run: "db_merge_scopes new_db dbs = Inr dst" and tidy: "tidy_dbs dbs"
  shows "count_at (kn # p) ik dst = merged_count (kn # p) ik (map Some dbs)"
proof -
  let ?srcs = "map Some dbs" and ?st = "\<lparr>ms_dus = [], ms_pending = [], ms_files = []\<rparr>"
  let ?D = "filter (\<lambda>g. DU_ANY (fst (fst (fst g)))) (child_groups ?srcs)" and ?R = "filter (\<lambda>g. \<not> DU_ANY (fst (fst (fst g)))) (child_groups ?srcs)"
  note s = child_groups_split[of ?srcs]
  have d: "distinct (dict_keys (?D @ ?R))" using group_order(2)[of ?srcs] s by metis
  obtain cps st where f: "foldE merge_step (new_db, [], ?st) (?D @ ?R) = Inr (dst, cps, st)"
    using run unfolding db_merge_scopes_def merge_children_eq s[symmetric] by (elim bindE_InrE) auto
  obtain s1 where f1: "foldE merge_step (new_db, [], ?st) ?D = Inr s1" and f2: "foldE merge_step s1 ?R = Inr (dst, cps, st)"
    using f unfolding foldE_append by (elim bindE_InrE)
  obtain p1 cps1 st1 where s1: "s1 = (p1, cps1, st1)" by (cases s1)
  have mem: "\<exists>db\<in>set dbs. s \<in> set (d_scopes ST_ALL db) \<and> d_type s = fst (fst kn)"
    if "(kn, row) \<in> set (child_groups ?srcs)" "s \<in> set (somes row)" for kn row s
    using group_member[OF that] unfolding somes_Some scope_key_def by (metis fst_conv)
  have new: "d_class new_db = MemUCIS" "slots_inv new_db []"
    by (simp_all add: new_db_def new_d_sel slots_inv_def slots_def)
  have "\<forall>(kn, row)\<in>set ?D. \<forall>s\<in>set (somes row). tidy [] s"
    using mem tidy unfolding tidy_dbs_def by fastforce
  from merge_phase_ok[OF f1[unfolded s1] _ _ this new] d
  have p1: "d_extra p1 = d_extra new_db" "slots_inv p1 ?D" "ms_pending st1 = []"
    "\<forall>kn\<in>set (dict_keys ?D). DU_ANY (fst (fst kn)) \<longrightarrow> fst kn \<in> set (dict_keys (ms_dus st1))"
    by (auto simp del: set_map)
  have "set (du_keys dbs) \<subseteq> set (dict_keys (ms_dus st1))"
  proof
    fix key assume "key \<in> set (du_keys dbs)"
    from du_keys_grouped[OF this] have k: "(key, 0) \<in> set (dict_keys (child_groups ?srcs))" "DU_ANY (fst key)" by blast+
    then have "(key, 0) \<in> set (dict_keys ?D)" by force
    then show "key \<in> set (dict_keys (ms_dus st1))" using p1(4) k(2) by fastforce
  qed
  moreover have "\<forall>(kn, row)\<in>set ?R. \<forall>s\<in>set (somes row). tidy (du_keys dbs) s"
    using mem tidy unfolding tidy_dbs_def by fastforce
  moreover have "d_class p1 = MemUCIS" using p1(1) new(1) by simp
  ultimately have "d_extra dst = d_extra p1 \<and> slots_inv dst (?D @ ?R)"
    using merge_phase_ok[OF f2[unfolded s1] d, of ?srcs "du_keys dbs"] p1(2,3) by auto
  then have "slots_inv dst (child_groups ?srcs)" "d_class dst = MemUCIS" using p1(1) new(1) s by simp_all
  moreover have "\<forall>s\<in>set (somes ?srcs). \<forall>c\<in>set (d_scopes ST_ALL s). tidy (du_keys dbs) c"
    using tidy tidy_mono unfolding tidy_dbs_def somes_Some by metis
  ultimately show ?thesis by (intro final_counts) simp_all
qed

end
