(* ===== verification/DbMergeTotal.thy ===== *)
theory DbMergeTotal
  imports DbMergeHits "HOL-Library.Multiset"
begin

text \<open>
  When the structural merge returns: every scope of the sources has the class its type asks for, cover
  instances and crosses are below covergroups, and a cross comes after the coverpoints it names. Then no
  branch that raises is reached, and the merged counts are the promised sums.
\<close>

section \<open>Sources that can be merged\<close>

fun points_ok :: "pystr list \<Rightarrow> dscope list \<Rightarrow> bool" where
  "points_ok seen [] \<longleftrightarrow> True"
| "points_ok seen (c # cs) \<longleftrightarrow>
     (d_type c = ST_CROSS \<longrightarrow> list_all (\<lambda>cp. case cp of None \<Rightarrow> False | Some n \<Rightarrow> n \<in> set seen) (sx_points (d_extra c))) \<and>
     points_ok (if d_type c = ST_COVERPOINT then m_name (d_attrs c) # seen else seen) cs"

definition is_group :: "int \<Rightarrow> bool" where
  "is_group t \<longleftrightarrow> t \<in> {ST_COVERGROUP, ST_COVERINSTANCE}"

fun fits :: "bool \<Rightarrow> dscope \<Rightarrow> bool" where
  "fits cg (DScope a x is cs) \<longleftrightarrow>
     (m_type a = ST_INSTANCE \<longrightarrow> sx_class x \<in> {MemInstanceScope, MemToggleInstanceScope}) \<and>
     (m_type a = ST_CROSS \<longrightarrow> cg \<and> sx_class x = MemCross) \<and> (m_type a = ST_COVERINSTANCE \<longrightarrow> cg) \<and>
     points_ok [] (d_scopes ST_ALL (DScope a x is cs)) \<and> (\<forall>c\<in>set cs. fits (is_group (m_type a)) c)"

definition children_fit :: "bool \<Rightarrow> dscope \<Rightarrow> bool" where
  "children_fit cg s \<longleftrightarrow> points_ok [] (d_scopes ST_ALL s) \<and> (\<forall>c\<in>set (d_scopes ST_ALL s). fits cg c)"

lemma fitsD:
  assumes "fits cg s"
  shows "d_type s = ST_INSTANCE \<Longrightarrow> d_class s \<in> {MemInstanceScope, MemToggleInstanceScope}"
    "d_type s = ST_CROSS \<Longrightarrow> cg \<and> d_class s = MemCross" "d_type s = ST_COVERINSTANCE \<Longrightarrow> cg"
    "children_fit (is_group (d_type s)) s"
  using assms by (cases s; auto simp: children_fit_def d_scopes_def)+

lemma points_ok_cross:
  assumes "points_ok seen (ys @ c # zs)" "d_type c = ST_CROSS" "cp \<in> set (sx_points (d_extra c))"
  shows "\<exists>n. cp = Some n \<and> (n \<in> set seen \<or> (\<exists>y\<in>set ys. scope_key y = (ST_COVERPOINT, n)))"
  using assms
proof (induction ys arbitrary: seen)
  case Nil
  then show ?case by (cases cp) (auto simp: list_all_iff)
next
  case (Cons y ys)
  then have "points_ok (if d_type y = ST_COVERPOINT then m_name (d_attrs y) # seen else seen) (ys @ c # zs)" by simp
  from Cons.IH[OF this Cons.prems(2,3)] show ?case by (auto simp: scope_key_def split: if_splits)
qed

section \<open>The groups before a group\<close>

lemma somes_first: "somes row \<noteq> [] \<Longrightarrow> \<exists>A B. row = A @ Some (hd (somes row)) # B \<and> none_row A"
proof (induction row)
  case (Cons x row)
  show ?case
  proof (cases x)
    case None
    with Cons obtain A B where "row = A @ Some (hd (somes row)) # B" "none_row A" by auto
    then show ?thesis using None by (intro exI[of _ "None # A"] exI[of _ B]) (simp add: none_row_def)
  next
    case (Some y)
    then show ?thesis by (intro exI[of _ "[]"] exI[of _ row]) (simp add: none_row_def)
  qed
qed simp

lemma keys_before:
  assumes "filter P K @ filter (\<lambda>k. \<not> P k) K = d @ k # e" "distinct K" "\<not> P k"
  shows "\<exists>pre post. K = pre @ k # post \<and> set (filter (\<lambda>k. \<not> P k) pre) \<subseteq> set d"
proof -
  have "k \<in> set (filter P K @ filter (\<lambda>k. \<not> P k) K)" unfolding assms(1) by simp
  then have "k \<in> set K" by auto
  then obtain pre post where K: "K = pre @ k # post" by (meson split_list)
  have e: "(filter P K @ filter (\<lambda>k. \<not> P k) pre) @ k # filter (\<lambda>k. \<not> P k) post = d @ k # e"
    using assms(1,3) K by simp
  have "k \<notin> set (filter P K @ filter (\<lambda>k. \<not> P k) pre)" "k \<notin> set (filter (\<lambda>k. \<not> P k) post)" using assms(2,3) K by auto
  from conjunct1[OF append_Cons_eq_iff[OF this, THEN iffD1, OF e]] have "filter P K @ filter (\<lambda>k. \<not> P k) pre = d" .
  then have "set (filter (\<lambda>k. \<not> P k) pre) \<subseteq> set d" by auto
  with K show ?thesis by blast
qed

lemma map_split_first: "map f xs = A @ y # B \<Longrightarrow> \<exists>us u vs. xs = us @ u # vs \<and> map f us = A \<and> f u = y"
  by (auto simp: map_eq_append_conv map_eq_Cons_conv)

lemma child_groups_earlier:
  assumes gs: "child_groups srcs = don @ (kn, row) # gs" and kn: "\<not> DU_ANY (fst (fst kn))"
  shows "\<exists>p\<in>set (somes srcs). \<exists>ys zs. d_scopes ST_ALL p = ys @ hd (somes row) # zs \<and>
    (\<forall>y\<in>set ys. \<not> DU_ANY (d_type y) \<longrightarrow> scope_key y \<in> fst ` set (dict_keys don))"
proof -
  let ?items = "map (\<lambda>p. case p of None \<Rightarrow> [] | Some p \<Rightarrow> d_scopes ST_ALL p) srcs"
  let ?D = "\<lambda>kn :: (int \<times> pystr) \<times> nat. DU_ANY (fst (fst kn))" and ?K = "dict_keys (group scope_key ?items)"
  have "filter ?D ?K @ filter (\<lambda>kn. \<not> ?D kn) ?K = dict_keys don @ kn # dict_keys gs"
    using arg_cong[OF gs, of "map fst"] by (simp add: child_groups_def filter_map comp_def split_def)
  from keys_before[OF this group_spec(1) kn] obtain pre post where
    K: "?K = pre @ kn # post" "set (filter (\<lambda>kn. \<not> ?D kn) pre) \<subseteq> set (dict_keys don)" by blast
  have "(kn, row) \<in> set (child_groups srcs)" using gs by simp
  from child_groups_rows[OF this] have row: "row = picks scope_key ?items kn" "somes row \<noteq> []"
    unfolding o_pick_picks somes_none by blast+
  from somes_first[OF row(2)] obtain A B where AB: "map (pick scope_key kn) ?items = A @ Some (hd (somes row)) # B" "none_row A"
    unfolding row(1) picks_def by blast
  from AB(1) obtain IA xs IB where it: "?items = IA @ xs # IB" "map (pick scope_key kn) IA = A" "pick scope_key kn xs = Some (hd (somes row))"
    using map_split_first[OF AB(1)] by blast
  have "\<forall>ys\<in>set IA. pick scope_key kn ys = None" using AB(2) it(2) by (auto simp: none_row_def simp del: pick.simps)
  from group_earlier[OF K(1) it(1) this it(3)] obtain ys zs where
    xs: "xs = ys @ hd (somes row) # zs" "scope_key ` set ys \<subseteq> fst ` set pre" by blast
  have "xs \<in> set ?items" using it(1) by simp
  then obtain p where p: "Some p \<in> set srcs" "xs = d_scopes ST_ALL p" using xs(1) by (auto split: option.splits)
  have "scope_key y \<in> fst ` set (dict_keys don)" if y: "y \<in> set ys" "\<not> DU_ANY (d_type y)" for y
  proof -
    have "scope_key y \<in> fst ` set pre" using xs(2) y(1) by blast
    then obtain q where q: "q \<in> set pre" "scope_key y = fst q" by blast
    then have "\<not> ?D q" using y(2) by (simp add: scope_key_def prod_eq_iff)
    with q(1) have "q \<in> set (filter (\<lambda>kn. \<not> ?D kn) pre)" by simp
    with K(2) q(2) show ?thesis by blast
  qed
  moreover have "d_scopes ST_ALL p = ys @ hd (somes row) # zs" "p \<in> set (somes srcs)" using p xs(1) by (simp_all add: somes_in)
  ultimately show ?thesis by blast
qed

section \<open>One step returns\<close>

lemma flush_extra: "d_extra (fst (flush_pending p st)) = d_extra p"
  by (simp add: flush_pending_def)

lemma add_child_extra: "add_child c p = (k, p1) \<Longrightarrow> d_extra p1 = d_extra p \<and> d_children p1 ! k = c"
  by (auto simp: add_child_def)

lemma createScope_extra:
  assumes "d_createScope p name si w so ty fl = (k, p1)"
  shows "d_extra p1 = d_extra p \<and> (d_class p = MemCovergroup \<longrightarrow> ty = ST_COVERINSTANCE \<longrightarrow> d_class (d_children p1 ! k) = MemCovergroup)"
proof -
  have "\<not> DU_ANY ST_COVERINSTANCE" "ST_COVERINSTANCE \<noteq> ST_COVERGROUP" by (simp_all add: type_codes DU_ANY_def)
  then show ?thesis using assms
    by (auto simp: d_createScope_def add_child_def d_mem_createScope_def new_d_sel split: if_splits)
qed

lemma mapE_points:
  assumes "\<forall>cp\<in>set cps. \<exists>n. cp = Some n \<and> n \<in> set seen"
  shows "\<exists>points. mapE (\<lambda>cp. case cp of None \<Rightarrow> Inl AttributeError | Some cp_name \<Rightarrow> if cp_name \<in> set seen then Inr cp_name else Inl PlainException) cps
    = Inr points"
  using assms by (induction cps) auto

lemma merge_create_returns:
  assumes fits: "fits cg src" and p: "cg \<longrightarrow> d_class p = MemCovergroup"
    and points: "d_type src = ST_CROSS \<longrightarrow> (\<forall>cp\<in>set (sx_points (d_extra src)). \<exists>n. cp = Some n \<and> n \<in> set cps)"
  shows "\<exists>k p1 st1. merge_create p src cps st = Inr ((k, p1), st1) \<and> d_extra p1 = d_extra p \<and>
    (is_group (d_type src) \<longrightarrow> d_class (d_children p1 ! k) = MemCovergroup)"
proof -
  obtain si st0 where m: "move_srcinfo (m_srcinfo (d_attrs src)) st = (si, st0)" by fastforce
  have ne: "ST_INSTANCE \<noteq> ST_CROSS" "ST_INSTANCE \<noteq> ST_COVERGROUP" "ST_INSTANCE \<noteq> ST_COVERINSTANCE" "ST_CROSS \<noteq> ST_COVERGROUP"
    "ST_CROSS \<noteq> ST_COVERINSTANCE" "ST_COVERGROUP \<noteq> ST_COVERINSTANCE" "ST_COVERGROUP \<noteq> ST_COVERPOINT" "ST_COVERINSTANCE \<noteq> ST_COVERPOINT"
    by (simp_all add: type_codes)
  note create = merge_create_def Let_def m prod.case
  consider (inst) "d_type src = ST_INSTANCE" | (cross) "d_type src = ST_CROSS" | (cg) "d_type src = ST_COVERGROUP"
    | (ci) "d_type src = ST_COVERINSTANCE" | (other) "d_type src \<notin> {ST_INSTANCE, ST_CROSS, ST_COVERGROUP, ST_COVERINSTANCE}" by blast
  then show ?thesis
  proof cases
    case inst
    obtain du st1 where du: "dst_du (sx_du (d_extra src)) st0 = (du, st1)" by fastforce
    obtain p1 st2 where fl: "flush_pending p st1 = (p1, st2)" by fastforce
    obtain k p2 where c: "d_createInstance p1 (m_name (d_attrs src)) si (m_weight (d_attrs src)) (m_source (d_attrs src)) ST_INSTANCE du (m_flags (d_attrs src)) = (k, p2)"
      by fastforce
    have "d_extra p2 = d_extra p" using c flush_extra[of p st1] fl by (auto simp: d_createInstance_def dest: add_child_extra)
    moreover have "merge_create p src cps st = Inr ((k, p2), st2)" using fitsD(1)[OF fits inst] inst by (auto simp: create du fl c)
    ultimately show ?thesis using inst ne by (simp add: is_group_def)
  next
    case cross
    note f = fitsD(2)[OF fits cross]
    obtain pts where pts: "mapE (\<lambda>cp. case cp of None \<Rightarrow> Inl AttributeError | Some cp_name \<Rightarrow> if cp_name \<in> set cps then Inr cp_name else Inl PlainException)
      (sx_points (d_extra src)) = Inr pts" using mapE_points points cross by blast
    obtain k p1 where c: "d_createCross p (m_name (d_attrs src)) si (m_weight (d_attrs src)) (m_source (d_attrs src)) pts = (k, p1)" by fastforce
    then have "d_extra p1 = d_extra p" by (auto simp: d_createCross_def dest: add_child_extra)
    moreover have "merge_create p src cps st = Inr ((k, p1), st0)" using f cross ne p by (simp add: create pts c)
    ultimately show ?thesis using cross ne by (simp add: is_group_def)
  next
    case cg
    obtain k p1 where c: "add_child (new_d MemCovergroup (m_name (d_attrs src)) si (m_weight (d_attrs src)) (m_source (d_attrs src)) ST_COVERGROUP 0) p = (k, p1)"
      by fastforce
    have "merge_create p src cps st = Inr ((k, p1), st0)" using cg ne by (simp add: create c)
    then show ?thesis using add_child_extra[OF c] by (simp add: new_d_sel)
  next
    case ci
    have pc: "d_class p = MemCovergroup" using fitsD(3)[OF fits ci] p by blast
    obtain k p1 where c: "d_createScope p (m_name (d_attrs src)) si (m_weight (d_attrs src)) (m_source (d_attrs src)) ST_COVERINSTANCE 0 = (k, p1)" by fastforce
    have "merge_create p src cps st = Inr ((k, p1), st0)" using ci ne pc by (simp add: create c)
    then show ?thesis using createScope_extra[OF c] pc by simp
  next
    case other
    obtain k1 p1 where c: "d_createScope p (m_name (d_attrs src)) si (m_weight (d_attrs src)) (m_source (d_attrs src)) (d_type src) (m_flags (d_attrs src)) = (k1, p1)"
      by fastforce
    obtain k2 p2 where c2: "add_child (new_d MemCoverpoint (m_name (d_attrs src)) si (m_weight (d_attrs src)) (m_source (d_attrs src)) ST_COVERPOINT 0) p = (k2, p2)"
      by fastforce
    have "\<not> is_group (d_type src)" using other by (simp add: is_group_def)
    then show ?thesis using other createScope_extra[OF c] add_child_extra[OF c2] by (simp add: create c c2)
  qed
qed

lemma merge_items_class:
  assumes "merge_items dst srcs st = (dst', st')" "d_class dst = MemCovergroup"
  shows "d_class dst' = MemCovergroup"
proof -
  have "d_class (fst (foldl add_merged (dst, st) xs)) = MemCovergroup" for xs
    using add_merged_all[of dst st xs] assms(2) by (cases "foldl add_merged (dst, st) xs") simp
  then show ?thesis using assms
    by (auto simp: merge_items_def Let_def split_def copy_item_attributes_keeps split: if_splits)
qed

section \<open>The whole recursion returns\<close>

lemma merge_children_returns:
  assumes "cg \<longrightarrow> d_class dst = MemCovergroup" "\<forall>s\<in>set (somes srcs). children_fit cg s"
  shows "\<exists>r. merge_children dst srcs st = Inr r"
  using assms
proof (induction "d_size srcs" arbitrary: cg dst srcs st rule: less_induct)
  case less
  have loop: "\<exists>r. foldE merge_step (p, cps, st) gs = Inr r"
    if "child_groups srcs = don @ gs" "cg \<longrightarrow> d_class p = MemCovergroup" "\<forall>n. (ST_COVERPOINT, n) \<in> fst ` set (dict_keys don) \<longrightarrow> n \<in> set cps"
    for p cps st gs don
    using that
  proof (induction gs arbitrary: p cps st don)
    case (Cons g gs)
    obtain stype name n row where g: "g = (((stype, name), n), row)" by (metis prod.collapse)
    have m: "(((stype, name), n), row) \<in> set (child_groups srcs)" using Cons.prems(1) g by simp
    let ?src = "hd (somes row)"
    have row: "somes row \<noteq> []" using child_groups_rows[OF m] somes_none by blast
    have fit: "fits cg s \<and> d_type s = stype" if s: "s \<in> set (somes row)" for s
    proof -
      obtain p where "p \<in> set (somes srcs)" "s \<in> set (d_scopes ST_ALL p)" "scope_key s = (stype, name)" using group_member[OF m s] by auto
      then show ?thesis using less.prems(2) by (auto simp: children_fit_def scope_key_def)
    qed
    have src: "fits cg ?src" "d_type ?src = stype" using fit row by simp_all
    have points: "d_type ?src = ST_CROSS \<longrightarrow> (\<forall>cp\<in>set (sx_points (d_extra ?src)). \<exists>n. cp = Some n \<and> n \<in> set cps)"
    proof (intro impI ballI)
      fix cp assume x: "d_type ?src = ST_CROSS" "cp \<in> set (sx_points (d_extra ?src))"
      have "\<not> DU_ANY (fst (fst ((stype, name), n)))" using x(1) src(2) by (simp add: type_codes DU_ANY_def)
      from child_groups_earlier[OF Cons.prems(1)[unfolded g] this] obtain q ys zs where q: "q \<in> set (somes srcs)"
        "d_scopes ST_ALL q = ys @ ?src # zs" "\<forall>y\<in>set ys. \<not> DU_ANY (d_type y) \<longrightarrow> scope_key y \<in> fst ` set (dict_keys don)" by blast
      have "points_ok [] (ys @ ?src # zs)" using less.prems(2) q(1,2) by (auto simp: children_fit_def)
      from points_ok_cross[OF this x] obtain n y where y: "cp = Some n" "y \<in> set ys" "scope_key y = (ST_COVERPOINT, n)" by auto
      then have "\<not> DU_ANY (d_type y)" by (auto simp: scope_key_def type_codes DU_ANY_def)
      then show "\<exists>n. cp = Some n \<and> n \<in> set cps" using y q(3) Cons.prems(3) by metis
    qed
    obtain k p1 st1 where c: "merge_create p ?src cps st = Inr ((k, p1), st1)" "d_extra p1 = d_extra p"
      "is_group stype \<longrightarrow> d_class (d_children p1 ! k) = MemCovergroup"
      using merge_create_returns[OF src(1) Cons.prems(2) points] src(2) by blast
    obtain d2 st2 where i: "merge_items (copy_scope_data (d_children p1 ! k) row) row (register_du (stype, name) (d_children p1 ! k) st1) = (d2, st2)"
      by fastforce
    have "is_group stype \<longrightarrow> d_class d2 = MemCovergroup" using merge_items_class[OF i] c(3) by simp
    moreover have "\<forall>s\<in>set (somes row). children_fit (is_group stype) s" using fit fitsD(4) by blast
    ultimately obtain d3 st3 where r: "merge_children d2 row st2 = Inr (d3, st3)"
      using less.hyps[OF row_size[OF m]] by (metis prod.collapse)
    obtain p2 st4 where f: "flush_pending (set_children ((d_children p1)[k := d3]) p1) st3 = (p2, st4)" by fastforce
    have s: "merge_step (p, cps, st) g = Inr (p2, if stype = ST_COVERPOINT then cps @ [name] else cps, st4)"
      by (simp add: merge_step_def g c(1) i r f Let_def)
    have "child_groups srcs = (don @ [g]) @ gs" using Cons.prems(1) by simp
    moreover have "d_extra p2 = d_extra p" using flush_extra[of "set_children ((d_children p1)[k := d3]) p1" st3] f c(2) by simp
    then have "cg \<longrightarrow> d_class p2 = MemCovergroup" using Cons.prems(2) by simp
    moreover have "\<forall>n. (ST_COVERPOINT, n) \<in> fst ` set (dict_keys (don @ [g])) \<longrightarrow> n \<in> set (if stype = ST_COVERPOINT then cps @ [name] else cps)"
      using Cons.prems(3) by (auto simp: g)
    ultimately show ?case using Cons.IH by (simp add: s)
  qed simp
  from loop[of "[]" "child_groups srcs" dst "[]" st] less.prems(1) show ?case unfolding merge_children_eq by auto
qed

definition fit_dbs :: "dscope list \<Rightarrow> bool" where
  "fit_dbs dbs \<longleftrightarrow> (\<forall>db\<in>set dbs. children_fit False db)"

lemma db_merge_returns: "fit_dbs dbs \<Longrightarrow> \<exists>dst. db_merge_scopes new_db dbs = Inr dst"
proof -
  assume "fit_dbs dbs"
  then have "\<exists>r. merge_children new_db (map Some dbs) \<lparr>ms_dus = [], ms_pending = [], ms_files = []\<rparr> = Inr r"
    by (intro merge_children_returns[of False]) (simp_all add: fit_dbs_def)
  then obtain r where "merge_children new_db (map Some dbs) \<lparr>ms_dus = [], ms_pending = [], ms_files = []\<rparr> = Inr r" ..
  then show ?thesis by (cases r) (simp add: db_merge_scopes_def)
qed

section \<open>The promise\<close>

text \<open>C1 (refinement). The structural merge keeps what it promises. When the sources fit, it returns, and in the
database it returns every path of scopes has exactly the cover items that some source has there, each with
the sum of the sources' counts; repeats of a name are merged with the repeats of the same number.\<close>

theorem structural_merge_counts:
  assumes "fit_dbs dbs" "tidy_dbs dbs"
  shows "\<exists>dst. db_merge_scopes new_db dbs = Inr dst \<and>
    (\<forall>kn p ik. count_at (kn # p) ik dst = merged_count (kn # p) ik (map Some dbs))"
  using db_merge_returns[OF assms(1)] db_merge_counts[OF _ assms(2)] by blast

definition x_item :: "char list \<Rightarrow> int \<Rightarrow> int \<Rightarrow> ditem" where
  "x_item n t c = \<lparr>ci_name = lit n, ci_data = (CoverData t 0)\<lparr>cd_data := c\<rparr>, ci_src = None, it_attributes = []\<rparr>"

definition x_scope :: "mem_class \<Rightarrow> char list \<Rightarrow> int \<Rightarrow> ditem list \<Rightarrow> dscope list \<Rightarrow> dscope" where
  "x_scope c n t is cs = (let d = new_d c (lit n) no_srcinfo 1 10 t 0 in DScope (d_attrs d) (d_extra d) is cs)"

text \<open>Two sources: a design unit, an instance of it, a covergroup with a coverpoint and a cross over it, an FSM.\<close>

definition x_du :: dscope where
  "x_du = x_scope MemScope ''work.top'' ST_DU_MODULE [] []"

definition x_top :: "dscope list \<Rightarrow> dscope" where
  "x_top cs = (let d = x_scope MemInstanceScope ''top'' ST_INSTANCE [] cs
     in DScope (d_attrs d) ((d_extra d)\<lparr>sx_du := Some (d_attrs x_du)\<rparr>) (d_items d) (d_children d))"

definition x_cross :: "ditem list \<Rightarrow> dscope" where
  "x_cross is = (let d = x_scope MemCross ''x'' ST_CROSS is []
     in DScope (d_attrs d) ((d_extra d)\<lparr>sx_points := [Some (lit ''cp'')]\<rparr>) (d_items d) (d_children d))"

definition x_db1 :: dscope where
  "x_db1 = x_scope MemUCIS '''' 18374686479671623680 []
     [x_du, x_top
        [x_scope MemCovergroup ''cg'' ST_COVERGROUP []
           [x_scope MemCoverpoint ''cp'' ST_COVERPOINT [x_item ''a'' 1 3, x_item ''a'' 1 4, x_item ''b'' 1 5] [],
            x_cross [x_item ''a,a'' 1 2]],
         x_scope MemFSMScope ''f'' ST_FSM []
           [x_scope MemScope ''UCIS:STATE'' ST_FSM_STATES [x_item ''s'' 2048 5] [],
            x_scope MemScope ''UCIS:TRANSITION'' ST_FSM_TRANS [x_item ''s->t'' 2048 5] []]]]"

definition x_db2 :: dscope where
  "x_db2 = x_scope MemUCIS '''' 18374686479671623680 []
     [x_du, x_top
        [x_scope MemCovergroup ''cg'' ST_COVERGROUP []
           [x_scope MemCoverpoint ''cp'' ST_COVERPOINT [x_item ''b'' 1 50, x_item ''a'' 1 30] []]],
      x_scope MemInstanceScope ''top'' ST_INSTANCE [x_item ''x'' 1 1] []]"

lemmas x_defs = x_db1_def x_db2_def x_top_def x_cross_def x_du_def x_scope_def x_item_def new_d_def new_scope_def no_srcinfo_def
  CoverData_def class_options_def Let_def d_scopes_def d_coverItems_def scope_key_def item_key_def type_codes

lemma tidy_list:
  "tidy_dbs dbs \<longleftrightarrow> list_all (\<lambda>db. list_all (\<lambda>c. tidy (if DU_ANY (d_type c) then [] else du_keys dbs) c) (d_scopes ST_ALL db)) dbs"
  "fsm_tidy s \<longleftrightarrow> d_coverItems CT_ALL s = [] \<and>
     list_all (\<lambda>c. fst (scope_key c) \<in> {ST_FSM_STATES, ST_FSM_TRANS} \<longrightarrow> scope_key c \<in> set FSM_KEYS) (d_scopes ST_ALL s) \<and>
     list_all (\<lambda>k. occurrences scope_key k (d_scopes ST_ALL s) \<le> 1) FSM_KEYS"
  "fit_dbs dbs \<longleftrightarrow> list_all (children_fit False) dbs"
  "children_fit cg s \<longleftrightarrow> points_ok [] (d_scopes ST_ALL s) \<and> list_all (fits cg) (d_scopes ST_ALL s)"
  by (simp_all add: tidy_dbs_def fsm_tidy_def fit_dbs_def children_fit_def list_all_iff)

lemma x_tidy: "tidy_dbs [x_db1, x_db2]"
  by (simp add: x_defs tidy_list du_keys_def FSM_KEYS_def one_bit_def upt_rec linked_to_def DU_ANY_def occurrences_def)

lemma x_fit: "fit_dbs [x_db1, x_db2]"
  by (simp add: x_defs tidy_list is_group_def)

definition x_path :: scope_path where
  "x_path = [((16, lit ''top''), 0), ((4096, lit ''cg''), 0), ((16384, lit ''cp''), 0)]"

lemma x_count: "merged_count x_path ((lit ''a'', 1), 0) [Some x_db1, Some x_db2] = Some 33"
  by (simp add: x_path_def x_defs merged_count_def total_def o_count_def)

lemma structural_merge_counts_witness:
  "\<exists>dst. db_merge_scopes new_db [x_db1, x_db2] = Inr dst \<and> count_at x_path ((lit ''a'', 1), 0) dst = Some 33"
proof -
  obtain dst where dst: "db_merge_scopes new_db [x_db1, x_db2] = Inr dst"
    "\<forall>kn p ik. count_at (kn # p) ik dst = merged_count (kn # p) ik (map Some [x_db1, x_db2])"
    using structural_merge_counts[OF x_fit x_tidy] by blast
  have "count_at x_path ((lit ''a'', 1), 0) dst = merged_count x_path ((lit ''a'', 1), 0) (map Some [x_db1, x_db2])"
    unfolding x_path_def using dst(2) by blast
  then have "count_at x_path ((lit ''a'', 1), 0) dst = Some 33" by (simp add: x_count)
  with dst(1) show ?thesis by blast
qed

section \<open>The order of the sources\<close>

lemma tidy_set: "set dus = set dus' \<Longrightarrow> tidy dus c = tidy dus' c"
  by (induction c) (auto simp: linked_to_def split: option.splits)

lemma sources_set:
  assumes "set dbs = set dbs'"
  shows "tidy_dbs dbs = tidy_dbs dbs'" "fit_dbs dbs = fit_dbs dbs'"
proof -
  have "set (du_keys dbs) = set (du_keys dbs')" using assms by (simp add: du_keys_def)
  from tidy_set[OF this] show "tidy_dbs dbs = tidy_dbs dbs'" "fit_dbs dbs = fit_dbs dbs'"
    using assms by (simp_all add: tidy_dbs_def fit_dbs_def)
qed

lemma mset_somes: "mset (map Some (somes xs)) = filter_mset (\<lambda>x. x \<noteq> None) (mset xs)"
  by (induction xs) (auto simp: somes_def split: option.split)

lemma total_mset:
  assumes "mset xs = mset ys"
  shows "total xs = total ys"
proof -
  have "mset (map Some (somes xs)) = mset (map Some (somes ys))" using assms by (simp only: mset_somes)
  then have "image_mset the (mset (map Some (somes xs))) = image_mset the (mset (map Some (somes ys)))" by (rule arg_cong)
  then have m: "mset (somes xs) = mset (somes ys)" by (simp add: multiset.map_comp comp_def)
  then have "sum_list (somes xs) = sum_list (somes ys)" by (metis sum_mset_sum_list)
  moreover have "somes xs = [] \<longleftrightarrow> somes ys = []" using m by (metis mset_zero_iff)
  ultimately show ?thesis by (simp add: total_def)
qed

text \<open>The order of the sources does not change a merged count: two merges of the same
databases in different orders both return, and agree on every item at every path.\<close>

theorem structural_merge_order:
  assumes "fit_dbs dbs" "tidy_dbs dbs" "mset dbs = mset dbs'"
  shows "\<exists>dst dst'. db_merge_scopes new_db dbs = Inr dst \<and> db_merge_scopes new_db dbs' = Inr dst' \<and>
    (\<forall>kn p ik. count_at (kn # p) ik dst = count_at (kn # p) ik dst')"
proof -
  have s: "set dbs = set dbs'" using assms(3) by (rule mset_eq_setD)
  then have ok: "fit_dbs dbs'" "tidy_dbs dbs'" using assms(1,2) sources_set by blast+
  have "mset (map (o_count p ik) (map Some dbs)) = mset (map (o_count p ik) (map Some dbs'))" for p ik
    using assms(3) by simp
  then have "merged_count p ik (map Some dbs) = merged_count p ik (map Some dbs')" for p ik
    unfolding merged_count_def by (rule total_mset)
  then show ?thesis
    using db_merge_returns[OF assms(1)] db_merge_returns[OF ok(1)] db_merge_counts[OF _ assms(2)] db_merge_counts[OF _ ok(2)] by metis
qed

lemma structural_merge_order_witness:
  "\<exists>dst dst'. db_merge_scopes new_db [x_db1, x_db2] = Inr dst \<and> db_merge_scopes new_db [x_db2, x_db1] = Inr dst' \<and>
    count_at x_path ((lit ''a'', 1), 0) dst = count_at x_path ((lit ''a'', 1), 0) dst'"
proof -
  have "mset [x_db1, x_db2] = mset [x_db2, x_db1]" by simp
  from structural_merge_order[OF x_fit x_tidy this] show ?thesis unfolding x_path_def by blast
qed

end
