(* ===== verification/CrossSchema.thy ===== *)
theory CrossSchema
  imports DbMergeTotal Sparse
begin

text \<open>
  What the cross-schema path of the archive merger does with the history and with counts that are not
  additive. The history of a source is a forest; the structural merge copies it as one.
\<close>

section \<open>Copying a history\<close>

definition hist_ok :: "hist \<Rightarrow> bool" where
  "hist_ok h \<longleftrightarrow> (\<forall>i<length h. case hn_parent (h ! i) of None \<Rightarrow> True | Some p \<Rightarrow> p < i)"

lemma depth_parent: "hist_ok h \<Longrightarrow> i < length h \<Longrightarrow> hn_parent (h ! i) = Some p \<Longrightarrow> p < i \<and> hist_depth h p < hist_depth h i"
  using hist_depth.simps[of h i] by (auto simp: hist_ok_def)

text \<open>Where a node goes: after the destination's nodes, in the order of depth.\<close>

definition copy_order :: "hist \<Rightarrow> nat list" where
  "copy_order src = sort_key (hist_depth src) [0..<length src]"

fun position :: "nat list \<Rightarrow> nat \<Rightarrow> nat" where
  "position [] i = 0"
| "position (x # xs) i = (if x = i then 0 else Suc (position xs i))"

lemma position_nth: "i \<in> set xs \<Longrightarrow> position xs i < length xs \<and> xs ! position xs i = i"
  by (induction xs) auto

lemma position_append: "i \<in> set xs \<Longrightarrow> position (xs @ ys) i = position xs i"
  by (induction xs) auto

lemma position_last: "i \<notin> set xs \<Longrightarrow> position (xs @ i # ys) i = length xs"
  by (induction xs) auto

lemma position_bij: "distinct xs \<Longrightarrow> bij_betw (\<lambda>i. n + position xs i) (set xs) {n..<n + length xs}"
proof -
  assume d: "distinct xs"
  have "position xs (xs ! j) = j" if "j < length xs" for j
    using position_nth[of "xs ! j" xs] that nth_eq_iff_index_eq[OF d] by (metis nth_mem)
  then show ?thesis
    by (intro bij_betw_byWitness[where f' = "\<lambda>k. xs ! (k - n)"]) (use position_nth in fastforce)+
qed

definition copied :: "int \<Rightarrow> hist \<Rightarrow> (nat \<Rightarrow> nat) \<Rightarrow> nat \<Rightarrow> MemHistoryNode" where
  "copied now src f i = copy_history_node now (map_option f (hn_parent (src ! i))) (src ! i)"

lemma copy_loop:
  assumes "distinct (don @ is)"
    and "\<forall>i p. i \<in> set is \<longrightarrow> hn_parent (src ! i) = Some p \<longrightarrow> p \<in> set don \<or> (\<exists>ys zs. is = ys @ i # zs \<and> p \<in> set ys)"
    and "\<forall>i\<in>set (don @ is). f i = n + position (don @ is) i"
    and "dict_get m = (\<lambda>i. if i \<in> set don then Some (f i) else None)" and "length dst = n + length don"
  shows "fst (foldl (copy_hist_at now src) (dst, m) is) = dst @ map (copied now src f) is"
  using assms
proof (induction "is" arbitrary: don dst m)
  case (Cons i "is")
  have new: "i \<notin> set don" "i \<notin> set is" using Cons.prems(1) by auto
  have parent: "p \<in> set don" if p: "hn_parent (src ! i) = Some p" for p
  proof -
    have "p \<in> set don \<or> (\<exists>ys zs. i # is = ys @ i # zs \<and> p \<in> set ys)" using Cons.prems(2) p by simp
    moreover have "ys = []" if "i # is = ys @ i # zs" for ys zs using that new(2) by (cases ys) auto
    ultimately show ?thesis by (metis empty_iff list.set(1))
  qed
  have fi: "f i = length dst" using Cons.prems(3,5) position_last[OF new(1)] by simp
  have par: "(case hn_parent (src ! i) of None \<Rightarrow> None | Some p \<Rightarrow> dict_get m p) = map_option f (hn_parent (src ! i))"
    using parent by (cases "hn_parent (src ! i)") (simp_all add: Cons.prems(4))
  have m': "dict_get (dict_set i (length dst) m) = (\<lambda>j. if j \<in> set (don @ [i]) then Some (f j) else None)"
    unfolding dict_get_set Cons.prems(4) by (rule ext) (use fi in auto)
  have ord: "\<forall>j p. j \<in> set is \<longrightarrow> hn_parent (src ! j) = Some p \<longrightarrow> p \<in> set (don @ [i]) \<or> (\<exists>ys zs. is = ys @ j # zs \<and> p \<in> set ys)"
  proof (intro allI impI)
    fix j p assume j: "j \<in> set is" "hn_parent (src ! j) = Some p"
    then have "j \<noteq> i" using new(2) by auto
    have "p \<in> set don \<or> (\<exists>ys zs. i # is = ys @ j # zs \<and> p \<in> set ys)" using Cons.prems(2) j by simp
    then consider "p \<in> set don" | ys zs where "i # is = ys @ j # zs" "p \<in> set ys" by blast
    then show "p \<in> set (don @ [i]) \<or> (\<exists>ys zs. is = ys @ j # zs \<and> p \<in> set ys)"
    proof cases
      case 2
      then obtain ys' where "ys = i # ys'" using \<open>j \<noteq> i\<close> by (cases ys) auto
      then show ?thesis using 2 by auto
    qed simp
  qed
  have "fst (foldl (copy_hist_at now src) (dst @ [copied now src f i], dict_set i (length dst) m) is) =
      (dst @ [copied now src f i]) @ map (copied now src f) is"
    by (rule Cons.IH[of "don @ [i]"]) (use Cons.prems(1,3,5) ord m' in simp_all)
  then show ?case using par by (simp add: copy_hist_at_def copied_def)
qed simp

lemma copy_order_sorted:
  assumes "hist_ok src" "i < length src" "hn_parent (src ! i) = Some p"
  shows "\<exists>ys zs. copy_order src = ys @ i # zs \<and> p \<in> set ys"
proof -
  have d: "distinct (copy_order src)" "set (copy_order src) = {0..<length src}" "sorted (map (hist_depth src) (copy_order src))"
    by (simp_all add: copy_order_def)
  note p = depth_parent[OF assms]
  have "i \<in> set (copy_order src)" using d(2) assms(2) by simp
  then obtain ys zs where s: "copy_order src = ys @ i # zs" by (meson split_list)
  have "p \<in> set (copy_order src)" using p assms(2) d(2) by simp
  moreover have "p \<notin> set zs"
  proof
    assume "p \<in> set zs"
    then have "hist_depth src i \<le> hist_depth src p" using d(3) by (simp add: s sorted_append)
    then show False using p by simp
  qed
  ultimately have "p \<in> set ys" using s p by auto
  then show ?thesis using s by blast
qed

lemma merge_history_copies:
  assumes "hist_ok src"
  shows "merge_history now dst src =
    dst @ map (copied now src (\<lambda>i. length dst + position (copy_order src) i)) (copy_order src)"
  unfolding merge_history_def copy_order_def[symmetric]
proof (rule copy_loop[where don = "[]" and n = "length dst"])
  show "distinct ([] @ copy_order src)" by (simp add: copy_order_def)
  show "\<forall>i p. i \<in> set (copy_order src) \<longrightarrow> hn_parent (src ! i) = Some p \<longrightarrow>
      p \<in> set [] \<or> (\<exists>ys zs. copy_order src = ys @ i # zs \<and> p \<in> set ys)"
    using copy_order_sorted[OF assms] by (auto simp: copy_order_def)
qed simp_all

text \<open>Merging a history copies the source's forest: every source node is copied once, after the
destination's nodes, and its copy's parent is the copy of its parent.\<close>

theorem history_forest_copied:
  assumes "hist_ok src"
  shows "\<exists>f. bij_betw f {0..<length src} {length dst..<length dst + length src} \<and>
    take (length dst) (merge_history now dst src) = dst \<and> length (merge_history now dst src) = length dst + length src \<and>
    (\<forall>i<length src. merge_history now dst src ! f i = copy_history_node now (map_option f (hn_parent (src ! i))) (src ! i))"
proof -
  let ?o = "copy_order src" and ?f = "\<lambda>i. length dst + position (copy_order src) i"
  have o: "distinct ?o" "set ?o = {0..<length src}" "length ?o = length src" by (simp_all add: copy_order_def)
  have "merge_history now dst src ! ?f i = copied now src ?f i" if "i < length src" for i
    using position_nth[of i ?o] that o by (simp add: merge_history_copies[OF assms] nth_append)
  moreover have "bij_betw ?f {0..<length src} {length dst..<length dst + length src}" using position_bij[OF o(1), of "length dst"] o by simp
  moreover have "take (length dst) (merge_history now dst src) = dst" "length (merge_history now dst src) = length dst + length src"
    using o by (simp_all add: merge_history_copies[OF assms])
  ultimately show ?thesis unfolding copied_def by blast
qed

text \<open>A copy has the kind of the node and the parent it is given; the setters touch neither.\<close>

lemma copied_keeps: "hn_kind (copy_history_node now p n) = hn_kind n" "hn_parent (copy_history_node now p n) = p"
proof -
  have set: "\<forall>(g, s)\<in>set copied_fields. \<forall>v m. hn_kind (s v m) = hn_kind m \<and> hn_parent (s v m) = hn_parent m" by (simp add: copied_fields_def)
  have fold: "hn_kind (foldl (\<lambda>m (g, s). if g n \<noteq> JNull then s (g n) m else m) m fs) = hn_kind m \<and>
      hn_parent (foldl (\<lambda>m (g, s). if g n \<noteq> JNull then s (g n) m else m) m fs) = hn_parent m"
    if "\<forall>(g, s)\<in>set fs. \<forall>v m. hn_kind (s v m) = hn_kind m \<and> hn_parent (s v m) = hn_parent m" for fs m
    using that by (induction fs arbitrary: m) auto
  show "hn_kind (copy_history_node now p n) = hn_kind n" "hn_parent (copy_history_node now p n) = p"
    using fold[OF set] by (simp_all add: copy_history_node_def new_history_node_def)
qed

lemma history_forest_copied_witness:
  "let t = new_history_node 0 (Some 0) (JStr (lit ''t'')) JNull (NK HNK_TEST); m = new_history_node 0 None (JStr (lit ''m'')) JNull (NK HNK_MERGE);
       src = [m, t]
   in \<exists>f. bij_betw f {0..<2::nat} {1..<3::nat} \<and> hn_parent (merge_history 0 [m] src ! f 1) = Some (f 0)"
proof -
  let ?t = "new_history_node 0 (Some 0) (JStr (lit ''t'')) JNull (NK HNK_TEST)" and ?m = "new_history_node 0 None (JStr (lit ''m'')) JNull (NK HNK_MERGE)"
  have "hist_ok [?m, ?t]" by (simp add: hist_ok_def less_Suc_eq new_history_node_def)
  from history_forest_copied[OF this, of "[?m]" 0] obtain f where f: "bij_betw f {0..<length [?m, ?t]} {length [?m]..<length [?m] + length [?m, ?t]}"
    "\<forall>i<length [?m, ?t]. merge_history 0 [?m] [?m, ?t] ! f i = copy_history_node 0 (map_option f (hn_parent ([?m, ?t] ! i))) ([?m, ?t] ! i)"
    by blast
  have "hn_parent ?t = Some 0" by (simp add: new_history_node_def)
  then have "hn_parent (merge_history 0 [?m] [?m, ?t] ! f 1) = Some (f 0)" using f(2)[rule_format, of 1] by (simp add: copied_keeps)
  moreover have "bij_betw f {0..<2::nat} {1..<3::nat}" using f(1) by (simp add: numeral_3_eq_3 numeral_2_eq_2)
  ultimately show ?thesis unfolding Let_def by blast
qed

section \<open>The cross-schema merge\<close>

lemma kind_count:
  assumes "hist_ok src"
  shows "length (historyNodes kind (merge_history now dst src)) = length (historyNodes kind dst) + length (historyNodes kind src)"
proof -
  let ?P = "\<lambda>n. kind = HNK_ALL \<or> hn_kind n = NK kind" and ?o = "copy_order src"
  have "length (filter (\<lambda>i. ?P (src ! i)) ?o) = size (filter_mset (\<lambda>i. ?P (src ! i)) (mset ?o))"
    by (metis mset_filter size_mset)
  also have "mset ?o = mset [0..<length src]" by (simp add: copy_order_def)
  also have "size (filter_mset (\<lambda>i. ?P (src ! i)) (mset [0..<length src])) = length (filter (\<lambda>i. ?P (src ! i)) [0..<length src])"
    by (metis mset_filter size_mset)
  also have "\<dots> = length (filter (\<lambda>x. ?P x) (map ((!) src) [0..<length src]))" by (simp add: filter_map comp_def)
  also have "\<dots> = length (historyNodes kind src)" by (simp add: map_nth historyNodes_def split_def)
  finally show ?thesis
    by (simp add: merge_history_copies[OF assms] historyNodes_def split_def filter_map comp_def copied_def copied_keeps)
qed

lemma kind_count_all:
  "\<forall>h\<in>set hs. hist_ok h \<Longrightarrow>
   length (historyNodes kind (merge_history_nodes now dst hs)) = length (historyNodes kind dst) + (\<Sum>h\<leftarrow>hs. length (historyNodes kind h))"
  unfolding merge_history_nodes_def by (induction hs arbitrary: dst) (simp_all add: kind_count)

lemma historyNodes_simps [simp]:
  "historyNodes kind [] = []" "historyNodes kind (xs @ ys) = historyNodes kind xs @ historyNodes kind ys"
  "historyNodes kind (x # xs) = (if kind = HNK_ALL \<or> hn_kind x = NK kind then x # historyNodes kind xs else historyNodes kind xs)"
  by (simp_all add: historyNodes_def split_def)

lemma readd_kind:
  assumes "kind \<noteq> HNK_ALL" "kind' \<noteq> HNK_ALL"
  shows "length (historyNodes kind (map (readd_node now) (historyNodes kind' h))) = (if kind = kind' then length (historyNodes kind h) else 0)"
proof -
  have "hn_kind (readd_node now n) = hn_kind n" for n by (simp add: readd_node_def new_history_node_def)
  then show ?thesis using assms by (cases "kind = kind'"; induction h) simp_all
qed

lemma readd_all:
  assumes "kind = HNK_TEST \<or> kind = HNK_MERGE"
  shows "length (historyNodes kind (map (readd_node now) (concat (map (\<lambda>(_, h). historyNodes HNK_TEST h @ historyNodes HNK_MERGE h) dbs)))) =
    (\<Sum>(_, h)\<leftarrow>dbs. length (historyNodes kind h))"
  using assms by (induction dbs) (auto simp: readd_kind simp del: comp_apply)

text \<open>The cross-schema merge lists every test twice: the structural merge has already copied the
history when the nodes of the sources are added again, so the merged archive has twice as many test
nodes as its sources together, and the earlier merge nodes twice besides the new one.\<close>

theorem cross_schema_history_doubled:
  assumes "fit_dbs (map fst dbs)" "\<forall>h\<in>set (map snd dbs). hist_ok h"
  shows "\<exists>out h. merge_cross_schema now target dbs = Inr (out, h) \<and>
    length (historyNodes HNK_TEST h) = 2 * (\<Sum>(_, h)\<leftarrow>dbs. length (historyNodes HNK_TEST h)) \<and>
    length (historyNodes HNK_MERGE h) = 2 * (\<Sum>(_, h)\<leftarrow>dbs. length (historyNodes HNK_MERGE h)) + 1"
proof -
  obtain out where out: "db_merge_scopes new_db (map fst dbs) = Inr out" using db_merge_returns[OF assms(1)] by blast
  have s: "(\<Sum>h\<leftarrow>map snd dbs. length (historyNodes kind h)) = (\<Sum>(_, h)\<leftarrow>dbs. length (historyNodes kind h))" for kind
    by (simp add: split_def comp_def)
  have "length (historyNodes HNK_TEST [new_history_node now None (JStr target) (JStr target) (NK HNK_MERGE)]) = 0"
    "length (historyNodes HNK_MERGE [new_history_node now None (JStr target) (JStr target) (NK HNK_MERGE)]) = 1"
    by (simp_all add: historyNodes_def new_history_node_def)
  then show ?thesis
    using out kind_count_all[OF assms(2), of _ now "[]"] s
    by (auto simp: merge_cross_schema_def db_merge_def Let_def readd_all)
qed

lemma cross_schema_history_doubled_witness:
  "\<exists>out h. merge_cross_schema 0 (lit ''m.cdb'')
      [(x_db1, [new_history_node 0 None (JStr (lit ''t1'')) JNull (NK HNK_TEST)]),
       (x_db2, [new_history_node 0 None (JStr (lit ''t2'')) JNull (NK HNK_TEST)])] = Inr (out, h) \<and>
    length (historyNodes HNK_TEST h) = 4"
proof -
  let ?h = "\<lambda>n. [new_history_node 0 None (JStr n) JNull (NK HNK_TEST)]"
  have "fit_dbs (map fst [(x_db1, ?h (lit ''t1'')), (x_db2, ?h (lit ''t2''))])" using x_fit by simp
  moreover have "\<forall>h\<in>set (map snd [(x_db1, ?h (lit ''t1'')), (x_db2, ?h (lit ''t2''))]). hist_ok h" by (simp add: hist_ok_def new_history_node_def)
  moreover have "length (historyNodes HNK_TEST (?h n)) = 1" for n by (simp add: historyNodes_def new_history_node_def)
  ultimately show ?thesis using cross_schema_history_doubled[of "[(x_db1, ?h (lit ''t1'')), (x_db2, ?h (lit ''t2''))]" 0 "lit ''m.cdb''"] by auto
qed

text \<open>C31 (safety). The cross-schema merge adds peak counts up: a peak-active bin that two sources hold with the
counts \<open>x\<close> and \<open>y\<close> ends up with their sum, more than either, although its merge operation is the maximum.\<close>

theorem cross_schema_sums_peaks:
  assumes "fit_dbs [a, b]" "tidy_dbs [a, b]" "0 < x" "0 < y"
    and "count_at (kn # p) ((name, CT_PEAKACTIVEBIN), n) a = Some x" "count_at (kn # p) ((name, CT_PEAKACTIVEBIN), n) b = Some y"
  shows "op_for_cover_type CT_PEAKACTIVEBIN = OP_MAX \<and>
    (\<exists>out h. merge_cross_schema now target [(a, ha), (b, hb)] = Inr (out, h) \<and>
       count_at (kn # p) ((name, CT_PEAKACTIVEBIN), n) out = Some (x + y) \<and> max x y < x + y)"
proof -
  obtain out where out: "db_merge_scopes new_db [a, b] = Inr out" using db_merge_returns[OF assms(1)] by blast
  have "merged_count (kn # p) ((name, CT_PEAKACTIVEBIN), n) (map Some [a, b]) = Some (x + y)"
    using assms(5,6) by (simp add: merged_count_def total_def o_count_def del: count_at.simps)
  then have "count_at (kn # p) ((name, CT_PEAKACTIVEBIN), n) out = Some (x + y)"
    using db_merge_counts[OF out assms(2)] by (simp del: count_at.simps)
  moreover have "op_for_cover_type CT_PEAKACTIVEBIN = OP_MAX" by (simp add: op_for_cover_type_def NON_ADDITIVE_def)
  moreover have "max x y < x + y" using assms(3,4) by simp
  ultimately show ?thesis using out by (auto simp: merge_cross_schema_def db_merge_def Let_def simp del: count_at.simps)
qed

definition x_peak :: "int \<Rightarrow> dscope" where
  "x_peak c = x_scope MemUCIS '''' 18374686479671623680 [] [x_scope MemScope ''b'' ST_BLOCK [x_item ''p'' CT_PEAKACTIVEBIN c] []]"

lemma cross_schema_sums_peaks_witness:
  "\<exists>out h. merge_cross_schema 0 [] [(x_peak 3, []), (x_peak 5, [])] = Inr (out, h) \<and>
     count_at [((ST_BLOCK, lit ''b''), 0)] ((lit ''p'', CT_PEAKACTIVEBIN), 0) out = Some 8"
proof -
  have "fit_dbs [x_peak 3, x_peak 5]" "tidy_dbs [x_peak 3, x_peak 5]"
    by (simp_all add: x_peak_def x_defs tidy_list is_group_def du_keys_def one_bit_def upt_rec DU_ANY_def)
  moreover have "count_at [((ST_BLOCK, lit ''b''), 0)] ((lit ''p'', CT_PEAKACTIVEBIN), 0) (x_peak c) = Some c" for c
    by (simp add: x_peak_def x_defs)
  ultimately show ?thesis
    using cross_schema_sums_peaks[of "x_peak 3" "x_peak 5" 3 5 "((ST_BLOCK, lit ''b''), 0)" "[]" "lit ''p''" 0 0 "[]" "[]" "[]"] by auto
qed

end
