(* ===== verification/StateExn.thy ===== *)
theory StateExn
  imports Prelude
begin

text \<open>
  Operations on an object that outlives an exception: functions of the object's state that return the state also
  when they raise. The issue set, the issue history and the run history of an open database are written with them.
\<close>

section \<open>State with exceptions\<close>

type_synonym ('s, 'a) op = "'s \<Rightarrow> 's \<times> 'a res"

definition bindS :: "('s, 'a) op \<Rightarrow> ('a \<Rightarrow> ('s, 'b) op) \<Rightarrow> ('s, 'b) op" where
  "bindS m f s = (case m s of (s', Inl e) \<Rightarrow> (s', Inl e) | (s', Inr x) \<Rightarrow> f x s')"

definition retS :: "'a \<Rightarrow> ('s, 'a) op" where "retS x s = (s, Inr x)"
definition raiseS :: "pyerr \<Rightarrow> ('s, 'a) op" where "raiseS e s = (s, Inl e)"
definition liftS :: "('s \<Rightarrow> 'a res) \<Rightarrow> ('s, 'a) op" where "liftS f s = (s, f s)"
definition modS :: "('s \<Rightarrow> 's) \<Rightarrow> ('s, unit) op" where "modS f s = (f s, Inr ())"

lemma bindS_cases:
  "bindS m f s = (s', Inr y) \<longleftrightarrow> (\<exists>t x. m s = (t, Inr x) \<and> f x t = (s', Inr y))"
  by (auto simp: bindS_def split: prod.splits sum.splits)

lemma opS_simps [simp]:
  "retS x s = (s, Inr x)" "raiseS e s = (s, Inl e)" "liftS f s = (s, f s)" "modS g s = (g s, Inr ())"
  by (simp_all add: retS_def raiseS_def liftS_def modS_def)

end
