(* ===== verification/Issues.thy ===== *)
theory Issues
  imports PyStruct StringTable StateExn
begin

text \<open>
  \<open>ncdb/issues.py\<close>: the issue set behind \<open>issues.bin\<close>. Its records are parallel arrays of fixed-width
  machine integers, its links triples of string-table indices, and its queries go through indices that are
  built on first use and dropped by the operations that change what they show.
\<close>

section \<open>Data\<close>

definition STATE_OPEN :: int where "STATE_OPEN = 0"
definition STATE_IN_PROGRESS :: int where "STATE_IN_PROGRESS = 1"
definition STATE_RESOLVED :: int where "STATE_RESOLVED = 2"
definition STATE_CLOSED :: int where "STATE_CLOSED = 3"
definition STATE_WONTFIX :: int where "STATE_WONTFIX = 4"

definition LINK_BLOCKED_BY :: int where "LINK_BLOCKED_BY = 0"

definition ISSUES_MAGIC :: int where "ISSUES_MAGIC = 0x49535342"
definition ISSUES_VERSION :: int where "ISSUES_VERSION = 1"
definition ISSUES_HDR :: "fld list" where "ISSUES_HDR = [U 4, U 1, U 4, U 4, U 4, U 4, U 4]"
definition ISSUE_REC :: "fld list" where "ISSUE_REC = [U 2, U 2, U 2, U 4, U 4, U 4]"
definition WL_REC :: "fld list" where "WL_REC = [U 2, U 2]"
definition TL_REC :: "fld list" where "TL_REC = [U 2, U 2, U 1]"
definition CL_REC :: "fld list" where "CL_REC = [U 2, U 2, U 2, U 1]"

unbundle bit_operations_syntax

definition pack_enums :: "int \<Rightarrow> int \<Rightarrow> int \<Rightarrow> int \<Rightarrow> int" where
  "pack_enums severity kind state resolution =
     push_bit 13 (severity AND 7) OR push_bit 11 (kind AND 3) OR push_bit 8 (state AND 7) OR push_bit 5 (resolution AND 7)"

definition unpack_enums :: "int \<Rightarrow> int \<times> int \<times> int \<times> int" where
  "unpack_enums v = (drop_bit 13 v AND 7, drop_bit 11 v AND 3, drop_bit 8 v AND 7, drop_bit 5 v AND 7)"


record IssueSpec =
  sp_id :: pystr
  sp_ext :: pystr
  sp_severity :: int
  sp_kind :: int
  sp_state :: int
  sp_resolution :: int
  sp_created_at :: int
  sp_updated_at :: int
  sp_synced_at :: int

text \<open>A waiver link is a pair of names, a testpoint or coverage link has its type as well.\<close>

record IssueSet =
  id_idxs :: "int list"
  ext_idxs :: "int list"
  enums :: "int list"
  created :: "int list"
  updated :: "int list"
  synced :: "int list"
  i_strings :: strtab
  wl :: "(int \<times> int) list"
  tl :: "(int \<times> int \<times> int) list"
  cl :: "(int \<times> int \<times> int \<times> int) list"
  by_id :: "(pystr \<times> nat) list option"
  by_severity :: "(int \<times> nat list) list option"
  open_idxs :: "nat list option"
  waiver_to_idxs :: "(pystr \<times> nat list) list option"
  issue_to_waiver_links :: "(pystr \<times> (pystr \<times> pystr) list) list option"
  tp_to_idxs :: "(pystr \<times> nat list) list option"
  issue_to_tp_links :: "(pystr \<times> (pystr \<times> pystr \<times> int) list) list option"
  coverage_links_cache :: "(pystr \<times> pystr \<times> pystr \<times> int) list option"

definition new_issue_set :: IssueSet where
  "new_issue_set =
     \<lparr>id_idxs = [], ext_idxs = [], enums = [], created = [], updated = [], synced = [],
      i_strings = fst (st_add st_empty (Some [])), wl = [], tl = [], cl = [],
      by_id = None, by_severity = None, open_idxs = None, waiver_to_idxs = None, issue_to_waiver_links = None,
      tp_to_idxs = None, issue_to_tp_links = None, coverage_links_cache = None\<rparr>"

definition invalidate_indices :: "IssueSet \<Rightarrow> IssueSet" where
  "invalidate_indices s =
     s\<lparr>by_id := None, by_severity := None, open_idxs := None, waiver_to_idxs := None, issue_to_waiver_links := None,
       tp_to_idxs := None, issue_to_tp_links := None, coverage_links_cache := None\<rparr>"

section \<open>Reading the arrays\<close>

definition col :: "int list \<Rightarrow> nat \<Rightarrow> int res" where
  "col xs i = (if i < length xs then Inr (xs ! i) else Inl IndexError)"

definition str_of :: "IssueSet \<Rightarrow> int \<Rightarrow> pystr res" where
  "str_of s i = st_get (i_strings s) (nat i)"

definition severity_of :: "int \<Rightarrow> int" where "severity_of v = fst (unpack_enums v)"
definition kind_of :: "int \<Rightarrow> int" where "kind_of v = fst (snd (unpack_enums v))"
definition state_of :: "int \<Rightarrow> int" where "state_of v = fst (snd (snd (unpack_enums v)))"
definition resolution_of :: "int \<Rightarrow> int" where "resolution_of v = snd (snd (snd (unpack_enums v)))"

definition h_id :: "IssueSet \<Rightarrow> nat \<Rightarrow> pystr res" where "h_id s i = bindE (col (id_idxs s) i) (str_of s)"
definition h_ext :: "IssueSet \<Rightarrow> nat \<Rightarrow> pystr res" where "h_ext s i = bindE (col (ext_idxs s) i) (str_of s)"
definition h_severity :: "IssueSet \<Rightarrow> nat \<Rightarrow> int res" where "h_severity s i = bindE (col (enums s) i) (\<lambda>v. Inr (severity_of v))"
definition h_kind :: "IssueSet \<Rightarrow> nat \<Rightarrow> int res" where "h_kind s i = bindE (col (enums s) i) (\<lambda>v. Inr (kind_of v))"
definition h_state :: "IssueSet \<Rightarrow> nat \<Rightarrow> int res" where "h_state s i = bindE (col (enums s) i) (\<lambda>v. Inr (state_of v))"
definition h_resolution :: "IssueSet \<Rightarrow> nat \<Rightarrow> int res" where "h_resolution s i = bindE (col (enums s) i) (\<lambda>v. Inr (resolution_of v))"
definition h_created_at :: "IssueSet \<Rightarrow> nat \<Rightarrow> int res" where "h_created_at s i = col (created s) i"
definition h_updated_at :: "IssueSet \<Rightarrow> nat \<Rightarrow> int res" where "h_updated_at s i = col (updated s) i"
definition h_synced_at :: "IssueSet \<Rightarrow> nat \<Rightarrow> int res" where "h_synced_at s i = col (synced s) i"

definition is_open :: "IssueSet \<Rightarrow> nat \<Rightarrow> bool res" where
  "is_open s i = bindE (h_state s i) (\<lambda>st. Inr (st \<in> {STATE_OPEN, STATE_IN_PROGRESS}))"

definition is_closed :: "IssueSet \<Rightarrow> nat \<Rightarrow> bool res" where
  "is_closed s i = bindE (h_state s i) (\<lambda>st. Inr (st \<in> {STATE_RESOLVED, STATE_CLOSED, STATE_WONTFIX}))"

section \<open>The lazy indices\<close>

definition build_by_id :: "IssueSet \<Rightarrow> (pystr \<times> nat) list res" where
  "build_by_id s = foldE (\<lambda>d i. bindE (h_id s i) (\<lambda>n. Inr (dict_set n i d))) [] [0..<length (id_idxs s)]"

definition dict_append :: "'k \<Rightarrow> 'v \<Rightarrow> ('k \<times> 'v list) list \<Rightarrow> ('k \<times> 'v list) list" where
  "dict_append k v d = dict_set k ((case dict_get d k of None \<Rightarrow> [] | Some vs \<Rightarrow> vs) @ [v]) d"

definition build_severity :: "IssueSet \<Rightarrow> (int \<times> nat list) list" where
  "build_severity s = foldl (\<lambda>d i. dict_append (severity_of (enums s ! i)) i d) [] [0..<length (enums s)]"

definition build_open :: "IssueSet \<Rightarrow> nat list" where
  "build_open s = filter (\<lambda>i. state_of (enums s ! i) \<in> {STATE_OPEN, STATE_IN_PROGRESS}) [0..<length (enums s)]"

definition link_step ::
  "(pystr \<times> nat) list \<Rightarrow> (pystr \<times> nat list) list \<times> (pystr \<times> 'l list) list \<Rightarrow> pystr \<times> pystr \<times> 'l
   \<Rightarrow> (pystr \<times> nat list) list \<times> (pystr \<times> 'l list) list" where
  "link_step ids = (\<lambda>(to_idxs, links) (what, iid, link).
     (case dict_get ids iid of None \<Rightarrow> to_idxs | Some idx \<Rightarrow> dict_append what idx to_idxs, dict_append iid link links))"

definition wl_names :: "IssueSet \<Rightarrow> (pystr \<times> pystr \<times> (pystr \<times> pystr)) list res" where
  "wl_names s = mapE (\<lambda>(w, i). bindE (str_of s w) (\<lambda>wid. bindE (str_of s i) (\<lambda>iid. Inr (wid, iid, (wid, iid))))) (wl s)"

definition tl_names :: "IssueSet \<Rightarrow> (pystr \<times> pystr \<times> (pystr \<times> pystr \<times> int)) list res" where
  "tl_names s = mapE (\<lambda>(t, i, lt). bindE (str_of s t) (\<lambda>tp. bindE (str_of s i) (\<lambda>iid. Inr (tp, iid, (tp, iid, lt))))) (tl s)"

definition cl_names :: "IssueSet \<Rightarrow> (pystr \<times> pystr \<times> pystr \<times> int) list res" where
  "cl_names s = mapE (\<lambda>(sc, b, i, lt). bindE (str_of s sc) (\<lambda>sc. bindE (str_of s b) (\<lambda>b. bindE (str_of s i) (\<lambda>i. Inr (sc, b, i, lt))))) (cl s)"

definition ensure_by_id :: "(IssueSet, (pystr \<times> nat) list) op" where
  "ensure_by_id s =
     (case by_id s of
        Some d \<Rightarrow> (s, Inr d)
      | None \<Rightarrow> (case build_by_id s of Inl e \<Rightarrow> (s, Inl e) | Inr d \<Rightarrow> (s\<lparr>by_id := Some d\<rparr>, Inr d)))"

definition ensure_severity_index :: "(IssueSet, (int \<times> nat list) list) op" where
  "ensure_severity_index s =
     (case by_severity s of Some d \<Rightarrow> (s, Inr d) | None \<Rightarrow> (s\<lparr>by_severity := Some (build_severity s)\<rparr>, Inr (build_severity s)))"

definition ensure_open_index :: "(IssueSet, nat list) op" where
  "ensure_open_index s =
     (case open_idxs s of Some d \<Rightarrow> (s, Inr d) | None \<Rightarrow> (s\<lparr>open_idxs := Some (build_open s)\<rparr>, Inr (build_open s)))"

text \<open>The waiver and testpoint indices are pairs that are set and tested together by their first part.\<close>

definition ensure_waiver_indices :: "(IssueSet, unit) op" where
  "ensure_waiver_indices s =
     (if waiver_to_idxs s \<noteq> None then (s, Inr ())
      else bindS ensure_by_id (\<lambda>ids. bindS (liftS wl_names) (\<lambda>ls.
        let (w2i, i2w) = foldl (link_step ids) ([], []) ls
        in modS (\<lambda>s. s\<lparr>waiver_to_idxs := Some w2i, issue_to_waiver_links := Some i2w\<rparr>))) s)"

definition ensure_tp_indices :: "(IssueSet, unit) op" where
  "ensure_tp_indices s =
     (if tp_to_idxs s \<noteq> None then (s, Inr ())
      else bindS ensure_by_id (\<lambda>ids. bindS (liftS tl_names) (\<lambda>ls.
        let (t2i, i2t) = foldl (link_step ids) ([], []) ls
        in modS (\<lambda>s. s\<lparr>tp_to_idxs := Some t2i, issue_to_tp_links := Some i2t\<rparr>))) s)"

definition ensure_coverage_links :: "(IssueSet, (pystr \<times> pystr \<times> pystr \<times> int) list) op" where
  "ensure_coverage_links s =
     (case coverage_links_cache s of
        Some ls \<Rightarrow> (s, Inr ls)
      | None \<Rightarrow> bindS (liftS cl_names) (\<lambda>ls. bindS (modS (\<lambda>s. s\<lparr>coverage_links_cache := Some ls\<rparr>)) (\<lambda>_. retS ls)) s)"

section \<open>Writing\<close>

text \<open>\<open>array.append\<close> and item assignment refuse values their type code cannot hold.\<close>

definition arr_append :: "nat \<Rightarrow> int \<Rightarrow> int list \<Rightarrow> int list res" where
  "arr_append width v xs = (if 0 \<le> v \<and> v < 256 ^ width then Inr (xs @ [v]) else Inl OverflowError)"

definition arr_set :: "nat \<Rightarrow> nat \<Rightarrow> int \<Rightarrow> int list \<Rightarrow> int list res" where
  "arr_set width i v xs =
     (if length xs \<le> i then Inl IndexError
      else if 0 \<le> v \<and> v < 256 ^ width then Inr (xs[i := v]) else Inl OverflowError)"

definition changeS :: "(IssueSet \<Rightarrow> int list) \<Rightarrow> ((int list \<Rightarrow> int list) \<Rightarrow> IssueSet \<Rightarrow> IssueSet) \<Rightarrow> (int list \<Rightarrow> int list res) \<Rightarrow> (IssueSet, unit) op" where
  "changeS get put f s = (case f (get s) of Inl e \<Rightarrow> (s, Inl e) | Inr xs \<Rightarrow> (put (\<lambda>_. xs) s, Inr ()))"

definition internS :: "pystr \<Rightarrow> (IssueSet, int) op" where
  "internS str s = (let (t, i) = st_add (i_strings s) (Some str) in (s\<lparr>i_strings := t\<rparr>, Inr (int i)))"

definition spec_enums :: "IssueSpec \<Rightarrow> int" where
  "spec_enums spec = pack_enums (sp_severity spec) (sp_kind spec) (sp_state spec) (sp_resolution spec)"

definition add_issue :: "IssueSpec \<Rightarrow> (IssueSet, nat) op" where
  "add_issue spec =
     bindS ensure_by_id (\<lambda>ids.
     if sp_id spec \<in> set (dict_keys ids) then raiseS ValueError
     else bindS (liftS (\<lambda>s. Inr (length (id_idxs s)))) (\<lambda>idx.
       bindS (internS (sp_id spec)) (\<lambda>i. bindS (changeS id_idxs id_idxs_update (arr_append 2 i)) (\<lambda>_.
       bindS (internS (sp_ext spec)) (\<lambda>i. bindS (changeS ext_idxs ext_idxs_update (arr_append 2 i)) (\<lambda>_.
       bindS (changeS enums enums_update (arr_append 2 (spec_enums spec))) (\<lambda>_.
       bindS (changeS created created_update (arr_append 4 (sp_created_at spec))) (\<lambda>_.
       bindS (changeS updated updated_update (arr_append 4 (sp_updated_at spec))) (\<lambda>_.
       bindS (changeS synced synced_update (arr_append 4 (sp_synced_at spec))) (\<lambda>_.
       bindS (modS (\<lambda>s. s\<lparr>by_id := Some (dict_set (sp_id spec) idx ids), by_severity := None, open_idxs := None\<rparr>)) (\<lambda>_.
       retS idx)))))))))))"

definition update_issue :: "nat \<Rightarrow> IssueSpec \<Rightarrow> (IssueSet, unit) op" where
  "update_issue idx spec =
     bindS (internS (sp_ext spec)) (\<lambda>i. bindS (changeS ext_idxs ext_idxs_update (arr_set 2 idx i)) (\<lambda>_.
     bindS (changeS enums enums_update (arr_set 2 idx (spec_enums spec))) (\<lambda>_.
     bindS (changeS created created_update (arr_set 4 idx (sp_created_at spec))) (\<lambda>_.
     bindS (changeS updated updated_update (arr_set 4 idx (sp_updated_at spec))) (\<lambda>_.
     bindS (changeS synced synced_update (arr_set 4 idx (sp_synced_at spec))) (\<lambda>_.
     modS invalidate_indices))))))"

definition add_waiver_link :: "pystr \<Rightarrow> pystr \<Rightarrow> (IssueSet, unit) op" where
  "add_waiver_link waiver_id issue_id =
     bindS (internS waiver_id) (\<lambda>w. bindS (internS issue_id) (\<lambda>i.
       modS (\<lambda>s. s\<lparr>wl := wl s @ [(w, i)], waiver_to_idxs := None, issue_to_waiver_links := None\<rparr>)))"

definition add_testpoint_link :: "pystr \<Rightarrow> pystr \<Rightarrow> int \<Rightarrow> (IssueSet, unit) op" where
  "add_testpoint_link tp_name issue_id link_type =
     bindS (internS tp_name) (\<lambda>t. bindS (internS issue_id) (\<lambda>i.
       modS (\<lambda>s. s\<lparr>tl := tl s @ [(t, i, link_type)], tp_to_idxs := None, issue_to_tp_links := None\<rparr>)))"

definition add_coverage_link :: "pystr \<Rightarrow> pystr \<Rightarrow> pystr \<Rightarrow> int \<Rightarrow> (IssueSet, unit) op" where
  "add_coverage_link scope_path bin_name issue_id link_type =
     bindS (internS scope_path) (\<lambda>sc. bindS (internS bin_name) (\<lambda>b. bindS (internS issue_id) (\<lambda>i.
       modS (\<lambda>s. s\<lparr>cl := cl s @ [(sc, b, i, link_type)], coverage_links_cache := None\<rparr>))))"

section \<open>Queries\<close>

definition issues :: "IssueSet \<Rightarrow> nat list" where
  "issues s = [0..<length (id_idxs s)]"

definition get_issue :: "pystr \<Rightarrow> (IssueSet, nat option) op" where
  "get_issue issue_id = bindS ensure_by_id (\<lambda>ids. retS (dict_get ids issue_id))"

definition open_issues :: "(IssueSet, nat list) op" where
  "open_issues = ensure_open_index"

definition issues_by_severity :: "int \<Rightarrow> (IssueSet, nat list) op" where
  "issues_by_severity severity = bindS ensure_severity_index (\<lambda>d. retS (case dict_get d severity of None \<Rightarrow> [] | Some is \<Rightarrow> is))"

definition entries :: "('k \<times> 'v list) list option \<Rightarrow> 'k \<Rightarrow> 'v list" where
  "entries d k = (case d of None \<Rightarrow> [] | Some d \<Rightarrow> (case dict_get d k of None \<Rightarrow> [] | Some vs \<Rightarrow> vs))"

definition issues_for_waiver :: "pystr \<Rightarrow> (IssueSet, nat list) op" where
  "issues_for_waiver waiver_id = bindS ensure_waiver_indices (\<lambda>_. liftS (\<lambda>s. Inr (entries (waiver_to_idxs s) waiver_id)))"

definition issues_for_testpoint :: "pystr \<Rightarrow> (IssueSet, nat list) op" where
  "issues_for_testpoint tp_name = bindS ensure_tp_indices (\<lambda>_. liftS (\<lambda>s. Inr (entries (tp_to_idxs s) tp_name)))"

definition waivers_for_issue :: "nat \<Rightarrow> (IssueSet, (pystr \<times> pystr) list) op" where
  "waivers_for_issue idx =
     bindS ensure_waiver_indices (\<lambda>_. bindS (liftS (\<lambda>s. h_id s idx)) (\<lambda>n. liftS (\<lambda>s. Inr (entries (issue_to_waiver_links s) n))))"

definition testpoints_for_issue :: "nat \<Rightarrow> (IssueSet, (pystr \<times> pystr \<times> int) list) op" where
  "testpoints_for_issue idx =
     bindS ensure_tp_indices (\<lambda>_. bindS (liftS (\<lambda>s. h_id s idx)) (\<lambda>n. liftS (\<lambda>s. Inr (entries (issue_to_tp_links s) n))))"

definition coverage_links :: "(IssueSet, (pystr \<times> pystr \<times> pystr \<times> int) list) op" where
  "coverage_links = ensure_coverage_links"

section \<open>The member\<close>

definition issue_row :: "IssueSet \<Rightarrow> nat \<Rightarrow> int list res" where
  "issue_row s i =
     bindE (col (id_idxs s) i) (\<lambda>a. bindE (col (ext_idxs s) i) (\<lambda>b. bindE (col (enums s) i) (\<lambda>c.
     bindE (col (created s) i) (\<lambda>d. bindE (col (updated s) i) (\<lambda>e. bindE (col (synced s) i) (\<lambda>f. Inr [a, b, c, d, e, f]))))))"

definition issues_serialize :: "IssueSet \<Rightarrow> bytes res" where
  "issues_serialize s =
     (let n = length (id_idxs s) in
      bindE (pack ISSUES_HDR [ISSUES_MAGIC, ISSUES_VERSION, 0, int n, int (length (wl s)), int (length (tl s)), int (length (cl s))]) (\<lambda>hdr.
      bindE (st_serialize (i_strings s)) (\<lambda>strs.
      bindE (concatE (\<lambda>i. bindE (issue_row s i) (pack ISSUE_REC)) [0..<n]) (\<lambda>recs.
      bindE (concatE (\<lambda>(a, b). pack WL_REC [a, b]) (wl s)) (\<lambda>w.
      bindE (concatE (\<lambda>(a, b, c). pack TL_REC [a, b, c]) (tl s)) (\<lambda>t.
      bindE (concatE (\<lambda>(a, b, c, d). pack CL_REC [a, b, c, d]) (cl s)) (\<lambda>c.
      Inr (hdr @ strs @ recs @ w @ t @ c))))))))"

definition read_row :: "fld list \<Rightarrow> bytes \<Rightarrow> nat \<Rightarrow> (int list \<times> nat) res" where
  "read_row fmt data offset = bindE (unpack_from fmt data offset) (\<lambda>vs. Inr (vs, offset + calcsize fmt))"

definition skip_string :: "bytes \<Rightarrow> nat \<Rightarrow> (unit \<times> nat) res" where
  "skip_string data offset = bindE (decode_varint data offset) (\<lambda>(slen, off). Inr ((), off + slen))"

definition issues_from_bytes :: "bytes \<Rightarrow> IssueSet res" where
  "issues_from_bytes data =
     bindE (unpack_from ISSUES_HDR data 0) (\<lambda>hdr. let offset = calcsize ISSUES_HDR in
     if hdr ! 0 \<noteq> ISSUES_MAGIC then Inl ValueError
     else if hdr ! 1 \<noteq> ISSUES_VERSION then Inl ValueError
     else
       bindE (st_from_bytes (drop offset data)) (\<lambda>strings.
       bindE (decode_varint data offset) (\<lambda>(count, off2).
       bindE (repeat_dec skip_string count data off2) (\<lambda>(_, offset).
       bindE (repeat_dec (read_row ISSUE_REC) (nat (hdr ! 3)) data offset) (\<lambda>(recs, offset).
       bindE (repeat_dec (read_row WL_REC) (nat (hdr ! 4)) data offset) (\<lambda>(w, offset).
       bindE (repeat_dec (read_row TL_REC) (nat (hdr ! 5)) data offset) (\<lambda>(t, offset).
       bindE (repeat_dec (read_row CL_REC) (nat (hdr ! 6)) data offset) (\<lambda>(c, offset).
       Inr \<lparr>id_idxs = map (\<lambda>r. r ! 0) recs, ext_idxs = map (\<lambda>r. r ! 1) recs, enums = map (\<lambda>r. r ! 2) recs,
            created = map (\<lambda>r. r ! 3) recs, updated = map (\<lambda>r. r ! 4) recs, synced = map (\<lambda>r. r ! 5) recs,
            i_strings = strings, wl = map (\<lambda>r. (r ! 0, r ! 1)) w, tl = map (\<lambda>r. (r ! 0, r ! 1, r ! 2)) t,
            cl = map (\<lambda>r. (r ! 0, r ! 1, r ! 2, r ! 3)) c,
            by_id = None, by_severity = None, open_idxs = None, waiver_to_idxs = None, issue_to_waiver_links = None,
            tp_to_idxs = None, issue_to_tp_links = None, coverage_links_cache = None\<rparr>))))))))"

end
