(* ===== verification/IssuesFacts.thy ===== *)
theory IssuesFacts
  imports Issues
begin

text \<open>
  The issue set against its abstract state, the list of the issues as they were specified: what every
  operation does to it, which queries it answers and that its lazily built indices agree with it, that
  \<open>issues.bin\<close> keeps it, and the two ways in which the code loses it.
\<close>

section \<open>The packed enumerations\<close>

unbundle bit_operations_syntax

lemma and_mask_bits: "(x :: int) AND 7 = take_bit 3 x" "(x :: int) AND 3 = take_bit 2 x"
  by (simp_all add: take_bit_eq_mask mask_eq_exp_minus_1)

lemma pack_enums_bits:
  "pack_enums a b c d = push_bit 13 (take_bit 3 a) OR push_bit 11 (take_bit 2 b) OR push_bit 8 (take_bit 3 c) OR push_bit 5 (take_bit 3 d)"
  by (simp add: pack_enums_def and_mask_bits)

lemma unpack_pack_enums: "unpack_enums (pack_enums a b c d) = (a mod 8, b mod 4, c mod 8, d mod 8)"
proof -
  have "drop_bit 13 (pack_enums a b c d) AND 7 = take_bit 3 a" "drop_bit 11 (pack_enums a b c d) AND 3 = take_bit 2 b"
    "drop_bit 8 (pack_enums a b c d) AND 7 = take_bit 3 c" "drop_bit 5 (pack_enums a b c d) AND 7 = take_bit 3 d"
    unfolding pack_enums_bits and_mask_bits by (auto intro!: bit_eqI simp: bit_simps)
  then show ?thesis by (simp add: unpack_enums_def take_bit_eq_mod)
qed

lemma pack_enums_range: "0 \<le> pack_enums a b c d" "pack_enums a b c d < 65536"
proof -
  have t: "take_bit 16 (pack_enums a b c d) = pack_enums a b c d"
    unfolding pack_enums_bits by (auto intro!: bit_eqI simp: bit_simps)
  then show "0 \<le> pack_enums a b c d" by (metis take_bit_nonnegative)
  show "pack_enums a b c d < 65536" using t take_bit_int_less_exp[of 16 "pack_enums a b c d"] by simp
qed


section \<open>The abstract state\<close>

definition issue_at :: "IssueSet \<Rightarrow> nat \<Rightarrow> IssueSpec" where
  "issue_at s i =
     \<lparr>sp_id = st_strings (i_strings s) ! nat (id_idxs s ! i), sp_ext = st_strings (i_strings s) ! nat (ext_idxs s ! i),
      sp_severity = severity_of (enums s ! i), sp_kind = kind_of (enums s ! i), sp_state = state_of (enums s ! i),
      sp_resolution = resolution_of (enums s ! i), sp_created_at = created s ! i, sp_updated_at = updated s ! i, sp_synced_at = synced s ! i\<rparr>"

definition issue_list :: "IssueSet \<Rightarrow> IssueSpec list" where
  "issue_list s = map (issue_at s) [0..<length (id_idxs s)]"

text \<open>What the packed field keeps of a specification.\<close>

definition masked :: "IssueSpec \<Rightarrow> IssueSpec" where
  "masked spec = spec\<lparr>sp_severity := sp_severity spec mod 8, sp_kind := sp_kind spec mod 4, sp_state := sp_state spec mod 8,
     sp_resolution := sp_resolution spec mod 8\<rparr>"

definition name_of :: "IssueSet \<Rightarrow> int \<Rightarrow> pystr" where
  "name_of s i = st_strings (i_strings s) ! nat i"

definition idx_ok :: "IssueSet \<Rightarrow> int \<Rightarrow> bool" where
  "idx_ok s i \<longleftrightarrow> 0 \<le> i \<and> nat i < length (st_strings (i_strings s))"

definition u :: "nat \<Rightarrow> int \<Rightarrow> bool" where
  "u width v \<longleftrightarrow> 0 \<le> v \<and> v < 256 ^ width"

definition issue_wf :: "IssueSet \<Rightarrow> bool" where
  "issue_wf s \<longleftrightarrow> st_inv (i_strings s) \<and>
     length (ext_idxs s) = length (id_idxs s) \<and> length (enums s) = length (id_idxs s) \<and> length (created s) = length (id_idxs s) \<and>
     length (updated s) = length (id_idxs s) \<and> length (synced s) = length (id_idxs s) \<and>
     list_all (\<lambda>i. idx_ok s i \<and> u 2 i) (id_idxs s) \<and> list_all (\<lambda>i. idx_ok s i \<and> u 2 i) (ext_idxs s) \<and> list_all (u 2) (enums s) \<and>
     list_all (u 4) (created s) \<and> list_all (u 4) (updated s) \<and> list_all (u 4) (synced s) \<and>
     list_all (\<lambda>(w, i). idx_ok s w \<and> idx_ok s i) (wl s) \<and> list_all (\<lambda>(t, i, _). idx_ok s t \<and> idx_ok s i) (tl s) \<and>
     list_all (\<lambda>(sc, b, i, _). idx_ok s sc \<and> idx_ok s b \<and> idx_ok s i) (cl s)"

section \<open>The indices\<close>

text \<open>What the lazy indices contain, in terms of the abstract state.\<close>

definition id_dict :: "IssueSpec list \<Rightarrow> (pystr \<times> nat) list" where
  "id_dict iss = foldl (\<lambda>d i. dict_set (sp_id (iss ! i)) i d) [] [0..<length iss]"

definition waiver_links :: "IssueSet \<Rightarrow> (pystr \<times> pystr) list" where
  "waiver_links s = map (\<lambda>(w, i). (name_of s w, name_of s i)) (wl s)"

definition tp_links :: "IssueSet \<Rightarrow> (pystr \<times> pystr \<times> int) list" where
  "tp_links s = map (\<lambda>(t, i, lt). (name_of s t, name_of s i, lt)) (tl s)"

definition cov_links :: "IssueSet \<Rightarrow> (pystr \<times> pystr \<times> pystr \<times> int) list" where
  "cov_links s = map (\<lambda>(sc, b, i, lt). (name_of s sc, name_of s b, name_of s i, lt)) (cl s)"

lemma str_of_ok: "idx_ok s i \<Longrightarrow> str_of s i = Inr (name_of s i)"
  by (simp add: str_of_def st_get_def idx_ok_def name_of_def)

lemma h_id_ok: "issue_wf s \<Longrightarrow> i < length (id_idxs s) \<Longrightarrow> h_id s i = Inr (sp_id (issue_at s i))"
  by (simp add: h_id_def col_def issue_wf_def list_all_length str_of_ok) (simp add: name_of_def issue_at_def)

lemma issue_list_nth: "i < length (id_idxs s) \<Longrightarrow> issue_list s ! i = issue_at s i"
  by (simp add: issue_list_def)

lemma issue_list_length [simp]: "length (issue_list s) = length (id_idxs s)"
  by (simp add: issue_list_def)

lemma build_by_id_ok: "issue_wf s \<Longrightarrow> build_by_id s = Inr (id_dict (issue_list s))"
proof -
  assume wf: "issue_wf s"
  have "foldE (\<lambda>d i. bindE (h_id s i) (\<lambda>n. Inr (dict_set n i d))) d xs = Inr (foldl (\<lambda>d i. dict_set (sp_id (issue_list s ! i)) i d) d xs)"
    if "set xs \<subseteq> {0..<length (id_idxs s)}" for d xs
    using that by (induction xs arbitrary: d) (simp_all add: h_id_ok[OF wf] issue_list_nth)
  then show ?thesis by (simp add: build_by_id_def id_dict_def)
qed

lemma wl_names_ok: "issue_wf s \<Longrightarrow> wl_names s = Inr (map (\<lambda>(w, i). (w, i, (w, i))) (waiver_links s))"
  unfolding wl_names_def waiver_links_def map_map
  by (rule mapE_Inr) (auto simp: issue_wf_def list_all_iff str_of_ok)

lemma tl_names_ok: "issue_wf s \<Longrightarrow> tl_names s = Inr (map (\<lambda>(t, i, lt). (t, i, (t, i, lt))) (tp_links s))"
  unfolding tl_names_def tp_links_def map_map
  by (rule mapE_Inr) (auto simp: issue_wf_def list_all_iff str_of_ok)

lemma cl_names_ok: "issue_wf s \<Longrightarrow> cl_names s = Inr (cov_links s)"
  unfolding cl_names_def cov_links_def
  by (rule mapE_Inr) (auto simp: issue_wf_def list_all_iff str_of_ok)

definition w_index :: "IssueSet \<Rightarrow> (pystr \<times> nat list) list \<times> (pystr \<times> (pystr \<times> pystr) list) list" where
  "w_index s = foldl (link_step (id_dict (issue_list s))) ([], []) (map (\<lambda>(w, i). (w, i, (w, i))) (waiver_links s))"

definition t_index :: "IssueSet \<Rightarrow> (pystr \<times> nat list) list \<times> (pystr \<times> (pystr \<times> pystr \<times> int) list) list" where
  "t_index s = foldl (link_step (id_dict (issue_list s))) ([], []) (map (\<lambda>(t, i, lt). (t, i, (t, i, lt))) (tp_links s))"

text \<open>The indices of one object: each is absent or what a rebuild would give.\<close>

definition coherent :: "IssueSet \<Rightarrow> bool" where
  "coherent s \<longleftrightarrow>
     by_id s \<in> {None, Some (id_dict (issue_list s))} \<and> by_severity s \<in> {None, Some (build_severity s)} \<and>
     open_idxs s \<in> {None, Some (build_open s)} \<and> coverage_links_cache s \<in> {None, Some (cov_links s)} \<and>
     (waiver_to_idxs s \<noteq> None \<longrightarrow> waiver_to_idxs s = Some (fst (w_index s)) \<and> issue_to_waiver_links s = Some (snd (w_index s))) \<and>
     (tp_to_idxs s \<noteq> None \<longrightarrow> tp_to_idxs s = Some (fst (t_index s)) \<and> issue_to_tp_links s = Some (snd (t_index s)))"

text \<open>Two states that differ in their indices only.\<close>

definition same_data :: "IssueSet \<Rightarrow> IssueSet \<Rightarrow> bool" where
  "same_data s t \<longleftrightarrow> invalidate_indices s = invalidate_indices t"

lemma same_dataD:
  "same_data s t \<Longrightarrow> id_idxs s = id_idxs t \<and> ext_idxs s = ext_idxs t \<and> enums s = enums t \<and> created s = created t \<and>
     updated s = updated t \<and> synced s = synced t \<and> i_strings s = i_strings t \<and> wl s = wl t \<and> tl s = tl t \<and> cl s = cl t"
  by (cases s; cases t) (simp add: same_data_def invalidate_indices_def)

lemma same_data_refl [simp]: "same_data s s"
  by (simp add: same_data_def)

lemma same_data_views:
  assumes "same_data s t"
  shows "issue_list s = issue_list t" "issue_wf s = issue_wf t" "waiver_links s = waiver_links t" "tp_links s = tp_links t"
    "cov_links s = cov_links t" "build_severity s = build_severity t" "build_open s = build_open t" "w_index s = w_index t" "t_index s = t_index t"
proof -
  note d = same_dataD[OF assms]
  have n: "name_of s = name_of t" "idx_ok s = idx_ok t" using d by (auto simp: name_of_def idx_ok_def)
  have "issue_at s = issue_at t" using d by (auto simp: issue_at_def)
  then show l: "issue_list s = issue_list t" using d by (simp add: issue_list_def)
  show w: "waiver_links s = waiver_links t" "tp_links s = tp_links t" "cov_links s = cov_links t"
    using d n by (simp_all add: waiver_links_def tp_links_def cov_links_def)
  show "issue_wf s = issue_wf t" using d n by (simp add: issue_wf_def)
  show "build_severity s = build_severity t" "build_open s = build_open t" using d by (simp_all add: build_severity_def build_open_def)
  show "w_index s = w_index t" "t_index s = t_index t" using l w by (simp_all add: w_index_def t_index_def)
qed

section \<open>A longer string table\<close>

definition ext_strings :: "IssueSet \<Rightarrow> strtab \<Rightarrow> bool" where
  "ext_strings s t \<longleftrightarrow> st_inv t \<and> (\<exists>more. st_strings t = st_strings (i_strings s) @ more)"

lemma ext_strings_ids:
  assumes "ext_strings s t" "idx_ok s i"
  shows "idx_ok (s\<lparr>i_strings := t\<rparr>) i" "name_of (s\<lparr>i_strings := t\<rparr>) i = name_of s i"
  using assms by (auto simp: ext_strings_def idx_ok_def name_of_def nth_append)

lemma issue_at_names:
  "issue_at s i = \<lparr>sp_id = name_of s (id_idxs s ! i), sp_ext = name_of s (ext_idxs s ! i),
      sp_severity = severity_of (enums s ! i), sp_kind = kind_of (enums s ! i), sp_state = state_of (enums s ! i),
      sp_resolution = resolution_of (enums s ! i), sp_created_at = created s ! i, sp_updated_at = updated s ! i, sp_synced_at = synced s ! i\<rparr>"
  by (simp add: issue_at_def name_of_def)

lemma wf_arrays:
  assumes "issue_wf s" "i < length (id_idxs s)"
  shows "idx_ok s (id_idxs s ! i)" "idx_ok s (ext_idxs s ! i)"
  using assms by (simp_all add: issue_wf_def list_all_length)

lemma with_strings:
  assumes wf: "issue_wf s" and t: "ext_strings s t"
  shows "issue_wf (s\<lparr>i_strings := t\<rparr>)" "issue_list (s\<lparr>i_strings := t\<rparr>) = issue_list s"
    "waiver_links (s\<lparr>i_strings := t\<rparr>) = waiver_links s" "tp_links (s\<lparr>i_strings := t\<rparr>) = tp_links s" "cov_links (s\<lparr>i_strings := t\<rparr>) = cov_links s"
proof -
  note ids = ext_strings_ids[OF t]
  have links: "\<forall>(w, i)\<in>set (wl s). idx_ok s w \<and> idx_ok s i" "\<forall>(t, i, _)\<in>set (tl s). idx_ok s t \<and> idx_ok s i"
    "\<forall>(sc, b, i, _)\<in>set (cl s). idx_ok s sc \<and> idx_ok s b \<and> idx_ok s i"
    using wf by (simp_all add: issue_wf_def list_all_iff)
  show "issue_wf (s\<lparr>i_strings := t\<rparr>)"
    using wf ids(1) t unfolding issue_wf_def by (auto simp: list_all_iff ext_strings_def)
  have "issue_at (s\<lparr>i_strings := t\<rparr>) i = issue_at s i" if "i < length (id_idxs s)" for i
    using ids(2)[OF wf_arrays(1)[OF wf that]] ids(2)[OF wf_arrays(2)[OF wf that]] by (simp add: issue_at_names)
  then show "issue_list (s\<lparr>i_strings := t\<rparr>) = issue_list s" by (simp add: issue_list_def)
  show "waiver_links (s\<lparr>i_strings := t\<rparr>) = waiver_links s" "tp_links (s\<lparr>i_strings := t\<rparr>) = tp_links s" "cov_links (s\<lparr>i_strings := t\<rparr>) = cov_links s"
    using links ids(2) by (auto simp: waiver_links_def tp_links_def cov_links_def)
qed

lemma st_add_ext:
  assumes "st_inv (i_strings s)" "st_add (i_strings s) (Some str) = (t, i)"
  shows "ext_strings s t" "idx_ok (s\<lparr>i_strings := t\<rparr>) (int i)" "name_of (s\<lparr>i_strings := t\<rparr>) (int i) = str"
  using st.inv_add[OF assms(1), of str] st.tab_add[OF assms(1), of str] st.idx_add[OF assms(1), of str] assms
  by (auto simp: ext_strings_def idx_ok_def name_of_def)

lemma ext_trans: "ext_strings s t \<Longrightarrow> ext_strings (s\<lparr>i_strings := t\<rparr>) t' \<Longrightarrow> ext_strings s t'"
  by (auto simp: ext_strings_def)

section \<open>The index of the identifiers\<close>

lemma id_dict_snoc: "id_dict (xs @ [x]) = dict_set (sp_id x) (length xs) (id_dict xs)"
proof -
  have "foldl (\<lambda>d i. dict_set (sp_id ((xs @ [x]) ! i)) i d) d is = foldl (\<lambda>d i. dict_set (sp_id (xs ! i)) i d) d is"
    if "set is \<subseteq> {0..<length xs}" for d "is"
    using that by (induction "is" arbitrary: d) (simp_all add: nth_append)
  then show ?thesis by (simp add: id_dict_def)
qed

lemma id_dict_keys: "set (dict_keys (id_dict xs)) = sp_id ` set xs"
  by (induction xs rule: rev_induct) (auto simp: id_dict_snoc dict_keys_set simp: id_dict_def[of "[]"])

lemma distinct_map_snocD: "distinct (map f (xs @ [x])) \<Longrightarrow> f x \<notin> f ` set xs"
  by auto

lemma id_dict_get:
  "distinct (map sp_id xs) \<Longrightarrow> dict_get (id_dict xs) n = Some i \<longleftrightarrow> i < length xs \<and> sp_id (xs ! i) = n"
proof (induction xs arbitrary: i rule: rev_induct)
  case (snoc x xs)
  have "sp_id (xs ! i) \<noteq> sp_id x" if "i < length xs" for i
    using snoc.prems that by (metis distinct_map_snocD image_eqI nth_mem)
  with snoc show ?case by (auto simp: id_dict_snoc dict_get_set nth_append less_Suc_eq)
qed (simp add: id_dict_def)

section \<open>Adding an issue\<close>

lemma ensure_by_id_ok:
  assumes "issue_wf s" "by_id s \<in> {None, Some (id_dict (issue_list s))}"
  shows "ensure_by_id s = (s\<lparr>by_id := Some (id_dict (issue_list s))\<rparr>, Inr (id_dict (issue_list s)))"
  using assms by (cases s) (auto simp: ensure_by_id_def build_by_id_ok split: option.splits)

definition fits_spec :: "IssueSpec \<Rightarrow> bool" where
  "fits_spec spec \<longleftrightarrow> u 4 (sp_created_at spec) \<and> u 4 (sp_updated_at spec) \<and> u 4 (sp_synced_at spec)"

lemma spec_enums_u: "u 2 (spec_enums spec)"
  using pack_enums_range by (simp add: u_def spec_enums_def)

lemma spec_enums_fields:
  "severity_of (spec_enums spec) = sp_severity spec mod 8" "kind_of (spec_enums spec) = sp_kind spec mod 4"
  "state_of (spec_enums spec) = sp_state spec mod 8" "resolution_of (spec_enums spec) = sp_resolution spec mod 8"
  by (simp_all add: severity_of_def kind_of_def state_of_def resolution_of_def spec_enums_def unpack_pack_enums)

text \<open>Room in the string table: the two names of an issue get indices of two bytes.\<close>

definition room :: "IssueSet \<Rightarrow> bool" where
  "room s \<longleftrightarrow> length (st_strings (i_strings s)) < 65535"

definition with_row :: "int \<Rightarrow> int \<Rightarrow> IssueSpec \<Rightarrow> IssueSet \<Rightarrow> IssueSet" where
  "with_row i e spec s =
     s\<lparr>id_idxs := id_idxs s @ [i], ext_idxs := ext_idxs s @ [e], enums := enums s @ [spec_enums spec],
       created := created s @ [sp_created_at spec], updated := updated s @ [sp_updated_at spec], synced := synced s @ [sp_synced_at spec]\<rparr>"

lemma st_add_length:
  assumes "st_inv t" "st_add t (Some str) = (t', i)"
  shows "length (st_strings t') \<le> Suc (length (st_strings t))" "i < length (st_strings t')"
  using st.tab_add[OF assms(1), of str] st.idx_add[OF assms(1), of str] assms(2) by (auto split: if_splits)

lemma arr_append_u: "arr_append w v xs = (if u w v then Inr (xs @ [v]) else Inl OverflowError)"
  by (simp add: arr_append_def u_def)

lemma arr_set_u: "i < length xs \<Longrightarrow> arr_set w i v xs = (if u w v then Inr (xs[i := v]) else Inl OverflowError)"
  by (simp add: arr_set_def u_def)

text \<open>The two names of an issue are entered in the string table.\<close>

lemma intern_two:
  assumes wf: "issue_wf s" and a: "st_add (i_strings s) (Some x) = (t1, i)" and b: "st_add t1 (Some y) = (t2, e)"
  shows "ext_strings s t2 \<and> idx_ok (s\<lparr>i_strings := t2\<rparr>) (int i) \<and> idx_ok (s\<lparr>i_strings := t2\<rparr>) (int e) \<and>
    name_of (s\<lparr>i_strings := t2\<rparr>) (int i) = x \<and> name_of (s\<lparr>i_strings := t2\<rparr>) (int e) = y \<and>
    (room s \<longrightarrow> u 2 (int i) \<and> u 2 (int e))"
proof -
  have inv: "st_inv (i_strings s)" using wf by (simp add: issue_wf_def)
  note a1 = st_add_ext[OF inv a]
  let ?s1 = "s\<lparr>i_strings := t1\<rparr>"
  have inv1: "st_inv (i_strings ?s1)" using a1(1) by (simp add: ext_strings_def)
  have b': "st_add (i_strings ?s1) (Some y) = (t2, e)" using b by simp
  note b1 = st_add_ext[OF inv1 b']
  have "i < 65536 \<and> e < 65536" if "room s"
    using st_add_length[OF inv a] st_add_length[OF inv1 b'] that by (simp add: room_def)
  then show ?thesis using ext_trans[OF a1(1) b1(1)] ext_strings_ids[OF b1(1) a1(2)] a1(3) b1(2,3) by (auto simp: u_def)
qed

definition added :: "IssueSpec \<Rightarrow> IssueSet \<Rightarrow> IssueSet \<Rightarrow> bool" where
  "added spec s s' \<longleftrightarrow> (\<exists>t i e. ext_strings s t \<and> idx_ok (s\<lparr>i_strings := t\<rparr>) i \<and> idx_ok (s\<lparr>i_strings := t\<rparr>) e \<and> u 2 i \<and> u 2 e \<and>
     fits_spec spec \<and> name_of (s\<lparr>i_strings := t\<rparr>) i = sp_id spec \<and> name_of (s\<lparr>i_strings := t\<rparr>) e = sp_ext spec \<and>
     s' = (with_row i e spec (s\<lparr>i_strings := t\<rparr>))\<lparr>
       by_id := Some (dict_set (sp_id spec) (length (id_idxs s)) (id_dict (issue_list s))), by_severity := None, open_idxs := None\<rparr>)"

lemma add_issue_cases:
  assumes wf: "issue_wf s" and ids: "by_id s \<in> {None, Some (id_dict (issue_list s))}"
  shows "add_issue spec s = (s', Inr k) \<Longrightarrow>
      k = length (id_idxs s) \<and> sp_id spec \<notin> sp_id ` set (issue_list s) \<and> added spec s s'"
    "sp_id spec \<in> sp_id ` set (issue_list s) \<Longrightarrow>
      add_issue spec s = (s\<lparr>by_id := Some (id_dict (issue_list s))\<rparr>, Inl ValueError)"
    "sp_id spec \<notin> sp_id ` set (issue_list s) \<Longrightarrow> room s \<Longrightarrow> fits_spec spec \<Longrightarrow> \<exists>s'. add_issue spec s = (s', Inr (length (id_idxs s)))"
proof -
  obtain t1 i where a: "st_add (i_strings s) (Some (sp_id spec)) = (t1, i)" by fastforce
  obtain t2 e where b: "st_add t1 (Some (sp_ext spec)) = (t2, e)" by fastforce
  note two = intern_two[OF wf a b]
  note run = add_issue_def bindS_def ensure_by_id_ok[OF wf ids] internS_def changeS_def arr_append_u a b spec_enums_u id_dict_keys
  show "sp_id spec \<in> sp_id ` set (issue_list s) \<Longrightarrow>
      add_issue spec s = (s\<lparr>by_id := Some (id_dict (issue_list s))\<rparr>, Inl ValueError)" by (simp add: run del: set_map)
  show "sp_id spec \<notin> sp_id ` set (issue_list s) \<Longrightarrow> room s \<Longrightarrow> fits_spec spec \<Longrightarrow> \<exists>s'. add_issue spec s = (s', Inr (length (id_idxs s)))"
    using two by (simp add: run fits_spec_def del: set_map)
  assume r: "add_issue spec s = (s', Inr k)"
  have new: "sp_id spec \<notin> sp_id ` set (issue_list s)" using r by (auto simp: run simp del: set_map)
  then have f: "u 2 (int i)" "u 2 (int e)" "fits_spec spec"
    and s': "k = length (id_idxs s)" "s' = (with_row (int i) (int e) spec (s\<lparr>i_strings := t2\<rparr>))\<lparr>
       by_id := Some (dict_set (sp_id spec) (length (id_idxs s)) (id_dict (issue_list s))), by_severity := None, open_idxs := None\<rparr>"
    using r by (auto simp: run fits_spec_def with_row_def simp del: set_map split: if_splits)
  show "k = length (id_idxs s) \<and> sp_id spec \<notin> sp_id ` set (issue_list s) \<and> added spec s s'"
    unfolding added_def using new f s' two by blast
qed

lemma with_row_views:
  assumes wf: "issue_wf s" and ok: "idx_ok s i" "idx_ok s e" "u 2 i" "u 2 e" "fits_spec spec" "name_of s i = sp_id spec" "name_of s e = sp_ext spec"
  shows "issue_wf (with_row i e spec s)" "issue_list (with_row i e spec s) = issue_list s @ [masked spec]"
proof -
  have v: "name_of (with_row i e spec s) = name_of s" "idx_ok (with_row i e spec s) = idx_ok s"
    by (auto simp: with_row_def name_of_def idx_ok_def)
  show "issue_wf (with_row i e spec s)"
    using wf ok(1-5) spec_enums_u unfolding issue_wf_def v by (simp add: with_row_def fits_spec_def)
  have len: "length (ext_idxs s) = length (id_idxs s)" "length (enums s) = length (id_idxs s)" "length (created s) = length (id_idxs s)"
    "length (updated s) = length (id_idxs s)" "length (synced s) = length (id_idxs s)"
    using wf by (simp_all add: issue_wf_def)
  have old: "issue_at (with_row i e spec s) j = issue_at s j" if "j < length (id_idxs s)" for j
    using that len unfolding issue_at_names v by (simp add: with_row_def nth_append)
  have new: "issue_at (with_row i e spec s) (length (id_idxs s)) = masked spec"
    using ok(6,7) len unfolding issue_at_names v by (simp add: with_row_def nth_append spec_enums_fields masked_def)
  have "length (id_idxs (with_row i e spec s)) = Suc (length (id_idxs s))" by (simp add: with_row_def)
  then show "issue_list (with_row i e spec s) = issue_list s @ [masked spec]"
    using old new by (simp add: issue_list_def)
qed

section \<open>Replacing an issue\<close>

definition set_row :: "int \<Rightarrow> nat \<Rightarrow> IssueSpec \<Rightarrow> IssueSet \<Rightarrow> IssueSet" where
  "set_row e idx spec s =
     s\<lparr>ext_idxs := (ext_idxs s)[idx := e], enums := (enums s)[idx := spec_enums spec], created := (created s)[idx := sp_created_at spec],
       updated := (updated s)[idx := sp_updated_at spec], synced := (synced s)[idx := sp_synced_at spec]\<rparr>"

lemma list_all_set: "list_all P xs \<Longrightarrow> P v \<Longrightarrow> list_all P (xs[i := v])"
  by (auto simp: list_all_iff dest: set_update_subset_insert[THEN subsetD])

lemma set_row_views:
  assumes wf: "issue_wf s" and ok: "idx_ok s e" "u 2 e" "fits_spec spec" "name_of s e = sp_ext spec" and idx: "idx < length (id_idxs s)"
  shows "issue_wf (set_row e idx spec s)"
    "issue_list (set_row e idx spec s) = (issue_list s)[idx := (masked spec)\<lparr>sp_id := sp_id (issue_list s ! idx)\<rparr>]"
proof -
  have v: "name_of (set_row e idx spec s) = name_of s" "idx_ok (set_row e idx spec s) = idx_ok s"
    by (auto simp: set_row_def name_of_def idx_ok_def)
  show "issue_wf (set_row e idx spec s)"
    using wf ok(1-3) spec_enums_u unfolding issue_wf_def v by (simp add: set_row_def fits_spec_def list_all_set)
  have len: "length (ext_idxs s) = length (id_idxs s)" "length (enums s) = length (id_idxs s)" "length (created s) = length (id_idxs s)"
    "length (updated s) = length (id_idxs s)" "length (synced s) = length (id_idxs s)"
    using wf by (simp_all add: issue_wf_def)
  have old: "issue_at (set_row e idx spec s) j = issue_at s j" if "j \<noteq> idx" for j
    using that unfolding issue_at_names v by (simp add: set_row_def)
  have new: "issue_at (set_row e idx spec s) idx = (masked spec)\<lparr>sp_id := sp_id (issue_list s ! idx)\<rparr>"
    using ok(4) len idx unfolding issue_at_names v by (simp add: set_row_def spec_enums_fields masked_def issue_list_def issue_at_names)
  show "issue_list (set_row e idx spec s) = (issue_list s)[idx := (masked spec)\<lparr>sp_id := sp_id (issue_list s ! idx)\<rparr>]"
  proof (rule nth_equalityI)
    show "length (issue_list (set_row e idx spec s)) = length ((issue_list s)[idx := (masked spec)\<lparr>sp_id := sp_id (issue_list s ! idx)\<rparr>])"
      by (simp add: set_row_def)
    fix j assume "j < length (issue_list (set_row e idx spec s))"
    then have j: "j < length (id_idxs s)" by (simp add: set_row_def)
    have "length (id_idxs (set_row e idx spec s)) = length (id_idxs s)" by (simp add: set_row_def)
    then show "issue_list (set_row e idx spec s) ! j = (issue_list s)[idx := (masked spec)\<lparr>sp_id := sp_id (issue_list s ! idx)\<rparr>] ! j"
      using j idx old new by (cases "j = idx") (simp_all add: issue_list_nth)
  qed
qed

lemma update_issue_cases:
  assumes wf: "issue_wf s" and idx: "idx < length (id_idxs s)"
  shows "update_issue idx spec s = (s', Inr ()) \<Longrightarrow>
      \<exists>t e. ext_strings s t \<and> idx_ok (s\<lparr>i_strings := t\<rparr>) e \<and> u 2 e \<and> fits_spec spec \<and> name_of (s\<lparr>i_strings := t\<rparr>) e = sp_ext spec \<and>
        s' = invalidate_indices (set_row e idx spec (s\<lparr>i_strings := t\<rparr>))"
    "room s \<Longrightarrow> fits_spec spec \<Longrightarrow> \<exists>s'. update_issue idx spec s = (s', Inr ())"
proof -
  have inv: "st_inv (i_strings s)" and len: "length (ext_idxs s) = length (id_idxs s)" "length (enums s) = length (id_idxs s)"
    "length (created s) = length (id_idxs s)" "length (updated s) = length (id_idxs s)" "length (synced s) = length (id_idxs s)"
    using wf by (simp_all add: issue_wf_def)
  obtain t e where a: "st_add (i_strings s) (Some (sp_ext spec)) = (t, e)" by fastforce
  note e = st_add_ext[OF inv a]
  have room: "room s \<Longrightarrow> u 2 (int e)" using st_add_length[OF inv a] by (simp add: room_def u_def)
  note run = update_issue_def bindS_def internS_def changeS_def a spec_enums_u
  show "room s \<Longrightarrow> fits_spec spec \<Longrightarrow> \<exists>s'. update_issue idx spec s = (s', Inr ())"
    using idx len room by (simp add: run arr_set_u fits_spec_def)
  assume r: "update_issue idx spec s = (s', Inr ())"
  then have "u 2 (int e)" "fits_spec spec" "s' = invalidate_indices (set_row (int e) idx spec (s\<lparr>i_strings := t\<rparr>))"
    using idx len by (auto simp: run arr_set_u fits_spec_def set_row_def split: if_splits)
  then show "\<exists>t e. ext_strings s t \<and> idx_ok (s\<lparr>i_strings := t\<rparr>) e \<and> u 2 e \<and> fits_spec spec \<and> name_of (s\<lparr>i_strings := t\<rparr>) e = sp_ext spec \<and>
        s' = invalidate_indices (set_row e idx spec (s\<lparr>i_strings := t\<rparr>))"
    using e by blast
qed

section \<open>Linking\<close>

lemma add_waiver_link_run:
  assumes wf: "issue_wf s"
  shows "\<exists>s'. add_waiver_link w iid s = (s', Inr ()) \<and> issue_wf s' \<and> issue_list s' = issue_list s \<and> waiver_links s' = waiver_links s @ [(w, iid)] \<and>
    tp_links s' = tp_links s \<and> cov_links s' = cov_links s \<and> enums s' = enums s \<and>
    by_id s' = by_id s \<and> by_severity s' = by_severity s \<and> open_idxs s' = open_idxs s \<and> coverage_links_cache s' = coverage_links_cache s \<and>
    waiver_to_idxs s' = None \<and> tp_to_idxs s' = tp_to_idxs s \<and> issue_to_tp_links s' = issue_to_tp_links s"
proof -
  obtain t1 i where a: "st_add (i_strings s) (Some w) = (t1, i)" by fastforce
  obtain t2 j where b: "st_add t1 (Some iid) = (t2, j)" by fastforce
  note two = intern_two[OF wf a b]
  let ?s = "s\<lparr>i_strings := t2\<rparr>"
  let ?s' = "?s\<lparr>wl := wl s @ [(int i, int j)], waiver_to_idxs := None, issue_to_waiver_links := None\<rparr>"
  have ext: "ext_strings s t2" using two by blast
  note v = with_strings[OF wf ext]
  have n: "name_of ?s' = name_of ?s" "idx_ok ?s' = idx_ok ?s" by (auto simp: name_of_def idx_ok_def)
  have "issue_wf ?s'" using v(1) two unfolding issue_wf_def n by simp
  moreover have "issue_list ?s' = issue_list ?s" unfolding issue_list_def issue_at_names n by simp
  moreover have "waiver_links ?s' = waiver_links s @ [(w, iid)]" using v(3) two unfolding waiver_links_def n by simp
  moreover have "tp_links ?s' = tp_links ?s" "cov_links ?s' = cov_links ?s" unfolding tp_links_def cov_links_def n by simp_all
  moreover have "add_waiver_link w iid s = (?s', Inr ())" by (simp add: add_waiver_link_def bindS_def internS_def a b)
  ultimately show ?thesis using v by simp
qed

lemma add_testpoint_link_run:
  assumes wf: "issue_wf s"
  shows "\<exists>s'. add_testpoint_link tp iid lt s = (s', Inr ()) \<and> issue_wf s' \<and> issue_list s' = issue_list s \<and> waiver_links s' = waiver_links s \<and>
    tp_links s' = tp_links s @ [(tp, iid, lt)] \<and> cov_links s' = cov_links s \<and> enums s' = enums s \<and>
    by_id s' = by_id s \<and> by_severity s' = by_severity s \<and> open_idxs s' = open_idxs s \<and> coverage_links_cache s' = coverage_links_cache s \<and>
    waiver_to_idxs s' = waiver_to_idxs s \<and> issue_to_waiver_links s' = issue_to_waiver_links s \<and> tp_to_idxs s' = None"
proof -
  obtain t1 i where a: "st_add (i_strings s) (Some tp) = (t1, i)" by fastforce
  obtain t2 j where b: "st_add t1 (Some iid) = (t2, j)" by fastforce
  note two = intern_two[OF wf a b]
  let ?s = "s\<lparr>i_strings := t2\<rparr>"
  let ?s' = "?s\<lparr>tl := tl s @ [(int i, int j, lt)], tp_to_idxs := None, issue_to_tp_links := None\<rparr>"
  have ext: "ext_strings s t2" using two by blast
  note v = with_strings[OF wf ext]
  have n: "name_of ?s' = name_of ?s" "idx_ok ?s' = idx_ok ?s" by (auto simp: name_of_def idx_ok_def)
  have "issue_wf ?s'" using v(1) two unfolding issue_wf_def n by simp
  moreover have "issue_list ?s' = issue_list ?s" unfolding issue_list_def issue_at_names n by simp
  moreover have "tp_links ?s' = tp_links s @ [(tp, iid, lt)]" using v(4) two unfolding tp_links_def n by simp
  moreover have "waiver_links ?s' = waiver_links ?s" "cov_links ?s' = cov_links ?s" unfolding waiver_links_def cov_links_def n by simp_all
  moreover have "add_testpoint_link tp iid lt s = (?s', Inr ())" by (simp add: add_testpoint_link_def bindS_def internS_def a b)
  ultimately show ?thesis using v by simp
qed

lemma add_coverage_link_run:
  assumes wf: "issue_wf s"
  shows "\<exists>s'. add_coverage_link sc b iid lt s = (s', Inr ()) \<and> issue_wf s' \<and> issue_list s' = issue_list s \<and> waiver_links s' = waiver_links s \<and>
    tp_links s' = tp_links s \<and> cov_links s' = cov_links s @ [(sc, b, iid, lt)] \<and> enums s' = enums s \<and>
    by_id s' = by_id s \<and> by_severity s' = by_severity s \<and> open_idxs s' = open_idxs s \<and> coverage_links_cache s' = None \<and>
    waiver_to_idxs s' = waiver_to_idxs s \<and> issue_to_waiver_links s' = issue_to_waiver_links s \<and>
    tp_to_idxs s' = tp_to_idxs s \<and> issue_to_tp_links s' = issue_to_tp_links s"
proof -
  obtain t1 i where a: "st_add (i_strings s) (Some sc) = (t1, i)" by fastforce
  obtain t2 j where b: "st_add t1 (Some b) = (t2, j)" by fastforce
  note two = intern_two[OF wf a b]
  let ?s2 = "s\<lparr>i_strings := t2\<rparr>"
  have ext2: "ext_strings s t2" using two by blast
  note v2 = with_strings[OF wf ext2]
  have inv: "st_inv (i_strings ?s2)" using ext2 by (simp add: ext_strings_def)
  obtain t3 k where c: "st_add (i_strings ?s2) (Some iid) = (t3, k)" by fastforce
  note c1 = st_add_ext[OF inv c]
  note v = with_strings[OF v2(1) c1(1)]
  let ?s = "s\<lparr>i_strings := t3\<rparr>"
  let ?s' = "?s\<lparr>cl := cl s @ [(int i, int j, int k, lt)], coverage_links_cache := None\<rparr>"
  have ids: "idx_ok ?s (int i)" "idx_ok ?s (int j)" "idx_ok ?s (int k)" "name_of ?s (int i) = sc" "name_of ?s (int j) = b" "name_of ?s (int k) = iid"
    using ext_strings_ids[OF c1(1)] two c1(2,3) by (simp_all)
  have n: "name_of ?s' = name_of ?s" "idx_ok ?s' = idx_ok ?s" by (auto simp: name_of_def idx_ok_def)
  have vs: "issue_wf ?s" "issue_list ?s = issue_list s" "waiver_links ?s = waiver_links s" "tp_links ?s = tp_links s" "cov_links ?s = cov_links s"
    using v v2 by simp_all
  have "issue_wf ?s'" using vs(1) ids unfolding issue_wf_def n by simp
  moreover have "issue_list ?s' = issue_list ?s" unfolding issue_list_def issue_at_names n by simp
  moreover have "cov_links ?s' = cov_links s @ [(sc, b, iid, lt)]" using vs(5) ids unfolding cov_links_def n by simp
  moreover have "waiver_links ?s' = waiver_links ?s" "tp_links ?s' = tp_links ?s" unfolding waiver_links_def tp_links_def n by simp_all
  moreover have "add_coverage_link sc b iid lt s = (?s', Inr ())" using c by (simp add: add_coverage_link_def bindS_def internS_def a b)
  ultimately show ?thesis using vs by simp
qed

section \<open>Queries\<close>

definition indexed :: "IssueSet \<Rightarrow> bool" where
  "indexed s \<longleftrightarrow> by_id s \<in> {None, Some (id_dict (issue_list s))} \<and> by_severity s \<in> {None, Some (build_severity s)} \<and>
     open_idxs s \<in> {None, Some (build_open s)} \<and> coverage_links_cache s \<in> {None, Some (cov_links s)}"

lemma coherent_indexed: "coherent s \<Longrightarrow> indexed s"
  by (simp add: coherent_def indexed_def)

text \<open>The issues that the links of one name lead to, in the order of the links; links to no issue are skipped.\<close>

definition linked_issues :: "(pystr \<times> nat) list \<Rightarrow> (pystr \<times> pystr \<times> 'l) list \<Rightarrow> pystr \<Rightarrow> nat list" where
  "linked_issues ids ls what = concat (map (\<lambda>(a, b, _). case dict_get ids b of None \<Rightarrow> [] | Some i \<Rightarrow> if a = what then [i] else []) ls)"

definition links_of :: "(pystr \<times> pystr \<times> 'l) list \<Rightarrow> pystr \<Rightarrow> 'l list" where
  "links_of ls iid = map (\<lambda>(_, _, l). l) (filter (\<lambda>(_, b, _). b = iid) ls)"

lemma entries_append: "entries (Some (dict_append k v d)) k' = entries (Some d) k' @ (if k = k' then [v] else [])"
  by (auto simp: entries_def dict_append_def dict_get_set split: option.splits)

lemma link_index:
  "entries (Some (fst (foldl (link_step ids) acc ls))) what = entries (Some (fst acc)) what @ linked_issues ids ls what \<and>
   entries (Some (snd (foldl (link_step ids) acc ls))) iid = entries (Some (snd acc)) iid @ links_of ls iid"
proof (induction ls arbitrary: acc)
  case (Cons l ls)
  obtain a b c where l: "l = (a, b, c)" by (cases l)
  have "entries (Some (fst (link_step ids acc l))) what = entries (Some (fst acc)) what @ linked_issues ids [l] what"
    by (cases acc) (simp add: link_step_def l linked_issues_def entries_append split: option.split)
  moreover have "entries (Some (snd (link_step ids acc l))) iid = entries (Some (snd acc)) iid @ links_of [l] iid"
    by (cases acc) (simp add: link_step_def l links_of_def entries_append)
  ultimately show ?case using Cons.IH[of "link_step ids acc l"] by (simp add: linked_issues_def links_of_def)
qed (simp add: linked_issues_def links_of_def)

lemma severity_index: "entries (Some (build_severity s)) sev = filter (\<lambda>i. severity_of (enums s ! i) = sev) [0..<length (enums s)]"
proof -
  have "entries (Some (foldl (\<lambda>d i. dict_append (f i) i d) d is)) k = entries (Some d) k @ filter (\<lambda>i. f i = k) is"
    for f :: "nat \<Rightarrow> int" and d k "is"
    by (induction "is" arbitrary: d) (simp_all add: entries_append)
  from this[where d = "[]"] show ?thesis by (simp add: build_severity_def entries_def[of "Some []"])
qed

lemma entries_nil: "entries (Some []) k = []"
  by (simp add: entries_def)

abbreviation wl_triples :: "IssueSet \<Rightarrow> (pystr \<times> pystr \<times> (pystr \<times> pystr)) list" where
  "wl_triples s \<equiv> map (\<lambda>(w, i). (w, i, (w, i))) (waiver_links s)"

abbreviation tl_triples :: "IssueSet \<Rightarrow> (pystr \<times> pystr \<times> (pystr \<times> pystr \<times> int)) list" where
  "tl_triples s \<equiv> map (\<lambda>(t, i, lt). (t, i, (t, i, lt))) (tp_links s)"

lemma by_id_views:
  "issue_list (s\<lparr>by_id := d\<rparr>) = issue_list s" "issue_wf (s\<lparr>by_id := d\<rparr>) = issue_wf s"
  "waiver_links (s\<lparr>by_id := d\<rparr>) = waiver_links s" "tp_links (s\<lparr>by_id := d\<rparr>) = tp_links s" "same_data s (s\<lparr>by_id := d\<rparr>)"
proof -
  show sd: "same_data s (s\<lparr>by_id := d\<rparr>)" by (simp add: same_data_def invalidate_indices_def)
  show "issue_list (s\<lparr>by_id := d\<rparr>) = issue_list s" "issue_wf (s\<lparr>by_id := d\<rparr>) = issue_wf s"
    "waiver_links (s\<lparr>by_id := d\<rparr>) = waiver_links s" "tp_links (s\<lparr>by_id := d\<rparr>) = tp_links s"
    using same_data_views[OF sd] by simp_all
qed

lemma indexed_by_id: "indexed s \<Longrightarrow> by_id s \<in> {None, Some (id_dict (issue_list s))}"
  by (simp add: indexed_def)

lemma ensure_waiver_run:
  assumes wf: "issue_wf s" and ix: "indexed s" and none: "waiver_to_idxs s = None"
  shows "ensure_waiver_indices s = (s\<lparr>by_id := Some (id_dict (issue_list s)), waiver_to_idxs := Some (fst (w_index s)),
    issue_to_waiver_links := Some (snd (w_index s))\<rparr>, Inr ())"
proof -
  have "wl_names (s\<lparr>by_id := Some (id_dict (issue_list s))\<rparr>) = Inr (wl_triples s)"
    using wl_names_ok[of "s\<lparr>by_id := Some (id_dict (issue_list s))\<rparr>"] wf by (simp add: by_id_views)
  then show ?thesis
    using none by (simp add: ensure_waiver_indices_def bindS_def ensure_by_id_ok[OF wf indexed_by_id[OF ix]] split_def w_index_def)
qed

lemma ensure_tp_run:
  assumes wf: "issue_wf s" and ix: "indexed s" and none: "tp_to_idxs s = None"
  shows "ensure_tp_indices s = (s\<lparr>by_id := Some (id_dict (issue_list s)), tp_to_idxs := Some (fst (t_index s)),
    issue_to_tp_links := Some (snd (t_index s))\<rparr>, Inr ())"
proof -
  have "tl_names (s\<lparr>by_id := Some (id_dict (issue_list s))\<rparr>) = Inr (tl_triples s)"
    using tl_names_ok[of "s\<lparr>by_id := Some (id_dict (issue_list s))\<rparr>"] wf by (simp add: by_id_views)
  then show ?thesis
    using none by (simp add: ensure_tp_indices_def bindS_def ensure_by_id_ok[OF wf indexed_by_id[OF ix]] split_def t_index_def)
qed

text \<open>Building indices changes nothing that they are built from, and keeps every index that was right.\<close>

lemma pair_trans: "x \<in> {a, b} \<Longrightarrow> y \<in> {x, b} \<Longrightarrow> y \<in> {a, b}"
  by auto

lemma coherent_same:
  assumes "same_data s s'" "coherent s"
    and "by_id s' \<in> {by_id s, Some (id_dict (issue_list s))}" "by_severity s' \<in> {by_severity s, Some (build_severity s)}"
    "open_idxs s' \<in> {open_idxs s, Some (build_open s)}" "coverage_links_cache s' \<in> {coverage_links_cache s, Some (cov_links s)}"
    "(waiver_to_idxs s', issue_to_waiver_links s') \<in> {(waiver_to_idxs s, issue_to_waiver_links s), (Some (fst (w_index s)), Some (snd (w_index s)))}"
    "(tp_to_idxs s', issue_to_tp_links s') \<in> {(tp_to_idxs s, issue_to_tp_links s), (Some (fst (t_index s)), Some (snd (t_index s)))}"
  shows "coherent s'"
proof -
  have c: "by_id s \<in> {None, Some (id_dict (issue_list s))}" "by_severity s \<in> {None, Some (build_severity s)}"
    "open_idxs s \<in> {None, Some (build_open s)}" "coverage_links_cache s \<in> {None, Some (cov_links s)}"
    "waiver_to_idxs s \<noteq> None \<longrightarrow> waiver_to_idxs s = Some (fst (w_index s)) \<and> issue_to_waiver_links s = Some (snd (w_index s))"
    "tp_to_idxs s \<noteq> None \<longrightarrow> tp_to_idxs s = Some (fst (t_index s)) \<and> issue_to_tp_links s = Some (snd (t_index s))"
    using assms(2) unfolding coherent_def by blast+
  have "by_id s' \<in> {None, Some (id_dict (issue_list s))}" by (rule pair_trans[OF c(1) assms(3)])
  moreover have "by_severity s' \<in> {None, Some (build_severity s)}" by (rule pair_trans[OF c(2) assms(4)])
  moreover have "open_idxs s' \<in> {None, Some (build_open s)}" by (rule pair_trans[OF c(3) assms(5)])
  moreover have "coverage_links_cache s' \<in> {None, Some (cov_links s)}" by (rule pair_trans[OF c(4) assms(6)])
  moreover have "waiver_to_idxs s' \<noteq> None \<longrightarrow> waiver_to_idxs s' = Some (fst (w_index s)) \<and> issue_to_waiver_links s' = Some (snd (w_index s))"
    using c(5) assms(7) unfolding insert_iff empty_iff prod.inject by metis
  moreover have "tp_to_idxs s' \<noteq> None \<longrightarrow> tp_to_idxs s' = Some (fst (t_index s)) \<and> issue_to_tp_links s' = Some (snd (t_index s))"
    using c(6) assms(8) unfolding insert_iff empty_iff prod.inject by metis
  ultimately show ?thesis unfolding coherent_def same_data_views[OF assms(1), symmetric] by blast
qed

lemma indexed_same:
  assumes "same_data s s'" "indexed s"
    and "by_id s' \<in> {by_id s, Some (id_dict (issue_list s))}" "by_severity s' \<in> {by_severity s, Some (build_severity s)}"
    "open_idxs s' \<in> {open_idxs s, Some (build_open s)}" "coverage_links_cache s' \<in> {coverage_links_cache s, Some (cov_links s)}"
  shows "indexed s'"
proof -
  have c: "by_id s \<in> {None, Some (id_dict (issue_list s))}" "by_severity s \<in> {None, Some (build_severity s)}"
    "open_idxs s \<in> {None, Some (build_open s)}" "coverage_links_cache s \<in> {None, Some (cov_links s)}"
    using assms(2) unfolding indexed_def by blast+
  have "by_id s' \<in> {None, Some (id_dict (issue_list s))}" by (rule pair_trans[OF c(1) assms(3)])
  moreover have "by_severity s' \<in> {None, Some (build_severity s)}" by (rule pair_trans[OF c(2) assms(4)])
  moreover have "open_idxs s' \<in> {None, Some (build_open s)}" by (rule pair_trans[OF c(3) assms(5)])
  moreover have "coverage_links_cache s' \<in> {None, Some (cov_links s)}" by (rule pair_trans[OF c(4) assms(6)])
  ultimately show ?thesis unfolding indexed_def same_data_views[OF assms(1), symmetric] by blast
qed

definition quiet :: "IssueSet \<Rightarrow> IssueSet \<Rightarrow> bool" where
  "quiet s s' \<longleftrightarrow> same_data s s' \<and> (indexed s \<longrightarrow> indexed s') \<and> (coherent s \<longrightarrow> coherent s')"

lemma quietI:
  assumes "same_data s s'"
    and "by_id s' \<in> {by_id s, Some (id_dict (issue_list s))}" "by_severity s' \<in> {by_severity s, Some (build_severity s)}"
    "open_idxs s' \<in> {open_idxs s, Some (build_open s)}" "coverage_links_cache s' \<in> {coverage_links_cache s, Some (cov_links s)}"
    "(waiver_to_idxs s', issue_to_waiver_links s') \<in> {(waiver_to_idxs s, issue_to_waiver_links s), (Some (fst (w_index s)), Some (snd (w_index s)))}"
    "(tp_to_idxs s', issue_to_tp_links s') \<in> {(tp_to_idxs s, issue_to_tp_links s), (Some (fst (t_index s)), Some (snd (t_index s)))}"
  shows "quiet s s'"
  using assms(1) coherent_same[OF assms(1) _ assms(2-)] indexed_same[OF assms(1) _ assms(2-5)] unfolding quiet_def by blast

lemma same_dataI:
  "invalidate_indices s = invalidate_indices s' \<Longrightarrow> same_data s s'"
  by (simp add: same_data_def)

lemma quiet_refl [simp]: "quiet s s"
  by (simp add: quiet_def)

section \<open>What the queries answer\<close>

lemma get_issue_run:
  assumes "issue_wf s" "indexed s"
  shows "\<exists>s'. get_issue n s = (s', Inr (dict_get (id_dict (issue_list s)) n)) \<and> quiet s s'"
  using ensure_by_id_ok[OF assms(1) indexed_by_id[OF assms(2)]]
  by (auto simp: get_issue_def bindS_def intro!: quietI same_dataI) (simp_all add: invalidate_indices_def)

lemma enums_length: "issue_wf s \<Longrightarrow> length (enums s) = length (id_idxs s)"
  by (simp add: issue_wf_def)

lemma build_open_list:
  "issue_wf s \<Longrightarrow> build_open s = filter (\<lambda>i. sp_state (issue_list s ! i) \<in> {STATE_OPEN, STATE_IN_PROGRESS}) [0..<length (issue_list s)]"
  unfolding build_open_def enums_length issue_list_length by (rule filter_cong) (simp_all add: issue_list_nth issue_at_def)

lemma open_issues_run:
  assumes "issue_wf s" "indexed s"
  shows "\<exists>s'. open_issues s = (s', Inr (build_open s)) \<and> quiet s s'"
  using assms(2)
  by (cases "open_idxs s") (auto simp: open_issues_def ensure_open_index_def indexed_def invalidate_indices_def intro!: quietI same_dataI)

lemma by_severity_run:
  assumes "issue_wf s" "indexed s"
  shows "\<exists>s'. issues_by_severity sev s = (s', Inr (filter (\<lambda>i. sp_severity (issue_list s ! i) = sev) [0..<length (issue_list s)])) \<and> quiet s s'"
proof -
  have f: "filter (\<lambda>i. severity_of (enums s ! i) = sev) [0..<length (enums s)] =
      filter (\<lambda>i. sp_severity (issue_list s ! i) = sev) [0..<length (issue_list s)]"
    unfolding enums_length[OF assms(1)] issue_list_length by (rule filter_cong) (simp_all add: issue_list_nth issue_at_def)
  have e: "(case dict_get (build_severity s) sev of None \<Rightarrow> [] | Some is \<Rightarrow> is) = filter (\<lambda>i. sp_severity (issue_list s ! i) = sev) [0..<length (issue_list s)]"
    using severity_index[of s sev] unfolding entries_def f by simp
  show ?thesis
  proof (cases "by_severity s")
    case None
    then show ?thesis using e
      by (auto simp: issues_by_severity_def ensure_severity_index_def bindS_def invalidate_indices_def intro!: quietI same_dataI)
  next
    case (Some d)
    then have "d = build_severity s" using assms(2) by (simp add: indexed_def)
    then show ?thesis using e Some by (auto simp: issues_by_severity_def ensure_severity_index_def bindS_def)
  qed
qed

lemma waiver_query_run:
  assumes wf: "issue_wf s" and ix: "indexed s"
  shows "\<exists>s'. ensure_waiver_indices s = (s', Inr ()) \<and> quiet s s' \<and> (coherent s \<longrightarrow>
    entries (waiver_to_idxs s') w = linked_issues (id_dict (issue_list s)) (wl_triples s) w \<and>
    entries (issue_to_waiver_links s') iid = filter (\<lambda>(_, i). i = iid) (waiver_links s))"
proof -
  have l: "links_of (wl_triples s) iid = filter (\<lambda>(_, i). i = iid) (waiver_links s)"
    by (simp add: links_of_def filter_map comp_def split_def)
  note x = link_index[of "id_dict (issue_list s)" "([], [])" "wl_triples s", folded w_index_def, unfolded fst_conv snd_conv entries_nil append_Nil l]
  show ?thesis
  proof (cases "waiver_to_idxs s")
    case None
    let ?s' = "s\<lparr>by_id := Some (id_dict (issue_list s)), waiver_to_idxs := Some (fst (w_index s)), issue_to_waiver_links := Some (snd (w_index s))\<rparr>"
    have "quiet s ?s'" by (intro quietI same_dataI) (simp_all add: invalidate_indices_def)
    then show ?thesis using ensure_waiver_run[OF wf ix None] x l by simp
  next
    case (Some d)
    then show ?thesis using x l by (auto simp: ensure_waiver_indices_def coherent_def)
  qed
qed

lemma tp_query_run:
  assumes wf: "issue_wf s" and ix: "indexed s"
  shows "\<exists>s'. ensure_tp_indices s = (s', Inr ()) \<and> quiet s s' \<and> (coherent s \<longrightarrow>
    entries (tp_to_idxs s') tp = linked_issues (id_dict (issue_list s)) (tl_triples s) tp \<and>
    entries (issue_to_tp_links s') iid = filter (\<lambda>(_, i, _). i = iid) (tp_links s))"
proof -
  have l: "links_of (tl_triples s) iid = filter (\<lambda>(_, i, _). i = iid) (tp_links s)"
    by (simp add: links_of_def filter_map comp_def split_def)
  note x = link_index[of "id_dict (issue_list s)" "([], [])" "tl_triples s", folded t_index_def, unfolded fst_conv snd_conv entries_nil append_Nil l]
  show ?thesis
  proof (cases "tp_to_idxs s")
    case None
    let ?s' = "s\<lparr>by_id := Some (id_dict (issue_list s)), tp_to_idxs := Some (fst (t_index s)), issue_to_tp_links := Some (snd (t_index s))\<rparr>"
    have "quiet s ?s'" by (intro quietI same_dataI) (simp_all add: invalidate_indices_def)
    then show ?thesis using ensure_tp_run[OF wf ix None] x l by simp
  next
    case (Some d)
    then show ?thesis using x l by (auto simp: ensure_tp_indices_def coherent_def)
  qed
qed

lemma coverage_links_run:
  assumes wf: "issue_wf s" and ix: "indexed s"
  shows "\<exists>s'. coverage_links s = (s', Inr (cov_links s)) \<and> quiet s s'"
proof (cases "coverage_links_cache s")
  case None
  have "quiet s (s\<lparr>coverage_links_cache := Some (cov_links s)\<rparr>)" by (intro quietI same_dataI) (simp_all add: invalidate_indices_def)
  then show ?thesis using None cl_names_ok[OF wf] by (simp add: coverage_links_def ensure_coverage_links_def bindS_def)
next
  case (Some d)
  then show ?thesis using ix by (auto simp: coverage_links_def ensure_coverage_links_def indexed_def)
qed

end
