(* ===== verification/IssuesSpec.thy ===== *)
theory IssuesSpec
  imports IssuesFacts
begin

text \<open>
  The contract of the issue set. Its abstract state is the list of issues; the reachable states are those
  the write and query operations lead to from a new set. Then \<open>issues.bin\<close>, and what the code gets wrong: an
  index that is not dropped, and columns that a refused value leaves at different lengths.
\<close>

section \<open>Effects\<close>

lemma added_effect:
  assumes wf: "issue_wf s" and a: "added spec s s'" and new: "sp_id spec \<notin> sp_id ` set (issue_list s)"
  shows "issue_wf s' \<and> issue_list s' = issue_list s @ [masked spec] \<and> by_id s' = Some (id_dict (issue_list s')) \<and>
    by_severity s' = None \<and> open_idxs s' = None \<and> waiver_links s' = waiver_links s \<and> tp_links s' = tp_links s \<and> cov_links s' = cov_links s \<and>
    coverage_links_cache s' = coverage_links_cache s \<and> waiver_to_idxs s' = waiver_to_idxs s \<and> issue_to_waiver_links s' = issue_to_waiver_links s \<and>
    tp_to_idxs s' = tp_to_idxs s \<and> issue_to_tp_links s' = issue_to_tp_links s"
proof -
  obtain t i e where t: "ext_strings s t" "idx_ok (s\<lparr>i_strings := t\<rparr>) i" "idx_ok (s\<lparr>i_strings := t\<rparr>) e" "u 2 i" "u 2 e" "fits_spec spec"
    "name_of (s\<lparr>i_strings := t\<rparr>) i = sp_id spec" "name_of (s\<lparr>i_strings := t\<rparr>) e = sp_ext spec"
    and s': "s' = (with_row i e spec (s\<lparr>i_strings := t\<rparr>))\<lparr>
       by_id := Some (dict_set (sp_id spec) (length (id_idxs s)) (id_dict (issue_list s))), by_severity := None, open_idxs := None\<rparr>"
    using a unfolding added_def by blast
  note v = with_strings[OF wf t(1)]
  note r = with_row_views[OF v(1) t(2-8)]
  let ?r = "with_row i e spec (s\<lparr>i_strings := t\<rparr>)"
  have sd: "same_data s' ?r" by (simp add: s' same_data_def invalidate_indices_def)
  note w = same_data_views[OF sd]
  have n: "name_of ?r = name_of (s\<lparr>i_strings := t\<rparr>)" by (rule ext) (simp add: with_row_def name_of_def)
  have "waiver_links ?r = waiver_links (s\<lparr>i_strings := t\<rparr>)" "tp_links ?r = tp_links (s\<lparr>i_strings := t\<rparr>)" "cov_links ?r = cov_links (s\<lparr>i_strings := t\<rparr>)"
    unfolding waiver_links_def tp_links_def cov_links_def n by (simp_all add: with_row_def)
  moreover have "by_id s' = Some (id_dict (issue_list s @ [masked spec]))" by (simp add: s' id_dict_snoc masked_def)
  moreover have "by_severity s' = None" "open_idxs s' = None" "coverage_links_cache s' = coverage_links_cache s" "waiver_to_idxs s' = waiver_to_idxs s"
    "issue_to_waiver_links s' = issue_to_waiver_links s" "tp_to_idxs s' = tp_to_idxs s" "issue_to_tp_links s' = issue_to_tp_links s"
    by (simp_all add: s' with_row_def)
  ultimately show ?thesis using v w r by metis
qed

lemma updated_effect:
  assumes wf: "issue_wf s" and idx: "idx < length (id_idxs s)" and run: "update_issue idx spec s = (s', Inr ())"
  shows "issue_wf s' \<and> issue_list s' = (issue_list s)[idx := (masked spec)\<lparr>sp_id := sp_id (issue_list s ! idx)\<rparr>] \<and> coherent s'"
proof -
  obtain t e where t: "ext_strings s t" "idx_ok (s\<lparr>i_strings := t\<rparr>) e" "u 2 e" "fits_spec spec" "name_of (s\<lparr>i_strings := t\<rparr>) e = sp_ext spec"
    and s': "s' = invalidate_indices (set_row e idx spec (s\<lparr>i_strings := t\<rparr>))"
    using update_issue_cases(1)[OF wf idx run] by blast
  note v = with_strings[OF wf t(1)]
  have "idx < length (id_idxs (s\<lparr>i_strings := t\<rparr>))" using idx by simp
  note r = set_row_views[OF v(1) t(2-5) this]
  have sd: "same_data s' (set_row e idx spec (s\<lparr>i_strings := t\<rparr>))" by (simp add: s' same_data_def invalidate_indices_def)
  have "coherent s'" by (simp add: s' coherent_def invalidate_indices_def)
  then show ?thesis using same_data_views[OF sd] r v(2) by metis
qed

section \<open>Reachable states\<close>

inductive issue_step :: "IssueSet \<Rightarrow> IssueSet \<Rightarrow> bool" where
  add: "add_issue spec s = (s', Inr k) \<Longrightarrow> issue_step s s'"
| refuse: "add_issue spec s = (s', Inl ValueError) \<Longrightarrow> sp_id spec \<in> sp_id ` set (issue_list s) \<Longrightarrow> issue_step s s'"
| update: "idx < length (id_idxs s) \<Longrightarrow> update_issue idx spec s = (s', Inr ()) \<Longrightarrow> issue_step s s'"
| waiver: "add_waiver_link w iid s = (s', Inr ()) \<Longrightarrow> issue_step s s'"
| testpoint: "add_testpoint_link tp iid lt s = (s', Inr ()) \<Longrightarrow> issue_step s s'"
| coverage: "add_coverage_link sc b iid lt s = (s', Inr ()) \<Longrightarrow> issue_step s s'"
| get: "get_issue iid s = (s', Inr r) \<Longrightarrow> issue_step s s'"
| opens: "open_issues s = (s', Inr is) \<Longrightarrow> issue_step s s'"
| severities: "issues_by_severity sev s = (s', Inr is) \<Longrightarrow> issue_step s s'"
| waivers: "ensure_waiver_indices s = (s', Inr ()) \<Longrightarrow> issue_step s s'"
| testpoints: "ensure_tp_indices s = (s', Inr ()) \<Longrightarrow> issue_step s s'"
| coverages: "coverage_links s = (s', Inr ls) \<Longrightarrow> issue_step s s'"

inductive issue_reachable :: "IssueSet \<Rightarrow> bool" where
  start: "issue_reachable new_issue_set"
| step: "issue_reachable s \<Longrightarrow> issue_step s s' \<Longrightarrow> issue_reachable s'"

definition issue_inv :: "IssueSet \<Rightarrow> bool" where
  "issue_inv s \<longleftrightarrow> issue_wf s \<and> distinct (map sp_id (issue_list s)) \<and> indexed s"

lemma quiet_inv: "issue_inv s \<Longrightarrow> quiet s s' \<Longrightarrow> issue_inv s'"
  using same_data_views(1,2)[of s s'] by (simp add: issue_inv_def quiet_def)

lemma views_eq:
  assumes "issue_wf s" "issue_wf s'" "issue_list s' = issue_list s" "enums s' = enums s"
  shows "build_severity s' = build_severity s" "build_open s' = build_open s"
  using assms by (simp_all add: build_severity_def build_open_def)

lemma inv_new: "issue_inv new_issue_set"
  by (simp add: issue_inv_def new_issue_set_def issue_wf_def issue_list_def indexed_def st.inv_add)

lemma inv_add:
  assumes "issue_inv s" "add_issue spec s = (s', Inr k)"
  shows "issue_inv s' \<and> k = length (issue_list s) \<and> issue_list s' = issue_list s @ [masked spec]"
proof -
  have wf: "issue_wf s" and ix: "indexed s" and d: "distinct (map sp_id (issue_list s))" using assms(1) by (simp_all add: issue_inv_def)
  from add_issue_cases(1)[OF wf indexed_by_id[OF ix] assms(2)]
  have c: "k = length (id_idxs s)" "sp_id spec \<notin> sp_id ` set (issue_list s)" "added spec s s'" by blast+
  note e = added_effect[OF wf c(3,2)]
  have "indexed s'" using e ix unfolding indexed_def by auto
  moreover have "distinct (map sp_id (issue_list s'))" using e d c(2) by (simp add: masked_def)
  ultimately show ?thesis using e c(1) by (simp add: issue_inv_def)
qed

lemma inv_update:
  assumes "issue_inv s" "idx < length (id_idxs s)" "update_issue idx spec s = (s', Inr ())"
  shows "issue_inv s'"
proof -
  have wf: "issue_wf s" and d: "distinct (map sp_id (issue_list s))" using assms(1) by (simp_all add: issue_inv_def)
  note e = updated_effect[OF wf assms(2,3)]
  have "map sp_id (issue_list s') = map sp_id (issue_list s)"
    using e assms(2) by (auto simp: map_update intro!: nth_equalityI simp: nth_list_update)
  then show ?thesis using e d coherent_indexed by (simp add: issue_inv_def)
qed

lemma inv_step:
  assumes "issue_step s s'" "issue_inv s"
  shows "issue_inv s'"
  using assms
proof (induction rule: issue_step.induct)
  case (add spec s s' k)
  then show ?case using inv_add by blast
next
  case (refuse spec s s')
  then have wf: "issue_wf s" and ix: "indexed s" by (simp_all add: issue_inv_def)
  have "s' = s\<lparr>by_id := Some (id_dict (issue_list s))\<rparr>"
    using add_issue_cases(2)[OF wf indexed_by_id[OF ix] refuse(2)] refuse(1) by simp
  then have "quiet s s'" by (intro quietI same_dataI) (simp_all add: invalidate_indices_def)
  then show ?case by (rule quiet_inv[OF refuse(3)])
next
  case (update idx s spec s')
  then show ?case using inv_update by blast
next
  case (waiver w iid s s')
  then have wf: "issue_wf s" and ix: "indexed s" by (simp_all add: issue_inv_def)
  from add_waiver_link_run[OF wf, of w iid] waiver(1) have e: "issue_wf s'" "issue_list s' = issue_list s" "enums s' = enums s" "cov_links s' = cov_links s"
    "by_id s' = by_id s" "by_severity s' = by_severity s" "open_idxs s' = open_idxs s" "coverage_links_cache s' = coverage_links_cache s" by auto
  then show ?case using waiver(2) views_eq[OF wf e(1-3)] by (simp add: issue_inv_def indexed_def)
next
  case (testpoint tp iid lt s s')
  then have wf: "issue_wf s" and ix: "indexed s" by (simp_all add: issue_inv_def)
  from add_testpoint_link_run[OF wf, of tp iid lt] testpoint(1) have e: "issue_wf s'" "issue_list s' = issue_list s" "enums s' = enums s" "cov_links s' = cov_links s"
    "by_id s' = by_id s" "by_severity s' = by_severity s" "open_idxs s' = open_idxs s" "coverage_links_cache s' = coverage_links_cache s" by auto
  then show ?case using testpoint(2) views_eq[OF wf e(1-3)] by (simp add: issue_inv_def indexed_def)
next
  case (coverage sc b iid lt s s')
  then have wf: "issue_wf s" and ix: "indexed s" by (simp_all add: issue_inv_def)
  from add_coverage_link_run[OF wf, of sc b iid lt] coverage(1) have e: "issue_wf s'" "issue_list s' = issue_list s" "enums s' = enums s"
    "by_id s' = by_id s" "by_severity s' = by_severity s" "open_idxs s' = open_idxs s" "coverage_links_cache s' = None" by auto
  then show ?case using coverage(2) views_eq[OF wf e(1-3)] by (simp add: issue_inv_def indexed_def)
next
  case (get iid s s' r)
  then show ?case using get_issue_run[of s iid] quiet_inv[of s s'] by (auto simp: issue_inv_def)
next
  case (opens s s' "is")
  then show ?case using open_issues_run[of s] quiet_inv[of s s'] by (auto simp: issue_inv_def)
next
  case (severities sev s s' "is")
  then show ?case using by_severity_run[of s sev] quiet_inv[of s s'] by (auto simp: issue_inv_def)
next
  case (waivers s s')
  then show ?case using waiver_query_run[of s] quiet_inv[of s s'] by (auto simp: issue_inv_def)
next
  case (testpoints s s')
  then show ?case using tp_query_run[of s] quiet_inv[of s s'] by (auto simp: issue_inv_def)
next
  case (coverages s s' ls)
  then show ?case using coverage_links_run[of s] quiet_inv[of s s'] by (auto simp: issue_inv_def)
qed

lemma reachable_inv: "issue_reachable s \<Longrightarrow> issue_inv s"
  by (induction rule: issue_reachable.induct) (auto intro: inv_new inv_step)

section \<open>The contract\<close>

text \<open>C5 (invariant). In every state that operations on a new issue set lead to, the parallel arrays have one length
and hold only what their machine integers can, every name index is in the string table, no identifier occurs
twice, and the indices by identifier, by severity, of open issues and of coverage links are absent or right.\<close>

theorem issue_state_invariant:
  assumes "issue_reachable s"
  shows "issue_wf s \<and> distinct (map sp_id (issue_list s)) \<and> indexed s"
  using reachable_inv[OF assms] by (simp add: issue_inv_def)

definition x_issue :: "char list \<Rightarrow> IssueSpec" where
  "x_issue n = \<lparr>sp_id = lit n, sp_ext = [], sp_severity = 3, sp_kind = 0, sp_state = STATE_OPEN, sp_resolution = 0,
     sp_created_at = 100, sp_updated_at = 100, sp_synced_at = 0\<rparr>"

definition x_issues :: IssueSet where
  "x_issues = fst (issues_for_waiver (lit ''W'') (fst (add_waiver_link (lit ''W'') (lit ''I-1'') new_issue_set)))"

lemma new_set_facts: "issue_wf new_issue_set" "indexed new_issue_set" "room new_issue_set" "issue_list new_issue_set = []"
  using inv_new by (simp_all add: issue_inv_def) (simp_all add: room_def new_issue_set_def st_add_def st_empty_def issue_list_def)

lemma x_issues_state:
  "issue_reachable x_issues \<and> waiver_links x_issues = [(lit ''W'', lit ''I-1'')] \<and> issue_list x_issues = [] \<and>
   waiver_to_idxs x_issues \<noteq> None \<and> coherent x_issues \<and> room x_issues"
proof -
  let ?s = "fst (add_waiver_link (lit ''W'') (lit ''I-1'') new_issue_set)"
  obtain s1 where s1: "add_waiver_link (lit ''W'') (lit ''I-1'') new_issue_set = (s1, Inr ())" "issue_wf s1" "issue_list s1 = []"
    "waiver_links s1 = [(lit ''W'', lit ''I-1'')]" "waiver_to_idxs s1 = None" "tp_to_idxs s1 = None" "by_id s1 = None" "by_severity s1 = None"
    "open_idxs s1 = None" "coverage_links_cache s1 = None"
    using add_waiver_link_run[OF new_set_facts(1), of "lit ''W''" "lit ''I-1''"] new_set_facts(4)
    by (auto simp: new_issue_set_def waiver_links_def)
  have r1: "issue_reachable s1" using issue_reachable.step[OF issue_reachable.start issue_step.waiver[OF s1(1)]] .
  have c1: "coherent s1" "indexed s1" using s1 by (simp_all add: coherent_def indexed_def)
  note e = ensure_waiver_run[OF s1(2) c1(2) s1(5)]
  let ?x = "s1\<lparr>by_id := Some (id_dict (issue_list s1)), waiver_to_idxs := Some (fst (w_index s1)), issue_to_waiver_links := Some (snd (w_index s1))\<rparr>"
  have x: "x_issues = ?x" using e by (simp add: x_issues_def s1(1) issues_for_waiver_def bindS_def)
  have q: "quiet s1 ?x" by (intro quietI same_dataI) (simp_all add: invalidate_indices_def)
  then have sd: "same_data s1 ?x" and "coherent ?x" using c1 by (simp_all add: quiet_def)
  moreover have "issue_reachable ?x" by (rule issue_reachable.step[OF r1 issue_step.waivers[OF e]])
  moreover have "room ?x"
  proof -
    have "i_strings ?x = i_strings s1" by simp
    moreover have "length (st_strings (i_strings s1)) \<le> 3"
      using s1(1) by (auto simp: add_waiver_link_def bindS_def internS_def new_issue_set_def st_add_def st_empty_def split: option.splits if_splits)
    ultimately show ?thesis by (simp add: room_def)
  qed
  ultimately show ?thesis using same_data_views[OF sd] s1(3,4) unfolding x by simp
qed

lemma issue_state_invariant_witness:
  "issue_wf x_issues \<and> distinct (map sp_id (issue_list x_issues)) \<and> indexed x_issues"
  using issue_state_invariant[of x_issues] x_issues_state by blast

text \<open>C6 (refinement). The issue set implements a list of issues. Adding an issue whose identifier is new appends it, with its
enumerations cut to the bits they are packed in, and returns its position; it succeeds whenever the
timestamps fit and the string table has room. A known identifier is refused and nothing changes. Replacing
an issue replaces everything but its identifier. Looking an identifier up returns the position of the issue that
has it, or \<open>None\<close> when no issue does, and changes no issue. Each leads to a reachable set again, so the same
holds of every later call.\<close>

theorem issue_set_refines:
  assumes "issue_reachable s"
  shows "(sp_id spec \<in> sp_id ` set (issue_list s) \<longrightarrow>
      (\<exists>s'. add_issue spec s = (s', Inl ValueError) \<and> issue_list s' = issue_list s \<and> issue_reachable s')) \<and>
    (sp_id spec \<notin> sp_id ` set (issue_list s) \<and> room s \<and> fits_spec spec \<longrightarrow>
      (\<exists>s'. add_issue spec s = (s', Inr (length (issue_list s))) \<and> issue_list s' = issue_list s @ [masked spec] \<and> issue_reachable s')) \<and>
    (idx < length (issue_list s) \<and> room s \<and> fits_spec spec \<longrightarrow>
      (\<exists>s'. update_issue idx spec s = (s', Inr ()) \<and>
         issue_list s' = (issue_list s)[idx := (masked spec)\<lparr>sp_id := sp_id (issue_list s ! idx)\<rparr>] \<and> issue_reachable s')) \<and>
    (\<exists>s' r. get_issue n s = (s', Inr r) \<and> issue_list s' = issue_list s \<and> issue_reachable s' \<and>
       (\<forall>i. r = Some i \<longleftrightarrow> i < length (issue_list s) \<and> sp_id (issue_list s ! i) = n))"
proof -
  note inv = reachable_inv[OF assms]
  then have wf: "issue_wf s" and ix: "indexed s" by (simp_all add: issue_inv_def)
  note reach = issue_reachable.step[OF assms]
  show ?thesis
  proof (intro conjI impI)
    assume known: "sp_id spec \<in> sp_id ` set (issue_list s)"
    from add_issue_cases(2)[OF wf indexed_by_id[OF ix] this]
    obtain s' where "add_issue spec s = (s', Inl ValueError)" "issue_list s' = issue_list s" by (auto simp: by_id_views)
    with reach[OF issue_step.refuse[OF _ known]]
    show "\<exists>s'. add_issue spec s = (s', Inl ValueError) \<and> issue_list s' = issue_list s \<and> issue_reachable s'" by blast
  next
    assume "sp_id spec \<notin> sp_id ` set (issue_list s) \<and> room s \<and> fits_spec spec"
    then obtain s' where r: "add_issue spec s = (s', Inr (length (id_idxs s)))" using add_issue_cases(3)[OF wf indexed_by_id[OF ix]] by blast
    from inv_add[OF inv r] have "issue_list s' = issue_list s @ [masked spec]" by (elim conjE)
    with r reach[OF issue_step.add[OF r]]
    show "\<exists>s'. add_issue spec s = (s', Inr (length (issue_list s))) \<and> issue_list s' = issue_list s @ [masked spec] \<and> issue_reachable s'"
      unfolding issue_list_length by (intro exI conjI)
  next
    assume a: "idx < length (issue_list s) \<and> room s \<and> fits_spec spec"
    then have idx: "idx < length (id_idxs s)" by simp
    obtain s' where u: "update_issue idx spec s = (s', Inr ())" using update_issue_cases(2)[OF wf idx] a by blast
    from updated_effect[OF wf idx u]
    have "issue_list s' = (issue_list s)[idx := (masked spec)\<lparr>sp_id := sp_id (issue_list s ! idx)\<rparr>]" by (elim conjE)
    with u reach[OF issue_step.update[OF idx u]]
    show "\<exists>s'. update_issue idx spec s = (s', Inr ()) \<and>
        issue_list s' = (issue_list s)[idx := (masked spec)\<lparr>sp_id := sp_id (issue_list s ! idx)\<rparr>] \<and> issue_reachable s'"
      by (intro exI conjI)
  next
    obtain s' where g: "get_issue n s = (s', Inr (dict_get (id_dict (issue_list s)) n))" "quiet s s'" using get_issue_run[OF wf ix, of n] by blast
    then have "issue_list s' = issue_list s" using same_data_views[of s s'] by (simp add: quiet_def)
    moreover have "distinct (map sp_id (issue_list s))" using inv by (simp add: issue_inv_def)
    ultimately show "\<exists>s' r. get_issue n s = (s', Inr r) \<and> issue_list s' = issue_list s \<and> issue_reachable s' \<and>
        (\<forall>i. r = Some i \<longleftrightarrow> i < length (issue_list s) \<and> sp_id (issue_list s ! i) = n)"
      using g(1) reach[OF issue_step.get[OF g(1)]] id_dict_get by blast
  qed
qed

lemma issue_set_refines_witness:
  "\<exists>s' s'' r. add_issue (x_issue ''I-1'') x_issues = (s', Inr 0) \<and> issue_list s' = [masked (x_issue ''I-1'')] \<and>
     get_issue (lit ''I-1'') s' = (s'', Inr r) \<and> r = Some 0"
proof -
  have "fits_spec (x_issue ''I-1'')" by (simp add: fits_spec_def u_def x_issue_def)
  then obtain s' where s': "add_issue (x_issue ''I-1'') x_issues = (s', Inr 0)" "issue_list s' = [masked (x_issue ''I-1'')]" "issue_reachable s'"
    using issue_set_refines[of x_issues "x_issue ''I-1''"] x_issues_state by auto
  obtain s'' r where "get_issue (lit ''I-1'') s' = (s'', Inr r)"
    "\<forall>i. r = Some i \<longleftrightarrow> i < length (issue_list s') \<and> sp_id (issue_list s' ! i) = lit ''I-1''"
    using issue_set_refines[OF s'(3), of "x_issue ''I-1''" 0 "lit ''I-1''"] by blast
  then show ?thesis using s'(1,2) by (intro exI[of _ s'] exI[of _ s''] exI[of _ r]) (simp add: masked_def x_issue_def)
qed

text \<open>C32 (functional). In every reachable state the issue set answers queries as the list of issues does: the issue
with an identifier, the open issues, those of a severity in order, and the coverage links. The issues that the links
of a waiver or a testpoint lead to, and the links of an issue, are those of the lists as well whenever the two link
indices, if they were built, are what building them now gives (\<open>coherent\<close>), in particular when they are not built yet, as in
a set just read. Adding an issue can leave a built index behind: \<open>stale_waiver_index\<close> below.\<close>

theorem issue_queries:
  assumes "issue_reachable s"
  shows "(\<exists>s'. get_issue n s = (s', Inr (dict_get (id_dict (issue_list s)) n))) \<and>
    (\<forall>i. dict_get (id_dict (issue_list s)) n = Some i \<longleftrightarrow> i < length (issue_list s) \<and> sp_id (issue_list s ! i) = n) \<and>
    snd (open_issues s) = Inr (filter (\<lambda>i. sp_state (issue_list s ! i) \<in> {STATE_OPEN, STATE_IN_PROGRESS}) [0..<length (issue_list s)]) \<and>
    snd (issues_by_severity sev s) = Inr (filter (\<lambda>i. sp_severity (issue_list s ! i) = sev) [0..<length (issue_list s)]) \<and>
    snd (coverage_links s) = Inr (cov_links s) \<and>
    (waiver_to_idxs s = None \<and> tp_to_idxs s = None \<longrightarrow> coherent s) \<and>
    (coherent s \<longrightarrow>
      snd (issues_for_waiver w s) = Inr (linked_issues (id_dict (issue_list s)) (wl_triples s) w) \<and>
      snd (issues_for_testpoint tp s) = Inr (linked_issues (id_dict (issue_list s)) (tl_triples s) tp) \<and>
      (idx < length (issue_list s) \<longrightarrow>
        snd (waivers_for_issue idx s) = Inr (filter (\<lambda>(_, i). i = sp_id (issue_list s ! idx)) (waiver_links s)) \<and>
        snd (testpoints_for_issue idx s) = Inr (filter (\<lambda>(_, i, _). i = sp_id (issue_list s ! idx)) (tp_links s))))"
proof -
  have wf: "issue_wf s" and ix: "indexed s" and d: "distinct (map sp_id (issue_list s))"
    using reachable_inv[OF assms] by (simp_all add: issue_inv_def)
  have hid: "h_id s' idx = Inr (sp_id (issue_list s ! idx))" if "quiet s s'" "idx < length (issue_list s)" for s'
  proof -
    have sd: "same_data s s'" using that(1) by (simp add: quiet_def)
    have "issue_wf s'" "issue_list s' = issue_list s" using same_data_views[OF sd] wf by simp_all
    moreover have "idx < length (id_idxs s')" using that(2) same_dataD[OF sd] by simp
    ultimately show ?thesis using h_id_ok issue_list_nth by metis
  qed
  have links: "snd (issues_for_waiver w s) = Inr (linked_issues (id_dict (issue_list s)) (wl_triples s) w) \<and>
      snd (issues_for_testpoint tp s) = Inr (linked_issues (id_dict (issue_list s)) (tl_triples s) tp) \<and>
      (idx < length (issue_list s) \<longrightarrow>
        snd (waivers_for_issue idx s) = Inr (filter (\<lambda>(_, i). i = sp_id (issue_list s ! idx)) (waiver_links s)) \<and>
        snd (testpoints_for_issue idx s) = Inr (filter (\<lambda>(_, i, _). i = sp_id (issue_list s ! idx)) (tp_links s)))" if co: "coherent s"
  proof -
    obtain s1 where w1: "ensure_waiver_indices s = (s1, Inr ())" "quiet s s1"
      "entries (waiver_to_idxs s1) w = linked_issues (id_dict (issue_list s)) (wl_triples s) w"
      "entries (issue_to_waiver_links s1) (sp_id (issue_list s ! idx)) = filter (\<lambda>(_, i). i = sp_id (issue_list s ! idx)) (waiver_links s)"
      using waiver_query_run[OF wf ix, of w "sp_id (issue_list s ! idx)"] co by blast
    obtain s2 where t1: "ensure_tp_indices s = (s2, Inr ())" "quiet s s2"
      "entries (tp_to_idxs s2) tp = linked_issues (id_dict (issue_list s)) (tl_triples s) tp"
      "entries (issue_to_tp_links s2) (sp_id (issue_list s ! idx)) = filter (\<lambda>(_, i, _). i = sp_id (issue_list s ! idx)) (tp_links s)"
      using tp_query_run[OF wf ix, of tp "sp_id (issue_list s ! idx)"] co by blast
    show ?thesis
      using w1 t1 hid[OF w1(2)] hid[OF t1(2)]
      by (simp add: issues_for_waiver_def issues_for_testpoint_def waivers_for_issue_def testpoints_for_issue_def bindS_def)
  qed
  have "\<exists>s'. get_issue n s = (s', Inr (dict_get (id_dict (issue_list s)) n))" using get_issue_run[OF wf ix, of n] by blast
  moreover have "\<forall>i. dict_get (id_dict (issue_list s)) n = Some i \<longleftrightarrow> i < length (issue_list s) \<and> sp_id (issue_list s ! i) = n"
    using id_dict_get[OF d] by blast
  moreover have "snd (open_issues s) = Inr (filter (\<lambda>i. sp_state (issue_list s ! i) \<in> {STATE_OPEN, STATE_IN_PROGRESS}) [0..<length (issue_list s)])"
    using open_issues_run[OF wf ix] build_open_list[OF wf] by fastforce
  moreover have "snd (issues_by_severity sev s) = Inr (filter (\<lambda>i. sp_severity (issue_list s ! i) = sev) [0..<length (issue_list s)])"
    using by_severity_run[OF wf ix, of sev] by fastforce
  moreover have "snd (coverage_links s) = Inr (cov_links s)" using coverage_links_run[OF wf ix] by fastforce
  moreover have "coherent s" if "waiver_to_idxs s = None \<and> tp_to_idxs s = None"
    using that ix by (simp add: coherent_def indexed_def)
  ultimately show ?thesis using links by (intro conjI impI) blast+
qed

lemma issue_queries_witness:
  "snd (issues_for_waiver (lit ''W'') x_issues) = Inr [] \<and> snd (open_issues x_issues) = Inr []"
  using issue_queries[of x_issues _ _ "lit ''W''"] x_issues_state
  by (simp add: linked_issues_def id_dict_def)

section \<open>A stale index\<close>

text \<open>C33 (safety). Adding an issue does not drop the index from waivers to issues. Once that index was built, an issue
that a waiver was linked to before it was added is not among the issues of the waiver, although the
links and a new index say it is.\<close>

theorem stale_waiver_index:
  assumes "issue_reachable s" "coherent s" "waiver_to_idxs s \<noteq> None" "(w, sp_id spec) \<in> set (waiver_links s)"
    and "add_issue spec s = (s', Inr k)"
  shows "snd (issues_for_waiver w s') = Inr (linked_issues (id_dict (issue_list s)) (wl_triples s) w) \<and>
    k \<notin> set (linked_issues (id_dict (issue_list s)) (wl_triples s) w) \<and>
    k \<in> set (linked_issues (id_dict (issue_list s')) (wl_triples s') w)"
proof -
  note inv = reachable_inv[OF assms(1)]
  have wf: "issue_wf s" and ix: "indexed s" and d: "distinct (map sp_id (issue_list s))" using inv by (simp_all add: issue_inv_def)
  from add_issue_cases(1)[OF wf indexed_by_id[OF ix] assms(5)]
  have c: "k = length (id_idxs s)" "sp_id spec \<notin> sp_id ` set (issue_list s)" "added spec s s'" by blast+
  from added_effect[OF wf c(3,2)] have e: "issue_list s' = issue_list s @ [masked spec]" "waiver_links s' = waiver_links s"
    "waiver_to_idxs s' = waiver_to_idxs s" "issue_to_waiver_links s' = issue_to_waiver_links s" by blast+
  have cached: "waiver_to_idxs s' = Some (fst (w_index s))" using e(3) assms(2,3) unfolding coherent_def by auto
  note x = link_index[of "id_dict (issue_list s)" "([], [])" "wl_triples s", folded w_index_def, unfolded fst_conv snd_conv entries_nil append_Nil]
  have "snd (issues_for_waiver w s') = Inr (linked_issues (id_dict (issue_list s)) (wl_triples s) w)"
    using cached x by (simp add: issues_for_waiver_def ensure_waiver_indices_def bindS_def)
  moreover have "i < length (id_idxs s)" if "i \<in> set (linked_issues (id_dict (issue_list s)) (wl_triples s) w)" for i
  proof -
    from that obtain b where "dict_get (id_dict (issue_list s)) b = Some i"
      by (auto simp: linked_issues_def split: option.splits if_splits)
    then show ?thesis using id_dict_get[OF d] by simp
  qed
  moreover have "k \<in> set (linked_issues (id_dict (issue_list s')) (wl_triples s') w)"
  proof -
    have "dict_get (id_dict (issue_list s')) (sp_id spec) = Some k"
      by (simp add: e(1) id_dict_snoc dict_get_set masked_def c(1))
    then show ?thesis using assms(4) unfolding linked_issues_def e(2) by force
  qed
  ultimately show ?thesis using c(1) by blast
qed

lemma stale_waiver_index_witness:
  "\<exists>s'. add_issue (x_issue ''I-1'') x_issues = (s', Inr 0) \<and> snd (issues_for_waiver (lit ''W'') s') = Inr [] \<and>
     0 \<in> set (linked_issues (id_dict (issue_list s')) (wl_triples s') (lit ''W''))"
proof -
  have x: "issue_wf x_issues" "indexed x_issues" using reachable_inv x_issues_state by (simp_all add: issue_inv_def)
  have "fits_spec (x_issue ''I-1'')" by (simp add: fits_spec_def u_def x_issue_def)
  then obtain s' where s': "add_issue (x_issue ''I-1'') x_issues = (s', Inr (length (id_idxs x_issues)))"
    using add_issue_cases(3)[OF x(1) indexed_by_id[OF x(2)], of "x_issue ''I-1''"] x_issues_state by auto
  have "length (id_idxs x_issues) = 0" using x_issues_state issue_list_length[of x_issues] by simp
  moreover have "(lit ''W'', sp_id (x_issue ''I-1'')) \<in> set (waiver_links x_issues)" using x_issues_state by (simp add: x_issue_def)
  moreover have "linked_issues (id_dict (issue_list x_issues)) (wl_triples x_issues) (lit ''W'') = []"
    using x_issues_state by (simp add: linked_issues_def id_dict_def)
  ultimately show ?thesis using stale_waiver_index[of x_issues "lit ''W''" "x_issue ''I-1''"] s' x_issues_state by auto
qed

section \<open>A refused value\<close>

text \<open>C34 (error). A timestamp that a column cannot hold makes \<open>add_issue\<close> raise after it has extended the earlier columns.
The set then has an issue without a creation time, cannot be written, and gives the creation time of the
next issue that is added to the one that was refused, leaving the new issue without one.\<close>

theorem failed_add_shifts_columns:
  assumes "issue_reachable s" "sp_id spec \<notin> sp_id ` set (issue_list s)" "room s" "\<not> u 4 (sp_created_at spec)"
  shows "\<exists>s1. add_issue spec s = (s1, Inl OverflowError) \<and> issues s1 = issues s @ [length (issue_list s)] \<and>
    h_created_at s1 (length (issue_list s)) = Inl IndexError \<and> \<not> is_ok (issues_serialize s1) \<and>
    (\<forall>next s2 k. add_issue next s1 = (s2, Inr k) \<longrightarrow>
       k = Suc (length (issue_list s)) \<and> h_created_at s2 (length (issue_list s)) = Inr (sp_created_at next) \<and> h_created_at s2 k = Inl IndexError)"
proof -
  note inv = reachable_inv[OF assms(1)]
  have wf: "issue_wf s" and ix: "indexed s" using inv by (simp_all add: issue_inv_def)
  obtain t1 i where a: "st_add (i_strings s) (Some (sp_id spec)) = (t1, i)" by fastforce
  obtain t2 e where b: "st_add t1 (Some (sp_ext spec)) = (t2, e)" by fastforce
  have uu: "u 2 (int i)" "u 2 (int e)" using intern_two[OF wf a b] assms(3) by blast+
  let ?n = "length (id_idxs s)"
  let ?s1 = "s\<lparr>by_id := Some (id_dict (issue_list s)), i_strings := t2, id_idxs := id_idxs s @ [int i], ext_idxs := ext_idxs s @ [int e],
    enums := enums s @ [spec_enums spec]\<rparr>"
  have len: "length (created s) = ?n" using wf by (simp add: issue_wf_def)
  have run: "add_issue spec s = (?s1, Inl OverflowError)"
    using assms(2,4) uu
    by (simp add: add_issue_def bindS_def ensure_by_id_ok[OF wf indexed_by_id[OF ix]] internS_def changeS_def arr_append_u a b spec_enums_u id_dict_keys
        del: set_map)
  have "length (ext_idxs s) = ?n" "length (enums s) = ?n" using wf by (simp_all add: issue_wf_def)
  then have "\<not> is_ok (bindE (issue_row ?s1 ?n) (pack ISSUE_REC))" using len by (simp add: issue_row_def col_def)
  then have "\<not> is_ok (concatE (\<lambda>i. bindE (issue_row ?s1 i) (pack ISSUE_REC)) [0..<length (id_idxs ?s1)])"
    unfolding concatE_ok by (intro notI) (drule bspec[of _ _ ?n], simp_all)
  then have "\<not> is_ok (issues_serialize ?s1)" by (auto simp: issues_serialize_def Let_def is_ok_iff bindE_eq_Inr)
  moreover have "k = Suc ?n \<and> h_created_at s2 ?n = Inr (sp_created_at next) \<and> h_created_at s2 k = Inl IndexError"
    if "add_issue next ?s1 = (s2, Inr k)" for "next" s2 k
  proof -
    have "k = Suc ?n \<and> created s2 = created s @ [sp_created_at next]"
      using that by (auto simp: add_issue_def bindS_def ensure_by_id_def internS_def changeS_def arr_append_u split: prod.splits sum.splits if_splits)
    then show ?thesis using len by (simp add: h_created_at_def col_def nth_append)
  qed
  moreover have "h_created_at ?s1 ?n = Inl IndexError" "issues ?s1 = issues s @ [?n]" using len by (simp_all add: h_created_at_def col_def issues_def)
  ultimately show ?thesis using run unfolding issue_list_length by blast
qed

lemma failed_add_shifts_columns_witness:
  "\<exists>s1. add_issue ((x_issue ''I-9'')\<lparr>sp_created_at := -1\<rparr>) x_issues = (s1, Inl OverflowError) \<and> issues s1 = [0] \<and>
     h_created_at s1 0 = Inl IndexError"
proof -
  have "\<not> u 4 (sp_created_at ((x_issue ''I-9'')\<lparr>sp_created_at := -1\<rparr>))" by (simp add: u_def)
  moreover have "issues x_issues = []" "length (issue_list x_issues) = 0" using x_issues_state issue_list_length[of x_issues] by (simp_all add: issues_def)
  ultimately show ?thesis
    using failed_add_shifts_columns[of x_issues "(x_issue ''I-9'')\<lparr>sp_created_at := -1\<rparr>"] x_issues_state by auto
qed

section \<open>The member\<close>

interpretation row: codec "pack fmt" "read_row fmt" for fmt :: "fld list"
proof
  fix vs bs data off
  assume "pack fmt vs = Inr bs" "at data off bs"
  then show "read_row fmt data off = Inr (vs, off + length bs)"
    by (simp add: read_row_def unpack_from_pack pack_length)
qed

lemma concatE_map: "concatE f (map g xs) = concatE (\<lambda>x. f (g x)) xs"
  by (induction xs) simp_all

lemma concatE_cong_Inr:
  "(\<And>x. x \<in> set xs \<Longrightarrow> f x = Inr (g x)) \<Longrightarrow> concatE (\<lambda>x. bindE (f x) h) xs = concatE h (map g xs)"
  by (induction xs) simp_all

definition row_list :: "IssueSet \<Rightarrow> nat \<Rightarrow> int list" where
  "row_list s i = [id_idxs s ! i, ext_idxs s ! i, enums s ! i, created s ! i, updated s ! i, synced s ! i]"

lemma issue_row_ok: "issue_wf s \<Longrightarrow> i < length (id_idxs s) \<Longrightarrow> issue_row s i = Inr (row_list s i)"
  by (simp add: issue_row_def col_def row_list_def issue_wf_def)

lemma skip_strings: "repeat_dec st_read_entry n data off = Inr (xs, off') \<Longrightarrow> \<exists>us. repeat_dec skip_string n data off = Inr (us, off')"
proof (induction n arbitrary: off xs)
  case (Suc n)
  from Suc.prems obtain x o1 ys where r: "st_read_entry data off = Inr (x, o1)" "repeat_dec st_read_entry n data o1 = Inr (ys, off')"
    by (auto simp: bindE_eq_Inr)
  from r(1) have "skip_string data off = Inr ((), o1)" by (auto simp: st_read_entry_def skip_string_def bindE_eq_Inr)
  with Suc.IH[OF r(2)] show ?case by auto
qed simp

definition writable :: "IssueSet \<Rightarrow> bool" where
  "writable s \<longleftrightarrow> (\<forall>n\<in>set (st_strings (i_strings s)). list_all scalar n) \<and>
     u 4 (int (length (id_idxs s))) \<and> u 4 (int (length (wl s))) \<and> u 4 (int (length (tl s))) \<and> u 4 (int (length (cl s))) \<and>
     (\<forall>(a, b)\<in>set (wl s). u 2 a \<and> u 2 b) \<and> (\<forall>(a, b, t)\<in>set (tl s). u 2 a \<and> u 2 b \<and> u 1 t) \<and>
     (\<forall>(a, b, c, t)\<in>set (cl s). u 2 a \<and> u 2 b \<and> u 2 c \<and> u 1 t)"

lemma issues_serialize_ok:
  assumes wf: "issue_wf s" and w: "writable s"
  shows "\<exists>bs. issues_serialize s = Inr bs"
proof -
  have "is_ok (bindE (issue_row s i) (pack ISSUE_REC))" if "i < length (id_idxs s)" for i
    using wf that by (simp add: issue_row_ok row_list_def ISSUE_REC_def issue_wf_def list_all_length u_def)
  moreover have "is_ok (pack ISSUES_HDR [ISSUES_MAGIC, ISSUES_VERSION, 0, int (length (id_idxs s)), int (length (wl s)), int (length (tl s)), int (length (cl s))])"
    using w by (simp add: ISSUES_HDR_def ISSUES_MAGIC_def ISSUES_VERSION_def writable_def u_def)
  moreover have "is_ok (st_serialize (i_strings s))" using w by (simp add: st_serialize_ok writable_def)
  moreover have "is_ok (case x of (a, b) \<Rightarrow> pack WL_REC [a, b])" if "x \<in> set (wl s)" for x
    using w that by (auto simp: writable_def WL_REC_def u_def)
  moreover have "is_ok (case x of (a, b, c) \<Rightarrow> pack TL_REC [a, b, c])" if "x \<in> set (tl s)" for x
    using w that by (auto simp: writable_def TL_REC_def u_def)
  moreover have "is_ok (case x of (a, b, c, d) \<Rightarrow> pack CL_REC [a, b, c, d])" if "x \<in> set (cl s)" for x
    using w that by (auto simp: writable_def CL_REC_def u_def)
  ultimately have "is_ok (pack ISSUES_HDR [ISSUES_MAGIC, ISSUES_VERSION, 0, int (length (id_idxs s)), int (length (wl s)), int (length (tl s)), int (length (cl s))])"
    "is_ok (st_serialize (i_strings s))" "is_ok (concatE (\<lambda>i. bindE (issue_row s i) (pack ISSUE_REC)) [0..<length (id_idxs s)])"
    "is_ok (concatE (\<lambda>(a, b). pack WL_REC [a, b]) (wl s))" "is_ok (concatE (\<lambda>(a, b, c). pack TL_REC [a, b, c]) (tl s))"
    "is_ok (concatE (\<lambda>(a, b, c, d). pack CL_REC [a, b, c, d]) (cl s))"
    unfolding concatE_ok by (simp_all add: Ball_def)
  then show ?thesis unfolding is_ok_iff by (elim exE) (simp add: issues_serialize_def Let_def)
qed

lemma row_columns:
  assumes "issue_wf s"
  shows "map (\<lambda>r. r ! 0) (map (row_list s) [0..<length (id_idxs s)]) = id_idxs s"
    "map (\<lambda>r. r ! 1) (map (row_list s) [0..<length (id_idxs s)]) = ext_idxs s" "map (\<lambda>r. r ! 2) (map (row_list s) [0..<length (id_idxs s)]) = enums s"
    "map (\<lambda>r. r ! 3) (map (row_list s) [0..<length (id_idxs s)]) = created s" "map (\<lambda>r. r ! 4) (map (row_list s) [0..<length (id_idxs s)]) = updated s"
    "map (\<lambda>r. r ! 5) (map (row_list s) [0..<length (id_idxs s)]) = synced s"
proof -
  have nth: "map (\<lambda>i. xs ! i) [0..<n] = xs" if "length xs = n" for xs :: "int list" and n using that map_nth by blast
  have len: "length (ext_idxs s) = length (id_idxs s)" "length (enums s) = length (id_idxs s)" "length (created s) = length (id_idxs s)"
    "length (updated s) = length (id_idxs s)" "length (synced s) = length (id_idxs s)" using assms by (simp_all add: issue_wf_def)
  show "map (\<lambda>r. r ! 0) (map (row_list s) [0..<length (id_idxs s)]) = id_idxs s"
    "map (\<lambda>r. r ! 1) (map (row_list s) [0..<length (id_idxs s)]) = ext_idxs s" "map (\<lambda>r. r ! 2) (map (row_list s) [0..<length (id_idxs s)]) = enums s"
    "map (\<lambda>r. r ! 3) (map (row_list s) [0..<length (id_idxs s)]) = created s" "map (\<lambda>r. r ! 4) (map (row_list s) [0..<length (id_idxs s)]) = updated s"
    "map (\<lambda>r. r ! 5) (map (row_list s) [0..<length (id_idxs s)]) = synced s"
    unfolding map_map comp_def row_list_def by (simp_all add: nth len)
qed

lemma issues_read_back:
  assumes wf: "issue_wf s" and ser: "issues_serialize s = Inr bs"
  shows "issues_from_bytes bs = Inr (invalidate_indices s)"
proof -
  let ?n = "length (id_idxs s)"
  let ?hv = "[ISSUES_MAGIC, ISSUES_VERSION, 0, int ?n, int (length (wl s)), int (length (tl s)), int (length (cl s))]"
  let ?R = "map (row_list s) [0..<?n]" and ?W = "map (\<lambda>(a, b). [a, b]) (wl s)" and ?T = "map (\<lambda>(a, b, c). [a, b, c]) (tl s)"
    and ?C = "map (\<lambda>(a, b, c, d). [a, b, c, d]) (cl s)"
  have rows: "concatE (\<lambda>i. bindE (issue_row s i) (pack ISSUE_REC)) [0..<?n] = concatE (pack ISSUE_REC) ?R"
    by (rule concatE_cong_Inr) (simp add: issue_row_ok[OF wf])
  have lists: "concatE (\<lambda>(a, b). pack WL_REC [a, b]) (wl s) = concatE (pack WL_REC) ?W"
    "concatE (\<lambda>(a, b, c). pack TL_REC [a, b, c]) (tl s) = concatE (pack TL_REC) ?T"
    "concatE (\<lambda>(a, b, c, d). pack CL_REC [a, b, c, d]) (cl s) = concatE (pack CL_REC) ?C"
    unfolding concatE_map by (simp_all add: split_def)
  from ser obtain h st r w t c where p: "pack ISSUES_HDR ?hv = Inr h" "st_serialize (i_strings s) = Inr st"
    "concatE (pack ISSUE_REC) ?R = Inr r" "concatE (pack WL_REC) ?W = Inr w" "concatE (pack TL_REC) ?T = Inr t" "concatE (pack CL_REC) ?C = Inr c"
    "bs = h @ st @ r @ w @ t @ c"
    unfolding issues_serialize_def Let_def rows lists by (auto simp: bindE_eq_Inr)
  have hl: "length h = calcsize ISSUES_HDR" by (rule pack_length[OF p(1)])
  have pos: "at bs 0 h" "at bs (length h) st" "at bs (length h + length st) r" "at bs (length h + length st + length r) w"
    "at bs (length h + length st + length r + length w) t" "at bs (length h + length st + length r + length w + length t) c"
    using p(7) at_whole[of bs] by (auto simp: at_append add.assoc)
  have u: "unpack_from ISSUES_HDR bs 0 = Inr ?hv" by (rule unpack_from_pack[OF p(1) pos(1)])
  have strs: "st_from_bytes (drop (calcsize ISSUES_HDR) bs) = Inr (i_strings s)"
    using st_from_bytes_serialized[OF _ p(2)] wf by (simp add: p(7) hl[symmetric] issue_wf_def)
  from st_read_at[OF p(2) pos(2)] obtain o1 where o1: "decode_varint bs (calcsize ISSUES_HDR) = Inr (length (st_strings (i_strings s)), o1)"
    "repeat_dec st_read_entry (length (st_strings (i_strings s))) bs o1 = Inr (st_strings (i_strings s), length h + length st)"
    unfolding hl by blast
  from skip_strings[OF o1(2)] obtain us where us: "repeat_dec skip_string (length (st_strings (i_strings s))) bs o1 = Inr (us, length h + length st)" ..
  note R = row.repeat_dec_enc[OF p(3) pos(3)] row.repeat_dec_enc[OF p(4) pos(4)] row.repeat_dec_enc[OF p(5) pos(5)] row.repeat_dec_enc[OF p(6) pos(6)]
  have cols: "map (\<lambda>r. (r ! 0, r ! 1)) ?W = wl s" "map (\<lambda>r. (r ! 0, r ! 1, r ! 2)) ?T = tl s" "map (\<lambda>r. (r ! 0, r ! 1, r ! 2, r ! 3)) ?C = cl s"
    by (simp_all add: comp_def split_def map_idI)
  have hv: "?hv ! 0 = ISSUES_MAGIC" "?hv ! 1 = ISSUES_VERSION" "nat (?hv ! 3) = ?n" "nat (?hv ! 4) = length (wl s)" "nat (?hv ! 5) = length (tl s)"
    "nat (?hv ! 6) = length (cl s)" by simp_all
  have len: "length ?R = ?n" "length ?W = length (wl s)" "length ?T = length (tl s)" "length ?C = length (cl s)" by simp_all
  show ?thesis
    unfolding issues_from_bytes_def u bindE_Inr Let_def hv strs o1(1) prod.case us simp_thms if_False
      R[unfolded len] row_columns[OF wf] cols
    by (simp add: invalidate_indices_def)
qed

text \<open>C35 (roundtrip). An issue set whose links fit their fields and whose strings can be encoded is written to
\<open>issues.bin\<close> and read back as it was, with its indices dropped.\<close>

theorem issues_roundtrip:
  assumes "issue_reachable s" "writable s"
  shows "\<exists>bs. issues_serialize s = Inr bs \<and> issues_from_bytes bs = Inr (invalidate_indices s)"
proof -
  have "issue_wf s" using reachable_inv[OF assms(1)] by (simp add: issue_inv_def)
  then show ?thesis using issues_serialize_ok[OF _ assms(2)] issues_read_back by blast
qed

lemma issues_roundtrip_witness:
  "\<exists>bs. issues_serialize new_issue_set = Inr bs \<and> issues_from_bytes bs = Inr (invalidate_indices new_issue_set)"
  by (rule issues_roundtrip[OF issue_reachable.start])
    (simp add: writable_def new_issue_set_def st_add_def st_empty_def u_def)

end
