(* ===== verification/IssueHistory.thy ===== *)
theory IssueHistory
  imports Issues "HOL-Library.List_Lexorder"
begin

text \<open>
  \<open>ncdb/issues_history.py\<close>: the log of state changes behind \<open>issues_history.bin\<close>. The writer collects the
  changes of every issue, sorts them by time and writes them as columns (time differences, states, comment
  numbers) under an index of issues; the reader answers what happened to an issue and which state it had at a
  time. The compressors are parameters, \<open>xz\<close> an option since the module may be missing.
\<close>

section \<open>Writer\<close>

type_synonym change = "int \<times> int \<times> pystr"
type_synonym transitions = "(pystr \<times> change list) list"

definition IH_MAGIC :: int where "IH_MAGIC = 0x49535348"
definition IH_VERSION :: int where "IH_VERSION = 1"
definition NO_COMMENT :: int where "NO_COMMENT = 0xFFFF"
definition IH_HDR :: "fld list" where "IH_HDR = [U 4, U 1, U 2, U 2, U 2, U 4]"
definition IDX_ENTRY :: "fld list" where "IDX_ENTRY = [U 2, U 4, U 2]"

definition add_change :: "pystr \<Rightarrow> int \<Rightarrow> int \<Rightarrow> pystr \<Rightarrow> transitions \<Rightarrow> transitions" where
  "add_change issue_id ts new_state comment = dict_append issue_id (ts, new_state, comment)"

definition sort_changes :: "transitions \<Rightarrow> transitions" where
  "sort_changes = map (\<lambda>(issue_id, rows). (issue_id, sort_key fst rows))"

definition changes_of :: "transitions \<Rightarrow> pystr \<Rightarrow> change list" where
  "changes_of d issue_id = (case dict_get d issue_id of None \<Rightarrow> [] | Some rows \<Rightarrow> rows)"

definition sorted_ids :: "transitions \<Rightarrow> pystr list" where
  "sorted_ids d = sort (dict_keys d)"

definition comment_step :: "(pystr \<times> nat) list \<times> pystr list \<Rightarrow> pystr \<Rightarrow> (pystr \<times> nat) list \<times> pystr list" where
  "comment_step = (\<lambda>(comment_index, comment_table) comment.
     if comment \<noteq> [] \<and> comment \<notin> set (dict_keys comment_index)
     then (dict_set comment (length comment_table) comment_index, comment_table @ [comment])
     else (comment_index, comment_table))"

definition comment_tables :: "change list list \<Rightarrow> (pystr \<times> nat) list \<times> pystr list" where
  "comment_tables groups = foldl comment_step ([], []) (map (\<lambda>(_, _, comment). comment) (concat groups))"

definition comment_idx :: "(pystr \<times> nat) list \<Rightarrow> pystr \<Rightarrow> int res" where
  "comment_idx comment_index comment =
     (if comment = [] then Inr NO_COMMENT
      else case dict_get comment_index comment of None \<Rightarrow> Inl KeyError | Some k \<Rightarrow> Inr (int k))"

text \<open>The rows of all issues, numbered in the order of their groups, and the index of the groups.\<close>

fun flatten ::
  "(pystr \<times> nat) list \<Rightarrow> nat \<Rightarrow> nat \<Rightarrow> change list list \<Rightarrow> ((nat \<times> int \<times> int \<times> int) list \<times> (nat \<times> nat \<times> nat) list) res" where
  "flatten comment_index i start [] = Inr ([], [])"
| "flatten comment_index i start (rows # groups) =
     bindE (mapE (\<lambda>(ts, state, comment). bindE (comment_idx comment_index comment) (\<lambda>cidx. Inr (i, ts, state, cidx))) rows) (\<lambda>rs.
     bindE (flatten comment_index (Suc i) (start + length rows) groups) (\<lambda>(all_rows, issue_index).
     Inr (rs @ all_rows, (i, start, length rows) # issue_index)))"

definition min_ts :: "(nat \<times> int \<times> int \<times> int) list \<Rightarrow> int" where
  "min_ts all_rows = (case map (\<lambda>r. fst (snd r)) all_rows of [] \<Rightarrow> 0 | t # ts \<Rightarrow> foldl min t ts)"

fun delta_column :: "int \<Rightarrow> (nat \<times> int) list \<Rightarrow> (nat \<times> int \<times> int \<times> int) list \<Rightarrow> int list" where
  "delta_column ts_base prev_ts [] = []"
| "delta_column ts_base prev_ts ((i, ts, _) # rows) =
     (ts - (case dict_get prev_ts i of None \<Rightarrow> ts_base | Some t \<Rightarrow> t)) # delta_column ts_base (dict_set i ts prev_ts) rows"

definition short_str :: "pystr \<Rightarrow> bytes res" where
  "short_str s = bindE (utf8_encode s) (\<lambda>enc. bindE (pack [U 1] [int (length enc)]) (\<lambda>b. Inr (b @ enc)))"

definition py_bytes :: "int list \<Rightarrow> bytes res" where
  "py_bytes = mapE (\<lambda>v. if 0 \<le> v \<and> v < 256 then Inr (of_int v) else Inl ValueError)"

definition raw_history :: "pystr list \<Rightarrow> change list list \<Rightarrow> bytes res" where
  "raw_history id_table groups =
     (let (comment_index, comment_table) = comment_tables groups in
      bindE (flatten comment_index 0 0 groups) (\<lambda>(all_rows, issue_index).
      let ts_base = min_ts all_rows; ts_deltas = delta_column ts_base [] all_rows in
      bindE (pack IH_HDR [IH_MAGIC, IH_VERSION, int (length id_table), int (length comment_table), int (length issue_index), int (length all_rows)]) (\<lambda>hdr.
      bindE (concatE short_str id_table) (\<lambda>ids.
      bindE (concatE short_str comment_table) (\<lambda>comments.
      bindE (concatE (\<lambda>(i, start_row, count). pack IDX_ENTRY [int i, int start_row, int count]) issue_index) (\<lambda>index.
      bindE (pack [U 4] [ts_base]) (\<lambda>base.
      bindE (encode_varints ts_deltas) (\<lambda>deltas.
      bindE (py_bytes (map (\<lambda>(_, _, state, _). state) all_rows)) (\<lambda>states.
      bindE (concatE (\<lambda>(_, _, _, cidx). pack [U 2] [cidx]) all_rows) (\<lambda>cidxs.
      Inr (hdr @ ids @ comments @ index @ base @ deltas @ states @ cidxs)))))))))))"

text \<open>\<open>_build_raw\<close> sorts the lists of the writer in place before anything can fail.\<close>

definition build_raw :: "(transitions, bytes) op" where
  "build_raw d =
     (let d = sort_changes d; ids = sorted_ids d in (d, raw_history ids (map (changes_of d) ids)))"

definition seal :: "(bytes \<Rightarrow> bytes) option \<Rightarrow> (nat \<Rightarrow> bytes \<Rightarrow> bytes) \<Rightarrow> bool \<Rightarrow> (transitions, bytes) op" where
  "seal xz zlib use_lzma =
     bindS build_raw (\<lambda>raw. retS (case xz of Some compress \<Rightarrow> if use_lzma then compress raw else zlib 9 raw | None \<Rightarrow> zlib 9 raw))"

definition seal_fast :: "(nat \<Rightarrow> bytes \<Rightarrow> bytes) \<Rightarrow> (transitions, bytes) op" where
  "seal_fast zlib = bindS build_raw (\<lambda>raw. retS (zlib 1 raw))"

section \<open>Reader\<close>

record IssueHistoryReader =
  id_table :: "pystr list"
  comment_table :: "pystr list"
  issue_index :: "(nat \<times> nat \<times> nat) list"
  id_to_issue_idx :: "(pystr \<times> nat) list"
  ts_base :: int
  ts_deltas :: "nat list"
  state_bytes :: bytes
  comment_idxs :: "int list"
  num_records :: nat

definition read_short :: "bytes \<Rightarrow> nat \<Rightarrow> (pystr \<times> nat) res" where
  "read_short data offset =
     bindE (byte_at data offset) (\<lambda>slen.
     bindE (utf8_decode (slice data (offset + 1) (offset + 1 + slen))) (\<lambda>s. Inr (s, offset + 1 + slen)))"

definition read_index :: "bytes \<Rightarrow> nat \<Rightarrow> ((nat \<times> nat \<times> nat) \<times> nat) res" where
  "read_index data offset =
     bindE (unpack_from IDX_ENTRY data offset) (\<lambda>e. Inr ((nat (e ! 0), nat (e ! 1), nat (e ! 2)), offset + calcsize IDX_ENTRY))"

definition index_ids :: "pystr list \<Rightarrow> (nat \<times> nat \<times> nat) list \<Rightarrow> (pystr \<times> nat) list res" where
  "index_ids ids index =
     foldE (\<lambda>d (i, e). bindE (py_nth ids (int (fst e))) (\<lambda>issue_id. Inr (dict_set issue_id i d))) [] (enumerate 0 index)"

definition parse_history :: "bytes \<Rightarrow> IssueHistoryReader res" where
  "parse_history data =
     bindE (unpack_from IH_HDR data 0) (\<lambda>hdr. let offset = calcsize IH_HDR; n = nat (hdr ! 5) in
     if hdr ! 0 \<noteq> IH_MAGIC then Inl ValueError
     else if hdr ! 1 \<noteq> IH_VERSION then Inl ValueError
     else
       bindE (repeat_dec read_short (nat (hdr ! 2)) data offset) (\<lambda>(ids, offset).
       bindE (repeat_dec read_short (nat (hdr ! 3)) data offset) (\<lambda>(comments, offset).
       bindE (repeat_dec read_index (nat (hdr ! 4)) data offset) (\<lambda>(index, offset).
       bindE (index_ids ids index) (\<lambda>lookup.
       bindE (unpack_from [U 4] data offset) (\<lambda>base.
       bindE (decode_varints data n (offset + 4)) (\<lambda>(deltas, offset).
       bindE (if n = 0 then Inr [] else unpack_from (replicate n (U 2)) data (offset + n)) (\<lambda>cidxs.
       Inr \<lparr>id_table = ids, comment_table = comments, issue_index = index, id_to_issue_idx = lookup,
            ts_base = hd base, ts_deltas = deltas, state_bytes = slice data offset (offset + n),
            comment_idxs = cidxs, num_records = n\<rparr>))))))))"

definition XZ_MAGIC :: bytes where "XZ_MAGIC = [0xfd, 0x37, 0x7a, 0x58, 0x5a, 0x00]"

definition decompress_history :: "(bytes \<Rightarrow> bytes res) \<Rightarrow> (bytes \<Rightarrow> bytes res) \<Rightarrow> bytes \<Rightarrow> bytes res" where
  "decompress_history unxz unzlib data = (if take 6 data = XZ_MAGIC then unxz data else unzlib data)"

definition open_history :: "(bytes \<Rightarrow> bytes res) \<Rightarrow> (bytes \<Rightarrow> bytes res) \<Rightarrow> bytes \<Rightarrow> IssueHistoryReader res" where
  "open_history unxz unzlib compressed_data = bindE (decompress_history unxz unzlib compressed_data) parse_history"

text \<open>A generator that raises is an error here, whatever it yielded before.\<close>

fun iter_rows :: "IssueHistoryReader \<Rightarrow> pystr \<Rightarrow> int \<Rightarrow> nat \<Rightarrow> nat \<Rightarrow> (pystr \<times> change) list res" where
  "iter_rows rd issue_id curr_ts i 0 = Inr []"
| "iter_rows rd issue_id curr_ts i (Suc n) =
     bindE (py_nth (ts_deltas rd) (int i)) (\<lambda>delta. let curr_ts = curr_ts + int delta in
     bindE (py_nth (state_bytes rd) (int i)) (\<lambda>state.
     bindE (py_nth (comment_idxs rd) (int i)) (\<lambda>cidx.
     bindE (if cidx \<noteq> NO_COMMENT then py_nth (comment_table rd) cidx else Inr []) (\<lambda>comment.
     bindE (iter_rows rd issue_id curr_ts (Suc i) n) (\<lambda>rest.
     Inr ((issue_id, curr_ts, int (unat state), comment) # rest))))))"

definition history_for_issue :: "IssueHistoryReader \<Rightarrow> pystr \<Rightarrow> (pystr \<times> change) list res" where
  "history_for_issue rd issue_id =
     (case dict_get (id_to_issue_idx rd) issue_id of
        None \<Rightarrow> Inr []
      | Some entry_idx \<Rightarrow>
          bindE (py_nth (issue_index rd) (int entry_idx)) (\<lambda>(_, start_row, count).
          iter_rows rd issue_id (ts_base rd) start_row count))"

fun scan_states :: "IssueHistoryReader \<Rightarrow> int \<Rightarrow> int option \<Rightarrow> int \<Rightarrow> nat \<Rightarrow> nat \<Rightarrow> int option res" where
  "scan_states rd ts last_state curr_ts i 0 = Inr last_state"
| "scan_states rd ts last_state curr_ts i (Suc n) =
     bindE (py_nth (ts_deltas rd) (int i)) (\<lambda>delta. let curr_ts = curr_ts + int delta in
     if curr_ts > ts then Inr last_state
     else bindE (py_nth (state_bytes rd) (int i)) (\<lambda>state. scan_states rd ts (Some (int (unat state))) curr_ts (Suc i) n))"

definition state_at :: "IssueHistoryReader \<Rightarrow> pystr \<Rightarrow> int \<Rightarrow> int option res" where
  "state_at rd issue_id ts =
     (case dict_get (id_to_issue_idx rd) issue_id of
        None \<Rightarrow> Inr None
      | Some entry_idx \<Rightarrow>
          bindE (py_nth (issue_index rd) (int entry_idx)) (\<lambda>(_, start_row, count).
          scan_states rd ts None (ts_base rd) start_row count))"

definition all_transitions :: "IssueHistoryReader \<Rightarrow> (pystr \<times> change) list res" where
  "all_transitions rd =
     concatE (\<lambda>(i, start_row, count). bindE (py_nth (id_table rd) (int i)) (\<lambda>issue_id.
       iter_rows rd issue_id (ts_base rd) start_row count)) (issue_index rd)"

end
