(* ===== verification/IssueHistorySpec.thy ===== *)
theory IssueHistorySpec
  imports IssueHistory
begin

text \<open>
  What the history member promises: the reader of a sealed log answers for every issue with the recorded
  changes in order of time, and \<open>state_at\<close> with the state of the last change up to the time asked for.
\<close>

section \<open>Columns\<close>

definition comment_ref :: "(pystr \<times> nat) list \<Rightarrow> pystr \<Rightarrow> int" where
  "comment_ref index c = (if c = [] then NO_COMMENT else int (the (dict_get index c)))"

fun numbered :: "(pystr \<times> nat) list \<Rightarrow> nat \<Rightarrow> change list list \<Rightarrow> (nat \<times> int \<times> int \<times> int) list" where
  "numbered index i [] = []"
| "numbered index i (g # gs) = map (\<lambda>(ts, st, c). (i, ts, st, comment_ref index c)) g @ numbered index (Suc i) gs"

fun starts :: "nat \<Rightarrow> nat \<Rightarrow> change list list \<Rightarrow> (nat \<times> nat \<times> nat) list" where
  "starts i start [] = []"
| "starts i start (g # gs) = (i, start, length g) # starts (Suc i) (start + length g) gs"

fun diffs :: "int \<Rightarrow> int list \<Rightarrow> int list" where
  "diffs b [] = []"
| "diffs b (t # ts) = (t - b) # diffs t ts"

lemma length_starts [simp]: "length (starts i s gs) = length gs"
  by (induction gs arbitrary: i s) simp_all

lemma starts_nth: "j < length gs \<Longrightarrow> starts i s gs ! j = (i + j, s + length (concat (take j gs)), length (gs ! j))"
proof (induction gs arbitrary: i s j)
  case (Cons g gs)
  then show ?case by (cases j) simp_all
qed simp

lemma numbered_views [simp]:
  "length (numbered index i gs) = length (concat gs)"
  "map (\<lambda>(_, _, st, _). st) (numbered index i gs) = map (\<lambda>r. fst (snd r)) (concat gs)"
  "map (\<lambda>(_, _, _, c). c) (numbered index i gs) = map (\<lambda>r. comment_ref index (snd (snd r))) (concat gs)"
  "map (\<lambda>r. fst (snd r)) (numbered index i gs) = map fst (concat gs)"
  by (induction gs arbitrary: i) (simp_all add: split_def comp_def)

lemma length_diffs [simp]: "length (diffs b ts) = length ts"
  by (induction ts arbitrary: b) simp_all

lemma delta_group:
  "\<exists>prev'. delta_column base prev (map (\<lambda>(ts, st, c). (i, ts, st, f c)) g @ rest) =
     diffs (case dict_get prev i of None \<Rightarrow> base | Some t \<Rightarrow> t) (map fst g) @ delta_column base prev' rest \<and>
     (\<forall>j. j \<noteq> i \<longrightarrow> dict_get prev' j = dict_get prev j)"
proof (induction g arbitrary: prev)
  case Nil
  show ?case by (rule exI[of _ prev]) simp
next
  case (Cons r g)
  obtain ts st c where r: "r = (ts, st, c)" by (cases r)
  from Cons.IH[of "dict_set i ts prev"] obtain prev' where p:
    "delta_column base (dict_set i ts prev) (map (\<lambda>(ts, st, c). (i, ts, st, f c)) g @ rest) = diffs ts (map fst g) @ delta_column base prev' rest"
    "\<forall>j. j \<noteq> i \<longrightarrow> dict_get prev' j = dict_get prev j"
    by (auto simp: dict_get_set)
  then show ?case by (intro exI[of _ prev']) (simp add: r)
qed

lemma delta_numbered:
  "(\<And>j. i \<le> j \<Longrightarrow> dict_get prev j = None) \<Longrightarrow>
   delta_column base prev (numbered index i gs) = concat (map (\<lambda>g. diffs base (map fst g)) gs)"
proof (induction gs arbitrary: i prev)
  case (Cons g gs)
  from delta_group[of base prev i "comment_ref index" g "numbered index (Suc i) gs"] obtain prev' where p:
    "delta_column base prev (numbered index i (g # gs)) =
      diffs (case dict_get prev i of None \<Rightarrow> base | Some t \<Rightarrow> t) (map fst g) @ delta_column base prev' (numbered index (Suc i) gs)"
    "\<forall>j. j \<noteq> i \<longrightarrow> dict_get prev' j = dict_get prev j" by auto
  have "delta_column base prev' (numbered index (Suc i) gs) = concat (map (\<lambda>g. diffs base (map fst g)) gs)"
    using Cons.prems p(2) by (intro Cons.IH) simp
  then show ?case using p(1) Cons.prems[of i] by simp
qed simp

section \<open>Comments\<close>

definition tables_ok :: "(pystr \<times> nat) list \<times> pystr list \<Rightarrow> bool" where
  "tables_ok t \<longleftrightarrow> fst t = zip (snd t) [0..<length (snd t)] \<and> distinct (snd t) \<and> [] \<notin> set (snd t)"

lemma comment_step_ok:
  assumes "tables_ok t"
  shows "tables_ok (comment_step t c) \<and> set (snd (comment_step t c)) = set (snd t) \<union> ({c} - {[]})"
proof -
  obtain index table where t: "t = (index, table)" by (cases t)
  have i: "index = zip table [0..<length table]" using assms by (simp add: tables_ok_def t)
  then have keys: "dict_keys index = table" by simp
  show ?thesis
  proof (cases "c \<noteq> [] \<and> c \<notin> set table")
    case True
    then have new: "comment_step t c = (index @ [(c, length table)], table @ [c])"
      using update_notin[of c index "length table"] unfolding comment_step_def t prod.case keys by (simp only: simp_thms if_True not_False_eq_True)
    show ?thesis unfolding new using assms True by (auto simp: t i tables_ok_def)
  next
    case False
    then have "comment_step t c = t" unfolding comment_step_def t prod.case keys by argo
    then show ?thesis using assms False by (auto simp: t)
  qed
qed

lemma comment_fold_ok:
  "tables_ok t \<Longrightarrow> tables_ok (foldl comment_step t cs) \<and> set (snd (foldl comment_step t cs)) = set (snd t) \<union> (set cs - {[]})"
proof (induction cs arbitrary: t)
  case (Cons c cs)
  from comment_step_ok[OF Cons.prems, of c] Cons.IH[of "comment_step t c"] show ?case by auto
qed simp

lemma third: "(\<lambda>(_, _, c). c) = (\<lambda>r. snd (snd r))"
  by auto

lemma comment_tables_ok:
  "tables_ok (comment_tables gs)" "set (snd (comment_tables gs)) = (\<lambda>r. snd (snd r)) ` set (concat gs) - {[]}"
  using comment_fold_ok[of "([], [])" "map (\<lambda>r. snd (snd r)) (concat gs)"]
  by (simp_all add: comment_tables_def tables_ok_def[of "([], [])"] third)

lemma comment_lookup:
  assumes "tables_ok (index, table)" "c \<in> set table"
  shows "\<exists>k. dict_get index c = Some k \<and> k < length table \<and> table ! k = c"
proof -
  from assms(2) obtain k where "k < length table" "table ! k = c" by (auto simp: in_set_conv_nth)
  then have "dict_get index c = Some k" using assms(1) by (simp add: tables_ok_def map_of_zip_upt_Some del: map_of_eq_Some_iff)
  with \<open>k < length table\<close> \<open>table ! k = c\<close> show ?thesis by blast
qed

lemma comment_idx_ref:
  "tables_ok (index, table) \<Longrightarrow> c \<noteq> [] \<longrightarrow> c \<in> set table \<Longrightarrow> comment_idx index c = Inr (comment_ref index c)"
  using comment_lookup[of index table c] by (auto simp: comment_idx_def comment_ref_def)

lemma flatten_numbered:
  assumes t: "tables_ok (index, table)" and c: "\<forall>r\<in>set (concat gs). snd (snd r) \<noteq> [] \<longrightarrow> snd (snd r) \<in> set table"
  shows "flatten index i s gs = Inr (numbered index i gs, starts i s gs)"
  using c
proof (induction gs arbitrary: i s)
  case (Cons g gs)
  have "mapE (\<lambda>(ts, state, comment). bindE (comment_idx index comment) (\<lambda>cidx. Inr (i, ts, state, cidx))) g =
      Inr (map (\<lambda>(ts, st, c). (i, ts, st, comment_ref index c)) g)"
  proof (rule mapE_Inr)
    fix r assume "r \<in> set g"
    then have "comment_idx index (snd (snd r)) = Inr (comment_ref index (snd (snd r)))" using Cons.prems by (intro comment_idx_ref[OF t]) simp
    then show "(case r of (ts, state, comment) \<Rightarrow> bindE (comment_idx index comment) (\<lambda>cidx. Inr (i, ts, state, cidx))) =
        Inr (case r of (ts, st, c) \<Rightarrow> (i, ts, st, comment_ref index c))" by (simp add: split_def)
  qed
  with Cons show ?case by simp
qed simp

lemma flatten_tables:
  assumes "comment_tables gs = (index, table)"
  shows "flatten index i s gs = Inr (numbered index i gs, starts i s gs)"
proof (rule flatten_numbered)
  show "tables_ok (index, table)" "\<forall>r\<in>set (concat gs). snd (snd r) \<noteq> [] \<longrightarrow> snd (snd r) \<in> set table"
    using comment_tables_ok[of gs] unfolding assms snd_conv by (simp, blast)
qed

section \<open>Bytes\<close>

interpretation short: codec short_str read_short
proof unfold_locales
  fix v bs data off
  assume "short_str v = Inr bs" "at data off bs"
  then obtain e b where e: "utf8_encode v = Inr e" "pack [U 1] [int (length e)] = Inr b" "bs = b @ e" by (auto simp: short_str_def bindE_eq_Inr)
  then have l: "length e < 256" "b = [of_nat (length e)]" by (auto simp: split: if_splits)
  with \<open>at data off bs\<close> e(3) have a: "at data off ([of_nat (length e)] @ e)" by simp
  then have "byte_at data off = Inr (length e)" "at data (off + 1) e" using l(1)
    by (auto simp: at_append at_Cons byte_at_def unat_of_nat)
  then show "read_short data off = Inr (v, off + length bs)"
    using at_slice[of data "off + 1" e "off + 1 + length e"] utf8_roundtrip[OF e(1)] e(3) l(2) by (simp add: read_short_def)
qed

interpretation entry: codec "\<lambda>(i, s, n). pack IDX_ENTRY [int i, int s, int n]" read_index
proof unfold_locales
  fix v :: "nat \<times> nat \<times> nat" and bs data off
  assume a: "(case v of (i, s, n) \<Rightarrow> pack IDX_ENTRY [int i, int s, int n]) = Inr bs" "at data off bs"
  obtain i s n where v: "v = (i, s, n)" by (cases v)
  have p: "pack IDX_ENTRY [int i, int s, int n] = Inr bs" using a(1) by (simp add: v)
  show "read_index data off = Inr (v, off + length bs)"
    by (simp add: read_index_def unpack_from_pack[OF p a(2)] pack_length[OF p] v)
qed

lemma py_bytes_val: "py_bytes xs = Inr bs \<Longrightarrow> map (\<lambda>b. int (unat b)) bs = xs"
proof (induction xs arbitrary: bs)
  case (Cons x xs)
  then obtain b where b: "0 \<le> x" "x < 256" "py_bytes xs = Inr b" "bs = of_int x # b"
    by (auto simp: py_bytes_def bindE_eq_Inr split: if_splits)
  then have "int (unat (of_int x :: byte)) = x" by (simp add: uint_word_of_int flip: uint_nat)
  with Cons.IH[OF b(3)] b(4) show ?case by simp
qed (simp add: py_bytes_def)

lemma u2_column: "concatE (\<lambda>c. pack [U 2] [c]) xs = Inr bs \<Longrightarrow> pack (replicate (length xs) (U 2)) xs = Inr bs"
  by (induction xs arbitrary: bs) (auto simp: bindE_eq_Inr split: if_splits)

lemma index_ids_zip:
  assumes d: "distinct ids"
  shows "length ids = k + length gs \<Longrightarrow> dict_keys m = take k ids \<Longrightarrow>
    foldE (\<lambda>d (i, e). bindE (py_nth ids (int (fst e))) (\<lambda>issue_id. Inr (dict_set issue_id i d))) m (enumerate k (starts k s gs)) =
    Inr (m @ zip (drop k ids) [k..<length ids])"
proof (induction gs arbitrary: k s m)
  case (Cons g gs)
  have k: "k < length ids" using Cons.prems by simp
  have new: "ids ! k \<notin> set (dict_keys m)" using d k unfolding Cons.prems(2) by (auto simp: in_set_conv_nth nth_eq_iff_index_eq)
  have m: "dict_set (ids ! k) k m = m @ [(ids ! k, k)]" by (rule update_notin[OF new])
  have "drop k ids = ids ! k # drop (Suc k) ids" "[k..<length ids] = k # [Suc k..<length ids]"
    using k by (simp_all add: Cons_nth_drop_Suc upt_conv_Cons)
  then have z: "zip (drop k ids) [k..<length ids] = (ids ! k, k) # zip (drop (Suc k) ids) [Suc k..<length ids]" by simp
  have e: "enumerate k (starts k s (g # gs)) = (k, (k, s, length g)) # enumerate (Suc k) (starts (Suc k) (s + length g) gs)" by simp
  have n: "py_nth ids (int k) = Inr (ids ! k)" using k by (simp add: py_nth_def)
  show ?case unfolding e foldE.simps prod.case fst_conv n bindE_Inr m z
    using Cons.IH[of "Suc k" "m @ [(ids ! k, k)]" "s + length g"] Cons.prems k by (simp add: take_Suc_conv_app_nth del: upt_Suc)
qed simp

section \<open>Reading a sealed log\<close>

definition history_columns :: "pystr list \<Rightarrow> change list list \<Rightarrow> IssueHistoryReader \<Rightarrow> bool" where
  "history_columns ids gs rd \<longleftrightarrow>
     id_table rd = ids \<and> tables_ok (fst (comment_tables gs), comment_table rd) \<and> length (comment_table rd) < 65536 \<and>
     (\<forall>r\<in>set (concat gs). snd (snd r) \<noteq> [] \<longrightarrow> snd (snd r) \<in> set (comment_table rd)) \<and>
     issue_index rd = starts 0 0 gs \<and> id_to_issue_idx rd = zip ids [0..<length ids] \<and>
     map int (ts_deltas rd) = concat (map (\<lambda>g. diffs (ts_base rd) (map fst g)) gs) \<and>
     map (\<lambda>b. int (unat b)) (state_bytes rd) = map (\<lambda>r. fst (snd r)) (concat gs) \<and>
     comment_idxs rd = map (\<lambda>r. comment_ref (fst (comment_tables gs)) (snd (snd r))) (concat gs)"

lemma concatE_fourth: "concatE (\<lambda>(_, _, _, c). f c) rows = concatE f (map (\<lambda>(_, _, _, c). c) rows)"
  by (induction rows) auto

lemma parse_raw_history:
  assumes raw: "raw_history ids gs = Inr bs" and n: "length gs = length ids" and d: "distinct ids"
  shows "\<exists>rd. parse_history bs = Inr rd \<and> history_columns ids gs rd"
proof -
  obtain index table where t: "comment_tables gs = (index, table)" by (cases "comment_tables gs")
  let ?rows = "numbered index 0 gs" and ?idx = "starts 0 0 gs" and ?N = "length (concat gs)"
  let ?base = "min_ts ?rows" and ?cs = "map (\<lambda>r. comment_ref index (snd (snd r))) (concat gs)"
  let ?ds = "concat (map (\<lambda>g. diffs ?base (map fst g)) gs)"
  let ?hv = "[IH_MAGIC, IH_VERSION, int (length ids), int (length table), int (length ids), int ?N]"
  have dc: "delta_column ?base [] ?rows = ?ds" by (rule delta_numbered) simp
  from raw obtain h i c x b ds st cb where p: "pack IH_HDR ?hv = Inr h" "concatE short_str ids = Inr i" "concatE short_str table = Inr c"
    "concatE (\<lambda>(i, s, n). pack IDX_ENTRY [int i, int s, int n]) ?idx = Inr x" "pack [U 4] [?base] = Inr b" "encode_varints ?ds = Inr ds"
    "py_bytes (map (\<lambda>r. fst (snd r)) (concat gs)) = Inr st" "concatE (\<lambda>c. pack [U 2] [c]) ?cs = Inr cb"
    "bs = h @ i @ c @ x @ b @ ds @ st @ cb"
    unfolding raw_history_def t Let_def prod.case flatten_tables[OF t] bindE_Inr dc concatE_fourth numbered_views length_starts n
    by (elim bindE_InrE) (blast dest: Inr_inject)
  have pos: "at bs 0 h" "at bs (length h) i" "at bs (length h + length i) c" "at bs (length h + length i + length c) x"
    "at bs (length h + length i + length c + length x) b" "at bs (length h + length i + length c + length x + length b) ds"
    "at bs (length h + length i + length c + length x + length b + length ds) st"
    "at bs (length h + length i + length c + length x + length b + length ds + length st) cb"
    using p(9) at_whole[of bs] by (auto simp: at_append add.assoc)
  have len: "length h = calcsize IH_HDR" "length b = 4" using pack_length[OF p(1)] pack_length[OF p(5)] by simp_all
  have states: "map (\<lambda>b. int (unat b)) st = map (\<lambda>r. fst (snd r)) (concat gs)" by (rule py_bytes_val[OF p(7)])
  then have lst: "length st = ?N" using map_eq_imp_length_eq by fastforce
  have nn: "\<forall>v\<in>set ?ds. 0 \<le> v" by (rule conjunct1[OF encode_varints_eq_Inr[OF p(6)]])
  have dsb: "ds = concat (map varint_loop (map nat ?ds))" unfolding map_map by (rule conjunct2[OF encode_varints_eq_Inr[OF p(6)]])
  have lds: "length (map nat ?ds) = ?N" by (simp add: length_concat comp_def)
  have "map int (map nat xs) = xs" if "\<forall>v\<in>set xs. 0 \<le> v" for xs :: "int list" using that by (induction xs) simp_all
  note ints = this[OF nn]
  note deltas = decode_varints_at[of bs _ "map nat ?ds", folded dsb, OF pos(6), unfolded lds]
  have hdr: "unpack_from IH_HDR bs 0 = Inr ?hv" by (rule unpack_from_pack[OF p(1) pos(1)])
  have i1: "repeat_dec read_short (length ids) bs (calcsize IH_HDR) = Inr (ids, length h + length i)"
    using short.repeat_dec_enc[OF p(2) pos(2)] by (simp add: len)
  have c1: "repeat_dec read_short (length table) bs (length h + length i) = Inr (table, length h + length i + length c)"
    by (rule short.repeat_dec_enc[OF p(3) pos(3)])
  have x1: "repeat_dec read_index (length ids) bs (length h + length i + length c) = Inr (?idx, length h + length i + length c + length x)"
    using entry.repeat_dec_enc[OF p(4) pos(4)] n by simp
  have b1: "unpack_from [U 4] bs (length h + length i + length c + length x) = Inr [?base]" by (rule unpack_from_pack[OF p(5) pos(5)])
  have z: "index_ids ids ?idx = Inr (zip ids [0..<length ids])"
    using index_ids_zip[OF d, of 0 gs "[]" 0] n by (simp add: index_ids_def)
  have cb1: "(if ?N = 0 then Inr [] else unpack_from (replicate ?N (U 2)) bs (length h + length i + length c + length x + length b + length ds + ?N)) = Inr ?cs"
    using unpack_from_pack[OF u2_column[OF p(8)] pos(8)] lst by auto
  have sl: "slice bs (length h + length i + length c + length x + length b + length ds) (length h + length i + length c + length x + length b + length ds + ?N) = st"
    by (rule at_slice[OF pos(7)]) (simp add: lst)
  let ?rd = "\<lparr>id_table = ids, comment_table = table, issue_index = ?idx, id_to_issue_idx = zip ids [0..<length ids], ts_base = ?base,
    ts_deltas = map nat ?ds, state_bytes = st, comment_idxs = ?cs, num_records = ?N\<rparr>"
  have hv: "?hv ! 0 = IH_MAGIC" "?hv ! 1 = IH_VERSION" "nat (?hv ! 2) = length ids" "nat (?hv ! 3) = length table" "nat (?hv ! 4) = length ids"
    "nat (?hv ! 5) = ?N" by simp_all
  have "parse_history bs = Inr ?rd"
    unfolding parse_history_def hdr bindE_Inr Let_def hv simp_thms if_False i1 prod.case c1 x1 z b1 deltas[unfolded len(2)] sl[unfolded len(2)] cb1[unfolded len(2)]
    by simp
  moreover have "length table < 65536" using p(1) by (simp add: IH_HDR_def split: if_splits)
  ultimately show ?thesis
    using comment_tables_ok[of gs] states ints by (intro exI[of _ ?rd]) (auto simp: history_columns_def t)
qed

lemma rows_read:
  assumes "tables_ok (index, comment_table rd)" "length (comment_table rd) < 65536"
  shows "\<forall>r\<in>set g. snd (snd r) \<noteq> [] \<longrightarrow> snd (snd r) \<in> set (comment_table rd) \<Longrightarrow>
    at (map int (ts_deltas rd)) i (diffs now (map fst g)) \<Longrightarrow> at (map (\<lambda>b. int (unat b)) (state_bytes rd)) i (map (\<lambda>r. fst (snd r)) g) \<Longrightarrow>
    at (comment_idxs rd) i (map (\<lambda>r. comment_ref index (snd (snd r))) g) \<Longrightarrow>
    iter_rows rd iid now i (length g) = Inr (map (Pair iid) g)"
proof (induction g arbitrary: i now)
  case (Cons r g)
  obtain ts st c where r: "r = (ts, st, c)" by (cases r)
  have d: "i < length (ts_deltas rd)" "int (ts_deltas rd ! i) = ts - now" "at (map int (ts_deltas rd)) (Suc i) (diffs ts (map fst g))"
    using Cons.prems(2) by (auto simp: at_Cons r)
  have s: "i < length (state_bytes rd)" "int (unat (state_bytes rd ! i)) = st" "at (map (\<lambda>b. int (unat b)) (state_bytes rd)) (Suc i) (map (\<lambda>r. fst (snd r)) g)"
    using Cons.prems(3) by (auto simp: at_Cons r)
  have k: "i < length (comment_idxs rd)" "comment_idxs rd ! i = comment_ref index c" "at (comment_idxs rd) (Suc i) (map (\<lambda>r. comment_ref index (snd (snd r))) g)"
    using Cons.prems(4) by (auto simp: at_Cons r)
  have com: "(if comment_ref index c \<noteq> NO_COMMENT then py_nth (comment_table rd) (comment_ref index c) else Inr []) = Inr c"
  proof (cases "c = []")
    case False
    with Cons.prems(1) r have "c \<in> set (comment_table rd)" by simp
    from comment_lookup[OF assms(1) this] obtain j where "dict_get index c = Some j" "j < length (comment_table rd)" "comment_table rd ! j = c" by blast
    with False assms(2) show ?thesis by (simp add: comment_ref_def NO_COMMENT_def py_nth_def)
  qed (simp add: comment_ref_def)
  have "iter_rows rd iid ts (Suc i) (length g) = Inr (map (Pair iid) g)"
    using Cons.prems(1) by (intro Cons.IH d(3) s(3) k(3)) simp
  then show ?case using d(1,2) s(1,2) k(1,2) com by (simp add: py_nth_def r)
qed simp

definition state_after :: "int \<Rightarrow> int option \<Rightarrow> change list \<Rightarrow> int option" where
  "state_after t = foldl (\<lambda>prior r. if fst r \<le> t then Some (fst (snd r)) else prior)"

lemma state_after_later: "\<forall>r\<in>set g. t < fst r \<Longrightarrow> state_after t s g = s"
  unfolding state_after_def by (induction g arbitrary: s) auto

lemma states_scanned:
  "sorted (map fst g) \<Longrightarrow> at (map int (ts_deltas rd)) i (diffs now (map fst g)) \<Longrightarrow>
   at (map (\<lambda>b. int (unat b)) (state_bytes rd)) i (map (\<lambda>r. fst (snd r)) g) \<Longrightarrow>
   scan_states rd t prior now i (length g) = Inr (state_after t prior g)"
proof (induction g arbitrary: i now prior)
  case (Cons r g)
  obtain ts st c where r: "r = (ts, st, c)" by (cases r)
  have d: "i < length (ts_deltas rd)" "int (ts_deltas rd ! i) = ts - now" "at (map int (ts_deltas rd)) (Suc i) (diffs ts (map fst g))"
    using Cons.prems(2) by (auto simp: at_Cons r)
  have s: "i < length (state_bytes rd)" "int (unat (state_bytes rd ! i)) = st" "at (map (\<lambda>b. int (unat b)) (state_bytes rd)) (Suc i) (map (\<lambda>r. fst (snd r)) g)"
    using Cons.prems(3) by (auto simp: at_Cons r)
  have later: "state_after t prior (r # g) = prior" if "t < ts"
    using Cons.prems(1) that by (intro state_after_later) (auto simp: r)
  show ?case using Cons.IH[OF _ d(3) s(3), of "Some st"] Cons.prems(1) d(1,2) s(1,2) later
    by (auto simp: py_nth_def r state_after_def)
qed (simp add: state_after_def)

section \<open>The log\<close>

text \<open>The writer's state after a sequence of calls, and what that sequence says of one issue.\<close>

definition recorded :: "(pystr \<times> change) list \<Rightarrow> transitions" where
  "recorded log = foldl (\<lambda>d (issue_id, ts, state, comment). add_change issue_id ts state comment d) [] log"

definition log_of :: "(pystr \<times> change) list \<Rightarrow> pystr \<Rightarrow> change list" where
  "log_of log k = sort_key fst (map snd (filter (\<lambda>e. fst e = k) log))"

lemma dict_append_get: "changes_of (dict_append k v d) j = changes_of d j @ (if j = k then [v] else [])"
  by (simp add: changes_of_def dict_append_def dict_get_set split: option.split)

lemma dict_append_keys:
  "distinct (dict_keys d) \<Longrightarrow> distinct (dict_keys (dict_append k v d)) \<and> set (dict_keys (dict_append k v d)) = insert k (set (dict_keys d))"
  by (auto simp: dict_append_def dict_keys_set)

lemma recorded_snoc: "recorded (log @ [(k, r)]) = dict_append k r (recorded log)"
  by (cases r) (simp add: recorded_def add_change_def)

lemma recorded_log:
  "distinct (dict_keys (recorded log)) \<and> set (dict_keys (recorded log)) = fst ` set log \<and>
   changes_of (recorded log) k = map snd (filter (\<lambda>e. fst e = k) log)"
proof (induction log rule: rev_induct)
  case Nil
  show ?case by (simp add: recorded_def changes_of_def)
next
  case (snoc e log)
  obtain j r where e: "e = (j, r)" by (cases e)
  from snoc dict_append_keys[of "recorded log" j r] dict_append_get[of j r "recorded log" k] show ?case
    by (simp add: e recorded_snoc)
qed

lemma sort_changes_of: "changes_of (sort_changes d) k = sort_key fst (changes_of d k)"
  by (induction d) (auto simp: changes_of_def sort_changes_def)

lemma sort_changes_keys: "dict_keys (sort_changes d) = dict_keys d"
  by (induction d) (auto simp: sort_changes_def)

definition log_ids :: "(pystr \<times> change) list \<Rightarrow> pystr list" where
  "log_ids log = sorted_list_of_set (fst ` set log)"

lemma sorted_ids_recorded: "sorted_ids (sort_changes (recorded log)) = log_ids log"
proof -
  have k: "distinct (dict_keys (recorded log))" "set (dict_keys (recorded log)) = fst ` set log" using recorded_log[of log] by blast+
  show ?thesis unfolding sorted_ids_def sort_changes_keys log_ids_def k(2)[symmetric]
    using k(1) sorted_list_of_set_sort_remdups[of "dict_keys (recorded log)"] distinct_remdups_id[of "dict_keys (recorded log)"] by simp
qed

lemma build_recorded:
  "build_raw (recorded log) = (sort_changes (recorded log), raw_history (log_ids log) (map (log_of log) (log_ids log)))"
proof -
  have "changes_of (sort_changes (recorded log)) = log_of log" using recorded_log by (auto simp: sort_changes_of log_of_def)
  then show ?thesis by (simp add: build_raw_def sorted_ids_recorded)
qed

section \<open>Answers\<close>

lemma at_concat: "j < length xs \<Longrightarrow> at (concat xs) (length (concat (take j xs))) (xs ! j)"
proof -
  assume j: "j < length xs"
  have "concat xs = concat (take j xs) @ xs ! j @ concat (drop (Suc j) xs)"
    using id_take_nth_drop[OF j] by (metis concat.simps(2) concat_append)
  then show ?thesis using at_intro by metis
qed

lemma column_at:
  assumes "j < length gs" "\<And>g. length (f g) = length g"
  shows "at (concat (map f gs)) (length (concat (take j gs))) (f (gs ! j))"
proof -
  have "length (concat (take j (map f gs))) = length (concat (take j gs))" using assms(2) by (simp add: take_map length_concat comp_def)
  then show ?thesis using at_concat[of j "map f gs"] assms(1) by simp
qed

lemma group_columns:
  assumes h: "history_columns ids gs rd" and j: "j < length gs"
  shows "iter_rows rd iid (ts_base rd) (length (concat (take j gs))) (length (gs ! j)) = Inr (map (Pair iid) (gs ! j))"
    "sorted (map fst (gs ! j)) \<Longrightarrow>
     scan_states rd t None (ts_base rd) (length (concat (take j gs))) (length (gs ! j)) = Inr (state_after t None (gs ! j))"
proof -
  have t: "tables_ok (fst (comment_tables gs), comment_table rd)" "length (comment_table rd) < 65536" using h by (simp_all add: history_columns_def)
  have c: "\<forall>r\<in>set (gs ! j). snd (snd r) \<noteq> [] \<longrightarrow> snd (snd r) \<in> set (comment_table rd)" using h j by (auto simp: history_columns_def)
  have d: "at (map int (ts_deltas rd)) (length (concat (take j gs))) (diffs (ts_base rd) (map fst (gs ! j)))"
    using h column_at[OF j, of "\<lambda>g. diffs (ts_base rd) (map fst g)"] by (simp add: history_columns_def)
  have s: "at (map (\<lambda>b. int (unat b)) (state_bytes rd)) (length (concat (take j gs))) (map (\<lambda>r. fst (snd r)) (gs ! j))"
    using h column_at[OF j, of "map (\<lambda>r. fst (snd r))"] by (simp add: history_columns_def map_concat)
  have k: "at (comment_idxs rd) (length (concat (take j gs))) (map (\<lambda>r. comment_ref (fst (comment_tables gs)) (snd (snd r))) (gs ! j))"
    using h column_at[OF j, of "map (\<lambda>r. comment_ref (fst (comment_tables gs)) (snd (snd r)))"] by (simp add: history_columns_def map_concat)
  show "iter_rows rd iid (ts_base rd) (length (concat (take j gs))) (length (gs ! j)) = Inr (map (Pair iid) (gs ! j))"
    by (rule rows_read[OF t c d s k])
  show "scan_states rd t None (ts_base rd) (length (concat (take j gs))) (length (gs ! j)) = Inr (state_after t None (gs ! j))"
    if "sorted (map fst (gs ! j))" by (rule states_scanned[OF that d s])
qed

lemma reader_answers:
  assumes h: "history_columns ids (map f ids) rd" and d: "distinct ids" and f: "\<And>k. k \<notin> set ids \<Longrightarrow> f k = []" "\<And>k. sorted (map fst (f k))"
  shows "history_for_issue rd k = Inr (map (Pair k) (f k))" "state_at rd k t = Inr (state_after t None (f k))"
    "all_transitions rd = Inr (concat (map (\<lambda>k. map (Pair k) (f k)) ids))"
proof -
  have r: "id_table rd = ids" "issue_index rd = starts 0 0 (map f ids)" "id_to_issue_idx rd = zip ids [0..<length ids]" using h by (simp_all add: history_columns_def)
  have e: "py_nth (issue_index rd) (int j) = Inr (j, length (concat (take j (map f ids))), length (f (ids ! j)))" if "j < length ids" for j
    using that by (simp add: r(2) py_nth_def starts_nth)
  show "history_for_issue rd k = Inr (map (Pair k) (f k))" "state_at rd k t = Inr (state_after t None (f k))"
  proof -
    consider "k \<notin> set ids" | j where "j < length ids" "ids ! j = k" by (metis in_set_conv_nth)
    then have "history_for_issue rd k = Inr (map (Pair k) (f k)) \<and> state_at rd k t = Inr (state_after t None (f k))"
    proof cases
      case 1
      then have z: "dict_get (zip ids [0..<length ids]) k = None" by (simp add: map_of_zip_upt_None)
      show ?thesis unfolding history_for_issue_def state_at_def r(3) z using f(1)[OF 1] by (simp add: state_after_def)
    next
      case 2
      then have z: "dict_get (zip ids [0..<length ids]) k = Some j" using map_of_zip_upt_Some[OF d] by blast
      show ?thesis unfolding history_for_issue_def state_at_def r(3) z option.case e[OF 2(1)] bindE_Inr prod.case
        using group_columns[OF h, of j] 2 f(2)[of k] by simp
    qed
    then show "history_for_issue rd k = Inr (map (Pair k) (f k))" "state_at rd k t = Inr (state_after t None (f k))" by simp_all
  qed
  have "mapE (\<lambda>(i, start_row, count). bindE (py_nth (id_table rd) (int i)) (\<lambda>issue_id. iter_rows rd issue_id (ts_base rd) start_row count)) (issue_index rd) =
      Inr (map (\<lambda>k. map (Pair k) (f k)) ids)"
    unfolding mapE_eq_Inr list_all2_conv_all_nth
    using group_columns(1)[OF h] by (simp add: r(1,2) starts_nth py_nth_def)
  then show "all_transitions rd = Inr (concat (map (\<lambda>k. map (Pair k) (f k)) ids))" by (simp add: all_transitions_def concatE_def)
qed

section \<open>When a log can be sealed\<close>

definition short_ok :: "pystr \<Rightarrow> bool" where
  "short_ok s \<longleftrightarrow> (case utf8_encode s of Inl _ \<Rightarrow> False | Inr enc \<Rightarrow> length enc < 256)"

definition history_fits :: "(pystr \<times> change) list \<Rightarrow> bool" where
  "history_fits log \<longleftrightarrow>
     length (log_ids log) < 65536 \<and> card ((\<lambda>e. snd (snd (snd e))) ` set log - {[]}) < 65536 \<and> length log < 4294967296 \<and>
     (\<forall>k\<in>fst ` set log. short_ok k \<and> length (filter (\<lambda>e. fst e = k) log) < 65536) \<and>
     (\<forall>c\<in>(\<lambda>e. snd (snd (snd e))) ` set log - {[]}. short_ok c) \<and>
     (\<forall>e\<in>set log. 0 \<le> fst (snd (snd e)) \<and> fst (snd (snd e)) < 256) \<and>
     (log \<noteq> [] \<longrightarrow> 0 \<le> Min ((\<lambda>e. fst (snd e)) ` set log) \<and> Min ((\<lambda>e. fst (snd e)) ` set log) < 4294967296)"

lemma short_str_ok: "is_ok (short_str s) \<longleftrightarrow> short_ok s"
  by (auto simp: short_ok_def short_str_def is_ok_iff bindE_eq_Inr split: sum.split)

lemma py_bytes_ok: "is_ok (py_bytes xs) \<longleftrightarrow> (\<forall>x\<in>set xs. 0 \<le> x \<and> x < 256)"
  by (simp add: py_bytes_def mapE_ok)

lemma deltas_encode_ok: "is_ok (encode_varints vs) \<longleftrightarrow> (\<forall>v\<in>set vs. 0 \<le> v)"
  unfolding encode_varints_def by (simp add: concatE_ok encode_varint_ok)

lemma diffs_nonneg: "sorted ts \<Longrightarrow> \<forall>t\<in>set ts. b \<le> t \<Longrightarrow> v \<in> set (diffs b ts) \<Longrightarrow> 0 \<le> v"
  by (induction ts arbitrary: b) auto

lemma fold_min_least: "foldl min t ts = Min (set (t # ts))" for t :: int
proof (induction ts arbitrary: t)
  case (Cons x ts)
  show ?case
  proof (cases "ts = []")
    case False
    then show ?thesis using Cons.IH[of "min t x"] by (simp add: min.assoc)
  qed simp
qed simp

lemma min_ts_Min: "concat gs \<noteq> [] \<Longrightarrow> min_ts (numbered index i gs) = Min (fst ` set (concat gs))"
  unfolding min_ts_def numbered_views by (cases "concat gs") (simp_all add: fold_min_least del: concat_eq_Nil_conv)

lemma indicator_sum: "distinct ks \<Longrightarrow> (\<Sum>k\<leftarrow>ks. if a = k then 1 else 0) = (if a \<in> set ks then 1 else (0::nat))"
  by (induction ks) auto

lemma log_partition:
  "distinct ks \<Longrightarrow> fst ` set log \<subseteq> set ks \<Longrightarrow> (\<Sum>k\<leftarrow>ks. length (filter (\<lambda>e. fst e = k) log)) = length log"
proof (induction log)
  case (Cons e log)
  have "(\<Sum>k\<leftarrow>ks. length (filter (\<lambda>e. fst e = k) (e # log))) = (\<Sum>k\<leftarrow>ks. (if fst e = k then 1 else 0) + length (filter (\<lambda>e. fst e = k) log))"
    by (rule arg_cong[where f = sum_list]) (rule map_cong, simp_all)
  also have "\<dots> = 1 + length log" using Cons by (simp add: sum_list_addf indicator_sum)
  finally show ?case by simp
qed simp

definition log_groups :: "(pystr \<times> change) list \<Rightarrow> change list list" where
  "log_groups log = map (log_of log) (log_ids log)"

lemma log_ids_set: "set (log_ids log) = fst ` set log" "distinct (log_ids log)"
  by (simp_all add: log_ids_def)

lemma log_groups_views:
  "length (concat (log_groups log)) = length log" "set (concat (log_groups log)) = snd ` set log"
  "\<forall>g\<in>set (log_groups log). sorted (map fst g)"
proof -
  show "length (concat (log_groups log)) = length log"
    using log_partition[OF log_ids_set(2)[of log], of log] log_ids_set(1)[of log] by (simp add: log_groups_def log_of_def length_concat comp_def)
  show "set (concat (log_groups log)) = snd ` set log" by (force simp: log_groups_def log_of_def log_ids_set)
  show "\<forall>g\<in>set (log_groups log). sorted (map fst g)" by (auto simp: log_groups_def log_of_def)
qed

lemma starts_ok:
  "(\<forall>e\<in>set (starts i s gs). is_ok (case e of (i, s, n) \<Rightarrow> pack IDX_ENTRY [int i, int s, int n])) \<longleftrightarrow>
   (\<forall>g\<in>set gs. length g < 65536)" if "i + length gs < 65536" "s + length (concat gs) < 4294967296"
  using that by (induction gs arbitrary: i s) (simp_all add: IDX_ENTRY_def)

lemma comment_refs_ok:
  assumes "length (snd (comment_tables gs)) < 65536" "c = [] \<or> c \<in> set (snd (comment_tables gs))"
  shows "is_ok (pack [U 2] [comment_ref (fst (comment_tables gs)) c])"
  using assms comment_lookup[of "fst (comment_tables gs)" "snd (comment_tables gs)" c] comment_tables_ok(1)[of gs]
  by (auto simp: comment_ref_def NO_COMMENT_def)

lemma is_ok_bind: "is_ok (bindE m f) \<longleftrightarrow> (\<exists>x. m = Inr x \<and> is_ok (f x))"
  by (cases m) simp_all

lemma raw_history_ok:
  assumes n: "length gs = length ids" and t: "comment_tables gs = (index, table)"
  shows "is_ok (raw_history ids gs) \<longleftrightarrow>
    is_ok (pack IH_HDR [IH_MAGIC, IH_VERSION, int (length ids), int (length table), int (length ids), int (length (concat gs))]) \<and>
    is_ok (concatE short_str ids) \<and> is_ok (concatE short_str table) \<and>
    is_ok (concatE (\<lambda>(i, s, n). pack IDX_ENTRY [int i, int s, int n]) (starts 0 0 gs)) \<and> is_ok (pack [U 4] [min_ts (numbered index 0 gs)]) \<and>
    is_ok (encode_varints (concat (map (\<lambda>g. diffs (min_ts (numbered index 0 gs)) (map fst g)) gs))) \<and>
    is_ok (py_bytes (map (\<lambda>r. fst (snd r)) (concat gs))) \<and>
    is_ok (concatE (\<lambda>c. pack [U 2] [c]) (map (\<lambda>r. comment_ref index (snd (snd r))) (concat gs)))"
proof -
  have dc: "delta_column b [] (numbered index 0 gs) = concat (map (\<lambda>g. diffs b (map fst g)) gs)" for b by (rule delta_numbered) simp
  show ?thesis
    unfolding raw_history_def t Let_def prod.case flatten_tables[OF t] bindE_Inr dc concatE_fourth numbered_views length_starts n is_ok_bind
    unfolding is_ok_iff by blast
qed

lemma raw_history_fits: "is_ok (raw_history (log_ids log) (log_groups log)) \<longleftrightarrow> history_fits log"
proof -
  let ?gs = "log_groups log" and ?ids = "log_ids log"
  obtain index table where t: "comment_tables ?gs = (index, table)" by (cases "comment_tables ?gs")
  let ?base = "min_ts (numbered index 0 ?gs)"
  note v = log_groups_views[of log]
  have st: "set table = (\<lambda>e. snd (snd (snd e))) ` set log - {[]}" using comment_tables_ok(2)[of ?gs] unfolding t snd_conv v(2) image_image .
  have dt: "distinct table" using comment_tables_ok(1)[of ?gs] by (simp add: t tables_ok_def)
  from st dt have lt: "length table = card ((\<lambda>e. snd (snd (snd e))) ` set log - {[]})" by (metis distinct_card)
  have n: "length ?gs = length ?ids" by (simp add: log_groups_def)
  have base: "?base = (if log = [] then 0 else Min ((\<lambda>e. fst (snd e)) ` set log))"
  proof (cases "log = []")
    case False
    then have "concat ?gs \<noteq> []" using v(1) by (metis length_0_conv)
    from min_ts_Min[OF this] False show ?thesis unfolding v(2) image_image by simp
  next
    case True
    then have "concat ?gs = []" using v(1) by (metis length_0_conv)
    then have "map fst (concat ?gs) = []" by (simp only: list.map)
    with True show ?thesis unfolding min_ts_def numbered_views by (simp del: concat_eq_Nil_conv)
  qed
  have low: "\<forall>t\<in>set (map fst g). ?base \<le> t" if g: "g \<in> set ?gs" for g
  proof
    fix x assume "x \<in> set (map fst g)"
    then have "x \<in> fst ` set (concat ?gs)" using g by auto
    then have "x \<in> (\<lambda>e. fst (snd e)) ` set log" unfolding v(2) by (simp add: image_image)
    then show "?base \<le> x" by (auto simp: base)
  qed
  have deltas: "is_ok (encode_varints (concat (map (\<lambda>g. diffs ?base (map fst g)) ?gs)))"
  proof -
    have "0 \<le> v" if "g \<in> set ?gs" "v \<in> set (diffs ?base (map fst g))" for g v
      using diffs_nonneg[OF _ low[OF that(1)] that(2)] v(3) that(1) by blast
    then show ?thesis unfolding deltas_encode_ok set_concat set_map by blast
  qed
  have hdr: "is_ok (pack IH_HDR [IH_MAGIC, IH_VERSION, int (length ?ids), int (length table), int (length ?ids), int (length (concat ?gs))]) \<longleftrightarrow>
      length ?ids < 65536 \<and> length table < 65536 \<and> length log < 4294967296"
    unfolding v(1) by (auto simp: IH_HDR_def IH_MAGIC_def IH_VERSION_def)
  have refs: "is_ok (concatE (\<lambda>c. pack [U 2] [c]) (map (\<lambda>r. comment_ref index (snd (snd r))) (concat ?gs)))" if "length table < 65536"
    unfolding concatE_ok using comment_refs_ok[of ?gs] that comment_tables_ok(2)[of ?gs] by (auto simp: t)
  have idx: "is_ok (concatE (\<lambda>(i, s, n). pack IDX_ENTRY [int i, int s, int n]) (starts 0 0 ?gs)) \<longleftrightarrow>
      (\<forall>k\<in>fst ` set log. length (filter (\<lambda>e. fst e = k) log) < 65536)" if "length ?ids < 65536" "length log < 4294967296"
    unfolding concatE_ok using starts_ok[of 0 ?gs 0] that v(1) n log_ids_set[of log] by (simp add: log_groups_def log_of_def)
  have base_ok: "is_ok (pack [U 4] [?base]) \<longleftrightarrow> (log \<noteq> [] \<longrightarrow> 0 \<le> Min ((\<lambda>e. fst (snd e)) ` set log) \<and> Min ((\<lambda>e. fst (snd e)) ` set log) < 4294967296)"
    unfolding base by (cases "log = []") (simp_all del: Min_ge_iff)
  have sts: "is_ok (py_bytes (map (\<lambda>r. fst (snd r)) (concat ?gs))) \<longleftrightarrow> (\<forall>e\<in>set log. 0 \<le> fst (snd (snd e)) \<and> fst (snd (snd e)) < 256)"
    unfolding py_bytes_ok set_map v(2) by simp
  have strs: "is_ok (concatE short_str ?ids) \<longleftrightarrow> (\<forall>k\<in>fst ` set log. short_ok k)"
    "is_ok (concatE short_str table) \<longleftrightarrow> (\<forall>c\<in>(\<lambda>e. snd (snd (snd e))) ` set log - {[]}. short_ok c)"
    unfolding concatE_ok short_str_ok st log_ids_set by simp_all
  show ?thesis unfolding raw_history_ok[OF n t] hdr strs sts base_ok history_fits_def lt[symmetric] using idx refs deltas by blast
qed

section \<open>The contract\<close>

text \<open>A recorded log can be sealed exactly if it fits the format: fewer than \<open>2^16\<close> issues, comments and
changes of one issue, fewer than \<open>2^32\<close> changes, identifiers and comments of at most 255 encoded bytes, states that are bytes,
and an earliest time that is an unsigned 32-bit number. Later times are not limited.\<close>

theorem sealable_logs:
  "is_ok (snd (seal xz zlib use_lzma (recorded log))) \<longleftrightarrow> history_fits log"
proof -
  have "is_ok (snd (seal xz zlib use_lzma (recorded log))) \<longleftrightarrow> is_ok (raw_history (log_ids log) (log_groups log))"
    unfolding seal_def bindS_def build_recorded log_groups_def[symmetric] by (simp split: sum.split)
  then show ?thesis using raw_history_fits by blast
qed

text \<open>What the code relies on of the compressors: each is inverted by its decompressor, and only \<open>xz\<close> writes the magic number
that the reader tells them apart by.\<close>

definition compressors :: "(bytes \<Rightarrow> bytes) option \<Rightarrow> (nat \<Rightarrow> bytes \<Rightarrow> bytes) \<Rightarrow> (bytes \<Rightarrow> bytes res) \<Rightarrow> (bytes \<Rightarrow> bytes res) \<Rightarrow> bool" where
  "compressors xz zlib unxz unzlib \<longleftrightarrow>
     (\<forall>compress raw. xz = Some compress \<longrightarrow> take 6 (compress raw) = XZ_MAGIC \<and> unxz (compress raw) = Inr raw) \<and>
     (\<forall>level raw. take 6 (zlib level raw) \<noteq> XZ_MAGIC \<and> unzlib (zlib level raw) = Inr raw)"

lemma sealed_log:
  assumes laws: "compressors xz zlib unxz unzlib"
    and seal: "seal xz zlib use_lzma (recorded log) = (d, Inr c)"
  shows "\<exists>rd. open_history unxz unzlib c = Inr rd \<and> history_columns (log_ids log) (log_groups log) rd"
proof -
  obtain raw where raw: "raw_history (log_ids log) (log_groups log) = Inr raw"
    and c: "c = (case xz of Some compress \<Rightarrow> if use_lzma then compress raw else zlib 9 raw | None \<Rightarrow> zlib 9 raw)"
    using seal unfolding seal_def bindS_def build_recorded log_groups_def[symmetric] by (auto split: sum.splits)
  have "decompress_history unxz unzlib c = Inr raw"
    using laws unfolding c decompress_history_def compressors_def by (simp split: option.split)
  moreover have "length (log_groups log) = length (log_ids log)" by (simp add: log_groups_def)
  ultimately show ?thesis using parse_raw_history[OF raw _ log_ids_set(2)] by (simp add: open_history_def)
qed

lemma sealed_answers:
  assumes "history_columns (log_ids log) (log_groups log) rd"
  shows "history_for_issue rd k = Inr (map (Pair k) (log_of log k))" "state_at rd k t = Inr (state_after t None (log_of log k))"
    "all_transitions rd = Inr (concat (map (\<lambda>k. map (Pair k) (log_of log k)) (log_ids log)))"
proof -
  have e: "log_of log k = []" if "k \<notin> set (log_ids log)" for k
  proof -
    have "filter (\<lambda>e. fst e = k) log = []" using that unfolding log_ids_set(1) filter_empty_conv by blast
    then show ?thesis by (simp add: log_of_def)
  qed
  have s: "sorted (map fst (log_of log k))" for k by (simp add: log_of_def)
  note r = reader_answers[OF assms[unfolded log_groups_def] log_ids_set(2)]
  show "history_for_issue rd k = Inr (map (Pair k) (log_of log k))" "state_at rd k t = Inr (state_after t None (log_of log k))"
    "all_transitions rd = Inr (concat (map (\<lambda>k. map (Pair k) (log_of log k)) (log_ids log)))"
    by (rule r, erule e, rule s)+
qed

text \<open>C14 (refinement). A sealed log that is opened again is the recorded one: every issue has exactly the changes recorded for it,
in order of time and, at one time, in the order recorded, and the whole history is that of the issues in alphabetical order.
The compressors invert each other and write the magic numbers the reader tells them apart by.\<close>

theorem issue_history_refines:
  assumes "compressors xz zlib unxz unzlib" "seal xz zlib use_lzma (recorded log) = (d, Inr c)"
  shows "\<exists>rd. open_history unxz unzlib c = Inr rd \<and> (\<forall>k. history_for_issue rd k = Inr (map (Pair k) (log_of log k))) \<and>
    all_transitions rd = Inr (concat (map (\<lambda>k. map (Pair k) (log_of log k)) (log_ids log)))"
  using sealed_log[OF assms] sealed_answers by blast

lemma state_after_filter:
  "state_after t s g = (let past = filter (\<lambda>r. fst r \<le> t) g in if past = [] then s else Some (fst (snd (List.last past))))"
proof (induction g arbitrary: s)
  case (Cons r g)
  then show ?case by (auto simp: state_after_def)
qed (simp add: state_after_def)

text \<open>C37 (functional). The state the reader reports for an issue and a time is the new state of the latest change of that issue
recorded for that time or before, the one recorded last if several are, and none if there is no such change.\<close>

theorem state_at_latest:
  assumes "compressors xz zlib unxz unzlib" "seal xz zlib use_lzma (recorded log) = (d, Inr c)"
  shows "\<exists>rd. open_history unxz unzlib c = Inr rd \<and>
    (\<forall>k t. state_at rd k t = Inr (let past = filter (\<lambda>r. fst r \<le> t) (log_of log k) in if past = [] then None else Some (fst (snd (List.last past)))))"
  using sealed_log[OF assms] sealed_answers(2) unfolding state_after_filter by blast

definition x_log :: "(pystr \<times> change) list" where
  "x_log = [([73], 50, 2, [102, 105, 120]), ([74], 7, 1, []), ([73], 40, 1, [])]"

lemma x_log_fits: "history_fits x_log"
proof -
  have i: "log_ids x_log = [[73], [74]]" unfolding log_ids_def x_log_def lit_def
    using sorted_list_of_set_sort_remdups[of "[[73], [74], [73::nat]]"] by simp
  show ?thesis unfolding history_fits_def i
    by (simp add: x_log_def lit_def short_ok_def utf8_encode_ascii insert_Diff_if)
qed

lemma x_log_sealed: "\<exists>raw. seal (Some (\<lambda>raw. XZ_MAGIC @ raw)) (\<lambda>_ raw. 0x78 # raw) True (recorded x_log) = (sort_changes (recorded x_log), Inr (XZ_MAGIC @ raw))"
proof -
  have "is_ok (raw_history (log_ids x_log) (log_groups x_log))" by (rule raw_history_fits[THEN iffD2, OF x_log_fits])
  then obtain raw where raw: "raw_history (log_ids x_log) (log_groups x_log) = Inr raw" unfolding is_ok_iff by blast
  show ?thesis unfolding seal_def bindS_def build_recorded log_groups_def[symmetric] raw by (intro exI[of _ raw]) simp
qed

lemma x_codecs: "compressors (Some (\<lambda>raw. XZ_MAGIC @ raw)) (\<lambda>_ raw. 0x78 # raw) (\<lambda>b. Inr (drop 6 b)) (\<lambda>b. Inr (drop 1 b))"
  by (simp add: compressors_def XZ_MAGIC_def)

lemma issue_history_refines_witness:
  "\<exists>raw rd. open_history (\<lambda>b. Inr (drop 6 b)) (\<lambda>b. Inr (drop 1 b)) (XZ_MAGIC @ raw) = Inr rd \<and>
    (\<forall>k. history_for_issue rd k = Inr (map (Pair k) (log_of x_log k))) \<and>
    all_transitions rd = Inr (concat (map (\<lambda>k. map (Pair k) (log_of x_log k)) (log_ids x_log)))"
proof -
  obtain raw where "seal (Some (\<lambda>raw. XZ_MAGIC @ raw)) (\<lambda>_ raw. 0x78 # raw) True (recorded x_log) = (sort_changes (recorded x_log), Inr (XZ_MAGIC @ raw))"
    using x_log_sealed by blast
  from issue_history_refines[OF x_codecs this] show ?thesis by blast
qed

lemma state_at_latest_witness:
  "\<exists>raw rd. open_history (\<lambda>b. Inr (drop 6 b)) (\<lambda>b. Inr (drop 1 b)) (XZ_MAGIC @ raw) = Inr rd \<and> state_at rd [73] 45 = Inr (Some 1)"
proof -
  obtain raw where "seal (Some (\<lambda>raw. XZ_MAGIC @ raw)) (\<lambda>_ raw. 0x78 # raw) True (recorded x_log) = (sort_changes (recorded x_log), Inr (XZ_MAGIC @ raw))"
    using x_log_sealed by blast
  from state_at_latest[OF x_codecs this] obtain rd where
    "open_history (\<lambda>b. Inr (drop 6 b)) (\<lambda>b. Inr (drop 1 b)) (XZ_MAGIC @ raw) = Inr rd"
    "\<forall>k t. state_at rd k t = Inr (let past = filter (\<lambda>r. fst r \<le> t) (log_of x_log k) in if past = [] then None else Some (fst (snd (List.last past))))"
    by blast
  moreover have "log_of x_log [73] = [(40, 1, []), (50, 2, [102, 105, 120])]" by (simp add: log_of_def x_log_def)
  ultimately show ?thesis by force
qed

end
