(* ===== verification/TestStats.thy ===== *)
theory TestStats
  imports HistoryTables Complex_Main
begin

text \<open>
  \<open>ncdb/test_stats.py\<close>: one entry of running totals for every test name, updated with each run and written to
  \<open>test_stats.bin\<close>. Floating-point fields are rational numbers here, so the rounding of binary floats is not modelled;
  how \<open>struct\<close> packs one as 32 bits is a parameter of the two functions of the member. The set of seeds is a list.
\<close>

section \<open>Entries\<close>

definition HIST_STATUS_FAIL :: int where "HIST_STATUS_FAIL = 1"
definition CUSUM_K :: rat where "CUSUM_K = 1 / 2"
definition CUSUM_H :: rat where "CUSUM_H = 4"

record TestStatsEntry =
  se_name_id :: nat
  total_runs :: int
  se_pass_count :: int
  se_fail_count :: int
  se_error_count :: int
  first_ts :: int
  last_ts :: int
  last_green_ts :: int
  transition_count :: int
  streak :: int
  last_status :: int
  flake_score :: rat
  fail_rate :: rat
  mean_cpu_time :: rat
  m2_cpu_time :: rat
  cusum_value :: rat
  cusum_ref_mean :: rat
  grade_score :: rat
  total_seeds_seen :: int
  known_seeds :: "int list"

definition new_stats :: "nat \<Rightarrow> TestStatsEntry" where
  "new_stats name_id =
     \<lparr>se_name_id = name_id, total_runs = 0, se_pass_count = 0, se_fail_count = 0, se_error_count = 0, first_ts = 0, last_ts = 0,
      last_green_ts = 0, transition_count = 0, streak = 0, last_status = HIST_STATUS_OK, flake_score = 0, fail_rate = 0,
      mean_cpu_time = 0, m2_cpu_time = 0, cusum_value = 0, cusum_ref_mean = 0, grade_score = 0, total_seeds_seen = 0,
      known_seeds = []\<rparr>"

definition is_broken :: "TestStatsEntry \<Rightarrow> bool" where
  "is_broken e \<longleftrightarrow> streak e \<le> -5 \<and> flake_score e < 1 / 10"

definition is_flaky :: "TestStatsEntry \<Rightarrow> bool" where
  "is_flaky e \<longleftrightarrow> \<bar>streak e\<bar> < 3 \<and> flake_score e > 3 / 10"

section \<open>Updating an entry\<close>

definition count_run :: "int \<Rightarrow> int \<Rightarrow> TestStatsEntry \<Rightarrow> TestStatsEntry" where
  "count_run status ts e =
     (let e = e\<lparr>total_runs := total_runs e + 1\<rparr>;
          e = (if total_runs e = 1 then e\<lparr>first_ts := ts, cusum_ref_mean := (if status = HIST_STATUS_FAIL then 1 else 0)\<rparr> else e)
      in e\<lparr>last_ts := max (last_ts e) ts\<rparr>)"

definition count_status :: "int \<Rightarrow> int \<Rightarrow> TestStatsEntry \<Rightarrow> TestStatsEntry" where
  "count_status status ts e =
     (if status = HIST_STATUS_OK then e\<lparr>se_pass_count := se_pass_count e + 1, last_green_ts := max (last_green_ts e) ts\<rparr>
      else if status = HIST_STATUS_FAIL then e\<lparr>se_fail_count := se_fail_count e + 1\<rparr>
      else e\<lparr>se_error_count := se_error_count e + 1\<rparr>)"

definition track_streak :: "int \<Rightarrow> TestStatsEntry \<Rightarrow> TestStatsEntry" where
  "track_streak status e =
     (if status = HIST_STATUS_OK then e\<lparr>streak := (if streak e \<ge> 0 then streak e + 1 else 1)\<rparr>
      else e\<lparr>streak := (if streak e \<le> 0 then streak e - 1 else -1)\<rparr>)"

definition count_transition :: "int \<Rightarrow> TestStatsEntry \<Rightarrow> TestStatsEntry" where
  "count_transition status e =
     (let e = (if total_runs e > 1 \<and> status \<noteq> last_status e then e\<lparr>transition_count := transition_count e + 1\<rparr> else e)
      in e\<lparr>last_status := status\<rparr>)"

definition derive_rates :: "TestStatsEntry \<Rightarrow> TestStatsEntry" where
  "derive_rates e =
     e\<lparr>flake_score := of_int (transition_count e) / of_int (max (total_runs e - 1) 1),
       fail_rate := of_int (se_fail_count e) / of_int (total_runs e)\<rparr>"

definition welford :: "rat option \<Rightarrow> TestStatsEntry \<Rightarrow> TestStatsEntry" where
  "welford cpu_time e =
     (case cpu_time of None \<Rightarrow> e
      | Some t \<Rightarrow>
          let delta = t - mean_cpu_time e;
              e = e\<lparr>mean_cpu_time := mean_cpu_time e + delta / of_int (total_runs e)\<rparr>
          in e\<lparr>m2_cpu_time := m2_cpu_time e + delta * (t - mean_cpu_time e)\<rparr>)"

definition cusum :: "int \<Rightarrow> TestStatsEntry \<Rightarrow> TestStatsEntry" where
  "cusum status e =
     (let x = (if status = HIST_STATUS_FAIL then 1 else 0);
          v = max 0 (cusum_value e + x - (cusum_ref_mean e + CUSUM_K))
      in e\<lparr>cusum_value := (if v > CUSUM_H then 0 else v)\<rparr>)"

definition note_seed :: "int option \<Rightarrow> TestStatsEntry \<Rightarrow> TestStatsEntry" where
  "note_seed seed_id e =
     (case seed_id of None \<Rightarrow> e
      | Some s \<Rightarrow>
          let e = e\<lparr>known_seeds := List.insert s (known_seeds e)\<rparr>
          in e\<lparr>total_seeds_seen := int (length (known_seeds e))\<rparr>)"

definition grade :: "TestStatsEntry \<Rightarrow> TestStatsEntry" where
  "grade e =
     (let pass_rate = of_int (se_pass_count e) / of_int (total_runs e);
          stability = 1 - flake_score e;
          speed = (if mean_cpu_time e > 0 then max 0 (1 - mean_cpu_time e / 3600) else 1)
      in e\<lparr>grade_score := pass_rate * stability * speed\<rparr>)"

lemmas stat_steps = count_run_def count_status_def track_streak_def count_transition_def derive_rates_def welford_def cusum_def note_seed_def grade_def

definition update_entry :: "int \<Rightarrow> int \<Rightarrow> rat option \<Rightarrow> int option \<Rightarrow> TestStatsEntry \<Rightarrow> TestStatsEntry" where
  "update_entry status ts cpu_time seed_id e =
     grade (note_seed seed_id (cusum status (welford cpu_time (derive_rates (count_transition status
       (track_streak status (count_status status ts (count_run status ts e))))))))"

section \<open>The table\<close>

definition ensure_entry :: "nat \<Rightarrow> TestStatsEntry list \<Rightarrow> TestStatsEntry list" where
  "ensure_entry name_id es = es @ map new_stats [length es..<Suc name_id]"

definition stats_update ::
  "nat \<Rightarrow> int \<Rightarrow> int \<Rightarrow> rat option \<Rightarrow> int option \<Rightarrow> TestStatsEntry list \<Rightarrow> TestStatsEntry list" where
  "stats_update name_id status ts cpu_time seed_id es =
     (let es = ensure_entry name_id es in es[name_id := update_entry status ts cpu_time seed_id (es ! name_id)])"

definition stats_get :: "TestStatsEntry list \<Rightarrow> nat \<Rightarrow> TestStatsEntry option" where
  "stats_get es name_id = (if name_id < length es then Some (es ! name_id) else None)"

text \<open>\<open>sorted(..., reverse=True)\<close> keeps the order of entries with equal keys.\<close>

definition sort_desc :: "('a \<Rightarrow> rat) \<Rightarrow> 'a list \<Rightarrow> 'a list" where
  "sort_desc key = sort_key (\<lambda>e. - key e)"

definition top_flaky :: "nat \<Rightarrow> TestStatsEntry list \<Rightarrow> TestStatsEntry list" where
  "top_flaky n es = take n (sort_desc flake_score es)"

definition top_failing :: "nat \<Rightarrow> rat \<Rightarrow> TestStatsEntry list \<Rightarrow> TestStatsEntry list" where
  "top_failing n flake_threshold es =
     take n (sort_desc fail_rate (filter (\<lambda>e. fail_rate e > 0 \<and> flake_score e < flake_threshold) es))"

section \<open>The member\<close>

definition TSTA_MAGIC :: int where "TSTA_MAGIC = 0x54535441"
definition TSTA_HDR :: "fld list" where "TSTA_HDR = [U 4, U 1, U 4]"
definition TSTA_INTS :: "fld list" where "TSTA_INTS = replicate 8 (U 4) @ [S 2, U 1, U 1]"

definition write_stats :: "(rat \<Rightarrow> bytes res) \<Rightarrow> TestStatsEntry \<Rightarrow> bytes res" where
  "write_stats f32 e =
     bindE (pack TSTA_INTS [total_runs e, se_pass_count e, se_fail_count e, se_error_count e, first_ts e, last_ts e, last_green_ts e,
       transition_count e, streak e, last_status e, 0]) (\<lambda>ints.
     bindE (concatE f32 [flake_score e, fail_rate e, mean_cpu_time e, m2_cpu_time e, cusum_value e, cusum_ref_mean e, grade_score e]) (\<lambda>floats.
     bindE (pack [U 2, X 6] [total_seeds_seen e]) (\<lambda>tail. Inr (ints @ floats @ tail))))"

definition stats_serialize :: "(rat \<Rightarrow> bytes res) \<Rightarrow> TestStatsEntry list \<Rightarrow> bytes res" where
  "stats_serialize f32 es =
     bindE (pack TSTA_HDR [TSTA_MAGIC, 1, int (length es)]) (\<lambda>header.
     bindE (concatE (write_stats f32) es) (\<lambda>rows. Inr (header @ rows)))"

text \<open>One entry is 72 bytes: the integers, seven floats, the seeds and the reserved bytes.\<close>

definition read_stats :: "(bytes \<Rightarrow> rat) \<Rightarrow> bytes \<Rightarrow> nat \<Rightarrow> (TestStatsEntry \<times> nat) res" where
  "read_stats unf32 data offset =
     bindE (unpack_from (TSTA_INTS @ replicate 28 (U 1) @ [U 2, X 6]) data offset) (\<lambda>v.
     let f = (\<lambda>i. unf32 (slice data (offset + 36 + 4 * i) (offset + 40 + 4 * i))) in
     Inr (\<lparr>se_name_id = 0, total_runs = v ! 0, se_pass_count = v ! 1, se_fail_count = v ! 2, se_error_count = v ! 3, first_ts = v ! 4,
           last_ts = v ! 5, last_green_ts = v ! 6, transition_count = v ! 7, streak = v ! 8, last_status = v ! 9,
           flake_score = f 0, fail_rate = f 1, mean_cpu_time = f 2, m2_cpu_time = f 3, cusum_value = f 4, cusum_ref_mean = f 5,
           grade_score = f 6, total_seeds_seen = v ! 39, known_seeds = []\<rparr>, offset + 72))"

definition stats_deserialize :: "(bytes \<Rightarrow> rat) \<Rightarrow> bytes \<Rightarrow> TestStatsEntry list res" where
  "stats_deserialize unf32 data =
     bindE (unpack_from TSTA_HDR data 0) (\<lambda>h.
       if h ! 0 \<noteq> TSTA_MAGIC then Inl ValueError
       else if h ! 1 \<noteq> 1 then Inl ValueError
       else bindE (repeat_dec (read_stats unf32) (nat (h ! 2)) data (calcsize TSTA_HDR)) (\<lambda>(es, _).
         Inr (map (\<lambda>(i, e). e\<lparr>se_name_id := i\<rparr>) (enumerate 0 es))))"

end
