(* ===== verification/RunHistory.thy ===== *)
theory RunHistory
  imports HistoryMerge TestStats StateExn
begin

text \<open>
  The run history of an open database, from \<open>ncdb/ncdb_ucis.py\<close>: \<open>add_test_run\<close>, \<open>query_test_history\<close>,
  \<open>get_test_stats\<close>, \<open>squash_coverage\<close>, the members it is saved as and their loading. The state is what the object holds
  once \<open>_ensure_v2_history\<close> has run: registry, statistics, bucket index, sealed buckets, the open bucket, contribution
  index and squash log. Compression is a pair of functions (the second for the open bucket) with one inverse; the
  clock is an argument; a seed is the string \<open>str\<close> makes of it.
\<close>

section \<open>State\<close>

record session =
  ss_members :: "(pystr \<times> bytes) list"
  ss_registry :: TestRegistry
  ss_stats :: "TestStatsEntry list"
  ss_index :: "BucketIndexEntry list"
  ss_contrib :: ContribIndex
  ss_squash_log :: "SquashLogEntry list"
  ss_writer :: BucketWriter
  ss_sealed :: "(int \<times> bytes) list"
  ss_dirty :: bool

definition MEMBER_TEST_STATS :: pystr where "MEMBER_TEST_STATS = lit ''test_stats.bin''"

definition loaded_or :: "(pystr \<times> bytes) list \<Rightarrow> pystr \<Rightarrow> (bytes \<Rightarrow> 'a res) \<Rightarrow> 'a \<Rightarrow> 'a res" where
  "loaded_or zf name parse fresh = (case dict_get zf name of None \<Rightarrow> Inr fresh | Some data \<Rightarrow> parse data)"

definition load_v2_history :: "(bytes \<Rightarrow> rat) \<Rightarrow> (pystr \<times> bytes) list \<Rightarrow> session res" where
  "load_v2_history unf32 zf =
     bindE (loaded_or zf MEMBER_TEST_REGISTRY reg_deserialize (new_registry 0)) (\<lambda>reg.
     bindE (loaded_or zf MEMBER_TEST_STATS (stats_deserialize unf32) []) (\<lambda>stats.
     bindE (loaded_or zf MEMBER_BUCKET_INDEX bidx_deserialize []) (\<lambda>bidx.
     bindE (loaded_or zf MEMBER_CONTRIB_INDEX cidx_deserialize (new_contrib_index POLICY_PASS_ONLY 0)) (\<lambda>cidx.
     bindE (loaded_or zf MEMBER_SQUASH_LOG sqlg_deserialize []) (\<lambda>slog.
     Inr \<lparr>ss_members = zf, ss_registry = reg, ss_stats = stats, ss_index = bidx, ss_contrib = cidx, ss_squash_log = slog,
          ss_writer = new_bucket,
          ss_sealed = foldl (\<lambda>d (n, data). case bucket_member_seq n of None \<Rightarrow> d | Some seq \<Rightarrow> dict_set seq data d) [] zf,
          ss_dirty = False\<rparr>)))))"

section \<open>Recording\<close>

definition HIST_FLAG_IS_RERUN :: int where "HIST_FLAG_IS_RERUN = 2"
definition HIST_FLAG_HAS_COVERAGE :: int where "HIST_FLAG_HAS_COVERAGE = 4"
definition CI_IS_RERUN :: int where "CI_IS_RERUN = 1"

definition registryS :: "(TestRegistry \<Rightarrow> 'a \<times> TestRegistry) \<Rightarrow> (session, 'a) op" where
  "registryS f s = (case f (ss_registry s) of (x, reg) \<Rightarrow> (s\<lparr>ss_registry := reg\<rparr>, Inr x))"

definition index_entry :: "int \<Rightarrow> nat \<Rightarrow> int \<Rightarrow> BucketRecord list \<Rightarrow> BucketIndexEntry" where
  "index_entry seq n fails recs =
     \<lparr>bucket_seq = seq, ts_start = Min (set (map br_ts recs)), ts_end = Max (set (map br_ts recs)), num_records = int n, fail_count = fails,
      min_name_id = Min (set (map br_name_id recs)), max_name_id = Max (set (map br_name_id recs))\<rparr>"

definition seal_current_bucket :: "(bytes \<Rightarrow> bytes) \<Rightarrow> (bytes \<Rightarrow> bytes res) \<Rightarrow> (session, unit) op" where
  "seal_current_bucket compress decompress s =
     (let w = ss_writer s in
      if bw_records w = [] then (s, Inr ())
      else
        let seq = next_seq (ss_index s) in
        case bucket_encode w of
          Inl e \<Rightarrow> (s, Inl e)
        | Inr raw \<Rightarrow>
            let data = compress raw; s = s\<lparr>ss_sealed := dict_set seq data (ss_sealed s)\<rparr> in
            case bindE (decompress data) bucket_parse of
              Inl e \<Rightarrow> (s, Inl e)
            | Inr reader \<Rightarrow>
                let all_recs = rd_records reader;
                    fails = int (length (filter (\<lambda>r. br_status r \<noteq> 0) all_recs)) in
                (s\<lparr>ss_index := add_bucket (index_entry seq (length (bw_records w)) fails all_recs) (ss_index s),
                   ss_writer := new_bucket\<rparr>, Inr ()))"

definition add_record :: "BucketRecord \<Rightarrow> (session, unit) op" where
  "add_record r s = (case bucket_add r (ss_writer s) of Inl e \<Rightarrow> (s, Inl e) | Inr w \<Rightarrow> (s\<lparr>ss_writer := w\<rparr>, Inr ()))"

definition add_test_run ::
  "(bytes \<Rightarrow> bytes) \<Rightarrow> (bytes \<Rightarrow> bytes res) \<Rightarrow> pystr \<Rightarrow> pystr \<Rightarrow> int \<Rightarrow> int \<Rightarrow> rat option \<Rightarrow> bool \<Rightarrow> bool \<Rightarrow> (session, int) op" where
  "add_test_run compress decompress name seed status ts cpu_time has_coverage rerun =
     bindS (registryS (lookup_name_id name)) (\<lambda>name_id.
     bindS (registryS (lookup_seed_id seed)) (\<lambda>seed_id.
     bindS (registryS assign_run_id) (\<lambda>run_id.
     bindS (modS (\<lambda>s. s\<lparr>ss_stats := stats_update name_id status ts cpu_time (Some (int seed_id)) (ss_stats s)\<rparr>)) (\<lambda>_.
     let flags = (if rerun then HIST_FLAG_IS_RERUN else 0) OR (if has_coverage then HIST_FLAG_HAS_COVERAGE else 0) in
     bindS (add_record \<lparr>br_name_id = int name_id, br_seed_id = int seed_id, br_ts = ts, br_status = status, br_flags = flags\<rparr>) (\<lambda>_.
     bindS (\<lambda>s. if is_full (ss_writer s) then seal_current_bucket compress decompress s else (s, Inr ())) (\<lambda>_.
     bindS (modS (\<lambda>s. if has_coverage
              then s\<lparr>ss_contrib := ci_add_entry \<lparr>ce_run_id = run_id, ce_name_id = int name_id, ce_status = status,
                       ce_flags = (if rerun then CI_IS_RERUN else 0)\<rparr> (ss_contrib s)\<rparr>
              else s)) (\<lambda>_.
     bindS (modS (\<lambda>s. s\<lparr>ss_dirty := True\<rparr>)) (\<lambda>_. retS run_id))))))))"

section \<open>Queries\<close>

definition in_window :: "int option \<Rightarrow> int option \<Rightarrow> BucketRecord \<Rightarrow> bool" where
  "in_window ts_from ts_to r \<longleftrightarrow>
     (case ts_from of None \<Rightarrow> True | Some t \<Rightarrow> br_ts r \<ge> t) \<and> (case ts_to of None \<Rightarrow> True | Some t \<Rightarrow> br_ts r \<le> t)"

definition bucket_data :: "session \<Rightarrow> int \<Rightarrow> bytes option" where
  "bucket_data s seq =
     (case dict_get (ss_sealed s) seq of Some data \<Rightarrow> Some data | None \<Rightarrow> dict_get (ss_members s) (bucket_member_name seq))"

definition query_test_history ::
  "(bytes \<Rightarrow> bytes) \<Rightarrow> (bytes \<Rightarrow> bytes res) \<Rightarrow> session \<Rightarrow> pystr \<Rightarrow> int option \<Rightarrow> int option \<Rightarrow> BucketRecord list res" where
  "query_test_history fast decompress s name ts_from ts_to =
     (case dict_get (reg_name_to_id (ss_registry s)) name of
        None \<Rightarrow> Inr []
      | Some name_id \<Rightarrow>
          let recs = (\<lambda>reader. filter (in_window ts_from ts_to) (records_for_name reader (int name_id))) in
          bindE (concatE (\<lambda>entry.
                   case bucket_data s (bucket_seq entry) of
                     None \<Rightarrow> Inr []
                   | Some data \<Rightarrow> bindE (bindE (decompress data) bucket_parse) (\<lambda>reader. Inr (recs reader)))
                 (buckets_for_name (int name_id) ts_from ts_to (ss_index s))) (\<lambda>results.
          if bw_records (ss_writer s) = [] then Inr results
          else case bindE (bucket_encode (ss_writer s)) (\<lambda>raw. bindE (decompress (fast raw)) bucket_parse) of
                 Inl _ \<Rightarrow> Inr results
               | Inr reader \<Rightarrow> Inr (results @ recs reader)))"

definition get_test_stats :: "session \<Rightarrow> pystr \<Rightarrow> TestStatsEntry option" where
  "get_test_stats s name =
     (case dict_get (reg_name_to_id (ss_registry s)) name of
        None \<Rightarrow> None
      | Some name_id \<Rightarrow>
          (case stats_get (ss_stats s) name_id of
             None \<Rightarrow> None
           | Some e \<Rightarrow> if total_runs e = 0 then None else Some e))"

section \<open>Squash and save\<close>

definition squash_coverage :: "int \<Rightarrow> int \<Rightarrow> session \<Rightarrow> session" where
  "squash_coverage now policy s =
     (let ci = ss_contrib s; passing = passing_run_ids policy ci; watermark = max_run_id ci in
      s\<lparr>ss_squash_log := squash_append \<lparr>sq_ts = now, sq_policy = policy, sq_from_run = squash_watermark ci, sq_to_run = watermark,
            sq_num_runs = int (length (ci_entries ci)), sq_pass_runs = int (length passing)\<rparr> (ss_squash_log s),
        ss_contrib := set_squash_watermark watermark (remove_entries_up_to watermark ci),
        ss_dirty := True\<rparr>)"

definition get_v2_members :: "(bytes \<Rightarrow> bytes) \<Rightarrow> (rat \<Rightarrow> bytes res) \<Rightarrow> session \<Rightarrow> (pystr \<times> bytes) list res" where
  "get_v2_members fast f32 s =
     bindE (reg_serialize (ss_registry s)) (\<lambda>reg.
     bindE (stats_serialize f32 (ss_stats s)) (\<lambda>stats.
     bindE (cidx_serialize (ss_contrib s)) (\<lambda>cidx.
     bindE (sqlg_serialize (ss_squash_log s)) (\<lambda>slog.
     let members = dict_update [(MEMBER_TEST_REGISTRY, reg), (MEMBER_TEST_STATS, stats), (MEMBER_CONTRIB_INDEX, cidx), (MEMBER_SQUASH_LOG, slog)]
                     (map (\<lambda>(seq, data). (bucket_member_name seq, data)) (ss_sealed s));
         recs = bw_records (ss_writer s) in
     bindE (if recs = [] then Inr (members, ss_index s)
            else
              let seq = next_seq (ss_index s) in
              bindE (bucket_encode (ss_writer s)) (\<lambda>raw.
              bindE (bindE (bidx_serialize (ss_index s)) bidx_deserialize) (\<lambda>out_bidx.
              Inr (dict_set (bucket_member_name seq) (fast raw) members,
                   add_bucket (index_entry seq (length recs) (int (length (filter (\<lambda>r. br_status r = HIST_STATUS_FAIL) recs))) recs) out_bidx)))) (\<lambda>(members, out_bidx).
     bindE (bidx_serialize out_bidx) (\<lambda>bidx. Inr (dict_set MEMBER_BUCKET_INDEX bidx members)))))))"

end
