(* ===== verification/TestStatsSpec.thy ===== *)
theory TestStatsSpec
  imports TestStats
begin

text \<open>
  The statistics of a test against the list of its runs: every counter that is maintained run by run is the
  one that list gives, and what a reload of the member keeps of it.
\<close>

section \<open>Totals of a list of runs\<close>

record run =
  run_status :: int
  run_ts :: int
  run_cpu :: "rat option"
  run_seed :: "int option"

definition stats_of :: "nat \<Rightarrow> run list \<Rightarrow> TestStatsEntry" where
  "stats_of name_id = foldl (\<lambda>e r. update_entry (run_status r) (run_ts r) (run_cpu r) (run_seed r) e) (new_stats name_id)"

definition transitions :: "int list \<Rightarrow> nat" where
  "transitions sts = length (filter (\<lambda>(a, b). a \<noteq> b) (zip sts (tl sts)))"

definition final_streak :: "int list \<Rightarrow> int" where
  "final_streak sts =
     (if sts = [] then 0
      else if last sts = HIST_STATUS_OK then int (length (takeWhile (\<lambda>s. s = HIST_STATUS_OK) (rev sts)))
      else - int (length (takeWhile (\<lambda>s. s \<noteq> HIST_STATUS_OK) (rev sts))))"

definition count_of :: "(int \<Rightarrow> bool) \<Rightarrow> run list \<Rightarrow> int" where
  "count_of P rs = int (length (filter (\<lambda>r. P (run_status r)) rs))"

definition latest :: "run list \<Rightarrow> int" where
  "latest rs = foldl max 0 (map run_ts rs)"

definition seeds_of :: "run list \<Rightarrow> int set" where
  "seeds_of rs = {s. Some s \<in> run_seed ` set rs}"

lemma transitions_snoc: "transitions (sts @ [s]) = transitions sts + (if sts \<noteq> [] \<and> last sts \<noteq> s then 1 else 0)"
proof (cases sts rule: rev_cases)
  case (snoc xs x)
  have "zip (sts @ [s]) (tl (sts @ [s])) = zip sts (tl sts) @ [(x, s)]"
  proof -
    have "tl (sts @ [s]) = tl sts @ [s]" "length (tl sts) = length xs" using snoc by (cases xs; simp)+
    moreover have "zip (xs @ [x]) (tl sts) = zip xs (tl sts)" if "length (tl sts) = length xs" using that by (simp add: zip_append1)
    ultimately show ?thesis using snoc by (simp add: zip_append1)
  qed
  then show ?thesis using snoc by (simp add: transitions_def)
qed (simp add: transitions_def)

lemma transitions_bound: "transitions sts \<le> length sts - 1"
  unfolding transitions_def by (rule order_trans[OF length_filter_le]) simp

lemma final_streak_snoc:
  "final_streak (sts @ [s]) =
     (if s = HIST_STATUS_OK then (if final_streak sts \<ge> 0 then final_streak sts + 1 else 1)
      else (if final_streak sts \<le> 0 then final_streak sts - 1 else -1))"
proof (cases sts rule: rev_cases)
  case (snoc xs x)
  have "takeWhile P (rev (xs @ [x])) = (if P x then x # takeWhile P (rev xs) else [])" for P by simp
  then show ?thesis using snoc by (auto simp: final_streak_def)
qed (simp add: final_streak_def)

lemma max_fold_snoc: "foldl max (0::int) (ts @ [t]) = max (foldl max 0 ts) t"
  by simp

section \<open>The contract of an entry\<close>

definition entry_is :: "TestStatsEntry \<Rightarrow> run list \<Rightarrow> bool" where
  "entry_is e rs \<longleftrightarrow>
     total_runs e = int (length rs) \<and>
     se_pass_count e = count_of (\<lambda>s. s = HIST_STATUS_OK) rs \<and>
     se_fail_count e = count_of (\<lambda>s. s = HIST_STATUS_FAIL) rs \<and>
     se_error_count e = count_of (\<lambda>s. s \<noteq> HIST_STATUS_OK \<and> s \<noteq> HIST_STATUS_FAIL) rs \<and>
     first_ts e = (if rs = [] then 0 else run_ts (hd rs)) \<and>
     last_ts e = latest rs \<and>
     last_green_ts e = latest (filter (\<lambda>r. run_status r = HIST_STATUS_OK) rs) \<and>
     transition_count e = int (transitions (map run_status rs)) \<and>
     streak e = final_streak (map run_status rs) \<and>
     last_status e = (if rs = [] then HIST_STATUS_OK else run_status (last rs)) \<and>
     flake_score e = of_nat (transitions (map run_status rs)) / of_nat (max (length rs - 1) 1) \<and>
     fail_rate e = (if rs = [] then 0 else of_int (count_of (\<lambda>s. s = HIST_STATUS_FAIL) rs) / of_nat (length rs)) \<and>
     distinct (known_seeds e) \<and> set (known_seeds e) = seeds_of rs \<and> total_seeds_seen e = int (card (seeds_of rs))"

lemma entry_new: "entry_is (new_stats n) []"
  by (simp add: entry_is_def new_stats_def count_of_def latest_def transitions_def final_streak_def seeds_of_def)

lemma seeds_of_snoc: "seeds_of (rs @ [r]) = (case run_seed r of None \<Rightarrow> seeds_of rs | Some s \<Rightarrow> insert s (seeds_of rs))"
  by (auto simp: seeds_of_def split: option.split)

text \<open>What each step of an update, and an update, does to each field.\<close>

lemma count_run_fields [simp]:
  "total_runs (count_run st ts e) = total_runs e + 1"
  "se_pass_count (count_run st ts e) = se_pass_count e"
  "se_fail_count (count_run st ts e) = se_fail_count e"
  "se_error_count (count_run st ts e) = se_error_count e"
  "first_ts (count_run st ts e) = (if total_runs e = 0 then ts else first_ts e)"
  "last_ts (count_run st ts e) = max (last_ts e) ts"
  "last_green_ts (count_run st ts e) = last_green_ts e"
  "transition_count (count_run st ts e) = transition_count e"
  "streak (count_run st ts e) = streak e"
  "last_status (count_run st ts e) = last_status e"
  "known_seeds (count_run st ts e) = known_seeds e"
  "total_seeds_seen (count_run st ts e) = total_seeds_seen e"
  "flake_score (count_run st ts e) = flake_score e"
  "fail_rate (count_run st ts e) = fail_rate e"
  "se_name_id (count_run st ts e) = se_name_id e"
  by (simp_all add: count_run_def split: option.split)

lemma count_status_fields [simp]:
  "total_runs (count_status st ts e) = total_runs e"
  "se_pass_count (count_status st ts e) = se_pass_count e + (if st = HIST_STATUS_OK then 1 else 0)"
  "se_fail_count (count_status st ts e) = se_fail_count e + (if st \<noteq> HIST_STATUS_OK \<and> st = HIST_STATUS_FAIL then 1 else 0)"
  "se_error_count (count_status st ts e) = se_error_count e + (if st \<noteq> HIST_STATUS_OK \<and> st \<noteq> HIST_STATUS_FAIL then 1 else 0)"
  "first_ts (count_status st ts e) = first_ts e"
  "last_ts (count_status st ts e) = last_ts e"
  "last_green_ts (count_status st ts e) = (if st = HIST_STATUS_OK then max (last_green_ts e) ts else last_green_ts e)"
  "transition_count (count_status st ts e) = transition_count e"
  "streak (count_status st ts e) = streak e"
  "last_status (count_status st ts e) = last_status e"
  "known_seeds (count_status st ts e) = known_seeds e"
  "total_seeds_seen (count_status st ts e) = total_seeds_seen e"
  "flake_score (count_status st ts e) = flake_score e"
  "fail_rate (count_status st ts e) = fail_rate e"
  "se_name_id (count_status st ts e) = se_name_id e"
  by (simp_all add: count_status_def split: option.split)

lemma track_streak_fields [simp]:
  "total_runs (track_streak st e) = total_runs e"
  "se_pass_count (track_streak st e) = se_pass_count e"
  "se_fail_count (track_streak st e) = se_fail_count e"
  "se_error_count (track_streak st e) = se_error_count e"
  "first_ts (track_streak st e) = first_ts e"
  "last_ts (track_streak st e) = last_ts e"
  "last_green_ts (track_streak st e) = last_green_ts e"
  "transition_count (track_streak st e) = transition_count e"
  "streak (track_streak st e) = (if st = HIST_STATUS_OK then (if streak e \<ge> 0 then streak e + 1 else 1) else (if streak e \<le> 0 then streak e - 1 else -1))"
  "last_status (track_streak st e) = last_status e"
  "known_seeds (track_streak st e) = known_seeds e"
  "total_seeds_seen (track_streak st e) = total_seeds_seen e"
  "flake_score (track_streak st e) = flake_score e"
  "fail_rate (track_streak st e) = fail_rate e"
  "se_name_id (track_streak st e) = se_name_id e"
  by (simp_all add: track_streak_def split: option.split)

lemma count_transition_fields [simp]:
  "total_runs (count_transition st e) = total_runs e"
  "se_pass_count (count_transition st e) = se_pass_count e"
  "se_fail_count (count_transition st e) = se_fail_count e"
  "se_error_count (count_transition st e) = se_error_count e"
  "first_ts (count_transition st e) = first_ts e"
  "last_ts (count_transition st e) = last_ts e"
  "last_green_ts (count_transition st e) = last_green_ts e"
  "transition_count (count_transition st e) = transition_count e + (if total_runs e > 1 \<and> st \<noteq> last_status e then 1 else 0)"
  "streak (count_transition st e) = streak e"
  "last_status (count_transition st e) = st"
  "known_seeds (count_transition st e) = known_seeds e"
  "total_seeds_seen (count_transition st e) = total_seeds_seen e"
  "flake_score (count_transition st e) = flake_score e"
  "fail_rate (count_transition st e) = fail_rate e"
  "se_name_id (count_transition st e) = se_name_id e"
  by (simp_all add: count_transition_def split: option.split)

lemma derive_rates_fields [simp]:
  "total_runs (derive_rates e) = total_runs e"
  "se_pass_count (derive_rates e) = se_pass_count e"
  "se_fail_count (derive_rates e) = se_fail_count e"
  "se_error_count (derive_rates e) = se_error_count e"
  "first_ts (derive_rates e) = first_ts e"
  "last_ts (derive_rates e) = last_ts e"
  "last_green_ts (derive_rates e) = last_green_ts e"
  "transition_count (derive_rates e) = transition_count e"
  "streak (derive_rates e) = streak e"
  "last_status (derive_rates e) = last_status e"
  "known_seeds (derive_rates e) = known_seeds e"
  "total_seeds_seen (derive_rates e) = total_seeds_seen e"
  "flake_score (derive_rates e) = of_int (transition_count e) / of_int (max (total_runs e - 1) 1)"
  "fail_rate (derive_rates e) = of_int (se_fail_count e) / of_int (total_runs e)"
  "se_name_id (derive_rates e) = se_name_id e"
  by (simp_all add: derive_rates_def split: option.split)

lemma welford_fields [simp]:
  "total_runs (welford c e) = total_runs e"
  "se_pass_count (welford c e) = se_pass_count e"
  "se_fail_count (welford c e) = se_fail_count e"
  "se_error_count (welford c e) = se_error_count e"
  "first_ts (welford c e) = first_ts e"
  "last_ts (welford c e) = last_ts e"
  "last_green_ts (welford c e) = last_green_ts e"
  "transition_count (welford c e) = transition_count e"
  "streak (welford c e) = streak e"
  "last_status (welford c e) = last_status e"
  "known_seeds (welford c e) = known_seeds e"
  "total_seeds_seen (welford c e) = total_seeds_seen e"
  "flake_score (welford c e) = flake_score e"
  "fail_rate (welford c e) = fail_rate e"
  "se_name_id (welford c e) = se_name_id e"
  by (simp_all add: welford_def split: option.split)

lemma cusum_fields [simp]:
  "total_runs (cusum st e) = total_runs e"
  "se_pass_count (cusum st e) = se_pass_count e"
  "se_fail_count (cusum st e) = se_fail_count e"
  "se_error_count (cusum st e) = se_error_count e"
  "first_ts (cusum st e) = first_ts e"
  "last_ts (cusum st e) = last_ts e"
  "last_green_ts (cusum st e) = last_green_ts e"
  "transition_count (cusum st e) = transition_count e"
  "streak (cusum st e) = streak e"
  "last_status (cusum st e) = last_status e"
  "known_seeds (cusum st e) = known_seeds e"
  "total_seeds_seen (cusum st e) = total_seeds_seen e"
  "flake_score (cusum st e) = flake_score e"
  "fail_rate (cusum st e) = fail_rate e"
  "se_name_id (cusum st e) = se_name_id e"
  by (simp_all add: cusum_def split: option.split)

lemma note_seed_fields [simp]:
  "total_runs (note_seed sd e) = total_runs e"
  "se_pass_count (note_seed sd e) = se_pass_count e"
  "se_fail_count (note_seed sd e) = se_fail_count e"
  "se_error_count (note_seed sd e) = se_error_count e"
  "first_ts (note_seed sd e) = first_ts e"
  "last_ts (note_seed sd e) = last_ts e"
  "last_green_ts (note_seed sd e) = last_green_ts e"
  "transition_count (note_seed sd e) = transition_count e"
  "streak (note_seed sd e) = streak e"
  "last_status (note_seed sd e) = last_status e"
  "known_seeds (note_seed sd e) = (case sd of None \<Rightarrow> known_seeds e | Some s \<Rightarrow> List.insert s (known_seeds e))"
  "total_seeds_seen (note_seed sd e) = (case sd of None \<Rightarrow> total_seeds_seen e | Some s \<Rightarrow> int (length (List.insert s (known_seeds e))))"
  "flake_score (note_seed sd e) = flake_score e"
  "fail_rate (note_seed sd e) = fail_rate e"
  "se_name_id (note_seed sd e) = se_name_id e"
  by (simp_all add: note_seed_def split: option.split)

lemma grade_fields [simp]:
  "total_runs (grade e) = total_runs e"
  "se_pass_count (grade e) = se_pass_count e"
  "se_fail_count (grade e) = se_fail_count e"
  "se_error_count (grade e) = se_error_count e"
  "first_ts (grade e) = first_ts e"
  "last_ts (grade e) = last_ts e"
  "last_green_ts (grade e) = last_green_ts e"
  "transition_count (grade e) = transition_count e"
  "streak (grade e) = streak e"
  "last_status (grade e) = last_status e"
  "known_seeds (grade e) = known_seeds e"
  "total_seeds_seen (grade e) = total_seeds_seen e"
  "flake_score (grade e) = flake_score e"
  "fail_rate (grade e) = fail_rate e"
  "se_name_id (grade e) = se_name_id e"
  by (simp_all add: grade_def split: option.split)
lemma update_fields:
  "total_runs (update_entry st ts c sd e) = total_runs e + 1"
  "se_pass_count (update_entry st ts c sd e) = se_pass_count e + (if st = HIST_STATUS_OK then 1 else 0)"
  "se_fail_count (update_entry st ts c sd e) = se_fail_count e + (if st \<noteq> HIST_STATUS_OK \<and> st = HIST_STATUS_FAIL then 1 else 0)"
  "se_error_count (update_entry st ts c sd e) = se_error_count e + (if st \<noteq> HIST_STATUS_OK \<and> st \<noteq> HIST_STATUS_FAIL then 1 else 0)"
  "first_ts (update_entry st ts c sd e) = (if total_runs e = 0 then ts else first_ts e)"
  "last_ts (update_entry st ts c sd e) = max (last_ts e) ts"
  "last_green_ts (update_entry st ts c sd e) = (if st = HIST_STATUS_OK then max (last_green_ts e) ts else last_green_ts e)"
  "transition_count (update_entry st ts c sd e) = transition_count e + (if total_runs e > 0 \<and> st \<noteq> last_status e then 1 else 0)"
  "streak (update_entry st ts c sd e) =
     (if st = HIST_STATUS_OK then (if streak e \<ge> 0 then streak e + 1 else 1) else (if streak e \<le> 0 then streak e - 1 else -1))"
  "last_status (update_entry st ts c sd e) = st"
  "known_seeds (update_entry st ts c sd e) = (case sd of None \<Rightarrow> known_seeds e | Some s \<Rightarrow> List.insert s (known_seeds e))"
  "total_seeds_seen (update_entry st ts c sd e) = (case sd of None \<Rightarrow> total_seeds_seen e | Some s \<Rightarrow> int (length (List.insert s (known_seeds e))))"
  "flake_score (update_entry st ts c sd e) =
     of_int (transition_count (update_entry st ts c sd e)) / of_int (max (total_runs (update_entry st ts c sd e) - 1) 1)"
  "fail_rate (update_entry st ts c sd e) = of_int (se_fail_count (update_entry st ts c sd e)) / of_int (total_runs (update_entry st ts c sd e))"
  "se_name_id (update_entry st ts c sd e) = se_name_id e"
  by (simp_all add: update_entry_def split: option.split)

lemma count_of_snoc: "count_of P (rs @ [r]) = count_of P rs + (if P (run_status r) then 1 else 0)"
  by (simp add: count_of_def)

lemma latest_snoc: "latest (rs @ [r]) = max (latest rs) (run_ts r)"
  by (simp add: latest_def)

lemma ok_not_fail: "HIST_STATUS_FAIL \<noteq> HIST_STATUS_OK"
  by (simp add: HIST_STATUS_OK_def HIST_STATUS_FAIL_def)

lemma entry_step:
  assumes "entry_is e rs"
  shows "entry_is (update_entry (run_status r) (run_ts r) (run_cpu r) (run_seed r) e) (rs @ [r])"
proof -
  let ?e = "update_entry (run_status r) (run_ts r) (run_cpu r) (run_seed r) e"
  note e = assms[unfolded entry_is_def]
  have "total_runs ?e = int (length (rs @ [r]))" "se_pass_count ?e = count_of (\<lambda>s. s = HIST_STATUS_OK) (rs @ [r])"
    "se_fail_count ?e = count_of (\<lambda>s. s = HIST_STATUS_FAIL) (rs @ [r])"
    "se_error_count ?e = count_of (\<lambda>s. s \<noteq> HIST_STATUS_OK \<and> s \<noteq> HIST_STATUS_FAIL) (rs @ [r])"
    using e ok_not_fail by (auto simp: update_fields count_of_snoc)
  moreover have "first_ts ?e = (if rs @ [r] = [] then 0 else run_ts (hd (rs @ [r])))" "last_ts ?e = latest (rs @ [r])"
    using e by (simp_all add: update_fields latest_snoc hd_append)
  moreover have "last_green_ts ?e = latest (filter (\<lambda>r. run_status r = HIST_STATUS_OK) (rs @ [r]))"
    using e by (simp add: update_fields latest_snoc)
  moreover have "transition_count ?e = int (transitions (map run_status (rs @ [r])))" "last_status ?e = run_status r"
    using e by (auto simp: update_fields transitions_snoc last_map)
  moreover have "streak ?e = final_streak (map run_status (rs @ [r]))"
    using e unfolding map_append list.map final_streak_snoc by (simp add: update_fields)
  moreover have "distinct (known_seeds ?e) \<and> set (known_seeds ?e) = seeds_of (rs @ [r]) \<and> total_seeds_seen ?e = int (card (seeds_of (rs @ [r])))"
  proof (cases "run_seed r")
    case None
    then show ?thesis using e by (simp add: seeds_of_snoc update_fields)
  next
    case (Some s)
    have k: "distinct (List.insert s (known_seeds e))" "set (List.insert s (known_seeds e)) = insert s (seeds_of rs)" using e by simp_all
    then show ?thesis using distinct_card[OF k(1)] by (simp add: Some seeds_of_snoc update_fields)
  qed
  moreover have "flake_score ?e = of_int (transition_count ?e) / of_int (max (total_runs ?e - 1) 1)"
    "fail_rate ?e = of_int (se_fail_count ?e) / of_int (total_runs ?e)" by (rule update_fields)+
  moreover have "max (int (length (rs @ [r])) - 1) 1 = int (max (length (rs @ [r]) - 1) 1)" by (simp add: of_nat_max)
  ultimately show ?thesis unfolding entry_is_def by simp
qed

lemma stats_of_entry: "entry_is (stats_of n rs) rs"
proof (induction rs rule: rev_induct)
  case Nil
  show ?case using entry_new by (simp add: stats_of_def)
next
  case (snoc r rs)
  then show ?case using entry_step by (simp add: stats_of_def)
qed

section \<open>The table\<close>

definition table_of :: "(nat \<times> run) list \<Rightarrow> TestStatsEntry list" where
  "table_of hist = foldl (\<lambda>es (n, r). stats_update n (run_status r) (run_ts r) (run_cpu r) (run_seed r) es) [] hist"

definition runs_of :: "(nat \<times> run) list \<Rightarrow> nat \<Rightarrow> run list" where
  "runs_of hist n = map snd (filter (\<lambda>e. fst e = n) hist)"

definition table_ok :: "TestStatsEntry list \<Rightarrow> (nat \<times> run) list \<Rightarrow> bool" where
  "table_ok es hist \<longleftrightarrow>
     (\<forall>n<length es. se_name_id (es ! n) = n \<and> entry_is (es ! n) (runs_of hist n)) \<and> (\<forall>n\<in>fst ` set hist. n < length es)"

lemma ensure_entry_nth:
  assumes "i < length (ensure_entry n es)"
  shows "ensure_entry n es ! i = (if i < length es then es ! i else new_stats i)" "length (ensure_entry n es) = max (length es) (Suc n)"
  using assms by (auto simp: ensure_entry_def nth_append simp del: upt_Suc)

lemma table_step:
  assumes "table_ok es hist"
  shows "table_ok (stats_update n (run_status r) (run_ts r) (run_cpu r) (run_seed r) es) (hist @ [(n, r)])"
proof -
  let ?x = "ensure_entry n es"
  have len: "length ?x = max (length es) (Suc n)" by (auto simp: ensure_entry_def)
  have old: "se_name_id (?x ! i) = i \<and> entry_is (?x ! i) (runs_of hist i)" if "i < length ?x" for i
  proof (cases "i < length es")
    case True
    then show ?thesis using assms ensure_entry_nth(1)[OF that] by (simp add: table_ok_def)
  next
    case False
    then have "i \<notin> fst ` set hist" using assms by (auto simp: table_ok_def)
    then have "runs_of hist i = []" by (force simp: runs_of_def filter_empty_conv)
    then show ?thesis using False ensure_entry_nth(1)[OF that] entry_new[of i] by (simp add: new_stats_def)
  qed
  have nm: "n < length ?x" using len by simp
  have runs: "runs_of (hist @ [(n, r)]) i = (if i = n then runs_of hist n @ [r] else runs_of hist i)" for i by (simp add: runs_of_def)
  have "se_name_id (?x[n := update_entry (run_status r) (run_ts r) (run_cpu r) (run_seed r) (?x ! n)] ! i) = i \<and>
      entry_is (?x[n := update_entry (run_status r) (run_ts r) (run_cpu r) (run_seed r) (?x ! n)] ! i) (runs_of (hist @ [(n, r)]) i)"
    if i: "i < length ?x" for i
    using old[OF i] entry_step[of "?x ! n" "runs_of hist n" r] nm i by (cases "i = n") (simp_all add: runs update_fields(15))
  then show ?thesis using assms len unfolding table_ok_def stats_update_def Let_def by (auto simp: less_max_iff_disj)
qed

lemma table_of_ok: "table_ok (table_of hist) hist"
proof (induction hist rule: rev_induct)
  case Nil
  show ?case by (simp add: table_ok_def table_of_def)
next
  case (snoc e hist)
  obtain n r where e: "e = (n, r)" by (cases e)
  show ?case using table_step[OF snoc, of n r] by (simp add: table_of_def e)
qed

text \<open>C13 (equivalence). The statistics kept run by run are those of the list of runs: after any runs of any tests the entry of a test
has the numbers of its runs, passes, failures and other results, the time of its first recorded run, the latest time of all
and of the passing runs, the number of changes of status, the length of the final streak with its sign, the last status,
the two rates, and the number of different seeds.\<close>

theorem stats_are_totals:
  assumes "n \<in> fst ` set hist"
  shows "\<exists>e. stats_get (table_of hist) n = Some e \<and> se_name_id e = n \<and> entry_is e (runs_of hist n)"
  using table_of_ok[of hist] assms by (auto simp: table_ok_def stats_get_def)

definition x_run :: "int \<Rightarrow> int \<Rightarrow> int \<Rightarrow> run" where
  "x_run status ts seed = \<lparr>run_status = status, run_ts = ts, run_cpu = None, run_seed = Some seed\<rparr>"

lemma stats_are_totals_witness:
  "\<exists>e. stats_get (table_of [(0, x_run 0 10 1), (1, x_run 1 5 1), (0, x_run 1 20 2), (0, x_run 2 30 2)]) 0 = Some e \<and>
     total_runs e = 3 \<and> se_pass_count e = 1 \<and> se_fail_count e = 1 \<and> se_error_count e = 1 \<and> streak e = -2 \<and> transition_count e = 2"
  using stats_are_totals[of 0 "[(0, x_run 0 10 1), (1, x_run 1 5 1), (0, x_run 1 20 2), (0, x_run 2 30 2)]"]
  by (auto simp: entry_is_def runs_of_def x_run_def count_of_def final_streak_def transitions_def HIST_STATUS_OK_def HIST_STATUS_FAIL_def)

lemma latest_nonneg: "0 \<le> latest rs"
  by (induction rs rule: rev_induct) (simp_all add: latest_def)

lemma final_streak_bound: "\<bar>final_streak sts\<bar> \<le> int (length sts)"
  using length_takeWhile_le[of _ "rev sts"] by (auto simp: final_streak_def)

text \<open>The grade of an entry with runs is the one its own fields give, and the change detector stays below its threshold.\<close>

definition scored :: "TestStatsEntry \<Rightarrow> bool" where
  "scored e \<longleftrightarrow> (total_runs e = 0 \<or> grade e = e) \<and> 0 \<le> cusum_value e \<and> cusum_value e \<le> CUSUM_H"

lemma grade_again: "grade (grade e) = grade e"
  by (simp add: grade_def Let_def)

lemma cusum_range: "0 \<le> cusum_value (cusum status e) \<and> cusum_value (cusum status e) \<le> CUSUM_H"
proof -
  have clamp: "0 \<le> (if max 0 a > h then 0 else max 0 a) \<and> (if max 0 a > h then 0 else max 0 a) \<le> h" if "0 \<le> h" for a h :: rat
    using that by (cases "max 0 a > h") (auto simp: max_def)
  obtain a where "cusum_value (cusum status e) = (if max 0 a > CUSUM_H then 0 else max 0 a)"
    unfolding cusum_def Let_def by simp
  then show ?thesis using clamp[of CUSUM_H a] by (simp add: CUSUM_H_def)
qed

lemma update_scored: "scored (update_entry status ts cpu_time seed_id e)"
proof -
  have "cusum_value (note_seed seed_id e') = cusum_value e'" for e' by (simp add: note_seed_def Let_def split: option.split)
  moreover have "cusum_value (grade e') = cusum_value e'" for e' by (simp add: grade_def Let_def)
  ultimately show ?thesis using cusum_range by (simp add: scored_def update_entry_def grade_again)
qed

lemma table_scored: "\<forall>e\<in>set (table_of hist). scored e"
proof (induction hist rule: rev_induct)
  case (snoc x hist)
  have "scored (new_stats i)" for i by (simp add: scored_def new_stats_def CUSUM_H_def)
  then have "\<forall>e\<in>set (ensure_entry n (table_of hist)). scored e" for n using snoc by (auto simp: ensure_entry_def)
  then have "\<forall>e\<in>set (stats_update n st ts cpu sd (table_of hist)). scored e" for n st ts cpu sd
    using update_scored set_update_subset_insert by (fastforce simp: stats_update_def Let_def)
  moreover have "table_of (hist @ [x]) = (case x of (n, r) \<Rightarrow> stats_update n (run_status r) (run_ts r) (run_cpu r) (run_seed r) (table_of hist))"
    by (simp add: table_of_def split_def)
  ultimately show ?case by (simp add: split_def)
qed (simp add: table_of_def)

lemma grade_range:
  assumes "0 \<le> se_pass_count e" "se_pass_count e \<le> total_runs e" "0 < total_runs e" "0 \<le> flake_score e" "flake_score e \<le> 1"
  shows "0 \<le> grade_score (grade e) \<and> grade_score (grade e) \<le> 1"
proof -
  define speed where "speed = (if mean_cpu_time e > 0 then max 0 (1 - mean_cpu_time e / 3600) else 1)"
  define p where "p = (of_int (se_pass_count e) / of_int (total_runs e) :: rat)"
  have f: "0 \<le> p" "p \<le> 1" "0 \<le> 1 - flake_score e" "1 - flake_score e \<le> 1" "0 \<le> speed" "speed \<le> 1"
    using assms by (simp_all add: p_def speed_def)
  have "0 \<le> p * (1 - flake_score e)" "p * (1 - flake_score e) \<le> 1" using f mult_mono[of p 1 "1 - flake_score e" 1] by simp_all
  then have "0 \<le> p * (1 - flake_score e) * speed" "p * (1 - flake_score e) * speed \<le> 1"
    using f mult_mono[of "p * (1 - flake_score e)" 1 speed 1] by simp_all
  then show ?thesis by (simp add: grade_def Let_def p_def speed_def)
qed

text \<open>C36 (bounds). The entry of a test always has as many passes, failures and other results together as runs, fewer changes of status
than runs, both rates and the grade between 0 and 1 whatever times the runs took, a change detector between 0 and its threshold, and a
streak no longer than the runs.\<close>

theorem stats_bounds:
  assumes "n \<in> fst ` set hist" "stats_get (table_of hist) n = Some e"
  shows "se_pass_count e + se_fail_count e + se_error_count e = total_runs e \<and> 0 < total_runs e \<and> transition_count e < total_runs e \<and>
    0 \<le> flake_score e \<and> flake_score e \<le> 1 \<and> 0 \<le> fail_rate e \<and> fail_rate e \<le> 1 \<and> \<bar>streak e\<bar> \<le> total_runs e \<and>
    0 \<le> last_green_ts e \<and> total_seeds_seen e \<le> total_runs e \<and> 0 \<le> grade_score e \<and> grade_score e \<le> 1 \<and>
    0 \<le> cusum_value e \<and> cusum_value e \<le> CUSUM_H"
proof -
  let ?rs = "runs_of hist n"
  have e: "entry_is e ?rs" using table_of_ok[of hist] assms by (auto simp: table_ok_def stats_get_def split: if_splits)
  have ne: "?rs \<noteq> []" using assms(1) by (auto simp: runs_of_def filter_empty_conv)
  then have len: "0 < length ?rs" by simp
  have tr: "transitions (map run_status ?rs) \<le> length ?rs - 1" using transitions_bound[of "map run_status ?rs"] by simp
  have parts: "count_of (\<lambda>s. s = HIST_STATUS_OK) rs + count_of (\<lambda>s. s = HIST_STATUS_FAIL) rs +
      count_of (\<lambda>s. s \<noteq> HIST_STATUS_OK \<and> s \<noteq> HIST_STATUS_FAIL) rs = int (length rs)" for rs
  proof (induction rs rule: rev_induct)
    case (snoc r rs)
    then show ?case using ok_not_fail by (simp add: count_of_snoc)
  qed (simp add: count_of_def)
  have fl: "flake_score e \<le> 1" using e tr len by (simp add: entry_is_def divide_le_eq le_max_iff_disj)
  have cf: "count_of P rs \<le> int (length rs)" "0 \<le> count_of P rs" for P rs by (simp_all add: count_of_def)
  have "rat_of_int (count_of P rs) \<le> of_nat (length rs)" for P rs using cf(1)[of P rs] by (metis of_int_le_iff of_int_of_nat_eq)
  then have fr: "fail_rate e \<le> 1" "0 \<le> fail_rate e" using e cf(2)[of _ ?rs] len ne by (simp_all add: entry_is_def divide_le_eq)
  have sd: "card (seeds_of ?rs) \<le> length ?rs"
  proof -
    have "seeds_of ?rs \<subseteq> (\<lambda>r. the (run_seed r)) ` set ?rs" 
    proof
      fix x assume "x \<in> seeds_of ?rs"
      then obtain r where "r \<in> set ?rs" "Some x = run_seed r" by (auto simp: seeds_of_def)
      then show "x \<in> (\<lambda>r. the (run_seed r)) ` set ?rs" by (metis image_eqI option.sel)
    qed
    then have "card (seeds_of ?rs) \<le> card ((\<lambda>r. the (run_seed r)) ` set ?rs)" by (intro card_mono) simp_all
    also have "\<dots> \<le> length ?rs" using card_image_le[of "set ?rs"] card_length[of ?rs] by (meson finite_set order_trans)
    finally show ?thesis .
  qed
  have "transitions (map run_status ?rs) < length ?rs" using tr len by linarith
  then have "transition_count e < total_runs e" using e by (simp add: entry_is_def)
  moreover have sc: "scored e" using table_scored[of hist] assms(2) by (auto simp: stats_get_def split: if_splits)
  have "0 \<le> grade_score (grade e) \<and> grade_score (grade e) \<le> 1"
    by (rule grade_range) (use e fl len cf in \<open>simp_all add: entry_is_def\<close>)
  moreover have "grade e = e" using sc e ne by (simp add: scored_def entry_is_def)
  ultimately show ?thesis using e parts[of ?rs] len fl fr sd final_streak_bound[of "map run_status ?rs"] latest_nonneg sc
    by (simp add: entry_is_def scored_def)
qed

section \<open>The member\<close>

lemma TSTA_INTS_list: "TSTA_INTS = [U 4, U 4, U 4, U 4, U 4, U 4, U 4, U 4, S 2, U 1, U 1]"
  by (simp add: TSTA_INTS_def eval_nat_numeral)

text \<open>What the code relies on of the 32-bit float format: four bytes that read back as the rounded value.\<close>

definition float_format :: "(rat \<Rightarrow> rat) \<Rightarrow> (rat \<Rightarrow> bytes res) \<Rightarrow> (bytes \<Rightarrow> rat) \<Rightarrow> bool" where
  "float_format rnd f32 unf32 \<longleftrightarrow> (\<forall>x bs. f32 x = Inr bs \<longrightarrow> length bs = 4 \<and> unf32 bs = rnd x)"

definition reloaded :: "(rat \<Rightarrow> rat) \<Rightarrow> TestStatsEntry \<Rightarrow> TestStatsEntry" where
  "reloaded rnd e =
     e\<lparr>flake_score := rnd (flake_score e), fail_rate := rnd (fail_rate e), mean_cpu_time := rnd (mean_cpu_time e),
       m2_cpu_time := rnd (m2_cpu_time e), cusum_value := rnd (cusum_value e), cusum_ref_mean := rnd (cusum_ref_mean e),
       grade_score := rnd (grade_score e), known_seeds := []\<rparr>"

lemma calcsize_append: "calcsize (fs @ gs) = calcsize fs + calcsize gs"
  by (simp add: calcsize_def)

lemma unpack_append: "calcsize fs \<le> length bs \<Longrightarrow> unpack (fs @ gs) bs = unpack fs bs @ unpack gs (drop (calcsize fs) bs)"
proof (induction fs arbitrary: bs)
  case (Cons f fs)
  then show ?case by (cases f) (simp_all add: add.commute)
qed simp

lemma unpack_take: "calcsize fs \<le> n \<Longrightarrow> unpack fs (take n bs) = unpack fs bs"
proof (induction fs arbitrary: n bs)
  case (Cons f fs)
  then show ?case by (cases f) (simp_all add: drop_take min_def)
qed simp

lemma stats_read_back:
  assumes ff: "float_format rnd f32 unf32" and w: "write_stats f32 e = Inr bs" and pos: "Prelude.at data off bs"
  shows "read_stats unf32 data off = Inr ((reloaded rnd e)\<lparr>se_name_id := 0\<rparr>, off + length bs) \<and> length bs = 72"
proof -
  let ?iv = "[total_runs e, se_pass_count e, se_fail_count e, se_error_count e, first_ts e, last_ts e, last_green_ts e,
       transition_count e, streak e, last_status e, 0]"
  from w obtain ib b0 b1 b2 b3 b4 b5 b6 t where p: "pack TSTA_INTS ?iv = Inr ib" "f32 (flake_score e) = Inr b0" "f32 (fail_rate e) = Inr b1"
    "f32 (mean_cpu_time e) = Inr b2" "f32 (m2_cpu_time e) = Inr b3" "f32 (cusum_value e) = Inr b4" "f32 (cusum_ref_mean e) = Inr b5"
    "f32 (grade_score e) = Inr b6" "pack [U 2, X 6] [total_seeds_seen e] = Inr t" "bs = ib @ (b0 @ b1 @ b2 @ b3 @ b4 @ b5 @ b6) @ t"
    unfolding write_stats_def by (auto simp: bindE_eq_Inr)
  have l4: "length b0 = 4" "length b1 = 4" "length b2 = 4" "length b3 = 4" "length b4 = 4" "length b5 = 4" "length b6 = 4"
    and un: "unf32 b0 = rnd (flake_score e)" "unf32 b1 = rnd (fail_rate e)" "unf32 b2 = rnd (mean_cpu_time e)" "unf32 b3 = rnd (m2_cpu_time e)"
    "unf32 b4 = rnd (cusum_value e)" "unf32 b5 = rnd (cusum_ref_mean e)" "unf32 b6 = rnd (grade_score e)"
    using ff p(2-8) unfolding float_format_def by blast+
  have li: "length ib = 36" "length t = 8" using pack_length[OF p(1)] pack_length[OF p(9)] by (simp_all add: TSTA_INTS_def calcsize_append)
  have lb: "length bs = 72" using p(10) l4 li by simp
  let ?fs = "TSTA_INTS @ replicate 28 (U 1) @ [U 2, X 6]"
  have cs: "calcsize ?fs = 72" "calcsize TSTA_INTS = 36" by (simp_all add: TSTA_INTS_def calcsize_append)
  have tk: "take (calcsize ?fs) (drop off data) = bs" "off + calcsize ?fs \<le> length data"
    unfolding cs using pos lb by (simp_all add: at_def)
  have d1: "drop 36 bs = (b0 @ b1 @ b2 @ b3 @ b4 @ b5 @ b6) @ t" using p(10) li by simp
  have ints: "unpack TSTA_INTS bs = ?iv"
  proof -
    have "unpack TSTA_INTS (take 36 bs) = unpack TSTA_INTS bs" by (rule unpack_take) (simp add: cs)
    moreover have "take 36 bs = ib" using p(10) li by simp
    ultimately show ?thesis using unpack_pack[OF p(1)] by simp
  qed
  let ?mid = "unpack (replicate 28 (U 1)) (drop 36 bs)"
  have mid: "length ?mid = 28" by (simp add: unpack_length)
  have up: "unpack ?fs bs = ?iv @ ?mid @ [total_seeds_seen e]"
  proof -
    have "unpack (replicate 28 (U 1) @ [U 2, X 6]) (drop 36 bs) = ?mid @ unpack [U 2, X 6] (drop 28 (drop 36 bs))"
      using lb by (subst unpack_append) simp_all
    moreover have "drop 28 (drop 36 bs) = t" unfolding d1 using l4 by simp
    ultimately show ?thesis using unpack_append[of TSTA_INTS bs "replicate 28 (U 1) @ [U 2, X 6]"] lb unpack_pack[OF p(9)] by (simp only: cs ints)
  qed
  have u: "unpack_from ?fs data off = Inr (?iv @ ?mid @ [total_seeds_seen e])"
    unfolding unpack_from_def tk(1) up using tk(2) by simp
  have nth: "(xs @ ys @ [z]) ! 39 = z" if "length xs = 11" "length ys = 28" for xs ys :: "int list" and z using that by (simp add: nth_append)
  have v: "(?iv @ ?mid @ [total_seeds_seen e]) ! 39 = total_seeds_seen e" by (rule nth[OF _ mid]) simp
  have sl: "slice data (off + 36 + 4 * i) (off + 40 + 4 * i) = take 4 (drop (4 * i) ((b0 @ b1 @ b2 @ b3 @ b4 @ b5 @ b6) @ t))" if "i < 7" for i
  proof -
    have "drop off data = bs @ drop 72 (drop off data)" using tk(1) unfolding cs by (metis append_take_drop_id)
    then have "drop (off + (36 + 4 * i)) data = drop (36 + 4 * i) (bs @ drop 72 (drop off data))" by (metis drop_drop add.commute)
    also have "\<dots> = drop (4 * i) (drop 36 bs) @ drop 72 (drop off data)" using lb that by (simp add: add.commute)
    finally have "take 4 (drop (off + 36 + 4 * i) data) = take 4 (drop (4 * i) (drop 36 bs) @ drop 72 (drop off data))" by (simp add: add.assoc)
    then show ?thesis using lb that unfolding slice_def d1[symmetric] by simp
  qed
  have fl: "slice data (off + 36) (off + 40) = b0" "slice data (off + 40) (off + 44) = b1" "slice data (off + 44) (off + 48) = b2"
    "slice data (off + 48) (off + 52) = b3" "slice data (off + 52) (off + 56) = b4" "slice data (off + 56) (off + 60) = b5" "slice data (off + 60) (off + 64) = b6"
    using sl[of 0] sl[of 1] sl[of 2] sl[of 3] sl[of 4] sl[of 5] sl[of 6] l4 by (simp_all add: add.commute[of off])
  show ?thesis unfolding read_stats_def u bindE_Inr Let_def v using lb by (simp add: fl un reloaded_def fl[unfolded add.commute[of off]])
qed

lemma stats_read_table:
  assumes ff: "float_format rnd f32 unf32"
  shows "concatE (write_stats f32) es = Inr bs \<Longrightarrow> Prelude.at data off bs \<Longrightarrow>
    repeat_dec (read_stats unf32) (length es) data off = Inr (map (\<lambda>e. (reloaded rnd e)\<lparr>se_name_id := 0\<rparr>) es, off + length bs)"
proof (induction es arbitrary: bs off)
  case (Cons e es)
  from Cons.prems(1) obtain b c where b: "write_stats f32 e = Inr b" "concatE (write_stats f32) es = Inr c" "bs = b @ c"
    by (auto simp: bindE_eq_Inr)
  from Cons.prems(2) b(3) have a: "Prelude.at data off b" "Prelude.at data (off + length b) c" by (simp_all add: at_append)
  show ?case using stats_read_back[OF ff b(1) a(1)] Cons.IH[OF b(2) a(2)] b(3) by (simp add: add.assoc)
qed simp

lemma stats_reload:
  assumes ff: "float_format rnd f32 unf32" and ser: "stats_serialize f32 es = Inr bs" and ids: "\<forall>i<length es. se_name_id (es ! i) = i"
  shows "stats_deserialize unf32 bs = Inr (map (reloaded rnd) es)"
proof -
  from ser obtain h r where p: "pack TSTA_HDR [TSTA_MAGIC, 1, int (length es)] = Inr h" "concatE (write_stats f32) es = Inr r" "bs = h @ r"
    by (auto simp: stats_serialize_def bindE_eq_Inr)
  have pos: "Prelude.at bs 0 h" "Prelude.at bs (length h) r" using p(3) at_whole[of bs] by (auto simp: at_append)
  have hl: "length h = calcsize TSTA_HDR" by (rule pack_length[OF p(1)])
  have ids': "map (\<lambda>(i, e). e\<lparr>se_name_id := i\<rparr>) (enumerate 0 (map (\<lambda>e. (reloaded rnd e)\<lparr>se_name_id := 0\<rparr>) es)) = map (reloaded rnd) es"
    using ids by (intro nth_equalityI) (simp_all add: nth_enumerate_eq reloaded_def)
  show ?thesis
    using stats_read_table[OF ff p(2) pos(2)] ids'
    by (simp add: stats_deserialize_def unpack_from_pack[OF p(1) pos(1)] hl)
qed

text \<open>The statistics written to the archive are read back entry by entry with the same counters and times and
with the floats rounded to 32 bits. The seeds already seen are not kept.\<close>

theorem stats_roundtrip:
  assumes "float_format rnd f32 unf32" "stats_serialize f32 (table_of hist) = Inr bs"
  shows "stats_deserialize unf32 bs = Inr (map (reloaded rnd) (table_of hist))"
  using stats_reload[OF assms] table_of_ok[of hist] by (simp add: table_ok_def)

lemma table_single: "table_of (map (Pair 0) rs) = (if rs = [] then [] else [stats_of 0 rs])"
proof (induction rs rule: rev_induct)
  case (snoc r rs)
  then show ?case by (cases "rs = []") (simp_all add: table_of_def stats_of_def stats_update_def ensure_entry_def)
qed (simp add: table_of_def)

definition x_f32 :: "rat \<Rightarrow> bytes res" where "x_f32 x = Inr [0, 0, 0, 0]"

lemma x_float_format: "float_format (\<lambda>_. 0) x_f32 (\<lambda>_. 0)"
  by (simp add: float_format_def x_f32_def)

lemma x_runs_entry: "entry_is (stats_of 0 [x_run 0 10 1, x_run 1 20 2]) [x_run 0 10 1, x_run 1 20 2]"
  by (rule stats_of_entry)

lemma x_runs_fields:
  "total_runs (stats_of 0 [x_run 0 10 1, x_run 1 20 2]) = 2" "se_pass_count (stats_of 0 [x_run 0 10 1, x_run 1 20 2]) = 1"
  "se_fail_count (stats_of 0 [x_run 0 10 1, x_run 1 20 2]) = 1" "se_error_count (stats_of 0 [x_run 0 10 1, x_run 1 20 2]) = 0"
  "first_ts (stats_of 0 [x_run 0 10 1, x_run 1 20 2]) = 10" "last_ts (stats_of 0 [x_run 0 10 1, x_run 1 20 2]) = 20"
  "last_green_ts (stats_of 0 [x_run 0 10 1, x_run 1 20 2]) = 10" "transition_count (stats_of 0 [x_run 0 10 1, x_run 1 20 2]) = 1"
  "streak (stats_of 0 [x_run 0 10 1, x_run 1 20 2]) = -1" "last_status (stats_of 0 [x_run 0 10 1, x_run 1 20 2]) = 1"
  "total_seeds_seen (stats_of 0 [x_run 0 10 1, x_run 1 20 2]) = 2"
proof -
  have s: "seeds_of [x_run 0 10 1, x_run 1 20 2] = {1, 2}" by (auto simp: seeds_of_def x_run_def)
  show "total_runs (stats_of 0 [x_run 0 10 1, x_run 1 20 2]) = 2" "se_pass_count (stats_of 0 [x_run 0 10 1, x_run 1 20 2]) = 1"
    "se_fail_count (stats_of 0 [x_run 0 10 1, x_run 1 20 2]) = 1" "se_error_count (stats_of 0 [x_run 0 10 1, x_run 1 20 2]) = 0"
    "first_ts (stats_of 0 [x_run 0 10 1, x_run 1 20 2]) = 10" "last_ts (stats_of 0 [x_run 0 10 1, x_run 1 20 2]) = 20"
    "last_green_ts (stats_of 0 [x_run 0 10 1, x_run 1 20 2]) = 10" "transition_count (stats_of 0 [x_run 0 10 1, x_run 1 20 2]) = 1"
    "streak (stats_of 0 [x_run 0 10 1, x_run 1 20 2]) = -1" "last_status (stats_of 0 [x_run 0 10 1, x_run 1 20 2]) = 1"
    "total_seeds_seen (stats_of 0 [x_run 0 10 1, x_run 1 20 2]) = 2"
    using x_runs_entry unfolding entry_is_def s
    by (auto simp: x_run_def count_of_def latest_def transitions_def final_streak_def HIST_STATUS_OK_def HIST_STATUS_FAIL_def)
qed

lemma x_stats_written: "\<exists>bs. stats_serialize x_f32 (table_of [(0, x_run 0 10 1), (0, x_run 1 20 2)]) = Inr bs"
proof -
  have t: "table_of [(0, x_run 0 10 1), (0, x_run 1 20 2)] = [stats_of 0 [x_run 0 10 1, x_run 1 20 2]]"
    using table_single[of "[x_run 0 10 1, x_run 1 20 2]"] by simp
  show ?thesis unfolding t
    by (simp add: stats_serialize_def write_stats_def x_runs_fields TSTA_HDR_def TSTA_MAGIC_def TSTA_INTS_list x_f32_def)
qed

lemma stats_roundtrip_witness:
  "\<exists>bs. stats_deserialize (\<lambda>_. 0) bs = Inr (map (reloaded (\<lambda>_. 0)) (table_of [(0, x_run 0 10 1), (0, x_run 1 20 2)]))"
  using x_stats_written stats_roundtrip[OF x_float_format] by blast

lemma stats_bounds_witness:
  "\<exists>e. stats_get (table_of [(0, x_run 0 10 1), (0, x_run 1 20 2)]) 0 = Some e \<and> \<bar>streak e\<bar> \<le> total_runs e \<and> flake_score e \<le> 1 \<and> grade_score e \<le> 1"
proof -
  have "stats_get (table_of [(0, x_run 0 10 1), (0, x_run 1 20 2)]) 0 = Some (stats_of 0 [x_run 0 10 1, x_run 1 20 2])"
    using table_single[of "[x_run 0 10 1, x_run 1 20 2]"] by (simp add: stats_get_def)
  with stats_bounds[OF _ this] show ?thesis by simp
qed

text \<open>A test that passes 32768 times in a row, or fails 32769 times, can no longer be saved: its streak leaves the signed 16 bits of
the format, and writing the statistics of any history with such a test raises \<open>struct.error\<close>.\<close>

theorem long_streak_blocks_save:
  assumes "n \<in> fst ` set hist" "\<bar>final_streak (map run_status (runs_of hist n))\<bar> > 32768 \<or> final_streak (map run_status (runs_of hist n)) = 32768"
  shows "\<not> is_ok (stats_serialize f32 (table_of hist))"
proof -
  have n: "n < length (table_of hist)" and s: "streak (table_of hist ! n) = final_streak (map run_status (runs_of hist n))"
    using table_of_ok[of hist] assms(1) by (auto simp: table_ok_def entry_is_def)
  have "\<not> is_ok (pack [S 2, U 1, U 1] (streak e # vs))" if "\<bar>streak e\<bar> > 32768 \<or> streak e = 32768" for e :: TestStatsEntry and vs
    using that by (auto simp: is_ok_iff bindE_eq_Inr split: if_splits)
  moreover have "is_ok (pack [S 2, U 1, U 1] [streak e, last_status e, 0])" if "is_ok (write_stats f32 e)" for e
    using that by (auto simp: write_stats_def is_ok_iff bindE_eq_Inr TSTA_INTS_list split: if_splits)
  ultimately have "\<not> is_ok (write_stats f32 (table_of hist ! n))" using assms(2) s by metis
  then have "\<not> is_ok (concatE (write_stats f32) (table_of hist))" using n by (auto simp: concatE_ok)
  then show ?thesis by (auto simp: stats_serialize_def is_ok_iff bindE_eq_Inr)
qed

lemma long_streak_blocks_save_witness: "\<not> is_ok (stats_serialize x_f32 (table_of (replicate 32768 (0, x_run 0 10 1))))"
proof (rule long_streak_blocks_save[of 0])
  have r: "runs_of (replicate k (0, x_run 0 10 1)) 0 = replicate k (x_run 0 10 1)" for k by (simp add: runs_of_def filter_replicate)
  have "final_streak (replicate (Suc k) HIST_STATUS_OK) = int (Suc k)" for k
    using takeWhile_replicate[of "\<lambda>s. s = HIST_STATUS_OK" "Suc k" HIST_STATUS_OK] by (simp add: final_streak_def del: replicate_Suc)
  from this[of 32767] have "final_streak (replicate 32768 HIST_STATUS_OK) = 32768" by simp
  then show "\<bar>final_streak (map run_status (runs_of (replicate 32768 (0, x_run 0 10 1)) 0))\<bar> > 32768 \<or>
      final_streak (map run_status (runs_of (replicate 32768 (0, x_run 0 10 1)) 0)) = 32768"
    unfolding r map_replicate by (simp add: x_run_def HIST_STATUS_OK_def)
  show "0 \<in> fst ` set (replicate 32768 (0, x_run 0 10 1))" by simp
qed

text \<open>The number of different seeds starts again after a reload. A further run of a test that had been run with any
number of seeds leaves \<open>total_seeds_seen\<close> at one.\<close>

theorem reload_restarts_seeds:
  "total_seeds_seen (update_entry status ts cpu (Some seed) (reloaded rnd e)) = 1"
  by (simp add: update_fields reloaded_def)

end
