(* ===== verification/RunHistorySpec.thy ===== *)
theory RunHistorySpec
  imports RunHistory TestStatsSpec
begin

text \<open>
  What an open database promises of its run history: every recorded run is found again by its test's name, now and
  after the database was saved and opened, as long as the open bucket can be encoded; and where that fails.
\<close>

section \<open>State\<close>

definition bucket_ok :: "(bytes \<Rightarrow> bytes res) \<Rightarrow> (int \<times> bytes) list \<Rightarrow> BucketIndexEntry \<Rightarrow> bool" where
  "bucket_ok decompress sealed e \<longleftrightarrow>
     (\<exists>c rd. dict_get sealed (bucket_seq e) = Some c \<and> bindE (decompress c) bucket_parse = Inr rd \<and>
        (\<forall>k. records_for_name rd k = filter (\<lambda>r. br_name_id r = k) (rd_records rd)) \<and>
        (\<forall>r\<in>set (rd_records rd). min_name_id e \<le> br_name_id r \<and> br_name_id r \<le> max_name_id e \<and> ts_start e \<le> br_ts r \<and> br_ts r \<le> ts_end e))"

definition session_records :: "(bytes \<Rightarrow> bytes res) \<Rightarrow> session \<Rightarrow> BucketRecord list" where
  "session_records decompress s = concat (map (entry_records decompress (ss_sealed s)) (ss_index s)) @ bw_records (ss_writer s)"

definition ids_ok :: "TestRegistry \<Rightarrow> BucketRecord \<Rightarrow> bool" where
  "ids_ok reg r \<longleftrightarrow> 0 \<le> br_name_id r \<and> br_name_id r < int (length (reg_names reg)) \<and> 0 \<le> br_seed_id r \<and> br_seed_id r < int (length (reg_seeds reg))"

definition session_inv :: "(bytes \<Rightarrow> bytes res) \<Rightarrow> session \<Rightarrow> bool" where
  "session_inv decompress s \<longleftrightarrow>
     reg_inv (ss_registry s) \<and> bidx_inv (ss_index s) \<and> (\<forall>e\<in>set (ss_index s). 0 \<le> bucket_seq e \<and> bucket_ok decompress (ss_sealed s) e) \<and>
     filled (bw_records (ss_writer s)) = Inr (ss_writer s) \<and> (\<forall>r\<in>set (bw_records (ss_writer s)). nibbles_ok r) \<and>
     (\<forall>r\<in>set (session_records decompress s). ids_ok (ss_registry s) r) \<and>
     distinct (dict_keys (ss_sealed s)) \<and> (\<forall>k\<in>set (dict_keys (ss_sealed s)). 0 \<le> k \<and> k < next_seq (ss_index s))"

text \<open>The recorded runs with their names and seeds.\<close>

definition history_of :: "(bytes \<Rightarrow> bytes res) \<Rightarrow> session \<Rightarrow> (pystr res \<times> pystr res \<times> int \<times> int \<times> int) multiset" where
  "history_of decompress s = image_mset (record_view (ss_registry s)) (mset (session_records decompress s))"

definition codecs :: "(bytes \<Rightarrow> bytes) \<Rightarrow> (bytes \<Rightarrow> bytes) \<Rightarrow> (bytes \<Rightarrow> bytes res) \<Rightarrow> bool" where
  "codecs compress fast decompress \<longleftrightarrow> (\<forall>raw. decompress (compress raw) = Inr raw \<and> decompress (fast raw) = Inr raw)"

lemma next_seq_nonneg: "\<forall>e\<in>set es. 0 \<le> bucket_seq e \<Longrightarrow> 0 \<le> next_seq es"
  by (auto simp: next_seq_def)

lemma entry_records_ok:
  assumes "dict_get sealed (bucket_seq e) = Some c" "bindE (decompress c) bucket_parse = Inr rd"
  shows "entry_records decompress sealed e = rd_records rd"
  using assms by (simp add: entry_records_def bucket_records_def)

lemma filled_snoc: "filled (rs @ [r]) = bindE (filled rs) (bucket_add r)"
proof (cases "foldE (\<lambda>w r. bucket_add r w) new_bucket rs")
  case (Inr w)
  then show ?thesis by (cases "bucket_add r w") (simp_all add: filled_def foldE_append)
qed (simp add: filled_def foldE_append)

text \<open>Sealing a bucket: its records move into the archive's buckets.\<close>

lemma sealed_bucket_ok:
  assumes w: "filled rs = Inr w" "\<forall>r\<in>set rs. nibbles_ok r" "bucket_encode w = Inr raw" "decompress data = Inr raw" "rs \<noteq> []"
    and e: "min_name_id e = Min (set (map br_name_id rs))" "max_name_id e = Max (set (map br_name_id rs))"
      "ts_start e = Min (set (map br_ts rs))" "ts_end e = Max (set (map br_ts rs))"
    and d: "dict_get sealed (bucket_seq e) = Some data"
  shows "bucket_ok decompress sealed e \<and> mset (entry_records decompress sealed e) = mset rs"
proof -
  from bucket_reread[OF w(1-3), of "[]"] obtain rd where rd: "bucket_parse raw = Inr rd" "rd_records rd = sorted_records rs"
    "\<forall>k. records_for_name rd k = filter (\<lambda>r. br_name_id r = k) (sorted_records rs)" by auto
  have p: "bindE (decompress data) bucket_parse = Inr rd" using w(4) rd(1) by simp
  have sr: "set (sorted_records rs) = set rs" "mset (sorted_records rs) = mset rs" by (simp_all add: sorted_records_def)
  have "bucket_ok decompress sealed e"
    unfolding bucket_ok_def using d p rd(2,3) by (intro exI[of _ data] exI[of _ rd]) (auto simp: sr e)
  then show ?thesis using entry_records_ok[of sealed e data decompress rd, OF d p] rd(2) sr(2) by simp
qed

lemma bucket_moves:
  assumes inv: "session_inv decompress s" and raw: "bucket_encode (ss_writer s) = Inr raw" and dc: "decompress data = Inr raw"
    and ne: "bw_records (ss_writer s) \<noteq> []"
    and e: "e = index_entry (next_seq (ss_index s)) n fails recs" "set recs = set (bw_records (ss_writer s))"
  defines "s' \<equiv> s\<lparr>ss_sealed := dict_set (next_seq (ss_index s)) data (ss_sealed s), ss_index := add_bucket e (ss_index s), ss_writer := new_bucket\<rparr>"
  shows "session_inv decompress s'" and "mset (session_records decompress s') = mset (session_records decompress s)"
proof -
  let ?rs = "bw_records (ss_writer s)" and ?seq = "next_seq (ss_index s)"
  let ?sealed = "dict_set ?seq data (ss_sealed s)"
  have w: "filled ?rs = Inr (ss_writer s)" "\<forall>r\<in>set ?rs. nibbles_ok r" using inv by (simp_all add: session_inv_def)
  have fields: "bucket_seq e = ?seq" "min_name_id e = Min (set (map br_name_id ?rs))" "max_name_id e = Max (set (map br_name_id ?rs))"
    "ts_start e = Min (set (map br_ts ?rs))" "ts_end e = Max (set (map br_ts ?rs))"
    by (simp_all add: e index_entry_def)
  have below: "bucket_seq x < ?seq" if "x \<in> set (ss_index s)" for x using next_seq_above[OF _ that] inv by (simp add: session_inv_def)
  have app: "add_bucket e (ss_index s) = ss_index s @ [e]" using below by (intro add_bucket_last) (simp add: fields)
  have d: "dict_get ?sealed (bucket_seq e) = Some data" by (simp add: dict_get_set fields)
  have new: "bucket_ok decompress ?sealed e \<and> mset (entry_records decompress ?sealed e) = mset ?rs"
    by (rule sealed_bucket_ok[of ?rs "ss_writer s" raw decompress data e ?sealed, OF w raw dc ne fields(2-5) d])
  have keep: "dict_get ?sealed (bucket_seq x) = dict_get (ss_sealed s) (bucket_seq x)" if "x \<in> set (ss_index s)" for x
    using below[OF that] by (simp add: dict_get_set)
  have er: "entry_records decompress ?sealed x = entry_records decompress (ss_sealed s) x" if "x \<in> set (ss_index s)" for x
    using keep[OF that] by (simp add: entry_records_def)
  have old: "bucket_ok decompress ?sealed x" if "x \<in> set (ss_index s)" for x
  proof -
    have "bucket_ok decompress (ss_sealed s) x" using inv that by (simp add: session_inv_def)
    then show ?thesis unfolding bucket_ok_def keep[OF that] .
  qed
  show ms: "mset (session_records decompress s') = mset (session_records decompress s)"
    using new er by (simp add: s'_def app session_records_def new_bucket_def cong: map_cong)
  have seq0: "0 \<le> ?seq" using inv by (intro next_seq_nonneg) (simp add: session_inv_def)
  have nx: "next_seq (ss_index s @ [e]) = ?seq + 1" by (simp add: next_seq_def fields)
  have "\<forall>r\<in>set (session_records decompress s'). ids_ok (ss_registry s) r"
    using inv mset_eq_setD[OF ms] by (simp add: session_inv_def)
  moreover have "bidx_inv (ss_index s @ [e])" using add_bucket_inv[of "ss_index s" e] inv by (simp add: session_inv_def app)
  moreover have "distinct (dict_keys ?sealed)" using inv by (simp add: session_inv_def distinct_update)
  moreover have "\<forall>k\<in>set (dict_keys ?sealed). 0 \<le> k \<and> k < ?seq + 1" using inv seq0 by (auto simp: session_inv_def dict_keys_set)
  moreover have "filled [] = Inr new_bucket" "bw_records new_bucket = []" by (simp_all add: filled_def new_bucket_def)
  ultimately show "session_inv decompress s'"
    using inv new old seq0 unfolding session_inv_def s'_def app by (simp add: nx) (auto simp: fields)
qed

lemma seal_ok:
  assumes inv: "session_inv decompress s" and c: "codecs compress fast decompress" and run: "seal_current_bucket compress decompress s = (s', r)"
  shows "session_inv decompress s' \<and> mset (session_records decompress s') = mset (session_records decompress s) \<and>
    ss_registry s' = ss_registry s \<and> ss_stats s' = ss_stats s \<and> ss_contrib s' = ss_contrib s"
proof (cases "bw_records (ss_writer s) = [] \<or> \<not> is_ok (bucket_encode (ss_writer s))")
  case True
  then have "s' = s" using run by (cases "bucket_encode (ss_writer s)") (auto simp: seal_current_bucket_def Let_def is_ok_def split: if_splits)
  then show ?thesis using inv by simp
next
  case False
  let ?rs = "bw_records (ss_writer s)"
  obtain raw where raw: "bucket_encode (ss_writer s) = Inr raw" using False by (auto simp: is_ok_iff)
  have w: "filled ?rs = Inr (ss_writer s)" "\<forall>r\<in>set ?rs. nibbles_ok r" using inv by (simp_all add: session_inv_def)
  from bucket_reread[OF w raw, of "[]"] obtain rd where rd: "bucket_parse raw = Inr rd" "rd_records rd = sorted_records ?rs" by auto
  have dc: "decompress (compress raw) = Inr raw" using c by (simp add: codecs_def)
  let ?e = "index_entry (next_seq (ss_index s)) (length ?rs) (int (length (filter (\<lambda>r. br_status r \<noteq> 0) (sorted_records ?rs)))) (sorted_records ?rs)"
  have s': "s' = s\<lparr>ss_sealed := dict_set (next_seq (ss_index s)) (compress raw) (ss_sealed s), ss_index := add_bucket ?e (ss_index s), ss_writer := new_bucket\<rparr>"
    using run False raw rd dc by (simp add: seal_current_bucket_def)
  have st: "set (sorted_records ?rs) = set ?rs" by (simp add: sorted_records_def)
  have ne: "?rs \<noteq> []" using False by simp
  show ?thesis using bucket_moves[OF inv raw dc ne refl st] by (simp add: s')
qed

section \<open>Recording a run\<close>

definition reg_grows :: "TestRegistry \<Rightarrow> TestRegistry \<Rightarrow> bool" where
  "reg_grows reg reg' \<longleftrightarrow> (\<exists>xs ys. reg_names reg' = reg_names reg @ xs \<and> reg_seeds reg' = reg_seeds reg @ ys)"

lemma grown_ids: "reg_grows reg reg' \<Longrightarrow> ids_ok reg r \<Longrightarrow> ids_ok reg' r \<and> record_view reg' r = record_view reg r"
  by (auto simp: reg_grows_def ids_ok_def record_view_def name_for_id_def seed_for_id_def py_nth_def nth_append)

definition interned :: "pystr \<Rightarrow> pystr \<Rightarrow> TestRegistry \<Rightarrow> nat \<times> nat \<times> TestRegistry" where
  "interned name seed reg =
     (let (n, reg) = lookup_name_id name reg; (d, reg) = lookup_seed_id seed reg in (n, d, snd (assign_run_id reg)))"

lemma interned_facts:
  assumes inv: "reg_inv reg" and run: "interned name seed reg = (n, d, reg')"
  shows "reg_inv reg'" "reg_grows reg reg'" "n < length (reg_names reg')" "d < length (reg_seeds reg')" "reg_names reg' ! n = name"
    "reg_seeds reg' ! d = seed" "reg_next_run_id reg' = reg_next_run_id reg + 1"
proof -
  let ?r1 = "snd (lookup_name_id name reg)" and ?n = "fst (lookup_name_id name reg)"
  let ?r2 = "snd (lookup_seed_id seed ?r1)" and ?d = "fst (lookup_seed_id seed ?r1)"
  have e: "n = ?n" "d = ?d" "reg' = ?r2\<lparr>reg_next_run_id := reg_next_run_id reg + 1\<rparr>"
    using run by (simp_all add: interned_def assign_run_id_def split_beta)
  have i1: "reg_inv ?r1" using names.inv_add[OF inv, of name] by simp
  have i2: "reg_inv ?r2" using seeds.inv_add[OF i1, of seed] by simp
  show "reg_inv reg'" using i2 by (simp add: e reg_inv_def)
  show "reg_grows reg reg'"
    using names.add_prefix[OF inv, of name] seeds.add_prefix[OF i1, of seed] by (auto simp: e reg_grows_def)
  show "n < length (reg_names reg')" "reg_names reg' ! n = name" using names.idx_add[OF inv, of name] by (simp_all add: e)
  show "d < length (reg_seeds reg')" "reg_seeds reg' ! d = seed" using seeds.idx_add[OF i1, of seed] by (simp_all add: e)
  show "reg_next_run_id reg' = reg_next_run_id reg + 1" by (simp add: e)
qed

definition run_flags :: "bool \<Rightarrow> bool \<Rightarrow> int" where
  "run_flags rerun has_coverage = (if rerun then 2 else 0) + (if has_coverage then 4 else 0)"

definition run_record :: "nat \<Rightarrow> nat \<Rightarrow> int \<Rightarrow> int \<Rightarrow> bool \<Rightarrow> bool \<Rightarrow> BucketRecord" where
  "run_record n d status ts has_coverage rerun =
     \<lparr>br_name_id = int n, br_seed_id = int d, br_ts = ts, br_status = status, br_flags = run_flags rerun has_coverage\<rparr>"

lemma flags_or: "(if rerun then HIST_FLAG_IS_RERUN else 0) OR (if cov then HIST_FLAG_HAS_COVERAGE else 0) = run_flags rerun cov"
  by (simp add: HIST_FLAG_IS_RERUN_def HIST_FLAG_HAS_COVERAGE_def run_flags_def)

text \<open>An invocation, taken apart: interning and statistics, the record, the full bucket, the contribution.\<close>

lemma add_test_run_cases:
  assumes run: "add_test_run compress decompress name seed status ts cpu cov rerun s = (s', r)"
    and i: "interned name seed (ss_registry s) = (n, d, reg)"
  defines "s1 \<equiv> s\<lparr>ss_registry := reg, ss_stats := stats_update n status ts cpu (Some (int d)) (ss_stats s)\<rparr>"
  shows "(\<exists>e. bucket_add (run_record n d status ts cov rerun) (ss_writer s) = Inl e \<and> s' = s1 \<and> r = Inl e) \<or>
    (\<exists>w s2 x. bucket_add (run_record n d status ts cov rerun) (ss_writer s) = Inr w \<and>
       (if is_full w then seal_current_bucket compress decompress (s1\<lparr>ss_writer := w\<rparr>) else (s1\<lparr>ss_writer := w\<rparr>, Inr ())) = (s2, x) \<and>
       ((\<exists>e. x = Inl e \<and> s' = s2 \<and> r = Inl e) \<or>
        (x = Inr () \<and> r = Inr (reg_next_run_id (ss_registry s)) \<and>
         (\<exists>c. s' = s2\<lparr>ss_contrib := c, ss_dirty := True\<rparr>))))"
proof -
  obtain n1 r1 d1 r2 where l: "lookup_name_id name (ss_registry s) = (n1, r1)" "lookup_seed_id seed r1 = (d1, r2)"
    by (metis surj_pair)
  have nd: "n1 = n" "d1 = d" "reg = r2\<lparr>reg_next_run_id := reg_next_run_id r2 + 1\<rparr>"
    using i by (simp_all add: interned_def l assign_run_id_def)
  have nid: "reg_next_run_id r2 = reg_next_run_id (ss_registry s)"
    using lookup_other(3)[of name "ss_registry s"] lookup_other(4)[of seed r1] by (simp add: l)
  let ?rec = "run_record n d status ts cov rerun"
  have s1: "s1 = s\<lparr>ss_registry := r2\<lparr>reg_next_run_id := reg_next_run_id r2 + 1\<rparr>, ss_stats := stats_update n status ts cpu (Some (int d)) (ss_stats s)\<rparr>"
    by (simp add: s1_def nd)
  show ?thesis
  proof (cases "bucket_add ?rec (ss_writer s)")
    case (Inl e)
    then show ?thesis using run
      by (simp add: add_test_run_def bindS_def registryS_def l nd(1,2) assign_run_id_def Let_def flags_or add_record_def run_record_def s1)
  next
    case (Inr w)
    obtain s2 x where f: "(if is_full w then seal_current_bucket compress decompress (s1\<lparr>ss_writer := w\<rparr>) else (s1\<lparr>ss_writer := w\<rparr>, Inr ())) = (s2, x)"
      by (metis surj_pair)
    define c where "c = (if cov then ci_add_entry \<lparr>ce_run_id = reg_next_run_id r2, ce_name_id = int n, ce_status = status,
        ce_flags = (if rerun then CI_IS_RERUN else 0)\<rparr> (ss_contrib s2) else ss_contrib s2)"
    have "s' = (if is_ok x then s2\<lparr>ss_contrib := c, ss_dirty := True\<rparr> else s2) \<and> r = (case x of Inl e \<Rightarrow> Inl e | Inr _ \<Rightarrow> Inr (reg_next_run_id r2))"
      using run f Inr
      by (cases x) (auto simp: add_test_run_def bindS_def registryS_def l nd(1,2) assign_run_id_def Let_def flags_or add_record_def run_record_def s1 is_ok_def c_def
          split: if_splits)
    then show ?thesis using Inr f nid by (cases x) (auto simp: is_ok_def)
  qed
qed


lemma session_inv_fields:
  "session_inv decompress (s\<lparr>ss_contrib := c, ss_dirty := b\<rparr>) = session_inv decompress s"
  "session_records decompress (s\<lparr>ss_contrib := c, ss_dirty := b\<rparr>) = session_records decompress s"
  by (simp_all add: session_inv_def session_records_def)

lemma record_kept:
  assumes inv: "session_inv decompress s" and st: "0 \<le> status" "status < 16"
    and i: "interned name seed (ss_registry s) = (n, d, reg)"
    and w: "bucket_add (run_record n d status ts cov rerun) (ss_writer s) = Inr w"
  shows "session_inv decompress (s\<lparr>ss_registry := reg, ss_stats := stats, ss_writer := w\<rparr>)"
    and "session_records decompress (s\<lparr>ss_registry := reg, ss_stats := stats, ss_writer := w\<rparr>)
      = session_records decompress s @ [run_record n d status ts cov rerun]"
proof -
  let ?r = "run_record n d status ts cov rerun" and ?s = "s\<lparr>ss_registry := reg, ss_stats := stats, ss_writer := w\<rparr>"
  have ri: "reg_inv (ss_registry s)" using inv by (simp add: session_inv_def)
  note f = interned_facts[OF ri i]
  have fil: "filled (bw_records (ss_writer s) @ [?r]) = Inr w" using inv w by (simp add: filled_snoc session_inv_def)
  have rs: "bw_records w = bw_records (ss_writer s) @ [?r]" using filled_inv[OF fil] by blast
  show sr: "session_records decompress ?s = session_records decompress s @ [?r]" by (simp add: session_records_def rs)
  have "nibbles_ok ?r" using st by (simp add: nibbles_ok_def run_record_def run_flags_def)
  moreover have "ids_ok reg ?r" using f by (simp add: ids_ok_def run_record_def)
  moreover have "\<forall>r\<in>set (session_records decompress s). ids_ok reg r"
    using inv grown_ids[OF f(2)] by (auto simp: session_inv_def)
  ultimately show "session_inv decompress ?s"
    using inv f(1) fil sr rs unfolding session_inv_def by simp
qed

lemma lookup_kept:
  assumes inv: "session_inv decompress s" and i: "interned name seed (ss_registry s) = (n, d, reg)"
  shows "session_inv decompress (s\<lparr>ss_registry := reg, ss_stats := stats\<rparr>)"
    and "history_of decompress (s\<lparr>ss_registry := reg, ss_stats := stats\<rparr>) = history_of decompress s"
proof -
  have ri: "reg_inv (ss_registry s)" using inv by (simp add: session_inv_def)
  note f = interned_facts[OF ri i]
  have sr: "session_records decompress (s\<lparr>ss_registry := reg, ss_stats := stats\<rparr>) = session_records decompress s"
    by (simp add: session_records_def)
  have ids: "\<forall>r\<in>set (session_records decompress s). ids_ok (ss_registry s) r" using inv by (simp add: session_inv_def)
  show "history_of decompress (s\<lparr>ss_registry := reg, ss_stats := stats\<rparr>) = history_of decompress s"
    unfolding history_of_def sr using ids grown_ids[OF f(2)] by (intro image_mset_cong) simp
  have "\<forall>r\<in>set (session_records decompress s). ids_ok reg r" using ids grown_ids[OF f(2)] by blast
  then show "session_inv decompress (s\<lparr>ss_registry := reg, ss_stats := stats\<rparr>)"
    using inv f(1) sr unfolding session_inv_def by simp
qed

text \<open>What an invocation does, on success and when it raises.\<close>

lemma add_test_run_facts:
  assumes inv: "session_inv decompress s" and c: "codecs compress fast decompress" and st: "0 \<le> status" "status < 16"
    and run: "add_test_run compress decompress name seed status ts cpu has_coverage rerun s = (s', r)"
  shows "session_inv decompress s' \<and> reg_next_run_id (ss_registry s') = reg_next_run_id (ss_registry s) + 1 \<and>
    (case r of
       Inr run_id \<Rightarrow> run_id = reg_next_run_id (ss_registry s) \<and>
         history_of decompress s' = add_mset (Inr name, Inr seed, ts, status, run_flags rerun has_coverage) (history_of decompress s)
     | Inl _ \<Rightarrow> history_of decompress s' = history_of decompress s \<or>
         history_of decompress s' = add_mset (Inr name, Inr seed, ts, status, run_flags rerun has_coverage) (history_of decompress s))"
proof -
  obtain n d reg where i: "interned name seed (ss_registry s) = (n, d, reg)" by (metis surj_pair)
  let ?rec = "run_record n d status ts has_coverage rerun"
  let ?st = "stats_update n status ts cpu (Some (int d)) (ss_stats s)"
  have ri: "reg_inv (ss_registry s)" using inv by (simp add: session_inv_def)
  note f = interned_facts[OF ri i]
  have view: "record_view reg ?rec = (Inr name, Inr seed, ts, status, run_flags rerun has_coverage)"
    using f by (simp add: record_view_def run_record_def name_for_id_def seed_for_id_def)
  from add_test_run_cases[OF run i] consider
    e where "bucket_add ?rec (ss_writer s) = Inl e" "s' = s\<lparr>ss_registry := reg, ss_stats := ?st\<rparr>" "r = Inl e"
  | w s2 x c where "bucket_add ?rec (ss_writer s) = Inr w"
      "(if is_full w then seal_current_bucket compress decompress (s\<lparr>ss_registry := reg, ss_stats := ?st, ss_writer := w\<rparr>)
        else (s\<lparr>ss_registry := reg, ss_stats := ?st, ss_writer := w\<rparr>, Inr ())) = (s2, x)"
      "(\<exists>e. x = Inl e \<and> s' = s2 \<and> r = Inl e) \<or> (r = Inr (reg_next_run_id (ss_registry s)) \<and> s' = s2\<lparr>ss_contrib := c, ss_dirty := True\<rparr>)"
    by blast
  then show ?thesis
  proof cases
    case 1
    then show ?thesis using lookup_kept[OF inv i, of ?st] f(7) by simp
  next
    case 2
    let ?s = "s\<lparr>ss_registry := reg, ss_stats := ?st, ss_writer := w\<rparr>"
    note k = record_kept[OF inv st i 2(1), of ?st]
    have s2: "session_inv decompress s2 \<and> mset (session_records decompress s2) = mset (session_records decompress ?s) \<and> ss_registry s2 = reg"
      using 2(2) seal_ok[OF k(1) c, of s2 x] k(1) by (cases "is_full w") auto
    have "history_of decompress s2 = add_mset (record_view reg ?rec) (image_mset (record_view reg) (mset (session_records decompress s)))"
      using s2 by (simp add: history_of_def k(2))
    also have "image_mset (record_view reg) (mset (session_records decompress s)) = history_of decompress s"
      using lookup_kept(2)[OF inv i, of ?st] by (simp add: history_of_def session_records_def)
    finally have h: "history_of decompress s2 = add_mset (Inr name, Inr seed, ts, status, run_flags rerun has_coverage) (history_of decompress s)"
      unfolding view .
    have hc: "history_of decompress (s2\<lparr>ss_contrib := c, ss_dirty := True\<rparr>) = history_of decompress s2" for c
      by (simp add: history_of_def session_inv_fields)
    show ?thesis using 2(3) s2 h f(7) by (auto simp: session_inv_fields hc)
  qed
qed


section \<open>Queries\<close>

definition window :: "int option \<Rightarrow> int option \<Rightarrow> int \<Rightarrow> bool" where
  "window ts_from ts_to t \<longleftrightarrow> (case ts_from of None \<Rightarrow> True | Some a \<Rightarrow> a \<le> t) \<and> (case ts_to of None \<Rightarrow> True | Some b \<Rightarrow> t \<le> b)"

lemma in_window_ts: "in_window a b r = window a b (br_ts r)"
  by (simp add: in_window_def window_def)

lemma entry_part:
  assumes ok: "bucket_ok decompress (ss_sealed s) e"
  shows "(case bucket_data s (bucket_seq e) of None \<Rightarrow> Inr []
     | Some data \<Rightarrow> bindE (bindE (decompress data) bucket_parse) (\<lambda>reader. Inr (filter (in_window a b) (records_for_name reader k)))) =
     Inr (filter (\<lambda>r. br_name_id r = k \<and> in_window a b r) (entry_records decompress (ss_sealed s) e))"
    and "e \<notin> set (buckets_for_name k a b [e]) \<Longrightarrow> filter (\<lambda>r. br_name_id r = k \<and> in_window a b r) (entry_records decompress (ss_sealed s) e) = []"
proof -
  obtain c rd where c: "dict_get (ss_sealed s) (bucket_seq e) = Some c" "bindE (decompress c) bucket_parse = Inr rd"
    "\<forall>k. records_for_name rd k = filter (\<lambda>r. br_name_id r = k) (rd_records rd)"
    "\<forall>r\<in>set (rd_records rd). min_name_id e \<le> br_name_id r \<and> br_name_id r \<le> max_name_id e \<and> ts_start e \<le> br_ts r \<and> br_ts r \<le> ts_end e"
    using ok unfolding bucket_ok_def by blast
  have er: "entry_records decompress (ss_sealed s) e = rd_records rd" using entry_records_ok[of "ss_sealed s" e c decompress rd, OF c(1,2)] .
  show "(case bucket_data s (bucket_seq e) of None \<Rightarrow> Inr []
     | Some data \<Rightarrow> bindE (bindE (decompress data) bucket_parse) (\<lambda>reader. Inr (filter (in_window a b) (records_for_name reader k)))) =
     Inr (filter (\<lambda>r. br_name_id r = k \<and> in_window a b r) (entry_records decompress (ss_sealed s) e))"
    unfolding er bucket_data_def c(1) option.case c(2) by (simp add: c(3) conj_commute)
  show "filter (\<lambda>r. br_name_id r = k \<and> in_window a b r) (entry_records decompress (ss_sealed s) e) = []"
    if "e \<notin> set (buckets_for_name k a b [e])"
    using that c(4) unfolding er
    by (fastforce simp: buckets_for_name_def in_window_def filter_empty_conv split: option.splits if_splits)
qed

lemma sealed_part:
  assumes "\<forall>e\<in>set es. bucket_ok decompress (ss_sealed s) e"
  shows "concatE (\<lambda>e. case bucket_data s (bucket_seq e) of None \<Rightarrow> Inr []
     | Some data \<Rightarrow> bindE (bindE (decompress data) bucket_parse) (\<lambda>reader. Inr (filter (in_window a b) (records_for_name reader k))))
      (buckets_for_name k a b es) =
     Inr (filter (\<lambda>r. br_name_id r = k \<and> in_window a b r) (concat (map (entry_records decompress (ss_sealed s)) es)))"
  using assms
proof (induction es)
  case Nil
  then show ?case by (simp add: buckets_for_name_def)
next
  case (Cons e es)
  have split: "buckets_for_name k a b (e # es) = buckets_for_name k a b [e] @ buckets_for_name k a b es"
    by (simp add: buckets_for_name_def)
  have one: "buckets_for_name k a b [e] = (if e \<in> set (buckets_for_name k a b [e]) then [e] else [])"
    by (simp add: buckets_for_name_def)
  have ok: "bucket_ok decompress (ss_sealed s) e" using Cons.prems by simp
  show ?case
    using Cons entry_part(1)[OF ok, of a b k] entry_part(2)[OF ok, of k a b] unfolding split
    by (subst one) simp
qed

lemma query_eq:
  assumes inv: "session_inv decompress s" and c: "codecs compress fast decompress" and k: "dict_get (reg_name_to_id (ss_registry s)) name = Some k"
  shows "\<exists>rs. query_test_history fast decompress s name a b = Inr rs \<and>
    mset rs = mset (filter (\<lambda>r. br_name_id r = int k \<and> in_window a b r)
      (concat (map (entry_records decompress (ss_sealed s)) (ss_index s)) @
        (if is_ok (bucket_encode (ss_writer s)) then bw_records (ss_writer s) else [])))"
proof -
  let ?rs = "bw_records (ss_writer s)"
  have ok: "\<forall>e\<in>set (ss_index s). bucket_ok decompress (ss_sealed s) e" using inv by (simp add: session_inv_def)
  note sp = sealed_part[OF ok, of a b "int k"]
  show ?thesis
  proof (cases "?rs = []")
    case True
    then show ?thesis using sp by (simp add: query_test_history_def k)
  next
    case ne: False
    show ?thesis
    proof (cases "bucket_encode (ss_writer s)")
      case (Inl e)
      then show ?thesis using ne sp by (simp add: query_test_history_def k)
    next
      case (Inr raw)
      have w: "filled ?rs = Inr (ss_writer s)" "\<forall>r\<in>set ?rs. nibbles_ok r" using inv by (simp_all add: session_inv_def)
      from bucket_reread[OF w Inr, of "[]"] obtain rd where rd: "bucket_parse raw = Inr rd"
        "\<forall>k. records_for_name rd k = filter (\<lambda>r. br_name_id r = k) (sorted_records ?rs)" by auto
      have dc: "decompress (fast raw) = Inr raw" using c by (simp add: codecs_def)
      have "mset (sorted_records ?rs) = mset ?rs" by (simp add: sorted_records_def)
      then show ?thesis using ne sp Inr rd dc by (simp add: query_test_history_def k conj_commute)
    qed
  qed
qed

text \<open>Names and the ids of their records.\<close>

lemma name_of_id:
  assumes "reg_inv reg" "ids_ok reg r" "dict_get (reg_name_to_id reg) name = Some k"
  shows "br_name_id r = int k \<longleftrightarrow> name_for_id reg (br_name_id r) = Inr name"
proof -
  obtain i where i: "br_name_id r = int i" "i < length (reg_names reg)" using assms(2) by (auto simp: ids_ok_def) (metis nonneg_int_cases of_nat_less_iff)
  have d: "reg_name_to_id reg = zip (reg_names reg) [0..<length (reg_names reg)]" "distinct (reg_names reg)"
    using assms(1) by (simp_all add: reg_inv_def)
  have "k < length (reg_names reg) \<and> reg_names reg ! k = name" using intern_step(1)[OF d, of name k] assms(3) by simp
  then show ?thesis using i d(2) by (auto simp: name_for_id_def nth_eq_iff_index_eq)
qed

lemma unknown_name:
  assumes "reg_inv reg" "ids_ok reg r" "dict_get (reg_name_to_id reg) name = None"
  shows "name_for_id reg (br_name_id r) \<noteq> Inr name"
proof -
  obtain i where i: "br_name_id r = int i" "i < length (reg_names reg)" using assms(2) by (auto simp: ids_ok_def) (metis nonneg_int_cases of_nat_less_iff)
  have d: "reg_name_to_id reg = zip (reg_names reg) [0..<length (reg_names reg)]" "distinct (reg_names reg)"
    using assms(1) by (simp_all add: reg_inv_def)
  then show ?thesis using intern_step(1)[OF d, of name i] i assms(3) by (auto simp: name_for_id_def)
qed

lemma query_view:
  assumes inv: "session_inv decompress s" and c: "codecs compress fast decompress"
  shows "\<exists>rs. query_test_history fast decompress s name a b = Inr rs \<and>
    image_mset (record_view (ss_registry s)) (mset rs) =
      filter_mset (\<lambda>(n, _, ts, _). n = Inr name \<and> window a b ts) (image_mset (record_view (ss_registry s))
        (mset (concat (map (entry_records decompress (ss_sealed s)) (ss_index s)) @
          (if is_ok (bucket_encode (ss_writer s)) then bw_records (ss_writer s) else []))))"
proof -
  let ?reg = "ss_registry s" and ?all = "concat (map (entry_records decompress (ss_sealed s)) (ss_index s)) @
      (if is_ok (bucket_encode (ss_writer s)) then bw_records (ss_writer s) else [])"
  have ri: "reg_inv ?reg" using inv by (simp add: session_inv_def)
  have ids: "ids_ok ?reg r" if "r \<in> set ?all" for r
    using that inv by (auto simp: session_inv_def session_records_def split: if_splits)
  have F: "filter_mset (\<lambda>(n, _, ts, _). n = Inr name \<and> window a b ts) (image_mset (record_view ?reg) (mset xs)) =
      image_mset (record_view ?reg) (filter_mset (\<lambda>r. name_for_id ?reg (br_name_id r) = Inr name \<and> in_window a b r) (mset xs))" for xs
    by (simp add: filter_mset_image_mset record_view_def in_window_ts comp_def)
  show ?thesis
  proof (cases "dict_get (reg_name_to_id ?reg) name")
    case None
    then have "query_test_history fast decompress s name a b = Inr []" by (simp only: query_test_history_def option.case)
    moreover have "filter (\<lambda>r. name_for_id ?reg (br_name_id r) = Inr name \<and> in_window a b r) ?all = []"
      using unknown_name[OF ri ids None] by (simp only: filter_empty_conv) blast
    ultimately show ?thesis unfolding F mset_filter[symmetric] by simp
  next
    case (Some k)
    from query_eq[OF inv c Some, of a b] obtain rs where rs: "query_test_history fast decompress s name a b = Inr rs"
      "mset rs = mset (filter (\<lambda>r. br_name_id r = int k \<and> in_window a b r) ?all)" by blast
    have "filter (\<lambda>r. br_name_id r = int k \<and> in_window a b r) ?all =
        filter (\<lambda>r. name_for_id ?reg (br_name_id r) = Inr name \<and> in_window a b r) ?all"
      using name_of_id[OF ri ids Some] by (intro filter_cong refl) simp
    with rs(2) have "mset rs = filter_mset (\<lambda>r. name_for_id ?reg (br_name_id r) = Inr name \<and> in_window a b r) (mset ?all)"
      by (simp only: mset_filter)
    then have "image_mset (record_view ?reg) (mset rs) = filter_mset (\<lambda>(n, _, ts, _). n = Inr name \<and> window a b ts) (image_mset (record_view ?reg) (mset ?all))"
      by (simp only: F)
    with rs(1) show ?thesis by (intro exI conjI)
  qed
qed


section \<open>Saving and opening again\<close>

lemma bucket_name_seq:
  assumes "0 \<le> q"
  shows "bucket_member_seq (bucket_member_name q) = Some q"
proof -
  let ?z = "zpad 6 (nat q)"
  have dig: "\<forall>c\<in>set ?z. is_digit c" using zpad_digits[of 6 "nat q"] by (simp add: list_all_iff)
  obtain c cs where z: "?z = c # cs" by (cases ?z) auto
  have c: "is_digit c" using dig z by simp
  have nd: "\<forall>x\<in>set ?z. x \<noteq> 46" using dig by (auto simp: is_digit_def)
  have head: "split_head 46 (?z @ lit ''.bin'') = ?z"
    using nd by (simp add: split_head_def lit_def takeWhile_append2 takeWhile_tail)
  have c': "c \<noteq> 45" "c \<noteq> 43" using c by (auto simp: is_digit_def)
  have "int_unsigned ?z = Inr (nat q)" using zpad_value[of 6 "nat q"] c by (simp add: int_unsigned_def z del: int_digits.simps)
  moreover have "str_strip ?z = ?z" by (rule str_strip_digits[OF dig])
  ultimately have "py_int ?z = Inr q" using c' assms by (simp add: py_int_def z)
  moreover have "bucket_member_name q \<noteq> MEMBER_BUCKET_INDEX"
    using c by (auto simp: bucket_member_name_def MEMBER_BUCKET_INDEX_def HISTORY_BUCKET_DIR_def lit_def z is_digit_def)
  moreover have "startswith (bucket_member_name q) HISTORY_BUCKET_DIR" "endswith (bucket_member_name q) (lit ''.bin'')"
    by (simp_all add: startswith_def endswith_def bucket_member_name_def)
  ultimately show ?thesis by (simp add: bucket_member_seq_def str_from_def) (simp add: bucket_member_name_def head)
qed

lemma other_seq:
  "bucket_member_seq MEMBER_TEST_REGISTRY = None" "bucket_member_seq MEMBER_TEST_STATS = None" "bucket_member_seq MEMBER_CONTRIB_INDEX = None"
  "bucket_member_seq MEMBER_SQUASH_LOG = None" "bucket_member_seq MEMBER_BUCKET_INDEX = None"
  by (simp_all add: bucket_member_seq_def startswith_def HISTORY_BUCKET_DIR_def lit_def MEMBER_TEST_REGISTRY_def MEMBER_TEST_STATS_def
      MEMBER_CONTRIB_INDEX_def MEMBER_SQUASH_LOG_def)

lemma seqs_read:
  "distinct (dict_keys xs) \<Longrightarrow> \<forall>k\<in>set (dict_keys xs). 0 \<le> k \<Longrightarrow> set (dict_keys xs) \<inter> set (dict_keys d) = {} \<Longrightarrow>
   foldl (\<lambda>d (n, data). case bucket_member_seq n of None \<Rightarrow> d | Some seq \<Rightarrow> dict_set seq data d) d
     (map (\<lambda>(seq, data). (bucket_member_name seq, data)) xs) = d @ xs"
proof (induction xs arbitrary: d)
  case (Cons x xs)
  obtain k v where x: "x = (k, v)" by (cases x)
  have "dict_set k v d = d @ [(k, v)]" using Cons.prems(3) by (intro update_notin) (simp add: x)
  moreover have "foldl (\<lambda>d (n, data). case bucket_member_seq n of None \<Rightarrow> d | Some seq \<Rightarrow> dict_set seq data d) (d @ [(k, v)])
     (map (\<lambda>(seq, data). (bucket_member_name seq, data)) xs) = (d @ [(k, v)]) @ xs"
    using Cons.prems by (intro Cons.IH) (auto simp: x)
  ultimately show ?case using Cons.prems(2) by (simp add: x bucket_name_seq)
qed simp

definition bucket_member :: "int \<times> bytes \<Rightarrow> pystr \<times> bytes" where
  "bucket_member = (\<lambda>(seq, data). (bucket_member_name seq, data))"

lemma bucket_member_keys:
  assumes "distinct (dict_keys xs)" "\<forall>k\<in>set (dict_keys xs). 0 \<le> k"
  shows "distinct (dict_keys (map bucket_member xs))"
    and "k \<in> set (dict_keys (map bucket_member xs)) \<Longrightarrow> bucket_member_seq k \<noteq> None"
proof -
  have k: "dict_keys (map bucket_member xs) = map bucket_member_name (dict_keys xs)" by (simp add: bucket_member_def split_beta comp_def)
  have "inj_on bucket_member_name (set (dict_keys xs))"
    using assms(2) bucket_name_seq by (intro inj_onI) (metis option.inject)
  then show "distinct (dict_keys (map bucket_member xs))" unfolding k using assms(1) by (simp only: distinct_map)
  show "k \<in> set (dict_keys (map bucket_member xs)) \<Longrightarrow> bucket_member_seq k \<noteq> None"
    unfolding k using assms(2) bucket_name_seq by auto
qed

text \<open>The members, in the order the code sets them: tables, buckets, index.\<close>

lemma members_layout:
  fixes reg stats cidx slog bidx data :: bytes
  assumes xs: "distinct (dict_keys xs)" "\<forall>k\<in>set (dict_keys xs). 0 \<le> k" and q: "q \<notin> set (dict_keys xs)" "0 \<le> q"
  defines "base \<equiv> [(MEMBER_TEST_REGISTRY, reg), (MEMBER_TEST_STATS, stats), (MEMBER_CONTRIB_INDEX, cidx), (MEMBER_SQUASH_LOG, slog)]"
  shows "dict_update base (map bucket_member xs) = base @ map bucket_member xs"
    and "dict_set (bucket_member_name q) data (base @ map bucket_member xs) = base @ map bucket_member (xs @ [(q, data)])"
    and "dict_set MEMBER_BUCKET_INDEX bidx (base @ map bucket_member xs) = base @ map bucket_member xs @ [(MEMBER_BUCKET_INDEX, bidx)]"
proof -
  note km = bucket_member_keys[OF xs]
  have b: "bucket_member_seq k = None" if "k \<in> set (dict_keys base)" for k using that other_seq by (auto simp: base_def)
  show "dict_update base (map bucket_member xs) = base @ map bucket_member xs"
    using km(1) by (rule dict_update_fresh) (use km(2) b in fastforce)
  have "distinct (dict_keys (xs @ [(q, data)]))" "\<forall>k\<in>set (dict_keys (xs @ [(q, data)])). 0 \<le> k" using xs q by simp_all
  from bucket_member_keys(1)[OF this] have "bucket_member_name q \<notin> set (dict_keys (map bucket_member xs))"
    by (simp add: bucket_member_def)
  moreover have "bucket_member_name q \<notin> set (dict_keys base)" using b[of "bucket_member_name q"] bucket_name_seq[OF q(2)] by auto
  ultimately show "dict_set (bucket_member_name q) data (base @ map bucket_member xs) = base @ map bucket_member (xs @ [(q, data)])"
    by (simp add: update_notin bucket_member_def)
  have "MEMBER_BUCKET_INDEX \<notin> set (dict_keys (map bucket_member xs))" using km(2)[of MEMBER_BUCKET_INDEX] other_seq(5) by blast
  moreover have "MEMBER_BUCKET_INDEX \<notin> set (dict_keys base)"
    by (simp add: base_def MEMBER_BUCKET_INDEX_def MEMBER_TEST_REGISTRY_def MEMBER_TEST_STATS_def MEMBER_CONTRIB_INDEX_def MEMBER_SQUASH_LOG_def lit_def)
  ultimately show "dict_set MEMBER_BUCKET_INDEX bidx (base @ map bucket_member xs) = base @ map bucket_member xs @ [(MEMBER_BUCKET_INDEX, bidx)]"
    by (simp add: update_notin)
qed


lemma session_cong:
  assumes "ss_registry s' = ss_registry s" "ss_index s' = ss_index s" "ss_sealed s' = ss_sealed s" "ss_writer s' = ss_writer s"
  shows "session_inv decompress s' = session_inv decompress s" "history_of decompress s' = history_of decompress s"
  using assms by (simp_all add: session_inv_def history_of_def session_records_def)

lemma loaded_tables:
  fixes reg stats cidx slog bidx :: bytes
  assumes xs: "distinct (dict_keys xs)" "\<forall>k\<in>set (dict_keys xs). 0 \<le> k"
    and r: "reg_deserialize reg = Inr R" "stats_deserialize unf32 stats = Inr T" "cidx_deserialize cidx = Inr C" "sqlg_deserialize slog = Inr L"
      "bidx_deserialize bidx = Inr B"
    and zf: "zf = [(MEMBER_TEST_REGISTRY, reg), (MEMBER_TEST_STATS, stats), (MEMBER_CONTRIB_INDEX, cidx), (MEMBER_SQUASH_LOG, slog)] @
      map bucket_member xs @ [(MEMBER_BUCKET_INDEX, bidx)]"
  shows "load_v2_history unf32 zf = Inr \<lparr>ss_members = zf, ss_registry = R, ss_stats = T, ss_index = B, ss_contrib = C, ss_squash_log = L,
      ss_writer = new_bucket, ss_sealed = xs, ss_dirty = False\<rparr>"
proof -
  have "MEMBER_BUCKET_INDEX \<notin> set (dict_keys (map bucket_member xs))"
    using bucket_member_keys(2)[OF xs, of MEMBER_BUCKET_INDEX] other_seq(5) by blast
  then have n: "map_of (map bucket_member xs) MEMBER_BUCKET_INDEX = None" by (metis map_of_eq_None_iff set_map)
  have ne: "MEMBER_TEST_STATS \<noteq> MEMBER_TEST_REGISTRY" "MEMBER_CONTRIB_INDEX \<noteq> MEMBER_TEST_REGISTRY" "MEMBER_CONTRIB_INDEX \<noteq> MEMBER_TEST_STATS"
    "MEMBER_SQUASH_LOG \<noteq> MEMBER_TEST_REGISTRY" "MEMBER_SQUASH_LOG \<noteq> MEMBER_TEST_STATS" "MEMBER_SQUASH_LOG \<noteq> MEMBER_CONTRIB_INDEX"
    "MEMBER_BUCKET_INDEX \<noteq> MEMBER_TEST_REGISTRY" "MEMBER_BUCKET_INDEX \<noteq> MEMBER_TEST_STATS"
    "MEMBER_BUCKET_INDEX \<noteq> MEMBER_CONTRIB_INDEX" "MEMBER_BUCKET_INDEX \<noteq> MEMBER_SQUASH_LOG"
    by (simp_all add: MEMBER_BUCKET_INDEX_def MEMBER_TEST_REGISTRY_def MEMBER_TEST_STATS_def MEMBER_CONTRIB_INDEX_def MEMBER_SQUASH_LOG_def lit_def)
  have g: "dict_get zf MEMBER_TEST_REGISTRY = Some reg" "dict_get zf MEMBER_TEST_STATS = Some stats" "dict_get zf MEMBER_CONTRIB_INDEX = Some cidx"
    "dict_get zf MEMBER_SQUASH_LOG = Some slog" "dict_get zf MEMBER_BUCKET_INDEX = Some bidx"
    using ne n by (simp_all add: zf map_add_def)
  have "foldl (\<lambda>d (n, data). case bucket_member_seq n of None \<Rightarrow> d | Some seq \<Rightarrow> dict_set seq data d) [] zf = xs"
    using seqs_read[of xs "[]"] xs by (simp add: zf other_seq bucket_member_def)
  then show ?thesis by (simp add: load_v2_history_def loaded_or_def g r)
qed

definition reopened :: "(rat \<Rightarrow> rat) \<Rightarrow> (bytes \<Rightarrow> bytes res) \<Rightarrow> session \<Rightarrow> session \<Rightarrow> bool" where
  "reopened rnd decompress s s' \<longleftrightarrow>
     session_inv decompress s' \<and> history_of decompress s' = history_of decompress s \<and> ss_registry s' = ss_registry s \<and>
     ss_contrib s' = ss_contrib s \<and> ss_squash_log s' = ss_squash_log s \<and> ss_stats s' = map (reloaded rnd) (ss_stats s) \<and> ss_writer s' = new_bucket"

definition storable :: "session \<Rightarrow> bool" where
  "storable s \<longleftrightarrow> list_all nul_free (reg_names (ss_registry s)) \<and> list_all nul_free (reg_seeds (ss_registry s)) \<and>
     (\<forall>i<length (ss_stats s). se_name_id (ss_stats s ! i) = i)"

lemma save_reopen:
  assumes inv: "session_inv decompress s" and c: "codecs compress fast decompress" and ff: "float_format rnd f32 unf32" and st: "storable s"
    and saved: "get_v2_members fast f32 s = Inr ms"
  shows "\<exists>s'. load_v2_history unf32 ms = Inr s' \<and> reopened rnd decompress s s'"
proof -
  let ?rs = "bw_records (ss_writer s)" and ?q = "next_seq (ss_index s)"
  from saved obtain reg stats cidx slog members B bidx where p: "reg_serialize (ss_registry s) = Inr reg" "stats_serialize f32 (ss_stats s) = Inr stats"
      "cidx_serialize (ss_contrib s) = Inr cidx" "sqlg_serialize (ss_squash_log s) = Inr slog" "bidx_serialize B = Inr bidx"
    and ms: "ms = dict_set MEMBER_BUCKET_INDEX bidx members"
    and mid: "(if ?rs = [] then Inr (dict_update [(MEMBER_TEST_REGISTRY, reg), (MEMBER_TEST_STATS, stats), (MEMBER_CONTRIB_INDEX, cidx), (MEMBER_SQUASH_LOG, slog)]
                     (map bucket_member (ss_sealed s)), ss_index s)
       else bindE (bucket_encode (ss_writer s)) (\<lambda>raw. bindE (bindE (bidx_serialize (ss_index s)) bidx_deserialize) (\<lambda>out_bidx.
              Inr (dict_set (bucket_member_name ?q) (fast raw) (dict_update [(MEMBER_TEST_REGISTRY, reg), (MEMBER_TEST_STATS, stats), (MEMBER_CONTRIB_INDEX, cidx), (MEMBER_SQUASH_LOG, slog)]
                     (map bucket_member (ss_sealed s))),
                   add_bucket (index_entry ?q (length ?rs) (int (length (filter (\<lambda>r. br_status r = HIST_STATUS_FAIL) ?rs))) ?rs) out_bidx)))) = Inr (members, B)"
    unfolding get_v2_members_def Let_def bucket_member_def[symmetric] by (elim bindE_InrE) (auto elim!: bindE_InrE)
  have sx: "distinct (dict_keys (ss_sealed s))" "\<forall>k\<in>set (dict_keys (ss_sealed s)). 0 \<le> k"
    and q: "?q \<notin> set (dict_keys (ss_sealed s))" "0 \<le> ?q"
    using inv next_seq_nonneg[of "ss_index s"] by (auto simp: session_inv_def)
  have r: "reg_deserialize reg = Inr (ss_registry s)" "stats_deserialize unf32 stats = Inr (map (reloaded rnd) (ss_stats s))"
      "cidx_deserialize cidx = Inr (ss_contrib s)" "sqlg_deserialize slog = Inr (ss_squash_log s)" "bidx_deserialize bidx = Inr B"
    using registry_reload[of "ss_registry s" reg "[]"] stats_reload[OF ff p(2)] cidx_reload[OF p(3), of "[]"] sqlg_reload[OF p(4), of "[]"]
      bidx_reload[OF p(5), of "[]"] p(1) inv st by (simp_all add: session_inv_def storable_def)
  note lay = members_layout[where reg = reg and stats = stats and cidx = cidx and slog = slog, OF sx q]
  show ?thesis
  proof (cases "?rs = []")
    case True
    then have m: "ms = [(MEMBER_TEST_REGISTRY, reg), (MEMBER_TEST_STATS, stats), (MEMBER_CONTRIB_INDEX, cidx), (MEMBER_SQUASH_LOG, slog)] @
        map bucket_member (ss_sealed s) @ [(MEMBER_BUCKET_INDEX, bidx)]" and B: "B = ss_index s"
      using mid lay(1,3) by (simp_all add: ms)
    have w: "ss_writer s = new_bucket" using inv True by (simp add: session_inv_def filled_def)
    from loaded_tables[OF sx r m] obtain s' where s': "load_v2_history unf32 ms = Inr s'" "ss_registry s' = ss_registry s" "ss_index s' = ss_index s"
      "ss_sealed s' = ss_sealed s" "ss_writer s' = new_bucket" "ss_contrib s' = ss_contrib s" "ss_squash_log s' = ss_squash_log s"
      "ss_stats s' = map (reloaded rnd) (ss_stats s)" by (simp add: B)
    then show ?thesis using session_cong[of s' s decompress] inv w by (auto simp: reopened_def)
  next
    case False
    from mid False obtain raw where raw: "bucket_encode (ss_writer s) = Inr raw" by (auto elim!: bindE_InrE)
    let ?sealed = "dict_set ?q (fast raw) (ss_sealed s)"
    define e where "e = index_entry ?q (length ?rs) (int (length (filter (\<lambda>r. br_status r = HIST_STATUS_FAIL) ?rs))) ?rs"
    obtain ib where ib: "bidx_serialize (ss_index s) = Inr ib" using mid False raw by (auto elim!: bindE_InrE)
    have ob: "bidx_deserialize ib = Inr (ss_index s)" using bidx_reload[OF ib, of "[]"] by simp
    have app: "?sealed = ss_sealed s @ [(?q, fast raw)]" by (rule update_notin[OF q(1)])
    have members: "members = [(MEMBER_TEST_REGISTRY, reg), (MEMBER_TEST_STATS, stats), (MEMBER_CONTRIB_INDEX, cidx), (MEMBER_SQUASH_LOG, slog)] @
        map bucket_member ?sealed" and B: "B = add_bucket e (ss_index s)"
      using mid False raw ib ob lay(1,2) unfolding app by (simp_all add: e_def)
    have sx': "distinct (dict_keys ?sealed)" "\<forall>k\<in>set (dict_keys ?sealed). 0 \<le> k" using sx q by (auto simp: app)
    have fresh: "?q + 1 \<notin> set (dict_keys ?sealed)" "0 \<le> ?q + 1" using inv q by (auto simp: app session_inv_def)
    have m: "ms = [(MEMBER_TEST_REGISTRY, reg), (MEMBER_TEST_STATS, stats), (MEMBER_CONTRIB_INDEX, cidx), (MEMBER_SQUASH_LOG, slog)] @
        map bucket_member ?sealed @ [(MEMBER_BUCKET_INDEX, bidx)]"
      unfolding ms members by (rule members_layout(3)[OF sx' fresh])
    from loaded_tables[OF sx' r m] obtain s' where s': "load_v2_history unf32 ms = Inr s'" "ss_registry s' = ss_registry s" "ss_index s' = B"
      "ss_sealed s' = ?sealed" "ss_writer s' = new_bucket" "ss_contrib s' = ss_contrib s" "ss_squash_log s' = ss_squash_log s"
      "ss_stats s' = map (reloaded rnd) (ss_stats s)" by simp
    let ?t = "s\<lparr>ss_sealed := ?sealed, ss_index := add_bucket e (ss_index s), ss_writer := new_bucket\<rparr>"
    have dc: "decompress (fast raw) = Inr raw" using c by (simp add: codecs_def)
    note bm = bucket_moves[OF inv raw dc False e_def refl]
    have "history_of decompress ?t = history_of decompress s" using bm(2) by (simp add: history_of_def)
    then show ?thesis using session_cong[of s' ?t decompress] s' bm(1) B by (auto simp: reopened_def)
  qed
qed


section \<open>Limits of the open bucket\<close>

lemma bucket_seeds_used:
  assumes "filled rs = Inr w"
  shows "set (bw_seed_ids w) \<subseteq> br_seed_id ` set rs"
proof -
  have "foldE (\<lambda>w r. bucket_add r w) v xs = Inr w' \<Longrightarrow> set (bw_seed_ids w') \<subseteq> set (bw_seed_ids v) \<union> br_seed_id ` set xs" for v w' xs
    by (induction xs arbitrary: v) (force simp: bindE_eq_Inr bucket_add_def split: option.splits if_splits)+
  from this[of new_bucket rs w] show ?thesis using assms by (simp add: filled_def new_bucket_def)
qed

lemma full_seed_table:
  assumes inv: "session_inv decompress s" and full: "length (bw_seed_ids (ss_writer s)) = 255"
    and fresh: "\<forall>r\<in>set (bw_records (ss_writer s)). seed_for_id (ss_registry s) (br_seed_id r) \<noteq> Inr seed"
    and i: "interned name seed (ss_registry s) = (n, d, reg)"
  shows "bucket_add (run_record n d status ts cov rerun) (ss_writer s) = Inl OverflowError"
proof -
  have ri: "reg_inv (ss_registry s)" using inv by (simp add: session_inv_def)
  note f = interned_facts[OF ri i]
  have fil: "filled (bw_records (ss_writer s)) = Inr (ss_writer s)" using inv by (simp add: session_inv_def)
  have "int d \<notin> set (bw_seed_ids (ss_writer s))"
  proof
    assume "int d \<in> set (bw_seed_ids (ss_writer s))"
    then obtain r where r: "r \<in> set (bw_records (ss_writer s))" "br_seed_id r = int d" using bucket_seeds_used[OF fil] by auto
    then have "ids_ok (ss_registry s) r" using inv by (simp add: session_inv_def session_records_def)
    moreover from grown_ids[OF f(2) this] have "seed_for_id reg (br_seed_id r) = seed_for_id (ss_registry s) (br_seed_id r)"
      by (simp add: record_view_def)
    ultimately have "seed_for_id (ss_registry s) (br_seed_id r) = Inr seed" using f(4,6) r(2) by (simp add: seed_for_id_def)
    with fresh r(1) show False by blast
  qed
  moreover have "bw_seed_local (ss_writer s) = zip (bw_seed_ids (ss_writer s)) [0..<length (bw_seed_ids (ss_writer s))]"
    using filled_inv[OF fil] by (simp add: seeds_inv_def)
  ultimately have none: "dict_get (bw_seed_local (ss_writer s)) (int d) = None" by (simp add: map_of_zip_upt_None)
  show ?thesis unfolding bucket_add_def run_record_def BucketRecord.select_convs none option.case Let_def full by simp
qed

section \<open>The contract\<close>

text \<open>
  C10 (invariant). Recording a run keeps the state of the history consistent whether it succeeds or raises, and takes exactly one
  run id. On success the id is the registry's next one and the history gains exactly the run: its name, seed, time, status and
  flags; when a full bucket was sealed meanwhile, no earlier run is lost. When it raises, nothing but that run can have been added.
\<close>

theorem recording_keeps_history:
  assumes "session_inv decompress s" "codecs compress fast decompress" "0 \<le> status" "status < 16"
    and "add_test_run compress decompress name seed status ts cpu has_coverage rerun s = (s', r)"
  shows "session_inv decompress s' \<and> reg_next_run_id (ss_registry s') = reg_next_run_id (ss_registry s) + 1 \<and>
    (case r of
       Inr run_id \<Rightarrow> run_id = reg_next_run_id (ss_registry s) \<and>
         history_of decompress s' = add_mset (Inr name, Inr seed, ts, status, run_flags rerun has_coverage) (history_of decompress s)
     | Inl _ \<Rightarrow> history_of decompress s' = history_of decompress s \<or>
         history_of decompress s' = add_mset (Inr name, Inr seed, ts, status, run_flags rerun has_coverage) (history_of decompress s))"
  by (rule add_test_run_facts[OF assms])

definition blank_session :: session where
  "blank_session = \<lparr>ss_members = [], ss_registry = new_registry 0, ss_stats = [], ss_index = [],
     ss_contrib = new_contrib_index POLICY_PASS_ONLY 0, ss_squash_log = [], ss_writer = new_bucket, ss_sealed = [], ss_dirty = False\<rparr>"

lemma blank_load: "load_v2_history unf32 [] = Inr blank_session"
  by (simp add: load_v2_history_def loaded_or_def blank_session_def)

lemma blank_inv: "session_inv decompress blank_session"
  by (simp add: blank_session_def session_inv_def bidx_inv_def session_records_def new_bucket_def filled_def)

lemma identity_codecs: "codecs id id Inr"
  by (simp add: codecs_def)

definition first_run :: "session \<times> int res" where
  "first_run = add_test_run id Inr [97] [49] 0 1000 None True False blank_session"

lemma first_run_ok: "\<exists>s. first_run = (s, Inr 0) \<and> bw_records (ss_writer s) = [\<lparr>br_name_id = 0, br_seed_id = 0, br_ts = 1000, br_status = 0, br_flags = 4\<rparr>]"
proof -
  have f: "HIST_FLAG_HAS_COVERAGE = 4" by (simp add: HIST_FLAG_HAS_COVERAGE_def)
  show ?thesis
    by (simp add: first_run_def add_test_run_def bindS_def registryS_def lookup_name_id_def lookup_seed_id_def assign_run_id_def new_registry_def
      blank_session_def add_record_def bucket_add_def new_bucket_def is_full_def HISTORY_BUCKET_MAX_RECORDS_def f)
qed

lemma recording_keeps_history_witness:
  "\<exists>s. first_run = (s, Inr 0) \<and> session_inv Inr s \<and> history_of Inr s = {#(Inr [97], Inr [49], 1000, 0, 4)#}"
proof -
  obtain s where s: "first_run = (s, Inr 0)" using first_run_ok by blast
  have h: "history_of Inr blank_session = {#}" by (simp add: history_of_def session_records_def blank_session_def new_bucket_def)
  from recording_keeps_history[OF blank_inv identity_codecs _ _ s[unfolded first_run_def]]
  show ?thesis using s h by (intro exI[of _ s]) (simp add: run_flags_def)
qed

text \<open>
  C11 (functional). As long as the open bucket is empty or can be encoded, a query returns exactly the recorded runs of the name
  in the time window, bounds included, from sealed buckets and the open one; the bucket index never makes it miss one.
\<close>

theorem query_finds_runs:
  assumes "session_inv decompress s" "codecs compress fast decompress"
    and "bw_records (ss_writer s) = [] \<or> is_ok (bucket_encode (ss_writer s))"
  shows "\<exists>rs. query_test_history fast decompress s name ts_from ts_to = Inr rs \<and>
    image_mset (record_view (ss_registry s)) (mset rs) = filter_mset (\<lambda>(n, _, ts, _). n = Inr name \<and> window ts_from ts_to ts) (history_of decompress s)"
proof -
  have e: "(if is_ok (bucket_encode (ss_writer s)) then bw_records (ss_writer s) else []) = bw_records (ss_writer s)"
    using assms(3) by auto
  from query_view[OF assms(1,2), of name ts_from ts_to] show ?thesis unfolding e history_of_def session_records_def .
qed

lemma query_finds_runs_witness:
  "\<exists>s rs. first_run = (s, Inr 0) \<and> query_test_history id Inr s [97] (Some 1000) None = Inr rs \<and> length rs = 1"
proof -
  obtain s where s: "first_run = (s, Inr 0)" "bw_records (ss_writer s) = [\<lparr>br_name_id = 0, br_seed_id = 0, br_ts = 1000, br_status = 0, br_flags = 4\<rparr>]"
    using first_run_ok by blast
  have h: "history_of Inr blank_session = {#}" by (simp add: history_of_def session_records_def blank_session_def new_bucket_def)
  from add_test_run_facts[OF blank_inv identity_codecs _ _ s(1)[unfolded first_run_def]]
  have f: "session_inv Inr s" "history_of Inr s = {#(Inr [97], Inr [49], 1000, 0, 4)#}" by (simp_all add: h run_flags_def)
  have "\<forall>r\<in>set (bw_records (ss_writer s)). in_range r" by (simp add: s(2) in_range_def)
  moreover have "filled (bw_records (ss_writer s)) = Inr (ss_writer s)" using f(1) by (simp add: session_inv_def)
  ultimately have "is_ok (bucket_encode (ss_writer s))"
    using bucket_seal_condition[of "bw_records (ss_writer s)" "ss_writer s"] by (simp add: s(2) sorted_records_def HISTORY_BUCKET_MAX_RECORDS_def)
  then have "bw_records (ss_writer s) = [] \<or> is_ok (bucket_encode (ss_writer s))" ..
  from query_finds_runs[OF f(1) identity_codecs this, of "[97]" "Some 1000" None] obtain rs where
    q: "query_test_history id Inr s [97] (Some 1000) None = Inr rs" and
    m: "image_mset (record_view (ss_registry s)) (mset rs) = {#(Inr [97], Inr [49], 1000, 0, 4)#}" by (auto simp: f(2) window_def)
  have "size (mset rs) = 1" using arg_cong[OF m, of size] by simp
  then show ?thesis using s(1) q by (intro exI[of _ s] exI[of _ rs]) simp
qed

text \<open>
  C12 (roundtrip). The members a session is saved as open again to the same history, registry, contribution index and squash log,
  and to its statistics as the 32-bit fields hold them; the open bucket has become a sealed one. Names and seeds must not hold a
  NUL character.
\<close>

theorem history_survives_save:
  assumes "session_inv decompress s" "codecs compress fast decompress" "float_format rnd f32 unf32" "storable s"
    and "get_v2_members fast f32 s = Inr members"
  shows "\<exists>s'. load_v2_history unf32 members = Inr s' \<and> reopened rnd decompress s s'"
  by (rule save_reopen[OF assms])

definition x_record :: "int \<Rightarrow> int \<Rightarrow> int \<Rightarrow> int \<Rightarrow> BucketRecord" where
  "x_record n d ts st = \<lparr>br_name_id = n, br_seed_id = d, br_ts = ts, br_status = st, br_flags = 0\<rparr>"

definition x_session :: "BucketRecord \<Rightarrow> BucketRecord \<Rightarrow> session" where
  "x_session r1 r2 = blank_session\<lparr>
     ss_registry := \<lparr>reg_next_run_id = 2, reg_names = [[97], [98]], reg_seeds = [[49], [50]],
       reg_name_to_id = [([97], 0), ([98], 1)], reg_seed_to_id = [([49], 0), ([50], 1)]\<rparr>,
     ss_stats := table_of [(0, x_run 0 10 1), (0, x_run 1 20 2)],
     ss_writer := \<lparr>bw_records = [r1, r2], bw_seed_local = [(0, 0), (1, 1)], bw_seed_ids = [0, 1]\<rparr>\<rparr>"

lemma x_session_inv:
  assumes "0 \<le> n" "n < 2" "0 \<le> m" "m < 2" "0 \<le> a" "a < 16" "0 \<le> b" "b < 16"
  shows "session_inv decompress (x_session (x_record n 0 t a) (x_record m 1 u b))"
  using assms
  by (simp add: x_session_def blank_session_def session_inv_def bidx_inv_def session_records_def filled_def bucket_add_def new_bucket_def x_record_def
      nibbles_ok_def ids_ok_def reg_inv_def)

lemma x_encodes:
  assumes "0 \<le> t" "t \<le> u" "u < 2 ^ 32"
  shows "is_ok (bucket_encode (ss_writer (x_session (x_record 0 0 t 0) (x_record 0 1 u 1))))"
proof -
  let ?rs = "[x_record 0 0 t 0, x_record 0 1 u 1]"
  have fil: "filled ?rs = Inr (ss_writer (x_session (x_record 0 0 t 0) (x_record 0 1 u 1)))"
    by (simp add: x_session_def blank_session_def filled_def bucket_add_def new_bucket_def x_record_def)
  have "\<forall>r\<in>set ?rs. in_range r" using assms by (simp add: in_range_def x_record_def)
  moreover have "sorted_records ?rs = ?rs" using assms by (simp add: sorted_records_def x_record_def less_eq_prod_def)
  ultimately show ?thesis
    using bucket_seal_condition[OF fil] assms by (simp add: HISTORY_BUCKET_MAX_RECORDS_def x_record_def)
qed

lemma bidx_entry_list: "BIDX_ENTRY = [U 4, U 4, U 4, U 4, U 4, U 4, U 4]"
  by (simp add: BIDX_ENTRY_def eval_nat_numeral)

lemma x_saved: "is_ok (get_v2_members id x_f32 (x_session (x_record 0 0 10 0) (x_record 0 1 20 1)))"
proof -
  let ?s = "x_session (x_record 0 0 10 0) (x_record 0 1 20 1)"
  obtain raw where raw: "bucket_encode (ss_writer ?s) = Inr raw" using x_encodes[of 10 20] by (auto simp: is_ok_iff)
  obtain st where st: "stats_serialize x_f32 (ss_stats ?s) = Inr st" using x_stats_written by (auto simp: x_session_def blank_session_def)
  have rg: "is_ok (reg_serialize (ss_registry ?s))"
    unfolding x_session_def blank_session_def by (simp add: reg_serialize_def string_heap_def utf8_encode_ascii TSTR_HDR_def TSTR_MAGIC_def)
  have ci: "is_ok (cidx_serialize (ss_contrib ?s))" "is_ok (sqlg_serialize (ss_squash_log ?s))"
    by (simp_all add: x_session_def blank_session_def cidx_serialize_def sqlg_serialize_def new_contrib_index_def CIDX_HDR_def CIDX_MAGIC_def
        SQLG_HDR_def SQLG_MAGIC_def POLICY_PASS_ONLY_def)
  have ix: "ss_index ?s = []" "bw_records (ss_writer ?s) = [x_record 0 0 10 0, x_record 0 1 20 1]" by (simp_all add: x_session_def blank_session_def)
  have "is_ok (bidx_serialize [])" by (simp add: bidx_serialize_def BIDX_HDR_def BIDX_MAGIC_def)
  then obtain ib where ib: "bidx_serialize [] = Inr ib" by (rule is_okE)
  have ob: "bidx_deserialize ib = Inr []" using bidx_reload[OF ib, of "[]"] by simp
  have w: "is_ok (bidx_serialize [index_entry 0 (Suc (Suc 0)) 1 [x_record 0 0 10 0, x_record 0 1 20 1]])"
    by (simp add: bidx_serialize_def bidx_write_entry_def index_entry_def x_record_def BIDX_HDR_def BIDX_MAGIC_def bidx_entry_list)
  have fl: "br_status (x_record 0 0 10 0) \<noteq> HIST_STATUS_FAIL" "br_status (x_record 0 1 20 1) = HIST_STATUS_FAIL"
    by (simp_all add: x_record_def HIST_STATUS_FAIL_def)
  show ?thesis using rg ci w
    by (auto simp: get_v2_members_def Let_def st raw ix ib ob fl next_seq_def is_ok_iff)
qed

lemma x_storable: "storable (x_session r1 r2)"
  using table_of_ok[of "[(0, x_run 0 10 1), (0, x_run 1 20 2)]"]
  by (simp add: storable_def x_session_def blank_session_def nul_free_def table_ok_def)

lemma history_survives_save_witness:
  "\<exists>ms s'. get_v2_members id x_f32 (x_session (x_record 0 0 10 0) (x_record 0 1 20 1)) = Inr ms \<and> load_v2_history (\<lambda>_. 0) ms = Inr s' \<and>
     reopened (\<lambda>_. 0) Inr (x_session (x_record 0 0 10 0) (x_record 0 1 20 1)) s'"
proof -
  obtain ms where ms: "get_v2_members id x_f32 (x_session (x_record 0 0 10 0) (x_record 0 1 20 1)) = Inr ms" using x_saved by (auto simp: is_ok_iff)
  have i: "session_inv Inr (x_session (x_record 0 0 10 0) (x_record 0 1 20 1))" by (rule x_session_inv) simp_all
  from history_survives_save[OF i identity_codecs x_float_format x_storable ms] show ?thesis using ms by blast
qed

text \<open>
  C38 (safety). When the open bucket holds a run older than the first run of its first name, a query still succeeds but returns
  none of the bucket's runs, only those of sealed buckets, and the session cannot be saved.
\<close>

theorem unencodable_bucket_hidden:
  assumes "session_inv decompress s" "codecs compress fast decompress" "\<forall>r\<in>set (bw_records (ss_writer s)). in_range r"
    and "length (bw_records (ss_writer s)) \<le> HISTORY_BUCKET_MAX_RECORDS"
    and "r \<in> set (bw_records (ss_writer s))" "br_ts r < br_ts (hd (sorted_records (bw_records (ss_writer s))))"
  shows "(\<exists>rs. query_test_history fast decompress s name ts_from ts_to = Inr rs \<and>
      image_mset (record_view (ss_registry s)) (mset rs) = filter_mset (\<lambda>(n, _, ts, _). n = Inr name \<and> window ts_from ts_to ts)
        (history_view decompress (ss_registry s) (ss_sealed s) (ss_index s))) \<and>
    \<not> is_ok (get_v2_members fast f32 s)"
proof -
  have fil: "filled (bw_records (ss_writer s)) = Inr (ss_writer s)" using assms(1) by (simp add: session_inv_def)
  have ne: "bw_records (ss_writer s) \<noteq> []" using assms(5) by auto
  have no: "bucket_encode (ss_writer s) = Inl ValueError"
    using bucket_seal_condition[OF fil ne assms(4,3)] assms(5,6) by (simp split: if_splits) force
  from query_view[OF assms(1,2), of name ts_from ts_to]
  have "\<exists>rs. query_test_history fast decompress s name ts_from ts_to = Inr rs \<and>
      image_mset (record_view (ss_registry s)) (mset rs) = filter_mset (\<lambda>(n, _, ts, _). n = Inr name \<and> window ts_from ts_to ts)
        (history_view decompress (ss_registry s) (ss_sealed s) (ss_index s))"
    by (simp add: history_view_def no)
  moreover have "\<not> is_ok (get_v2_members fast f32 s)"
    using ne by (auto simp: get_v2_members_def Let_def no is_ok_iff elim!: bindE_InrE)
  ultimately show ?thesis ..
qed

lemma unencodable_bucket_hidden_witness:
  "query_test_history id Inr (x_session (x_record 0 0 200 0) (x_record 1 1 100 0)) [97] None None = Inr [] \<and>
   \<not> is_ok (get_v2_members id x_f32 (x_session (x_record 0 0 200 0) (x_record 1 1 100 0)))"
proof -
  let ?s = "x_session (x_record 0 0 200 0) (x_record 1 1 100 0)"
  have i: "session_inv Inr ?s" by (rule x_session_inv) simp_all
  have rs: "bw_records (ss_writer ?s) = [x_record 0 0 200 0, x_record 1 1 100 0]" "ss_index ?s = []" by (simp_all add: x_session_def blank_session_def)
  have h: "br_ts (x_record 1 1 100 0) < br_ts (hd (sorted_records (bw_records (ss_writer ?s))))"
    unfolding rs by (simp add: sorted_records_def x_record_def less_eq_prod_def)
  have r: "\<forall>r\<in>set (bw_records (ss_writer ?s)). in_range r" unfolding rs by (simp add: in_range_def x_record_def)
  have l: "length (bw_records (ss_writer ?s)) \<le> HISTORY_BUCKET_MAX_RECORDS" unfolding rs by (simp add: HISTORY_BUCKET_MAX_RECORDS_def)
  have m: "x_record 1 1 100 0 \<in> set (bw_records (ss_writer ?s))" by (simp add: rs)
  from unencodable_bucket_hidden[OF i identity_codecs r l m h, of "[97]" None None x_f32]
  show ?thesis by (auto simp: history_view_def rs)
qed

text \<open>
  C39 (error). Once the open bucket holds 255 seeds, a run with any other seed raises \<open>OverflowError\<close>, though the bucket is only
  sealed at its record limit. The statistics have counted the run and the registry has spent an id; the history has not got it, and
  the object is not marked as changed. The bucket is as full as before, so the next such run fails alike.
\<close>

theorem seed_limit_blocks_runs:
  assumes "session_inv decompress s" "length (bw_seed_ids (ss_writer s)) = 255"
    and "\<forall>r\<in>set (bw_records (ss_writer s)). seed_for_id (ss_registry s) (br_seed_id r) \<noteq> Inr seed"
  shows "\<exists>s' d. add_test_run compress decompress name seed status ts cpu has_coverage rerun s = (s', Inl OverflowError) \<and>
    history_of decompress s' = history_of decompress s \<and> ss_writer s' = ss_writer s \<and> session_inv decompress s' \<and>
    ss_stats s' = stats_update (fst (lookup_name_id name (ss_registry s))) status ts cpu (Some (int d)) (ss_stats s) \<and>
    reg_next_run_id (ss_registry s') = reg_next_run_id (ss_registry s) + 1 \<and> ss_dirty s' = ss_dirty s"
proof -
  obtain n d reg where i: "interned name seed (ss_registry s) = (n, d, reg)" by (metis surj_pair)
  obtain s' r where run: "add_test_run compress decompress name seed status ts cpu has_coverage rerun s = (s', r)" by (metis surj_pair)
  have ri: "reg_inv (ss_registry s)" using assms(1) by (simp add: session_inv_def)
  have n: "n = fst (lookup_name_id name (ss_registry s))" using i by (simp add: interned_def split_beta)
  let ?st = "stats_update n status ts cpu (Some (int d)) (ss_stats s)"
  have s': "s' = s\<lparr>ss_registry := reg, ss_stats := ?st\<rparr>" "r = Inl OverflowError"
    using add_test_run_cases[OF run i] full_seed_table[OF assms i] by auto
  show ?thesis
    using run lookup_kept[OF assms(1) i, of ?st] interned_facts(7)[OF ri i] n by (intro exI[of _ s'] exI[of _ d]) (simp add: s')
qed


text \<open>A bucket with runs of 255 seeds.\<close>

definition x_seeds :: "nat \<Rightarrow> session" where
  "x_seeds n = blank_session\<lparr>
     ss_registry := \<lparr>reg_next_run_id = 0, reg_names = [[97]], reg_seeds = map str_nat [0..<n], reg_name_to_id = [([97], 0)],
       reg_seed_to_id = zip (map str_nat [0..<n]) [0..<n]\<rparr>,
     ss_writer := \<lparr>bw_records = map (\<lambda>i. x_record 0 (int i) 0 0) [0..<n], bw_seed_local = zip (map int [0..<n]) [0..<n], bw_seed_ids = map int [0..<n]\<rparr>\<rparr>"

lemma x_seeds_filled:
  "n \<le> 255 \<Longrightarrow> filled (map (\<lambda>i. x_record 0 (int i) 0 0) [0..<n]) =
     Inr \<lparr>bw_records = map (\<lambda>i. x_record 0 (int i) 0 0) [0..<n], bw_seed_local = zip (map int [0..<n]) [0..<n], bw_seed_ids = map int [0..<n]\<rparr>"
proof (induction n)
  case 0
  then show ?case by (simp add: filled_def new_bucket_def)
next
  case (Suc n)
  have "map fst (zip (map int [0..<n]) [0..<n]) = map int [0..<n]" by simp
  then have k: "int n \<notin> fst ` set (zip (map int [0..<n]) [0..<n])" by (metis list.set_map atLeastLessThan_iff image_iff of_nat_eq_iff order_less_irrefl set_upt)
  then have m: "map_of (zip (map int [0..<n]) [0..<n]) (int n) = None" by (simp only: map_of_eq_None_iff not_False_eq_True)
  have u: "dict_set (int n) n (zip (map int [0..<n]) [0..<n]) = zip (map int [0..<n]) [0..<n] @ [(int n, n)]"
    by (rule update_notin) (use k in \<open>metis set_map\<close>)
  have b: "br_seed_id (x_record 0 (int n) 0 0) = int n" "length (map int [0..<n]) = n" by (simp_all add: x_record_def)
  have "bucket_add (x_record 0 (int n) 0 0)
      \<lparr>bw_records = map (\<lambda>i. x_record 0 (int i) 0 0) [0..<n], bw_seed_local = zip (map int [0..<n]) [0..<n], bw_seed_ids = map int [0..<n]\<rparr> =
    Inr \<lparr>bw_records = map (\<lambda>i. x_record 0 (int i) 0 0) [0..<Suc n], bw_seed_local = zip (map int [0..<n]) [0..<n] @ [(int n, n)],
      bw_seed_ids = map int [0..<Suc n]\<rparr>"
    unfolding bucket_add_def BucketWriter.select_convs b m option.case Let_def u using Suc.prems by simp
  then show ?case using Suc by (simp add: filled_snoc)
qed

lemma x_seeds_inv: "n \<le> 255 \<Longrightarrow> session_inv decompress (x_seeds n)"
proof -
  assume n: "n \<le> 255"
  have "distinct (map str_nat [0..<n])" by (simp add: distinct_map inj_on_def)
  then show ?thesis using x_seeds_filled[OF n]
    by (auto simp: x_seeds_def blank_session_def session_inv_def bidx_inv_def session_records_def x_record_def nibbles_ok_def ids_ok_def reg_inv_def)
qed

lemma seed_limit_blocks_runs_witness:
  "\<exists>s'. add_test_run id Inr [97] [120] 0 5 None False False (x_seeds 255) = (s', Inl OverflowError) \<and> history_of Inr s' = history_of Inr (x_seeds 255)"
proof -
  have w: "ss_writer (x_seeds 255) = \<lparr>bw_records = map (\<lambda>i. x_record 0 (int i) 0 0) [0..<255], bw_seed_local = zip (map int [0..<255]) [0..<255],
      bw_seed_ids = map int [0..<255]\<rparr>" "reg_seeds (ss_registry (x_seeds 255)) = map str_nat [0..<255]" unfolding x_seeds_def by simp_all
  have l: "length (bw_seed_ids (ss_writer (x_seeds 255))) = 255" unfolding w by simp
  have "str_nat i \<noteq> [120]" for i using str_nat_is_digit[of 120 i] by (auto simp: is_digit_def)
  then have f: "\<forall>r\<in>set (bw_records (ss_writer (x_seeds 255))). seed_for_id (ss_registry (x_seeds 255)) (br_seed_id r) \<noteq> Inr [120]"
    unfolding seed_for_id_def w by (auto simp: x_record_def simp del: upt_rec_numeral)
  from seed_limit_blocks_runs[OF x_seeds_inv[of 255] l f, of id Inr "[97]" 0 5 None False False] show ?thesis by auto
qed

end
