(* ===== verification/Testplan.thy ===== *)
theory Testplan
  imports Json StateExn PyText
begin

text \<open>
  Testplans, from \<open>ncdb/testplan.py\<close>: the goal tree with its testpoints, their JSON form, and the indices by testpoint name and
  by test name. Fields have the types the dataclasses declare. \<open>from_dict\<close> does not check them, so a document with a value of
  another type is outside the model; where one is read, the model raises \<open>TypeError\<close>.
\<close>

section \<open>Plans\<close>

type_synonym jdict = "(pystr \<times> json) list"

record RequirementLink =
  rq_system :: pystr
  rq_project :: pystr
  rq_item_id :: pystr
  rq_url :: pystr

record CoverageBinding =
  cb_type :: pystr
  cb_path :: pystr
  cb_desc :: pystr

record CoverpointEntry =
  cpe_name :: pystr
  cpe_desc :: pystr
  cpe_path :: pystr
  cpe_custom :: jdict

record CovergroupEntry =
  cge_name :: pystr
  cge_desc :: pystr
  cge_coverpoints :: "CoverpointEntry list"
  cge_custom :: jdict

record Testpoint =
  tp_name :: pystr
  tp_stage :: pystr
  tp_desc :: pystr
  tp_tests :: "pystr list"
  tp_tags :: "pystr list"
  tp_na :: bool
  tp_source_template :: pystr
  tp_requirements :: "RequirementLink list"
  tp_coverage :: "CoverageBinding list"
  tp_owner :: pystr
  tp_priority :: pystr
  tp_weight :: int
  tp_custom :: jdict

record ImportEntry =
  ie_path :: pystr
  ie_substitutions :: jdict

datatype Goal = Goal
  (g_id: pystr) (g_title: pystr) (g_desc: pystr) (g_owner: pystr) (g_priority: pystr) (g_status: pystr) (g_tags: "pystr list")
  (g_goals: "Goal list") (g_testpoints: "Testpoint list") (g_custom: jdict)

record Testplan =
  pl_format_version :: int
  pl_schema :: pystr
  pl_name :: pystr
  pl_description :: pystr
  pl_owner :: pystr
  pl_tags :: "pystr list"
  pl_substitutions :: jdict
  pl_imports :: "ImportEntry list"
  pl_source_file :: pystr
  pl_import_timestamp :: pystr
  pl_testpoints :: "Testpoint list"
  pl_goals :: "Goal list"
  pl_covergroups :: "CovergroupEntry list"
  pl_custom :: jdict
  tp_by_name :: "(pystr \<times> Testpoint) list"
  tp_by_test :: "(pystr \<times> Testpoint) list"
  indexed :: bool

section \<open>To a dictionary\<close>

definition jstrs :: "pystr list \<Rightarrow> json" where "jstrs ss = JList (map JStr ss)"

definition req_to_dict :: "RequirementLink \<Rightarrow> json" where
  "req_to_dict r = JObj [(lit ''system'', JStr (rq_system r)), (lit ''project'', JStr (rq_project r)),
     (lit ''item_id'', JStr (rq_item_id r)), (lit ''url'', JStr (rq_url r))]"

definition binding_to_dict :: "CoverageBinding \<Rightarrow> json" where
  "binding_to_dict b = JObj [(lit ''type'', JStr (cb_type b)), (lit ''path'', JStr (cb_path b)), (lit ''desc'', JStr (cb_desc b))]"

definition cp_entry_to_dict :: "CoverpointEntry \<Rightarrow> json" where
  "cp_entry_to_dict cp = JObj [(lit ''name'', JStr (cpe_name cp)), (lit ''desc'', JStr (cpe_desc cp)),
     (lit ''path'', JStr (cpe_path cp)), (lit ''custom'', JObj (cpe_custom cp))]"

definition cg_to_dict :: "CovergroupEntry \<Rightarrow> json" where
  "cg_to_dict cg = JObj [(lit ''name'', JStr (cge_name cg)), (lit ''desc'', JStr (cge_desc cg)),
     (lit ''coverpoints'', JList (map cp_entry_to_dict (cge_coverpoints cg))), (lit ''custom'', JObj (cge_custom cg))]"

definition tp_to_dict :: "Testpoint \<Rightarrow> json" where
  "tp_to_dict tp = JObj
     [(lit ''name'', JStr (tp_name tp)), (lit ''stage'', JStr (tp_stage tp)), (lit ''desc'', JStr (tp_desc tp)),
      (lit ''tests'', jstrs (tp_tests tp)), (lit ''tags'', jstrs (tp_tags tp)), (lit ''na'', JBool (tp_na tp)),
      (lit ''source_template'', JStr (tp_source_template tp)),
      (lit ''requirements'', JList (map req_to_dict (tp_requirements tp))),
      (lit ''coverage'', JList (map binding_to_dict (tp_coverage tp))),
      (lit ''owner'', JStr (tp_owner tp)), (lit ''priority'', JStr (tp_priority tp)), (lit ''weight'', JInt (tp_weight tp)),
      (lit ''custom'', JObj (tp_custom tp))]"

fun goal_to_dict :: "Goal \<Rightarrow> json" where
  "goal_to_dict (Goal gid title desc owner priority status tags goals testpoints custom) = JObj
     [(lit ''id'', JStr gid), (lit ''title'', JStr title), (lit ''desc'', JStr desc), (lit ''owner'', JStr owner),
      (lit ''priority'', JStr priority), (lit ''status'', JStr status), (lit ''tags'', jstrs tags),
      (lit ''goals'', JList (map goal_to_dict goals)), (lit ''testpoints'', JList (map tp_to_dict testpoints)),
      (lit ''custom'', JObj custom)]"

definition import_to_dict :: "ImportEntry \<Rightarrow> json" where
  "import_to_dict ie = JObj [(lit ''path'', JStr (ie_path ie)), (lit ''substitutions'', JObj (ie_substitutions ie))]"

definition plan_to_dict :: "Testplan \<Rightarrow> json" where
  "plan_to_dict p = JObj
     [(lit ''format_version'', JInt (pl_format_version p)), (lit ''schema'', JStr (pl_schema p)), (lit ''name'', JStr (pl_name p)),
      (lit ''description'', JStr (pl_description p)), (lit ''owner'', JStr (pl_owner p)), (lit ''tags'', jstrs (pl_tags p)),
      (lit ''substitutions'', JObj (pl_substitutions p)), (lit ''imports'', JList (map import_to_dict (pl_imports p))),
      (lit ''source_file'', JStr (pl_source_file p)), (lit ''import_timestamp'', JStr (pl_import_timestamp p)),
      (lit ''testpoints'', JList (map tp_to_dict (pl_testpoints p))), (lit ''goals'', JList (map goal_to_dict (pl_goals p))),
      (lit ''covergroups'', JList (map cg_to_dict (pl_covergroups p))), (lit ''custom'', JObj (pl_custom p))]"

definition plan_serialize :: "(json \<Rightarrow> bytes) \<Rightarrow> Testplan \<Rightarrow> bytes" where
  "plan_serialize dumps p = dumps (plan_to_dict p)"

section \<open>From a dictionary\<close>

text \<open>\<open>d.get(key, dflt)\<close>, at the type of the field.\<close>

definition as_str :: "json \<Rightarrow> pystr res" where "as_str j = (case j of JStr s \<Rightarrow> Inr s | _ \<Rightarrow> Inl TypeError)"
definition as_int :: "json \<Rightarrow> int res" where "as_int j = (case j of JInt i \<Rightarrow> Inr i | _ \<Rightarrow> Inl TypeError)"
definition as_bool :: "json \<Rightarrow> bool res" where "as_bool j = (case j of JBool b \<Rightarrow> Inr b | _ \<Rightarrow> Inl TypeError)"
definition as_dict :: "json \<Rightarrow> jdict res" where "as_dict j = (case j of JObj d \<Rightarrow> Inr d | _ \<Rightarrow> Inl TypeError)"
definition as_list :: "json \<Rightarrow> json list res" where "as_list j = (case j of JList xs \<Rightarrow> Inr xs | _ \<Rightarrow> Inl TypeError)"
definition as_strs :: "json \<Rightarrow> pystr list res" where "as_strs j = bindE (as_list j) (mapE as_str)"

definition str_get :: "jdict \<Rightarrow> char list \<Rightarrow> char list \<Rightarrow> pystr res" where
  "str_get d key dflt = as_str (jget_or d key (JStr (lit dflt)))"
definition strs_get :: "jdict \<Rightarrow> char list \<Rightarrow> pystr list res" where "strs_get d key = as_strs (jget_or d key (JList []))"
definition dict_of :: "jdict \<Rightarrow> char list \<Rightarrow> jdict res" where "dict_of d key = as_dict (jget_or d key (JObj []))"
definition list_of :: "jdict \<Rightarrow> char list \<Rightarrow> json list res" where "list_of d key = as_list (jget_or d key (JList []))"

definition req_from_dict :: "json \<Rightarrow> RequirementLink res" where
  "req_from_dict j =
     bindE (as_dict j) (\<lambda>d.
     bindE (str_get d ''system'' '''') (\<lambda>system.
     bindE (str_get d ''project'' '''') (\<lambda>project.
     bindE (str_get d ''item_id'' '''') (\<lambda>item_id.
     bindE (str_get d ''url'' '''') (\<lambda>url.
     Inr \<lparr>rq_system = system, rq_project = project, rq_item_id = item_id, rq_url = url\<rparr>)))))"

definition binding_from_dict :: "json \<Rightarrow> CoverageBinding res" where
  "binding_from_dict j =
     bindE (as_dict j) (\<lambda>d.
     bindE (str_get d ''type'' ''functional'') (\<lambda>type.
     bindE (str_get d ''path'' '''') (\<lambda>path.
     bindE (str_get d ''desc'' '''') (\<lambda>desc.
     Inr \<lparr>cb_type = type, cb_path = path, cb_desc = desc\<rparr>))))"

definition cp_entry_from_dict :: "json \<Rightarrow> CoverpointEntry res" where
  "cp_entry_from_dict j =
     bindE (as_dict j) (\<lambda>d.
     bindE (str_get d ''name'' '''') (\<lambda>name.
     bindE (str_get d ''desc'' '''') (\<lambda>desc.
     bindE (str_get d ''path'' '''') (\<lambda>path.
     bindE (dict_of d ''custom'') (\<lambda>custom.
     Inr \<lparr>cpe_name = name, cpe_desc = desc, cpe_path = path, cpe_custom = custom\<rparr>)))))"

definition cg_from_dict :: "json \<Rightarrow> CovergroupEntry res" where
  "cg_from_dict j =
     bindE (as_dict j) (\<lambda>d.
     bindE (str_get d ''name'' '''') (\<lambda>name.
     bindE (str_get d ''desc'' '''') (\<lambda>desc.
     bindE (bindE (list_of d ''coverpoints'') (mapE cp_entry_from_dict)) (\<lambda>cps.
     bindE (dict_of d ''custom'') (\<lambda>custom.
     Inr \<lparr>cge_name = name, cge_desc = desc, cge_coverpoints = cps, cge_custom = custom\<rparr>)))))"

definition tp_from_dict :: "json \<Rightarrow> Testpoint res" where
  "tp_from_dict j =
     bindE (as_dict j) (\<lambda>d.
     bindE (case dict_get d (lit ''name'') of None \<Rightarrow> Inl KeyError | Some v \<Rightarrow> as_str v) (\<lambda>name.
     bindE (str_get d ''stage'' '''') (\<lambda>stage.
     bindE (str_get d ''desc'' '''') (\<lambda>desc.
     bindE (strs_get d ''tests'') (\<lambda>tests.
     bindE (strs_get d ''tags'') (\<lambda>tags.
     bindE (as_bool (jget_or d ''na'' (JBool False))) (\<lambda>na.
     bindE (str_get d ''source_template'' '''') (\<lambda>source_template.
     bindE (bindE (list_of d ''requirements'') (mapE req_from_dict)) (\<lambda>requirements.
     bindE (bindE (list_of d ''coverage'') (mapE binding_from_dict)) (\<lambda>coverage.
     bindE (str_get d ''owner'' '''') (\<lambda>owner.
     bindE (str_get d ''priority'' '''') (\<lambda>priority.
     bindE (as_int (jget_or d ''weight'' (JInt 1))) (\<lambda>weight.
     bindE (dict_of d ''custom'') (\<lambda>custom.
     Inr \<lparr>tp_name = name, tp_stage = stage, tp_desc = desc, tp_tests = tests, tp_tags = tags, tp_na = na,
          tp_source_template = source_template, tp_requirements = requirements, tp_coverage = coverage,
          tp_owner = owner, tp_priority = priority, tp_weight = weight, tp_custom = custom\<rparr>))))))))))))))"


lemma list_of_smaller:
  assumes "list_of d key = Inr xs" "x \<in> set xs"
  shows "size x < Suc (size_list (size_prod (\<lambda>_. 0) size) d)"
proof (cases "dict_get d (lit key)")
  case None
  then show ?thesis using assms by (simp add: list_of_def jget_or_def as_list_def)
next
  case (Some v)
  then have v: "v = JList xs" using assms(1) by (auto simp: list_of_def jget_or_def as_list_def split: json.splits)
  have "(lit key, v) \<in> set d" using Some by (rule map_of_SomeD)
  then have "size_prod (\<lambda>_. 0) size (lit key, v) \<le> size_list (size_prod (\<lambda>_. 0) size) d" by (intro size_list_estimation') auto
  moreover have "size x \<le> size_list size xs" using assms(2) by (intro size_list_estimation') auto
  ultimately show ?thesis by (simp add: v)
qed

function goal_from_dict :: "json \<Rightarrow> Goal res" where
  "goal_from_dict j =
     (case j of
        JObj d \<Rightarrow>
          bindE (str_get d ''id'' '''') (\<lambda>gid.
          bindE (str_get d ''title'' '''') (\<lambda>title.
          bindE (str_get d ''desc'' '''') (\<lambda>desc.
          bindE (str_get d ''owner'' '''') (\<lambda>owner.
          bindE (str_get d ''priority'' '''') (\<lambda>priority.
          bindE (str_get d ''status'' '''') (\<lambda>status.
          bindE (strs_get d ''tags'') (\<lambda>tags.
          bindE (list_of d ''goals'') (\<lambda>sub.
          bindE (mapE goal_from_dict sub) (\<lambda>goals.
          bindE (bindE (list_of d ''testpoints'') (mapE tp_from_dict)) (\<lambda>testpoints.
          bindE (dict_of d ''custom'') (\<lambda>custom.
          Inr (Goal gid title desc owner priority status tags goals testpoints custom))))))))))))
      | _ \<Rightarrow> Inl TypeError)"
  by pat_completeness auto
termination
  by (relation "measure size") (auto dest: list_of_smaller)

declare goal_from_dict.simps [simp del]

definition import_from_dict :: "json \<Rightarrow> ImportEntry res" where
  "import_from_dict j =
     bindE (as_dict j) (\<lambda>d. bindE (str_get d ''path'' '''') (\<lambda>path. bindE (dict_of d ''substitutions'') (\<lambda>subs.
     Inr \<lparr>ie_path = path, ie_substitutions = subs\<rparr>)))"

definition plan_from_dict :: "json \<Rightarrow> Testplan res" where
  "plan_from_dict j =
     bindE (as_dict j) (\<lambda>d.
     bindE (as_int (jget_or d ''format_version'' (JInt 1))) (\<lambda>format_version.
     bindE (str_get d ''schema'' '''') (\<lambda>schema.
     bindE (str_get d ''name'' '''') (\<lambda>name.
     bindE (str_get d ''description'' '''') (\<lambda>description.
     bindE (str_get d ''owner'' '''') (\<lambda>owner.
     bindE (strs_get d ''tags'') (\<lambda>tags.
     bindE (dict_of d ''substitutions'') (\<lambda>substitutions.
     bindE (bindE (list_of d ''imports'') (mapE import_from_dict)) (\<lambda>imports.
     bindE (str_get d ''source_file'' '''') (\<lambda>source_file.
     bindE (str_get d ''import_timestamp'' '''') (\<lambda>import_timestamp.
     bindE (dict_of d ''custom'') (\<lambda>custom.
     bindE (bindE (list_of d ''testpoints'') (mapE tp_from_dict)) (\<lambda>testpoints.
     bindE (bindE (list_of d ''goals'') (mapE goal_from_dict)) (\<lambda>goals.
     bindE (bindE (list_of d ''covergroups'') (mapE cg_from_dict)) (\<lambda>covergroups.
     Inr \<lparr>pl_format_version = format_version, pl_schema = schema, pl_name = name, pl_description = description, pl_owner = owner,
          pl_tags = tags, pl_substitutions = substitutions, pl_imports = imports, pl_source_file = source_file,
          pl_import_timestamp = import_timestamp, pl_testpoints = testpoints, pl_goals = goals, pl_covergroups = covergroups,
          pl_custom = custom, tp_by_name = [], tp_by_test = [], indexed = False\<rparr>)))))))))))))))"

definition plan_from_bytes :: "(bytes \<Rightarrow> json res) \<Rightarrow> bytes \<Rightarrow> Testplan res" where
  "plan_from_bytes loads data = bindE (loads data) plan_from_dict"

section \<open>Testpoints and their indices\<close>

fun iter_goal :: "Goal \<Rightarrow> Testpoint list" where
  "iter_goal (Goal _ _ _ _ _ _ _ goals testpoints _) = testpoints @ concat (map iter_goal goals)"

definition iter_goal_testpoints :: "Goal list \<Rightarrow> Testpoint list" where
  "iter_goal_testpoints goals = concat (map iter_goal goals)"

definition iter_testpoints :: "Testplan \<Rightarrow> Testpoint list" where
  "iter_testpoints plan = pl_testpoints plan @ iter_goal_testpoints (pl_goals plan)"

definition build_indices :: "Testplan \<Rightarrow> Testplan" where
  "build_indices plan =
     (let (by_name, by_test) = foldl (\<lambda>(by_name, by_test) tp.
            (dict_set (tp_name tp) tp by_name, foldl (\<lambda>d t. dict_set t tp d) by_test (tp_tests tp))) ([], []) (iter_testpoints plan)
      in plan\<lparr>tp_by_name := by_name, tp_by_test := by_test, indexed := True\<rparr>)"

definition ensure_indexed :: "Testplan \<Rightarrow> Testplan" where
  "ensure_indexed plan = (if indexed plan then plan else build_indices plan)"

definition getTestpoint :: "pystr \<Rightarrow> Testplan \<Rightarrow> Testplan \<times> Testpoint option" where
  "getTestpoint name plan = (let plan = ensure_indexed plan in (plan, dict_get (tp_by_name plan) name))"

text \<open>
  \<open>re.sub(r'_\d+$', '', s)\<close>. The digits of \<open>\d\<close> are the decimal digits of Unicode, in runs of ten from these; \<open>$\<close> also matches
  before a final newline. At most one match can end there.
\<close>

definition decimal_zeros :: "nat list" where
  "decimal_zeros =
     [48, 1632, 1776, 1984, 2406, 2534, 2662, 2790, 2918, 3046, 3174, 3302, 3430, 3558, 3664, 3792, 3872, 4160, 4240, 6112, 6160,
      6470, 6608, 6784, 6800, 6992, 7088, 7232, 7248, 42528, 43216, 43264, 43472, 43504, 43600, 44016, 65296, 66720, 68912, 69734,
      69872, 69942, 70096, 70384, 70736, 70864, 71248, 71360, 71472, 71904, 72016, 72784, 73040, 73120, 92768, 92864, 93008,
      120782, 120792, 120802, 120812, 120822, 123200, 123632, 125264, 130032]"

definition is_decimal :: "nat \<Rightarrow> bool" where
  "is_decimal c = list_ex (\<lambda>z. z \<le> c \<and> c < z + 10) decimal_zeros"

definition strip_seed :: "pystr \<Rightarrow> pystr" where
  "strip_seed s =
     (let tail = (if s \<noteq> [] \<and> last s = 10 then [10] else []);
          body = take (length s - length tail) s;
          digits = takeWhile is_decimal (rev body);
          rest = drop (length digits) (rev body)
      in if digits \<noteq> [] \<and> rest \<noteq> [] \<and> hd rest = 95 then rev (tl rest) @ tail else s)"

definition wildcard :: "pystr \<Rightarrow> pystr \<Rightarrow> bool" where
  "wildcard pattern name \<longleftrightarrow> endswith pattern (lit ''_*'') \<and> startswith name (str_but 1 pattern)"

definition owner_of :: "(pystr \<times> Testpoint) list \<Rightarrow> pystr \<Rightarrow> Testpoint option" where
  "owner_of by_test test_name =
     (case dict_get by_test test_name of
        Some tp \<Rightarrow> Some tp
      | None \<Rightarrow>
          let stripped = strip_seed test_name in
          case (if stripped \<noteq> test_name then dict_get by_test stripped else None) of
            Some tp \<Rightarrow> Some tp
          | None \<Rightarrow> map_option snd (List.find (\<lambda>(pattern, candidate). wildcard pattern test_name) by_test))"

definition testpointForTest :: "pystr \<Rightarrow> Testplan \<Rightarrow> Testplan \<times> Testpoint option" where
  "testpointForTest test_name plan = (let plan = ensure_indexed plan in (plan, owner_of (tp_by_test plan) test_name))"

definition testpointsForStage :: "pystr \<Rightarrow> Testplan \<Rightarrow> Testpoint list" where
  "testpointsForStage stage plan = filter (\<lambda>tp. tp_stage tp = stage) (iter_testpoints plan)"

definition STAGE_ORDER :: "(pystr \<times> int) list" where
  "STAGE_ORDER = [(lit ''V1'', 0), (lit ''V2'', 1), (lit ''V2S'', 2), (lit ''V3'', 3)]"

definition stage_rank :: "pystr \<Rightarrow> int" where
  "stage_rank s = (case dict_get STAGE_ORDER s of None \<Rightarrow> 99 | Some r \<Rightarrow> r)"

definition stages :: "Testplan \<Rightarrow> pystr list" where
  "stages plan =
     sort_key stage_rank (dict_keys (foldl (\<lambda>d tp. dict_set (tp_stage tp) () d) [] (iter_testpoints plan)))"

definition add_testpoint :: "Testpoint \<Rightarrow> Testplan \<Rightarrow> Testplan" where
  "add_testpoint tp plan = plan\<lparr>pl_testpoints := pl_testpoints plan @ [tp], indexed := False\<rparr>"

end
