(* ===== verification/Closure.thy ===== *)
theory Closure
  imports Testplan TestRegistry TestStats HistoryNodes
begin

text \<open>
  Testplan closure, from \<open>ncdb/testplan_closure.py\<close>: the status of each testpoint against the runs of a database, and the gate of a
  verification stage. Of the database the code reads the registry and statistics, or else its test nodes, and the optional methods
  \<open>coverageItems\<close> and \<open>getCoveragePercent\<close>, which no database of the repository has (then the list is empty and the function has no
  value). \<open>fnmatch\<close>, only used with \<open>coverageItems\<close>, is a parameter.
\<close>

section \<open>Results\<close>

datatype TPStatus = CLOSED | PARTIAL | FAILING | NOT_RUN | NA | UNIMPLEMENTED

record CoverageResult =
  cr_binding_type :: pystr
  cr_path_pattern :: pystr
  cr_matched_paths :: "pystr list"
  cr_coverage_pct :: "rat option"

record TestpointResult =
  tr_testpoint :: Testpoint
  tr_status :: TPStatus
  tr_matched_tests :: "pystr list"
  tr_pass_count :: int
  tr_fail_count :: int
  tr_coverage_results :: "CoverageResult list"

record closure_db =
  db_history :: "(TestRegistry \<times> TestStatsEntry list) option"
  db_test_nodes :: "(pystr \<times> status_value) list"
  db_coverage_items :: "pystr list"
  db_coverage_percent :: "pystr \<Rightarrow> rat option"

section \<open>Coverage bindings\<close>

definition resolve_binding :: "(pystr \<Rightarrow> pystr \<Rightarrow> bool) \<Rightarrow> closure_db \<Rightarrow> CoverageBinding \<Rightarrow> CoverageResult" where
  "resolve_binding fnmatch db binding =
     (let pattern = cb_path binding;
          is_glob = list_ex (\<lambda>c. c \<in> set pattern) [42, 63, 91];
          matched = (if is_glob \<and> db_coverage_items db \<noteq> [] then filter (\<lambda>p. fnmatch p pattern) (db_coverage_items db)
                     else if \<not> is_glob then [pattern] else [])
      in \<lparr>cr_binding_type = cb_type binding, cr_path_pattern = pattern, cr_matched_paths = matched,
          cr_coverage_pct = (case matched of [] \<Rightarrow> None | p # _ \<Rightarrow> db_coverage_percent db p)\<rparr>)"

definition compute_coverage_binding :: "(pystr \<Rightarrow> pystr \<Rightarrow> bool) \<Rightarrow> Testpoint \<Rightarrow> closure_db \<Rightarrow> CoverageResult list" where
  "compute_coverage_binding fnmatch tp db = map (resolve_binding fnmatch db) (tp_coverage tp)"

section \<open>Runs per test\<close>

type_synonym tally = "(pystr \<times> int) list"

definition tally_of :: "tally \<Rightarrow> pystr \<Rightarrow> int" where
  "tally_of d name = (case dict_get d name of None \<Rightarrow> 0 | Some n \<Rightarrow> n)"

definition bump :: "pystr \<Rightarrow> tally \<Rightarrow> tally" where
  "bump name d = dict_set name (tally_of d name + 1) d"

definition tally_step :: "TestStatsEntry list \<Rightarrow> tally \<times> tally \<Rightarrow> nat \<times> pystr \<Rightarrow> tally \<times> tally" where
  "tally_step stats = (\<lambda>(test_pass, test_fail) (nid, name).
     case stats_get stats nid of
       None \<Rightarrow> (test_pass, test_fail)
     | Some entry \<Rightarrow> (dict_set name (se_pass_count entry) test_pass, dict_set name (se_fail_count entry) test_fail))"

definition history_tally :: "TestRegistry \<Rightarrow> TestStatsEntry list \<Rightarrow> tally \<times> tally" where
  "history_tally reg stats = foldl (tally_step stats) ([], []) (enumerate 0 (reg_names reg))"

text \<open>\<open>status == TestStatusT.OK\<close>; a stored \<open>True\<close> equals the enumeration's 1.\<close>

definition node_tally :: "(pystr \<times> status_value) list \<Rightarrow> tally \<times> tally" where
  "node_tally nodes =
     foldl (\<lambda>(test_pass, test_fail) (name, status).
        if status = SV TS_OK \<or> status = SV_bool True then (bump name test_pass, test_fail) else (test_pass, bump name test_fail))
       ([], []) nodes"

definition run_tally :: "closure_db \<Rightarrow> tally \<times> tally" where
  "run_tally db = (case db_history db of Some (reg, stats) \<Rightarrow> history_tally reg stats | None \<Rightarrow> node_tally (db_test_nodes db))"

section \<open>Closure\<close>

type_synonym matches = "pystr list \<times> int \<times> int"

definition known :: "tally \<times> tally \<Rightarrow> pystr \<Rightarrow> bool" where
  "known t name \<longleftrightarrow> name \<in> set (dict_keys (fst t)) \<or> name \<in> set (dict_keys (snd t))"

definition take_test :: "tally \<times> tally \<Rightarrow> pystr \<Rightarrow> matches \<Rightarrow> matches" where
  "take_test t name = (\<lambda>(matched, passes, fails). (matched @ [name], passes + tally_of (fst t) name, fails + tally_of (snd t) name))"

definition match_pattern :: "tally \<times> tally \<Rightarrow> matches \<Rightarrow> pystr \<Rightarrow> matches" where
  "match_pattern t m pattern =
     (if known t pattern then take_test t pattern m
      else
        let stripped = strip_seed pattern in
        if stripped \<noteq> pattern \<and> known t stripped then take_test t stripped m
        else if endswith pattern (lit ''_*'') then
          let prefix = str_but 1 pattern in
          foldl (\<lambda>m tname. if startswith tname prefix \<and> tname \<notin> set (fst m) then take_test t tname m else m) m
            (dict_keys (fst t) @ filter (\<lambda>n. n \<notin> set (dict_keys (fst t))) (dict_keys (snd t)))
        else m)"

definition classify :: "matches \<Rightarrow> TPStatus" where
  "classify = (\<lambda>(matched, passes, fails).
     if matched = [] then NOT_RUN else if fails = 0 then CLOSED else if passes = 0 then FAILING else PARTIAL)"

definition testpoint_result :: "(pystr \<Rightarrow> pystr \<Rightarrow> bool) \<Rightarrow> closure_db \<Rightarrow> tally \<times> tally \<Rightarrow> Testpoint \<Rightarrow> TestpointResult" where
  "testpoint_result fnmatch db t tp =
     (if tp_na tp then \<lparr>tr_testpoint = tp, tr_status = NA, tr_matched_tests = [], tr_pass_count = 0, tr_fail_count = 0, tr_coverage_results = []\<rparr>
      else if tp_tests tp = [] then
        \<lparr>tr_testpoint = tp, tr_status = UNIMPLEMENTED, tr_matched_tests = [], tr_pass_count = 0, tr_fail_count = 0, tr_coverage_results = []\<rparr>
      else
        let m = foldl (match_pattern t) ([], 0, 0) (tp_tests tp); (matched, passes, fails) = m in
        \<lparr>tr_testpoint = tp, tr_status = classify m, tr_matched_tests = matched, tr_pass_count = passes, tr_fail_count = fails,
         tr_coverage_results = compute_coverage_binding fnmatch tp db\<rparr>)"

definition compute_closure :: "(pystr \<Rightarrow> pystr \<Rightarrow> bool) \<Rightarrow> Testplan \<Rightarrow> closure_db \<Rightarrow> TestpointResult list" where
  "compute_closure fnmatch plan db = map (testpoint_result fnmatch db (run_tally db)) (iter_testpoints plan)"

section \<open>Stage gates\<close>

record gate_result =
  gr_passed :: bool
  gr_stage :: pystr
  gr_blocking :: "TestpointResult list"
  gr_message :: pystr

definition stages_required :: "Testplan \<Rightarrow> pystr \<Rightarrow> pystr set" where
  "stages_required plan stage = {s \<in> set (stages plan). stage_rank s \<le> stage_rank stage}"

definition gate_message :: "pystr \<Rightarrow> TestpointResult list \<Rightarrow> pystr" where
  "gate_message stage blocking =
     (if blocking = [] then lit ''Stage '' @ stage @ lit '' gate PASSED''
      else lit ''Stage '' @ stage @ lit '' gate FAILED '' @ [8212] @ lit '' blocking: '' @
        str_join (lit '', '') (map (\<lambda>r. tp_name (tr_testpoint r)) (take 5 blocking)) @
        (if length blocking > 5 then lit '' (+'' @ str_nat (length blocking - 5) @ lit '' more)'' else []))"

definition stage_gate_status :: "TestpointResult list \<Rightarrow> pystr \<Rightarrow> Testplan \<Rightarrow> bool \<Rightarrow> gate_result" where
  "stage_gate_status results stage plan require_goals_closed =
     (let blocking = filter (\<lambda>r. \<not> (\<not> require_goals_closed \<and> tp_stage (tr_testpoint r) \<notin> stages_required plan stage)
                              \<and> tr_status r \<notin> {CLOSED, NA, UNIMPLEMENTED}) results
      in \<lparr>gr_passed = (blocking = []), gr_stage = stage, gr_blocking = blocking, gr_message = gate_message stage blocking\<rparr>)"

end
