(* ===== verification/TestplanSpec.thy ===== *)
theory TestplanSpec
  imports Testplan
begin

text \<open>
  What a testplan promises: its JSON form reads back, its indices answer like a search of the testpoints, also after a testpoint
  was added, and the ways a test finds its testpoint.
\<close>

section \<open>The JSON form\<close>

lemma as_simps [simp]:
  "as_str (JStr s) = Inr s" "as_int (JInt i) = Inr i" "as_bool (JBool b) = Inr b" "as_dict (JObj d) = Inr d" "as_list (JList xs) = Inr xs"
  by (simp_all add: as_str_def as_int_def as_bool_def as_dict_def as_list_def)

lemma mapE_inverse: "(\<And>x. x \<in> set xs \<Longrightarrow> f (g x) = Inr x) \<Longrightarrow> mapE f (map g xs) = Inr xs"
  by (induction xs) simp_all

lemma as_strs_jstrs [simp]: "as_strs (jstrs ss) = Inr ss"
  by (simp add: as_strs_def jstrs_def mapE_inverse)

lemmas field_defs = str_get_def strs_get_def dict_of_def list_of_def jget_or_def

lemma req_back [simp]: "req_from_dict (req_to_dict r) = Inr r"
  by (simp add: req_from_dict_def req_to_dict_def field_defs)

lemma binding_back [simp]: "binding_from_dict (binding_to_dict b) = Inr b"
  by (simp add: binding_from_dict_def binding_to_dict_def field_defs)

lemma cp_entry_back [simp]: "cp_entry_from_dict (cp_entry_to_dict c) = Inr c"
  by (simp add: cp_entry_from_dict_def cp_entry_to_dict_def field_defs)

lemma cg_back [simp]: "cg_from_dict (cg_to_dict c) = Inr c"
  by (simp add: cg_from_dict_def cg_to_dict_def field_defs mapE_inverse)

lemma tp_back [simp]: "tp_from_dict (tp_to_dict tp) = Inr tp"
  by (simp add: tp_from_dict_def tp_to_dict_def field_defs mapE_inverse)

lemma import_back [simp]: "import_from_dict (import_to_dict i) = Inr i"
  by (simp add: import_from_dict_def import_to_dict_def field_defs)

lemma goal_back [simp]: "goal_from_dict (goal_to_dict g) = Inr g"
proof (induction g)
  case (Goal gid title desc owner priority status tags goals testpoints custom)
  have "mapE goal_from_dict (map goal_to_dict goals) = Inr goals" using Goal by (intro mapE_inverse) simp
  then show ?case by (subst goal_from_dict.simps) (simp add: field_defs mapE_inverse)
qed

lemma plan_back: "plan_from_dict (plan_to_dict p) = Inr (p\<lparr>tp_by_name := [], tp_by_test := [], indexed := False\<rparr>)"
  by (simp add: plan_from_dict_def plan_to_dict_def field_defs mapE_inverse)

text \<open>
  C40 (roundtrip). A testplan, with goals nested to any depth, is read back from its JSON bytes unchanged; only the indices, which
  are not stored, are dropped and built anew.
\<close>

theorem testplan_roundtrip:
  assumes "loads (dumps (plan_to_dict plan)) = Inr (plan_to_dict plan)"
  shows "plan_from_bytes loads (plan_serialize dumps plan) = Inr (plan\<lparr>tp_by_name := [], tp_by_test := [], indexed := False\<rparr>)"
  using assms by (simp add: plan_from_bytes_def plan_serialize_def plan_back)

definition x_point :: "char list \<Rightarrow> char list \<Rightarrow> char list list \<Rightarrow> Testpoint" where
  "x_point name stage tests = \<lparr>tp_name = lit name, tp_stage = lit stage, tp_desc = [], tp_tests = map lit tests, tp_tags = [], tp_na = False,
     tp_source_template = [], tp_requirements = [], tp_coverage = [], tp_owner = [], tp_priority = [], tp_weight = 1, tp_custom = []\<rparr>"

definition x_plan :: Testplan where
  "x_plan = \<lparr>pl_format_version = 1, pl_schema = [], pl_name = lit ''uart'', pl_description = [], pl_owner = [], pl_tags = [],
     pl_substitutions = [], pl_imports = [], pl_source_file = [], pl_import_timestamp = [], pl_testpoints = [x_point ''smoke'' ''V1'' [''uart_smoke'']],
     pl_goals = [Goal (lit ''g'') [] [] [] [] [] [] [Goal (lit ''h'') [] [] [] [] [] [] [] [x_point ''deep'' ''V2'' [''uart_fifo_*'']] []] [] []],
     pl_covergroups = [], pl_custom = [], tp_by_name = [], tp_by_test = [], indexed = False\<rparr>"

lemma testplan_roundtrip_witness:
  "plan_from_bytes (\<lambda>_. Inr (plan_to_dict x_plan)) (plan_serialize (\<lambda>_. [1]) x_plan) = Inr x_plan"
proof -
  have "(\<lambda>_. Inr (plan_to_dict x_plan)) ((\<lambda>_. [1]) (plan_to_dict x_plan)) = (Inr (plan_to_dict x_plan) :: json res)" by simp
  from testplan_roundtrip[of "\<lambda>_. Inr (plan_to_dict x_plan)" "\<lambda>_. [1]" x_plan] show ?thesis by (simp add: x_plan_def)
qed

section \<open>Indices\<close>

text \<open>The entries that a build sets, in order.\<close>

definition test_entries :: "Testpoint list \<Rightarrow> (pystr \<times> Testpoint) list" where
  "test_entries tps = concat (map (\<lambda>tp. map (\<lambda>t. (t, tp)) (tp_tests tp)) tps)"

lemma tests_fold: "foldl (\<lambda>d t. dict_set t tp d) d ts = dict_update d (map (\<lambda>t. (t, tp)) ts)"
  by (induction ts arbitrary: d) (simp_all add: dict_update_def)

lemma dict_update_append: "dict_update d (xs @ ys) = dict_update (dict_update d xs) ys"
  by (simp add: dict_update_def)

lemma build_indices_eq:
  "build_indices plan = plan\<lparr>tp_by_name := dict_update [] (map (\<lambda>tp. (tp_name tp, tp)) (iter_testpoints plan)),
     tp_by_test := dict_update [] (test_entries (iter_testpoints plan)), indexed := True\<rparr>"
proof -
  have "foldl (\<lambda>(by_name, by_test) tp. (dict_set (tp_name tp) tp by_name, foldl (\<lambda>d t. dict_set t tp d) by_test (tp_tests tp))) (a, b) tps =
     (dict_update a (map (\<lambda>tp. (tp_name tp, tp)) tps), dict_update b (test_entries tps))" for a b tps
    by (induction tps arbitrary: a b) (simp_all add: test_entries_def tests_fold dict_update_append, simp_all add: dict_update_def)
  then show ?thesis by (simp add: build_indices_def)
qed

lemma dict_update_last: "dict_get (dict_update [] kvs) k = map_of (rev kvs) k"
proof -
  have "dict_get (dict_update d kvs) k = (case map_of (rev kvs) k of None \<Rightarrow> dict_get d k | Some v \<Rightarrow> Some v)" for d
    by (induction kvs arbitrary: d) (auto simp: dict_update_def dict_get_set map_add_def split: option.splits)
  then show ?thesis by (simp split: option.split)
qed

definition index_ok :: "Testplan \<Rightarrow> bool" where
  "index_ok plan \<longleftrightarrow> (indexed plan \<longrightarrow> build_indices plan = plan)"

inductive plan_reachable :: "Testplan \<Rightarrow> bool" where
  read: "plan_from_dict j = Inr p \<Longrightarrow> plan_reachable p"
| add: "plan_reachable p \<Longrightarrow> plan_reachable (add_testpoint tp p)"
| by_name: "plan_reachable p \<Longrightarrow> plan_reachable (fst (getTestpoint name p))"
| by_test: "plan_reachable p \<Longrightarrow> plan_reachable (fst (testpointForTest test p))"

lemma iter_indices [simp]: "iter_testpoints (build_indices p) = iter_testpoints p" "iter_testpoints (ensure_indexed p) = iter_testpoints p"
  by (simp_all add: build_indices_eq ensure_indexed_def iter_testpoints_def)

lemma rebuilt: "build_indices (build_indices p) = build_indices p"
  by (simp add: build_indices_eq[of "build_indices p"]) (simp add: build_indices_eq)

lemma reachable_index: "plan_reachable p \<Longrightarrow> index_ok p"
proof (induction rule: plan_reachable.induct)
  case (read j p)
  then have "\<not> indexed p" by (auto simp: plan_from_dict_def elim!: bindE_InrE)
  then show ?case by (simp add: index_ok_def)
qed (auto simp: index_ok_def add_testpoint_def getTestpoint_def testpointForTest_def ensure_indexed_def rebuilt Let_def)

lemma ensured: "index_ok p \<Longrightarrow> ensure_indexed p = build_indices p"
  by (auto simp: ensure_indexed_def index_ok_def)

lemma last_of_name: "map_of (rev (map (\<lambda>tp. (tp_name tp, tp)) tps)) name = (case filter (\<lambda>tp. tp_name tp = name) tps of [] \<Rightarrow> None | tp # tps' \<Rightarrow> Some (last (tp # tps')))"
  by (induction tps) (auto simp: map_add_def split: list.splits option.splits)

text \<open>
  Whatever lookups and additions came before, a lookup by name answers like a search of all testpoints, nested ones
  included: the last of that name; and it leaves the testpoints alone.
\<close>

theorem testpoint_by_name:
  assumes "plan_reachable plan"
  shows "snd (getTestpoint name plan) = (case filter (\<lambda>tp. tp_name tp = name) (iter_testpoints plan) of [] \<Rightarrow> None | tp # tps \<Rightarrow> Some (last (tp # tps))) \<and>
    iter_testpoints (fst (getTestpoint name plan)) = iter_testpoints plan"
  using ensured[OF reachable_index[OF assms]]
  by (simp add: getTestpoint_def Let_def) (simp add: build_indices_eq dict_update_last last_of_name)

lemma testpoint_by_name_witness:
  "snd (getTestpoint (lit ''deep'') (fst (getTestpoint [] (add_testpoint (x_point ''deep'' ''V3'' []) x_plan)))) = Some (x_point ''deep'' ''V2'' [''uart_fifo_*''])"
proof -
  have "plan_from_dict (plan_to_dict x_plan) = Inr x_plan" by (simp add: plan_back x_plan_def)
  then have "plan_reachable (fst (getTestpoint [] (add_testpoint (x_point ''deep'' ''V3'' []) x_plan)))" by (intro plan_reachable.intros)
  from testpoint_by_name[OF this, of "lit ''deep''"] show ?thesis
    by (simp add: getTestpoint_def Let_def) (simp add: add_testpoint_def iter_testpoints_def iter_goal_testpoints_def x_plan_def x_point_def)
qed

text \<open>The last testpoint that lists a test.\<close>

definition latest :: "Testpoint list \<Rightarrow> pystr \<Rightarrow> Testpoint option" where
  "latest tps t = (case filter (\<lambda>tp. t \<in> set (tp_tests tp)) tps of [] \<Rightarrow> None | tp # tps' \<Rightarrow> Some (last (tp # tps')))"

lemma map_of_same: "map_of (map (\<lambda>t. (t, x)) ts) t = (if t \<in> set ts then Some x else None)"
  by (induction ts) auto

lemma latest_entries: "map_of (rev (test_entries tps)) t = latest tps t"
proof (induction tps)
  case (Cons tp tps)
  have "map_of (rev (map (\<lambda>t. (t, tp)) (tp_tests tp))) t = (if t \<in> set (tp_tests tp) then Some tp else None)"
    using map_of_same[of tp "rev (tp_tests tp)" t] by (simp add: rev_map)
  with Cons show ?case by (auto simp: test_entries_def latest_def map_add_def split: list.splits option.splits)
qed (simp add: test_entries_def latest_def)

lemma find_append: "List.find P (xs @ ys) = (case List.find P xs of None \<Rightarrow> List.find P ys | Some x \<Rightarrow> Some x)"
  by (induction xs) auto

lemma find_key:
  fixes kvs :: "('k \<times> 'v) list"
  shows "map_option snd (List.find (\<lambda>(k, v). P k) (dict_update [] kvs)) = (case List.find P (map fst kvs) of None \<Rightarrow> None | Some k \<Rightarrow> dict_get (dict_update [] kvs) k)"
proof -
  let ?d = "dict_update [] kvs"
  have keys: "List.find P (dict_keys (dict_update [] kvs)) = List.find P (map fst kvs) \<and> set (dict_keys (dict_update [] kvs)) = set (map fst kvs)
      \<and> distinct (dict_keys (dict_update [] kvs))"
  proof (induction kvs rule: rev_induct)
    case (snoc kv kvs)
    let ?u = "dict_update [] kvs"
    have u: "dict_update [] (kvs @ [kv]) = dict_set (fst kv) (snd kv) ?u" by (simp add: dict_update_def)
    have "\<not> P (fst kv)" if "fst kv \<in> set (map fst kvs)" "List.find P (map fst kvs) = None" using that by (auto simp: find_None_iff)
    then show ?case using snoc unfolding u dict_keys_set
      by (auto simp: find_append distinct_update split: option.split)
  qed (simp add: dict_update_def)
  have "map_option snd (List.find (\<lambda>(k, v). P k) d) = (case List.find P (dict_keys d) of None \<Rightarrow> None | Some k \<Rightarrow> dict_get d k)"
    if "distinct (dict_keys d)" for d :: "('k \<times> 'v) list"
    using that
  proof (induction d)
    case (Cons p d)
    obtain a b where p: "p = (a, b)" by (cases p)
    have "k \<noteq> a" if "List.find P (dict_keys d) = Some k" for k
    proof -
      have "k \<in> set (dict_keys d)" using that by (auto simp: find_Some_iff)
      then show ?thesis using Cons.prems by (auto simp: p)
    qed
    with Cons show ?case by (auto simp: p split: option.split)
  qed simp
  from this[of ?d] keys show ?thesis by simp
qed

text \<open>
  A test finds, in this order: the last testpoint that lists it; the last that lists it without a trailing seed
  number; the last that lists the first pattern \<open>prefix_*\<close> of the plan its name begins with. Otherwise none. Earlier lookups and
  additions do not matter.
\<close>

theorem testpoint_for_test:
  assumes "plan_reachable plan"
  shows "snd (testpointForTest test plan) =
    (let tps = iter_testpoints plan in
     case latest tps test of
       Some tp \<Rightarrow> Some tp
     | None \<Rightarrow>
         (case (if strip_seed test \<noteq> test then latest tps (strip_seed test) else None) of
            Some tp \<Rightarrow> Some tp
          | None \<Rightarrow> (case List.find (\<lambda>pattern. wildcard pattern test) (concat (map tp_tests tps)) of None \<Rightarrow> None | Some pattern \<Rightarrow> latest tps pattern)))"
proof -
  let ?tps = "iter_testpoints plan" and ?d = "dict_update [] (test_entries (iter_testpoints plan))"
  have g: "dict_get ?d t = latest ?tps t" for t unfolding dict_update_last latest_entries ..
  have k: "map fst (test_entries ?tps) = concat (map tp_tests ?tps)" by (simp add: test_entries_def map_concat comp_def)
  have t: "tp_by_test (build_indices plan) = ?d" by (simp add: build_indices_eq)
  have w: "map_option snd (List.find (\<lambda>(pattern, candidate). wildcard pattern test) ?d) =
      (case List.find (\<lambda>pattern. wildcard pattern test) (concat (map tp_tests ?tps)) of None \<Rightarrow> None | Some pattern \<Rightarrow> latest ?tps pattern)"
    using find_key[of "\<lambda>pattern. wildcard pattern test" "test_entries ?tps"] unfolding k g .
  show ?thesis unfolding testpointForTest_def Let_def snd_conv ensured[OF reachable_index[OF assms]] t owner_of_def g w ..
qed

lemma testpoint_for_test_witness:
  "snd (testpointForTest (lit ''uart_smoke_42'') x_plan) = Some (x_point ''smoke'' ''V1'' [''uart_smoke'']) \<and>
   snd (testpointForTest (lit ''uart_fifo_full'') x_plan) = Some (x_point ''deep'' ''V2'' [''uart_fifo_*''])"
proof -
  have "plan_from_dict (plan_to_dict x_plan) = Inr x_plan" by (simp add: plan_back x_plan_def)
  then have r: "plan_reachable x_plan" by (rule plan_reachable.intros)
  have s: "strip_seed (lit ''uart_smoke_42'') = lit ''uart_smoke''" "strip_seed (lit ''uart_fifo_full'') = lit ''uart_fifo_full''"
    by (simp_all add: strip_seed_def lit_def is_decimal_def decimal_zeros_def)
  have i: "iter_testpoints x_plan = [x_point ''smoke'' ''V1'' [''uart_smoke''], x_point ''deep'' ''V2'' [''uart_fifo_*'']]"
    by (simp add: iter_testpoints_def iter_goal_testpoints_def x_plan_def)
  have t: "tp_tests (x_point n st ts) = map lit ts" for n st ts by (simp add: x_point_def)
  have w: "wildcard (lit ''uart_fifo_*'') (lit ''uart_fifo_full'')" "\<not> wildcard (lit ''uart_smoke'') (lit ''uart_fifo_full'')"
    by (simp_all add: wildcard_def endswith_def startswith_def str_but_def lit_def)
  show ?thesis using testpoint_for_test[OF r, of "lit ''uart_smoke_42''"] testpoint_for_test[OF r, of "lit ''uart_fifo_full''"]
    by (simp add: s i t latest_def w)
qed

end
