(* ===== verification/ClosureSpec.thy ===== *)
theory ClosureSpec
  imports Closure TestplanSpec TestStatsSpec
begin

text \<open>
  What closure promises: the status of a testpoint says which of the tests it covers have passed and failed, a gate holds exactly when
  no covered test of its stages has failed and each implemented testpoint has been run; and which runs it overlooks.
\<close>

section \<open>What a pattern covers\<close>

definition covers :: "tally \<times> tally \<Rightarrow> pystr \<Rightarrow> pystr \<Rightarrow> bool" where
  "covers t pattern name \<longleftrightarrow> known t name \<and>
     (if known t pattern then name = pattern
      else if strip_seed pattern \<noteq> pattern \<and> known t (strip_seed pattern) then name = strip_seed pattern
      else wildcard pattern name)"

definition tallied :: "tally \<times> tally \<Rightarrow> matches \<Rightarrow> bool" where
  "tallied t m \<longleftrightarrow> fst (snd m) = sum_list (map (tally_of (fst t)) (fst m)) \<and> snd (snd m) = sum_list (map (tally_of (snd t)) (fst m))"

lemma take_test_facts [simp]: "fst (take_test t n m) = fst m @ [n]" "tallied t m \<Longrightarrow> tallied t (take_test t n m)"
  by (simp_all add: take_test_def tallied_def split_beta)

lemma wild_fold:
  "tallied t m \<Longrightarrow>
   tallied t (foldl (\<lambda>m tname. if startswith tname prefix \<and> tname \<notin> set (fst m) then take_test t tname m else m) m ns) \<and>
   set (fst (foldl (\<lambda>m tname. if startswith tname prefix \<and> tname \<notin> set (fst m) then take_test t tname m else m) m ns)) =
     set (fst m) \<union> {n \<in> set ns. startswith n prefix}"
proof (induction ns arbitrary: m)
  case (Cons n ns)
  let ?m = "if startswith n prefix \<and> n \<notin> set (fst m) then take_test t n m else m"
  have "tallied t ?m" "set (fst ?m) = set (fst m) \<union> {x. x = n \<and> startswith n prefix}" using Cons.prems by auto
  with Cons.IH[of ?m] show ?case by auto
qed simp

lemma match_pattern_facts:
  assumes "tallied t m"
  shows "tallied t (match_pattern t m pattern)" "set (fst (match_pattern t m pattern)) = set (fst m) \<union> {n. covers t pattern n}"
  using assms wild_fold[OF assms, of "str_but 1 pattern" "dict_keys (fst t) @ filter (\<lambda>n. n \<notin> set (dict_keys (fst t))) (dict_keys (snd t))"]
  by (auto simp: match_pattern_def covers_def wildcard_def Let_def known_def)

lemma match_all:
  "tallied t m \<Longrightarrow> tallied t (foldl (match_pattern t) m ps) \<and>
   set (fst (foldl (match_pattern t) m ps)) = set (fst m) \<union> {n. \<exists>p\<in>set ps. covers t p n}"
proof (induction ps arbitrary: m)
  case (Cons p ps)
  with Cons.IH[of "match_pattern t m p"] match_pattern_facts[OF Cons.prems, of p] show ?case by auto
qed simp

section \<open>Statuses\<close>

definition nonneg :: "tally \<Rightarrow> bool" where "nonneg d \<longleftrightarrow> (\<forall>n\<in>snd ` set d. 0 \<le> n)"

lemma tally_nonneg: "nonneg d \<Longrightarrow> 0 \<le> tally_of d name"
  by (cases "dict_get d name") (use map_of_SomeD[of d name] in \<open>force simp: nonneg_def tally_of_def\<close>)+

text \<open>The status that the covered tests give a testpoint.\<close>

definition expected_status :: "tally \<times> tally \<Rightarrow> Testpoint \<Rightarrow> TPStatus" where
  "expected_status t tp =
     (let tests = {n. \<exists>p\<in>set (tp_tests tp). covers t p n} in
      if tp_na tp then NA
      else if tp_tests tp = [] then UNIMPLEMENTED
      else if tests = {} then NOT_RUN
      else if \<forall>n\<in>tests. tally_of (snd t) n = 0 then CLOSED
      else if \<forall>n\<in>tests. tally_of (fst t) n = 0 then FAILING
      else PARTIAL)"

lemma sum_zero: "\<forall>n\<in>set ns. 0 \<le> f n \<Longrightarrow> sum_list (map f ns) = (0::int) \<longleftrightarrow> (\<forall>n\<in>set ns. f n = 0)"
  using sum_list_nonneg_eq_0_iff[of "map f ns"] by auto

lemma status_expected:
  assumes "nonneg (fst t)" "nonneg (snd t)"
  shows "tr_status (testpoint_result fnmatch db t tp) = expected_status t tp"
proof (cases "tp_na tp \<or> tp_tests tp = []")
  case True
  then show ?thesis by (auto simp: testpoint_result_def expected_status_def)
next
  case False
  let ?m = "foldl (match_pattern t) ([], 0, 0) (tp_tests tp)"
  define T where "T = {n. \<exists>p\<in>set (tp_tests tp). covers t p n}"
  have "tallied t ([], 0, 0)" by (simp add: tallied_def)
  from match_all[OF this, of "tp_tests tp"] have m: "tallied t ?m" "set (fst ?m) = T" by (simp_all add: T_def)
  have "fst (snd ?m) = 0 \<longleftrightarrow> (\<forall>n\<in>T. tally_of (fst t) n = 0)" "snd (snd ?m) = 0 \<longleftrightarrow> (\<forall>n\<in>T. tally_of (snd t) n = 0)"
    using m(1) tally_nonneg[OF assms(1)] tally_nonneg[OF assms(2)] unfolding m(2)[symmetric] tallied_def by (simp_all add: sum_zero)
  moreover have "fst ?m = [] \<longleftrightarrow> T = {}" using m(2) by (metis set_empty)
  moreover have "tr_status (testpoint_result fnmatch db t tp) = classify ?m" using False by (simp add: testpoint_result_def Let_def split_beta)
  moreover have "expected_status t tp =
      (if T = {} then NOT_RUN else if \<forall>n\<in>T. tally_of (snd t) n = 0 then CLOSED else if \<forall>n\<in>T. tally_of (fst t) n = 0 then FAILING else PARTIAL)"
    using False unfolding expected_status_def T_def[symmetric] Let_def by simp
  ultimately show ?thesis by (simp add: classify_def split_beta)
qed

text \<open>
  C15 (functional). Closure has one result per testpoint, in plan order, nested goals included; its status is \<open>N/A\<close> or unimplemented if
  so declared, otherwise decided by the tests its patterns cover: not run if they cover none, closed if none of them has failed,
  failing if none has passed, else partial. A test listed twice is counted twice, but that never changes the status.
\<close>

theorem closure_statuses:
  assumes "nonneg (fst (run_tally db))" "nonneg (snd (run_tally db))"
  shows "map tr_testpoint (compute_closure fnmatch plan db) = iter_testpoints plan \<and>
    map tr_status (compute_closure fnmatch plan db) = map (expected_status (run_tally db)) (iter_testpoints plan)"
proof -
  have "tr_testpoint (testpoint_result fnmatch db t tp) = tp" for t tp by (simp add: testpoint_result_def Let_def split_beta)
  then show ?thesis by (simp add: compute_closure_def comp_def status_expected[OF assms])
qed


definition x_db :: closure_db where
  "x_db = \<lparr>db_history = None, db_test_nodes = [(lit ''uart_smoke'', SV TS_OK), (lit ''uart_fifo_full'', SV TS_ERROR), (lit ''uart_fifo_full'', SV_bool True)],
     db_coverage_items = [], db_coverage_percent = (\<lambda>_. None)\<rparr>"

lemma x_tally: "run_tally x_db = ([(lit ''uart_smoke'', 1), (lit ''uart_fifo_full'', 1)], [(lit ''uart_fifo_full'', 1)])"
  by (simp add: run_tally_def x_db_def node_tally_def bump_def tally_of_def)

lemma x_iter: "iter_testpoints x_plan = [x_point ''smoke'' ''V1'' [''uart_smoke''], x_point ''deep'' ''V2'' [''uart_fifo_*'']]"
  by (simp add: iter_testpoints_def iter_goal_testpoints_def x_plan_def)

lemma x_covers:
  "covers (run_tally x_db) (lit ''uart_smoke'') n \<longleftrightarrow> n = lit ''uart_smoke''"
  "covers (run_tally x_db) (lit ''uart_fifo_*'') n \<longleftrightarrow> n = lit ''uart_fifo_full''"
proof -
  have s: "strip_seed (lit ''uart_fifo_*'') = lit ''uart_fifo_*''" by (simp add: strip_seed_def lit_def is_decimal_def decimal_zeros_def)
  have w: "wildcard (lit ''uart_fifo_*'') (lit ''uart_fifo_full'')" "\<not> wildcard (lit ''uart_fifo_*'') (lit ''uart_smoke'')"
    by (simp_all add: wildcard_def endswith_def startswith_def str_but_def lit_def)
  show "covers (run_tally x_db) (lit ''uart_smoke'') n \<longleftrightarrow> n = lit ''uart_smoke''" by (auto simp: covers_def known_def x_tally)
  show "covers (run_tally x_db) (lit ''uart_fifo_*'') n \<longleftrightarrow> n = lit ''uart_fifo_full''" using s w by (auto simp: covers_def known_def x_tally)
qed

lemma x_point_fields [simp]: "tp_na (x_point n st ts) = False" "tp_tests (x_point n st ts) = map lit ts" "tp_stage (x_point n st ts) = lit st"
  by (simp_all add: x_point_def)

lemma x_nonneg: "nonneg (fst (run_tally x_db))" "nonneg (snd (run_tally x_db))"
  by (simp_all add: nonneg_def x_tally)

lemma closure_statuses_witness: "map tr_status (compute_closure (\<lambda>_ _. False) x_plan x_db) = [CLOSED, PARTIAL]"
  using closure_statuses[OF x_nonneg, of "\<lambda>_ _. False" x_plan] unfolding x_iter
  by (simp add: expected_status_def x_covers) (simp add: x_tally tally_of_def)

section \<open>Gates\<close>

lemma stages_set: "set (stages plan) = tp_stage ` set (iter_testpoints plan)"
proof -
  have k: "set (dict_keys (dict_set k () d)) = insert k (set (dict_keys d))" for k :: pystr and d
    unfolding dict_keys_set by auto
  have "set (dict_keys (foldl (\<lambda>d tp. dict_set (tp_stage tp) () d) d tps)) = set (dict_keys d) \<union> tp_stage ` set tps" for d tps
  proof (induction tps arbitrary: d)
    case (Cons tp tps)
    show ?case unfolding foldl_Cons Cons.IH k by auto
  qed simp
  from this[of "[]"] show ?thesis by (simp add: stages_def)
qed

definition gate_holds :: "tally \<times> tally \<Rightarrow> Testplan \<Rightarrow> pystr \<Rightarrow> bool" where
  "gate_holds t plan stage \<longleftrightarrow>
     (\<forall>tp\<in>set (iter_testpoints plan). stage_rank (tp_stage tp) \<le> stage_rank stage \<and> \<not> tp_na tp \<and> tp_tests tp \<noteq> [] \<longrightarrow>
        (\<exists>p\<in>set (tp_tests tp). \<exists>n. covers t p n) \<and> (\<forall>p\<in>set (tp_tests tp). \<forall>n. covers t p n \<longrightarrow> tally_of (snd t) n = 0))"

lemma closed_status:
  "expected_status t tp \<in> {CLOSED, NA, UNIMPLEMENTED} \<longleftrightarrow>
    (\<not> tp_na tp \<and> tp_tests tp \<noteq> [] \<longrightarrow>
      (\<exists>p\<in>set (tp_tests tp). \<exists>n. covers t p n) \<and> (\<forall>p\<in>set (tp_tests tp). \<forall>n. covers t p n \<longrightarrow> tally_of (snd t) n = 0))"
  by (simp add: expected_status_def Let_def) blast

text \<open>
  C16 (safety). The gate of a stage passes exactly if every testpoint of that or a lower stage that lists tests has been run, and no
  test it covers has a failed run. Testpoints nested in goals count; testpoints without tests do not.
\<close>

theorem gate_passes_iff:
  assumes "nonneg (fst (run_tally db))" "nonneg (snd (run_tally db))"
  shows "gr_passed (stage_gate_status (compute_closure fnmatch plan db) stage plan False) \<longleftrightarrow> gate_holds (run_tally db) plan stage"
proof -
  let ?r = "testpoint_result fnmatch db (run_tally db)"
  have t: "tr_testpoint (?r tp) = tp" for tp by (simp add: testpoint_result_def Let_def split_beta)
  have req: "tp_stage tp \<in> stages_required plan stage \<longleftrightarrow> stage_rank (tp_stage tp) \<le> stage_rank stage" if "tp \<in> set (iter_testpoints plan)" for tp
    using that by (auto simp: stages_required_def stages_set)
  have "gr_passed (stage_gate_status (compute_closure fnmatch plan db) stage plan False) \<longleftrightarrow>
      (\<forall>tp\<in>set (iter_testpoints plan). stage_rank (tp_stage tp) \<le> stage_rank stage \<longrightarrow> expected_status (run_tally db) tp \<in> {CLOSED, NA, UNIMPLEMENTED})"
    unfolding stage_gate_status_def compute_closure_def Let_def using req
    by (auto simp: filter_empty_conv t status_expected[OF assms])
  then show ?thesis unfolding gate_holds_def closed_status by blast
qed

lemma gate_passes_iff_witness:
  "gr_passed (stage_gate_status (compute_closure (\<lambda>_ _. False) x_plan x_db) (lit ''V1'') x_plan False) \<and>
   \<not> gr_passed (stage_gate_status (compute_closure (\<lambda>_ _. False) x_plan x_db) (lit ''V2'') x_plan False)"
proof -
  have r: "stage_rank (lit ''V1'') = 0" "stage_rank (lit ''V2'') = 1" by (simp_all add: stage_rank_def STAGE_ORDER_def)
  have c: "tally_of (snd (run_tally x_db)) (lit ''uart_smoke'') = 0" "tally_of (snd (run_tally x_db)) (lit ''uart_fifo_full'') = 1"
    by (simp_all add: x_tally tally_of_def)
  have "gate_holds (run_tally x_db) x_plan (lit ''V1'')" "\<not> gate_holds (run_tally x_db) x_plan (lit ''V2'')"
    unfolding gate_holds_def x_iter using x_covers by (auto simp: r c)
  then show ?thesis using gate_passes_iff[OF x_nonneg, of "\<lambda>_ _. False" x_plan] by blast
qed

section \<open>Runs that are neither passes nor failures\<close>

definition tallies :: "TestStatsEntry list \<Rightarrow> pystr list \<Rightarrow> tally \<times> tally \<Rightarrow> bool" where
  "tallies stats names t \<longleftrightarrow>
     (\<forall>i<length names. dict_get (fst t) (names ! i) = map_option se_pass_count (stats_get stats i) \<and>
        dict_get (snd t) (names ! i) = map_option se_fail_count (stats_get stats i))"

lemma tallies_step:
  assumes "tallies stats names (a, b)" "x \<notin> set names" "dict_get a x = None" "dict_get b x = None"
  shows "tallies stats (names @ [x]) (tally_step stats (a, b) (length names, x))"
proof -
  have nth: "names ! i \<noteq> x" if "i < length names" for i using assms(2) that by (metis nth_mem)
  show ?thesis using assms nth
    by (cases "stats_get stats (length names)") (auto simp: tallies_def tally_step_def dict_get_set nth_append less_Suc_eq)
qed

lemma tally_step_pair: "tally_step stats (a, b) (n, x) =
    (case stats_get stats n of None \<Rightarrow> (a, b) | Some e \<Rightarrow> (dict_set x (se_pass_count e) a, dict_set x (se_fail_count e) b))"
  by (simp add: tally_step_def)

lemma tallied_names: "x \<notin> set names \<Longrightarrow> dict_get (fst (foldl (tally_step stats) ([], []) (enumerate 0 names))) x = None \<and>
    dict_get (snd (foldl (tally_step stats) ([], []) (enumerate 0 names))) x = None"
proof (induction names rule: rev_induct)
  case (snoc y names)
  obtain a b where ab: "foldl (tally_step stats) ([], []) (enumerate 0 names) = (a, b)" by (rule prod.exhaust)
  show ?case using snoc by (cases "stats_get stats (length names)") (simp_all add: enumerate_append_eq ab tally_step_pair dict_get_set)
qed simp

lemma history_tallies: "distinct names \<Longrightarrow> tallies stats names (foldl (tally_step stats) ([], []) (enumerate 0 names))"
proof (induction names rule: rev_induct)
  case (snoc x names)
  obtain a b where ab: "foldl (tally_step stats) ([], []) (enumerate 0 names) = (a, b)" by (rule prod.exhaust)
  have d: "distinct names" "x \<notin> set names" using snoc.prems by simp_all
  have "tallies stats names (a, b)" using snoc.IH[OF d(1)] by (simp only: ab)
  moreover have "dict_get a x = None" "dict_get b x = None" using tallied_names[OF d(2), of stats] unfolding ab fst_conv snd_conv by blast+
  ultimately have "tallies stats (names @ [x]) (tally_step stats (a, b) (length names, x))" using d(2) by (intro tallies_step)
  then show ?case by (simp add: enumerate_append_eq ab)
qed (simp add: tallies_def)

lemma history_tally_get:
  assumes "distinct (reg_names reg)" "i < length (reg_names reg)"
  shows "dict_get (fst (history_tally reg stats)) (reg_names reg ! i) = map_option se_pass_count (stats_get stats i)"
    and "dict_get (snd (history_tally reg stats)) (reg_names reg ! i) = map_option se_fail_count (stats_get stats i)"
  using history_tallies[OF assms(1), of stats] assms(2) by (simp_all add: tallies_def history_tally_def)

text \<open>
  Runs that ended in an error, neither a pass nor a failure, close a testpoint: one whose only test has nothing but such
  runs is reported closed, with no passing run, and does not block a gate.
\<close>

theorem error_runs_close_testpoint:
  assumes "reg_inv reg" "n < length (reg_names reg)" "n \<in> fst ` set hist"
    and "\<forall>r\<in>set (runs_of hist n). run_status r \<noteq> HIST_STATUS_OK \<and> run_status r \<noteq> HIST_STATUS_FAIL"
    and "db_history db = Some (reg, table_of hist)"
    and "tp \<in> set (iter_testpoints plan)" "\<not> tp_na tp" "tp_tests tp = [reg_names reg ! n]"
  shows "\<exists>r\<in>set (compute_closure fnmatch plan db). tr_testpoint r = tp \<and> tr_status r = CLOSED \<and> tr_pass_count r = 0"
proof -
  let ?name = "reg_names reg ! n"
  have ok: "n < length (table_of hist)" "entry_is (table_of hist ! n) (runs_of hist n)"
    using table_of_ok[of hist] assms(3) by (auto simp: table_ok_def)
  have z: "count_of P (runs_of hist n) = 0" if "\<forall>r\<in>set (runs_of hist n). \<not> P (run_status r)" for P
    using that by (simp add: count_of_def filter_empty_conv)
  have c: "se_pass_count (table_of hist ! n) = 0" "se_fail_count (table_of hist ! n) = 0"
    using ok(2) assms(4) by (auto simp: entry_is_def intro!: z)
  have d: "distinct (reg_names reg)" using assms(1) by (simp add: reg_inv_def)
  have g: "dict_get (fst (run_tally db)) ?name = Some 0" "dict_get (snd (run_tally db)) ?name = Some 0"
    using history_tally_get[OF d assms(2), of "table_of hist"] ok(1) c by (simp_all add: run_tally_def assms(5) stats_get_def)
  have k: "known (run_tally db) ?name" using g(1) by (auto simp: known_def dest: map_of_SomeD intro: rev_image_eqI)
  have "tr_status (testpoint_result fnmatch db (run_tally db) tp) = CLOSED" "tr_pass_count (testpoint_result fnmatch db (run_tally db) tp) = 0"
    using assms(7,8) by (simp_all add: testpoint_result_def match_pattern_def k take_test_def tally_of_def g classify_def)
  moreover have "tr_testpoint (testpoint_result fnmatch db (run_tally db) tp) = tp" by (simp add: testpoint_result_def Let_def split_beta)
  ultimately show ?thesis using assms(6) by (auto simp: compute_closure_def)
qed

definition x_registry :: TestRegistry where
  "x_registry = \<lparr>reg_next_run_id = 1, reg_names = [lit ''uart_smoke''], reg_seeds = [], reg_name_to_id = [(lit ''uart_smoke'', 0)], reg_seed_to_id = []\<rparr>"

lemma error_runs_close_testpoint_witness:
  "\<exists>r\<in>set (compute_closure (\<lambda>_ _. False) x_plan (x_db\<lparr>db_history := Some (x_registry, table_of [(0, x_run 2 10 1)])\<rparr>)).
     tr_testpoint r = x_point ''smoke'' ''V1'' [''uart_smoke''] \<and> tr_status r = CLOSED \<and> tr_pass_count r = 0"
proof (rule error_runs_close_testpoint)
  show "reg_inv x_registry" by (simp add: x_registry_def reg_inv_def)
  show "0 < length (reg_names x_registry)" by (simp add: x_registry_def)
  show "0 \<in> fst ` set [(0, x_run 2 10 1)]" by simp
  show "\<forall>r\<in>set (runs_of [(0, x_run 2 10 1)] 0). run_status r \<noteq> HIST_STATUS_OK \<and> run_status r \<noteq> HIST_STATUS_FAIL"
    by (simp add: runs_of_def x_run_def HIST_STATUS_OK_def HIST_STATUS_FAIL_def)
  show "db_history (x_db\<lparr>db_history := Some (x_registry, table_of [(0, x_run 2 10 1)])\<rparr>) = Some (x_registry, table_of [(0, x_run 2 10 1)])" by simp
  show "x_point ''smoke'' ''V1'' [''uart_smoke''] \<in> set (iter_testpoints x_plan)" by (simp add: x_iter)
  show "\<not> tp_na (x_point ''smoke'' ''V1'' [''uart_smoke''])" by simp
  show "tp_tests (x_point ''smoke'' ''V1'' [''uart_smoke'']) = [reg_names x_registry ! 0]" by (simp add: x_registry_def)
qed

end
