(* ===== verification/SideTables.thy ===== *)
theory SideTables
  imports DbMerge MemberMerge
begin

text \<open>
  The members that hold what the scope tree leaves out of a scope: \<open>ncdb/tags.py\<close>, \<open>properties.py\<close>, \<open>toggle.py\<close>, \<open>cross.py\<close> and
  \<open>design_units.py\<close>, with the accessors of \<open>mem/\<close> they call. They address a scope by its position in \<open>dfs_scope_list\<close>, so a database is
  that list here and a reference to a scope is an index in it; the parent of a top scope is the database. A payload is the value
  \<open>json.loads\<close> returns, with the shape its writer gives it; no payload is the empty byte string.
\<close>

section \<open>Scopes\<close>

record toggle_data =
  tg_canonical :: "pystr option"
  tg_metric :: "int option"
  tg_type :: "int option"
  tg_dir :: "int option"

datatype du_ref = Detached pystr | DU nat

record side_scope =
  sd_class :: mem_class
  sd_type :: int
  sd_name :: pystr
  sd_parent :: "nat option"
  sd_tags :: "pystr list"
  sd_strs :: "(int \<times> pystr option) list"
  sd_comment :: "pystr option"
  sd_toggle :: toggle_data
  sd_points :: "nat list"
  sd_du :: "du_ref option"

text \<open>The attributes a class has: \<open>hasattr\<close> in the code.\<close>

definition has_comment :: "mem_class \<Rightarrow> bool" where "has_comment c \<longleftrightarrow> c \<in> {MemCovergroup, MemCoverpoint, MemCross}"
definition has_toggle :: "mem_class \<Rightarrow> bool" where "has_toggle c \<longleftrightarrow> c \<in> {MemToggleScope, MemToggleInstanceScope}"
definition has_du :: "mem_class \<Rightarrow> bool" where "has_du c \<longleftrightarrow> c \<in> {MemInstanceScope, MemToggleInstanceScope}"

definition METRIC_2STOGGLE :: int where "METRIC_2STOGGLE = 4"
definition TOGGLE_NET :: int where "TOGGLE_NET = 1"
definition TOGGLE_INTERNAL :: int where "TOGGLE_INTERNAL = 1"

definition toggle_defaults :: "pystr \<Rightarrow> toggle_data" where
  "toggle_defaults name = \<lparr>tg_canonical = Some name, tg_metric = Some METRIC_2STOGGLE, tg_type = Some TOGGLE_NET, tg_dir = Some TOGGLE_INTERNAL\<rparr>"

definition addTag :: "pystr \<Rightarrow> side_scope \<Rightarrow> side_scope" where
  "addTag t s = s\<lparr>sd_tags := (if t \<in> set (sd_tags s) then sd_tags s else sd_tags s @ [t])\<rparr>"

definition SP_SCOPE_NAME :: int where "SP_SCOPE_NAME = 1"
definition SP_ITH_CROSSED :: int where "SP_ITH_CROSSED = 11"
definition SP_COMMENT :: int where "SP_COMMENT = 12"
definition SP_TOGGLE_CANON :: int where "SP_TOGGLE_CANON = 27"

definition mem_setStringProperty :: "int \<Rightarrow> pystr option \<Rightarrow> side_scope \<Rightarrow> side_scope" where
  "mem_setStringProperty p v s =
     (if p = SP_COMMENT \<and> has_comment (sd_class s) then s\<lparr>sd_comment := v\<rparr> else s\<lparr>sd_strs := dict_set p v (sd_strs s)\<rparr>)"

definition setStringProperty :: "int \<Rightarrow> pystr option \<Rightarrow> side_scope \<Rightarrow> side_scope" where
  "setStringProperty p v s =
     (if has_toggle (sd_class s) \<and> p = SP_TOGGLE_CANON then s\<lparr>sd_toggle := (sd_toggle s)\<lparr>tg_canonical := v\<rparr>\<rparr>
      else mem_setStringProperty p v s)"

definition dict_value :: "(int \<times> pystr option) list \<Rightarrow> int \<Rightarrow> pystr option" where
  "dict_value d p = (case dict_get d p of None \<Rightarrow> None | Some v \<Rightarrow> v)"

definition mem_getStringProperty :: "int \<Rightarrow> side_scope \<Rightarrow> pystr option" where
  "mem_getStringProperty p s =
     (if p = SP_SCOPE_NAME then Some (sd_name s)
      else if p = SP_COMMENT \<and> has_comment (sd_class s) then sd_comment s
      else dict_value (sd_strs s) p)"

text \<open>The classes that override it, with \<open>coverindex = -1\<close> as the side tables and most clients pass it.\<close>

definition toggle_getStringProperty :: "int \<Rightarrow> side_scope \<Rightarrow> pystr option" where
  "toggle_getStringProperty p s = (if p = SP_TOGGLE_CANON then tg_canonical (sd_toggle s) else mem_getStringProperty p s)"

definition cross_getStringProperty :: "side_scope list \<Rightarrow> int \<Rightarrow> side_scope \<Rightarrow> pystr option" where
  "cross_getStringProperty scs p s =
     (if p = SP_ITH_CROSSED \<and> sd_points s \<noteq> [] then Some (sd_name (scs ! hd (sd_points s))) else mem_getStringProperty p s)"

definition getStringProperty :: "side_scope list \<Rightarrow> int \<Rightarrow> side_scope \<Rightarrow> pystr option" where
  "getStringProperty scs p s =
     (if has_toggle (sd_class s) then toggle_getStringProperty p s
      else if sd_class s = MemCross then cross_getStringProperty scs p s
      else mem_getStringProperty p s)"

section \<open>Positions\<close>

text \<open>\<open>scopes[idx]\<close> after \<open>idx < len(scopes)\<close> has been tested; a negative index counts from the end.\<close>

definition py_pos :: "nat \<Rightarrow> int \<Rightarrow> nat res" where
  "py_pos n i = (if 0 \<le> i then Inr (nat i) else if - int n \<le> i then Inr (nat (int n + i)) else Inl IndexError)"

definition at_pos :: "int \<Rightarrow> (side_scope \<Rightarrow> side_scope) \<Rightarrow> side_scope list \<Rightarrow> side_scope list res" where
  "at_pos idx f scs =
     (if idx < int (length scs) then bindE (py_pos (length scs) idx) (\<lambda>i. Inr (scs[i := f (scs ! i)])) else Inr scs)"

datatype 'e payload = No_member | Payload "int option" "'e list"

text \<open>What all readers begin with: nothing to do, a version they refuse, or the entries.\<close>

definition entries_or :: "'e payload \<Rightarrow> 'e list res" where
  "entries_or p = (case p of No_member \<Rightarrow> Inr [] | Payload v es \<Rightarrow> if v = Some 1 then Inr es else Inl ValueError)"

definition side_member :: "'e list \<Rightarrow> 'e payload" where
  "side_member es = (if es = [] then No_member else Payload (Some 1) es)"

section \<open>tags.json\<close>

definition tags_serialize :: "side_scope list \<Rightarrow> (int \<times> pystr list) payload" where
  "tags_serialize scs = Payload (Some 1) [(int i, sd_tags s). (i, s) \<leftarrow> enumerate 0 scs, sd_tags s \<noteq> []]"

definition tags_apply :: "side_scope list \<Rightarrow> (int \<times> pystr list) payload \<Rightarrow> side_scope list res" where
  "tags_apply scs p = bindE (entries_or p) (foldE (\<lambda>scs (idx, tags). at_pos idx (fold addTag tags) scs) scs)"

section \<open>properties.json\<close>

record prop_entry =
  pe_kind :: pystr
  pe_idx :: int
  pe_key :: int
  pe_type :: pystr
  pe_value :: "pystr option"

definition get_str_properties :: "side_scope \<Rightarrow> (int \<times> pystr) list" where
  "get_str_properties s = [(k, v). (k, Some v) \<leftarrow> sd_strs s]"

definition props_serialize :: "side_scope list \<Rightarrow> prop_entry payload" where
  "props_serialize scs = side_member
     [\<lparr>pe_kind = lit ''scope'', pe_idx = int i, pe_key = k, pe_type = lit ''str'', pe_value = Some v\<rparr>.
        (i, s) \<leftarrow> enumerate 0 scs, (k, v) \<leftarrow> get_str_properties s]"

definition prop_entry_apply :: "side_scope list \<Rightarrow> prop_entry \<Rightarrow> side_scope list res" where
  "prop_entry_apply scs e =
     (if pe_kind e \<noteq> lit ''scope'' then Inr scs
      else at_pos (pe_idx e) (\<lambda>s. if pe_type e = lit ''str'' \<and> 0 \<le> pe_key e \<and> pe_key e \<le> 30
                                  then setStringProperty (pe_key e) (pe_value e) s else s) scs)"

definition props_apply :: "side_scope list \<Rightarrow> prop_entry payload \<Rightarrow> side_scope list res" where
  "props_apply scs p = bindE (entries_or p) (foldE prop_entry_apply scs)"

section \<open>toggle.json\<close>

record toggle_entry =
  te_idx :: int
  te_canonical :: "pystr option"
  te_metric :: "int option"
  te_type :: "int option"
  te_dir :: "int option"

definition differs :: "int option \<Rightarrow> int \<Rightarrow> int option" where
  "differs v dflt = (case v of None \<Rightarrow> None | Some x \<Rightarrow> if x \<noteq> dflt then Some x else None)"

definition build_entry :: "nat \<Rightarrow> side_scope \<Rightarrow> toggle_entry option" where
  "build_entry idx s =
     (if \<not> has_toggle (sd_class s) then None
      else
        let t = sd_toggle s;
            canonical = (case tg_canonical t of None \<Rightarrow> None | Some c \<Rightarrow> if c \<noteq> [] \<and> c \<noteq> sd_name s then Some c else None);
            e = \<lparr>te_idx = int idx, te_canonical = canonical, te_metric = differs (tg_metric t) METRIC_2STOGGLE,
                 te_type = differs (tg_type t) TOGGLE_NET, te_dir = differs (tg_dir t) TOGGLE_INTERNAL\<rparr>
        in if te_canonical e = None \<and> te_metric e = None \<and> te_type e = None \<and> te_dir e = None then None else Some e)"

definition toggle_serialize :: "side_scope list \<Rightarrow> toggle_entry payload" where
  "toggle_serialize scs = side_member [e. (i, s) \<leftarrow> enumerate 0 scs, sd_type s = ST_TOGGLE, e \<leftarrow> (case build_entry i s of None \<Rightarrow> [] | Some e \<Rightarrow> [e])]"

text \<open>The setters, for the values of the three enumerations.\<close>

definition enum_or :: "int option \<Rightarrow> int \<Rightarrow> int option \<Rightarrow> int option" where
  "enum_or new nmax old = (case new of Some x \<Rightarrow> if 1 \<le> x \<and> x \<le> nmax then Some x else old | None \<Rightarrow> old)"

definition toggle_set :: "toggle_entry \<Rightarrow> side_scope \<Rightarrow> side_scope" where
  "toggle_set e s =
     (if sd_type s \<noteq> ST_TOGGLE \<or> \<not> has_toggle (sd_class s) then s
      else
        let t = sd_toggle s in
        s\<lparr>sd_toggle := \<lparr>tg_canonical = (case te_canonical e of None \<Rightarrow> tg_canonical t | c \<Rightarrow> c),
                        tg_metric = enum_or (te_metric e) 6 (tg_metric t), tg_type = enum_or (te_type e) 2 (tg_type t),
                        tg_dir = enum_or (te_dir e) 4 (tg_dir t)\<rparr>\<rparr>)"

definition toggle_apply :: "side_scope list \<Rightarrow> toggle_entry payload \<Rightarrow> side_scope list res" where
  "toggle_apply scs p = bindE (entries_or p) (foldE (\<lambda>scs e. at_pos (te_idx e) (toggle_set e) scs) scs)"

section \<open>cross.json\<close>

definition stated_name :: "side_scope \<Rightarrow> pystr option" where
  "stated_name s = mem_getStringProperty SP_ITH_CROSSED s"

definition getNumCrossedCoverpoints :: "side_scope \<Rightarrow> nat res" where
  "getNumCrossedCoverpoints s =
     (if sd_class s \<noteq> MemCross then Inl AttributeError
      else if sd_points s \<noteq> [] then Inr (length (sd_points s))
      else Inr (if stated_name s \<noteq> None then 1 else 0))"

definition getIthCrossedCoverpoint :: "side_scope \<Rightarrow> nat \<Rightarrow> nat option res" where
  "getIthCrossedCoverpoint s i =
     (if sd_points s \<noteq> [] then bindE (py_nth (sd_points s) (int i)) (\<lambda>p. Inr (Some p))
      else if i = 0 \<and> stated_name s \<noteq> None then Inr None
      else Inl IndexError)"

definition crossed_name :: "side_scope list \<Rightarrow> side_scope \<Rightarrow> nat \<Rightarrow> pystr res" where
  "crossed_name scs s i =
     bindE (getIthCrossedCoverpoint s i) (\<lambda>p. case p of None \<Rightarrow> Inl AttributeError | Some j \<Rightarrow> Inr (sd_name (scs ! j)))"

definition cross_entry :: "side_scope list \<Rightarrow> nat \<times> side_scope \<Rightarrow> (int \<times> pystr list) list res" where
  "cross_entry scs = (\<lambda>(idx, s).
     if sd_type s \<noteq> ST_CROSS then Inr []
     else
       let n = (case getNumCrossedCoverpoints s of Inl _ \<Rightarrow> 0 | Inr n \<Rightarrow> n) in
       if n = 0 then Inr [] else bindE (mapE (crossed_name scs s) [0..<n]) (\<lambda>names. Inr [(int idx, names)]))"

definition cross_serialize :: "side_scope list \<Rightarrow> (int \<times> pystr list) payload res" where
  "cross_serialize scs = bindE (concatE (cross_entry scs) (enumerate 0 scs)) (\<lambda>es. Inr (side_member es))"

text \<open>The siblings of a scope, itself included; of two with one name the later stays in the map.\<close>

definition siblings :: "side_scope list \<Rightarrow> nat option \<Rightarrow> nat list" where
  "siblings scs parent = filter (\<lambda>j. sd_parent (scs ! j) = parent \<and> sd_type (scs ! j) AND ST_ALL \<noteq> 0) [0..<length scs]"

definition sibling_map :: "side_scope list \<Rightarrow> nat option \<Rightarrow> (pystr \<times> nat) list" where
  "sibling_map scs parent = foldl (\<lambda>m j. dict_set (sd_name (scs ! j)) j m) [] (siblings scs parent)"

definition resolve_crossed :: "side_scope list \<Rightarrow> pystr list \<Rightarrow> side_scope \<Rightarrow> side_scope" where
  "resolve_crossed scs names s =
     (if sd_type s \<noteq> ST_CROSS \<or> names = [] then s
      else
        let sibs = sibling_map scs (sd_parent s);
            resolved = [j. name \<leftarrow> names, j \<leftarrow> (case dict_get sibs name of None \<Rightarrow> [] | Some j \<Rightarrow> [j])]
        in if sd_class s = MemCross then s\<lparr>sd_points := resolved\<rparr> else s)"

definition cross_apply :: "side_scope list \<Rightarrow> (int \<times> pystr list) payload \<Rightarrow> side_scope list res" where
  "cross_apply scs p = bindE (entries_or p) (foldE (\<lambda>scs (idx, names). at_pos idx (resolve_crossed scs names) scs) scs)"

section \<open>design_units.json\<close>

record du_payload =
  dp_version :: "int option"
  dp_units :: "(pystr \<times> int \<times> int) list"
  dp_instances :: "(int \<times> int) list"

definition linked_du :: "side_scope list \<Rightarrow> side_scope \<Rightarrow> nat option" where
  "linked_du scs s =
     (if sd_type s = ST_INSTANCE \<and> has_du (sd_class s) then
        (case sd_du s of Some (DU d) \<Rightarrow> if d < length scs \<and> DU_ANY (sd_type (scs ! d)) then Some d else None | _ \<Rightarrow> None)
      else None)"

definition du_serialize :: "side_scope list \<Rightarrow> du_payload option" where
  "du_serialize scs =
     (let units = [(sd_name s, int i, sd_type s). (i, s) \<leftarrow> enumerate 0 scs, DU_ANY (sd_type s)] in
      if units = [] then None
      else Some \<lparr>dp_version = Some 1, dp_units = units,
                 dp_instances = [(int i, int d). (i, s) \<leftarrow> enumerate 0 scs, d \<leftarrow> (case linked_du scs s of None \<Rightarrow> [] | Some d \<Rightarrow> [d])]\<rparr>)"

definition build_index :: "side_scope list \<Rightarrow> du_payload option \<Rightarrow> (pystr \<times> nat) list res" where
  "build_index scs p =
     (case p of
        Some d \<Rightarrow>
          if dp_version d = Some 1 then
            foldE (\<lambda>m (name, idx, ty). if idx < int (length scs) then bindE (py_pos (length scs) idx) (\<lambda>i. Inr (dict_set name i m)) else Inr m) [] (dp_units d)
          else Inr (foldl (\<lambda>m (i, s). if DU_ANY (sd_type s) then dict_set (sd_name s) i m else m) [] (enumerate 0 scs))
      | None \<Rightarrow> Inr (foldl (\<lambda>m (i, s). if DU_ANY (sd_type s) then dict_set (sd_name s) i m else m) [] (enumerate 0 scs)))"

definition link_instance :: "side_scope list \<Rightarrow> int \<times> int \<Rightarrow> side_scope list res" where
  "link_instance scs = (\<lambda>(inst_idx, du_idx).
     if inst_idx < int (length scs) \<and> du_idx < int (length scs) then
       bindE (py_pos (length scs) inst_idx) (\<lambda>i.
         if has_du (sd_class (scs ! i)) then
           bindE (py_pos (length scs) du_idx) (\<lambda>d. Inr (scs[i := (scs ! i)\<lparr>sd_du := Some (DU d)\<rparr>]))
         else Inr scs)
     else Inr scs)"

definition link_instances :: "side_scope list \<Rightarrow> du_payload option \<Rightarrow> side_scope list res" where
  "link_instances scs p =
     (case p of Some d \<Rightarrow> if dp_version d = Some 1 then foldE link_instance scs (dp_instances d) else Inr scs | None \<Rightarrow> Inr scs)"

section \<open>What the scope tree gives back\<close>

text \<open>The class a scope of a type gets when the tree is read, from the type of its parent.\<close>

definition rebuilt_class :: "int option \<Rightarrow> int \<Rightarrow> mem_class" where
  "rebuilt_class pty ty =
     (if ty = ST_INSTANCE then MemInstanceScope
      else if pty = Some ST_INSTANCE then
        (if ty AND ST_COVERGROUP \<noteq> 0 then MemCovergroup else if ty AND ST_FSM \<noteq> 0 then MemFSMScope else MemScope)
      else if ty = ST_COVERGROUP \<or> ty = ST_COVERINSTANCE then MemCovergroup
      else if ty = ST_COVERPOINT then MemCoverpoint
      else if ty = ST_CROSS then MemCross
      else if ty = ST_TOGGLE then MemToggleScope
      else if ty = ST_FSM then MemFSMScope
      else MemScope)"

text \<open>
  The design unit an instance is linked to before \<open>design_units.json\<close> is read: the first unit of its name written before it under the
  same parent, else by \<open>_fixup_instance_du_links\<close> the last one written after it, else the placeholder.
\<close>

definition guess_du :: "side_scope list \<Rightarrow> nat \<Rightarrow> du_ref" where
  "guess_du scs i =
     (let units = filter (\<lambda>j. sd_parent (scs ! j) = sd_parent (scs ! i) \<and> DU_ANY (sd_type (scs ! j)) \<and> sd_name (scs ! j) = sd_name (scs ! i)) [0..<length scs]
      in case filter (\<lambda>j. j < i) units of
           j # _ \<Rightarrow> DU j
         | [] \<Rightarrow> if units = [] then Detached (sd_name (scs ! i)) else DU (last units))"

definition rebuilt :: "side_scope list \<Rightarrow> nat \<Rightarrow> side_scope" where
  "rebuilt scs i =
     (let s = scs ! i;
          cls = rebuilt_class (case sd_parent s of None \<Rightarrow> None | Some p \<Rightarrow> Some (sd_type (scs ! p))) (sd_type s)
      in \<lparr>sd_class = cls, sd_type = sd_type s, sd_name = sd_name s, sd_parent = sd_parent s, sd_tags = [], sd_strs = [], sd_comment = Some [],
          sd_toggle = toggle_defaults (sd_name s), sd_points = [],
          sd_du = (if sd_type s = ST_INSTANCE then Some (guess_du scs i) else None)\<rparr>)"

definition rebuild :: "side_scope list \<Rightarrow> side_scope list" where
  "rebuild scs = map (rebuilt scs) [0..<length scs]"

section \<open>Writing and reading all of them\<close>

record side_members =
  sm_tags :: "(int \<times> pystr list) payload"
  sm_props :: "prop_entry payload"
  sm_toggle :: "toggle_entry payload"
  sm_cross :: "(int \<times> pystr list) payload"
  sm_du :: "du_payload option"

definition write_side :: "side_scope list \<Rightarrow> side_members res" where
  "write_side scs =
     (let tags = tags_serialize scs in
      bindE (cross_serialize scs) (\<lambda>cross.
      Inr \<lparr>sm_tags = (if tags = Payload (Some 1) [] then No_member else tags), sm_props = props_serialize scs,
           sm_toggle = toggle_serialize scs, sm_cross = cross, sm_du = du_serialize scs\<rparr>))"

definition read_side :: "side_scope list \<Rightarrow> side_members \<Rightarrow> (side_scope list \<times> (pystr \<times> nat) list) res" where
  "read_side scs m =
     bindE (tags_apply scs (sm_tags m)) (\<lambda>scs.
     bindE (props_apply scs (sm_props m)) (\<lambda>scs.
     bindE (toggle_apply scs (sm_toggle m)) (\<lambda>scs.
     bindE (cross_apply scs (sm_cross m)) (\<lambda>scs.
     bindE (build_index scs (sm_du m)) (\<lambda>du_index.
     bindE (link_instances scs (sm_du m)) (\<lambda>scs. Inr (scs, du_index)))))))"

end
