(* ===== verification/SideTablesSpec.thy ===== *)
theory SideTablesSpec
  imports SideTables
begin

text \<open>
  What the side tables promise: a database read back has the tags, properties, toggle data, crossed coverpoints and design-unit links it was
  saved with; and what they lose, which is the comment of a covergroup item and the data of a toggle below an instance.
\<close>

section \<open>Reading entries scope by scope\<close>

definition frame :: "side_scope \<Rightarrow> mem_class \<times> int \<times> pystr \<times> nat option" where
  "frame s = (sd_class s, sd_type s, sd_name s, sd_parent s)"

lemma enumerate_concat:
  "concat (map f (enumerate 0 scs)) = concat (map (\<lambda>i. f (i, scs ! i)) [0..<length scs])"
proof -
  have "enumerate 0 scs = map (\<lambda>i. (i, scs ! i)) [0..<length scs]"
    by (intro nth_equalityI) (simp_all add: nth_enumerate_eq)
  then show ?thesis by (simp add: comp_def)
qed

lemma fold_entries_at:
  assumes rd: "\<And>scs' e. e \<in> set es \<Longrightarrow> map frame scs' = map frame scs \<Longrightarrow> rd scs' e = Inr (scs'[i := g e (scs' ! i)])"
    and g: "\<And>e s. frame (g e s) = frame s" and i: "i < length scs"
  shows "foldE rd scs es = Inr (scs[i := fold g es (scs ! i)])"
  using rd i
proof (induction es arbitrary: scs)
  case (Cons e es)
  let ?s = "scs[i := g e (scs ! i)]"
  have fr: "map frame ?s = map frame scs" using Cons.prems(2) by (intro nth_equalityI) (simp_all add: nth_list_update g)
  have "foldE rd ?s es = Inr (?s[i := fold g es (?s ! i)])"
    by (rule Cons.IH) (use Cons.prems fr in auto)
  then show ?case using Cons.prems by simp
qed simp

lemma apply_all:
  assumes rd: "\<And>scs' i e. i < length scs \<Longrightarrow> e \<in> set (es i) \<Longrightarrow> map frame scs' = map frame scs \<Longrightarrow>
      rd scs' e = Inr (scs'[i := g e (scs' ! i)])"
    and g: "\<And>e s. frame (g e s) = frame s"
  shows "foldE rd scs (concat (map es [0..<length scs])) = Inr (map (\<lambda>i. fold g (es i) (scs ! i)) [0..<length scs])"
proof -
  let ?st = "\<lambda>k. map (\<lambda>i. if i < k then fold g (es i) (scs ! i) else scs ! i) [0..<length scs]"
  have fold_fr: "frame (fold g xs s) = frame s" for xs s by (induction xs arbitrary: s) (simp_all add: g)
  have "foldE rd scs (concat (map es [0..<k])) = Inr (?st k)" if "k \<le> length scs" for k
    using that
  proof (induction k)
    case 0
    then show ?case by (simp add: map_nth)
  next
    case (Suc k)
    then have k: "k < length scs" by simp
    have fr: "map frame (?st k) = map frame scs" by (intro nth_equalityI) (simp_all add: fold_fr)
    have "foldE rd (?st k) (es k) = Inr ((?st k)[k := fold g (es k) (?st k ! k)])"
      by (rule fold_entries_at) (use k fr rd g in auto)
    moreover have "(?st k)[k := fold g (es k) (?st k ! k)] = ?st (Suc k)"
      using k by (intro nth_equalityI) (auto simp: nth_list_update less_Suc_eq)
    ultimately show ?case using Suc by (simp add: foldE_append)
  qed
  from this[of "length scs"] have "foldE rd scs (concat (map es [0..<length scs])) = Inr (?st (length scs))" by simp
  also have "?st (length scs) = map (\<lambda>i. fold g (es i) (scs ! i)) [0..<length scs]" by simp
  finally show ?thesis .
qed

lemma at_pos_nat [simp]: "i < length scs \<Longrightarrow> at_pos (int i) f scs = Inr (scs[i := f (scs ! i)])"
  by (simp add: at_pos_def py_pos_def)

lemma entries_or_simps [simp]: "entries_or No_member = Inr []" "entries_or (Payload (Some 1) es) = Inr es" "entries_or (side_member es) = Inr es"
  by (simp_all add: entries_or_def side_member_def)

section \<open>Each member\<close>

lemma frame_addTag: "frame (fold addTag ts s) = frame s"
  by (induction ts arbitrary: s) (simp_all add: addTag_def frame_def)

lemma tags_read:
  assumes "length scs = length src"
  shows "tags_apply scs (tags_serialize src) = Inr (map (\<lambda>i. fold addTag (sd_tags (src ! i)) (scs ! i)) [0..<length scs])"
proof -
  let ?es = "\<lambda>i. if sd_tags (src ! i) \<noteq> [] then [(int i, sd_tags (src ! i))] else []"
  have "foldE (\<lambda>scs (idx, tags). at_pos idx (fold addTag tags) scs) scs (concat (map ?es [0..<length scs])) =
      Inr (map (\<lambda>i. fold (\<lambda>(idx, tags). fold addTag tags) (?es i) (scs ! i)) [0..<length scs])"
  proof (rule apply_all)
    fix scs' i e
    assume "i < length scs" "e \<in> set (?es i)" "map frame scs' = map frame scs"
    moreover from this(3) have "length scs' = length scs" by (rule map_eq_imp_length_eq)
    ultimately show "(case e of (idx, tags) \<Rightarrow> at_pos idx (fold addTag tags) scs') = Inr (scs'[i := (case e of (idx, tags) \<Rightarrow> fold addTag tags) (scs' ! i)])"
      by (auto split: if_splits)
  qed (simp add: frame_addTag split: prod.split)
  moreover have "map (\<lambda>i. fold (\<lambda>(idx, tags). fold addTag tags) (?es i) (scs ! i)) [0..<length scs] =
      map (\<lambda>i. fold addTag (sd_tags (src ! i)) (scs ! i)) [0..<length scs]" by simp
  ultimately show ?thesis
    by (simp add: tags_apply_def tags_serialize_def enumerate_concat assms)
qed

definition set_prop :: "int \<times> pystr \<Rightarrow> side_scope \<Rightarrow> side_scope" where
  "set_prop = (\<lambda>(k, v) s. if 0 \<le> k \<and> k \<le> 30 then setStringProperty k (Some v) s else s)"

lemma frame_setString: "frame (setStringProperty k v s) = frame s"
  by (simp add: setStringProperty_def mem_setStringProperty_def frame_def)

lemma props_read:
  assumes len: "length scs = length src"
  shows "props_apply scs (props_serialize src) = Inr (map (\<lambda>i. fold set_prop (get_str_properties (src ! i)) (scs ! i)) [0..<length scs])"
proof -
  let ?e = "\<lambda>i (k, v). \<lparr>pe_kind = lit ''scope'', pe_idx = int i, pe_key = k, pe_type = lit ''str'', pe_value = Some v\<rparr>"
  let ?es = "\<lambda>i. map (?e i) (get_str_properties (src ! i))"
  let ?g = "\<lambda>e. set_prop (pe_key e, the (pe_value e))"
  have "foldE prop_entry_apply scs (concat (map ?es [0..<length scs])) = Inr (map (\<lambda>i. fold ?g (?es i) (scs ! i)) [0..<length scs])"
  proof (rule apply_all)
    fix scs' i e
    assume h: "i < length scs" "e \<in> set (?es i)" "map frame scs' = map frame scs"
    from h(3) have "length scs' = length scs" by (rule map_eq_imp_length_eq)
    with h show "prop_entry_apply scs' e = Inr (scs'[i := ?g e (scs' ! i)])"
      by (auto simp: prop_entry_apply_def set_prop_def)
  qed (simp add: set_prop_def frame_setString)
  moreover have "fold ?g (?es i) s = fold set_prop (get_str_properties (src ! i)) s" for i s
    by (simp add: fold_map comp_def case_prod_unfold)
  moreover have "concat (map (\<lambda>(k, v). [?e i (k, v)]) xs) = map (?e i) xs" for i xs
    by (induction xs) auto
  ultimately show ?thesis
    by (simp add: props_apply_def props_serialize_def enumerate_concat len)
qed

definition toggle_entry_of :: "nat \<Rightarrow> side_scope \<Rightarrow> toggle_entry option" where
  "toggle_entry_of i s = (if sd_type s = ST_TOGGLE then build_entry i s else None)"

definition opt_fold :: "('e \<Rightarrow> 's \<Rightarrow> 's) \<Rightarrow> 'e option \<Rightarrow> 's \<Rightarrow> 's" where
  "opt_fold f e s = (case e of None \<Rightarrow> s | Some x \<Rightarrow> f x s)"

lemma frame_toggle_set: "frame (toggle_set e s) = frame s"
  by (simp add: toggle_set_def frame_def Let_def)

lemma build_entry_idx: "build_entry i s = Some e \<Longrightarrow> te_idx e = int i"
  by (auto simp: build_entry_def Let_def split: if_splits)

lemma toggle_read:
  assumes len: "length scs = length src"
  shows "toggle_apply scs (toggle_serialize src) = Inr (map (\<lambda>i. opt_fold toggle_set (toggle_entry_of i (src ! i)) (scs ! i)) [0..<length scs])"
proof -
  let ?es = "\<lambda>i. case toggle_entry_of i (src ! i) of None \<Rightarrow> [] | Some e \<Rightarrow> [e]"
  have "foldE (\<lambda>scs e. at_pos (te_idx e) (toggle_set e) scs) scs (concat (map ?es [0..<length scs])) =
      Inr (map (\<lambda>i. fold toggle_set (?es i) (scs ! i)) [0..<length scs])"
  proof (rule apply_all)
    fix scs' i e
    assume h: "i < length scs" "e \<in> set (?es i)" "map frame scs' = map frame scs"
    from h(3) have "length scs' = length scs" by (rule map_eq_imp_length_eq)
    moreover from h(2) have "te_idx e = int i" by (auto simp: toggle_entry_of_def build_entry_idx split: option.splits if_splits)
    ultimately show "at_pos (te_idx e) (toggle_set e) scs' = Inr (scs'[i := toggle_set e (scs' ! i)])" using h(1) by simp
  qed (simp add: frame_toggle_set)
  moreover have "fold toggle_set (?es i) s = opt_fold toggle_set (toggle_entry_of i (src ! i)) s" for i s
    by (simp add: opt_fold_def split: option.split)
  moreover have "toggle_serialize src = side_member (concat (map ?es [0..<length src]))"
  proof -
    have "(\<lambda>i. if sd_type (src ! i) = ST_TOGGLE then map (\<lambda>e. e) (case build_entry i (src ! i) of None \<Rightarrow> [] | Some e \<Rightarrow> [e]) else []) = ?es"
      by (rule ext) (simp add: toggle_entry_of_def split: option.split)
    then show ?thesis by (simp add: toggle_serialize_def enumerate_concat)
  qed
  ultimately show ?thesis by (simp add: toggle_apply_def len)
qed

definition place :: "side_scope \<Rightarrow> int \<times> pystr \<times> nat option" where
  "place s = (sd_type s, sd_name s, sd_parent s)"

lemma frame_place: "map frame a = map frame b \<Longrightarrow> map place a = map place b"
  by (auto simp: list_eq_iff_nth_eq frame_def place_def)

lemma resolve_place:
  assumes "map place a = map place b"
  shows "resolve_crossed a = resolve_crossed b"
proof -
  have len: "length a = length b" using assms by (rule map_eq_imp_length_eq)
  have nth: "sd_type (a ! j) = sd_type (b ! j) \<and> sd_name (a ! j) = sd_name (b ! j) \<and> sd_parent (a ! j) = sd_parent (b ! j)" if "j < length b" for j
    using that arg_cong[OF assms, of "\<lambda>xs. xs ! j"] len by (simp add: place_def)
  have sib: "siblings a p = siblings b p" for p unfolding siblings_def len by (rule filter_cong) (use nth in auto)
  moreover have "set (siblings b p) \<subseteq> {..<length b}" for p by (auto simp: siblings_def)
  ultimately have "sibling_map a p = sibling_map b p" for p
    unfolding sibling_map_def sib by (intro foldl_cong refl) (metis nth lessThan_iff subsetD)
  then show ?thesis by (intro ext) (simp add: resolve_crossed_def)
qed

definition crossed_names :: "side_scope list \<Rightarrow> side_scope \<Rightarrow> pystr list" where
  "crossed_names scs s = (if sd_type s = ST_CROSS \<and> sd_class s = MemCross then map (\<lambda>j. sd_name (scs ! j)) (sd_points s) else [])"

definition only_stated :: "side_scope \<Rightarrow> bool" where
  "only_stated s \<longleftrightarrow> sd_type s = ST_CROSS \<and> sd_class s = MemCross \<and> sd_points s = [] \<and> stated_name s \<noteq> None"

lemma cross_entry_eq:
  "cross_entry scs (i, s) = (if only_stated s then Inl AttributeError
     else Inr (if crossed_names scs s = [] then [] else [(int i, crossed_names scs s)]))"
proof -
  have "mapE (crossed_name scs s) [0..<length (sd_points s)] = Inr (map (\<lambda>k. sd_name (scs ! (sd_points s ! k))) [0..<length (sd_points s)])"
    if "sd_points s \<noteq> []"
    by (rule mapE_Inr) (use that in \<open>simp add: crossed_name_def getIthCrossedCoverpoint_def py_nth_def\<close>)
  moreover have "map (\<lambda>k. sd_name (scs ! (sd_points s ! k))) [0..<length (sd_points s)] = map (\<lambda>j. sd_name (scs ! j)) (sd_points s)"
    by (intro nth_equalityI) simp_all
  ultimately show ?thesis
    by (auto simp: cross_entry_def only_stated_def crossed_names_def getNumCrossedCoverpoints_def crossed_name_def getIthCrossedCoverpoint_def)
qed

lemma cross_written:
  "cross_serialize scs =
     (if \<exists>s\<in>set scs. only_stated s then Inl AttributeError
      else Inr (side_member (concat (map (\<lambda>i. if crossed_names scs (scs ! i) = [] then [] else [(int i, crossed_names scs (scs ! i))]) [0..<length scs]))))"
proof -
  have "set scs = snd ` set (enumerate 0 scs)" by (simp only: set_map [symmetric] map_snd_enumerate)
  then have any: "(\<exists>s\<in>set scs. only_stated s) \<longleftrightarrow> (\<exists>p\<in>set (enumerate 0 scs). only_stated (snd p))"
    by (simp only: bex_simps)
  have err: "concatE (cross_entry scs) ps = Inl AttributeError" if "\<exists>p\<in>set ps. only_stated (snd p)" for ps
    using that
  proof (induction ps)
    case (Cons p ps)
    then show ?case by (cases p; cases "only_stated (snd p)") (simp_all add: cross_entry_eq)
  qed simp
  have ok: "concatE (cross_entry scs) (enumerate 0 scs) =
      Inr (concat (map (\<lambda>(i, s). if crossed_names scs s = [] then [] else [(int i, crossed_names scs s)]) (enumerate 0 scs)))"
    if "\<not> (\<exists>p\<in>set (enumerate 0 scs). only_stated (snd p))"
    by (rule concatE_Inr) (use that in \<open>auto simp: cross_entry_eq\<close>)
  show ?thesis
  proof (cases "\<exists>s\<in>set scs. only_stated s")
    case True
    then show ?thesis using err[of "enumerate 0 scs"] any by (simp add: cross_serialize_def)
  next
    case False
    then show ?thesis using ok any by (simp add: cross_serialize_def enumerate_concat)
  qed
qed

lemma frame_resolve: "frame (resolve_crossed scs names s) = frame s"
  by (simp add: resolve_crossed_def frame_def Let_def)

lemma cross_read:
  assumes p: "cross_serialize src = Inr p" and pl: "map place scs = map place src"
  shows "cross_apply scs p = Inr (map (\<lambda>i. resolve_crossed src (crossed_names src (src ! i)) (scs ! i)) [0..<length scs])"
proof -
  have len: "length scs = length src" using pl by (rule map_eq_imp_length_eq)
  let ?es = "\<lambda>i. if crossed_names src (src ! i) = [] then [] else [(int i, crossed_names src (src ! i))]"
  have p': "p = side_member (concat (map ?es [0..<length scs]))" using p by (simp add: cross_written len split: if_splits)
  have "foldE (\<lambda>scs (idx, names). at_pos idx (resolve_crossed scs names) scs) scs (concat (map ?es [0..<length scs])) =
      Inr (map (\<lambda>i. fold (\<lambda>(idx, names). resolve_crossed src names) (?es i) (scs ! i)) [0..<length scs])"
  proof (rule apply_all)
    fix scs' i e
    assume h: "i < length scs" "e \<in> set (?es i)" "map frame scs' = map frame scs"
    from h(3) have len': "length scs' = length scs" by (rule map_eq_imp_length_eq)
    have "map place scs' = map place src" using frame_place[OF h(3)] pl by simp
    then have "resolve_crossed scs' = resolve_crossed src" by (rule resolve_place)
    then show "(case e of (idx, names) \<Rightarrow> at_pos idx (resolve_crossed scs' names) scs') =
        Inr (scs'[i := (case e of (idx, names) \<Rightarrow> resolve_crossed src names) (scs' ! i)])"
      using h(1,2) len' by (auto split: if_splits)
  qed (simp add: frame_resolve split: prod.split)
  moreover have "fold (\<lambda>(idx, names). resolve_crossed src names) (?es i) s = resolve_crossed src (crossed_names src (src ! i)) s" for i s
    by (simp add: resolve_crossed_def)
  ultimately show ?thesis by (simp add: cross_apply_def p' del: upt_Suc)
qed


section \<open>Design units\<close>

definition link :: "nat \<Rightarrow> side_scope \<Rightarrow> side_scope" where
  "link d s = (if has_du (sd_class s) then s\<lparr>sd_du := Some (DU d)\<rparr> else s)"

definition du_index_of :: "side_scope list \<Rightarrow> (pystr \<times> nat) list" where
  "du_index_of scs = foldl (\<lambda>m (i, s). if DU_ANY (sd_type s) then dict_set (sd_name s) i m else m) [] (enumerate 0 scs)"

lemma linked_du_unit: "linked_du scs s = Some d \<Longrightarrow> d < length scs \<and> DU_ANY (sd_type (scs ! d))"
  by (auto simp: linked_du_def split: if_splits option.splits du_ref.splits)

lemma links_read:
  assumes len: "length scs = length src"
  shows "link_instances scs (du_serialize src) = Inr (map (\<lambda>i. opt_fold link (linked_du src (src ! i)) (scs ! i)) [0..<length scs])"
proof -
  let ?es = "\<lambda>i. case linked_du src (src ! i) of None \<Rightarrow> [] | Some d \<Rightarrow> [(int i, int d)]"
  have all: "foldE link_instance scs (concat (map ?es [0..<length scs])) =
      Inr (map (\<lambda>i. fold (\<lambda>(i, d). link (nat d)) (?es i) (scs ! i)) [0..<length scs])"
  proof (rule apply_all)
    fix scs' i e
    assume h: "i < length scs" "e \<in> set (?es i)" "map frame scs' = map frame scs"
    from h(3) have len': "length scs' = length scs" by (rule map_eq_imp_length_eq)
    obtain d where d: "linked_du src (src ! i) = Some d" and e: "e = (int i, int d)"
      using h(2) by (cases "linked_du src (src ! i)") auto
    have "d < length src" using linked_du_unit[OF d] by simp
    then show "link_instance scs' e = Inr (scs'[i := (case e of (i, d) \<Rightarrow> link (nat d)) (scs' ! i)])"
      using h(1) by (simp add: e link_instance_def link_def py_pos_def len len')
  qed (simp add: link_def frame_def split: prod.split)
  have fold_es: "fold (\<lambda>(i, d). link (nat d)) (?es i) s = opt_fold link (linked_du src (src ! i)) s" for i s
    by (simp add: opt_fold_def split: option.split)
  show ?thesis
  proof (cases "du_serialize src")
    case None
    then have "concat (map (\<lambda>j. if DU_ANY (sd_type (src ! j)) then [(sd_name (src ! j), int j, sd_type (src ! j))] else []) [0..<length src]) = []"
      by (simp add: du_serialize_def Let_def enumerate_concat split: if_splits)
    then have none: "(if DU_ANY (sd_type (src ! j)) then [(sd_name (src ! j), int j, sd_type (src ! j))] else []) = []" if "j < length src" for j
      using that unfolding concat_eq_Nil_conv by force
    have "\<not> DU_ANY (sd_type (src ! j))" if "j < length src" for j
      using none[OF that] by (simp split: if_splits)
    then have "linked_du src s = None" for s
      using linked_du_unit[of src s] by (cases "linked_du src s") (auto split: if_splits)
    then show ?thesis using None by (simp add: link_instances_def opt_fold_def map_nth)
  next
    case (Some p)
    have "map (\<lambda>d. (int i, int d)) (case x of None \<Rightarrow> [] | Some d \<Rightarrow> [d]) = (case x of None \<Rightarrow> [] | Some d \<Rightarrow> [(int i, int d)])" for i x
      by (simp split: option.split)
    then have "dp_instances p = concat (map ?es [0..<length scs])" "dp_version p = Some 1"
      using Some by (auto simp: du_serialize_def Let_def enumerate_concat len split: if_splits)
    then show ?thesis using Some all by (simp add: link_instances_def fold_es)
  qed
qed

lemma du_index_of_upt:
  "du_index_of scs = foldl (\<lambda>m i. if DU_ANY (sd_type (scs ! i)) then dict_set (sd_name (scs ! i)) i m else m) [] [0..<length scs]"
proof -
  have "enumerate 0 scs = map (\<lambda>i. (i, scs ! i)) [0..<length scs]"
    by (intro nth_equalityI) (simp_all add: nth_enumerate_eq)
  then show ?thesis by (simp add: du_index_of_def foldl_map)
qed

lemma index_read:
  assumes pl: "map place scs = map place src"
  shows "build_index scs (du_serialize src) = Inr (du_index_of src)"
proof -
  have len: "length scs = length src" using pl by (rule map_eq_imp_length_eq)
  have nth: "sd_type (scs ! j) = sd_type (src ! j) \<and> sd_name (scs ! j) = sd_name (src ! j)" if "j < length src" for j
    using that arg_cong[OF pl, of "\<lambda>xs. xs ! j"] len by (simp add: place_def)
  have scan: "du_index_of scs = du_index_of src"
    unfolding du_index_of_upt len by (intro foldl_cong refl) (use nth in simp)
  let ?u = "\<lambda>i. if DU_ANY (sd_type (src ! i)) then [(sd_name (src ! i), int i, sd_type (src ! i))] else []"
  let ?add = "\<lambda>m (name, idx, ty). if idx < int (length scs) then bindE (py_pos (length scs) idx) (\<lambda>i. Inr (dict_set name i m)) else Inr m"
  have units: "foldE ?add m (concat (map ?u js)) = Inr (foldl (\<lambda>m i. if DU_ANY (sd_type (src ! i)) then dict_set (sd_name (src ! i)) i m else m) m js)"
    if "set js \<subseteq> {..<length src}" for m js
    using that by (induction js arbitrary: m) (auto simp: py_pos_def len)
  show ?thesis
  proof (cases "du_serialize src")
    case None
    then show ?thesis by (simp add: build_index_def flip: du_index_of_def scan)
  next
    case (Some p)
    then have "dp_version p = Some 1" "dp_units p = concat (map ?u [0..<length src])"
      by (auto simp: du_serialize_def Let_def enumerate_concat split: if_splits)
    moreover have "set [0..<length src] \<subseteq> {..<length src}" by auto
    ultimately show ?thesis using Some by (simp only: build_index_def du_index_of_upt units option.case if_True simp_thms)
  qed
qed


section \<open>Saving and opening\<close>

text \<open>What reading gives for one scope.\<close>

definition restored :: "side_scope list \<Rightarrow> nat \<Rightarrow> side_scope" where
  "restored scs i =
     opt_fold link (linked_du scs (scs ! i))
       (resolve_crossed scs (crossed_names scs (scs ! i))
         (opt_fold toggle_set (toggle_entry_of i (scs ! i))
           (fold set_prop (get_str_properties (scs ! i))
             (fold addTag (sd_tags (scs ! i)) (rebuilt scs i)))))"

lemma frame_fold: "(\<And>e s. frame (g e s) = frame s) \<Longrightarrow> frame (fold g es s) = frame s"
  by (induction es arbitrary: s) simp_all

lemma frame_opt: "(\<And>e s. frame (g e s) = frame s) \<Longrightarrow> frame (opt_fold g e s) = frame s"
  by (simp add: opt_fold_def split: option.split)

lemma frame_set_prop: "frame (set_prop e s) = frame s"
  by (simp add: set_prop_def frame_setString split: prod.split)

lemmas frames = frame_fold[OF frame_set_prop] frame_opt[OF frame_toggle_set] frame_addTag frame_resolve

lemma rebuilt_simps [simp]:
  "sd_type (rebuilt scs i) = sd_type (scs ! i)" "sd_name (rebuilt scs i) = sd_name (scs ! i)" "sd_parent (rebuilt scs i) = sd_parent (scs ! i)"
  by (simp_all add: rebuilt_def Let_def)

lemma read_written:
  assumes w: "write_side scs = Inr m"
  shows "read_side (rebuild scs) m = Inr (map (restored scs) [0..<length scs], du_index_of scs)"
proof -
  let ?n = "length scs"
  let ?s1 = "\<lambda>i. fold addTag (sd_tags (scs ! i)) (rebuilt scs i)"
  let ?s2 = "\<lambda>i. fold set_prop (get_str_properties (scs ! i)) (?s1 i)"
  let ?s3 = "\<lambda>i. opt_fold toggle_set (toggle_entry_of i (scs ! i)) (?s2 i)"
  let ?s4 = "\<lambda>i. resolve_crossed scs (crossed_names scs (scs ! i)) (?s3 i)"
  obtain cross where c: "cross_serialize scs = Inr cross" using w by (auto simp: write_side_def Let_def bindE_eq_Inr)
  have tags: "tags_apply (rebuild scs) (sm_tags m) = Inr (map ?s1 [0..<?n])"
  proof -
    have "tags_apply (rebuild scs) (tags_serialize scs) = Inr (map ?s1 [0..<?n])"
      by (subst tags_read) (simp_all add: rebuild_def)
    moreover have "tags_apply (rebuild scs) No_member = tags_apply (rebuild scs) (Payload (Some 1) [])" by (simp add: tags_apply_def)
    ultimately show ?thesis using w by (auto simp: write_side_def Let_def c)
  qed
  have props: "props_apply (map ?s1 [0..<?n]) (sm_props m) = Inr (map ?s2 [0..<?n])"
    using w props_read[of "map ?s1 [0..<?n]" scs] by (auto simp: write_side_def Let_def c)
  have toggle: "toggle_apply (map ?s2 [0..<?n]) (sm_toggle m) = Inr (map ?s3 [0..<?n])"
    using w toggle_read[of "map ?s2 [0..<?n]" scs] by (auto simp: write_side_def Let_def c)
  have place: "map place (map f [0..<?n]) = map place scs" if "\<And>i. frame (f i) = frame (rebuilt scs i)" for f
    using that by (intro nth_equalityI) (auto simp: frame_def place_def)
  have cross: "cross_apply (map ?s3 [0..<?n]) (sm_cross m) = Inr (map ?s4 [0..<?n])"
    using w cross_read[OF c place[of ?s3]] by (auto simp: write_side_def Let_def c frames)
  have index: "build_index (map ?s4 [0..<?n]) (sm_du m) = Inr (du_index_of scs)"
    using w index_read[OF place[of ?s4]] by (auto simp: write_side_def Let_def c frames)
  have links: "link_instances (map ?s4 [0..<?n]) (sm_du m) = Inr (map (restored scs) [0..<?n])"
    using w links_read[of "map ?s4 [0..<?n]" scs] by (auto simp: write_side_def Let_def c restored_def)
  show ?thesis by (simp add: read_side_def tags props toggle cross index links)
qed

section \<open>What comes strs\<close>

definition plain_key :: "mem_class \<Rightarrow> int \<Rightarrow> bool" where
  "plain_key c k \<longleftrightarrow> \<not> (has_toggle c \<and> k = SP_TOGGLE_CANON) \<and> \<not> (has_comment c \<and> k = SP_COMMENT)"

definition strs_ok :: "side_scope \<Rightarrow> bool" where
  "strs_ok s \<longleftrightarrow> distinct (dict_keys (sd_strs s)) \<and> (\<forall>(k, v)\<in>set (sd_strs s). v \<noteq> None \<and> 0 \<le> k \<and> k \<le> 30 \<and> plain_key (sd_class s) k)"






definition parent_type :: "side_scope list \<Rightarrow> side_scope \<Rightarrow> int option" where
  "parent_type scs s = (case sd_parent s of None \<Rightarrow> None | Some p \<Rightarrow> Some (sd_type (scs ! p)))"



lemma set_props:
  "distinct (dict_keys (sd_strs s) @ map fst xs) \<Longrightarrow> (\<forall>(k, v)\<in>set xs. 0 \<le> k \<and> k \<le> 30 \<and> plain_key (sd_class s) k) \<Longrightarrow>
   fold set_prop xs s = s\<lparr>sd_strs := sd_strs s @ map (\<lambda>(k, v). (k, Some v)) xs\<rparr>"
proof (induction xs arbitrary: s)
  case (Cons x xs)
  obtain k v where x: "x = (k, v)" by (cases x)
  have "set_prop x s = s\<lparr>sd_strs := sd_strs s @ [(k, Some v)]\<rparr>"
    using Cons.prems by (auto simp: x set_prop_def setStringProperty_def mem_setStringProperty_def plain_key_def update_notin)
  then show ?case using Cons by (simp add: x)
qed simp

lemma get_strs:
  assumes "\<forall>(k, v)\<in>set d. v \<noteq> None"
  shows "map (\<lambda>(k, v). (k, Some v)) [(k, v). (k, Some v) \<leftarrow> d] = d"
  using assms by (induction d) (auto split: option.splits)

lemma strs_restored:
  assumes ok: "strs_ok s" and r: "sd_strs r = []" and pk: "\<forall>k. plain_key (sd_class s) k \<longrightarrow> plain_key (sd_class r) k"
  shows "fold set_prop (get_str_properties s) r = r\<lparr>sd_strs := sd_strs s\<rparr>"
proof -
  have strs: "map (\<lambda>(k, v). (k, Some v)) (get_str_properties s) = sd_strs s"
    unfolding get_str_properties_def by (rule get_strs) (use ok in \<open>auto simp: strs_ok_def\<close>)
  have keys: "map fst (get_str_properties s) = dict_keys (sd_strs s)"
    by (subst strs [symmetric]) (simp add: comp_def case_prod_unfold)
  have mem: "(k, Some v) \<in> set (sd_strs s)" if "(k, v) \<in> set (get_str_properties s)" for k v
    by (subst strs [symmetric]) (use that in force)
  then have "\<forall>(k, v)\<in>set (get_str_properties s). 0 \<le> k \<and> k \<le> 30 \<and> plain_key (sd_class r) k"
    using ok pk by (auto simp: strs_ok_def dest!: mem)
  then show ?thesis
    using set_props[of r "get_str_properties s"] ok by (simp add: r keys strs strs_ok_def)
qed







lemma only_stated_if:
  "write_side scs = (if \<exists>s\<in>set scs. only_stated s then Inl AttributeError else write_side scs)"
  by (simp add: write_side_def cross_written)


lemma write_side_error: "write_side scs = Inl err \<longleftrightarrow> err = AttributeError \<and> (\<exists>s\<in>set scs. only_stated s)"
  by (auto simp: write_side_def cross_written Let_def)





section \<open>Properties\<close>



text \<open>C20 (error). Saving fails exactly when a cross holds the name of a crossed coverpoint but no coverpoint: the writer is told there is one
  operand, gets None for it and asks None for its name. Nothing else in the side tables can fail.\<close>
theorem stated_cross_unsavable:
  "write_side scs = Inl err \<longleftrightarrow>
     err = AttributeError \<and> (\<exists>s\<in>set scs. sd_type s = ST_CROSS \<and> sd_class s = MemCross \<and> sd_points s = [] \<and> dict_value (sd_strs s) SP_ITH_CROSSED \<noteq> None)"
proof -
  have "stated_name s = dict_value (sd_strs s) SP_ITH_CROSSED" for s
    by (simp add: stated_name_def mem_getStringProperty_def SP_ITH_CROSSED_def SP_SCOPE_NAME_def SP_COMMENT_def)
  then show ?thesis by (simp add: write_side_error only_stated_def)
qed

lemma restored_class: "sd_class (restored scs i) = rebuilt_class (parent_type scs (scs ! i)) (sd_type (scs ! i))"
proof -
  have lk: "frame (link d s) = frame s" for d s by (simp add: link_def frame_def)
  have "frame (restored scs i) = frame (rebuilt scs i)" by (simp only: restored_def frames frame_opt[OF lk])
  then show ?thesis by (simp add: frame_def rebuilt_def Let_def parent_type_def)
qed

lemma strs_untouched:
  "sd_strs (opt_fold link d s) = sd_strs s" "sd_strs (resolve_crossed scs names s) = sd_strs s" "sd_strs (opt_fold toggle_set e s) = sd_strs s"
  "sd_strs (fold addTag ts s) = sd_strs s"
proof -
  show "sd_strs (fold addTag ts s) = sd_strs s" by (induction ts arbitrary: s) (simp_all add: addTag_def)
qed (simp_all add: opt_fold_def link_def resolve_crossed_def toggle_set_def Let_def split: option.split)

text \<open>What the toggle data of one scope cannot change: nothing else, and not the scope itself when it is rebuilt as a plain one.\<close>

lemma toggle_irrelevant:
  fixes t :: toggle_data
  assumes i: "i < length scs" and cls: "sd_class (rebuilt scs i) = MemScope"
  defines "scs' \<equiv> scs[i := (scs ! i)\<lparr>sd_toggle := t\<rparr>]"
  shows "map (restored scs') [0..<length scs'] = map (restored scs) [0..<length scs]" and "du_index_of scs' = du_index_of scs"
proof -
  have len: "length scs' = length scs" by (simp add: scs'_def)
  have nth: "scs' ! j = (if j = i then (scs ! i)\<lparr>sd_toggle := t\<rparr> else scs ! j)" if "j < length scs" for j
    using that by (simp add: scs'_def nth_list_update)
  have pl: "sd_type (scs' ! j) = sd_type (scs ! j)" "sd_name (scs' ! j) = sd_name (scs ! j)" "sd_parent (scs' ! j) = sd_parent (scs ! j)" for j
    unfolding scs'_def by (cases "j = i"; simp add: i)+
  have "map place scs' = map place scs" by (intro nth_equalityI) (simp_all add: len place_def pl)
  then have rc: "resolve_crossed scs' = resolve_crossed scs" by (rule resolve_place)
  have gd: "guess_du scs' j = guess_du scs j" for j unfolding guess_du_def len pl ..
  have rb: "rebuilt scs' j = rebuilt scs j" for j by (simp add: rebuilt_def Let_def pl gd cong: option.case_cong)
  have ld: "linked_du scs' s = linked_du scs s" for s by (simp add: linked_du_def len pl cong: option.case_cong du_ref.case_cong)
  have cn: "crossed_names scs' s = crossed_names scs s" for s by (simp add: crossed_names_def pl)
  have same: "linked_du scs ((scs ! i)\<lparr>sd_toggle := t\<rparr>) = linked_du scs (scs ! i)" "crossed_names scs ((scs ! i)\<lparr>sd_toggle := t\<rparr>) = crossed_names scs (scs ! i)"
    "get_str_properties ((scs ! i)\<lparr>sd_toggle := t\<rparr>) = get_str_properties (scs ! i)"
    by (simp_all add: linked_du_def crossed_names_def get_str_properties_def)
  let ?s = "fold set_prop (get_str_properties (scs ! i)) (fold addTag (sd_tags (scs ! i)) (rebuilt scs i))"
  have "frame ?s = frame (rebuilt scs i)" by (simp only: frames)
  then have "\<not> has_toggle (sd_class ?s)" using cls by (simp add: frame_def has_toggle_def)
  then have no: "opt_fold toggle_set e ?s = ?s" for e by (simp add: opt_fold_def toggle_set_def split: option.split)
  have "restored scs' j = restored scs j" if "j < length scs" for j
    using nth[OF that] no by (cases "j = i") (simp_all add: restored_def rc rb ld cn same)
  then show "map (restored scs') [0..<length scs'] = map (restored scs) [0..<length scs]" by (simp add: len)
  show "du_index_of scs' = du_index_of scs" unfolding du_index_of_upt len pl ..
qed

lemma toggle_written:
  assumes w: "write_side scs = Inr m" and i: "i < length scs" and ty: "sd_type (scs ! i) = ST_TOGGLE" and e: "build_entry i (scs ! i) = Some e"
  shows "\<exists>es. sm_toggle m = Payload (Some 1) es \<and> e \<in> set es"
proof -
  define es where "es = [e. (i, s) \<leftarrow> enumerate 0 scs, sd_type s = ST_TOGGLE, e \<leftarrow> (case build_entry i s of None \<Rightarrow> [] | Some e \<Rightarrow> [e])]"
  have "e \<in> set es"
    using i ty e unfolding es_def enumerate_concat by (auto intro!: bexI[of _ i])
  moreover from this have "side_member es = Payload (Some 1) es" unfolding side_member_def by (metis empty_iff list.set(1))
  moreover have "sm_toggle m = side_member es" using w by (auto simp: write_side_def Let_def toggle_serialize_def bindE_eq_Inr es_def)
  ultimately show ?thesis by (intro exI[of _ es]) simp
qed

text \<open>C19 (safety). The scope tree rebuilds a toggle below an instance as a plain scope, which has no toggle data. What it was saved with is
  in \<open>toggle.json\<close>: an entry for its position with each of the canonical name, metric, type and direction that is not the default. Yet all four
  are lost: the scope that is read has no toggle accessors, its canonical name reads as \<open>None\<close>, and the database read is the same whatever
  toggle data the scope was saved with.\<close>
theorem instance_toggle_data_lost:
  assumes "write_side scs = Inr m" and "i < length scs" and "sd_type (scs ! i) = ST_TOGGLE" and "sd_parent (scs ! i) = Some p" and "sd_type (scs ! p) = ST_INSTANCE"
    and "strs_ok (scs ! i)" and "has_toggle (sd_class (scs ! i))"
    and "t = sd_toggle (scs ! i)" and "no_canon = {None, Some [], Some (sd_name (scs ! i))}"
  shows "(tg_canonical t \<notin> no_canon \<or> tg_metric t \<notin> {None, Some METRIC_2STOGGLE} \<or> tg_type t \<notin> {None, Some TOGGLE_NET} \<or> tg_dir t \<notin> {None, Some TOGGLE_INTERNAL} \<longrightarrow>
      (\<exists>es e. sm_toggle m = Payload (Some 1) es \<and> e \<in> set es \<and> te_idx e = int i \<and>
         te_canonical e = (if tg_canonical t \<in> no_canon then None else tg_canonical t) \<and>
         te_metric e = (if tg_metric t = Some METRIC_2STOGGLE then None else tg_metric t) \<and>
         te_type e = (if tg_type t = Some TOGGLE_NET then None else tg_type t) \<and>
         te_dir e = (if tg_dir t = Some TOGGLE_INTERNAL then None else tg_dir t))) \<and>
    (\<exists>scs' idx. read_side (rebuild scs) m = Inr (scs', idx) \<and> sd_class (scs' ! i) = MemScope \<and> \<not> has_toggle (sd_class (scs' ! i)) \<and>
      getStringProperty scs' SP_TOGGLE_CANON (scs' ! i) = None \<and> getStringProperty scs SP_TOGGLE_CANON (scs ! i) = tg_canonical t \<and>
      (\<forall>t' m'. write_side (scs[i := (scs ! i)\<lparr>sd_toggle := t'\<rparr>]) = Inr m' \<longrightarrow>
         read_side (rebuild (scs[i := (scs ! i)\<lparr>sd_toggle := t'\<rparr>])) m' = Inr (scs', idx)))"
proof -
  have cls: "sd_class (restored scs i) = MemScope"
    using assms(3-5) by (simp add: restored_class parent_type_def rebuilt_class_def ST_TOGGLE_def ST_INSTANCE_def ST_COVERGROUP_def ST_FSM_def)
  have r: "sd_strs (rebuilt scs i) = []" "sd_class (rebuilt scs i) = MemScope"
    using cls by (simp_all add: rebuilt_def restored_class parent_type_def Let_def)
  let ?r = "fold addTag (sd_tags (scs ! i)) (rebuilt scs i)"
  have "fold set_prop (get_str_properties (scs ! i)) ?r = ?r\<lparr>sd_strs := sd_strs (scs ! i)\<rparr>"
  proof (rule strs_restored[OF assms(6)])
    show "sd_strs ?r = []" by (simp add: strs_untouched r)
    have "sd_class ?r = MemScope" using frame_addTag[of "sd_tags (scs ! i)" "rebuilt scs i"] r(2) by (simp add: frame_def)
    then show "\<forall>k. plain_key (sd_class (scs ! i)) k \<longrightarrow> plain_key (sd_class ?r) k" by (simp add: plain_key_def has_toggle_def has_comment_def)
  qed
  then have strs: "sd_strs (restored scs i) = sd_strs (scs ! i)" by (simp add: restored_def strs_untouched)
  have "dict_get (sd_strs (scs ! i)) SP_TOGGLE_CANON = None"
    using assms(6,7) by (auto simp: strs_ok_def plain_key_def map_of_eq_None_iff)
  then have gone: "getStringProperty scs' SP_TOGGLE_CANON (restored scs i) = None" for scs'
    by (simp add: getStringProperty_def toggle_getStringProperty_def cross_getStringProperty_def mem_getStringProperty_def cls strs dict_value_def has_toggle_def has_comment_def SP_TOGGLE_CANON_def SP_SCOPE_NAME_def)
  have src: "getStringProperty scs SP_TOGGLE_CANON (scs ! i) = tg_canonical (sd_toggle (scs ! i))" by (simp add: getStringProperty_def toggle_getStringProperty_def assms(7))
  have any: "read_side (rebuild (scs[i := (scs ! i)\<lparr>sd_toggle := t'\<rparr>])) m' = Inr (map (restored scs) [0..<length scs], du_index_of scs)"
    if "write_side (scs[i := (scs ! i)\<lparr>sd_toggle := t'\<rparr>]) = Inr m'" for t' m'
    unfolding read_written[OF that] toggle_irrelevant[OF assms(2) r(2)] ..
  have lost: "\<exists>scs' idx. read_side (rebuild scs) m = Inr (scs', idx) \<and> sd_class (scs' ! i) = MemScope \<and> \<not> has_toggle (sd_class (scs' ! i)) \<and>
      getStringProperty scs' SP_TOGGLE_CANON (scs' ! i) = None \<and> getStringProperty scs SP_TOGGLE_CANON (scs ! i) = tg_canonical t \<and>
      (\<forall>t' m'. write_side (scs[i := (scs ! i)\<lparr>sd_toggle := t'\<rparr>]) = Inr m' \<longrightarrow>
         read_side (rebuild (scs[i := (scs ! i)\<lparr>sd_toggle := t'\<rparr>])) m' = Inr (scs', idx))"
    by (intro exI[of _ "map (restored scs) [0..<length scs]"] exI[of _ "du_index_of scs"] conjI)
      (simp_all add: read_written[OF assms(1)] any assms(2,8) cls gone src has_toggle_def)
  define e where "e = \<lparr>te_idx = int i, te_canonical = (if tg_canonical t \<in> no_canon then None else tg_canonical t),
    te_metric = (if tg_metric t = Some METRIC_2STOGGLE then None else tg_metric t), te_type = (if tg_type t = Some TOGGLE_NET then None else tg_type t),
    te_dir = (if tg_dir t = Some TOGGLE_INTERNAL then None else tg_dir t)\<rparr>"
  have df: "differs v d = (if v = Some d then None else v)" for v d by (simp add: differs_def split: option.split)
  show ?thesis
  proof (intro conjI impI lost)
    assume "tg_canonical t \<notin> no_canon \<or> tg_metric t \<notin> {None, Some METRIC_2STOGGLE} \<or> tg_type t \<notin> {None, Some TOGGLE_NET} \<or> tg_dir t \<notin> {None, Some TOGGLE_INTERNAL}"
    then have "build_entry i (scs ! i) = Some e"
      using assms(7-9) by (cases "tg_canonical t") (auto simp: build_entry_def Let_def e_def df)
    then obtain es where "sm_toggle m = Payload (Some 1) es" "e \<in> set es" using toggle_written[OF assms(1-3)] by blast
    then show "\<exists>es e. sm_toggle m = Payload (Some 1) es \<and> e \<in> set es \<and> te_idx e = int i \<and>
         te_canonical e = (if tg_canonical t \<in> no_canon then None else tg_canonical t) \<and>
         te_metric e = (if tg_metric t = Some METRIC_2STOGGLE then None else tg_metric t) \<and>
         te_type e = (if tg_type t = Some TOGGLE_NET then None else tg_type t) \<and>
         te_dir e = (if tg_dir t = Some TOGGLE_INTERNAL then None else tg_dir t)"
      by (intro exI[of _ es] exI[of _ e]) (simp add: e_def)
  qed
qed

definition toggle_example :: "side_scope list" where
  "toggle_example =
     (let base = \<lparr>sd_class = MemInstanceScope, sd_type = ST_INSTANCE, sd_name = lit ''u'', sd_parent = None, sd_tags = [], sd_strs = [],
        sd_comment = Some [], sd_toggle = toggle_defaults (lit ''u''), sd_points = [], sd_du = None\<rparr>
      in [base, base\<lparr>sd_class := MemToggleInstanceScope, sd_type := ST_TOGGLE, sd_name := lit ''clk'', sd_parent := Some 0,
               sd_toggle := \<lparr>tg_canonical = Some (lit ''top.clk''), tg_metric = Some 5, tg_type = Some 2, tg_dir = Some 1\<rparr>\<rparr>])"

theorem instance_toggle_data_lost_witness:
  "\<exists>m es scs' idx. write_side toggle_example = Inr m \<and> sm_toggle m = Payload (Some 1) es \<and>
     \<lparr>te_idx = 1, te_canonical = Some (lit ''top.clk''), te_metric = Some 5, te_type = Some 2, te_dir = None\<rparr> \<in> set es \<and>
     read_side (rebuild toggle_example) m = Inr (scs', idx) \<and> \<not> has_toggle (sd_class (scs' ! 1)) \<and>
     getStringProperty scs' SP_TOGGLE_CANON (scs' ! 1) = None \<and> getStringProperty toggle_example SP_TOGGLE_CANON (toggle_example ! 1) = Some (lit ''top.clk'')"
proof -
  have "\<not> (\<exists>s\<in>set toggle_example. only_stated s)" by (simp add: toggle_example_def Let_def only_stated_def ST_TOGGLE_def ST_INSTANCE_def ST_CROSS_def)
  then obtain m where m: "write_side toggle_example = Inr m" by (cases "write_side toggle_example") (auto simp: write_side_error)
  let ?t = "\<lparr>tg_canonical = Some (lit ''top.clk''), tg_metric = Some 5, tg_type = Some 2, tg_dir = Some 1\<rparr>"
  note l = instance_toggle_data_lost[OF m, of 1 0 ?t "{None, Some [], Some (lit ''clk'')}"]
  have h: "1 < length toggle_example" "sd_type (toggle_example ! 1) = ST_TOGGLE" "sd_parent (toggle_example ! 1) = Some 0"
    "sd_type (toggle_example ! 0) = ST_INSTANCE" "strs_ok (toggle_example ! 1)" "has_toggle (sd_class (toggle_example ! 1))"
    "?t = sd_toggle (toggle_example ! 1)" "{None, Some [], Some (lit ''clk'')} = {None, Some [], Some (sd_name (toggle_example ! 1))}"
    by (simp_all add: toggle_example_def Let_def strs_ok_def has_toggle_def)
  from l[OF h] obtain es e scs' idx where e: "sm_toggle m = Payload (Some 1) es" "e \<in> set es" "te_idx e = 1"
      "te_canonical e = Some (lit ''top.clk'')" "te_metric e = Some 5" "te_type e = Some 2" "te_dir e = None"
    and rd: "read_side (rebuild toggle_example) m = Inr (scs', idx)" "\<not> has_toggle (sd_class (scs' ! 1))"
      "getStringProperty scs' SP_TOGGLE_CANON (scs' ! 1) = None"
      "getStringProperty toggle_example SP_TOGGLE_CANON (toggle_example ! 1) = Some (lit ''top.clk'')"
    by (auto simp: METRIC_2STOGGLE_def TOGGLE_NET_def TOGGLE_INTERNAL_def lit_def)
  have "e = \<lparr>te_idx = 1, te_canonical = Some (lit ''top.clk''), te_metric = Some 5, te_type = Some 2, te_dir = None\<rparr>"
    using e(3-7) by (cases e) simp
  then show ?thesis using m e(1,2) rd by blast
qed

end
