(* ===== verification/ArchiveSession.thy ===== *)
theory ArchiveSession
  imports Prelude
begin

text \<open>
  What an open archive keeps of its optional members: the lazy getters and setters of \<open>NcdbUCIS\<close> (\<open>ncdb/ncdb_ucis.py\<close>), the attributes
  \<open>NcdbReader\<close> leaves on the database it returns (\<open>ncdb/ncdb_reader.py\<close>), and the choice of members \<open>NcdbWriter.write\<close> makes
  (\<open>ncdb/ncdb_writer.py\<close>). A member stands for the value its reader gives, since the readers and writers of the single members are the
  matter of other theories; an empty member counts as absent, as in the code. The import time that \<open>setTestplan\<close> stamps on a plan
  without one is part of the plan it is given here. The ZIP file does not change while it is open.
\<close>

section \<open>Members and sessions\<close>

record ('p, 'w, 'i, 'm, 'l, 'h) optional_members =
  om_testplan :: "'p option"
  om_waivers :: "'w option"
  om_issues :: "'i option"
  om_issues_meta :: "'m option"
  om_issues_history :: "'l option"
  om_runs :: "'h option"

definition no_members :: "('p, 'w, 'i, 'm, 'l, 'h) optional_members" where
  "no_members = \<lparr>om_testplan = None, om_waivers = None, om_issues = None, om_issues_meta = None, om_issues_history = None, om_runs = None\<rparr>"

text \<open>The attributes of a database that the writer looks at; \<open>da_has_v2\<close> is \<open>hasattr(db, 'get_v2_members')\<close>.\<close>

record ('p, 'w, 'i, 'm, 'l, 'h) db_attrs =
  da_testplan :: "'p option"
  da_waivers :: "'w option"
  da_issues :: "'i option"
  da_issues_dirty :: bool
  da_issues_meta :: "'m option"
  da_issues_meta_dirty :: bool
  da_issues_history_raw :: "'l option"
  da_issues_history_dirty :: bool
  da_has_v2 :: bool
  da_runs :: "'h option"

definition write_optional :: "('p, 'w, 'i, 'm, 'l, 'h, 'z) db_attrs_scheme \<Rightarrow> ('p, 'w, 'i, 'm, 'l, 'h) optional_members" where
  "write_optional db =
     \<lparr>om_testplan = da_testplan db, om_waivers = da_waivers db,
      om_issues = (if da_issues_dirty db then da_issues db else None),
      om_issues_meta = (if da_issues_meta_dirty db then da_issues_meta db else None),
      om_issues_history = (if da_issues_history_dirty db then da_issues_history_raw db else None),
      om_runs = (if da_has_v2 db then da_runs db else None)\<rparr>"

section \<open>NcdbReader\<close>

text \<open>A \<open>MemUCIS\<close> has no dirty flags, so the writer takes them as unset; the issue titles are only kept unparsed.\<close>

definition read_optional :: "('p, 'w, 'i, 'm, 'l, 'h) optional_members \<Rightarrow> ('p, 'w, 'i, 'm, 'l, 'h) db_attrs" where
  "read_optional m =
     \<lparr>da_testplan = om_testplan m, da_waivers = om_waivers m, da_issues = om_issues m, da_issues_dirty = False,
      da_issues_meta = None, da_issues_meta_dirty = False, da_issues_history_raw = om_issues_history m, da_issues_history_dirty = False,
      da_has_v2 = False, da_runs = om_runs m\<rparr>"

section \<open>NcdbUCIS\<close>

record ('p, 'w, 'i, 'm, 'l, 'h) lazy_db = "('p, 'w, 'i, 'm, 'l, 'h) db_attrs" +
  lz_zip :: "('p, 'w, 'i, 'm, 'l, 'h) optional_members"
  lz_loaded_testplan :: bool
  lz_loaded_waivers :: bool
  lz_loaded_issues :: bool
  lz_loaded_runs :: bool
  lz_issues_meta_raw :: "'m option"
  lz_issues_history :: "'l option"

definition open_lazy :: "('p, 'w, 'i, 'm, 'l, 'h) optional_members \<Rightarrow> ('p, 'w, 'i, 'm, 'l, 'h) lazy_db" where
  "open_lazy m =
     \<lparr>da_testplan = None, da_waivers = None, da_issues = None, da_issues_dirty = False, da_issues_meta = None, da_issues_meta_dirty = False,
      da_issues_history_raw = None, da_issues_history_dirty = False, da_has_v2 = True, da_runs = None,
      lz_zip = m, lz_loaded_testplan = False, lz_loaded_waivers = False, lz_loaded_issues = False, lz_loaded_runs = False,
      lz_issues_meta_raw = None, lz_issues_history = None\<rparr>"

definition ensure_testplan :: "('p, 'w, 'i, 'm, 'l, 'h) lazy_db \<Rightarrow> ('p, 'w, 'i, 'm, 'l, 'h) lazy_db" where
  "ensure_testplan s =
     (if lz_loaded_testplan s then s
      else s\<lparr>lz_loaded_testplan := True, da_testplan := (case om_testplan (lz_zip s) of None \<Rightarrow> da_testplan s | Some p \<Rightarrow> Some p)\<rparr>)"

definition ensure_waivers :: "('p, 'w, 'i, 'm, 'l, 'h) lazy_db \<Rightarrow> ('p, 'w, 'i, 'm, 'l, 'h) lazy_db" where
  "ensure_waivers s =
     (if lz_loaded_waivers s then s
      else s\<lparr>lz_loaded_waivers := True, da_waivers := (case om_waivers (lz_zip s) of None \<Rightarrow> da_waivers s | Some w \<Rightarrow> Some w)\<rparr>)"

definition ensure_issues :: "('p, 'w, 'i, 'm, 'l, 'h) lazy_db \<Rightarrow> ('p, 'w, 'i, 'm, 'l, 'h) lazy_db" where
  "ensure_issues s =
     (if lz_loaded_issues s then s
      else
        let m = lz_zip s;
            s = s\<lparr>lz_loaded_issues := True, da_issues := (case om_issues m of None \<Rightarrow> da_issues s | Some i \<Rightarrow> Some i), lz_issues_meta_raw := om_issues_meta m\<rparr>
        in case om_issues_history m of None \<Rightarrow> s | Some l \<Rightarrow> s\<lparr>lz_issues_history := Some l, da_issues_history_raw := Some l\<rparr>)"

definition ensure_v2_history :: "'h \<Rightarrow> ('p, 'w, 'i, 'm, 'l, 'h) lazy_db \<Rightarrow> ('p, 'w, 'i, 'm, 'l, 'h) lazy_db" where
  "ensure_v2_history e0 s =
     (if lz_loaded_runs s then s
      else s\<lparr>lz_loaded_runs := True, da_runs := (case om_runs (lz_zip s) of None \<Rightarrow> Some e0 | Some h \<Rightarrow> Some h)\<rparr>)"

definition getTestplan :: "('p, 'w, 'i, 'm, 'l, 'h) lazy_db \<Rightarrow> 'p option \<times> ('p, 'w, 'i, 'm, 'l, 'h) lazy_db" where
  "getTestplan s = (let s = ensure_testplan s in (da_testplan s, s))"

definition setTestplan :: "'p \<Rightarrow> ('p, 'w, 'i, 'm, 'l, 'h) lazy_db \<Rightarrow> ('p, 'w, 'i, 'm, 'l, 'h) lazy_db" where
  "setTestplan p s = s\<lparr>da_testplan := Some p, lz_loaded_testplan := True\<rparr>"

definition getWaivers :: "('p, 'w, 'i, 'm, 'l, 'h) lazy_db \<Rightarrow> 'w option \<times> ('p, 'w, 'i, 'm, 'l, 'h) lazy_db" where
  "getWaivers s = (let s = ensure_waivers s in (da_waivers s, s))"

definition setWaivers :: "'w \<Rightarrow> ('p, 'w, 'i, 'm, 'l, 'h) lazy_db \<Rightarrow> ('p, 'w, 'i, 'm, 'l, 'h) lazy_db" where
  "setWaivers w s = s\<lparr>da_waivers := Some w, lz_loaded_waivers := True\<rparr>"

definition getIssues :: "('p, 'w, 'i, 'm, 'l, 'h) lazy_db \<Rightarrow> 'i option \<times> ('p, 'w, 'i, 'm, 'l, 'h) lazy_db" where
  "getIssues s = (let s = ensure_issues s in (da_issues s, s))"

definition setIssues :: "'i \<Rightarrow> ('p, 'w, 'i, 'm, 'l, 'h) lazy_db \<Rightarrow> ('p, 'w, 'i, 'm, 'l, 'h) lazy_db" where
  "setIssues i s = s\<lparr>da_issues := Some i, da_issues_dirty := True, lz_loaded_issues := True\<rparr>"

definition getIssuesMeta :: "('p, 'w, 'i, 'm, 'l, 'h) lazy_db \<Rightarrow> 'm option \<times> ('p, 'w, 'i, 'm, 'l, 'h) lazy_db" where
  "getIssuesMeta s =
     (let s = (if da_issues_meta s = None \<and> lz_issues_meta_raw s \<noteq> None
               then s\<lparr>da_issues_meta := lz_issues_meta_raw s, lz_issues_meta_raw := None\<rparr> else s)
      in (da_issues_meta s, s))"

definition setIssuesMeta :: "'m \<Rightarrow> ('p, 'w, 'i, 'm, 'l, 'h) lazy_db \<Rightarrow> ('p, 'w, 'i, 'm, 'l, 'h) lazy_db" where
  "setIssuesMeta x s = s\<lparr>da_issues_meta := Some x, da_issues_meta_dirty := True\<rparr>"

definition getIssueHistory :: "('p, 'w, 'i, 'm, 'l, 'h) lazy_db \<Rightarrow> 'l option \<times> ('p, 'w, 'i, 'm, 'l, 'h) lazy_db" where
  "getIssueHistory s = (lz_issues_history s, s)"

definition setIssueHistoryData :: "'l \<Rightarrow> ('p, 'w, 'i, 'm, 'l, 'h) lazy_db \<Rightarrow> ('p, 'w, 'i, 'm, 'l, 'h) lazy_db" where
  "setIssueHistoryData l s = s\<lparr>lz_issues_history := Some l, da_issues_history_raw := Some l, da_issues_history_dirty := True\<rparr>"

text \<open>A call of the run-history interface: it loads the history and works on it.\<close>

definition run_api :: "'h \<Rightarrow> ('h \<Rightarrow> 'h) \<Rightarrow> ('p, 'w, 'i, 'm, 'l, 'h) lazy_db \<Rightarrow> ('p, 'w, 'i, 'm, 'l, 'h) lazy_db" where
  "run_api e0 f s = (let s = ensure_v2_history e0 s in s\<lparr>da_runs := map_option f (da_runs s)\<rparr>)"

datatype ('p, 'w, 'i, 'm, 'l, 'h) lazy_call =
    GetTestplan | SetTestplan 'p | GetWaivers | SetWaivers 'w | GetIssues | SetIssues 'i
  | GetIssuesMeta | SetIssuesMeta 'm | GetIssueHistory | SetIssueHistoryData 'l | RunApi "'h \<Rightarrow> 'h"

fun lazy_step :: "'h \<Rightarrow> ('p, 'w, 'i, 'm, 'l, 'h) lazy_db \<Rightarrow> ('p, 'w, 'i, 'm, 'l, 'h) lazy_call \<Rightarrow> ('p, 'w, 'i, 'm, 'l, 'h) lazy_db" where
  "lazy_step e0 s GetTestplan = snd (getTestplan s)"
| "lazy_step e0 s (SetTestplan p) = setTestplan p s"
| "lazy_step e0 s GetWaivers = snd (getWaivers s)"
| "lazy_step e0 s (SetWaivers w) = setWaivers w s"
| "lazy_step e0 s GetIssues = snd (getIssues s)"
| "lazy_step e0 s (SetIssues i) = setIssues i s"
| "lazy_step e0 s GetIssuesMeta = snd (getIssuesMeta s)"
| "lazy_step e0 s (SetIssuesMeta x) = setIssuesMeta x s"
| "lazy_step e0 s GetIssueHistory = snd (getIssueHistory s)"
| "lazy_step e0 s (SetIssueHistoryData l) = setIssueHistoryData l s"
| "lazy_step e0 s (RunApi f) = run_api e0 f s"

definition lazy_run :: "'h \<Rightarrow> ('p, 'w, 'i, 'm, 'l, 'h) optional_members \<Rightarrow> ('p, 'w, 'i, 'm, 'l, 'h) lazy_call list \<Rightarrow> ('p, 'w, 'i, 'm, 'l, 'h) lazy_db" where
  "lazy_run e0 m calls = foldl (lazy_step e0) (open_lazy m) calls"

section \<open>The contract\<close>

text \<open>Without laziness the members would be read at once and the calls would work on them.\<close>

fun eager_step :: "'h \<Rightarrow> ('p, 'w, 'i, 'm, 'l, 'h) optional_members \<Rightarrow> ('p, 'w, 'i, 'm, 'l, 'h) lazy_call \<Rightarrow> ('p, 'w, 'i, 'm, 'l, 'h) optional_members" where
  "eager_step e0 m (SetTestplan p) = m\<lparr>om_testplan := Some p\<rparr>"
| "eager_step e0 m (SetWaivers w) = m\<lparr>om_waivers := Some w\<rparr>"
| "eager_step e0 m (SetIssues i) = m\<lparr>om_issues := Some i\<rparr>"
| "eager_step e0 m (SetIssuesMeta x) = m\<lparr>om_issues_meta := Some x\<rparr>"
| "eager_step e0 m (SetIssueHistoryData l) = m\<lparr>om_issues_history := Some l\<rparr>"
| "eager_step e0 m (RunApi f) = m\<lparr>om_runs := Some (f (case om_runs m of None \<Rightarrow> e0 | Some h \<Rightarrow> h))\<rparr>"
| "eager_step e0 m _ = m"

definition eager_run :: "'h \<Rightarrow> ('p, 'w, 'i, 'm, 'l, 'h) optional_members \<Rightarrow> ('p, 'w, 'i, 'm, 'l, 'h) lazy_call list \<Rightarrow> ('p, 'w, 'i, 'm, 'l, 'h) optional_members" where
  "eager_run e0 m calls = foldl (eager_step e0) m calls"


fun uses_testplan :: "('p, 'w, 'i, 'm, 'l, 'h) lazy_call \<Rightarrow> bool" where
  "uses_testplan GetTestplan = True" | "uses_testplan (SetTestplan _) = True" | "uses_testplan _ = False"

fun uses_waivers :: "('p, 'w, 'i, 'm, 'l, 'h) lazy_call \<Rightarrow> bool" where
  "uses_waivers GetWaivers = True" | "uses_waivers (SetWaivers _) = True" | "uses_waivers _ = False"

fun gets_issues :: "('p, 'w, 'i, 'm, 'l, 'h) lazy_call \<Rightarrow> bool" where
  "gets_issues GetIssues = True" | "gets_issues _ = False"

fun sets_issues :: "('p, 'w, 'i, 'm, 'l, 'h) lazy_call \<Rightarrow> bool" where
  "sets_issues (SetIssues _) = True" | "sets_issues _ = False"

fun sets_meta :: "('p, 'w, 'i, 'm, 'l, 'h) lazy_call \<Rightarrow> bool" where
  "sets_meta (SetIssuesMeta _) = True" | "sets_meta _ = False"

fun sets_history :: "('p, 'w, 'i, 'm, 'l, 'h) lazy_call \<Rightarrow> bool" where
  "sets_history (SetIssueHistoryData _) = True" | "sets_history _ = False"

fun uses_runs :: "('p, 'w, 'i, 'm, 'l, 'h) lazy_call \<Rightarrow> bool" where
  "uses_runs (RunApi _) = True" | "uses_runs _ = False"

section \<open>The invariant of a session\<close>

text \<open>How a session after some calls stands to the members those calls would give without laziness, member by member.\<close>

definition plan_inv :: "('p, 'w, 'i, 'm, 'l, 'h) optional_members \<Rightarrow> ('p, 'w, 'i, 'm, 'l, 'h) lazy_call list \<Rightarrow>
    ('p, 'w, 'i, 'm, 'l, 'h) lazy_db \<Rightarrow> ('p, 'w, 'i, 'm, 'l, 'h) optional_members \<Rightarrow> bool" where
  "plan_inv m calls s e \<longleftrightarrow> lz_loaded_testplan s = list_ex uses_testplan calls \<and>
     (if lz_loaded_testplan s then da_testplan s = om_testplan e else da_testplan s = None \<and> om_testplan e = om_testplan m)"

definition waivers_inv :: "('p, 'w, 'i, 'm, 'l, 'h) optional_members \<Rightarrow> ('p, 'w, 'i, 'm, 'l, 'h) lazy_call list \<Rightarrow>
    ('p, 'w, 'i, 'm, 'l, 'h) lazy_db \<Rightarrow> ('p, 'w, 'i, 'm, 'l, 'h) optional_members \<Rightarrow> bool" where
  "waivers_inv m calls s e \<longleftrightarrow> lz_loaded_waivers s = list_ex uses_waivers calls \<and>
     (if lz_loaded_waivers s then da_waivers s = om_waivers e else da_waivers s = None \<and> om_waivers e = om_waivers m)"

definition issues_inv :: "('p, 'w, 'i, 'm, 'l, 'h) optional_members \<Rightarrow> ('p, 'w, 'i, 'm, 'l, 'h) lazy_call list \<Rightarrow>
    ('p, 'w, 'i, 'm, 'l, 'h) lazy_db \<Rightarrow> ('p, 'w, 'i, 'm, 'l, 'h) optional_members \<Rightarrow> bool" where
  "issues_inv m calls s e \<longleftrightarrow> lz_loaded_issues s = (list_ex gets_issues calls \<or> list_ex sets_issues calls) \<and> da_issues_dirty s = list_ex sets_issues calls \<and>
     (if lz_loaded_issues s then da_issues s = om_issues e else da_issues s = None \<and> om_issues e = om_issues m)"

definition runs_inv :: "('p, 'w, 'i, 'm, 'l, 'h) optional_members \<Rightarrow> ('p, 'w, 'i, 'm, 'l, 'h) lazy_call list \<Rightarrow>
    ('p, 'w, 'i, 'm, 'l, 'h) lazy_db \<Rightarrow> ('p, 'w, 'i, 'm, 'l, 'h) optional_members \<Rightarrow> bool" where
  "runs_inv m calls s e \<longleftrightarrow> da_has_v2 s \<and> lz_loaded_runs s = list_ex uses_runs calls \<and>
     (if lz_loaded_runs s then da_runs s = om_runs e \<and> om_runs e \<noteq> None else da_runs s = None \<and> om_runs e = om_runs m)"

definition meta_inv :: "('p, 'w, 'i, 'm, 'l, 'h) optional_members \<Rightarrow> ('p, 'w, 'i, 'm, 'l, 'h) lazy_call list \<Rightarrow>
    ('p, 'w, 'i, 'm, 'l, 'h) lazy_db \<Rightarrow> ('p, 'w, 'i, 'm, 'l, 'h) optional_members \<Rightarrow> bool" where
  "meta_inv m calls s e \<longleftrightarrow> da_issues_history_dirty s = list_ex sets_history calls \<and> da_issues_meta_dirty s = list_ex sets_meta calls \<and>
     (da_issues_meta_dirty s \<longrightarrow> da_issues_meta s = om_issues_meta e \<and> om_issues_meta e \<noteq> None)"

definition follows :: "('p, 'w, 'i, 'm, 'l, 'h) optional_members \<Rightarrow> ('p, 'w, 'i, 'm, 'l, 'h) lazy_call list \<Rightarrow>
    ('p, 'w, 'i, 'm, 'l, 'h) lazy_db \<Rightarrow> ('p, 'w, 'i, 'm, 'l, 'h) optional_members \<Rightarrow> bool" where
  "follows m calls s e \<longleftrightarrow> lz_zip s = m \<and> plan_inv m calls s e \<and> waivers_inv m calls s e \<and> issues_inv m calls s e \<and> runs_inv m calls s e \<and> meta_inv m calls s e"

lemmas inv_defs = plan_inv_def waivers_inv_def issues_inv_def runs_inv_def meta_inv_def

lemmas lazy_defs = getTestplan_def setTestplan_def getWaivers_def setWaivers_def getIssues_def setIssues_def getIssuesMeta_def setIssuesMeta_def
  getIssueHistory_def setIssueHistoryData_def run_api_def ensure_testplan_def ensure_waivers_def ensure_issues_def ensure_v2_history_def Let_def

lemma follows_open: "follows m [] (open_lazy m) m"
  by (simp add: follows_def inv_defs open_lazy_def)

lemma zip_step: "lz_zip (lazy_step e0 s c) = lz_zip s"
  by (cases c) (simp_all add: lazy_defs split: option.split)

lemma plan_inv_step:
  "plan_inv m calls s e \<Longrightarrow> lz_zip s = m \<Longrightarrow> plan_inv m (calls @ [c]) (lazy_step e0 s c) (eager_step e0 e c)"
  by (cases c) (auto simp: plan_inv_def lazy_defs split: option.split)

lemma waivers_inv_step:
  "waivers_inv m calls s e \<Longrightarrow> lz_zip s = m \<Longrightarrow> waivers_inv m (calls @ [c]) (lazy_step e0 s c) (eager_step e0 e c)"
  by (cases c) (auto simp: waivers_inv_def lazy_defs split: option.split)

lemma issues_inv_step:
  "issues_inv m calls s e \<Longrightarrow> lz_zip s = m \<Longrightarrow> issues_inv m (calls @ [c]) (lazy_step e0 s c) (eager_step e0 e c)"
  by (cases c) (auto simp: issues_inv_def lazy_defs split: option.split)

lemma runs_inv_step:
  "runs_inv m calls s e \<Longrightarrow> lz_zip s = m \<Longrightarrow> runs_inv m (calls @ [c]) (lazy_step e0 s c) (eager_step e0 e c)"
  by (cases c) (auto simp: runs_inv_def lazy_defs split: option.split)

lemma meta_inv_step:
  "meta_inv m calls s e \<Longrightarrow> lz_zip s = m \<Longrightarrow> meta_inv m (calls @ [c]) (lazy_step e0 s c) (eager_step e0 e c)"
  by (cases c) (auto simp: meta_inv_def lazy_defs split: option.split)

lemma follows_run: "follows m calls (lazy_run e0 m calls) (eager_run e0 m calls)"
  unfolding lazy_run_def eager_run_def
proof (induction calls rule: rev_induct)
  case (snoc c calls)
  then show ?case
    by (simp add: follows_def zip_step plan_inv_step waivers_inv_step issues_inv_step runs_inv_step meta_inv_step)
qed (simp add: follows_open)

lemma follows_reads:
  assumes "follows m calls s e"
  shows "fst (getTestplan s) = om_testplan e" "fst (getWaivers s) = om_waivers e" "fst (getIssues s) = om_issues e"
    "da_runs (ensure_v2_history e0 s) = Some (case om_runs e of None \<Rightarrow> e0 | Some h \<Rightarrow> h)"
proof -
  have zip: "lz_zip s = m" using assms by (simp add: follows_def)
  show "fst (getTestplan s) = om_testplan e" using assms
    by (cases "lz_loaded_testplan s") (auto simp: follows_def plan_inv_def getTestplan_def ensure_testplan_def Let_def zip split: option.split)
  show "fst (getWaivers s) = om_waivers e" using assms
    by (cases "lz_loaded_waivers s") (auto simp: follows_def waivers_inv_def getWaivers_def ensure_waivers_def Let_def zip split: option.split)
  show "fst (getIssues s) = om_issues e" using assms
    by (cases "lz_loaded_issues s") (auto simp: follows_def issues_inv_def getIssues_def ensure_issues_def Let_def zip split: option.split)
  show "da_runs (ensure_v2_history e0 s) = Some (case om_runs e of None \<Rightarrow> e0 | Some h \<Rightarrow> h)" using assms
    by (cases "lz_loaded_runs s") (auto simp: follows_def runs_inv_def ensure_v2_history_def zip split: option.split)
qed

lemma follows_saves:
  assumes "follows m calls s e"
  shows "om_testplan (write_optional s) = (if list_ex uses_testplan calls then om_testplan e else None)"
    "om_waivers (write_optional s) = (if list_ex uses_waivers calls then om_waivers e else None)"
    "om_issues (write_optional s) = (if list_ex sets_issues calls then om_issues e else None)"
    "om_issues_meta (write_optional s) = (if list_ex sets_meta calls then om_issues_meta e else None)"
    "om_runs (write_optional s) = (if list_ex uses_runs calls then om_runs e else None)"
  using assms by (auto simp: follows_def plan_inv_def waivers_inv_def issues_inv_def runs_inv_def meta_inv_def write_optional_def split: if_split_asm)

section \<open>Properties\<close>

text \<open>C7 (refinement). Lazy loading cannot be told from reading everything at once by the testplan, the waivers, the issues and the runs: after
  any calls each of them is what the same calls would have made of the members of the archive.\<close>
theorem lazy_loading_transparent:
  "fst (getTestplan (lazy_run e0 m calls)) = om_testplan (eager_run e0 m calls) \<and>
   fst (getWaivers (lazy_run e0 m calls)) = om_waivers (eager_run e0 m calls) \<and>
   fst (getIssues (lazy_run e0 m calls)) = om_issues (eager_run e0 m calls) \<and>
   da_runs (ensure_v2_history e0 (lazy_run e0 m calls)) = Some (case om_runs (eager_run e0 m calls) of None \<Rightarrow> e0 | Some h \<Rightarrow> h)"
  by (simp add: follows_reads[OF follows_run])

text \<open>C8 (safety). What a save keeps. A database opened lazily keeps a testplan and waivers only if they were looked at or set, the runs only if
  they were used, and issues and their titles only if they were set in this session; everything else of the archive is missing from the saved
  one. A database from \<open>NcdbReader\<close> keeps the testplan and the waivers and loses issues, titles, issue history and all runs.\<close>
theorem save_keeps_only_used:
  "om_testplan (write_optional (lazy_run e0 m calls)) = (if list_ex uses_testplan calls then om_testplan (eager_run e0 m calls) else None) \<and>
   om_waivers (write_optional (lazy_run e0 m calls)) = (if list_ex uses_waivers calls then om_waivers (eager_run e0 m calls) else None) \<and>
   om_issues (write_optional (lazy_run e0 m calls)) = (if list_ex sets_issues calls then om_issues (eager_run e0 m calls) else None) \<and>
   om_issues_meta (write_optional (lazy_run e0 m calls)) = (if list_ex sets_meta calls then om_issues_meta (eager_run e0 m calls) else None) \<and>
   om_runs (write_optional (lazy_run e0 m calls)) = (if list_ex uses_runs calls then om_runs (eager_run e0 m calls) else None) \<and>
   write_optional (read_optional m) = no_members\<lparr>om_testplan := om_testplan m, om_waivers := om_waivers m\<rparr>"
  by (simp add: follows_saves[OF follows_run]) (simp add: write_optional_def read_optional_def no_members_def)

lemma history_hidden:
  "\<not> list_ex gets_issues calls \<Longrightarrow>
   lz_issues_history (lazy_run e0 m calls) = om_issues_history (eager_run e0 (m\<lparr>om_issues_history := None\<rparr>) calls) \<and>
   da_issues_history_raw (lazy_run e0 m calls) = lz_issues_history (lazy_run e0 m calls)"
proof (induction calls rule: rev_induct)
  case (snoc c calls)
  then show ?case
    by (cases c) (simp_all add: lazy_run_def eager_run_def lazy_defs split: option.split)
qed (simp add: lazy_run_def eager_run_def open_lazy_def)

text \<open>C9 (safety). The issue history is not loaded by its own getter: until the issues were asked for, a stored history is invisible. And
  the first request for the issues then loads the stored history over one that was set before, so that a save writes the old one back and the
  update is lost.\<close>
theorem issue_history_update_lost:
  assumes gets: "\<not> list_ex gets_issues calls" and sets: "\<not> list_ex sets_issues calls" and stored: "om_issues_history m = Some old"
  shows "fst (getIssueHistory (lazy_run e0 m calls)) = om_issues_history (eager_run e0 (m\<lparr>om_issues_history := None\<rparr>) calls) \<and>
    om_issues_history (write_optional (lazy_run e0 m (calls @ [SetIssueHistoryData new, GetIssues]))) = Some old"
proof
  let ?s = "lazy_run e0 m calls"
  show "fst (getIssueHistory ?s) = om_issues_history (eager_run e0 (m\<lparr>om_issues_history := None\<rparr>) calls)"
    using history_hidden[OF gets] by (simp add: getIssueHistory_def)
  have s: "\<not> lz_loaded_issues ?s" "lz_zip ?s = m" using follows_run[of m calls e0] gets sets by (simp_all add: follows_def issues_inv_def)
  have "lazy_run e0 m (calls @ [SetIssueHistoryData new, GetIssues]) = snd (getIssues (setIssueHistoryData new ?s))"
    by (simp add: lazy_run_def)
  then show "om_issues_history (write_optional (lazy_run e0 m (calls @ [SetIssueHistoryData new, GetIssues]))) = Some old"
    using s stored by (simp add: getIssues_def ensure_issues_def setIssueHistoryData_def write_optional_def Let_def)
qed

definition session_example :: "(nat, nat, nat, nat, nat, nat) optional_members" where
  "session_example = no_members\<lparr>om_issues := Some 1, om_issues_history := Some 2\<rparr>"

theorem issue_history_update_lost_witness:
  "om_issues_history (write_optional (lazy_run 0 session_example ([GetTestplan] @ [SetIssueHistoryData 7, GetIssues]))) = Some 2 \<and>
   fst (getIssueHistory (lazy_run 0 session_example [GetTestplan])) = None"
proof -
  have "fst (getIssueHistory (lazy_run 0 session_example [GetTestplan])) =
      om_issues_history (eager_run 0 (session_example\<lparr>om_issues_history := None\<rparr>) [GetTestplan]) \<and>
    om_issues_history (write_optional (lazy_run 0 session_example ([GetTestplan] @ [SetIssueHistoryData 7, GetIssues]))) = Some 2"
    by (rule issue_history_update_lost) (simp_all add: session_example_def)
  then show ?thesis by (simp add: eager_run_def session_example_def)
qed

end
