(* ===== verification/Spec2Isabelle.thy ===== *)
theory Spec2Isabelle
  imports StringTable Counts ItemTables Contrib ItemSources Formal HistoryTables TestRegistry HistoryBuckets Multirun Squash Signature
    HistoryMerge MergedArchive CrossSchema IssuesSpec IssueHistorySpec RunHistorySpec ClosureSpec SideTablesSpec ArchiveSession
begin

text \<open>
  The NCDB coverage database of covsight (\<open>src/python/covsight/core\<close>): a coverage database is a tree of
  scopes with counted cover items, stored in a ZIP archive of compact members. This library models the
  code that writes, reads, merges and squashes those members, and proves that no measurement, exclusion,
  proof result or run is lost or misattributed on the way, with the exact conditions and exceptions.

  Foundations. \<open>Prelude\<close> has the result type \<open>error + 'a\<close> (every Python exception the code raises or
  relies on is a constructor of \<open>error\<close>), its bind and loops (\<open>mapE\<close>, \<open>foldE\<close>, \<open>concatE\<close>), byte strings
  with Python's slicing (\<open>at\<close> is the rest of a buffer from an offset) and dictionaries as association
  lists in insertion order. \<open>Varint\<close> is \<open>ncdb/varint.py\<close>, \<open>Utf8\<close> and \<open>PyText\<close> are the codec and the
  \<open>str\<close>/\<open>int\<close> operations of the language that the members use, \<open>PyStruct\<close> is \<open>struct.Struct\<close> with
  little-endian fields. A Python string is a list of code points, an unbounded integer an \<open>int\<close>, a byte
  an \<open>8 word\<close>. \<open>Interning\<close> states the contract of every table that maps a key to the index of its first
  occurrence as the locale \<open>interning\<close>; \<open>StringTable\<close>, \<open>TestRegistry\<close> and \<open>Signature\<close> interpret it.

  The cover model. \<open>CoverModel\<close> has scopes, cover items and the flat bin numbering of \<open>ncdb/dfs_util.py\<close>
  with its cache on the database object; \<open>ScopeTree\<close> is \<open>ncdb/scope_tree.py\<close>, writer and reader, with the
  scope constructors of \<open>mem/\<close> they call. \<open>canon\<close> is what a hierarchy becomes when written and read.

  Members indexed by flat bin. \<open>Counts\<close> (\<open>ncdb/counts.py\<close>), \<open>Sparse\<close> (the index/value tables and
  \<open>ncdb/merge_ops.py\<close>), \<open>CoverFlags\<close>, \<open>ItemTables\<close>, \<open>ItemSources\<close> (\<open>ncdb/coveritem_flags.py\<close>,
  \<open>coveritem_types.py\<close>, \<open>coveritem_sources.py\<close>), \<open>Formal\<close> (\<open>ncdb/formal.py\<close>, \<open>api/enums/formal_status.py\<close>),
  \<open>Contrib\<close> (\<open>ncdb/contrib.py\<close>, \<open>mem/mem_test_coverage.py\<close>), each with the merge that
  \<open>ncdb/member_merge.py\<close> defines for it; \<open>MemberMerge\<close> has the tags and attributes of that file.

  Whole archives. \<open>Manifest\<close> is \<open>ncdb/manifest.py\<close> with its schema hash, \<open>Json\<close> the values of the JSON members,
  \<open>HistoryNodes\<close> \<open>ncdb/history.py\<close> with \<open>mem/mem_history_node.py\<close>, \<open>Waivers\<close> \<open>ncdb/waivers.py\<close>. \<open>Merger\<close> is
  \<open>ncdb/ncdb_merger.py\<close>: the choice of path by the schema hashes and the member-wise merge of archives of one
  schema; \<open>MergedArchive\<close> proves what that path leaves in the archive. The other path merges the scope trees:
  \<open>Grouping\<close> and \<open>DbMerge\<close> are \<open>merge/db_merger.py\<close>, \<open>DbMergeHits\<close> and \<open>DbMergeTotal\<close> state and prove its contract,
  and \<open>CrossSchema\<close> what that path does with the history and with counts that are not additive.

  The binary history. \<open>HistoryTables\<close> (bucket index, contribution index, squash log), \<open>TestRegistry\<close>,
  \<open>HistoryBuckets\<close> (columnar buckets and the lookup by name), \<open>TestStats\<close> (\<open>ncdb/test_stats.py\<close>, with
  \<open>TestStatsSpec\<close>), \<open>HistoryMerge\<close> (\<open>_merge_v2_history\<close> of \<open>ncdb/ncdb_merger.py\<close>: union registry, id remaps,
  run-id offsets, buckets decoded and sealed again). \<open>RunHistory\<close> is the run-history interface of an open
  database (\<open>ncdb/ncdb_ucis.py\<close>): recording, sealing, querying, saving and loading; \<open>RunHistorySpec\<close> states it
  over the list of the recorded runs. \<open>StateExn\<close> has the operations that keep their state when they raise.

  Archives of many runs. \<open>Multirun\<close> is \<open>ncdb/multirun.py\<close> with the archive as its members by name and the
  run table; \<open>run_list\<close> is its abstract state and append, drop and resolve are proved to refine operations
  on it. \<open>Squash\<close> is \<open>ncdb/squash.py\<close>; \<open>Signature\<close> is \<open>ncdb/signature.py\<close>, whose delta chains the reader
  refuses past a cap.

  Issues and plans. \<open>Issues\<close> is \<open>ncdb/issues.py\<close>, parallel columns behind handles, and \<open>IssuesFacts\<close> and
  \<open>IssuesSpec\<close> its refinement of a list of issues with invariants over all reachable states; \<open>IssueHistory\<close> and
  \<open>IssueHistorySpec\<close> are \<open>ncdb/issues_history.py\<close>. \<open>Testplan\<close> and \<open>TestplanSpec\<close> are \<open>ncdb/testplan.py\<close>, \<open>Closure\<close>
  and \<open>ClosureSpec\<close> \<open>ncdb/testplan_closure.py\<close>: the status of testpoints and the gates of verification stages.

  Side tables. \<open>SideTables\<close> has the members that store what the scope tree leaves out of a scope (\<open>ncdb/tags.py\<close>,
  \<open>properties.py\<close>, \<open>toggle.py\<close>, \<open>cross.py\<close>, \<open>design_units.py\<close>) and the accessors of \<open>mem/\<close> behind them; \<open>SideTablesSpec\<close>
  composes the writers and readers as the archive does and proves what comes back.

  Sessions. \<open>ArchiveSession\<close> is what an open archive keeps of its optional members: the lazy getters and setters of
  \<open>NcdbUCIS\<close>, the attributes \<open>NcdbReader\<close> leaves and the members \<open>NcdbWriter.write\<close> (\<open>ncdb/ncdb_writer.py\<close>) selects.
  Lazy loading is proved to agree with reading at once, and what a save drops is stated exactly.

  How the state corresponds to the code. A class is a record or a list with its attributes; a method that
  mutates its object returns it updated, in the order of the code. A reader is a function of the buffer
  and an offset, so an offset past the end behaves as Python's slicing or indexing does there. A loop over
  a container is structural recursion; the only loops whose end is not structural are the LEB128 loops,
  whose measures are the value written and the bytes left, the search for a free member index, bounded
  by the number of indices taken, the depth of a history node, bounded by its position, and the reader of the
  scope tree. That reader alone carries fuel: \<open>read_scope\<close> for how deep the data nests and \<open>read_all\<close> for how
  many top scopes it has, each started with one more than the number of bytes. Every record takes at least a byte,
  so neither runs out on data that can be read (the round trip of \<open>ScopeTree\<close> proves it for all that is
  written); for \<open>read_scope\<close> running out is the error of data that ends too early.

  Parameters. Compression (zlib, lzma) is a pair of functions with the documented property that
  decompressing undoes compressing; \<open>json.dumps\<close> and \<open>json.loads\<close> are one where bytes matter, and elsewhere
  a JSON member is the value \<open>json.loads\<close> returns. The hash of the manifest and \<open>fnmatch\<close> are functions.
  Floating-point numbers are rationals, and rounding to a 32-bit float a parameter of the statistics table.

  Not modelled: FSM state objects (\<open>ncdb/fsm.py\<close>), attributes, sources and issue titles as members; the container itself (ZIP, temporary files and their move into place), the C accelerator,
  wall-clock time and the merge of the floating-point statistics of two histories; the abstract classes of
  \<open>api/\<close> beyond what the in-memory classes implement; text output (the formatters of \<open>ncdb/reports.py\<close>, the
  exports of \<open>ncdb/testplan_export.py\<close>) and the test-plan importers, which map foreign documents to the plan
  modelled here; the XML, Parquet and Verilator front ends, which translate to and from lxml, pyarrow and DuckDB;
  the visitors, format detection, plug-in registry and conformance tooling.
\<close>

end
